(* ===== verification/Prelude.thy ===== *)
theory Prelude
  imports "HOL-Library.Word"
begin

section \<open>Prelude: bytes, machine integers and shared lemmas\<close>

text \<open>
  The types every component of the storage engine shares, and the generic facts on words,
  lists and prefixes that their proofs use.

  A \<open>char\<close> of the code is a byte (\<open>8 word\<close>); a \<open>std::string\<close> and a \<open>Slice\<close> (a pointer
  with a length into memory that outlives it) are both the list of their bytes. A pair of
  pointers \<open>p\<close>, \<open>limit\<close> that delimits the unread input is the list of the bytes of
  \<open>[p, limit)\<close>, and advancing \<open>p\<close> drops bytes from its front. \<open>uint32_t\<close> and \<open>uint64_t\<close>
  are words of their width, so they wrap around as the code's do. A \<open>size_t\<close> that counts the
  bytes of an object in memory is a \<open>nat\<close>; where the code narrows it to 32 bits the model
  narrows it with \<open>word_of_nat\<close>.
\<close>

unbundle bit_operations_syntax

type_synonym byte = "8 word"
type_synonym bytes = "byte list"
type_synonym u32 = "32 word"
type_synonym u64 = "64 word"

named_theorems coding_simps \<open>evaluation rules of the byte encoders and decoders\<close>
named_theorems wf_intros \<open>introduction rules for the components' invariants\<close>

subsection \<open>Words\<close>

lemma unat_drop_bit_div: "unat (drop_bit n (v :: 'a::len word)) = unat v div 2 ^ n"
  unfolding unat_drop_bit_eq by (rule drop_bit_eq_div)

lemma drop_bit_7_less:
  assumes "128 \<le> (v :: u64)"
  shows "unat (drop_bit 7 v) < unat v"
proof -
  from assms have "128 \<le> unat v" by (simp add: word_le_nat_alt)
  then show ?thesis by (simp add: unat_drop_bit_div)
qed

lemma drop_bit_7_less32:
  assumes "128 \<le> (v :: u32)"
  shows "unat (drop_bit 7 v) < unat v"
proof -
  from assms have "128 \<le> unat v" by (simp add: word_le_nat_alt)
  then show ?thesis by (simp add: unat_drop_bit_div)
qed

lemma and_128_iff_bit: "((b :: byte) AND 128 \<noteq> 0) = bit b 7"
proof -
  have "(128 :: byte) = push_bit 7 1" by simp
  then show ?thesis by (simp only: bit_iff_and_push_bit_not_eq_0)
qed

lemma u64_less: "unat (v :: u64) < 2 ^ 64"
  by (rule order.strict_trans2 [OF unsigned_less]) simp

lemma u32_less: "unat (v :: u32) < 2 ^ 32"
  by (rule order.strict_trans2 [OF unsigned_less]) simp

lemma u8_less: "unat (v :: byte) < 256"
  by (rule order.strict_trans2 [OF unsigned_less]) simp

lemma unat_ucast_32_64 [simp]: "unat (ucast (v :: u32) :: u64) = unat v"
  by (simp add: unsigned_ucast_eq take_bit_nat_eq_self order.strict_trans [OF u32_less])

lemma unat_ucast_8_32 [simp]: "unat (ucast (v :: byte) :: u32) = unat v"
  by (simp add: unsigned_ucast_eq take_bit_nat_eq_self order.strict_trans [OF u8_less])

lemma unat_of_nat_u32: "n < 2 ^ 32 \<Longrightarrow> unat (word_of_nat n :: u32) = n"
  by (simp add: unat_of_nat take_bit_nat_eq_self)

lemma unat_of_nat_u64: "n < 2 ^ 64 \<Longrightarrow> unat (word_of_nat n :: u64) = n"
  by (simp add: unat_of_nat take_bit_nat_eq_self)

subsection \<open>Lists\<close>

text \<open>The length of the longest common prefix, as the code's loops over two strings compute it.\<close>

fun common_prefix_len :: "'a list \<Rightarrow> 'a list \<Rightarrow> nat" where
  "common_prefix_len (x # xs) (y # ys) = (if x = y then Suc (common_prefix_len xs ys) else 0)"
| "common_prefix_len _ _ = 0"

lemma common_prefix_len_le:
  "common_prefix_len xs ys \<le> length xs" "common_prefix_len xs ys \<le> length ys"
  by (induction xs ys rule: common_prefix_len.induct) auto

lemma common_prefix_len_take:
  "take (common_prefix_len xs ys) xs = take (common_prefix_len xs ys) ys"
  by (induction xs ys rule: common_prefix_len.induct) auto

lemma common_prefix_len_nth:
  "common_prefix_len xs ys < length xs \<Longrightarrow> common_prefix_len xs ys < length ys \<Longrightarrow>
   xs ! common_prefix_len xs ys \<noteq> ys ! common_prefix_len xs ys"
  by (induction xs ys rule: common_prefix_len.induct) auto

lemma drop_append_length [simp]: "drop (length xs) (xs @ ys) = ys"
  by simp

lemma length_eq_8:
  "length xs = 8 \<Longrightarrow> \<exists>a b c d e f g h. xs = [a, b, c, d, e, f, g, h]"
  by (auto simp: length_Suc_conv eval_nat_numeral)

lemma length_eq_4: "length xs = 4 \<Longrightarrow> \<exists>a b c d. xs = [a, b, c, d]"
  by (auto simp: length_Suc_conv eval_nat_numeral)

end
