(* ===== verification/SkipList.thy ===== *)
theory SkipList
  imports Prelude
begin

section \<open>The skip list (\<^verbatim>\<open>db/skiplist.h\<close>, \<^verbatim>\<open>util/random.h\<close>)\<close>

text \<open>
  Nodes live in a list indexed by their address; \<open>sl_head\<close> is \<open>head_\<close>, \<open>None\<close> the null pointer,
  and \<open>NewNode\<close> appends. \<open>compare_\<close> is an argument of the operations. The search loops are
  partial functions, since on an arbitrary heap they need not end; on a list that satisfies
  the invariant \<open>sl_ok\<close> they are shown to return.
\<close>

subsection \<open>Random numbers\<close>

definition Random_new :: "u32 \<Rightarrow> u32" where
  "Random_new s =
     (let seed = s AND 0x7fffffff in if seed = 0 \<or> seed = 2147483647 then 1 else seed)"

definition Random_Next :: "u32 \<Rightarrow> u32" where
  "Random_Next seed =
     (let product = (ucast seed :: u64) * 16807;
          seed = (ucast (drop_bit 31 product + (product AND 2147483647)) :: u32)
      in if seed > 2147483647 then seed - 2147483647 else seed)"

definition Random_Uniform :: "u32 \<Rightarrow> u32 \<Rightarrow> u32 \<times> u32" where
  "Random_Uniform seed n = (let seed = Random_Next seed in (seed mod n, seed))"

definition Random_OneIn :: "u32 \<Rightarrow> u32 \<Rightarrow> bool \<times> u32" where
  "Random_OneIn seed n = (let seed = Random_Next seed in (seed mod n = 0, seed))"

definition Random_Skewed :: "u32 \<Rightarrow> nat \<Rightarrow> u32 \<times> u32" where
  "Random_Skewed seed max_log =
     (let (base, seed) = Random_Uniform seed (word_of_nat (max_log + 1))
      in Random_Uniform seed (push_bit (unat base) 1))"

subsection \<open>Nodes and the list\<close>

record 'k Node =
  node_key :: 'k
  node_next :: "nat option list"

record 'k SkipList =
  sl_nodes :: "'k Node list"
  sl_max_height :: nat
  sl_rnd :: u32

definition kMaxHeight :: nat where "kMaxHeight = 12"
definition kBranching :: u32 where "kBranching = 4"

definition sl_head :: nat where "sl_head = 0"

definition Node_Next :: "'k SkipList \<Rightarrow> nat \<Rightarrow> nat \<Rightarrow> nat option" where
  "Node_Next sl x n = node_next (sl_nodes sl ! x) ! n"

definition Node_SetNext :: "nat \<Rightarrow> nat \<Rightarrow> nat option \<Rightarrow> 'k SkipList \<Rightarrow> 'k SkipList" where
  "Node_SetNext x n p sl =
     sl\<lparr>sl_nodes := (sl_nodes sl)[x := (sl_nodes sl ! x)\<lparr>node_next := (node_next (sl_nodes sl ! x))[n := p]\<rparr>]\<rparr>"

definition NewNode :: "'k \<Rightarrow> nat \<Rightarrow> 'k SkipList \<Rightarrow> nat \<times> 'k SkipList" where
  "NewNode key height sl =
     (length (sl_nodes sl),
      sl\<lparr>sl_nodes := sl_nodes sl @ [\<lparr>node_key = key, node_next = replicate height None\<rparr>]\<rparr>)"

abbreviation key_at :: "'k SkipList \<Rightarrow> nat \<Rightarrow> 'k" where
  "key_at sl x \<equiv> node_key (sl_nodes sl ! x)"

text \<open>The head is a node of full height whose key is never read.\<close>

definition SkipList_new :: "'k \<Rightarrow> 'k SkipList" where
  "SkipList_new any_key =
     \<lparr>sl_nodes = [\<lparr>node_key = any_key, node_next = replicate kMaxHeight None\<rparr>],
      sl_max_height = 1, sl_rnd = Random_new 0xdeadbeef\<rparr>"

function RandomHeight_loop :: "nat \<Rightarrow> u32 \<Rightarrow> nat \<times> u32" where
  "RandomHeight_loop height rnd =
     (if height < kMaxHeight then
        (let rnd = Random_Next rnd
         in if rnd mod kBranching = 0 then RandomHeight_loop (height + 1) rnd else (height, rnd))
      else (height, rnd))"
  by pat_completeness auto
termination by (relation "measure (\<lambda>(height, rnd). kMaxHeight - height)") auto

declare RandomHeight_loop.simps [simp del]

definition RandomHeight :: "u32 \<Rightarrow> nat \<times> u32" where
  "RandomHeight rnd = RandomHeight_loop 1 rnd"

definition KeyIsAfterNode :: "('k \<Rightarrow> 'k \<Rightarrow> int) \<Rightarrow> 'k SkipList \<Rightarrow> 'k \<Rightarrow> nat option \<Rightarrow> bool" where
  "KeyIsAfterNode compare sl key n =
     (case n of None \<Rightarrow> False | Some a \<Rightarrow> compare (key_at sl a) key < 0)"

partial_function (option) FindGreaterOrEqual_loop ::
    "('k \<Rightarrow> 'k \<Rightarrow> int) \<Rightarrow> 'k SkipList \<Rightarrow> 'k \<Rightarrow> nat \<Rightarrow> nat \<Rightarrow> nat list
      \<Rightarrow> (nat option \<times> nat list) option" where
  "FindGreaterOrEqual_loop compare sl key x level prev =
     (let next' = Node_Next sl x level in
      if KeyIsAfterNode compare sl key next'
      then FindGreaterOrEqual_loop compare sl key (the next') level prev
      else
        (let prev = prev[level := x]
         in if level = 0 then Some (next', prev)
            else FindGreaterOrEqual_loop compare sl key x (level - 1) prev))"

text \<open>The array \<open>prev\<close> has \<open>kMaxHeight\<close> entries; those not written hold the head here.\<close>

definition FindGreaterOrEqual ::
    "('k \<Rightarrow> 'k \<Rightarrow> int) \<Rightarrow> 'k SkipList \<Rightarrow> 'k \<Rightarrow> (nat option \<times> nat list) option" where
  "FindGreaterOrEqual compare sl key =
     FindGreaterOrEqual_loop compare sl key sl_head (sl_max_height sl - 1) (replicate kMaxHeight sl_head)"

partial_function (option) FindLessThan_loop ::
    "('k \<Rightarrow> 'k \<Rightarrow> int) \<Rightarrow> 'k SkipList \<Rightarrow> 'k \<Rightarrow> nat \<Rightarrow> nat \<Rightarrow> nat option" where
  "FindLessThan_loop compare sl key x level =
     (case Node_Next sl x level of
        None \<Rightarrow> if level = 0 then Some x else FindLessThan_loop compare sl key x (level - 1)
      | Some next' \<Rightarrow>
          if compare (key_at sl next') key \<ge> 0
          then (if level = 0 then Some x else FindLessThan_loop compare sl key x (level - 1))
          else FindLessThan_loop compare sl key next' level)"

definition FindLessThan :: "('k \<Rightarrow> 'k \<Rightarrow> int) \<Rightarrow> 'k SkipList \<Rightarrow> 'k \<Rightarrow> nat option" where
  "FindLessThan compare sl key = FindLessThan_loop compare sl key sl_head (sl_max_height sl - 1)"

partial_function (option) FindLast_loop :: "'k SkipList \<Rightarrow> nat \<Rightarrow> nat \<Rightarrow> nat option" where
  "FindLast_loop sl x level =
     (case Node_Next sl x level of
        None \<Rightarrow> if level = 0 then Some x else FindLast_loop sl x (level - 1)
      | Some next' \<Rightarrow> FindLast_loop sl next' level)"

definition FindLast :: "'k SkipList \<Rightarrow> nat option" where
  "FindLast sl = FindLast_loop sl sl_head (sl_max_height sl - 1)"

text \<open>One turn of the loop that splices the new node \<open>x\<close> in behind \<open>prev[i]\<close>.\<close>

definition link_level :: "nat \<Rightarrow> nat list \<Rightarrow> nat \<Rightarrow> 'k SkipList \<Rightarrow> 'k SkipList" where
  "link_level x prev i sl =
     (let sl = Node_SetNext x i (Node_Next sl (prev ! i) i) sl
      in Node_SetNext (prev ! i) i (Some x) sl)"

definition SkipList_Insert :: "('k \<Rightarrow> 'k \<Rightarrow> int) \<Rightarrow> 'k \<Rightarrow> 'k SkipList \<Rightarrow> 'k SkipList option" where
  "SkipList_Insert compare key sl =
     map_option (\<lambda>(x, prev).
       let (height, rnd) = RandomHeight (sl_rnd sl);
           sl = sl\<lparr>sl_rnd := rnd\<rparr>;
           prev = map (\<lambda>i. if sl_max_height sl \<le> i \<and> i < height then sl_head else prev ! i) [0..<kMaxHeight];
           sl = (if height > sl_max_height sl then sl\<lparr>sl_max_height := height\<rparr> else sl);
           (x, sl) = NewNode key height sl
       in fold (link_level x prev) [0..<height] sl) (FindGreaterOrEqual compare sl key)"

definition SkipList_Contains :: "('k \<Rightarrow> 'k \<Rightarrow> int) \<Rightarrow> 'k SkipList \<Rightarrow> 'k \<Rightarrow> bool option" where
  "SkipList_Contains compare sl key =
     map_option (\<lambda>(x, prev). case x of None \<Rightarrow> False | Some a \<Rightarrow> compare key (key_at sl a) = 0)
       (FindGreaterOrEqual compare sl key)"

subsection \<open>The iterator\<close>

text \<open>An iterator is its node. Positioning on the head makes it invalid.\<close>

definition Iter_of :: "nat \<Rightarrow> nat option" where
  "Iter_of x = (if x = sl_head then None else Some x)"

definition Iter_Next :: "'k SkipList \<Rightarrow> nat option \<Rightarrow> nat option" where
  "Iter_Next sl node = Node_Next sl (the node) 0"

definition Iter_Prev :: "('k \<Rightarrow> 'k \<Rightarrow> int) \<Rightarrow> 'k SkipList \<Rightarrow> nat option \<Rightarrow> nat option option" where
  "Iter_Prev compare sl node = map_option Iter_of (FindLessThan compare sl (key_at sl (the node)))"

definition Iter_Seek :: "('k \<Rightarrow> 'k \<Rightarrow> int) \<Rightarrow> 'k SkipList \<Rightarrow> 'k \<Rightarrow> nat option option" where
  "Iter_Seek compare sl target = map_option fst (FindGreaterOrEqual compare sl target)"

definition Iter_SeekToFirst :: "'k SkipList \<Rightarrow> nat option" where
  "Iter_SeekToFirst sl = Node_Next sl sl_head 0"

definition Iter_SeekToLast :: "'k SkipList \<Rightarrow> nat option option" where
  "Iter_SeekToLast sl = map_option Iter_of (FindLast sl)"

subsection \<open>Properties of the generator\<close>

lemma unat_and_mask31: "unat ((x :: u64) AND 2147483647) = unat x mod 2147483648"
proof -
  have "(2147483647 :: u64) = mask 31" by (simp add: mask_eq_exp_minus_1)
  then have "x AND 2147483647 = take_bit 31 x" by (simp only: take_bit_eq_mask)
  then have "unat (x AND 2147483647) = take_bit 31 (unat x)" by (simp only: unsigned_take_bit_eq)
  then show ?thesis by (simp add: take_bit_eq_mod)
qed

lemma Random_Next_range:
  assumes "0 < seed" "seed < 2147483647"
  shows "unat (Random_Next seed) = (unat seed * 16807) mod 2147483647 \<and>
    0 < Random_Next seed \<and> Random_Next seed < 2147483647"
proof -
  let ?M = "2147483647 :: nat"
  define p where "p = unat seed * 16807"
  define hi where "hi = p div 2147483648"
  define lo where "lo = p mod 2147483648"
  let ?q = "(ucast seed :: u64) * 16807"
  have s: "0 < unat seed" "unat seed < ?M"
    using assms by (simp_all add: word_less_nat_alt)
  have up: "unat ?q = p"
    using s by (simp add: unat_word_ariths unat_ucast_32_64 p_def)
  have hl: "hi < 16807" "lo < 2147483648" "p = hi * 2147483648 + lo"
    using s by (simp_all add: hi_def lo_def p_def)
  have sum: "unat (drop_bit 31 ?q + (?q AND 2147483647)) = hi + lo"
  proof -
    have "unat (drop_bit 31 ?q) = hi" "unat (?q AND 2147483647) = lo"
      unfolding unat_drop_bit_div unat_and_mask31 up by (simp_all add: hi_def lo_def)
    then show ?thesis using hl(1,2) by (simp add: unat_word_ariths del: drop_bit_eq_div)
  qed
  have low: "unat (ucast (drop_bit 31 ?q + (?q AND 2147483647)) :: u32) = hi + lo"
    using hl(1,2) by (simp add: unsigned_ucast_eq sum take_bit_nat_eq_self del: drop_bit_eq_div)
  have pm: "p = hi * ?M + (hi + lo)" using hl(3) by simp
  have ne: "hi + lo \<noteq> ?M" "hi + lo \<noteq> 0"
  proof
    assume "hi + lo = ?M"
    then have "?M dvd p" unfolding pm by simp
    moreover have "coprime ?M (16807 :: nat)" by (simp add: coprime_iff_gcd_eq_1 gcd_non_0_nat)
    ultimately have "?M dvd unat seed" by (simp add: p_def coprime_dvd_mult_left_iff)
    with s show False by (simp add: nat_dvd_not_less)
  next
    show "hi + lo \<noteq> 0" using pm s by (auto simp: p_def)
  qed
  have N: "unat (Random_Next seed) = (if hi + lo > ?M then hi + lo - ?M else hi + lo)"
    using low by (auto simp: Random_Next_def Let_def word_less_nat_alt unat_sub_if' split: if_splits)
  have "p mod ?M = (hi + lo) mod ?M" unfolding pm by (rule mod_mult_self3)
  also have "\<dots> = unat (Random_Next seed)"
    using ne hl(1,2) unfolding N by (simp add: mod_if)
  finally have "unat (Random_Next seed) = p mod ?M" by simp
  moreover from this have "unat (Random_Next seed) < ?M" by simp
  moreover have "0 < unat (Random_Next seed)" using ne unfolding N by auto
  ultimately show ?thesis by (simp add: p_def word_less_nat_alt)
qed

lemma Random_new_range: "0 < Random_new s \<and> Random_new s < 2147483647"
proof -
  define x where "x = s AND 0x7fffffff"
  have "(0x7fffffff :: u32) = mask 31" by (simp add: mask_eq_exp_minus_1)
  then have "x = take_bit 31 s" by (simp only: x_def take_bit_eq_mask)
  then have "unat x \<le> 2147483647"
    using take_bit_nat_less_exp [of 31 "unat s"] by (simp add: unsigned_take_bit_eq)
  then have "x \<le> 2147483647" by (simp add: word_le_nat_alt)
  then show ?thesis
    by (auto simp: Random_new_def Let_def word_gt_0 order.strict_iff_order simp flip: x_def)
qed

text \<open>
  The generator computes \<open>seed * 16807 mod (2^31 - 1)\<close> by shifting and
  masking, and never reaches the two fixed points 0 and \<open>2^31 - 1\<close>, whatever the initial seed.
\<close>

theorem lehmer_generator:
  "0 < (Random_Next ^^ n) (Random_new s) \<and> (Random_Next ^^ n) (Random_new s) < 2147483647 \<and>
   unat ((Random_Next ^^ n) (Random_new s)) = (unat (Random_new s) * 16807 ^ n) mod 2147483647"
proof (induction n)
  case 0
  have "unat (Random_new s) < 2147483647"
    using Random_new_range [of s] by (simp add: word_less_nat_alt)
  then show ?case using Random_new_range by simp
next
  case (Suc n)
  let ?r = "(Random_Next ^^ n) (Random_new s)"
  have "unat (Random_Next ?r) = (unat ?r * 16807) mod 2147483647" "0 < Random_Next ?r \<and> Random_Next ?r < 2147483647"
    using Random_Next_range [of ?r] Suc by blast+
  moreover have "(unat ?r * 16807) mod 2147483647 = (unat (Random_new s) * 16807 ^ Suc n) mod 2147483647"
    using Suc mod_mult_left_eq [of "unat (Random_new s) * 16807 ^ n" 2147483647 16807]
    by (simp add: ac_simps)
  ultimately show ?case by simp
qed

lemma RandomHeight_loop_range:
  "height \<le> kMaxHeight \<Longrightarrow> height \<le> fst (RandomHeight_loop height rnd) \<and>
     fst (RandomHeight_loop height rnd) \<le> kMaxHeight"
proof (induction height rnd rule: RandomHeight_loop.induct)
  case (1 height rnd)
  show ?case
    using "1.IH" "1.prems" by (subst (1 2) RandomHeight_loop.simps) (force simp: Let_def)
qed

lemma RandomHeight_range: "1 \<le> fst (RandomHeight rnd)" "fst (RandomHeight rnd) \<le> kMaxHeight"
  using RandomHeight_loop_range [of 1 rnd] by (simp_all add: RandomHeight_def kMaxHeight_def)

subsection \<open>The invariant\<close>

text \<open>
  \<open>sl_ok compare valid sl L\<close>: the nodes of the list, in order, are those at the addresses \<open>L\<close>;
  the link of a node at a level leads to the next node of the list that reaches that level.
\<close>

definition height_of :: "'k SkipList \<Rightarrow> nat \<Rightarrow> nat" where
  "height_of sl a = length (node_next (sl_nodes sl ! a))"

definition chain_ok :: "'k SkipList \<Rightarrow> nat list \<Rightarrow> bool" where
  "chain_ok sl L \<longleftrightarrow> (\<forall>xs x ys l. L = xs @ x # ys \<longrightarrow> l < height_of sl x \<longrightarrow>
     Node_Next sl x l = find (\<lambda>a. l < height_of sl a) ys)"

definition sl_ok :: "('k \<Rightarrow> 'k \<Rightarrow> int) \<Rightarrow> ('k \<Rightarrow> bool) \<Rightarrow> 'k SkipList \<Rightarrow> nat list \<Rightarrow> bool" where
  "sl_ok compare valid sl L \<longleftrightarrow>
     distinct (sl_head # L) \<and> (\<forall>a \<in> set (sl_head # L). a < length (sl_nodes sl)) \<and>
     height_of sl sl_head = kMaxHeight \<and>
     1 \<le> sl_max_height sl \<and> sl_max_height sl \<le> kMaxHeight \<and>
     (\<forall>a \<in> set L. 1 \<le> height_of sl a \<and> height_of sl a \<le> sl_max_height sl \<and> valid (key_at sl a)) \<and>
     sorted_wrt (\<lambda>a b. compare (key_at sl a) (key_at sl b) < 0) L \<and>
     chain_ok sl (sl_head # L)"

definition sl_keys :: "'k SkipList \<Rightarrow> nat list \<Rightarrow> 'k list" where
  "sl_keys sl L = map (key_at sl) L"

lemma chain_okD:
  "chain_ok sl (xs @ x # ys) \<Longrightarrow> l < height_of sl x \<Longrightarrow>
     Node_Next sl x l = find (\<lambda>a. l < height_of sl a) ys"
  by (auto simp: chain_ok_def)

lemma find_SomeD: "find P ys = Some n \<Longrightarrow> \<exists>us vs. ys = us @ n # vs \<and> (\<forall>u \<in> set us. \<not> P u) \<and> P n"
proof (induction ys)
  case (Cons y ys)
  show ?case
  proof (cases "P y")
    case True
    with Cons.prems show ?thesis by (intro exI [of _ "[]"] exI [of _ ys]) auto
  next
    case False
    then obtain us vs where "ys = us @ n # vs" "\<forall>u \<in> set us. \<not> P u" "P n" using Cons by auto
    with False show ?thesis by (intro exI [of _ "y # us"] exI [of _ vs]) auto
  qed
qed simp

lemma find_append: "find P (xs @ ys) = (case find P xs of None \<Rightarrow> find P ys | Some x \<Rightarrow> Some x)"
  by (induction xs) auto

lemma find_cong_set: "(\<And>x. x \<in> set xs \<Longrightarrow> P x = Q x) \<Longrightarrow> find P xs = find Q xs"
  by (induction xs) auto

text \<open>
  The contract between the list and its comparator, on the keys that may be stored.
\<close>

locale skiplist_order =
  fixes compare :: "'k \<Rightarrow> 'k \<Rightarrow> int" and valid :: "'k \<Rightarrow> bool"
  assumes cmp_refl: "valid a \<Longrightarrow> compare a a = 0"
    and cmp_less_trans: "valid a \<Longrightarrow> valid b \<Longrightarrow> valid d \<Longrightarrow> compare a b < 0 \<Longrightarrow> compare b d < 0 \<Longrightarrow>
      compare a d < 0"
    and cmp_swap: "valid a \<Longrightarrow> valid b \<Longrightarrow> compare b a > 0 \<longleftrightarrow> compare a b < 0"
begin

abbreviation before :: "'k SkipList \<Rightarrow> 'k \<Rightarrow> nat \<Rightarrow> bool" where
  "before sl key a \<equiv> compare (key_at sl a) key < 0"

lemma before_prefix:
  assumes "sl_ok compare valid sl (us @ n # vs)" "valid key" "before sl key n" "u \<in> set us"
  shows "before sl key u"
proof -
  have "compare (key_at sl u) (key_at sl n) < 0" "valid (key_at sl u)" "valid (key_at sl n)"
    using assms(1,4) by (auto simp: sl_ok_def sorted_wrt_append)
  with assms cmp_less_trans show ?thesis by blast
qed

lemma drop_not_before:
  assumes "sl_ok compare valid sl L" "valid key" "a \<in> set (dropWhile (before sl key) L)"
  shows "\<not> before sl key a"
proof
  assume b: "before sl key a"
  obtain n ys where n: "dropWhile (before sl key) L = n # ys" using assms(3) by (cases "dropWhile (before sl key) L") auto
  then have nb: "\<not> before sl key n" by (metis hd_dropWhile list.discI list.sel(1))
  have L: "L = takeWhile (before sl key) L @ n # ys" using n by (metis takeWhile_dropWhile_id)
  show False
  proof (cases "a = n")
    case True
    with nb b show False by simp
  next
    case False
    then have "a \<in> set ys" using assms(3) n by simp
    then obtain u v where ys: "ys = u @ a # v" by (auto simp: in_set_conv_decomp)
    have "sl_ok compare valid sl ((takeWhile (before sl key) L @ n # u) @ a # v)"
      using assms(1) L ys by simp
    from before_prefix [OF this assms(2) b, of n] nb show False by simp
  qed
qed

text \<open>The state of the search: it stands on \<open>x\<close> at \<open>level\<close>, everything up to \<open>x\<close> is before the key.\<close>

lemma FindGreaterOrEqual_loop_correct:
  assumes "sl_ok compare valid sl L" "valid key" "sl_head # L = xs @ x # ys"
    "\<forall>a \<in> set (xs @ [x]). a \<noteq> sl_head \<longrightarrow> before sl key a"
    "level < height_of sl x" "level < length prev"
  shows "\<exists>prev'. FindGreaterOrEqual_loop compare sl key x level prev =
      Some (find (\<lambda>a. \<not> before sl key a) ys, prev') \<and> length prev' = length prev \<and>
      (\<forall>j. prev' ! j = (if j \<le> level
        then last (filter (\<lambda>a. j < height_of sl a) (xs @ x # takeWhile (before sl key) ys)) else prev ! j))"
  using assms(3-)
proof (induction "level + length ys" arbitrary: level x xs ys prev rule: less_induct)
  case less
  note IH = less.hyps and prems = less.prems
  have ch: "Node_Next sl x level = find (\<lambda>a. level < height_of sl a) ys"
    using chain_okD [of sl xs x ys level] assms(1) prems(1,3) by (simp add: sl_ok_def)
  have hs: "1 \<le> height_of sl a" "a \<noteq> sl_head" if "a \<in> set ys" for a
  proof -
    have "a \<in> set L" using prems(1) that by (cases xs) auto
    then show "1 \<le> height_of sl a" "a \<noteq> sl_head" using assms(1) by (auto simp: sl_ok_def)
  qed
  have down: ?case if nb: "\<not> KeyIsAfterNode compare sl key (Node_Next sl x level)"
    and tw: "\<forall>a \<in> set (takeWhile (before sl key) ys). \<not> level < height_of sl a"
  proof -
    have lastx: "last (filter (\<lambda>a. level < height_of sl a) (xs @ x # takeWhile (before sl key) ys)) = x"
      using tw prems(3) by (simp add: filter_empty_conv)
    show ?thesis
    proof (cases "level = 0")
      case True
      have t0: "takeWhile (before sl key) ys = []"
      proof (rule ccontr)
        assume "takeWhile (before sl key) ys \<noteq> []"
        then obtain a where "a \<in> set (takeWhile (before sl key) ys)" by (meson last_in_set)
        with tw hs(1) [of a] True show False by (auto dest: set_takeWhileD)
      qed
      have "find (\<lambda>a. level < height_of sl a) ys = find (\<lambda>a. \<not> before sl key a) ys"
        using t0 hs(1) [of "hd ys"] True by (cases ys) (simp_all split: if_splits)
      then show ?thesis
        using nb ch True lastx prems(4)
        by (subst FindGreaterOrEqual_loop.simps) (simp add: Let_def nth_list_update)
    next
      case False
      have lt: "level - 1 + length ys < level + length ys"
        using False by simp
      have "level - 1 < height_of sl x" "level - 1 < length (prev[level := x])" using prems(3,4) by simp_all
      from IH [OF lt prems(1,2) this] obtain prev' where p:
        "FindGreaterOrEqual_loop compare sl key x (level - 1) (prev[level := x]) =
          Some (find (\<lambda>a. \<not> before sl key a) ys, prev')" "length prev' = length prev"
        "\<forall>j. prev' ! j = (if j \<le> level - 1
          then last (filter (\<lambda>a. j < height_of sl a) (xs @ x # takeWhile (before sl key) ys))
          else prev[level := x] ! j)"
        by auto
      have "prev' ! j = (if j \<le> level
          then last (filter (\<lambda>a. j < height_of sl a) (xs @ x # takeWhile (before sl key) ys)) else prev ! j)" for j
        using p(3) lastx prems(4) False by (cases "j = level") (auto simp: nth_list_update)
      then show ?thesis
        using nb False p by (subst FindGreaterOrEqual_loop.simps) (simp add: Let_def)
    qed
  qed
  show ?case
  proof (cases "Node_Next sl x level")
    case None
    then have "\<forall>a \<in> set ys. \<not> level < height_of sl a" using ch by (simp add: find_None_iff)
    then show ?thesis
      by (intro down) (auto simp: None KeyIsAfterNode_def dest: set_takeWhileD)
  next
    case (Some n)
    obtain us vs where ys: "ys = us @ n # vs" "\<forall>u \<in> set us. \<not> level < height_of sl u" "level < height_of sl n"
      using find_SomeD [of _ ys n] ch Some by fastforce
    show ?thesis
    proof (cases "before sl key n")
      case False
      then have "set (takeWhile (before sl key) ys) \<subseteq> set us"
        unfolding ys(1) by (simp add: takeWhile_append) (auto dest: set_takeWhileD)
      then show ?thesis using ys(2) by (intro down) (auto simp: Some KeyIsAfterNode_def False)
    next
      case True
      have ok: "sl_ok compare valid sl ((tl xs @ (if xs = [] then [] else [x]) @ us) @ n # vs)"
        using assms(1) prems(1) ys(1) by (cases xs) auto
      have us: "before sl key u" if "u \<in> set us" for u
        using before_prefix [OF ok assms(2) True, of u] that by simp
      have split: "sl_head # L = (xs @ x # us) @ n # vs" using prems(1) ys(1) by simp
      have all: "\<forall>a \<in> set ((xs @ x # us) @ [n]). a \<noteq> sl_head \<longrightarrow> before sl key a"
        using prems(2) us True by auto
      have "level + length vs < level + length ys"
        by (simp add: ys(1))
      from IH [OF this split all ys(3) prems(4)]
      obtain prev' where p: "FindGreaterOrEqual_loop compare sl key n level prev =
          Some (find (\<lambda>a. \<not> before sl key a) vs, prev')" "length prev' = length prev"
        "\<forall>j. prev' ! j = (if j \<le> level
          then last (filter (\<lambda>a. j < height_of sl a) ((xs @ x # us) @ n # takeWhile (before sl key) vs))
          else prev ! j)" by blast
      have tw: "takeWhile (before sl key) ys = us @ n # takeWhile (before sl key) vs"
        unfolding ys(1) using us True by (simp add: takeWhile_append)
      have fd: "find (\<lambda>a. \<not> before sl key a) ys = find (\<lambda>a. \<not> before sl key a) vs"
      proof -
        have "find (\<lambda>a. \<not> before sl key a) us = None" using us by (auto simp: find_None_iff)
        then show ?thesis using True by (simp add: ys(1) find_append)
      qed
      show ?thesis
        using p Some True unfolding tw fd
        by (subst FindGreaterOrEqual_loop.simps) (simp add: KeyIsAfterNode_def)
    qed
  qed
qed

lemma FindGreaterOrEqual_correct:
  assumes "sl_ok compare valid sl L" "valid key"
  shows "\<exists>prev. FindGreaterOrEqual compare sl key = Some (find (\<lambda>a. \<not> before sl key a) L, prev) \<and>
      length prev = kMaxHeight \<and>
      (\<forall>j. j < sl_max_height sl \<longrightarrow>
        prev ! j = last (filter (\<lambda>a. j < height_of sl a) (sl_head # takeWhile (before sl key) L)))"
proof -
  have h: "sl_max_height sl - 1 < height_of sl sl_head" "sl_max_height sl - 1 < kMaxHeight" "1 \<le> sl_max_height sl"
    using assms(1) by (auto simp: sl_ok_def)
  have "\<exists>prev. FindGreaterOrEqual compare sl key = Some (find (\<lambda>a. \<not> before sl key a) L, prev) \<and>
      length prev = kMaxHeight \<and>
      (\<forall>j. prev ! j = (if j \<le> sl_max_height sl - 1
        then last (filter (\<lambda>a. j < height_of sl a) ([] @ sl_head # takeWhile (before sl key) L))
        else replicate kMaxHeight sl_head ! j))"
    using FindGreaterOrEqual_loop_correct [OF assms, of "[]" sl_head L "sl_max_height sl - 1" "replicate kMaxHeight sl_head"] h
    by (simp add: FindGreaterOrEqual_def)
  then obtain prev where p: "FindGreaterOrEqual compare sl key = Some (find (\<lambda>a. \<not> before sl key a) L, prev)"
    "length prev = kMaxHeight"
    "\<forall>j. prev ! j = (if j \<le> sl_max_height sl - 1
        then last (filter (\<lambda>a. j < height_of sl a) ([] @ sl_head # takeWhile (before sl key) L))
        else replicate kMaxHeight sl_head ! j)" by blast
  have "prev ! j = last (filter (\<lambda>a. j < height_of sl a) (sl_head # takeWhile (before sl key) L))"
    if "j < sl_max_height sl" for j
  proof -
    have "j \<le> sl_max_height sl - 1" using that by linarith
    then show ?thesis using p(3) by simp
  qed
  then show ?thesis using p(1,2) by blast
qed

lemma FindLessThan_loop_correct:
  assumes "sl_ok compare valid sl L" "valid key" "sl_head # L = xs @ x # ys" "level < height_of sl x"
  shows "FindLessThan_loop compare sl key x level = Some (last (x # takeWhile (before sl key) ys))"
  using assms(3-)
proof (induction "level + length ys" arbitrary: level x xs ys rule: less_induct)
  case less
  note IH = less.hyps and prems = less.prems
  have ch: "Node_Next sl x level = find (\<lambda>a. level < height_of sl a) ys"
    using chain_okD [of sl xs x ys level] assms(1) prems(1,2) by (simp add: sl_ok_def)
  have hs: "1 \<le> height_of sl a" if "a \<in> set ys" for a
  proof -
    have "a \<in> set L" using prems(1) that by (cases xs) auto
    then show ?thesis using assms(1) by (auto simp: sl_ok_def)
  qed
  have down: "(if level = 0 then Some x else FindLessThan_loop compare sl key x (level - 1)) =
      Some (last (x # takeWhile (before sl key) ys))"
    if tw: "\<forall>a \<in> set (takeWhile (before sl key) ys). \<not> level < height_of sl a"
  proof (cases "level = 0")
    case True
    then have "takeWhile (before sl key) ys = []"
      using tw hs [of "hd ys"] by (cases ys) (auto split: if_splits)
    then show ?thesis using True by simp
  next
    case False
    then show ?thesis using IH [of "level - 1" ys xs x] prems by simp
  qed
  show ?case
  proof (cases "Node_Next sl x level")
    case None
    then have "\<forall>a \<in> set ys. \<not> level < height_of sl a" using ch by (simp add: find_None_iff)
    then have "\<forall>a \<in> set (takeWhile (before sl key) ys). \<not> level < height_of sl a"
      by (auto dest: set_takeWhileD)
    from down [OF this] None show ?thesis by (subst FindLessThan_loop.simps) simp
  next
    case (Some n)
    obtain us vs where ys: "ys = us @ n # vs" "\<forall>u \<in> set us. \<not> level < height_of sl u" "level < height_of sl n"
      using find_SomeD [of _ ys n] ch Some by fastforce
    show ?thesis
    proof (cases "before sl key n")
      case False
      then have "set (takeWhile (before sl key) ys) \<subseteq> set us"
        unfolding ys(1) by (simp add: takeWhile_append) (auto dest: set_takeWhileD)
      with ys(2) have "\<forall>a \<in> set (takeWhile (before sl key) ys). \<not> level < height_of sl a" by blast
      from down [OF this] Some False show ?thesis by (subst FindLessThan_loop.simps) simp
    next
      case True
      have ok: "sl_ok compare valid sl ((tl xs @ (if xs = [] then [] else [x]) @ us) @ n # vs)"
        using assms(1) prems(1) ys(1) by (cases xs) auto
      have us: "before sl key u" if "u \<in> set us" for u
        using before_prefix [OF ok assms(2) True, of u] that by simp
      have split: "sl_head # L = (xs @ x # us) @ n # vs" using prems(1) ys(1) by simp
      have "level + length vs < level + length ys" by (simp add: ys(1))
      from IH [OF this split ys(3)] True Some us
      show ?thesis by (subst FindLessThan_loop.simps) (simp add: ys(1) takeWhile_append)
    qed
  qed
qed

lemma FindLessThan_correct:
  assumes "sl_ok compare valid sl L" "valid key"
  shows "FindLessThan compare sl key = Some (last (sl_head # takeWhile (before sl key) L))"
  using FindLessThan_loop_correct [OF assms, of "[]" sl_head L "sl_max_height sl - 1"] assms(1)
  by (auto simp: FindLessThan_def sl_ok_def)

lemma FindLast_loop_correct:
  assumes "sl_ok compare valid sl L" "sl_head # L = xs @ x # ys" "level < height_of sl x"
  shows "FindLast_loop sl x level = Some (last (x # ys))"
  using assms(2-)
proof (induction "level + length ys" arbitrary: level x xs ys rule: less_induct)
  case less
  note IH = less.hyps and prems = less.prems
  have ch: "Node_Next sl x level = find (\<lambda>a. level < height_of sl a) ys"
    using chain_okD [of sl xs x ys level] assms(1) prems(1,2) by (simp add: sl_ok_def)
  have hs: "1 \<le> height_of sl a" if "a \<in> set ys" for a
  proof -
    have "a \<in> set L" using prems(1) that by (cases xs) auto
    then show ?thesis using assms(1) by (auto simp: sl_ok_def)
  qed
  show ?case
  proof (cases "Node_Next sl x level")
    case None
    then have no: "\<forall>a \<in> set ys. \<not> level < height_of sl a" using ch by (simp add: find_None_iff)
    show ?thesis
    proof (cases "level = 0")
      case True
      then have "ys = []" using no hs [of "hd ys"] by (cases ys) auto
      then show ?thesis using True None by (subst FindLast_loop.simps) simp
    next
      case False
      then show ?thesis using IH [of "level - 1" ys xs x] prems None
        by (subst FindLast_loop.simps) simp
    qed
  next
    case (Some n)
    obtain us vs where ys: "ys = us @ n # vs" "level < height_of sl n"
      using find_SomeD [of _ ys n] ch Some by fastforce
    have split: "sl_head # L = (xs @ x # us) @ n # vs" using prems(1) ys(1) by simp
    have "level + length vs < level + length ys" by (simp add: ys(1))
    from IH [OF this split ys(2)] Some show ?thesis
      by (subst FindLast_loop.simps) (simp add: ys(1))
  qed
qed

lemma FindLast_correct: "sl_ok compare valid sl L \<Longrightarrow> FindLast sl = Some (last (sl_head # L))"
  using FindLast_loop_correct [of sl L "[]" sl_head L "sl_max_height sl - 1"]
  by (auto simp: FindLast_def sl_ok_def)

end

subsection \<open>Insertion\<close>

lemma SetNext_fields [simp]:
  "length (sl_nodes (Node_SetNext x n p sl)) = length (sl_nodes sl)"
  "sl_max_height (Node_SetNext x n p sl) = sl_max_height sl"
  by (simp_all add: Node_SetNext_def)

lemma key_at_SetNext [simp]: "key_at (Node_SetNext x n p sl) a = key_at sl a"
  by (cases "x < length (sl_nodes sl)"; cases "a = x") (simp_all add: Node_SetNext_def list_update_beyond)

lemma height_of_SetNext [simp]: "height_of (Node_SetNext x n p sl) a = height_of sl a"
  by (cases "x < length (sl_nodes sl)"; cases "a = x") (simp_all add: Node_SetNext_def height_of_def list_update_beyond)

lemma Next_SetNext:
  "x < length (sl_nodes sl) \<Longrightarrow> n < height_of sl x \<Longrightarrow>
     Node_Next (Node_SetNext x n p sl) a l = (if a = x \<and> l = n then p else Node_Next sl a l)"
  by (cases "a = x") (auto simp: Node_Next_def Node_SetNext_def height_of_def nth_list_update)

lemma link_levels:
  assumes "n < length (sl_nodes sl)" "height_of sl n = h"
    "\<And>i. i < h \<Longrightarrow> prev ! i < length (sl_nodes sl) \<and> i < height_of sl (prev ! i) \<and> prev ! i \<noteq> n"
    "k \<le> h"
  defines "sl' \<equiv> fold (link_level n prev) [0..<k] sl"
  shows "length (sl_nodes sl') = length (sl_nodes sl) \<and> sl_max_height sl' = sl_max_height sl \<and>
    (\<forall>a. key_at sl' a = key_at sl a \<and> height_of sl' a = height_of sl a) \<and>
    (\<forall>a l. Node_Next sl' a l =
      (if l < k \<and> a = n then Node_Next sl (prev ! l) l
       else if l < k \<and> a = prev ! l then Some n else Node_Next sl a l))"
  using assms(4) unfolding sl'_def
proof (induction k)
  case (Suc k)
  define s where "s = fold (link_level n prev) [0..<k] sl"
  have ih: "length (sl_nodes s) = length (sl_nodes sl)" "sl_max_height s = sl_max_height sl"
    "\<And>a. key_at s a = key_at sl a" "\<And>a. height_of s a = height_of sl a"
    "\<And>a l. Node_Next s a l = (if l < k \<and> a = n then Node_Next sl (prev ! l) l
       else if l < k \<and> a = prev ! l then Some n else Node_Next sl a l)"
    using Suc unfolding s_def by auto
  have k: "prev ! k < length (sl_nodes sl)" "k < height_of sl (prev ! k)" "prev ! k \<noteq> n" "k < height_of sl n"
    using assms(2) assms(3) [of k] Suc.prems by auto
  have e: "fold (link_level n prev) [0..<Suc k] sl = link_level n prev k s" by (simp add: s_def)
  show ?case
    unfolding e unfolding link_level_def Let_def
    using k assms(1) by (auto simp: ih Next_SetNext less_Suc_eq)
qed simp

context skiplist_order
begin

lemma split_before:
  assumes "sl_ok compare valid sl L" "valid key" "\<forall>a \<in> set L. compare (key_at sl a) key \<noteq> 0"
  shows "\<forall>a \<in> set (takeWhile (before sl key) L). before sl key a"
    "\<forall>a \<in> set (dropWhile (before sl key) L). compare key (key_at sl a) < 0"
proof -
  show "\<forall>a \<in> set (takeWhile (before sl key) L). before sl key a" by (auto dest: set_takeWhileD)
  show "\<forall>a \<in> set (dropWhile (before sl key) L). compare key (key_at sl a) < 0"
  proof
    fix a assume a: "a \<in> set (dropWhile (before sl key) L)"
    then have "a \<in> set L" by (rule set_dropWhileD)
    then have "valid (key_at sl a)" "compare (key_at sl a) key \<noteq> 0"
      using assms(1,3) by (auto simp: sl_ok_def)
    then show "compare key (key_at sl a) < 0"
      using drop_not_before [OF assms(1,2) a] cmp_swap [of key "key_at sl a"] assms(2) by simp
  qed
qed

lemma find_last_split:
  assumes "l < height_of sl x" "as = xs @ x # us"
  shows "(x = last (filter (\<lambda>a. l < height_of sl a) as) \<and> distinct as \<longrightarrow> find (\<lambda>a. l < height_of sl a) us = None) \<and>
    (x \<noteq> last (filter (\<lambda>a. l < height_of sl a) as) \<longrightarrow>
      find (\<lambda>a. l < height_of sl a) (us @ ys) = find (\<lambda>a. l < height_of sl a) (us @ zs))"
proof -
  let ?P = "\<lambda>a. l < height_of sl a"
  have f: "filter ?P as = filter ?P xs @ x # filter ?P us" using assms by simp
  show ?thesis
  proof (cases "filter ?P us = []")
    case True
    then have "last (filter ?P as) = x" "find ?P us = None"
      unfolding f by (simp_all add: filter_empty_conv find_None_iff)
    then show ?thesis by simp
  next
    case False
    then have l: "last (filter ?P as) = last (filter ?P us)" unfolding f by simp
    have "last (filter ?P us) \<in> set us" using False last_in_set by fastforce
    then have "x = last (filter ?P as) \<longrightarrow> \<not> distinct as" using l assms(2) by auto
    moreover have "find ?P us \<noteq> None" using False by (auto simp: find_None_iff filter_empty_conv)
    ultimately show ?thesis by (auto simp: find_append)
  qed
qed

lemma Insert_correct:
  assumes ok: "sl_ok compare valid sl L" and key: "valid key"
    and new: "\<forall>a \<in> set L. compare (key_at sl a) key \<noteq> 0"
  shows "\<exists>sl' n. SkipList_Insert compare key sl = Some sl' \<and>
    sl_ok compare valid sl' (takeWhile (before sl key) L @ n # dropWhile (before sl key) L) \<and>
    key_at sl' n = key \<and> (\<forall>a \<in> set L. key_at sl' a = key_at sl a)"
proof -
  let ?as = "takeWhile (before sl key) L" and ?bs = "dropWhile (before sl key) L"
  let ?n = "length (sl_nodes sl)"
  obtain prev0 where prev0: "FindGreaterOrEqual compare sl key = Some (find (\<lambda>a. \<not> before sl key a) L, prev0)"
    "\<forall>j. j < sl_max_height sl \<longrightarrow>
        prev0 ! j = last (filter (\<lambda>a. j < height_of sl a) (sl_head # ?as))"
    using FindGreaterOrEqual_correct [OF ok key] by blast
  obtain h rnd where h: "RandomHeight (sl_rnd sl) = (h, rnd)" "1 \<le> h" "h \<le> kMaxHeight"
    using RandomHeight_range [of "sl_rnd sl"] by (cases "RandomHeight (sl_rnd sl)") auto
  define mh where "mh = max h (sl_max_height sl)"
  define prev where "prev = map (\<lambda>i. if sl_max_height sl \<le> i \<and> i < h then sl_head else prev0 ! i) [0..<kMaxHeight]"
  define sl1 where "sl1 = snd (NewNode key h (sl\<lparr>sl_rnd := rnd, sl_max_height := mh\<rparr>))"
  define sl2 where "sl2 = fold (link_level ?n prev) [0..<h] sl1"
  have ins: "SkipList_Insert compare key sl = Some sl2"
    using h(1) prev0(1)
    by (auto simp: SkipList_Insert_def Let_def NewNode_def sl2_def sl1_def prev_def mh_def max_def)
  have Lok: "distinct (sl_head # L)" "\<forall>a \<in> set (sl_head # L). a < ?n" "height_of sl sl_head = kMaxHeight"
    "1 \<le> sl_max_height sl" "sl_max_height sl \<le> kMaxHeight"
    "\<forall>a \<in> set L. 1 \<le> height_of sl a \<and> height_of sl a \<le> sl_max_height sl \<and> valid (key_at sl a)"
    "sorted_wrt (\<lambda>a b. compare (key_at sl a) (key_at sl b) < 0) L" "chain_ok sl (sl_head # L)"
    using ok unfolding sl_ok_def by blast+
  have L: "L = ?as @ ?bs" by simp
  have asL: "set ?as \<subseteq> set L" "set ?bs \<subseteq> set L" by (auto dest: set_takeWhileD set_dropWhileD)
  have nn: "?n \<notin> set (sl_head # L)" using Lok(2) by auto
  have sl1: "length (sl_nodes sl1) = Suc ?n" "height_of sl1 ?n = h" "key_at sl1 ?n = key"
    "sl_max_height sl1 = mh"
    by (simp_all add: sl1_def NewNode_def height_of_def nth_append)
  have old: "height_of sl1 a = height_of sl a" "key_at sl1 a = key_at sl a"
    "Node_Next sl1 a l = Node_Next sl a l" if "a < ?n" for a l
    using that by (simp_all add: sl1_def NewNode_def height_of_def Node_Next_def nth_append)
  have dis: "distinct (sl_head # ?as)"
  proof -
    have "distinct ((sl_head # ?as) @ ?bs)" using Lok(1) by simp
    then show ?thesis unfolding distinct_append by blast
  qed
  have prev: "prev ! i = last (filter (\<lambda>a. i < height_of sl a) (sl_head # ?as))" if "i < h" for i
  proof (cases "i < sl_max_height sl")
    case True
    then show ?thesis using that h(3) prev0(2) by (simp add: prev_def)
  next
    case False
    have "\<forall>a \<in> set ?as. \<not> i < height_of sl a" using Lok(6) asL(1) False by fastforce
    then show ?thesis using False that h(3) Lok(3) by (simp add: prev_def filter_empty_conv)
  qed
  have pm: "prev ! i \<in> set (sl_head # ?as) \<and> i < height_of sl (prev ! i)" if "i < h" for i
  proof -
    have "filter (\<lambda>a. i < height_of sl a) (sl_head # ?as) \<noteq> []" using that h(3) Lok(3) by simp
    from last_in_set [OF this] show ?thesis unfolding prev [OF that] by (auto split: if_splits)
  qed
  have pn: "prev ! i < ?n" if "i < h" for i
    using pm [OF that] Lok(2) asL(1) by auto
  have lk: "length (sl_nodes sl2) = Suc ?n" "sl_max_height sl2 = mh"
    "\<And>a. key_at sl2 a = key_at sl1 a" "\<And>a. height_of sl2 a = height_of sl1 a"
    "\<And>a l. Node_Next sl2 a l = (if l < h \<and> a = ?n then Node_Next sl1 (prev ! l) l
       else if l < h \<and> a = prev ! l then Some ?n else Node_Next sl1 a l)"
  proof -
    have "prev ! i < length (sl_nodes sl1) \<and> i < height_of sl1 (prev ! i) \<and> prev ! i \<noteq> ?n" if "i < h" for i
      using pn [OF that] pm [OF that] sl1(1) old(1) by simp
    from link_levels [OF _ sl1(2) this order.refl, folded sl2_def] sl1(1,4)
    have *: "length (sl_nodes sl2) = length (sl_nodes sl1) \<and> sl_max_height sl2 = sl_max_height sl1 \<and>
      (\<forall>a. key_at sl2 a = key_at sl1 a \<and> height_of sl2 a = height_of sl1 a) \<and>
      (\<forall>a l. Node_Next sl2 a l =
        (if l < h \<and> a = ?n then Node_Next sl1 (prev ! l) l
         else if l < h \<and> a = prev ! l then Some ?n else Node_Next sl1 a l))" by simp
    then show "length (sl_nodes sl2) = Suc ?n" "sl_max_height sl2 = mh" using sl1(1,4) by simp_all
    show "\<And>a. key_at sl2 a = key_at sl1 a" "\<And>a. height_of sl2 a = height_of sl1 a"
      "\<And>a l. Node_Next sl2 a l = (if l < h \<and> a = ?n then Node_Next sl1 (prev ! l) l
       else if l < h \<and> a = prev ! l then Some ?n else Node_Next sl1 a l)" using * by blast+
  qed
  have ht: "height_of sl2 a = (if a = ?n then h else height_of sl a)" if "a < ?n \<or> a = ?n" for a
    using that old(1) sl1(2) lk(4) by auto
  have ky: "key_at sl2 a = key_at sl a" if "a \<in> set L" for a
    using that Lok(2) old(2) lk(3) by auto
  have fnd: "find (\<lambda>a. l < height_of sl2 a) zs = find (\<lambda>a. l < height_of sl a) zs" if "set zs \<subseteq> set L" for l zs
    using that ht Lok(2) by (intro find_cong_set) (metis insert_iff less_irrefl list.simps(15) subsetD)
  have chain: "chain_ok sl2 (sl_head # ?as @ ?n # ?bs)"
    unfolding chain_ok_def
  proof (intro allI impI)
    fix xs x ys l
    assume sp: "sl_head # ?as @ ?n # ?bs = xs @ x # ys" and l: "l < height_of sl2 x"
    consider (left) us where "sl_head # ?as = xs @ x # us" "ys = us @ ?n # ?bs"
      | (mid) "x = ?n" "xs = sl_head # ?as" "ys = ?bs"
      | (right) vs where "?bs = vs @ x # ys" "xs = sl_head # ?as @ ?n # vs"
    proof -
      have "(sl_head # ?as) @ ?n # ?bs = xs @ x # ys" using sp by simp
      then show ?thesis
        using that by (auto simp: append_eq_append_conv2 append_eq_Cons_conv Cons_eq_append_conv)
    qed
    then show "Node_Next sl2 x l = find (\<lambda>a. l < height_of sl2 a) ys"
    proof cases
      case (left us)
      have "x \<in> set (sl_head # ?as)" unfolding left(1) by simp
      then have x: "x < ?n" "x \<noteq> ?n" using Lok(2) asL(1) nn by auto
      have us: "set us \<subseteq> set L" using left(1) asL(1) by (cases xs) auto
      have lx: "l < height_of sl x" using l ht x by simp
      have nx: "Node_Next sl x l = find (\<lambda>a. l < height_of sl a) (us @ ?bs)"
      proof -
        have "sl_head # L = (sl_head # ?as) @ ?bs" by simp
        then have "sl_head # L = xs @ x # (us @ ?bs)" unfolding left(1) by simp
        then show ?thesis using chain_okD [of sl xs x "us @ ?bs" l] Lok(8) lx by simp
      qed
      note fl = find_last_split [OF lx left(1)]
      show ?thesis
      proof (cases "l < h \<and> x = prev ! l")
        case True
        then have "find (\<lambda>a. l < height_of sl a) us = None" using fl dis prev by blast
        then show ?thesis using True x ht [of ?n] us
          by (simp add: lk(5) left(2) find_append fnd)
      next
        case False
        then have e: "Node_Next sl2 x l = Node_Next sl x l" using x old(3) by (auto simp: lk(5))
        show ?thesis
        proof (cases "l < h")
          case True
          then have "x \<noteq> last (filter (\<lambda>a. l < height_of sl a) (sl_head # ?as))" using False prev by auto
          then have "find (\<lambda>a. l < height_of sl a) us \<noteq> None"
            using fl [THEN conjunct2, rule_format, of "[]" "[x]"] lx
            by (auto simp: find_append split: option.splits)
          then show ?thesis using e nx us
            by (auto simp: left(2) find_append fnd)
        next
          case F: False
          have bs: "find (\<lambda>a. l < height_of sl2 a) ?bs = find (\<lambda>a. l < height_of sl a) ?bs" using asL(2) by (rule fnd)
          show ?thesis using e nx us F ht [of ?n] bs
            by (simp add: left(2) find_append fnd split: option.split)
        qed
      qed
    next
      case mid
      have lh: "l < h" using l ht [of ?n] mid(1) by simp
      have p: "prev ! l \<in> set (sl_head # ?as)" "l < height_of sl (prev ! l)" using pm [OF lh] by simp_all
      then obtain xs' us where sp': "sl_head # ?as = xs' @ (prev ! l) # us" by (meson in_set_conv_decomp)
      have none: "find (\<lambda>a. l < height_of sl a) us = None"
        using find_last_split [OF p(2) sp'] dis prev [OF lh] by blast
      have "Node_Next sl (prev ! l) l = find (\<lambda>a. l < height_of sl a) (us @ ?bs)"
      proof -
        have "sl_head # L = (sl_head # ?as) @ ?bs" by simp
        then have "sl_head # L = xs' @ (prev ! l) # (us @ ?bs)" unfolding sp' by simp
        then show ?thesis using chain_okD [of sl xs' "prev ! l" "us @ ?bs" l] Lok(8) p(2) by simp
      qed
      then show ?thesis
        using none lh mid asL(2) old(3) [OF pn [OF lh]] by (simp add: lk(5) find_append fnd)
    next
      case (right vs)
      have xb: "x \<in> set ?bs" using right(1) by simp
      have x: "x < ?n" "x \<noteq> ?n" "x \<notin> set (sl_head # ?as)"
      proof -
        show "x < ?n" "x \<noteq> ?n" using xb asL(2) Lok(2) nn by auto
        have "distinct ((sl_head # ?as) @ ?bs)" using Lok(1) by simp
        then show "x \<notin> set (sl_head # ?as)" using xb unfolding distinct_append by blast
      qed
      have lx: "l < height_of sl x" using l ht x(1,2) by simp
      have "Node_Next sl x l = find (\<lambda>a. l < height_of sl a) ys"
      proof -
        have "sl_head # L = (sl_head # ?as) @ ?bs" by simp
        then have "sl_head # L = (sl_head # ?as @ vs) @ x # ys" unfolding right(1) by simp
        then show ?thesis using chain_okD [of sl "sl_head # ?as @ vs" x ys l] Lok(8) lx by simp
      qed
      moreover have "\<not> (l < h \<and> x = prev ! l)" using pm [of l] x(3) by auto
      moreover have "set ys \<subseteq> set L" using right(1) asL(2) by auto
      ultimately show ?thesis using x(1,2) old(3) by (auto simp: lk(5) fnd)
    qed
  qed
  have srt: "sorted_wrt (\<lambda>a b. compare (key_at sl2 a) (key_at sl2 b) < 0) (?as @ ?n # ?bs)"
  proof -
    have A: "sorted_wrt (\<lambda>a b. compare (key_at sl2 a) (key_at sl2 b) < 0) (?as @ ?bs)"
      using Lok(7) ky by (simp add: sorted_wrt_iff_nth_less)
    have "key_at sl2 ?n = key" using lk(3) sl1(3) by simp
    moreover have "\<forall>a \<in> set ?as. compare (key_at sl2 a) key < 0" "\<forall>a \<in> set ?bs. compare key (key_at sl2 a) < 0"
      using split_before [OF ok key new] ky asL by auto
    ultimately
    show ?thesis
      using A [unfolded sorted_wrt_append] unfolding sorted_wrt_append sorted_wrt.simps by auto
  qed
  have "sl_ok compare valid sl2 (?as @ ?n # ?bs)"
    unfolding sl_ok_def
  proof (intro conjI)
    show "distinct (sl_head # ?as @ ?n # ?bs)"
    proof -
      have "distinct ((sl_head # ?as) @ ?bs)" using Lok(1) by simp
      from this [unfolded distinct_append] have "set ?as \<inter> set ?bs = {}" by auto
      then show ?thesis using Lok(1) nn asL by auto
    qed
    show "\<forall>a \<in> set (sl_head # ?as @ ?n # ?bs). a < length (sl_nodes sl2)"
      using Lok(2) asL lk(1) by (auto intro: less_SucI)
    show "height_of sl2 sl_head = kMaxHeight" using ht Lok(2,3) nn by auto
    show "1 \<le> sl_max_height sl2" "sl_max_height sl2 \<le> kMaxHeight"
      using lk(2) h Lok(4,5) by (simp_all add: mh_def)
    show "\<forall>a \<in> set (?as @ ?n # ?bs). 1 \<le> height_of sl2 a \<and> height_of sl2 a \<le> sl_max_height sl2 \<and> valid (key_at sl2 a)"
    proof
      fix a assume "a \<in> set (?as @ ?n # ?bs)"
      then consider "a = ?n" | "a \<in> set L" "a \<noteq> ?n" using asL nn by auto
      then show "1 \<le> height_of sl2 a \<and> height_of sl2 a \<le> sl_max_height sl2 \<and> valid (key_at sl2 a)"
      proof cases
        case 1
        then show ?thesis using ht [of ?n] h(2) key lk(2,3) sl1(3) by (simp add: mh_def)
      next
        case 2
        then show ?thesis using ht [of a] Lok(2,6) ky lk(2) by (auto simp: mh_def)
      qed
    qed
  qed (fact srt chain)+
  moreover have "key_at sl2 ?n = key" using lk(3) sl1(3) by simp
  ultimately show ?thesis using ins ky by blast
qed

end

lemma SkipList_new_ok: "sl_ok compare valid (SkipList_new k) []"
  by (auto simp: sl_ok_def SkipList_new_def height_of_def sl_head_def kMaxHeight_def chain_ok_def
      Node_Next_def Cons_eq_append_conv)

subsection \<open>Lists of keys\<close>

fun SkipList_InsertAll :: "('k \<Rightarrow> 'k \<Rightarrow> int) \<Rightarrow> 'k list \<Rightarrow> 'k SkipList \<Rightarrow> 'k SkipList option" where
  "SkipList_InsertAll compare [] sl = Some sl"
| "SkipList_InsertAll compare (k # ks) sl =
     Option.bind (SkipList_Insert compare k sl) (SkipList_InsertAll compare ks)"

context skiplist_order
begin

lemma Insert_keys:
  assumes "sl_ok compare valid sl L" "valid key" "\<forall>k \<in> set (sl_keys sl L). compare k key \<noteq> 0"
  shows "\<exists>sl' L'. SkipList_Insert compare key sl = Some sl' \<and> sl_ok compare valid sl' L' \<and>
    sl_keys sl' L' = takeWhile (\<lambda>k. compare k key < 0) (sl_keys sl L) @ key #
      dropWhile (\<lambda>k. compare k key < 0) (sl_keys sl L)"
proof -
  have "\<forall>a \<in> set L. compare (key_at sl a) key \<noteq> 0" using assms(3) by (simp add: sl_keys_def)
  from Insert_correct [OF assms(1,2) this] obtain sl' n where
    n: "SkipList_Insert compare key sl = Some sl'"
    "sl_ok compare valid sl' (takeWhile (before sl key) L @ n # dropWhile (before sl key) L)"
    "key_at sl' n = key" "\<forall>a \<in> set L. key_at sl' a = key_at sl a" by blast
  have m: "map (key_at sl') xs = map (key_at sl) xs" if "set xs \<subseteq> set L" for xs
    using that n(4) by auto
  have "map (key_at sl') (takeWhile (before sl key) L) = takeWhile (\<lambda>k. compare k key < 0) (sl_keys sl L)"
    using m [of "takeWhile (before sl key) L"]
    by (auto simp: sl_keys_def takeWhile_map comp_def dest: set_takeWhileD)
  moreover have "map (key_at sl') (dropWhile (before sl key) L) = dropWhile (\<lambda>k. compare k key < 0) (sl_keys sl L)"
    using m [of "dropWhile (before sl key) L"]
    by (auto simp: sl_keys_def dropWhile_map comp_def dest: set_dropWhileD)
  ultimately show ?thesis
    using n(1-3) unfolding sl_keys_def by (intro exI conjI) auto
qed

lemma InsertAll_keys:
  assumes "sl_ok compare valid sl L" "\<forall>k \<in> set ks. valid k"
    "\<forall>k \<in> set ks. \<forall>k' \<in> set (sl_keys sl L). compare k' k \<noteq> 0"
    "sorted_wrt (\<lambda>a b. compare a b \<noteq> 0) ks"
  shows "\<exists>sl' L'. SkipList_InsertAll compare ks sl = Some sl' \<and> sl_ok compare valid sl' L' \<and>
    set (sl_keys sl' L') = set (sl_keys sl L) \<union> set ks"
  using assms
proof (induction ks arbitrary: sl L)
  case (Cons k ks)
  obtain sl1 L1 where s1: "SkipList_Insert compare k sl = Some sl1" "sl_ok compare valid sl1 L1"
    "sl_keys sl1 L1 = takeWhile (\<lambda>k'. compare k' k < 0) (sl_keys sl L) @ k #
      dropWhile (\<lambda>k'. compare k' k < 0) (sl_keys sl L)"
    using Insert_keys [OF Cons.prems(1), of k] Cons.prems by auto
  have set1: "set (sl_keys sl1 L1) = insert k (set (sl_keys sl L))"
    unfolding s1(3) using set_append [of "takeWhile (\<lambda>k'. compare k' k < 0) (sl_keys sl L)"
        "dropWhile (\<lambda>k'. compare k' k < 0) (sl_keys sl L)"] by auto
  show ?case
    using Cons.IH [OF s1(2)] Cons.prems s1(1) set1 by auto
qed auto

text \<open>What a search finds, in terms of the keys.\<close>

lemma Find_keys:
  assumes "sl_ok compare valid sl L" "valid key"
  shows "\<exists>x prev. FindGreaterOrEqual compare sl key = Some (x, prev) \<and>
    map_option (key_at sl) x = find (\<lambda>k. \<not> compare k key < 0) (sl_keys sl L)"
proof -
  obtain prev where "FindGreaterOrEqual compare sl key = Some (find (\<lambda>a. \<not> before sl key a) L, prev)"
    using FindGreaterOrEqual_correct [OF assms] by blast
  moreover have "map_option (key_at sl) (find (\<lambda>a. \<not> before sl key a) xs) =
      find (\<lambda>k. \<not> compare k key < 0) (map (key_at sl) xs)" for xs
    by (induction xs) auto
  ultimately show ?thesis by (simp add: sl_keys_def)
qed

lemma sorted_keys:
  "sl_ok compare valid sl L \<Longrightarrow> sorted_wrt (\<lambda>a b. compare a b < 0) (sl_keys sl L)"
  by (simp add: sl_ok_def sl_keys_def sorted_wrt_map)

lemma valid_keys: "sl_ok compare valid sl L \<Longrightarrow> k \<in> set (sl_keys sl L) \<Longrightarrow> valid k"
  by (auto simp: sl_ok_def sl_keys_def)

lemma Contains_keys:
  assumes "sl_ok compare valid sl L" "valid key"
  shows "SkipList_Contains compare sl key = Some (\<exists>k \<in> set (sl_keys sl L). compare key k = 0)"
proof -
  obtain x prev where x: "FindGreaterOrEqual compare sl key = Some (x, prev)"
    "map_option (key_at sl) x = find (\<lambda>k. \<not> compare k key < 0) (sl_keys sl L)"
    using Find_keys [OF assms] by blast
  have sw: "compare key k = 0 \<longleftrightarrow> compare k key = 0" if "valid k" for k
    using cmp_swap [OF assms(2) that] cmp_swap [OF that assms(2)] by linarith
  have "(case x of None \<Rightarrow> False | Some a \<Rightarrow> compare key (key_at sl a) = 0) =
      (\<exists>k \<in> set (sl_keys sl L). compare key k = 0)"
  proof (cases x)
    case None
    then have "find (\<lambda>k. \<not> compare k key < 0) (sl_keys sl L) = None" using x(2) by simp
    then have "\<forall>k \<in> set (sl_keys sl L). compare k key < 0" by (auto simp: find_None_iff)
    then show ?thesis using None sw valid_keys [OF assms(1)] by fastforce
  next
    case (Some a)
    then have "find (\<lambda>k. \<not> compare k key < 0) (sl_keys sl L) = Some (key_at sl a)" using x(2) by simp
    from find_SomeD [OF this] obtain us vs where s: "sl_keys sl L = us @ key_at sl a # vs"
      "\<forall>k \<in> set us. compare k key < 0" "\<not> compare (key_at sl a) key < 0" by auto
    have v: "valid (key_at sl a)" "\<forall>k \<in> set vs. valid k" "\<forall>k \<in> set us. valid k"
      using valid_keys [OF assms(1)] s(1) by auto
    have "compare key k \<noteq> 0" if k: "k \<in> set vs" and ne: "compare key (key_at sl a) \<noteq> 0" for k
    proof
      assume eq: "compare key k = 0"
      have "compare (key_at sl a) k < 0" using sorted_keys [OF assms(1)] k unfolding s(1) by (simp add: sorted_wrt_append)
      moreover have "compare key (key_at sl a) < 0"
        using s(3) ne sw [OF v(1)] cmp_swap [OF assms(2) v(1)] by linarith
      ultimately have "compare key k < 0" using cmp_less_trans assms(2) v(1,2) k by blast
      with eq show False by simp
    qed
    moreover have "compare key k \<noteq> 0" if "k \<in> set us" for k
      using s(2) sw v(3) that by fastforce
    ultimately show ?thesis using Some s(1) by auto
  qed
  then show ?thesis by (simp add: SkipList_Contains_def x(1))
qed

end

subsection \<open>The positions of the iterator\<close>

lemma find_takeWhile:
  "find (\<lambda>a. \<not> P a) xs = (if length (takeWhile P xs) < length xs then Some (xs ! length (takeWhile P xs)) else None)"
  by (induction xs) auto

lemma find_all: "(\<forall>x \<in> set xs. P x) \<Longrightarrow> find P xs = (if 0 < length xs then Some (xs ! 0) else None)"
  by (cases xs) auto

context skiplist_order
begin

lemma Next_node:
  assumes "sl_ok compare valid sl L" "i < length L"
  shows "Node_Next sl (L ! i) 0 = (if Suc i < length L then Some (L ! Suc i) else None)"
proof -
  have h: "\<forall>a \<in> set L. 0 < height_of sl a" "chain_ok sl (sl_head # L)" using assms(1) by (auto simp: sl_ok_def)
  have "sl_head # L = (sl_head # take i L) @ L ! i # drop (Suc i) L" using id_take_nth_drop [OF assms(2)] by simp
  then have "Node_Next sl (L ! i) 0 = find (\<lambda>a. 0 < height_of sl a) (drop (Suc i) L)"
    using chain_okD [of sl "sl_head # take i L" "L ! i" "drop (Suc i) L" 0] h assms(2) by simp
  also have "\<dots> = (if 0 < length (drop (Suc i) L) then Some (drop (Suc i) L ! 0) else None)"
    by (rule find_all) (use h(1) in \<open>auto dest: in_set_dropD\<close>)
  finally show ?thesis by simp
qed

lemma First_node:
  assumes "sl_ok compare valid sl L"
  shows "Node_Next sl sl_head 0 = (if 0 < length L then Some (L ! 0) else None)"
proof -
  have h: "\<forall>a \<in> set L. 0 < height_of sl a" "chain_ok sl ([] @ sl_head # L)" "0 < height_of sl sl_head"
    using assms by (auto simp: sl_ok_def kMaxHeight_def)
  show ?thesis using chain_okD [OF h(2,3)] find_all [OF h(1)] by simp
qed

lemma Iter_of_last:
  assumes "sl_ok compare valid sl L" "i \<le> length L"
  shows "Iter_of (last (sl_head # take i L)) = (if i = 0 then None else Some (L ! (i - 1)))"
proof (cases i)
  case (Suc j)
  then have "last (sl_head # take i L) = L ! j" using assms(2) by (simp add: take_Suc_conv_app_nth)
  moreover have "L ! j \<in> set L" "sl_head \<notin> set L" using assms Suc by (simp_all add: sl_ok_def)
  ultimately show ?thesis using Suc by (auto simp: Iter_of_def)
qed (simp add: Iter_of_def)

lemma Prev_node:
  assumes "sl_ok compare valid sl L" "i < length L"
  shows "Iter_Prev compare sl (Some (L ! i)) = Some (if i = 0 then None else Some (L ! (i - 1)))"
proof -
  have v: "valid (key_at sl a)" if "a \<in> set L" for a using assms(1) that by (auto simp: sl_ok_def)
  have srt: "compare (key_at sl (L ! j)) (key_at sl (L ! k)) < 0" if "j < k" "k < length L" for j k
    using assms(1) that by (simp add: sl_ok_def sorted_wrt_iff_nth_less)
  have "takeWhile (before sl (key_at sl (L ! i))) L = take i L"
    by (rule takeWhile_eq_take_P_nth) (use srt assms(2) cmp_refl v in auto)
  then have "FindLessThan compare sl (key_at sl (L ! i)) = Some (last (sl_head # take i L))"
    using FindLessThan_correct [OF assms(1) v] assms(2) by simp
  then show ?thesis using Iter_of_last [OF assms(1), of i] assms(2) by (simp add: Iter_Prev_def)
qed

lemma Last_node:
  assumes "sl_ok compare valid sl L"
  shows "Iter_SeekToLast sl = Some (if L = [] then None else Some (L ! (length L - 1)))"
  using FindLast_correct [OF assms] Iter_of_last [OF assms, of "length L"] by (simp add: Iter_SeekToLast_def)

lemma Seek_node:
  assumes "sl_ok compare valid sl L" "valid key"
  shows "Iter_Seek compare sl key =
    Some (if length (takeWhile (before sl key) L) < length L then Some (L ! length (takeWhile (before sl key) L)) else None)"
  using FindGreaterOrEqual_correct [OF assms] by (auto simp: Iter_Seek_def find_takeWhile)

end

text \<open>
  C17: inserting keys that differ pairwise terminates and leaves a list whose
  nodes \<open>L\<close> hold exactly these keys in strictly increasing order, linked at every level. A search
  terminates and finds the first key that is not smaller, or the last smaller one, and \<open>Contains\<close>
  answers membership. The iterator walks \<open>L\<close>: \<open>Seek\<close> goes to the first node whose key is not
  smaller, \<open>SeekToFirst\<close> and \<open>SeekToLast\<close> to the ends, and \<open>Next\<close> and \<open>Prev\<close> to the
  neighbours of a node, invalid behind the last and before the first.
\<close>

theorem skiplist_correct:
  assumes "skiplist_order compare valid" "\<forall>k \<in> set ks. valid k"
    "sorted_wrt (\<lambda>a b. compare a b \<noteq> 0) ks" "valid key"
  shows "\<exists>sl L. SkipList_InsertAll compare ks (SkipList_new any_key) = Some sl \<and>
    set (sl_keys sl L) = set ks \<and> sorted_wrt (\<lambda>a b. compare a b < 0) (sl_keys sl L) \<and>
    chain_ok sl (sl_head # L) \<and>
    (\<exists>x prev. FindGreaterOrEqual compare sl key = Some (x, prev) \<and>
      map_option (key_at sl) x = find (\<lambda>k. \<not> compare k key < 0) (sl_keys sl L)) \<and>
    SkipList_Contains compare sl key = Some (\<exists>k \<in> set ks. compare key k = 0) \<and>
    FindLessThan compare sl key = Some (last (sl_head # takeWhile (\<lambda>a. compare (key_at sl a) key < 0) L)) \<and>
    FindLast sl = Some (last (sl_head # L)) \<and>
    Iter_Seek compare sl key = Some (find (\<lambda>a. \<not> compare (key_at sl a) key < 0) L) \<and>
    Iter_SeekToFirst sl = (if L = [] then None else Some (hd L)) \<and>
    Iter_SeekToLast sl = Some (if L = [] then None else Some (last L)) \<and>
    (\<forall>i < length L. Iter_Next sl (Some (L ! i)) = (if Suc i < length L then Some (L ! Suc i) else None) \<and>
      Iter_Prev compare sl (Some (L ! i)) = Some (if i = 0 then None else Some (L ! (i - 1))))"
proof -
  obtain sl L where sl: "SkipList_InsertAll compare ks (SkipList_new any_key) = Some sl"
    "sl_ok compare valid sl L" "set (sl_keys sl L) = set ks"
    using skiplist_order.InsertAll_keys [OF assms(1) SkipList_new_ok assms(2), of any_key] assms(3) by (auto simp: sl_keys_def)
  note O = assms(1) and ok = sl(2)
  have "chain_ok sl (sl_head # L)" using ok by (simp add: sl_ok_def)
  moreover have "Iter_Seek compare sl key = Some (find (\<lambda>a. \<not> compare (key_at sl a) key < 0) L)"
    using skiplist_order.Seek_node [OF O ok assms(4)] by (simp add: find_takeWhile)
  moreover have "Iter_SeekToFirst sl = (if L = [] then None else Some (hd L))"
    using skiplist_order.First_node [OF O ok] by (simp add: Iter_SeekToFirst_def hd_conv_nth)
  moreover have "Iter_SeekToLast sl = Some (if L = [] then None else Some (last L))"
    using skiplist_order.Last_node [OF O ok] by (simp add: last_conv_nth)
  moreover have "Iter_Next sl (Some (L ! i)) = (if Suc i < length L then Some (L ! Suc i) else None) \<and>
      Iter_Prev compare sl (Some (L ! i)) = Some (if i = 0 then None else Some (L ! (i - 1)))" if "i < length L" for i
    using skiplist_order.Next_node [OF O ok that] skiplist_order.Prev_node [OF O ok that] by (simp add: Iter_Next_def)
  ultimately show ?thesis
    using sl skiplist_order.Find_keys [OF O ok assms(4)] skiplist_order.Contains_keys [OF O ok assms(4)] skiplist_order.sorted_keys [OF O ok]
      skiplist_order.FindLessThan_correct [OF O ok assms(4)] skiplist_order.FindLast_correct [OF O ok]
    by (intro exI [of _ sl] exI [of _ L]) simp
qed

theorem skiplist_correct_witness:
  "\<exists>sl. SkipList_InsertAll (\<lambda>a b :: int. a - b) [5, 2, 9] (SkipList_new 0) = Some sl \<and>
     SkipList_Contains (\<lambda>a b. a - b) sl 2 = Some True"
proof -
  have "skiplist_order (\<lambda>a b :: int. a - b) (\<lambda>_. True)" by unfold_locales auto
  from skiplist_correct [OF this, where ks = "[5, 2, 9]" and key = 2 and any_key = 0]
  obtain sl L where "SkipList_InsertAll (\<lambda>a b :: int. a - b) [5, 2, 9] (SkipList_new 0) = Some sl"
    "SkipList_Contains (\<lambda>a b. a - b) sl 2 = Some (\<exists>k \<in> set [5, 2, 9 :: int]. 2 - k = 0)"
    by fastforce
  then show ?thesis by auto
qed

end
