(* ===== verification/Coding.thy ===== *)
theory Coding
  imports Prelude
begin

section \<open>Endian-neutral encodings (\<^verbatim>\<open>util/coding.h\<close>, \<^verbatim>\<open>util/coding.cc\<close>)\<close>

text \<open>
  Fixed-width and variable-width encodings of 32- and 64-bit integers and of
  length-prefixed strings. The encoders return the bytes that the code appends; the
  decoders take the unread input and return the value with the rest of the input, or
  \<open>None\<close> where the code returns \<open>nullptr\<close> or \<open>false\<close>. The code's two branches on
  \<open>port::kLittleEndian\<close> store the same bytes, and the portable one is modelled.
\<close>

subsection \<open>Fixed-width integers\<close>

definition EncodeFixed32 :: "u32 \<Rightarrow> bytes" where
  "EncodeFixed32 value =
     [ucast (value AND 0xff), ucast (drop_bit 8 value AND 0xff),
      ucast (drop_bit 16 value AND 0xff), ucast (drop_bit 24 value AND 0xff)]"

definition EncodeFixed64 :: "u64 \<Rightarrow> bytes" where
  "EncodeFixed64 value =
     [ucast (value AND 0xff), ucast (drop_bit 8 value AND 0xff),
      ucast (drop_bit 16 value AND 0xff), ucast (drop_bit 24 value AND 0xff),
      ucast (drop_bit 32 value AND 0xff), ucast (drop_bit 40 value AND 0xff),
      ucast (drop_bit 48 value AND 0xff), ucast (drop_bit 56 value AND 0xff)]"

text \<open>
  The decoders read four or eight bytes without any bounds check; the callers establish
  that the bytes are there. Outside the object the C++ read is undefined, and the model
  reads zero bytes.
\<close>

definition byte_at :: "bytes \<Rightarrow> nat \<Rightarrow> byte" where
  "byte_at p i = (if i < length p then p ! i else 0)"

definition DecodeFixed32 :: "bytes \<Rightarrow> u32" where
  "DecodeFixed32 ptr =
     ucast (byte_at ptr 0) OR push_bit 8 (ucast (byte_at ptr 1)) OR
     push_bit 16 (ucast (byte_at ptr 2)) OR push_bit 24 (ucast (byte_at ptr 3))"

definition DecodeFixed64 :: "bytes \<Rightarrow> u64" where
  "DecodeFixed64 ptr =
     (let lo = ucast (DecodeFixed32 ptr); hi = ucast (DecodeFixed32 (drop 4 ptr))
      in push_bit 32 hi OR lo)"

definition PutFixed32 :: "bytes \<Rightarrow> u32 \<Rightarrow> bytes" where
  "PutFixed32 dst value = dst @ EncodeFixed32 value"

definition PutFixed64 :: "bytes \<Rightarrow> u64 \<Rightarrow> bytes" where
  "PutFixed64 dst value = dst @ EncodeFixed64 value"

lemma length_EncodeFixed32 [simp]: "length (EncodeFixed32 v) = 4"
  by (simp add: EncodeFixed32_def)

lemma length_EncodeFixed64 [simp]: "length (EncodeFixed64 v) = 8"
  by (simp add: EncodeFixed64_def)

lemma low_byte: "(ucast (v AND 0xff) :: byte) = ucast (v :: 'a::len word)"
proof -
  have m: "(0xff :: 'a word) = mask 8" by (simp add: mask_eq_exp_minus_1)
  show ?thesis
    unfolding m by (rule bit_word_eqI) (auto simp: bit_simps simp del: mask_numeral intro: bit_imp_le_length)
qed

lemma DecodeFixed32_EncodeFixed32 [simp]: "DecodeFixed32 (EncodeFixed32 v @ rest) = v"
proof -
  have "ucast (ucast (v :: u32) :: byte) OR push_bit 8 (ucast (ucast (drop_bit 8 v) :: byte)) OR
        push_bit 16 (ucast (ucast (drop_bit 16 v) :: byte)) OR
        push_bit 24 (ucast (ucast (drop_bit 24 v) :: byte)) = v"
  proof (rule bit_word_eqI)
    fix n :: nat
    assume "n < LENGTH(32)"
    then consider "n < 8" | "8 \<le> n" "n < 16" | "16 \<le> n" "n < 24" | "24 \<le> n" "n < 32"
      by fastforce
    then show "bit (ucast (ucast (v :: u32) :: byte) OR push_bit 8 (ucast (ucast (drop_bit 8 v) :: byte)) OR
        push_bit 16 (ucast (ucast (drop_bit 16 v) :: byte)) OR
        push_bit 24 (ucast (ucast (drop_bit 24 v) :: byte)) :: u32) n = bit v n"
      by cases (auto simp: bit_simps)
  qed
  then show ?thesis
    by (simp only: DecodeFixed32_def EncodeFixed32_def byte_at_def low_byte)
       (simp add: nth_append del: drop_bit_eq_div)
qed

lemma DecodeFixed32_EncodeFixed32_Nil [simp]: "DecodeFixed32 (EncodeFixed32 v) = v"
  using DecodeFixed32_EncodeFixed32 [of v "[]"] by simp

lemma EncodeFixed64_split:
  "EncodeFixed64 v = EncodeFixed32 (ucast v) @ EncodeFixed32 (ucast (drop_bit 32 v))"
  by (simp only: EncodeFixed64_def EncodeFixed32_def low_byte append.simps)
     (auto simp: bit_simps intro!: bit_word_eqI)

lemma DecodeFixed64_EncodeFixed64 [simp]: "DecodeFixed64 (EncodeFixed64 v @ rest) = v"
proof -
  have "push_bit 32 (ucast (ucast (drop_bit 32 v) :: u32)) OR ucast (ucast v :: u32) = v"
    by (rule bit_word_eqI) (auto simp: bit_simps)
  then show ?thesis
    by (simp add: DecodeFixed64_def EncodeFixed64_split)
qed

lemma DecodeFixed64_EncodeFixed64_Nil [simp]: "DecodeFixed64 (EncodeFixed64 v) = v"
  using DecodeFixed64_EncodeFixed64 [of v "[]"] by simp

subsection \<open>Variable-width integers\<close>

definition EncodeVarint32 :: "u32 \<Rightarrow> bytes" where
  "EncodeVarint32 v =
    (if v < 2 ^ 7 then [ucast v]
     else if v < 2 ^ 14 then [ucast (v OR 128), ucast (drop_bit 7 v)]
     else if v < 2 ^ 21 then
       [ucast (v OR 128), ucast (drop_bit 7 v OR 128), ucast (drop_bit 14 v)]
     else if v < 2 ^ 28 then
       [ucast (v OR 128), ucast (drop_bit 7 v OR 128), ucast (drop_bit 14 v OR 128),
        ucast (drop_bit 21 v)]
     else
       [ucast (v OR 128), ucast (drop_bit 7 v OR 128), ucast (drop_bit 14 v OR 128),
        ucast (drop_bit 21 v OR 128), ucast (drop_bit 28 v)])"

definition PutVarint32 :: "bytes \<Rightarrow> u32 \<Rightarrow> bytes" where
  "PutVarint32 dst v = dst @ EncodeVarint32 v"

function EncodeVarint64 :: "u64 \<Rightarrow> bytes" where
  "EncodeVarint64 v =
     (if 128 \<le> v then ucast (v OR 128) # EncodeVarint64 (drop_bit 7 v) else [ucast v])"
  by pat_completeness auto
termination
  by (relation "measure unat") (use drop_bit_7_less in auto)

definition PutVarint64 :: "bytes \<Rightarrow> u64 \<Rightarrow> bytes" where
  "PutVarint64 dst v = dst @ EncodeVarint64 v"

definition PutLengthPrefixedSlice :: "bytes \<Rightarrow> bytes \<Rightarrow> bytes" where
  "PutLengthPrefixedSlice dst value = PutVarint32 dst (word_of_nat (length value)) @ value"

function varint_length_loop :: "u64 \<Rightarrow> nat \<Rightarrow> nat" where
  "varint_length_loop v len =
     (if 128 \<le> v then varint_length_loop (drop_bit 7 v) (len + 1) else len)"
  by pat_completeness auto
termination
  by (relation "measure (\<lambda>(v, len). unat v)") (use drop_bit_7_less in auto)

definition VarintLength :: "u64 \<Rightarrow> nat" where
  "VarintLength v = varint_length_loop v 1"

fun get_varint32_loop :: "nat \<Rightarrow> u32 \<Rightarrow> bytes \<Rightarrow> (u32 \<times> bytes) option" where
  "get_varint32_loop shift result [] = None"
| "get_varint32_loop shift result (b # p) =
     (if shift \<le> 28 then
        (let byte = (ucast b :: u32) in
         if byte AND 128 \<noteq> 0
         then get_varint32_loop (shift + 7) (result OR push_bit shift (byte AND 127)) p
         else Some (result OR push_bit shift byte, p))
      else None)"

definition GetVarint32PtrFallback :: "bytes \<Rightarrow> (u32 \<times> bytes) option" where
  "GetVarint32PtrFallback p = get_varint32_loop 0 0 p"

definition GetVarint32Ptr :: "bytes \<Rightarrow> (u32 \<times> bytes) option" where
  "GetVarint32Ptr p =
     (case p of
        b # p' \<Rightarrow>
          (let result = (ucast b :: u32) in
           if result AND 128 = 0 then Some (result, p') else GetVarint32PtrFallback p)
      | [] \<Rightarrow> GetVarint32PtrFallback p)"

fun get_varint64_loop :: "nat \<Rightarrow> u64 \<Rightarrow> bytes \<Rightarrow> (u64 \<times> bytes) option" where
  "get_varint64_loop shift result [] = None"
| "get_varint64_loop shift result (b # p) =
     (if shift \<le> 63 then
        (let byte = (ucast b :: u64) in
         if byte AND 128 \<noteq> 0
         then get_varint64_loop (shift + 7) (result OR push_bit shift (byte AND 127)) p
         else Some (result OR push_bit shift byte, p))
      else None)"

definition GetVarint64Ptr :: "bytes \<Rightarrow> (u64 \<times> bytes) option" where
  "GetVarint64Ptr p = get_varint64_loop 0 0 p"

text \<open>The \<open>Slice\<close> variants parse from the front of the slice and advance it.\<close>

definition GetVarint32 :: "bytes \<Rightarrow> (u32 \<times> bytes) option" where
  "GetVarint32 input = (case GetVarint32Ptr input of None \<Rightarrow> None | Some (v, q) \<Rightarrow> Some (v, q))"

definition GetVarint64 :: "bytes \<Rightarrow> (u64 \<times> bytes) option" where
  "GetVarint64 input = (case GetVarint64Ptr input of None \<Rightarrow> None | Some (v, q) \<Rightarrow> Some (v, q))"

definition GetLengthPrefixedSlicePtr :: "bytes \<Rightarrow> (bytes \<times> bytes) option" where
  "GetLengthPrefixedSlicePtr p =
     (case GetVarint32Ptr p of
        None \<Rightarrow> None
      | Some (len, q) \<Rightarrow>
          if unat len > length q then None else Some (take (unat len) q, drop (unat len) q))"

definition GetLengthPrefixedSlice :: "bytes \<Rightarrow> (bytes \<times> bytes) option" where
  "GetLengthPrefixedSlice input =
     (case GetVarint32 input of
        Some (len, input') \<Rightarrow>
          if unat len \<le> length input' then Some (take (unat len) input', drop (unat len) input')
          else None
      | None \<Rightarrow> None)"

declare EncodeVarint64.simps [simp del] varint_length_loop.simps [simp del]

text \<open>The five hand-written branches of \<open>EncodeVarint32\<close> follow one recursion.\<close>

lemma EncodeVarint32_rec:
  "EncodeVarint32 v =
     (if 128 \<le> v then ucast (v OR 128) # EncodeVarint32 (drop_bit 7 v) else [ucast v])"
  using u32_less [of v]
  by (auto simp: EncodeVarint32_def word_less_nat_alt word_le_nat_alt unat_drop_bit_div)

lemma low7:
  "(ucast (ucast (v OR 128) :: byte) AND 127 :: 'a::len word) = take_bit 7 v"
proof -
  have m: "(127 :: 'a word) = mask 7" by (simp add: mask_eq_exp_minus_1)
  have p: "(128 :: 'a word) = push_bit 7 1" by simp
  show ?thesis
    unfolding m p
    by (rule bit_word_eqI) (auto simp: bit_simps simp del: mask_numeral push_bit_numeral push_bit_of_1)
qed

lemma top_bit_set: "(ucast (ucast (v OR 128 :: u64) :: byte) AND 128 :: u64) \<noteq> 0"
  "(ucast (ucast (w OR 128 :: u32) :: byte) AND 128 :: u32) \<noteq> 0"
proof -
  have p: "(128 :: u64) = push_bit 7 1" "(128 :: u32) = push_bit 7 1" by simp_all
  have "bit (ucast (ucast (v OR 128) :: byte) AND 128 :: u64) 7"
    "bit (ucast (ucast (w OR 128) :: byte) AND 128 :: u32) 7"
    unfolding p by (simp_all add: bit_simps del: push_bit_numeral push_bit_of_1)
  then show "(ucast (ucast (v OR 128 :: u64) :: byte) AND 128 :: u64) \<noteq> 0"
    "(ucast (ucast (w OR 128 :: u32) :: byte) AND 128 :: u32) \<noteq> 0" by auto
qed

lemma no_high_bit:
  assumes "unat (v :: 'a::len word) < 2 ^ k" and "k \<le> n"
  shows "\<not> bit v n"
proof
  assume "bit v n"
  then have "bit (unat v) n" by (simp add: bit_unsigned_iff)
  then have "odd (unat v div 2 ^ n)" by (simp add: bit_iff_odd)
  moreover have "unat v < 2 ^ n"
    using assms by (meson le_less_trans less_le_trans linorder_not_le one_le_numeral power_increasing)
  ultimately show False by simp
qed

lemma small_word_byte:
  assumes "unat (v :: 'a::len word) < 128"
  shows "(ucast (ucast v :: byte) :: 'a word) = v" "v AND 128 = 0"
proof -
  have p: "(128 :: 'a word) = push_bit 7 1" by simp
  have *: "\<not> bit v n" if "7 \<le> n" for n
    using no_high_bit [of v 7 n] assms that by simp
  show "(ucast (ucast v :: byte) :: 'a word) = v"
  proof (rule bit_word_eqI)
    fix n :: nat assume "n < LENGTH('a)"
    then show "bit (ucast (ucast v :: byte) :: 'a word) n = bit v n"
      using * [of n] by (cases "n < 7") (simp_all add: bit_simps)
  qed
  show "v AND 128 = 0"
    unfolding p by (rule bit_word_eqI) (use * in \<open>simp add: bit_simps del: push_bit_numeral push_bit_of_1\<close>)
qed

lemma or_push_bit_split:
  "(r OR push_bit s (take_bit 7 v)) OR push_bit (s + 7) (drop_bit 7 v) = r OR push_bit s (v :: 'a::len word)"
proof (rule bit_word_eqI)
  fix n :: nat assume "n < LENGTH('a)"
  then show "bit ((r OR push_bit s (take_bit 7 v)) OR push_bit (s + 7) (drop_bit 7 v)) n =
    bit (r OR push_bit s v) n"
    by (cases "n - s < 7") (auto simp: bit_simps)
qed

text \<open>
  The loop of \<open>GetVarint64Ptr\<close>, started at shift \<open>s\<close> on the encoding of a value of which
  \<open>64 - s\<close> bits are used, ors that value into the result.
\<close>

lemma get_varint64_loop_encode:
  assumes "unat v < 2 ^ (64 - s)" and "s \<le> 63"
  shows "get_varint64_loop s r (EncodeVarint64 v @ rest) = Some (r OR push_bit s v, rest)"
  using assms
proof (induction v arbitrary: s r rule: EncodeVarint64.induct)
  case (1 v)
  show ?case
  proof (cases "128 \<le> v")
    case False
    then have "unat v < 128" by (simp add: word_le_nat_alt)
    with "1.prems" False show ?thesis
      by (simp add: EncodeVarint64.simps [of v] small_word_byte Let_def)
  next
    case True
    then have big: "128 \<le> unat v" by (simp add: word_le_nat_alt)
    have "2 ^ 7 < (2 :: nat) ^ (64 - s)" using "1.prems"(1) big by simp
    then have s: "7 < 64 - s" using power_strict_increasing_iff [of "2 :: nat" 7 "64 - s"] by simp
    have "64 - s = 7 + (64 - (s + 7))" using s by simp
    then have "(2 :: nat) ^ (64 - s) = 2 ^ 7 * 2 ^ (64 - (s + 7))"
      by (metis power_add)
    with "1.prems"(1) have "unat (drop_bit 7 v) < 2 ^ (64 - (s + 7))"
      by (simp add: unat_drop_bit_div less_mult_imp_div_less mult.commute)
    with True s have "get_varint64_loop (s + 7) (r OR push_bit s (take_bit 7 v)) (EncodeVarint64 (drop_bit 7 v) @ rest) =
        Some ((r OR push_bit s (take_bit 7 v)) OR push_bit (s + 7) (drop_bit 7 v), rest)"
      by (intro "1.IH") auto
    with True s show ?thesis
      by (simp add: EncodeVarint64.simps [of v] top_bit_set low7 or_push_bit_split Let_def
          del: drop_bit_eq_div)
  qed
qed

lemma get_varint32_loop_encode:
  assumes "unat v < 2 ^ (32 - s)" and "s \<le> 28" and "7 dvd s"
  shows "get_varint32_loop s r (EncodeVarint32 v @ rest) = Some (r OR push_bit s v, rest)"
  using assms
proof (induction "unat v" arbitrary: v s r rule: less_induct)
  case (less v)
  show ?case
  proof (cases "128 \<le> v")
    case False
    then have "unat v < 128" by (simp add: word_le_nat_alt)
    with less.prems False show ?thesis
      by (simp add: EncodeVarint32_rec [of v] small_word_byte Let_def)
  next
    case True
    then have big: "128 \<le> unat v" by (simp add: word_le_nat_alt)
    have "2 ^ 7 < (2 :: nat) ^ (32 - s)" using less.prems(1) big by simp
    then have s: "7 < 32 - s" using power_strict_increasing_iff [of "2 :: nat" 7 "32 - s"] by simp
    with less.prems(3) have "s \<le> 21" by presburger
    have "32 - s = 7 + (32 - (s + 7))" using s by simp
    then have "(2 :: nat) ^ (32 - s) = 2 ^ 7 * 2 ^ (32 - (s + 7))"
      by (metis power_add)
    with less.prems(1) have "unat (drop_bit 7 v) < 2 ^ (32 - (s + 7))"
      by (simp add: unat_drop_bit_div less_mult_imp_div_less mult.commute)
    with True s \<open>s \<le> 21\<close> less.prems(3) have "get_varint32_loop (s + 7) (r OR push_bit s (take_bit 7 v)) (EncodeVarint32 (drop_bit 7 v) @ rest) =
        Some ((r OR push_bit s (take_bit 7 v)) OR push_bit (s + 7) (drop_bit 7 v), rest)"
      by (intro less.hyps) (auto simp: drop_bit_7_less32 simp del: drop_bit_eq_div)
    with True s show ?thesis
      by (simp add: EncodeVarint32_rec [of v] top_bit_set low7 or_push_bit_split Let_def
          del: drop_bit_eq_div)
  qed
qed

lemma GetVarint64Ptr_Encode [simp]: "GetVarint64Ptr (EncodeVarint64 v @ rest) = Some (v, rest)"
  using u64_less [of v] by (simp add: GetVarint64Ptr_def get_varint64_loop_encode)

lemma GetVarint32Ptr_Encode [simp]: "GetVarint32Ptr (EncodeVarint32 v @ rest) = Some (v, rest)"
proof -
  have "get_varint32_loop 0 0 (EncodeVarint32 v @ rest) = Some (v, rest)"
    using u32_less [of v] by (simp add: get_varint32_loop_encode)
  moreover have "GetVarint32Ptr p = get_varint32_loop 0 0 p" for p
    by (auto simp: GetVarint32Ptr_def GetVarint32PtrFallback_def Let_def split: list.splits)
  ultimately show ?thesis by simp
qed

lemma GetVarint64_Encode [simp]: "GetVarint64 (EncodeVarint64 v @ rest) = Some (v, rest)"
  by (simp add: GetVarint64_def)

lemma GetVarint32_Encode [simp]: "GetVarint32 (EncodeVarint32 v @ rest) = Some (v, rest)"
  by (simp add: GetVarint32_def)

lemma GetVarint32_Nil [simp]: "GetVarint32 [] = None"
  by (simp add: GetVarint32_def GetVarint32Ptr_def GetVarint32PtrFallback_def)

lemma EncodeVarint32_nonempty [simp]: "EncodeVarint32 v \<noteq> []"
  by (simp add: EncodeVarint32_rec)

lemma GetLengthPrefixedSlice_Put [simp]:
  assumes "length s < 2 ^ 32"
  shows "GetLengthPrefixedSlice (EncodeVarint32 (word_of_nat (length s)) @ s @ rest) = Some (s, rest)"
  using assms by (simp add: GetLengthPrefixedSlice_def unat_of_nat_u32)

subsection \<open>Lengths\<close>

lemma varint_length_loop_eq:
  "varint_length_loop v (Suc len) = len + length (EncodeVarint64 v)"
proof (induction v arbitrary: len rule: EncodeVarint64.induct)
  case (1 v)
  then show ?case
    by (subst varint_length_loop.simps, subst EncodeVarint64.simps)
       (simp del: drop_bit_eq_div)
qed

lemma VarintLength_eq: "VarintLength v = length (EncodeVarint64 v)"
  using varint_length_loop_eq [of v 0] by (simp add: VarintLength_def)

lemma length_EncodeVarint64_le:
  "unat v < 2 ^ (7 * Suc k) \<Longrightarrow> length (EncodeVarint64 v) \<le> Suc k"
proof (induction v arbitrary: k rule: EncodeVarint64.induct)
  case (1 v)
  show ?case
  proof (cases "128 \<le> v")
    case False
    then show ?thesis by (simp add: EncodeVarint64.simps [of v])
  next
    case True
    then have "128 \<le> unat v" by (simp add: word_le_nat_alt)
    with "1.prems" obtain j where k: "k = Suc j" by (cases k) auto
    have "unat (drop_bit 7 v) < 2 ^ (7 * Suc j)"
      using "1.prems" unfolding k unat_drop_bit_div
      by (intro less_mult_imp_div_less) (simp add: power_add)
    with True k "1.IH" show ?thesis by (simp add: EncodeVarint64.simps [of v] del: drop_bit_eq_div)
  qed
qed

lemma length_EncodeVarint64_10: "length (EncodeVarint64 v) \<le> 10"
proof -
  have "unat v < 2 ^ (7 * Suc 9)" using u64_less [of v] by simp
  then show ?thesis using length_EncodeVarint64_le [of v 9] by simp
qed

text \<open>A 32-bit value has the same encoding at both widths.\<close>

lemma EncodeVarint32_eq_64: "EncodeVarint32 v = EncodeVarint64 (ucast v)"
proof (induction "unat v" arbitrary: v rule: less_induct)
  case (less v)
  have d: "drop_bit 7 (ucast v :: u64) = ucast (drop_bit 7 v)"
    by (rule bit_word_eqI) (auto simp: bit_simps dest: bit_imp_le_length)
  have b: "(ucast (ucast v OR 128 :: u64) :: byte) = ucast (v OR 128)"
  proof -
    have p: "(128 :: u64) = push_bit 7 1" "(128 :: u32) = push_bit 7 1" by simp_all
    show ?thesis
      unfolding p by (rule bit_word_eqI) (auto simp: bit_simps simp del: push_bit_numeral push_bit_of_1)
  qed
  have u: "(ucast (ucast v :: u64) :: byte) = ucast v"
    by (rule bit_word_eqI) (auto simp: bit_simps)
  have l: "(128 \<le> (ucast v :: u64)) = (128 \<le> v)"
    by (simp add: word_le_nat_alt unat_ucast_32_64)
  show ?case
    using less [of "drop_bit 7 v"] drop_bit_7_less32 [of v]
    by (subst EncodeVarint32_rec, subst EncodeVarint64.simps)
       (simp add: l d b u del: drop_bit_eq_div)
qed

lemma length_EncodeVarint32_5: "length (EncodeVarint32 v) \<le> 5"
  by (simp add: EncodeVarint32_def)

lemma get_varint32_loop_suffix:
  "get_varint32_loop s r p = Some (v, q) \<Longrightarrow> \<exists>n. p = take (Suc n) p @ q \<and> q = drop (Suc n) p \<and> n < length p"
proof (induction s r p rule: get_varint32_loop.induct)
  case (2 s r b p)
  then show ?case
    by (force simp: Let_def split: if_splits intro: exI [of _ "Suc _"] exI [of _ 0])
qed simp

lemma get_varint64_loop_suffix:
  "get_varint64_loop s r p = Some (v, q) \<Longrightarrow> \<exists>n. q = drop (Suc n) p \<and> n < length p"
  by (induction s r p rule: get_varint64_loop.induct)
     (force simp: Let_def split: if_splits intro: exI [of _ "Suc _"] exI [of _ 0])+

text \<open>A successful decoder consumes input, which is what makes the parsing loops end.\<close>

lemma GetVarint32_shorter: "GetVarint32 p = Some (v, q) \<Longrightarrow> length q < length p"
proof -
  have l: "length q < length p" if "get_varint32_loop a b p = Some (v, q)" for a b p v q
    using get_varint32_loop_suffix [OF that] by (metis diff_less length_drop length_greater_0_conv
        list.size(3) not_less_zero zero_less_Suc)
  assume "GetVarint32 p = Some (v, q)"
  then show ?thesis
    by (auto simp: GetVarint32_def GetVarint32Ptr_def GetVarint32PtrFallback_def Let_def
        dest!: l split: option.splits list.splits if_splits)
qed

lemma GetVarint64_shorter: "GetVarint64 p = Some (v, q) \<Longrightarrow> length q < length p"
proof -
  have l: "length q < length p" if "get_varint64_loop a b p = Some (v, q)" for a b p v q
    using get_varint64_loop_suffix [OF that] by (metis diff_less length_drop length_greater_0_conv
        list.size(3) not_less_zero zero_less_Suc)
  assume "GetVarint64 p = Some (v, q)"
  then show ?thesis
    by (auto simp: GetVarint64_def GetVarint64Ptr_def dest!: l split: option.splits)
qed

lemma GetLengthPrefixedSlice_shorter:
  "GetLengthPrefixedSlice input = Some (s, rest) \<Longrightarrow> length rest < length input"
  by (auto simp: GetLengthPrefixedSlice_def dest!: GetVarint32_shorter split: option.splits if_splits)

subsection \<open>Properties\<close>

text \<open>Decoding an encoded 32- or 64-bit integer returns the integer and
  leaves exactly the bytes that followed it; the encodings take at most 5 and 10 bytes,
  \<open>VarintLength\<close> computes their length without encoding, and the hand-unrolled 32-bit
  encoder writes the same bytes as the 64-bit loop.\<close>

theorem varint_roundtrip:
  "GetVarint32 (EncodeVarint32 v @ rest) = Some (v, rest) \<and>
   GetVarint64 (EncodeVarint64 w @ rest) = Some (w, rest) \<and>
   length (EncodeVarint32 v) = VarintLength (ucast v) \<and> length (EncodeVarint32 v) \<le> 5 \<and>
   length (EncodeVarint64 w) = VarintLength w \<and> length (EncodeVarint64 w) \<le> 10 \<and>
   EncodeVarint32 v = EncodeVarint64 (ucast v)"
  by (simp add: VarintLength_eq EncodeVarint32_eq_64 [symmetric] length_EncodeVarint32_5
      length_EncodeVarint64_10)

text \<open>Decoding a fixed-width integer or a length-prefixed string returns
  what was put, whatever follows it.\<close>

theorem fixed_roundtrip:
  assumes "length s < 2 ^ 32"
  shows "DecodeFixed32 (PutFixed32 [] v @ rest) = v \<and> DecodeFixed64 (PutFixed64 [] w @ rest) = w \<and>
    GetLengthPrefixedSlice (PutLengthPrefixedSlice [] s @ rest) = Some (s, rest) \<and>
    GetLengthPrefixedSlicePtr (PutLengthPrefixedSlice [] s @ rest) = Some (s, rest)"
  using assms
  by (simp add: PutFixed32_def PutFixed64_def PutLengthPrefixedSlice_def PutVarint32_def
      GetLengthPrefixedSlicePtr_def unat_of_nat_u32)

theorem fixed_roundtrip_witness:
  "GetLengthPrefixedSlice (PutLengthPrefixedSlice [] [7, 8] @ [9]) = Some ([7, 8], [9]) \<and>
   PutLengthPrefixedSlice [] [7, 8] = [2, 7, 8]"
  using fixed_roundtrip [of "[7, 8]" 0 "[9]" 0]
  by (simp add: PutLengthPrefixedSlice_def PutVarint32_def EncodeVarint32_def)

end
