(* ===== verification/Status.thy ===== *)
theory Status
  imports Coding
begin

section \<open>Status values (\<^verbatim>\<open>include/leveldb/status.h\<close>, \<^verbatim>\<open>util/status.cc\<close>)\<close>

text \<open>
  A \<open>Status\<close> is its representation: \<open>None\<close> for the null \<open>state_\<close> of success, otherwise the
  allocated array of message length, error code and message. The error constructors, the
  predicates and \<open>ToString\<close> read and write that array as the code does.
\<close>

datatype Code = kOk | kNotFound | kCorruption | kNotSupported | kInvalidArgument | kIOError

fun code_byte :: "Code \<Rightarrow> byte" where
  "code_byte kOk = 0"
| "code_byte kNotFound = 1"
| "code_byte kCorruption = 2"
| "code_byte kNotSupported = 3"
| "code_byte kInvalidArgument = 4"
| "code_byte kIOError = 5"

type_synonym Status = "bytes option"

text \<open>String literals of the code, as bytes.\<close>

definition ascii :: "string \<Rightarrow> bytes" where
  "ascii s = map of_char s"

definition OK :: Status where "OK = None"

definition Status_new :: "Code \<Rightarrow> bytes \<Rightarrow> bytes \<Rightarrow> Status" where
  "Status_new c msg msg2 =
     (let len1 = (word_of_nat (length msg) :: u32);
          len2 = (word_of_nat (length msg2) :: u32);
          size = len1 + (if len2 \<noteq> 0 then 2 + len2 else 0)
      in Some (EncodeFixed32 size @ [code_byte c] @ take (unat len1) msg @
               (if len2 \<noteq> 0 then ascii '': '' @ take (unat len2) msg2 else [])))"

definition NotFound :: "bytes \<Rightarrow> bytes \<Rightarrow> Status" where
  "NotFound msg msg2 = Status_new kNotFound msg msg2"

definition Corruption :: "bytes \<Rightarrow> bytes \<Rightarrow> Status" where
  "Corruption msg msg2 = Status_new kCorruption msg msg2"

definition NotSupported :: "bytes \<Rightarrow> bytes \<Rightarrow> Status" where
  "NotSupported msg msg2 = Status_new kNotSupported msg msg2"

definition InvalidArgument :: "bytes \<Rightarrow> bytes \<Rightarrow> Status" where
  "InvalidArgument msg msg2 = Status_new kInvalidArgument msg msg2"

definition IOError :: "bytes \<Rightarrow> bytes \<Rightarrow> Status" where
  "IOError msg msg2 = Status_new kIOError msg msg2"

definition ok :: "Status \<Rightarrow> bool" where
  "ok s \<longleftrightarrow> s = None"

definition status_code :: "Status \<Rightarrow> byte" where
  "status_code s = (case s of None \<Rightarrow> code_byte kOk | Some state \<Rightarrow> byte_at state 4)"

definition IsNotFound :: "Status \<Rightarrow> bool" where
  "IsNotFound s \<longleftrightarrow> status_code s = code_byte kNotFound"

definition IsCorruption :: "Status \<Rightarrow> bool" where
  "IsCorruption s \<longleftrightarrow> status_code s = code_byte kCorruption"

definition IsIOError :: "Status \<Rightarrow> bool" where
  "IsIOError s \<longleftrightarrow> status_code s = code_byte kIOError"

definition IsNotSupportedError :: "Status \<Rightarrow> bool" where
  "IsNotSupportedError s \<longleftrightarrow> status_code s = code_byte kNotSupported"

definition IsInvalidArgument :: "Status \<Rightarrow> bool" where
  "IsInvalidArgument s \<longleftrightarrow> status_code s = code_byte kInvalidArgument"

definition CopyState :: "bytes \<Rightarrow> bytes" where
  "CopyState state = (let size = DecodeFixed32 state in take (unat size + 5) state)"

text \<open>
  Only the six codes above are ever stored; any other byte prints as a signed \<open>char\<close>.
  \<open>decimal\<close> is the output of the conversions \<open>%d\<close> and \<open>%llu\<close> for a natural number.
\<close>

definition digit :: "nat \<Rightarrow> byte" where
  "digit d = word_of_nat (48 + d)"

fun decimal :: "nat \<Rightarrow> bytes" where
  "decimal n = (if n < 10 then [digit n] else decimal (n div 10) @ [digit (n mod 10)])"

declare decimal.simps [simp del]

definition signed_decimal :: "int \<Rightarrow> bytes" where
  "signed_decimal i = (if i < 0 then ascii ''-'' else []) @ decimal (nat \<bar>i\<bar>)"

definition status_type :: "byte \<Rightarrow> bytes" where
  "status_type c =
     (if c = code_byte kOk then ascii ''OK''
      else if c = code_byte kNotFound then ascii ''NotFound: ''
      else if c = code_byte kCorruption then ascii ''Corruption: ''
      else if c = code_byte kNotSupported then ascii ''Not implemented: ''
      else if c = code_byte kInvalidArgument then ascii ''Invalid argument: ''
      else if c = code_byte kIOError then ascii ''IO error: ''
      else ascii ''Unknown code('' @ signed_decimal (sint c) @ ascii ''): '')"

definition Status_ToString :: "Status \<Rightarrow> bytes" where
  "Status_ToString s =
     (case s of
        None \<Rightarrow> ascii ''OK''
      | Some state \<Rightarrow>
          (let length = DecodeFixed32 state
           in status_type (status_code s) @ take (unat length) (drop 5 state)))"

lemma ok_simps [simp]:
  "ok OK" "ok None" "\<not> ok (Some st)"
  "\<not> ok (NotFound m m2)" "\<not> ok (Corruption m m2)" "\<not> ok (NotSupported m m2)"
  "\<not> ok (InvalidArgument m m2)" "\<not> ok (IOError m m2)"
  by (simp_all add: ok_def OK_def NotFound_def Corruption_def NotSupported_def
      InvalidArgument_def IOError_def Status_new_def Let_def)

lemma ok_iff_OK: "ok s \<longleftrightarrow> s = OK"
  by (simp add: ok_def OK_def)

lemma error_neq_OK [simp]:
  "NotFound m m2 \<noteq> OK" "Corruption m m2 \<noteq> OK" "NotSupported m m2 \<noteq> OK"
  "InvalidArgument m m2 \<noteq> OK" "IOError m m2 \<noteq> OK"
  by (simp_all flip: ok_iff_OK)

lemma status_code_new [simp]: "status_code (Status_new c m m2) = code_byte c"
  by (simp add: Status_new_def status_code_def Let_def byte_at_def nth_append)

lemma code_byte_inject [simp]: "code_byte c = code_byte d \<longleftrightarrow> c = d"
  by (cases c; cases d) simp_all

lemma IsNotFound_simps [simp]:
  "IsNotFound (NotFound m m2)" "\<not> IsNotFound OK" "\<not> IsNotFound (Corruption m m2)"
  "\<not> IsNotFound (IOError m m2)"
  by (simp_all add: IsNotFound_def NotFound_def Corruption_def IOError_def OK_def del: code_byte.simps)
     (simp add: status_code_def)

lemma IsCorruption_simps [simp]:
  "IsCorruption (Corruption m m2)" "\<not> IsCorruption OK" "\<not> IsCorruption (NotFound m m2)"
  "\<not> IsCorruption (IOError m m2)"
  by (simp_all add: IsCorruption_def NotFound_def Corruption_def IOError_def OK_def del: code_byte.simps)
     (simp add: status_code_def)

lemma Status_ToString_state:
  "Status_ToString (Some (EncodeFixed32 sz @ [c] @ body)) = status_type c @ take (unat sz) body"
  by (simp add: Status_ToString_def status_code_def byte_at_def nth_append)

lemma Status_ToString_new:
  assumes "length m + length m2 + 2 < 2 ^ 32"
  shows "Status_ToString (Status_new c m m2) =
    status_type (code_byte c) @ m @ (if m2 = [] then [] else ascii '': '' @ m2)"
proof (cases "m2 = []")
  case True
  have "unat (word_of_nat (length m) :: u32) = length m"
    using assms by (simp add: unat_of_nat_u32)
  with True show ?thesis
    by (simp only: Status_new_def Let_def Status_ToString_state) (simp del: code_byte.simps)
next
  case False
  define len1 where "len1 = (word_of_nat (length m) :: u32)"
  define len2 where "len2 = (word_of_nat (length m2) :: u32)"
  have len: "unat len1 = length m" "unat len2 = length m2"
    using assms by (simp_all add: len1_def len2_def unat_of_nat_u32)
  have nz: "len2 \<noteq> 0" using len(2) False by auto
  have sum: "unat (len1 + (2 + len2)) = length m + (2 + length m2)"
    using assms len by (simp add: unat_word_ariths)
  have "Status_new c m m2 = Some (EncodeFixed32 (len1 + (2 + len2)) @ [code_byte c] @ (m @ ascii '': '' @ m2))"
    using nz len by (simp add: Status_new_def Let_def del: code_byte.simps flip: len1_def len2_def)
  then show ?thesis
    using False by (simp only: Status_ToString_state sum) (simp add: ascii_def del: code_byte.simps)
qed

text \<open>Every error constructor makes a status that is not ok, answers to its
  own predicate only, survives copying, and prints as its prefix followed by the message and,
  if there is one, a colon and the second message.\<close>

theorem status_roundtrip:
  assumes "length m + length m2 + 2 < 2 ^ 32"
  shows "\<not> ok (Status_new c m m2) \<and>
    (IsNotFound (Status_new c m m2) \<longleftrightarrow> c = kNotFound) \<and>
    (IsCorruption (Status_new c m m2) \<longleftrightarrow> c = kCorruption) \<and>
    (IsIOError (Status_new c m m2) \<longleftrightarrow> c = kIOError) \<and>
    (IsNotSupportedError (Status_new c m m2) \<longleftrightarrow> c = kNotSupported) \<and>
    (IsInvalidArgument (Status_new c m m2) \<longleftrightarrow> c = kInvalidArgument) \<and>
    Status_ToString (Status_new c m m2) =
      status_type (code_byte c) @ m @ (if m2 = [] then [] else ascii '': '' @ m2)"
  using Status_ToString_new [OF assms, of c]
  by (simp add: IsNotFound_def IsCorruption_def IsIOError_def IsNotSupportedError_def
      IsInvalidArgument_def del: code_byte.simps) (simp add: Status_new_def Let_def)

theorem status_roundtrip_witness:
  "Status_ToString (Corruption (ascii ''VersionEdit'') (ascii ''unknown tag'')) =
     ascii ''Corruption: VersionEdit: unknown tag''"
  using status_roundtrip [of "ascii ''VersionEdit''" "ascii ''unknown tag''" kCorruption]
  by (simp add: Corruption_def ascii_def status_type_def)

end
