(* ===== verification/Comparators.thy ===== *)
theory Comparators
  imports Coding
begin

section \<open>Comparators (\<^verbatim>\<open>include/leveldb/slice.h\<close>, \<^verbatim>\<open>include/leveldb/comparator.h\<close>,
  \<^verbatim>\<open>util/comparator.cc\<close>)\<close>

text \<open>
  A \<open>Comparator\<close> object is a record of its virtual methods. The locale \<open>comparator\<close> states
  the order that the class comment of the interface demands of every implementation, on the
  keys \<open>valid\<close> singles out; \<open>separating_comparator\<close> adds the contracts of the two key
  shorteners that the table builder relies on. The lemmas the clients use are proved inside
  the locales; the built-in bytewise comparator is interpreted here, and the internal-key
  comparator, which wraps another comparator, in the theory of internal keys.
\<close>

subsection \<open>Slices\<close>

text \<open>\<open>memcmp\<close> on two equally long byte ranges: the sign of the first difference.\<close>

fun memcmp :: "bytes \<Rightarrow> bytes \<Rightarrow> int" where
  "memcmp (x # xs) (y # ys) = (if x = y then memcmp xs ys else if x < y then - 1 else 1)"
| "memcmp _ _ = 0"

definition Slice_compare :: "bytes \<Rightarrow> bytes \<Rightarrow> int" where
  "Slice_compare a b =
     (let min_len = (if length a < length b then length a else length b);
          r = memcmp (take min_len a) (take min_len b)
      in if r = 0
         then (if length a < length b then - 1 else if length a > length b then 1 else r)
         else r)"

definition Slice_eq :: "bytes \<Rightarrow> bytes \<Rightarrow> bool" where
  "Slice_eq x y \<longleftrightarrow> length x = length y \<and> memcmp x y = 0"

definition starts_with :: "bytes \<Rightarrow> bytes \<Rightarrow> bool" where
  "starts_with s x \<longleftrightarrow> length s \<ge> length x \<and> memcmp (take (length x) s) x = 0"

subsection \<open>The interface\<close>

record Comparator =
  Name :: string
  Compare :: "bytes \<Rightarrow> bytes \<Rightarrow> int"
  FindShortestSeparator :: "bytes \<Rightarrow> bytes \<Rightarrow> bytes"
  FindShortSuccessor :: "bytes \<Rightarrow> bytes"

locale comparator =
  fixes c :: Comparator and valid :: "bytes \<Rightarrow> bool"
  assumes swap: "valid a \<Longrightarrow> valid b \<Longrightarrow> sgn (Compare c b a) = - sgn (Compare c a b)"
    and le_trans: "valid a \<Longrightarrow> valid b \<Longrightarrow> valid d \<Longrightarrow>
      Compare c a b \<le> 0 \<Longrightarrow> Compare c b d \<le> 0 \<Longrightarrow> Compare c a d \<le> 0"
begin

lemma refl: "valid a \<Longrightarrow> Compare c a a = 0"
  using swap [of a a] by (simp add: sgn_if split: if_splits)

lemma gt_iff_lt: "valid a \<Longrightarrow> valid b \<Longrightarrow> Compare c b a > 0 \<longleftrightarrow> Compare c a b < 0"
  using swap [of a b] by (auto simp: sgn_if split: if_splits)

lemma ge_iff_le: "valid a \<Longrightarrow> valid b \<Longrightarrow> Compare c b a \<ge> 0 \<longleftrightarrow> Compare c a b \<le> 0"
  using swap [of a b] by (auto simp: sgn_if split: if_splits)

lemma eq_sym: "valid a \<Longrightarrow> valid b \<Longrightarrow> Compare c b a = 0 \<longleftrightarrow> Compare c a b = 0"
  using swap [of a b] by (auto simp: sgn_if split: if_splits)

lemma not_le_iff_lt: "valid a \<Longrightarrow> valid b \<Longrightarrow> \<not> Compare c b a \<le> 0 \<longleftrightarrow> Compare c a b < 0"
  using gt_iff_lt [of a b] by auto

lemma lt_le_trans:
  assumes "valid a" "valid b" "valid d" "Compare c a b < 0" "Compare c b d \<le> 0"
  shows "Compare c a d < 0"
proof (rule ccontr)
  assume "\<not> Compare c a d < 0"
  with assms have "Compare c d a \<le> 0" using ge_iff_le [of d a] by auto
  with assms have "Compare c b a \<le> 0" using le_trans [of b d a] by auto
  with assms show False using not_le_iff_lt [of a b] by auto
qed

lemma le_lt_trans:
  assumes "valid a" "valid b" "valid d" "Compare c a b \<le> 0" "Compare c b d < 0"
  shows "Compare c a d < 0"
proof (rule ccontr)
  assume "\<not> Compare c a d < 0"
  with assms have "Compare c d a \<le> 0" using ge_iff_le [of d a] by auto
  with assms have "Compare c d b \<le> 0" using le_trans [of d a b] by auto
  with assms show False using not_le_iff_lt [of b d] by auto
qed

lemma lt_trans:
  assumes "valid a" "valid b" "valid d" "Compare c a b < 0" "Compare c b d < 0"
  shows "Compare c a d < 0"
  using assms lt_le_trans [of a b d] by auto

lemma eq_lt_cong:
  assumes "valid a" "valid b" "valid d" "Compare c a b = 0"
  shows "Compare c a d < 0 \<longleftrightarrow> Compare c b d < 0"
  using assms le_lt_trans [of a b d] le_lt_trans [of b a d] eq_sym [of a b] by auto

end

locale separating_comparator = comparator +
  assumes separator: "valid s \<Longrightarrow> valid l \<Longrightarrow> Compare c s l < 0 \<Longrightarrow>
      valid (FindShortestSeparator c s l) \<and>
      Compare c s (FindShortestSeparator c s l) \<le> 0 \<and>
      Compare c (FindShortestSeparator c s l) l < 0"
    and separator_unchanged: "valid s \<Longrightarrow> valid l \<Longrightarrow> \<not> Compare c s l < 0 \<Longrightarrow>
      FindShortestSeparator c s l = s"
    and successor: "valid s \<Longrightarrow>
      valid (FindShortSuccessor c s) \<and> Compare c s (FindShortSuccessor c s) \<le> 0"
begin

lemma separator_valid: "valid s \<Longrightarrow> valid l \<Longrightarrow> valid (FindShortestSeparator c s l)"
  using separator [of s l] separator_unchanged [of s l] by (cases "Compare c s l < 0") auto

text \<open>A separator between two keys also separates everything below from everything above.\<close>

lemma separator_between:
  assumes "valid s" "valid l" "valid k" "Compare c s l < 0"
  shows "Compare c k s \<le> 0 \<Longrightarrow> Compare c k (FindShortestSeparator c s l) \<le> 0"
    and "Compare c l k \<le> 0 \<Longrightarrow> Compare c (FindShortestSeparator c s l) k < 0"
  using assms separator [of s l] separator_valid [of s l]
    le_trans [of k s "FindShortestSeparator c s l"]
    lt_le_trans [of "FindShortestSeparator c s l" l k] by auto

end

subsection \<open>The bytewise comparator\<close>

definition Bytewise_FindShortestSeparator :: "bytes \<Rightarrow> bytes \<Rightarrow> bytes" where
  "Bytewise_FindShortestSeparator start limit =
     (let min_length = min (length start) (length limit);
          diff_index = common_prefix_len start limit
      in if diff_index \<ge> min_length then start
         else
           (let diff_byte = start ! diff_index
            in if diff_byte < 0xff \<and> uint diff_byte + 1 < uint (limit ! diff_index)
               then take (diff_index + 1) (start[diff_index := diff_byte + 1])
               else start))"

fun Bytewise_FindShortSuccessor :: "bytes \<Rightarrow> bytes" where
  "Bytewise_FindShortSuccessor [] = []"
| "Bytewise_FindShortSuccessor (b # key) =
     (if b \<noteq> 0xff then [b + 1] else b # Bytewise_FindShortSuccessor key)"

definition BytewiseComparator :: Comparator where
  "BytewiseComparator =
     \<lparr>Name = ''leveldb.BytewiseComparator'',
      Compare = Slice_compare,
      FindShortestSeparator = Bytewise_FindShortestSeparator,
      FindShortSuccessor = Bytewise_FindShortSuccessor\<rparr>"

text \<open>The code's comparison is the lexicographic order, here in its recursive form.\<close>

fun lex_cmp :: "bytes \<Rightarrow> bytes \<Rightarrow> int" where
  "lex_cmp [] [] = 0"
| "lex_cmp [] (y # ys) = - 1"
| "lex_cmp (x # xs) [] = 1"
| "lex_cmp (x # xs) (y # ys) = (if x = y then lex_cmp xs ys else if x < y then - 1 else 1)"

lemma memcmp_Nil [simp]: "memcmp [] ys = 0" "memcmp xs [] = 0"
  by (cases ys; simp) (cases xs; simp)

lemma Slice_compare_lex: "Slice_compare a b = lex_cmp a b"
  by (induction a b rule: lex_cmp.induct) (auto simp: Slice_compare_def Let_def split: if_splits)

lemma memcmp_0_iff: "length xs = length ys \<Longrightarrow> memcmp xs ys = 0 \<longleftrightarrow> xs = ys"
  by (induction xs ys rule: memcmp.induct) (auto split: if_splits)

lemma Slice_eq_iff [simp]: "Slice_eq x y \<longleftrightarrow> x = y"
  by (auto simp: Slice_eq_def memcmp_0_iff)

lemma starts_with_iff: "starts_with s x \<longleftrightarrow> (\<exists>t. s = x @ t)"
proof
  assume "starts_with s x"
  then have "length x \<le> length s" and "memcmp (take (length x) s) x = 0"
    by (simp_all add: starts_with_def)
  then have "take (length x) s = x"
    using memcmp_0_iff [of "take (length x) s" x] by simp
  then show "\<exists>t. s = x @ t" by (metis append_take_drop_id)
qed (auto simp: starts_with_def memcmp_0_iff)

lemma lex_cmp_0_iff [simp]: "lex_cmp a b = 0 \<longleftrightarrow> a = b"
  by (induction a b rule: lex_cmp.induct) (auto split: if_splits)

lemma lex_cmp_refl [simp]: "lex_cmp a a = 0"
  by simp

lemma lex_cmp_swap: "lex_cmp b a = - lex_cmp a b"
  by (induction a b rule: lex_cmp.induct) auto

lemma lex_cmp_le_trans: "lex_cmp a b \<le> 0 \<Longrightarrow> lex_cmp b d \<le> 0 \<Longrightarrow> lex_cmp a d \<le> 0"
proof (induction a b arbitrary: d rule: lex_cmp.induct)
  case (2 y ys)
  then show ?case by (cases d) auto
next
  case (4 x xs y ys)
  then show ?case by (cases d) (auto split: if_splits)
next
  case 1
  then show ?case by (cases d) auto
qed auto

lemma lex_cmp_prefix: "lex_cmp (p @ a) (p @ b) = lex_cmp a b"
  by (induction p) auto

lemma Bytewise_separator_cases:
  obtains (unchanged) "Bytewise_FindShortestSeparator s l = s"
  | (shortened) p x xs y ys where "s = p @ x # xs" "l = p @ y # ys" "uint x + 1 < uint y"
      "Bytewise_FindShortestSeparator s l = p @ [x + 1]"
proof -
  define d where "d = common_prefix_len s l"
  show thesis
  proof (cases "d < length s \<and> d < length l \<and> s ! d < 0xff \<and> uint (s ! d) + 1 < uint (l ! d)")
    case False
    then have "Bytewise_FindShortestSeparator s l = s"
      by (auto simp: Bytewise_FindShortestSeparator_def Let_def d_def)
    then show thesis by (rule unchanged)
  next
    case True
    then have s: "s = take d s @ s ! d # drop (Suc d) s" and l: "l = take d s @ l ! d # drop (Suc d) l"
      using common_prefix_len_take [of s l] id_take_nth_drop [of d s] id_take_nth_drop [of d l]
      by (auto simp: d_def)
    have "take (d + 1) (s[d := s ! d + 1]) = take d s @ [s ! d + 1]"
      using True by (simp add: take_Suc_conv_app_nth)
    then have "Bytewise_FindShortestSeparator s l = take d s @ [s ! d + 1]"
      using True by (auto simp: Bytewise_FindShortestSeparator_def Let_def d_def)
    with s l True show thesis by (intro shortened) auto
  qed
qed

lemma byte_succ:
  assumes "uint (x :: byte) + 1 < uint (y :: byte)"
  shows "x < x + 1" "x + 1 < y"
proof -
  have "uint (x + 1) = uint x + 1"
    using assms uint_lt2p [of y] by (simp add: uint_word_ariths take_bit_int_eq_self)
  with assms show "x < x + 1" "x + 1 < y" by (simp_all add: word_less_def)
qed

lemma byte_less_Suc:
  assumes "(b :: byte) \<noteq> 0xff"
  shows "b < b + 1"
proof -
  have "uint b \<noteq> uint (0xff :: byte)" using assms by (simp only: word_uint_eq_iff simp_thms)
  then have "uint b + 1 < 2 ^ 8" using uint_lt2p [of b] by simp
  then have "uint (b + 1) = uint b + 1" by (simp add: uint_word_ariths take_bit_int_eq_self)
  then show ?thesis by (simp add: word_less_def)
qed

interpretation bytewise: separating_comparator BytewiseComparator "\<lambda>_. True"
proof
  fix a b :: bytes
  show "sgn (Compare BytewiseComparator b a) = - sgn (Compare BytewiseComparator a b)"
    using lex_cmp_swap [of b a] by (simp add: BytewiseComparator_def Slice_compare_lex)
next
  fix a b d :: bytes
  assume "Compare BytewiseComparator a b \<le> 0" "Compare BytewiseComparator b d \<le> 0"
  then show "Compare BytewiseComparator a d \<le> 0"
    by (auto simp: BytewiseComparator_def Slice_compare_lex intro: lex_cmp_le_trans)
next
  fix s l :: bytes
  assume "Compare BytewiseComparator s l < 0"
  then show "True \<and> Compare BytewiseComparator s (FindShortestSeparator BytewiseComparator s l) \<le> 0 \<and>
      Compare BytewiseComparator (FindShortestSeparator BytewiseComparator s l) l < 0"
    by (cases rule: Bytewise_separator_cases [of s l])
       (auto simp: BytewiseComparator_def Slice_compare_lex lex_cmp_prefix dest: byte_succ)
next
  fix s l :: bytes
  assume nlt: "\<not> Compare BytewiseComparator s l < 0"
  show "FindShortestSeparator BytewiseComparator s l = s"
  proof (cases rule: Bytewise_separator_cases [of s l])
    case (shortened p x xs y ys)
    then have "x < y" by (simp add: word_less_def)
    with shortened nlt show ?thesis
      by (simp add: BytewiseComparator_def Slice_compare_lex lex_cmp_prefix split: if_splits)
  qed (simp add: BytewiseComparator_def)
next
  fix s :: bytes
  have "lex_cmp s (Bytewise_FindShortSuccessor s) \<le> 0"
  proof (induction s)
    case (Cons b s)
    then show ?case using byte_less_Suc [of b] by auto
  qed simp
  then show "True \<and> Compare BytewiseComparator s (FindShortSuccessor BytewiseComparator s) \<le> 0"
    by (simp add: BytewiseComparator_def Slice_compare_lex)
qed

lemma Bytewise_separator_length: "length (Bytewise_FindShortestSeparator s l) \<le> length s"
  by (cases rule: Bytewise_separator_cases [of s l]) auto

lemma Bytewise_successor_length: "length (Bytewise_FindShortSuccessor s) \<le> length s"
  by (induction s) auto

text \<open>For two strings in increasing order, the separator the bytewise
  comparator computes lies in \<open>[start, limit)\<close> and is not longer than \<open>start\<close>; the short
  successor of a string is not below it and not longer.\<close>

theorem bytewise_separator:
  assumes "Slice_compare start limit < 0"
  shows "Slice_compare start (Bytewise_FindShortestSeparator start limit) \<le> 0 \<and>
    Slice_compare (Bytewise_FindShortestSeparator start limit) limit < 0 \<and>
    length (Bytewise_FindShortestSeparator start limit) \<le> length start \<and>
    Slice_compare start (Bytewise_FindShortSuccessor start) \<le> 0 \<and>
    length (Bytewise_FindShortSuccessor start) \<le> length start"
  using bytewise.separator [of start limit] bytewise.successor [of start] assms
  by (simp add: BytewiseComparator_def Bytewise_separator_length Bytewise_successor_length)

theorem bytewise_separator_witness:
  "Slice_compare [1, 2, 3] [1, 9] < 0 \<and>
   Bytewise_FindShortestSeparator [1, 2, 3] [1, 9] = [1, 3] \<and> Slice_compare [1, 3] [1, 9] < 0"
  using bytewise_separator [of "[1, 2, 3]" "[1, 9]"]
  by (simp add: Slice_compare_lex Bytewise_FindShortestSeparator_def Let_def)

end
