(* ===== verification/Filename.thy ===== *)
theory Filename
  imports Status Comparators
begin

section \<open>Decimal numbers and file names (\<^verbatim>\<open>util/logging.cc\<close>, \<^verbatim>\<open>db/filename.cc\<close>)\<close>

text \<open>
  The names of the files of a database and the parser that recovers the type and number of a
  file from its name. \<open>decimal\<close> is the output of the \<open>%llu\<close> conversion and
  \<open>zero_padded\<close> of \<open>%06llu\<close>.
\<close>

subsection \<open>Printing and consuming decimal numbers\<close>

definition zero_padded :: "nat \<Rightarrow> nat \<Rightarrow> bytes" where
  "zero_padded w n = replicate (w - length (decimal n)) (digit 0) @ decimal n"

definition AppendNumberTo :: "bytes \<Rightarrow> u64 \<Rightarrow> bytes" where
  "AppendNumberTo str num = str @ decimal (unat num)"

definition NumberToString :: "u64 \<Rightarrow> bytes" where
  "NumberToString num = AppendNumberTo [] num"

definition hex_digit :: "nat \<Rightarrow> byte" where
  "hex_digit d = (if d < 10 then word_of_nat (48 + d) else word_of_nat (87 + d))"

fun AppendEscapedStringTo :: "bytes \<Rightarrow> bytes \<Rightarrow> bytes" where
  "AppendEscapedStringTo str [] = str"
| "AppendEscapedStringTo str (c # value) =
     (if sint c \<ge> 32 \<and> sint c \<le> 126 then AppendEscapedStringTo (str @ [c]) value
      else AppendEscapedStringTo
             (str @ ascii [CHR 0x5C, CHR ''x''] @ [hex_digit (unat c div 16), hex_digit (unat c mod 16)])
             value)"

definition EscapeString :: "bytes \<Rightarrow> bytes" where
  "EscapeString value = AppendEscapedStringTo [] value"

definition kMaxUint64 :: u64 where "kMaxUint64 = 0xffffffffffffffff"

definition kLastDigitOfMaxUint64 :: byte where
  "kLastDigitOfMaxUint64 = digit (unat kMaxUint64 mod 10)"

text \<open>
  The scan: \<open>None\<close> is the early return on overflow; otherwise the value, the number of
  digits consumed and the rest.
\<close>

fun consume_digits :: "u64 \<Rightarrow> nat \<Rightarrow> bytes \<Rightarrow> (u64 \<times> nat \<times> bytes) option" where
  "consume_digits value current [] = Some (value, current, [])"
| "consume_digits value current (ch # rest) =
     (if ch < digit 0 \<or> ch > digit 9 then Some (value, current, ch # rest)
      else if value > kMaxUint64 div 10 \<or>
              (value = kMaxUint64 div 10 \<and> ch > kLastDigitOfMaxUint64) then None
      else consume_digits (value * 10 + ucast (ch - digit 0)) (Suc current) rest)"

text \<open>The returned flag, the value stored (if any) and the advanced slice.\<close>

definition ConsumeDecimalNumber :: "bytes \<Rightarrow> bool \<times> u64 option \<times> bytes" where
  "ConsumeDecimalNumber in' =
     (case consume_digits 0 0 in' of
        None \<Rightarrow> (False, None, in')
      | Some (value, digits_consumed, rest) \<Rightarrow>
          (digits_consumed \<noteq> 0, Some value, drop digits_consumed in'))"

definition is_digit :: "byte \<Rightarrow> bool" where
  "is_digit ch \<longleftrightarrow> digit 0 \<le> ch \<and> ch \<le> digit 9"

definition digits_value :: "nat \<Rightarrow> bytes \<Rightarrow> nat" where
  "digits_value v ds = foldl (\<lambda>v ch. 10 * v + (unat ch - 48)) v ds"

lemma is_digit_unat: "is_digit ch \<longleftrightarrow> 48 \<le> unat ch \<and> unat ch \<le> 57"
  by (simp add: is_digit_def digit_def word_le_nat_alt)

lemma unat_kMax: "unat kMaxUint64 = 18446744073709551615"
  "unat (kMaxUint64 div 10) = 1844674407370955161" "unat kLastDigitOfMaxUint64 = 53"
  by (simp_all add: kMaxUint64_def kLastDigitOfMaxUint64_def digit_def unat_div)

lemma digits_value_mono: "v \<le> digits_value v ds"
proof (induction ds arbitrary: v)
  case (Cons ch ds)
  have "v \<le> 10 * v + (unat ch - 48)" by simp
  also have "\<dots> \<le> digits_value (10 * v + (unat ch - 48)) ds" by (rule Cons)
  finally show ?case by (simp add: digits_value_def)
qed (simp add: digits_value_def)

lemma consume_digits_spec:
  "consume_digits v k xs =
    (let ds = takeWhile is_digit xs; n = digits_value (unat v) ds
     in if n < 2 ^ 64 then Some (word_of_nat n, k + length ds, dropWhile is_digit xs) else None)"
proof (induction v k xs rule: consume_digits.induct)
  case (1 v k)
  then show ?case using u64_less [of v] by (simp add: digits_value_def Let_def)
next
  case (2 v k ch rest)
  show ?case
  proof (cases "is_digit ch")
    case False
    then have "ch < digit 0 \<or> ch > digit 9" by (auto simp: is_digit_def not_le)
    with False u64_less [of v] show ?thesis by (simp add: digits_value_def Let_def)
  next
    case digit: True
    then have nd: "\<not> (ch < digit 0 \<or> ch > digit 9)" by (auto simp: is_digit_def not_le)
    from digit have ch: "48 \<le> unat ch" "unat ch \<le> 57" by (simp_all add: is_digit_unat)
    have sub: "unat (ch - digit 0) = unat ch - 48"
      using ch by (simp add: digit_def unat_sub word_le_nat_alt)
    have u: "unat (ucast (ch - digit 0) :: u64) = unat ch - 48"
      using ch sub by (simp add: unsigned_ucast_eq take_bit_nat_eq_self)
    let ?over = "v > kMaxUint64 div 10 \<or> (v = kMaxUint64 div 10 \<and> ch > kLastDigitOfMaxUint64)"
    have over: "?over \<longleftrightarrow> \<not> 10 * unat v + (unat ch - 48) < 2 ^ 64"
      using ch unat_kMax by (simp add: word_less_nat_alt word_unat_eq_iff) arith
    show ?thesis
    proof (cases ?over)
      case True
      with digit nd over show ?thesis
        using digits_value_mono [of "10 * unat v + (unat ch - 48)" "takeWhile is_digit rest"]
        by (simp add: digits_value_def Let_def)
    next
      case False
      with over have "10 * unat v + (unat ch - 48) < 2 ^ 64" by blast
      then have "unat (v * 10 + ucast (ch - digit 0)) = 10 * unat v + (unat ch - 48)"
        using u by (simp add: unat_word_ariths)
      with 2 [OF nd False] digit show ?thesis
        by (simp only: consume_digits.simps nd False if_False) (simp add: digits_value_def Let_def)
    qed
  qed
qed

lemma unat_digit: "d < 10 \<Longrightarrow> unat (digit d) = 48 + d"
  using unat_of_nat [of "48 + d", where ?'a = 8] by (simp add: digit_def take_bit_nat_eq_self)

lemma is_digit_digit [simp]: "d < 10 \<Longrightarrow> is_digit (digit d)"
  by (simp add: is_digit_unat unat_digit)

lemma decimal_digits: "list_all is_digit (decimal n)"
  by (induction n rule: decimal.induct) (subst decimal.simps, auto)

lemma decimal_nonempty [simp]: "decimal n \<noteq> []"
  by (subst decimal.simps) simp

lemma digits_value_decimal: "digits_value 0 (decimal n) = n"
proof (induction n rule: decimal.induct)
  case (1 n)
  then show ?case
    by (subst decimal.simps) (auto simp: digits_value_def unat_digit)
qed

lemma digits_value_zeros: "digits_value 0 (replicate k (digit 0) @ ds) = digits_value 0 ds"
  by (induction k) (simp_all add: digits_value_def unat_digit)

lemma zero_padded_digits: "list_all is_digit (zero_padded w n)"
  using decimal_digits [of n] by (auto simp: zero_padded_def list_all_iff)

lemma zero_padded_nonempty [simp]: "zero_padded w n \<noteq> []"
  by (simp add: zero_padded_def)

lemma consume_number:
  assumes "list_all is_digit ds" "ds \<noteq> []" "digits_value 0 ds < 2 ^ 64"
    and "rest = [] \<or> \<not> is_digit (hd rest)"
  shows "ConsumeDecimalNumber (ds @ rest) = (True, Some (word_of_nat (digits_value 0 ds)), rest)"
proof -
  have "takeWhile is_digit (ds @ rest) = ds"
    using assms by (cases rest) (auto simp: takeWhile_append list_all_iff)
  with assms show ?thesis
    by (simp add: ConsumeDecimalNumber_def consume_digits_spec Let_def)
qed

lemma consume_zero_padded:
  assumes "n < 2 ^ 64" and "rest = [] \<or> \<not> is_digit (hd rest)"
  shows "ConsumeDecimalNumber (zero_padded w n @ rest) = (True, Some (word_of_nat n), rest)"
proof -
  have "digits_value 0 (zero_padded w n) = n"
    by (simp add: zero_padded_def digits_value_zeros digits_value_decimal)
  with consume_number [OF zero_padded_digits zero_padded_nonempty _ assms(2), of w n] assms(1)
  show ?thesis by simp
qed

subsection \<open>File names\<close>

datatype FileType = kLogFile | kDBLockFile | kTableFile | kDescriptorFile | kCurrentFile
  | kTempFile | kInfoLogFile

definition MakeFileName :: "bytes \<Rightarrow> u64 \<Rightarrow> bytes \<Rightarrow> bytes" where
  "MakeFileName dbname number suffix =
     dbname @ ascii ''/'' @ zero_padded 6 (unat number) @ ascii ''.'' @ suffix"

definition LogFileName :: "bytes \<Rightarrow> u64 \<Rightarrow> bytes" where
  "LogFileName dbname number = MakeFileName dbname number (ascii ''log'')"

definition TableFileName :: "bytes \<Rightarrow> u64 \<Rightarrow> bytes" where
  "TableFileName dbname number = MakeFileName dbname number (ascii ''ldb'')"

definition SSTTableFileName :: "bytes \<Rightarrow> u64 \<Rightarrow> bytes" where
  "SSTTableFileName dbname number = MakeFileName dbname number (ascii ''sst'')"

definition DescriptorFileName :: "bytes \<Rightarrow> u64 \<Rightarrow> bytes" where
  "DescriptorFileName dbname number =
     dbname @ ascii ''/MANIFEST-'' @ zero_padded 6 (unat number)"

definition CurrentFileName :: "bytes \<Rightarrow> bytes" where
  "CurrentFileName dbname = dbname @ ascii ''/CURRENT''"

definition LockFileName :: "bytes \<Rightarrow> bytes" where
  "LockFileName dbname = dbname @ ascii ''/LOCK''"

definition TempFileName :: "bytes \<Rightarrow> u64 \<Rightarrow> bytes" where
  "TempFileName dbname number = MakeFileName dbname number (ascii ''dbtmp'')"

definition InfoLogFileName :: "bytes \<Rightarrow> bytes" where
  "InfoLogFileName dbname = dbname @ ascii ''/LOG''"

definition OldInfoLogFileName :: "bytes \<Rightarrow> bytes" where
  "OldInfoLogFileName dbname = dbname @ ascii ''/LOG.old''"

text \<open>\<open>None\<close> is the code's \<open>false\<close>.\<close>

definition ParseFileName :: "bytes \<Rightarrow> (u64 \<times> FileType) option" where
  "ParseFileName filename =
     (let rest = filename in
      if Slice_eq rest (ascii ''CURRENT'') then Some (0, kCurrentFile)
      else if Slice_eq rest (ascii ''LOCK'') then Some (0, kDBLockFile)
      else if Slice_eq rest (ascii ''LOG'') \<or> Slice_eq rest (ascii ''LOG.old'') then
        Some (0, kInfoLogFile)
      else if starts_with rest (ascii ''MANIFEST-'') then
        (let rest = drop (length (ascii ''MANIFEST-'')) rest in
         case ConsumeDecimalNumber rest of
           (False, num, rest) \<Rightarrow> None
         | (True, num, rest) \<Rightarrow> if rest \<noteq> [] then None else Some (the num, kDescriptorFile))
      else
        (case ConsumeDecimalNumber rest of
           (False, num, rest) \<Rightarrow> None
         | (True, num, suffix) \<Rightarrow>
             if Slice_eq suffix (ascii ''.log'') then Some (the num, kLogFile)
             else if Slice_eq suffix (ascii ''.sst'') \<or> Slice_eq suffix (ascii ''.ldb'') then
               Some (the num, kTableFile)
             else if Slice_eq suffix (ascii ''.dbtmp'') then Some (the num, kTempFile)
             else None))"

lemma hd_append_digits:
  assumes "list_all is_digit ds" "ds \<noteq> []"
  shows "\<exists>b t. ds @ rest = b # t \<and> is_digit b"
  using assms by (cases ds) auto

lemma not_keyword:
  assumes "list_all is_digit ds" "ds \<noteq> []" "\<not> is_digit b"
  shows "ds @ rest \<noteq> b # xs" and "\<not> starts_with (ds @ rest) (b # xs)"
  using hd_append_digits [OF assms(1,2), of rest] assms(3)
  by (auto simp: starts_with_iff)

lemma parse_numbered:
  assumes "suffix = [] \<or> \<not> is_digit (hd suffix)"
  shows "ParseFileName (zero_padded w (unat (n :: u64)) @ suffix) =
    (if suffix = ascii ''.log'' then Some (n, kLogFile)
     else if suffix = ascii ''.sst'' \<or> suffix = ascii ''.ldb'' then Some (n, kTableFile)
     else if suffix = ascii ''.dbtmp'' then Some (n, kTempFile) else None)"
proof -
  note nk = not_keyword [OF zero_padded_digits [of w "unat n"] zero_padded_nonempty]
  have "\<not> is_digit (0x43 :: byte)" "\<not> is_digit (0x4C :: byte)" "\<not> is_digit (0x4D :: byte)"
    by (simp_all add: is_digit_unat)
  then show ?thesis
    using consume_zero_padded [OF u64_less [of n] assms, of w] nk
    by (simp add: ParseFileName_def Let_def ascii_def)
qed

lemma dot_not_digit: "\<not> is_digit (0x2E :: byte)"
  by (simp add: is_digit_unat)

lemma parse_numbered_names:
  "ParseFileName (drop (length dbname + 1) (LogFileName dbname n)) = Some (n, kLogFile)"
  "ParseFileName (drop (length dbname + 1) (TableFileName dbname n)) = Some (n, kTableFile)"
  "ParseFileName (drop (length dbname + 1) (SSTTableFileName dbname n)) = Some (n, kTableFile)"
  "ParseFileName (drop (length dbname + 1) (TempFileName dbname n)) = Some (n, kTempFile)"
  using dot_not_digit
  by (simp_all add: LogFileName_def TableFileName_def SSTTableFileName_def
      TempFileName_def MakeFileName_def parse_numbered ascii_def)

lemma parse_fixed_names:
  "ParseFileName (drop (length dbname + 1) (DescriptorFileName dbname n)) = Some (n, kDescriptorFile)"
  "ParseFileName (drop (length dbname + 1) (CurrentFileName dbname)) = Some (0, kCurrentFile)"
  "ParseFileName (drop (length dbname + 1) (LockFileName dbname)) = Some (0, kDBLockFile)"
  "ParseFileName (drop (length dbname + 1) (InfoLogFileName dbname)) = Some (0, kInfoLogFile)"
  "ParseFileName (drop (length dbname + 1) (OldInfoLogFileName dbname)) = Some (0, kInfoLogFile)"
  using consume_zero_padded [OF u64_less [of n], of "[]" 6]
  by (simp_all add: DescriptorFileName_def CurrentFileName_def LockFileName_def InfoLogFileName_def
      OldInfoLogFileName_def ParseFileName_def ascii_def Let_def starts_with_iff)

text \<open>C38: the parser recovers the type and the number from the name of every
  kind of database file (the part after the directory); the six-digit padding and 64-bit
  numbers of up to twenty digits included.\<close>

theorem filename_roundtrip:
  "ParseFileName (drop (length dbname + 1) (LogFileName dbname n)) = Some (n, kLogFile) \<and>
   ParseFileName (drop (length dbname + 1) (TableFileName dbname n)) = Some (n, kTableFile) \<and>
   ParseFileName (drop (length dbname + 1) (SSTTableFileName dbname n)) = Some (n, kTableFile) \<and>
   ParseFileName (drop (length dbname + 1) (TempFileName dbname n)) = Some (n, kTempFile) \<and>
   ParseFileName (drop (length dbname + 1) (DescriptorFileName dbname n)) = Some (n, kDescriptorFile) \<and>
   ParseFileName (drop (length dbname + 1) (CurrentFileName dbname)) = Some (0, kCurrentFile) \<and>
   ParseFileName (drop (length dbname + 1) (LockFileName dbname)) = Some (0, kDBLockFile) \<and>
   ParseFileName (drop (length dbname + 1) (InfoLogFileName dbname)) = Some (0, kInfoLogFile) \<and>
   ParseFileName (drop (length dbname + 1) (OldInfoLogFileName dbname)) = Some (0, kInfoLogFile)"
  by (intro conjI parse_numbered_names parse_fixed_names)

text \<open>The digit scanner computes the value of the longest run of
  digits; it succeeds exactly when the run is not empty and its value fits in 64 bits, and
  consumes exactly the run. The multiply-free overflow test is exact.\<close>

theorem consume_decimal_spec:
  "ConsumeDecimalNumber xs =
    (let ds = takeWhile is_digit xs; n = digits_value 0 ds
     in if n < 2 ^ 64 then (ds \<noteq> [], Some (word_of_nat n), dropWhile is_digit xs)
        else (False, None, xs))"
  by (simp add: ConsumeDecimalNumber_def consume_digits_spec Let_def dropWhile_eq_drop)

end
