(* ===== verification/Bloom.thy ===== *)
theory Bloom
  imports Coding
begin

section \<open>Hashing and filter policies (\<^verbatim>\<open>util/hash.cc\<close>, \<^verbatim>\<open>util/bloom.cc\<close>)\<close>

text \<open>
  The murmur-like 32-bit hash, the filter-policy interface with the contract its comments
  state (a filter never denies a key it was built from), and the Bloom filter that
  implements it. A \<open>FilterPolicy\<close> object is a record of its virtual methods.
\<close>

subsection \<open>The hash function\<close>

definition hash_m :: u32 where "hash_m = 0xc6a4a793"
definition hash_r :: nat where "hash_r = 24"

text \<open>The loop that consumes four bytes at a time, and the fall-through switch on the rest.\<close>

function hash_words :: "u32 \<Rightarrow> bytes \<Rightarrow> u32 \<times> bytes" where
  "hash_words h data =
     (if 4 \<le> length data then
        (let w = DecodeFixed32 data;
             h = h + w;
             h = h * hash_m;
             h = h XOR drop_bit 16 h
         in hash_words h (drop 4 data))
      else (h, data))"
  by pat_completeness auto
termination by (relation "measure (\<lambda>(h, data). length data)") auto

declare hash_words.simps [simp del]

definition hash_tail :: "u32 \<Rightarrow> bytes \<Rightarrow> u32" where
  "hash_tail h data =
     (let h = (if length data = 3 then h + push_bit 16 (ucast (data ! 2)) else h);
          h = (if length data = 3 \<or> length data = 2 then h + push_bit 8 (ucast (data ! 1)) else h)
      in if length data = 3 \<or> length data = 2 \<or> length data = 1
         then (let h = h + ucast (data ! 0); h = h * hash_m in h XOR drop_bit hash_r h)
         else h)"

definition Hash :: "bytes \<Rightarrow> u32 \<Rightarrow> u32" where
  "Hash data seed =
     (let h = seed XOR (word_of_nat (length data) * hash_m);
          (h, rest) = hash_words h data
      in hash_tail h rest)"

text \<open>The vectors of the repository's own \<^verbatim>\<open>hash_test.cc\<close>.\<close>

lemma Hash_test_vectors:
  "Hash [] 0xbc9f1d34 = 0xbc9f1d34"
  "Hash [0x62] 0xbc9f1d34 = 0xef1345c4"
  "Hash [0xc3, 0x97] 0xbc9f1d34 = 0x5b663814"
  "Hash [0xe2, 0x99, 0xa5] 0xbc9f1d34 = 0x323c078f"
  "Hash [0xe1, 0x80, 0xb9, 0x32] 0xbc9f1d34 = 0xed21633a"
  by (simp_all add: Hash_def hash_words.simps hash_tail_def hash_m_def hash_r_def
      DecodeFixed32_def byte_at_def Let_def)

subsection \<open>The filter-policy interface\<close>

record FilterPolicy =
  fp_Name :: string
  CreateFilter :: "bytes list \<Rightarrow> bytes \<Rightarrow> bytes"
  KeyMayMatch :: "bytes \<Rightarrow> bytes \<Rightarrow> bool"

text \<open>
  The contract: \<open>CreateFilter\<close> only appends to the destination, and \<open>KeyMayMatch\<close> must
  return true on the appended bytes for every key the filter was created from. \<open>valid\<close> are
  the keys a policy may be given.
\<close>

locale filter_policy =
  fixes p :: FilterPolicy and valid :: "bytes \<Rightarrow> bool"
  assumes create_appends: "list_all valid keys \<Longrightarrow> take (length dst) (CreateFilter p keys dst) = dst"
    and no_false_negative: "list_all valid keys \<Longrightarrow> k \<in> set keys \<Longrightarrow>
      KeyMayMatch p k (drop (length dst) (CreateFilter p keys dst))"
begin

lemma create_split:
  assumes "list_all valid keys"
  obtains f where "CreateFilter p keys dst = dst @ f"
    and "\<And>k. k \<in> set keys \<Longrightarrow> KeyMayMatch p k f"
  using create_appends [OF assms, of dst] no_false_negative [OF assms, of _ dst]
  by (metis append_take_drop_id)

end

subsection \<open>The Bloom filter\<close>

definition BloomHash :: "bytes \<Rightarrow> u32" where
  "BloomHash key = Hash key 0xbc9f1d34"

text \<open>
  The constructor's \<open>bits_per_key * 0.69\<close>, rounded towards zero and clamped to
  \<open>[1, 30]\<close>. The model rounds the exact product; the double-precision one rounds to the
  same number below the clamp, because \<open>0.69 b\<close> is then at least a hundredth away from
  every integer except for \<open>b = 0\<close>.
\<close>

definition bloom_k :: "nat \<Rightarrow> nat" where
  "bloom_k bits_per_key =
     (let k = bits_per_key * 69 div 100;
          k = (if k < 1 then 1 else k);
          k = (if k > 30 then 30 else k)
      in k)"

definition bloom_delta :: "u32 \<Rightarrow> u32" where
  "bloom_delta h = (drop_bit 17 h) OR (push_bit 15 h)"

definition bloom_set_bit :: "bytes \<Rightarrow> nat \<Rightarrow> bytes" where
  "bloom_set_bit array bitpos =
     array[bitpos div 8 := (array ! (bitpos div 8)) OR push_bit (bitpos mod 8) 1]"

fun bloom_set_probes :: "nat \<Rightarrow> u32 \<Rightarrow> u32 \<Rightarrow> nat \<Rightarrow> bytes \<Rightarrow> bytes" where
  "bloom_set_probes 0 h delta bits array = array"
| "bloom_set_probes (Suc j) h delta bits array =
     (let bitpos = unat h mod bits
      in bloom_set_probes j (h + delta) delta bits (bloom_set_bit array bitpos))"

fun bloom_add_keys :: "nat \<Rightarrow> nat \<Rightarrow> bytes list \<Rightarrow> bytes \<Rightarrow> bytes" where
  "bloom_add_keys k bits [] array = array"
| "bloom_add_keys k bits (key # keys) array =
     (let h = BloomHash key; delta = bloom_delta h
      in bloom_add_keys k bits keys (bloom_set_probes k h delta bits array))"

definition bloom_bytes :: "nat \<Rightarrow> nat \<Rightarrow> nat" where
  "bloom_bytes bits_per_key n =
     (let bits = n * bits_per_key; bits = (if bits < 64 then 64 else bits) in (bits + 7) div 8)"

definition Bloom_CreateFilter :: "nat \<Rightarrow> bytes list \<Rightarrow> bytes \<Rightarrow> bytes" where
  "Bloom_CreateFilter bits_per_key keys dst =
     (let k = bloom_k bits_per_key;
          bytes = bloom_bytes bits_per_key (length keys);
          bits = bytes * 8;
          array = replicate bytes 0 @ [word_of_nat k]
      in dst @ bloom_add_keys k bits keys array)"

fun bloom_test_probes :: "nat \<Rightarrow> u32 \<Rightarrow> u32 \<Rightarrow> nat \<Rightarrow> bytes \<Rightarrow> bool" where
  "bloom_test_probes 0 h delta bits array = True"
| "bloom_test_probes (Suc j) h delta bits array =
     (let bitpos = unat h mod bits
      in if (array ! (bitpos div 8)) AND push_bit (bitpos mod 8) 1 = 0 then False
         else bloom_test_probes j (h + delta) delta bits array)"

text \<open>
  The probe count is read back through a plain \<open>char\<close>: a byte of 128 or more is sign
  extended into the \<open>size_t\<close> and so exceeds 30, like the reserved values.
\<close>

definition Bloom_KeyMayMatch :: "bytes \<Rightarrow> bytes \<Rightarrow> bool" where
  "Bloom_KeyMayMatch key bloom_filter =
     (let len = length bloom_filter in
      if len < 2 then False
      else
        (let array = bloom_filter;
             bits = (len - 1) * 8;
             k = unat (scast (array ! (len - 1)) :: u64)
         in if k > 30 then True
            else (let h = BloomHash key; delta = bloom_delta h
                  in bloom_test_probes k h delta bits array)))"

definition NewBloomFilterPolicy :: "nat \<Rightarrow> FilterPolicy" where
  "NewBloomFilterPolicy bits_per_key =
     \<lparr>fp_Name = ''leveldb.BuiltinBloomFilter2'',
      CreateFilter = Bloom_CreateFilter bits_per_key,
      KeyMayMatch = Bloom_KeyMayMatch\<rparr>"

definition bloom_bit :: "bytes \<Rightarrow> nat \<Rightarrow> bool" where
  "bloom_bit array pos \<longleftrightarrow> (array ! (pos div 8)) AND push_bit (pos mod 8) 1 \<noteq> 0"

lemma bloom_bit_iff: "bloom_bit array pos \<longleftrightarrow> bit (array ! (pos div 8)) (pos mod 8)"
  by (simp add: bloom_bit_def bit_iff_and_push_bit_not_eq_0)

lemma bloom_set_bit_length [simp]: "length (bloom_set_bit a p) = length a"
  by (simp add: bloom_set_bit_def)

lemma bloom_set_bit_mono: "bloom_bit a q \<Longrightarrow> bloom_bit (bloom_set_bit a p) q"
  by (cases "p div 8 < length a")
     (auto simp: bloom_bit_iff bloom_set_bit_def bit_or_iff nth_list_update list_update_beyond)

lemma bloom_set_bit_sets: "p div 8 < length a \<Longrightarrow> bloom_bit (bloom_set_bit a p) p"
  by (auto simp: bloom_bit_iff bloom_set_bit_def bit_simps nth_list_update)

lemma bloom_set_probes_length [simp]: "length (bloom_set_probes k h d bits a) = length a"
  by (induction k h d bits a rule: bloom_set_probes.induct) (auto simp: Let_def)

lemma bloom_set_probes_mono: "bloom_bit a q \<Longrightarrow> bloom_bit (bloom_set_probes k h d bits a) q"
  by (induction k h d bits a rule: bloom_set_probes.induct) (auto simp: Let_def bloom_set_bit_mono)

lemma bloom_add_keys_length [simp]: "length (bloom_add_keys k bits keys a) = length a"
  by (induction k bits keys a rule: bloom_add_keys.induct) (auto simp: Let_def)

lemma bloom_add_keys_mono: "bloom_bit a q \<Longrightarrow> bloom_bit (bloom_add_keys k bits keys a) q"
  by (induction k bits keys a rule: bloom_add_keys.induct) (auto simp: Let_def bloom_set_probes_mono)

text \<open>The last byte, which holds the probe count, lies outside the bits that are set.\<close>

lemma probe_in_range: "0 < b \<Longrightarrow> (n :: nat) mod (b * 8) div 8 < b"
  by (simp add: less_mult_imp_div_less)

lemma bloom_set_probes_last:
  "0 < b \<Longrightarrow> length a = Suc b \<Longrightarrow> bloom_set_probes k h d (b * 8) a ! b = a ! b"
proof (induction k arbitrary: h a)
  case (Suc k)
  then show ?case
    using probe_in_range [of b "unat h"] by (simp add: Let_def bloom_set_bit_def)
qed simp

lemma bloom_add_keys_last:
  "0 < b \<Longrightarrow> length a = Suc b \<Longrightarrow> bloom_add_keys k (b * 8) keys a ! b = a ! b"
  by (induction keys arbitrary: a) (auto simp: Let_def bloom_set_probes_last)

lemma bloom_test_probes_mono:
  "(\<And>q. bloom_bit a q \<Longrightarrow> bloom_bit a' q) \<Longrightarrow> bloom_test_probes k h d bits a \<Longrightarrow>
   bloom_test_probes k h d bits a'"
  by (induction k h d bits a rule: bloom_test_probes.induct)
     (auto simp: Let_def bloom_bit_def split: if_splits)

lemma bloom_probes_found:
  "0 < b \<Longrightarrow> b \<le> length a \<Longrightarrow>
   bloom_test_probes k h d (b * 8) (bloom_set_probes k h d (b * 8) a)"
proof (induction k arbitrary: h a)
  case (Suc k)
  let ?p = "unat h mod (b * 8)"
  have "bloom_bit (bloom_set_probes k (h + d) d (b * 8) (bloom_set_bit a ?p)) ?p"
    using Suc.prems probe_in_range [of b "unat h"]
    by (intro bloom_set_probes_mono bloom_set_bit_sets) simp
  with Suc show ?case by (simp add: Let_def bloom_bit_def)
qed simp

lemma bloom_keys_found:
  assumes "0 < b" "b \<le> length a" "key \<in> set keys"
  shows "bloom_test_probes k (BloomHash key) (bloom_delta (BloomHash key)) (b * 8)
           (bloom_add_keys k (b * 8) keys a)"
  using assms(2,3)
proof (induction keys arbitrary: a)
  case (Cons x keys)
  show ?case
  proof (cases "key = x")
    case True
    have "bloom_test_probes k (BloomHash x) (bloom_delta (BloomHash x)) (b * 8)
        (bloom_set_probes k (BloomHash x) (bloom_delta (BloomHash x)) (b * 8) a)"
      using assms(1) Cons.prems by (intro bloom_probes_found) auto
    with True show ?thesis
      by (auto simp: Let_def intro: bloom_test_probes_mono [OF bloom_add_keys_mono])
  next
    case False
    with Cons show ?thesis by (simp add: Let_def)
  qed
qed simp

lemma bloom_k_bounds: "1 \<le> bloom_k n" "bloom_k n \<le> 30"
  by (auto simp: bloom_k_def Let_def)

lemma bloom_bytes_pos: "8 \<le> bloom_bytes m n"
  by (auto simp: bloom_bytes_def Let_def)

lemma small_char_to_size_t: "k \<le> 30 \<Longrightarrow> unat (scast (word_of_nat k :: byte) :: u64) = k"
proof -
  assume k: "k \<le> 30"
  have "sint (word_of_nat k :: byte) = int k"
    using k by (simp add: sint_uint unsigned_of_nat take_bit_nat_eq_self signed_take_bit_int_eq_self)
  then have "(scast (word_of_nat k :: byte) :: u64) = word_of_nat k"
    by (metis of_int_of_nat_eq of_int_sint)
  then show "unat (scast (word_of_nat k :: byte) :: u64) = k"
    using k by (simp add: unat_of_nat_u64)
qed

lemma Bloom_no_false_negative:
  assumes "key \<in> set keys"
  shows "Bloom_KeyMayMatch key (drop (length dst) (Bloom_CreateFilter n keys dst))"
proof -
  define b where "b = bloom_bytes n (length keys)"
  define f where "f = bloom_add_keys (bloom_k n) (b * 8) keys (replicate b 0 @ [word_of_nat (bloom_k n)])"
  have b: "0 < b" using bloom_bytes_pos [of n "length keys"] by (simp add: b_def)
  have "f ! b = word_of_nat (bloom_k n)"
    using bloom_add_keys_last [OF b] by (simp add: f_def nth_append)
  moreover have "length f = Suc b" by (simp add: f_def)
  moreover have "bloom_test_probes (bloom_k n) (BloomHash key) (bloom_delta (BloomHash key)) (b * 8) f"
    using bloom_keys_found [OF b _ assms] by (simp add: f_def)
  ultimately have "Bloom_KeyMayMatch key f"
    using b bloom_k_bounds [of n] by (simp add: Bloom_KeyMayMatch_def Let_def small_char_to_size_t)
  then show ?thesis by (simp add: Bloom_CreateFilter_def Let_def f_def b_def)
qed

interpretation bloom: filter_policy "NewBloomFilterPolicy n" "\<lambda>_. True"
  by unfold_locales
     (simp_all add: NewBloomFilterPolicy_def Bloom_no_false_negative,
      simp add: Bloom_CreateFilter_def Let_def)

text \<open>C37: the filter built from a list of keys is appended to the
  destination and reports every key of the list as possibly present, for every number of
  bits per key.\<close>

theorem bloom_no_false_negatives:
  assumes "key \<in> set keys"
  shows "\<exists>f. Bloom_CreateFilter bits_per_key keys dst = dst @ f \<and> Bloom_KeyMayMatch key f"
proof (rule bloom.create_split [of keys bits_per_key dst])
  fix f assume "CreateFilter (NewBloomFilterPolicy bits_per_key) keys dst = dst @ f"
    and "\<And>k. k \<in> set keys \<Longrightarrow> KeyMayMatch (NewBloomFilterPolicy bits_per_key) k f"
  then show ?thesis using assms by (auto simp: NewBloomFilterPolicy_def)
qed (simp add: list_all_iff)

theorem bloom_no_false_negatives_witness:
  "\<exists>f. Bloom_CreateFilter 10 [[1], [2, 3]] [9] = [9] @ f \<and> Bloom_KeyMayMatch [2, 3] f"
  by (rule bloom_no_false_negatives) simp

end
