(* ===== verification/Dbformat.thy ===== *)
theory Dbformat
  imports Filename Bloom
begin

section \<open>Internal keys (\<^verbatim>\<open>db/dbformat.h\<close>, \<^verbatim>\<open>db/dbformat.cc\<close>)\<close>

text \<open>
  An internal key is a user key followed by eight bytes that pack a 56-bit sequence number
  and a value type. The comparator of internal keys orders by user key, then by decreasing
  sequence number, then by decreasing type, for any user comparator; the filter policy on
  internal keys drops the packed bytes. The code's assertions (\<open>seq <= kMaxSequenceNumber\<close>,
  keys of at least eight bytes) are hypotheses of the lemmas, not checks of the model, as they
  are not checks of a release build.
\<close>

subsection \<open>Constants and key records\<close>

definition kNumLevels :: nat where "kNumLevels = 7"
definition kL0_CompactionTrigger :: nat where "kL0_CompactionTrigger = 4"
definition kL0_SlowdownWritesTrigger :: nat where "kL0_SlowdownWritesTrigger = 8"
definition kL0_StopWritesTrigger :: nat where "kL0_StopWritesTrigger = 12"
definition kMaxMemCompactLevel :: nat where "kMaxMemCompactLevel = 2"

datatype ValueType = kTypeDeletion | kTypeValue

fun type_byte :: "ValueType \<Rightarrow> byte" where
  "type_byte kTypeDeletion = 0"
| "type_byte kTypeValue = 1"

definition kValueTypeForSeek :: ValueType where "kValueTypeForSeek = kTypeValue"

type_synonym SequenceNumber = u64

definition kMaxSequenceNumber :: SequenceNumber where
  "kMaxSequenceNumber = push_bit 56 1 - 1"

record ParsedInternalKey =
  user_key :: bytes
  sequence :: SequenceNumber
  ptype :: ValueType

definition InternalKeyEncodingLength :: "ParsedInternalKey \<Rightarrow> nat" where
  "InternalKeyEncodingLength key = length (user_key key) + 8"

definition PackSequenceAndType :: "SequenceNumber \<Rightarrow> ValueType \<Rightarrow> u64" where
  "PackSequenceAndType seq t = push_bit 8 seq OR ucast (type_byte t)"

definition AppendInternalKey :: "bytes \<Rightarrow> ParsedInternalKey \<Rightarrow> bytes" where
  "AppendInternalKey result key =
     PutFixed64 (result @ user_key key) (PackSequenceAndType (sequence key) (ptype key))"

text \<open>The constructor of an \<open>InternalKey\<close> from its parts.\<close>

definition InternalKey_new :: "bytes \<Rightarrow> SequenceNumber \<Rightarrow> ValueType \<Rightarrow> bytes" where
  "InternalKey_new u s t = AppendInternalKey [] \<lparr>user_key = u, sequence = s, ptype = t\<rparr>"

definition ExtractUserKey :: "bytes \<Rightarrow> bytes" where
  "ExtractUserKey internal_key = take (length internal_key - 8) internal_key"

text \<open>The eight packed bytes at the end of an internal key.\<close>

definition key_tag :: "bytes \<Rightarrow> u64" where
  "key_tag internal_key = DecodeFixed64 (drop (length internal_key - 8) internal_key)"

definition ParseInternalKey :: "bytes \<Rightarrow> ParsedInternalKey option" where
  "ParseInternalKey internal_key =
     (let n = length internal_key in
      if n < 8 then None
      else
        (let num = key_tag internal_key;
             c = (ucast (num AND 0xff) :: byte)
         in if c \<le> type_byte kTypeValue
            then Some \<lparr>user_key = take (n - 8) internal_key, sequence = drop_bit 8 num,
                        ptype = (if c = 0 then kTypeDeletion else kTypeValue)\<rparr>
            else None))"

definition ParsedInternalKey_DebugString :: "ParsedInternalKey \<Rightarrow> bytes" where
  "ParsedInternalKey_DebugString key =
     [0x27] @ EscapeString (user_key key) @
     [0x27] @ ascii '' @ '' @ decimal (unat (sequence key)) @ ascii '' : '' @
     decimal (unat (type_byte (ptype key)))"

definition InternalKey_DebugString :: "bytes \<Rightarrow> bytes" where
  "InternalKey_DebugString rep =
     (case ParseInternalKey rep of
        Some parsed \<Rightarrow> ParsedInternalKey_DebugString parsed
      | None \<Rightarrow> ascii ''(bad)'' @ EscapeString rep)"

subsection \<open>The internal-key comparator\<close>

definition InternalKey_Compare :: "Comparator \<Rightarrow> bytes \<Rightarrow> bytes \<Rightarrow> int" where
  "InternalKey_Compare user_comparator akey bkey =
     (let r = Compare user_comparator (ExtractUserKey akey) (ExtractUserKey bkey) in
      if r = 0 then
        (let anum = key_tag akey; bnum = key_tag bkey
         in if anum > bnum then - 1 else if anum < bnum then 1 else r)
      else r)"

definition InternalKey_FindShortestSeparator :: "Comparator \<Rightarrow> bytes \<Rightarrow> bytes \<Rightarrow> bytes" where
  "InternalKey_FindShortestSeparator user_comparator start limit =
     (let user_start = ExtractUserKey start;
          user_limit = ExtractUserKey limit;
          tmp = FindShortestSeparator user_comparator user_start user_limit
      in if length tmp < length user_start \<and> Compare user_comparator user_start tmp < 0
         then PutFixed64 tmp (PackSequenceAndType kMaxSequenceNumber kValueTypeForSeek)
         else start)"

definition InternalKey_FindShortSuccessor :: "Comparator \<Rightarrow> bytes \<Rightarrow> bytes" where
  "InternalKey_FindShortSuccessor user_comparator key =
     (let user_key = ExtractUserKey key;
          tmp = FindShortSuccessor user_comparator user_key
      in if length tmp < length user_key \<and> Compare user_comparator user_key tmp < 0
         then PutFixed64 tmp (PackSequenceAndType kMaxSequenceNumber kValueTypeForSeek)
         else key)"

definition InternalKeyComparator :: "Comparator \<Rightarrow> Comparator" where
  "InternalKeyComparator user_comparator =
     \<lparr>Name = ''leveldb.InternalKeyComparator'',
      Compare = InternalKey_Compare user_comparator,
      FindShortestSeparator = InternalKey_FindShortestSeparator user_comparator,
      FindShortSuccessor = InternalKey_FindShortSuccessor user_comparator\<rparr>"

definition valid_ikey :: "(bytes \<Rightarrow> bool) \<Rightarrow> bytes \<Rightarrow> bool" where
  "valid_ikey uvalid k \<longleftrightarrow> 8 \<le> length k \<and> uvalid (ExtractUserKey k)"

lemma ExtractUserKey_append [simp]: "length t = 8 \<Longrightarrow> ExtractUserKey (u @ t) = u"
  by (simp add: ExtractUserKey_def)

lemma key_tag_append [simp]: "key_tag (u @ EncodeFixed64 num) = num"
  by (simp add: key_tag_def)

lemma key_split: "8 \<le> length k \<Longrightarrow> \<exists>t. length t = 8 \<and> k = ExtractUserKey k @ t"
  by (rule exI [of _ "drop (length k - 8) k"]) (simp add: ExtractUserKey_def)

lemma InternalKey_new_eq: "InternalKey_new u s t = u @ EncodeFixed64 (PackSequenceAndType s t)"
  by (simp add: InternalKey_new_def AppendInternalKey_def PutFixed64_def)

lemma PackSequenceAndType_max: "PackSequenceAndType kMaxSequenceNumber kValueTypeForSeek = 0xffffffffffffff01"
  by (simp add: PackSequenceAndType_def kMaxSequenceNumber_def kValueTypeForSeek_def)

text \<open>
  The contract of the user comparator carries over to the internal keys. Both shorteners
  replace the user key only by a strictly larger one, so the order of the packed bytes does
  not matter to them.
\<close>

locale internal_keys = separating_comparator
begin

abbreviation "icmp \<equiv> Compare (InternalKeyComparator c)"
abbreviation "ivalid \<equiv> valid_ikey valid"

lemma icmp_eq: "icmp a b = InternalKey_Compare c a b"
  by (simp add: InternalKeyComparator_def)

lemma icmp_less_iff:
  "icmp a b < 0 \<longleftrightarrow> Compare c (ExtractUserKey a) (ExtractUserKey b) < 0 \<or>
     Compare c (ExtractUserKey a) (ExtractUserKey b) = 0 \<and> key_tag b < key_tag a"
  by (auto simp: icmp_eq InternalKey_Compare_def Let_def)

lemma icmp_le_iff:
  "icmp a b \<le> 0 \<longleftrightarrow> Compare c (ExtractUserKey a) (ExtractUserKey b) < 0 \<or>
     Compare c (ExtractUserKey a) (ExtractUserKey b) = 0 \<and> key_tag b \<le> key_tag a"
  by (auto simp: icmp_eq InternalKey_Compare_def Let_def)

lemma icmp_swap: "ivalid a \<Longrightarrow> ivalid b \<Longrightarrow> sgn (icmp b a) = - sgn (icmp a b)"
  using swap [of "ExtractUserKey a" "ExtractUserKey b"] eq_sym [of "ExtractUserKey a" "ExtractUserKey b"]
  by (auto simp: icmp_eq InternalKey_Compare_def Let_def valid_ikey_def)

lemma icmp_le_trans:
  assumes "ivalid a" "ivalid b" "ivalid d" "icmp a b \<le> 0" "icmp b d \<le> 0"
  shows "icmp a d \<le> 0"
proof -
  let ?u = ExtractUserKey
  have v: "valid (?u a)" "valid (?u b)" "valid (?u d)" using assms by (auto simp: valid_ikey_def)
  from assms(4,5) have le: "Compare c (?u a) (?u b) \<le> 0" "Compare c (?u b) (?u d) \<le> 0"
    by (auto simp: icmp_le_iff)
  then have ad: "Compare c (?u a) (?u d) \<le> 0" using v le_trans by blast
  show ?thesis
  proof (cases "Compare c (?u a) (?u d) = 0")
    case False
    with ad show ?thesis by (simp add: icmp_le_iff)
  next
    case True
    then have "Compare c (?u a) (?u b) = 0" "Compare c (?u b) (?u d) = 0"
      using le v lt_le_trans [of "?u a" "?u b" "?u d"] le_lt_trans [of "?u a" "?u b" "?u d"]
      by force+
    with True assms(4,5) show ?thesis by (auto simp: icmp_le_iff)
  qed
qed

lemma icmp_separator:
  assumes "ivalid s" "ivalid l" "icmp s l < 0"
  shows "ivalid (FindShortestSeparator (InternalKeyComparator c) s l) \<and>
    icmp s (FindShortestSeparator (InternalKeyComparator c) s l) \<le> 0 \<and>
    icmp (FindShortestSeparator (InternalKeyComparator c) s l) l < 0"
proof -
  let ?us = "ExtractUserKey s" and ?ul = "ExtractUserKey l"
  let ?tmp = "FindShortestSeparator c ?us ?ul"
  have v: "valid ?us" "valid ?ul" using assms by (auto simp: valid_ikey_def)
  have le: "icmp s s \<le> 0" using refl [OF v(1)] by (simp add: icmp_le_iff)
  show ?thesis
  proof (cases "length ?tmp < length ?us \<and> Compare c ?us ?tmp < 0")
    case False
    then show ?thesis using assms le
      by (auto simp: InternalKeyComparator_def InternalKey_FindShortestSeparator_def Let_def)
  next
    case True
    have lt: "Compare c ?us ?ul < 0"
      using separator_unchanged [OF v] True by fastforce
    with True v separator [OF v lt] show ?thesis
      by (simp add: icmp_less_iff icmp_le_iff valid_ikey_def)
         (simp add: InternalKeyComparator_def InternalKey_FindShortestSeparator_def Let_def PutFixed64_def)
  qed
qed

lemma icmp_separator_unchanged:
  assumes "ivalid s" "ivalid l" "\<not> icmp s l < 0"
  shows "FindShortestSeparator (InternalKeyComparator c) s l = s"
proof -
  have "\<not> Compare c (ExtractUserKey s) (ExtractUserKey l) < 0"
    using assms(3) by (simp add: icmp_less_iff)
  then show ?thesis
    using separator_unchanged [of "ExtractUserKey s" "ExtractUserKey l"] assms(1,2)
    by (auto simp: InternalKeyComparator_def InternalKey_FindShortestSeparator_def Let_def valid_ikey_def)
qed

lemma icmp_successor:
  assumes "ivalid s"
  shows "ivalid (FindShortSuccessor (InternalKeyComparator c) s) \<and>
    icmp s (FindShortSuccessor (InternalKeyComparator c) s) \<le> 0"
proof -
  have v: "valid (ExtractUserKey s)" using assms by (auto simp: valid_ikey_def)
  have le: "icmp s s \<le> 0" using refl [OF v] by (simp add: icmp_le_iff)
  show ?thesis
    using assms le successor [OF v]
    by (simp add: icmp_le_iff valid_ikey_def)
       (auto simp: InternalKeyComparator_def InternalKey_FindShortSuccessor_def Let_def PutFixed64_def)
qed

sublocale ik: separating_comparator "InternalKeyComparator c" ivalid
  by unfold_locales
     (fact icmp_swap icmp_le_trans icmp_separator icmp_separator_unchanged icmp_successor)+

end

interpretation bytewise_ik: internal_keys BytewiseComparator "\<lambda>_. True"
  by unfold_locales

subsection \<open>The filter policy on internal keys\<close>

definition InternalFilterPolicy :: "FilterPolicy \<Rightarrow> FilterPolicy" where
  "InternalFilterPolicy user_policy =
     \<lparr>fp_Name = fp_Name user_policy,
      CreateFilter = (\<lambda>keys dst. CreateFilter user_policy (map ExtractUserKey keys) dst),
      KeyMayMatch = (\<lambda>key f. KeyMayMatch user_policy (ExtractUserKey key) f)\<rparr>"

locale internal_filter = filter_policy
begin

sublocale ifp: filter_policy "InternalFilterPolicy p" "valid_ikey valid"
proof
  fix keys dst assume "list_all (valid_ikey valid) keys"
  then have v: "list_all valid (map ExtractUserKey keys)"
    by (auto simp: list_all_iff valid_ikey_def)
  show "take (length dst) (CreateFilter (InternalFilterPolicy p) keys dst) = dst"
    using create_appends [OF v] by (simp add: InternalFilterPolicy_def)
  fix k assume "k \<in> set keys"
  then show "KeyMayMatch (InternalFilterPolicy p) k
      (drop (length dst) (CreateFilter (InternalFilterPolicy p) keys dst))"
    using no_false_negative [OF v] by (simp add: InternalFilterPolicy_def)
qed

end

interpretation bloom_internal: internal_filter "NewBloomFilterPolicy n" "\<lambda>_. True"
  by unfold_locales

subsection \<open>Parsing and printing internal keys\<close>

lemma pack_disjoint:
  "push_bit 8 (seq :: u64) OR ucast (b :: byte) = push_bit 8 seq + ucast b"
  by (rule disjunctive_add_eq_or [symmetric], rule bit_word_eqI)
     (auto simp: bit_simps dest: bit_imp_le_length)

lemma unat_Pack:
  assumes "seq \<le> kMaxSequenceNumber"
  shows "unat (PackSequenceAndType seq t) = unat seq * 256 + unat (type_byte t)"
proof -
  have "unat seq \<le> 2 ^ 56 - 1"
    using assms by (simp add: kMaxSequenceNumber_def word_le_nat_alt)
  moreover have "unat (type_byte t) \<le> 1" by (cases t) simp_all
  moreover from calculation have "unat (push_bit 8 seq) = unat seq * 256"
    by (simp add: push_bit_eq_mult unat_word_ariths)
  ultimately show ?thesis
    unfolding PackSequenceAndType_def pack_disjoint
    by (simp add: unat_word_ariths unsigned_ucast_eq take_bit_nat_eq_self)
qed

lemma Pack_parts:
  assumes "seq \<le> kMaxSequenceNumber"
  shows "drop_bit 8 (PackSequenceAndType seq t) = seq"
    and "(ucast (PackSequenceAndType seq t AND 0xff) :: byte) = type_byte t"
proof -
  have "unat (type_byte t) < 256" by (cases t) simp_all
  then show "drop_bit 8 (PackSequenceAndType seq t) = seq"
    by (simp add: word_unat_eq_iff unat_drop_bit_div unat_Pack [OF assms] del: drop_bit_eq_div)
  show "(ucast (PackSequenceAndType seq t AND 0xff) :: byte) = type_byte t"
    unfolding low_byte PackSequenceAndType_def
    by (rule bit_word_eqI) (auto simp: bit_simps simp del: type_byte.simps)
qed

lemma Parse_new:
  assumes "s \<le> kMaxSequenceNumber"
  shows "ParseInternalKey (InternalKey_new u s t) = Some \<lparr>user_key = u, sequence = s, ptype = t\<rparr>"
  using Pack_parts [OF assms, of t]
  by (cases t)
     (simp_all add: ParseInternalKey_def InternalKey_new_eq Let_def del: drop_bit_eq_div)

lemma key_tag_new [simp]: "key_tag (InternalKey_new u s t) = PackSequenceAndType s t"
  by (simp add: InternalKey_new_eq)

lemma ExtractUserKey_new [simp]: "ExtractUserKey (InternalKey_new u s t) = u"
  by (simp add: InternalKey_new_eq)

lemma length_InternalKey_new [simp]: "length (InternalKey_new u s t) = length u + 8"
  by (simp add: InternalKey_new_eq)

lemma Pack_less_iff:
  assumes "s \<le> kMaxSequenceNumber" "s' \<le> kMaxSequenceNumber"
  shows "PackSequenceAndType s t < PackSequenceAndType s' t' \<longleftrightarrow>
    s < s' \<or> s = s' \<and> t = kTypeDeletion \<and> t' = kTypeValue"
  using unat_Pack [OF assms(1), of t] unat_Pack [OF assms(2), of t']
  by (cases t; cases t') (auto simp: word_less_nat_alt word_unat_eq_iff)

lemma DecodeFixed64_inverse:
  assumes "length t = 8"
  shows "EncodeFixed64 (DecodeFixed64 t) = t"
proof -
  obtain a b c d e f g h where t: "t = [a, b, c, d, e, f, g, h]" using length_eq_8 [OF assms] by blast
  show ?thesis
    unfolding t EncodeFixed64_def DecodeFixed64_def DecodeFixed32_def low_byte Let_def byte_at_def
    by (simp del: drop_bit_eq_div) (intro conjI bit_word_eqI; auto simp: bit_simps dest: bit_imp_le_length)
qed

lemma tag_repack:
  assumes "(ucast (num AND 0xff) :: byte) = type_byte t"
  shows "PackSequenceAndType (drop_bit 8 num) t = num"
proof (rule bit_word_eqI)
  fix n :: nat assume n: "n < LENGTH(64)"
  have "type_byte t = ucast num" using assms by (simp add: low_byte)
  then have "bit (type_byte t) n = (n < 8 \<and> bit num n)" by (simp add: bit_simps)
  then show "bit (PackSequenceAndType (drop_bit 8 num) t) n = bit num n"
    using n by (auto simp: PackSequenceAndType_def bit_simps)
qed

lemma Parse_inverse:
  assumes "ParseInternalKey k = Some p"
  shows "InternalKey_new (user_key p) (sequence p) (ptype p) = k" and "sequence p \<le> kMaxSequenceNumber"
proof -
  let ?n = "length k"
  let ?c = "(ucast (key_tag k AND 0xff) :: byte)"
  have n: "8 \<le> ?n" and c: "?c \<le> 1" and p: "p = \<lparr>user_key = take (?n - 8) k,
      sequence = drop_bit 8 (key_tag k), ptype = (if ?c = 0 then kTypeDeletion else kTypeValue)\<rparr>"
    using assms by (auto simp: ParseInternalKey_def Let_def split: if_splits)
  have "?c = 0 \<or> ?c = 1" using c by (simp add: word_le_nat_alt) (metis le_Suc_eq le_zero_eq unat_0 unat_1 word_unat_eq_iff One_nat_def)
  then have "?c = type_byte (ptype p)" by (auto simp: p)
  then have "PackSequenceAndType (sequence p) (ptype p) = key_tag k"
    using tag_repack by (simp add: p del: drop_bit_eq_div)
  then show "InternalKey_new (user_key p) (sequence p) (ptype p) = k"
    using n by (simp add: InternalKey_new_eq key_tag_def DecodeFixed64_inverse) (simp add: p)
  show "sequence p \<le> kMaxSequenceNumber"
    using u64_less [of "key_tag k"]
    by (simp add: p word_le_nat_alt unat_drop_bit_div kMaxSequenceNumber_def del: drop_bit_eq_div)
qed

text \<open>Parsing the encoding of a user key, a 56-bit sequence number and
  a type returns exactly these; conversely every string the parser accepts is the encoding of
  what it returned, so the encoding is a bijection onto the accepted strings.\<close>

theorem internal_key_roundtrip:
  "(s \<le> kMaxSequenceNumber \<longrightarrow>
      ParseInternalKey (InternalKey_new u s t) = Some \<lparr>user_key = u, sequence = s, ptype = t\<rparr>) \<and>
   (\<forall>p. ParseInternalKey k = Some p \<longrightarrow>
      InternalKey_new (user_key p) (sequence p) (ptype p) = k \<and> sequence p \<le> kMaxSequenceNumber)"
  using Parse_new Parse_inverse by blast

theorem internal_key_roundtrip_witness:
  "ParseInternalKey (InternalKey_new [0x61] 5 kTypeValue) =
     Some \<lparr>user_key = [0x61], sequence = 5, ptype = kTypeValue\<rparr> \<and>
   InternalKey_new [0x61] 5 kTypeValue = [0x61, 1, 5, 0, 0, 0, 0, 0, 0]"
proof -
  have "(5 :: u64) \<le> kMaxSequenceNumber" by (simp add: kMaxSequenceNumber_def)
  then show ?thesis
    using internal_key_roundtrip [of 5 "[0x61]" kTypeValue "[]"]
    by (simp add: InternalKey_new_eq EncodeFixed64_def PackSequenceAndType_def)
qed

subsection \<open>Lookup keys\<close>

text \<open>
  \<open>LookupKey\<close> holds one array: the length of the internal key as a varint, the user key and
  the packed tag; \<open>lk_kstart\<close> is the offset of the user key in it. Whether the array lives in
  the object's own 200 bytes or on the heap does not change its contents.
\<close>

record LookupKey =
  lk_start :: bytes
  lk_kstart :: nat

definition LookupKey_new :: "bytes \<Rightarrow> SequenceNumber \<Rightarrow> LookupKey" where
  "LookupKey_new ukey s =
     (let usize = length ukey;
          klength = EncodeVarint32 (word_of_nat (usize + 8))
      in \<lparr>lk_start = klength @ ukey @ EncodeFixed64 (PackSequenceAndType s kValueTypeForSeek),
          lk_kstart = length klength\<rparr>)"

definition lk_memtable_key :: "LookupKey \<Rightarrow> bytes" where
  "lk_memtable_key k = lk_start k"

definition lk_internal_key :: "LookupKey \<Rightarrow> bytes" where
  "lk_internal_key k = drop (lk_kstart k) (lk_start k)"

definition lk_user_key :: "LookupKey \<Rightarrow> bytes" where
  "lk_user_key k =
     take (length (lk_start k) - lk_kstart k - 8) (drop (lk_kstart k) (lk_start k))"

lemma LookupKey_simps [simp]:
  "lk_memtable_key (LookupKey_new u s) =
     EncodeVarint32 (word_of_nat (length u + 8)) @ InternalKey_new u s kValueTypeForSeek"
  "lk_internal_key (LookupKey_new u s) = InternalKey_new u s kValueTypeForSeek"
  "lk_user_key (LookupKey_new u s) = u"
  by (simp_all add: lk_memtable_key_def lk_internal_key_def lk_user_key_def LookupKey_new_def
      Let_def InternalKey_new_eq)

context internal_keys
begin

lemma icmp_new_less_iff:
  assumes "s \<le> kMaxSequenceNumber" "s' \<le> kMaxSequenceNumber"
  shows "icmp (InternalKey_new u s t) (InternalKey_new u' s' t') < 0 \<longleftrightarrow>
    Compare c u u' < 0 \<or> Compare c u u' = 0 \<and>
      (s' < s \<or> s' = s \<and> t' = kTypeDeletion \<and> t = kTypeValue)"
  by (simp add: icmp_less_iff Pack_less_iff assms)

text \<open>
  Where a lookup key stands among the entries: before every entry of its user key with a
  sequence number up to its own, after every newer one.
\<close>

lemma lookup_position:
  assumes "s \<le> kMaxSequenceNumber" "s' \<le> kMaxSequenceNumber" "valid u" "valid u'"
  shows "icmp (InternalKey_new u' s' t) (lk_internal_key (LookupKey_new u s)) < 0 \<longleftrightarrow>
    Compare c u' u < 0 \<or> Compare c u' u = 0 \<and> s < s'"
  using assms by (auto simp: icmp_new_less_iff kValueTypeForSeek_def)

end

text \<open>C30: over any lawful user comparator the internal-key comparator orders
  keys by user key, then by decreasing sequence number, then by decreasing type, and two keys
  compare as equal only if they agree in all three. So a lookup key for sequence number \<open>s\<close> sorts
  after exactly the entries of smaller user keys and the entries of its own user key that
  are newer than \<open>s\<close>, which a read at \<open>s\<close> must not see.\<close>

theorem internal_key_order:
  assumes "internal_keys c valid" "valid u" "valid u'" "s \<le> kMaxSequenceNumber" "s' \<le> kMaxSequenceNumber"
  shows "(InternalKey_Compare c (InternalKey_new u s t) (InternalKey_new u' s' t') < 0 \<longleftrightarrow>
      Compare c u u' < 0 \<or> Compare c u u' = 0 \<and> (s' < s \<or> s' = s \<and> type_byte t' < type_byte t)) \<and>
    (InternalKey_Compare c (InternalKey_new u s t) (InternalKey_new u' s' t') = 0 \<longleftrightarrow>
      Compare c u u' = 0 \<and> s = s' \<and> t = t') \<and>
    (0 < InternalKey_Compare c (InternalKey_new u s t) (InternalKey_new u' s' t') \<longleftrightarrow>
      0 < Compare c u u' \<or> Compare c u u' = 0 \<and> (s < s' \<or> s = s' \<and> type_byte t < type_byte t')) \<and>
    (InternalKey_Compare c (InternalKey_new u' s' t') (lk_internal_key (LookupKey_new u s)) < 0 \<longleftrightarrow>
      Compare c u' u < 0 \<or> Compare c u' u = 0 \<and> s < s')"
proof -
  have types: "type_byte a < type_byte b \<longleftrightarrow> a = kTypeDeletion \<and> b = kTypeValue" for a b by (cases a; cases b) simp_all
  have eq: "a = b" if "\<not> (a = kTypeDeletion \<and> b = kTypeValue)" "\<not> (b = kTypeDeletion \<and> a = kTypeValue)" for a b
    using that by (cases a; cases b) simp_all
  have cmp: "InternalKey_Compare c (InternalKey_new u s t) (InternalKey_new u' s' t') =
      (if Compare c u u' \<noteq> 0 then Compare c u u'
       else if s' < s \<or> s' = s \<and> t' = kTypeDeletion \<and> t = kTypeValue then -1
       else if s < s' \<or> s = s' \<and> t = kTypeDeletion \<and> t' = kTypeValue then 1 else 0)"
    by (simp add: InternalKey_Compare_def Let_def Pack_less_iff assms(4,5))
  have "InternalKey_Compare c (InternalKey_new u' s' t') (lk_internal_key (LookupKey_new u s)) < 0 \<longleftrightarrow>
      Compare c u' u < 0 \<or> Compare c u' u = 0 \<and> s < s'"
    using internal_keys.lookup_position [OF assms(1,4,5,2,3)] by (simp add: InternalKeyComparator_def)
  then show ?thesis unfolding cmp types using eq [of t t'] by auto
qed

theorem internal_key_order_witness:
  "InternalKey_Compare BytewiseComparator (InternalKey_new [0x61] 7 kTypeValue) (InternalKey_new [0x61] 7 kTypeDeletion) < 0 \<and>
   InternalKey_Compare BytewiseComparator (InternalKey_new [0x61] 9 kTypeValue)
      (lk_internal_key (LookupKey_new [0x61] 7)) < 0"
proof -
  have m: "(7 :: u64) \<le> kMaxSequenceNumber" "(9 :: u64) \<le> kMaxSequenceNumber"
    by (simp_all add: kMaxSequenceNumber_def)
  have z: "Compare BytewiseComparator [0x61] [0x61] = 0" by (simp add: BytewiseComparator_def Slice_compare_lex)
  note order = internal_key_order [OF bytewise_ik.internal_keys_axioms, where u = "[0x61]" and u' = "[0x61]"]
  have "InternalKey_Compare BytewiseComparator (InternalKey_new [0x61] 7 kTypeValue) (InternalKey_new [0x61] 7 kTypeDeletion) < 0"
    using order [OF HOL.TrueI HOL.TrueI m(1) m(1), where t = kTypeValue and t' = kTypeDeletion] z by simp
  moreover have "InternalKey_Compare BytewiseComparator (InternalKey_new [0x61] 9 kTypeValue) (lk_internal_key (LookupKey_new [0x61] 7)) < 0"
    using order [OF HOL.TrueI HOL.TrueI m, where t' = kTypeValue] z by simp
  ultimately show ?thesis ..
qed

text \<open>C31: for any two internal keys in increasing order, the shortened
  separator is a valid internal key in \<open>[start, limit)\<close>, and the short successor is a valid
  internal key not below its argument; this is what the index blocks rely on.\<close>

theorem internal_separator:
  assumes "8 \<le> length start" "8 \<le> length limit"
    and "InternalKey_Compare BytewiseComparator start limit < 0"
  shows "let sep = InternalKey_FindShortestSeparator BytewiseComparator start limit;
      suc = InternalKey_FindShortSuccessor BytewiseComparator start
    in 8 \<le> length sep \<and> InternalKey_Compare BytewiseComparator start sep \<le> 0 \<and>
       InternalKey_Compare BytewiseComparator sep limit < 0 \<and>
       8 \<le> length suc \<and> InternalKey_Compare BytewiseComparator start suc \<le> 0"
  using bytewise_ik.ik.separator [of start limit] bytewise_ik.ik.successor [of start] assms
  by (simp add: InternalKeyComparator_def valid_ikey_def)

theorem internal_separator_witness:
  "InternalKey_FindShortestSeparator BytewiseComparator
     (InternalKey_new [0x61, 0x62, 0x63] 9 kTypeValue) (InternalKey_new [0x61, 0x68] 7 kTypeValue) =
       [0x61, 0x63, 1, 0xff, 0xff, 0xff, 0xff, 0xff, 0xff, 0xff] \<and>
   InternalKey_Compare BytewiseComparator
     [0x61, 0x63, 1, 0xff, 0xff, 0xff, 0xff, 0xff, 0xff, 0xff] (InternalKey_new [0x61, 0x68] 7 kTypeValue) < 0"
proof -
  let ?s = "InternalKey_new [0x61, 0x62, 0x63] 9 kTypeValue" and ?l = "InternalKey_new [0x61, 0x68] 7 kTypeValue"
  have lt: "InternalKey_Compare BytewiseComparator ?s ?l < 0"
    by (simp add: InternalKey_Compare_def BytewiseComparator_def Slice_compare_lex)
  have eq: "InternalKey_FindShortestSeparator BytewiseComparator ?s ?l =
      [0x61, 0x63, 1, 0xff, 0xff, 0xff, 0xff, 0xff, 0xff, 0xff]"
    by (simp add: InternalKey_FindShortestSeparator_def BytewiseComparator_def Let_def
        Bytewise_FindShortestSeparator_def Slice_compare_lex PackSequenceAndType_max
        PutFixed64_def EncodeFixed64_def)
  show ?thesis
    using internal_separator [OF _ _ lt] eq by (simp add: Let_def)
qed

end
