(* ===== verification/MemTable.thy ===== *)
theory MemTable
  imports SkipList Dbformat
begin

section \<open>The memtable (\<^verbatim>\<open>db/memtable.cc\<close>)\<close>

text \<open>
  A memtable is a skip list of entries; a pointer into an entry is the bytes from there on. The
  operations return \<open>None\<close> only if a search of the list does not end, which the theorems exclude.
  Storage comes from an arena that never fails.
\<close>

subsection \<open>Entries\<close>

definition LengthPrefixedSlice_at :: "bytes \<Rightarrow> bytes" where
  "LengthPrefixedSlice_at data =
     (case GetVarint32Ptr (take 5 data) of
        None \<Rightarrow> []
      | Some (len, rest) \<Rightarrow> take (unat len) (drop (length (take 5 data) - length rest) data))"

definition KeyComparator :: "Comparator \<Rightarrow> bytes \<Rightarrow> bytes \<Rightarrow> int" where
  "KeyComparator user_comparator aptr bptr =
     Compare (InternalKeyComparator user_comparator)
       (LengthPrefixedSlice_at aptr) (LengthPrefixedSlice_at bptr)"

definition EncodeKey :: "bytes \<Rightarrow> bytes" where
  "EncodeKey target = PutVarint32 [] (word_of_nat (length target)) @ target"

record MemTable =
  mt_comparator :: Comparator
  mt_refs :: int
  mt_table :: "bytes SkipList"

definition MemTable_new :: "Comparator \<Rightarrow> MemTable" where
  "MemTable_new user_comparator =
     \<lparr>mt_comparator = user_comparator, mt_refs = 0, mt_table = SkipList_new []\<rparr>"

definition MemTable_Ref :: "MemTable \<Rightarrow> MemTable" where
  "MemTable_Ref mt = mt\<lparr>mt_refs := mt_refs mt + 1\<rparr>"

definition MemTable_Unref :: "MemTable \<Rightarrow> MemTable option" where
  "MemTable_Unref mt =
     (let refs = mt_refs mt - 1 in if refs \<le> 0 then None else Some (mt\<lparr>mt_refs := refs\<rparr>))"

definition MemTable_entry :: "SequenceNumber \<Rightarrow> ValueType \<Rightarrow> bytes \<Rightarrow> bytes \<Rightarrow> bytes" where
  "MemTable_entry s type key value =
     (let key_size = length key; val_size = length value; internal_key_size = key_size + 8
      in EncodeVarint32 (word_of_nat internal_key_size) @ key @
         EncodeFixed64 (push_bit 8 s OR ucast (type_byte type)) @
         EncodeVarint32 (word_of_nat val_size) @ value)"

definition MemTable_Add ::
    "SequenceNumber \<Rightarrow> ValueType \<Rightarrow> bytes \<Rightarrow> bytes \<Rightarrow> MemTable \<Rightarrow> MemTable option" where
  "MemTable_Add s type key value mt =
     map_option (\<lambda>t. mt\<lparr>mt_table := t\<rparr>)
       (SkipList_Insert (KeyComparator (mt_comparator mt)) (MemTable_entry s type key value) (mt_table mt))"

text \<open>The outcome of \<open>MemTable::Get\<close>: a value, a deletion, or nothing.\<close>

datatype MemGet = Found bytes | Deleted Status | Absent

definition MemTable_Get :: "MemTable \<Rightarrow> LookupKey \<Rightarrow> MemGet option" where
  "MemTable_Get mt key =
     (let memkey = lk_memtable_key key in
      map_option (\<lambda>node.
        case node of
          None \<Rightarrow> Absent
        | Some a \<Rightarrow>
            (let entry = key_at (mt_table mt) a in
             case GetVarint32Ptr (take 5 entry) of
               None \<Rightarrow> Absent
             | Some (key_length, rest) \<Rightarrow>
                 (let key_ptr = drop (length (take 5 entry) - length rest) entry;
                      key_length = unat key_length
                  in if Compare (mt_comparator mt) (take (key_length - 8) key_ptr) (lk_user_key key) = 0
                     then
                       (let tag = DecodeFixed64 (drop (key_length - 8) key_ptr);
                            t = tag AND 0xff
                        in if t = ucast (type_byte kTypeValue)
                           then Found (LengthPrefixedSlice_at (drop key_length key_ptr))
                           else if t = ucast (type_byte kTypeDeletion) then Deleted (NotFound [] [])
                           else Absent)
                     else Absent)))
        (Iter_Seek (KeyComparator (mt_comparator mt)) (mt_table mt) memkey))"

subsection \<open>The iterator\<close>

type_synonym MemTableIterator = "MemTable \<times> nat option"

definition MemIter_Valid :: "MemTableIterator \<Rightarrow> bool" where
  "MemIter_Valid it = (snd it \<noteq> None)"

definition MemIter_Seek :: "bytes \<Rightarrow> MemTableIterator \<Rightarrow> MemTableIterator option" where
  "MemIter_Seek k it =
     map_option (Pair (fst it))
       (Iter_Seek (KeyComparator (mt_comparator (fst it))) (mt_table (fst it)) (EncodeKey k))"

definition MemIter_SeekToFirst :: "MemTableIterator \<Rightarrow> MemTableIterator" where
  "MemIter_SeekToFirst it = (fst it, Iter_SeekToFirst (mt_table (fst it)))"

definition MemIter_SeekToLast :: "MemTableIterator \<Rightarrow> MemTableIterator option" where
  "MemIter_SeekToLast it = map_option (Pair (fst it)) (Iter_SeekToLast (mt_table (fst it)))"

definition MemIter_Next :: "MemTableIterator \<Rightarrow> MemTableIterator" where
  "MemIter_Next it = (fst it, Iter_Next (mt_table (fst it)) (snd it))"

definition MemIter_Prev :: "MemTableIterator \<Rightarrow> MemTableIterator option" where
  "MemIter_Prev it =
     map_option (Pair (fst it))
       (Iter_Prev (KeyComparator (mt_comparator (fst it))) (mt_table (fst it)) (snd it))"

definition MemIter_key :: "MemTableIterator \<Rightarrow> bytes" where
  "MemIter_key it = LengthPrefixedSlice_at (key_at (mt_table (fst it)) (the (snd it)))"

definition MemIter_value :: "MemTableIterator \<Rightarrow> bytes" where
  "MemIter_value it =
     (let entry = key_at (mt_table (fst it)) (the (snd it));
          key_slice = LengthPrefixedSlice_at entry;
          prefix = length (take 5 entry) -
            (case GetVarint32Ptr (take 5 entry) of None \<Rightarrow> 0 | Some (len, rest) \<Rightarrow> length rest)
      in LengthPrefixedSlice_at (drop (prefix + length key_slice) entry))"

subsection \<open>Decoding entries\<close>

lemma varint_at:
  "\<exists>rest. GetVarint32Ptr (take 5 (EncodeVarint32 v @ data)) = Some (v, rest) \<and>
     length (take 5 (EncodeVarint32 v @ data)) - length rest = length (EncodeVarint32 v)"
proof -
  have "take 5 (EncodeVarint32 v @ data) = EncodeVarint32 v @ take (5 - length (EncodeVarint32 v)) data"
    using length_EncodeVarint32_5 [of v] by simp
  then show ?thesis by auto
qed

lemma Slice_at_prefixed [simp]:
  assumes "length s < 2 ^ 32"
  shows "LengthPrefixedSlice_at (EncodeVarint32 (word_of_nat (length s)) @ s @ rest) = s"
  using varint_at [of "word_of_nat (length s)" "s @ rest"] assms
  by (auto simp: LengthPrefixedSlice_at_def unat_of_nat_u32)

lemma MemTable_entry_eq:
  "MemTable_entry s t k v = EncodeVarint32 (word_of_nat (length (InternalKey_new k s t))) @
     InternalKey_new k s t @ EncodeVarint32 (word_of_nat (length v)) @ v"
  by (simp add: MemTable_entry_def Let_def InternalKey_new_eq PackSequenceAndType_def)

definition prefixed_key :: "(bytes \<Rightarrow> bool) \<Rightarrow> bytes \<Rightarrow> bool" where
  "prefixed_key valid e \<longleftrightarrow> (\<exists>k rest. e = EncodeVarint32 (word_of_nat (length k)) @ k @ rest \<and>
     length k < 2 ^ 32 \<and> valid_ikey valid k)"

lemma prefixed_key_slice: "prefixed_key valid e \<Longrightarrow> valid_ikey valid (LengthPrefixedSlice_at e)"
  by (auto simp: prefixed_key_def)

context internal_keys
begin

sublocale mt: skiplist_order "KeyComparator c" "prefixed_key valid"
proof
  fix a b d
  assume v: "prefixed_key valid a" "prefixed_key valid b" "prefixed_key valid d"
  note s = v [THEN prefixed_key_slice]
  show "KeyComparator c a a = 0" using ik.refl [OF s(1)] by (simp add: KeyComparator_def)
  show "KeyComparator c a b < 0 \<Longrightarrow> KeyComparator c b d < 0 \<Longrightarrow> KeyComparator c a d < 0"
    using ik.lt_trans [OF s] by (simp add: KeyComparator_def)
  show "0 < KeyComparator c b a \<longleftrightarrow> KeyComparator c a b < 0"
    using ik.gt_iff_lt [OF s(1,2)] by (simp add: KeyComparator_def)
qed

lemma prefixed_entry:
  assumes "valid k" "length k + 8 < 2 ^ 32"
  shows "prefixed_key valid (MemTable_entry s t k v)"
    "prefixed_key valid (lk_memtable_key (LookupKey_new k snap))"
    "LengthPrefixedSlice_at (MemTable_entry s t k v) = InternalKey_new k s t"
    "LengthPrefixedSlice_at (lk_memtable_key (LookupKey_new k snap)) = InternalKey_new k snap kValueTypeForSeek"
proof -
  have l: "length (InternalKey_new k s t) < 2 ^ 32" "valid_ikey valid (InternalKey_new k s t)" for s t
    using assms by (simp_all add: valid_ikey_def)
  show "prefixed_key valid (MemTable_entry s t k v)"
    unfolding MemTable_entry_eq prefixed_key_def using l by blast
  show "prefixed_key valid (lk_memtable_key (LookupKey_new k snap))"
    unfolding prefixed_key_def LookupKey_simps
    using l [of snap kValueTypeForSeek]
    by (intro exI [of _ "InternalKey_new k snap kValueTypeForSeek"] exI [of _ "[]"]) simp
  show "LengthPrefixedSlice_at (MemTable_entry s t k v) = InternalKey_new k s t"
    unfolding MemTable_entry_eq using l by (intro Slice_at_prefixed)
  show "LengthPrefixedSlice_at (lk_memtable_key (LookupKey_new k snap)) = InternalKey_new k snap kValueTypeForSeek"
    using Slice_at_prefixed [OF l(1) [of snap kValueTypeForSeek], of "[]"] by simp
qed

definition add_ok :: "SequenceNumber \<times> ValueType \<times> bytes \<times> bytes \<Rightarrow> bool" where
  "add_ok = (\<lambda>(s, t, k, v). s \<le> kMaxSequenceNumber \<and> length k + 8 < 2 ^ 32 \<and> length v < 2 ^ 32 \<and> valid k)"

definition mt_ok :: "MemTable \<Rightarrow> nat list \<Rightarrow> (SequenceNumber \<times> ValueType \<times> bytes \<times> bytes) set \<Rightarrow> bool" where
  "mt_ok m L adds \<longleftrightarrow> mt_comparator m = c \<and>
     sl_ok (KeyComparator c) (prefixed_key valid) (mt_table m) L \<and>
     set (sl_keys (mt_table m) L) = (\<lambda>(s, t, k, v). MemTable_entry s t k v) ` adds \<and>
     (\<forall>u \<in> adds. add_ok u)"

lemma entry_before:
  assumes "add_ok (s, t, k, v)" "valid u" "length u + 8 < 2 ^ 32" "snap \<le> kMaxSequenceNumber"
  shows "KeyComparator c (MemTable_entry s t k v) (lk_memtable_key (LookupKey_new u snap)) < 0 \<longleftrightarrow>
    Compare c k u < 0 \<or> Compare c k u = 0 \<and> snap < s"
  using assms prefixed_entry(3) [of k s t v] prefixed_entry(4) [of u snap]
    icmp_new_less_iff [of s snap k t u kValueTypeForSeek]
  by (auto simp: KeyComparator_def add_ok_def kValueTypeForSeek_def)

lemma entry_less:
  assumes "add_ok (s, t, k, v)" "add_ok (s', t', k', v')"
    "KeyComparator c (MemTable_entry s t k v) (MemTable_entry s' t' k' v') < 0"
  shows "Compare c k k' < 0 \<or> Compare c k k' = 0 \<and> s' \<le> s"
  using assms prefixed_entry(3) [of k s t v] prefixed_entry(3) [of k' s' t' v']
    icmp_new_less_iff [of s s' k t k' t']
  by (auto simp: KeyComparator_def add_ok_def)

lemma Get_entry:
  assumes "add_ok (s, t, k, v)" "mt_comparator m = c"
    "Iter_Seek (KeyComparator c) (mt_table m) (lk_memtable_key (LookupKey_new u snap)) = Some (Some a)"
    "key_at (mt_table m) a = MemTable_entry s t k v"
  shows "MemTable_Get m (LookupKey_new u snap) = Some (if Compare c k u = 0 then
      (case t of kTypeValue \<Rightarrow> Found v | kTypeDeletion \<Rightarrow> Deleted (NotFound [] [])) else Absent)"
proof -
  let ?ik = "InternalKey_new k s t"
  let ?vl = "EncodeVarint32 (word_of_nat (length v))"
  have l: "length ?ik < 2 ^ 32" using assms(1) by (simp add: add_ok_def)
  then have ul: "unat (word_of_nat (length ?ik) :: u32) = length k + 8"
    by (intro trans [OF unat_of_nat_u32 length_InternalKey_new]) simp
  obtain rest where r: "GetVarint32Ptr (take 5 (MemTable_entry s t k v)) = Some (word_of_nat (length ?ik), rest)"
    "drop (length (take 5 (MemTable_entry s t k v)) - length rest) (MemTable_entry s t k v) = ?ik @ ?vl @ v"
    using varint_at [of "word_of_nat (length ?ik)" "?ik @ ?vl @ v"] unfolding MemTable_entry_eq by force
  have ik: "?ik = k @ EncodeFixed64 (PackSequenceAndType s t)" by (rule InternalKey_new_eq)
  have parts: "take (length k + 8 - 8) (?ik @ ?vl @ v) = k"
    "DecodeFixed64 (drop (length k + 8 - 8) (?ik @ ?vl @ v)) = PackSequenceAndType s t"
    "drop (length k + 8) (?ik @ ?vl @ v) = ?vl @ v"
    unfolding ik by simp_all
  have val: "LengthPrefixedSlice_at (?vl @ v) = v"
    using Slice_at_prefixed [of v "[]"] assms(1) by (simp add: add_ok_def)
  have "s \<le> kMaxSequenceNumber" using assms(1) by (simp add: add_ok_def)
  from Pack_parts(2) [OF this, of t] have "ucast (PackSequenceAndType s t) = type_byte t"
    by (simp add: low_byte)
  then have tag: "PackSequenceAndType s t AND 0xff = ucast (type_byte t)"
  proof -
    have f: "(0xff :: u64) = mask 8" by (simp add: mask_eq_exp_minus_1)
    have "(ucast (ucast (PackSequenceAndType s t) :: byte) :: u64) = PackSequenceAndType s t AND 0xff"
      unfolding f by (rule bit_word_eqI) (auto simp: bit_simps)
    with \<open>ucast (PackSequenceAndType s t) = type_byte t\<close> show ?thesis by simp
  qed
  show ?thesis
    unfolding MemTable_Get_def Let_def assms(2,3) option.map option.case assms(4) r(1) prod.case r(2) ul
      parts tag val
    by (cases t) simp_all
qed

lemma Get_correct:
  assumes "mt_ok m L adds" "valid u" "length u + 8 < 2 ^ 32" "snap \<le> kMaxSequenceNumber"
  shows "\<exists>r. MemTable_Get m (LookupKey_new u snap) = Some r \<and>
    ((\<forall>(s, t, k, v) \<in> adds. Compare c k u = 0 \<longrightarrow> snap < s) \<and> r = Absent \<or>
     (\<exists>(s, t, k, v) \<in> adds. Compare c k u = 0 \<and> s \<le> snap \<and>
        (\<forall>(s', t', k', v') \<in> adds. Compare c k' u = 0 \<longrightarrow> s' \<le> snap \<longrightarrow> s' \<le> s) \<and>
        r = (case t of kTypeValue \<Rightarrow> Found v | kTypeDeletion \<Rightarrow> Deleted (NotFound [] []))))"
proof -
  let ?lk = "lk_memtable_key (LookupKey_new u snap)"
  let ?cmp = "KeyComparator c"
  have ok: "sl_ok ?cmp (prefixed_key valid) (mt_table m) L" "mt_comparator m = c"
    and keys: "set (sl_keys (mt_table m) L) = (\<lambda>(s, t, k, v). MemTable_entry s t k v) ` adds"
    and adds: "\<And>x. x \<in> adds \<Longrightarrow> add_ok x" using assms(1) by (auto simp: mt_ok_def)
  have lk: "prefixed_key valid ?lk" using prefixed_entry(2) [OF assms(2,3)] .
  obtain x where x: "Iter_Seek ?cmp (mt_table m) ?lk = Some x"
    "map_option (key_at (mt_table m)) x = find (\<lambda>k. \<not> ?cmp k ?lk < 0) (sl_keys (mt_table m) L)"
    using mt.Find_keys [OF ok(1) lk] by (auto simp: Iter_Seek_def)
  have mem: "MemTable_entry s t k v \<in> set (sl_keys (mt_table m) L)" if "(s, t, k, v) \<in> adds" for s t k v
    unfolding keys using that by force
  note eb = entry_before [OF adds assms(2-4)]
  show ?thesis
  proof (cases x)
    case None
    then have "find (\<lambda>k. \<not> ?cmp k ?lk < 0) (sl_keys (mt_table m) L) = None" using x(2) by simp
    then have "Compare c k u < 0 \<or> Compare c k u = 0 \<and> snap < s" if "(s, t, k, v) \<in> adds" for s t k v
      using mem [OF that] eb [OF that] by (auto simp: find_None_iff)
    then have "\<forall>(s, t, k, v) \<in> adds. Compare c k u = 0 \<longrightarrow> snap < s" by force
    moreover have "MemTable_Get m (LookupKey_new u snap) = Some Absent"
      using x(1) None ok(2) by (simp add: MemTable_Get_def del: LookupKey_simps)
    ultimately show ?thesis by blast
  next
    case (Some a)
    then have "find (\<lambda>k. \<not> ?cmp k ?lk < 0) (sl_keys (mt_table m) L) = Some (key_at (mt_table m) a)" using x(2) by simp
    from find_SomeD [OF this] obtain us vs where sp: "sl_keys (mt_table m) L = us @ key_at (mt_table m) a # vs"
      "\<forall>k \<in> set us. ?cmp k ?lk < 0" "\<not> ?cmp (key_at (mt_table m) a) ?lk < 0" by auto
    have "key_at (mt_table m) a \<in> set (sl_keys (mt_table m) L)" using sp(1) by simp
    then obtain s t k v where e: "(s, t, k, v) \<in> adds" "key_at (mt_table m) a = MemTable_entry s t k v"
      unfolding keys by auto
    have nb: "\<not> (Compare c k u < 0 \<or> Compare c k u = 0 \<and> snap < s)"
      using eb [OF e(1)] sp(3) e(2) by simp
    have vk: "valid k" using adds [OF e(1)] by (simp add: add_ok_def)
    have later: "Compare c k k' < 0 \<or> Compare c k k' = 0 \<and> s' \<le> s"
      if a': "(s', t', k', v') \<in> adds" "\<not> (Compare c k' u < 0 \<or> Compare c k' u = 0 \<and> snap < s')" for s' t' k' v'
    proof -
      have "MemTable_entry s' t' k' v' \<notin> set us" using sp(2) eb [OF a'(1)] a'(2) by blast
      then have "MemTable_entry s' t' k' v' \<in> set (MemTable_entry s t k v # vs)"
        using mem [OF a'(1)] sp(1) e(2) by auto
      then consider "MemTable_entry s' t' k' v' = MemTable_entry s t k v" | "MemTable_entry s' t' k' v' \<in> set vs" by auto
      then show ?thesis
      proof cases
        case 1
        then have "InternalKey_new k' s' t' = InternalKey_new k s t"
          using prefixed_entry(3) adds [OF a'(1)] adds [OF e(1)] by (metis (no_types, lifting) add_ok_def prod.case)
        then have "k' = k" "PackSequenceAndType s' t' = PackSequenceAndType s t"
          by (metis ExtractUserKey_new, metis key_tag_new)
        then show ?thesis using Pack_parts(1) adds [OF a'(1)] adds [OF e(1)] refl [OF vk]
          by (metis (no_types, lifting) add_ok_def order.refl prod.case)
      next
        case 2
        then have "?cmp (MemTable_entry s t k v) (MemTable_entry s' t' k' v') < 0"
          using mt.sorted_keys [OF ok(1)] unfolding sp(1) e(2) by (simp add: sorted_wrt_append)
        from entry_less [OF adds [OF e(1)] adds [OF a'(1)] this] show ?thesis .
      qed
    qed
    have get: "MemTable_Get m (LookupKey_new u snap) = Some (if Compare c k u = 0 then
      (case t of kTypeValue \<Rightarrow> Found v | kTypeDeletion \<Rightarrow> Deleted (NotFound [] [])) else Absent)"
      using Get_entry [OF adds [OF e(1)] ok(2) _ e(2)] x(1) Some by blast
    show ?thesis
    proof (cases "Compare c k u = 0")
      case True
      have "s' \<le> s" if "(s', t', k', v') \<in> adds" "Compare c k' u = 0" "s' \<le> snap" for s' t' k' v'
      proof -
        have vk': "valid k'" using adds [OF that(1)] by (simp add: add_ok_def)
        have "\<not> Compare c k k' < 0"
          using True that(2) eq_lt_cong [OF vk assms(2) vk' True] eq_sym [OF vk' assms(2)] by simp
        with later [OF that(1)] that show ?thesis by auto
      qed
      then show ?thesis using get True nb e(1) by fastforce
    next
      case False
      have "snap < s'" if "(s', t', k', v') \<in> adds" "Compare c k' u = 0" for s' t' k' v'
      proof (rule ccontr)
        assume "\<not> snap < s'"
        have vk': "valid k'" using adds [OF that(1)] by (simp add: add_ok_def)
        have "Compare c k k' \<le> 0" using later [OF that(1)] that(2) \<open>\<not> snap < s'\<close> by auto
        then have "Compare c k u \<le> 0" using le_trans [OF vk vk' assms(2)] that(2) by simp
        with nb False show False by simp
      qed
      then have "\<forall>(s, t, k, v) \<in> adds. Compare c k u = 0 \<longrightarrow> snap < s" by force
      then show ?thesis using get False by simp
    qed
  qed
qed

lemma Add_correct:
  assumes "mt_ok m L adds" "add_ok (s, t, k, v)"
    "\<forall>(s', t', k', v') \<in> adds. s' \<noteq> s"
  shows "\<exists>m' L'. MemTable_Add s t k v m = Some m' \<and> mt_ok m' L' (insert (s, t, k, v) adds)"
proof -
  let ?cmp = "KeyComparator c" and ?e = "MemTable_entry s t k v"
  have ok: "sl_ok ?cmp (prefixed_key valid) (mt_table m) L" "mt_comparator m = c"
    and keys: "set (sl_keys (mt_table m) L) = (\<lambda>(s, t, k, v). MemTable_entry s t k v) ` adds"
    and adds: "\<And>x. x \<in> adds \<Longrightarrow> add_ok x" using assms(1) by (auto simp: mt_ok_def)
  have pe: "prefixed_key valid ?e" using prefixed_entry(1) assms(2) by (simp add: add_ok_def)
  have ne: "\<forall>e \<in> set (sl_keys (mt_table m) L). ?cmp e ?e \<noteq> 0"
  proof
    fix e assume "e \<in> set (sl_keys (mt_table m) L)"
    then obtain s' t' k' v' where e: "e = MemTable_entry s' t' k' v'" "(s', t', k', v') \<in> adds"
      unfolding keys by auto
    have "s' \<noteq> s" using assms(3) e(2) by auto
    have a: "add_ok (s', t', k', v')" using adds e(2) by simp
    have "PackSequenceAndType s' t' \<noteq> PackSequenceAndType s t"
      using Pack_parts(1) [of s' t'] Pack_parts(1) [of s t] \<open>s' \<noteq> s\<close> a assms(2)
      by (auto simp: add_ok_def)
    then have "InternalKey_Compare c (InternalKey_new k' s' t') (InternalKey_new k s t) \<noteq> 0"
      by (auto simp: InternalKey_Compare_def Let_def)
    then show "?cmp e ?e \<noteq> 0"
      using prefixed_entry(3) a assms(2) by (simp add: e(1) KeyComparator_def icmp_eq add_ok_def)
  qed
  obtain t' L' where t': "SkipList_Insert ?cmp ?e (mt_table m) = Some t'"
    "sl_ok ?cmp (prefixed_key valid) t' L'"
    "sl_keys t' L' = takeWhile (\<lambda>k. ?cmp k ?e < 0) (sl_keys (mt_table m) L) @ ?e #
      dropWhile (\<lambda>k. ?cmp k ?e < 0) (sl_keys (mt_table m) L)"
    using mt.Insert_keys [OF ok(1) pe ne] by blast
  have "set (sl_keys t' L') = insert ?e (set (sl_keys (mt_table m) L))"
    unfolding t'(3) using set_append [of "takeWhile (\<lambda>k. ?cmp k ?e < 0) (sl_keys (mt_table m) L)"
        "dropWhile (\<lambda>k. ?cmp k ?e < 0) (sl_keys (mt_table m) L)"] by auto
  then have "mt_ok (m\<lparr>mt_table := t'\<rparr>) L' (insert (s, t, k, v) adds)"
    using t'(2) ok(2) keys adds assms(2) by (auto simp: mt_ok_def)
  then show ?thesis using t'(1) ok(2) by (auto simp: MemTable_Add_def)
qed

lemma new_ok: "mt_ok (MemTable_new c) [] {}"
  by (simp add: mt_ok_def MemTable_new_def SkipList_new_ok sl_keys_def)

end

subsection \<open>Memtables over the bytewise comparator\<close>

fun MemTable_AddAll ::
    "(SequenceNumber \<times> ValueType \<times> bytes \<times> bytes) list \<Rightarrow> MemTable \<Rightarrow> MemTable option" where
  "MemTable_AddAll [] mt = Some mt"
| "MemTable_AddAll ((s, t, k, v) # adds) mt =
     Option.bind (MemTable_Add s t k v mt) (MemTable_AddAll adds)"

abbreviation bytewise_adds where
  "bytewise_adds adds \<equiv> \<forall>(s, t, k, v) \<in> set adds.
     s \<le> kMaxSequenceNumber \<and> length k + 8 < 2 ^ 32 \<and> length v < 2 ^ 32"

context internal_keys
begin

lemma AddAll_correct:
  assumes "mt_ok m L A" "\<forall>x \<in> set adds. add_ok x" "distinct (map fst adds)"
    "\<forall>x \<in> A. fst x \<notin> set (map fst adds)"
  shows "\<exists>m' L'. MemTable_AddAll adds m = Some m' \<and> mt_ok m' L' (A \<union> set adds)"
  using assms
proof (induction adds arbitrary: m L A)
  case (Cons x adds)
  obtain s t k v where x: "x = (s, t, k, v)" by (cases x)
  have a: "add_ok (s, t, k, v)" using Cons.prems(2) x by simp
  have n: "\<forall>(s', t', k', v') \<in> A. s' \<noteq> s" using Cons.prems(4) x by force
  obtain m1 L1 where m1: "MemTable_Add s t k v m = Some m1" "mt_ok m1 L1 (insert (s, t, k, v) A)"
    using Add_correct [OF Cons.prems(1) a n] by blast
  have "\<exists>m' L'. MemTable_AddAll adds m1 = Some m' \<and> mt_ok m' L' (insert (s, t, k, v) A \<union> set adds)"
    using Cons.prems x by (intro Cons.IH [OF m1(2)]) auto
  then show ?case using m1(1) x by auto
qed auto

end

lemma AddAll_ok:
  assumes "bytewise_ik.mt_ok m L A" "bytewise_adds adds" "distinct (map fst adds)"
    "\<forall>x \<in> A. fst x \<notin> set (map fst adds)"
  shows "\<exists>m' L'. MemTable_AddAll adds m = Some m' \<and> bytewise_ik.mt_ok m' L' (A \<union> set adds)"
  by (rule bytewise_ik.AddAll_correct [OF assms(1) _ assms(3,4)])
    (use assms(2) in \<open>auto simp: bytewise_ik.add_ok_def\<close>)

lemma memtable_get':
  assumes "distinct (map fst adds)" "bytewise_adds adds"
    "snap \<le> kMaxSequenceNumber" "length u + 8 < 2 ^ 32"
  shows "\<exists>m r. MemTable_AddAll adds (MemTable_new BytewiseComparator) = Some m \<and>
    MemTable_Get m (LookupKey_new u snap) = Some r \<and>
    ((\<forall>(s, t, k, v) \<in> set adds. k = u \<longrightarrow> snap < s) \<and> r = Absent \<or>
     (\<exists>(s, t, k, v) \<in> set adds. k = u \<and> s \<le> snap \<and>
        (\<forall>(s', t', k', v') \<in> set adds. k' = u \<longrightarrow> s' \<le> snap \<longrightarrow> s' \<le> s) \<and>
        r = (case t of kTypeValue \<Rightarrow> Found v | kTypeDeletion \<Rightarrow> Deleted (NotFound [] []))))"
proof -
  obtain m L where m: "MemTable_AddAll adds (MemTable_new BytewiseComparator) = Some m"
    "bytewise_ik.mt_ok m L (set adds)"
    using AddAll_ok [OF bytewise_ik.new_ok assms(2,1)] by auto
  have eq: "Compare BytewiseComparator k u = 0 \<longleftrightarrow> k = u" for k
    by (simp add: BytewiseComparator_def Slice_compare_lex)
  from bytewise_ik.Get_correct [OF m(2) TrueI assms(4,3)] m(1) show ?thesis
    unfolding eq by blast
qed

text \<open>
  C16: entries with distinct sequence numbers can be added in any order; a lookup at a
  snapshot then terminates and returns the outcome of the newest entry of its user key that is
  not newer than the snapshot, and \<open>Absent\<close> when there is none.
\<close>

theorem memtable_get:
  assumes "distinct (map fst adds)" "bytewise_adds adds"
    "snap \<le> kMaxSequenceNumber" "length u + 8 < 2 ^ 32"
  shows "\<exists>m r. MemTable_AddAll adds (MemTable_new BytewiseComparator) = Some m \<and>
    MemTable_Get m (LookupKey_new u snap) = Some r \<and>
    ((\<forall>(s, t, k, v) \<in> set adds. k = u \<longrightarrow> snap < s) \<and> r = Absent \<or>
     (\<exists>(s, t, k, v) \<in> set adds. k = u \<and> s \<le> snap \<and>
        (\<forall>(s', t', k', v') \<in> set adds. k' = u \<longrightarrow> s' \<le> snap \<longrightarrow> s' \<le> s) \<and>
        r = (case t of kTypeValue \<Rightarrow> Found v | kTypeDeletion \<Rightarrow> Deleted (NotFound [] []))))"
  using memtable_get' [OF assms] .

theorem memtable_get_witness:
  "\<exists>m. MemTable_AddAll [(2, kTypeValue, [65], [1]), (5, kTypeDeletion, [65], [])] (MemTable_new BytewiseComparator) = Some m \<and>
     MemTable_Get m (LookupKey_new [65] 3) = Some (Found [1])"
proof -
  have k: "(2 :: u64) \<le> kMaxSequenceNumber" "(3 :: u64) \<le> kMaxSequenceNumber" "(5 :: u64) \<le> kMaxSequenceNumber"
    by (simp_all add: kMaxSequenceNumber_def)
  have "\<not> (5 :: u64) \<le> 3" "(2 :: u64) \<le> 3" "\<not> (3 :: u64) < 2" by simp_all
  with memtable_get [of "[(2, kTypeValue, [65], [1]), (5, kTypeDeletion, [65], [])]" 3 "[65]"] k
  show ?thesis by fastforce
qed

end
