(* ===== verification/WriteBatch.thy ===== *)
theory WriteBatch
  imports MemTable
begin

section \<open>Write batches (\<^verbatim>\<open>db/write_batch.cc\<close>)\<close>

text \<open>
  A batch is its byte string \<open>rep_\<close>: an eight-byte sequence number, a four-byte count and the
  records. A handler is a record of its two methods over its state; \<open>MemTableInserter\<close> is the
  one that fills a memtable.
\<close>

definition kHeader :: nat where "kHeader = 12"

definition WriteBatch_Clear :: bytes where "WriteBatch_Clear = replicate kHeader 0"

definition ApproximateSize :: "bytes \<Rightarrow> nat" where "ApproximateSize rep = length rep"

definition Batch_Count :: "bytes \<Rightarrow> int" where
  "Batch_Count rep = sint (DecodeFixed32 (drop 8 rep))"

definition Batch_SetCount :: "bytes \<Rightarrow> u32 \<Rightarrow> bytes" where
  "Batch_SetCount rep n = take 8 rep @ EncodeFixed32 n @ drop 12 rep"

definition Batch_Sequence :: "bytes \<Rightarrow> SequenceNumber" where
  "Batch_Sequence rep = DecodeFixed64 rep"

definition Batch_SetSequence :: "bytes \<Rightarrow> SequenceNumber \<Rightarrow> bytes" where
  "Batch_SetSequence rep seq = EncodeFixed64 seq @ drop 8 rep"

definition WriteBatch_Put :: "bytes \<Rightarrow> bytes \<Rightarrow> bytes \<Rightarrow> bytes" where
  "WriteBatch_Put rep key value =
     (let rep = Batch_SetCount rep (word_of_int (Batch_Count rep + 1));
          rep = rep @ [type_byte kTypeValue];
          rep = PutLengthPrefixedSlice rep key
      in PutLengthPrefixedSlice rep value)"

definition WriteBatch_Delete :: "bytes \<Rightarrow> bytes \<Rightarrow> bytes" where
  "WriteBatch_Delete rep key =
     (let rep = Batch_SetCount rep (word_of_int (Batch_Count rep + 1));
          rep = rep @ [type_byte kTypeDeletion]
      in PutLengthPrefixedSlice rep key)"

definition Batch_SetContents :: "bytes \<Rightarrow> bytes" where "Batch_SetContents contents = contents"

definition Batch_Append :: "bytes \<Rightarrow> bytes \<Rightarrow> bytes" where
  "Batch_Append dst src =
     Batch_SetCount dst (word_of_int (Batch_Count dst + Batch_Count src)) @ drop kHeader src"

record 'h Handler =
  h_Put :: "bytes \<Rightarrow> bytes \<Rightarrow> 'h \<Rightarrow> 'h"
  h_Delete :: "bytes \<Rightarrow> 'h \<Rightarrow> 'h"

text \<open>
  The loop of \<open>Iterate\<close>; the result is \<open>Inl\<close> the error or \<open>Inr\<close> the number of records. The
  counter is the code's \<open>int\<close>, kept as its 32 bits: from \<open>2 ^ 31\<close> records on it overflows, which the
  properties exclude.
\<close>

function Iterate_loop :: "'h Handler \<Rightarrow> u32 \<Rightarrow> bytes \<Rightarrow> 'h \<Rightarrow> (Status + u32) \<times> 'h" where
  "Iterate_loop handler found input h =
     (case input of
        [] \<Rightarrow> (Inr found, h)
      | tag # input \<Rightarrow>
          (let found = found + 1 in
           if tag = type_byte kTypeValue then
             (case GetLengthPrefixedSlice input of
                None \<Rightarrow> (Inl (Corruption (ascii ''bad WriteBatch Put'') []), h)
              | Some (key, input1) \<Rightarrow>
                  (case GetLengthPrefixedSlice input1 of
                     None \<Rightarrow> (Inl (Corruption (ascii ''bad WriteBatch Put'') []), h)
                   | Some (value, input2) \<Rightarrow> Iterate_loop handler found input2 (h_Put handler key value h)))
           else if tag = type_byte kTypeDeletion then
             (case GetLengthPrefixedSlice input of
                None \<Rightarrow> (Inl (Corruption (ascii ''bad WriteBatch Delete'') []), h)
              | Some (key, input1) \<Rightarrow> Iterate_loop handler found input1 (h_Delete handler key h))
           else (Inl (Corruption (ascii ''unknown WriteBatch tag'') []), h)))"
  by pat_completeness auto
termination
  by (relation "measure (\<lambda>(handler, found, input, h). length input)")
     (auto dest!: GetLengthPrefixedSlice_shorter)

declare Iterate_loop.simps [simp del]

definition WriteBatch_Iterate :: "'h Handler \<Rightarrow> bytes \<Rightarrow> 'h \<Rightarrow> Status \<times> 'h" where
  "WriteBatch_Iterate handler rep h =
     (if length rep < kHeader then (Corruption (ascii ''malformed WriteBatch (too small)'') [], h)
      else
        (case Iterate_loop handler 0 (drop kHeader rep) h of
           (Inl s, h) \<Rightarrow> (s, h)
         | (Inr found, h) \<Rightarrow>
             if sint found \<noteq> Batch_Count rep
             then (Corruption (ascii ''WriteBatch has wrong count'') [], h) else (OK, h)))"

definition MemTableInserter :: "(SequenceNumber \<times> MemTable option) Handler" where
  "MemTableInserter =
     \<lparr>h_Put = (\<lambda>key value (seq, mem).
        (seq + 1, Option.bind mem (MemTable_Add seq kTypeValue key value))),
      h_Delete = (\<lambda>key (seq, mem).
        (seq + 1, Option.bind mem (MemTable_Add seq kTypeDeletion key [])))\<rparr>"

definition Batch_InsertInto :: "bytes \<Rightarrow> MemTable \<Rightarrow> Status \<times> MemTable option" where
  "Batch_InsertInto rep memtable =
     (let (s, seq, mem) = WriteBatch_Iterate MemTableInserter rep (Batch_Sequence rep, Some memtable)
      in (s, mem))"

subsection \<open>Batches as lists of updates\<close>

datatype batch_op = BPut bytes bytes | BDelete bytes

fun batch_step :: "bytes \<Rightarrow> batch_op \<Rightarrow> bytes" where
  "batch_step rep (BPut k v) = WriteBatch_Put rep k v"
| "batch_step rep (BDelete k) = WriteBatch_Delete rep k"

fun handler_step :: "'h Handler \<Rightarrow> batch_op \<Rightarrow> 'h \<Rightarrow> 'h" where
  "handler_step H (BPut k v) = h_Put H k v"
| "handler_step H (BDelete k) = h_Delete H k"

fun op_bytes :: "batch_op \<Rightarrow> bytes" where
  "op_bytes (BPut k v) = type_byte kTypeValue #
     EncodeVarint32 (word_of_nat (length k)) @ k @ EncodeVarint32 (word_of_nat (length v)) @ v"
| "op_bytes (BDelete k) = type_byte kTypeDeletion # EncodeVarint32 (word_of_nat (length k)) @ k"

fun op_ok :: "batch_op \<Rightarrow> bool" where
  "op_ok (BPut k v) = (length k + 8 < 2 ^ 32 \<and> length v < 2 ^ 32)"
| "op_ok (BDelete k) = (length k + 8 < 2 ^ 32)"

lemma Iterate_ops:
  assumes "list_all op_ok ops"
  shows "Iterate_loop H n (concat (map op_bytes ops) @ tail) h =
    Iterate_loop H (n + word_of_nat (length ops)) tail (fold (handler_step H) ops h)"
  using assms
proof (induction ops arbitrary: n h)
  case (Cons x ops)
  have "Iterate_loop H n (concat (map op_bytes (x # ops)) @ tail) h =
      Iterate_loop H (n + 1) (concat (map op_bytes ops) @ tail) (handler_step H x h)"
    using Cons.prems by (cases x) (subst Iterate_loop.simps, simp)+
  then show ?case using Cons by (simp add: ac_simps)
qed simp

lemma Iterate_all:
  assumes "list_all op_ok ops"
  shows "Iterate_loop H n (concat (map op_bytes ops)) h = (Inr (n + word_of_nat (length ops)), fold (handler_step H) ops h)"
  using Iterate_ops [OF assms, of H n "[]" h] by (simp add: Iterate_loop.simps)

lemma sint_of_count: "n < 2 ^ 31 \<Longrightarrow> sint (word_of_nat n :: u32) = int n"
  by (simp add: signed_of_nat signed_take_bit_int_eq_self)

text \<open>The bytes of a batch after some updates.\<close>

definition batch_rep :: "SequenceNumber \<Rightarrow> batch_op list \<Rightarrow> bytes" where
  "batch_rep seq ops = EncodeFixed64 seq @ EncodeFixed32 (word_of_nat (length ops)) @ concat (map op_bytes ops)"

lemma batch_parts:
  "length (batch_rep seq ops) \<ge> kHeader" "drop kHeader (batch_rep seq ops) = concat (map op_bytes ops)"
  "Batch_Sequence (batch_rep seq ops) = seq"
  "length ops < 2 ^ 31 \<Longrightarrow> Batch_Count (batch_rep seq ops) = int (length ops)"
  "Batch_SetSequence (batch_rep seq ops) seq' = batch_rep seq' ops"
proof -
  show "length ops < 2 ^ 31 \<Longrightarrow> Batch_Count (batch_rep seq ops) = int (length ops)"
    by (simp add: Batch_Count_def batch_rep_def signed_of_nat signed_take_bit_int_eq_self)
qed (simp_all add: batch_rep_def kHeader_def Batch_Sequence_def Batch_SetSequence_def)

lemma batch_step_rep:
  assumes "length ops + 1 < 2 ^ 31"
  shows "batch_step (batch_rep seq ops) x = batch_rep seq (ops @ [x])"
proof -
  have "Batch_Count (batch_rep seq ops) = int (length ops)" using batch_parts(4) assms by simp
  then have "Batch_SetCount (batch_rep seq ops) (word_of_int (Batch_Count (batch_rep seq ops) + 1)) =
      EncodeFixed64 seq @ EncodeFixed32 (word_of_nat (length (ops @ [x]))) @ concat (map op_bytes ops)"
    by (simp add: Batch_SetCount_def batch_rep_def ac_simps)
  then show ?thesis
    by (cases x) (simp_all add: WriteBatch_Put_def WriteBatch_Delete_def PutLengthPrefixedSlice_def
        PutVarint32_def Let_def batch_rep_def)
qed

lemma Clear_rep: "WriteBatch_Clear = batch_rep 0 []"
  by (simp add: WriteBatch_Clear_def batch_rep_def kHeader_def EncodeFixed64_def EncodeFixed32_def
      numeral_eq_Suc)

lemma foldl_batch:
  "length (ops @ ops') < 2 ^ 31 \<Longrightarrow> foldl batch_step (batch_rep seq ops) ops' = batch_rep seq (ops @ ops')"
proof (induction ops' arbitrary: ops)
  case (Cons x ops')
  then show ?case using batch_step_rep [of ops seq x] by simp
qed simp

lemma Iterate_rep:
  assumes "list_all op_ok ops" "length ops < 2 ^ 31"
  shows "WriteBatch_Iterate H (batch_rep seq ops) h = (OK, fold (handler_step H) ops h)"
  using Iterate_all [OF assms(1), of H 0 h] batch_parts(1) [of seq ops] assms(2)
  by (simp add: WriteBatch_Iterate_def batch_parts(2,4) sint_of_count)

text \<open>
  C27: replaying a batch calls the handler with exactly the updates that were
  put into it, in order, and succeeds; appending one batch to another concatenates their
  updates, and setting the sequence number does not disturb them.
\<close>

theorem write_batch_roundtrip:
  assumes "list_all op_ok ops" "list_all op_ok ops'" "length ops + length ops' < 2 ^ 31"
  shows "WriteBatch_Iterate H (Batch_SetSequence (foldl batch_step WriteBatch_Clear ops) seq) h =
      (OK, fold (handler_step H) ops h) \<and>
    Batch_Sequence (Batch_SetSequence (foldl batch_step WriteBatch_Clear ops) seq) = seq \<and>
    WriteBatch_Iterate H (Batch_Append (foldl batch_step WriteBatch_Clear ops)
        (foldl batch_step WriteBatch_Clear ops')) h = (OK, fold (handler_step H) (ops @ ops') h)"
proof -
  have r: "foldl batch_step WriteBatch_Clear ops = batch_rep 0 ops"
    "foldl batch_step WriteBatch_Clear ops' = batch_rep 0 ops'"
    using foldl_batch [of "[]" ops 0] foldl_batch [of "[]" ops' 0] assms(3) by (simp_all add: Clear_rep)
  have ap: "Batch_Append (batch_rep 0 ops) (batch_rep 0 ops') = batch_rep 0 (ops @ ops')"
  proof -
    have "Batch_Count (batch_rep 0 ops) = int (length ops)" "Batch_Count (batch_rep 0 ops') = int (length ops')"
      using batch_parts(4) assms(3) by simp_all
    then show ?thesis
      by (simp add: Batch_Append_def batch_parts(2) Batch_SetCount_def) (simp add: batch_rep_def)
  qed
  show ?thesis
    unfolding r ap batch_parts(3,5) using assms
    by (simp add: Iterate_rep del: fold_append)
qed

theorem write_batch_roundtrip_witness:
  "WriteBatch_Iterate \<lparr>h_Put = (\<lambda>k v. Cons k), h_Delete = Cons\<rparr>
     (Batch_SetSequence (foldl batch_step WriteBatch_Clear [BPut [1] [2], BDelete [3]]) 9) [] = (OK, [[3], [1]])"
  using write_batch_roundtrip [of "[BPut [1] [2], BDelete [3]]" "[]" "\<lparr>h_Put = (\<lambda>k v. Cons k), h_Delete = Cons\<rparr>" 9 "[]"]
  by simp

text \<open>
  C28: a batch with fewer than \<open>2 ^ 31\<close> records, whatever count is stored in
  it, hands over its records in order and then succeeds exactly if the stored count is their number; a byte
  behind them that is no tag, or a record whose key or value does not fit into the rest, is reported as corrupt
  after the records before it have been handed over.
\<close>

theorem write_batch_wrong_count:
  assumes "list_all op_ok ops" "length ops < 2 ^ 31"
  shows "WriteBatch_Iterate H (EncodeFixed64 seq @ EncodeFixed32 n @ concat (map op_bytes ops)) h =
      (if n = word_of_nat (length ops) then OK else Corruption (ascii ''WriteBatch has wrong count'') [], fold (handler_step H) ops h) \<and>
    (tag \<noteq> type_byte kTypeValue \<and> tag \<noteq> type_byte kTypeDeletion \<longrightarrow>
      WriteBatch_Iterate H (EncodeFixed64 seq @ EncodeFixed32 n @ concat (map op_bytes ops) @ tag # tail) h =
        (Corruption (ascii ''unknown WriteBatch tag'') [], fold (handler_step H) ops h)) \<and>
    (GetLengthPrefixedSlice tail = None \<longrightarrow>
      WriteBatch_Iterate H (EncodeFixed64 seq @ EncodeFixed32 n @ concat (map op_bytes ops) @ type_byte kTypeValue # tail) h =
        (Corruption (ascii ''bad WriteBatch Put'') [], fold (handler_step H) ops h) \<and>
      WriteBatch_Iterate H (EncodeFixed64 seq @ EncodeFixed32 n @ concat (map op_bytes ops) @ type_byte kTypeDeletion # tail) h =
        (Corruption (ascii ''bad WriteBatch Delete'') [], fold (handler_step H) ops h)) \<and>
    (GetLengthPrefixedSlice tail = Some (key, tail') \<and> GetLengthPrefixedSlice tail' = None \<longrightarrow>
      WriteBatch_Iterate H (EncodeFixed64 seq @ EncodeFixed32 n @ concat (map op_bytes ops) @ type_byte kTypeValue # tail) h =
        (Corruption (ascii ''bad WriteBatch Put'') [], fold (handler_step H) ops h))"
proof -
  have tails: "WriteBatch_Iterate H (EncodeFixed64 seq @ EncodeFixed32 n @ concat (map op_bytes ops) @ rest) h =
      (case Iterate_loop H (word_of_nat (length ops)) rest (fold (handler_step H) ops h) of
         (Inl s, h) \<Rightarrow> (s, h)
       | (Inr found, h) \<Rightarrow> if sint found \<noteq> sint n then (Corruption (ascii ''WriteBatch has wrong count'') [], h) else (OK, h))" for rest
  proof -
    have "Batch_Count (EncodeFixed64 seq @ EncodeFixed32 n @ concat (map op_bytes ops) @ rest) = sint n" by (simp add: Batch_Count_def)
    then show ?thesis unfolding WriteBatch_Iterate_def by (simp only:) (simp add: kHeader_def Iterate_ops [OF assms(1), of H 0 rest h])
  qed
  have eq: "sint (word_of_nat (length ops) :: u32) = sint n \<longleftrightarrow> n = word_of_nat (length ops)" by (auto dest: signed_word_eqI)
  have "WriteBatch_Iterate H (EncodeFixed64 seq @ EncodeFixed32 n @ concat (map op_bytes ops)) h =
      (if n = word_of_nat (length ops) then OK else Corruption (ascii ''WriteBatch has wrong count'') [], fold (handler_step H) ops h)"
    using tails [of "[]"] eq by (auto simp: Iterate_loop.simps)
  then show ?thesis unfolding tails by (simp add: Iterate_loop.simps)
qed

theorem write_batch_wrong_count_witness:
  "fst (WriteBatch_Iterate \<lparr>h_Put = (\<lambda>k v. Cons k), h_Delete = Cons\<rparr>
     (EncodeFixed64 7 @ EncodeFixed32 2 @ concat (map op_bytes [BDelete [3]])) []) =
   Corruption (ascii ''WriteBatch has wrong count'') []"
  using write_batch_wrong_count [of "[BDelete [3]]" "\<lparr>h_Put = (\<lambda>k v. Cons k), h_Delete = Cons\<rparr>" 7 2 "[]"] by simp

subsection \<open>Inserting a batch into a memtable\<close>

fun op_key :: "batch_op \<Rightarrow> bytes" where
  "op_key (BPut k v) = k"
| "op_key (BDelete k) = k"

fun op_outcome :: "batch_op \<Rightarrow> MemGet" where
  "op_outcome (BPut k v) = Found v"
| "op_outcome (BDelete k) = Deleted (NotFound [] [])"

text \<open>What a reader must see after some updates: the outcome of the last one of its key.\<close>

definition last_outcome :: "batch_op list \<Rightarrow> bytes \<Rightarrow> MemGet" where
  "last_outcome ops u =
     (case filter (\<lambda>x. op_key x = u) ops of [] \<Rightarrow> Absent | xs \<Rightarrow> op_outcome (last xs))"

fun op_add :: "SequenceNumber \<Rightarrow> batch_op \<Rightarrow> SequenceNumber \<times> ValueType \<times> bytes \<times> bytes" where
  "op_add s (BPut k v) = (s, kTypeValue, k, v)"
| "op_add s (BDelete k) = (s, kTypeDeletion, k, [])"

fun op_adds :: "SequenceNumber \<Rightarrow> batch_op list \<Rightarrow> (SequenceNumber \<times> ValueType \<times> bytes \<times> bytes) list" where
  "op_adds s [] = []"
| "op_adds s (x # xs) = op_add s x # op_adds (s + 1) xs"

lemma fold_inserter:
  "fold (handler_step MemTableInserter) ops (s, mem) =
     (s + word_of_nat (length ops), Option.bind mem (MemTable_AddAll (op_adds s ops)))"
proof (induction ops arbitrary: s mem)
  case Nil
  then show ?case by (cases mem) simp_all
next
  case (Cons x ops)
  then show ?case by (cases x; cases mem) (simp_all add: MemTableInserter_def ac_simps)
qed

lemma length_op_adds [simp]: "length (op_adds s ops) = length ops"
  by (induction s ops rule: op_adds.induct) auto

lemma nth_op_adds: "i < length ops \<Longrightarrow> op_adds s ops ! i = op_add (s + word_of_nat i) (ops ! i)"
proof (induction s ops arbitrary: i rule: op_adds.induct)
  case (2 s x xs)
  then show ?case by (cases i) (simp_all add: ac_simps)
qed simp

lemma op_adds_mem:
  "(s', t, k, v) \<in> set (op_adds s ops) \<longleftrightarrow>
     (\<exists>i < length ops. s' = s + word_of_nat i \<and> (s', t, k, v) = op_add s' (ops ! i))"
proof
  assume "(s', t, k, v) \<in> set (op_adds s ops)"
  then obtain i where i: "i < length ops" "(s', t, k, v) = op_add (s + word_of_nat i) (ops ! i)"
    by (auto simp: in_set_conv_nth nth_op_adds)
  then have "s' = s + word_of_nat i" by (cases "ops ! i") simp_all
  with i show "\<exists>i < length ops. s' = s + word_of_nat i \<and> (s', t, k, v) = op_add s' (ops ! i)" by auto
next
  assume "\<exists>i < length ops. s' = s + word_of_nat i \<and> (s', t, k, v) = op_add s' (ops ! i)"
  then show "(s', t, k, v) \<in> set (op_adds s ops)"
    by (metis length_op_adds nth_mem nth_op_adds)
qed

lemma last_filter_nth:
  assumes "i < length xs" "P (xs ! i)" "\<forall>j. i < j \<and> j < length xs \<longrightarrow> \<not> P (xs ! j)"
  shows "filter P xs \<noteq> [] \<and> last (filter P xs) = xs ! i"
proof -
  have "filter P (drop (Suc i) xs) = []"
    using assms(3) by (auto simp: filter_empty_conv in_set_conv_nth)
  moreover have "xs = take i xs @ xs ! i # drop (Suc i) xs" using assms(1) by (simp add: Cons_nth_drop_Suc)
  then have "filter P xs = filter P (take i xs) @ filter P (xs ! i # drop (Suc i) xs)"
    by (metis filter_append)
  ultimately show ?thesis using assms(2) by simp
qed

text \<open>
  C15: writing a batch with first sequence number \<open>seq\<close> into an empty memtable
  succeeds, and a lookup at snapshot \<open>seq + i\<close> sees exactly the first \<open>i + 1\<close> updates of the batch:
  the value of the last update of its key among them, a deletion as \<open>NotFound\<close>.
\<close>

theorem write_batch_visible:
  assumes "list_all op_ok ops" "length ops < 2 ^ 31" "unat seq + length ops \<le> 2 ^ 56"
    "i < length ops" "length u + 8 < 2 ^ 32"
  shows "\<exists>m. Batch_InsertInto (Batch_SetSequence (foldl batch_step WriteBatch_Clear ops) seq)
      (MemTable_new BytewiseComparator) = (OK, Some m) \<and>
    MemTable_Get m (LookupKey_new u (seq + word_of_nat i)) = Some (last_outcome (take (i + 1) ops) u)"
proof -
  have rep: "Batch_SetSequence (foldl batch_step WriteBatch_Clear ops) seq = batch_rep seq ops"
    using foldl_batch [of "[]" ops 0] assms(2) by (simp add: Clear_rep batch_parts(5))
  have un: "unat (seq + word_of_nat j) = unat seq + j" if "j < length ops" for j
    using that assms(2,3) by (simp add: unat_word_ariths unat_of_nat take_bit_nat_eq_self)
  have le: "seq + word_of_nat j \<le> seq + word_of_nat i \<longleftrightarrow> j \<le> i" if "j < length ops" for j
    using un [OF that] un [OF assms(4)] by (simp add: word_le_nat_alt)
  have km: "seq + word_of_nat j \<le> kMaxSequenceNumber" if "j < length ops" for j
    using un [OF that] assms(3) that by (simp add: word_le_nat_alt kMaxSequenceNumber_def)
  have dis: "distinct (map fst (op_adds seq ops))"
  proof -
    have "fst (op_adds seq ops ! j) = seq + word_of_nat j" if "j < length ops" for j
      using nth_op_adds [OF that, of seq] by (cases "ops ! j") simp_all
    then show ?thesis
      unfolding distinct_conv_nth using un by (simp) (metis add_left_cancel)
  qed
  have good: "bytewise_adds (op_adds seq ops)"
  proof -
    have "s \<le> kMaxSequenceNumber \<and> length k + 8 < 2 ^ 32 \<and> length v < 2 ^ 32"
      if mm: "(s, t, k, v) \<in> set (op_adds seq ops)" for s t k v
    proof -
      obtain j where j: "j < length ops" "s = seq + word_of_nat j" "(s, t, k, v) = op_add s (ops ! j)"
        using mm unfolding op_adds_mem by blast
      have "op_ok (ops ! j)" using assms(1) j(1) by (simp add: list_all_length)
      with j km [OF j(1)] show ?thesis by (cases "ops ! j") simp_all
    qed
    then show ?thesis by blast
  qed
  obtain m r where m: "MemTable_AddAll (op_adds seq ops) (MemTable_new BytewiseComparator) = Some m"
    "MemTable_Get m (LookupKey_new u (seq + word_of_nat i)) = Some r"
    "(\<forall>(s, t, k, v) \<in> set (op_adds seq ops). k = u \<longrightarrow> seq + word_of_nat i < s) \<and> r = Absent \<or>
     (\<exists>(s, t, k, v) \<in> set (op_adds seq ops). k = u \<and> s \<le> seq + word_of_nat i \<and>
        (\<forall>(s', t', k', v') \<in> set (op_adds seq ops). k' = u \<longrightarrow> s' \<le> seq + word_of_nat i \<longrightarrow> s' \<le> s) \<and>
        r = (case t of kTypeValue \<Rightarrow> Found v | kTypeDeletion \<Rightarrow> Deleted (NotFound [] [])))"
    using memtable_get' [OF dis good km [OF assms(4)] assms(5)] by blast
  have mem: "op_add (seq + word_of_nat j) (ops ! j) \<in> set (op_adds seq ops)" if "j < length ops" for j
    using that by (metis length_op_adds nth_mem nth_op_adds)
  have keyj: "op_add s x = (s', t, k, v) \<Longrightarrow> k = op_key x \<and> s' = s \<and>
      (case t of kTypeValue \<Rightarrow> Found v | kTypeDeletion \<Rightarrow> Deleted (NotFound [] [])) = op_outcome x" for s x s' t k v
    by (cases x) auto
  have "r = last_outcome (take (i + 1) ops) u"
    using m(3)
  proof (elim disjE conjE bexE)
    assume none: "\<forall>(s, t, k, v) \<in> set (op_adds seq ops). k = u \<longrightarrow> seq + word_of_nat i < s" and r: "r = Absent"
    have "op_key (ops ! j) \<noteq> u" if "j \<le> i" for j
    proof
      assume k: "op_key (ops ! j) = u"
      have jl: "j < length ops" using that assms(4) by simp
      obtain s t k v where a: "op_add (seq + word_of_nat j) (ops ! j) = (s, t, k, v)"
        by (cases "op_add (seq + word_of_nat j) (ops ! j)")
      with mem [OF jl] none keyj [OF a] k have "seq + word_of_nat i < seq + word_of_nat j" by fastforce
      with le [OF jl] that show False by simp
    qed
    then have "filter (\<lambda>x. op_key x = u) (take (i + 1) ops) = []"
      using assms(4) by (auto simp: filter_empty_conv in_set_conv_nth less_Suc_eq_le) blast
    then show ?thesis using r by (simp add: last_outcome_def)
  next
    fix x assume x: "x \<in> set (op_adds seq ops)" and c: "case x of (s, t, k, v) \<Rightarrow> k = u \<and> s \<le> seq + word_of_nat i \<and>
        (\<forall>(s', t', k', v') \<in> set (op_adds seq ops). k' = u \<longrightarrow> s' \<le> seq + word_of_nat i \<longrightarrow> s' \<le> s) \<and>
        r = (case t of kTypeValue \<Rightarrow> Found v | kTypeDeletion \<Rightarrow> Deleted (NotFound [] []))"
    obtain s t k v where xe: "x = (s, t, k, v)" by (cases x)
    obtain j where j: "j < length ops" "s = seq + word_of_nat j" "(s, t, k, v) = op_add s (ops ! j)"
      using x unfolding xe op_adds_mem by blast
    have kj: "k = op_key (ops ! j)" "(case t of kTypeValue \<Rightarrow> Found v | kTypeDeletion \<Rightarrow> Deleted (NotFound [] [])) = op_outcome (ops ! j)"
      using keyj [OF j(3) [symmetric]] by auto
    have cs: "k = u" "s \<le> seq + word_of_nat i" "r = op_outcome (ops ! j)"
      "\<And>s' t' k' v'. (s', t', k', v') \<in> set (op_adds seq ops) \<Longrightarrow> k' = u \<Longrightarrow> s' \<le> seq + word_of_nat i \<Longrightarrow> s' \<le> s"
      using c kj(2) unfolding xe by auto
    have ji: "j \<le> i" using cs(2) j(2) le [OF j(1)] by simp
    have later: "op_key (ops ! l) \<noteq> u" if "j < l" "l \<le> i" for l
    proof
      assume k: "op_key (ops ! l) = u"
      have ll: "l < length ops" using that assms(4) by simp
      obtain s' t' k' v' where a: "op_add (seq + word_of_nat l) (ops ! l) = (s', t', k', v')"
        by (cases "op_add (seq + word_of_nat l) (ops ! l)")
      then have "s' \<le> s" using cs(4) mem [OF ll] keyj [OF a] k le [OF ll] that(2) by auto
      then have "unat seq + l \<le> unat seq + j" using keyj [OF a] j(1,2) un [OF ll] un [OF j(1)] by (simp add: word_le_nat_alt)
      with that show False by simp
    qed
    have "filter (\<lambda>x. op_key x = u) (take (i + 1) ops) \<noteq> [] \<and>
        last (filter (\<lambda>x. op_key x = u) (take (i + 1) ops)) = take (i + 1) ops ! j"
      using ji assms(4) cs(1) kj(1) later by (intro last_filter_nth) auto
    then show ?thesis using cs(3) ji by (cases "filter (\<lambda>x. op_key x = u) (take (i + 1) ops)") (auto simp: last_outcome_def)
  qed
  moreover have "Batch_InsertInto (batch_rep seq ops) (MemTable_new BytewiseComparator) = (OK, Some m)"
    using m(1) by (simp add: Batch_InsertInto_def Iterate_rep [OF assms(1,2)] fold_inserter batch_parts(3))
  ultimately show ?thesis using m(2) rep by auto
qed

theorem write_batch_visible_witness:
  "\<exists>m. Batch_InsertInto (Batch_SetSequence (foldl batch_step WriteBatch_Clear
        [BPut [65] [1], BDelete [65], BPut [65] [2]]) 7) (MemTable_new BytewiseComparator) = (OK, Some m) \<and>
     MemTable_Get m (LookupKey_new [65] (7 + word_of_nat 1)) = Some (Deleted (NotFound [] []))"
  using write_batch_visible [of "[BPut [65] [1], BDelete [65], BPut [65] [2]]" 7 1 "[65]"]
  by (simp add: last_outcome_def)

end
