(* ===== verification/StdMap.thy ===== *)
theory StdMap
  imports Prelude "HOL-Library.List_Lexorder"
begin

section \<open>Ordered maps and sets (\<^verbatim>\<open>std::map\<close>, \<^verbatim>\<open>std::set\<close>)\<close>

text \<open>
  A \<^verbatim>\<open>std::map\<close> is the list of its entries in the order in which an iterator visits them, a
  \<^verbatim>\<open>std::set\<close> the list of its elements. \<open>std::string\<close> keys compare bytewise, which is the
  lexicographic order on lists of words.
\<close>

type_synonym ('k, 'v) std_map = "('k \<times> 'v) list"

definition map_ok :: "('k :: linorder, 'v) std_map \<Rightarrow> bool" where
  "map_ok m \<longleftrightarrow> sorted_wrt (<) (map fst m)"

fun map_assign :: "'k :: linorder \<Rightarrow> 'v \<Rightarrow> ('k, 'v) std_map \<Rightarrow> ('k, 'v) std_map" where
  "map_assign k v [] = [(k, v)]"
| "map_assign k v ((a, b) # m) =
     (if k < a then (k, v) # (a, b) # m
      else if k = a then (k, v) # m else (a, b) # map_assign k v m)"

fun map_erase :: "'k :: linorder \<Rightarrow> ('k, 'v) std_map \<Rightarrow> ('k, 'v) std_map" where
  "map_erase k [] = []"
| "map_erase k ((a, b) # m) = (if k = a then m else (a, b) # map_erase k m)"

fun set_insert :: "'k :: linorder \<Rightarrow> 'k list \<Rightarrow> 'k list" where
  "set_insert k [] = [k]"
| "set_insert k (a # s) = (if k < a then k # a # s else if k = a then a # s else a # set_insert k s)"

fun set_erase :: "'k :: linorder \<Rightarrow> 'k list \<Rightarrow> 'k list" where
  "set_erase k [] = []"
| "set_erase k (a # s) = (if k = a then s else a # set_erase k s)"

lemma map_ok_Nil [simp]: "map_ok []"
  by (simp add: map_ok_def)

lemma map_ok_Cons: "map_ok ((k, v) # m) \<longleftrightarrow> (\<forall>k' \<in> fst ` set m. k < k') \<and> map_ok m"
  by (simp add: map_ok_def)

lemma map_of_None_fst: "map_of m k = None \<longleftrightarrow> k \<notin> fst ` set m"
  by (rule map_of_eq_None_iff)

lemma map_of_assign [simp]: "map_ok m \<Longrightarrow> map_of (map_assign k v m) = (map_of m)(k \<mapsto> v)"
proof (induction k v m rule: map_assign.induct)
  case (2 k v a b m)
  then show ?case by (auto simp: map_ok_Cons fun_eq_iff)
qed simp

lemma fst_map_assign [simp]: "fst ` set (map_assign k v m) = insert k (fst ` set m)"
  by (induction k v m rule: map_assign.induct) auto

lemma map_ok_assign [simp]: "map_ok m \<Longrightarrow> map_ok (map_assign k v m)"
proof (induction k v m rule: map_assign.induct)
  case (2 k v a b m)
  then show ?case by (auto simp: map_ok_Cons)
qed (simp add: map_ok_Cons)

lemma map_of_erase [simp]: "map_ok m \<Longrightarrow> map_of (map_erase k m) = (map_of m)(k := None)"
proof (induction k m rule: map_erase.induct)
  case (2 k a b m)
  then show ?case by (auto simp: map_ok_Cons fun_eq_iff map_of_None_fst)
qed simp

lemma fst_map_erase_subset: "fst ` set (map_erase k m) \<subseteq> fst ` set m"
  by (induction k m rule: map_erase.induct) auto

lemma map_ok_erase [simp]: "map_ok m \<Longrightarrow> map_ok (map_erase k m)"
proof (induction k m rule: map_erase.induct)
  case (2 k a b m)
  then show ?case using fst_map_erase_subset [of k m] by (fastforce simp: map_ok_Cons)
qed simp

lemma set_set_insert [simp]: "set (set_insert k s) = insert k (set s)"
  by (induction k s rule: set_insert.induct) auto

lemma sorted_set_insert [simp]: "sorted_wrt (<) s \<Longrightarrow> sorted_wrt (<) (set_insert k s)"
  by (induction k s rule: set_insert.induct) auto

lemma set_set_erase [simp]: "sorted_wrt (<) s \<Longrightarrow> set (set_erase k s) = set s - {k}"
  by (induction k s rule: set_erase.induct) auto

lemma sorted_set_erase [simp]: "sorted_wrt (<) s \<Longrightarrow> sorted_wrt (<) (set_erase k s)"
proof (induction k s rule: set_erase.induct)
  case (2 k a s)
  then show ?case by auto
qed simp

end
