(* ===== verification/VersionEdit.thy ===== *)
theory VersionEdit
  imports Dbformat StdMap "HOL-Library.Product_Lexorder"
begin

section \<open>Version edits (\<^verbatim>\<open>db/version_edit.cc\<close>)\<close>

text \<open>
  A version edit is the record of changes that a manifest entry describes. \<open>DecodeField\<close> is the
  body of the \<open>switch\<close> in \<open>DecodeFrom\<close>: a message for a malformed field or the rest of the input
  and the updated edit.
\<close>

subsection \<open>The edit\<close>

record FileMetaData =
  refs :: int
  allowed_seeks :: int
  fnumber :: u64
  file_size :: u64
  smallest :: bytes
  largest :: bytes

definition FileMetaData_new :: "u64 \<Rightarrow> u64 \<Rightarrow> bytes \<Rightarrow> bytes \<Rightarrow> FileMetaData" where
  "FileMetaData_new n size' s l =
     \<lparr>refs = 0, allowed_seeks = 2 ^ 30, fnumber = n, file_size = size', smallest = s, largest = l\<rparr>"

record VersionEdit =
  ve_comparator :: bytes
  ve_log_number :: u64
  ve_prev_log_number :: u64
  ve_next_file_number :: u64
  ve_last_sequence :: u64
  has_comparator :: bool
  has_log_number :: bool
  has_prev_log_number :: bool
  has_next_file_number :: bool
  has_last_sequence :: bool
  compact_pointers :: "(nat \<times> bytes) list"
  deleted_files :: "(nat \<times> u64) list"
  new_files :: "(nat \<times> FileMetaData) list"

definition VersionEdit_Clear :: "VersionEdit \<Rightarrow> VersionEdit" where
  "VersionEdit_Clear e = e\<lparr>ve_comparator := [], ve_log_number := 0, ve_prev_log_number := 0,
     ve_last_sequence := 0, ve_next_file_number := 0, has_comparator := False,
     has_log_number := False, has_prev_log_number := False, has_next_file_number := False,
     has_last_sequence := False, deleted_files := [], new_files := []\<rparr>"

definition VersionEdit_new :: VersionEdit where
  "VersionEdit_new = \<lparr>ve_comparator = [], ve_log_number = 0, ve_prev_log_number = 0,
     ve_next_file_number = 0, ve_last_sequence = 0, has_comparator = False,
     has_log_number = False, has_prev_log_number = False, has_next_file_number = False,
     has_last_sequence = False, compact_pointers = [], deleted_files = [], new_files = []\<rparr>"

definition SetComparatorName :: "bytes \<Rightarrow> VersionEdit \<Rightarrow> VersionEdit" where
  "SetComparatorName name e = e\<lparr>ve_comparator := name, has_comparator := True\<rparr>"

definition SetLogNumber :: "u64 \<Rightarrow> VersionEdit \<Rightarrow> VersionEdit" where
  "SetLogNumber num e = e\<lparr>ve_log_number := num, has_log_number := True\<rparr>"

definition SetPrevLogNumber :: "u64 \<Rightarrow> VersionEdit \<Rightarrow> VersionEdit" where
  "SetPrevLogNumber num e = e\<lparr>ve_prev_log_number := num, has_prev_log_number := True\<rparr>"

definition SetNextFile :: "u64 \<Rightarrow> VersionEdit \<Rightarrow> VersionEdit" where
  "SetNextFile num e = e\<lparr>ve_next_file_number := num, has_next_file_number := True\<rparr>"

definition SetLastSequence :: "u64 \<Rightarrow> VersionEdit \<Rightarrow> VersionEdit" where
  "SetLastSequence seq e = e\<lparr>ve_last_sequence := seq, has_last_sequence := True\<rparr>"

definition SetCompactPointer :: "nat \<Rightarrow> bytes \<Rightarrow> VersionEdit \<Rightarrow> VersionEdit" where
  "SetCompactPointer level key e = e\<lparr>compact_pointers := compact_pointers e @ [(level, key)]\<rparr>"

definition VersionEdit_AddFile :: "nat \<Rightarrow> u64 \<Rightarrow> u64 \<Rightarrow> bytes \<Rightarrow> bytes \<Rightarrow> VersionEdit \<Rightarrow> VersionEdit" where
  "VersionEdit_AddFile level file file_size' s l e =
     e\<lparr>new_files := new_files e @ [(level, FileMetaData_new file file_size' s l)]\<rparr>"

definition VersionEdit_DeleteFile :: "nat \<Rightarrow> u64 \<Rightarrow> VersionEdit \<Rightarrow> VersionEdit" where
  "VersionEdit_DeleteFile level file e = e\<lparr>deleted_files := set_insert (level, file) (deleted_files e)\<rparr>"

subsection \<open>Encoding\<close>

definition kTagComparator :: u32 where "kTagComparator = 1"
definition kTagLogNumber :: u32 where "kTagLogNumber = 2"
definition kTagNextFileNumber :: u32 where "kTagNextFileNumber = 3"
definition kTagLastSequence :: u32 where "kTagLastSequence = 4"
definition kTagCompactPointer :: u32 where "kTagCompactPointer = 5"
definition kTagDeletedFile :: u32 where "kTagDeletedFile = 6"
definition kTagNewFile :: u32 where "kTagNewFile = 7"
definition kTagPrevLogNumber :: u32 where "kTagPrevLogNumber = 9"

lemmas tag_defs = kTagComparator_def kTagLogNumber_def kTagNextFileNumber_def kTagLastSequence_def
  kTagCompactPointer_def kTagDeletedFile_def kTagNewFile_def kTagPrevLogNumber_def

definition VersionEdit_EncodeTo :: "VersionEdit \<Rightarrow> bytes \<Rightarrow> bytes" where
  "VersionEdit_EncodeTo e dst =
     (let dst = (if has_comparator e
                 then PutLengthPrefixedSlice (PutVarint32 dst kTagComparator) (ve_comparator e) else dst);
          dst = (if has_log_number e
                 then PutVarint64 (PutVarint32 dst kTagLogNumber) (ve_log_number e) else dst);
          dst = (if has_prev_log_number e
                 then PutVarint64 (PutVarint32 dst kTagPrevLogNumber) (ve_prev_log_number e) else dst);
          dst = (if has_next_file_number e
                 then PutVarint64 (PutVarint32 dst kTagNextFileNumber) (ve_next_file_number e) else dst);
          dst = (if has_last_sequence e
                 then PutVarint64 (PutVarint32 dst kTagLastSequence) (ve_last_sequence e) else dst);
          dst = foldl (\<lambda>dst (level, key).
                  PutLengthPrefixedSlice
                    (PutVarint32 (PutVarint32 dst kTagCompactPointer) (word_of_nat level)) key)
                  dst (compact_pointers e);
          dst = foldl (\<lambda>dst (level, number).
                  PutVarint64 (PutVarint32 (PutVarint32 dst kTagDeletedFile) (word_of_nat level)) number)
                  dst (deleted_files e)
      in foldl (\<lambda>dst (level, f).
           (let dst = PutVarint32 dst kTagNewFile;
                dst = PutVarint32 dst (word_of_nat level);
                dst = PutVarint64 dst (fnumber f);
                dst = PutVarint64 dst (file_size f);
                dst = PutLengthPrefixedSlice dst (smallest f)
            in PutLengthPrefixedSlice dst (largest f)))
           dst (new_files e))"

subsection \<open>Decoding\<close>

definition GetInternalKey :: "bytes \<Rightarrow> (bytes \<times> bytes) option" where
  "GetInternalKey input = GetLengthPrefixedSlice input"

definition GetLevel :: "bytes \<Rightarrow> (nat \<times> bytes) option" where
  "GetLevel input =
     (case GetVarint32 input of
        Some (v, input) \<Rightarrow> if unat v < kNumLevels then Some (unat v, input) else None
      | None \<Rightarrow> None)"

definition DecodeField :: "VersionEdit \<Rightarrow> u32 \<Rightarrow> bytes \<Rightarrow> string + (bytes \<times> VersionEdit)" where
  "DecodeField e tag input =
     (if tag = kTagComparator then
        (case GetLengthPrefixedSlice input of
           Some (str, input) \<Rightarrow> Inr (input, e\<lparr>ve_comparator := str, has_comparator := True\<rparr>)
         | None \<Rightarrow> Inl ''comparator name'')
      else if tag = kTagLogNumber then
        (case GetVarint64 input of
           Some (v, input) \<Rightarrow> Inr (input, e\<lparr>ve_log_number := v, has_log_number := True\<rparr>)
         | None \<Rightarrow> Inl ''log number'')
      else if tag = kTagPrevLogNumber then
        (case GetVarint64 input of
           Some (v, input) \<Rightarrow> Inr (input, e\<lparr>ve_prev_log_number := v, has_prev_log_number := True\<rparr>)
         | None \<Rightarrow> Inl ''previous log number'')
      else if tag = kTagNextFileNumber then
        (case GetVarint64 input of
           Some (v, input) \<Rightarrow> Inr (input, e\<lparr>ve_next_file_number := v, has_next_file_number := True\<rparr>)
         | None \<Rightarrow> Inl ''next file number'')
      else if tag = kTagLastSequence then
        (case GetVarint64 input of
           Some (v, input) \<Rightarrow> Inr (input, e\<lparr>ve_last_sequence := v, has_last_sequence := True\<rparr>)
         | None \<Rightarrow> Inl ''last sequence number'')
      else if tag = kTagCompactPointer then
        (case Option.bind (GetLevel input) (\<lambda>(level, input).
              map_option (\<lambda>(key, input). (level, key, input)) (GetInternalKey input)) of
           Some (level, key, input) \<Rightarrow> Inr (input, e\<lparr>compact_pointers := compact_pointers e @ [(level, key)]\<rparr>)
         | None \<Rightarrow> Inl ''compaction pointer'')
      else if tag = kTagDeletedFile then
        (case Option.bind (GetLevel input) (\<lambda>(level, input).
              map_option (\<lambda>(number, input). (level, number, input)) (GetVarint64 input)) of
           Some (level, number, input) \<Rightarrow> Inr (input, e\<lparr>deleted_files := set_insert (level, number) (deleted_files e)\<rparr>)
         | None \<Rightarrow> Inl ''deleted file'')
      else if tag = kTagNewFile then
        (case Option.bind (GetLevel input) (\<lambda>(level, input).
              Option.bind (GetVarint64 input) (\<lambda>(number, input).
              Option.bind (GetVarint64 input) (\<lambda>(size', input).
              Option.bind (GetInternalKey input) (\<lambda>(s, input).
              map_option (\<lambda>(l, input). (level, FileMetaData_new number size' s l, input))
                (GetInternalKey input))))) of
           Some (level, f, input) \<Rightarrow> Inr (input, e\<lparr>new_files := new_files e @ [(level, f)]\<rparr>)
         | None \<Rightarrow> Inl ''new-file entry'')
      else Inl ''unknown tag'')"

lemma GetLevel_shorter: "GetLevel input = Some (v, rest) \<Longrightarrow> length rest < length input"
  by (auto simp: GetLevel_def dest: GetVarint32_shorter split: option.splits if_splits)

lemma GetInternalKey_shorter: "GetInternalKey input = Some (v, rest) \<Longrightarrow> length rest < length input"
  by (simp add: GetInternalKey_def GetLengthPrefixedSlice_shorter)

lemma DecodeField_shorter: "DecodeField e tag input = Inr (rest, e') \<Longrightarrow> length rest < length input"
  by (auto simp: DecodeField_def bind_eq_Some_conv split: if_splits option.splits
      dest!: GetLevel_shorter GetInternalKey_shorter GetVarint64_shorter GetLengthPrefixedSlice_shorter)

function DecodeFrom_loop :: "VersionEdit \<Rightarrow> bytes \<Rightarrow> string option \<times> bytes \<times> VersionEdit" where
  "DecodeFrom_loop e input =
     (case GetVarint32 input of
        None \<Rightarrow> (None, input, e)
      | Some (tag, input1) \<Rightarrow>
          (case DecodeField e tag input1 of
             Inl msg \<Rightarrow> (Some msg, input1, e)
           | Inr (input2, e') \<Rightarrow> DecodeFrom_loop e' input2))"
  by pat_completeness auto
termination
  by (relation "measure (\<lambda>(e, input). length input)")
     (auto dest!: GetVarint32_shorter DecodeField_shorter)

declare DecodeFrom_loop.simps [simp del]

definition VersionEdit_DecodeFrom :: "bytes \<Rightarrow> VersionEdit \<Rightarrow> Status \<times> VersionEdit" where
  "VersionEdit_DecodeFrom src e =
     (let (msg, input, e) = DecodeFrom_loop (VersionEdit_Clear e) src;
          msg = (if msg = None \<and> input \<noteq> [] then Some ''invalid tag'' else msg)
      in (case msg of None \<Rightarrow> OK | Some m \<Rightarrow> Corruption (ascii ''VersionEdit'') (ascii m), e))"

definition VersionEdit_DebugString :: "VersionEdit \<Rightarrow> bytes" where
  "VersionEdit_DebugString e =
     (let nl = [0x0A]; sp = ascii '' '';
          r = ascii ''VersionEdit {'';
          r = (if has_comparator e then r @ nl @ ascii ''  Comparator: '' @ ve_comparator e else r);
          r = (if has_log_number e
               then AppendNumberTo (r @ nl @ ascii ''  LogNumber: '') (ve_log_number e) else r);
          r = (if has_prev_log_number e
               then AppendNumberTo (r @ nl @ ascii ''  PrevLogNumber: '') (ve_prev_log_number e) else r);
          r = (if has_next_file_number e
               then AppendNumberTo (r @ nl @ ascii ''  NextFile: '') (ve_next_file_number e) else r);
          r = (if has_last_sequence e
               then AppendNumberTo (r @ nl @ ascii ''  LastSeq: '') (ve_last_sequence e) else r);
          r = foldl (\<lambda>r (level, key).
                AppendNumberTo (r @ nl @ ascii ''  CompactPointer: '') (word_of_nat level) @ sp @
                InternalKey_DebugString key) r (compact_pointers e);
          r = foldl (\<lambda>r (level, number).
                AppendNumberTo (AppendNumberTo (r @ nl @ ascii ''  DeleteFile: '') (word_of_nat level) @ sp)
                  number) r (deleted_files e);
          r = foldl (\<lambda>r (level, f).
                AppendNumberTo (AppendNumberTo
                  (AppendNumberTo (r @ nl @ ascii ''  AddFile: '') (word_of_nat level) @ sp) (fnumber f) @ sp)
                  (file_size f) @ sp @ InternalKey_DebugString (smallest f) @ ascii '' .. '' @
                InternalKey_DebugString (largest f)) r (new_files e)
      in r @ nl @ ascii ''}'' @ nl)"

subsection \<open>Round trip\<close>

text \<open>The encoding as a list of fields, each with the bytes it writes and the update it means.\<close>

datatype ve_field = FComparator bytes | FLogNumber u64 | FPrevLogNumber u64 | FNextFile u64
  | FLastSequence u64 | FCompactPointer nat bytes | FDeleted nat u64 | FNew nat FileMetaData

fun field_bytes :: "ve_field \<Rightarrow> bytes" where
  "field_bytes (FComparator n) = PutLengthPrefixedSlice (PutVarint32 [] kTagComparator) n"
| "field_bytes (FLogNumber n) = PutVarint64 (PutVarint32 [] kTagLogNumber) n"
| "field_bytes (FPrevLogNumber n) = PutVarint64 (PutVarint32 [] kTagPrevLogNumber) n"
| "field_bytes (FNextFile n) = PutVarint64 (PutVarint32 [] kTagNextFileNumber) n"
| "field_bytes (FLastSequence n) = PutVarint64 (PutVarint32 [] kTagLastSequence) n"
| "field_bytes (FCompactPointer l k) =
     PutLengthPrefixedSlice (PutVarint32 (PutVarint32 [] kTagCompactPointer) (word_of_nat l)) k"
| "field_bytes (FDeleted l n) = PutVarint64 (PutVarint32 (PutVarint32 [] kTagDeletedFile) (word_of_nat l)) n"
| "field_bytes (FNew l f) =
     PutLengthPrefixedSlice (PutLengthPrefixedSlice (PutVarint64 (PutVarint64
       (PutVarint32 (PutVarint32 [] kTagNewFile) (word_of_nat l)) (fnumber f)) (file_size f))
       (smallest f)) (largest f)"

fun field_apply :: "ve_field \<Rightarrow> VersionEdit \<Rightarrow> VersionEdit" where
  "field_apply (FComparator n) e = SetComparatorName n e"
| "field_apply (FLogNumber n) e = SetLogNumber n e"
| "field_apply (FPrevLogNumber n) e = SetPrevLogNumber n e"
| "field_apply (FNextFile n) e = SetNextFile n e"
| "field_apply (FLastSequence n) e = SetLastSequence n e"
| "field_apply (FCompactPointer l k) e = SetCompactPointer l k e"
| "field_apply (FDeleted l n) e = VersionEdit_DeleteFile l n e"
| "field_apply (FNew l f) e = e\<lparr>new_files := new_files e @ [(l, f)]\<rparr>"

fun field_ok :: "ve_field \<Rightarrow> bool" where
  "field_ok (FComparator n) = (length n < 2 ^ 32)"
| "field_ok (FCompactPointer l k) = (l < kNumLevels \<and> length k < 2 ^ 32)"
| "field_ok (FDeleted l n) = (l < kNumLevels)"
| "field_ok (FNew l f) = (l < kNumLevels \<and> length (smallest f) < 2 ^ 32 \<and> length (largest f) < 2 ^ 32 \<and>
     f = FileMetaData_new (fnumber f) (file_size f) (smallest f) (largest f))"
| "field_ok _ = True"

lemmas put_defs = PutVarint32_def PutVarint64_def PutLengthPrefixedSlice_def

lemma GetLevel_Encode:
  assumes "l < kNumLevels"
  shows "GetLevel (EncodeVarint32 (word_of_nat l) @ rest) = Some (l, rest)"
proof -
  have "unat (word_of_nat l :: u32) = l" using assms by (simp add: unat_of_nat_u32 kNumLevels_def)
  then show ?thesis using assms by (simp add: GetLevel_def)
qed

lemmas field_simps_set = put_defs DecodeField_def tag_defs GetLevel_Encode GetInternalKey_def
  SetComparatorName_def SetLogNumber_def SetPrevLogNumber_def SetNextFile_def SetLastSequence_def
  SetCompactPointer_def VersionEdit_DeleteFile_def

lemma Decode_field:
  assumes "field_ok f"
  shows "DecodeFrom_loop e (field_bytes f @ rest) = DecodeFrom_loop (field_apply f e) rest"
proof (cases f)
  case (FComparator n)
  with assms show ?thesis by (subst DecodeFrom_loop.simps) (simp add: field_simps_set)
next
  case (FLogNumber n)
  with assms show ?thesis by (subst DecodeFrom_loop.simps) (simp add: field_simps_set)
next
  case (FPrevLogNumber n)
  with assms show ?thesis by (subst DecodeFrom_loop.simps) (simp add: field_simps_set)
next
  case (FNextFile n)
  with assms show ?thesis by (subst DecodeFrom_loop.simps) (simp add: field_simps_set)
next
  case (FLastSequence n)
  with assms show ?thesis by (subst DecodeFrom_loop.simps) (simp add: field_simps_set)
next
  case (FCompactPointer l k)
  with assms show ?thesis by (subst DecodeFrom_loop.simps) (simp add: field_simps_set)
next
  case (FDeleted l n)
  with assms show ?thesis by (subst DecodeFrom_loop.simps) (simp add: field_simps_set)
next
  case (FNew l m)
  have m: "FileMetaData_new (fnumber m) (file_size m) (smallest m) (largest m) = m"
    and "l < kNumLevels" "length (smallest m) < 2 ^ 32" "length (largest m) < 2 ^ 32"
    using assms FNew by auto
  then show ?thesis unfolding FNew
    by (subst DecodeFrom_loop.simps) (simp add: field_simps_set m)
qed

lemma Decode_fields:
  "list_all field_ok fs \<Longrightarrow>
     DecodeFrom_loop e (concat (map field_bytes fs)) = (None, [], fold field_apply fs e)"
proof (induction fs arbitrary: e)
  case Nil
  then show ?case by (simp add: DecodeFrom_loop.simps)
next
  case (Cons f fs)
  then show ?case by (simp add: Decode_field)
qed

definition fields_of :: "VersionEdit \<Rightarrow> ve_field list" where
  "fields_of e =
     (if has_comparator e then [FComparator (ve_comparator e)] else []) @
     (if has_log_number e then [FLogNumber (ve_log_number e)] else []) @
     (if has_prev_log_number e then [FPrevLogNumber (ve_prev_log_number e)] else []) @
     (if has_next_file_number e then [FNextFile (ve_next_file_number e)] else []) @
     (if has_last_sequence e then [FLastSequence (ve_last_sequence e)] else []) @
     map (\<lambda>(l, k). FCompactPointer l k) (compact_pointers e) @
     map (\<lambda>(l, n). FDeleted l n) (deleted_files e) @ map (\<lambda>(l, f). FNew l f) (new_files e)"

lemma foldl_put:
  assumes "\<And>dst x. g dst x = dst @ h x"
  shows "foldl g dst xs = dst @ concat (map h xs)"
  by (induction xs arbitrary: dst) (simp_all add: assms)

lemma EncodeTo_fields: "VersionEdit_EncodeTo e dst = dst @ concat (map field_bytes (fields_of e))"
proof -
  have 1: "foldl (\<lambda>dst (level, key). PutLengthPrefixedSlice
      (PutVarint32 (PutVarint32 dst kTagCompactPointer) (word_of_nat level)) key) dst xs =
      dst @ concat (map field_bytes (map (\<lambda>(l, k). FCompactPointer l k) xs))" for dst xs
    by (subst foldl_put [where h = "\<lambda>x. field_bytes (case x of (l, k) \<Rightarrow> FCompactPointer l k)"])
      (auto simp: put_defs comp_def)
  have 2: "foldl (\<lambda>dst (level, number).
      PutVarint64 (PutVarint32 (PutVarint32 dst kTagDeletedFile) (word_of_nat level)) number) dst xs =
      dst @ concat (map field_bytes (map (\<lambda>(l, n). FDeleted l n) xs))" for dst xs
    by (subst foldl_put [where h = "\<lambda>x. field_bytes (case x of (l, n) \<Rightarrow> FDeleted l n)"])
      (auto simp: put_defs comp_def)
  have 3: "foldl (\<lambda>dst (level, f).
           (let dst = PutVarint32 dst kTagNewFile;
                dst = PutVarint32 dst (word_of_nat level);
                dst = PutVarint64 dst (fnumber f);
                dst = PutVarint64 dst (file_size f);
                dst = PutLengthPrefixedSlice dst (smallest f)
            in PutLengthPrefixedSlice dst (largest f))) dst xs =
      dst @ concat (map field_bytes (map (\<lambda>(l, f). FNew l f) xs))" for dst xs
    by (subst foldl_put [where h = "\<lambda>x. field_bytes (case x of (l, f) \<Rightarrow> FNew l f)"])
      (auto simp: put_defs comp_def Let_def)
  show ?thesis
    unfolding VersionEdit_EncodeTo_def unfolding 1 2 3 unfolding fields_of_def Let_def
    by (simp add: put_defs)
qed

text \<open>
  \<open>edit_ok\<close>: what an edit built by the setters satisfies. A field that was never set has its
  initial value, levels are below \<open>kNumLevels\<close>, the deleted files are an ordered set.
\<close>

definition edit_ok :: "VersionEdit \<Rightarrow> bool" where
  "edit_ok e \<longleftrightarrow> list_all field_ok (fields_of e) \<and> sorted_wrt (<) (deleted_files e) \<and>
     (\<not> has_comparator e \<longrightarrow> ve_comparator e = []) \<and> (\<not> has_log_number e \<longrightarrow> ve_log_number e = 0) \<and>
     (\<not> has_prev_log_number e \<longrightarrow> ve_prev_log_number e = 0) \<and>
     (\<not> has_next_file_number e \<longrightarrow> ve_next_file_number e = 0) \<and>
     (\<not> has_last_sequence e \<longrightarrow> ve_last_sequence e = 0)"

lemma set_insert_last: "\<forall>x \<in> set xs. x < k \<Longrightarrow> set_insert k xs = xs @ [k]"
  by (induction xs) auto

lemma fold_deleted:
  "sorted_wrt (<) (deleted_files e @ xs) \<Longrightarrow>
     fold field_apply (map (\<lambda>(l, n). FDeleted l n) xs) e = e\<lparr>deleted_files := deleted_files e @ xs\<rparr>"
proof (induction xs arbitrary: e)
  case (Cons x xs)
  obtain l n where x: "x = (l, n)" by (cases x)
  have "set_insert x (deleted_files e) = deleted_files e @ [x]"
    using Cons.prems by (intro set_insert_last) (auto simp: sorted_wrt_append)
  then show ?case
    using Cons.IH [of "VersionEdit_DeleteFile l n e"] Cons.prems
    by (simp add: x VersionEdit_DeleteFile_def)
qed simp

lemma fold_pointers:
  "fold field_apply (map (\<lambda>(l, k). FCompactPointer l k) xs) e =
     e\<lparr>compact_pointers := compact_pointers e @ xs\<rparr>"
  by (induction xs arbitrary: e) (auto simp: SetCompactPointer_def)

lemma fold_new:
  "fold field_apply (map (\<lambda>(l, f). FNew l f) xs) e = e\<lparr>new_files := new_files e @ xs\<rparr>"
  by (induction xs arbitrary: e) auto

lemma fold_fields:
  assumes "edit_ok e"
  shows "fold field_apply (fields_of e) (VersionEdit_Clear e0) =
    e\<lparr>compact_pointers := compact_pointers e0 @ compact_pointers e\<rparr>"
  using assms
  by (simp add: fields_of_def fold_deleted fold_pointers fold_new edit_ok_def VersionEdit_Clear_def
      SetComparatorName_def SetLogNumber_def SetPrevLogNumber_def SetNextFile_def SetLastSequence_def)

lemma Decode_Encode:
  assumes "edit_ok e"
  shows "VersionEdit_DecodeFrom (VersionEdit_EncodeTo e []) e0 =
    (OK, e\<lparr>compact_pointers := compact_pointers e0 @ compact_pointers e\<rparr>)"
  using assms
  by (simp add: VersionEdit_DecodeFrom_def EncodeTo_fields Decode_fields edit_ok_def fold_fields)

lemma Decode_Encode_new:
  "edit_ok e \<Longrightarrow> VersionEdit_DecodeFrom (VersionEdit_EncodeTo e []) VersionEdit_new = (OK, e)"
  by (simp add: Decode_Encode VersionEdit_new_def)

text \<open>
  C26: decoding the encoding of an edit succeeds and yields that edit, field
  by field. The compaction pointers are appended to those the decoding object already had: its
  \<open>Clear\<close> keeps them, so the result equals the edit when the object was fresh.
\<close>

theorem version_edit_roundtrip:
  assumes "edit_ok e"
  shows "VersionEdit_DecodeFrom (VersionEdit_EncodeTo e []) e0 =
      (OK, e\<lparr>compact_pointers := compact_pointers e0 @ compact_pointers e\<rparr>) \<and>
    VersionEdit_DecodeFrom (VersionEdit_EncodeTo e []) VersionEdit_new = (OK, e)"
  using Decode_Encode [OF assms] Decode_Encode_new [OF assms] by blast

definition demo_edit :: VersionEdit where
  "demo_edit = VersionEdit_AddFile 2 7 100 [1] [2] (VersionEdit_DeleteFile 1 5 (SetCompactPointer 0 [9]
     (SetLogNumber 3 (SetComparatorName [65] VersionEdit_new))))"

theorem version_edit_roundtrip_witness:
  "VersionEdit_DecodeFrom (VersionEdit_EncodeTo demo_edit []) VersionEdit_new = (OK, demo_edit)"
proof -
  have "edit_ok demo_edit"
    by (simp add: edit_ok_def demo_edit_def VersionEdit_AddFile_def VersionEdit_DeleteFile_def
        SetCompactPointer_def SetLogNumber_def SetComparatorName_def VersionEdit_new_def fields_of_def
        kNumLevels_def FileMetaData_new_def)
  from version_edit_roundtrip [OF this] show ?thesis by blast
qed

text \<open>
  \<open>Clear\<close> resets every field except the compaction pointers.
\<close>

theorem version_edit_clear_keeps_pointers:
  "VersionEdit_Clear e = VersionEdit_new\<lparr>compact_pointers := compact_pointers e\<rparr>"
  by (simp add: VersionEdit_Clear_def VersionEdit_new_def)

end
