(* ===== verification/Files.thy ===== *)
theory Files
  imports Status
begin

section \<open>File interfaces (\<^verbatim>\<open>include/leveldb/env.h\<close>)\<close>

text \<open>
  The abstract file classes of the environment. An object of one of these classes is a state
  of some type \<open>'f\<close> together with a record of its virtual methods. The locales state what the
  class comments promise of a method that reports success; what a failing call did to the file
  is left open. The in-memory environment provides the instances.
\<close>

record 'f WritableFile =
  wf_Append :: "'f \<Rightarrow> bytes \<Rightarrow> Status \<times> 'f"
  wf_Close :: "'f \<Rightarrow> Status \<times> 'f"
  wf_Flush :: "'f \<Rightarrow> Status \<times> 'f"
  wf_Sync :: "'f \<Rightarrow> Status \<times> 'f"

record 'f SequentialFile =
  sf_Read :: "'f \<Rightarrow> nat \<Rightarrow> Status \<times> bytes \<times> 'f"
  sf_Skip :: "'f \<Rightarrow> nat \<Rightarrow> Status \<times> 'f"

record 'f RandomAccessFile =
  raf_Read :: "'f \<Rightarrow> nat \<Rightarrow> nat \<Rightarrow> Status \<times> bytes"

text \<open>A successful append adds the data at the end; a successful flush changes nothing.\<close>

locale writable_file =
  fixes ops :: "'f WritableFile" and contents :: "'f \<Rightarrow> bytes" and valid :: "'f \<Rightarrow> bool"
  assumes append_ok: "valid f \<Longrightarrow> wf_Append ops f d = (s, f') \<Longrightarrow> ok s \<Longrightarrow>
      contents f' = contents f @ d"
    and append_valid: "valid f \<Longrightarrow> wf_Append ops f d = (s, f') \<Longrightarrow> valid f'"
    and flush_ok: "valid f \<Longrightarrow> wf_Flush ops f = (s, f') \<Longrightarrow> ok s \<Longrightarrow> contents f' = contents f"
    and flush_valid: "valid f \<Longrightarrow> wf_Flush ops f = (s, f') \<Longrightarrow> valid f'"

text \<open>A writable file whose calls never fail, like a file in memory.\<close>

locale reliable_writable_file = writable_file +
  assumes append_succeeds: "valid f \<Longrightarrow> ok (fst (wf_Append ops f d))"
    and flush_succeeds: "valid f \<Longrightarrow> ok (fst (wf_Flush ops f))"
begin

lemma append_contents: "valid f \<Longrightarrow> contents (snd (wf_Append ops f d)) = contents f @ d"
  using append_ok append_succeeds by (metis prod.collapse)

lemma append_valid_snd: "valid f \<Longrightarrow> valid (snd (wf_Append ops f d))"
  using append_valid by (metis prod.collapse)

lemma flush_contents: "valid f \<Longrightarrow> contents (snd (wf_Flush ops f)) = contents f"
  using flush_ok flush_succeeds by (metis prod.collapse)

lemma flush_valid_snd: "valid f \<Longrightarrow> valid (snd (wf_Flush ops f))"
  using flush_valid by (metis prod.collapse)

lemmas file_simps =
  append_contents append_valid_snd flush_contents flush_valid_snd append_succeeds flush_succeeds

end

text \<open>
  A sequential file that does not fail: \<open>rest\<close> is what is still to be read; a read returns the
  next \<open>n\<close> bytes, fewer only at the end of the file.
\<close>

locale sequential_file =
  fixes ops :: "'f SequentialFile" and rest :: "'f \<Rightarrow> bytes" and valid :: "'f \<Rightarrow> bool"
  assumes read: "valid f \<Longrightarrow> \<exists>f'. sf_Read ops f n = (OK, take n (rest f), f') \<and>
      rest f' = drop n (rest f) \<and> valid f'"
    and skip: "valid f \<Longrightarrow> \<exists>f'. sf_Skip ops f n = (OK, f') \<and> rest f' = drop n (rest f) \<and> valid f'"
begin

lemma read_simps:
  assumes "valid f"
  shows "fst (sf_Read ops f n) = OK" "fst (snd (sf_Read ops f n)) = take n (rest f)"
    "rest (snd (snd (sf_Read ops f n))) = drop n (rest f)"
    "valid (snd (snd (sf_Read ops f n)))"
  using read [OF assms, of n] by auto

end

locale random_access_file =
  fixes ops :: "'f RandomAccessFile" and contents :: "'f \<Rightarrow> bytes" and valid :: "'f \<Rightarrow> bool"
  assumes read_at: "valid f \<Longrightarrow> off + n \<le> length (contents f) \<Longrightarrow>
      raf_Read ops f off n = (OK, take n (drop off (contents f)))"

end
