(* ===== verification/LogWriter.thy ===== *)
theory LogWriter
  imports Files Crc32c
begin

section \<open>Writing the log (\<^verbatim>\<open>db/log_format.h\<close>, \<^verbatim>\<open>db/log_writer.cc\<close>)\<close>

text \<open>
  A log is a sequence of 32 KiB blocks. A user record is cut into physical records that do
  not cross blocks; each has a seven-byte header of checksum, length and type. A block rest
  of fewer than seven bytes is filled with zeros. \<open>AddRecord_loop\<close> is the \<open>do\<close> loop of
  \<open>Writer::AddRecord\<close> over any \<open>WritableFile\<close>, \<open>image_loop\<close> the bytes it appends when the
  file does not fail.
\<close>

subsection \<open>The format\<close>

datatype RecordType = kZeroType | kFullType | kFirstType | kMiddleType | kLastType

fun record_type_nat :: "RecordType \<Rightarrow> nat" where
  "record_type_nat kZeroType = 0"
| "record_type_nat kFullType = 1"
| "record_type_nat kFirstType = 2"
| "record_type_nat kMiddleType = 3"
| "record_type_nat kLastType = 4"

definition record_type_byte :: "RecordType \<Rightarrow> byte" where
  "record_type_byte t = word_of_nat (record_type_nat t)"

definition kMaxRecordType :: nat where "kMaxRecordType = record_type_nat kLastType"
definition kBlockSize :: nat where "kBlockSize = 32768"
definition kHeaderSize :: nat where "kHeaderSize = 4 + 2 + 1"

subsection \<open>The writer\<close>

record 'f log_Writer =
  dest :: 'f
  block_offset :: nat
  type_crc :: "u32 list"

definition InitTypeCrc :: "u32 list" where
  "InitTypeCrc = map (\<lambda>i. crc32c_Value [word_of_nat i]) [0..<kMaxRecordType + 1]"

definition Writer_new :: "'f \<Rightarrow> 'f log_Writer" where
  "Writer_new f = \<lparr>dest = f, block_offset = 0, type_crc = InitTypeCrc\<rparr>"

definition Writer_reopen :: "'f \<Rightarrow> nat \<Rightarrow> 'f log_Writer" where
  "Writer_reopen f dest_length =
     \<lparr>dest = f, block_offset = dest_length mod kBlockSize, type_crc = InitTypeCrc\<rparr>"

definition EmitPhysicalRecord ::
    "'f WritableFile \<Rightarrow> RecordType \<Rightarrow> bytes \<Rightarrow> 'f log_Writer \<Rightarrow> Status \<times> 'f log_Writer" where
  "EmitPhysicalRecord ops t data w =
     (let length' = length data;
          crc = crc32c_Extend (type_crc w ! record_type_nat t) data;
          crc = crc32c_Mask crc;
          buf = EncodeFixed32 crc @
            [word_of_nat length' AND 0xff, word_of_nat (length' div 256), record_type_byte t];
          (s, f) = wf_Append ops (dest w) buf;
          (s, f) =
            (if ok s then
               (let (s, f) = wf_Append ops f data
                in if ok s then wf_Flush ops f else (s, f))
             else (s, f))
      in (s, w\<lparr>dest := f, block_offset := block_offset w + (kHeaderSize + length')\<rparr>))"

text \<open>
  The part of the loop body before a physical record is emitted: fill the block's rest with
  zeros, whose status the code ignores, and move to the next block.
\<close>

definition switch_block :: "'f WritableFile \<Rightarrow> 'f log_Writer \<Rightarrow> 'f log_Writer" where
  "switch_block ops w =
     (let leftover = int kBlockSize - int (block_offset w) in
      if leftover < int kHeaderSize then
        (let w = (if leftover > 0
                  then w\<lparr>dest := snd (wf_Append ops (dest w) (take (nat leftover) [0, 0, 0, 0, 0, 0]))\<rparr>
                  else w)
         in w\<lparr>block_offset := 0\<rparr>)
      else w)"

definition fragment_type :: "bool \<Rightarrow> bool \<Rightarrow> RecordType" where
  "fragment_type begin' end' =
     (if begin' \<and> end' then kFullType else if begin' then kFirstType
      else if end' then kLastType else kMiddleType)"

lemma switch_block_offset:
  "block_offset (switch_block ops w) =
     (if kBlockSize < block_offset w + kHeaderSize then 0 else block_offset w)"
  by (auto simp: switch_block_def Let_def)

lemma Emit_offset:
  "block_offset (snd (EmitPhysicalRecord ops t data w)) = block_offset w + (kHeaderSize + length data)"
  by (auto simp: EmitPhysicalRecord_def Let_def split: prod.splits)

function AddRecord_loop ::
    "'f WritableFile \<Rightarrow> bool \<Rightarrow> bytes \<Rightarrow> 'f log_Writer \<Rightarrow> Status \<times> 'f log_Writer" where
  "AddRecord_loop ops begin' left w =
     (let w = switch_block ops w;
          avail = kBlockSize - block_offset w - kHeaderSize;
          fragment_length = (if length left < avail then length left else avail);
          end' = (length left = fragment_length);
          type = fragment_type begin' end';
          sw = EmitPhysicalRecord ops type (take fragment_length left) w;
          left = drop fragment_length left
      in if ok (fst sw) \<and> left \<noteq> [] then AddRecord_loop ops False left (snd sw) else sw)"
  by pat_completeness auto
termination
proof (relation "measures [\<lambda>(ops, b, left, w). length left,
    \<lambda>(ops, b, left, w). if block_offset w + kHeaderSize = kBlockSize then 1 else 0]", simp, goal_cases)
  case (1 ops b left w x xa xb xc xd xe xf)
  then show ?case
    by (auto simp: switch_block_offset Emit_offset kBlockSize_def kHeaderSize_def split: if_splits)
qed

declare AddRecord_loop.simps [simp del]

definition AddRecord :: "'f WritableFile \<Rightarrow> bytes \<Rightarrow> 'f log_Writer \<Rightarrow> Status \<times> 'f log_Writer" where
  "AddRecord ops slice' w = AddRecord_loop ops True slice' w"

text \<open>Adding records one after another until one fails.\<close>

fun AddRecords :: "'f WritableFile \<Rightarrow> bytes list \<Rightarrow> 'f log_Writer \<Rightarrow> Status \<times> 'f log_Writer" where
  "AddRecords ops [] w = (OK, w)"
| "AddRecords ops (r # rs) w =
     (let (s, w') = AddRecord ops r w in if ok s then AddRecords ops rs w' else (s, w'))"

subsection \<open>The bytes a log consists of\<close>

definition phys :: "RecordType \<Rightarrow> bytes \<Rightarrow> bytes" where
  "phys t data =
     EncodeFixed32 (crc32c_Mask (crc32c_Value (record_type_byte t # data))) @
     [word_of_nat (length data) AND 0xff, word_of_nat (length data div 256), record_type_byte t] @ data"

definition trailer :: "nat \<Rightarrow> bytes" where
  "trailer bo = (if kBlockSize < bo + kHeaderSize then replicate (kBlockSize - bo) 0 else [])"

definition next_offset :: "nat \<Rightarrow> nat" where
  "next_offset bo = (if kBlockSize < bo + kHeaderSize then 0 else bo)"

function image_loop :: "bool \<Rightarrow> bytes \<Rightarrow> nat \<Rightarrow> bytes \<times> nat" where
  "image_loop begin' left bo =
     (let o1 = next_offset bo;
          fl = min (length left) (kBlockSize - o1 - kHeaderSize);
          p = trailer bo @ phys (fragment_type begin' (length left = fl)) (take fl left);
          o2 = o1 + (kHeaderSize + fl)
      in if drop fl left \<noteq> []
         then (let (q, o3) = image_loop False (drop fl left) o2 in (p @ q, o3))
         else (p, o2))"
  by pat_completeness auto
termination
  by (relation "measures [\<lambda>(b, left, bo). length left,
        \<lambda>(b, left, bo). if bo + kHeaderSize = kBlockSize then 1 else 0]")
     (auto simp: next_offset_def kBlockSize_def kHeaderSize_def min_def split: if_splits)

declare image_loop.simps [simp del]

fun log_image :: "bytes list \<Rightarrow> nat \<Rightarrow> bytes \<times> nat" where
  "log_image [] bo = ([], bo)"
| "log_image (r # rs) bo =
     (let (p, bo') = image_loop True r bo; (q, bo'') = log_image rs bo' in (p @ q, bo''))"

lemma if_less_min: "(if (a::nat) < b then a else b) = min a b"
  by (simp add: min_def)

lemma length_phys [simp]: "length (phys t d) = kHeaderSize + length d"
  by (simp add: phys_def kHeaderSize_def)

lemma InitTypeCrc_nth: "InitTypeCrc ! record_type_nat t = crc32c_Value [record_type_byte t]"
  by (cases t) (simp_all add: InitTypeCrc_def kMaxRecordType_def record_type_byte_def upt_rec)

context reliable_writable_file
begin

lemma Emit_contents:
  assumes "valid (dest w)" "type_crc w = InitTypeCrc"
  shows "ok (fst (EmitPhysicalRecord ops t d w)) \<and>
    contents (dest (snd (EmitPhysicalRecord ops t d w))) = contents (dest w) @ phys t d \<and>
    valid (dest (snd (EmitPhysicalRecord ops t d w))) \<and>
    type_crc (snd (EmitPhysicalRecord ops t d w)) = InitTypeCrc"
  using assms
  by (simp add: EmitPhysicalRecord_def Let_def case_prod_beta file_simps phys_def InitTypeCrc_nth
      crc32c_Extend_append)

lemma switch_contents:
  assumes "valid (dest w)" "type_crc w = InitTypeCrc"
  shows "contents (dest (switch_block ops w)) = contents (dest w) @ trailer (block_offset w) \<and>
    valid (dest (switch_block ops w)) \<and> type_crc (switch_block ops w) = InitTypeCrc"
proof -
  have "take n [0, 0, 0, 0, 0, 0 :: byte] = replicate n 0" if "n \<le> 6" for n
  proof -
    have "[0, 0, 0, 0, 0, 0 :: byte] = replicate 6 0" by (simp add: numeral_eq_Suc)
    with that show ?thesis by (simp add: min_def)
  qed
  with assms show ?thesis
    by (auto simp: switch_block_def trailer_def Let_def file_simps kHeaderSize_def nat_diff_distrib)
qed

lemma AddRecord_loop_image:
  assumes "valid (dest w)" "type_crc w = InitTypeCrc"
  shows "ok (fst (AddRecord_loop ops b left w)) \<and>
    contents (dest (snd (AddRecord_loop ops b left w))) =
      contents (dest w) @ fst (image_loop b left (block_offset w)) \<and>
    block_offset (snd (AddRecord_loop ops b left w)) = snd (image_loop b left (block_offset w)) \<and>
    valid (dest (snd (AddRecord_loop ops b left w))) \<and>
    type_crc (snd (AddRecord_loop ops b left w)) = InitTypeCrc"
  using assms
proof (induction b left "block_offset w" arbitrary: w rule: image_loop.induct)
  case (1 b left w)
  define w1 where "w1 = switch_block ops w"
  define fl where "fl = min (length left) (kBlockSize - block_offset w1 - kHeaderSize)"
  define sw where "sw = EmitPhysicalRecord ops (fragment_type b (length left = fl)) (take fl left) w1"
  have w1: "block_offset w1 = next_offset (block_offset w)"
    "contents (dest w1) = contents (dest w) @ trailer (block_offset w)"
    "valid (dest w1)" "type_crc w1 = InitTypeCrc"
    using switch_contents [OF "1.prems"] by (simp_all add: w1_def switch_block_offset next_offset_def)
  have sw: "ok (fst sw)" "valid (dest (snd sw))" "type_crc (snd sw) = InitTypeCrc"
    "contents (dest (snd sw)) = contents (dest w) @ trailer (block_offset w) @
       phys (fragment_type b (length left = fl)) (take fl left)"
    "block_offset (snd sw) = next_offset (block_offset w) + (kHeaderSize + fl)"
    using Emit_contents [OF w1(3,4)] w1(1,2) Emit_offset [of ops]
    by (simp_all add: sw_def fl_def)
  have step: "AddRecord_loop ops b left w =
      (if drop fl left \<noteq> [] then AddRecord_loop ops False (drop fl left) (snd sw) else sw)"
    using sw(1)
    by (subst AddRecord_loop.simps) (simp add: Let_def sw_def fl_def w1_def if_less_min)
  show ?case
  proof (cases "drop fl left = []")
    case True
    with sw step show ?thesis
      by (subst (1 2) image_loop.simps) (simp add: Let_def fl_def w1)
  next
    case False
    from "1.hyps" [OF refl refl refl, of "snd sw"] False sw w1
    have "ok (fst (AddRecord_loop ops False (drop fl left) (snd sw))) \<and>
      contents (dest (snd (AddRecord_loop ops False (drop fl left) (snd sw)))) =
        contents (dest (snd sw)) @ fst (image_loop False (drop fl left) (block_offset (snd sw))) \<and>
      block_offset (snd (AddRecord_loop ops False (drop fl left) (snd sw))) =
        snd (image_loop False (drop fl left) (block_offset (snd sw))) \<and>
      valid (dest (snd (AddRecord_loop ops False (drop fl left) (snd sw)))) \<and>
      type_crc (snd (AddRecord_loop ops False (drop fl left) (snd sw))) = InitTypeCrc"
      by (simp add: fl_def)
    with False sw step show ?thesis
      by (subst (1 2) image_loop.simps) (simp add: Let_def fl_def w1 case_prod_beta)
  qed
qed

lemma AddRecords_image:
  assumes "valid (dest w)" "type_crc w = InitTypeCrc"
  shows "ok (fst (AddRecords ops rs w)) \<and>
    contents (dest (snd (AddRecords ops rs w))) = contents (dest w) @ fst (log_image rs (block_offset w)) \<and>
    block_offset (snd (AddRecords ops rs w)) = snd (log_image rs (block_offset w)) \<and>
    valid (dest (snd (AddRecords ops rs w)))"
  using assms
proof (induction rs arbitrary: w)
  case (Cons r rs)
  have "ok (fst (AddRecord ops r w))" and "type_crc (snd (AddRecord ops r w)) = InitTypeCrc"
    and "valid (dest (snd (AddRecord ops r w)))"
    and "contents (dest (snd (AddRecord ops r w))) = contents (dest w) @ fst (image_loop True r (block_offset w))"
    and "block_offset (snd (AddRecord ops r w)) = snd (image_loop True r (block_offset w))"
    using AddRecord_loop_image [OF Cons.prems, of True r] by (simp_all add: AddRecord_def)
  with Cons.IH [of "snd (AddRecord ops r w)"] show ?case
    by (simp add: case_prod_beta Let_def)
qed simp

end

end
