(* ===== verification/LogReader.thy ===== *)
theory LogReader
  imports LogWriter Filename
begin

section \<open>Reading the log (\<^verbatim>\<open>db/log_reader.cc\<close>)\<close>

text \<open>
  The reader keeps the unread part of the current block in \<open>lr_buffer\<close>; the slices it hands out
  are the bytes they refer to. \<open>lr_reports\<close> holds the calls of \<open>Reporter::Corruption\<close>, \<open>None\<close>
  for a null reporter. \<open>ReadRecord\<close> need not return on a file that never ends, so its loop is a
  partial function.
\<close>

record 'f log_Reader =
  lr_file :: 'f
  lr_reports :: "(nat \<times> Status) list option"
  lr_checksum :: bool
  lr_buffer :: bytes
  lr_eof :: bool
  lr_last_record_offset :: u64
  lr_end_of_buffer_offset :: u64
  lr_initial_offset :: u64
  lr_resyncing :: bool

definition Reader_new ::
    "'f \<Rightarrow> (nat \<times> Status) list option \<Rightarrow> bool \<Rightarrow> u64 \<Rightarrow> 'f log_Reader" where
  "Reader_new f reporter checksum initial_offset =
     \<lparr>lr_file = f, lr_reports = reporter, lr_checksum = checksum, lr_buffer = [], lr_eof = False,
      lr_last_record_offset = 0, lr_end_of_buffer_offset = 0, lr_initial_offset = initial_offset,
      lr_resyncing = (0 < initial_offset)\<rparr>"

definition kEof :: u32 where "kEof = word_of_nat (kMaxRecordType + 1)"
definition kBadRecord :: u32 where "kBadRecord = word_of_nat (kMaxRecordType + 2)"

abbreviation buffer_size :: "'f log_Reader \<Rightarrow> u64" where
  "buffer_size r \<equiv> word_of_nat (length (lr_buffer r))"

definition LastRecordOffset :: "'f log_Reader \<Rightarrow> u64" where
  "LastRecordOffset r = lr_last_record_offset r"

definition ReportDrop :: "u64 \<Rightarrow> Status \<Rightarrow> 'f log_Reader \<Rightarrow> 'f log_Reader" where
  "ReportDrop n reason r =
     (case lr_reports r of
        None \<Rightarrow> r
      | Some l \<Rightarrow>
          if lr_initial_offset r \<le> lr_end_of_buffer_offset r - buffer_size r - n
          then r\<lparr>lr_reports := Some (l @ [(unat n, reason)])\<rparr> else r)"

definition ReportCorruption :: "u64 \<Rightarrow> bytes \<Rightarrow> 'f log_Reader \<Rightarrow> 'f log_Reader" where
  "ReportCorruption n reason r = ReportDrop n (Corruption reason []) r"

definition SkipToInitialBlock :: "'f SequentialFile \<Rightarrow> 'f log_Reader \<Rightarrow> bool \<times> 'f log_Reader" where
  "SkipToInitialBlock ops r =
     (let offset_in_block = lr_initial_offset r mod 32768;
          block_start_location = lr_initial_offset r - offset_in_block;
          block_start_location =
            (if 32768 - 6 < offset_in_block then block_start_location + 32768
             else block_start_location);
          r = r\<lparr>lr_end_of_buffer_offset := block_start_location\<rparr>
      in if 0 < block_start_location then
           (let (skip_status, f) = sf_Skip ops (lr_file r) (unat block_start_location);
                r = r\<lparr>lr_file := f\<rparr>
            in if ok skip_status then (True, r)
               else (False, ReportDrop block_start_location skip_status r))
         else (True, r))"

text \<open>
  The second half of \<open>ReadPhysicalRecord\<close>: the buffer holds a header. The type is a \<open>char\<close>,
  widened with its sign.
\<close>

definition ParsePhysicalRecord :: "bytes \<Rightarrow> 'f log_Reader \<Rightarrow> u32 \<times> bytes \<times> 'f log_Reader" where
  "ParsePhysicalRecord result r =
     (let header = lr_buffer r;
          a = (scast (header ! 4) :: u32) AND 0xff;
          b = (scast (header ! 5) :: u32) AND 0xff;
          type = (scast (header ! 6) :: u32);
          length' = unat (a OR push_bit 8 b)
      in if length (lr_buffer r) < kHeaderSize + length' then
           (let drop_size = buffer_size r; r = r\<lparr>lr_buffer := []\<rparr>
            in if \<not> lr_eof r
               then (kBadRecord, result, ReportCorruption drop_size (ascii ''bad record length'') r)
               else (kEof, result, r))
         else if type = word_of_nat (record_type_nat kZeroType) \<and> length' = 0 then
           (kBadRecord, result, r\<lparr>lr_buffer := []\<rparr>)
         else if lr_checksum r \<and>
             crc32c_Value (take (1 + length') (drop 6 header)) \<noteq>
             crc32c_Unmask (DecodeFixed32 header) then
           (let drop_size = buffer_size r; r = r\<lparr>lr_buffer := []\<rparr>
            in (kBadRecord, result, ReportCorruption drop_size (ascii ''checksum mismatch'') r))
         else
           (let r = r\<lparr>lr_buffer := drop (kHeaderSize + length') header\<rparr>
            in if lr_end_of_buffer_offset r - buffer_size r - 7 - word_of_nat length' <
                  lr_initial_offset r
               then (kBadRecord, [], r)
               else (type, take length' (drop kHeaderSize header), r)))"

text \<open>Read the next block into the buffer; the Boolean is false when the read failed.\<close>

definition FillBuffer :: "'f SequentialFile \<Rightarrow> 'f log_Reader \<Rightarrow> bool \<times> 'f log_Reader" where
  "FillBuffer ops r =
     (let (status, buf, f) = sf_Read ops (lr_file r) kBlockSize;
          r = r\<lparr>lr_file := f, lr_buffer := buf,
                lr_end_of_buffer_offset := lr_end_of_buffer_offset r + word_of_nat (length buf)\<rparr>
      in if \<not> ok status then
           (False, (ReportDrop (word_of_nat kBlockSize) status (r\<lparr>lr_buffer := []\<rparr>))\<lparr>lr_eof := True\<rparr>)
         else (True, if length buf < kBlockSize then r\<lparr>lr_eof := True\<rparr> else r))"

function ReadPhysicalRecord ::
    "'f SequentialFile \<Rightarrow> bytes \<Rightarrow> 'f log_Reader \<Rightarrow> u32 \<times> bytes \<times> 'f log_Reader" where
  "ReadPhysicalRecord ops result r =
     (if length (lr_buffer r) < kHeaderSize then
        if \<not> lr_eof r then
          (let (good, r') = FillBuffer ops r
           in if good then ReadPhysicalRecord ops result r' else (kEof, result, r'))
        else (kEof, result, r\<lparr>lr_buffer := []\<rparr>)
      else ParsePhysicalRecord result r)"
  by pat_completeness auto
termination
  by (relation "measure (\<lambda>(ops, res, r). if length (lr_buffer r) < kHeaderSize \<and> \<not> lr_eof r then 1 else 0)")
     (auto simp: FillBuffer_def Let_def kHeaderSize_def kBlockSize_def split: prod.splits if_splits)

declare ReadPhysicalRecord.simps [simp del]

text \<open>
  The \<open>while (true)\<close> loop of \<open>ReadRecord\<close>; \<open>fragment\<close> keeps its value from one turn to the next.
  The result is the record, \<open>None\<close> when \<open>ReadRecord\<close> returns false.
\<close>

partial_function (option) ReadRecord_loop ::
    "'f SequentialFile \<Rightarrow> bool \<Rightarrow> u64 \<Rightarrow> bytes \<Rightarrow> bytes \<Rightarrow> 'f log_Reader
      \<Rightarrow> (bytes option \<times> 'f log_Reader) option" where
  "ReadRecord_loop ops in_fragmented_record prospective scratch fragment r0 =
     (let (record_type, fragment, r) = ReadPhysicalRecord ops fragment r0;
          physical_record_offset =
            lr_end_of_buffer_offset r - buffer_size r - 7 - word_of_nat (length fragment)
      in if lr_resyncing r \<and> record_type = word_of_nat (record_type_nat kMiddleType) then
           ReadRecord_loop ops in_fragmented_record prospective scratch fragment r
         else if lr_resyncing r \<and> record_type = word_of_nat (record_type_nat kLastType) then
           ReadRecord_loop ops in_fragmented_record prospective scratch fragment
             (r\<lparr>lr_resyncing := False\<rparr>)
         else
           (let r = r\<lparr>lr_resyncing := False\<rparr> in
            if record_type = word_of_nat (record_type_nat kFullType) then
              (let r = (if in_fragmented_record \<and> scratch \<noteq> []
                        then ReportCorruption (word_of_nat (length scratch))
                               (ascii ''partial record without end(1)'') r
                        else r)
               in Some (Some fragment, r\<lparr>lr_last_record_offset := physical_record_offset\<rparr>))
            else if record_type = word_of_nat (record_type_nat kFirstType) then
              (let r = (if in_fragmented_record \<and> scratch \<noteq> []
                        then ReportCorruption (word_of_nat (length scratch))
                               (ascii ''partial record without end(2)'') r
                        else r)
               in ReadRecord_loop ops True physical_record_offset fragment fragment r)
            else if record_type = word_of_nat (record_type_nat kMiddleType) then
              (if \<not> in_fragmented_record
               then ReadRecord_loop ops in_fragmented_record prospective scratch fragment
                      (ReportCorruption (word_of_nat (length fragment))
                        (ascii ''missing start of fragmented record(1)'') r)
               else ReadRecord_loop ops in_fragmented_record prospective (scratch @ fragment)
                      fragment r)
            else if record_type = word_of_nat (record_type_nat kLastType) then
              (if \<not> in_fragmented_record
               then ReadRecord_loop ops in_fragmented_record prospective scratch fragment
                      (ReportCorruption (word_of_nat (length fragment))
                        (ascii ''missing start of fragmented record(2)'') r)
               else Some (Some (scratch @ fragment), r\<lparr>lr_last_record_offset := prospective\<rparr>))
            else if record_type = kEof then Some (None, r)
            else if record_type = kBadRecord then
              (if in_fragmented_record
               then ReadRecord_loop ops False prospective [] fragment
                      (ReportCorruption (word_of_nat (length scratch))
                        (ascii ''error in middle of record'') r)
               else ReadRecord_loop ops False prospective scratch fragment r)
            else
              ReadRecord_loop ops False prospective [] fragment
                (ReportCorruption
                  (word_of_nat (length fragment + (if in_fragmented_record then length scratch else 0)))
                  (ascii ''unknown record type '' @ decimal (unat record_type)) r)))"

definition ReadRecord ::
    "'f SequentialFile \<Rightarrow> 'f log_Reader \<Rightarrow> (bytes option \<times> 'f log_Reader) option" where
  "ReadRecord ops r =
     (let (good, r) =
        (if lr_last_record_offset r < lr_initial_offset r then SkipToInitialBlock ops r else (True, r))
      in if good then ReadRecord_loop ops False 0 [] [] r else Some (None, r))"

text \<open>The loop of the clients, \<open>while (reader.ReadRecord(&record, &scratch))\<close>.\<close>

partial_function (option) ReadRecords ::
    "'f SequentialFile \<Rightarrow> 'f log_Reader \<Rightarrow> (bytes list \<times> 'f log_Reader) option" where
  "ReadRecords ops r =
     Option.bind (ReadRecord ops r) (\<lambda>(rec, r').
       case rec of
         None \<Rightarrow> Some ([], r')
       | Some record \<Rightarrow>
           Option.bind (ReadRecords ops r') (\<lambda>(records, r''). Some (record # records, r'')))"

end
