(* ===== verification/LogProofs.thy ===== *)
theory LogProofs
  imports LogReader
begin

section \<open>A reader recovers what a writer wrote\<close>

text \<open>
  \<open>reader_at r S bo\<close>: the reader still has the bytes \<open>S\<close> to read, starting at offset \<open>bo\<close> of a
  block. A complete physical record is returned (\<open>Read_phys\<close>), a truncated one ends the log
  without a report (\<open>Read_torn\<close>); the lemmas about \<open>ReadRecord_loop\<close> lift this to user records.
\<close>

lemma scast_and_ff: "(scast (b :: byte) :: u32) AND 0xff = ucast b"
proof -
  have f: "(0xff :: u32) = mask 8" by (simp add: mask_eq_exp_minus_1)
  show ?thesis unfolding f
  proof (rule bit_word_eqI)
    fix k assume "k < LENGTH(32)"
    show "bit ((scast b :: u32) AND mask 8) k = bit (ucast b :: u32) k"
    proof (cases "k < 8")
      case True
      then show ?thesis
      proof (cases "k = 7")
        case False
        with True \<open>k < LENGTH(32)\<close> show ?thesis by (auto simp: bit_simps min_def)
      qed (simp add: bit_simps)
    next
      case False
      then show ?thesis by (auto simp: bit_simps dest: bit_imp_le_length)
    qed
  qed
qed

lemma length_low_byte:
  assumes "n < 65536"
  shows "unat (((scast (word_of_nat n AND 0xff :: byte) :: u32) AND 0xff) OR
    push_bit 8 ((scast (word_of_nat (n div 256) :: byte) :: u32) AND 0xff)) = n"
proof -
  have f: "(0xff :: byte) = mask 8" by (simp add: mask_eq_exp_minus_1)
  have a: "x AND 0xff = x" for x :: byte
    unfolding f by (rule bit_word_eqI) (simp add: bit_simps)
  have "((ucast (word_of_nat n :: byte) :: u32) OR push_bit 8 (ucast (word_of_nat (n div 256) :: byte)))
    = word_of_nat n"
  proof (rule bit_word_eqI)
    fix k assume k: "k < LENGTH(32)"
    have d: "bit (n div 256) m = bit n (8 + m)" for m
      by (simp add: bit_iff_odd div_mult2_eq [symmetric] power_add)
    have h: "\<not> bit n m" if "16 \<le> m" for m
    proof -
      have "n < 2 ^ 16" using assms by simp
      also have "2 ^ 16 \<le> (2 :: nat) ^ m" using that by (rule power_increasing) simp
      finally show ?thesis by (simp add: bit_iff_odd)
    qed
    show "bit ((ucast (word_of_nat n :: byte) :: u32) OR
        push_bit 8 (ucast (word_of_nat (n div 256) :: byte))) k = bit (word_of_nat n :: u32) k"
      using k h [of k] d [of "k - 8"] by (cases "k < 8"; cases "k < 16") (auto simp: bit_simps)
  qed
  then show ?thesis using assms by (simp add: unat_of_nat_u32 scast_and_ff a)
qed

lemma append_split:
  assumes "S @ q = p @ t" "length p \<le> length S"
  shows "\<exists>S1. S = p @ S1 \<and> S1 @ q = t"
  using arg_cong [OF assms(1), of "take (length p)"] arg_cong [OF assms(1), of "drop (length p)"]
    assms(2) append_take_drop_id [of "length p" S]
  by (intro exI [of _ "drop (length p) S"]) (simp del: append_take_drop_id)

definition frag_ok :: "RecordType \<Rightarrow> bytes \<Rightarrow> nat \<Rightarrow> bool" where
  "frag_ok t d bo \<longleftrightarrow> t \<noteq> kZeroType \<and> next_offset bo + kHeaderSize + length d \<le> kBlockSize"

lemma phys_parts:
  assumes "length d < 65536"
  shows "phys t d ! 6 = record_type_byte t"
    "unat (((scast (phys t d ! 4) :: u32) AND 0xff) OR push_bit 8 ((scast (phys t d ! 5) :: u32) AND 0xff))
      = length d"
    "drop 6 (phys t d) = record_type_byte t # d"
    "DecodeFixed32 (phys t d) = crc32c_Mask (crc32c_Value (record_type_byte t # d))"
  using assms length_low_byte [OF assms]
  by (simp_all add: phys_def nth_append)

lemma scast_type: "scast (record_type_byte t) = (word_of_nat (record_type_nat t) :: u32)"
  by (cases t) (simp_all add: record_type_byte_def)

lemma type_words:
  "(word_of_nat (record_type_nat t) :: u32) = word_of_nat (record_type_nat u) \<longleftrightarrow> t = u"
  "(word_of_nat (record_type_nat t) :: u32) \<noteq> kEof" "(word_of_nat (record_type_nat t) :: u32) \<noteq> kBadRecord"
  "kEof \<noteq> (word_of_nat (record_type_nat t) :: u32)" "kBadRecord \<noteq> (word_of_nat (record_type_nat t) :: u32)"
  by (cases t; cases u; simp add: kEof_def kBadRecord_def kMaxRecordType_def)+

definition reader_at :: "('f \<Rightarrow> bytes) \<Rightarrow> ('f \<Rightarrow> bool) \<Rightarrow> 'f log_Reader \<Rightarrow> bytes \<Rightarrow> nat \<Rightarrow> bool" where
  "reader_at rest valid r S bo \<longleftrightarrow>
     valid (lr_file r) \<and> S = lr_buffer r @ rest (lr_file r) \<and> bo \<le> kBlockSize \<and>
     (if lr_eof r then rest (lr_file r) = [] \<and> length (lr_buffer r) \<le> kBlockSize - bo
      else length (lr_buffer r) = kBlockSize - bo) \<and>
     lr_initial_offset r = 0 \<and> \<not> lr_resyncing r"

lemma phys_header:
  assumes "length d < 65536" "length p \<ge> kHeaderSize" "\<exists>q. p @ q = phys t d @ q'"
  shows "p ! 6 = record_type_byte t"
    "unat (((scast (p ! 4) :: u32) AND 0xff) OR push_bit 8 ((scast (p ! 5) :: u32) AND 0xff)) = length d"
proof -
  from assms(3) obtain q where q: "p @ q = phys t d @ q'" ..
  have pn: "p ! n = phys t d ! n" if "n < 7" for n
    using arg_cong [OF q, of "\<lambda>l. l ! n"] that assms(2)
    by (simp add: nth_append kHeaderSize_def)
  show "p ! 6 = record_type_byte t"
    "unat (((scast (p ! 4) :: u32) AND 0xff) OR push_bit 8 ((scast (p ! 5) :: u32) AND 0xff)) = length d"
    using phys_parts(1,2) [OF assms(1), of t] by (simp_all add: pn)
qed

lemma Parse_phys:
  assumes "lr_buffer r = phys t d @ tail" "t \<noteq> kZeroType" "length d < 65536" "lr_initial_offset r = 0"
  shows "ParsePhysicalRecord res r =
    (word_of_nat (record_type_nat t), d, r\<lparr>lr_buffer := tail\<rparr>)"
proof -
  have h: "lr_buffer r ! 6 = record_type_byte t"
    "unat (((scast (lr_buffer r ! 4) :: u32) AND 0xff) OR push_bit 8 ((scast (lr_buffer r ! 5) :: u32) AND 0xff)) = length d"
    using phys_header [OF assms(3), of "lr_buffer r" t tail] assms(1) by (auto simp: kHeaderSize_def)
  have c: "take (1 + length d) (drop 6 (lr_buffer r)) = record_type_byte t # d"
    "crc32c_Unmask (DecodeFixed32 (lr_buffer r)) = crc32c_Value (record_type_byte t # d)"
    using assms(1) by (simp_all add: phys_def)
  have l: "drop (kHeaderSize + length d) (lr_buffer r) = tail"
    "kHeaderSize + length d \<le> length (lr_buffer r)"
    using assms(1) by simp_all
  have l': "take (length d) (drop kHeaderSize (lr_buffer r)) = d"
    using assms(1) by (simp add: phys_def kHeaderSize_def)
  show ?thesis
    using assms(2,4) l l'
    by (simp only: ParsePhysicalRecord_def Let_def h c scast_type type_words)
      simp
qed

lemma Parse_torn:
  assumes "lr_buffer r @ q = phys t d" "q \<noteq> []" "length d < 65536"
    "lr_eof r" "kHeaderSize \<le> length (lr_buffer r)"
  shows "ParsePhysicalRecord res r = (kEof, res, r\<lparr>lr_buffer := []\<rparr>)"
proof -
  have h: "unat (((scast (lr_buffer r ! 4) :: u32) AND 0xff) OR push_bit 8 ((scast (lr_buffer r ! 5) :: u32) AND 0xff)) = length d"
    using phys_header(2) [OF assms(3,5), of t "[]"] assms(1) by auto
  have "length (lr_buffer r) < kHeaderSize + length d"
    using assms(2) arg_cong [OF assms(1), of length] by (cases q) simp_all
  then show ?thesis
    using assms(4) by (simp only: ParsePhysicalRecord_def Let_def h) simp
qed

context sequential_file
begin

lemma Fill_at:
  assumes "reader_at rest valid r S bo" "\<not> lr_eof r"
  shows "\<exists>r'. FillBuffer ops r = (True, r') \<and> reader_at rest valid r' (drop (kBlockSize - bo) S) 0 \<and>
    lr_reports r' = lr_reports r"
proof -
  have v: "valid (lr_file r)" using assms(1) by (simp add: reader_at_def)
  from read [OF v, of kBlockSize] obtain f' where f':
    "sf_Read ops (lr_file r) kBlockSize = (OK, take kBlockSize (rest (lr_file r)), f')"
    "rest f' = drop kBlockSize (rest (lr_file r))" "valid f'" by blast
  with assms show ?thesis
    by (auto simp: FillBuffer_def reader_at_def Let_def not_less)
qed

lemma Read_phys:
  assumes "reader_at rest valid r (trailer bo @ phys t d @ S') bo" "frag_ok t d bo"
  shows "\<exists>r'. ReadPhysicalRecord ops res r = (word_of_nat (record_type_nat t), d, r') \<and>
    reader_at rest valid r' S' (next_offset bo + (kHeaderSize + length d)) \<and>
    lr_reports r' = lr_reports r"
proof -
  have ld: "length d < 65536" "t \<noteq> kZeroType"
    using assms(2) by (simp_all add: frag_ok_def kBlockSize_def kHeaderSize_def)
  have base: "\<exists>r'. ReadPhysicalRecord ops res r = (word_of_nat (record_type_nat t), d, r') \<and>
      reader_at rest valid r' S' (bo + (kHeaderSize + length d)) \<and> lr_reports r' = lr_reports r"
    if "reader_at rest valid r (phys t d @ S') bo" "bo + kHeaderSize + length d \<le> kBlockSize" for r bo
  proof -
    have len: "length (phys t d) \<le> length (lr_buffer r)"
    proof (cases "lr_eof r")
      case True
      then have "lr_buffer r = phys t d @ S'" using that(1) by (auto simp: reader_at_def)
      then show ?thesis by simp
    next
      case False
      then show ?thesis using that by (simp add: reader_at_def)
    qed
    have eq: "lr_buffer r @ rest (lr_file r) = phys t d @ S'"
      using that(1) by (simp add: reader_at_def)
    define tail where "tail = drop (length (phys t d)) (lr_buffer r)"
    have buf: "lr_buffer r = phys t d @ tail" and S': "S' = tail @ rest (lr_file r)"
      using arg_cong [OF eq, of "take (length (phys t d))"] arg_cong [OF eq, of "drop (length (phys t d))"]
        len append_take_drop_id [of "length (phys t d)" "lr_buffer r"]
      by (simp_all add: tail_def del: append_take_drop_id)
    have "ReadPhysicalRecord ops res r = ParsePhysicalRecord res r"
      using len by (subst ReadPhysicalRecord.simps) simp
    also have "\<dots> = (word_of_nat (record_type_nat t), d, r\<lparr>lr_buffer := tail\<rparr>)"
      using Parse_phys [OF buf ld(2,1)] that(1) by (simp add: reader_at_def)
    finally show ?thesis
      using that S' buf by (auto simp: reader_at_def)
  qed
  show ?thesis
  proof (cases "kBlockSize < bo + kHeaderSize")
    case False
    then show ?thesis using base [of r bo] assms
      by (simp add: trailer_def next_offset_def frag_ok_def)
  next
    case True
    have "\<not> lr_eof r"
    proof
      assume "lr_eof r"
      with assms(1) have "trailer bo @ phys t d @ S' = lr_buffer r" "length (lr_buffer r) \<le> kBlockSize - bo"
        by (simp_all add: reader_at_def)
      with arg_cong [OF this(1), of length] True show False
        by (simp add: trailer_def kHeaderSize_def)
    qed
    then obtain r' where r': "FillBuffer ops r = (True, r')" "lr_reports r' = lr_reports r"
      "reader_at rest valid r' (phys t d @ S') 0"
      using Fill_at [OF assms(1)] True by (auto simp: trailer_def)
    have "ReadPhysicalRecord ops res r = ReadPhysicalRecord ops res r'"
      using \<open>\<not> lr_eof r\<close> assms(1) True r'
      by (subst ReadPhysicalRecord.simps) (auto simp: reader_at_def)
    then show ?thesis
      using base [OF r'(3)] assms(2) True r'(2) by (simp add: next_offset_def frag_ok_def)
  qed
qed

lemma Read_torn:
  assumes "reader_at rest valid r S bo" "S @ q = trailer bo @ phys t d" "q \<noteq> []" "frag_ok t d bo"
  shows "\<exists>r'. ReadPhysicalRecord ops res r = (kEof, res, r') \<and> lr_reports r' = lr_reports r"
proof -
  have ld: "length d < 65536"
    using assms(4) by (simp add: frag_ok_def kBlockSize_def kHeaderSize_def)
  have base: "\<exists>r'. ReadPhysicalRecord ops res r = (kEof, res, r') \<and> lr_reports r' = lr_reports r"
    if "reader_at rest valid r S bo" "S @ q = phys t d" "bo + kHeaderSize + length d \<le> kBlockSize" for r bo S
  proof -
    have "length S < kHeaderSize + length d"
      using arg_cong [OF that(2), of length] assms(3) by (cases q) auto
    then have e: "lr_eof r" "lr_buffer r @ q = phys t d"
      using that by (auto simp: reader_at_def split: if_splits)
    then show ?thesis
      using Parse_torn [OF e(2) assms(3) ld e(1)]
      by (subst ReadPhysicalRecord.simps) (simp add: not_less)
  qed
  show ?thesis
  proof (cases "kBlockSize < bo + kHeaderSize")
    case False
    then show ?thesis using base [of r S bo] assms
      by (simp add: trailer_def next_offset_def frag_ok_def)
  next
    case True
    show ?thesis
    proof (cases "lr_eof r")
      case True
      with assms(1) \<open>kBlockSize < bo + kHeaderSize\<close> show ?thesis
        by (subst ReadPhysicalRecord.simps) (auto simp: reader_at_def)
    next
      case False
      have "length (trailer bo) \<le> length S"
        using assms(1) True False by (simp add: reader_at_def trailer_def)
      then have "drop (kBlockSize - bo) S @ q = phys t d"
        using arg_cong [OF assms(2), of "drop (kBlockSize - bo)"] True by (simp add: trailer_def)
      moreover obtain r' where r': "FillBuffer ops r = (True, r')" "lr_reports r' = lr_reports r"
        "reader_at rest valid r' (drop (kBlockSize - bo) S) 0"
        using Fill_at [OF assms(1) False] by auto
      moreover have "ReadPhysicalRecord ops res r = ReadPhysicalRecord ops res r'"
        using False assms(1) True r'
        by (subst ReadPhysicalRecord.simps) (auto simp: reader_at_def)
      ultimately show ?thesis
        using base [OF r'(3)] assms(4) True by (simp add: next_offset_def frag_ok_def)
    qed
  qed
qed

lemma loop_record:
  assumes "reader_at rest valid r (fst (image_loop b left bo) @ S') bo" "b \<longrightarrow> acc = []"
  shows "\<exists>r'. ReadRecord_loop ops (\<not> b) pr acc frag r = Some (Some (acc @ left), r') \<and>
    reader_at rest valid r' S' (snd (image_loop b left bo)) \<and> lr_reports r' = lr_reports r"
  using assms
proof (induction b left bo arbitrary: acc frag r pr rule: image_loop.induct)
  case (1 b left bo)
  define fl where "fl = min (length left) (kBlockSize - next_offset bo - kHeaderSize)"
  define t where "t = fragment_type b (length left = fl)"
  define tl where "tl = (if drop fl left = [] then []
    else fst (image_loop False (drop fl left) (next_offset bo + (kHeaderSize + fl))))"
  have img: "fst (image_loop b left bo) = trailer bo @ phys t (take fl left) @ tl"
    by (subst image_loop.simps) (simp add: Let_def fl_def t_def tl_def case_prod_beta)
  have fl: "fl \<le> length left" "length (take fl left) = fl" by (simp_all add: fl_def)
  have "next_offset bo + kHeaderSize \<le> kBlockSize"
    by (simp add: next_offset_def kHeaderSize_def kBlockSize_def)
  then have ok: "frag_ok t (take fl left) bo"
    unfolding frag_ok_def fl(2) by (auto simp: t_def fragment_type_def fl_def)
  from "1.prems"(1) obtain r1 where r1:
    "ReadPhysicalRecord ops frag r = (word_of_nat (record_type_nat t), take fl left, r1)"
    "reader_at rest valid r1 (tl @ S') (next_offset bo + (kHeaderSize + fl))"
    "lr_reports r1 = lr_reports r"
    using Read_phys [OF _ ok, of r "tl @ S'" frag] fl(2) by (auto simp: img)
  have nr: "r1\<lparr>lr_resyncing := False\<rparr> = r1" "\<not> lr_resyncing r1"
    using r1(2) by (simp_all add: reader_at_def)
  have last: "reader_at rest valid (r1\<lparr>lr_resyncing := False, lr_last_record_offset := x\<rparr>) S n \<longleftrightarrow>
      reader_at rest valid r1 S n" for x S n
    using r1(2)
    by (simp add: reader_at_def)
  show ?case
  proof (cases "drop fl left = []")
    case True
    then have "snd (image_loop b left bo) = next_offset bo + (kHeaderSize + fl)" "tl = []"
      "take fl left = left" "t = (if b then kFullType else kLastType)"
      using fl by (subst image_loop.simps, auto simp: Let_def fl_def tl_def t_def fragment_type_def)
    then show ?thesis
      using r1 "1.prems"(2) last nr(2)
      by (subst ReadRecord_loop.simps) (simp add: type_words del: record_type_nat.simps)
  next
    case False
    then have step: "snd (image_loop b left bo) = snd (image_loop False (drop fl left) (next_offset bo + (kHeaderSize + fl)))"
      "tl = fst (image_loop False (drop fl left) (next_offset bo + (kHeaderSize + fl)))"
      "t = (if b then kFirstType else kMiddleType)"
      by (subst image_loop.simps, auto simp: Let_def fl_def tl_def t_def fragment_type_def case_prod_beta)
    have "\<exists>r'. ReadRecord_loop ops True pr' (acc @ take fl left) (take fl left) r1 =
        Some (Some ((acc @ take fl left) @ drop fl left), r') \<and>
      reader_at rest valid r' S' (snd (image_loop b left bo)) \<and> lr_reports r' = lr_reports r1" for pr'
      using "1.IH" [OF refl refl refl refl, of r1 "acc @ take fl left" pr' "take fl left"] r1(2) False step(1,2)
      by (simp add: fl_def)
    then show ?thesis
      using r1 "1.prems"(2) step nr(2)
      by (subst ReadRecord_loop.simps) (auto simp: type_words nr(1) simp del: record_type_nat.simps)
  qed
qed

lemma loop_torn:
  assumes "reader_at rest valid r S bo" "S @ q = fst (image_loop b left bo)" "q \<noteq> []"
  shows "\<exists>r'. ReadRecord_loop ops (\<not> b) pr acc frag r = Some (None, r') \<and> lr_reports r' = lr_reports r"
  using assms
proof (induction b left bo arbitrary: acc frag r pr S rule: image_loop.induct)
  case (1 b left bo)
  define fl where "fl = min (length left) (kBlockSize - next_offset bo - kHeaderSize)"
  define t where "t = fragment_type b (length left = fl)"
  define tl where "tl = (if drop fl left = [] then []
    else fst (image_loop False (drop fl left) (next_offset bo + (kHeaderSize + fl))))"
  define ph where "ph = trailer bo @ phys t (take fl left)"
  have img: "fst (image_loop b left bo) = ph @ tl"
    by (subst image_loop.simps) (simp add: Let_def fl_def t_def tl_def ph_def case_prod_beta)
  have fl: "fl \<le> length left" "length (take fl left) = fl" by (simp_all add: fl_def)
  have "next_offset bo + kHeaderSize \<le> kBlockSize"
    by (simp add: next_offset_def kHeaderSize_def kBlockSize_def)
  then have ok: "frag_ok t (take fl left) bo"
    unfolding frag_ok_def fl(2) by (auto simp: t_def fragment_type_def fl_def)
  show ?case
  proof (cases "length S < length ph")
    case True
    then have "S @ take (length ph - length S) q = ph" "take (length ph - length S) q \<noteq> []"
      using arg_cong [OF "1.prems"(2), of "take (length ph)"] "1.prems"(3) by (simp_all add: img)
    then obtain r' where "ReadPhysicalRecord ops frag r = (kEof, frag, r')" "lr_reports r' = lr_reports r"
      using Read_torn [OF "1.prems"(1) _ _ ok] by (metis ph_def)
    then show ?thesis
      by (subst ReadRecord_loop.simps) (simp add: type_words del: record_type_nat.simps)
  next
    case False
    then obtain S1 where S1: "S = ph @ S1" "S1 @ q = tl"
      using append_split "1.prems"(2) by (metis img not_less)
    obtain r1 where r1:
      "ReadPhysicalRecord ops frag r = (word_of_nat (record_type_nat t), take fl left, r1)"
      "reader_at rest valid r1 S1 (next_offset bo + (kHeaderSize + fl))"
      "lr_reports r1 = lr_reports r"
      using Read_phys [OF _ ok, of r S1 frag] fl(2) "1.prems"(1) by (auto simp: S1 ph_def)
    have nr: "r1\<lparr>lr_resyncing := False\<rparr> = r1" "\<not> lr_resyncing r1"
      using r1(2) by (simp_all add: reader_at_def)
    have d: "drop fl left \<noteq> []" using S1 "1.prems"(3) by (auto simp: tl_def split: if_splits)
    then have step: "S1 @ q = fst (image_loop False (drop fl left) (next_offset bo + (kHeaderSize + fl)))"
      "t = (if b then kFirstType else kMiddleType)"
      using S1 by (auto simp: fl_def tl_def t_def fragment_type_def)
    have "\<exists>r'. ReadRecord_loop ops True pr' acc' frag' r1 = Some (None, r') \<and> lr_reports r' = lr_reports r1"
      for pr' acc' frag'
      using "1.IH" [OF refl refl refl refl, of r1 S1 pr' acc' frag'] r1(2) d step(1) "1.prems"(3)
      by (simp add: fl_def)
    then show ?thesis
      using r1 step nr(2)
      by (subst ReadRecord_loop.simps) (auto simp: type_words nr(1) simp del: record_type_nat.simps)
  qed
qed

lemma ReadRecord_at:
  "reader_at rest valid r S bo \<Longrightarrow> ReadRecord ops r = ReadRecord_loop ops False 0 [] [] r"
  by (simp add: ReadRecord_def reader_at_def)

text \<open>One call of \<open>ReadRecord\<close> at the end of the image, and on a record that is there or torn.\<close>

lemma ReadRecord_end:
  assumes "reader_at rest valid r [] bo"
  shows "\<exists>r'. ReadRecord ops r = Some (None, r') \<and> lr_reports r' = lr_reports r"
proof -
  have "\<exists>r'. ReadPhysicalRecord ops [] r = (kEof, [], r') \<and> lr_reports r' = lr_reports r"
  proof (cases "kBlockSize < bo + kHeaderSize \<and> \<not> lr_eof r")
    case True
    then obtain r' where "FillBuffer ops r = (True, r')" "lr_reports r' = lr_reports r"
      "reader_at rest valid r' [] 0"
      using Fill_at [OF assms] by auto
    moreover from this have "lr_eof r'" "lr_buffer r' = []"
      by (auto simp: reader_at_def kBlockSize_def split: if_splits)
    ultimately show ?thesis using True assms
      by (subst ReadPhysicalRecord.simps, subst ReadPhysicalRecord.simps)
        (auto simp: reader_at_def kHeaderSize_def)
  next
    case False
    then show ?thesis using assms
      by (subst ReadPhysicalRecord.simps)
        (auto simp: reader_at_def kHeaderSize_def kBlockSize_def split: if_splits)
  qed
  then obtain r' where r': "ReadPhysicalRecord ops [] r = (kEof, [], r')" "lr_reports r' = lr_reports r"
    by blast
  have "\<exists>r'. ReadRecord_loop ops False 0 [] [] r = Some (None, r') \<and> lr_reports r' = lr_reports r"
    using r' by (subst ReadRecord_loop.simps) (simp add: type_words del: record_type_nat.simps)
  then show ?thesis using ReadRecord_at [OF assms] by simp
qed

lemma ReadRecord_image:
  assumes "reader_at rest valid r S bo" "S @ q = fst (log_image (x # rs) bo)"
  defines "p \<equiv> image_loop True x bo"
  shows "if length S < length (fst p) then \<exists>r'. ReadRecord ops r = Some (None, r') \<and> lr_reports r' = lr_reports r
    else \<exists>S' r'. S = fst p @ S' \<and> S' @ q = fst (log_image rs (snd p)) \<and> ReadRecord ops r = Some (Some x, r') \<and>
      reader_at rest valid r' S' (snd p) \<and> lr_reports r' = lr_reports r"
proof -
  have img: "fst (log_image (x # rs) bo) = fst p @ fst (log_image rs (snd p))"
    by (simp add: case_prod_beta Let_def p_def)
  show ?thesis
  proof (cases "length S < length (fst p)")
    case True
    have "S @ drop (length S) (fst p) = fst p"
      using arg_cong [OF assms(2), of "take (length S)"] True append_take_drop_id [of "length S" "fst p"]
      unfolding img by (simp del: append_take_drop_id)
    then show ?thesis
      using loop_torn [OF assms(1), of "drop (length S) (fst p)" True x 0 "[]" "[]"] ReadRecord_at [OF assms(1)] True
      by (simp add: p_def)
  next
    case False
    then obtain S' where S': "S = fst p @ S'" "S' @ q = fst (log_image rs (snd p))"
      using append_split assms(2) by (metis img not_less)
    then show ?thesis
      using loop_record [of r True x bo S' "[]" 0 "[]"] assms(1) ReadRecord_at [OF assms(1)] False
      by (auto simp: p_def)
  qed
qed

lemma ReadRecords_image:
  assumes "reader_at rest valid r S bo" "S @ q = fst (log_image rs bo)"
  shows "\<exists>k r'. ReadRecords ops r = Some (take k rs, r') \<and> lr_reports r' = lr_reports r \<and> k \<le> length rs \<and>
    length (fst (log_image (take k rs) bo)) \<le> length S \<and>
    (k < length rs \<longrightarrow> length S < length (fst (log_image (take (Suc k) rs) bo)))"
  using assms
proof (induction rs arbitrary: r S bo)
  case Nil
  then show ?case using ReadRecord_end [of r bo] by (subst ReadRecords.simps) auto
next
  case (Cons x rs)
  let ?p = "fst (image_loop True x bo)" and ?bo = "snd (image_loop True x bo)"
  have img: "fst (log_image (take (Suc k) (x # rs)) bo) = ?p @ fst (log_image (take k rs) ?bo)" for k
    by (simp add: case_prod_beta Let_def)
  note R = ReadRecord_image [OF Cons.prems]
  show ?case
  proof (cases "length S < length ?p")
    case True
    then obtain r' where "ReadRecord ops r = Some (None, r')" "lr_reports r' = lr_reports r" using R by auto
    then have "ReadRecords ops r = Some ([], r') \<and> lr_reports r' = lr_reports r" by (subst ReadRecords.simps) simp
    then show ?thesis using True img [of 0]
      by (intro exI [of _ 0]) simp
  next
    case False
    then obtain S1 r1 where r1: "S = ?p @ S1" "S1 @ q = fst (log_image rs ?bo)" "ReadRecord ops r = Some (Some x, r1)"
      "reader_at rest valid r1 S1 ?bo" "lr_reports r1 = lr_reports r"
      using R by auto
    from Cons.IH [OF r1(4,2)] obtain k r' where k:
      "ReadRecords ops r1 = Some (take k rs, r')" "lr_reports r' = lr_reports r1" "k \<le> length rs"
      "length (fst (log_image (take k rs) ?bo)) \<le> length S1"
      "k < length rs \<longrightarrow> length S1 < length (fst (log_image (take (Suc k) rs) ?bo))" by blast
    have "ReadRecords ops r = Some (take (Suc k) (x # rs), r')"
      using r1(3) k(1) by (subst ReadRecords.simps) simp
    then show ?thesis using k r1(1,5) img [of k] img [of "Suc k"]
      by (intro exI [of _ "Suc k"] exI [of _ r']) simp
  qed
qed

text \<open>Reading keeps the file valid.\<close>

lemma FillBuffer_valid: "valid (lr_file r) \<Longrightarrow> valid (lr_file (snd (FillBuffer ops r)))"
  using read_simps [of "lr_file r" kBlockSize]
  by (simp add: FillBuffer_def Let_def case_prod_beta)

lemma ReportDrop_file [simp]: "lr_file (ReportDrop n s r) = lr_file r" "lr_file (ReportCorruption n m r) = lr_file r"
  by (simp_all add: ReportDrop_def ReportCorruption_def split: option.split)

lemma ParsePhysicalRecord_file: "lr_file (snd (snd (ParsePhysicalRecord res r))) = lr_file r"
  by (simp add: ParsePhysicalRecord_def Let_def)

lemma ReadPhysicalRecord_valid:
  "valid (lr_file r) \<Longrightarrow> valid (lr_file (snd (snd (ReadPhysicalRecord ops res r))))"
proof -
  have "ops' = ops \<Longrightarrow> valid (lr_file r) \<Longrightarrow> valid (lr_file (snd (snd (ReadPhysicalRecord ops' res r))))" for ops'
  proof (induction ops' res r rule: ReadPhysicalRecord.induct)
    case (1 ops' res r)
    then show ?case using FillBuffer_valid [OF "1.prems"(2)]
      by (subst ReadPhysicalRecord.simps) (auto simp: ParsePhysicalRecord_file split: prod.split)
  qed
  then show "valid (lr_file r) \<Longrightarrow> valid (lr_file (snd (snd (ReadPhysicalRecord ops res r))))" by blast
qed

lemma ReadRecord_valid:
  assumes "valid (lr_file r)" "ReadRecord ops r = Some (x, r')"
  shows "valid (lr_file r')"
proof -
  define P where "P ops' i p s g r y \<longleftrightarrow> (ops' = ops \<longrightarrow> valid (lr_file r) \<longrightarrow> valid (lr_file (snd y)))"
    for ops' and i :: bool and p :: u64 and s g :: bytes and r :: "'f log_Reader" and y :: "bytes option \<times> 'f log_Reader"
  have loop: "P ops i p s g r y" if "ReadRecord_loop ops i p s g r = Some y" for i p s g r y
  proof (rule ReadRecord_loop.raw_induct [where P = P, OF _ that], goal_cases)
    case (1 loop ops' i p s g r y)
    show ?case
      unfolding P_def
    proof (intro impI)
      assume v: "ops' = ops" "valid (lr_file r)"
      obtain t g1 r1 where r1: "ReadPhysicalRecord ops g r = (t, g1, r1)" by (metis prod_cases3)
      then have v1: "valid (lr_file r1)" using ReadPhysicalRecord_valid [OF v(2), of g] by simp
      have ih: "valid (lr_file r2) \<Longrightarrow> loop ops i p s g r2 = Some y \<Longrightarrow> valid (lr_file (snd y))" for i p s g r2 y
        using 1(1) [of ops i p s g r2 y] by (simp add: P_def)
      show "valid (lr_file (snd y))"
        using 1(2) v1 unfolding v(1) r1 by (auto simp: Let_def split: if_splits elim!: ih [rotated])
    qed
  qed
  have "valid (snd (sf_Skip ops (lr_file r) n))" for n using skip [OF assms(1), of n] by auto
  then have "valid (lr_file (snd (SkipToInitialBlock ops r)))"
    using assms(1) by (auto simp: SkipToInitialBlock_def Let_def case_prod_beta)
  then show ?thesis
    using assms loop by (auto simp: ReadRecord_def P_def split: if_splits prod.splits)
qed

end

end
