(* ===== verification/MemEnv.thy ===== *)
theory MemEnv
  imports Files StdMap Filename "HOL-Library.Multiset"
begin

section \<open>The in-memory environment (\<^verbatim>\<open>helpers/memenv/memenv.cc\<close>)\<close>

text \<open>
  A \<open>FileState\<close> keeps its bytes in blocks of 8 KiB; a fresh block is modelled as zeros (the code
  leaves it uninitialised, and no read returns those bytes). \<open>InMemoryEnv\<close> has a heap of file
  states and the map from names to their addresses, \<open>None\<close> being a null pointer. The file
  objects are the address with, for a sequential file, the position; their methods act on the
  environment. Locks are left out: every method is one atomic step.
\<close>

subsection \<open>File states\<close>

record FileState =
  fs_refs :: int
  fs_blocks :: "bytes list"
  fs_size :: nat

definition kMemBlockSize :: nat where "kMemBlockSize = 8 * 1024"

definition FileState_new :: FileState where
  "FileState_new = \<lparr>fs_refs = 0, fs_blocks = [], fs_size = 0\<rparr>"

definition FileState_Ref :: "FileState \<Rightarrow> FileState" where
  "FileState_Ref fs = fs\<lparr>fs_refs := fs_refs fs + 1\<rparr>"

text \<open>\<open>None\<close>: the last reference is gone and the object is deleted.\<close>

definition FileState_Unref :: "FileState \<Rightarrow> FileState option" where
  "FileState_Unref fs =
     (let refs = fs_refs fs - 1 in if refs \<le> 0 then None else Some (fs\<lparr>fs_refs := refs\<rparr>))"

definition FileState_Truncate :: "FileState \<Rightarrow> FileState" where
  "FileState_Truncate fs = fs\<lparr>fs_blocks := [], fs_size := 0\<rparr>"

function FileState_copy_loop :: "bytes list \<Rightarrow> nat \<Rightarrow> nat \<Rightarrow> nat \<Rightarrow> bytes" where
  "FileState_copy_loop blocks block block_offset bytes_to_copy =
     (if 0 < bytes_to_copy \<and> block_offset < kMemBlockSize then
        (let avail = kMemBlockSize - block_offset;
             avail = (if bytes_to_copy < avail then bytes_to_copy else avail)
         in take avail (drop block_offset (blocks ! block)) @
            FileState_copy_loop blocks (block + 1) 0 (bytes_to_copy - avail))
      else [])"
  by pat_completeness auto
termination
  by (relation "measure (\<lambda>(bs, b, off, n). n)") auto

declare FileState_copy_loop.simps [simp del]

definition FileState_Read :: "FileState \<Rightarrow> nat \<Rightarrow> nat \<Rightarrow> Status \<times> bytes" where
  "FileState_Read fs offset n =
     (if fs_size fs < offset
      then (IOError (ascii ''Offset greater than file size.'') [], [])
      else
        (let available = fs_size fs - offset;
             n = (if available < n then available else n)
         in if n = 0 then (OK, [])
            else (OK, FileState_copy_loop (fs_blocks fs) (offset div kMemBlockSize)
                        (offset mod kMemBlockSize) n)))"

definition memcpy_at :: "bytes \<Rightarrow> nat \<Rightarrow> bytes \<Rightarrow> bytes" where
  "memcpy_at dst off src = take off dst @ src @ drop (off + length src) dst"

function FileState_append_loop :: "bytes \<Rightarrow> FileState \<Rightarrow> FileState" where
  "FileState_append_loop src fs =
     (if src = [] then fs
      else
        (let offset = fs_size fs mod kMemBlockSize;
             avail = (if offset \<noteq> 0 then kMemBlockSize - offset else kMemBlockSize);
             blocks = (if offset \<noteq> 0 then fs_blocks fs
                       else fs_blocks fs @ [replicate kMemBlockSize 0]);
             avail = (if length src < avail then length src else avail)
         in FileState_append_loop (drop avail src)
              (fs\<lparr>fs_blocks := butlast blocks @ [memcpy_at (last blocks) offset (take avail src)],
                  fs_size := fs_size fs + avail\<rparr>)))"
  by pat_completeness auto
termination
  by (relation "measure (\<lambda>(src, fs). length src)") (auto simp: kMemBlockSize_def)

declare FileState_append_loop.simps [simp del]

definition FileState_Append :: "FileState \<Rightarrow> bytes \<Rightarrow> Status \<times> FileState" where
  "FileState_Append fs data = (OK, FileState_append_loop data fs)"

subsection \<open>Contents of a file state\<close>

definition fs_contents :: "FileState \<Rightarrow> bytes" where
  "fs_contents fs = take (fs_size fs) (concat (fs_blocks fs))"

definition fs_ok :: "FileState \<Rightarrow> bool" where
  "fs_ok fs \<longleftrightarrow> (\<forall>b \<in> set (fs_blocks fs). length b = kMemBlockSize) \<and>
     length (fs_blocks fs) = (fs_size fs + kMemBlockSize - 1) div kMemBlockSize"

lemma length_concat_blocks:
  "\<forall>b \<in> set bs. length b = n \<Longrightarrow> length (concat bs) = length bs * n"
  by (induction bs) auto

lemma drop_concat_blocks:
  assumes "\<forall>b \<in> set bs. length b = n" "i < length bs" "off < n"
  shows "drop (i * n + off) (concat bs) = drop off (bs ! i) @ concat (drop (Suc i) bs)"
  using assms
proof (induction bs arbitrary: i)
  case (Cons b bs)
  then show ?case by (cases i) auto
qed simp

lemma FileState_copy_loop_correct:
  assumes "\<forall>b \<in> set bs. length b = kMemBlockSize" "off < kMemBlockSize"
    "i * kMemBlockSize + off + n \<le> length bs * kMemBlockSize"
  shows "FileState_copy_loop bs i off n = take n (drop (i * kMemBlockSize + off) (concat bs))"
  using assms(2,3)
proof (induction n arbitrary: i off rule: less_induct)
  case (less n)
  show ?case
  proof (cases "n = 0")
    case True
    then show ?thesis by (simp add: FileState_copy_loop.simps)
  next
    case False
    define av where "av = min n (kMemBlockSize - off)"
    have i: "i < length bs"
    proof (rule ccontr)
      assume "\<not> i < length bs"
      then have "length bs * kMemBlockSize \<le> i * kMemBlockSize" by simp
      with less.prems False show False by linarith
    qed
    have rec: "FileState_copy_loop bs i off n =
        take av (drop off (bs ! i)) @ FileState_copy_loop bs (i + 1) 0 (n - av)"
      using False less.prems
      by (subst FileState_copy_loop.simps) (simp add: Let_def av_def min_def not_less)
    have len: "length (bs ! i) = kMemBlockSize" using assms(1) i by simp
    have split: "drop (i * kMemBlockSize + off) (concat bs) =
        drop off (bs ! i) @ drop (Suc i * kMemBlockSize) (concat bs)"
    proof (cases "Suc i < length bs")
      case True
      with drop_concat_blocks [OF assms(1) True, of 0] drop_concat_blocks [OF assms(1) i less.prems(1)]
      show ?thesis using less.prems(1)
        by (simp add: Cons_nth_drop_Suc [symmetric] flip: concat.simps(2))
    next
      case False
      then have "drop (Suc i) bs = []" "drop (Suc i * kMemBlockSize) (concat bs) = []"
        using i length_concat_blocks [OF assms(1)] by (simp_all add: not_less Suc_leI)
          (metis Suc_leI le_antisym mult_Suc nat_le_linear order.refl)
      with drop_concat_blocks [OF assms(1) i less.prems(1)] show ?thesis by simp
    qed
    have tl: "FileState_copy_loop bs (i + 1) 0 (n - av) =
        take (n - av) (drop (Suc i * kMemBlockSize) (concat bs))"
    proof (cases "n - av = 0")
      case True
      then show ?thesis by (simp add: FileState_copy_loop.simps)
    next
      case F: False
      then have "av = kMemBlockSize - off" "av > 0" using less.prems(1) by (simp_all add: av_def min_def split: if_splits)
      with less.prems F less.IH [of "n - av" 0 "i + 1"] False show ?thesis
        by (simp add: kMemBlockSize_def)
    qed
    show ?thesis
      unfolding rec tl split using len less.prems(1)
      by (simp add: av_def min_def)
  qed
qed

lemma fs_size_le:
  assumes "fs_ok fs"
  shows "fs_size fs \<le> length (fs_blocks fs) * kMemBlockSize"
    "length (concat (fs_blocks fs)) = length (fs_blocks fs) * kMemBlockSize"
  using assms length_concat_blocks [of "fs_blocks fs" kMemBlockSize]
  by (auto simp: fs_ok_def kMemBlockSize_def)

lemma length_fs_contents [simp]: "fs_ok fs \<Longrightarrow> length (fs_contents fs) = fs_size fs"
  using fs_size_le [of fs] by (simp add: fs_contents_def)

lemma FileState_Read_contents:
  assumes "fs_ok fs" "off \<le> fs_size fs"
  shows "FileState_Read fs off n = (OK, take n (drop off (fs_contents fs)))"
proof -
  define m where "m = min n (fs_size fs - off)"
  have "FileState_copy_loop (fs_blocks fs) (off div kMemBlockSize) (off mod kMemBlockSize) m =
      take m (drop off (concat (fs_blocks fs)))"
    using FileState_copy_loop_correct [of "fs_blocks fs" "off mod kMemBlockSize" "off div kMemBlockSize" m]
      assms fs_size_le(1) [OF assms(1)]
    by (simp add: m_def fs_ok_def kMemBlockSize_def)
  moreover have "take m (drop off (concat (fs_blocks fs))) = take n (drop off (fs_contents fs))"
    by (simp add: m_def fs_contents_def drop_take min.commute)
  ultimately show ?thesis
    using assms(2) by (auto simp: FileState_Read_def Let_def m_def min_def not_less split: if_splits)
qed

lemma length_memcpy_at: "off + length src \<le> length dst \<Longrightarrow> length (memcpy_at dst off src) = length dst"
  by (simp add: memcpy_at_def)

lemma block_count_add:
  assumes "0 < av" "(n :: nat) mod kMemBlockSize + av \<le> kMemBlockSize"
  shows "(n + av + kMemBlockSize - Suc 0) div kMemBlockSize = n div kMemBlockSize + 1"
proof (rule div_nat_eqI)
  have n: "kMemBlockSize * (n div kMemBlockSize) + n mod kMemBlockSize = n" by simp
  show "kMemBlockSize * (n div kMemBlockSize + 1) \<le> n + av + kMemBlockSize - Suc 0"
    using n assms unfolding add_mult_distrib2 by linarith
  show "n + av + kMemBlockSize - Suc 0 < kMemBlockSize * Suc (n div kMemBlockSize + 1)"
    using n assms unfolding mult_Suc_right add_mult_distrib2 by linarith
qed

lemma block_count:
  "((n :: nat) + kMemBlockSize - Suc 0) div kMemBlockSize =
     (if n mod kMemBlockSize = 0 then n div kMemBlockSize else n div kMemBlockSize + 1)"
proof (cases "n mod kMemBlockSize = 0")
  case True
  have "kMemBlockSize * (n div kMemBlockSize) = n"
    using mult_div_mod_eq [of kMemBlockSize n] True by linarith
  then have "(n + kMemBlockSize - Suc 0) div kMemBlockSize = n div kMemBlockSize"
    by (intro div_nat_eqI) (simp_all add: kMemBlockSize_def)
  with True show ?thesis by simp
next
  case False
  have n: "kMemBlockSize * (n div kMemBlockSize) + n mod kMemBlockSize = n" by simp
  have l: "n mod kMemBlockSize < kMemBlockSize" by (simp add: kMemBlockSize_def)
  have "(n + kMemBlockSize - Suc 0) div kMemBlockSize = n div kMemBlockSize + 1"
    using n l False by (intro div_nat_eqI; unfold mult_Suc_right add_mult_distrib2) linarith+
  with False show ?thesis by simp
qed

lemma append_step:
  assumes "fs_ok fs" "src \<noteq> []"
  defines "off \<equiv> fs_size fs mod kMemBlockSize"
  defines "blocks \<equiv> (if off \<noteq> 0 then fs_blocks fs else fs_blocks fs @ [replicate kMemBlockSize 0])"
  defines "av \<equiv> min (length src) (kMemBlockSize - off)"
  defines "fs' \<equiv> fs\<lparr>fs_blocks := butlast blocks @ [memcpy_at (last blocks) off (take av src)],
                  fs_size := fs_size fs + av\<rparr>"
  shows "fs_ok fs' \<and> fs_contents fs' = fs_contents fs @ take av src \<and> fs_refs fs' = fs_refs fs"
proof -
  have pos: "off < kMemBlockSize" by (simp add: off_def kMemBlockSize_def)
  have ne: "blocks \<noteq> []"
    using assms(1) by (auto simp: blocks_def fs_ok_def off_def block_count)
  have all: "\<forall>b \<in> set blocks. length b = kMemBlockSize"
    using assms(1) by (auto simp: blocks_def fs_ok_def)
  have len: "length blocks = fs_size fs div kMemBlockSize + 1"
    using assms(1) by (simp add: blocks_def fs_ok_def off_def block_count)
  have lb: "length (last blocks) = kMemBlockSize" using all ne by simp
  have av: "0 < av" "off + av \<le> kMemBlockSize" "av \<le> length src"
    using pos assms(2) by (auto simp: av_def)
  have size: "fs_size fs = (length blocks - 1) * kMemBlockSize + off"
    unfolding len off_def by simp
  have bl: "\<forall>b \<in> set (butlast blocks). length b = kMemBlockSize" using all by (auto dest: in_set_butlastD)
  have ok': "fs_ok fs'"
  proof -
    have "(fs_size fs + av + kMemBlockSize - 1) div kMemBlockSize = length blocks"
      using block_count_add av(1,2) len unfolding off_def by simp
    then show ?thesis
      using bl ne lb av by (auto simp: fs_ok_def fs'_def length_memcpy_at)
  qed
  have cb: "concat blocks = concat (butlast blocks) @ last blocks"
    using ne by (metis append_butlast_last_id concat.simps concat_append append_Nil2)
  have old: "fs_contents fs = concat (butlast blocks) @ take off (last blocks)"
  proof -
    have "fs_contents fs = take (fs_size fs) (concat blocks)"
      using fs_size_le [OF assms(1)] by (simp add: fs_contents_def blocks_def)
    then show ?thesis
      using length_concat_blocks [OF bl] unfolding cb size by simp
  qed
  have "fs_contents fs' = concat (butlast blocks) @ take (off + av) (memcpy_at (last blocks) off (take av src))"
    using length_concat_blocks [OF bl] by (simp add: fs_contents_def fs'_def size)
  also have "take (off + av) (memcpy_at (last blocks) off (take av src)) = take off (last blocks) @ take av src"
    using lb av pos by (simp add: memcpy_at_def)
  finally show ?thesis using ok' old by (simp add: fs'_def)
qed

lemma FileState_append_loop_correct:
  assumes "fs_ok fs"
  shows "fs_ok (FileState_append_loop src fs) \<and>
    fs_contents (FileState_append_loop src fs) = fs_contents fs @ src \<and>
    fs_refs (FileState_append_loop src fs) = fs_refs fs"
  using assms
proof (induction src fs rule: FileState_append_loop.induct)
  case (1 src fs)
  show ?case
  proof (cases "src = []")
    case True
    with "1.prems" show ?thesis by (simp add: FileState_append_loop.simps)
  next
    case False
    define off where "off = fs_size fs mod kMemBlockSize"
    define blocks where "blocks = (if off \<noteq> 0 then fs_blocks fs else fs_blocks fs @ [replicate kMemBlockSize 0])"
    define av where "av = min (length src) (kMemBlockSize - off)"
    define fs' where "fs' = fs\<lparr>fs_blocks := butlast blocks @ [memcpy_at (last blocks) off (take av src)],
                  fs_size := fs_size fs + av\<rparr>"
    have s: "fs_ok fs' \<and> fs_contents fs' = fs_contents fs @ take av src \<and> fs_refs fs' = fs_refs fs"
      using append_step [OF "1.prems" False] by (simp add: off_def blocks_def av_def fs'_def)
    have av2: "(if length src < (if off \<noteq> 0 then kMemBlockSize - off else kMemBlockSize) then length src
      else (if off \<noteq> 0 then kMemBlockSize - off else kMemBlockSize)) = av"
      by (simp add: av_def min_def)
    have step: "FileState_append_loop src fs = FileState_append_loop (drop av src) fs'"
      using False by (subst FileState_append_loop.simps)
        (simp only: Let_def off_def [symmetric] blocks_def [symmetric] av2 fs'_def if_False)
    have "fs_ok (FileState_append_loop (drop av src) fs') \<and>
      fs_contents (FileState_append_loop (drop av src) fs') = fs_contents fs' @ drop av src \<and>
      fs_refs (FileState_append_loop (drop av src) fs') = fs_refs fs'"
      using "1.IH" [OF False off_def refl blocks_def av2 [symmetric]] s unfolding fs'_def by blast
    then show ?thesis using s step by simp
  qed
qed

subsection \<open>The environment and its file objects\<close>

type_synonym ptr = "nat option"

record InMemoryEnv =
  file_states :: "nat \<Rightarrow> FileState option"
  file_map :: "(bytes, ptr) std_map"
  next_addr :: nat
  segfault :: bool

definition NewMemEnv :: InMemoryEnv where
  "NewMemEnv = \<lparr>file_states = (\<lambda>_. None), file_map = [], next_addr = 0, segfault = False\<rparr>"

text \<open>A call through a null or dangling pointer sets \<open>segfault\<close>.\<close>

definition deref :: "InMemoryEnv \<Rightarrow> ptr \<Rightarrow> FileState option" where
  "deref env p = (case p of None \<Rightarrow> None | Some a \<Rightarrow> file_states env a)"

definition on_state :: "(FileState \<Rightarrow> FileState option) \<Rightarrow> ptr \<Rightarrow> InMemoryEnv \<Rightarrow> InMemoryEnv" where
  "on_state f p env =
     (case deref env p of
        None \<Rightarrow> env\<lparr>segfault := True\<rparr>
      | Some fs \<Rightarrow> env\<lparr>file_states := (file_states env)(the p := f fs)\<rparr>)"

definition new_state :: "InMemoryEnv \<Rightarrow> ptr \<times> InMemoryEnv" where
  "new_state env =
     (Some (next_addr env),
      env\<lparr>file_states := (file_states env)(next_addr env \<mapsto> FileState_Ref FileState_new),
          next_addr := next_addr env + 1\<rparr>)"

abbreviation ref_ptr :: "ptr \<Rightarrow> InMemoryEnv \<Rightarrow> InMemoryEnv" where
  "ref_ptr \<equiv> on_state (\<lambda>fs. Some (FileState_Ref fs))"

abbreviation unref_ptr :: "ptr \<Rightarrow> InMemoryEnv \<Rightarrow> InMemoryEnv" where
  "unref_ptr \<equiv> on_state FileState_Unref"

record SequentialFileImpl =
  sfi_file :: ptr
  sfi_pos :: nat

definition SequentialFileImpl_Read ::
    "InMemoryEnv \<times> SequentialFileImpl \<Rightarrow> nat \<Rightarrow> Status \<times> bytes \<times> InMemoryEnv \<times> SequentialFileImpl" where
  "SequentialFileImpl_Read f n =
     (case f of (env, h) \<Rightarrow>
        (case deref env (sfi_file h) of
           None \<Rightarrow> (OK, [], env\<lparr>segfault := True\<rparr>, h)
         | Some fs \<Rightarrow>
             (let (s, result) = FileState_Read fs (sfi_pos h) n
              in (s, result, env,
                  if ok s then h\<lparr>sfi_pos := sfi_pos h + length result\<rparr> else h))))"

definition SequentialFileImpl_Skip ::
    "InMemoryEnv \<times> SequentialFileImpl \<Rightarrow> nat \<Rightarrow> Status \<times> InMemoryEnv \<times> SequentialFileImpl" where
  "SequentialFileImpl_Skip f n =
     (case f of (env, h) \<Rightarrow>
        (case deref env (sfi_file h) of
           None \<Rightarrow> (OK, env\<lparr>segfault := True\<rparr>, h)
         | Some fs \<Rightarrow>
             if fs_size fs < sfi_pos h
             then (IOError (ascii ''pos_ > file_->Size()'') [], env, h)
             else
               (let available = fs_size fs - sfi_pos h;
                    n = (if available < n then available else n)
                in (OK, env, h\<lparr>sfi_pos := sfi_pos h + n\<rparr>))))"

definition mem_seq :: "(InMemoryEnv \<times> SequentialFileImpl) SequentialFile" where
  "mem_seq = \<lparr>sf_Read = SequentialFileImpl_Read, sf_Skip = SequentialFileImpl_Skip\<rparr>"

definition RandomAccessFileImpl_Read :: "InMemoryEnv \<times> ptr \<Rightarrow> nat \<Rightarrow> nat \<Rightarrow> Status \<times> bytes" where
  "RandomAccessFileImpl_Read f offset n =
     (case f of (env, p) \<Rightarrow>
        (case deref env p of None \<Rightarrow> (OK, []) | Some fs \<Rightarrow> FileState_Read fs offset n))"

definition mem_random :: "(InMemoryEnv \<times> ptr) RandomAccessFile" where
  "mem_random = \<lparr>raf_Read = RandomAccessFileImpl_Read\<rparr>"

definition WritableFileImpl_Append :: "InMemoryEnv \<times> ptr \<Rightarrow> bytes \<Rightarrow> Status \<times> InMemoryEnv \<times> ptr" where
  "WritableFileImpl_Append f data =
     (case f of (env, p) \<Rightarrow> (OK, on_state (\<lambda>fs. Some (snd (FileState_Append fs data))) p env, p))"

definition mem_writable :: "(InMemoryEnv \<times> ptr) WritableFile" where
  "mem_writable =
     \<lparr>wf_Append = WritableFileImpl_Append, wf_Close = Pair OK, wf_Flush = Pair OK, wf_Sync = Pair OK\<rparr>"

subsection \<open>The methods of the environment\<close>

definition not_found :: "bytes \<Rightarrow> Status" where
  "not_found fname = IOError fname (ascii ''File not found'')"

definition mem_NewSequentialFile ::
    "InMemoryEnv \<Rightarrow> bytes \<Rightarrow> Status \<times> SequentialFileImpl option \<times> InMemoryEnv" where
  "mem_NewSequentialFile env fname =
     (case map_of (file_map env) fname of
        None \<Rightarrow> (not_found fname, None, env)
      | Some p \<Rightarrow> (OK, Some \<lparr>sfi_file = p, sfi_pos = 0\<rparr>, ref_ptr p env))"

definition mem_NewRandomAccessFile :: "InMemoryEnv \<Rightarrow> bytes \<Rightarrow> Status \<times> ptr option \<times> InMemoryEnv" where
  "mem_NewRandomAccessFile env fname =
     (case map_of (file_map env) fname of
        None \<Rightarrow> (not_found fname, None, env)
      | Some p \<Rightarrow> (OK, Some p, ref_ptr p env))"

definition mem_NewWritableFile :: "InMemoryEnv \<Rightarrow> bytes \<Rightarrow> Status \<times> ptr option \<times> InMemoryEnv" where
  "mem_NewWritableFile env fname =
     (let (file, env) =
        (case map_of (file_map env) fname of
           None \<Rightarrow>
             (let (file, env) = new_state env
              in (file, env\<lparr>file_map := map_assign fname file (file_map env)\<rparr>))
         | Some p \<Rightarrow> (p, on_state (\<lambda>fs. Some (FileState_Truncate fs)) p env))
      in (OK, Some file, ref_ptr file env))"

definition mem_NewAppendableFile :: "InMemoryEnv \<Rightarrow> bytes \<Rightarrow> Status \<times> ptr option \<times> InMemoryEnv" where
  "mem_NewAppendableFile env fname =
     (let env =
        (if map_of (file_map env) fname = None
         then env\<lparr>file_map := map_assign fname None (file_map env)\<rparr> else env);
          file = the (map_of (file_map env) fname);
          (file, env) = (if file = None then new_state env else (file, env))
      in (OK, Some file, ref_ptr file env))"

definition mem_FileExists :: "InMemoryEnv \<Rightarrow> bytes \<Rightarrow> bool" where
  "mem_FileExists env fname \<longleftrightarrow> map_of (file_map env) fname \<noteq> None"

definition mem_GetChildren :: "InMemoryEnv \<Rightarrow> bytes \<Rightarrow> Status \<times> bytes list" where
  "mem_GetChildren env dir =
     (OK, concat (map (\<lambda>(filename, p).
            if length dir + 1 \<le> length filename \<and> filename ! length dir = 0x2F \<and> starts_with filename dir
            then [drop (length dir + 1) filename] else []) (file_map env)))"

definition DeleteFileInternal :: "bytes \<Rightarrow> InMemoryEnv \<Rightarrow> InMemoryEnv" where
  "DeleteFileInternal fname env =
     (case map_of (file_map env) fname of
        None \<Rightarrow> env
      | Some p \<Rightarrow>
          (let env = unref_ptr p env in env\<lparr>file_map := map_erase fname (file_map env)\<rparr>))"

definition mem_DeleteFile :: "InMemoryEnv \<Rightarrow> bytes \<Rightarrow> Status \<times> InMemoryEnv" where
  "mem_DeleteFile env fname =
     (if map_of (file_map env) fname = None then (not_found fname, env)
      else (OK, DeleteFileInternal fname env))"

definition mem_GetFileSize :: "InMemoryEnv \<Rightarrow> bytes \<Rightarrow> Status \<times> nat" where
  "mem_GetFileSize env fname =
     (case map_of (file_map env) fname of
        None \<Rightarrow> (not_found fname, 0)
      | Some p \<Rightarrow> (OK, case deref env p of None \<Rightarrow> 0 | Some fs \<Rightarrow> fs_size fs))"

text \<open>
  \<open>file_map_[target] = file_map_[src]\<close> evaluates the right operand first (C++17); with either
  order a name that is gone is looked up as a fresh null pointer.
\<close>

definition mem_RenameFile :: "InMemoryEnv \<Rightarrow> bytes \<Rightarrow> bytes \<Rightarrow> Status \<times> InMemoryEnv" where
  "mem_RenameFile env src target =
     (if map_of (file_map env) src = None then (not_found src, env)
      else
        (let env = DeleteFileInternal target env;
             p = (case map_of (file_map env) src of None \<Rightarrow> None | Some p \<Rightarrow> p);
             env = env\<lparr>file_map := map_assign target p (file_map env)\<rparr>
         in (OK, env\<lparr>file_map := map_erase src (file_map env)\<rparr>)))"

subsection \<open>What the environment keeps\<close>

text \<open>
  \<open>env_ok env H\<close> is the invariant, \<open>H\<close> the multiset of the addresses held by open file objects:
  names map to distinct live states and every reference count is the number of its holders.
\<close>

definition mapped :: "InMemoryEnv \<Rightarrow> nat \<Rightarrow> bool" where
  "mapped env a \<longleftrightarrow> (\<exists>f. map_of (file_map env) f = Some (Some a))"

definition state_ok :: "InMemoryEnv \<Rightarrow> nat multiset \<Rightarrow> nat \<Rightarrow> FileState \<Rightarrow> bool" where
  "state_ok env H a fs \<longleftrightarrow> fs_ok fs \<and> a < next_addr env \<and> 0 < fs_refs fs \<and>
     fs_refs fs = int (count H a) + (if mapped env a then 1 else 0)"

definition env_ok :: "InMemoryEnv \<Rightarrow> nat multiset \<Rightarrow> bool" where
  "env_ok env H \<longleftrightarrow> map_ok (file_map env) \<and> \<not> segfault env \<and>
     (\<forall>f p. map_of (file_map env) f = Some p \<longrightarrow> (\<exists>a. p = Some a \<and> file_states env a \<noteq> None)) \<and>
     (\<forall>f g a. map_of (file_map env) f = Some (Some a) \<longrightarrow> map_of (file_map env) g = Some (Some a) \<longrightarrow> f = g) \<and>
     (\<forall>a fs. file_states env a = Some fs \<longrightarrow> state_ok env H a fs) \<and>
     (\<forall>a. a \<in># H \<longrightarrow> file_states env a \<noteq> None)"

definition file_contents :: "InMemoryEnv \<Rightarrow> bytes \<Rightarrow> bytes option" where
  "file_contents env f =
     (case map_of (file_map env) f of
        None \<Rightarrow> None | Some p \<Rightarrow> map_option fs_contents (deref env p))"

lemma env_okD:
  assumes "env_ok env H"
  shows "map_ok (file_map env)" "\<not> segfault env"
    "map_of (file_map env) f = Some p \<Longrightarrow> \<exists>a fs. p = Some a \<and> file_states env a = Some fs"
    "map_of (file_map env) f = Some (Some a) \<Longrightarrow> map_of (file_map env) g = Some (Some a) \<Longrightarrow> f = g"
    "file_states env a = Some fs \<Longrightarrow> state_ok env H a fs"
    "a \<in># H \<Longrightarrow> \<exists>fs. file_states env a = Some fs"
  using assms unfolding env_ok_def by auto

lemma file_contents_eq:
  assumes "map_of (file_map env) f = Some (Some a)" "file_states env a = Some fs"
  shows "file_contents env f = Some (fs_contents fs)"
  using assms by (simp add: file_contents_def deref_def)

lemma file_contents_NoneD:
  assumes "env_ok env H" "file_contents env f = None"
  shows "map_of (file_map env) f = None"
  using assms env_okD(3) [OF assms(1), of f]
  by (cases "map_of (file_map env) f") (auto simp: file_contents_def deref_def)

lemma file_contents_SomeD:
  assumes "env_ok env H" "file_contents env f = Some c"
  shows "\<exists>a fs. map_of (file_map env) f = Some (Some a) \<and> file_states env a = Some fs \<and> c = fs_contents fs"
  using assms env_okD(3) [OF assms(1), of f]
  by (cases "map_of (file_map env) f") (auto simp: file_contents_def deref_def)

text \<open>Changing one live state.\<close>

lemma mapped_states [simp]: "mapped (env\<lparr>file_states := h\<rparr>) a = mapped env a"
  by (simp add: mapped_def)

lemma state_ok_states [simp]: "state_ok (env\<lparr>file_states := h\<rparr>) H a fs = state_ok env H a fs"
  by (simp add: state_ok_def)

lemma fs_ok_refs [simp]: "fs_ok (fs\<lparr>fs_refs := n\<rparr>) = fs_ok fs"
  by (simp add: fs_ok_def)

lemma fs_contents_refs [simp]: "fs_contents (fs\<lparr>fs_refs := n\<rparr>) = fs_contents fs"
  by (simp add: fs_contents_def)

lemma env_ok_states:
  assumes "env_ok env H"
    "\<And>a fs. h a = Some fs \<Longrightarrow> state_ok env H' a fs"
    "\<And>a. mapped env a \<Longrightarrow> h a \<noteq> None" "\<And>a. a \<in># H' \<Longrightarrow> h a \<noteq> None"
  shows "env_ok (env\<lparr>file_states := h\<rparr>) H'"
  unfolding env_ok_def
proof (intro conjI allI impI)
  fix f p assume "map_of (file_map (env\<lparr>file_states := h\<rparr>)) f = Some p"
  then show "\<exists>a. p = Some a \<and> file_states (env\<lparr>file_states := h\<rparr>) a \<noteq> None"
    using env_okD(3) [OF assms(1), of f p] assms(3) mapped_def [of env] by force
next
  fix f g a
  assume "map_of (file_map (env\<lparr>file_states := h\<rparr>)) f = Some (Some a)"
    "map_of (file_map (env\<lparr>file_states := h\<rparr>)) g = Some (Some a)"
  then show "f = g" using env_okD(4) [OF assms(1)] by simp
qed (use assms env_okD [OF assms(1)] in simp_all)

lemma mapped_live: "env_ok env H \<Longrightarrow> mapped env a \<Longrightarrow> file_states env a \<noteq> None"
  using env_okD(3) by (fastforce simp: mapped_def)

lemma env_ok_update:
  assumes "env_ok env H" "file_states env a = Some fs" "fs_ok fs'" "fs_refs fs' = fs_refs fs"
  shows "env_ok (env\<lparr>file_states := (file_states env)(a \<mapsto> fs')\<rparr>) H"
proof (rule env_ok_states [OF assms(1)])
  fix b fs'' assume "((file_states env)(a \<mapsto> fs')) b = Some fs''"
  then show "state_ok env H b fs''"
    using env_okD(5) [OF assms(1,2)] env_okD(5) [OF assms(1), of b] assms(3,4)
    by (cases "b = a") (auto simp: state_ok_def)
qed (use mapped_live [OF assms(1)] env_okD(6) [OF assms(1)] in auto)

lemma contents_update:
  assumes "env_ok env H" "file_states env a = Some fs" "map_of (file_map env) f = Some (Some a)"
  shows "file_contents (env\<lparr>file_states := (file_states env)(a \<mapsto> fs')\<rparr>) =
    (file_contents env)(f \<mapsto> fs_contents fs')"
proof
  fix g
  show "file_contents (env\<lparr>file_states := (file_states env)(a \<mapsto> fs')\<rparr>) g =
    ((file_contents env)(f \<mapsto> fs_contents fs')) g"
  proof (cases "g = f")
    case True
    then show ?thesis using assms(3) by (simp add: file_contents_def deref_def)
  next
    case False
    then have "map_of (file_map env) g \<noteq> Some (Some a)"
      using env_okD(4) [OF assms(1,3), of g] by auto
    then show ?thesis using False
      by (auto simp: file_contents_def deref_def split: option.splits)
  qed
qed

lemma contents_update_same:
  assumes "file_states env a = Some fs" "fs_contents fs' = fs_contents fs"
  shows "file_contents (env\<lparr>file_states := (file_states env)(a \<mapsto> fs')\<rparr>) = file_contents env"
proof
  fix g
  show "file_contents (env\<lparr>file_states := (file_states env)(a \<mapsto> fs')\<rparr>) g = file_contents env g"
    using assms by (cases "map_of (file_map env) g = Some (Some a)")
      (auto simp: file_contents_def deref_def split: option.splits)
qed

lemma on_state_eq:
  "file_states env a = Some fs \<Longrightarrow>
     on_state f (Some a) env = env\<lparr>file_states := (file_states env)(a := f fs)\<rparr>"
  by (simp add: on_state_def deref_def)

lemma ref_ptr_ok:
  assumes "env_ok env H" "file_states env a = Some fs"
  shows "env_ok (ref_ptr (Some a) env) (add_mset a H) \<and>
    file_contents (ref_ptr (Some a) env) = file_contents env \<and>
    file_map (ref_ptr (Some a) env) = file_map env \<and>
    file_states (ref_ptr (Some a) env) a = Some (FileState_Ref fs)"
proof -
  let ?h = "(file_states env)(a \<mapsto> FileState_Ref fs)"
  have "env_ok (env\<lparr>file_states := ?h\<rparr>) (add_mset a H)"
  proof (rule env_ok_states [OF assms(1)])
    fix b fs'' assume "?h b = Some fs''"
    then show "state_ok env (add_mset a H) b fs''"
      using env_okD(5) [OF assms(1,2)] env_okD(5) [OF assms(1), of b]
      by (cases "b = a") (auto simp: state_ok_def FileState_Ref_def)
  qed (use mapped_live [OF assms(1)] env_okD(6) [OF assms(1)] in auto)
  moreover have "file_contents (env\<lparr>file_states := ?h\<rparr>) = file_contents env"
    by (rule contents_update_same [OF assms(2)]) (simp add: FileState_Ref_def)
  ultimately show ?thesis by (simp add: on_state_eq [OF assms(2)])
qed

lemma unref_ptr_ok:
  assumes "env_ok env H" "a \<in># H"
  shows "env_ok (unref_ptr (Some a) env) (H - {#a#}) \<and>
    file_contents (unref_ptr (Some a) env) = file_contents env \<and>
    file_map (unref_ptr (Some a) env) = file_map env"
proof -
  from env_okD(6) [OF assms] obtain fs where fs: "file_states env a = Some fs" by blast
  let ?h = "(file_states env)(a := FileState_Unref fs)"
  have c: "count H a > 0" using assms(2) by simp
  have st: "fs_ok fs" "a < next_addr env"
    "fs_refs fs = int (count H a) + (if mapped env a then 1 else 0)"
    using env_okD(5) [OF assms(1) fs] by (simp_all add: state_ok_def)
  have un: "\<not> mapped env a \<and> count H a = 1" if "FileState_Unref fs = None"
  proof -
    have "fs_refs fs \<le> 1" using that by (simp add: FileState_Unref_def Let_def split: if_splits)
    moreover have "1 \<le> int (count H a)" using c by linarith
    ultimately show ?thesis using st(3)
      by (cases "mapped env a"; simp only: if_True if_False simp_thms; linarith)
  qed
  have "env_ok (env\<lparr>file_states := ?h\<rparr>) (H - {#a#})"
  proof (rule env_ok_states [OF assms(1)])
    fix b fs'' assume "?h b = Some fs''"
    then show "state_ok env (H - {#a#}) b fs''"
      using st c env_okD(5) [OF assms(1), of b]
      by (cases "b = a") (auto simp: state_ok_def FileState_Unref_def Let_def split: if_splits)
  next
    fix b assume "mapped env b"
    then show "?h b \<noteq> None" using un mapped_live [OF assms(1)] by auto
  next
    fix b assume "b \<in># H - {#a#}"
    then show "?h b \<noteq> None"
      using un env_okD(6) [OF assms(1), of b] in_diffD [of b H "{#a#}"]
      by (cases "FileState_Unref fs") (auto simp: in_diff_count)
  qed
  moreover have "file_contents (env\<lparr>file_states := ?h\<rparr>) = file_contents env"
  proof (cases "FileState_Unref fs")
    case None
    have "map_of (file_map env) g \<noteq> Some (Some a)" for g
      using un [OF None] by (auto simp: mapped_def)
    then show ?thesis
      by (auto simp: fun_eq_iff file_contents_def deref_def split: option.splits)
  next
    case (Some fs')
    then have "fs_contents fs' = fs_contents fs"
      by (auto simp: FileState_Unref_def Let_def split: if_splits)
    then show ?thesis using contents_update_same [OF fs, of fs'] Some by simp
  qed
  ultimately show ?thesis by (simp add: on_state_eq [OF fs])
qed

text \<open>Changing the map of names.\<close>

lemma file_map_new_state [simp]: "file_map (snd (new_state env)) = file_map env"
  by (simp add: new_state_def)

lemma NewSequentialFile_ok:
  assumes "env_ok env H" "file_contents env f = Some c"
  shows "\<exists>a env'. mem_NewSequentialFile env f = (OK, Some \<lparr>sfi_file = Some a, sfi_pos = 0\<rparr>, env') \<and>
    env_ok env' (add_mset a H) \<and> file_contents env' = file_contents env \<and>
    map_of (file_map env') f = Some (Some a)"
proof -
  obtain a fs where a: "map_of (file_map env) f = Some (Some a)" "file_states env a = Some fs"
    using file_contents_SomeD [OF assms] by blast
  then show ?thesis
    using ref_ptr_ok [OF assms(1) a(2)] by (simp add: mem_NewSequentialFile_def)
qed

lemma new_file_ok:
  assumes "env_ok env H" "map_of (file_map env) f = None"
  defines "env1 \<equiv> (snd (new_state env))\<lparr>file_map := map_assign f (fst (new_state env)) (file_map env)\<rparr>"
  shows "env_ok env1 H \<and> file_contents env1 = (file_contents env)(f \<mapsto> []) \<and>
    file_states env1 (next_addr env) = Some (FileState_Ref FileState_new) \<and>
    map_of (file_map env1) f = Some (Some (next_addr env)) \<and> fst (new_state env) = Some (next_addr env)"
proof -
  let ?a = "next_addr env"
  note mok = env_okD(1) [OF assms(1)]
  have fresh: "file_states env ?a = None"
    using env_okD(5) [OF assms(1), of ?a] by (cases "file_states env ?a") (auto simp: state_ok_def)
  then have nm: "\<not> mapped env ?a" "map_of (file_map env) g \<noteq> Some (Some ?a)" for g
    using mapped_live [OF assms(1), of ?a] by (auto simp: mapped_def)
  have nH: "count H ?a = 0" using env_okD(6) [OF assms(1), of ?a] fresh by (auto simp flip: not_in_iff)
  have e1: "env1 = env\<lparr>file_states := (file_states env)(?a \<mapsto> FileState_Ref FileState_new),
      file_map := map_assign f (Some ?a) (file_map env), next_addr := ?a + 1\<rparr>"
    by (simp add: env1_def new_state_def)
  have m: "mapped env1 b \<longleftrightarrow> mapped env b \<or> b = ?a" for b
  proof -
    have "map_of (file_map env1) g = (if g = f then Some (Some ?a) else map_of (file_map env) g)" for g
      using mok by (simp add: e1)
    then show ?thesis
      unfolding mapped_def using assms(2) by (metis option.distinct(1) option.inject)
  qed
  have "env_ok env1 H"
    unfolding env_ok_def
  proof (intro conjI allI impI)
    fix g p assume "map_of (file_map env1) g = Some p"
    then show "\<exists>a. p = Some a \<and> file_states env1 a \<noteq> None"
      using env_okD(3) [OF assms(1), of g p] mok by (auto simp: e1 split: if_splits)
  next
    fix g h a
    assume "map_of (file_map env1) g = Some (Some a)" "map_of (file_map env1) h = Some (Some a)"
    then show "g = h" using env_okD(4) [OF assms(1), of g a h] mok nm by (auto simp: e1 split: if_splits)
  next
    fix b fs assume "file_states env1 b = Some fs"
    then show "state_ok env1 H b fs"
      using env_okD(5) [OF assms(1), of b fs] nm(1) nH unfolding state_ok_def m
      by (auto simp: e1 FileState_Ref_def FileState_new_def fs_ok_def kMemBlockSize_def split: if_splits)
  next
    fix b assume "b \<in># H"
    then show "file_states env1 b \<noteq> None" using env_okD(6) [OF assms(1)] by (auto simp: e1)
  qed (use mok env_okD(2) [OF assms(1)] in \<open>simp_all add: e1\<close>)
  moreover have "file_contents env1 g = ((file_contents env)(f \<mapsto> [])) g" for g
    using mok nm by (auto simp: file_contents_def e1 deref_def FileState_Ref_def FileState_new_def
        fs_contents_def split: option.splits)
  ultimately show ?thesis using mok by (auto simp: e1 new_state_def)
qed

lemma NewWritableFile_ok:
  assumes "env_ok env H"
  shows "\<exists>a env'. mem_NewWritableFile env f = (OK, Some (Some a), env') \<and>
    env_ok env' (add_mset a H) \<and> file_contents env' = (file_contents env)(f \<mapsto> []) \<and>
    map_of (file_map env') f = Some (Some a)"
proof (cases "map_of (file_map env) f")
  case None
  define e where "e = (snd (new_state env))\<lparr>file_map := map_assign f (fst (new_state env)) (file_map env)\<rparr>"
  note n = new_file_ok [OF assms None, folded e_def]
  have "mem_NewWritableFile env f = (OK, Some (Some (next_addr env)), ref_ptr (Some (next_addr env)) e)"
    using n None by (simp add: mem_NewWritableFile_def case_prod_beta Let_def e_def)
  then show ?thesis
    using n ref_ptr_ok [of e H "next_addr env"] by auto
next
  case (Some p)
  then obtain a fs where a: "p = Some a" "file_states env a = Some fs"
    using env_okD(3) [OF assms Some] by blast
  let ?e = "env\<lparr>file_states := (file_states env)(a \<mapsto> FileState_Truncate fs)\<rparr>"
  have st: "fs_ok fs" using env_okD(5) [OF assms a(2)] by (simp add: state_ok_def)
  have "env_ok ?e H"
    by (rule env_ok_update [OF assms a(2)])
      (simp_all add: FileState_Truncate_def fs_ok_def kMemBlockSize_def)
  moreover have "file_contents ?e = (file_contents env)(f \<mapsto> [])"
    using contents_update [OF assms a(2), of f] Some a(1) by (simp add: FileState_Truncate_def fs_contents_def)
  ultimately show ?thesis
    using ref_ptr_ok [of ?e H a] Some a
    by (simp add: mem_NewWritableFile_def on_state_eq [OF a(2)])
qed

lemma Append_ok:
  assumes "env_ok env H" "map_of (file_map env) f = Some (Some a)" "file_contents env f = Some c"
  shows "\<exists>env'. WritableFileImpl_Append (env, Some a) d = (OK, env', Some a) \<and> env_ok env' H \<and>
    file_contents env' = (file_contents env)(f \<mapsto> c @ d) \<and> file_map env' = file_map env"
proof -
  obtain fs where fs: "file_states env a = Some fs" using env_okD(3) [OF assms(1,2)] by blast
  have c: "c = fs_contents fs" using assms(3) file_contents_eq [OF assms(2) fs] by simp
  have st: "fs_ok fs" using env_okD(5) [OF assms(1) fs] by (simp add: state_ok_def)
  note ap = FileState_append_loop_correct [OF st, of d]
  show ?thesis
    using env_ok_update [OF assms(1) fs, of "FileState_append_loop d fs"]
      contents_update [OF assms(1) fs assms(2), of "FileState_append_loop d fs"] ap c
    by (simp add: WritableFileImpl_Append_def on_state_eq [OF fs] FileState_Append_def)
qed

lemma DeleteFileInternal_ok:
  assumes "env_ok env H"
  shows "env_ok (DeleteFileInternal f env) H \<and>
    file_contents (DeleteFileInternal f env) = (file_contents env)(f := None) \<and>
    (\<forall>g. map_of (file_map (DeleteFileInternal f env)) g = (if g = f then None else map_of (file_map env) g))"
proof (cases "map_of (file_map env) f")
  case None
  then show ?thesis using assms by (auto simp: DeleteFileInternal_def fun_eq_iff file_contents_def)
next
  case (Some p)
  note mok = env_okD(1) [OF assms]
  obtain a fs where a: "p = Some a" "file_states env a = Some fs"
    using env_okD(3) [OF assms Some] by blast
  let ?h = "(file_states env)(a := FileState_Unref fs)"
  let ?e = "env\<lparr>file_states := ?h, file_map := map_erase f (file_map env)\<rparr>"
  have e: "DeleteFileInternal f env = ?e"
    using Some a by (simp add: DeleteFileInternal_def on_state_eq Let_def)
  have ma: "mapped env a" using Some a(1) by (auto simp: mapped_def)
  have inj: "map_of (file_map env) g = Some (Some a) \<Longrightarrow> g = f" for g
    using env_okD(4) [OF assms, of g a f] Some a(1) by simp
  have m: "mapped ?e b \<longleftrightarrow> mapped env b \<and> b \<noteq> a" for b
  proof -
    have "map_of (file_map ?e) g = (if g = f then None else map_of (file_map env) g)" for g
      using mok by simp
    then show ?thesis
      unfolding mapped_def using inj Some a(1) by (metis option.distinct(1) option.inject)
  qed
  have st: "fs_ok fs" "a < next_addr env" "fs_refs fs = int (count H a) + 1"
    using env_okD(5) [OF assms a(2)] ma by (simp_all add: state_ok_def)
  have un: "a \<notin># H" if "FileState_Unref fs = None"
  proof -
    have "fs_refs fs \<le> 1" using that by (simp add: FileState_Unref_def Let_def split: if_splits)
    then show ?thesis using st(3) by (simp add: not_in_iff)
  qed
  have "env_ok ?e H"
    unfolding env_ok_def
  proof (intro conjI allI impI)
    fix g q assume "map_of (file_map ?e) g = Some q"
    then show "\<exists>a. q = Some a \<and> file_states ?e a \<noteq> None"
      using env_okD(3) [OF assms, of g q] mok inj [of g] by (auto split: if_splits)
  next
    fix g h b
    assume "map_of (file_map ?e) g = Some (Some b)" "map_of (file_map ?e) h = Some (Some b)"
    then show "g = h" using env_okD(4) [OF assms, of g b h] mok by (auto split: if_splits)
  next
    fix b fs' assume "file_states ?e b = Some fs'"
    then show "state_ok ?e H b fs'"
      using env_okD(5) [OF assms, of b fs'] st unfolding state_ok_def m
      by (auto simp: FileState_Unref_def Let_def split: if_splits)
  next
    fix b assume "b \<in># H"
    then show "file_states ?e b \<noteq> None" using env_okD(6) [OF assms, of b] un by auto
  qed (use mok env_okD(2) [OF assms] in simp_all)
  moreover have "file_contents ?e g = ((file_contents env)(f := None)) g" for g
    using mok inj [of g] by (auto simp: file_contents_def deref_def split: option.splits)
  ultimately show ?thesis using mok by (auto simp: e)
qed

lemma RenameFile_ok:
  assumes "env_ok env H" "file_contents env src = Some c" "src \<noteq> target"
  shows "\<exists>env'. mem_RenameFile env src target = (OK, env') \<and> env_ok env' H \<and>
    file_contents env' = (file_contents env)(target \<mapsto> c, src := None)"
proof -
  define e1 where "e1 = DeleteFileInternal target env"
  note d = DeleteFileInternal_ok [OF assms(1), of target, folded e1_def]
  have ok1: "env_ok e1 H" using d by blast
  note mok = env_okD(1) [OF ok1]
  obtain a fs where a: "map_of (file_map env) src = Some (Some a)" "file_states env a = Some fs"
    using file_contents_SomeD [OF assms(1,2)] by blast
  have s: "map_of (file_map e1) src = Some (Some a)" using d a(1) assms(3) by simp
  have t: "map_of (file_map e1) target = None" using d by simp
  have c1: "file_contents e1 src = Some c" using d assms(2,3) by simp
  define e3 where "e3 = e1\<lparr>file_map := map_erase src (map_assign target (Some a) (file_map e1))\<rparr>"
  have lk: "map_of (file_map e3) g = (if g = src then None else if g = target then Some (Some a)
      else map_of (file_map e1) g)" for g
    using mok by (simp add: e3_def)
  have dr: "deref e3 = deref e1" by (auto simp: deref_def e3_def fun_eq_iff split: option.split)
  have inj: "map_of (file_map e1) g = Some (Some a) \<Longrightarrow> g = src" for g
    using env_okD(4) [OF ok1, of g a src] s by simp
  have m: "mapped e3 b = mapped e1 b" for b
    unfolding mapped_def lk using s t assms(3) inj by metis
  have "env_ok e3 H"
    unfolding env_ok_def
  proof (intro conjI allI impI)
    fix g q assume "map_of (file_map e3) g = Some q"
    then show "\<exists>a. q = Some a \<and> file_states e3 a \<noteq> None"
      using env_okD(3) [OF ok1, of g q] env_okD(3) [OF ok1 s] unfolding lk by (auto simp: e3_def split: if_splits)
  next
    fix g h b
    assume "map_of (file_map e3) g = Some (Some b)" "map_of (file_map e3) h = Some (Some b)"
    then show "g = h" using env_okD(4) [OF ok1, of g b h] inj unfolding lk by (auto split: if_splits)
  next
    fix b fs' assume "file_states e3 b = Some fs'"
    then show "state_ok e3 H b fs'"
      using env_okD(5) [OF ok1, of b fs'] unfolding state_ok_def m by (simp add: e3_def)
  next
    fix b assume "b \<in># H"
    then show "file_states e3 b \<noteq> None" using env_okD(6) [OF ok1, of b] by (auto simp: e3_def)
  qed (use mok env_okD(2) [OF ok1] in \<open>simp_all add: e3_def\<close>)
  moreover have "file_contents e3 g = ((file_contents env)(target \<mapsto> c, src := None)) g" for g
  proof -
    have "file_contents e3 g = (if g = src then None else if g = target then file_contents e1 src
      else file_contents e1 g)"
      unfolding file_contents_def lk dr using s by simp
    then show ?thesis using c1 d by (auto simp: fun_eq_iff)
  qed
  moreover have "mem_RenameFile env src target = (OK, e3)"
    using a(1) s by (simp add: mem_RenameFile_def Let_def e3_def flip: e1_def)
  ultimately show ?thesis by auto
qed

end
