(* ===== verification/EnvUtil.thy ===== *)
theory EnvUtil
  imports MemEnv LogProofs
begin

section \<open>Environments and whole-file operations (\<^verbatim>\<open>util/env.cc\<close>)\<close>

text \<open>
  The virtual methods of an environment as a record over the type of its state and of its two
  kinds of file objects, with the functions of the code that are written against it. The
  in-memory environment is the instance the theorems are about; it also provides the file
  interfaces.
\<close>

record ('e, 's, 'w) Env =
  env_NewSequentialFile :: "'e \<Rightarrow> bytes \<Rightarrow> Status \<times> 's option \<times> 'e"
  env_NewWritableFile :: "'e \<Rightarrow> bytes \<Rightarrow> Status \<times> 'w option \<times> 'e"
  env_NewAppendableFile :: "'e \<Rightarrow> bytes \<Rightarrow> Status \<times> 'w option \<times> 'e"
  env_FileExists :: "'e \<Rightarrow> bytes \<Rightarrow> bool"
  env_GetChildren :: "'e \<Rightarrow> bytes \<Rightarrow> Status \<times> bytes list"
  env_DeleteFile :: "'e \<Rightarrow> bytes \<Rightarrow> Status \<times> 'e"
  env_GetFileSize :: "'e \<Rightarrow> bytes \<Rightarrow> Status \<times> nat"
  env_RenameFile :: "'e \<Rightarrow> bytes \<Rightarrow> bytes \<Rightarrow> Status \<times> 'e"
  env_seq :: "('e \<times> 's) SequentialFile"
  env_wr :: "('e \<times> 'w) WritableFile"
  env_delete_seq :: "'e \<times> 's \<Rightarrow> 'e"
  env_delete_wr :: "'e \<times> 'w \<Rightarrow> 'e"

definition DoWriteStringToFile ::
    "('e, 's, 'w) Env \<Rightarrow> 'e \<Rightarrow> bytes \<Rightarrow> bytes \<Rightarrow> bool \<Rightarrow> Status \<times> 'e" where
  "DoWriteStringToFile E env data fname should_sync =
     (let (s, file, env) = env_NewWritableFile E env fname
      in if \<not> ok s then (s, env)
         else
           (let (s, f) = wf_Append (env_wr E) (env, the file) data;
                (s, f) = (if ok s \<and> should_sync then wf_Sync (env_wr E) f else (s, f));
                (s, f) = (if ok s then wf_Close (env_wr E) f else (s, f));
                env = env_delete_wr E f;
                env = (if \<not> ok s then snd (env_DeleteFile E env fname) else env)
            in (s, env)))"

definition WriteStringToFile :: "('e, 's, 'w) Env \<Rightarrow> 'e \<Rightarrow> bytes \<Rightarrow> bytes \<Rightarrow> Status \<times> 'e" where
  "WriteStringToFile E env data fname = DoWriteStringToFile E env data fname False"

definition WriteStringToFileSync :: "('e, 's, 'w) Env \<Rightarrow> 'e \<Rightarrow> bytes \<Rightarrow> bytes \<Rightarrow> Status \<times> 'e" where
  "WriteStringToFileSync E env data fname = DoWriteStringToFile E env data fname True"

partial_function (option) ReadFile_loop ::
    "'f SequentialFile \<Rightarrow> 'f \<Rightarrow> bytes \<Rightarrow> (Status \<times> bytes \<times> 'f) option" where
  "ReadFile_loop ops f data =
     (let (s, fragment, f) = sf_Read ops f 8192
      in if \<not> ok s then Some (s, data, f)
         else if fragment = [] then Some (s, data @ fragment, f)
         else ReadFile_loop ops f (data @ fragment))"

definition ReadFileToString ::
    "('e, 's, 'w) Env \<Rightarrow> 'e \<Rightarrow> bytes \<Rightarrow> (Status \<times> bytes \<times> 'e) option" where
  "ReadFileToString E env fname =
     (let (s, file, env) = env_NewSequentialFile E env fname
      in if \<not> ok s then Some (s, [], env)
         else map_option (\<lambda>(s, data, f). (s, data, env_delete_seq E f))
                (ReadFile_loop (env_seq E) (env, the file) []))"

definition SetCurrentFile :: "('e, 's, 'w) Env \<Rightarrow> 'e \<Rightarrow> bytes \<Rightarrow> u64 \<Rightarrow> Status \<times> 'e" where
  "SetCurrentFile E env dbname descriptor_number =
     (let manifest = DescriptorFileName dbname descriptor_number;
          contents = drop (length dbname + 1) manifest;
          tmp = TempFileName dbname descriptor_number;
          (s, env) = WriteStringToFileSync E env (contents @ [0x0A]) tmp;
          (s, env) = (if ok s then env_RenameFile E env tmp (CurrentFileName dbname) else (s, env));
          env = (if \<not> ok s then snd (env_DeleteFile E env tmp) else env)
      in (s, env))"

definition InMemoryEnv_Env :: "(InMemoryEnv, SequentialFileImpl, ptr) Env" where
  "InMemoryEnv_Env =
     \<lparr>env_NewSequentialFile = mem_NewSequentialFile, env_NewWritableFile = mem_NewWritableFile,
      env_NewAppendableFile = mem_NewAppendableFile, env_FileExists = mem_FileExists,
      env_GetChildren = mem_GetChildren, env_DeleteFile = mem_DeleteFile,
      env_GetFileSize = mem_GetFileSize, env_RenameFile = mem_RenameFile,
      env_seq = mem_seq, env_wr = mem_writable,
      env_delete_seq = (\<lambda>(env, h). unref_ptr (sfi_file h) env),
      env_delete_wr = (\<lambda>(env, p). unref_ptr p env)\<rparr>"

lemmas mem_env_simps = InMemoryEnv_Env_def mem_seq_def mem_writable_def

subsection \<open>The file interfaces on the in-memory environment\<close>

definition seq_rest :: "InMemoryEnv \<times> SequentialFileImpl \<Rightarrow> bytes" where
  "seq_rest f = drop (sfi_pos (snd f)) (fs_contents (the (deref (fst f) (sfi_file (snd f)))))"

definition seq_valid :: "InMemoryEnv \<Rightarrow> nat \<Rightarrow> InMemoryEnv \<times> SequentialFileImpl \<Rightarrow> bool" where
  "seq_valid env a f \<longleftrightarrow> fst f = env \<and> sfi_file (snd f) = Some a \<and>
     (\<exists>fs. file_states env a = Some fs \<and> fs_ok fs \<and> sfi_pos (snd f) \<le> fs_size fs)"

interpretation mem_sequential: sequential_file mem_seq seq_rest "seq_valid env a" for env a
proof
  fix f n assume v: "seq_valid env a f"
  then obtain fs pos where f: "f = (env, \<lparr>sfi_file = Some a, sfi_pos = pos\<rparr>)"
    and fs: "file_states env a = Some fs" "fs_ok fs" "pos \<le> fs_size fs"
    by (cases f; cases "snd f") (auto simp: seq_valid_def)
  have d: "deref env (Some a) = Some fs" using fs(1) by (simp add: deref_def)
  show "\<exists>f'. sf_Read mem_seq f n = (OK, take n (seq_rest f), f') \<and>
      seq_rest f' = drop n (seq_rest f) \<and> seq_valid env a f'"
    using fs d FileState_Read_contents [OF fs(2,3), of n]
    by (auto simp: f mem_seq_def SequentialFileImpl_Read_def seq_rest_def seq_valid_def min_def
        add.commute)
  show "\<exists>f'. sf_Skip mem_seq f n = (OK, f') \<and> seq_rest f' = drop n (seq_rest f) \<and> seq_valid env a f'"
    using fs d
    by (auto simp: f mem_seq_def SequentialFileImpl_Skip_def seq_rest_def seq_valid_def Let_def
        add.commute)
qed

definition wr_contents :: "bytes \<Rightarrow> InMemoryEnv \<times> ptr \<Rightarrow> bytes" where
  "wr_contents f w = the (file_contents (fst w) f)"

definition wr_valid ::
    "nat multiset \<Rightarrow> (bytes \<Rightarrow> bytes option) \<Rightarrow> bytes \<Rightarrow> nat \<Rightarrow> InMemoryEnv \<times> ptr \<Rightarrow> bool" where
  "wr_valid H C f a w \<longleftrightarrow> snd w = Some a \<and> env_ok (fst w) H \<and>
     map_of (file_map (fst w)) f = Some (Some a) \<and> file_contents (fst w) f \<noteq> None \<and>
     (\<forall>g. g \<noteq> f \<longrightarrow> file_contents (fst w) g = C g)"

interpretation mem_wr: reliable_writable_file mem_writable "wr_contents f" "wr_valid H C f a" for H C f a
proof
  fix w d s w' assume v: "wr_valid H C f a w" and ap: "wf_Append mem_writable w d = (s, w')"
  from v obtain env c where w: "w = (env, Some a)" "env_ok env H"
    "map_of (file_map env) f = Some (Some a)" "file_contents env f = Some c"
    by (cases w) (auto simp: wr_valid_def)
  from Append_ok [OF w(2-4), of d] obtain env' where e:
    "WritableFileImpl_Append (env, Some a) d = (OK, env', Some a)" "env_ok env' H"
    "file_contents env' = (file_contents env)(f \<mapsto> c @ d)" "file_map env' = file_map env" by blast
  then have "s = OK" "w' = (env', Some a)" using ap w(1) by (simp_all add: mem_writable_def)
  then show "wr_contents f w' = wr_contents f w @ d" "wr_valid H C f a w'"
    using e v w by (auto simp: wr_contents_def wr_valid_def)
next
  fix w d assume v: "wr_valid H C f a w"
  show "ok (fst (wf_Append mem_writable w d))"
    by (cases w) (simp add: mem_writable_def WritableFileImpl_Append_def)
qed (auto simp: mem_writable_def)

definition random_contents :: "InMemoryEnv \<times> ptr \<Rightarrow> bytes" where
  "random_contents f = fs_contents (the (deref (fst f) (snd f)))"

definition random_valid :: "InMemoryEnv \<times> ptr \<Rightarrow> bool" where
  "random_valid f \<longleftrightarrow> (\<exists>fs. deref (fst f) (snd f) = Some fs \<and> fs_ok fs)"

interpretation mem_rand: random_access_file mem_random random_contents random_valid
proof
  fix f off n assume "random_valid f" "off + n \<le> length (random_contents f)"
  then show "raf_Read mem_random f off n = (OK, take n (drop off (random_contents f)))"
    by (auto simp: random_valid_def random_contents_def mem_random_def RandomAccessFileImpl_Read_def
        FileState_Read_contents split: prod.splits)
qed

subsection \<open>Writing and reading whole files\<close>

context sequential_file
begin

lemma ReadFile_loop_rest:
  assumes "valid f"
  shows "\<exists>f'. ReadFile_loop ops f data = Some (OK, data @ rest f, f') \<and> valid f'"
  using assms
proof (induction "length (rest f)" arbitrary: f data rule: less_induct)
  case less
  from read [OF less.prems, of 8192] obtain f' where f':
    "sf_Read ops f 8192 = (OK, take 8192 (rest f), f')" "rest f' = drop 8192 (rest f)" "valid f'"
    by blast
  show ?case
  proof (cases "rest f = []")
    case True
    with f' show ?thesis by (subst ReadFile_loop.simps) simp
  next
    case False
    then have "length (rest f') < length (rest f)" using f'(2) by simp
    from less.hyps [OF this f'(3), of "data @ take 8192 (rest f)"] f' False
    show ?thesis by (subst ReadFile_loop.simps) simp
  qed
qed

end

lemma WriteStringToFile_ok:
  assumes "env_ok env H"
  shows "\<exists>env'. DoWriteStringToFile InMemoryEnv_Env env data fname sync = (OK, env') \<and> env_ok env' H \<and>
    file_contents env' = (file_contents env)(fname \<mapsto> data)"
proof -
  obtain a e1 where e1: "mem_NewWritableFile env fname = (OK, Some (Some a), e1)"
    "env_ok e1 (add_mset a H)" "file_contents e1 = (file_contents env)(fname \<mapsto> [])"
    "map_of (file_map e1) fname = Some (Some a)"
    using NewWritableFile_ok [OF assms] by blast
  obtain e2 where e2: "WritableFileImpl_Append (e1, Some a) data = (OK, e2, Some a)"
    "env_ok e2 (add_mset a H)" "file_contents e2 = (file_contents e1)(fname \<mapsto> [] @ data)"
    using Append_ok [OF e1(2,4), of "[]" data] e1(3) by auto
  show ?thesis
    using e1 e2 unref_ptr_ok [OF e2(2), of a]
    by (simp add: DoWriteStringToFile_def mem_env_simps)
qed

lemma ReadFileToString_ok:
  assumes "env_ok env H" "file_contents env fname = Some c"
  shows "\<exists>env'. ReadFileToString InMemoryEnv_Env env fname = Some (OK, c, env') \<and> env_ok env' H \<and>
    file_contents env' = file_contents env"
proof -
  obtain a e1 where e1:
    "mem_NewSequentialFile env fname = (OK, Some \<lparr>sfi_file = Some a, sfi_pos = 0\<rparr>, e1)"
    "env_ok e1 (add_mset a H)" "file_contents e1 = file_contents env"
    "map_of (file_map e1) fname = Some (Some a)"
    using NewSequentialFile_ok [OF assms] by blast
  let ?f = "(e1, \<lparr>sfi_file = Some a, sfi_pos = 0\<rparr>)"
  obtain fs where fs: "file_states e1 a = Some fs" "c = fs_contents fs" "fs_ok fs"
    using file_contents_SomeD [OF e1(2), of fname c] e1(3,4) assms(2) env_okD(5) [OF e1(2)]
    by (auto simp: state_ok_def)
  have v: "seq_valid e1 a ?f" and r: "seq_rest ?f = c"
    using fs by (auto simp: seq_valid_def seq_rest_def deref_def)
  from mem_sequential.ReadFile_loop_rest [OF v, of "[]"] obtain f' where
    f': "ReadFile_loop mem_seq ?f [] = Some (OK, c, f')" "seq_valid e1 a f'"
    by (auto simp: r)
  show ?thesis
    using e1 f' unref_ptr_ok [OF e1(2), of a]
    by (cases f') (auto simp: ReadFileToString_def mem_env_simps seq_valid_def)
qed

lemma ReadFileToString_missing:
  assumes "env_ok env H" "file_contents env fname = None"
  shows "ReadFileToString InMemoryEnv_Env env fname = Some (not_found fname, [], env)"
  using file_contents_NoneD [OF assms]
  by (simp add: ReadFileToString_def mem_env_simps mem_NewSequentialFile_def not_found_def)

lemma temp_not_current: "TempFileName dbname n \<noteq> CurrentFileName dbname"
proof
  assume "TempFileName dbname n = CurrentFileName dbname"
  from arg_cong [OF this, of last] show False
    by (simp add: TempFileName_def CurrentFileName_def MakeFileName_def ascii_def)
qed

lemma descriptor_base:
  "drop (Suc (length dbname)) (DescriptorFileName dbname n) = ascii ''MANIFEST-'' @ zero_padded 6 (unat n)"
  by (simp add: DescriptorFileName_def ascii_def)

lemma SetCurrentFile_ok:
  assumes "env_ok env H"
  shows "\<exists>env'. SetCurrentFile InMemoryEnv_Env env dbname n = (OK, env') \<and> env_ok env' H \<and>
    file_contents env' = (file_contents env)
      (CurrentFileName dbname \<mapsto> ascii ''MANIFEST-'' @ zero_padded 6 (unat n) @ [0x0A],
       TempFileName dbname n := None)"
proof -
  let ?c = "ascii ''MANIFEST-'' @ zero_padded 6 (unat n) @ [0x0A]"
  let ?t = "TempFileName dbname n" and ?cur = "CurrentFileName dbname"
  obtain e1 where e1: "DoWriteStringToFile InMemoryEnv_Env env ?c ?t True = (OK, e1)" "env_ok e1 H"
    "file_contents e1 = (file_contents env)(?t \<mapsto> ?c)"
    using WriteStringToFile_ok [OF assms] by blast
  obtain e2 where e2: "mem_RenameFile e1 ?t ?cur = (OK, e2)" "env_ok e2 H"
    "file_contents e2 = (file_contents e1)(?cur \<mapsto> ?c, ?t := None)"
    using RenameFile_ok [OF e1(2), of ?t ?c ?cur] e1(3) temp_not_current by auto
  have "SetCurrentFile InMemoryEnv_Env env dbname n = (OK, e2)"
    using e2(1)
    by (simp add: SetCurrentFile_def WriteStringToFileSync_def descriptor_base Let_def e1)
      (simp add: InMemoryEnv_Env_def e1)
  moreover have "file_contents e2 = (file_contents env)(?cur \<mapsto> ?c, ?t := None)"
    using temp_not_current by (auto simp: e2(3) e1(3))
  ultimately show ?thesis using e2(2) by blast
qed

text \<open>Writing \<^verbatim>\<open>CURRENT\<close> leaves every other name with the file object it had.\<close>

lemma on_state_map [simp]: "file_map (on_state g p env) = file_map env"
  by (simp add: on_state_def split: option.split)

lemma NewWritableFile_map:
  assumes "map_ok (file_map env)"
  shows "map_ok (file_map (snd (snd (mem_NewWritableFile env f))))"
    "g \<noteq> f \<Longrightarrow> map_of (file_map (snd (snd (mem_NewWritableFile env f)))) g = map_of (file_map env) g"
  using assms by (auto simp: mem_NewWritableFile_def new_state_def Let_def split: option.split)

lemma DeleteFileInternal_map:
  assumes "map_ok (file_map env)"
  shows "map_ok (file_map (DeleteFileInternal f env))"
    "g \<noteq> f \<Longrightarrow> map_of (file_map (DeleteFileInternal f env)) g = map_of (file_map env) g"
  using assms by (auto simp: DeleteFileInternal_def Let_def split: option.split)

lemma RenameFile_map:
  assumes "map_ok (file_map env)" "g \<noteq> src" "g \<noteq> target"
  shows "map_of (file_map (snd (mem_RenameFile env src target))) g = map_of (file_map env) g"
  using assms DeleteFileInternal_map [OF assms(1), where f = target]
  by (simp add: mem_RenameFile_def Let_def)

lemma WriteStringToFile_map:
  assumes "map_ok (file_map env)"
  shows "map_ok (file_map (snd (DoWriteStringToFile InMemoryEnv_Env env data f sync)))"
    "g \<noteq> f \<Longrightarrow> map_of (file_map (snd (DoWriteStringToFile InMemoryEnv_Env env data f sync))) g = map_of (file_map env) g"
  using NewWritableFile_map [OF assms, where f = f]
  by (auto simp: DoWriteStringToFile_def mem_env_simps WritableFileImpl_Append_def mem_NewWritableFile_def case_prod_beta)

lemma SetCurrentFile_map:
  assumes "map_ok (file_map env)" "g \<noteq> CurrentFileName dbname" "g \<noteq> TempFileName dbname n"
    and "SetCurrentFile InMemoryEnv_Env env dbname n = (OK, env')"
  shows "map_of (file_map env') g = map_of (file_map env) g"
proof -
  let ?c = "drop (length dbname + 1) (DescriptorFileName dbname n) @ [0x0A]"
  obtain s e1 where e1: "DoWriteStringToFile InMemoryEnv_Env env ?c (TempFileName dbname n) True = (s, e1)" by fastforce
  have m: "map_ok (file_map e1)" "map_of (file_map e1) g = map_of (file_map env) g"
    using WriteStringToFile_map [OF assms(1), where data = ?c and f = "TempFileName dbname n" and sync = True] e1 assms(3) by auto
  have "env' = snd (mem_RenameFile e1 (TempFileName dbname n) (CurrentFileName dbname))"
    using assms(4) e1
    by (auto simp: SetCurrentFile_def WriteStringToFileSync_def Let_def ok_iff_OK InMemoryEnv_Env_def split: if_splits prod.splits)
  then show ?thesis using RenameFile_map [OF m(1) assms(3,2)] m(2) by simp
qed

text \<open>
  \<open>SetCurrentFile\<close> on the in-memory environment succeeds, leaves
  \<^verbatim>\<open>CURRENT\<close> naming the new manifest, removes the temporary file, keeps every other file and
  every open file object, and a reader of \<^verbatim>\<open>CURRENT\<close> gets that name and a newline.
\<close>

theorem set_current_file:
  assumes "env_ok env H"
  shows "\<exists>env'. SetCurrentFile InMemoryEnv_Env env dbname n = (OK, env') \<and> env_ok env' H \<and>
    file_contents env' = (file_contents env)
      (CurrentFileName dbname \<mapsto> ascii ''MANIFEST-'' @ zero_padded 6 (unat n) @ [0x0A],
       TempFileName dbname n := None) \<and>
    (\<exists>env''. ReadFileToString InMemoryEnv_Env env' (CurrentFileName dbname) =
       Some (OK, ascii ''MANIFEST-'' @ zero_padded 6 (unat n) @ [0x0A], env''))"
proof -
  obtain env' where e: "SetCurrentFile InMemoryEnv_Env env dbname n = (OK, env')" "env_ok env' H"
    "file_contents env' = (file_contents env)
      (CurrentFileName dbname \<mapsto> ascii ''MANIFEST-'' @ zero_padded 6 (unat n) @ [0x0A], TempFileName dbname n := None)"
    using SetCurrentFile_ok [OF assms] by blast
  then have "file_contents env' (CurrentFileName dbname) = Some (ascii ''MANIFEST-'' @ zero_padded 6 (unat n) @ [0x0A])"
    using temp_not_current [of dbname n] by simp
  then show ?thesis using e ReadFileToString_ok [OF e(2)] by blast
qed

lemma NewMemEnv_ok: "env_ok NewMemEnv {#}"
  by (simp add: env_ok_def NewMemEnv_def)

theorem set_current_file_witness:
  "\<exists>env'. SetCurrentFile InMemoryEnv_Env NewMemEnv (ascii ''/db'') 5 = (OK, env') \<and> env_ok env' {#} \<and>
    file_contents env' = (file_contents NewMemEnv)
      (CurrentFileName (ascii ''/db'') \<mapsto> ascii ''MANIFEST-'' @ zero_padded 6 (unat (5 :: u64)) @ [0x0A],
       TempFileName (ascii ''/db'') 5 := None) \<and>
    (\<exists>env''. ReadFileToString InMemoryEnv_Env env' (CurrentFileName (ascii ''/db'')) =
       Some (OK, ascii ''MANIFEST-'' @ zero_padded 6 (unat (5 :: u64)) @ [0x0A], env''))"
  by (rule set_current_file [OF NewMemEnv_ok])








text \<open>
  Renaming a file to its own name reports success and deletes the
  file, because the target is deleted before the source is looked up.
\<close>

theorem memenv_rename_to_itself:
  assumes "env_ok env H" "file_contents env f \<noteq> None"
  shows "fst (mem_RenameFile env f f) = OK \<and> file_contents (snd (mem_RenameFile env f f)) f = None"
proof -
  have f: "map_of (file_map env) f \<noteq> None"
    using assms(2) by (auto simp: file_contents_def split: option.splits)
  then have l: "(map_of (file_map env) f = None) = False" by simp
  define e1 where "e1 = DeleteFileInternal f env"
  have mok: "map_ok (file_map e1)" "map_of (file_map e1) f = None"
    using DeleteFileInternal_ok [OF assms(1), of f] env_okD(1) by (auto simp: e1_def)
  show ?thesis using mok unfolding mem_RenameFile_def l if_False
    by (simp add: Let_def file_contents_def flip: e1_def)
qed

theorem memenv_rename_to_itself_witness:
  "file_contents (snd (mem_RenameFile (snd (DoWriteStringToFile InMemoryEnv_Env NewMemEnv [7] [65] True)) [65] [65])) [65] = None"
proof -
  obtain env where "DoWriteStringToFile InMemoryEnv_Env NewMemEnv [7] [65] True = (OK, env)" "env_ok env {#}"
    "file_contents env = (file_contents NewMemEnv)([65] \<mapsto> [7])"
    using WriteStringToFile_ok [OF NewMemEnv_ok] by blast
  with memenv_rename_to_itself [of env "{#}" "[65]"] show ?thesis by simp
qed

text \<open>
  Opening a new name for appending leaves a null pointer under that
  name: what is written through the returned file is not in the environment, and the next
  attempt to read the file goes through the null pointer.
\<close>

theorem memenv_appendable_lost:
  assumes "env_ok env H" "file_contents env f = None"
  shows "fst (mem_NewAppendableFile env f) = OK \<and>
    mem_FileExists (snd (snd (mem_NewAppendableFile env f))) f \<and>
    file_contents (snd (snd (mem_NewAppendableFile env f))) f = None \<and>
    segfault (snd (snd (mem_NewSequentialFile (snd (snd (mem_NewAppendableFile env f))) f)))"
proof -
  have m: "map_of (file_map env) f = None" "map_ok (file_map env)"
    using file_contents_NoneD [OF assms] env_okD(1) [OF assms(1)] by simp_all
  define e1 where "e1 = ref_ptr (Some (next_addr env))
    (snd (new_state (env\<lparr>file_map := map_assign f None (file_map env)\<rparr>)))"
  have e1: "mem_NewAppendableFile env f = (OK, Some (Some (next_addr env)), e1)"
    using m by (simp add: mem_NewAppendableFile_def new_state_def Let_def e1_def)
  have "map_of (file_map e1) f = Some None"
    using m by (simp add: e1_def on_state_def new_state_def deref_def)
  then show ?thesis
    by (simp add: e1 mem_FileExists_def file_contents_def deref_def mem_NewSequentialFile_def on_state_def)
qed

theorem memenv_appendable_lost_witness:
  "segfault (snd (snd (mem_NewSequentialFile (snd (snd (mem_NewAppendableFile NewMemEnv [65]))) [65])))"
proof -
  have "file_contents NewMemEnv [65] = None" by (simp add: file_contents_def NewMemEnv_def)
  from memenv_appendable_lost [OF NewMemEnv_ok this] show ?thesis by blast
qed

end
