(* ===== verification/LogRecovery.thy ===== *)
theory LogRecovery
  imports LogProofs EnvUtil
begin

section \<open>Logs on files: round trip, crash recovery and reuse\<close>

text \<open>
  The writer and the reader on the files of the in-memory environment. A crash leaves some
  prefix of the bytes that were appended.
\<close>

lemma log_image_append:
  "fst (log_image (xs @ ys) bo) = fst (log_image xs bo) @ fst (log_image ys (snd (log_image xs bo)))"
  "snd (log_image (xs @ ys) bo) = snd (log_image ys (snd (log_image xs bo)))"
  by (induction xs arbitrary: bo) (simp_all add: case_prod_beta Let_def)

lemma image_loop_offset:
  "snd (image_loop b left bo) \<le> kBlockSize \<and>
   (bo \<le> kBlockSize \<longrightarrow>
     snd (image_loop b left bo) mod kBlockSize = (bo + length (fst (image_loop b left bo))) mod kBlockSize)"
proof (induction b left bo rule: image_loop.induct)
  case (1 b left bo)
  define o1 where "o1 = next_offset bo"
  define fl where "fl = min (length left) (kBlockSize - o1 - kHeaderSize)"
  define o2 where "o2 = o1 + (kHeaderSize + fl)"
  have o1: "o1 + kHeaderSize \<le> kBlockSize"
    by (simp add: o1_def next_offset_def kHeaderSize_def kBlockSize_def)
  then have o2: "o2 \<le> kBlockSize" by (simp add: o2_def fl_def)
  have tr: "(o1 + k) mod kBlockSize = (bo + length (trailer bo) + k) mod kBlockSize" if "bo \<le> kBlockSize" for k
    using that by (simp add: o1_def next_offset_def trailer_def)
  show ?case
  proof (cases "drop fl left = []")
    case True
    then have "snd (image_loop b left bo) = o2"
      "length (fst (image_loop b left bo)) = length (trailer bo) + (kHeaderSize + fl)"
      by (subst image_loop.simps, simp add: Let_def fl_def o1_def o2_def)+
    then show ?thesis using o2 tr [of "kHeaderSize + fl"] by (simp add: o2_def add.assoc)
  next
    case False
    then have s: "snd (image_loop b left bo) = snd (image_loop False (drop fl left) o2)"
      "length (fst (image_loop b left bo)) =
        length (trailer bo) + (kHeaderSize + fl) + length (fst (image_loop False (drop fl left) o2))"
      by (subst image_loop.simps, simp add: Let_def fl_def o1_def o2_def case_prod_beta)+
    from "1.IH" [OF o1_def fl_def refl o2_def False] o2
    have ih: "snd (image_loop False (drop fl left) o2) \<le> kBlockSize"
      "snd (image_loop False (drop fl left) o2) mod kBlockSize =
        (o2 + length (fst (image_loop False (drop fl left) o2))) mod kBlockSize" by blast+
    then show ?thesis
      using s tr [of "kHeaderSize + fl + length (fst (image_loop False (drop fl left) o2))"]
      by (simp add: o2_def add.assoc)
  qed
qed

lemma log_image_offset:
  "bo \<le> kBlockSize \<Longrightarrow> snd (log_image rs bo) \<le> kBlockSize \<and>
     snd (log_image rs bo) mod kBlockSize = (bo + length (fst (log_image rs bo))) mod kBlockSize"
proof (induction rs arbitrary: bo)
  case (Cons r rs)
  have "snd (image_loop True r bo) \<le> kBlockSize"
    and m: "snd (image_loop True r bo) mod kBlockSize = (bo + length (fst (image_loop True r bo))) mod kBlockSize"
    using image_loop_offset [of True r bo] Cons.prems by blast+
  with Cons.IH [of "snd (image_loop True r bo)"]
  show ?case
    using mod_add_cong [OF m refl, of "length (fst (log_image rs (snd (image_loop True r bo))))"]
    by (simp add: case_prod_beta Let_def add.assoc)
qed simp

lemma image_loop_block_end: "image_loop b left kBlockSize = image_loop b left 0"
  by (subst (1 2) image_loop.simps) (simp add: next_offset_def trailer_def kHeaderSize_def kBlockSize_def)

lemma log_image_block_end: "fst (log_image rs kBlockSize) = fst (log_image rs 0)"
  by (cases rs) (simp_all add: image_loop_block_end)

lemma log_image_mod: "bo \<le> kBlockSize \<Longrightarrow> fst (log_image rs (bo mod kBlockSize)) = fst (log_image rs bo)"
  using log_image_block_end by (cases "bo = kBlockSize") simp_all

text \<open>
  C1: whatever prefix of a log survives a crash, the reader returns exactly
  the records that survived completely, in order, reports no corruption and stops; with the
  whole file it returns every record.
\<close>

theorem log_crash_recovery:
  assumes "env_ok env H" "mem_NewWritableFile env f = (OK, Some p, e1)"
    "AddRecords mem_writable rs (Writer_new (e1, p)) = (s, w)"
    "log = the (file_contents (fst (dest w)) f)"
    "env_ok crashed H'" "file_contents crashed f = Some (take n log)"
    "mem_NewSequentialFile crashed f = (OK, Some h, e2)"
  shows "s = OK \<and>
    (\<exists>k r. ReadRecords mem_seq (Reader_new (e2, h) (Some []) True 0) = Some (take k rs, r) \<and>
       lr_reports r = Some [] \<and> k \<le> length rs \<and>
       length (fst (log_image (take k rs) 0)) \<le> n \<and>
       (k < length rs \<longrightarrow> n < length (fst (log_image (take (Suc k) rs) 0))) \<and>
       (length log \<le> n \<longrightarrow> k = length rs))"
proof -
  obtain a where a: "p = Some a" "env_ok e1 (add_mset a H)" "file_contents e1 = (file_contents env)(f \<mapsto> [])"
    "map_of (file_map e1) f = Some (Some a)"
    using NewWritableFile_ok [OF assms(1), of f] assms(2) by auto
  let ?C = "file_contents env"
  have v: "wr_valid (add_mset a H) ?C f a (e1, p)" using a by (simp add: wr_valid_def)
  have img: "ok s" "wr_contents f (dest w) = fst (log_image rs 0)"
    using mem_wr.AddRecords_image [of "add_mset a H" ?C f a "Writer_new (e1, p)" rs] v a(3) assms(3)
    by (simp_all add: Writer_new_def wr_contents_def)
  have log: "log = fst (log_image rs 0)" using img(2) assms(4) by (simp add: wr_contents_def)
  obtain b where b: "h = \<lparr>sfi_file = Some b, sfi_pos = 0\<rparr>" "env_ok e2 (add_mset b H')"
    "file_contents e2 = file_contents crashed" "map_of (file_map e2) f = Some (Some b)"
    using NewSequentialFile_ok [OF assms(5,6)] assms(7) by auto
  obtain fs where fs: "file_states e2 b = Some fs" "take n log = fs_contents fs" "fs_ok fs"
    using file_contents_SomeD [OF b(2), of f "take n log"] b(3,4) assms(6) env_okD(5) [OF b(2)]
    by (auto simp: state_ok_def)
  have "seq_valid e2 b (e2, h)" "seq_rest (e2, h) = take n log"
    using fs b(1) by (auto simp: seq_valid_def seq_rest_def deref_def)
  then have at: "reader_at seq_rest (seq_valid e2 b) (Reader_new (e2, h) (Some []) True 0) (take n log) kBlockSize"
    by (simp add: reader_at_def Reader_new_def)
  have be: "fst (log_image xs kBlockSize) = fst (log_image xs 0)" for xs by (rule log_image_block_end)
  have "take n log @ drop n log = fst (log_image rs kBlockSize)" by (simp add: log be)
  from mem_sequential.ReadRecords_image [OF at this] obtain k r where k:
    "ReadRecords mem_seq (Reader_new (e2, h) (Some []) True 0) = Some (take k rs, r)"
    "lr_reports r = Some []" "k \<le> length rs" "length (fst (log_image (take k rs) 0)) \<le> length (take n log)"
    "k < length rs \<longrightarrow> length (take n log) < length (fst (log_image (take (Suc k) rs) 0))"
    unfolding be by (auto simp: Reader_new_def)
  have le: "length (fst (log_image (take j rs) 0)) \<le> length log" for j
    using log_image_append(1) [of "take j rs" "drop j rs" 0] by (simp add: log)
  have "length (fst (log_image (take k rs) 0)) \<le> n" using k(4) by simp
  moreover have "k < length rs \<longrightarrow> n < length (fst (log_image (take (Suc k) rs) 0))"
    using k(5) le [of "Suc k"] by (auto simp: min_def split: if_splits)
  moreover have "length log \<le> n \<longrightarrow> k = length rs"
    using k(3,5) le [of "Suc k"] by (auto simp: min_def)
  ultimately show ?thesis using k(1-3) img(1) by (auto simp: ok_iff_OK)
qed

text \<open>
  C5: a writer that reopens a log with the length of the file continues it exactly as
  the first writer would have: the file holds the same bytes as after one run over all records.
\<close>

theorem log_reuse:
  assumes "env_ok env H" "mem_NewWritableFile env f = (OK, Some p, e1)"
    "AddRecords mem_writable rs (Writer_new (e1, p)) = (s, w)"
    "mem_GetFileSize (fst (dest w)) f = (s', size')"
    "AddRecords mem_writable rs' (Writer_reopen (dest w) size') = (s'', w')"
    "AddRecords mem_writable (rs @ rs') (Writer_new (e1, p)) = (s''', w'')"
  shows "s'' = OK \<and> s''' = OK \<and>
    file_contents (fst (dest w')) f = file_contents (fst (dest w'')) f"
proof -
  obtain a where a: "p = Some a" "env_ok e1 (add_mset a H)" "file_contents e1 = (file_contents env)(f \<mapsto> [])"
    "map_of (file_map e1) f = Some (Some a)"
    using NewWritableFile_ok [OF assms(1), of f] assms(2) by auto
  let ?C = "file_contents env"
  note A = mem_wr.AddRecords_image [of "add_mset a H" ?C f a]
  have v: "wr_valid (add_mset a H) ?C f a (e1, p)" using a by (simp add: wr_valid_def)
  have w: "wr_contents f (dest w) = fst (log_image rs 0)" "wr_valid (add_mset a H) ?C f a (dest w)"
    "block_offset w = snd (log_image rs 0)"
    using A [of "Writer_new (e1, p)" rs] v a(3) assms(3)
    by (simp_all add: Writer_new_def wr_contents_def)
  have ok: "env_ok (fst (dest w)) (add_mset a H)" and c: "file_contents (fst (dest w)) f = Some (fst (log_image rs 0))"
    using w(1,2) by (auto simp: wr_valid_def wr_contents_def)
  have size: "size' = length (fst (log_image rs 0))"
    using file_contents_SomeD [OF ok c] assms(4) env_okD(5) [OF ok]
    by (auto simp: mem_GetFileSize_def deref_def state_ok_def)
  have "size' mod kBlockSize = snd (log_image rs 0) mod kBlockSize"
    using log_image_offset [of 0 rs] size by simp
  then have img': "fst (log_image rs' (size' mod kBlockSize)) = fst (log_image rs' (snd (log_image rs 0)))"
    using log_image_offset [of 0 rs] log_image_mod [of "snd (log_image rs 0)" rs'] by simp
  have w': "ok s''" "wr_contents f (dest w') = fst (log_image rs 0) @ fst (log_image rs' (snd (log_image rs 0)))"
    "wr_valid (add_mset a H) ?C f a (dest w')"
    using A [of "Writer_reopen (dest w) size'" rs'] w assms(5)
    by (simp_all add: Writer_reopen_def img')
  have w'': "ok s'''" "wr_contents f (dest w'') = fst (log_image (rs @ rs') 0)"
    "wr_valid (add_mset a H) ?C f a (dest w'')"
    using A [of "Writer_new (e1, p)" "rs @ rs'"] v a(3) assms(6)
    by (simp_all add: Writer_new_def wr_contents_def)
  show ?thesis
    using w' w'' unfolding log_image_append
    by (auto simp: ok_iff_OK wr_valid_def wr_contents_def)
qed

text \<open>A small log of two records, for the instances.\<close>

definition demo_file :: bytes where "demo_file = [0x6C]"
definition demo_records :: "bytes list" where "demo_records = [[1, 2, 3], [4]]"

lemma demo_open:
  "\<exists>e1. mem_NewWritableFile NewMemEnv demo_file = (OK, Some (Some 0), e1)"
  by (simp add: mem_NewWritableFile_def NewMemEnv_def new_state_def)

theorem log_crash_recovery_witness:
  "\<exists>crashed h e2 k r. mem_NewSequentialFile crashed demo_file = (OK, Some h, e2) \<and>
     ReadRecords mem_seq (Reader_new (e2, h) (Some []) True 0) = Some (take k demo_records, r)"
proof -
  obtain e1 where e1: "mem_NewWritableFile NewMemEnv demo_file = (OK, Some (Some 0), e1)"
    using demo_open by blast
  obtain s w where w: "AddRecords mem_writable demo_records (Writer_new (e1, Some 0)) = (s, w)"
    by (cases "AddRecords mem_writable demo_records (Writer_new (e1, Some 0))")
  let ?log = "the (file_contents (fst (dest w)) demo_file)"
  obtain crashed where c: "env_ok crashed {#}" "file_contents crashed demo_file = Some (take 15 ?log)"
    using WriteStringToFile_ok [OF NewMemEnv_ok, of "take 15 ?log" demo_file True] by auto
  obtain a e2 where e2: "mem_NewSequentialFile crashed demo_file = (OK, Some \<lparr>sfi_file = Some a, sfi_pos = 0\<rparr>, e2)"
    using NewSequentialFile_ok [OF c] by blast
  from log_crash_recovery [OF NewMemEnv_ok e1 w refl c e2] e2 show ?thesis by blast
qed

theorem log_reuse_witness:
  "\<exists>e1 w w' size'. mem_NewWritableFile NewMemEnv demo_file = (OK, Some (Some 0), e1) \<and>
     w = snd (AddRecords mem_writable demo_records (Writer_new (e1, Some 0))) \<and>
     mem_GetFileSize (fst (dest w)) demo_file = (OK, size') \<and>
     fst (AddRecords mem_writable demo_records (Writer_reopen (dest w) size')) = OK"
proof -
  obtain e1 where e1: "mem_NewWritableFile NewMemEnv demo_file = (OK, Some (Some 0), e1)"
    using demo_open by blast
  define w where "w = snd (AddRecords mem_writable demo_records (Writer_new (e1, Some 0)))"
  obtain a e1' where a: "mem_NewWritableFile NewMemEnv demo_file = (OK, Some (Some a), e1')"
    "env_ok e1' (add_mset a {#})" "file_contents e1' = (file_contents NewMemEnv)(demo_file \<mapsto> [])"
    "map_of (file_map e1') demo_file = Some (Some a)"
    using NewWritableFile_ok [OF NewMemEnv_ok, of demo_file] by auto
  have v: "wr_valid (add_mset a {#}) (file_contents NewMemEnv) demo_file a (e1, Some 0)"
    using a e1 by (simp add: wr_valid_def)
  then have "wr_valid (add_mset a {#}) (file_contents NewMemEnv) demo_file a (dest w)"
    using mem_wr.AddRecords_image [of "add_mset a {#}" "file_contents NewMemEnv" demo_file a
        "Writer_new (e1, Some 0)" demo_records]
    by (simp add: w_def Writer_new_def)
  then have "map_of (file_map (fst (dest w))) demo_file = Some (Some a)" by (simp add: wr_valid_def)
  then have g: "mem_GetFileSize (fst (dest w)) demo_file = (OK, snd (mem_GetFileSize (fst (dest w)) demo_file))"
    by (simp add: mem_GetFileSize_def)
  have "AddRecords mem_writable demo_records (Writer_new (e1, Some 0)) = (fst (AddRecords mem_writable demo_records (Writer_new (e1, Some 0))), w)"
    by (simp add: w_def)
  from log_reuse [OF NewMemEnv_ok e1 this g prod.collapse [symmetric] prod.collapse [symmetric]]
  show ?thesis using e1 w_def g by blast
qed

end
