(* ===== verification/Format.thy ===== *)
theory Format
  imports LogRecovery Bloom
begin

section \<open>Table file format (\<^verbatim>\<open>table/format.cc\<close>, \<^verbatim>\<open>include/leveldb/options.h\<close>)\<close>

text \<open>
  The options of a database, the handles and the footer that locate the parts of a table
  file, and \<open>ReadBlock\<close>, which reads one stored block, checks its checksum and undoes its
  compression. Snappy is not part of the sources: its three entry points in
  \<^verbatim>\<open>port/port_stdcxx.h\<close> are the fields of a record, a parameter here, and \<open>no_snappy\<close> is what
  the port does when it is built without the library.
\<close>

datatype CompressionType = kNoCompression | kSnappyCompression

fun compression_byte :: "CompressionType \<Rightarrow> byte" where
  "compression_byte kNoCompression = 0x0"
| "compression_byte kSnappyCompression = 0x1"

record Options =
  opt_comparator :: Comparator
  create_if_missing :: bool
  error_if_exists :: bool
  paranoid_checks :: bool
  write_buffer_size :: nat
  max_open_files :: int
  block_size :: nat
  block_restart_interval :: int
  max_file_size :: nat
  compression :: CompressionType
  reuse_logs :: bool
  opt_filter_policy :: "FilterPolicy option"

definition Options_new :: Options where
  "Options_new =
     \<lparr>opt_comparator = BytewiseComparator, create_if_missing = False, error_if_exists = False,
      paranoid_checks = False, write_buffer_size = 4 * 1024 * 1024, max_open_files = 1000,
      block_size = 4 * 1024, block_restart_interval = 16, max_file_size = 2 * 1024 * 1024,
      compression = kSnappyCompression, reuse_logs = False, opt_filter_policy = None\<rparr>"

record ReadOptions =
  verify_checksums :: bool
  fill_cache :: bool

definition ReadOptions_new :: ReadOptions where
  "ReadOptions_new = \<lparr>verify_checksums = False, fill_cache = True\<rparr>"

subsection \<open>Block handles and the footer\<close>

definition kMaxEncodedLength :: nat where "kMaxEncodedLength = 10 + 10"

record BlockHandle =
  bh_offset :: u64
  bh_size :: u64

definition BlockHandle_new :: BlockHandle where
  "BlockHandle_new = \<lparr>bh_offset = NOT 0, bh_size = NOT 0\<rparr>"

definition BlockHandle_EncodeTo :: "BlockHandle \<Rightarrow> bytes \<Rightarrow> bytes" where
  "BlockHandle_EncodeTo h dst =
     (let dst = PutVarint64 dst (bh_offset h); dst = PutVarint64 dst (bh_size h) in dst)"

text \<open>The result is the status, the rest of the input and the handle, whose offset is already
  overwritten when only the size fails to parse.\<close>

definition BlockHandle_DecodeFrom :: "BlockHandle \<Rightarrow> bytes \<Rightarrow> Status \<times> bytes \<times> BlockHandle" where
  "BlockHandle_DecodeFrom h input =
     (case GetVarint64 input of
        None \<Rightarrow> (Corruption (ascii ''bad block handle'') [], input, h)
      | Some (off, input) \<Rightarrow>
          (let h = h\<lparr>bh_offset := off\<rparr> in
           case GetVarint64 input of
             None \<Rightarrow> (Corruption (ascii ''bad block handle'') [], input, h)
           | Some (sz, input) \<Rightarrow> (OK, input, h\<lparr>bh_size := sz\<rparr>)))"

definition kEncodedLength :: nat where "kEncodedLength = 2 * kMaxEncodedLength + 8"

definition kTableMagicNumber :: u64 where "kTableMagicNumber = 0xdb4775248b80fb57"

definition kBlockTrailerSize :: nat where "kBlockTrailerSize = 5"

record Footer =
  metaindex_handle :: BlockHandle
  index_handle :: BlockHandle

definition Footer_EncodeTo :: "Footer \<Rightarrow> bytes \<Rightarrow> bytes" where
  "Footer_EncodeTo f dst =
     (let dst = BlockHandle_EncodeTo (metaindex_handle f) dst;
          dst = BlockHandle_EncodeTo (index_handle f) dst;
          n = 2 * kMaxEncodedLength;
          dst = take n dst @ replicate (n - length dst) 0;
          dst = PutFixed32 dst (ucast (kTableMagicNumber AND 0xffffffff));
          dst = PutFixed32 dst (ucast (drop_bit 32 kTableMagicNumber))
      in dst)"

text \<open>As the code, this reads the magic number at a fixed distance from the start of the input.\<close>

definition Footer_DecodeFrom :: "Footer \<Rightarrow> bytes \<Rightarrow> Status \<times> bytes \<times> Footer" where
  "Footer_DecodeFrom f input =
     (let magic_ptr = drop (kEncodedLength - 8) input;
          magic_lo = DecodeFixed32 magic_ptr;
          magic_hi = DecodeFixed32 (drop 4 magic_ptr);
          magic = push_bit 32 (ucast magic_hi) OR (ucast magic_lo :: u64)
      in if magic \<noteq> kTableMagicNumber
         then (Corruption (ascii ''not an sstable (bad magic number)'') [], input, f)
         else
           (let (result, input, mh) = BlockHandle_DecodeFrom (metaindex_handle f) input;
                f = f\<lparr>metaindex_handle := mh\<rparr>;
                (result, input, f) =
                  (if ok result
                   then (let (result, input, ih) = BlockHandle_DecodeFrom (index_handle f) input
                         in (result, input, f\<lparr>index_handle := ih\<rparr>))
                   else (result, input, f));
                input = (if ok result then drop 8 magic_ptr else input)
            in (result, input, f)))"

subsection \<open>Reading a block\<close>

record Snappy =
  Snappy_Compress :: "bytes \<Rightarrow> bytes option"
  Snappy_GetUncompressedLength :: "bytes \<Rightarrow> nat option"
  Snappy_Uncompress :: "bytes \<Rightarrow> bytes option"

definition no_snappy :: Snappy where
  "no_snappy = \<lparr>Snappy_Compress = (\<lambda>_. None), Snappy_GetUncompressedLength = (\<lambda>_. None),
     Snappy_Uncompress = (\<lambda>_. None)\<rparr>"

record BlockContents =
  bc_data :: bytes
  cachable :: bool
  heap_allocated :: bool

definition BlockContents_empty :: BlockContents where
  "BlockContents_empty = \<lparr>bc_data = [], cachable = False, heap_allocated = False\<rparr>"

text \<open>
  \<open>in_scratch\<close> tells whether the file's \<open>Read\<close> copies into the buffer it is given (as the
  in-memory file does) or returns a pointer of its own (as a mapped file does). The sum
  \<open>n + kBlockTrailerSize\<close> wraps around at 64 bits as in the code. A read of the type byte or of
  the checksum outside the bytes returned by \<open>Read\<close> is the value \<open>None\<close>.
\<close>

definition ReadBlock ::
    "'f RandomAccessFile \<Rightarrow> bool \<Rightarrow> Snappy \<Rightarrow> 'f \<Rightarrow> ReadOptions \<Rightarrow> BlockHandle \<Rightarrow>
     (Status \<times> BlockContents) option" where
  "ReadBlock ops in_scratch snappy file options handle =
     (let result = BlockContents_empty;
          n = bh_size handle;
          m = n + word_of_nat kBlockTrailerSize;
          (s, contents) = raf_Read ops file (unat (bh_offset handle)) (unat m)
      in if \<not> ok s then Some (s, result)
         else if length contents \<noteq> unat m
         then Some (Corruption (ascii ''truncated block read'') [], result)
         else if length contents < unat n + kBlockTrailerSize then None
         else if verify_checksums options \<and>
           crc32c_Value (take (unat n + 1) contents) \<noteq>
             crc32c_Unmask (DecodeFixed32 (drop (unat n + 1) contents))
         then Some (Corruption (ascii ''block checksum mismatch'') [], result)
         else
           (let data = take (unat n) contents; type = contents ! unat n in
            if type = compression_byte kNoCompression
            then Some (OK, \<lparr>bc_data = data, cachable = in_scratch, heap_allocated = in_scratch\<rparr>)
            else if type = compression_byte kSnappyCompression
            then (case Snappy_GetUncompressedLength snappy data of
                    None \<Rightarrow> Some (Corruption (ascii ''corrupted compressed block contents'') [], result)
                  | Some ulength \<Rightarrow>
                      (case Snappy_Uncompress snappy data of
                         None \<Rightarrow> Some (Corruption (ascii ''corrupted compressed block contents'') [], result)
                       | Some ubuf \<Rightarrow>
                           Some (OK, \<lparr>bc_data = take ulength ubuf, cachable = True,
                                      heap_allocated = True\<rparr>)))
            else Some (Corruption (ascii ''bad block type'') [], result)))"

subsection \<open>Lemmas\<close>

lemma ok_OK [simp]: "ok OK"
  by (simp add: ok_def OK_def)

lemma BlockHandle_EncodeTo_eq:
  "BlockHandle_EncodeTo h dst = dst @ EncodeVarint64 (bh_offset h) @ EncodeVarint64 (bh_size h)"
  by (simp add: BlockHandle_EncodeTo_def PutVarint64_def)

lemma BlockHandle_Decode_Encode [simp]:
  "BlockHandle_DecodeFrom h0 (BlockHandle_EncodeTo h [] @ rest) = (OK, rest, h)"
  by (simp add: BlockHandle_EncodeTo_eq BlockHandle_DecodeFrom_def)

lemma BlockHandle_Decode_Encode_Nil [simp]:
  "BlockHandle_DecodeFrom h0 (BlockHandle_EncodeTo h []) = (OK, [], h)"
  using BlockHandle_Decode_Encode [of h0 h "[]"] by simp

lemma length_BlockHandle_EncodeTo: "length (BlockHandle_EncodeTo h []) \<le> kMaxEncodedLength"
  using length_EncodeVarint64_10 [of "bh_offset h"] length_EncodeVarint64_10 [of "bh_size h"]
  by (simp add: BlockHandle_EncodeTo_eq kMaxEncodedLength_def)

lemma magic_split:
  "push_bit 32 (ucast (ucast (drop_bit 32 kTableMagicNumber) :: u32)) OR
     (ucast (ucast (kTableMagicNumber AND 0xffffffff) :: u32) :: u64) = kTableMagicNumber"
  by (simp add: kTableMagicNumber_def)

text \<open>The footer written to an empty string: handles, padding and the magic number.\<close>

lemma Footer_EncodeTo_eq:
  obtains pad where
    "Footer_EncodeTo f [] =
       BlockHandle_EncodeTo (metaindex_handle f) [] @ BlockHandle_EncodeTo (index_handle f) [] @ pad @
       EncodeFixed32 (ucast (kTableMagicNumber AND 0xffffffff)) @
       EncodeFixed32 (ucast (drop_bit 32 kTableMagicNumber))"
    "length (BlockHandle_EncodeTo (metaindex_handle f) []) +
       length (BlockHandle_EncodeTo (index_handle f) []) + length pad = 40"
proof
  let ?a = "BlockHandle_EncodeTo (metaindex_handle f) []"
  let ?b = "BlockHandle_EncodeTo (index_handle f) []"
  let ?pad = "replicate (40 - (length ?a + length ?b)) (0 :: byte)"
  have l: "length ?a + length ?b \<le> 40"
    using length_BlockHandle_EncodeTo [of "metaindex_handle f"] length_BlockHandle_EncodeTo [of "index_handle f"]
    by (simp add: kMaxEncodedLength_def)
  then show "length ?a + length ?b + length ?pad = 40" by simp
  have "BlockHandle_EncodeTo (index_handle f) ?a = ?a @ ?b" by (simp add: BlockHandle_EncodeTo_eq)
  with l show "Footer_EncodeTo f [] = ?a @ ?b @ ?pad @
      EncodeFixed32 (ucast (kTableMagicNumber AND 0xffffffff)) @
      EncodeFixed32 (ucast (drop_bit 32 kTableMagicNumber))"
    by (simp add: Footer_EncodeTo_def kMaxEncodedLength_def PutFixed32_def Let_def)
qed

lemma Footer_Decode_Encode:
  "Footer_DecodeFrom f0 (Footer_EncodeTo f [] @ rest) = (OK, rest, f)"
  "length (Footer_EncodeTo f []) = kEncodedLength"
proof -
  obtain pad where e: "Footer_EncodeTo f [] =
       BlockHandle_EncodeTo (metaindex_handle f) [] @ BlockHandle_EncodeTo (index_handle f) [] @ pad @
       EncodeFixed32 (ucast (kTableMagicNumber AND 0xffffffff)) @
       EncodeFixed32 (ucast (drop_bit 32 kTableMagicNumber))"
    and l: "length (BlockHandle_EncodeTo (metaindex_handle f) []) +
       length (BlockHandle_EncodeTo (index_handle f) []) + length pad = 40"
    by (rule Footer_EncodeTo_eq)
  have d: "drop 40 (Footer_EncodeTo f [] @ rest) =
      EncodeFixed32 (ucast (kTableMagicNumber AND 0xffffffff)) @
      EncodeFixed32 (ucast (drop_bit 32 kTableMagicNumber)) @ rest"
    unfolding e using l by simp
  have k: "kEncodedLength - 8 = 40" by (simp add: kEncodedLength_def kMaxEncodedLength_def)
  show "length (Footer_EncodeTo f []) = kEncodedLength"
    unfolding e using l by (simp add: kEncodedLength_def kMaxEncodedLength_def)
  show "Footer_DecodeFrom f0 (Footer_EncodeTo f [] @ rest) = (OK, rest, f)"
    unfolding Footer_DecodeFrom_def k d Let_def drop_drop
    by (simp add: magic_split del: drop_bit_eq_div) (simp add: e)
qed

text \<open>What is stored for a block: its contents, the type byte and the checksum of both.\<close>

definition stored_block :: "bytes \<Rightarrow> CompressionType \<Rightarrow> bytes" where
  "stored_block d t =
     (let body = d @ [compression_byte t] in
      body @ EncodeFixed32 (crc32c_Mask (crc32c_Value body)))"

lemma length_stored_block [simp]: "length (stored_block d t) = length d + kBlockTrailerSize"
  by (simp add: stored_block_def kBlockTrailerSize_def Let_def)

context random_access_file
begin

text \<open>A stored block is read back, with and without checksum verification.\<close>

lemma ReadBlock_stored:
  assumes v: "valid f" and c: "contents f = pre @ stored_block d t @ post"
    and h: "handle = \<lparr>bh_offset = word_of_nat (length pre), bh_size = word_of_nat (length d)\<rparr>"
    and sz: "length pre < 2 ^ 64" "length d + kBlockTrailerSize < 2 ^ 64"
  shows "ReadBlock ops in_scratch snappy f options handle =
    (case t of
       kNoCompression \<Rightarrow>
         Some (OK, \<lparr>bc_data = d, cachable = in_scratch, heap_allocated = in_scratch\<rparr>)
     | kSnappyCompression \<Rightarrow>
         (case (Snappy_GetUncompressedLength snappy d, Snappy_Uncompress snappy d) of
            (Some l, Some u) \<Rightarrow> Some (OK, \<lparr>bc_data = take l u, cachable = True, heap_allocated = True\<rparr>)
          | _ \<Rightarrow> Some (Corruption (ascii ''corrupted compressed block contents'') [], BlockContents_empty)))"
proof -
  have lt: "length d < 2 ^ 64" using sz by simp
  have off: "unat (bh_offset handle) = length pre"
    unfolding h using sz(1) by (simp add: unat_of_nat_u64)
  have n: "unat (bh_size handle) = length d"
    unfolding h using lt by (simp add: unat_of_nat_u64)
  have "bh_size handle + word_of_nat kBlockTrailerSize = (word_of_nat (length d + kBlockTrailerSize) :: u64)"
    unfolding h by simp
  then have m: "unat (bh_size handle + word_of_nat kBlockTrailerSize) = length d + kBlockTrailerSize"
    using unat_of_nat_u64 [OF sz(2)] by simp
  have r: "raf_Read ops f (length pre) (length d + kBlockTrailerSize) = (OK, stored_block d t)"
    using read_at [OF v, of "length pre" "length d + kBlockTrailerSize"] c by simp
  have s1: "take (length d + 1) (stored_block d t) = d @ [compression_byte t]"
    and s2: "drop (length d + 1) (stored_block d t) =
      EncodeFixed32 (crc32c_Mask (crc32c_Value (d @ [compression_byte t])))"
    and s3: "take (length d) (stored_block d t) = d"
    and s4: "stored_block d t ! length d = compression_byte t"
    by (simp_all add: stored_block_def Let_def nth_append)
  show ?thesis
    unfolding ReadBlock_def Let_def off n m r split s1 s2 s3 s4
    by (cases t) (simp_all split: option.splits)
qed

end

subsection \<open>Properties\<close>

text \<open>An encoded footer has exactly the length that the reader of a table
  subtracts from the file size, and decoding it returns its two handles and the bytes that
  follow it.\<close>

theorem footer_roundtrip:
  "length (Footer_EncodeTo f []) = kEncodedLength \<and>
   Footer_DecodeFrom f0 (Footer_EncodeTo f [] @ rest) = (OK, rest, f)"
  by (simp add: Footer_Decode_Encode)

text \<open>
  \<open>EncodeTo\<close> pads by resizing the whole destination to 40 bytes,
  not 40 bytes past its original size, so a footer appended to a string of 40 bytes or more
  loses both handles and the string's tail.
\<close>

theorem footer_appended_truncates:
  assumes "40 \<le> length dst"
  shows "Footer_EncodeTo f dst = take 40 dst @ drop 40 (Footer_EncodeTo f [])"
proof -
  obtain pad where e: "Footer_EncodeTo f [] =
       BlockHandle_EncodeTo (metaindex_handle f) [] @ BlockHandle_EncodeTo (index_handle f) [] @ pad @
       EncodeFixed32 (ucast (kTableMagicNumber AND 0xffffffff)) @
       EncodeFixed32 (ucast (drop_bit 32 kTableMagicNumber))"
    and l: "length (BlockHandle_EncodeTo (metaindex_handle f) []) +
       length (BlockHandle_EncodeTo (index_handle f) []) + length pad = 40"
    by (rule Footer_EncodeTo_eq)
  have "drop 40 (Footer_EncodeTo f []) =
      EncodeFixed32 (ucast (kTableMagicNumber AND 0xffffffff)) @
      EncodeFixed32 (ucast (drop_bit 32 kTableMagicNumber))"
    unfolding e using l by simp
  then show ?thesis
    using assms
    by (simp add: Footer_EncodeTo_def kMaxEncodedLength_def PutFixed32_def Let_def BlockHandle_EncodeTo_eq
        del: drop_bit_eq_div)
qed

theorem footer_appended_truncates_witness:
  "Footer_EncodeTo \<lparr>metaindex_handle = \<lparr>bh_offset = 1, bh_size = 2\<rparr>, index_handle = \<lparr>bh_offset = 3, bh_size = 4\<rparr>\<rparr>
     (replicate 40 7) =
   take 40 (replicate 40 7) @
   drop 40 (Footer_EncodeTo \<lparr>metaindex_handle = \<lparr>bh_offset = 1, bh_size = 2\<rparr>,
     index_handle = \<lparr>bh_offset = 3, bh_size = 4\<rparr>\<rparr> [])"
  by (rule footer_appended_truncates) simp

text \<open>
  C40: a handle whose size is close to \<open>2^64\<close> makes the length of the read
  wrap around to a few bytes, the length check compares with the same wrapped number, and the
  type byte is then fetched far outside the buffer.
\<close>

theorem readblock_size_wraps:
  assumes "random_access_file ops contents valid" and "valid f"
    and "unat (bh_offset handle) \<le> length (contents f)"
    and "bh_size handle = - word_of_nat kBlockTrailerSize"
  shows "ReadBlock ops in_scratch snappy f options handle = None"
proof -
  have m: "unat (bh_size handle + word_of_nat kBlockTrailerSize) = 0" using assms(4) by simp
  have "unat (bh_size handle) \<noteq> 0" using assms(4) by (simp add: kBlockTrailerSize_def)
  moreover have "raf_Read ops f (unat (bh_offset handle)) 0 = (OK, [])"
    using random_access_file.read_at [OF assms(1,2), of "unat (bh_offset handle)" 0] assms(3) by simp
  ultimately show ?thesis
    unfolding ReadBlock_def Let_def m by (simp add: kBlockTrailerSize_def)
qed

theorem readblock_size_wraps_witness:
  "ReadBlock mem_random True no_snappy (NewMemEnv\<lparr>file_states := [0 \<mapsto> FileState_new]\<rparr>, Some 0)
     ReadOptions_new \<lparr>bh_offset = 0, bh_size = 0xfffffffffffffffb\<rparr> = None"
proof (rule readblock_size_wraps)
  show "random_access_file mem_random random_contents random_valid"
    by (rule mem_rand.random_access_file_axioms)
  show "random_valid (NewMemEnv\<lparr>file_states := [0 \<mapsto> FileState_new]\<rparr>, Some 0)"
    by (simp add: random_valid_def deref_def fs_ok_def FileState_new_def kMemBlockSize_def)
qed (simp_all add: kBlockTrailerSize_def)

end
