(* ===== verification/Iterators.thy ===== *)
theory Iterators
  imports Format MemTable
begin

section \<open>Iterators (\<^verbatim>\<open>include/leveldb/iterator.h\<close>, \<^verbatim>\<open>table/iterator.cc\<close>)\<close>

text \<open>
  An \<open>Iterator\<close> object is a state together with the record of its virtual methods. A method
  whose loop does not return, or that reads memory it does not own, has the value \<open>None\<close>. The
  locale \<open>iterator\<close> is the contract all iterators share: \<open>at it es i\<close> says that the object
  iterates over the sorted entries \<open>es\<close> and stands at the \<open>i\<close>-th one, or, when \<open>i\<close> is their
  number, is not valid. The merging iterator, the two-level iterator and the table rely on it;
  the memtable and the blocks of a table provide it.
\<close>

record 'i Iterator =
  it_Valid :: "'i \<Rightarrow> bool"
  it_Seek :: "bytes \<Rightarrow> 'i \<Rightarrow> 'i option"
  it_SeekToFirst :: "'i \<Rightarrow> 'i option"
  it_SeekToLast :: "'i \<Rightarrow> 'i option"
  it_Next :: "'i \<Rightarrow> 'i option"
  it_Prev :: "'i \<Rightarrow> 'i option"
  it_key :: "'i \<Rightarrow> bytes"
  it_value :: "'i \<Rightarrow> bytes option"
  it_status :: "'i \<Rightarrow> Status"

subsection \<open>Empty iterators\<close>

type_synonym EmptyIterator = Status

definition EmptyIterator_ops :: "EmptyIterator Iterator" where
  "EmptyIterator_ops =
     \<lparr>it_Valid = (\<lambda>_. False), it_Seek = (\<lambda>_ it. Some it), it_SeekToFirst = Some,
      it_SeekToLast = Some, it_Next = (\<lambda>_. None), it_Prev = (\<lambda>_. None), it_key = (\<lambda>_. []),
      it_value = (\<lambda>_. None), it_status = (\<lambda>s. s)\<rparr>"

definition NewEmptyIterator :: EmptyIterator where "NewEmptyIterator = OK"

definition NewErrorIterator :: "Status \<Rightarrow> EmptyIterator" where "NewErrorIterator status = status"

subsection \<open>Cleanup functions\<close>

text \<open>
  The list of cleanup functions starts in the iterator object itself: a head node, empty
  while its function is null, and the further nodes. The destructor runs them; the model
  returns the calls in order.
\<close>

record 'f CleanupList =
  cleanup_head :: "'f option"
  cleanup_next :: "'f list"

definition CleanupList_new :: "'f CleanupList" where
  "CleanupList_new = \<lparr>cleanup_head = None, cleanup_next = []\<rparr>"

definition RegisterCleanup :: "'f \<Rightarrow> 'f CleanupList \<Rightarrow> 'f CleanupList" where
  "RegisterCleanup f l =
     (if cleanup_head l = None then l\<lparr>cleanup_head := Some f\<rparr>
      else l\<lparr>cleanup_next := f # cleanup_next l\<rparr>)"

definition Iterator_destroy :: "'f CleanupList \<Rightarrow> 'f list" where
  "Iterator_destroy l = (case cleanup_head l of None \<Rightarrow> [] | Some f \<Rightarrow> f # cleanup_next l)"

subsection \<open>The contract\<close>

definition sorted_entries :: "Comparator \<Rightarrow> (bytes \<Rightarrow> bool) \<Rightarrow> (bytes \<times> bytes) list \<Rightarrow> bool" where
  "sorted_entries c valid es \<longleftrightarrow>
     sorted_wrt (\<lambda>a b. Compare c (fst a) (fst b) < 0) es \<and> (\<forall>e \<in> set es. valid (fst e))"

text \<open>The position of the first entry whose key is at or past a target.\<close>

definition first_ge :: "Comparator \<Rightarrow> (bytes \<times> bytes) list \<Rightarrow> bytes \<Rightarrow> nat" where
  "first_ge c es t = length (takeWhile (\<lambda>e. Compare c (fst e) t < 0) es)"

lemma first_ge_le: "first_ge c es t \<le> length es"
  by (simp add: first_ge_def length_takeWhile_le)

lemma drop_first_ge: "drop (first_ge c es t) es = dropWhile (\<lambda>e. Compare c (fst e) t < 0) es"
  by (simp add: first_ge_def dropWhile_eq_drop)

lemma first_ge_eqI:
  assumes "n \<le> length es" and "\<And>i. i < n \<Longrightarrow> Compare c (fst (es ! i)) t < 0"
    and "n < length es \<Longrightarrow> \<not> Compare c (fst (es ! n)) t < 0"
  shows "first_ge c es t = n"
proof -
  have "takeWhile (\<lambda>e. Compare c (fst e) t < 0) es = take n es"
  proof (rule takeWhile_eq_take_P_nth)
    show "\<And>i. \<lbrakk>i < n; i < length es\<rbrakk> \<Longrightarrow> Compare c (fst (es ! i)) t < 0"
      using assms(2) by blast
    show "n < length es \<Longrightarrow> \<not> Compare c (fst (es ! n)) t < 0" by (rule assms(3))
  qed
  then show ?thesis using assms(1) by (simp add: first_ge_def)
qed

text \<open>What a client reads when it iterates forwards or backwards until the end.\<close>

fun scan_forward :: "'i Iterator \<Rightarrow> nat \<Rightarrow> 'i \<Rightarrow> (bytes \<times> bytes) list option" where
  "scan_forward ops fuel it =
     (if \<not> it_Valid ops it then Some []
      else case fuel of 0 \<Rightarrow> None
      | Suc fuel \<Rightarrow>
          Option.bind (it_value ops it) (\<lambda>v.
          Option.bind (it_Next ops it) (\<lambda>it'.
          map_option (Cons (it_key ops it, v)) (scan_forward ops fuel it'))))"

fun scan_backward :: "'i Iterator \<Rightarrow> nat \<Rightarrow> 'i \<Rightarrow> (bytes \<times> bytes) list option" where
  "scan_backward ops fuel it =
     (if \<not> it_Valid ops it then Some []
      else case fuel of 0 \<Rightarrow> None
      | Suc fuel \<Rightarrow>
          Option.bind (it_value ops it) (\<lambda>v.
          Option.bind (it_Prev ops it) (\<lambda>it'.
          map_option (Cons (it_key ops it, v)) (scan_backward ops fuel it'))))"

declare scan_forward.simps [simp del] scan_backward.simps [simp del]

text \<open>
  The abstract iterator: a position in the list of entries, and how a sequence of calls moves
  it. A call of \<open>Next\<close> or \<open>Prev\<close> needs a valid position.
\<close>

datatype move = ToFirst | ToLast | ToKey bytes | Forward | Backward

fun cursor_move :: "Comparator \<Rightarrow> (bytes \<times> bytes) list \<Rightarrow> move \<Rightarrow> nat \<Rightarrow> nat option" where
  "cursor_move c es ToFirst i = Some 0"
| "cursor_move c es ToLast i = Some (length es - 1)"
| "cursor_move c es (ToKey t) i = Some (first_ge c es t)"
| "cursor_move c es Forward i = (if i < length es then Some (i + 1) else None)"
| "cursor_move c es Backward i =
     (if i < length es then Some (if i = 0 then length es else i - 1) else None)"

fun cursor_moves :: "Comparator \<Rightarrow> (bytes \<times> bytes) list \<Rightarrow> move list \<Rightarrow> nat \<Rightarrow> nat option" where
  "cursor_moves c es [] i = Some i"
| "cursor_moves c es (m # ms) i = Option.bind (cursor_move c es m i) (cursor_moves c es ms)"

fun run_move :: "'i Iterator \<Rightarrow> move \<Rightarrow> 'i \<Rightarrow> 'i option" where
  "run_move ops ToFirst = it_SeekToFirst ops"
| "run_move ops ToLast = it_SeekToLast ops"
| "run_move ops (ToKey t) = it_Seek ops t"
| "run_move ops Forward = it_Next ops"
| "run_move ops Backward = it_Prev ops"

fun run_moves :: "'i Iterator \<Rightarrow> move list \<Rightarrow> 'i \<Rightarrow> 'i option" where
  "run_moves ops [] it = Some it"
| "run_moves ops (m # ms) it = Option.bind (run_move ops m it) (run_moves ops ms)"

text \<open>What the client sees of an iterator that stands at position \<open>i\<close>.\<close>

definition shows_position :: "'i Iterator \<Rightarrow> 'i \<Rightarrow> (bytes \<times> bytes) list \<Rightarrow> nat \<Rightarrow> bool" where
  "shows_position ops it es i \<longleftrightarrow> (it_Valid ops it \<longleftrightarrow> i < length es) \<and> ok (it_status ops it) \<and>
     (i < length es \<longrightarrow> it_key ops it = fst (es ! i) \<and> it_value ops it = Some (snd (es ! i)))"

fun move_valid :: "(bytes \<Rightarrow> bool) \<Rightarrow> move \<Rightarrow> bool" where
  "move_valid valid (ToKey t) = valid t"
| "move_valid valid _ = True"

locale iterator = comparator +
  fixes ops :: "'i Iterator" and at :: "'i \<Rightarrow> (bytes \<times> bytes) list \<Rightarrow> nat \<Rightarrow> bool"
  assumes at_sorted: "at it es i \<Longrightarrow> sorted_entries c valid es"
    and at_le: "at it es i \<Longrightarrow> i \<le> length es"
    and at_Valid: "at it es i \<Longrightarrow> it_Valid ops it \<longleftrightarrow> i < length es"
    and at_status: "at it es i \<Longrightarrow> ok (it_status ops it)"
    and at_key: "at it es i \<Longrightarrow> i < length es \<Longrightarrow> it_key ops it = fst (es ! i)"
    and at_value: "at it es i \<Longrightarrow> i < length es \<Longrightarrow> it_value ops it = Some (snd (es ! i))"
    and at_Seek: "at it es i \<Longrightarrow> valid t \<Longrightarrow> \<exists>it'. it_Seek ops t it = Some it' \<and> at it' es (first_ge c es t)"
    and at_SeekToFirst: "at it es i \<Longrightarrow> \<exists>it'. it_SeekToFirst ops it = Some it' \<and> at it' es 0"
    and at_SeekToLast: "at it es i \<Longrightarrow> \<exists>it'. it_SeekToLast ops it = Some it' \<and> at it' es (length es - 1)"
    and at_Next: "at it es i \<Longrightarrow> i < length es \<Longrightarrow> \<exists>it'. it_Next ops it = Some it' \<and> at it' es (Suc i)"
    and at_Prev: "at it es i \<Longrightarrow> i < length es \<Longrightarrow>
      \<exists>it'. it_Prev ops it = Some it' \<and> at it' es (if i = 0 then length es else i - 1)"
begin

lemma scan_forward_at:
  "at it es i \<Longrightarrow> length es - i \<le> fuel \<Longrightarrow> scan_forward ops fuel it = Some (drop i es)"
proof (induction fuel arbitrary: it i)
  case 0
  then have "\<not> it_Valid ops it" using at_Valid by fastforce
  then show ?case using 0 by (simp add: scan_forward.simps)
next
  case (Suc fuel)
  show ?case
  proof (cases "i < length es")
    case False
    then show ?thesis using at_Valid [OF Suc.prems(1)] by (simp add: scan_forward.simps)
  next
    case True
    obtain it' where n: "it_Next ops it = Some it'" "at it' es (Suc i)"
      using at_Next [OF Suc.prems(1) True] by blast
    have "scan_forward ops fuel it' = Some (drop (Suc i) es)"
      using Suc.IH [OF n(2)] Suc.prems(2) by simp
    then show ?thesis
      using True n(1) at_Valid [OF Suc.prems(1)] at_key [OF Suc.prems(1) True]
        at_value [OF Suc.prems(1) True]
      by (subst scan_forward.simps) (simp add: Cons_nth_drop_Suc [symmetric])
  qed
qed

lemma scan_backward_at:
  "at it es i \<Longrightarrow> i < length es \<Longrightarrow> i < fuel \<Longrightarrow>
   scan_backward ops fuel it = Some (rev (take (Suc i) es))"
proof (induction fuel arbitrary: it i)
  case (Suc fuel)
  obtain it' where n: "it_Prev ops it = Some it'" "at it' es (if i = 0 then length es else i - 1)"
    using at_Prev [OF Suc.prems(1,2)] by blast
  have "scan_backward ops fuel it' = Some (rev (take i es))"
  proof (cases i)
    case 0
    then have "\<not> it_Valid ops it'" using at_Valid [OF n(2)] by simp
    then show ?thesis using 0 by (simp add: scan_backward.simps)
  next
    case (Suc j)
    then show ?thesis using Suc.IH [of it' j] n(2) Suc.prems by simp
  qed
  then show ?case
    using n(1) Suc.prems at_Valid [OF Suc.prems(1)] at_key [OF Suc.prems(1,2)]
      at_value [OF Suc.prems(1,2)]
    by (subst scan_backward.simps) (simp add: take_Suc_conv_app_nth)
qed simp

text \<open>Every sequence of calls moves the iterator as it moves the abstract position.\<close>

lemma run_move_at:
  assumes "at it es i" "move_valid valid m" "cursor_move c es m i = Some j"
  shows "\<exists>it'. run_move ops m it = Some it' \<and> at it' es j"
proof (cases m)
  case ToFirst
  then show ?thesis using at_SeekToFirst [OF assms(1)] assms(3) by auto
next
  case ToLast
  then show ?thesis using at_SeekToLast [OF assms(1)] assms(3) by auto
next
  case (ToKey t)
  then show ?thesis using at_Seek [OF assms(1)] assms(2,3) by auto
next
  case Forward
  then show ?thesis using at_Next [OF assms(1)] assms(3) by (auto split: if_splits)
next
  case Backward
  then show ?thesis using at_Prev [OF assms(1)] assms(3) by (auto split: if_splits)
qed

lemma run_moves_at:
  "at it es i \<Longrightarrow> list_all (move_valid valid) ms \<Longrightarrow> cursor_moves c es ms i = Some j \<Longrightarrow>
   \<exists>it'. run_moves ops ms it = Some it' \<and> at it' es j"
proof (induction ms arbitrary: it i)
  case (Cons m ms)
  obtain k where k: "cursor_move c es m i = Some k" "cursor_moves c es ms k = Some j"
    using Cons.prems(3) by (auto simp: Option.bind_eq_Some_conv)
  obtain it1 where "run_move ops m it = Some it1" "at it1 es k"
    using run_move_at [OF Cons.prems(1) _ k(1)] Cons.prems(2) by auto
  then show ?case using Cons.IH [OF _ _ k(2)] Cons.prems(2) by auto
qed simp

lemma at_shows: "at it es i \<Longrightarrow> shows_position ops it es i"
  using at_Valid at_status at_key at_value by (simp add: shows_position_def)

text \<open>The three ways to read the entries: from the front, from a target, from the back.\<close>

lemma scan_from_first:
  assumes "at it es i" "length es \<le> fuel"
  shows "Option.bind (it_SeekToFirst ops it) (scan_forward ops fuel) = Some es"
  using at_SeekToFirst [OF assms(1)] scan_forward_at [of _ es 0 fuel] assms(2) by fastforce

lemma scan_from_target:
  assumes "at it es i" "length es \<le> fuel" "valid t"
  shows "Option.bind (it_Seek ops t it) (scan_forward ops fuel) =
    Some (dropWhile (\<lambda>e. Compare c (fst e) t < 0) es)"
proof -
  obtain it' where s: "it_Seek ops t it = Some it'" "at it' es (first_ge c es t)"
    using at_Seek [OF assms(1,3)] by blast
  have "scan_forward ops fuel it' = Some (drop (first_ge c es t) es)"
    by (rule scan_forward_at [OF s(2)]) (use assms(2) in simp)
  then show ?thesis using s(1) by (simp add: drop_first_ge)
qed

lemma scan_from_last:
  assumes "at it es i" "length es \<le> fuel"
  shows "Option.bind (it_SeekToLast ops it) (scan_backward ops fuel) = Some (rev es)"
proof -
  obtain it' where s: "it_SeekToLast ops it = Some it'" "at it' es (length es - 1)"
    using at_SeekToLast [OF assms(1)] by blast
  show ?thesis
  proof (cases "es = []")
    case True
    then have "\<not> it_Valid ops it'" using at_Valid [OF s(2)] by simp
    then show ?thesis using True s(1) by (simp add: scan_backward.simps)
  next
    case False
    then have "scan_backward ops fuel it' = Some (rev (take (Suc (length es - 1)) es))"
      by (intro scan_backward_at [OF s(2)]) (use assms(2) in \<open>simp_all add: Suc_le_eq flip: length_greater_0_conv\<close>)
    then show ?thesis using False s(1) by simp
  qed
qed

end

text \<open>An entry at or past the target is found, and no earlier one qualifies.\<close>

context comparator
begin

lemma sorted_key_less:
  "sorted_entries c valid es \<Longrightarrow> i < j \<Longrightarrow> j < length es \<Longrightarrow> Compare c (fst (es ! i)) (fst (es ! j)) < 0"
  by (simp add: sorted_entries_def sorted_wrt_iff_nth_less)

lemma sorted_valid_nth: "sorted_entries c valid es \<Longrightarrow> i < length es \<Longrightarrow> valid (fst (es ! i))"
  by (simp add: sorted_entries_def)

lemma before_first_ge:
  assumes "sorted_entries c valid es" "j < length es" "valid t" "Compare c (fst (es ! j)) t < 0" "i \<le> j"
  shows "Compare c (fst (es ! i)) t < 0"
proof (cases "i = j")
  case False
  then have "i < j" using assms(5) by simp
  then show ?thesis
    using lt_trans [of "fst (es ! i)" "fst (es ! j)" t] sorted_key_less [OF assms(1), of i j]
      sorted_valid_nth [OF assms(1)] assms by simp
qed (use assms in simp)

end

subsection \<open>The memtable's iterator\<close>

definition MemTableIterator_ops :: "MemTableIterator Iterator" where
  "MemTableIterator_ops =
     \<lparr>it_Valid = MemIter_Valid, it_Seek = MemIter_Seek,
      it_SeekToFirst = (\<lambda>it. Some (MemIter_SeekToFirst it)), it_SeekToLast = MemIter_SeekToLast,
      it_Next = (\<lambda>it. Some (MemIter_Next it)), it_Prev = MemIter_Prev, it_key = MemIter_key,
      it_value = (\<lambda>it. Some (MemIter_value it)), it_status = (\<lambda>_. OK)\<rparr>"

end
