(* ===== verification/Block.thy ===== *)
theory Block
  imports Iterators
begin

section \<open>Blocks (\<^verbatim>\<open>table/block_builder.cc\<close>, \<^verbatim>\<open>table/block.cc\<close>)\<close>

text \<open>
  A block stores sorted entries with prefix-compressed keys, restart points at which a key is
  stored whole, and at its end the array of the restart offsets. The builder appends to a
  buffer; the iterator decodes the buffer in place. Offsets into the block are numbers; the
  code keeps them in \<open>uint32_t\<close>, and \<open>narrow32\<close> stands where it narrows a sum to that type.
  The iterator's \<open>value_\<close> is a slice into the block, so the model keeps its offset and its
  length. Reading bytes outside the block has the value \<open>None\<close>.
\<close>

definition narrow32 :: "nat \<Rightarrow> nat" where
  "narrow32 n = unat (word_of_nat n :: u32)"

lemma narrow32_id [simp]: "n < 2 ^ 32 \<Longrightarrow> narrow32 n = n"
  unfolding narrow32_def by (rule unat_of_nat_u32)

subsection \<open>Building\<close>

record BlockBuilder =
  bb_buffer :: bytes
  bb_restarts :: "u32 list"
  bb_counter :: int
  bb_finished :: bool
  bb_last_key :: bytes

definition BlockBuilder_new :: BlockBuilder where
  "BlockBuilder_new =
     \<lparr>bb_buffer = [], bb_restarts = [0], bb_counter = 0, bb_finished = False, bb_last_key = []\<rparr>"

definition BlockBuilder_Reset :: "BlockBuilder \<Rightarrow> BlockBuilder" where
  "BlockBuilder_Reset b =
     b\<lparr>bb_buffer := [], bb_restarts := [0], bb_counter := 0, bb_finished := False, bb_last_key := []\<rparr>"

definition CurrentSizeEstimate :: "BlockBuilder \<Rightarrow> nat" where
  "CurrentSizeEstimate b = length (bb_buffer b) + length (bb_restarts b) * 4 + 4"

definition BlockBuilder_empty :: "BlockBuilder \<Rightarrow> bool" where
  "BlockBuilder_empty b \<longleftrightarrow> bb_buffer b = []"

definition BlockBuilder_Finish :: "BlockBuilder \<Rightarrow> bytes \<times> BlockBuilder" where
  "BlockBuilder_Finish b =
     (let buffer = foldl PutFixed32 (bb_buffer b) (bb_restarts b);
          buffer = PutFixed32 buffer (word_of_nat (length (bb_restarts b)))
      in (buffer, b\<lparr>bb_buffer := buffer, bb_finished := True\<rparr>))"

definition BlockBuilder_Add :: "int \<Rightarrow> bytes \<Rightarrow> bytes \<Rightarrow> BlockBuilder \<Rightarrow> BlockBuilder" where
  "BlockBuilder_Add restart_interval key value b =
     (let (shared, b) =
            (if bb_counter b < restart_interval
             then (common_prefix_len (bb_last_key b) key, b)
             else (0, b\<lparr>bb_restarts := bb_restarts b @ [word_of_nat (length (bb_buffer b))],
                        bb_counter := 0\<rparr>));
          non_shared = length key - shared;
          buffer = PutVarint32 (bb_buffer b) (word_of_nat shared);
          buffer = PutVarint32 buffer (word_of_nat non_shared);
          buffer = PutVarint32 buffer (word_of_nat (length value));
          buffer = buffer @ drop shared key;
          buffer = buffer @ value
      in b\<lparr>bb_buffer := buffer,
           bb_last_key := take shared (bb_last_key b) @ drop shared key,
           bb_counter := bb_counter b + 1\<rparr>)"

subsection \<open>Reading\<close>

record Block =
  bl_data :: bytes
  bl_size :: nat
  bl_restart_offset :: nat
  bl_owned :: bool

definition NumRestarts :: "Block \<Rightarrow> nat" where
  "NumRestarts b = unat (DecodeFixed32 (drop (bl_size b - 4) (bl_data b)))"

text \<open>The offset of the restart array stays unset when the contents are too short.\<close>

definition Block_new :: "BlockContents \<Rightarrow> Block" where
  "Block_new contents =
     (let b = \<lparr>bl_data = bc_data contents, bl_size = length (bc_data contents), bl_restart_offset = 0,
               bl_owned = heap_allocated contents\<rparr>
      in if bl_size b < 4 then b\<lparr>bl_size := 0\<rparr>
         else
           (let max_restarts_allowed = (bl_size b - 4) div 4
            in if NumRestarts b > max_restarts_allowed then b\<lparr>bl_size := 0\<rparr>
               else b\<lparr>bl_restart_offset :=
                        narrow32 (bl_size b - narrow32 (1 + NumRestarts b) * 4)\<rparr>))"

text \<open>The result is the three lengths and the bytes from the key delta up to the limit.\<close>

definition DecodeEntry :: "bytes \<Rightarrow> (u32 \<times> u32 \<times> u32 \<times> bytes) option" where
  "DecodeEntry p =
     (if length p < 3 then None
      else
        (let shared = (ucast (p ! 0) :: u32); non_shared = ucast (p ! 1); value_length = ucast (p ! 2);
             d = (if (shared OR non_shared OR value_length) < 128
                  then Some (shared, non_shared, value_length, drop 3 p)
                  else Option.bind (GetVarint32Ptr p) (\<lambda>(shared, p).
                       Option.bind (GetVarint32Ptr p) (\<lambda>(non_shared, p).
                       Option.bind (GetVarint32Ptr p) (\<lambda>(value_length, p).
                       Some (shared, non_shared, value_length, p)))))
         in Option.bind d (\<lambda>(shared, non_shared, value_length, p).
              if word_of_nat (length p) < non_shared + value_length then None
              else Some (shared, non_shared, value_length, p))))"

record BlockIter =
  bi_comparator :: Comparator
  bi_data :: bytes
  bi_restarts :: nat
  bi_num_restarts :: nat
  bi_current :: nat
  bi_restart_index :: nat
  bi_key :: bytes
  bi_value :: "(nat \<times> nat) option"
  bi_status :: Status

definition BlockIter_new :: "Comparator \<Rightarrow> bytes \<Rightarrow> nat \<Rightarrow> nat \<Rightarrow> BlockIter" where
  "BlockIter_new c data restarts num_restarts =
     \<lparr>bi_comparator = c, bi_data = data, bi_restarts = restarts, bi_num_restarts = num_restarts,
      bi_current = restarts, bi_restart_index = num_restarts, bi_key = [], bi_value = None,
      bi_status = OK\<rparr>"

text \<open>\<open>None\<close> while \<open>value_\<close> is the null slice, which has no offset in the block.\<close>

definition NextEntryOffset :: "BlockIter \<Rightarrow> nat option" where
  "NextEntryOffset it = map_option (\<lambda>(off, len). narrow32 (off + len)) (bi_value it)"

definition GetRestartPoint :: "BlockIter \<Rightarrow> nat \<Rightarrow> nat" where
  "GetRestartPoint it index = unat (DecodeFixed32 (drop (bi_restarts it + index * 4) (bi_data it)))"

definition SeekToRestartPoint :: "nat \<Rightarrow> BlockIter \<Rightarrow> BlockIter" where
  "SeekToRestartPoint index it =
     it\<lparr>bi_key := [], bi_restart_index := index, bi_value := Some (GetRestartPoint it index, 0)\<rparr>"

definition CorruptionError :: "BlockIter \<Rightarrow> BlockIter" where
  "CorruptionError it =
     it\<lparr>bi_current := bi_restarts it, bi_restart_index := bi_num_restarts it,
        bi_status := Corruption (ascii ''bad entry in block'') [], bi_key := [], bi_value := None\<rparr>"

function advance_restart :: "BlockIter \<Rightarrow> nat \<Rightarrow> nat" where
  "advance_restart it ri =
     (if ri + 1 < bi_num_restarts it \<and> GetRestartPoint it (ri + 1) < bi_current it
      then advance_restart it (ri + 1) else ri)"
  by pat_completeness auto
termination by (relation "measure (\<lambda>(it, ri). bi_num_restarts it - ri)") auto

declare advance_restart.simps [simp del]

definition ParseNextKey :: "BlockIter \<Rightarrow> (bool \<times> BlockIter) option" where
  "ParseNextKey it =
     Option.bind (NextEntryOffset it) (\<lambda>next_offset.
     (let it = it\<lparr>bi_current := next_offset\<rparr>;
          p = drop (bi_current it) (take (bi_restarts it) (bi_data it))
      in if bi_current it \<ge> bi_restarts it
         then Some (False, it\<lparr>bi_current := bi_restarts it, bi_restart_index := bi_num_restarts it\<rparr>)
         else
           (case DecodeEntry p of
              None \<Rightarrow> Some (False, CorruptionError it)
            | Some (shared, non_shared, value_length, p) \<Rightarrow>
                if length (bi_key it) < unat shared then Some (False, CorruptionError it)
                else
                  (let off = bi_restarts it - length p
                   in if off + unat non_shared > length (bi_data it) then None
                      else
                        (let it = it\<lparr>bi_key := take (unat shared) (bi_key it) @
                                       take (unat non_shared) (drop off (bi_data it)),
                                     bi_value := Some (off + unat non_shared, unat value_length)\<rparr>
                         in Some (True, it\<lparr>bi_restart_index :=
                                   advance_restart it (bi_restart_index it)\<rparr>))))))"

definition BlockIter_Valid :: "BlockIter \<Rightarrow> bool" where
  "BlockIter_Valid it \<longleftrightarrow> bi_current it < bi_restarts it"

definition BlockIter_value :: "BlockIter \<Rightarrow> bytes option" where
  "BlockIter_value it =
     Option.bind (bi_value it) (\<lambda>(off, len).
       if off + len \<le> length (bi_data it) then Some (take len (drop off (bi_data it))) else None)"

definition BlockIter_Next :: "BlockIter \<Rightarrow> BlockIter option" where
  "BlockIter_Next it = map_option snd (ParseNextKey it)"

text \<open>\<open>while (ParseNextKey() && NextEntryOffset() < limit) {}\<close>\<close>

partial_function (option) ParseUntil :: "nat \<Rightarrow> BlockIter \<Rightarrow> BlockIter option" where
  "ParseUntil limit it =
     Option.bind (ParseNextKey it) (\<lambda>(more, it).
       if \<not> more then Some it
       else Option.bind (NextEntryOffset it) (\<lambda>next.
         if next < limit then ParseUntil limit it else Some it))"

fun Prev_scan :: "BlockIter \<Rightarrow> nat \<Rightarrow> nat \<Rightarrow> nat option" where
  "Prev_scan it original 0 = (if GetRestartPoint it 0 \<ge> original then None else Some 0)"
| "Prev_scan it original (Suc ri) =
     (if GetRestartPoint it (Suc ri) \<ge> original then Prev_scan it original ri else Some (Suc ri))"

definition BlockIter_Prev :: "BlockIter \<Rightarrow> BlockIter option" where
  "BlockIter_Prev it =
     (let original = bi_current it in
      case Prev_scan it original (bi_restart_index it) of
        None \<Rightarrow> Some (it\<lparr>bi_current := bi_restarts it, bi_restart_index := bi_num_restarts it\<rparr>)
      | Some ri \<Rightarrow> ParseUntil original (SeekToRestartPoint ri it))"

text \<open>The binary search over the restart points: \<open>Some None\<close> when an entry is corrupt.\<close>

partial_function (option) Seek_search :: "BlockIter \<Rightarrow> bytes \<Rightarrow> nat \<Rightarrow> nat \<Rightarrow> nat option option" where
  "Seek_search it target left right =
     (if left < right then
        (let mid = narrow32 (left + right + 1) div 2;
             region_offset = GetRestartPoint it mid
         in case DecodeEntry (drop region_offset (take (bi_restarts it) (bi_data it))) of
              None \<Rightarrow> Some None
            | Some (shared, non_shared, value_length, p) \<Rightarrow>
                if shared \<noteq> 0 then Some None
                else
                  (let off = bi_restarts it - length p
                   in if off + unat non_shared > length (bi_data it) then None
                      else
                        (let mid_key = take (unat non_shared) (drop off (bi_data it))
                         in if Compare (bi_comparator it) mid_key target < 0
                            then Seek_search it target mid right
                            else Seek_search it target left (mid - 1))))
      else Some (Some left))"

partial_function (option) Seek_linear :: "bytes \<Rightarrow> BlockIter \<Rightarrow> BlockIter option" where
  "Seek_linear target it =
     Option.bind (ParseNextKey it) (\<lambda>(more, it).
       if \<not> more then Some it
       else if Compare (bi_comparator it) (bi_key it) target \<ge> 0 then Some it
       else Seek_linear target it)"

definition BlockIter_Seek :: "bytes \<Rightarrow> BlockIter \<Rightarrow> BlockIter option" where
  "BlockIter_Seek target it =
     Option.bind (Seek_search it target 0 (bi_num_restarts it - 1)) (\<lambda>left.
       case left of
         None \<Rightarrow> Some (CorruptionError it)
       | Some left \<Rightarrow> Seek_linear target (SeekToRestartPoint left it))"

definition BlockIter_SeekToFirst :: "BlockIter \<Rightarrow> BlockIter option" where
  "BlockIter_SeekToFirst it = map_option snd (ParseNextKey (SeekToRestartPoint 0 it))"

definition BlockIter_SeekToLast :: "BlockIter \<Rightarrow> BlockIter option" where
  "BlockIter_SeekToLast it =
     ParseUntil (bi_restarts it) (SeekToRestartPoint (bi_num_restarts it - 1) it)"

definition BlockIter_ops :: "BlockIter Iterator" where
  "BlockIter_ops =
     \<lparr>it_Valid = BlockIter_Valid, it_Seek = BlockIter_Seek, it_SeekToFirst = BlockIter_SeekToFirst,
      it_SeekToLast = BlockIter_SeekToLast, it_Next = BlockIter_Next, it_Prev = BlockIter_Prev,
      it_key = bi_key, it_value = BlockIter_value, it_status = bi_status\<rparr>"

text \<open>A block gives one of two kinds of iterators.\<close>

datatype BlockIterator = ErrorOrEmpty EmptyIterator | Iter BlockIter

definition Block_NewIterator :: "Comparator \<Rightarrow> Block \<Rightarrow> BlockIterator" where
  "Block_NewIterator c b =
     (if bl_size b < 4 then ErrorOrEmpty (NewErrorIterator (Corruption (ascii ''bad block contents'') []))
      else if NumRestarts b = 0 then ErrorOrEmpty NewEmptyIterator
      else Iter (BlockIter_new c (bl_data b) (bl_restart_offset b) (NumRestarts b)))"

subsection \<open>The layout of a block\<close>

text \<open>
  An entry of the layout is the length of its shared prefix, its key and its value. A block
  is given by its entries \<open>ts\<close> and the indices \<open>rs\<close> of the entries at restart points.
\<close>

type_synonym block_entry = "nat \<times> bytes \<times> bytes"

fun entry_bytes :: "block_entry \<Rightarrow> bytes" where
  "entry_bytes (sh, k, v) =
     EncodeVarint32 (word_of_nat sh) @ EncodeVarint32 (word_of_nat (length k - sh)) @
     EncodeVarint32 (word_of_nat (length v)) @ drop sh k @ v"

definition encs :: "block_entry list \<Rightarrow> bytes" where
  "encs ts = concat (map entry_bytes ts)"

definition eoff :: "block_entry list \<Rightarrow> nat \<Rightarrow> nat" where
  "eoff ts i = length (encs (take i ts))"

definition ekey :: "block_entry list \<Rightarrow> nat \<Rightarrow> bytes" where
  "ekey ts i = fst (snd (ts ! i))"

definition eval :: "block_entry list \<Rightarrow> nat \<Rightarrow> bytes" where
  "eval ts i = snd (snd (ts ! i))"

definition eshared :: "block_entry list \<Rightarrow> nat \<Rightarrow> nat" where
  "eshared ts i = fst (ts ! i)"

definition key_before :: "block_entry list \<Rightarrow> nat \<Rightarrow> bytes" where
  "key_before ts i = (if i = 0 then [] else ekey ts (i - 1))"

definition chained :: "block_entry list \<Rightarrow> bool" where
  "chained ts \<longleftrightarrow> (\<forall>i < length ts. eshared ts i \<le> length (key_before ts i) \<and>
     eshared ts i \<le> length (ekey ts i) \<and>
     take (eshared ts i) (key_before ts i) = take (eshared ts i) (ekey ts i))"

definition block_bytes :: "block_entry list \<Rightarrow> nat list \<Rightarrow> bytes" where
  "block_bytes ts rs =
     encs ts @ concat (map (\<lambda>r. EncodeFixed32 (word_of_nat (eoff ts r))) rs) @
     EncodeFixed32 (word_of_nat (length rs))"

definition layout :: "block_entry list \<Rightarrow> nat list \<Rightarrow> bool" where
  "layout ts rs \<longleftrightarrow> chained ts \<and> rs \<noteq> [] \<and> rs ! 0 = 0 \<and>
     (\<forall>j < length rs. j = 0 \<or> rs ! j < length ts) \<and>
     (\<forall>r \<in> set rs. r < length ts \<longrightarrow> eshared ts r = 0) \<and> length (block_bytes ts rs) < 2 ^ 32"

lemma encs_simps [simp]: "encs [] = []" "encs (t # ts) = entry_bytes t @ encs ts"
  "encs (ts @ us) = encs ts @ encs us"
  by (simp_all add: encs_def)

lemma eoff_0 [simp]: "eoff ts 0 = 0"
  by (simp add: eoff_def)

lemma eoff_length: "eoff ts (length ts) = length (encs ts)"
  by (simp add: eoff_def)

lemma eoff_Suc: "i < length ts \<Longrightarrow> eoff ts (Suc i) = eoff ts i + length (entry_bytes (ts ! i))"
  by (simp add: eoff_def take_Suc_conv_app_nth)

lemma length_entry_pos: "0 < length (entry_bytes t)"
  by (cases t) simp

lemma eoff_mono: "i \<le> j \<Longrightarrow> eoff ts i \<le> eoff ts j"
  by (auto simp: eoff_def le_iff_add take_add)

lemma eoff_strict: "i < j \<Longrightarrow> j \<le> length ts \<Longrightarrow> eoff ts i < eoff ts j"
  using eoff_Suc [of i ts] eoff_mono [of "Suc i" j ts] length_entry_pos [of "ts ! i"] by linarith

lemma eoff_less_iff: "i \<le> length ts \<Longrightarrow> j \<le> length ts \<Longrightarrow> eoff ts i < eoff ts j \<longleftrightarrow> i < j"
  using eoff_strict [of i j ts] eoff_mono [of j i ts] by (meson not_le)

lemma eoff_le_length: "eoff ts i \<le> length (encs ts)"
proof -
  have "encs ts = encs (take i ts) @ encs (drop i ts)" by (metis append_take_drop_id encs_simps(3))
  then show ?thesis by (simp add: eoff_def)
qed

lemma drop_eoff:
  assumes "i < length ts"
  shows "drop (eoff ts i) (encs ts) = entry_bytes (ts ! i) @ drop (eoff ts (Suc i)) (encs ts)"
proof -
  have ts: "ts = take i ts @ ts ! i # drop (Suc i) ts" using assms by (simp add: id_take_nth_drop)
  have e: "encs ts = encs (take i ts) @ entry_bytes (ts ! i) @ encs (drop (Suc i) ts)"
    by (subst ts) (simp only: encs_simps)
  show ?thesis
    unfolding eoff_Suc [OF assms] by (subst (1 2) e) (simp add: eoff_def)
qed

lemma chainedD:
  assumes "chained ts" "i < length ts"
  shows "eshared ts i \<le> length (key_before ts i)" "eshared ts i \<le> length (ekey ts i)"
    "take (eshared ts i) (key_before ts i) = take (eshared ts i) (ekey ts i)"
  using assms by (auto simp: chained_def)

lemma ts_nth: "ts ! i = (eshared ts i, ekey ts i, eval ts i)"
  by (simp add: eshared_def ekey_def eval_def)

lemma key_length_bound:
  "chained ts \<Longrightarrow> i < length ts \<Longrightarrow> length (ekey ts i) \<le> eoff ts (Suc i)"
proof (induction i)
  case 0
  then show ?case using chainedD(1,2) [of ts 0] eoff_Suc [of 0 ts] by (simp add: ts_nth key_before_def)
next
  case (Suc i)
  have "length (ekey ts (Suc i)) = eshared ts (Suc i) + (length (ekey ts (Suc i)) - eshared ts (Suc i))"
    using chainedD(2) [OF Suc.prems] by simp
  also have "\<dots> \<le> length (ekey ts i) + length (entry_bytes (ts ! Suc i))"
    using chainedD(1) [OF Suc.prems] by (simp add: ts_nth key_before_def)
  also have "\<dots> \<le> eoff ts (Suc i) + length (entry_bytes (ts ! Suc i))" using Suc by simp
  finally show ?case by (simp add: eoff_Suc [OF Suc.prems(2)])
qed

lemma DecodeEntry_slow:
  "DecodeEntry p =
     (if length p < 3 then None
      else Option.bind (GetVarint32Ptr p) (\<lambda>(shared, p).
           Option.bind (GetVarint32Ptr p) (\<lambda>(non_shared, p).
           Option.bind (GetVarint32Ptr p) (\<lambda>(value_length, p).
             if word_of_nat (length p) < non_shared + value_length then None
             else Some (shared, non_shared, value_length, p)))))"
proof (cases "length p < 3")
  case False
  then obtain a b c q where p: "p = a # b # c # q"
    by (auto simp: not_less eval_nat_numeral Suc_le_length_iff)
  have one: "GetVarint32Ptr (x # r) = Some (ucast x, r)" if "\<not> bit (ucast x :: u32) 7" for x :: byte and r
  proof -
    have "(128 :: u32) = push_bit 7 1" by simp
    then have "(ucast x :: u32) AND 128 = 0"
      using that by (simp only: bit_iff_and_push_bit_not_eq_0) simp
    then show ?thesis by (simp add: GetVarint32Ptr_def)
  qed
  show ?thesis
  proof (cases "(ucast a OR ucast b OR ucast c :: u32) < 128")
    case True
    then have "unat (ucast a OR ucast b OR ucast c :: u32) < 2 ^ 7" by (simp add: word_less_nat_alt)
    then have "\<not> bit (ucast a OR ucast b OR ucast c :: u32) 7" by (rule no_high_bit) simp
    then show ?thesis using True p one by (simp add: DecodeEntry_def bit_or_iff)
  next
    case False
    then show ?thesis
      by (simp add: DecodeEntry_def p Let_def Option.bind_eq_Some_conv split: option.split Option.bind_split prod.split)
  qed
qed (simp add: DecodeEntry_def)

lemma DecodeEntry_entry:
  assumes "length k < 2 ^ 32" "sh \<le> length k" "length (entry_bytes (sh, k, v) @ rest) < 2 ^ 32"
  shows "DecodeEntry (entry_bytes (sh, k, v) @ rest) =
    Some (word_of_nat sh, word_of_nat (length k - sh), word_of_nat (length v), drop sh k @ v @ rest)"
proof -
  have l: "length (drop sh k @ v @ rest) < 2 ^ 32" using assms(3) by simp
  have "3 \<le> length (entry_bytes (sh, k, v))"
  proof -
    have "1 \<le> length (EncodeVarint32 x)" for x by (simp add: Suc_le_eq)
    from this [of "word_of_nat sh"] this [of "word_of_nat (length k - sh)"] this [of "word_of_nat (length v)"]
    show ?thesis by simp
  qed
  moreover have "\<not> (word_of_nat (length (drop sh k @ v @ rest)) <
      (word_of_nat (length k - sh) + word_of_nat (length v) :: u32))"
  proof -
    have "unat (word_of_nat (length k - sh + length v) :: u32) = length k - sh + length v"
      by (rule unat_of_nat_u32) (use l in simp)
    moreover have "unat (word_of_nat (length (drop sh k @ v @ rest)) :: u32) = length (drop sh k @ v @ rest)"
      by (rule unat_of_nat_u32 [OF l])
    ultimately show ?thesis by (simp add: word_less_nat_alt)
  qed
  ultimately show ?thesis by (simp add: DecodeEntry_slow)
qed

subsection \<open>Decoding a laid-out block\<close>

lemma drop_concat_fixed:
  assumes "j < length xs"
  shows "\<exists>rest. drop (j * 4) (concat (map EncodeFixed32 xs) @ ys) = EncodeFixed32 (xs ! j) @ rest"
proof -
  have l: "length (concat (map EncodeFixed32 zs)) = length zs * 4" for zs
    by (induction zs) simp_all
  have "xs = take j xs @ xs ! j # drop (Suc j) xs" using assms by (simp add: id_take_nth_drop)
  then have e: "concat (map EncodeFixed32 xs) = concat (map EncodeFixed32 (take j xs)) @ EncodeFixed32 (xs ! j) @
      concat (map EncodeFixed32 (drop (Suc j) xs))"
    by (metis concat.simps(2) concat_append list.simps(9) map_append)
  have "length (concat (map EncodeFixed32 (take j xs))) = j * 4" using assms l by simp
  then show ?thesis by (subst e) simp
qed

definition bi_rep :: "BlockIter \<Rightarrow> block_entry list \<Rightarrow> nat list \<Rightarrow> bool" where
  "bi_rep it ts rs \<longleftrightarrow> layout ts rs \<and> bi_data it = block_bytes ts rs \<and>
     bi_restarts it = length (encs ts) \<and> bi_num_restarts it = length rs \<and> bi_status it = OK"

definition at_entry :: "BlockIter \<Rightarrow> block_entry list \<Rightarrow> nat list \<Rightarrow> nat \<Rightarrow> bool" where
  "at_entry it ts rs i \<longleftrightarrow> i < length ts \<and> bi_current it = eoff ts i \<and> bi_key it = ekey ts i \<and>
     bi_value it = Some (eoff ts (Suc i) - length (eval ts i), length (eval ts i)) \<and>
     bi_restart_index it < length rs \<and> rs ! bi_restart_index it \<le> i"

text \<open>The iterator is about to parse the \<open>i\<close>-th entry.\<close>

definition ready :: "BlockIter \<Rightarrow> block_entry list \<Rightarrow> nat list \<Rightarrow> nat \<Rightarrow> bool" where
  "ready it ts rs i \<longleftrightarrow> i \<le> length ts \<and> NextEntryOffset it = Some (eoff ts i) \<and>
     (i < length ts \<longrightarrow> eshared ts i \<le> length (bi_key it) \<and>
        take (eshared ts i) (bi_key it) = take (eshared ts i) (ekey ts i)) \<and>
     bi_restart_index it < length rs \<and> rs ! bi_restart_index it \<le> i"

lemma bi_repD:
  assumes "bi_rep it ts rs"
  shows "layout ts rs" "bi_data it = block_bytes ts rs" "bi_restarts it = length (encs ts)"
    "bi_num_restarts it = length rs" "bi_status it = OK"
  using assms by (simp_all add: bi_rep_def)

lemma layoutD:
  assumes "layout ts rs"
  shows "chained ts" "rs \<noteq> []" "rs ! 0 = 0" "length (block_bytes ts rs) < 2 ^ 32"
    "j < length rs \<Longrightarrow> rs ! j = 0 \<or> rs ! j < length ts"
    "j < length rs \<Longrightarrow> rs ! j < length ts \<Longrightarrow> eshared ts (rs ! j) = 0"
  "j < length rs \<Longrightarrow> 0 < j \<Longrightarrow> rs ! j < length ts"
  using assms by (auto simp: layout_def)

lemma eoff_bound: "layout ts rs \<Longrightarrow> eoff ts i < 2 ^ 32"
  using eoff_le_length [of ts i] layoutD(4) [of ts rs] by (simp add: block_bytes_def)

lemma take_data:
  "bi_rep it ts rs \<Longrightarrow> take (bi_restarts it) (bi_data it) = encs ts"
  by (simp add: bi_repD block_bytes_def)

lemma GetRestartPoint_rep:
  assumes "bi_rep it ts rs" "j < length rs"
  shows "GetRestartPoint it j = eoff ts (rs ! j)"
proof -
  let ?xs = "map (\<lambda>r. word_of_nat (eoff ts r) :: u32) rs"
  have e: "concat (map (\<lambda>r. EncodeFixed32 (word_of_nat (eoff ts r))) rs) = concat (map EncodeFixed32 ?xs)"
    by (simp add: comp_def)
  have "drop (bi_restarts it + j * 4) (bi_data it) =
      drop (j * 4) (concat (map EncodeFixed32 ?xs) @ EncodeFixed32 (word_of_nat (length rs)))"
    unfolding bi_repD [OF assms(1)] block_bytes_def e by simp
  moreover obtain rest where
    "drop (j * 4) (concat (map EncodeFixed32 ?xs) @ EncodeFixed32 (word_of_nat (length rs))) = EncodeFixed32 (?xs ! j) @ rest"
    using drop_concat_fixed [of j ?xs] assms(2) by auto
  ultimately show ?thesis
    using assms(2) eoff_bound [OF bi_repD(1) [OF assms(1)], of "rs ! j"]
    by (simp add: GetRestartPoint_def unat_of_nat_u32)
qed

lemma DecodeEntry_at:
  assumes "layout ts rs" "i < length ts"
  shows "DecodeEntry (drop (eoff ts i) (encs ts)) =
    Some (word_of_nat (eshared ts i), word_of_nat (length (ekey ts i) - eshared ts i), word_of_nat (length (eval ts i)),
      drop (eshared ts i) (ekey ts i) @ eval ts i @ drop (eoff ts (Suc i)) (encs ts))"
proof -
  note ch = layoutD(1) [OF assms(1)]
  have k: "length (ekey ts i) < 2 ^ 32"
    using key_length_bound [OF ch assms(2)] eoff_bound [OF assms(1), of "Suc i"] by simp
  have d: "drop (eoff ts i) (encs ts) =
      entry_bytes (eshared ts i, ekey ts i, eval ts i) @ drop (eoff ts (Suc i)) (encs ts)"
    using drop_eoff [OF assms(2)] by (simp add: ts_nth)
  have "length (drop (eoff ts i) (encs ts)) < 2 ^ 32"
    using layoutD(4) [OF assms(1)] by (simp add: block_bytes_def)
  from this [unfolded d] show ?thesis
    unfolding d by (rule DecodeEntry_entry [OF k chainedD(2) [OF ch assms(2)]])
qed

text \<open>The key delta and the value of an entry, as offsets in the block.\<close>

lemma entry_in_data:
  assumes "bi_rep it ts rs" "i < length ts"
  defines "delta \<equiv> drop (eshared ts i) (ekey ts i)"
  defines "off \<equiv> bi_restarts it - length (delta @ eval ts i @ drop (eoff ts (Suc i)) (encs ts))"
  shows "off + length delta + length (eval ts i) = eoff ts (Suc i)"
    "off + length delta \<le> length (bi_data it)"
    "take (length delta) (drop off (bi_data it)) = delta"
    "take (length (eval ts i)) (drop (off + length delta) (bi_data it)) = eval ts i"
proof -
  let ?rest = "drop (eoff ts (Suc i)) (encs ts)"
  have r: "bi_restarts it = length (encs ts)" using bi_repD [OF assms(1)] by simp
  have len: "length (encs ts) = eoff ts i + length (entry_bytes (ts ! i)) + length ?rest"
    using eoff_le_length [of ts "Suc i"] by (simp add: eoff_Suc [OF assms(2)])
  have e: "entry_bytes (ts ! i) = EncodeVarint32 (word_of_nat (eshared ts i)) @
      EncodeVarint32 (word_of_nat (length (ekey ts i) - eshared ts i)) @
      EncodeVarint32 (word_of_nat (length (eval ts i))) @ delta @ eval ts i"
    (is "_ = ?h1 @ ?h2 @ ?h3 @ _") by (simp add: ts_nth delta_def)
  have off: "off = eoff ts i + length (?h1 @ ?h2 @ ?h3)"
    unfolding off_def r len e by simp
  show sum: "off + length delta + length (eval ts i) = eoff ts (Suc i)"
    unfolding eoff_Suc [OF assms(2)] e off by simp
  have d: "length (bi_data it) \<ge> length (encs ts)"
    using bi_repD [OF assms(1)] by (simp add: block_bytes_def)
  show "off + length delta \<le> length (bi_data it)"
    using sum d eoff_le_length [of ts "Suc i"] by simp
  have "drop (eoff ts i) (bi_data it) = drop (eoff ts i) (encs ts) @ drop (length (encs ts)) (bi_data it)"
    using eoff_le_length [of ts i] bi_repD [OF assms(1)] by (simp add: block_bytes_def)
  then have "drop (eoff ts i) (bi_data it) =
      (?h1 @ ?h2 @ ?h3) @ delta @ eval ts i @ ?rest @ drop (length (encs ts)) (bi_data it)"
    unfolding drop_eoff [OF assms(2)] e by simp
  then have "drop (length (?h1 @ ?h2 @ ?h3)) (drop (eoff ts i) (bi_data it)) =
      delta @ eval ts i @ ?rest @ drop (length (encs ts)) (bi_data it)"
    by (simp only: drop_append_length)
  then have o: "drop off (bi_data it) = delta @ eval ts i @ ?rest @ drop (length (encs ts)) (bi_data it)"
    unfolding off by (simp only: drop_drop add.commute)
  then show "take (length delta) (drop off (bi_data it)) = delta" by simp
  have "drop (length delta) (drop off (bi_data it)) = eval ts i @ ?rest @ drop (length (encs ts)) (bi_data it)"
    unfolding o by (simp only: drop_append_length)
  then have "drop (off + length delta) (bi_data it) = eval ts i @ ?rest @ drop (length (encs ts)) (bi_data it)"
    by (simp only: drop_drop add.commute)
  then show "take (length (eval ts i)) (drop (off + length delta) (bi_data it)) = eval ts i" by simp
qed

lemma advance_restart_inv:
  assumes "\<And>j. j < bi_num_restarts it \<Longrightarrow> GetRestartPoint it j = eoff ts (rs ! j)"
    and "bi_num_restarts it = length rs" "bi_current it = eoff ts i" "i < length ts"
    and "\<And>j. j < length rs \<Longrightarrow> rs ! j \<le> length ts"
    and "ri < length rs" "rs ! ri \<le> i"
  shows "advance_restart it ri < length rs \<and> rs ! advance_restart it ri \<le> i"
  using assms(6,7)
proof (induction "length rs - ri" arbitrary: ri rule: less_induct)
  case less
  show ?case
  proof (cases "ri + 1 < bi_num_restarts it \<and> GetRestartPoint it (ri + 1) < bi_current it")
    case True
    then have "ri + 1 < length rs" "eoff ts (rs ! (ri + 1)) < eoff ts i" using assms(1-3) by auto
    then have "rs ! (ri + 1) < i" using eoff_less_iff assms(4,5) by (metis less_imp_le)
    then show ?thesis
      using less.hyps [of "ri + 1"] \<open>ri + 1 < length rs\<close> True by (subst (1 2) advance_restart.simps) simp
  next
    case False
    then have "advance_restart it ri = ri" by (subst advance_restart.simps) auto
    then show ?thesis using less.prems by simp
  qed
qed

text \<open>Parsing the next entry, and the end of the entries.\<close>

lemma ParseNextKey_eval:
  assumes "NextEntryOffset it = Some n" "n < bi_restarts it"
    and "DecodeEntry (drop n (take (bi_restarts it) (bi_data it))) = Some (a, b, v, q)"
    and "unat a \<le> length (bi_key it)" "off = bi_restarts it - length q"
    and "off + unat b \<le> length (bi_data it)"
    and "it1 = it\<lparr>bi_current := n, bi_key := take (unat a) (bi_key it) @ take (unat b) (drop off (bi_data it)),
      bi_value := Some (off + unat b, unat v)\<rparr>"
  shows "ParseNextKey it = Some (True, it1\<lparr>bi_restart_index := advance_restart it1 (bi_restart_index it1)\<rparr>)"
  using assms by (simp add: ParseNextKey_def Let_def)

lemma Parse_entry:
  assumes rep: "bi_rep it ts rs" and rdy: "ready it ts rs i" and i: "i < length ts"
  shows "\<exists>it'. ParseNextKey it = Some (True, it') \<and> bi_rep it' ts rs \<and> at_entry it' ts rs i \<and>
    bi_comparator it' = bi_comparator it"
proof -
  note lay = bi_repD(1) [OF rep]
  let ?sh = "eshared ts i" and ?k = "ekey ts i" and ?v = "eval ts i"
  let ?q = "drop ?sh ?k @ ?v @ drop (eoff ts (Suc i)) (encs ts)"
  let ?off = "bi_restarts it - length ?q"
  note ch = chainedD [OF layoutD(1) [OF lay] i]
  note ent = entry_in_data [OF rep i]
  have n: "NextEntryOffset it = Some (eoff ts i)" using rdy by (simp add: ready_def)
  have lt: "eoff ts i < bi_restarts it"
    using eoff_strict [OF i order.refl] bi_repD(3) [OF rep] by (simp add: eoff_length)
  have k: "length ?k < 2 ^ 32" "length ?v < 2 ^ 32"
    using key_length_bound [OF layoutD(1) [OF lay] i] ent(1) eoff_bound [OF lay, of "Suc i"] by simp_all
  have u: "unat (word_of_nat ?sh :: u32) = ?sh" "unat (word_of_nat (length ?k - ?sh) :: u32) = length ?k - ?sh"
    "unat (word_of_nat (length ?v) :: u32) = length ?v"
    by (rule unat_of_nat_u32, use k ch(2) in linarith)+
  have shk: "?sh \<le> length (bi_key it)" "take ?sh (bi_key it) = take ?sh ?k"
    using rdy i by (simp_all add: ready_def)
  define it1 where "it1 = it\<lparr>bi_current := eoff ts i, bi_key := ?k,
    bi_value := Some (eoff ts (Suc i) - length ?v, length ?v)\<rparr>"
  let ?it' = "it1\<lparr>bi_restart_index := advance_restart it1 (bi_restart_index it1)\<rparr>"
  have dec: "DecodeEntry (drop (eoff ts i) (take (bi_restarts it) (bi_data it))) =
    Some (word_of_nat ?sh, word_of_nat (length ?k - ?sh), word_of_nat (length ?v), ?q)"
    unfolding take_data [OF rep] by (rule DecodeEntry_at [OF lay i])
  have oo: "?off + (length ?k - ?sh) = eoff ts (Suc i) - length ?v" using ent(1) by simp
  have key: "take ?sh (bi_key it) @ take (length ?k - ?sh) (drop ?off (bi_data it)) = ?k"
    unfolding shk(2) using ent(3) by simp
  have "ParseNextKey it = Some (True, ?it')"
  proof (rule ParseNextKey_eval [OF n lt dec, unfolded u, OF shk(1) refl])
    show "?off + (length ?k - ?sh) \<le> length (bi_data it)" using ent(2) by simp
    show "it1 = it\<lparr>bi_current := eoff ts i,
        bi_key := take ?sh (bi_key it) @ take (length ?k - ?sh) (drop ?off (bi_data it)),
        bi_value := Some (?off + (length ?k - ?sh), length ?v)\<rparr>"
      unfolding it1_def key oo ..
  qed
  moreover have "bi_rep ?it' ts rs" using rep by (simp add: bi_rep_def it1_def)
  moreover have "at_entry ?it' ts rs i"
  proof -
    have "advance_restart it1 (bi_restart_index it) < length rs \<and> rs ! advance_restart it1 (bi_restart_index it) \<le> i"
    proof (rule advance_restart_inv)
      show "\<And>j. j < bi_num_restarts it1 \<Longrightarrow> GetRestartPoint it1 j = eoff ts (rs ! j)"
        using GetRestartPoint_rep [of it1 ts rs] rep by (simp add: bi_rep_def it1_def)
      show "bi_num_restarts it1 = length rs" using rep by (simp add: bi_rep_def it1_def)
      show "\<And>j. j < length rs \<Longrightarrow> rs ! j \<le> length ts" using layoutD(5) [OF lay] by fastforce
    qed (use rdy i in \<open>simp_all add: ready_def it1_def\<close>)
    then show ?thesis using i by (simp add: at_entry_def it1_def)
  qed
  moreover have "bi_comparator ?it' = bi_comparator it" by (simp add: it1_def)
  ultimately show ?thesis by blast
qed

lemma Parse_end:
  assumes rep: "bi_rep it ts rs" and rdy: "ready it ts rs (length ts)"
  shows "\<exists>it'. ParseNextKey it = Some (False, it') \<and> bi_rep it' ts rs \<and> bi_current it' = length (encs ts) \<and>
    bi_comparator it' = bi_comparator it"
proof -
  have "NextEntryOffset it = Some (bi_restarts it)"
    using rdy bi_repD(3) [OF rep] by (simp add: ready_def eoff_length)
  then have "ParseNextKey it =
      Some (False, it\<lparr>bi_current := bi_restarts it, bi_restart_index := bi_num_restarts it\<rparr>)"
    by (simp add: ParseNextKey_def Let_def)
  then show ?thesis using rep by (simp add: bi_rep_def)
qed

lemma at_ready:
  assumes "bi_rep it ts rs" "at_entry it ts rs i"
  shows "ready it ts rs (Suc i)"
proof -
  have i: "i < length ts" using assms(2) by (simp add: at_entry_def)
  have "length (eval ts i) \<le> eoff ts (Suc i)" using entry_in_data(1) [OF assms(1) i] by simp
  then have "NextEntryOffset it = Some (eoff ts (Suc i))"
    using assms(2) eoff_bound [OF bi_repD(1) [OF assms(1)], of "Suc i"]
    by (simp add: at_entry_def NextEntryOffset_def)
  moreover have "eshared ts (Suc i) \<le> length (bi_key it) \<and>
      take (eshared ts (Suc i)) (bi_key it) = take (eshared ts (Suc i)) (ekey ts (Suc i))" if "Suc i < length ts"
    using chainedD(1,3) [OF layoutD(1) [OF bi_repD(1) [OF assms(1)]] that] assms(2)
    by (simp add: at_entry_def key_before_def)
  ultimately show ?thesis using assms(2) i by (auto simp: ready_def at_entry_def)
qed

lemma restart_ready:
  assumes "bi_rep it ts rs" "j < length rs"
  shows "bi_rep (SeekToRestartPoint j it) ts rs" "ready (SeekToRestartPoint j it) ts rs (rs ! j)"
proof -
  note lay = bi_repD(1) [OF assms(1)]
  show "bi_rep (SeekToRestartPoint j it) ts rs"
    using assms(1) by (simp add: bi_rep_def SeekToRestartPoint_def)
  have "rs ! j \<le> length ts" using layoutD(5) [OF lay assms(2)] by auto
  moreover have "NextEntryOffset (SeekToRestartPoint j it) = Some (eoff ts (rs ! j))"
    using GetRestartPoint_rep [OF assms] eoff_bound [OF lay]
    by (simp add: NextEntryOffset_def SeekToRestartPoint_def)
  ultimately show "ready (SeekToRestartPoint j it) ts rs (rs ! j)"
    using layoutD(6) [OF lay assms(2)] assms(2) by (simp add: ready_def SeekToRestartPoint_def)
qed

text \<open>A position of the iterator: at an entry, or past the last one.\<close>

definition at_pos :: "BlockIter \<Rightarrow> block_entry list \<Rightarrow> nat list \<Rightarrow> nat \<Rightarrow> bool" where
  "at_pos it ts rs i \<longleftrightarrow> bi_rep it ts rs \<and>
     (at_entry it ts rs i \<or> i = length ts \<and> bi_current it = length (encs ts))"

lemma Parse_ready:
  assumes "bi_rep it ts rs" "ready it ts rs i"
  shows "\<exists>it'. ParseNextKey it = Some (i < length ts, it') \<and> at_pos it' ts rs i \<and>
    bi_comparator it' = bi_comparator it"
  using Parse_entry [OF assms] Parse_end [of it ts rs] assms
  by (cases "i < length ts") (auto simp: at_pos_def ready_def)

lemma ParseUntil_reaches:
  assumes "bi_rep it ts rs" "ready it ts rs j" "j \<le> i" "i < length ts"
    and limit: "\<And>m. m \<le> length ts \<Longrightarrow> eoff ts m < limit \<longleftrightarrow> m \<le> i"
  shows "\<exists>it'. ParseUntil limit it = Some it' \<and> at_pos it' ts rs i \<and> bi_comparator it' = bi_comparator it"
  using assms(1-3)
proof (induction "i - j" arbitrary: it j)
  case 0
  then have [simp]: "j = i" by simp
  obtain it' where p: "ParseNextKey it = Some (True, it')" "at_pos it' ts rs i" "bi_comparator it' = bi_comparator it"
    using Parse_ready [OF 0(2,3)] assms(4) by auto
  then have "ready it' ts rs (Suc i)" using assms(4) at_ready by (auto simp: at_pos_def)
  then have "NextEntryOffset it' = Some (eoff ts (Suc i))" by (simp add: ready_def)
  then show ?case
    using p limit [of "Suc i"] assms(4) by (subst ParseUntil.simps) simp
next
  case (Suc d)
  have j: "j < length ts" and d: "d = i - Suc j" "Suc j \<le> i" using Suc.hyps(2) assms(4) by linarith+
  obtain it' where p: "ParseNextKey it = Some (True, it')" "at_pos it' ts rs j" "bi_comparator it' = bi_comparator it"
    using Parse_ready [OF Suc.prems(1,2)] j by auto
  then have r: "bi_rep it' ts rs" "ready it' ts rs (Suc j)" using j at_ready by (auto simp: at_pos_def)
  have "NextEntryOffset it' = Some (eoff ts (Suc j))" using r(2) by (simp add: ready_def)
  moreover have "eoff ts (Suc j) < limit" using limit [of "Suc j"] Suc.hyps(2) j by simp
  moreover obtain it2 where "ParseUntil limit it' = Some it2" "at_pos it2 ts rs i" "bi_comparator it2 = bi_comparator it'"
    using Suc.hyps(1) [of "Suc j" it'] r d by blast
  ultimately show ?case using p by (subst ParseUntil.simps) simp
qed

lemma Seek_linear_reaches:
  assumes "bi_rep it ts rs" "ready it ts rs j" "j \<le> i" "i \<le> length ts"
    and "\<And>m. j \<le> m \<Longrightarrow> m < i \<Longrightarrow> Compare (bi_comparator it) (ekey ts m) t < 0"
    and "i < length ts \<Longrightarrow> \<not> Compare (bi_comparator it) (ekey ts i) t < 0"
  shows "\<exists>it'. Seek_linear t it = Some it' \<and> at_pos it' ts rs i \<and> bi_comparator it' = bi_comparator it"
  using assms
proof (induction "i - j" arbitrary: it j)
  case 0
  then have [simp]: "j = i" by simp
  obtain it' where p: "ParseNextKey it = Some (i < length ts, it')" "at_pos it' ts rs i" "bi_comparator it' = bi_comparator it"
    using Parse_ready [OF 0(2,3)] by auto
  have "i < length ts \<Longrightarrow> bi_key it' = ekey ts i" using p(2) by (auto simp: at_pos_def at_entry_def)
  then show ?case using p 0(7) by (subst Seek_linear.simps) (auto simp: not_less)
next
  case (Suc d)
  have j: "j < i" "j < length ts" using Suc.hyps(2) Suc.prems(4) by simp_all
  obtain it' where p: "ParseNextKey it = Some (True, it')" "at_pos it' ts rs j" "bi_comparator it' = bi_comparator it"
    using Parse_ready [OF Suc.prems(1,2)] j by auto
  then have r: "bi_rep it' ts rs" "ready it' ts rs (Suc j)" using j at_ready by (auto simp: at_pos_def)
  have k: "bi_key it' = ekey ts j" using p(2) j by (auto simp: at_pos_def at_entry_def)
  have "\<exists>it2. Seek_linear t it' = Some it2 \<and> at_pos it2 ts rs i \<and> bi_comparator it2 = bi_comparator it'"
    using Suc.hyps(1) [of "Suc j" it'] r Suc.hyps(2) Suc.prems(4-6) p(3) j by simp
  then show ?case
    using p k Suc.prems(5) [of j] j by (subst Seek_linear.simps) auto
qed

lemma Seek_search_reaches:
  assumes "bi_rep it ts rs" "left \<le> right" "right < length rs"
    and "left = 0 \<or> Compare (bi_comparator it) (ekey ts (rs ! left)) t < 0"
  shows "\<exists>l. Seek_search it t left right = Some (Some l) \<and> l < length rs \<and>
    (l = 0 \<or> Compare (bi_comparator it) (ekey ts (rs ! l)) t < 0)"
  using assms(2-4)
proof (induction "right - left" arbitrary: left right rule: less_induct)
  case less
  note lay = bi_repD(1) [OF assms(1)]
  show ?case
  proof (cases "left < right")
    case False
    then show ?thesis using less.prems by (subst Seek_search.simps) simp
  next
    case True
    let ?mid = "(left + right + 1) div 2"
    have "length (concat (map EncodeFixed32 zs)) = length zs * 4" for zs
      by (induction zs) simp_all
    from this [of "map (\<lambda>r. word_of_nat (eoff ts r)) rs"]
    have "length rs * 4 \<le> length (block_bytes ts rs)" by (simp add: block_bytes_def comp_def)
    then have "left + right + 1 < 2 ^ 32" using layoutD(4) [OF lay] less.prems True by linarith
    then have n: "narrow32 (left + right + 1) = left + right + 1" by (rule narrow32_id)
    have mid: "left < ?mid" "?mid \<le> right" "0 < ?mid" "?mid < length rs"
      using True less.prems by linarith+
    have ml: "rs ! ?mid < length ts" using layoutD(7) [OF lay mid(4,3)] .
    have sh: "eshared ts (rs ! ?mid) = 0" using layoutD(6) [OF lay mid(4) ml] .
    note ent = entry_in_data [OF assms(1) ml, unfolded sh drop_0]
    let ?k = "ekey ts (rs ! ?mid)"
    let ?q = "?k @ eval ts (rs ! ?mid) @ drop (eoff ts (Suc (rs ! ?mid))) (encs ts)"
    have k: "unat (word_of_nat (length ?k) :: u32) = length ?k"
      by (rule unat_of_nat_u32)
         (use key_length_bound [OF layoutD(1) [OF lay] ml] eoff_bound [OF lay, of "Suc (rs ! ?mid)"] in linarith)
    have dec: "DecodeEntry (drop (GetRestartPoint it ?mid) (take (bi_restarts it) (bi_data it))) =
        Some (0, word_of_nat (length ?k), word_of_nat (length (eval ts (rs ! ?mid))), ?q)"
      using DecodeEntry_at [OF lay ml]
      unfolding take_data [OF assms(1)] GetRestartPoint_rep [OF assms(1) mid(4)] sh by simp
    have ev: "Seek_search it t left right =
        (if Compare (bi_comparator it) ?k t < 0 then Seek_search it t ?mid right
         else Seek_search it t left (?mid - 1))"
      using True ent(2,3)
      by (subst Seek_search.simps) (simp only: n dec Let_def option.case prod.case k if_True if_False simp_thms not_less [symmetric])
    show ?thesis
    proof (cases "Compare (bi_comparator it) ?k t < 0")
      case T: True
      then show ?thesis using ev less.hyps [of right ?mid] mid less.prems by simp
    next
      case F: False
      have "?mid - 1 - left < right - left" "left \<le> ?mid - 1" "?mid - 1 < length rs" using mid by linarith+
      then show ?thesis using ev F less.hyps [of "?mid - 1" left] less.prems by simp
    qed
  qed
qed

lemma Prev_scan_correct:
  assumes "bi_rep it ts rs" "ri < length rs" "i \<le> length ts"
  shows "case Prev_scan it (eoff ts i) ri of None \<Rightarrow> i = 0 | Some r \<Rightarrow> r < length rs \<and> rs ! r < i"
  using assms(2)
proof (induction ri)
  case 0
  then show ?case
    using GetRestartPoint_rep [OF assms(1), of 0] layoutD(3) [OF bi_repD(1) [OF assms(1)]] eoff_strict [of 0 i ts] assms(3)
    by (cases "i = 0") simp_all
next
  case (Suc ri)
  have "rs ! Suc ri \<le> length ts" using layoutD(7) [OF bi_repD(1) [OF assms(1)] Suc.prems] by simp
  then have "GetRestartPoint it (Suc ri) < eoff ts i \<longleftrightarrow> rs ! Suc ri < i"
    using GetRestartPoint_rep [OF assms(1) Suc.prems] eoff_less_iff [of "rs ! Suc ri" ts i] assms(3) by simp
  then show ?case using Suc by (auto simp: not_less [symmetric])
qed

lemma SeekToRestartPoint_comparator [simp]:
  "bi_comparator (SeekToRestartPoint j it) = bi_comparator it"
  by (simp add: SeekToRestartPoint_def)

lemma Prev_pos:
  assumes "at_pos it ts rs i" "i < length ts"
  shows "\<exists>it'. BlockIter_Prev it = Some it' \<and> at_pos it' ts rs (if i = 0 then length ts else i - 1) \<and>
    bi_comparator it' = bi_comparator it"
proof -
  have rep: "bi_rep it ts rs" and ent: "at_entry it ts rs i" using assms by (auto simp: at_pos_def)
  have cur: "bi_current it = eoff ts i" "bi_restart_index it < length rs" using ent by (simp_all add: at_entry_def)
  note scan = Prev_scan_correct [OF rep cur(2), of i]
  show ?thesis
  proof (cases "Prev_scan it (eoff ts i) (bi_restart_index it)")
    case None
    then have "i = 0" using scan assms(2) by simp
    then show ?thesis using None rep cur(1) bi_repD(3) [OF rep]
      by (simp add: BlockIter_Prev_def at_pos_def bi_rep_def)
  next
    case (Some r)
    then have r: "r < length rs" "rs ! r < i" using scan assms(2) by simp_all
    have lim: "eoff ts m < eoff ts i \<longleftrightarrow> m \<le> i - 1" if "m \<le> length ts" for m
      using eoff_less_iff [OF that, of i] assms(2) r(2) by auto
    have "\<exists>it'. ParseUntil (eoff ts i) (SeekToRestartPoint r it) = Some it' \<and> at_pos it' ts rs (i - 1) \<and>
        bi_comparator it' = bi_comparator (SeekToRestartPoint r it)"
      by (rule ParseUntil_reaches [OF restart_ready [OF rep r(1)]]) (use r(2) assms(2) lim in auto)
    then show ?thesis using Some r cur(1) by (simp add: BlockIter_Prev_def)
  qed
qed

lemma SeekToLast_pos:
  assumes rep: "bi_rep it ts rs"
  shows "\<exists>it'. BlockIter_SeekToLast it = Some it' \<and> at_pos it' ts rs (length ts - 1) \<and>
    bi_comparator it' = bi_comparator it"
proof -
  note lay = bi_repD(1) [OF rep]
  let ?r = "length rs - 1"
  have r: "?r < length rs" using layoutD(2) [OF lay] by simp
  note rr = restart_ready [OF rep r]
  show ?thesis
  proof (cases "ts = []")
    case True
    then have "ready (SeekToRestartPoint ?r it) ts rs 0" using rr(2) layoutD(5) [OF lay r] by simp
    from Parse_ready [OF rr(1) this] True obtain it' where
      "ParseNextKey (SeekToRestartPoint ?r it) = Some (False, it')" "at_pos it' ts rs 0" "bi_comparator it' = bi_comparator it"
      by auto
    then show ?thesis
      using True bi_repD(4) [OF rep] by (simp add: BlockIter_SeekToLast_def) (subst ParseUntil.simps, simp)
  next
    case False
    have lim: "eoff ts m < bi_restarts it \<longleftrightarrow> m \<le> length ts - 1" if "m \<le> length ts" for m
    proof -
      have "eoff ts m < bi_restarts it \<longleftrightarrow> m < length ts"
        using eoff_less_iff [OF that order.refl] bi_repD(3) [OF rep] by (simp only: eoff_length)
      then show ?thesis using False by (cases "length ts") auto
    qed
    have "rs ! ?r \<le> length ts - 1" using layoutD(5) [OF lay r] False by (auto simp: less_eq_Suc_le)
    then have "\<exists>it'. ParseUntil (bi_restarts it) (SeekToRestartPoint ?r it) = Some it' \<and>
        at_pos it' ts rs (length ts - 1) \<and> bi_comparator it' = bi_comparator (SeekToRestartPoint ?r it)"
      by (rule ParseUntil_reaches [OF rr]) (use False lim in auto)
    then show ?thesis using bi_repD(4) [OF rep] by (simp add: BlockIter_SeekToLast_def)
  qed
qed

subsection \<open>A block's iterator satisfies the iterator contract\<close>

definition block_at ::
    "Comparator \<Rightarrow> (bytes \<Rightarrow> bool) \<Rightarrow> BlockIter \<Rightarrow> (bytes \<times> bytes) list \<Rightarrow> nat \<Rightarrow> bool" where
  "block_at c valid it es i \<longleftrightarrow> bi_comparator it = c \<and> sorted_entries c valid es \<and>
     (\<exists>ts rs. at_pos it ts rs i \<and> es = map snd ts)"

lemma at_pos_le: "at_pos it ts rs i \<Longrightarrow> i \<le> length ts"
  by (auto simp: at_pos_def at_entry_def)

lemma at_pos_entry: "at_pos it ts rs i \<Longrightarrow> i < length ts \<Longrightarrow> at_entry it ts rs i"
  by (auto simp: at_pos_def)

lemma at_pos_Valid: "at_pos it ts rs i \<Longrightarrow> BlockIter_Valid it \<longleftrightarrow> i < length ts"
  using eoff_strict [of i "length ts" ts] bi_repD(3) [of it ts rs]
  by (auto simp: at_pos_def BlockIter_Valid_def at_entry_def eoff_length)

lemma at_pos_value:
  assumes "at_pos it ts rs i" "i < length ts"
  shows "BlockIter_value it = Some (eval ts i)"
proof -
  have rep: "bi_rep it ts rs" using assms by (simp add: at_pos_def)
  note ent = entry_in_data [OF rep assms(2)]
  have v: "bi_value it = Some (eoff ts (Suc i) - length (eval ts i), length (eval ts i))"
    using at_pos_entry [OF assms] by (simp add: at_entry_def)
  have "eoff ts (Suc i) \<le> length (bi_data it)"
    using eoff_le_length [of ts "Suc i"] bi_repD(2) [OF rep] by (simp add: block_bytes_def)
  moreover obtain d where d: "d + length (eval ts i) = eoff ts (Suc i)"
      "take (length (eval ts i)) (drop d (bi_data it)) = eval ts i"
    using ent(1,4) by blast
  moreover have "eoff ts (Suc i) - length (eval ts i) = d" using d(1) by simp
  ultimately show ?thesis using v by (simp add: BlockIter_value_def)
qed

lemma snd_nth: "i < length ts \<Longrightarrow> map snd ts ! i = (ekey ts i, eval ts i)"
  by (simp add: ekey_def eval_def)

context comparator
begin

lemma block_Seek:
  assumes "block_at c valid it es i" "valid t"
  shows "\<exists>it'. BlockIter_Seek t it = Some it' \<and> block_at c valid it' es (first_ge c es t)"
proof -
  from assms(1) obtain ts rs where cmp: "bi_comparator it = c" and srt: "sorted_entries c valid es"
    and pos: "at_pos it ts rs i" and es: "es = map snd ts" by (auto simp: block_at_def)
  have rep: "bi_rep it ts rs" using pos by (simp add: at_pos_def)
  note lay = bi_repD(1) [OF rep]
  have "length rs - 1 < length rs" using layoutD(2) [OF lay] by simp
  then obtain l where l: "Seek_search it t 0 (length rs - 1) = Some (Some l)" "l < length rs"
    "l = 0 \<or> Compare c (ekey ts (rs ! l)) t < 0"
    using Seek_search_reaches [OF rep, of 0 "length rs - 1" t] cmp by auto
  have key: "fst (es ! m) = ekey ts m" if "m < length ts" for m using that by (simp add: es ekey_def)
  define n where "n = first_ge c es t"
  have n: "n \<le> length ts" unfolding n_def using first_ge_le [of c es t] es by simp
  have below: "Compare c (ekey ts m) t < 0" if "m < n" for m
  proof -
    have "es ! m \<in> set (takeWhile (\<lambda>e. Compare c (fst e) t < 0) es)"
      using that nth_mem [of m "takeWhile (\<lambda>e. Compare c (fst e) t < 0) es"]
      by (simp add: n_def first_ge_def takeWhile_nth)
    then show ?thesis using set_takeWhileD key [of m] that n by fastforce
  qed
  have top: "\<not> Compare c (ekey ts n) t < 0" if "n < length ts"
    using nth_length_takeWhile [of "\<lambda>e. Compare c (fst e) t < 0" es] that key [OF that]
    by (simp add: n_def first_ge_def es)
  have "rs ! l \<le> n"
  proof (cases "l = 0")
    case False
    then have "Compare c (ekey ts (rs ! l)) t < 0" "rs ! l < length ts"
      using l(2,3) layoutD(7) [OF lay l(2)] by auto
    then have "Compare c (ekey ts m) t < 0" if "m \<le> rs ! l" for m
      using before_first_ge [OF srt _ assms(2), of "rs ! l" m] that key [of m] key [of "rs ! l"] es by auto
    then show ?thesis using top n by (metis linorder_not_le order.strict_trans1 \<open>rs ! l < length ts\<close> less_imp_le)
  qed (use layoutD(3) [OF lay] in simp)
  then have "\<exists>it'. Seek_linear t (SeekToRestartPoint l it) = Some it' \<and> at_pos it' ts rs n \<and>
      bi_comparator it' = bi_comparator (SeekToRestartPoint l it)"
    by (intro Seek_linear_reaches [OF restart_ready [OF rep l(2)]]) (use n below top cmp in auto)
  then show ?thesis
    using l(1) bi_repD(4) [OF rep] cmp srt es unfolding BlockIter_Seek_def block_at_def n_def by auto
qed

sublocale bi: iterator c valid BlockIter_ops "block_at c valid"
proof
  fix it es i
  assume at: "block_at c valid it es i"
  then obtain ts rs where cmp: "bi_comparator it = c" and srt: "sorted_entries c valid es"
    and pos: "at_pos it ts rs i" and es: "es = map snd ts" by (auto simp: block_at_def)
  have rep: "bi_rep it ts rs" using pos by (simp add: at_pos_def)
  have goal: "block_at c valid it' es j" if "at_pos it' ts rs j" "bi_comparator it' = bi_comparator it" for it' j
    using that cmp srt es by (auto simp: block_at_def)
  show "sorted_entries c valid es" by (rule srt)
  show "i \<le> length es" using at_pos_le [OF pos] es by simp
  show "it_Valid BlockIter_ops it \<longleftrightarrow> i < length es" using at_pos_Valid [OF pos] es by (simp add: BlockIter_ops_def)
  show "ok (it_status BlockIter_ops it)" using bi_repD(5) [OF rep] by (simp add: BlockIter_ops_def)
  show "\<exists>it'. it_SeekToFirst BlockIter_ops it = Some it' \<and> block_at c valid it' es 0"
  proof -
    have r: "0 < length rs" using layoutD(2) [OF bi_repD(1) [OF rep]] by simp
    note rr = restart_ready [OF rep r, unfolded layoutD(3) [OF bi_repD(1) [OF rep]]]
    show ?thesis using Parse_ready [OF rr] goal by (auto simp: BlockIter_ops_def BlockIter_SeekToFirst_def)
  qed
  show "\<exists>it'. it_SeekToLast BlockIter_ops it = Some it' \<and> block_at c valid it' es (length es - 1)"
    using SeekToLast_pos [OF rep] goal es by (auto simp: BlockIter_ops_def)
  show "\<exists>it'. it_Seek BlockIter_ops t it = Some it' \<and> block_at c valid it' es (first_ge c es t)" if "valid t" for t
    using block_Seek [OF at that] by (simp add: BlockIter_ops_def)
  assume i: "i < length es"
  then have i': "i < length ts" using es by simp
  show "it_key BlockIter_ops it = fst (es ! i)"
    using at_pos_entry [OF pos i'] i' by (simp add: BlockIter_ops_def at_entry_def es ekey_def)
  show "it_value BlockIter_ops it = Some (snd (es ! i))"
    using at_pos_value [OF pos i'] i' by (simp add: BlockIter_ops_def es eval_def)
  show "\<exists>it'. it_Next BlockIter_ops it = Some it' \<and> block_at c valid it' es (Suc i)"
    using Parse_ready [OF rep at_ready [OF rep at_pos_entry [OF pos i']]] goal
    by (auto simp: BlockIter_ops_def BlockIter_Next_def)
  show "\<exists>it'. it_Prev BlockIter_ops it = Some it' \<and> block_at c valid it' es (if i = 0 then length es else i - 1)"
    using Prev_pos [OF pos i'] goal es by (auto simp: BlockIter_ops_def)
qed

lemma block_iterator: "iterator c valid BlockIter_ops (block_at c valid)"
  by (rule bi.iterator_axioms)

end

interpretation bytewise_bi: iterator BytewiseComparator "\<lambda>_. True" BlockIter_ops "block_at BytewiseComparator (\<lambda>_. True)"
  by (rule bytewise.bi.iterator_axioms)

subsection \<open>The builder produces the layout\<close>

definition bb_rep :: "BlockBuilder \<Rightarrow> block_entry list \<Rightarrow> nat list \<Rightarrow> bool" where
  "bb_rep b ts rs \<longleftrightarrow> bb_buffer b = encs ts \<and> bb_restarts b = map (\<lambda>r. word_of_nat (eoff ts r)) rs \<and>
     bb_last_key b = key_before ts (length ts) \<and> chained ts \<and> rs \<noteq> [] \<and> rs ! 0 = 0 \<and>
     (\<forall>j < length rs. j = 0 \<or> rs ! j < length ts) \<and>
     (\<forall>r \<in> set rs. r < length ts \<longrightarrow> eshared ts r = 0)"

lemma bb_rep_new: "bb_rep BlockBuilder_new [] [0]"
  by (simp add: bb_rep_def BlockBuilder_new_def key_before_def chained_def)

lemma BlockBuilder_Reset_new [simp]: "BlockBuilder_Reset b = BlockBuilder_new"
  by (simp add: BlockBuilder_Reset_def BlockBuilder_new_def)

lemma entry_append:
  "i < length ts \<Longrightarrow> eshared (ts @ [t]) i = eshared ts i \<and> ekey (ts @ [t]) i = ekey ts i"
  "eshared (ts @ [(s, k, v)]) (length ts) = s" "ekey (ts @ [(s, k, v)]) (length ts) = k"
  "i \<le> length ts \<Longrightarrow> key_before (ts @ [t]) i = key_before ts i"
  "i \<le> length ts \<Longrightarrow> eoff (ts @ [t]) i = eoff ts i"
  by (auto simp: eshared_def ekey_def key_before_def nth_append eoff_def)

lemma chained_append:
  assumes "chained ts" "s \<le> length (key_before ts (length ts))" "s \<le> length k"
    "take s (key_before ts (length ts)) = take s k"
  shows "chained (ts @ [(s, k, v)])"
  unfolding chained_def
proof (intro allI impI)
  fix i assume "i < length (ts @ [(s, k, v)])"
  then consider "i < length ts" | "i = length ts" by (auto simp: less_Suc_eq)
  then show "eshared (ts @ [(s, k, v)]) i \<le> length (key_before (ts @ [(s, k, v)]) i) \<and>
      eshared (ts @ [(s, k, v)]) i \<le> length (ekey (ts @ [(s, k, v)]) i) \<and>
      take (eshared (ts @ [(s, k, v)]) i) (key_before (ts @ [(s, k, v)]) i) =
      take (eshared (ts @ [(s, k, v)]) i) (ekey (ts @ [(s, k, v)]) i)"
    using assms by cases (auto simp: entry_append dest: chainedD)
qed

lemma bb_rep_Add:
  assumes "bb_rep b ts rs"
  shows "\<exists>s rs'. bb_rep (BlockBuilder_Add n k v b) (ts @ [(s, k, v)]) rs'"
proof -
  let ?prev = "key_before ts (length ts)"
  note r = assms [unfolded bb_rep_def]
  have last: "key_before (ts @ [(s, k, v)]) (Suc (length ts)) = k" for s
    by (simp add: key_before_def entry_append)
  have old: "map (\<lambda>r. word_of_nat (eoff (ts @ [t]) r) :: u32) rs = map (\<lambda>r. word_of_nat (eoff ts r)) rs" for t
  proof (rule map_cong [OF refl])
    fix x assume "x \<in> set rs"
    then have "x \<le> length ts" using r by (metis in_set_conv_nth le0 less_imp_le)
    then show "(word_of_nat (eoff (ts @ [t]) x) :: u32) = word_of_nat (eoff ts x)" by (simp add: entry_append)
  qed
  show ?thesis
  proof (cases "bb_counter b < n")
    case True
    define s where "s = common_prefix_len ?prev k"
    have s: "s \<le> length ?prev" "s \<le> length k" "take s ?prev = take s k"
      unfolding s_def by (rule common_prefix_len_le common_prefix_len_take)+
    have new: "bb_buffer (BlockBuilder_Add n k v b) = encs (ts @ [(s, k, v)])"
      "bb_restarts (BlockBuilder_Add n k v b) = bb_restarts b" "bb_last_key (BlockBuilder_Add n k v b) = k"
      using r True s by (simp_all add: BlockBuilder_Add_def Let_def PutVarint32_def s_def)
    have "eshared (ts @ [(s, k, v)]) x = 0" if x: "x \<in> set rs" "x < length (ts @ [(s, k, v)])" for x
    proof (cases "x < length ts")
      case False
      then have "x = length ts" using x(2) by simp
      then have "ts = []" using x(1) r by (metis in_set_conv_nth length_0_conv less_irrefl)
      then show ?thesis using \<open>x = length ts\<close> s(1) by (simp add: eshared_def key_before_def)
    qed (use r x in \<open>simp add: entry_append\<close>)
    moreover have "\<forall>j < length rs. j = 0 \<or> rs ! j < length (ts @ [(s, k, v)])" using r by auto
    ultimately have "bb_rep (BlockBuilder_Add n k v b) (ts @ [(s, k, v)]) rs"
      using r new chained_append [OF _ s] by (simp add: bb_rep_def last old)
    then show ?thesis by blast
  next
    case False
    have new: "bb_buffer (BlockBuilder_Add n k v b) = encs (ts @ [(0, k, v)])"
      "bb_restarts (BlockBuilder_Add n k v b) = bb_restarts b @ [word_of_nat (eoff ts (length ts))]"
      "bb_last_key (BlockBuilder_Add n k v b) = k"
      using r False by (simp_all add: BlockBuilder_Add_def Let_def PutVarint32_def eoff_length)
    have z: "eshared (ts @ [(0, k, v)]) x = 0" if "x \<in> set (rs @ [length ts])" "x < length (ts @ [(0, k, v)])" for x
      using that r by (cases "x < length ts") (auto simp: entry_append less_Suc_eq)
    have "\<forall>j < length (rs @ [length ts]). j = 0 \<or> (rs @ [length ts]) ! j < length (ts @ [(0, k, v)])"
      using r by (auto simp: nth_append less_Suc_eq)
    moreover have "chained (ts @ [(0, k, v)])" using r by (intro chained_append) simp_all
    moreover have "(rs @ [length ts]) ! 0 = 0" using r by (cases rs) auto
    ultimately have "bb_rep (BlockBuilder_Add n k v b) (ts @ [(0, k, v)]) (rs @ [length ts])"
      unfolding bb_rep_def new using r z by (simp add: last old entry_append(5))
    then show ?thesis by blast
  qed
qed

definition BlockBuilder_AddAll :: "int \<Rightarrow> (bytes \<times> bytes) list \<Rightarrow> BlockBuilder \<Rightarrow> BlockBuilder" where
  "BlockBuilder_AddAll n es b = foldl (\<lambda>b (k, v). BlockBuilder_Add n k v b) b es"

lemma AddAll_append:
  "BlockBuilder_AddAll n (es @ [(k, v)]) b = BlockBuilder_Add n k v (BlockBuilder_AddAll n es b)"
  by (simp add: BlockBuilder_AddAll_def)

lemma bb_rep_AddAll:
  "\<exists>ts rs. bb_rep (BlockBuilder_AddAll n es BlockBuilder_new) ts rs \<and> map snd ts = es"
proof (induction es rule: rev_induct)
  case Nil
  then show ?case using bb_rep_new by (auto simp: BlockBuilder_AddAll_def)
next
  case (snoc e es)
  obtain k v where e: "e = (k, v)" by (cases e)
  obtain ts rs where r: "bb_rep (BlockBuilder_AddAll n es BlockBuilder_new) ts rs" "map snd ts = es"
    using snoc by blast
  obtain s rs' where "bb_rep (BlockBuilder_Add n k v (BlockBuilder_AddAll n es BlockBuilder_new)) (ts @ [(s, k, v)]) rs'"
    using bb_rep_Add [OF r(1)] by blast
  then show ?case unfolding e AddAll_append using r(2)
    by (intro exI [of _ "ts @ [(s, k, v)]"] exI [of _ rs']) simp
qed

lemma Finish_bytes:
  assumes "bb_rep b ts rs"
  shows "fst (BlockBuilder_Finish b) = block_bytes ts rs" "CurrentSizeEstimate b = length (block_bytes ts rs)"
proof -
  have f: "foldl PutFixed32 buf ws = buf @ concat (map EncodeFixed32 ws)" for buf ws
    by (induction ws arbitrary: buf) (simp_all add: PutFixed32_def)
  have l: "length (concat (map EncodeFixed32 zs)) = length zs * 4" for zs
    by (induction zs) simp_all
  show "fst (BlockBuilder_Finish b) = block_bytes ts rs"
    using assms by (simp add: bb_rep_def BlockBuilder_Finish_def Let_def f PutFixed32_def block_bytes_def comp_def)
  show "CurrentSizeEstimate b = length (block_bytes ts rs)"
    using assms l [of "bb_restarts b"] by (simp add: bb_rep_def CurrentSizeEstimate_def block_bytes_def comp_def)
qed

lemma Block_new_layout:
  assumes "layout ts rs" "bc_data contents = block_bytes ts rs"
  shows "\<exists>it. Block_NewIterator c (Block_new contents) = Iter it \<and> at_pos it ts rs (length ts) \<and> bi_comparator it = c"
proof -
  have l: "length (concat (map EncodeFixed32 zs)) = length zs * 4" for zs
    by (induction zs) simp_all
  from this [of "map (\<lambda>r. word_of_nat (eoff ts r)) rs"]
  have len: "length (block_bytes ts rs) = length (encs ts) + length rs * 4 + 4"
    by (simp add: block_bytes_def comp_def)
  then have bnd: "length (encs ts) + length rs * 4 + 4 < 2 ^ 32" using layoutD(4) [OF assms(1)] by simp
  have "drop (length (block_bytes ts rs) - 4) (block_bytes ts rs) = EncodeFixed32 (word_of_nat (length rs))"
    unfolding len using l [of "map (\<lambda>r. word_of_nat (eoff ts r)) rs"] by (simp add: block_bytes_def comp_def)
  then have nr: "NumRestarts b = length rs" if "bl_data b = block_bytes ts rs" "bl_size b = length (block_bytes ts rs)" for b
    using bnd by (simp add: NumRestarts_def that unat_of_nat_u32)
  have ne: "0 < length rs" using layoutD(2) [OF assms(1)] by simp
  define b where "b = \<lparr>bl_data = block_bytes ts rs, bl_size = length (block_bytes ts rs),
      bl_restart_offset = length (encs ts), bl_owned = heap_allocated contents\<rparr>"
  have n1: "narrow32 (1 + length rs) = 1 + length rs"
    by (rule narrow32_id) (use bnd in linarith)
  have n2: "narrow32 (length (block_bytes ts rs) - (1 + length rs) * 4) = length (encs ts)"
    unfolding len using bnd by simp
  have "Block_new contents = b"
    using bnd len by (simp add: Block_new_def assms(2) nr n1 [simplified] n2 [simplified] b_def)
  moreover have "Block_NewIterator c b =
      Iter (BlockIter_new c (block_bytes ts rs) (length (encs ts)) (length rs))"
    unfolding Block_NewIterator_def using len ne nr [of b] by (simp add: b_def)
  ultimately show ?thesis
    using assms(1) by (simp add: BlockIter_new_def at_pos_def bi_rep_def)
qed

text \<open>The block built from sorted entries iterates over them.\<close>

lemma block_built:
  assumes "sorted_entries c valid es"
    and "CurrentSizeEstimate (BlockBuilder_AddAll n es BlockBuilder_new) < 2 ^ 32"
    and "bc_data contents = fst (BlockBuilder_Finish (BlockBuilder_AddAll n es BlockBuilder_new))"
  shows "\<exists>it. Block_NewIterator c (Block_new contents) = Iter it \<and> block_at c valid it es (length es)"
proof -
  obtain ts rs where r: "bb_rep (BlockBuilder_AddAll n es BlockBuilder_new) ts rs" "map snd ts = es"
    using bb_rep_AddAll by blast
  have "layout ts rs" using r(1) assms(2) Finish_bytes(2) [OF r(1)] by (simp add: layout_def bb_rep_def)
  moreover have "bc_data contents = block_bytes ts rs" using assms(3) Finish_bytes(1) [OF r(1)] by simp
  ultimately obtain it where "Block_NewIterator c (Block_new contents) = Iter it" "at_pos it ts rs (length ts)"
    "bi_comparator it = c" using Block_new_layout by blast
  moreover from this have "block_at c valid it es (length es)"
    unfolding block_at_def using r(2) assms(1) by (intro conjI exI [of _ ts] exI [of _ rs]) auto
  ultimately show ?thesis by blast
qed

subsection \<open>Properties\<close>

text \<open>
  C8: a block built from sorted entries, for any restart interval, gives an
  iterator that reads all entries in order from the first, exactly those at or past a target
  after \<open>Seek\<close>, and all in reverse order from the last.
\<close>

theorem block_roundtrip:
  assumes "comparator c valid" and "sorted_entries c valid es" and "valid t"
    and "b = BlockBuilder_AddAll n es BlockBuilder_new" and "CurrentSizeEstimate b < 2 ^ 32"
    and "bc_data contents = fst (BlockBuilder_Finish b)"
  shows "\<exists>it. Block_NewIterator c (Block_new contents) = Iter it \<and>
    Option.bind (BlockIter_SeekToFirst it) (scan_forward BlockIter_ops (length es)) = Some es \<and>
    Option.bind (BlockIter_Seek t it) (scan_forward BlockIter_ops (length es)) =
      Some (dropWhile (\<lambda>e. Compare c (fst e) t < 0) es) \<and>
    Option.bind (BlockIter_SeekToLast it) (scan_backward BlockIter_ops (length es)) = Some (rev es)"
proof -
  obtain it where it: "Block_NewIterator c (Block_new contents) = Iter it" "block_at c valid it es (length es)"
    using block_built assms by blast
  note bi = comparator.block_iterator [OF assms(1)]
  have ops: "it_SeekToFirst BlockIter_ops = BlockIter_SeekToFirst" "it_Seek BlockIter_ops = BlockIter_Seek"
    "it_SeekToLast BlockIter_ops = BlockIter_SeekToLast" by (simp_all add: BlockIter_ops_def)
  show ?thesis
    using it(1) iterator.scan_from_first [OF bi it(2) order.refl]
      iterator.scan_from_target [OF bi it(2) order.refl assms(3)]
      iterator.scan_from_last [OF bi it(2) order.refl] unfolding ops by blast
qed

text \<open>Three entries with a common prefix, restarting after every second entry.\<close>

definition demo_entries :: "(bytes \<times> bytes) list" where
  "demo_entries = [([1, 2], [10]), ([1, 2, 3], []), ([1, 4], [11, 12])]"

theorem block_roundtrip_witness:
  "\<exists>it. Block_NewIterator BytewiseComparator (Block_new \<lparr>bc_data =
        fst (BlockBuilder_Finish (BlockBuilder_AddAll 2 demo_entries BlockBuilder_new)),
        cachable = True, heap_allocated = True\<rparr>) = Iter it \<and>
     Option.bind (BlockIter_Seek [1, 3] it) (scan_forward BlockIter_ops (length demo_entries)) =
       Some [([1, 4], [11, 12])]"
proof -
  have c: "comparator BytewiseComparator (\<lambda>_. True)" by (rule bytewise.comparator_axioms)
  have s: "sorted_entries BytewiseComparator (\<lambda>_. True) demo_entries"
    by (simp add: sorted_entries_def demo_entries_def BytewiseComparator_def Slice_compare_def)
  have l: "CurrentSizeEstimate (BlockBuilder_AddAll 2 demo_entries BlockBuilder_new) < 2 ^ 32"
    by (simp add: CurrentSizeEstimate_def BlockBuilder_AddAll_def demo_entries_def BlockBuilder_new_def
        BlockBuilder_Add_def PutVarint32_def EncodeVarint32_def)
  have "dropWhile (\<lambda>e. Compare BytewiseComparator (fst e) [1, 3] < 0) demo_entries = [([1, 4], [11, 12])]"
    by (simp add: demo_entries_def BytewiseComparator_def Slice_compare_def)
  with block_roundtrip [OF c s TrueI refl l, of "\<lparr>bc_data =
        fst (BlockBuilder_Finish (BlockBuilder_AddAll 2 demo_entries BlockBuilder_new)),
        cachable = True, heap_allocated = True\<rparr>" "[1, 3]"]
  show ?thesis by auto
qed

lemma GetVarint32Ptr_shorter: "GetVarint32Ptr p = Some (v, q) \<Longrightarrow> length q < length p"
  using GetVarint32_shorter [of p v q] by (simp add: GetVarint32_def)

lemma DecodeEntry_bounds:
  assumes "DecodeEntry p = Some (a, b, v, q)" "length p < 2 ^ 32"
  shows "length q < length p" "unat (b + v) \<le> length q"
proof -
  have *: "length q < length p \<and> \<not> word_of_nat (length q) < b + v"
    using assms(1) by (auto simp: DecodeEntry_slow Option.bind_eq_Some_conv split: if_splits
        dest!: GetVarint32Ptr_shorter)
  then show "length q < length p" ..
  then have "unat (word_of_nat (length q) :: u32) = length q" using assms(2) by (intro unat_of_nat_u32) simp
  then show "unat (b + v) \<le> length q" using * by (simp add: word_less_nat_alt not_less)
qed

text \<open>
  C25: whatever bytes a block holds, every entry the iterator parses
  begins where the previous one ended, and ends further on, still before the restart array;
  so iterating over a corrupt block also ends.
\<close>

theorem block_parse_progress:
  assumes "ParseNextKey it = Some (True, it')" and "bi_restarts it \<le> length (bi_data it)"
    and "length (bi_data it) < 2 ^ 32"
  shows "NextEntryOffset it = Some (bi_current it') \<and>
    (\<exists>next. NextEntryOffset it' = Some next \<and> bi_current it' < next \<and> next \<le> bi_restarts it)"
proof -
  obtain n where n: "NextEntryOffset it = Some n" using assms(1) by (auto simp: ParseNextKey_def Option.bind_eq_Some_conv)
  have lt: "n < bi_restarts it" using assms(1) n by (auto simp: ParseNextKey_def Let_def split: if_splits)
  let ?p = "drop n (take (bi_restarts it) (bi_data it))"
  obtain a b v q where d: "DecodeEntry ?p = Some (a, b, v, q)"
    using assms(1) n lt by (auto simp: ParseNextKey_def Let_def split: if_splits option.splits)
  have p: "length ?p = bi_restarts it - n" using assms(2) by simp
  then have "length ?p < 2 ^ 32" using assms(2,3) by linarith
  note bd = DecodeEntry_bounds [OF d this]
  let ?off = "bi_restarts it - length q"
  have cur: "bi_current it' = n" "bi_value it' = Some (?off + unat b, unat v)"
    using assms(1) n lt d by (auto simp: ParseNextKey_def Let_def split: if_splits)
  have "(word_of_nat (?off + unat b + unat v) :: u32) = word_of_nat (?off + unat (b + v))" by simp
  moreover have "?off + unat (b + v) < 2 ^ 32" using bd(2) p bd(1) assms(2,3) by linarith
  ultimately have "NextEntryOffset it' = Some (?off + unat (b + v))"
    using cur(2) unat_of_nat_u32 [of "?off + unat (b + v)"] by (simp only: NextEntryOffset_def narrow32_def) (simp add: add.assoc)
  moreover have "n < ?off + unat (b + v)" "?off + unat (b + v) \<le> bi_restarts it"
    using bd p lt by linarith+
  ultimately show ?thesis using n cur(1) by simp
qed

theorem block_parse_progress_witness:
  "\<exists>it it'. ParseNextKey it = Some (True, it') \<and> NextEntryOffset it = Some (bi_current it') \<and>
     (\<exists>next. NextEntryOffset it' = Some next \<and> bi_current it' < next \<and> next \<le> bi_restarts it)"
proof -
  define it where "it = (BlockIter_new BytewiseComparator ([0, 1, 1, 7, 8] @ EncodeFixed32 0 @ EncodeFixed32 1) 5 1)
      \<lparr>bi_value := Some (0, 0)\<rparr>"
  have "DecodeEntry (drop 0 (take (bi_restarts it) (bi_data it))) = Some (0, 1, 1, [7, 8])"
    by (simp add: it_def BlockIter_new_def DecodeEntry_def)
  from ParseNextKey_eval [OF _ _ this _ refl _ refl]
  obtain it' where p: "ParseNextKey it = Some (True, it')"
    by (simp add: it_def BlockIter_new_def NextEntryOffset_def)
  have "bi_restarts it \<le> length (bi_data it)" "length (bi_data it) < 2 ^ 32"
    by (simp_all add: it_def BlockIter_new_def)
  from block_parse_progress [OF p this] p show ?thesis by blast
qed

text \<open>
  C39: the bounds check of \<open>DecodeEntry\<close> adds two 32-bit lengths that can wrap
  around, so a corrupt block of 20 bytes is accepted: the iterator is valid, its status is OK,
  and its value is a slice of almost 4 GiB that leaves the block.
\<close>

definition overflow_block :: bytes where
  "overflow_block =
     [0, 5, 0xFB, 0xFF, 0xFF, 0xFF, 0x0F, 1, 2, 3, 4, 5] @ EncodeFixed32 0 @ EncodeFixed32 1"

theorem block_value_outside:
  "\<exists>it it'. Block_NewIterator BytewiseComparator
       (Block_new \<lparr>bc_data = overflow_block, cachable = True, heap_allocated = True\<rparr>) = Iter it \<and>
     BlockIter_SeekToFirst it = Some it' \<and> BlockIter_Valid it' \<and> ok (bi_status it') \<and>
     bi_value it' = Some (12, 0xFFFFFFFB) \<and> BlockIter_value it' = None"
proof -
  define it where "it = BlockIter_new BytewiseComparator overflow_block 12 1"
  have len: "length overflow_block = 20" by (simp add: overflow_block_def)
  have "drop 16 overflow_block = EncodeFixed32 1" by (simp add: overflow_block_def)
  then have "NumRestarts b = 1" if "bl_data b = overflow_block" "bl_size b = 20" for b
    using that by (simp add: NumRestarts_def)
  then have "Block_NewIterator BytewiseComparator
       (Block_new \<lparr>bc_data = overflow_block, cachable = True, heap_allocated = True\<rparr>) = Iter it"
    by (simp add: Block_NewIterator_def Block_new_def len it_def)
  moreover have "drop 12 overflow_block = EncodeFixed32 0 @ EncodeFixed32 1" by (simp add: overflow_block_def)
  then have g: "GetRestartPoint it 0 = 0" by (simp add: GetRestartPoint_def it_def BlockIter_new_def)
  define it0 where "it0 = SeekToRestartPoint 0 it"
  have "DecodeEntry (drop 0 (take (bi_restarts it0) (bi_data it0))) = Some (0, 5, 0xFFFFFFFB, [1, 2, 3, 4, 5])"
    by (simp add: it0_def SeekToRestartPoint_def it_def BlockIter_new_def overflow_block_def DecodeEntry_slow
        GetVarint32Ptr_def GetVarint32PtrFallback_def)
  from ParseNextKey_eval [OF _ _ this _ refl _ refl]
  obtain it' where "ParseNextKey it0 = Some (True, it')" "bi_current it' = 0" "bi_restarts it' = 12"
    "bi_status it' = OK" "bi_value it' = Some (12, 0xFFFFFFFB)" "bi_data it' = overflow_block"
    by (simp add: it0_def SeekToRestartPoint_def g NextEntryOffset_def) (simp add: it_def BlockIter_new_def len)
  then show ?thesis
    using calculation by (intro exI [of _ it] exI [of _ it'])
      (simp add: BlockIter_SeekToFirst_def it0_def BlockIter_Valid_def BlockIter_value_def len)
qed

end
