(* ===== verification/Merger.thy ===== *)
theory Merger
  imports Block
begin

section \<open>Merging iterator (\<^verbatim>\<open>table/merger.cc\<close>, \<^verbatim>\<open>table/iterator_wrapper.h\<close>)\<close>

text \<open>
  The merging iterator presents several sorted children as one sorted sequence. It holds its
  children in wrappers that cache \<open>Valid()\<close> and \<open>key()\<close>, the index of the current child, and
  the direction it moves in; when the direction changes all other children are repositioned.
  It is modelled over children of any iterator type, and shown to satisfy the iterator
  contract whenever its children do and no two of them hold equal keys.
\<close>

subsection \<open>Iterator wrappers\<close>

record 'i IteratorWrapper =
  iw_iter :: "'i option"
  iw_valid :: bool
  iw_key :: bytes

definition IteratorWrapper_new :: "'i IteratorWrapper" where
  "IteratorWrapper_new = \<lparr>iw_iter = None, iw_valid = False, iw_key = []\<rparr>"

definition iw_Update :: "'i Iterator \<Rightarrow> 'i \<Rightarrow> 'i IteratorWrapper \<Rightarrow> 'i IteratorWrapper" where
  "iw_Update ops it w =
     w\<lparr>iw_iter := Some it, iw_valid := it_Valid ops it,
       iw_key := (if it_Valid ops it then it_key ops it else iw_key w)\<rparr>"

definition iw_Set :: "'i Iterator \<Rightarrow> 'i option \<Rightarrow> 'i IteratorWrapper \<Rightarrow> 'i IteratorWrapper" where
  "iw_Set ops iter w =
     (case iter of None \<Rightarrow> w\<lparr>iw_iter := None, iw_valid := False\<rparr> | Some it \<Rightarrow> iw_Update ops it w)"

text \<open>The movements need an iterator: on a null one they have the value \<open>None\<close>.\<close>

definition iw_move :: "'i Iterator \<Rightarrow> ('i \<Rightarrow> 'i option) \<Rightarrow> 'i IteratorWrapper \<Rightarrow> 'i IteratorWrapper option" where
  "iw_move ops f w =
     Option.bind (iw_iter w) (\<lambda>it. Option.bind (f it) (\<lambda>it'. Some (iw_Update ops it' w)))"

definition iw_Next :: "'i Iterator \<Rightarrow> 'i IteratorWrapper \<Rightarrow> 'i IteratorWrapper option" where
  "iw_Next ops = iw_move ops (it_Next ops)"

definition iw_Prev :: "'i Iterator \<Rightarrow> 'i IteratorWrapper \<Rightarrow> 'i IteratorWrapper option" where
  "iw_Prev ops = iw_move ops (it_Prev ops)"

definition iw_Seek :: "'i Iterator \<Rightarrow> bytes \<Rightarrow> 'i IteratorWrapper \<Rightarrow> 'i IteratorWrapper option" where
  "iw_Seek ops k = iw_move ops (it_Seek ops k)"

definition iw_SeekToFirst :: "'i Iterator \<Rightarrow> 'i IteratorWrapper \<Rightarrow> 'i IteratorWrapper option" where
  "iw_SeekToFirst ops = iw_move ops (it_SeekToFirst ops)"

definition iw_SeekToLast :: "'i Iterator \<Rightarrow> 'i IteratorWrapper \<Rightarrow> 'i IteratorWrapper option" where
  "iw_SeekToLast ops = iw_move ops (it_SeekToLast ops)"

definition iw_value :: "'i Iterator \<Rightarrow> 'i IteratorWrapper \<Rightarrow> bytes option" where
  "iw_value ops w = Option.bind (iw_iter w) (it_value ops)"

definition iw_status :: "'i Iterator \<Rightarrow> 'i IteratorWrapper \<Rightarrow> Status" where
  "iw_status ops w = (case iw_iter w of None \<Rightarrow> OK | Some it \<Rightarrow> it_status ops it)"

subsection \<open>The iterator\<close>

datatype Direction = kForward | kReverse

record 'i MergingIterator =
  mi_children :: "'i IteratorWrapper list"
  mi_current :: "nat option"
  mi_direction :: Direction

definition MergingIterator_new :: "'i Iterator \<Rightarrow> 'i list \<Rightarrow> 'i MergingIterator" where
  "MergingIterator_new ops children =
     \<lparr>mi_children = map (\<lambda>it. iw_Set ops (Some it) IteratorWrapper_new) children,
      mi_current = None, mi_direction = kForward\<rparr>"

text \<open>\<open>for (int i = 0; i < n_; i++)\<close> over the children, in order.\<close>

fun each_child :: "(nat \<Rightarrow> 'w \<Rightarrow> 'w option) \<Rightarrow> nat \<Rightarrow> 'w list \<Rightarrow> 'w list option" where
  "each_child f i [] = Some []"
| "each_child f i (w # ws) =
     Option.bind (f i w) (\<lambda>w'. Option.bind (each_child f (Suc i) ws) (\<lambda>ws'. Some (w' # ws')))"

fun FindSmallest_loop ::
    "Comparator \<Rightarrow> nat \<Rightarrow> 'i IteratorWrapper list \<Rightarrow> (nat \<times> bytes) option \<Rightarrow> (nat \<times> bytes) option" where
  "FindSmallest_loop c i [] smallest = smallest"
| "FindSmallest_loop c i (child # cs) smallest =
     FindSmallest_loop c (Suc i) cs
       (if iw_valid child then
          (case smallest of
             None \<Rightarrow> Some (i, iw_key child)
           | Some (j, k) \<Rightarrow> if Compare c (iw_key child) k < 0 then Some (i, iw_key child) else smallest)
        else smallest)"

definition FindSmallest :: "Comparator \<Rightarrow> 'i MergingIterator \<Rightarrow> 'i MergingIterator" where
  "FindSmallest c m = m\<lparr>mi_current := map_option fst (FindSmallest_loop c 0 (mi_children m) None)\<rparr>"

text \<open>The loop of \<open>FindLargest\<close> runs from the last child down to the first.\<close>

fun FindLargest_loop ::
    "Comparator \<Rightarrow> nat \<Rightarrow> 'i IteratorWrapper list \<Rightarrow> (nat \<times> bytes) option" where
  "FindLargest_loop c i [] = None"
| "FindLargest_loop c i (child # cs) =
     (let largest = FindLargest_loop c (Suc i) cs in
      if iw_valid child then
        (case largest of
           None \<Rightarrow> Some (i, iw_key child)
         | Some (j, k) \<Rightarrow> if Compare c (iw_key child) k > 0 then Some (i, iw_key child) else largest)
      else largest)"

definition FindLargest :: "Comparator \<Rightarrow> 'i MergingIterator \<Rightarrow> 'i MergingIterator" where
  "FindLargest c m = m\<lparr>mi_current := map_option fst (FindLargest_loop c 0 (mi_children m))\<rparr>"

definition Merging_Valid :: "'i MergingIterator \<Rightarrow> bool" where
  "Merging_Valid m \<longleftrightarrow> mi_current m \<noteq> None"

definition Merging_SeekToFirst :: "Comparator \<Rightarrow> 'i Iterator \<Rightarrow> 'i MergingIterator \<Rightarrow> 'i MergingIterator option" where
  "Merging_SeekToFirst c ops m =
     Option.bind (each_child (\<lambda>_. iw_SeekToFirst ops) 0 (mi_children m)) (\<lambda>ws.
       Some ((FindSmallest c (m\<lparr>mi_children := ws\<rparr>))\<lparr>mi_direction := kForward\<rparr>))"

definition Merging_SeekToLast :: "Comparator \<Rightarrow> 'i Iterator \<Rightarrow> 'i MergingIterator \<Rightarrow> 'i MergingIterator option" where
  "Merging_SeekToLast c ops m =
     Option.bind (each_child (\<lambda>_. iw_SeekToLast ops) 0 (mi_children m)) (\<lambda>ws.
       Some ((FindLargest c (m\<lparr>mi_children := ws\<rparr>))\<lparr>mi_direction := kReverse\<rparr>))"

definition Merging_Seek :: "Comparator \<Rightarrow> 'i Iterator \<Rightarrow> bytes \<Rightarrow> 'i MergingIterator \<Rightarrow> 'i MergingIterator option" where
  "Merging_Seek c ops target m =
     Option.bind (each_child (\<lambda>_. iw_Seek ops target) 0 (mi_children m)) (\<lambda>ws.
       Some ((FindSmallest c (m\<lparr>mi_children := ws\<rparr>))\<lparr>mi_direction := kForward\<rparr>))"

definition Merging_key :: "'i MergingIterator \<Rightarrow> bytes" where
  "Merging_key m = iw_key (mi_children m ! the (mi_current m))"

definition Merging_value :: "'i Iterator \<Rightarrow> 'i MergingIterator \<Rightarrow> bytes option" where
  "Merging_value ops m = iw_value ops (mi_children m ! the (mi_current m))"

fun Merging_status_loop :: "'i Iterator \<Rightarrow> 'i IteratorWrapper list \<Rightarrow> Status \<Rightarrow> Status" where
  "Merging_status_loop ops [] status = status"
| "Merging_status_loop ops (w # ws) status =
     (let status = iw_status ops w in if \<not> ok status then status else Merging_status_loop ops ws status)"

definition Merging_status :: "'i Iterator \<Rightarrow> 'i MergingIterator \<Rightarrow> Status" where
  "Merging_status ops m = Merging_status_loop ops (mi_children m) OK"

definition Next_reposition ::
    "Comparator \<Rightarrow> 'i Iterator \<Rightarrow> bytes \<Rightarrow> 'i IteratorWrapper \<Rightarrow> 'i IteratorWrapper option" where
  "Next_reposition c ops key child =
     Option.bind (iw_Seek ops key child) (\<lambda>child.
       if iw_valid child \<and> Compare c key (iw_key child) = 0 then iw_Next ops child else Some child)"

definition Merging_Next :: "Comparator \<Rightarrow> 'i Iterator \<Rightarrow> 'i MergingIterator \<Rightarrow> 'i MergingIterator option" where
  "Merging_Next c ops m =
     Option.bind (mi_current m) (\<lambda>cur.
     Option.bind
       (if mi_direction m \<noteq> kForward
        then each_child (\<lambda>i child. if i \<noteq> cur then Next_reposition c ops (Merging_key m) child else Some child)
               0 (mi_children m)
        else Some (mi_children m)) (\<lambda>ws.
     Option.bind (iw_Next ops (ws ! cur)) (\<lambda>w.
       Some (FindSmallest c (m\<lparr>mi_children := ws[cur := w], mi_direction := kForward\<rparr>)))))"

definition Prev_reposition ::
    "'i Iterator \<Rightarrow> bytes \<Rightarrow> 'i IteratorWrapper \<Rightarrow> 'i IteratorWrapper option" where
  "Prev_reposition ops key child =
     Option.bind (iw_Seek ops key child) (\<lambda>child.
       if iw_valid child then iw_Prev ops child else iw_SeekToLast ops child)"

definition Merging_Prev :: "Comparator \<Rightarrow> 'i Iterator \<Rightarrow> 'i MergingIterator \<Rightarrow> 'i MergingIterator option" where
  "Merging_Prev c ops m =
     Option.bind (mi_current m) (\<lambda>cur.
     Option.bind
       (if mi_direction m \<noteq> kReverse
        then each_child (\<lambda>i child. if i \<noteq> cur then Prev_reposition ops (Merging_key m) child else Some child)
               0 (mi_children m)
        else Some (mi_children m)) (\<lambda>ws.
     Option.bind (iw_Prev ops (ws ! cur)) (\<lambda>w.
       Some (FindLargest c (m\<lparr>mi_children := ws[cur := w], mi_direction := kReverse\<rparr>)))))"

definition MergingIterator_ops :: "Comparator \<Rightarrow> 'i Iterator \<Rightarrow> 'i MergingIterator Iterator" where
  "MergingIterator_ops c ops =
     \<lparr>it_Valid = Merging_Valid, it_Seek = Merging_Seek c ops, it_SeekToFirst = Merging_SeekToFirst c ops,
      it_SeekToLast = Merging_SeekToLast c ops, it_Next = Merging_Next c ops, it_Prev = Merging_Prev c ops,
      it_key = Merging_key, it_value = Merging_value ops, it_status = Merging_status ops\<rparr>"

datatype 'i MergedIterator = NoChildren EmptyIterator | OnlyChild 'i | Children "'i MergingIterator"

definition NewMergingIterator :: "'i Iterator \<Rightarrow> 'i list \<Rightarrow> 'i MergedIterator" where
  "NewMergingIterator ops children =
     (case children of
        [] \<Rightarrow> NoChildren NewEmptyIterator
      | [child] \<Rightarrow> OnlyChild child
      | _ \<Rightarrow> Children (MergingIterator_new ops children))"

subsection \<open>Merged sequences\<close>

text \<open>
  \<open>merged es ess\<close>: the sequence \<open>es\<close> interleaves the sequences \<open>ess\<close>, each entry belonging to
  exactly one of them. \<open>rank es xs i\<close> counts the entries of \<open>xs\<close> among the first \<open>i\<close> of \<open>es\<close>.
\<close>

definition merged :: "(bytes \<times> bytes) list \<Rightarrow> (bytes \<times> bytes) list list \<Rightarrow> bool" where
  "merged es ess \<longleftrightarrow>
     (\<forall>xs \<in> set ess. xs = filter (\<lambda>e. e \<in> set xs) es) \<and> set es = (\<Union>xs \<in> set ess. set xs) \<and>
     (\<forall>j k. j < length ess \<longrightarrow> k < length ess \<longrightarrow> j \<noteq> k \<longrightarrow> set (ess ! j) \<inter> set (ess ! k) = {})"

definition rank :: "'a list \<Rightarrow> 'a list \<Rightarrow> nat \<Rightarrow> nat" where
  "rank es xs i = length (filter (\<lambda>e. e \<in> set xs) (take i es))"

lemma rank_0 [simp]: "rank es xs 0 = 0"
  by (simp add: rank_def)

lemma rank_Suc:
  "i < length es \<Longrightarrow> rank es xs (Suc i) = (if es ! i \<in> set xs then Suc (rank es xs i) else rank es xs i)"
  by (simp add: rank_def take_Suc_conv_app_nth)

lemma rank_all: "xs = filter (\<lambda>e. e \<in> set xs) es \<Longrightarrow> length es \<le> i \<Longrightarrow> rank es xs i = length xs"
  by (simp add: rank_def)

lemma rank_split:
  assumes "xs = filter (\<lambda>e. e \<in> set xs) es"
  shows "xs = filter (\<lambda>e. e \<in> set xs) (take i es) @ filter (\<lambda>e. e \<in> set xs) (drop i es)"
    "take (rank es xs i) xs = filter (\<lambda>e. e \<in> set xs) (take i es)"
    "drop (rank es xs i) xs = filter (\<lambda>e. e \<in> set xs) (drop i es)"
proof -
  show e: "xs = filter (\<lambda>e. e \<in> set xs) (take i es) @ filter (\<lambda>e. e \<in> set xs) (drop i es)"
    using assms by (metis append_take_drop_id filter_append)
  then show "take (rank es xs i) xs = filter (\<lambda>e. e \<in> set xs) (take i es)"
    "drop (rank es xs i) xs = filter (\<lambda>e. e \<in> set xs) (drop i es)"
    unfolding rank_def by (metis append_eq_conv_conj)+
qed

lemma rank_le: "xs = filter (\<lambda>e. e \<in> set xs) es \<Longrightarrow> rank es xs i \<le> length xs"
  using arg_cong [OF rank_split(1), of xs es length i] by (simp add: rank_def)

lemma rank_nth:
  assumes "xs = filter (\<lambda>e. e \<in> set xs) es" "i < length es" "es ! i \<in> set xs"
  shows "rank es xs i < length xs" "xs ! rank es xs i = es ! i"
proof -
  have "drop (rank es xs i) xs = es ! i # filter (\<lambda>e. e \<in> set xs) (drop (Suc i) es)"
    using rank_split(3) [OF assms(1), of i] assms(2,3) by (simp add: Cons_nth_drop_Suc [symmetric])
  then show "rank es xs i < length xs" "xs ! rank es xs i = es ! i"
    by (metis drop_eq_Nil list.distinct(1) not_le, metis hd_drop_conv_nth drop_eq_Nil list.distinct(1) list.sel(1) not_le)
qed

text \<open>The entry of a child at or after the rank is at or after position \<open>i\<close>, one before it before.\<close>

lemma rank_nth_after:
  assumes "xs = filter (\<lambda>e. e \<in> set xs) es" "rank es xs i < length xs"
  obtains k where "i \<le> k" "k < length es" "xs ! rank es xs i = es ! k"
proof -
  have "xs ! rank es xs i \<in> set (drop (rank es xs i) xs)"
    using assms(2) by (metis Cons_nth_drop_Suc list.set_intros(1))
  then have "xs ! rank es xs i \<in> set (drop i es)" unfolding rank_split(3) [OF assms(1)] by auto
  then obtain k where "k < length es - i" "xs ! rank es xs i = drop i es ! k"
    by (metis in_set_conv_nth length_drop)
  then show thesis using that [of "i + k"] by simp
qed

lemma rank_nth_before:
  assumes "xs = filter (\<lambda>e. e \<in> set xs) es" "0 < rank es xs i"
  obtains k where "k < i" "k < length es" "xs ! (rank es xs i - 1) = es ! k"
proof -
  have "rank es xs i \<le> length xs" by (rule rank_le [OF assms(1)])
  then have "xs ! (rank es xs i - 1) \<in> set (take (rank es xs i) xs)"
    using assms(2) by (auto simp: in_set_conv_nth intro!: exI [of _ "rank es xs i - 1"])
  then have "xs ! (rank es xs i - 1) \<in> set (take i es)" unfolding rank_split(2) [OF assms(1)] by auto
  then obtain k where "k < min (length es) i" "xs ! (rank es xs i - 1) = take i es ! k"
    by (metis in_set_conv_nth length_take)
  then show thesis using that [of k] by simp
qed

text \<open>Sorted sequences that share no key have exactly one merged sequence.\<close>

context comparator
begin

lemma sorted_filter: "sorted_entries c valid es \<Longrightarrow> sorted_entries c valid (filter P es)"
  by (auto simp: sorted_entries_def sorted_wrt_filter)

lemma sorted_entries_unique:
  "sorted_entries c valid xs \<Longrightarrow> sorted_entries c valid ys \<Longrightarrow> set xs = set ys \<Longrightarrow> xs = ys"
proof (induction xs arbitrary: ys)
  case (Cons x xs)
  obtain y ys' where ys: "ys = y # ys'" using Cons.prems(3) by (cases ys) auto
  have v: "valid (fst x)" "valid (fst y)" using Cons.prems by (auto simp: sorted_entries_def ys)
  have asym: "\<not> (Compare c (fst x) (fst y) < 0 \<and> Compare c (fst y) (fst x) < 0)"
    using gt_iff_lt [OF v] by auto
  have eq: "x = y"
  proof (rule ccontr)
    assume "x \<noteq> y"
    then have "x \<in> set ys'" "y \<in> set xs" using Cons.prems(3) by (auto simp: ys)
    then show False using Cons.prems(1,2) asym by (auto simp: sorted_entries_def ys)
  qed
  have "x \<notin> set xs" "x \<notin> set ys'"
    using Cons.prems(1,2) refl [OF v(1)] by (auto simp: sorted_entries_def ys eq)
  then have "set xs = set ys'" using Cons.prems(3) by (auto simp: ys eq)
  then show ?case using Cons.IH [of ys'] Cons.prems(1,2) by (auto simp: sorted_entries_def ys eq)
qed simp

lemma mergedI:
  assumes "sorted_entries c valid es" "\<forall>xs \<in> set ess. sorted_entries c valid xs"
    and "set es = (\<Union>xs \<in> set ess. set xs)"
    and "\<forall>j k. j < length ess \<longrightarrow> k < length ess \<longrightarrow> j \<noteq> k \<longrightarrow> set (ess ! j) \<inter> set (ess ! k) = {}"
  shows "merged es ess"
proof -
  have "xs = filter (\<lambda>e. e \<in> set xs) es" if "xs \<in> set ess" for xs
    by (rule sorted_entries_unique) (use assms that sorted_filter in auto)
  then show ?thesis using assms(3,4) by (auto simp: merged_def)
qed

lemma first_ge_rank:
  assumes "sorted_entries c valid es" "xs = filter (\<lambda>e. e \<in> set xs) es" "valid t"
  shows "first_ge c xs t = rank es xs (first_ge c es t)"
proof -
  let ?P = "\<lambda>e. Compare c (fst e) t < 0" and ?n = "first_ge c es t"
  have tk: "take ?n es = takeWhile ?P es" unfolding first_ge_def by (rule takeWhile_eq_take [symmetric])
  then have below: "\<forall>e \<in> set (take ?n es). ?P e" by (auto dest: set_takeWhileD)
  have "\<not> ?P (es ! k)" if k: "?n \<le> k" "k < length es" for k
  proof
    assume "?P (es ! k)"
    then have "?P (es ! ?n)" using before_first_ge [OF assms(1) k(2) assms(3) _ k(1)] by blast
    moreover have "\<not> ?P (es ! ?n)" using nth_length_takeWhile [of ?P es] k by (simp add: first_ge_def)
    ultimately show False by blast
  qed
  note after = this
  have above: "\<forall>e \<in> set (drop ?n es). \<not> ?P e"
  proof
    fix e assume "e \<in> set (drop ?n es)"
    then obtain k where "k < length es - ?n" "e = es ! (?n + k)" by (auto simp: in_set_conv_nth)
    then show "\<not> ?P e" using after [of "?n + k"] by simp
  qed
  obtain A B where A: "A = filter (\<lambda>e. e \<in> set xs) (take ?n es)" and B: "B = filter (\<lambda>e. e \<in> set xs) (drop ?n es)"
    by blast
  have AB: "xs = A @ B" unfolding A B by (rule rank_split(1) [OF assms(2)])
  have "\<forall>e \<in> set A. ?P e" "\<forall>e \<in> set B. \<not> ?P e" using below above by (auto simp: A B)
  then have "takeWhile ?P (A @ B) = A" by (cases B) (simp_all add: takeWhile_append2)
  then have "first_ge c xs t = length A" unfolding first_ge_def by (subst AB) simp
  then show ?thesis by (simp only: rank_def A)
qed

end

subsection \<open>The iterator contract\<close>

definition child_at ::
    "('i \<Rightarrow> (bytes \<times> bytes) list \<Rightarrow> nat \<Rightarrow> bool) \<Rightarrow> 'i IteratorWrapper \<Rightarrow> (bytes \<times> bytes) list \<Rightarrow> nat \<Rightarrow> bool" where
  "child_at at w xs p \<longleftrightarrow> (\<exists>it. iw_iter w = Some it \<and> at it xs p) \<and> (iw_valid w \<longleftrightarrow> p < length xs) \<and>
     (p < length xs \<longrightarrow> iw_key w = fst (xs ! p))"

definition children_at ::
    "('i \<Rightarrow> (bytes \<times> bytes) list \<Rightarrow> nat \<Rightarrow> bool) \<Rightarrow> 'i IteratorWrapper list \<Rightarrow> (bytes \<times> bytes) list list \<Rightarrow>
     (nat \<Rightarrow> nat) \<Rightarrow> bool" where
  "children_at at ws ess p \<longleftrightarrow> length ws = length ess \<and> (\<forall>j < length ess. child_at at (ws ! j) (ess ! j) (p j))"

text \<open>Position of a child that stands on its last entry before rank \<open>p\<close>, or is invalid.\<close>

definition last_before :: "'a list \<Rightarrow> nat \<Rightarrow> nat" where
  "last_before xs p = (if p = 0 then length xs else p - 1)"

lemma each_child_correct:
  assumes "\<And>j. j < length ws \<Longrightarrow> \<exists>w'. f (i + j) (ws ! j) = Some w' \<and> Q j w'"
  shows "\<exists>ws'. each_child f i ws = Some ws' \<and> length ws' = length ws \<and> (\<forall>j < length ws. Q j (ws' ! j))"
  using assms
proof (induction ws arbitrary: i Q)
  case (Cons w ws)
  from Cons.prems [of 0] obtain w' where w': "f i w = Some w'" "Q 0 w'" by auto
  have "\<exists>ws'. each_child f (Suc i) ws = Some ws' \<and> length ws' = length ws \<and> (\<forall>j < length ws. Q (Suc j) (ws' ! j))"
    by (rule Cons.IH) (use Cons.prems [of "Suc _"] in simp)
  then show ?case using w' by (auto simp: less_Suc_eq_0_disj)
qed simp

lemma FindSmallest_none:
  "\<forall>w \<in> set ws. \<not> iw_valid w \<Longrightarrow> FindSmallest_loop c i ws s = s"
  by (induction ws arbitrary: i) auto

lemma FindSmallest_keeps:
  "\<forall>w \<in> set ws. iw_valid w \<longrightarrow> \<not> Compare c (iw_key w) k < 0 \<Longrightarrow>
   FindSmallest_loop c i ws (Some (j, k)) = Some (j, k)"
  by (induction ws arbitrary: i) auto

lemma FindSmallest_finds:
  assumes "\<forall>u \<in> set us. iw_valid u \<longrightarrow> Compare c (iw_key w) (iw_key u) < 0"
    and "\<forall>v \<in> set vs. iw_valid v \<longrightarrow> \<not> Compare c (iw_key v) (iw_key w) < 0"
    and "iw_valid w" "\<And>j k. s = Some (j, k) \<Longrightarrow> Compare c (iw_key w) k < 0"
  shows "FindSmallest_loop c i (us @ w # vs) s = Some (i + length us, iw_key w)"
  using assms(1,4)
proof (induction us arbitrary: i s)
  case Nil
  have "(if iw_valid w then (case s of None \<Rightarrow> Some (i, iw_key w)
      | Some (j, k) \<Rightarrow> if Compare c (iw_key w) k < 0 then Some (i, iw_key w) else s) else s) = Some (i, iw_key w)"
    using Nil.prems(2) assms(3) by (auto split: option.splits)
  then show ?case using FindSmallest_keeps [OF assms(2), of "Suc i" i] by simp
next
  case (Cons u us)
  let ?s = "if iw_valid u then (case s of None \<Rightarrow> Some (i, iw_key u)
      | Some (j, k) \<Rightarrow> if Compare c (iw_key u) k < 0 then Some (i, iw_key u) else s) else s"
  have "Compare c (iw_key w) k < 0" if "?s = Some (j, k)" for j k
    using that Cons.prems by (auto split: if_splits option.splits)
  then show ?case using Cons.IH [of ?s "Suc i"] Cons.prems(1) by simp
qed

lemma FindLargest_none:
  "\<forall>w \<in> set ws. \<not> iw_valid w \<Longrightarrow> FindLargest_loop c i ws = None"
  by (induction ws arbitrary: i) auto

lemma FindLargest_in:
  "FindLargest_loop c i ws = Some (j, k) \<Longrightarrow> \<exists>w \<in> set ws. iw_valid w \<and> k = iw_key w"
proof (induction ws arbitrary: i)
  case (Cons a ws)
  then show ?case
    using Cons.IH [of "Suc i"] by (cases "FindLargest_loop c (Suc i) ws") (auto simp: Let_def split: if_splits)
qed simp

lemma FindLargest_finds:
  assumes "\<forall>u \<in> set us. iw_valid u \<longrightarrow> \<not> Compare c (iw_key u) (iw_key w) > 0"
    and "\<forall>v \<in> set vs. iw_valid v \<longrightarrow> Compare c (iw_key w) (iw_key v) > 0" and "iw_valid w"
  shows "FindLargest_loop c i (us @ w # vs) = Some (i + length us, iw_key w)"
  using assms(1)
proof (induction us arbitrary: i)
  case Nil
  have "Compare c (iw_key w) k > 0" if "FindLargest_loop c (Suc i) vs = Some (j, k)" for j k
    using FindLargest_in [OF that] assms(2) by auto
  then show ?case using assms(3) by (auto simp: Let_def split: option.split)
next
  case (Cons u us)
  then show ?case by (simp add: Let_def)
qed

text \<open>The children of a merged sequence, positioned at or just before a rank, and their wrappers.\<close>

context iterator
begin

definition merging_at :: "'i MergingIterator \<Rightarrow> (bytes \<times> bytes) list \<Rightarrow> nat \<Rightarrow> bool" where
  "merging_at m es i \<longleftrightarrow> sorted_entries c valid es \<and> i \<le> length es \<and>
     (\<exists>ess. merged es ess \<and>
       (if i = length es then mi_current m = None \<and> children_at at (mi_children m) ess (\<lambda>j. length (ess ! j))
        else (\<exists>o'. mi_current m = Some o' \<and> o' < length ess \<and> es ! i \<in> set (ess ! o') \<and>
          children_at at (mi_children m) ess (\<lambda>j.
            if j = o' \<or> mi_direction m = kForward then rank es (ess ! j) i
            else last_before (ess ! j) (rank es (ess ! j) i)))))"

lemma mergedD:
  assumes "merged es ess" "j < length ess"
  shows "ess ! j = filter (\<lambda>e. e \<in> set (ess ! j)) es"
  using assms by (auto simp: merged_def)

lemma owner:
  assumes "merged es ess" "i < length es"
  obtains o' where "o' < length ess" "es ! i \<in> set (ess ! o')"
    "\<And>j. j < length ess \<Longrightarrow> j \<noteq> o' \<Longrightarrow> es ! i \<notin> set (ess ! j)"
proof -
  have "es ! i \<in> set es" using assms(2) by simp
  then obtain xs where "xs \<in> set ess" "es ! i \<in> set xs" using assms(1) by (auto simp: merged_def)
  then obtain o' where o': "o' < length ess" "es ! i \<in> set (ess ! o')" by (metis in_set_conv_nth)
  have "es ! i \<notin> set (ess ! j)" if "j < length ess" "j \<noteq> o'" for j
  proof -
    have "set (ess ! j) \<inter> set (ess ! o') = {}" using assms(1) that o'(1) unfolding merged_def by blast
    then show ?thesis using o'(2) by blast
  qed
  then show thesis using that [of o'] o' by blast
qed

lemma move_child:
  assumes "child_at at w xs p" and "\<And>it. at it xs p \<Longrightarrow> \<exists>it'. f it = Some it' \<and> at it' xs q"
  shows "\<exists>w'. iw_move ops f w = Some w' \<and> child_at at w' xs q"
proof -
  obtain it where it: "iw_iter w = Some it" "at it xs p" using assms(1) by (auto simp: child_at_def)
  then obtain it' where it': "f it = Some it'" "at it' xs q" using assms(2) by blast
  then have "iw_move ops f w = Some (iw_Update ops it' w)" using it(1) by (simp add: iw_move_def)
  moreover have "child_at at (iw_Update ops it' w) xs q"
    using it'(2) at_Valid [OF it'(2)] at_key [OF it'(2)] by (auto simp: child_at_def iw_Update_def)
  ultimately show ?thesis by blast
qed

lemma child_moves:
  assumes "child_at at w xs p"
  shows "\<exists>w'. iw_SeekToFirst ops w = Some w' \<and> child_at at w' xs 0"
    "\<exists>w'. iw_SeekToLast ops w = Some w' \<and> child_at at w' xs (length xs - 1)"
    "valid t \<Longrightarrow> \<exists>w'. iw_Seek ops t w = Some w' \<and> child_at at w' xs (first_ge c xs t)"
    "p < length xs \<Longrightarrow> \<exists>w'. iw_Next ops w = Some w' \<and> child_at at w' xs (Suc p)"
    "p < length xs \<Longrightarrow> \<exists>w'. iw_Prev ops w = Some w' \<and> child_at at w' xs (last_before xs p)"
proof -
  show "\<exists>w'. iw_SeekToFirst ops w = Some w' \<and> child_at at w' xs 0"
    unfolding iw_SeekToFirst_def by (rule move_child [OF assms at_SeekToFirst])
  show "\<exists>w'. iw_SeekToLast ops w = Some w' \<and> child_at at w' xs (length xs - 1)"
    unfolding iw_SeekToLast_def by (rule move_child [OF assms at_SeekToLast])
  show "\<exists>w'. iw_Seek ops t w = Some w' \<and> child_at at w' xs (first_ge c xs t)" if "valid t"
    unfolding iw_Seek_def by (rule move_child [OF assms at_Seek [OF _ that]])
  show "\<exists>w'. iw_Next ops w = Some w' \<and> child_at at w' xs (Suc p)" if "p < length xs"
    unfolding iw_Next_def by (rule move_child [OF assms at_Next [OF _ that]])
  show "\<exists>w'. iw_Prev ops w = Some w' \<and> child_at at w' xs (last_before xs p)" if "p < length xs"
    unfolding iw_Prev_def last_before_def by (rule move_child [OF assms at_Prev [OF _ that]])
qed

lemma ranks_all:
  "merged es ess \<Longrightarrow> j < length ess \<Longrightarrow> rank es (ess ! j) (length es) = length (ess ! j)"
  by (rule rank_all [OF mergedD order.refl])

lemma rank_step:
  assumes "merged es ess" "i < length es" "o' < length ess" "es ! i \<in> set (ess ! o')" "j < length ess"
  shows "rank es (ess ! j) (Suc i) = (if j = o' then Suc (rank es (ess ! j) i) else rank es (ess ! j) i)"
proof -
  have "es ! i \<notin> set (ess ! j)" if "j \<noteq> o'"
  proof -
    have "set (ess ! j) \<inter> set (ess ! o') = {}" using assms(1,3,5) that unfolding merged_def by blast
    then show ?thesis using assms(4) by blast
  qed
  then show ?thesis using rank_Suc [OF assms(2)] assms(4) by auto
qed

lemma owner_unique:
  "merged es ess \<Longrightarrow> o' < length ess \<Longrightarrow> j < length ess \<Longrightarrow> e \<in> set (ess ! o') \<Longrightarrow> e \<in> set (ess ! j) \<Longrightarrow> j = o'"
  unfolding merged_def by blast

lemma FindSmallest_at:
  assumes m: "merged es ess" and srt: "sorted_entries c valid es" and i: "i \<le> length es"
    and ch: "children_at at ws ess (\<lambda>j. rank es (ess ! j) i)" and ws: "mi_children m = ws"
  shows "merging_at ((FindSmallest c m)\<lparr>mi_direction := kForward\<rparr>) es i"
proof (cases "i = length es")
  case True
  then have ch': "children_at at ws ess (\<lambda>j. length (ess ! j))"
    using ch ranks_all [OF m] by (simp add: children_at_def)
  then have "\<forall>w \<in> set ws. \<not> iw_valid w" by (auto simp: children_at_def child_at_def in_set_conv_nth)
  then have "FindSmallest_loop c 0 ws None = None" by (rule FindSmallest_none)
  then show ?thesis using True ch' m srt ws by (auto simp: merging_at_def FindSmallest_def)
next
  case False
  then have lt: "i < length es" using i by simp
  obtain o' where o': "o' < length ess" "es ! i \<in> set (ess ! o')" by (rule owner [OF m lt])
  have len: "length ws = length ess" and at: "\<And>j. j < length ess \<Longrightarrow> child_at at (ws ! j) (ess ! j) (rank es (ess ! j) i)"
    using ch by (simp_all add: children_at_def)
  let ?w = "ws ! o'"
  note rn = rank_nth [OF mergedD [OF m o'(1)] lt o'(2)]
  have w: "iw_valid ?w" "iw_key ?w = fst (es ! i)" using at [OF o'(1)] rn by (auto simp: child_at_def)
  have other: "Compare c (iw_key ?w) (iw_key (ws ! j)) < 0 \<and> \<not> Compare c (iw_key (ws ! j)) (iw_key ?w) < 0"
    if j: "j < length ess" "j \<noteq> o'" and v: "iw_valid (ws ! j)" for j
  proof -
    have r: "rank es (ess ! j) i < length (ess ! j)" "iw_key (ws ! j) = fst (ess ! j ! rank es (ess ! j) i)"
      using at [OF j(1)] v by (auto simp: child_at_def)
    obtain k where k: "i \<le> k" "k < length es" "ess ! j ! rank es (ess ! j) i = es ! k"
      by (rule rank_nth_after [OF mergedD [OF m j(1)] r(1)])
    have "k \<noteq> i" using owner_unique [OF m o'(1) j(1) o'(2)] nth_mem [OF r(1)] k(3) j(2) by auto
    then have "Compare c (fst (es ! i)) (fst (es ! k)) < 0" using sorted_key_less [OF srt, of i k] k by simp
    then show ?thesis
      using w(2) r(2) k(3) gt_iff_lt [OF sorted_valid_nth [OF srt lt] sorted_valid_nth [OF srt k(2)]] by simp
  qed
  have sp: "ws = take o' ws @ ?w # drop (Suc o') ws" using o'(1) len by (simp add: id_take_nth_drop)
  have "FindSmallest_loop c 0 (take o' ws @ ?w # drop (Suc o') ws) None = Some (0 + length (take o' ws), iw_key ?w)"
  proof (rule FindSmallest_finds)
    show "\<forall>u \<in> set (take o' ws). iw_valid u \<longrightarrow> Compare c (iw_key ?w) (iw_key u) < 0"
      using other o'(1) len by (auto simp: in_set_conv_nth)
    show "\<forall>v \<in> set (drop (Suc o') ws). iw_valid v \<longrightarrow> \<not> Compare c (iw_key v) (iw_key ?w) < 0"
      using other o'(1) len by (auto simp: in_set_conv_nth)
  qed (use w in simp_all)
  then have "FindSmallest_loop c 0 ws None = Some (o', iw_key ?w)" using o'(1) len by (simp flip: sp)
  then show ?thesis
    using False i m srt o' ch ws unfolding merging_at_def FindSmallest_def
    by (auto intro!: exI [of _ ess])
qed

lemma FindLargest_at:
  assumes m: "merged es ess" and srt: "sorted_entries c valid es" and i: "i \<le> length es"
    and ch: "children_at at ws ess (\<lambda>j. last_before (ess ! j) (rank es (ess ! j) i))" and ws: "mi_children m = ws"
  shows "merging_at ((FindLargest c m)\<lparr>mi_direction := kReverse\<rparr>) es (last_before es i)"
proof (cases i)
  case 0
  then have ch': "children_at at ws ess (\<lambda>j. length (ess ! j))" using ch by (simp add: last_before_def)
  then have "\<forall>w \<in> set ws. \<not> iw_valid w" by (auto simp: children_at_def child_at_def in_set_conv_nth)
  then have "FindLargest_loop c 0 ws = None" by (rule FindLargest_none)
  then show ?thesis using 0 ch' m srt ws by (auto simp: merging_at_def FindLargest_def last_before_def)
next
  case (Suc i')
  then have lt: "i' < length es" using i by simp
  obtain o' where o': "o' < length ess" "es ! i' \<in> set (ess ! o')" by (rule owner [OF m lt])
  note step = rank_step [OF m lt o']
  have len: "length ws = length ess" and at0: "\<And>j. j < length ess \<Longrightarrow>
      child_at at (ws ! j) (ess ! j) (last_before (ess ! j) (rank es (ess ! j) i))"
    using ch by (simp_all add: children_at_def)
  let ?w = "ws ! o'"
  note rn = rank_nth [OF mergedD [OF m o'(1)] lt o'(2)]
  have ato: "child_at at ?w (ess ! o') (rank es (ess ! o') i')"
    using at0 [OF o'(1)] step [OF o'(1)] Suc by (simp add: last_before_def)
  have ch2: "children_at at ws ess (\<lambda>j. if j = o' then rank es (ess ! j) i' else last_before (ess ! j) (rank es (ess ! j) i'))"
  proof -
    have "child_at at (ws ! j) (ess ! j) (last_before (ess ! j) (rank es (ess ! j) i'))"
      if "j < length ess" "j \<noteq> o'" for j
      using at0 [OF that(1)] step [OF that(1)] that(2) Suc by simp
    then show ?thesis using ato len by (simp add: children_at_def)
  qed
  have w: "iw_valid ?w" "iw_key ?w = fst (es ! i')" using ato rn by (auto simp: child_at_def)
  have other: "Compare c (iw_key ?w) (iw_key (ws ! j)) > 0 \<and> \<not> Compare c (iw_key (ws ! j)) (iw_key ?w) > 0"
    if j: "j < length ess" "j \<noteq> o'" and v: "iw_valid (ws ! j)" for j
  proof -
    let ?r = "rank es (ess ! j) i"
    have le: "?r \<le> length (ess ! j)" by (rule rank_le [OF mergedD [OF m j(1)]])
    have r: "0 < ?r" "?r - 1 < length (ess ! j)" "iw_key (ws ! j) = fst (ess ! j ! (?r - 1))"
      using at0 [OF j(1)] v le by (auto simp: child_at_def last_before_def split: if_splits)
    obtain k where k: "k < i" "k < length es" "ess ! j ! (?r - 1) = es ! k"
      by (rule rank_nth_before [OF mergedD [OF m j(1)] r(1)])
    have "k \<noteq> i'" using owner_unique [OF m o'(1) j(1) o'(2)] nth_mem [OF r(2)] k(3) j(2) by auto
    then have "Compare c (fst (es ! k)) (fst (es ! i')) < 0" using sorted_key_less [OF srt, of k i'] k Suc lt by simp
    then show ?thesis
      using w(2) r(3) k(3) gt_iff_lt [OF sorted_valid_nth [OF srt k(2)] sorted_valid_nth [OF srt lt]] by simp
  qed
  have sp: "ws = take o' ws @ ?w # drop (Suc o') ws" using o'(1) len by (simp add: id_take_nth_drop)
  have "FindLargest_loop c 0 (take o' ws @ ?w # drop (Suc o') ws) = Some (0 + length (take o' ws), iw_key ?w)"
  proof (rule FindLargest_finds)
    show "\<forall>u \<in> set (take o' ws). iw_valid u \<longrightarrow> \<not> Compare c (iw_key u) (iw_key ?w) > 0"
      using other o'(1) len by (auto simp: in_set_conv_nth)
    show "\<forall>v \<in> set (drop (Suc o') ws). iw_valid v \<longrightarrow> Compare c (iw_key ?w) (iw_key v) > 0"
      using other o'(1) len by (auto simp: in_set_conv_nth)
  qed (use w in simp_all)
  then have "FindLargest_loop c 0 ws = Some (o', iw_key ?w)" using o'(1) len by (simp flip: sp)
  then have "merging_at ((FindLargest c m)\<lparr>mi_direction := kReverse\<rparr>) es i'"
    using lt m srt o' ch2 ws unfolding merging_at_def FindLargest_def
    by (auto intro!: exI [of _ ess])
  then show ?thesis using Suc by (simp add: last_before_def)
qed

lemma children_atD:
  "children_at at ws ess p \<Longrightarrow> j < length ess \<Longrightarrow> child_at at (ws ! j) (ess ! j) (p j)"
  by (simp add: children_at_def)

lemma Find_direction:
  "mi_direction m = kForward \<Longrightarrow> (FindSmallest c m)\<lparr>mi_direction := kForward\<rparr> = FindSmallest c m"
  "mi_direction m = kReverse \<Longrightarrow> (FindLargest c m)\<lparr>mi_direction := kReverse\<rparr> = FindLargest c m"
  by (cases m; simp add: FindSmallest_def FindLargest_def)+

text \<open>Moving every child, and moving the current one after the others were repositioned.\<close>

lemma each_child_at:
  assumes "children_at at ws ess p"
    and "\<And>j w. j < length ess \<Longrightarrow> child_at at w (ess ! j) (p j) \<Longrightarrow>
      \<exists>w'. f j w = Some w' \<and> child_at at w' (ess ! j) (q j)"
  shows "\<exists>ws'. each_child f 0 ws = Some ws' \<and> children_at at ws' ess q"
proof -
  have "\<exists>w'. f (0 + j) (ws ! j) = Some w' \<and> child_at at w' (ess ! j) (q j)" if "j < length ws" for j
    using assms that by (simp add: children_at_def)
  from each_child_correct [of ws f 0 "\<lambda>j w'. child_at at w' (ess ! j) (q j)", OF this]
  show ?thesis using assms(1) by (auto simp: children_at_def)
qed

lemma merging_children:
  assumes "merging_at m es i"
  obtains ess p where "merged es ess" "sorted_entries c valid es" "i \<le> length es"
    "children_at at (mi_children m) ess p"
  using assms by (auto simp: merging_at_def split: if_splits)

lemma merging_seek_all:
  assumes "merging_at m es i" and n: "n \<le> length es"
    and f: "\<And>xs p w. child_at at w xs p \<Longrightarrow> xs = filter (\<lambda>e. e \<in> set xs) es \<Longrightarrow>
      \<exists>w'. f w = Some w' \<and> child_at at w' xs (rank es xs n)"
  shows "\<exists>m'. Option.bind (each_child (\<lambda>_. f) 0 (mi_children m)) (\<lambda>ws.
      Some ((FindSmallest c (m\<lparr>mi_children := ws\<rparr>))\<lparr>mi_direction := kForward\<rparr>)) = Some m' \<and> merging_at m' es n"
proof -
  obtain ess p where m: "merged es ess" "sorted_entries c valid es" "children_at at (mi_children m) ess p"
    by (rule merging_children [OF assms(1)])
  obtain ws where ws: "each_child (\<lambda>_. f) 0 (mi_children m) = Some ws"
    "children_at at ws ess (\<lambda>j. rank es (ess ! j) n)"
    using each_child_at [OF m(3), of "\<lambda>_. f" "\<lambda>j. rank es (ess ! j) n"] f mergedD [OF m(1)] by blast
  then show ?thesis using FindSmallest_at [OF m(1,2) n ws(2), of "m\<lparr>mi_children := ws\<rparr>"] by simp
qed

lemma merging_current:
  assumes "merging_at m es i" "i < length es"
  obtains ess o' where "merged es ess" "sorted_entries c valid es" "mi_current m = Some o'" "o' < length ess"
    "es ! i \<in> set (ess ! o')" "children_at at (mi_children m) ess (\<lambda>j.
       if j = o' \<or> mi_direction m = kForward then rank es (ess ! j) i
       else last_before (ess ! j) (rank es (ess ! j) i))"
  using assms by (auto simp: merging_at_def)

lemma merging_key:
  assumes "merging_at m es i" "i < length es"
  shows "Merging_key m = fst (es ! i)" "Merging_value ops m = Some (snd (es ! i))"
proof -
  obtain ess o' where m: "merged es ess" "mi_current m = Some o'" "o' < length ess" "es ! i \<in> set (ess ! o')"
    and ch: "children_at at (mi_children m) ess (\<lambda>j. if j = o' \<or> mi_direction m = kForward
      then rank es (ess ! j) i else last_before (ess ! j) (rank es (ess ! j) i))"
    by (rule merging_current [OF assms])
  have ca: "child_at at (mi_children m ! o') (ess ! o') (rank es (ess ! o') i)"
    using children_atD [OF ch m(3)] by simp
  note rn = rank_nth [OF mergedD [OF m(1,3)] assms(2) m(4)]
  obtain it where it: "iw_iter (mi_children m ! o') = Some it" "at it (ess ! o') (rank es (ess ! o') i)"
    using ca by (auto simp: child_at_def)
  show "Merging_key m = fst (es ! i)" using ca rn m(2) by (auto simp: child_at_def Merging_key_def)
  show "Merging_value ops m = Some (snd (es ! i))"
    using at_value [OF it(2) rn(1)] rn(2) it(1) m(2) by (simp add: Merging_value_def iw_value_def)
qed

lemma first_ge_nth:
  assumes "sorted_entries c valid es" "i < length es"
  shows "first_ge c es (fst (es ! i)) = i"
proof (rule first_ge_eqI)
  show "Compare c (fst (es ! k)) (fst (es ! i)) < 0" if "k < i" for k
    using sorted_key_less [OF assms(1) that assms(2)] .
  show "\<not> Compare c (fst (es ! i)) (fst (es ! i)) < 0"
    using refl [OF sorted_valid_nth [OF assms]] by simp
qed (use assms in simp)

lemma Merging_Next_at:
  assumes "merging_at m es i" "i < length es"
  shows "\<exists>m'. Merging_Next c ops m = Some m' \<and> merging_at m' es (Suc i)"
proof -
  obtain ess o' where m: "merged es ess" and srt: "sorted_entries c valid es" and cur: "mi_current m = Some o'"
    and o': "o' < length ess" "es ! i \<in> set (ess ! o')"
    and ch: "children_at at (mi_children m) ess (\<lambda>j. if j = o' \<or> mi_direction m = kForward
      then rank es (ess ! j) i else last_before (ess ! j) (rank es (ess ! j) i))"
    by (rule merging_current [OF assms])
  let ?k = "Merging_key m"
  have vk: "valid ?k" using merging_key(1) [OF assms] sorted_valid_nth [OF srt assms(2)] by simp
  have fg: "first_ge c (ess ! j) ?k = rank es (ess ! j) i" if "j < length ess" for j
    using first_ge_rank [OF srt mergedD [OF m that] vk] first_ge_nth [OF srt assms(2)]
      merging_key(1) [OF assms] by simp
  let ?repos = "\<lambda>j w. if j \<noteq> o' then Next_reposition c ops ?k w else Some w"
  have repos: "\<exists>w'. ?repos j w = Some w' \<and> child_at at w' (ess ! j) (rank es (ess ! j) i)"
    if j: "j < length ess" and w: "child_at at w (ess ! j) (if j = o' \<or> mi_direction m = kForward
      then rank es (ess ! j) i else last_before (ess ! j) (rank es (ess ! j) i))" for j w
  proof (cases "j = o'")
    case False
    obtain w' where w': "iw_Seek ops ?k w = Some w'" "child_at at w' (ess ! j) (rank es (ess ! j) i)"
      using child_moves(3) [OF w vk] fg [OF j] by auto
    have "Compare c ?k (iw_key w') \<noteq> 0" if v: "iw_valid w'"
    proof -
      have r: "rank es (ess ! j) i < length (ess ! j)" "iw_key w' = fst (ess ! j ! rank es (ess ! j) i)"
        using w'(2) v by (auto simp: child_at_def)
      obtain k where k: "i \<le> k" "k < length es" "ess ! j ! rank es (ess ! j) i = es ! k"
        by (rule rank_nth_after [OF mergedD [OF m j] r(1)])
      have "k \<noteq> i" using owner_unique [OF m o'(1) j o'(2)] nth_mem [OF r(1)] k(3) False by auto
      then show ?thesis using sorted_key_less [OF srt, of i k] k r(2) merging_key(1) [OF assms] by simp
    qed
    then have "Next_reposition c ops ?k w = Some w'" using w'(1) by (auto simp: Next_reposition_def)
    then show ?thesis using False w'(2) by simp
  qed (use w in simp)
  obtain ws where ws: "(if mi_direction m \<noteq> kForward then each_child ?repos 0 (mi_children m)
      else Some (mi_children m)) = Some ws" "children_at at ws ess (\<lambda>j. rank es (ess ! j) i)"
  proof (cases "mi_direction m = kForward")
    case True
    then show ?thesis using that ch by simp
  next
    case False
    then show ?thesis using that each_child_at [OF ch, of ?repos "\<lambda>j. rank es (ess ! j) i"] repos by auto
  qed
  note rn = rank_nth [OF mergedD [OF m o'(1)] assms(2) o'(2)]
  have "child_at at (ws ! o') (ess ! o') (rank es (ess ! o') i)" using children_atD [OF ws(2) o'(1)] by simp
  from child_moves(4) [OF this rn(1)] obtain w where
    w: "iw_Next ops (ws ! o') = Some w" "child_at at w (ess ! o') (Suc (rank es (ess ! o') i))" by blast
  have "children_at at (ws[o' := w]) ess (\<lambda>j. rank es (ess ! j) (Suc i))"
    using ws(2) w(2) rank_step [OF m assms(2) o'] by (auto simp: children_at_def nth_list_update)
  from FindSmallest_at [OF m srt _ this, of "m\<lparr>mi_children := ws[o' := w], mi_direction := kForward\<rparr>"]
  have "merging_at (FindSmallest c (m\<lparr>mi_children := ws[o' := w], mi_direction := kForward\<rparr>)) es (Suc i)"
    using assms(2) by (simp add: Find_direction)
  moreover have "Merging_Next c ops m = Some (FindSmallest c (m\<lparr>mi_children := ws[o' := w], mi_direction := kForward\<rparr>))"
    unfolding Merging_Next_def cur bind.simps ws(1) w(1) ..
  ultimately show ?thesis by blast
qed

lemma Merging_Prev_at:
  assumes "merging_at m es i" "i < length es"
  shows "\<exists>m'. Merging_Prev c ops m = Some m' \<and> merging_at m' es (last_before es i)"
proof -
  obtain ess o' where m: "merged es ess" and srt: "sorted_entries c valid es" and cur: "mi_current m = Some o'"
    and o': "o' < length ess" "es ! i \<in> set (ess ! o')"
    and ch: "children_at at (mi_children m) ess (\<lambda>j. if j = o' \<or> mi_direction m = kForward
      then rank es (ess ! j) i else last_before (ess ! j) (rank es (ess ! j) i))"
    by (rule merging_current [OF assms])
  let ?k = "Merging_key m"
  have vk: "valid ?k" using merging_key(1) [OF assms] sorted_valid_nth [OF srt assms(2)] by simp
  have fg: "first_ge c (ess ! j) ?k = rank es (ess ! j) i" if "j < length ess" for j
    using first_ge_rank [OF srt mergedD [OF m that] vk] first_ge_nth [OF srt assms(2)]
      merging_key(1) [OF assms] by simp
  let ?repos = "\<lambda>j w. if j \<noteq> o' then Prev_reposition ops ?k w else Some w"
  let ?p = "\<lambda>j. if j = o' then rank es (ess ! j) i else last_before (ess ! j) (rank es (ess ! j) i)"
  have repos: "\<exists>w'. ?repos j w = Some w' \<and> child_at at w' (ess ! j) (?p j)"
    if j: "j < length ess" and w: "child_at at w (ess ! j) (if j = o' \<or> mi_direction m = kForward
      then rank es (ess ! j) i else last_before (ess ! j) (rank es (ess ! j) i))" for j w
  proof (cases "j = o'")
    case False
    obtain w' where w': "iw_Seek ops ?k w = Some w'" "child_at at w' (ess ! j) (rank es (ess ! j) i)"
      using child_moves(3) [OF w vk] fg [OF j] by auto
    show ?thesis
    proof (cases "iw_valid w'")
      case True
      then have "rank es (ess ! j) i < length (ess ! j)" using w'(2) by (simp add: child_at_def)
      then show ?thesis using child_moves(5) [OF w'(2)] True w'(1) False by (auto simp: Prev_reposition_def)
    next
      case F: False
      then have "rank es (ess ! j) i = length (ess ! j)"
        using w'(2) rank_le [OF mergedD [OF m j], of i] by (simp add: child_at_def)
      then have "last_before (ess ! j) (rank es (ess ! j) i) = length (ess ! j) - 1" by (simp add: last_before_def)
      then show ?thesis using child_moves(2) [OF w'(2)] F w'(1) False by (auto simp: Prev_reposition_def)
    qed
  qed (use w in simp)
  obtain ws where ws: "(if mi_direction m \<noteq> kReverse then each_child ?repos 0 (mi_children m)
      else Some (mi_children m)) = Some ws" "children_at at ws ess ?p"
  proof (cases "mi_direction m = kReverse")
    case True
    then show ?thesis using that ch by simp
  next
    case False
    then show ?thesis using that each_child_at [OF ch, of ?repos ?p] repos by auto
  qed
  note rn = rank_nth [OF mergedD [OF m o'(1)] assms(2) o'(2)]
  have "child_at at (ws ! o') (ess ! o') (rank es (ess ! o') i)" using children_atD [OF ws(2) o'(1)] by simp
  from child_moves(5) [OF this rn(1)] obtain w where
    w: "iw_Prev ops (ws ! o') = Some w" "child_at at w (ess ! o') (last_before (ess ! o') (rank es (ess ! o') i))" by blast
  have "children_at at (ws[o' := w]) ess (\<lambda>j. last_before (ess ! j) (rank es (ess ! j) i))"
    unfolding children_at_def
  proof (intro conjI allI impI)
    show "length (ws[o' := w]) = length ess" using ws(2) by (simp add: children_at_def)
    fix j assume j: "j < length ess"
    show "child_at at (ws[o' := w] ! j) (ess ! j) (last_before (ess ! j) (rank es (ess ! j) i))"
      using children_atD [OF ws(2) j] w(2) ws(2) j
      by (cases "j = o'") (simp_all add: children_at_def)
  qed
  from FindLargest_at [OF m srt _ this, of "m\<lparr>mi_children := ws[o' := w], mi_direction := kReverse\<rparr>"]
  have "merging_at (FindLargest c (m\<lparr>mi_children := ws[o' := w], mi_direction := kReverse\<rparr>)) es (last_before es i)"
    using assms(2) by (simp add: Find_direction)
  moreover have "Merging_Prev c ops m = Some (FindLargest c (m\<lparr>mi_children := ws[o' := w], mi_direction := kReverse\<rparr>))"
    unfolding Merging_Prev_def cur bind.simps ws(1) w(1) ..
  ultimately show ?thesis by blast
qed

lemma Merging_status_at:
  assumes "merging_at m es i"
  shows "ok (Merging_status ops m)"
proof -
  obtain ess p where ch: "children_at at (mi_children m) ess p" by (rule merging_children [OF assms])
  have "ok (Merging_status_loop ops ws s)" if "\<forall>w \<in> set ws. ok (iw_status ops w)" "ok s" for ws s
    using that by (induction ws arbitrary: s) (auto simp: Let_def)
  moreover have "ok (iw_status ops w)" if "w \<in> set (mi_children m)" for w
    using that ch at_status by (auto simp: children_at_def child_at_def iw_status_def in_set_conv_nth)
  ultimately show ?thesis by (simp add: Merging_status_def)
qed

lemma merging_iterator: "iterator c valid (MergingIterator_ops c ops) merging_at"
proof
  fix m es i t
  assume a: "merging_at m es i"
  show "sorted_entries c valid es" "i \<le> length es" using a by (simp_all add: merging_at_def)
  show "it_Valid (MergingIterator_ops c ops) m \<longleftrightarrow> i < length es"
    using a by (auto simp: merging_at_def MergingIterator_ops_def Merging_Valid_def split: if_splits)
  show "ok (it_status (MergingIterator_ops c ops) m)"
    using Merging_status_at [OF a] by (simp add: MergingIterator_ops_def)
  show "\<exists>m'. it_SeekToFirst (MergingIterator_ops c ops) m = Some m' \<and> merging_at m' es 0"
    using merging_seek_all [OF a, of 0 "iw_SeekToFirst ops"] child_moves(1)
    by (simp add: MergingIterator_ops_def Merging_SeekToFirst_def)
  show "\<exists>m'. it_Seek (MergingIterator_ops c ops) t m = Some m' \<and> merging_at m' es (first_ge c es t)"
    if t: "valid t"
  proof -
    have srt: "sorted_entries c valid es" using a by (simp add: merging_at_def)
    have "\<exists>w'. iw_Seek ops t w = Some w' \<and> child_at at w' xs (rank es xs (first_ge c es t))"
      if "child_at at w xs p" "xs = filter (\<lambda>e. e \<in> set xs) es" for xs p w
      using child_moves(3) [OF that(1) t] unfolding first_ge_rank [OF srt that(2) t] .
    from merging_seek_all [OF a first_ge_le this] show ?thesis
      by (simp add: MergingIterator_ops_def Merging_Seek_def)
  qed
  show "\<exists>m'. it_SeekToLast (MergingIterator_ops c ops) m = Some m' \<and> merging_at m' es (length es - 1)"
  proof -
    obtain ess p where m: "merged es ess" "sorted_entries c valid es" "children_at at (mi_children m) ess p"
      by (rule merging_children [OF a])
    have "\<exists>w'. iw_SeekToLast ops w = Some w' \<and> child_at at w' (ess ! j) (last_before (ess ! j) (rank es (ess ! j) (length es)))"
      if "j < length ess" "child_at at w (ess ! j) (p j)" for j w
      using child_moves(2) [OF that(2)] ranks_all [OF m(1) that(1)]
      by (cases "ess ! j") (auto simp: last_before_def)
    from each_child_at [OF m(3), of "\<lambda>_. iw_SeekToLast ops", OF this]
    obtain ws where ws: "each_child (\<lambda>_. iw_SeekToLast ops) 0 (mi_children m) = Some ws"
      "children_at at ws ess (\<lambda>j. last_before (ess ! j) (rank es (ess ! j) (length es)))" by blast
    have "merging_at ((FindLargest c (m\<lparr>mi_children := ws\<rparr>))\<lparr>mi_direction := kReverse\<rparr>) es (last_before es (length es))"
      by (rule FindLargest_at [OF m(1,2) order.refl ws(2)]) simp
    moreover have "last_before es (length es) = length es - 1" by (simp add: last_before_def)
    ultimately show ?thesis using ws(1) by (simp add: MergingIterator_ops_def Merging_SeekToLast_def)
  qed
  assume i: "i < length es"
  show "it_key (MergingIterator_ops c ops) m = fst (es ! i)"
    "it_value (MergingIterator_ops c ops) m = Some (snd (es ! i))"
    using merging_key [OF a i] by (simp_all add: MergingIterator_ops_def)
  show "\<exists>m'. it_Next (MergingIterator_ops c ops) m = Some m' \<and> merging_at m' es (Suc i)"
    using Merging_Next_at [OF a i] by (simp add: MergingIterator_ops_def)
  show "\<exists>m'. it_Prev (MergingIterator_ops c ops) m = Some m' \<and> merging_at m' es (if i = 0 then length es else i - 1)"
    using Merging_Prev_at [OF a i] by (simp add: MergingIterator_ops_def last_before_def)
qed

lemma MergingIterator_new_at:
  assumes "sorted_entries c valid es" "merged es ess" "length children = length ess"
    and "\<And>j. j < length ess \<Longrightarrow> at (children ! j) (ess ! j) (length (ess ! j))"
  shows "merging_at (MergingIterator_new ops children) es (length es)"
proof -
  have "children_at at (mi_children (MergingIterator_new ops children)) ess (\<lambda>j. length (ess ! j))"
    using assms(3,4) at_Valid
    by (auto simp: children_at_def child_at_def MergingIterator_new_def iw_Set_def iw_Update_def)
  then show ?thesis using assms(1,2) by (auto simp: merging_at_def MergingIterator_new_def)
qed

end

interpretation bytewise_merging: iterator BytewiseComparator "\<lambda>_. True"
  "MergingIterator_ops BytewiseComparator BlockIter_ops" bytewise.bi.merging_at
  by (rule bytewise.bi.merging_iterator)

subsection \<open>Properties\<close>

text \<open>
  C13: over children that satisfy the iterator contract and share no key, any
  sequence of calls on the merging iterator, forwards, backwards and seeking, is a walk over
  the one sorted sequence of all their entries.
\<close>

theorem merging_refines:
  assumes "iterator c valid ops at" and "sorted_entries c valid es"
    and "\<forall>xs \<in> set ess. sorted_entries c valid xs" and "set es = (\<Union>xs \<in> set ess. set xs)"
    and "\<forall>j k. j < length ess \<longrightarrow> k < length ess \<longrightarrow> j \<noteq> k \<longrightarrow> set (ess ! j) \<inter> set (ess ! k) = {}"
    and "length children = length ess"
    and "\<forall>j < length ess. at (children ! j) (ess ! j) (length (ess ! j))"
    and "list_all (move_valid valid) ms" and "cursor_moves c es ms (length es) = Some i"
  shows "\<exists>m. run_moves (MergingIterator_ops c ops) ms (MergingIterator_new ops children) = Some m \<and>
    shows_position (MergingIterator_ops c ops) m es i"
proof -
  note it = iterator.merging_iterator [OF assms(1)]
  have "comparator c valid" using assms(1) by (rule iterator.axioms)
  then have "merged es ess" by (rule comparator.mergedI) (use assms in auto)
  then have "iterator.merging_at c valid at (MergingIterator_new ops children) es (length es)"
    by (rule iterator.MergingIterator_new_at [OF assms(1,2)]) (use assms in auto)
  from iterator.run_moves_at [OF it this assms(8,9)] iterator.at_shows [OF it] show ?thesis by blast
qed

definition demo_block :: "(bytes \<times> bytes) list \<Rightarrow> BlockIterator" where
  "demo_block es = Block_NewIterator BytewiseComparator (Block_new
     \<lparr>bc_data = fst (BlockBuilder_Finish (BlockBuilder_AddAll 16 es BlockBuilder_new)),
      cachable = True, heap_allocated = True\<rparr>)"

lemma demo_block_at:
  assumes "sorted_entries BytewiseComparator (\<lambda>_. True) es"
    and "CurrentSizeEstimate (BlockBuilder_AddAll 16 es BlockBuilder_new) < 2 ^ 32"
  obtains it where "demo_block es = Iter it" "block_at BytewiseComparator (\<lambda>_. True) it es (length es)"
  using block_built [OF assms] unfolding demo_block_def by force

theorem merging_refines_witness:
  "\<exists>a b m. demo_block [([1], [10]), ([3], [30])] = Iter a \<and> demo_block [([2], [20])] = Iter b \<and>
     run_moves (MergingIterator_ops BytewiseComparator BlockIter_ops) [ToFirst, Forward, Forward, Backward]
       (MergingIterator_new BlockIter_ops [a, b]) = Some m \<and>
     shows_position (MergingIterator_ops BytewiseComparator BlockIter_ops) m
       [([1], [10]), ([2], [20]), ([3], [30])] 1"
proof -
  let ?xs = "[([1], [10]), ([3], [30])] :: (bytes \<times> bytes) list" and ?ys = "[([2], [20])] :: (bytes \<times> bytes) list"
  let ?es = "[([1], [10]), ([2], [20]), ([3], [30])] :: (bytes \<times> bytes) list"
  have s: "sorted_entries BytewiseComparator (\<lambda>_. True) ?xs" "sorted_entries BytewiseComparator (\<lambda>_. True) ?ys"
    "sorted_entries BytewiseComparator (\<lambda>_. True) ?es"
    by (simp_all add: sorted_entries_def BytewiseComparator_def Slice_compare_def)
  have l: "CurrentSizeEstimate (BlockBuilder_AddAll 16 ?xs BlockBuilder_new) < 2 ^ 32"
    "CurrentSizeEstimate (BlockBuilder_AddAll 16 ?ys BlockBuilder_new) < 2 ^ 32"
    by (simp_all add: CurrentSizeEstimate_def BlockBuilder_AddAll_def BlockBuilder_new_def
        BlockBuilder_Add_def PutVarint32_def EncodeVarint32_def)
  obtain a b where ab: "demo_block ?xs = Iter a" "block_at BytewiseComparator (\<lambda>_. True) a ?xs (length ?xs)"
    "demo_block ?ys = Iter b" "block_at BytewiseComparator (\<lambda>_. True) b ?ys (length ?ys)"
    by (rule demo_block_at [OF s(1) l(1)], rule demo_block_at [OF s(2) l(2)])
  have p: "\<forall>j k. j < length [?xs, ?ys] \<longrightarrow> k < length [?xs, ?ys] \<longrightarrow> j \<noteq> k \<longrightarrow> set ([?xs, ?ys] ! j) \<inter> set ([?xs, ?ys] ! k) = {}"
    by (auto simp: less_Suc_eq)
  have "\<exists>m. run_moves (MergingIterator_ops BytewiseComparator BlockIter_ops) [ToFirst, Forward, Forward, Backward]
      (MergingIterator_new BlockIter_ops [a, b]) = Some m \<and>
    shows_position (MergingIterator_ops BytewiseComparator BlockIter_ops) m ?es 1"
    by (rule merging_refines [OF bytewise.bi.iterator_axioms s(3) _ _ p])
       (use s ab in \<open>auto simp: less_Suc_eq\<close>)
  then show ?thesis using ab by blast
qed

end
