(* ===== verification/TwoLevel.thy ===== *)
theory TwoLevel
  imports Merger
begin

section \<open>Two-level iterator (\<^verbatim>\<open>table/two_level_iterator.cc\<close>)\<close>

text \<open>
  A two-level iterator walks over the blocks that an index iterator names: the value of an
  index entry is handed to a block function, which opens an iterator over that block. The
  block function is an argument; a call of it that does not return is \<open>None\<close>. The iterator
  satisfies the iterator contract when the index and the blocks do, and the index keys
  separate the blocks.
\<close>

record ('x, 'd) TwoLevelIterator =
  ti_status :: Status
  ti_index :: "'x IteratorWrapper"
  ti_data :: "'d IteratorWrapper"
  ti_data_block_handle :: bytes

definition NewTwoLevelIterator :: "'x Iterator \<Rightarrow> 'x \<Rightarrow> ('x, 'd) TwoLevelIterator" where
  "NewTwoLevelIterator xops index_iter =
     \<lparr>ti_status = OK, ti_index = iw_Set xops (Some index_iter) IteratorWrapper_new,
      ti_data = IteratorWrapper_new, ti_data_block_handle = []\<rparr>"

definition SaveError :: "Status \<Rightarrow> ('x, 'd) TwoLevelIterator \<Rightarrow> ('x, 'd) TwoLevelIterator" where
  "SaveError s t = (if ok (ti_status t) \<and> \<not> ok s then t\<lparr>ti_status := s\<rparr> else t)"

definition SetDataIterator ::
    "'d Iterator \<Rightarrow> 'd option \<Rightarrow> ('x, 'd) TwoLevelIterator \<Rightarrow> ('x, 'd) TwoLevelIterator" where
  "SetDataIterator dops data_iter t =
     (let t = (if iw_iter (ti_data t) \<noteq> None then SaveError (iw_status dops (ti_data t)) t else t)
      in t\<lparr>ti_data := iw_Set dops data_iter (ti_data t)\<rparr>)"

definition InitDataBlock ::
    "'x Iterator \<Rightarrow> 'd Iterator \<Rightarrow> (bytes \<Rightarrow> 'd option) \<Rightarrow> ('x, 'd) TwoLevelIterator \<Rightarrow>
     ('x, 'd) TwoLevelIterator option" where
  "InitDataBlock xops dops block_function t =
     (if \<not> iw_valid (ti_index t) then Some (SetDataIterator dops None t)
      else
        Option.bind (iw_value xops (ti_index t)) (\<lambda>handle.
          if iw_iter (ti_data t) \<noteq> None \<and> Slice_compare handle (ti_data_block_handle t) = 0
          then Some t
          else Option.bind (block_function handle) (\<lambda>iter.
                 Some (SetDataIterator dops (Some iter) (t\<lparr>ti_data_block_handle := handle\<rparr>)))))"

text \<open>\<open>if (data_iter_.iter() != nullptr) data_iter_.Seek...()\<close>\<close>

definition on_data ::
    "('d IteratorWrapper \<Rightarrow> 'd IteratorWrapper option) \<Rightarrow> ('x, 'd) TwoLevelIterator \<Rightarrow>
     ('x, 'd) TwoLevelIterator option" where
  "on_data f t =
     (if iw_iter (ti_data t) \<noteq> None then map_option (\<lambda>d. t\<lparr>ti_data := d\<rparr>) (f (ti_data t)) else Some t)"

definition on_index ::
    "('x IteratorWrapper \<Rightarrow> 'x IteratorWrapper option) \<Rightarrow> ('x, 'd) TwoLevelIterator \<Rightarrow>
     ('x, 'd) TwoLevelIterator option" where
  "on_index f t = map_option (\<lambda>x. t\<lparr>ti_index := x\<rparr>) (f (ti_index t))"

partial_function (option) SkipEmptyDataBlocksForward ::
    "'x Iterator \<Rightarrow> 'd Iterator \<Rightarrow> (bytes \<Rightarrow> 'd option) \<Rightarrow> ('x, 'd) TwoLevelIterator \<Rightarrow>
     ('x, 'd) TwoLevelIterator option" where
  "SkipEmptyDataBlocksForward xops dops bf t =
     (if iw_iter (ti_data t) = None \<or> \<not> iw_valid (ti_data t) then
        (if \<not> iw_valid (ti_index t) then Some (SetDataIterator dops None t)
         else Option.bind (on_index (iw_Next xops) t) (\<lambda>t.
              Option.bind (InitDataBlock xops dops bf t) (\<lambda>t.
              Option.bind (on_data (iw_SeekToFirst dops) t) (\<lambda>t.
              SkipEmptyDataBlocksForward xops dops bf t))))
      else Some t)"

partial_function (option) SkipEmptyDataBlocksBackward ::
    "'x Iterator \<Rightarrow> 'd Iterator \<Rightarrow> (bytes \<Rightarrow> 'd option) \<Rightarrow> ('x, 'd) TwoLevelIterator \<Rightarrow>
     ('x, 'd) TwoLevelIterator option" where
  "SkipEmptyDataBlocksBackward xops dops bf t =
     (if iw_iter (ti_data t) = None \<or> \<not> iw_valid (ti_data t) then
        (if \<not> iw_valid (ti_index t) then Some (SetDataIterator dops None t)
         else Option.bind (on_index (iw_Prev xops) t) (\<lambda>t.
              Option.bind (InitDataBlock xops dops bf t) (\<lambda>t.
              Option.bind (on_data (iw_SeekToLast dops) t) (\<lambda>t.
              SkipEmptyDataBlocksBackward xops dops bf t))))
      else Some t)"

definition Two_Seek ::
    "'x Iterator \<Rightarrow> 'd Iterator \<Rightarrow> (bytes \<Rightarrow> 'd option) \<Rightarrow> bytes \<Rightarrow> ('x, 'd) TwoLevelIterator \<Rightarrow>
     ('x, 'd) TwoLevelIterator option" where
  "Two_Seek xops dops bf target t =
     Option.bind (on_index (iw_Seek xops target) t) (\<lambda>t.
     Option.bind (InitDataBlock xops dops bf t) (\<lambda>t.
     Option.bind (on_data (iw_Seek dops target) t) (\<lambda>t.
     SkipEmptyDataBlocksForward xops dops bf t)))"

definition Two_SeekToFirst ::
    "'x Iterator \<Rightarrow> 'd Iterator \<Rightarrow> (bytes \<Rightarrow> 'd option) \<Rightarrow> ('x, 'd) TwoLevelIterator \<Rightarrow>
     ('x, 'd) TwoLevelIterator option" where
  "Two_SeekToFirst xops dops bf t =
     Option.bind (on_index (iw_SeekToFirst xops) t) (\<lambda>t.
     Option.bind (InitDataBlock xops dops bf t) (\<lambda>t.
     Option.bind (on_data (iw_SeekToFirst dops) t) (\<lambda>t.
     SkipEmptyDataBlocksForward xops dops bf t)))"

definition Two_SeekToLast ::
    "'x Iterator \<Rightarrow> 'd Iterator \<Rightarrow> (bytes \<Rightarrow> 'd option) \<Rightarrow> ('x, 'd) TwoLevelIterator \<Rightarrow>
     ('x, 'd) TwoLevelIterator option" where
  "Two_SeekToLast xops dops bf t =
     Option.bind (on_index (iw_SeekToLast xops) t) (\<lambda>t.
     Option.bind (InitDataBlock xops dops bf t) (\<lambda>t.
     Option.bind (on_data (iw_SeekToLast dops) t) (\<lambda>t.
     SkipEmptyDataBlocksBackward xops dops bf t)))"

text \<open>The assertion \<open>Valid()\<close> of these two implies a data iterator.\<close>

definition Two_Next ::
    "'x Iterator \<Rightarrow> 'd Iterator \<Rightarrow> (bytes \<Rightarrow> 'd option) \<Rightarrow> ('x, 'd) TwoLevelIterator \<Rightarrow>
     ('x, 'd) TwoLevelIterator option" where
  "Two_Next xops dops bf t =
     Option.bind (iw_Next dops (ti_data t)) (\<lambda>d. SkipEmptyDataBlocksForward xops dops bf (t\<lparr>ti_data := d\<rparr>))"

definition Two_Prev ::
    "'x Iterator \<Rightarrow> 'd Iterator \<Rightarrow> (bytes \<Rightarrow> 'd option) \<Rightarrow> ('x, 'd) TwoLevelIterator \<Rightarrow>
     ('x, 'd) TwoLevelIterator option" where
  "Two_Prev xops dops bf t =
     Option.bind (iw_Prev dops (ti_data t)) (\<lambda>d. SkipEmptyDataBlocksBackward xops dops bf (t\<lparr>ti_data := d\<rparr>))"

definition Two_status :: "'x Iterator \<Rightarrow> 'd Iterator \<Rightarrow> ('x, 'd) TwoLevelIterator \<Rightarrow> Status" where
  "Two_status xops dops t =
     (if \<not> ok (iw_status xops (ti_index t)) then iw_status xops (ti_index t)
      else if iw_iter (ti_data t) \<noteq> None \<and> \<not> ok (iw_status dops (ti_data t)) then iw_status dops (ti_data t)
      else ti_status t)"

definition TwoLevelIterator_ops ::
    "'x Iterator \<Rightarrow> 'd Iterator \<Rightarrow> (bytes \<Rightarrow> 'd option) \<Rightarrow> ('x, 'd) TwoLevelIterator Iterator" where
  "TwoLevelIterator_ops xops dops bf =
     \<lparr>it_Valid = (\<lambda>t. iw_valid (ti_data t)), it_Seek = Two_Seek xops dops bf,
      it_SeekToFirst = Two_SeekToFirst xops dops bf, it_SeekToLast = Two_SeekToLast xops dops bf,
      it_Next = Two_Next xops dops bf, it_Prev = Two_Prev xops dops bf,
      it_key = (\<lambda>t. iw_key (ti_data t)), it_value = (\<lambda>t. iw_value dops (ti_data t)),
      it_status = Two_status xops dops\<rparr>"

subsection \<open>Blocks and their separators\<close>

text \<open>
  \<open>boff bss k\<close> is the position of the first entry of block \<open>k\<close> in the whole sequence. The index
  key of a block is at or past all of its keys and before all keys of the later blocks.
\<close>

definition boff :: "'a list list \<Rightarrow> nat \<Rightarrow> nat" where
  "boff bss k = length (concat (take k bss))"

definition separated :: "Comparator \<Rightarrow> (bytes \<times> bytes) list \<Rightarrow> (bytes \<times> bytes) list list \<Rightarrow> bool" where
  "separated c ies bss \<longleftrightarrow> length ies = length bss \<and> distinct (map snd ies) \<and>
     (\<forall>k < length bss. (\<forall>e \<in> set (bss ! k). Compare c (fst e) (fst (ies ! k)) \<le> 0) \<and>
        (\<forall>j. k < j \<longrightarrow> j < length bss \<longrightarrow> (\<forall>e \<in> set (bss ! j). Compare c (fst (ies ! k)) (fst e) < 0)))"

lemma boff_simps: "boff bss 0 = 0" "k < length bss \<Longrightarrow> boff bss (Suc k) = boff bss k + length (bss ! k)"
  "boff bss (length bss) = length (concat bss)"
  by (simp_all add: boff_def take_Suc_conv_app_nth)

lemma boff_le: "k < length bss \<Longrightarrow> p \<le> length (bss ! k) \<Longrightarrow> boff bss k + p \<le> length (concat bss)"
proof -
  assume k: "k < length bss" and p: "p \<le> length (bss ! k)"
  have "concat bss = concat (take k bss) @ bss ! k @ concat (drop (Suc k) bss)"
    using k by (metis concat.simps(2) concat_append id_take_nth_drop)
  then show ?thesis using p by (simp add: boff_def)
qed

lemma nth_concat_boff:
  assumes "k < length bss" "p < length (bss ! k)"
  shows "concat bss ! (boff bss k + p) = bss ! k ! p" "boff bss k + p < length (concat bss)"
proof -
  have e: "concat bss = concat (take k bss) @ bss ! k @ concat (drop (Suc k) bss)"
    using assms(1) by (metis concat.simps(2) concat_append id_take_nth_drop)
  show "concat bss ! (boff bss k + p) = bss ! k ! p" "boff bss k + p < length (concat bss)"
    unfolding boff_def by (subst e, use assms(2) in \<open>simp add: nth_append\<close>)+
qed

text \<open>The contract of the index and of the blocks, both over the same order.\<close>

locale two_level =
  index: iterator c valid xops xat + data: iterator c valid dops dat
  for c :: Comparator and valid :: "bytes \<Rightarrow> bool"
    and xops :: "'x Iterator" and xat :: "'x \<Rightarrow> (bytes \<times> bytes) list \<Rightarrow> nat \<Rightarrow> bool"
    and dops :: "'d Iterator" and dat :: "'d \<Rightarrow> (bytes \<times> bytes) list \<Rightarrow> nat \<Rightarrow> bool"
begin

definition block_function_ok ::
    "(bytes \<Rightarrow> 'd option) \<Rightarrow> (bytes \<times> bytes) list \<Rightarrow> (bytes \<times> bytes) list list \<Rightarrow> bool" where
  "block_function_ok bf ies bss \<longleftrightarrow>
     (\<forall>k < length bss. \<exists>d. bf (snd (ies ! k)) = Some d \<and> (\<exists>p. dat d (bss ! k) p))"

definition two_rep ::
    "(bytes \<Rightarrow> 'd option) \<Rightarrow> ('x, 'd) TwoLevelIterator \<Rightarrow> (bytes \<times> bytes) list \<Rightarrow> (bytes \<times> bytes) list list \<Rightarrow> bool" where
  "two_rep bf t ies bss \<longleftrightarrow> separated c ies bss \<and> block_function_ok bf ies bss \<and>
     sorted_entries c valid (concat bss) \<and> sorted_entries c valid ies \<and> ok (ti_status t) \<and>
     (iw_iter (ti_data t) = None \<longrightarrow> \<not> iw_valid (ti_data t)) \<and>
     (\<forall>d. iw_iter (ti_data t) = Some d \<longrightarrow>
        (\<exists>k p. k < length bss \<and> ti_data_block_handle t = snd (ies ! k) \<and> child_at dat (ti_data t) (bss ! k) p))"

text \<open>The index stands at block \<open>k\<close>, the data iterator at the position \<open>p\<close> of that block.\<close>

definition in_block ::
    "(bytes \<Rightarrow> 'd option) \<Rightarrow> ('x, 'd) TwoLevelIterator \<Rightarrow> (bytes \<times> bytes) list \<Rightarrow> (bytes \<times> bytes) list list \<Rightarrow>
     nat \<Rightarrow> nat \<Rightarrow> bool" where
  "in_block bf t ies bss k p \<longleftrightarrow> two_rep bf t ies bss \<and> k < length bss \<and> child_at xat (ti_index t) ies k \<and>
     ti_data_block_handle t = snd (ies ! k) \<and> child_at dat (ti_data t) (bss ! k) p"

definition at_end ::
    "(bytes \<Rightarrow> 'd option) \<Rightarrow> ('x, 'd) TwoLevelIterator \<Rightarrow> (bytes \<times> bytes) list \<Rightarrow> (bytes \<times> bytes) list list \<Rightarrow> bool" where
  "at_end bf t ies bss \<longleftrightarrow> two_rep bf t ies bss \<and> child_at xat (ti_index t) ies (length ies) \<and>
     iw_iter (ti_data t) = None"

definition two_pos ::
    "(bytes \<Rightarrow> 'd option) \<Rightarrow> ('x, 'd) TwoLevelIterator \<Rightarrow> (bytes \<times> bytes) list \<Rightarrow> (bytes \<times> bytes) list list \<Rightarrow>
     nat \<Rightarrow> bool" where
  "two_pos bf t ies bss i \<longleftrightarrow> i = length (concat bss) \<and> at_end bf t ies bss \<or>
     (\<exists>k p. in_block bf t ies bss k p \<and> p < length (bss ! k) \<and> i = boff bss k + p)"

definition two_at ::
    "(bytes \<Rightarrow> 'd option) \<Rightarrow> ('x, 'd) TwoLevelIterator \<Rightarrow> (bytes \<times> bytes) list \<Rightarrow> nat \<Rightarrow> bool" where
  "two_at bf t es i \<longleftrightarrow> (\<exists>ies bss. es = concat bss \<and> two_pos bf t ies bss i)"

lemma child_le: "child_at dat w xs p \<Longrightarrow> p \<le> length xs"
  using data.at_le by (auto simp: child_at_def)

lemma two_repD:
  assumes "two_rep bf t ies bss"
  shows "separated c ies bss" "sorted_entries c valid (concat bss)" "sorted_entries c valid ies"
    "length ies = length bss" "ok (ti_status t)"
  using assms by (auto simp: two_rep_def separated_def)

lemma data_status:
  "two_rep bf t ies bss \<Longrightarrow> iw_iter (ti_data t) \<noteq> None \<Longrightarrow> ok (iw_status dops (ti_data t))"
  using data.at_status by (fastforce simp: two_rep_def child_at_def iw_status_def)

lemma two_rep_index: "two_rep bf (t\<lparr>ti_index := x\<rparr>) ies bss \<longleftrightarrow> two_rep bf t ies bss"
  by (simp add: two_rep_def)

lemma SetDataIterator_eq:
  assumes "two_rep bf t ies bss"
  shows "SetDataIterator dops d t = t\<lparr>ti_data := iw_Set dops d (ti_data t)\<rparr>"
  using data_status [OF assms] by (auto simp: SetDataIterator_def SaveError_def)

lemma drop_data:
  assumes "two_rep bf t ies bss"
  shows "two_rep bf (SetDataIterator dops None t) ies bss" "iw_iter (ti_data (SetDataIterator dops None t)) = None"
    "ti_index (SetDataIterator dops None t) = ti_index t"
  using assms by (auto simp: SetDataIterator_eq [OF assms] two_rep_def iw_Set_def)

lemma index_handle:
  assumes "two_rep bf t ies bss" "child_at xat w ies k" "k < length bss"
  shows "iw_valid w" "iw_value xops w = Some (snd (ies ! k))"
  using assms index.at_value [of _ ies k] two_repD(4) [OF assms(1)]
  by (auto simp: child_at_def iw_value_def)

lemma in_blockI:
  assumes "two_rep bf t ies bss" "k < length bss" "child_at dat w (bss ! k) p" "child_at xat (ti_index t) ies k"
    and "t' = t\<lparr>ti_data_block_handle := snd (ies ! k), ti_data := w\<rparr>"
  shows "in_block bf t' ies bss k p"
proof -
  have "iw_iter w \<noteq> None" using assms(3) by (auto simp: child_at_def)
  then have "two_rep bf t' ies bss" using assms(1,2,3) unfolding two_rep_def assms(5) by auto
  then show ?thesis using assms(2-5) by (simp add: in_block_def)
qed

lemma InitDataBlock_in:
  assumes rep: "two_rep bf t ies bss" and idx: "child_at xat (ti_index t) ies k" and k: "k < length bss"
  shows "\<exists>t' p. InitDataBlock xops dops bf t = Some t' \<and> in_block bf t' ies bss k p"
proof (cases "iw_iter (ti_data t) \<noteq> None \<and> Slice_compare (snd (ies ! k)) (ti_data_block_handle t) = 0")
  case True
  then have h: "ti_data_block_handle t = snd (ies ! k)" using Slice_compare_lex lex_cmp_0_iff by metis
  obtain j p where j: "j < length bss" "ti_data_block_handle t = snd (ies ! j)" "child_at dat (ti_data t) (bss ! j) p"
    using rep True by (auto simp: two_rep_def)
  have "map snd ies ! j = map snd ies ! k" using h j(1,2) k two_repD(4) [OF rep] by simp
  then have "j = k" using two_repD(1,4) [OF rep] j(1) k
    by (simp add: separated_def nth_eq_iff_index_eq del: nth_map)
  then have "in_block bf t ies bss k p" using rep idx k j by (simp add: in_block_def)
  moreover have "InitDataBlock xops dops bf t = Some t"
    using index_handle [OF rep idx k] True by (simp add: InitDataBlock_def)
  ultimately show ?thesis by blast
next
  case False
  obtain d p where d: "bf (snd (ies ! k)) = Some d" "dat d (bss ! k) p"
    using rep k by (auto simp: two_rep_def block_function_ok_def)
  let ?t = "t\<lparr>ti_data_block_handle := snd (ies ! k), ti_data := iw_Set dops (Some d) (ti_data t)\<rparr>"
  have ca: "child_at dat (iw_Set dops (Some d) w) (bss ! k) p" for w
    using d(2) data.at_Valid [OF d(2)] data.at_key [OF d(2)]
    by (auto simp: child_at_def iw_Set_def iw_Update_def)
  have "SetDataIterator dops (Some d) (t\<lparr>ti_data_block_handle := snd (ies ! k)\<rparr>) = ?t"
    using data_status [OF rep] by (auto simp: SetDataIterator_def SaveError_def)
  then have "InitDataBlock xops dops bf t = Some ?t"
    using index_handle [OF rep idx k] False d(1) by (auto simp: InitDataBlock_def)
  moreover have "in_block bf ?t ies bss k p" by (rule in_blockI [OF rep k ca idx refl])
  ultimately show ?thesis by blast
qed

lemma InitDataBlock_end:
  assumes rep: "two_rep bf t ies bss" and idx: "child_at xat (ti_index t) ies (length ies)"
  shows "\<exists>t'. InitDataBlock xops dops bf t = Some t' \<and> at_end bf t' ies bss"
proof -
  have "InitDataBlock xops dops bf t = Some (SetDataIterator dops None t)"
    using idx by (simp add: InitDataBlock_def child_at_def)
  then show ?thesis using drop_data [OF rep] idx by (simp add: at_end_def)
qed

text \<open>Opening the block at the index, and moving in it.\<close>

lemma on_data_in:
  assumes "in_block bf t ies bss k p"
    and "\<forall>w p. child_at dat w (bss ! k) p \<longrightarrow> (\<exists>w'. f w = Some w' \<and> child_at dat w' (bss ! k) q)"
  shows "\<exists>t'. on_data f t = Some t' \<and> in_block bf t' ies bss k q"
proof -
  have rep: "two_rep bf t ies bss" and k: "k < length bss" and idx: "child_at xat (ti_index t) ies k"
    and h: "ti_data_block_handle t = snd (ies ! k)" and d: "child_at dat (ti_data t) (bss ! k) p"
    using assms(1) by (simp_all add: in_block_def)
  obtain w' where w': "f (ti_data t) = Some w'" "child_at dat w' (bss ! k) q" using assms(2) d by blast
  have ne: "iw_iter (ti_data t) \<noteq> None" using d by (auto simp: child_at_def)
  have "t\<lparr>ti_data := w'\<rparr> = t\<lparr>ti_data_block_handle := snd (ies ! k), ti_data := w'\<rparr>" using h by simp
  then have "in_block bf (t\<lparr>ti_data := w'\<rparr>) ies bss k q" by (rule in_blockI [OF rep k w'(2) idx])
  then show ?thesis using w'(1) ne by (simp add: on_data_def)
qed

lemma dfirst: "\<forall>w p. child_at dat w xs p \<longrightarrow> (\<exists>w'. iw_SeekToFirst dops w = Some w' \<and> child_at dat w' xs 0)"
  and dlast: "\<forall>w p. child_at dat w xs p \<longrightarrow> (\<exists>w'. iw_SeekToLast dops w = Some w' \<and> child_at dat w' xs (length xs - 1))"
  and dseek: "valid target \<Longrightarrow> \<forall>w p. child_at dat w xs p \<longrightarrow>
    (\<exists>w'. iw_Seek dops target w = Some w' \<and> child_at dat w' xs (first_ge c xs target))"
  using data.child_moves(1-3) by blast+

lemma Skip_done:
  assumes "in_block bf t ies bss k p" "p < length (bss ! k)"
  shows "SkipEmptyDataBlocksForward xops dops bf t = Some t" "SkipEmptyDataBlocksBackward xops dops bf t = Some t"
    "two_pos bf t ies bss (boff bss k + p)"
proof -
  obtain d where "iw_iter (ti_data t) = Some d" "iw_valid (ti_data t)"
    using assms by (auto simp: in_block_def child_at_def)
  then show "SkipEmptyDataBlocksForward xops dops bf t = Some t" "SkipEmptyDataBlocksBackward xops dops bf t = Some t"
    by (simp_all add: SkipEmptyDataBlocksForward.simps [of _ _ _ t] SkipEmptyDataBlocksBackward.simps [of _ _ _ t])
  show "two_pos bf t ies bss (boff bss k + p)" using assms by (auto simp: two_pos_def)
qed

lemma Skip_end:
  assumes "at_end bf t ies bss"
  shows "\<exists>t'. SkipEmptyDataBlocksForward xops dops bf t = Some t' \<and> two_pos bf t' ies bss (length (concat bss))"
    "\<exists>t'. SkipEmptyDataBlocksBackward xops dops bf t = Some t' \<and> two_pos bf t' ies bss (length (concat bss))"
proof -
  have rep: "two_rep bf t ies bss" and d: "iw_iter (ti_data t) = None"
    and idx: "child_at xat (ti_index t) ies (length ies)" using assms by (simp_all add: at_end_def)
  have v: "\<not> iw_valid (ti_index t)" using idx by (simp add: child_at_def)
  have e: "two_pos bf (SetDataIterator dops None t) ies bss (length (concat bss))"
    using drop_data [OF rep] idx by (simp add: two_pos_def at_end_def)
  show "\<exists>t'. SkipEmptyDataBlocksForward xops dops bf t = Some t' \<and> two_pos bf t' ies bss (length (concat bss))"
    using d v e by (subst SkipEmptyDataBlocksForward.simps) simp
  show "\<exists>t'. SkipEmptyDataBlocksBackward xops dops bf t = Some t' \<and> two_pos bf t' ies bss (length (concat bss))"
    using d v e by (subst SkipEmptyDataBlocksBackward.simps) simp
qed

lemma on_index_Some: "g (ti_index t) = Some x \<Longrightarrow> on_index g t = Some (t\<lparr>ti_index := x\<rparr>)"
  by (simp add: on_index_def)

text \<open>Moving the index, opening its block, and moving there.\<close>

lemma enter_block:
  assumes "two_rep bf t ies bss" "g (ti_index t) = Some x" "child_at xat x ies k" "k < length bss"
    and "\<forall>w p. child_at dat w (bss ! k) p \<longrightarrow> (\<exists>w'. f w = Some w' \<and> child_at dat w' (bss ! k) q)"
  shows "\<exists>t'. Option.bind (on_index g t) (\<lambda>t. Option.bind (InitDataBlock xops dops bf t) (\<lambda>t.
      Option.bind (on_data f t) S)) = S t' \<and> in_block bf t' ies bss k q"
proof -
  have r: "two_rep bf (t\<lparr>ti_index := x\<rparr>) ies bss" using assms(1) by (simp add: two_rep_index)
  have i: "child_at xat (ti_index (t\<lparr>ti_index := x\<rparr>)) ies k" using assms(3) by simp
  obtain t1 p where t1: "InitDataBlock xops dops bf (t\<lparr>ti_index := x\<rparr>) = Some t1" "in_block bf t1 ies bss k p"
    using InitDataBlock_in [OF r i assms(4)] by blast
  obtain t' where t': "on_data f t1 = Some t'" "in_block bf t' ies bss k q"
    using on_data_in [of bf t1 ies bss k p f q, OF t1(2) assms(5)] by blast
  show ?thesis
    unfolding on_index_Some [of g t x, OF assms(2)] bind.simps t1(1) t'(1) using t'(2) by blast
qed

lemma enter_end:
  assumes "two_rep bf t ies bss" "g (ti_index t) = Some x" "child_at xat x ies (length bss)"
  shows "\<exists>t'. Option.bind (on_index g t) (\<lambda>t. Option.bind (InitDataBlock xops dops bf t) (\<lambda>t.
      Option.bind (on_data f t) S)) = S t' \<and> at_end bf t' ies bss"
proof -
  have r: "two_rep bf (t\<lparr>ti_index := x\<rparr>) ies bss" using assms(1) by (simp add: two_rep_index)
  have i: "child_at xat (ti_index (t\<lparr>ti_index := x\<rparr>)) ies (length ies)"
    using assms(3) two_repD(4) [OF assms(1)] by simp
  obtain t1 where t1: "InitDataBlock xops dops bf (t\<lparr>ti_index := x\<rparr>) = Some t1" "at_end bf t1 ies bss"
    using InitDataBlock_end [OF r i] by blast
  have t': "on_data f t1 = Some t1" using t1(2) by (simp add: on_data_def at_end_def)
  show ?thesis
    unfolding on_index_Some [of g t x, OF assms(2)] bind.simps t1(1) t' using t1(2) by blast
qed

lemma SkipForward_pos:
  "in_block bf t ies bss k p \<Longrightarrow>
   \<exists>t'. SkipEmptyDataBlocksForward xops dops bf t = Some t' \<and> two_pos bf t' ies bss (boff bss k + p)"
proof (induction "length bss - k" arbitrary: t k p rule: less_induct)
  case less
  have rep: "two_rep bf t ies bss" and k: "k < length bss" and idx: "child_at xat (ti_index t) ies k"
    and d: "child_at dat (ti_data t) (bss ! k) p" using less.prems by (simp_all add: in_block_def)
  show ?case
  proof (cases "p < length (bss ! k)")
    case True
    then show ?thesis using Skip_done [OF less.prems] by blast
  next
    case False
    then have p: "p = length (bss ! k)" using child_le [OF d] by simp
    have v: "\<not> iw_valid (ti_data t)" "iw_valid (ti_index t)"
      using d idx k p two_repD(4) [OF rep] by (auto simp: child_at_def)
    have step: "SkipEmptyDataBlocksForward xops dops bf t =
        Option.bind (on_index (iw_Next xops) t) (\<lambda>t. Option.bind (InitDataBlock xops dops bf t) (\<lambda>t.
        Option.bind (on_data (iw_SeekToFirst dops) t) (SkipEmptyDataBlocksForward xops dops bf)))"
      using v by (subst SkipEmptyDataBlocksForward.simps) simp
    obtain x where x: "iw_Next xops (ti_index t) = Some x" "child_at xat x ies (Suc k)"
      using index.child_moves(4) [OF idx] k two_repD(4) [OF rep] by auto
    have off: "boff bss (Suc k) = boff bss k + p" using boff_simps(2) [OF k] p by simp
    show ?thesis
    proof (cases "Suc k < length bss")
      case True
      obtain t' where "SkipEmptyDataBlocksForward xops dops bf t = SkipEmptyDataBlocksForward xops dops bf t'"
        "in_block bf t' ies bss (Suc k) 0"
        using enter_block [of bf t ies bss "iw_Next xops" x "Suc k" "iw_SeekToFirst dops" 0
            "SkipEmptyDataBlocksForward xops dops bf", OF rep x True dfirst]
        unfolding step by blast
      then show ?thesis using less.hyps [of "Suc k" t' 0] k off by auto
    next
      case F: False
      then have n: "Suc k = length bss" using k by simp
      obtain t' where "SkipEmptyDataBlocksForward xops dops bf t = SkipEmptyDataBlocksForward xops dops bf t'"
        "at_end bf t' ies bss"
        using enter_end [of bf t ies bss "iw_Next xops" x "iw_SeekToFirst dops"
            "SkipEmptyDataBlocksForward xops dops bf", OF rep x(1) x(2) [unfolded n]]
        unfolding step by blast
      then show ?thesis using Skip_end(1) off boff_simps(3) [of bss] n by metis
    qed
  qed
qed

lemma SkipBackward_pos:
  "in_block bf t ies bss k (last_before (bss ! k) p) \<Longrightarrow> p \<le> length (bss ! k) \<Longrightarrow>
   \<exists>t'. SkipEmptyDataBlocksBackward xops dops bf t = Some t' \<and>
     two_pos bf t' ies bss (last_before (concat bss) (boff bss k + p))"
proof (induction k arbitrary: t p)
  case 0
  have rep: "two_rep bf t ies bss" and k: "0 < length bss" and idx: "child_at xat (ti_index t) ies 0"
    and d: "child_at dat (ti_data t) (bss ! 0) (last_before (bss ! 0) p)"
    using 0(1) by (simp_all add: in_block_def)
  show ?case
  proof (cases p)
    case (Suc q)
    then show ?thesis using Skip_done [OF 0(1)] 0(2) by (auto simp: last_before_def boff_simps)
  next
    case p: 0
    have v: "\<not> iw_valid (ti_data t)" "iw_valid (ti_index t)"
      using d idx k p two_repD(4) [OF rep] by (auto simp: child_at_def last_before_def)
    have step: "SkipEmptyDataBlocksBackward xops dops bf t =
        Option.bind (on_index (iw_Prev xops) t) (\<lambda>t. Option.bind (InitDataBlock xops dops bf t) (\<lambda>t.
        Option.bind (on_data (iw_SeekToLast dops) t) (SkipEmptyDataBlocksBackward xops dops bf)))"
      using v by (subst SkipEmptyDataBlocksBackward.simps) simp
    obtain x where x: "iw_Prev xops (ti_index t) = Some x" "child_at xat x ies (length bss)"
      using index.child_moves(5) [OF idx] k two_repD(4) [OF rep] by (auto simp: last_before_def)
    obtain t' where "SkipEmptyDataBlocksBackward xops dops bf t = SkipEmptyDataBlocksBackward xops dops bf t'"
      "at_end bf t' ies bss"
      using enter_end [of bf t ies bss "iw_Prev xops" x "iw_SeekToLast dops"
          "SkipEmptyDataBlocksBackward xops dops bf", OF rep x]
      unfolding step by blast
    then show ?thesis using Skip_end(2) p by (metis boff_simps(1) last_before_def add.right_neutral)
  qed
next
  case (Suc k)
  have rep: "two_rep bf t ies bss" and k: "Suc k < length bss" and idx: "child_at xat (ti_index t) ies (Suc k)"
    and d: "child_at dat (ti_data t) (bss ! Suc k) (last_before (bss ! Suc k) p)"
    using Suc.prems(1) by (simp_all add: in_block_def)
  show ?case
  proof (cases p)
    case (Suc q)
    then show ?thesis using Skip_done [OF Suc.prems(1)] Suc.prems(2) by (auto simp: last_before_def)
  next
    case p: 0
    have v: "\<not> iw_valid (ti_data t)" "iw_valid (ti_index t)"
      using d idx k p two_repD(4) [OF rep] by (auto simp: child_at_def last_before_def)
    have step: "SkipEmptyDataBlocksBackward xops dops bf t =
        Option.bind (on_index (iw_Prev xops) t) (\<lambda>t. Option.bind (InitDataBlock xops dops bf t) (\<lambda>t.
        Option.bind (on_data (iw_SeekToLast dops) t) (SkipEmptyDataBlocksBackward xops dops bf)))"
      using v by (subst SkipEmptyDataBlocksBackward.simps) simp
    obtain x where x: "iw_Prev xops (ti_index t) = Some x" "child_at xat x ies k"
      using index.child_moves(5) [OF idx] k two_repD(4) [OF rep] by (auto simp: last_before_def)
    have last: "last_before (bss ! k) (length (bss ! k)) = length (bss ! k) - 1" by (simp add: last_before_def)
    obtain t' where t': "SkipEmptyDataBlocksBackward xops dops bf t = SkipEmptyDataBlocksBackward xops dops bf t'"
      "in_block bf t' ies bss k (last_before (bss ! k) (length (bss ! k)))"
      using enter_block [of bf t ies bss "iw_Prev xops" x k "iw_SeekToLast dops" "length (bss ! k) - 1"
          "SkipEmptyDataBlocksBackward xops dops bf", OF rep x Suc_lessD [OF k] dlast]
      unfolding step last by blast
    have "boff bss k + length (bss ! k) = boff bss (Suc k) + p" using boff_simps(2) [of k bss] k p by simp
    then show ?thesis using Suc.IH [OF t'(2) order.refl] t'(1) by simp
  qed
qed

text \<open>The target's block is the first whose separator is not before it.\<close>

lemma first_ge_concat:
  assumes sep: "separated c ies bss" and srt: "sorted_entries c valid ies" "sorted_entries c valid (concat bss)"
    and t: "valid t"
  shows "k = first_ge c ies t \<Longrightarrow> k < length bss \<Longrightarrow>
      first_ge c (concat bss) t = boff bss k + first_ge c (bss ! k) t"
    "first_ge c ies t = length bss \<Longrightarrow> first_ge c (concat bss) t = length (concat bss)"
proof -
  let ?P = "\<lambda>e. Compare c (fst e) t < 0"
  have len: "length ies = length bss" using sep by (simp add: separated_def)
  have vi: "valid (fst (ies ! j))" if "j < length bss" for j using srt(1) that len by (simp add: sorted_entries_def)
  have vb: "valid (fst e)" if "j < length bss" "e \<in> set (bss ! j)" for j e
    using srt(2) that by (force simp: sorted_entries_def)
  have before: "?P e" if j: "j < first_ge c ies t" "j < length bss" and e: "e \<in> set (bss ! j)" for j e
  proof -
    have "?P (ies ! j)" using nth_mem [of j "takeWhile ?P ies"] takeWhile_nth [of j ?P ies] j(1)
      by (auto simp: first_ge_def dest!: set_takeWhileD)
    moreover have "Compare c (fst e) (fst (ies ! j)) \<le> 0" using sep j(2) e by (simp add: separated_def)
    ultimately show ?thesis using index.le_lt_trans [OF vb [OF j(2) e] vi [OF j(2)] t] by blast
  qed
  have all: "\<forall>e \<in> set (concat (take k bss)). ?P e" if "k \<le> first_ge c ies t" "k \<le> length bss" for k
  proof
    fix e assume "e \<in> set (concat (take k bss))"
    then obtain b where b: "b \<in> set (take k bss)" "e \<in> set b" by auto
    then obtain j where "j < length (take k bss)" "b = take k bss ! j" by (metis in_set_conv_nth)
    then show "?P e" using before [of j e] that b(2) by simp
  qed
  show "first_ge c (concat bss) t = length (concat bss)" if "first_ge c ies t = length bss"
  proof -
    have "\<forall>e \<in> set (concat bss). ?P e" using all [of "length bss"] that by simp
    then have "takeWhile ?P (concat bss) = concat bss" unfolding takeWhile_eq_all_conv .
    then show ?thesis by (simp only: first_ge_def)
  qed
  assume k: "k = first_ge c ies t" "k < length bss"
  have "\<not> ?P (ies ! k)" using nth_length_takeWhile [of ?P ies] k len by (simp add: first_ge_def)
  then have tk: "Compare c t (fst (ies ! k)) \<le> 0" using index.ge_iff_le [OF t vi [OF k(2)]] by simp
  have later: "\<not> ?P e" if "j < length bss" "k < j" "e \<in> set (bss ! j)" for j e
  proof -
    have "Compare c (fst (ies ! k)) (fst e) < 0" using sep that k(2) by (simp add: separated_def)
    from index.le_lt_trans [OF t vi [OF k(2)] vb [OF that(1,3)] tk this]
    show ?thesis using index.gt_iff_lt [OF t vb [OF that(1,3)]] by simp
  qed
  have e: "concat bss = concat (take k bss) @ bss ! k @ concat (drop (Suc k) bss)"
    using k(2) by (metis concat.simps(2) concat_append id_take_nth_drop)
  have "takeWhile ?P (concat (drop (Suc k) bss)) = []"
  proof (cases "concat (drop (Suc k) bss)")
    case Nil
    then show ?thesis by (simp only: takeWhile.simps)
  next
    case (Cons x xs)
    then have "x \<in> set (concat (drop (Suc k) bss))" by simp
    then obtain b where b: "b \<in> set (drop (Suc k) bss)" "x \<in> set b" by auto
    then obtain i where i: "i < length (drop (Suc k) bss)" "b = drop (Suc k) bss ! i" by (metis in_set_conv_nth)
    then have "\<not> ?P x" using later [of "Suc k + i" x] b(2) by simp
    then show ?thesis unfolding Cons by simp
  qed
  then have "takeWhile ?P (concat bss) = concat (take k bss) @ takeWhile ?P (bss ! k)"
    using all [of k] k by (subst e) (auto simp: takeWhile_append intro: takeWhile_eq_all_conv [THEN iffD2, symmetric])
  then show "first_ge c (concat bss) t = boff bss k + first_ge c (bss ! k) t"
    by (simp add: first_ge_def boff_def)
qed

lemma two_pos_rep:
  assumes "two_pos bf t ies bss i"
  obtains p where "two_rep bf t ies bss" "child_at xat (ti_index t) ies p"
  using assms by (auto simp: two_pos_def at_end_def in_block_def)

text \<open>Seeking: the index moves to block \<open>k\<close> (or to its end), the block to position \<open>q\<close>.\<close>

lemma seek_forward:
  assumes "two_rep bf t ies bss" "g (ti_index t) = Some x" "child_at xat x ies k" "k \<le> length bss"
    and "k < length bss \<Longrightarrow> (\<forall>w p. child_at dat w (bss ! k) p \<longrightarrow> (\<exists>w'. f w = Some w' \<and> child_at dat w' (bss ! k) q)) \<and>
      i = boff bss k + q"
    and "k = length bss \<Longrightarrow> i = length (concat bss)"
  shows "\<exists>t'. Option.bind (on_index g t) (\<lambda>t. Option.bind (InitDataBlock xops dops bf t) (\<lambda>t.
      Option.bind (on_data f t) (SkipEmptyDataBlocksForward xops dops bf))) = Some t' \<and> two_pos bf t' ies bss i"
proof (cases "k < length bss")
  case True
  from enter_block [of bf t ies bss g x k f q "SkipEmptyDataBlocksForward xops dops bf", OF assms(1-3) True]
  show ?thesis using assms(5) [OF True] SkipForward_pos [of bf _ ies bss k q] by auto
next
  case False
  then have "k = length bss" using assms(4) by simp
  with enter_end [of bf t ies bss g x f "SkipEmptyDataBlocksForward xops dops bf", OF assms(1,2)] assms(3,6)
  show ?thesis using Skip_end(1) [of bf _ ies bss] by auto
qed

lemma Two_Seek_pos:
  assumes "two_pos bf t ies bss i" "valid target"
  shows "\<exists>t'. Two_Seek xops dops bf target t = Some t' \<and> two_pos bf t' ies bss (first_ge c (concat bss) target)"
proof -
  obtain p where rep: "two_rep bf t ies bss" and idx: "child_at xat (ti_index t) ies p"
    by (rule two_pos_rep [OF assms(1)])
  note r = two_repD [OF rep]
  obtain x where x: "iw_Seek xops target (ti_index t) = Some x" "child_at xat x ies (first_ge c ies target)"
    using index.child_moves(3) [OF idx assms(2)] by blast
  note fc = first_ge_concat [OF r(1,3,2) assms(2)]
  show ?thesis unfolding Two_Seek_def
    by (rule seek_forward [of bf t ies bss "iw_Seek xops target" x "first_ge c ies target" "iw_Seek dops target"
          "first_ge c (bss ! first_ge c ies target) target", OF rep x])
       (use first_ge_le [of c ies target] r(4) dseek [OF assms(2)] fc in simp_all)
qed

lemma Two_SeekToFirst_pos:
  assumes "two_pos bf t ies bss i"
  shows "\<exists>t'. Two_SeekToFirst xops dops bf t = Some t' \<and> two_pos bf t' ies bss 0"
proof -
  obtain p where rep: "two_rep bf t ies bss" and idx: "child_at xat (ti_index t) ies p"
    by (rule two_pos_rep [OF assms(1)])
  obtain x where x: "iw_SeekToFirst xops (ti_index t) = Some x" "child_at xat x ies 0"
    using index.child_moves(1) [OF idx] by blast
  show ?thesis unfolding Two_SeekToFirst_def
    by (rule seek_forward [of bf t ies bss "iw_SeekToFirst xops" x 0 "iw_SeekToFirst dops" 0, OF rep x]) (use dfirst in \<open>simp_all add: boff_simps\<close>)
qed

lemma last_before_length: "last_before xs (length xs) = length xs - 1"
  by (simp add: last_before_def)

lemma Two_SeekToLast_pos:
  assumes "two_pos bf t ies bss i"
  shows "\<exists>t'. Two_SeekToLast xops dops bf t = Some t' \<and> two_pos bf t' ies bss (length (concat bss) - 1)"
proof -
  obtain p where rep: "two_rep bf t ies bss" and idx: "child_at xat (ti_index t) ies p"
    by (rule two_pos_rep [OF assms])
  note len = two_repD(4) [OF rep]
  obtain x where x: "iw_SeekToLast xops (ti_index t) = Some x" "child_at xat x ies (length bss - 1)"
    using index.child_moves(2) [OF idx] len by auto
  let ?S = "SkipEmptyDataBlocksBackward xops dops bf"
  show ?thesis
  proof (cases "bss = []")
    case True
    with enter_end [of bf t ies bss "iw_SeekToLast xops" x "iw_SeekToLast dops" ?S, OF rep x(1)] x(2)
    show ?thesis using Skip_end(2) [of bf _ ies bss] by (auto simp: Two_SeekToLast_def)
  next
    case False
    define k where "k = length bss - 1"
    have k: "k < length bss" "Suc k = length bss" using False by (simp_all add: k_def flip: length_greater_0_conv)
    note last = last_before_length [of "bss ! k"]
    obtain t' where t': "Two_SeekToLast xops dops bf t = ?S t'"
      "in_block bf t' ies bss k (last_before (bss ! k) (length (bss ! k)))"
      using enter_block [of bf t ies bss "iw_SeekToLast xops" x k "iw_SeekToLast dops" "length (bss ! k) - 1" ?S,
          OF rep x(1) x(2) [folded k_def] k(1) dlast]
      unfolding Two_SeekToLast_def last by blast
    have "boff bss k + length (bss ! k) = length (concat bss)" using boff_simps(2) [OF k(1)] boff_simps(3) [of bss] k(2) by simp
    moreover have "last_before (concat bss) (length (concat bss)) = length (concat bss) - 1"
      by (rule last_before_length)
    ultimately show ?thesis using SkipBackward_pos [OF t'(2) order.refl] t'(1) by (simp del: length_concat)
  qed
qed

lemma Two_step_pos:
  assumes "two_pos bf t ies bss i" "i < length (concat bss)"
  shows "\<exists>t'. Two_Next xops dops bf t = Some t' \<and> two_pos bf t' ies bss (Suc i)"
    "\<exists>t'. Two_Prev xops dops bf t = Some t' \<and> two_pos bf t' ies bss (last_before (concat bss) i)"
proof -
  obtain k p where b: "in_block bf t ies bss k p" and p: "p < length (bss ! k)" and i: "i = boff bss k + p"
    using assms by (auto simp: two_pos_def)
  have rep: "two_rep bf t ies bss" and k: "k < length bss" and idx: "child_at xat (ti_index t) ies k"
    and h: "ti_data_block_handle t = snd (ies ! k)" and d: "child_at dat (ti_data t) (bss ! k) p"
    using b by (simp_all add: in_block_def)
  have moved: "in_block bf (t\<lparr>ti_data := w\<rparr>) ies bss k q" if "child_at dat w (bss ! k) q" for w q
    by (rule in_blockI [OF rep k that idx]) (simp add: h)
  obtain w where w: "iw_Next dops (ti_data t) = Some w" "child_at dat w (bss ! k) (Suc p)"
    using data.child_moves(4) [OF d p] by blast
  show "\<exists>t'. Two_Next xops dops bf t = Some t' \<and> two_pos bf t' ies bss (Suc i)"
    using SkipForward_pos [OF moved [OF w(2)]] w(1) i by (simp add: Two_Next_def)
  obtain u where u: "iw_Prev dops (ti_data t) = Some u" "child_at dat u (bss ! k) (last_before (bss ! k) p)"
    using data.child_moves(5) [OF d p] by blast
  show "\<exists>t'. Two_Prev xops dops bf t = Some t' \<and> two_pos bf t' ies bss (last_before (concat bss) i)"
    using SkipBackward_pos [OF moved [OF u(2)]] u(1) i p by (simp add: Two_Prev_def)
qed

lemma two_posD:
  assumes "two_pos bf t ies bss i"
  shows "sorted_entries c valid (concat bss)" "i \<le> length (concat bss)"
    "iw_valid (ti_data t) \<longleftrightarrow> i < length (concat bss)" "ok (Two_status xops dops t)"
    "i < length (concat bss) \<Longrightarrow> iw_key (ti_data t) = fst (concat bss ! i)"
    "i < length (concat bss) \<Longrightarrow> iw_value dops (ti_data t) = Some (snd (concat bss ! i))"
proof -
  obtain p where rep: "two_rep bf t ies bss" and idx: "child_at xat (ti_index t) ies p"
    by (rule two_pos_rep [OF assms(1)])
  show "sorted_entries c valid (concat bss)" by (rule two_repD(2) [OF rep])
  have "ok (iw_status xops (ti_index t))" using idx index.at_status by (auto simp: child_at_def iw_status_def)
  then show "ok (Two_status xops dops t)" using data_status [OF rep] two_repD(5) [OF rep]
    by (cases "iw_iter (ti_data t)") (simp_all add: Two_status_def)
  from assms consider (e) "i = length (concat bss)" "at_end bf t ies bss"
    | (b) k q where "in_block bf t ies bss k q" "q < length (bss ! k)" "i = boff bss k + q"
    unfolding two_pos_def by blast
  then have *: "i \<le> length (concat bss) \<and> (iw_valid (ti_data t) \<longleftrightarrow> i < length (concat bss)) \<and>
    (i < length (concat bss) \<longrightarrow> iw_key (ti_data t) = fst (concat bss ! i) \<and>
      iw_value dops (ti_data t) = Some (snd (concat bss ! i)))"
  proof cases
    case e
    then show ?thesis using rep by (auto simp: at_end_def two_rep_def)
  next
    case b
    have k: "k < length bss" and d: "child_at dat (ti_data t) (bss ! k) q" using b(1) by (simp_all add: in_block_def)
    then show ?thesis
      using nth_concat_boff [OF k b(2)] b(2,3) data.at_value [of _ "bss ! k" q] by (auto simp: child_at_def iw_value_def)
  qed
  then show "i \<le> length (concat bss)" "iw_valid (ti_data t) \<longleftrightarrow> i < length (concat bss)" by blast+
  assume "i < length (concat bss)"
  then show "iw_key (ti_data t) = fst (concat bss ! i)" "iw_value dops (ti_data t) = Some (snd (concat bss ! i))"
    using * by blast+
qed

text \<open>A new iterator, over an index iterator that is not valid yet, is not valid.\<close>

lemma NewTwoLevelIterator_at:
  assumes "xat index_iter ies (length ies)" "separated c ies bss" "sorted_entries c valid (concat bss)"
    and "block_function_ok bf ies bss"
  shows "two_at bf (NewTwoLevelIterator xops index_iter) (concat bss) (length (concat bss))"
proof -
  let ?t = "NewTwoLevelIterator xops index_iter :: ('x, 'd) TwoLevelIterator"
  have "child_at xat (ti_index ?t) ies (length ies)"
    using assms(1) index.at_Valid [OF assms(1)]
    by (simp add: child_at_def NewTwoLevelIterator_def iw_Set_def iw_Update_def)
  then have "at_end bf ?t ies bss"
    using assms index.at_sorted [OF assms(1)]
    by (simp add: at_end_def two_rep_def NewTwoLevelIterator_def IteratorWrapper_new_def)
  then show ?thesis by (auto simp: two_at_def two_pos_def)
qed

lemma two_level_iterator: "iterator c valid (TwoLevelIterator_ops xops dops bf) (two_at bf)"
proof
  fix t es i target
  assume "two_at bf t es i"
  then obtain ies bss where es: "es = concat bss" and a: "two_pos bf t ies bss i" by (auto simp: two_at_def)
  have at: "two_at bf t' es j" if "two_pos bf t' ies bss j" for t' j using that es by (auto simp: two_at_def)
  note [simp] = TwoLevelIterator_ops_def
  show "sorted_entries c valid es" "i \<le> length es" "ok (it_status (TwoLevelIterator_ops xops dops bf) t)"
    "it_Valid (TwoLevelIterator_ops xops dops bf) t \<longleftrightarrow> i < length es"
    using two_posD [OF a] es by simp_all
  show "\<exists>t'. it_Seek (TwoLevelIterator_ops xops dops bf) target t = Some t' \<and> two_at bf t' es (first_ge c es target)"
    if "valid target" using Two_Seek_pos [OF a that] at es by auto
  show "\<exists>t'. it_SeekToFirst (TwoLevelIterator_ops xops dops bf) t = Some t' \<and> two_at bf t' es 0"
    using Two_SeekToFirst_pos [OF a] at by auto
  show "\<exists>t'. it_SeekToLast (TwoLevelIterator_ops xops dops bf) t = Some t' \<and> two_at bf t' es (length es - 1)"
    using Two_SeekToLast_pos [OF a] at es by auto
  assume i: "i < length es"
  show "it_key (TwoLevelIterator_ops xops dops bf) t = fst (es ! i)"
    "it_value (TwoLevelIterator_ops xops dops bf) t = Some (snd (es ! i))"
    using two_posD(5,6) [OF a] i es by simp_all
  show "\<exists>t'. it_Next (TwoLevelIterator_ops xops dops bf) t = Some t' \<and> two_at bf t' es (Suc i)"
    "\<exists>t'. it_Prev (TwoLevelIterator_ops xops dops bf) t = Some t' \<and> two_at bf t' es (if i = 0 then length es else i - 1)"
    using Two_step_pos [OF a] i at es by (auto simp: last_before_def)
qed

end

interpretation bytewise_two: two_level BytewiseComparator "\<lambda>_. True"
  BlockIter_ops "block_at BytewiseComparator (\<lambda>_. True)" BlockIter_ops "block_at BytewiseComparator (\<lambda>_. True)"
  by (intro two_level.intro bytewise.bi.iterator_axioms)

interpretation bytewise_two_iter: iterator BytewiseComparator "\<lambda>_. True"
  "TwoLevelIterator_ops BlockIter_ops BlockIter_ops bf" "bytewise_two.two_at bf" for bf
  by (rule bytewise_two.two_level_iterator)

subsection \<open>Properties\<close>

text \<open>
  C14: when the index keys separate the blocks, any sequence of calls on the
  two-level iterator is a walk over the concatenation of the blocks, empty blocks included:
  an index entry's block is opened through the block function exactly when it is needed, and
  \<open>Seek\<close> lands on the first entry at or past the target of all blocks.
\<close>

theorem two_level_refines:
  assumes "iterator c valid xops xat" "iterator c valid dops dat"
    and "separated c ies bss" "sorted_entries c valid (concat bss)"
    and "xat index_iter ies (length ies)"
    and "\<forall>k < length bss. \<exists>d. bf (snd (ies ! k)) = Some d \<and> (\<exists>p. dat d (bss ! k) p)"
    and "list_all (move_valid valid) ms" and "cursor_moves c (concat bss) ms (length (concat bss)) = Some i"
  shows "\<exists>t. run_moves (TwoLevelIterator_ops xops dops bf) ms (NewTwoLevelIterator xops index_iter) = Some t \<and>
    shows_position (TwoLevelIterator_ops xops dops bf) t (concat bss) i"
proof -
  have tl: "two_level c valid xops xat dops dat" by (rule two_level.intro [OF assms(1,2)])
  note it = two_level.two_level_iterator [OF tl, of bf]
  have "two_level.block_function_ok dat bf ies bss"
    unfolding two_level.block_function_ok_def [OF tl] by (rule assms(6))
  from two_level.NewTwoLevelIterator_at [OF tl assms(5,3,4) this]
  show ?thesis using iterator.run_moves_at [OF it _ assms(7,8)] iterator.at_shows [OF it] by blast
qed

theorem two_level_refines_witness:
  "\<exists>index a b t. demo_block [([1], [1]), ([4], [2])] = Iter index \<and> demo_block [([0], [10]), ([1], [11])] = Iter a \<and>
     demo_block [([3], [30])] = Iter b \<and>
     run_moves (TwoLevelIterator_ops BlockIter_ops BlockIter_ops (\<lambda>h. Some (if h = [1] then a else b)))
       [ToKey [2], Backward] (NewTwoLevelIterator BlockIter_ops index) = Some t \<and>
     shows_position (TwoLevelIterator_ops BlockIter_ops BlockIter_ops (\<lambda>h. Some (if h = [1] then a else b))) t
       [([0], [10]), ([1], [11]), ([3], [30])] 1"
proof -
  let ?is = "[([1], [1]), ([4], [2])] :: (bytes \<times> bytes) list"
  let ?xs = "[([0], [10]), ([1], [11])] :: (bytes \<times> bytes) list" and ?ys = "[([3], [30])] :: (bytes \<times> bytes) list"
  let ?c = "BytewiseComparator"
  have s: "sorted_entries ?c (\<lambda>_. True) ?is" "sorted_entries ?c (\<lambda>_. True) ?xs" "sorted_entries ?c (\<lambda>_. True) ?ys"
    "sorted_entries ?c (\<lambda>_. True) (concat [?xs, ?ys])" "separated ?c ?is [?xs, ?ys]"
    by (simp_all add: sorted_entries_def separated_def BytewiseComparator_def Slice_compare_def less_Suc_eq all_conj_distrib)
  have l: "CurrentSizeEstimate (BlockBuilder_AddAll 16 es BlockBuilder_new) < 2 ^ 32" if "es \<in> {?is, ?xs, ?ys}" for es
    using that by (auto simp: CurrentSizeEstimate_def BlockBuilder_AddAll_def BlockBuilder_new_def
        BlockBuilder_Add_def PutVarint32_def EncodeVarint32_def)
  obtain index a b where ab: "demo_block ?is = Iter index" "block_at ?c (\<lambda>_. True) index ?is (length ?is)"
    "demo_block ?xs = Iter a" "block_at ?c (\<lambda>_. True) a ?xs (length ?xs)"
    "demo_block ?ys = Iter b" "block_at ?c (\<lambda>_. True) b ?ys (length ?ys)"
    by (rule demo_block_at [OF s(1) l], simp, rule demo_block_at [OF s(2) l], simp, rule demo_block_at [OF s(3) l], simp)
  have bf: "\<forall>k < length [?xs, ?ys]. \<exists>d. (\<lambda>h. Some (if h = [1] then a else b)) (snd (?is ! k)) = Some d \<and>
      (\<exists>p. block_at ?c (\<lambda>_. True) d ([?xs, ?ys] ! k) p)"
  proof (intro allI impI)
    fix k assume "k < length [?xs, ?ys]"
    then consider "k = 0" | "k = 1" by fastforce
    then show "\<exists>d. (\<lambda>h. Some (if h = [1] then a else b)) (snd (?is ! k)) = Some d \<and>
        (\<exists>p. block_at ?c (\<lambda>_. True) d ([?xs, ?ys] ! k) p)"
      using ab(4,6) by cases auto
  qed
  have moves: "cursor_moves ?c (concat [?xs, ?ys]) [ToKey [2], Backward] (length (concat [?xs, ?ys])) = Some 1"
    by (simp add: first_ge_def BytewiseComparator_def Slice_compare_def)
  have mv: "list_all (move_valid (\<lambda>_. True)) [ToKey [2], Backward]" by simp
  have "\<exists>t. run_moves (TwoLevelIterator_ops BlockIter_ops BlockIter_ops (\<lambda>h. Some (if h = [1] then a else b)))
      [ToKey [2], Backward] (NewTwoLevelIterator BlockIter_ops index) = Some t \<and>
    shows_position (TwoLevelIterator_ops BlockIter_ops BlockIter_ops (\<lambda>h. Some (if h = [1] then a else b))) t
      (concat [?xs, ?ys]) 1"
    by (rule two_level_refines [OF bytewise.bi.iterator_axioms bytewise.bi.iterator_axioms s(5,4) ab(2) bf mv moves])
  then have "\<exists>t. run_moves (TwoLevelIterator_ops BlockIter_ops BlockIter_ops (\<lambda>h. Some (if h = [1] then a else b)))
      [ToKey [2], Backward] (NewTwoLevelIterator BlockIter_ops index) = Some t \<and>
    shows_position (TwoLevelIterator_ops BlockIter_ops BlockIter_ops (\<lambda>h. Some (if h = [1] then a else b))) t
      [([0], [10]), ([1], [11]), ([3], [30])] 1" by (simp only: concat.simps append.simps)
  with ab(1,3,5) show ?thesis by blast
qed

end
