(* ===== verification/FilterBlock.thy ===== *)
theory FilterBlock
  imports TwoLevel
begin

section \<open>Filter blocks (\<^verbatim>\<open>table/filter_block.h\<close>, \<^verbatim>\<open>table/filter_block.cc\<close>)\<close>

text \<open>
  A filter block holds one filter for every 2 KB of the table file: the filter of an index
  covers the keys of the data blocks that start in that range. The builder collects the keys
  of the current range in one flat string; the reader finds the filter of a block offset
  through the offset array at the end of the block. The main result is that the reader never
  denies a key that was added while a block at that offset was being built.
\<close>

subsection \<open>Building\<close>

definition kFilterBaseLg :: nat where "kFilterBaseLg = 11"
definition kFilterBase :: nat where "kFilterBase = 2 ^ kFilterBaseLg"

record FilterBlockBuilder =
  fbb_policy :: FilterPolicy
  fbb_keys :: bytes
  fbb_start :: "nat list"
  fbb_result :: bytes
  fbb_tmp_keys :: "bytes list"
  fbb_offsets :: "u32 list"

definition FilterBlockBuilder_new :: "FilterPolicy \<Rightarrow> FilterBlockBuilder" where
  "FilterBlockBuilder_new policy =
     \<lparr>fbb_policy = policy, fbb_keys = [], fbb_start = [], fbb_result = [], fbb_tmp_keys = [],
      fbb_offsets = []\<rparr>"

definition GenerateFilter :: "FilterBlockBuilder \<Rightarrow> FilterBlockBuilder" where
  "GenerateFilter b =
     (let num_keys = length (fbb_start b) in
      if num_keys = 0
      then b\<lparr>fbb_offsets := fbb_offsets b @ [word_of_nat (length (fbb_result b))]\<rparr>
      else
        (let start = fbb_start b @ [length (fbb_keys b)];
             tmp_keys = map (\<lambda>i. take (start ! (i + 1) - start ! i) (drop (start ! i) (fbb_keys b)))
               [0..<num_keys];
             offsets = fbb_offsets b @ [word_of_nat (length (fbb_result b))];
             result = CreateFilter (fbb_policy b) tmp_keys (fbb_result b)
         in b\<lparr>fbb_offsets := offsets, fbb_result := result, fbb_tmp_keys := [], fbb_keys := [],
              fbb_start := []\<rparr>))"

lemma length_offsets_GenerateFilter [simp]:
  "length (fbb_offsets (GenerateFilter b)) = Suc (length (fbb_offsets b))"
  by (simp add: GenerateFilter_def Let_def)

text \<open>\<open>while (filter_index > filter_offsets_.size()) GenerateFilter();\<close>\<close>

function generate_until :: "nat \<Rightarrow> FilterBlockBuilder \<Rightarrow> FilterBlockBuilder" where
  "generate_until filter_index b =
     (if filter_index > length (fbb_offsets b) then generate_until filter_index (GenerateFilter b) else b)"
  by pat_completeness auto
termination by (relation "measure (\<lambda>(i, b). i - length (fbb_offsets b))") auto

declare generate_until.simps [simp del]

definition StartBlock :: "u64 \<Rightarrow> FilterBlockBuilder \<Rightarrow> FilterBlockBuilder" where
  "StartBlock off b =
     (let filter_index = unat off div kFilterBase in generate_until filter_index b)"

definition AddKey :: "bytes \<Rightarrow> FilterBlockBuilder \<Rightarrow> FilterBlockBuilder" where
  "AddKey key b = b\<lparr>fbb_start := fbb_start b @ [length (fbb_keys b)], fbb_keys := fbb_keys b @ key\<rparr>"

definition FilterBlock_Finish :: "FilterBlockBuilder \<Rightarrow> bytes \<times> FilterBlockBuilder" where
  "FilterBlock_Finish b =
     (let b = (if fbb_start b \<noteq> [] then GenerateFilter b else b);
          array_offset = word_of_nat (length (fbb_result b));
          result = foldl PutFixed32 (fbb_result b) (fbb_offsets b);
          result = PutFixed32 result array_offset;
          result = result @ [word_of_nat kFilterBaseLg]
      in (result, b\<lparr>fbb_result := result\<rparr>))"

subsection \<open>Reading\<close>

text \<open>
  \<open>fbr_offset\<close> is the block from the pointer \<open>offset_\<close> on, so that \<open>offset_ - data_\<close> is the
  difference of the lengths. The last byte is a plain \<open>char\<close>, sign extended into a \<open>size_t\<close>.
  A shift by 64 or more is undefined in the code; here it gives index 0.
\<close>

record FilterBlockReader =
  fbr_policy :: FilterPolicy
  fbr_data :: bytes
  fbr_offset :: bytes
  fbr_num :: nat
  fbr_base_lg :: nat

definition FilterBlockReader_new :: "FilterPolicy \<Rightarrow> bytes \<Rightarrow> FilterBlockReader" where
  "FilterBlockReader_new policy contents =
     (let r = \<lparr>fbr_policy = policy, fbr_data = [], fbr_offset = [], fbr_num = 0, fbr_base_lg = 0\<rparr>;
          n = length contents
      in if n < 5 then r
         else
           (let r = r\<lparr>fbr_base_lg := unat (scast (contents ! (n - 1)) :: u64)\<rparr>;
                last_word = unat (DecodeFixed32 (drop (n - 5) contents))
            in if last_word > n - 5 then r
               else r\<lparr>fbr_data := contents, fbr_offset := drop last_word contents,
                      fbr_num := (n - 5 - last_word) div 4\<rparr>))"

definition FilterBlockReader_KeyMayMatch :: "u64 \<Rightarrow> bytes \<Rightarrow> FilterBlockReader \<Rightarrow> bool" where
  "FilterBlockReader_KeyMayMatch off key r =
     (let index = unat (drop_bit (fbr_base_lg r) off) in
      if index < fbr_num r then
        (let start = unat (DecodeFixed32 (drop (index * 4) (fbr_offset r)));
             limit = unat (DecodeFixed32 (drop (index * 4 + 4) (fbr_offset r)))
         in if start \<le> limit \<and> limit \<le> length (fbr_data r) - length (fbr_offset r)
            then KeyMayMatch (fbr_policy r) key (take (limit - start) (drop start (fbr_data r)))
            else if start = limit then False else True)
      else True)"

subsection \<open>The invariant of the builder\<close>

text \<open>
  \<open>parts\<close> are the filters generated so far, \<open>ks\<close> the keys waiting for the next one, and \<open>hist\<close>
  the keys added so far, each with the offset of its block: a key is covered by the filter of
  its index, or waits for it.
\<close>

definition filter_rep :: "FilterBlockBuilder \<Rightarrow> bytes list \<Rightarrow> bytes list \<Rightarrow> bool" where
  "filter_rep b parts ks \<longleftrightarrow> fbb_result b = concat parts \<and>
     fbb_offsets b = map (\<lambda>i. word_of_nat (boff parts i)) [0..<length parts] \<and>
     fbb_keys b = concat ks \<and> fbb_start b = map (boff ks) [0..<length ks]"

definition filter_covers ::
    "FilterPolicy \<Rightarrow> bytes list \<Rightarrow> bytes list \<Rightarrow> (u64 \<times> bytes) list \<Rightarrow> bool" where
  "filter_covers p parts ks hist \<longleftrightarrow> (\<forall>(off, k) \<in> set hist. let i = unat off div kFilterBase in
     i < length parts \<and> KeyMayMatch p k (parts ! i) \<or> i = length parts \<and> k \<in> set ks)"

definition filter_inv ::
    "FilterPolicy \<Rightarrow> (bytes \<Rightarrow> bool) \<Rightarrow> FilterBlockBuilder \<Rightarrow> (u64 \<times> bytes) list \<Rightarrow> bool" where
  "filter_inv p valid b hist \<longleftrightarrow> fbb_policy b = p \<and>
     (\<exists>parts ks. filter_rep b parts ks \<and> list_all valid ks \<and> filter_covers p parts ks hist)"

lemma boff_snoc:
  "i \<le> length xss \<Longrightarrow> boff (xss @ [xs]) i = boff xss i"
  "boff (xss @ [xs]) (Suc (length xss)) = boff xss (length xss) + length xs"
  by (simp_all add: boff_def)

lemma map_boff_snoc: "map (\<lambda>i. f (boff (xss @ [xs]) i)) [0..<Suc (length xss)] =
    map (\<lambda>i. f (boff xss i)) [0..<length xss] @ [f (length (concat xss))]"
  by (simp add: boff_snoc boff_simps cong: map_cong)

text \<open>The part of a concatenation between two consecutive offsets.\<close>

lemma concat_slice:
  assumes "i < length xss"
  shows "take (boff xss (Suc i) - boff xss i) (drop (boff xss i) (concat xss @ ys)) = xss ! i"
    "boff xss i \<le> boff xss (Suc i)" "boff xss (Suc i) \<le> length (concat xss)"
proof -
  have e: "concat xss = concat (take i xss) @ xss ! i @ concat (drop (Suc i) xss)"
    using assms by (metis concat.simps(2) concat_append id_take_nth_drop)
  have n: "boff xss (Suc i) = boff xss i + length (xss ! i)" using assms by (simp add: boff_simps)
  show "take (boff xss (Suc i) - boff xss i) (drop (boff xss i) (concat xss @ ys)) = xss ! i"
    unfolding n by (subst e) (simp add: boff_def)
  show "boff xss i \<le> boff xss (Suc i)" using n by simp
  show "boff xss (Suc i) \<le> length (concat xss)"
    unfolding n by (subst e) (simp add: boff_def)
qed

lemma flat_keys:
  "map (\<lambda>i. take (s ! Suc i - s ! i) (drop (s ! i) (concat ks))) [0..<length ks] = ks"
  if "s = map (boff ks) [0..<length ks] @ [length (concat ks)]"
proof (rule nth_equalityI)
  have s: "s = map (boff ks) [0..<Suc (length ks)]" using that by (simp add: boff_simps)
  fix i assume "i < length (map (\<lambda>i. take (s ! Suc i - s ! i) (drop (s ! i) (concat ks))) [0..<length ks])"
  then have i: "i < length ks" by simp
  then have "s ! i = boff ks i" "s ! Suc i = boff ks (Suc i)"
    unfolding s by (simp_all del: upt_Suc)
  then show "map (\<lambda>i. take (s ! Suc i - s ! i) (drop (s ! i) (concat ks))) [0..<length ks] ! i = ks ! i"
    using i concat_slice(1) [OF i, of "[]"] by simp
qed simp

lemma filter_rep_new: "filter_rep (FilterBlockBuilder_new p) [] []"
  by (simp add: filter_rep_def FilterBlockBuilder_new_def)

lemma filter_inv_new: "filter_inv p valid (FilterBlockBuilder_new p) []"
  using filter_rep_new unfolding filter_inv_def filter_covers_def
  by (force simp: FilterBlockBuilder_new_def)

context filter_policy
begin

lemma GenerateFilter_rep:
  assumes "filter_rep b parts ks" "list_all valid ks" "fbb_policy b = p"
  shows "\<exists>f. filter_rep (GenerateFilter b) (parts @ [f]) [] \<and> fbb_policy (GenerateFilter b) = p \<and>
    (\<forall>k \<in> set ks. KeyMayMatch p k f)"
proof (cases "ks = []")
  case True
  then have "filter_rep (GenerateFilter b) (parts @ [[]]) []"
    using assms(1) by (simp add: filter_rep_def GenerateFilter_def map_boff_snoc del: upt_Suc)
  then show ?thesis using True assms(1,3)
    by (intro exI [of _ "[]"]) (simp add: filter_rep_def GenerateFilter_def)
next
  case False
  obtain f where f: "CreateFilter p ks (concat parts) = concat parts @ f"
    and m: "\<And>k. k \<in> set ks \<Longrightarrow> KeyMayMatch p k f"
    using create_split [OF assms(2), of "concat parts"] by blast
  note r = assms(1) [unfolded filter_rep_def]
  have ne: "length ks \<noteq> 0" using False by simp
  have g: "GenerateFilter b = b\<lparr>fbb_offsets := fbb_offsets b @ [word_of_nat (length (concat parts))],
      fbb_result := concat parts @ f, fbb_tmp_keys := [], fbb_keys := [], fbb_start := []\<rparr>"
    using r ne unfolding GenerateFilter_def Let_def by (simp add: flat_keys [OF refl] assms(3) f)
  have "filter_rep (GenerateFilter b) (parts @ [f]) []"
    using r by (simp add: filter_rep_def g map_boff_snoc del: upt_Suc)
  then show ?thesis using m assms(3) by (auto simp: g)
qed

lemma GenerateFilter_inv:
  assumes "filter_inv p valid b hist"
  shows "filter_inv p valid (GenerateFilter b) hist"
proof -
  from assms obtain parts ks where r: "filter_rep b parts ks" "list_all valid ks" "fbb_policy b = p"
    and c: "filter_covers p parts ks hist" by (auto simp: filter_inv_def)
  obtain f where f: "filter_rep (GenerateFilter b) (parts @ [f]) []" "fbb_policy (GenerateFilter b) = p"
    "\<forall>k \<in> set ks. KeyMayMatch p k f" using GenerateFilter_rep [OF r] by blast
  have "filter_covers p (parts @ [f]) [] hist"
    using c f(3) by (fastforce simp: filter_covers_def Let_def nth_append)
  then show ?thesis using f(1,2) unfolding filter_inv_def by (metis list.pred_inject(1))
qed

lemma StartBlock_inv:
  assumes "filter_inv p valid b hist" "length (fbb_offsets b) \<le> unat off div kFilterBase"
  shows "filter_inv p valid (StartBlock off b) hist"
    "length (fbb_offsets (StartBlock off b)) = unat off div kFilterBase"
proof -
  have "filter_inv p valid (generate_until n b) hist \<and> length (fbb_offsets (generate_until n b)) = n"
    if "filter_inv p valid b hist" "length (fbb_offsets b) \<le> n" for n
    using that
  proof (induction n b rule: generate_until.induct)
    case (1 n b)
    then show ?case using GenerateFilter_inv [OF "1.prems"(1)]
      by (subst (1 2) generate_until.simps) auto
  qed
  then show "filter_inv p valid (StartBlock off b) hist"
    "length (fbb_offsets (StartBlock off b)) = unat off div kFilterBase"
    using assms by (simp_all add: StartBlock_def Let_def)
qed

lemma AddKey_inv:
  assumes "filter_inv p valid b hist" "length (fbb_offsets b) = unat off div kFilterBase" "valid k"
  shows "filter_inv p valid (AddKey k b) (hist @ [(off, k)])"
    "fbb_offsets (AddKey k b) = fbb_offsets b"
proof -
  from assms(1) obtain parts ks where r: "filter_rep b parts ks" "list_all valid ks" "fbb_policy b = p"
    and c: "filter_covers p parts ks hist" by (auto simp: filter_inv_def)
  have "filter_rep (AddKey k b) parts (ks @ [k])"
    using r(1) map_boff_snoc [of "\<lambda>x. x" ks k] by (simp add: filter_rep_def AddKey_def del: upt_Suc)
  moreover have "filter_covers p parts (ks @ [k]) (hist @ [(off, k)])"
    using c assms(2) r(1) by (fastforce simp: filter_covers_def Let_def filter_rep_def)
  moreover have "list_all valid (ks @ [k])" using r(2) assms(3) by simp
  ultimately show "filter_inv p valid (AddKey k b) (hist @ [(off, k)])"
    using r(3) unfolding filter_inv_def
    by (intro conjI exI [of _ parts] exI [of _ "ks @ [k]"]) (simp_all add: AddKey_def)
  show "fbb_offsets (AddKey k b) = fbb_offsets b" by (simp add: AddKey_def)
qed

end

subsection \<open>Reading the finished block\<close>

definition filter_bytes :: "bytes list \<Rightarrow> bytes" where
  "filter_bytes parts =
     concat parts @ concat (map EncodeFixed32 (map (\<lambda>i. word_of_nat (boff parts i)) [0..<Suc (length parts)])) @
     [word_of_nat kFilterBaseLg]"

lemma length_concat_fixed: "length (concat (map EncodeFixed32 ws)) = length ws * 4"
  by (induction ws) simp_all

lemma foldl_PutFixed32: "foldl PutFixed32 buf ws = buf @ concat (map EncodeFixed32 ws)"
  by (induction ws arbitrary: buf) (simp_all add: PutFixed32_def)

lemma filter_rep_bytes:
  assumes "filter_rep b parts []"
  shows "fst (FilterBlock_Finish b) = filter_bytes parts"
proof -
  have "fbb_start b = []" using assms by (simp add: filter_rep_def)
  then show ?thesis
    using assms
    by (simp add: FilterBlock_Finish_def Let_def foldl_PutFixed32 PutFixed32_def filter_rep_def
        filter_bytes_def boff_simps comp_def)
qed

lemma Finish_Generate:
  "fbb_start b \<noteq> [] \<Longrightarrow> fst (FilterBlock_Finish b) = fst (FilterBlock_Finish (GenerateFilter b))"
  by (simp add: FilterBlock_Finish_def Let_def GenerateFilter_def)

lemma filter_reader:
  fixes parts :: "bytes list"
  assumes "length (concat parts) < 2 ^ 32"
  shows "FilterBlockReader_new p (filter_bytes parts) =
    \<lparr>fbr_policy = p, fbr_data = filter_bytes parts, fbr_offset = drop (length (concat parts)) (filter_bytes parts),
     fbr_num = length parts, fbr_base_lg = 11\<rparr>"
proof -
  let ?F = "map (\<lambda>i. word_of_nat (boff parts i)) [0..<Suc (length parts)] :: u32 list"
  have len: "length (filter_bytes parts) = length (concat parts) + length parts * 4 + 5"
    by (simp add: filter_bytes_def length_concat_fixed del: upt_Suc map_map)
  have n5: "length (filter_bytes parts) - 5 = length (concat parts) + length parts * 4" using len by simp
  have "concat (map EncodeFixed32 ?F) =
      concat (map EncodeFixed32 (map (\<lambda>i. word_of_nat (boff parts i)) [0..<length parts])) @
      EncodeFixed32 (word_of_nat (length (concat parts)))"
    by (simp add: boff_simps)
  then have "drop (length (concat parts) + length parts * 4) (filter_bytes parts) =
      EncodeFixed32 (word_of_nat (length (concat parts))) @ [word_of_nat kFilterBaseLg]"
    unfolding filter_bytes_def
    using length_concat_fixed [of "map (\<lambda>i. word_of_nat (boff parts i)) [0..<length parts]"]
    by (simp del: upt_Suc map_map)
  then have lw: "unat (DecodeFixed32 (drop (length (filter_bytes parts) - 5) (filter_bytes parts))) =
      length (concat parts)"
    unfolding n5 using unat_of_nat_u32 [OF assms] by simp
  have "filter_bytes parts ! (length (filter_bytes parts) - 1) = word_of_nat kFilterBaseLg"
    by (simp add: filter_bytes_def last_conv_nth [symmetric] del: upt_Suc)
  then have lg: "unat (scast (filter_bytes parts ! (length (filter_bytes parts) - 1)) :: u64) = 11"
    using small_char_to_size_t [of kFilterBaseLg] by (simp add: kFilterBaseLg_def)
  show ?thesis
    unfolding FilterBlockReader_new_def Let_def lw lg using len by simp
qed

lemma filter_lookup:
  fixes parts :: "bytes list"
  assumes small: "length (filter_bytes parts) < 2 ^ 32"
    and i: "unat off div kFilterBase < length parts" and m: "KeyMayMatch p k (parts ! (unat off div kFilterBase))"
  shows "FilterBlockReader_KeyMayMatch off k (FilterBlockReader_new p (filter_bytes parts))"
proof -
  let ?i = "unat off div kFilterBase"
  let ?F = "map (\<lambda>i. word_of_nat (boff parts i)) [0..<Suc (length parts)] :: u32 list"
  let ?d = "filter_bytes parts"
  have lc: "length (concat parts) \<le> length ?d" by (simp add: filter_bytes_def del: upt_Suc)
  have sm: "length (concat parts) < 2 ^ 32" using lc small by linarith
  have off: "drop (length (concat parts)) ?d = concat (map EncodeFixed32 ?F) @ [word_of_nat kFilterBaseLg]"
    by (simp add: filter_bytes_def del: upt_Suc)
  have word: "unat (DecodeFixed32 (drop (j * 4) (drop (length (concat parts)) ?d))) = boff parts j"
    if "j \<le> length parts" for j
  proof -
    have "j < length ?F" using that by (simp only: length_map length_upt)
    then obtain rest where "drop (j * 4) (concat (map EncodeFixed32 ?F) @ [word_of_nat kFilterBaseLg]) =
        EncodeFixed32 (?F ! j) @ rest"
      using drop_concat_fixed [of j ?F "[word_of_nat kFilterBaseLg]"] by blast
    moreover have "?F ! j = word_of_nat (boff parts j)"
      using that by (simp add: less_Suc_eq_le del: upt_Suc)
    moreover have "boff parts j < 2 ^ 32"
    proof (cases "j < length parts")
      case True
      show ?thesis using concat_slice(2,3) [OF True] sm by linarith
    next
      case False
      then have "j = length parts" using that by simp
      then show ?thesis using sm by (simp add: boff_simps)
    qed
    ultimately show ?thesis unfolding off using unat_of_nat_u32 by simp
  qed
  have shift: "unat (drop_bit 11 off) = ?i" by (simp add: unat_drop_bit_div kFilterBase_def kFilterBaseLg_def)
  have f: "take (boff parts (Suc ?i) - boff parts ?i) (drop (boff parts ?i) ?d) = parts ! ?i"
    unfolding filter_bytes_def by (rule concat_slice(1) [OF i])
  have w2: "unat (DecodeFixed32 (drop (?i * 4 + 4) (drop (length (concat parts)) ?d))) = boff parts (Suc ?i)"
    using word [of "Suc ?i"] i by (simp add: add.commute)
  show ?thesis
    unfolding FilterBlockReader_KeyMayMatch_def filter_reader [OF sm] FilterBlockReader.simps Let_def shift
      word [OF less_imp_le [OF i]] w2 f
    using i m concat_slice(2,3) [OF i] lc by simp
qed

context filter_policy
begin

text \<open>The reader of the finished block admits every key that was added.\<close>

lemma FilterBlock_Finish_reader:
  assumes inv: "filter_inv p valid b hist" and small: "length (fst (FilterBlock_Finish b)) < 2 ^ 32"
    and "(off, k) \<in> set hist"
  shows "FilterBlockReader_KeyMayMatch off k (FilterBlockReader_new p (fst (FilterBlock_Finish b)))"
proof -
  from inv obtain parts ks where r: "filter_rep b parts ks" "list_all valid ks" "fbb_policy b = p"
    and c: "filter_covers p parts ks hist" by (auto simp: filter_inv_def)
  obtain parts' where p: "filter_rep (if ks = [] then b else GenerateFilter b) parts' []"
    "filter_covers p parts' [] hist"
  proof (cases "ks = []")
    case False
    obtain f where f: "filter_rep (GenerateFilter b) (parts @ [f]) []" "\<forall>k \<in> set ks. KeyMayMatch p k f"
      using GenerateFilter_rep [OF r] by blast
    have "filter_covers p (parts @ [f]) [] hist"
      using c f(2) by (fastforce simp: filter_covers_def Let_def nth_append)
    then show ?thesis using that [of "parts @ [f]"] f(1) False by simp
  qed (use r c that in auto)
  have "fbb_start b = [] \<longleftrightarrow> ks = []" using r(1) by (simp add: filter_rep_def)
  then have "fst (FilterBlock_Finish b) = filter_bytes parts'"
    using filter_rep_bytes [OF p(1)] Finish_Generate [of b] by (auto split: if_splits)
  moreover have "unat off div kFilterBase < length parts' \<and> KeyMayMatch p k (parts' ! (unat off div kFilterBase))"
    using p(2) assms(3) by (fastforce simp: filter_covers_def Let_def)
  ultimately show ?thesis using filter_lookup [of parts' off p k] small by simp
qed

end

subsection \<open>Properties\<close>

text \<open>The filter block of a sequence of data blocks, each with its offset and its keys.\<close>

definition add_block :: "u64 \<times> bytes list \<Rightarrow> FilterBlockBuilder \<Rightarrow> FilterBlockBuilder" where
  "add_block ob b = fold AddKey (snd ob) (StartBlock (fst ob) b)"

definition filter_block_of :: "FilterPolicy \<Rightarrow> (u64 \<times> bytes list) list \<Rightarrow> bytes" where
  "filter_block_of p blocks = fst (FilterBlock_Finish (fold add_block blocks (FilterBlockBuilder_new p)))"

definition block_keys :: "u64 \<times> bytes list \<Rightarrow> (u64 \<times> bytes) list" where
  "block_keys ob = map (Pair (fst ob)) (snd ob)"

context filter_policy
begin

lemma add_keys_inv:
  "filter_inv p valid b hist \<Longrightarrow> length (fbb_offsets b) = unat off div kFilterBase \<Longrightarrow> list_all valid ks \<Longrightarrow>
   filter_inv p valid (fold AddKey ks b) (hist @ map (Pair off) ks) \<and>
   length (fbb_offsets (fold AddKey ks b)) = unat off div kFilterBase"
proof (induction ks arbitrary: b hist)
  case (Cons k ks)
  note a = AddKey_inv [OF Cons.prems(1,2), of k]
  have "filter_inv p valid (fold AddKey ks (AddKey k b)) ((hist @ [(off, k)]) @ map (Pair off) ks) \<and>
      length (fbb_offsets (fold AddKey ks (AddKey k b))) = unat off div kFilterBase"
    by (rule Cons.IH) (use a Cons.prems in auto)
  then show ?case by simp
qed simp

lemma add_blocks_inv:
  "filter_inv p valid b hist \<Longrightarrow> sorted_wrt (\<lambda>x y. fst x \<le> fst y) blocks \<Longrightarrow>
   \<forall>ob \<in> set blocks. list_all valid (snd ob) \<and> length (fbb_offsets b) \<le> unat (fst ob) div kFilterBase \<Longrightarrow>
   filter_inv p valid (fold add_block blocks b) (hist @ concat (map block_keys blocks))"
proof (induction blocks arbitrary: b hist)
  case (Cons ob blocks)
  have le: "length (fbb_offsets b) \<le> unat (fst ob) div kFilterBase" using Cons.prems(3) by simp
  have v: "list_all valid (snd ob)" using Cons.prems(3) by simp
  have n: "filter_inv p valid (add_block ob b) (hist @ block_keys ob) \<and>
      length (fbb_offsets (add_block ob b)) = unat (fst ob) div kFilterBase"
    unfolding add_block_def block_keys_def
    by (rule add_keys_inv [OF StartBlock_inv [OF Cons.prems(1) le] v])
  have "filter_inv p valid (fold add_block blocks (add_block ob b)) ((hist @ block_keys ob) @ concat (map block_keys blocks))"
  proof (rule Cons.IH)
    show "\<forall>ob' \<in> set blocks. list_all valid (snd ob') \<and>
        length (fbb_offsets (add_block ob b)) \<le> unat (fst ob') div kFilterBase"
      using n Cons.prems(2,3) by (simp add: word_le_nat_alt div_le_mono)
  qed (use n Cons.prems(2) in auto)
  then show ?case by simp
qed simp

lemma filter_block_complete:
  assumes "sorted_wrt (\<lambda>x y. fst x \<le> fst y) blocks" "\<And>ob. ob \<in> set blocks \<Longrightarrow> list_all valid (snd ob)"
    and "length (filter_block_of p blocks) < 2 ^ 32" and "(off, ks) \<in> set blocks" "k \<in> set ks"
  shows "FilterBlockReader_KeyMayMatch off k (FilterBlockReader_new p (filter_block_of p blocks))"
proof -
  have "filter_inv p valid (fold add_block blocks (FilterBlockBuilder_new p)) ([] @ concat (map block_keys blocks))"
    by (rule add_blocks_inv [OF filter_inv_new assms(1)])
       (simp add: assms(2), simp add: FilterBlockBuilder_new_def)
  moreover have "(off, k) \<in> set ([] @ concat (map block_keys blocks))"
    using assms(4,5) by (force simp: block_keys_def)
  ultimately show ?thesis
    using FilterBlock_Finish_reader assms(3) unfolding filter_block_of_def by blast
qed

end

text \<open>
  C36: whatever the data blocks of a table are, as long as they
  are added in the order of their offsets, the filter block admits every key at the offset of
  its block, for every filter policy that keeps its contract; a block that starts in a later
  2 KB range first gets the filters of the ranges between, which are empty.
\<close>

theorem filter_block_no_false_negatives:
  assumes "sorted_wrt (\<lambda>x y. fst x \<le> fst y) blocks" and "filter_policy p valid"
    and "list_all (\<lambda>ob. list_all valid (snd ob)) blocks"
    and "length (filter_block_of p blocks) < 2 ^ 32" and "(off, ks) \<in> set blocks" and "k \<in> set ks"
  shows "FilterBlockReader_KeyMayMatch off k (FilterBlockReader_new p (filter_block_of p blocks))"
  by (rule filter_policy.filter_block_complete [OF assms(2,1) _ assms(4-6)]) (use assms(3) in \<open>simp add: list_all_iff\<close>)

theorem filter_block_no_false_negatives_witness:
  "FilterBlockReader_KeyMayMatch 5000 [9] (FilterBlockReader_new (NewBloomFilterPolicy 10)
     (filter_block_of (NewBloomFilterPolicy 10) [(0, [[1], [2]]), (2030, [[3]]), (5000, [[9]])]))"
proof (rule filter_block_no_false_negatives [where valid = "\<lambda>_. True" and ks = "[[9]]"])
  show "filter_policy (NewBloomFilterPolicy 10) (\<lambda>_. True)" by (rule bloom.filter_policy_axioms)
  have s: "fold add_block [(0, [[1], [2]]), (2030, [[3]]), (5000, [[9]])] (FilterBlockBuilder_new p) =
      AddKey [9] (GenerateFilter (GenerateFilter (AddKey [3] (AddKey [2] (AddKey [1] (FilterBlockBuilder_new p))))))" for p
    by (simp add: add_block_def StartBlock_def kFilterBase_def kFilterBaseLg_def generate_until.simps
        FilterBlockBuilder_new_def AddKey_def)
  have l: "length (CreateFilter (NewBloomFilterPolicy 10) ks dst) = length dst + bloom_bytes 10 (length ks) + 1" for ks dst
    by (simp add: NewBloomFilterPolicy_def Bloom_CreateFilter_def Let_def)
  show "length (filter_block_of (NewBloomFilterPolicy 10) [(0, [[1], [2]]), (2030, [[3]]), (5000, [[9]])]) < 2 ^ 32"
    unfolding filter_block_of_def s
    by (simp add: FilterBlock_Finish_def GenerateFilter_def AddKey_def FilterBlockBuilder_new_def l
        foldl_PutFixed32 PutFixed32_def length_concat_fixed bloom_bytes_def Let_def)
qed simp_all

end
