(* ===== verification/TableBuilder.thy ===== *)
theory TableBuilder
  imports FilterBlock
begin

section \<open>Table builder (\<^verbatim>\<open>table/table_builder.cc\<close>)\<close>

text \<open>
  The builder writes a table file: data blocks of consecutive entries, a filter block, the
  metaindex block, the index block and the footer. It is a state machine over a writable file,
  whose methods are the argument \<open>wops\<close>; the Snappy entry points are the argument \<open>snappy\<close>.
  The code's assertions (the builder is not closed, keys come in increasing order) are
  hypotheses of the lemmas. The data block and the index block hold pointers to the
  options in the builder, so the restart interval is read from there at every \<open>Add\<close>.
\<close>

record 'f TableBuilder =
  tb_options :: Options
  tb_index_block_options :: Options
  tb_file :: 'f
  tb_offset :: u64
  tb_status :: Status
  tb_data_block :: BlockBuilder
  tb_index_block :: BlockBuilder
  tb_last_key :: bytes
  tb_num_entries :: int
  tb_closed :: bool
  tb_filter_block :: "FilterBlockBuilder option"
  tb_pending_index_entry :: bool
  tb_pending_handle :: BlockHandle
  tb_compressed_output :: bytes

definition TableBuilder_new :: "Options \<Rightarrow> 'f \<Rightarrow> 'f TableBuilder" where
  "TableBuilder_new opt f =
     (let r = \<lparr>tb_options = opt, tb_index_block_options = opt\<lparr>block_restart_interval := 1\<rparr>, tb_file = f,
               tb_offset = 0, tb_status = OK, tb_data_block = BlockBuilder_new,
               tb_index_block = BlockBuilder_new, tb_last_key = [], tb_num_entries = 0,
               tb_closed = False, tb_filter_block = map_option FilterBlockBuilder_new (opt_filter_policy opt),
               tb_pending_index_entry = False, tb_pending_handle = BlockHandle_new,
               tb_compressed_output = []\<rparr>
      in r\<lparr>tb_filter_block := map_option (StartBlock 0) (tb_filter_block r)\<rparr>)"

text \<open>Comparator objects are compared by their methods, where the code compares pointers.\<close>

definition ChangeOptions :: "Options \<Rightarrow> 'f TableBuilder \<Rightarrow> Status \<times> 'f TableBuilder" where
  "ChangeOptions options r =
     (if opt_comparator options \<noteq> opt_comparator (tb_options r)
      then (InvalidArgument (ascii ''changing comparator while building table'') [], r)
      else (OK, r\<lparr>tb_options := options, tb_index_block_options := options\<lparr>block_restart_interval := 1\<rparr>\<rparr>))"

subsection \<open>Writing blocks\<close>

definition WriteRawBlock ::
    "'f WritableFile \<Rightarrow> bytes \<Rightarrow> CompressionType \<Rightarrow> 'f TableBuilder \<Rightarrow> BlockHandle \<times> 'f TableBuilder" where
  "WriteRawBlock wops block_contents type r =
     (let handle = \<lparr>bh_offset = tb_offset r, bh_size = word_of_nat (length block_contents)\<rparr>;
          (s, f) = wf_Append wops (tb_file r) block_contents;
          r = r\<lparr>tb_status := s, tb_file := f\<rparr>
      in if ok s then
           (let crc = crc32c_Value block_contents;
                crc = crc32c_Extend crc [compression_byte type];
                trailer = [compression_byte type] @ EncodeFixed32 (crc32c_Mask crc);
                (s, f) = wf_Append wops (tb_file r) trailer;
                r = r\<lparr>tb_status := s, tb_file := f\<rparr>
            in if ok s
               then (handle, r\<lparr>tb_offset := tb_offset r + word_of_nat (length block_contents + kBlockTrailerSize)\<rparr>)
               else (handle, r))
         else (handle, r))"

text \<open>The block builder is the argument; it comes back reset, with the handle.\<close>

definition WriteBlock ::
    "'f WritableFile \<Rightarrow> Snappy \<Rightarrow> BlockBuilder \<Rightarrow> 'f TableBuilder \<Rightarrow>
     BlockBuilder \<times> BlockHandle \<times> 'f TableBuilder" where
  "WriteBlock wops snappy block r =
     (let (raw, block) = BlockBuilder_Finish block;
          (block_contents, type, r) =
            (case compression (tb_options r) of
               kNoCompression \<Rightarrow> (raw, kNoCompression, r)
             | kSnappyCompression \<Rightarrow>
                 (case Snappy_Compress snappy raw of
                    Some compressed \<Rightarrow>
                      (let r = r\<lparr>tb_compressed_output := compressed\<rparr> in
                       if length compressed < length raw - length raw div 8
                       then (compressed, kSnappyCompression, r)
                       else (raw, kNoCompression, r))
                  | None \<Rightarrow> (raw, kNoCompression, r)));
          (handle, r) = WriteRawBlock wops block_contents type r
      in (BlockBuilder_Reset block, handle, r\<lparr>tb_compressed_output := []\<rparr>))"

definition TableBuilder_Flush :: "'f WritableFile \<Rightarrow> Snappy \<Rightarrow> 'f TableBuilder \<Rightarrow> 'f TableBuilder" where
  "TableBuilder_Flush wops snappy r =
     (if \<not> ok (tb_status r) then r
      else if BlockBuilder_empty (tb_data_block r) then r
      else
        (let (data_block, handle, r) = WriteBlock wops snappy (tb_data_block r) r;
             r = r\<lparr>tb_data_block := data_block, tb_pending_handle := handle\<rparr>;
             r = (if ok (tb_status r)
                  then (let (s, f) = wf_Flush wops (tb_file r)
                        in r\<lparr>tb_pending_index_entry := True, tb_status := s, tb_file := f\<rparr>)
                  else r)
         in r\<lparr>tb_filter_block := map_option (StartBlock (tb_offset r)) (tb_filter_block r)\<rparr>))"

subsection \<open>Adding entries\<close>

definition add_index_entry :: "'f TableBuilder \<Rightarrow> 'f TableBuilder" where
  "add_index_entry r =
     (let handle_encoding = BlockHandle_EncodeTo (tb_pending_handle r) []
      in r\<lparr>tb_index_block := BlockBuilder_Add (block_restart_interval (tb_index_block_options r))
              (tb_last_key r) handle_encoding (tb_index_block r),
           tb_pending_index_entry := False\<rparr>)"

text \<open>What \<open>Add\<close> does before it decides whether to flush.\<close>

definition add_entry :: "bytes \<Rightarrow> bytes \<Rightarrow> 'f TableBuilder \<Rightarrow> 'f TableBuilder" where
  "add_entry key value r =
     (let r = (if tb_pending_index_entry r
               then add_index_entry (r\<lparr>tb_last_key :=
                 FindShortestSeparator (opt_comparator (tb_options r)) (tb_last_key r) key\<rparr>)
               else r);
          r = r\<lparr>tb_filter_block := map_option (AddKey key) (tb_filter_block r)\<rparr>
      in r\<lparr>tb_last_key := key, tb_num_entries := tb_num_entries r + 1,
           tb_data_block := BlockBuilder_Add (block_restart_interval (tb_options r)) key value (tb_data_block r)\<rparr>)"

definition TableBuilder_Add ::
    "'f WritableFile \<Rightarrow> Snappy \<Rightarrow> bytes \<Rightarrow> bytes \<Rightarrow> 'f TableBuilder \<Rightarrow> 'f TableBuilder" where
  "TableBuilder_Add wops snappy key value r =
     (if \<not> ok (tb_status r) then r
      else
        (let r = add_entry key value r;
             estimated_block_size = CurrentSizeEstimate (tb_data_block r)
         in if estimated_block_size \<ge> block_size (tb_options r) then TableBuilder_Flush wops snappy r else r))"

subsection \<open>Finishing\<close>

definition Finish_filter :: "'f WritableFile \<Rightarrow> 'f TableBuilder \<Rightarrow> BlockHandle \<times> 'f TableBuilder" where
  "Finish_filter wops r =
     (case tb_filter_block r of
        None \<Rightarrow> (BlockHandle_new, r)
      | Some fb \<Rightarrow>
          if ok (tb_status r) then
            (let (contents, fb) = FilterBlock_Finish fb
             in WriteRawBlock wops contents kNoCompression (r\<lparr>tb_filter_block := Some fb\<rparr>))
          else (BlockHandle_new, r))"

text \<open>\<open>None\<close> when there is a filter block but the options have no filter policy any more: the
  code then calls \<open>Name()\<close> through a null pointer.\<close>

definition meta_index_contents ::
    "BlockHandle \<Rightarrow> 'f TableBuilder \<Rightarrow> BlockBuilder option" where
  "meta_index_contents filter_block_handle r =
     (if tb_filter_block r \<noteq> None
      then map_option (\<lambda>p. BlockBuilder_Add (block_restart_interval (tb_options r)) (ascii ''filter.'' @ ascii (fp_Name p))
             (BlockHandle_EncodeTo filter_block_handle []) BlockBuilder_new) (opt_filter_policy (tb_options r))
      else Some BlockBuilder_new)"

definition Finish_metaindex ::
    "'f WritableFile \<Rightarrow> Snappy \<Rightarrow> BlockHandle \<Rightarrow> 'f TableBuilder \<Rightarrow> (BlockHandle \<times> 'f TableBuilder) option" where
  "Finish_metaindex wops snappy filter_block_handle r =
     (if ok (tb_status r)
      then map_option (\<lambda>meta_index_block. snd (WriteBlock wops snappy meta_index_block r))
             (meta_index_contents filter_block_handle r)
      else Some (BlockHandle_new, r))"

definition Finish_index ::
    "'f WritableFile \<Rightarrow> Snappy \<Rightarrow> 'f TableBuilder \<Rightarrow> BlockHandle \<times> 'f TableBuilder" where
  "Finish_index wops snappy r =
     (if ok (tb_status r) then
        (let r = (if tb_pending_index_entry r
                  then add_index_entry (r\<lparr>tb_last_key :=
                    FindShortSuccessor (opt_comparator (tb_options r)) (tb_last_key r)\<rparr>)
                  else r);
             (index_block, handle, r) = WriteBlock wops snappy (tb_index_block r) r
         in (handle, r\<lparr>tb_index_block := index_block\<rparr>))
      else (BlockHandle_new, r))"

definition Finish_footer ::
    "'f WritableFile \<Rightarrow> BlockHandle \<Rightarrow> BlockHandle \<Rightarrow> 'f TableBuilder \<Rightarrow> 'f TableBuilder" where
  "Finish_footer wops metaindex_block_handle index_block_handle r =
     (if ok (tb_status r) then
        (let footer = \<lparr>metaindex_handle = metaindex_block_handle, index_handle = index_block_handle\<rparr>;
             footer_encoding = Footer_EncodeTo footer [];
             (s, f) = wf_Append wops (tb_file r) footer_encoding;
             r = r\<lparr>tb_status := s, tb_file := f\<rparr>
         in if ok s then r\<lparr>tb_offset := tb_offset r + word_of_nat (length footer_encoding)\<rparr> else r)
      else r)"

definition TableBuilder_Finish ::
    "'f WritableFile \<Rightarrow> Snappy \<Rightarrow> 'f TableBuilder \<Rightarrow> (Status \<times> 'f TableBuilder) option" where
  "TableBuilder_Finish wops snappy r =
     (let r = TableBuilder_Flush wops snappy r;
          r = r\<lparr>tb_closed := True\<rparr>;
          (filter_block_handle, r) = Finish_filter wops r
      in Option.bind (Finish_metaindex wops snappy filter_block_handle r) (\<lambda>(metaindex_block_handle, r).
           let (index_block_handle, r) = Finish_index wops snappy r;
               r = Finish_footer wops metaindex_block_handle index_block_handle r
           in Some (tb_status r, r)))"

definition Abandon :: "'f TableBuilder \<Rightarrow> 'f TableBuilder" where
  "Abandon r = r\<lparr>tb_closed := True\<rparr>"

definition NumEntries :: "'f TableBuilder \<Rightarrow> u64" where
  "NumEntries r = word_of_int (tb_num_entries r)"

definition FileSize :: "'f TableBuilder \<Rightarrow> u64" where
  "FileSize r = tb_offset r"

end
