(* ===== verification/TableInvariant.thy ===== *)
theory TableInvariant
  imports TableBuilder
begin

section \<open>What a table builder writes\<close>

text \<open>
  The invariant of the table builder over a writable file that does not fail: the blocks
  written so far are the contents of the file, the entries of the open data block are those
  added since the last flush, the index keys emitted so far separate the blocks, and the
  filter builder has been given every key at the offset of its block. After \<open>Finish\<close> the file
  has the layout \<open>table_file\<close>, which the reader's theory starts from.
\<close>

subsection \<open>Comparators whose separators are short\<close>

text \<open>The comment of the interface asks for a short string; here, one that is not longer.\<close>

locale short_comparator = separating_comparator +
  assumes separator_short: "length (FindShortestSeparator c s l) \<le> length s"
    and successor_short: "length (FindShortSuccessor c s) \<le> length s"

interpretation bytewise_short: short_comparator BytewiseComparator "\<lambda>_. True"
proof
  fix s l
  show "length (FindShortestSeparator BytewiseComparator s l) \<le> length s"
    by (cases rule: Bytewise_separator_cases [of s l]) (simp_all add: BytewiseComparator_def)
  have "length (Bytewise_FindShortSuccessor s) \<le> length s" by (induction s) auto
  then show "length (FindShortSuccessor BytewiseComparator s) \<le> length s"
    by (simp add: BytewiseComparator_def)
qed

context internal_keys
begin

sublocale iks: short_comparator "InternalKeyComparator c" ivalid
  by unfold_locales
     (auto simp: InternalKeyComparator_def InternalKey_FindShortestSeparator_def
      InternalKey_FindShortSuccessor_def Let_def PutFixed64_def ExtractUserKey_def)

end

subsection \<open>Sizes\<close>

definition entries_cost :: "(bytes \<times> bytes) list \<Rightarrow> nat" where
  "entries_cost es = sum_list (map (\<lambda>e. 40 + length (fst e) + length (snd e)) es)"

lemma entries_cost_simps [simp]:
  "entries_cost [] = 0" "entries_cost (e # es) = 40 + length (fst e) + length (snd e) + entries_cost es"
  "entries_cost (es @ fs) = entries_cost es + entries_cost fs"
  by (simp_all add: entries_cost_def)

lemma length_le_entries_cost: "40 * length es \<le> entries_cost es"
  by (induction es) auto

lemma CurrentSizeEstimate_Add:
  "CurrentSizeEstimate (BlockBuilder_Add n k v b) \<le> CurrentSizeEstimate b + 19 + length k + length v"
proof -
  have l: "length (EncodeVarint32 x) \<le> 5" for x by (rule length_EncodeVarint32_5)
  show ?thesis
    using l [of "word_of_nat (common_prefix_len (bb_last_key b) k)"]
      l [of "word_of_nat (length k - common_prefix_len (bb_last_key b) k)"]
      l [of "word_of_nat (length v)"] l [of "word_of_nat 0"] l [of "word_of_nat (length k)"]
    by (auto simp: CurrentSizeEstimate_def BlockBuilder_Add_def Let_def PutVarint32_def)
qed

lemma CurrentSizeEstimate_AddAll:
  "CurrentSizeEstimate (BlockBuilder_AddAll n es BlockBuilder_new) + 21 * length es \<le> 8 + entries_cost es"
proof (induction es rule: rev_induct)
  case Nil
  then show ?case by (simp add: BlockBuilder_AddAll_def BlockBuilder_new_def CurrentSizeEstimate_def)
next
  case (snoc e es)
  obtain k v where e: "e = (k, v)" by (cases e)
  show ?case
    using snoc CurrentSizeEstimate_Add [of n k v "BlockBuilder_AddAll n es BlockBuilder_new"]
    by (simp add: e AddAll_append)
qed

lemma length_Finish: "length (fst (BlockBuilder_Finish b)) = CurrentSizeEstimate b"
  by (simp add: BlockBuilder_Finish_def CurrentSizeEstimate_def Let_def foldl_PutFixed32 PutFixed32_def
      length_concat_fixed)

lemma AddAll_empty_iff:
  "BlockBuilder_empty (BlockBuilder_AddAll n es BlockBuilder_new) \<longleftrightarrow> es = []"
proof -
  obtain ts rs where r: "bb_rep (BlockBuilder_AddAll n es BlockBuilder_new) ts rs" "map snd ts = es"
    using bb_rep_AddAll by blast
  have "encs ts = [] \<longleftrightarrow> ts = []"
    using length_entry_pos [of "hd ts"] by (cases ts) auto
  then show ?thesis using r by (auto simp: BlockBuilder_empty_def bb_rep_def)
qed

subsection \<open>The blocks in the file\<close>

text \<open>A written block: the entries it was built from, the stored contents, and their type.\<close>

type_synonym written = "(bytes \<times> bytes) list \<times> bytes \<times> CompressionType"

definition blocks_image :: "written list \<Rightarrow> bytes" where
  "blocks_image ws = concat (map (\<lambda>w. stored_block (fst (snd w)) (snd (snd w))) ws)"

definition wpos :: "written list \<Rightarrow> nat \<Rightarrow> nat" where
  "wpos ws k = length (blocks_image (take k ws))"

definition handle_at :: "nat \<Rightarrow> bytes \<Rightarrow> BlockHandle" where
  "handle_at pos d = \<lparr>bh_offset = word_of_nat pos, bh_size = word_of_nat (length d)\<rparr>"

definition whandle :: "written list \<Rightarrow> nat \<Rightarrow> BlockHandle" where
  "whandle ws k = handle_at (wpos ws k) (fst (snd (ws ! k)))"

text \<open>The contents are the finished block, as it is or compressed.\<close>

definition payload_ok :: "Snappy \<Rightarrow> bytes \<Rightarrow> bytes \<Rightarrow> CompressionType \<Rightarrow> bool" where
  "payload_ok snappy raw d t \<longleftrightarrow> t = kNoCompression \<and> d = raw \<or>
     t = kSnappyCompression \<and> Snappy_Compress snappy raw = Some d \<and> length d \<le> length raw"

definition written_ok :: "Snappy \<Rightarrow> int \<Rightarrow> written \<Rightarrow> bool" where
  "written_ok snappy n w \<longleftrightarrow> fst w \<noteq> [] \<and>
     payload_ok snappy (fst (BlockBuilder_Finish (BlockBuilder_AddAll n (fst w) BlockBuilder_new)))
       (fst (snd w)) (snd (snd w))"

lemma blocks_image_simps [simp]:
  "blocks_image [] = []" "blocks_image (ws @ [w]) = blocks_image ws @ stored_block (fst (snd w)) (snd (snd w))"
  by (simp_all add: blocks_image_def)

lemma wpos_append [simp]: "k \<le> length ws \<Longrightarrow> wpos (ws @ [w]) k = wpos ws k"
  "wpos ws (length ws) = length (blocks_image ws)"
  by (simp_all add: wpos_def)

lemma whandle_append:
  "k < length ws \<Longrightarrow> whandle (ws @ [w]) k = whandle ws k"
  "whandle (ws @ [w]) (length ws) = handle_at (length (blocks_image ws)) (fst (snd w))"
  by (simp_all add: whandle_def nth_append)

lemma blocks_image_split:
  assumes "k < length ws"
  shows "blocks_image ws = blocks_image (take k ws) @ stored_block (fst (snd (ws ! k))) (snd (snd (ws ! k))) @ blocks_image (drop (Suc k) ws)"
proof -
  have "ws = take k ws @ ws ! k # drop (Suc k) ws" using assms by (rule id_take_nth_drop)
  then have "map f ws = map f (take k ws) @ f (ws ! k) # map f (drop (Suc k) ws)" for f :: "written \<Rightarrow> bytes"
    by (metis list.simps(9) map_append)
  then show ?thesis by (simp add: blocks_image_def)
qed

lemma wpos_strict: "i < j \<Longrightarrow> j \<le> length ws \<Longrightarrow> wpos ws i < wpos ws j"
proof -
  assume ij: "i < j" "j \<le> length ws"
  have "take j ws = take i ws @ take (j - i) (drop i ws)"
    using ij by (metis add_diff_inverse_nat less_imp_not_less take_add)
  moreover have "take (j - i) (drop i ws) \<noteq> []" using ij by simp
  then have "0 < length (blocks_image (take (j - i) (drop i ws)))"
    by (cases "take (j - i) (drop i ws)") (auto simp: blocks_image_def kBlockTrailerSize_def)
  ultimately show ?thesis by (simp add: wpos_def blocks_image_def)
qed

lemma payload_length: "payload_ok snappy raw d t \<Longrightarrow> length d \<le> length raw"
  by (auto simp: payload_ok_def)

lemma written_length:
  assumes "written_ok snappy n w"
  shows "length (stored_block (fst (snd w)) (snd (snd w))) + 8 \<le> entries_cost (fst w)"
proof -
  have "length (fst (snd w)) \<le> CurrentSizeEstimate (BlockBuilder_AddAll n (fst w) BlockBuilder_new)"
    using assms payload_length length_Finish by (metis written_ok_def)
  moreover have "1 \<le> length (fst w)" using assms by (simp add: written_ok_def Suc_le_eq)
  ultimately show ?thesis
    using CurrentSizeEstimate_AddAll [of n "fst w"] by (simp add: kBlockTrailerSize_def)
qed

lemma blocks_image_length:
  "\<forall>w \<in> set ws. written_ok snappy n w \<Longrightarrow> length (blocks_image ws) \<le> entries_cost (concat (map fst ws))"
proof (induction ws rule: rev_induct)
  case (snoc w ws)
  then show ?case using written_length [of snappy n w] by simp
qed simp

lemma handle_inject:
  "BlockHandle_EncodeTo h [] = BlockHandle_EncodeTo h' [] \<longleftrightarrow> h = h'"
proof
  assume "BlockHandle_EncodeTo h [] = BlockHandle_EncodeTo h' []"
  then have "BlockHandle_DecodeFrom h (BlockHandle_EncodeTo h []) = BlockHandle_DecodeFrom h (BlockHandle_EncodeTo h' [])"
    by simp
  then show "h = h'" by simp
qed simp

subsection \<open>Writing a block\<close>

context reliable_writable_file
begin

lemma WriteRawBlock_reliable:
  assumes "valid (tb_file r)"
  shows "\<exists>f'. WriteRawBlock ops d t r = (\<lparr>bh_offset = tb_offset r, bh_size = word_of_nat (length d)\<rparr>,
      r\<lparr>tb_status := OK, tb_file := f', tb_offset := tb_offset r + word_of_nat (length d + kBlockTrailerSize)\<rparr>) \<and>
    valid f' \<and> contents f' = contents (tb_file r) @ stored_block d t"
proof -
  obtain s f where 1: "wf_Append ops (tb_file r) d = (s, f)" by (cases "wf_Append ops (tb_file r) d")
  let ?t = "[compression_byte t] @ EncodeFixed32 (crc32c_Mask (crc32c_Value (d @ [compression_byte t])))"
  obtain s' f' where 2: "wf_Append ops f ?t = (s', f')" by (cases "wf_Append ops f ?t")
  have s: "s = OK" and f: "valid f" "contents f = contents (tb_file r) @ d"
    using append_succeeds [OF assms, of d] append_valid [OF assms 1] append_ok [OF assms 1] 1
    by (simp_all add: ok_iff_OK)
  have s': "s' = OK" and f': "valid f'" "contents f' = contents f @ ?t"
    using append_succeeds [OF f(1), of ?t] append_valid [OF f(1) 2] append_ok [OF f(1) 2] 2
    by (simp_all add: ok_iff_OK)
  have "WriteRawBlock ops d t r = (\<lparr>bh_offset = tb_offset r, bh_size = word_of_nat (length d)\<rparr>,
      r\<lparr>tb_status := OK, tb_file := f', tb_offset := tb_offset r + word_of_nat (length d + kBlockTrailerSize)\<rparr>)"
    using 2 by (simp add: WriteRawBlock_def Let_def 1 s s' crc32c_Extend_append)
  then show ?thesis using f f' by (intro exI [of _ f']) (simp add: stored_block_def Let_def)
qed

lemma WriteBlock_reliable:
  assumes "valid (tb_file r)"
  shows "\<exists>d t f'. WriteBlock ops snappy b r =
      (BlockBuilder_new, \<lparr>bh_offset = tb_offset r, bh_size = word_of_nat (length d)\<rparr>,
       r\<lparr>tb_status := OK, tb_file := f', tb_offset := tb_offset r + word_of_nat (length d + kBlockTrailerSize),
         tb_compressed_output := []\<rparr>) \<and>
    valid f' \<and> contents f' = contents (tb_file r) @ stored_block d t \<and>
    payload_ok snappy (fst (BlockBuilder_Finish b)) d t"
proof -
  obtain raw b' where fin: "BlockBuilder_Finish b = (raw, b')" by (cases "BlockBuilder_Finish b")
  obtain d t r1 where choice: "(case compression (tb_options r) of
               kNoCompression \<Rightarrow> (raw, kNoCompression, r)
             | kSnappyCompression \<Rightarrow>
                 (case Snappy_Compress snappy raw of
                    Some compressed \<Rightarrow>
                      (let r = r\<lparr>tb_compressed_output := compressed\<rparr> in
                       if length compressed < length raw - length raw div 8
                       then (compressed, kSnappyCompression, r)
                       else (raw, kNoCompression, r))
                  | None \<Rightarrow> (raw, kNoCompression, r))) = (d, t, r1)"
    and r1: "payload_ok snappy raw d t" "\<exists>x. r1 = r\<lparr>tb_compressed_output := x\<rparr>"
  proof (cases "compression (tb_options r) = kSnappyCompression \<and> Snappy_Compress snappy raw \<noteq> None")
    case False
    then show ?thesis
      by (intro that [of raw kNoCompression r])
         (auto split: CompressionType.splits simp: payload_ok_def intro: exI [of _ "tb_compressed_output r"])
  next
    case True
    then obtain z where z: "Snappy_Compress snappy raw = Some z" by auto
    show ?thesis
    proof (cases "length z < length raw - length raw div 8")
      case small: True
      show ?thesis
        by (rule that [of z kSnappyCompression "r\<lparr>tb_compressed_output := z\<rparr>"])
           (use True z small in \<open>auto simp: payload_ok_def\<close>)
    next
      case False
      show ?thesis
        by (rule that [of raw kNoCompression "r\<lparr>tb_compressed_output := z\<rparr>"])
           (use True z False in \<open>auto simp: payload_ok_def\<close>)
    qed
  qed
  from r1(2) obtain x where x: "r1 = r\<lparr>tb_compressed_output := x\<rparr>" by blast
  have v: "valid (tb_file r1)" using assms x by simp
  obtain f' where f': "WriteRawBlock ops d t r1 = (\<lparr>bh_offset = tb_offset r1, bh_size = word_of_nat (length d)\<rparr>,
      r1\<lparr>tb_status := OK, tb_file := f', tb_offset := tb_offset r1 + word_of_nat (length d + kBlockTrailerSize)\<rparr>)"
    "valid f'" "contents f' = contents (tb_file r1) @ stored_block d t"
    using WriteRawBlock_reliable [OF v, of d t] by blast
  have "WriteBlock ops snappy b r =
      (BlockBuilder_new, \<lparr>bh_offset = tb_offset r, bh_size = word_of_nat (length d)\<rparr>,
       r\<lparr>tb_status := OK, tb_file := f', tb_offset := tb_offset r + word_of_nat (length d + kBlockTrailerSize),
         tb_compressed_output := []\<rparr>)"
    unfolding WriteBlock_def fin Let_def split choice [unfolded Let_def] f'(1) by (simp add: x)
  then show ?thesis using f' r1(1) fin x by auto
qed

end

subsection \<open>The invariant\<close>

text \<open>The index keys emitted so far lie between the blocks.\<close>

definition between_blocks ::
    "Comparator \<Rightarrow> (bytes \<times> bytes) list \<Rightarrow> (bytes \<times> bytes) list list \<Rightarrow> (bytes \<times> bytes) list \<Rightarrow> bool" where
  "between_blocks c ies bss cur \<longleftrightarrow> length ies \<le> length bss \<and> (\<forall>k < length ies.
     (\<forall>e \<in> set (bss ! k). Compare c (fst e) (fst (ies ! k)) \<le> 0) \<and>
     (\<forall>e \<in> set (concat (drop (Suc k) bss)) \<union> set cur. Compare c (fst (ies ! k)) (fst e) < 0))"

lemma between_blocks_close:
  assumes "between_blocks c ies bss cur"
  shows "between_blocks c ies (bss @ [cur]) []"
proof -
  have "(bss @ [cur]) ! k = bss ! k \<and> concat (drop (Suc k) (bss @ [cur])) = concat (drop (Suc k) bss) @ cur"
    if "k < length ies" for k
    using that assms by (simp add: between_blocks_def nth_append)
  then show ?thesis using assms unfolding between_blocks_def by simp
qed

lemma between_blocks_last:
  assumes "between_blocks c ies bss []" "length bss = Suc (length ies)"
    and "\<forall>e \<in> set (last bss). Compare c (fst e) (fst ie) \<le> 0"
  shows "between_blocks c (ies @ [ie]) bss []"
proof -
  have "bss ! length ies = last bss" using assms(2) by (metis diff_Suc_1 last_conv_nth length_0_conv nat.distinct(1))
  then show ?thesis using assms by (auto simp: between_blocks_def nth_append less_Suc_eq)
qed

text \<open>Every index key but the last is the separator between a block and its successor.\<close>

definition separators_exact :: "Comparator \<Rightarrow> (bytes \<times> bytes) list \<Rightarrow> (bytes \<times> bytes) list list \<Rightarrow> bool" where
  "separators_exact c ies bss \<longleftrightarrow> (\<forall>k < length ies.
     fst (ies ! k) = FindShortestSeparator c (fst (last (bss ! k))) (fst (hd (bss ! Suc k))))"

lemma separators_exact_extend:
  "length ies < length bss \<Longrightarrow> separators_exact c ies (bss @ ys) = separators_exact c ies bss"
  by (auto simp: separators_exact_def nth_append)

lemma separators_exact_cur:
  assumes "separators_exact c ies (bss @ [cur])" "length ies \<le> length bss" "cur \<noteq> [] \<or> length ies < length bss \<or> ies = []"
  shows "separators_exact c ies (bss @ [cur @ [e]])"
proof -
  have "(bss @ [cur @ [e]]) ! k = (bss @ [cur]) ! k" if "k < length bss" for k using that by (simp add: nth_append)
  moreover have "hd ((bss @ [cur @ [e]]) ! Suc k) = hd ((bss @ [cur]) ! Suc k)" if "k < length ies" for k
    using that assms(2,3) by (cases "Suc k < length bss") (auto simp: nth_append)
  ultimately show ?thesis using assms(1,2) by (simp add: separators_exact_def)
qed

definition table_filter_policy_ok :: "Options \<Rightarrow> (bytes \<Rightarrow> bool) \<Rightarrow> bool" where
  "table_filter_policy_ok opts valid \<longleftrightarrow> (\<forall>p. opt_filter_policy opts = Some p \<longrightarrow> filter_policy p valid)"

locale table_build = wf: reliable_writable_file wops contents fvalid + sc: short_comparator c valid
  for wops :: "'f WritableFile" and contents fvalid and c :: Comparator and valid +
  fixes opts :: Options and snappy :: Snappy
  assumes opts_comparator: "opt_comparator opts = c"
    and opts_policy: "opt_filter_policy opts = Some p \<Longrightarrow> filter_policy p valid"
begin

definition all_entries :: "written list \<Rightarrow> (bytes \<times> bytes) list \<Rightarrow> (bytes \<times> bytes) list" where
  "all_entries ws cur = concat (map fst ws) @ cur"

definition data_inv :: "'f TableBuilder \<Rightarrow> written list \<Rightarrow> (bytes \<times> bytes) list \<Rightarrow> bool" where
  "data_inv r ws cur \<longleftrightarrow> tb_options r = opts \<and> tb_index_block_options r = opts\<lparr>block_restart_interval := 1\<rparr> \<and>
     tb_status r = OK \<and> fvalid (tb_file r) \<and> contents (tb_file r) = blocks_image ws \<and>
     tb_offset r = word_of_nat (length (blocks_image ws)) \<and>
     (\<forall>w \<in> set ws. written_ok snappy (block_restart_interval opts) w) \<and>
     tb_data_block r = BlockBuilder_AddAll (block_restart_interval opts) cur BlockBuilder_new \<and>
     tb_num_entries r = int (length (all_entries ws cur)) \<and> sorted_entries c valid (all_entries ws cur)"

definition index_inv ::
    "'f TableBuilder \<Rightarrow> written list \<Rightarrow> (bytes \<times> bytes) list \<Rightarrow> (bytes \<times> bytes) list \<Rightarrow> bool" where
  "index_inv r ws cur ies \<longleftrightarrow> tb_index_block r = BlockBuilder_AddAll 1 ies BlockBuilder_new \<and>
     between_blocks c ies (map fst ws) cur \<and> separators_exact c ies (map fst ws @ [cur]) \<and>
     (\<forall>ie \<in> set ies. valid (fst ie)) \<and>
     (\<forall>k < length ies. length (fst (ies ! k)) \<le> length (fst (last (fst (ws ! k)))) \<and>
        snd (ies ! k) = BlockHandle_EncodeTo (whandle ws k) []) \<and>
     (all_entries ws cur \<noteq> [] \<longrightarrow> tb_last_key r = fst (last (all_entries ws cur))) \<and>
     tb_pending_index_entry r = (cur = [] \<and> ws \<noteq> []) \<and>
     length ws = length ies + (if cur = [] \<and> ws \<noteq> [] then 1 else 0) \<and>
     (cur = [] \<and> ws \<noteq> [] \<longrightarrow> tb_pending_handle r = whandle ws (length ies))"

definition keys_in_hist :: "written list \<Rightarrow> (u64 \<times> bytes) list \<Rightarrow> bool" where
  "keys_in_hist ws hist \<longleftrightarrow> (\<forall>k < length ws. \<forall>e \<in> set (fst (ws ! k)). (word_of_nat (wpos ws k), fst e) \<in> set hist)"

definition filter_state_inv :: "'f TableBuilder \<Rightarrow> written list \<Rightarrow> (bytes \<times> bytes) list \<Rightarrow> bool" where
  "filter_state_inv r ws cur \<longleftrightarrow>
     (case tb_filter_block r of
        None \<Rightarrow> opt_filter_policy opts = None
      | Some fb \<Rightarrow> \<exists>p hist. opt_filter_policy opts = Some p \<and> filter_inv p valid fb hist \<and>
          length (fbb_offsets fb) = unat (tb_offset r) div kFilterBase \<and> keys_in_hist ws hist \<and>
          (\<forall>e \<in> set cur. (tb_offset r, fst e) \<in> set hist))"

text \<open>A new builder.\<close>

lemma build_new:
  assumes "fvalid f" "contents f = []"
  shows "data_inv (TableBuilder_new opts f) [] []" "index_inv (TableBuilder_new opts f) [] [] []"
    "filter_state_inv (TableBuilder_new opts f) [] []"
proof -
  show "data_inv (TableBuilder_new opts f) [] []" "index_inv (TableBuilder_new opts f) [] [] []"
    using assms by (simp_all add: data_inv_def index_inv_def TableBuilder_new_def BlockBuilder_AddAll_def
        all_entries_def sorted_entries_def between_blocks_def separators_exact_def Let_def)
  show "filter_state_inv (TableBuilder_new opts f) [] []"
  proof (cases "opt_filter_policy opts")
    case (Some p)
    note fp = opts_policy [OF Some]
    have "length (fbb_offsets (FilterBlockBuilder_new p)) \<le> unat (0 :: u64) div kFilterBase"
      by (simp add: FilterBlockBuilder_new_def)
    note st = filter_policy.StartBlock_inv [OF fp filter_inv_new this]
    show ?thesis using Some st
      by (auto simp: filter_state_inv_def TableBuilder_new_def Let_def keys_in_hist_def)
  qed (simp add: filter_state_inv_def TableBuilder_new_def Let_def)
qed

subsection \<open>Adding an entry\<close>

lemma sorted_snoc:
  assumes "sorted_entries c valid es" "valid k" "es \<noteq> [] \<Longrightarrow> Compare c (fst (last es)) k < 0"
  shows "sorted_entries c valid (es @ [(k, v)])"
proof -
  have "Compare c (fst e) k < 0" if "e \<in> set es" for e
  proof (cases "e = last es")
    case True
    moreover have "es \<noteq> []" using that by auto
    ultimately show ?thesis using assms(3) by simp
  next
    case False
    have ne: "es \<noteq> []" using that by auto
    then have es: "es = butlast es @ [last es]" by simp
    then have "e \<in> set (butlast es)" using that False by (metis in_set_conv_decomp_last append_butlast_last_id ne
          rotate1.simps(2) set_ConsD set_rotate1 Un_iff set_append)
    moreover have "sorted_wrt (\<lambda>a b. Compare c (fst a) (fst b) < 0) (butlast es @ [last es])"
      using assms(1) es by (simp add: sorted_entries_def)
    ultimately have "Compare c (fst e) (fst (last es)) < 0" by (simp add: sorted_wrt_append)
    then show ?thesis
      using assms sc.lt_trans [of "fst e" "fst (last es)" k] that ne
      by (simp add: sorted_entries_def)
  qed
  then show ?thesis using assms(1,2) by (auto simp: sorted_entries_def sorted_wrt_append)
qed

lemma sorted_le_last:
  assumes "sorted_entries c valid es" "e \<in> set es"
  shows "Compare c (fst e) (fst (last es)) \<le> 0" "valid (fst e)" "valid (fst (last es))"
proof -
  have ne: "es \<noteq> []" using assms(2) by auto
  show v: "valid (fst e)" "valid (fst (last es))" using assms ne by (simp_all add: sorted_entries_def)
  obtain i where i: "i < length es" "es ! i = e" using assms(2) by (auto simp: in_set_conv_nth)
  show "Compare c (fst e) (fst (last es)) \<le> 0"
  proof (cases "i = length es - 1")
    case True
    then show ?thesis using i ne v sc.refl by (simp add: last_conv_nth)
  next
    case False
    then have "Compare c (fst (es ! i)) (fst (es ! (length es - 1))) < 0"
      using i by (intro sc.sorted_key_less [OF assms(1)]) auto
    then show ?thesis using i ne by (simp add: last_conv_nth)
  qed
qed

text \<open>A separator for the pending block is emitted when the first key of the next one is known.\<close>

lemma between_add:
  assumes b: "between_blocks c ies bss cur" and srt: "sorted_entries c valid (concat bss @ cur)"
    and ne: "\<forall>bs \<in> set bss. bs \<noteq> []" and vies: "\<forall>ie \<in> set ies. valid (fst ie)" and vk: "valid k"
    and later: "length ies < length bss \<or> cur \<noteq> []"
    and lt: "Compare c (fst (last (concat bss @ cur))) k < 0"
  shows "\<forall>i < length ies. Compare c (fst (ies ! i)) k < 0"
proof (intro allI impI)
  fix i assume i: "i < length ies"
  let ?later = "set (concat (drop (Suc i) bss)) \<union> set cur"
  have lst: "last (concat bss @ cur) \<in> ?later"
  proof (cases "cur = []")
    case False
    then show ?thesis by simp
  next
    case True
    with later have "length ies < length bss" by simp
    then have "drop (Suc i) bss \<noteq> []" "bss \<noteq> []" using i by auto
    then have l: "last bss \<in> set (drop (Suc i) bss)" "bss \<noteq> []"
      using last_in_set [of "drop (Suc i) bss"] by (simp_all add: last_drop)
    moreover have "last bss \<noteq> []" using ne l(2) by simp
    moreover have "last (concat bss) = last (last bss)"
      using \<open>last bss \<noteq> []\<close> l(2) by (metis append_butlast_last_id concat.simps(1,2) concat_append append_Nil2 last_appendR)
    ultimately show ?thesis using True by (auto intro!: bexI [of _ "last bss"])
  qed
  have "Compare c (fst (ies ! i)) (fst (last (concat bss @ cur))) < 0"
    using b i lst by (auto simp: between_blocks_def)
  moreover have "valid (fst (last (concat bss @ cur)))"
    using srt lst by (auto simp: sorted_entries_def dest: in_set_dropD)
  ultimately show "Compare c (fst (ies ! i)) k < 0"
    using sc.lt_trans [of "fst (ies ! i)" "fst (last (concat bss @ cur))" k] lt vk vies i by simp
qed

lemma add_entry_fields:
  "tb_options (add_entry k v r) = tb_options r" "tb_index_block_options (add_entry k v r) = tb_index_block_options r"
  "tb_file (add_entry k v r) = tb_file r" "tb_offset (add_entry k v r) = tb_offset r"
  "tb_status (add_entry k v r) = tb_status r" "tb_last_key (add_entry k v r) = k"
  "tb_num_entries (add_entry k v r) = tb_num_entries r + 1" "tb_pending_index_entry (add_entry k v r) = False"
  "tb_pending_handle (add_entry k v r) = tb_pending_handle r"
  "tb_filter_block (add_entry k v r) = map_option (AddKey k) (tb_filter_block r)"
  "tb_data_block (add_entry k v r) = BlockBuilder_Add (block_restart_interval (tb_options r)) k v (tb_data_block r)"
  "tb_index_block (add_entry k v r) =
     (if tb_pending_index_entry r
      then BlockBuilder_Add (block_restart_interval (tb_index_block_options r))
        (FindShortestSeparator (opt_comparator (tb_options r)) (tb_last_key r) k)
        (BlockHandle_EncodeTo (tb_pending_handle r) []) (tb_index_block r)
      else tb_index_block r)"
  by (simp_all add: add_entry_def add_index_entry_def Let_def)

lemma all_entries_snoc: "all_entries ws (cur @ [e]) = all_entries ws cur @ [e]"
  by (simp add: all_entries_def)

lemma add_entry_data:
  assumes "data_inv r ws cur" "valid k" "all_entries ws cur \<noteq> [] \<Longrightarrow> Compare c (fst (last (all_entries ws cur))) k < 0"
  shows "data_inv (add_entry k v r) ws (cur @ [(k, v)])"
  using assms sorted_snoc [of "all_entries ws cur" k v]
  by (simp add: data_inv_def add_entry_fields AddAll_append all_entries_snoc)

lemma last_concat:
  assumes "bss \<noteq> []" "last bss \<noteq> []"
  shows "last (concat bss) = last (last bss)"
  using assms by (metis append_butlast_last_id concat.simps(1,2) concat_append append_Nil2 last_appendR)

lemma written_nonempty: "data_inv r ws cur \<Longrightarrow> bs \<in> set (map fst ws) \<Longrightarrow> bs \<noteq> []"
  by (auto simp: data_inv_def written_ok_def)

lemma between_add_cur:
  assumes "between_blocks c ies bss cur" "\<forall>i < length ies. Compare c (fst (ies ! i)) k < 0"
  shows "between_blocks c ies bss (cur @ [(k, v)])"
  using assms by (simp add: between_blocks_def)

text \<open>The last key of the closed blocks, from which the next index key is made.\<close>

lemma pending_last:
  assumes "data_inv r ws []" "ws \<noteq> []" "length ws = Suc n"
  shows "last (all_entries ws []) = last (fst (ws ! n))" "last (fst (ws ! n)) \<in> set (fst (ws ! n))"
    "fst (ws ! n) = last (map fst ws)" "all_entries ws [] \<noteq> []"
proof -
  have l: "ws ! n = last ws" using assms(2,3) by (simp add: last_conv_nth)
  then show "fst (ws ! n) = last (map fst ws)" using assms(2) by (simp add: last_map)
  then have ne: "fst (ws ! n) \<noteq> []" using written_nonempty [OF assms(1), of "last (map fst ws)"] assms(2)
    by (metis last_in_set list.map_disc_iff)
  then show "last (fst (ws ! n)) \<in> set (fst (ws ! n))" by simp
  show "last (all_entries ws []) = last (fst (ws ! n))"
    using last_concat [of "map fst ws"] assms(2) ne \<open>fst (ws ! n) = last (map fst ws)\<close> by (simp add: all_entries_def)
  show "all_entries ws [] \<noteq> []"
    using ne assms(3) by (auto simp: all_entries_def intro!: bexI [of _ "ws ! n"])
qed

lemma add_entry_index:
  assumes d: "data_inv r ws cur" and x: "index_inv r ws cur ies" and vk: "valid k"
    and lt: "all_entries ws cur \<noteq> [] \<Longrightarrow> Compare c (fst (last (all_entries ws cur))) k < 0"
  shows "\<exists>ies'. index_inv (add_entry k v r) ws (cur @ [(k, v)]) ies'"
proof -
  note dd = d [unfolded data_inv_def] and xx = x [unfolded index_inv_def]
  have srt: "sorted_entries c valid (all_entries ws cur)" using dd by simp
  have old: "\<forall>i < length ies. Compare c (fst (ies ! i)) k < 0"
  proof (cases "ws = [] \<and> cur = []")
    case False
    have ne: "\<forall>bs \<in> set (map fst ws). bs \<noteq> []" using written_nonempty [OF d] by blast
    have nz: "all_entries ws cur \<noteq> []"
      using False ne by (cases ws) (simp_all add: all_entries_def)
    show ?thesis
      by (rule between_add [of ies "map fst ws" cur])
         (use xx srt ne vk lt [OF nz] False in \<open>auto simp: all_entries_def split: if_splits\<close>)
  qed (use xx in simp)
  show ?thesis
  proof (cases "cur = [] \<and> ws \<noteq> []")
    case False
    have "separators_exact c ies (map fst ws @ [cur @ [(k, v)]])"
      using xx False by (intro separators_exact_cur) auto
    then have "index_inv (add_entry k v r) ws (cur @ [(k, v)]) ies"
      unfolding index_inv_def add_entry_fields all_entries_snoc using xx False between_add_cur [OF _ old] by auto
    then show ?thesis by blast
  next
    case True
    let ?n = "length ies"
    have n: "length ws = Suc ?n" using xx True by simp
    note pl = pending_last [OF d [unfolded conjunct1 [OF True]] conjunct2 [OF True] n]
    let ?l = "fst (last (all_entries ws []))"
    let ?sep = "FindShortestSeparator c ?l k"
    let ?ie = "(?sep, BlockHandle_EncodeTo (whandle ws ?n) [])"
    have lk: "tb_last_key r = ?l" using xx True pl(4) by simp
    have vl: "valid ?l" using srt True last_in_set [OF pl(4)] by (simp add: sorted_entries_def)
    have ltl: "Compare c ?l k < 0" using lt True pl(4) by simp
    note sp = sc.separator [OF vl vk ltl]
    have "Compare c (fst e) ?sep \<le> 0" if "e \<in> set (fst (ws ! ?n))" for e
    proof -
      have "e \<in> set (all_entries ws [])" using that n by (auto simp: all_entries_def)
      then show ?thesis
        using sorted_le_last [of "all_entries ws []" e] srt True sp vl sc.le_trans [of "fst e" ?l ?sep] by simp
    qed
    then have "between_blocks c (ies @ [?ie]) (map fst ws) []"
      by (intro between_blocks_last) (use xx True n pl(3) in auto)
    moreover have "\<forall>i < length (ies @ [?ie]). Compare c (fst ((ies @ [?ie]) ! i)) k < 0"
      using old sp by (auto simp: nth_append less_Suc_eq)
    ultimately have bb: "between_blocks c (ies @ [?ie]) (map fst ws) [(k, v)]"
      using between_add_cur [of "ies @ [?ie]" "map fst ws" "[]" k v] by simp
    have "separators_exact c (ies @ [?ie]) (map fst ws @ [[(k, v)]])"
    proof -
      have "separators_exact c ies (map fst ws)"
        using xx n True separators_exact_extend [of ies "map fst ws" c "[[]]"] by simp
      then have "separators_exact c ies (map fst ws @ [[(k, v)]])" using n by (simp add: separators_exact_extend)
      then show ?thesis using n pl(1) by (auto simp: separators_exact_def nth_append less_Suc_eq)
    qed
    note sx = this
    have ib: "tb_index_block (add_entry k v r) = BlockBuilder_AddAll 1 (ies @ [?ie]) BlockBuilder_new"
      using xx dd True lk opts_comparator by (simp add: add_entry_fields AddAll_append)
    have "length ?sep \<le> length (fst (last (fst (ws ! ?n))))"
      using sc.separator_short [of ?l k] pl(1) by simp
    then have h: "\<forall>i < length (ies @ [?ie]). length (fst ((ies @ [?ie]) ! i)) \<le> length (fst (last (fst (ws ! i)))) \<and>
        snd ((ies @ [?ie]) ! i) = BlockHandle_EncodeTo (whandle ws i) []"
      using xx by (auto simp: nth_append less_Suc_eq)
    have "\<forall>ie \<in> set (ies @ [?ie]). valid (fst ie)" using xx sp by auto
    then have "index_inv (add_entry k v r) ws (cur @ [(k, v)]) (ies @ [?ie])"
      unfolding index_inv_def ib all_entries_snoc using bb sx h n True by (simp add: add_entry_fields)
    then show ?thesis by blast
  qed
qed

lemma add_entry_filter:
  assumes "filter_state_inv r ws cur" "valid k"
  shows "filter_state_inv (add_entry k v r) ws (cur @ [(k, v)])"
proof (cases "tb_filter_block r")
  case None
  then show ?thesis using assms by (simp add: filter_state_inv_def add_entry_fields)
next
  case (Some fb)
  then obtain p hist where p: "opt_filter_policy opts = Some p" "filter_inv p valid fb hist"
      "length (fbb_offsets fb) = unat (tb_offset r) div kFilterBase" "keys_in_hist ws hist"
      "\<forall>e \<in> set cur. (tb_offset r, fst e) \<in> set hist"
    using assms(1) by (auto simp: filter_state_inv_def)
  note ak = filter_policy.AddKey_inv [OF opts_policy [OF p(1)] p(2,3) assms(2)]
  have "keys_in_hist ws (hist @ [(tb_offset r, k)])" using p(4) by (simp add: keys_in_hist_def)
  then show ?thesis
    using Some p ak unfolding filter_state_inv_def add_entry_fields
    by (auto intro!: exI [of _ "hist @ [(tb_offset r, k)]"])
qed

subsection \<open>Flushing\<close>

text \<open>The file stays below \<open>2^64\<close> bytes, so that the offsets do not wrap around.\<close>

lemma flush_fields:
  assumes d: "data_inv r ws cur" and ne: "cur \<noteq> []"
  shows "\<exists>w. fst w = cur \<and> written_ok snappy (block_restart_interval opts) w \<and>
    data_inv (TableBuilder_Flush wops snappy r) (ws @ [w]) [] \<and>
    tb_pending_handle (TableBuilder_Flush wops snappy r) = \<lparr>bh_offset = tb_offset r, bh_size = word_of_nat (length (fst (snd w)))\<rparr> \<and>
    tb_pending_index_entry (TableBuilder_Flush wops snappy r) \<and>
    tb_index_block (TableBuilder_Flush wops snappy r) = tb_index_block r \<and>
    tb_last_key (TableBuilder_Flush wops snappy r) = tb_last_key r \<and>
    tb_filter_block (TableBuilder_Flush wops snappy r) =
      map_option (StartBlock (tb_offset (TableBuilder_Flush wops snappy r))) (tb_filter_block r)"
proof -
  let ?n = "block_restart_interval opts"
  note dd = d [unfolded data_inv_def]
  have v: "fvalid (tb_file r)" using dd by simp
  obtain x t f' where W: "WriteBlock wops snappy (tb_data_block r) r =
      (BlockBuilder_new, \<lparr>bh_offset = tb_offset r, bh_size = word_of_nat (length x)\<rparr>,
       r\<lparr>tb_status := OK, tb_file := f', tb_offset := tb_offset r + word_of_nat (length x + kBlockTrailerSize),
         tb_compressed_output := []\<rparr>)"
    and f': "fvalid f'" "contents f' = contents (tb_file r) @ stored_block x t"
    and pl: "payload_ok snappy (fst (BlockBuilder_Finish (tb_data_block r))) x t"
    using wf.WriteBlock_reliable [OF v] by blast
  obtain s f2 where F: "wf_Flush wops f' = (s, f2)" by (cases "wf_Flush wops f'")
  have s: "s = OK" and f2: "fvalid f2" "contents f2 = contents f'"
    using wf.flush_succeeds [OF f'(1)] wf.flush_valid [OF f'(1) F] wf.flush_ok [OF f'(1) F] F
    by (simp_all add: ok_iff_OK)
  have okr: "ok (tb_status r)" using dd by (simp add: ok_iff_OK)
  have e: "\<not> BlockBuilder_empty (tb_data_block r)" using dd ne AddAll_empty_iff by simp
  let ?w = "(cur, x, t)"
  have wok: "written_ok snappy ?n ?w" using pl dd ne by (simp add: written_ok_def)
  let ?r = "TableBuilder_Flush wops snappy r"
  have r: "?r = r\<lparr>tb_status := OK, tb_file := f2, tb_offset := tb_offset r + word_of_nat (length x + kBlockTrailerSize),
      tb_compressed_output := [], tb_data_block := BlockBuilder_new,
      tb_pending_handle := \<lparr>bh_offset = tb_offset r, bh_size = word_of_nat (length x)\<rparr>,
      tb_pending_index_entry := True,
      tb_filter_block := map_option (StartBlock (tb_offset r + word_of_nat (length x + kBlockTrailerSize)))
        (tb_filter_block r)\<rparr>"
    using e F s okr by (simp add: TableBuilder_Flush_def W)
  have all: "all_entries (ws @ [?w]) [] = all_entries ws cur" by (simp add: all_entries_def)
  have "data_inv ?r (ws @ [?w]) []"
    unfolding data_inv_def all r
    using dd wok f2 f' by (simp add: BlockBuilder_AddAll_def)
  then show ?thesis using wok by (intro exI [of _ ?w]) (simp add: r)
qed

lemma flush_index:
  assumes d: "data_inv r ws cur" and x: "index_inv r ws cur ies" and ne: "cur \<noteq> []"
    and w: "fst w = cur" and r': "data_inv r' (ws @ [w]) []"
    and h: "tb_pending_handle r' = \<lparr>bh_offset = tb_offset r, bh_size = word_of_nat (length (fst (snd w)))\<rparr>"
      "tb_pending_index_entry r'" "tb_index_block r' = tb_index_block r" "tb_last_key r' = tb_last_key r"
  shows "index_inv r' (ws @ [w]) [] ies"
proof -
  note xx = x [unfolded index_inv_def]
  have len: "length ws = length ies" using xx ne by simp
  have hd: "tb_pending_handle r' = whandle (ws @ [w]) (length ies)"
    using h(1) d whandle_append(2) [of ws w] by (simp add: data_inv_def handle_at_def len)
  have bb: "between_blocks c ies (map fst (ws @ [w])) []"
    using between_blocks_close [of c ies "map fst ws" cur] xx w by simp
  have "separators_exact c ies (map fst (ws @ [w]) @ [[]])"
    using xx w len separators_exact_extend [of ies "map fst ws @ [cur]" c "[[]]"] by simp
  moreover have "all_entries (ws @ [w]) [] = all_entries ws cur" using w by (simp add: all_entries_def)
  moreover have "\<forall>k < length ies. length (fst (ies ! k)) \<le> length (fst (last (fst ((ws @ [w]) ! k)))) \<and>
      snd (ies ! k) = BlockHandle_EncodeTo (whandle (ws @ [w]) k) []"
    using xx len by (simp add: nth_append whandle_append)
  ultimately show ?thesis
    unfolding index_inv_def h(3,4) using xx bb hd h(2) len by simp
qed

lemma flush_filter:
  assumes d: "data_inv r ws cur" and f: "filter_state_inv r ws cur" and w: "fst w = cur"
    and r': "data_inv r' (ws @ [w]) []" and bnd: "length (blocks_image (ws @ [w])) < 2 ^ 64"
    and h: "tb_filter_block r' = map_option (StartBlock (tb_offset r')) (tb_filter_block r)"
  shows "filter_state_inv r' (ws @ [w]) []"
proof (cases "tb_filter_block r")
  case None
  then show ?thesis using f h by (simp add: filter_state_inv_def)
next
  case (Some fb)
  then obtain p hist where p: "opt_filter_policy opts = Some p" "filter_inv p valid fb hist"
      "length (fbb_offsets fb) = unat (tb_offset r) div kFilterBase" "keys_in_hist ws hist"
      "\<forall>e \<in> set cur. (tb_offset r, fst e) \<in> set hist"
    using f by (auto simp: filter_state_inv_def)
  have o1: "unat (tb_offset r) = length (blocks_image ws)"
    using d bnd by (simp add: data_inv_def unat_of_nat_u64)
  have o2: "unat (tb_offset r') = length (blocks_image (ws @ [w]))"
    using r' bnd unat_of_nat_u64 [OF bnd] by (simp add: data_inv_def)
  have "length (fbb_offsets fb) \<le> unat (tb_offset r') div kFilterBase"
    unfolding p(3) o1 o2 by (simp add: div_le_mono)
  note st = filter_policy.StartBlock_inv [OF opts_policy [OF p(1)] p(2) this]
  have "keys_in_hist (ws @ [w]) hist"
    using p(4,5) w d by (auto simp: keys_in_hist_def less_Suc_eq nth_append data_inv_def)
  then show ?thesis using Some p(1) st h by (auto simp: filter_state_inv_def)
qed

definition build_inv :: "'f TableBuilder \<Rightarrow> (bytes \<times> bytes) list \<Rightarrow> bool" where
  "build_inv r es \<longleftrightarrow> (\<exists>ws cur ies. es = all_entries ws cur \<and> data_inv r ws cur \<and> index_inv r ws cur ies \<and>
     filter_state_inv r ws cur)"

text \<open>After a flush no entry is left in the data block.\<close>

definition flushed_inv :: "'f TableBuilder \<Rightarrow> written list \<Rightarrow> (bytes \<times> bytes) list \<Rightarrow> bool" where
  "flushed_inv r ws ies \<longleftrightarrow> data_inv r ws [] \<and> index_inv r ws [] ies \<and> filter_state_inv r ws []"

lemma Flush_inv:
  assumes "build_inv r es" "entries_cost es < 2 ^ 32"
  shows "\<exists>ws ies. es = all_entries ws [] \<and> flushed_inv (TableBuilder_Flush wops snappy r) ws ies"
proof -
  from assms(1) obtain ws cur ies where es: "es = all_entries ws cur" and d: "data_inv r ws cur"
    and x: "index_inv r ws cur ies" and f: "filter_state_inv r ws cur" by (auto simp: build_inv_def)
  show ?thesis
  proof (cases "cur = []")
    case True
    then have "BlockBuilder_empty (tb_data_block r)" using d AddAll_empty_iff by (simp add: data_inv_def)
    then have "TableBuilder_Flush wops snappy r = r" by (simp add: TableBuilder_Flush_def)
    then show ?thesis using es d x f True by (auto simp: flushed_inv_def)
  next
    case False
    let ?r = "TableBuilder_Flush wops snappy r"
    obtain w where w: "fst w = cur" "data_inv ?r (ws @ [w]) []"
      and h: "tb_pending_handle ?r = \<lparr>bh_offset = tb_offset r, bh_size = word_of_nat (length (fst (snd w)))\<rparr>"
      "tb_pending_index_entry ?r" "tb_index_block ?r = tb_index_block r" "tb_last_key ?r = tb_last_key r"
      and fl: "tb_filter_block ?r = map_option (StartBlock (tb_offset ?r)) (tb_filter_block r)"
      using flush_fields [OF d False] by blast
    have es': "es = all_entries (ws @ [w]) []" using es w(1) by (simp add: all_entries_def)
    have "length (blocks_image (ws @ [w])) \<le> entries_cost (concat (map fst (ws @ [w])))"
      by (rule blocks_image_length [of _ snappy "block_restart_interval opts"]) (use w(2) in \<open>simp add: data_inv_def\<close>)
    then have "length (blocks_image (ws @ [w])) < 2 ^ 64" using assms(2) es' by (simp add: all_entries_def)
    then show ?thesis
      using es' w flush_index [OF d x False w h] flush_filter [OF d f w _ fl] by (auto simp: flushed_inv_def)
  qed
qed

lemma flushed_build: "flushed_inv r ws ies \<Longrightarrow> build_inv r (all_entries ws [])"
  by (auto simp: flushed_inv_def build_inv_def)

lemma Add_inv:
  assumes "build_inv r es" "valid k" "es \<noteq> [] \<Longrightarrow> Compare c (fst (last es)) k < 0"
    and "entries_cost (es @ [(k, v)]) < 2 ^ 32"
  shows "build_inv (TableBuilder_Add wops snappy k v r) (es @ [(k, v)])"
proof -
  from assms(1) obtain ws cur ies where es: "es = all_entries ws cur" and d: "data_inv r ws cur"
    and x: "index_inv r ws cur ies" and f: "filter_state_inv r ws cur" by (auto simp: build_inv_def)
  have lt: "all_entries ws cur \<noteq> [] \<Longrightarrow> Compare c (fst (last (all_entries ws cur))) k < 0"
    using assms(3) es by simp
  have "build_inv (add_entry k v r) (es @ [(k, v)])"
    unfolding build_inv_def es all_entries_snoc [symmetric]
    using add_entry_data [OF d assms(2) lt] add_entry_index [OF d x assms(2) lt] add_entry_filter [OF f assms(2)]
    by blast
  moreover have "build_inv (TableBuilder_Flush wops snappy (add_entry k v r)) (es @ [(k, v)])"
    using Flush_inv [OF calculation assms(4)] flushed_build by metis
  moreover have "ok (tb_status r)" using d by (simp add: data_inv_def ok_iff_OK)
  ultimately show ?thesis by (simp add: TableBuilder_Add_def Let_def)
qed

end

subsection \<open>Building a whole table\<close>

definition TableBuilder_AddAll ::
    "'f WritableFile \<Rightarrow> Snappy \<Rightarrow> (bytes \<times> bytes) list \<Rightarrow> 'f TableBuilder \<Rightarrow> 'f TableBuilder" where
  "TableBuilder_AddAll wops snappy es r = foldl (\<lambda>r (k, v). TableBuilder_Add wops snappy k v r) r es"

definition build_table ::
    "'f WritableFile \<Rightarrow> Snappy \<Rightarrow> Options \<Rightarrow> 'f \<Rightarrow> (bytes \<times> bytes) list \<Rightarrow> (Status \<times> 'f TableBuilder) option" where
  "build_table wops snappy opts f es =
     TableBuilder_Finish wops snappy (TableBuilder_AddAll wops snappy es (TableBuilder_new opts f))"

context table_build
begin

lemma AddAll_inv:
  assumes "fvalid f" "contents f = []" "sorted_entries c valid es" "entries_cost es < 2 ^ 32"
  shows "build_inv (TableBuilder_AddAll wops snappy es (TableBuilder_new opts f)) es"
  using assms(3,4)
proof (induction es rule: rev_induct)
  case Nil
  show ?case
    unfolding build_inv_def TableBuilder_AddAll_def
    using build_new [OF assms(1,2)] by (auto simp: all_entries_def intro!: exI [of _ "[]"])
next
  case (snoc e es)
  obtain k v where e: "e = (k, v)" by (cases e)
  have IH: "build_inv (TableBuilder_AddAll wops snappy es (TableBuilder_new opts f)) es"
    by (rule snoc.IH) (use snoc.prems in \<open>simp_all add: sorted_entries_def sorted_wrt_append\<close>)
  have "build_inv (TableBuilder_Add wops snappy k v (TableBuilder_AddAll wops snappy es (TableBuilder_new opts f))) (es @ [(k, v)])"
    by (rule Add_inv [OF IH]) (use snoc.prems e in \<open>auto simp: sorted_entries_def sorted_wrt_append\<close>)
  then show ?case by (simp add: e TableBuilder_AddAll_def)
qed

end

end
