(* ===== verification/TableFinish.thy ===== *)
theory TableFinish
  imports TableInvariant
begin

section \<open>The layout of a finished table\<close>

text \<open>
  \<open>Finish\<close> closes the last data block, emits its index key, and writes the filter block, the
  metaindex block, the index block and the footer. The result is stated as a layout of the
  file: where each block is stored, what it was built from, and which handles name it.
\<close>

subsection \<open>The layout\<close>

definition stored_at :: "bytes \<Rightarrow> nat \<Rightarrow> bytes \<Rightarrow> CompressionType \<Rightarrow> bool" where
  "stored_at f pos d t \<longleftrightarrow> (\<exists>pre post. f = pre @ stored_block d t @ post \<and> length pre = pos)"

text \<open>The data blocks, and the index entries that name them.\<close>

definition data_layout ::
    "Comparator \<Rightarrow> (bytes \<Rightarrow> bool) \<Rightarrow> Snappy \<Rightarrow> int \<Rightarrow> bytes \<Rightarrow> written list \<Rightarrow> (bytes \<times> bytes) list \<Rightarrow> bool" where
  "data_layout c valid snappy n f ws ies \<longleftrightarrow>
     (\<forall>k < length ws. written_ok snappy n (ws ! k) \<and>
        stored_at f (wpos ws k) (fst (snd (ws ! k))) (snd (snd (ws ! k)))) \<and>
     (\<forall>k < length ws. snd (ies ! k) = BlockHandle_EncodeTo (whandle ws k) []) \<and>
     separated c ies (map fst ws) \<and> separators_exact c (butlast ies) (map fst ws) \<and> sorted_entries c valid ies \<and>
     sorted_entries c valid (concat (map fst ws)) \<and> entries_cost (concat (map fst ws)) < 2 ^ 32 \<and>
     CurrentSizeEstimate (BlockBuilder_AddAll 1 ies BlockBuilder_new) < 2 ^ 32"

definition filter_meta_key :: "FilterPolicy \<Rightarrow> bytes" where
  "filter_meta_key p = ascii ''filter.'' @ ascii (fp_Name p)"

definition filter_admits :: "FilterPolicy \<Rightarrow> bytes \<Rightarrow> written list \<Rightarrow> bool" where
  "filter_admits p fb ws \<longleftrightarrow> (\<forall>k < length ws. \<forall>e \<in> set (fst (ws ! k)).
     FilterBlockReader_KeyMayMatch (word_of_nat (wpos ws k)) (fst e) (FilterBlockReader_new p fb))"

text \<open>The filter block, and the metaindex entry that names it.\<close>

definition filter_layout :: "FilterPolicy option \<Rightarrow> bytes \<Rightarrow> written list \<Rightarrow> (bytes \<times> bytes) list \<Rightarrow> bool" where
  "filter_layout policy f ws metas \<longleftrightarrow>
     (case policy of
        None \<Rightarrow> metas = []
      | Some p \<Rightarrow> \<exists>fpos fb. metas = [(filter_meta_key p, BlockHandle_EncodeTo (handle_at fpos fb) [])] \<and>
          stored_at f fpos fb kNoCompression \<and> (length fb < 2 ^ 32 \<longrightarrow> filter_admits p fb ws))"

text \<open>The metaindex block, the index block and the footer at the end of the file.\<close>

definition footer_layout ::
    "Snappy \<Rightarrow> int \<Rightarrow> bytes \<Rightarrow> (bytes \<times> bytes) list \<Rightarrow> (bytes \<times> bytes) list \<Rightarrow> bool" where
  "footer_layout snappy n f metas ies \<longleftrightarrow> (\<exists>mpos md mt ipos idx it pre.
     stored_at f mpos md mt \<and> stored_at f ipos idx it \<and>
     payload_ok snappy (fst (BlockBuilder_Finish (BlockBuilder_AddAll n metas BlockBuilder_new))) md mt \<and>
     payload_ok snappy (fst (BlockBuilder_Finish (BlockBuilder_AddAll 1 ies BlockBuilder_new))) idx it \<and>
     f = pre @ Footer_EncodeTo \<lparr>metaindex_handle = handle_at mpos md, index_handle = handle_at ipos idx\<rparr> [])"

definition table_layout ::
    "Comparator \<Rightarrow> (bytes \<Rightarrow> bool) \<Rightarrow> Snappy \<Rightarrow> Options \<Rightarrow> bytes \<Rightarrow> written list \<Rightarrow> (bytes \<times> bytes) list \<Rightarrow> bool" where
  "table_layout c valid snappy opts f ws ies \<longleftrightarrow>
     data_layout c valid snappy (block_restart_interval opts) f ws ies \<and>
     (\<exists>metas. filter_layout (opt_filter_policy opts) f ws metas \<and>
        footer_layout snappy (block_restart_interval opts) f metas ies)"

lemma stored_at_append: "stored_at f pos d t \<Longrightarrow> stored_at (f @ g) pos d t"
  by (fastforce simp: stored_at_def)

lemma stored_at_here: "stored_at (pre @ stored_block d t) (length pre) d t"
  unfolding stored_at_def by (intro exI [of _ pre] exI [of _ "[]"]) simp

lemma stored_at_image:
  "k < length ws \<Longrightarrow> stored_at (blocks_image ws) (wpos ws k) (fst (snd (ws ! k))) (snd (snd (ws ! k)))"
  using blocks_image_split [of k ws] by (auto simp: stored_at_def wpos_def)

subsection \<open>Writing the blocks at the end\<close>

context table_build
begin

definition end_state :: "'f TableBuilder \<Rightarrow> bytes \<Rightarrow> bool" where
  "end_state r f \<longleftrightarrow> tb_options r = opts \<and> tb_index_block_options r = opts\<lparr>block_restart_interval := 1\<rparr> \<and>
     tb_status r = OK \<and> fvalid (tb_file r) \<and> contents (tb_file r) = f \<and> tb_offset r = word_of_nat (length f)"

definition same_rest :: "'f TableBuilder \<Rightarrow> 'f TableBuilder \<Rightarrow> bool" where
  "same_rest r r' \<longleftrightarrow> tb_index_block r' = tb_index_block r \<and> tb_last_key r' = tb_last_key r \<and>
     tb_pending_index_entry r' = tb_pending_index_entry r \<and> tb_pending_handle r' = tb_pending_handle r \<and>
     tb_num_entries r' = tb_num_entries r \<and> (tb_filter_block r' = None) = (tb_filter_block r = None)"

lemma same_rest_trans: "same_rest r r' \<Longrightarrow> same_rest r' r'' \<Longrightarrow> same_rest r r''"
  by (simp add: same_rest_def)

lemma end_WriteRawBlock:
  assumes "end_state r f"
  shows "\<exists>r'. WriteRawBlock wops d t r = (handle_at (length f) d, r') \<and>
    end_state r' (f @ stored_block d t) \<and> same_rest r r'"
proof -
  have v: "fvalid (tb_file r)" using assms by (simp add: end_state_def)
  obtain f' where "WriteRawBlock wops d t r = (\<lparr>bh_offset = tb_offset r, bh_size = word_of_nat (length d)\<rparr>,
      r\<lparr>tb_status := OK, tb_file := f', tb_offset := tb_offset r + word_of_nat (length d + kBlockTrailerSize)\<rparr>)"
    "fvalid f'" "contents f' = contents (tb_file r) @ stored_block d t"
    using wf.WriteRawBlock_reliable [OF v, of d t] by blast
  then show ?thesis using assms by (simp add: end_state_def same_rest_def handle_at_def)
qed

lemma end_WriteBlock:
  assumes "end_state r f"
  shows "\<exists>d t r'. WriteBlock wops snappy b r = (BlockBuilder_new, handle_at (length f) d, r') \<and>
    end_state r' (f @ stored_block d t) \<and> same_rest r r' \<and>
    payload_ok snappy (fst (BlockBuilder_Finish b)) d t"
proof -
  have v: "fvalid (tb_file r)" using assms by (simp add: end_state_def)
  obtain d t f' where W: "WriteBlock wops snappy b r =
      (BlockBuilder_new, \<lparr>bh_offset = tb_offset r, bh_size = word_of_nat (length d)\<rparr>,
       r\<lparr>tb_status := OK, tb_file := f', tb_offset := tb_offset r + word_of_nat (length d + kBlockTrailerSize),
         tb_compressed_output := []\<rparr>)"
    "fvalid f'" "contents f' = contents (tb_file r) @ stored_block d t"
    "payload_ok snappy (fst (BlockBuilder_Finish b)) d t"
    using wf.WriteBlock_reliable [OF v, of snappy b] by blast
  show ?thesis
    by (rule exI [of _ d], rule exI [of _ t], rule exI [of _ "r\<lparr>tb_status := OK, tb_file := f',
          tb_offset := tb_offset r + word_of_nat (length d + kBlockTrailerSize), tb_compressed_output := []\<rparr>"])
       (use W assms in \<open>simp add: end_state_def same_rest_def handle_at_def\<close>)
qed

lemma end_filter:
  assumes e: "end_state r f" and f: "filter_state_inv r ws []"
  shows "\<exists>fbb_handle g metas r'. Finish_filter wops r = (fbb_handle, r') \<and> end_state r' (f @ g) \<and> same_rest r r' \<and>
    meta_index_contents fbb_handle r' = Some (BlockBuilder_AddAll (block_restart_interval opts) metas BlockBuilder_new) \<and>
    (opt_filter_policy opts = None \<longrightarrow> g = [] \<and> metas = []) \<and> (\<forall>post. filter_layout (opt_filter_policy opts) (f @ g @ post) ws metas)"
proof (cases "tb_filter_block r")
  case None
  then have none: "opt_filter_policy opts = None" using f by (simp add: filter_state_inv_def)
  show ?thesis
    by (rule exI [of _ BlockHandle_new], rule exI [of _ "[]"], rule exI [of _ "[]"], rule exI [of _ r])
      (use None none e in \<open>simp add: Finish_filter_def meta_index_contents_def filter_layout_def same_rest_def BlockBuilder_AddAll_def\<close>)
next
  case (Some fb)
  then obtain p hist where p: "opt_filter_policy opts = Some p" "filter_inv p valid fb hist" "keys_in_hist ws hist"
    using f by (auto simp: filter_state_inv_def)
  obtain x fb' where fin: "FilterBlock_Finish fb = (x, fb')" by (cases "FilterBlock_Finish fb")
  have e': "end_state (r\<lparr>tb_filter_block := Some fb'\<rparr>) f" using e by (simp add: end_state_def)
  obtain r' where w: "WriteRawBlock wops x kNoCompression (r\<lparr>tb_filter_block := Some fb'\<rparr>) = (handle_at (length f) x, r')"
    "end_state r' (f @ stored_block x kNoCompression)" "same_rest (r\<lparr>tb_filter_block := Some fb'\<rparr>) r'"
    using end_WriteRawBlock [OF e'] by blast
  have adm: "filter_admits p x ws" if "length x < 2 ^ 32"
    using filter_policy.FilterBlock_Finish_reader [OF opts_policy [OF p(1)] p(2)] fin that p(3)
    by (simp add: filter_admits_def keys_in_hist_def)
  let ?metas = "[(filter_meta_key p, BlockHandle_EncodeTo (handle_at (length f) x) [])]"
  have "\<forall>post. filter_layout (opt_filter_policy opts) (f @ stored_block x kNoCompression @ post) ws ?metas"
  proof
    fix post
    have "stored_at (f @ stored_block x kNoCompression @ post) (length f) x kNoCompression"
      by (auto simp: stored_at_def)
    then show "filter_layout (opt_filter_policy opts) (f @ stored_block x kNoCompression @ post) ws ?metas"
      unfolding filter_layout_def p(1) option.case using adm by blast
  qed
  moreover have "Finish_filter wops r = (handle_at (length f) x, r')"
    using Some e fin w(1) by (simp add: Finish_filter_def end_state_def ok_iff_OK)
  moreover have "same_rest r r'" using w(3) Some by (simp add: same_rest_def)
  moreover have "meta_index_contents (handle_at (length f) x) r' =
      Some (BlockBuilder_AddAll (block_restart_interval opts) ?metas BlockBuilder_new)"
    using w(2,3) p(1) by (auto simp: meta_index_contents_def same_rest_def end_state_def filter_meta_key_def BlockBuilder_AddAll_def)
  ultimately show ?thesis using w(2) p(1) by (metis option.distinct(1))
qed

text \<open>The index entries are complete when the last block's has been added.\<close>

lemma handles_distinct:
  assumes "\<forall>k < length ies. snd (ies ! k) = BlockHandle_EncodeTo (whandle ws k) []" "length ies = length ws"
    and "length (blocks_image ws) < 2 ^ 64"
  shows "distinct (map snd ies)"
proof -
  have "snd (ies ! i) \<noteq> snd (ies ! j)" if ij: "i < j" "j < length ies" for i j
  proof
    assume "snd (ies ! i) = snd (ies ! j)"
    then have "whandle ws i = whandle ws j" using assms(1) ij by (simp add: handle_inject)
    then have w: "(word_of_nat (wpos ws i) :: u64) = word_of_nat (wpos ws j)" by (simp add: whandle_def handle_at_def)
    have lt: "wpos ws i < wpos ws j" using wpos_strict ij assms(2) by simp
    moreover have "wpos ws j < 2 ^ 64"
      using wpos_strict [of j "length ws" ws] ij assms(2,3) by simp
    ultimately show False using w unat_of_nat_u64 [of "wpos ws i"] unat_of_nat_u64 [of "wpos ws j"] by simp
  qed
  then show ?thesis by (auto simp: distinct_conv_nth) (metis linorder_neqE_nat)
qed

lemma index_cost:
  assumes "length ies \<le> length ws" "\<forall>k < length ies. length (fst (ies ! k)) \<le> length (fst (last (fst (ws ! k)))) \<and>
      length (snd (ies ! k)) \<le> 20" "\<forall>w \<in> set ws. fst w \<noteq> []"
  shows "entries_cost ies \<le> entries_cost (concat (map fst ws)) + 20 * length ies"
  using assms
proof (induction ies arbitrary: ws)
  case (Cons ie ies)
  then obtain w ws' where ws: "ws = w # ws'" by (cases ws) auto
  have "length (fst ie) \<le> length (fst (last (fst w))) \<and> length (snd ie) \<le> 20"
    using Cons.prems(2) ws by (metis length_greater_0_conv list.distinct(1) nth_Cons_0)
  moreover have "40 + length (fst (last (fst w))) \<le> entries_cost (fst w)"
    using Cons.prems(3) ws by (cases "fst w" rule: rev_cases) auto
  moreover have "entries_cost ies \<le> entries_cost (concat (map fst ws')) + 20 * length ies"
    by (rule Cons.IH) (use Cons.prems ws in force)+
  ultimately show ?case using ws by simp
qed simp

definition index_ready :: "'f TableBuilder \<Rightarrow> 'f TableBuilder" where
  "index_ready r =
     (if tb_pending_index_entry r
      then add_index_entry (r\<lparr>tb_last_key := FindShortSuccessor (opt_comparator (tb_options r)) (tb_last_key r)\<rparr>)
      else r)"

lemma index_complete:
  assumes fl: "flushed_inv r ws ies" and e: "end_state r' f" and same: "same_rest r r'"
  shows "\<exists>ies'. tb_index_block (index_ready r') = BlockBuilder_AddAll 1 ies' BlockBuilder_new \<and>
    between_blocks c ies' (map fst ws) [] \<and> separators_exact c (butlast ies') (map fst ws) \<and> length ies' = length ws \<and> (\<forall>ie \<in> set ies'. valid (fst ie)) \<and>
    (\<forall>k < length ws. length (fst (ies' ! k)) \<le> length (fst (last (fst (ws ! k)))) \<and>
       snd (ies' ! k) = BlockHandle_EncodeTo (whandle ws k) [])"
proof -
  have d: "data_inv r ws []" and x: "index_inv r ws [] ies" using fl by (simp_all add: flushed_inv_def)
  note xx = x [unfolded index_inv_def] and ss = same [unfolded same_rest_def] and ee = e [unfolded end_state_def]
  show ?thesis
  proof (cases "ws = []")
    case True
    then show ?thesis using xx ss by (intro exI [of _ "[]"]) (simp add: index_ready_def between_blocks_def separators_exact_def)
  next
    case False
    let ?n = "length ies"
    have n: "length ws = Suc ?n" using xx False by simp
    note pl = pending_last [OF d False n]
    let ?l = "fst (last (all_entries ws []))"
    let ?suc = "FindShortSuccessor c ?l"
    let ?ie = "(?suc, BlockHandle_EncodeTo (whandle ws ?n) [])"
    have lk: "tb_last_key r = ?l" using xx pl(4) by simp
    have srt: "sorted_entries c valid (all_entries ws [])" using d by (simp add: data_inv_def)
    have vl: "valid ?l" using srt last_in_set [OF pl(4)] by (simp add: sorted_entries_def)
    note su = sc.successor [OF vl]
    have "Compare c (fst e) ?suc \<le> 0" if "e \<in> set (fst (ws ! ?n))" for e
    proof -
      have "e \<in> set (all_entries ws [])" using that n by (auto simp: all_entries_def)
      then show ?thesis
        using sorted_le_last [OF srt, of e] su vl sc.le_trans [of "fst e" ?l ?suc] by simp
    qed
    then have b: "between_blocks c (ies @ [?ie]) (map fst ws) []"
      by (intro between_blocks_last) (use xx n pl(3) in auto)
    have "tb_index_block (index_ready r') = BlockBuilder_AddAll 1 (ies @ [?ie]) BlockBuilder_new"
      using xx ss ee False lk opts_comparator by (simp add: index_ready_def add_index_entry_def Let_def AddAll_append)
    moreover have "length ?suc \<le> length (fst (last (fst (ws ! ?n))))"
      using sc.successor_short [of ?l] pl(1) by simp
    moreover have "\<forall>ie \<in> set (ies @ [?ie]). valid (fst ie)" using xx su by auto
    moreover have "separators_exact c ies (map fst ws)"
      using xx n separators_exact_extend [of ies "map fst ws" c "[[]]"] by simp
    ultimately show ?thesis
      using b xx n by (intro exI [of _ "ies @ [?ie]"]) (auto simp: nth_append less_Suc_eq)
  qed
qed

lemma index_ready_state: "end_state r f \<Longrightarrow> end_state (index_ready r) f" "tb_num_entries (index_ready r) = tb_num_entries r"
  by (simp_all add: index_ready_def add_index_entry_def Let_def end_state_def)

text \<open>The complete index separates the blocks in the sense the two-level iterator needs.\<close>

lemma index_separated:
  assumes b: "between_blocks c ies (map fst ws) []" and len: "length ies = length ws"
    and v: "\<forall>ie \<in> set ies. valid (fst ie)" and ne: "\<forall>w \<in> set ws. fst w \<noteq> []"
    and srt: "sorted_entries c valid (concat (map fst ws))" and dist: "distinct (map snd ies)"
  shows "separated c ies (map fst ws)" "sorted_entries c valid ies"
proof -
  have le: "Compare c (fst e) (fst (ies ! k)) \<le> 0" if "k < length ws" "e \<in> set (fst (ws ! k))" for k e
    using b that len by (simp add: between_blocks_def)
  have lt: "Compare c (fst (ies ! k)) (fst e) < 0" if "k < j" "j < length ws" "e \<in> set (fst (ws ! j))" for k j e
  proof -
    have "fst (ws ! j) \<in> set (drop (Suc k) (map fst ws))"
      using that by (auto simp: in_set_conv_nth intro!: exI [of _ "j - Suc k"])
    then have "e \<in> set (concat (drop (Suc k) (map fst ws))) \<union> set []" using that(3) by auto
    moreover have "k < length ies" using that len by simp
    ultimately show ?thesis using b unfolding between_blocks_def by blast
  qed
  show "separated c ies (map fst ws)"
    unfolding separated_def using len dist le lt by simp
  have "Compare c (fst (ies ! i)) (fst (ies ! j)) < 0" if ij: "i < j" "j < length ies" for i j
  proof -
    obtain e where e: "e \<in> set (fst (ws ! j))" using ne ij len by (metis hd_in_set nth_mem)
    then have ve: "valid (fst e)" using srt ij len by (auto simp: sorted_entries_def)
    have "Compare c (fst (ies ! i)) (fst e) < 0" "Compare c (fst e) (fst (ies ! j)) \<le> 0"
      using lt [OF ij(1) _ e] le [OF _ e] ij len by auto
    then show ?thesis using sc.lt_le_trans [of "fst (ies ! i)" "fst e" "fst (ies ! j)"] v ve ij by simp
  qed
  then show "sorted_entries c valid ies"
    using v by (simp add: sorted_entries_def sorted_wrt_iff_nth_less)
qed

subsection \<open>The finished file\<close>

lemma end_footer:
  assumes "end_state r f"
  shows "\<exists>r'. Finish_footer wops mh ih r = r' \<and>
    end_state r' (f @ Footer_EncodeTo \<lparr>metaindex_handle = mh, index_handle = ih\<rparr> []) \<and> same_rest r r'"
proof -
  let ?e = "Footer_EncodeTo \<lparr>metaindex_handle = mh, index_handle = ih\<rparr> []"
  obtain s f' where a: "wf_Append wops (tb_file r) ?e = (s, f')" by (cases "wf_Append wops (tb_file r) ?e")
  have v: "fvalid (tb_file r)" using assms by (simp add: end_state_def)
  have s: "s = OK" "fvalid f'" "contents f' = contents (tb_file r) @ ?e"
    using wf.append_succeeds [OF v, of ?e] wf.append_valid [OF v a] wf.append_ok [OF v a] a by (simp_all add: ok_iff_OK)
  have "Finish_footer wops mh ih r = r\<lparr>tb_status := OK, tb_file := f', tb_offset := tb_offset r + word_of_nat (length ?e)\<rparr>"
    using assms a s(1) by (simp add: Finish_footer_def end_state_def ok_iff_OK Let_def)
  then show ?thesis using s assms by (simp add: end_state_def same_rest_def)
qed

lemma flushed_closed: "flushed_inv (r\<lparr>tb_closed := b\<rparr>) ws ies \<longleftrightarrow> flushed_inv r ws ies"
  by (cases "tb_filter_block r") (simp_all add: flushed_inv_def data_inv_def index_inv_def filter_state_inv_def)

lemma Finish_layout:
  assumes inv: "build_inv r es" and small: "entries_cost es < 2 ^ 31"
  shows "\<exists>r' ws ies. TableBuilder_Finish wops snappy r = Some (OK, r') \<and> fvalid (tb_file r') \<and> tb_num_entries r' = int (length es) \<and>
    tb_offset r' = word_of_nat (length (contents (tb_file r'))) \<and> es = concat (map fst ws) \<and>
    table_layout c valid snappy opts (contents (tb_file r')) ws ies \<and>
    (opt_filter_policy opts = None \<longrightarrow> length (contents (tb_file r')) \<le> 100 + 3 * entries_cost es)"
proof -
  let ?n = "block_restart_interval opts"
  have small32: "entries_cost es < 2 ^ 32" using small by simp
  define r0 where "r0 = (TableBuilder_Flush wops snappy r)\<lparr>tb_closed := True\<rparr>"
  obtain ws ies where es: "es = all_entries ws []" and fl: "flushed_inv r0 ws ies"
    using Flush_inv [OF inv small32] unfolding r0_def flushed_closed by blast
  have d: "data_inv r0 ws []" and flt: "filter_state_inv r0 ws []" using fl by (simp_all add: flushed_inv_def)
  note dd = d [unfolded data_inv_def]
  have es': "es = concat (map fst ws)" using es by (simp add: all_entries_def)
  have e0: "end_state r0 (blocks_image ws)" using dd by (simp add: end_state_def)
  obtain fh g metas r1 where f1: "Finish_filter wops r0 = (fh, r1)" "end_state r1 (blocks_image ws @ g)" "same_rest r0 r1"
    "meta_index_contents fh r1 = Some (BlockBuilder_AddAll ?n metas BlockBuilder_new)"
    "opt_filter_policy opts = None \<longrightarrow> g = [] \<and> metas = []"
    "\<forall>post. filter_layout (opt_filter_policy opts) (blocks_image ws @ g @ post) ws metas"
    using end_filter [OF e0 flt] by (elim exE conjE) (rule that; assumption)
  obtain md mt r2 where f2: "WriteBlock wops snappy (BlockBuilder_AddAll ?n metas BlockBuilder_new) r1 =
      (BlockBuilder_new, handle_at (length (blocks_image ws @ g)) md, r2)"
    "end_state r2 ((blocks_image ws @ g) @ stored_block md mt)" "same_rest r1 r2"
    "payload_ok snappy (fst (BlockBuilder_Finish (BlockBuilder_AddAll ?n metas BlockBuilder_new))) md mt"
    using end_WriteBlock [OF f1(2), of "BlockBuilder_AddAll ?n metas BlockBuilder_new"] by (elim exE conjE) (rule that; assumption)
  have s02: "same_rest r0 r2" using same_rest_trans f1(3) f2(3) by blast
  obtain ies' where ix: "tb_index_block (index_ready r2) = BlockBuilder_AddAll 1 ies' BlockBuilder_new"
    "between_blocks c ies' (map fst ws) []" "separators_exact c (butlast ies') (map fst ws)" "length ies' = length ws" "\<forall>ie \<in> set ies'. valid (fst ie)"
    "\<forall>k < length ws. length (fst (ies' ! k)) \<le> length (fst (last (fst (ws ! k)))) \<and>
       snd (ies' ! k) = BlockHandle_EncodeTo (whandle ws k) []"
    using index_complete [OF fl f2(2) s02] by (elim exE conjE) (rule that; assumption)
  let ?F2 = "(blocks_image ws @ g) @ stored_block md mt"
  obtain idx it r3 where f3: "WriteBlock wops snappy (tb_index_block (index_ready r2)) (index_ready r2) =
      (BlockBuilder_new, handle_at (length ?F2) idx, r3)"
    "end_state r3 (?F2 @ stored_block idx it)" "same_rest (index_ready r2) r3"
    "payload_ok snappy (fst (BlockBuilder_Finish (tb_index_block (index_ready r2)))) idx it"
    using end_WriteBlock [OF index_ready_state(1) [OF f2(2)], of "tb_index_block (index_ready r2)"] by (elim exE conjE) (rule that; assumption)
  let ?mh = "handle_at (length (blocks_image ws @ g)) md" and ?ih = "handle_at (length ?F2) idx"
  have e3: "end_state (r3\<lparr>tb_index_block := BlockBuilder_new\<rparr>) (?F2 @ stored_block idx it)"
    using f3(2) by (simp add: end_state_def)
  obtain r4 where f4: "Finish_footer wops ?mh ?ih (r3\<lparr>tb_index_block := BlockBuilder_new\<rparr>) = r4"
    "end_state r4 ((?F2 @ stored_block idx it) @ Footer_EncodeTo \<lparr>metaindex_handle = ?mh, index_handle = ?ih\<rparr> [])"
    "same_rest (r3\<lparr>tb_index_block := BlockBuilder_new\<rparr>) r4"
    using end_footer [OF e3] by blast
  define F where "F = (?F2 @ stored_block idx it) @ Footer_EncodeTo \<lparr>metaindex_handle = ?mh, index_handle = ?ih\<rparr> []"
  have okr: "ok (tb_status r1)" "ok (tb_status r2)" "tb_status r4 = OK"
    using f1(2) f2(2) f4(2) by (simp_all add: end_state_def ok_iff_OK)
  have fin: "TableBuilder_Finish wops snappy r = Some (OK, r4)"
    unfolding TableBuilder_Finish_def Let_def r0_def [symmetric] f1(1) split Finish_metaindex_def f1(4)
    using okr f2(1) f3(1) f4(1) by (simp add: Finish_index_def index_ready_def [symmetric] Let_def)
  have cost: "entries_cost (concat (map fst ws)) < 2 ^ 31" using small es' by simp
  have wok: "\<forall>w \<in> set ws. written_ok snappy ?n w" using dd by simp
  have ne: "\<forall>w \<in> set ws. fst w \<noteq> []" using wok by (simp add: written_ok_def)
  have lim: "length (blocks_image ws) < 2 ^ 64" using blocks_image_length [OF wok] cost by simp
  have hs: "\<forall>k < length ies'. snd (ies' ! k) = BlockHandle_EncodeTo (whandle ws k) []" using ix(4,6) by simp
  have srt: "sorted_entries c valid (concat (map fst ws))" using dd by (simp add: all_entries_def)
  note sp = index_separated [OF ix(2,4,5) ne srt handles_distinct [OF hs ix(4) lim]]
  have idxcost: "CurrentSizeEstimate (BlockBuilder_AddAll 1 ies' BlockBuilder_new) \<le> 8 + entries_cost (concat (map fst ws))"
  proof -
    have "entries_cost ies' \<le> entries_cost (concat (map fst ws)) + 20 * length ies'"
    proof (rule index_cost [OF _ _ ne])
      show "\<forall>k < length ies'. length (fst (ies' ! k)) \<le> length (fst (last (fst (ws ! k)))) \<and> length (snd (ies' ! k)) \<le> 20"
        using ix(4,6) length_BlockHandle_EncodeTo by (simp add: kMaxEncodedLength_def)
    qed (use ix(4) in simp)
    then show ?thesis
      using CurrentSizeEstimate_AddAll [of 1 ies'] by simp
  qed
  then have idxsize: "CurrentSizeEstimate (BlockBuilder_AddAll 1 ies' BlockBuilder_new) < 2 ^ 32" using cost by simp
  have F': "F = blocks_image ws @ g @ stored_block md mt @ stored_block idx it @
      Footer_EncodeTo \<lparr>metaindex_handle = ?mh, index_handle = ?ih\<rparr> []" by (simp add: F_def)
  have "data_layout c valid snappy ?n F ws ies'"
    unfolding data_layout_def F'
    using wok ix(3,6) sp srt cost idxsize stored_at_append [OF stored_at_image] by simp
  moreover have "filter_layout (opt_filter_policy opts) F ws metas" unfolding F' using f1(6) by blast
  moreover have "footer_layout snappy ?n F metas ies'"
  proof -
    have "stored_at F (length (blocks_image ws @ g)) md mt" "stored_at F (length ?F2) idx it"
      unfolding F_def by (intro stored_at_append stored_at_here)+
    then show ?thesis
      unfolding footer_layout_def using f2(4) f3(4) ix(1) F_def by metis
  qed
  ultimately have lay: "table_layout c valid snappy opts F ws ies'" unfolding table_layout_def by blast
  have c4: "fvalid (tb_file r4)" "contents (tb_file r4) = F" "tb_offset r4 = word_of_nat (length F)"
    using f4(2) by (simp_all add: end_state_def F_def)
  have "tb_num_entries r4 = int (length es)"
    using f4(3) f3(3) s02 index_ready_state(2) [of r2] dd es by (simp add: same_rest_def)
  moreover have "length F \<le> 100 + 3 * entries_cost es" if "opt_filter_policy opts = None"
  proof -
    have "g = []" "metas = []" using f1(5) that by auto
    moreover have "length md \<le> CurrentSizeEstimate (BlockBuilder_AddAll ?n metas BlockBuilder_new)"
      "length idx \<le> CurrentSizeEstimate (BlockBuilder_AddAll 1 ies' BlockBuilder_new)"
      using payload_length [OF f2(4)] payload_length [OF f3(4)] ix(1) by (simp_all add: length_Finish)
    moreover have "length (blocks_image ws) \<le> entries_cost es" using blocks_image_length [OF wok] es' by simp
    moreover have "CurrentSizeEstimate (BlockBuilder_AddAll ?n [] BlockBuilder_new) \<le> 8"
      using CurrentSizeEstimate_AddAll [of ?n "[]"] by simp
    ultimately show ?thesis
      using idxcost es' Footer_Decode_Encode(2) [of "\<lparr>metaindex_handle = ?mh, index_handle = ?ih\<rparr>"]
      by (simp add: F' kBlockTrailerSize_def kEncodedLength_def kMaxEncodedLength_def)
  qed
  ultimately show ?thesis using fin lay c4 es' by (intro exI [of _ r4] exI [of _ ws] exI [of _ ies']) simp
qed

end

text \<open>The builder on the in-memory environment, with the built-in comparator and filter policy.\<close>

interpretation mem_table: table_build mem_writable "wr_contents f" "wr_valid H C f a"
  BytewiseComparator "\<lambda>_. True" "Options_new\<lparr>opt_filter_policy := Some (NewBloomFilterPolicy n)\<rparr>" no_snappy
  for H C f a n
proof (intro table_build.intro mem_wr.reliable_writable_file_axioms bytewise_short.short_comparator_axioms
    table_build_axioms.intro)
  show "opt_comparator (Options_new\<lparr>opt_filter_policy := Some (NewBloomFilterPolicy n)\<rparr>) = BytewiseComparator"
    by (simp add: Options_new_def)
  fix p
  assume "opt_filter_policy (Options_new\<lparr>opt_filter_policy := Some (NewBloomFilterPolicy n)\<rparr>) = Some p"
  then show "filter_policy p (\<lambda>_. True)" using bloom.filter_policy_axioms by auto
qed

end
