(* ===== verification/Table.thy ===== *)
theory Table
  imports TableFinish
begin

section \<open>Table reader (\<^verbatim>\<open>table/table.cc\<close>)\<close>

text \<open>
  \<open>Open\<close> reads the footer, the index block and the filter of a table file; an iterator of the
  table is a two-level iterator over the index block, and \<open>InternalGet\<close> looks one key up
  through the filter. The file's methods are the argument \<open>rops\<close>; \<open>in_scratch\<close> tells whether
  they copy into the caller's buffer. The value \<open>None\<close> is a read outside of memory the code
  owns. This is the code without a block cache (\<open>options.block_cache == nullptr\<close>); the
  release of blocks by an iterator's cleanup functions has no counterpart.

  The theorem is the round trip with the builder: a table built from sorted entries opens,
  and its iterator and its lookups answer from exactly these entries.
\<close>

subsection \<open>A block's iterator, of either kind\<close>

definition BlockIterator_ops :: "BlockIterator Iterator" where
  "BlockIterator_ops =
     \<lparr>it_Valid = (\<lambda>b. case b of ErrorOrEmpty s \<Rightarrow> it_Valid EmptyIterator_ops s | Iter it \<Rightarrow> it_Valid BlockIter_ops it),
      it_Seek = (\<lambda>t b. case b of ErrorOrEmpty s \<Rightarrow> map_option ErrorOrEmpty (it_Seek EmptyIterator_ops t s)
                     | Iter it \<Rightarrow> map_option Iter (it_Seek BlockIter_ops t it)),
      it_SeekToFirst = (\<lambda>b. case b of ErrorOrEmpty s \<Rightarrow> map_option ErrorOrEmpty (it_SeekToFirst EmptyIterator_ops s)
                     | Iter it \<Rightarrow> map_option Iter (it_SeekToFirst BlockIter_ops it)),
      it_SeekToLast = (\<lambda>b. case b of ErrorOrEmpty s \<Rightarrow> map_option ErrorOrEmpty (it_SeekToLast EmptyIterator_ops s)
                     | Iter it \<Rightarrow> map_option Iter (it_SeekToLast BlockIter_ops it)),
      it_Next = (\<lambda>b. case b of ErrorOrEmpty s \<Rightarrow> map_option ErrorOrEmpty (it_Next EmptyIterator_ops s)
                     | Iter it \<Rightarrow> map_option Iter (it_Next BlockIter_ops it)),
      it_Prev = (\<lambda>b. case b of ErrorOrEmpty s \<Rightarrow> map_option ErrorOrEmpty (it_Prev EmptyIterator_ops s)
                     | Iter it \<Rightarrow> map_option Iter (it_Prev BlockIter_ops it)),
      it_key = (\<lambda>b. case b of ErrorOrEmpty s \<Rightarrow> it_key EmptyIterator_ops s | Iter it \<Rightarrow> it_key BlockIter_ops it),
      it_value = (\<lambda>b. case b of ErrorOrEmpty s \<Rightarrow> it_value EmptyIterator_ops s | Iter it \<Rightarrow> it_value BlockIter_ops it),
      it_status = (\<lambda>b. case b of ErrorOrEmpty s \<Rightarrow> it_status EmptyIterator_ops s | Iter it \<Rightarrow> it_status BlockIter_ops it)\<rparr>"

subsection \<open>Opening a table\<close>

record 'f Table =
  tbl_options :: Options
  tbl_status :: Status
  tbl_file :: 'f
  tbl_cache_id :: u64
  tbl_filter :: "FilterBlockReader option"
  tbl_filter_data :: "bytes option"
  tbl_metaindex_handle :: BlockHandle
  tbl_index_block :: Block

definition meta_read_options :: "Options \<Rightarrow> ReadOptions" where
  "meta_read_options options =
     (let opt = ReadOptions_new in if paranoid_checks options then opt\<lparr>verify_checksums := True\<rparr> else opt)"

definition ReadFilter ::
    "'f RandomAccessFile \<Rightarrow> bool \<Rightarrow> Snappy \<Rightarrow> FilterPolicy \<Rightarrow> bytes \<Rightarrow> 'f Table \<Rightarrow> 'f Table option" where
  "ReadFilter rops in_scratch snappy policy filter_handle_value table =
     (let (s, v, filter_handle) = BlockHandle_DecodeFrom BlockHandle_new filter_handle_value
      in if \<not> ok s then Some table
         else
           Option.bind (ReadBlock rops in_scratch snappy (tbl_file table) (meta_read_options (tbl_options table)) filter_handle)
             (\<lambda>(s, block).
               if \<not> ok s then Some table
               else
                 (let table = (if heap_allocated block then table\<lparr>tbl_filter_data := Some (bc_data block)\<rparr> else table)
                  in Some (table\<lparr>tbl_filter := Some (FilterBlockReader_new policy (bc_data block))\<rparr>))))"

definition ReadMeta ::
    "'f RandomAccessFile \<Rightarrow> bool \<Rightarrow> Snappy \<Rightarrow> Footer \<Rightarrow> 'f Table \<Rightarrow> 'f Table option" where
  "ReadMeta rops in_scratch snappy footer table =
     (case opt_filter_policy (tbl_options table) of
        None \<Rightarrow> Some table
      | Some policy \<Rightarrow>
          Option.bind (ReadBlock rops in_scratch snappy (tbl_file table) (meta_read_options (tbl_options table))
              (metaindex_handle footer)) (\<lambda>(s, contents).
            if \<not> ok s then Some table
            else
              (let meta = Block_new contents;
                   iter = Block_NewIterator BytewiseComparator meta;
                   key = ascii ''filter.'' @ ascii (fp_Name policy)
               in Option.bind (it_Seek BlockIterator_ops key iter) (\<lambda>iter.
                    if it_Valid BlockIterator_ops iter \<and> Slice_eq (it_key BlockIterator_ops iter) key
                    then Option.bind (it_value BlockIterator_ops iter) (\<lambda>v.
                           ReadFilter rops in_scratch snappy policy v table)
                    else Some table))))"

definition Table_Open ::
    "'f RandomAccessFile \<Rightarrow> bool \<Rightarrow> Snappy \<Rightarrow> Options \<Rightarrow> 'f \<Rightarrow> nat \<Rightarrow> (Status \<times> 'f Table option) option" where
  "Table_Open rops in_scratch snappy options f fsize =
     (if fsize < kEncodedLength then Some (Corruption (ascii ''file is too short to be an sstable'') [], None)
      else
        (let (s, footer_input) = raf_Read rops f (fsize - kEncodedLength) kEncodedLength
         in if \<not> ok s then Some (s, None)
            else
              (let (s, footer_input, footer) =
                     Footer_DecodeFrom \<lparr>metaindex_handle = BlockHandle_new, index_handle = BlockHandle_new\<rparr> footer_input
               in if \<not> ok s then Some (s, None)
                  else
                    Option.bind (ReadBlock rops in_scratch snappy f (meta_read_options options) (index_handle footer))
                      (\<lambda>(s, index_block_contents).
                        if ok s then
                          (let index_block = Block_new index_block_contents;
                               table = \<lparr>tbl_options = options, tbl_status = OK, tbl_file = f, tbl_cache_id = 0,
                                        tbl_filter = None, tbl_filter_data = None,
                                        tbl_metaindex_handle = metaindex_handle footer,
                                        tbl_index_block = index_block\<rparr>
                           in map_option (\<lambda>table. (s, Some table)) (ReadMeta rops in_scratch snappy footer table))
                        else Some (s, None)))))"

subsection \<open>Reading from it\<close>

definition BlockReader ::
    "'f RandomAccessFile \<Rightarrow> bool \<Rightarrow> Snappy \<Rightarrow> 'f Table \<Rightarrow> ReadOptions \<Rightarrow> bytes \<Rightarrow> BlockIterator option" where
  "BlockReader rops in_scratch snappy table options index_value =
     (let (s, input, handle) = BlockHandle_DecodeFrom BlockHandle_new index_value
      in if ok s then
           Option.bind (ReadBlock rops in_scratch snappy (tbl_file table) options handle) (\<lambda>(s, contents).
             if ok s then Some (Block_NewIterator (opt_comparator (tbl_options table)) (Block_new contents))
             else Some (ErrorOrEmpty (NewErrorIterator s)))
         else Some (ErrorOrEmpty (NewErrorIterator s)))"

type_synonym TableIterator = "(BlockIterator, BlockIterator) TwoLevelIterator"

definition Table_NewIterator :: "'f Table \<Rightarrow> TableIterator" where
  "Table_NewIterator table =
     NewTwoLevelIterator BlockIterator_ops
       (Block_NewIterator (opt_comparator (tbl_options table)) (tbl_index_block table))"

definition TableIterator_ops ::
    "'f RandomAccessFile \<Rightarrow> bool \<Rightarrow> Snappy \<Rightarrow> 'f Table \<Rightarrow> ReadOptions \<Rightarrow> TableIterator Iterator" where
  "TableIterator_ops rops in_scratch snappy table options =
     TwoLevelIterator_ops BlockIterator_ops BlockIterator_ops (BlockReader rops in_scratch snappy table options)"

text \<open>The result is the status and the entry that is handed to \<open>handle_result\<close>, if any.\<close>

definition InternalGet ::
    "'f RandomAccessFile \<Rightarrow> bool \<Rightarrow> Snappy \<Rightarrow> 'f Table \<Rightarrow> ReadOptions \<Rightarrow> bytes \<Rightarrow>
     (Status \<times> (bytes \<times> bytes) option) option" where
  "InternalGet rops in_scratch snappy table options k =
     (let iiter = Block_NewIterator (opt_comparator (tbl_options table)) (tbl_index_block table)
      in Option.bind (it_Seek BlockIterator_ops k iiter) (\<lambda>iiter.
         Option.bind
           (if it_Valid BlockIterator_ops iiter then
              Option.bind (it_value BlockIterator_ops iiter) (\<lambda>handle_value.
                let (hs, rest, handle) = BlockHandle_DecodeFrom BlockHandle_new handle_value
                in if tbl_filter table \<noteq> None \<and> ok hs \<and>
                      \<not> FilterBlockReader_KeyMayMatch (bh_offset handle) k (the (tbl_filter table))
                   then Some (OK, None)
                   else
                     Option.bind (BlockReader rops in_scratch snappy table options handle_value) (\<lambda>block_iter.
                     Option.bind (it_Seek BlockIterator_ops k block_iter) (\<lambda>block_iter.
                     Option.bind
                       (if it_Valid BlockIterator_ops block_iter
                        then map_option (\<lambda>v. Some (it_key BlockIterator_ops block_iter, v)) (it_value BlockIterator_ops block_iter)
                        else Some None) (\<lambda>found.
                     Some (it_status BlockIterator_ops block_iter, found)))))
            else Some (OK, None)) (\<lambda>(s, found).
         Some (if ok s then it_status BlockIterator_ops iiter else s, found))))"

definition Table_ApproximateOffsetOf :: "bytes \<Rightarrow> 'f Table \<Rightarrow> u64 option" where
  "Table_ApproximateOffsetOf key table =
     (let index_iter = Block_NewIterator (opt_comparator (tbl_options table)) (tbl_index_block table)
      in Option.bind (it_Seek BlockIterator_ops key index_iter) (\<lambda>index_iter.
           if it_Valid BlockIterator_ops index_iter then
             Option.bind (it_value BlockIterator_ops index_iter) (\<lambda>input.
               let (s, input, handle) = BlockHandle_DecodeFrom BlockHandle_new input
               in Some (if ok s then bh_offset handle else bh_offset (tbl_metaindex_handle table)))
           else Some (bh_offset (tbl_metaindex_handle table))))"

subsection \<open>The contract of a block's iterator\<close>

definition block_iter_at ::
    "Comparator \<Rightarrow> (bytes \<Rightarrow> bool) \<Rightarrow> BlockIterator \<Rightarrow> (bytes \<times> bytes) list \<Rightarrow> nat \<Rightarrow> bool" where
  "block_iter_at c valid b es i \<longleftrightarrow> (case b of ErrorOrEmpty s \<Rightarrow> False | Iter it \<Rightarrow> block_at c valid it es i)"

lemma block_iter_at_simps [simp]:
  "block_iter_at c valid (Iter it) es i = block_at c valid it es i"
  "block_iter_at c valid (ErrorOrEmpty s) es i = False"
  by (simp_all add: block_iter_at_def)

context comparator
begin

sublocale bis: iterator c valid BlockIterator_ops "block_iter_at c valid"
proof
  fix b es i t
  assume "block_iter_at c valid b es i"
  then obtain it where b: "b = Iter it" and at: "block_at c valid it es i"
    by (auto simp: block_iter_at_def split: BlockIterator.splits)
  note [simp] = BlockIterator_ops_def b
  show "sorted_entries c valid es" "i \<le> length es" "it_Valid BlockIterator_ops b \<longleftrightarrow> i < length es"
    "ok (it_status BlockIterator_ops b)"
    using bi.at_sorted [OF at] bi.at_le [OF at] bi.at_Valid [OF at] bi.at_status [OF at] by simp_all
  show "\<exists>b'. it_SeekToFirst BlockIterator_ops b = Some b' \<and> block_iter_at c valid b' es 0"
    "\<exists>b'. it_SeekToLast BlockIterator_ops b = Some b' \<and> block_iter_at c valid b' es (length es - 1)"
    using bi.at_SeekToFirst [OF at] bi.at_SeekToLast [OF at] by fastforce+
  show "\<exists>b'. it_Seek BlockIterator_ops t b = Some b' \<and> block_iter_at c valid b' es (first_ge c es t)" if "valid t"
    using bi.at_Seek [OF at that] by fastforce
  assume i: "i < length es"
  show "it_key BlockIterator_ops b = fst (es ! i)" "it_value BlockIterator_ops b = Some (snd (es ! i))"
    using bi.at_key [OF at i] bi.at_value [OF at i] by simp_all
  show "\<exists>b'. it_Next BlockIterator_ops b = Some b' \<and> block_iter_at c valid b' es (Suc i)"
    "\<exists>b'. it_Prev BlockIterator_ops b = Some b' \<and> block_iter_at c valid b' es (if i = 0 then length es else i - 1)"
    using bi.at_Next [OF at i] bi.at_Prev [OF at i] by fastforce+
qed

lemma bis_iterator: "iterator c valid BlockIterator_ops (block_iter_at c valid)"
  by (rule bis.iterator_axioms)

lemma two_level_blocks: "two_level c valid BlockIterator_ops (block_iter_at c valid) BlockIterator_ops (block_iter_at c valid)"
  by (intro two_level.intro bis_iterator)

end

text \<open>A block built from sorted entries, as an iterator.\<close>

lemma block_iter_built:
  assumes "sorted_entries c valid es"
    and "CurrentSizeEstimate (BlockBuilder_AddAll n es BlockBuilder_new) < 2 ^ 32"
    and "bc_data contents = fst (BlockBuilder_Finish (BlockBuilder_AddAll n es BlockBuilder_new))"
  shows "block_iter_at c valid (Block_NewIterator c (Block_new contents)) es (length es)"
  using block_built [OF assms] by (auto simp: block_iter_at_def)

subsection \<open>Opening and reading a finished table\<close>

text \<open>
  What a Snappy library promises: what it compressed, from less than 4 GB, it restores. The
  port without the library compresses nothing.
\<close>

definition snappy_ok :: "Snappy \<Rightarrow> bool" where
  "snappy_ok snappy \<longleftrightarrow> (\<forall>raw d. length raw < 2 ^ 32 \<longrightarrow> Snappy_Compress snappy raw = Some d \<longrightarrow>
     Snappy_GetUncompressedLength snappy d = Some (length raw) \<and> Snappy_Uncompress snappy d = Some raw)"

lemma snappy_ok_none: "snappy_ok no_snappy"
  by (simp add: snappy_ok_def no_snappy_def)

text \<open>An opened table: its index iterator, its filter and its blocks are those of the layout.\<close>

definition table_opened ::
    "Comparator \<Rightarrow> (bytes \<Rightarrow> bool) \<Rightarrow> Snappy \<Rightarrow> Options \<Rightarrow> bytes \<Rightarrow> 'f Table \<Rightarrow> 'f \<Rightarrow> written list \<Rightarrow> (bytes \<times> bytes) list \<Rightarrow> bool" where
  "table_opened c valid snappy opts img table f ws ies \<longleftrightarrow> tbl_options table = opts \<and> tbl_file table = f \<and>
     data_layout c valid snappy (block_restart_interval opts) img ws ies \<and>
     block_iter_at c valid (Block_NewIterator c (tbl_index_block table)) ies (length ies) \<and>
     (case opt_filter_policy opts of
        None \<Rightarrow> tbl_filter table = None
      | Some p \<Rightarrow> \<exists>fb. tbl_filter table = Some (FilterBlockReader_new p fb) \<and> filter_admits p fb ws)"

lemma sorted_entries_mid: "sorted_entries c valid (xs @ ys @ zs) \<Longrightarrow> sorted_entries c valid ys"
  by (simp add: sorted_entries_def sorted_wrt_append)

locale table_reader = rf: random_access_file rops contents fvalid + sc: comparator c valid
  for rops :: "'f RandomAccessFile" and contents fvalid and c :: Comparator and valid +
  fixes opts :: Options and snappy :: Snappy and in_scratch :: bool
  assumes opts_comparator: "opt_comparator opts = c" and snappy: "snappy_ok snappy"
    and policy_name: "opt_filter_policy opts = Some p \<Longrightarrow> length (fp_Name p) < 2 ^ 31"
begin

lemma read_stored:
  assumes f: "fvalid f" "length (contents f) < 2 ^ 64" and at: "stored_at (contents f) pos d t"
    and pl: "payload_ok snappy raw d t" and small: "length raw < 2 ^ 32"
  shows "\<exists>bc. ReadBlock rops in_scratch snappy f options (handle_at pos d) = Some (OK, bc) \<and> bc_data bc = raw"
proof -
  from at obtain pre post where c: "contents f = pre @ stored_block d t @ post" and pos: "length pre = pos"
    by (auto simp: stored_at_def)
  have sz: "length pre < 2 ^ 64" "length d + kBlockTrailerSize < 2 ^ 64" using f(2) c by simp_all
  have h: "handle_at pos d = \<lparr>bh_offset = word_of_nat (length pre), bh_size = word_of_nat (length d)\<rparr>"
    by (simp add: handle_at_def pos)
  note R = rf.ReadBlock_stored [OF f(1) c h sz, of in_scratch snappy options]
  show ?thesis
  proof (cases t)
    case kNoCompression
    then show ?thesis using R pl by (auto simp: payload_ok_def)
  next
    case kSnappyCompression
    then show ?thesis using R pl snappy small by (auto simp: payload_ok_def snappy_ok_def)
  qed
qed

lemma read_built:
  assumes f: "fvalid f" "length (contents f) < 2 ^ 64" and at: "stored_at (contents f) pos d t"
    and pl: "payload_ok snappy (fst (BlockBuilder_Finish (BlockBuilder_AddAll n es BlockBuilder_new))) d t"
    and small: "CurrentSizeEstimate (BlockBuilder_AddAll n es BlockBuilder_new) < 2 ^ 32"
    and srt: "sorted_entries c' valid' es"
  shows "\<exists>bc. ReadBlock rops in_scratch snappy f options (handle_at pos d) = Some (OK, bc) \<and>
    block_iter_at c' valid' (Block_NewIterator c' (Block_new bc)) es (length es)"
proof -
  obtain bc where bc: "ReadBlock rops in_scratch snappy f options (handle_at pos d) = Some (OK, bc)"
    "bc_data bc = fst (BlockBuilder_Finish (BlockBuilder_AddAll n es BlockBuilder_new))"
    using read_stored [OF f at pl, of options] small by (auto simp: length_Finish)
  show ?thesis using bc(1) block_iter_built [OF srt small bc(2)] by blast
qed

text \<open>The blocks of the layout through \<open>BlockReader\<close>.\<close>

lemma BlockReader_ok:
  assumes o: "table_opened c valid snappy opts (contents f) table f ws ies" and f: "fvalid f" "length (contents f) < 2 ^ 64"
    and k: "k < length ws"
  shows "\<exists>b. BlockReader rops in_scratch snappy table options (snd (ies ! k)) = Some b \<and>
    block_iter_at c valid b (fst (ws ! k)) (length (fst (ws ! k)))"
proof -
  let ?w = "ws ! k" and ?n = "block_restart_interval opts"
  have lay: "data_layout c valid snappy ?n (contents f) ws ies" using o by (simp add: table_opened_def)
  have w: "written_ok snappy ?n ?w" "stored_at (contents f) (wpos ws k) (fst (snd ?w)) (snd (snd ?w))"
    "snd (ies ! k) = BlockHandle_EncodeTo (whandle ws k) []"
    using lay k by (simp_all add: data_layout_def)
  have split: "concat (map fst ws) = concat (map fst (take k ws)) @ fst ?w @ concat (map fst (drop (Suc k) ws))"
    by (subst (1) id_take_nth_drop [OF k]) simp
  have "sorted_entries c valid (concat (map fst ws))" using lay by (simp add: data_layout_def)
  then have srt: "sorted_entries c valid (fst ?w)" unfolding split by (rule sorted_entries_mid)
  have "entries_cost (fst ?w) \<le> entries_cost (concat (map fst ws))" by (subst split) simp
  moreover have "entries_cost (concat (map fst ws)) < 2 ^ 32" using lay by (simp add: data_layout_def)
  moreover have "1 \<le> length (fst ?w)" using w(1) by (simp add: written_ok_def Suc_le_eq)
  ultimately have small: "CurrentSizeEstimate (BlockBuilder_AddAll ?n (fst ?w) BlockBuilder_new) < 2 ^ 32"
    using CurrentSizeEstimate_AddAll [of ?n "fst ?w"] by linarith
  have pl: "payload_ok snappy (fst (BlockBuilder_Finish (BlockBuilder_AddAll ?n (fst ?w) BlockBuilder_new)))
      (fst (snd ?w)) (snd (snd ?w))" using w(1) by (simp add: written_ok_def)
  obtain bc where bc: "ReadBlock rops in_scratch snappy f options (whandle ws k) = Some (OK, bc)"
    "block_iter_at c valid (Block_NewIterator c (Block_new bc)) (fst ?w) (length (fst ?w))"
    using read_built [OF f w(2) pl small srt, of options] unfolding whandle_def by blast
  show ?thesis
    using bc o opts_comparator by (auto simp: BlockReader_def w(3) table_opened_def)
qed

text \<open>The filter is found through the metaindex block.\<close>

lemma ReadMeta_ok:
  assumes f: "fvalid f" "length (contents f) < 2 ^ 32" and t: "tbl_options table = opts" "tbl_file table = f" "tbl_filter table = None"
    and flt: "filter_layout (opt_filter_policy opts) (contents f) ws metas"
    and m: "stored_at (contents f) mpos md mt"
      "payload_ok snappy (fst (BlockBuilder_Finish (BlockBuilder_AddAll n metas BlockBuilder_new))) md mt"
    and h: "metaindex_handle footer = handle_at mpos md"
  shows "\<exists>table'. ReadMeta rops in_scratch snappy footer table = Some table' \<and>
    (\<exists>fr fd. table' = table\<lparr>tbl_filter := fr, tbl_filter_data := fd\<rparr>) \<and>
    (case opt_filter_policy opts of
        None \<Rightarrow> tbl_filter table' = None
      | Some p \<Rightarrow> \<exists>fb. tbl_filter table' = Some (FilterBlockReader_new p fb) \<and> filter_admits p fb ws)"
proof (cases "opt_filter_policy opts")
  case None
  have "\<exists>fr fd. table = table\<lparr>tbl_filter := fr, tbl_filter_data := fd\<rparr>"
    by (rule exI [of _ "tbl_filter table"], rule exI [of _ "tbl_filter_data table"]) simp
  then show ?thesis using None t by (intro exI [of _ table]) (simp add: ReadMeta_def)
next
  case (Some p)
  have f64: "length (contents f) < 2 ^ 64" using f(2) by simp
  from flt Some obtain fpos fb where metas: "metas = [(filter_meta_key p, BlockHandle_EncodeTo (handle_at fpos fb) [])]"
    and fat: "stored_at (contents f) fpos fb kNoCompression" and adm: "length fb < 2 ^ 32 \<Longrightarrow> filter_admits p fb ws"
    by (auto simp: filter_layout_def)
  have fl: "length fb < 2 ^ 32" using fat f(2) by (auto simp: stored_at_def)
  have srt: "sorted_entries BytewiseComparator (\<lambda>_. True) metas" by (simp add: metas sorted_entries_def)
  have "CurrentSizeEstimate (BlockBuilder_AddAll n metas BlockBuilder_new) \<le> 100 + length (fp_Name p)"
    using CurrentSizeEstimate_AddAll [of n metas] length_BlockHandle_EncodeTo [of "handle_at fpos fb"]
    by (simp add: metas filter_meta_key_def ascii_def kMaxEncodedLength_def)
  then have small: "CurrentSizeEstimate (BlockBuilder_AddAll n metas BlockBuilder_new) < 2 ^ 32"
    using policy_name [OF Some] by simp
  obtain bc where bc: "ReadBlock rops in_scratch snappy f (meta_read_options opts) (handle_at mpos md) = Some (OK, bc)"
    "block_iter_at BytewiseComparator (\<lambda>_. True) (Block_NewIterator BytewiseComparator (Block_new bc)) metas (length metas)"
    using read_built [OF f(1) f64 m small srt] by blast
  have ge: "first_ge BytewiseComparator metas (filter_meta_key p) = 0"
    by (simp add: metas first_ge_def BytewiseComparator_def Slice_compare_lex)
  obtain it where it: "it_Seek BlockIterator_ops (filter_meta_key p) (Block_NewIterator BytewiseComparator (Block_new bc)) = Some it"
    "block_iter_at BytewiseComparator (\<lambda>_. True) it metas 0"
    using bytewise.bis.at_Seek [OF bc(2) TrueI, of "filter_meta_key p"] unfolding ge by blast
  have v: "it_Valid BlockIterator_ops it" "it_key BlockIterator_ops it = filter_meta_key p"
    "it_value BlockIterator_ops it = Some (BlockHandle_EncodeTo (handle_at fpos fb) [])"
    using bytewise.bis.at_Valid [OF it(2)] bytewise.bis.at_key [OF it(2)] bytewise.bis.at_value [OF it(2)]
    by (simp_all add: metas)
  have "payload_ok snappy fb fb kNoCompression" by (simp add: payload_ok_def)
  then obtain fc where fc: "ReadBlock rops in_scratch snappy f (meta_read_options opts) (handle_at fpos fb) = Some (OK, fc)"
    "bc_data fc = fb" using read_stored [OF f(1) f64 fat _ fl] by blast
  let ?t = "(if heap_allocated fc then table\<lparr>tbl_filter_data := Some (bc_data fc)\<rparr> else table)
      \<lparr>tbl_filter := Some (FilterBlockReader_new p fb)\<rparr>"
  have "ReadFilter rops in_scratch snappy p (BlockHandle_EncodeTo (handle_at fpos fb) []) table = Some ?t"
    using fc t by (simp add: ReadFilter_def)
  then have "ReadMeta rops in_scratch snappy footer table = Some ?t"
    unfolding ReadMeta_def t Some h option.case bc(1) using it(1) v by (simp add: filter_meta_key_def)
  moreover have "\<exists>fr fd. ?t = table\<lparr>tbl_filter := fr, tbl_filter_data := fd\<rparr>"
    by (rule exI [of _ "Some (FilterBlockReader_new p fb)"],
        rule exI [of _ "if heap_allocated fc then Some (bc_data fc) else tbl_filter_data table"]) simp
  ultimately show ?thesis using Some adm [OF fl] by (intro exI [of _ ?t]) auto
qed

lemma Open_ok:
  assumes f: "fvalid f" "length (contents f) < 2 ^ 32"
    and lay: "table_layout c valid snappy opts (contents f) ws ies"
  shows "\<exists>table. Table_Open rops in_scratch snappy opts f (length (contents f)) = Some (OK, Some table) \<and>
    table_opened c valid snappy opts (contents f) table f ws ies"
proof -
  let ?n = "block_restart_interval opts"
  from lay obtain metas where d: "data_layout c valid snappy ?n (contents f) ws ies"
    and flt: "filter_layout (opt_filter_policy opts) (contents f) ws metas"
    and foot: "footer_layout snappy ?n (contents f) metas ies" by (auto simp: table_layout_def)
  from foot obtain mpos md mt ipos idx it pre where m: "stored_at (contents f) mpos md mt"
      "payload_ok snappy (fst (BlockBuilder_Finish (BlockBuilder_AddAll ?n metas BlockBuilder_new))) md mt"
    and i: "stored_at (contents f) ipos idx it"
      "payload_ok snappy (fst (BlockBuilder_Finish (BlockBuilder_AddAll 1 ies BlockBuilder_new))) idx it"
    and end_: "contents f = pre @ Footer_EncodeTo \<lparr>metaindex_handle = handle_at mpos md, index_handle = handle_at ipos idx\<rparr> []"
    by (auto simp: footer_layout_def)
  let ?F = "\<lparr>metaindex_handle = handle_at mpos md, index_handle = handle_at ipos idx\<rparr>"
  have f64: "length (contents f) < 2 ^ 64" using f(2) by simp
  have len: "length (contents f) = length pre + kEncodedLength" using end_ Footer_Decode_Encode(2) by simp
  have rd: "raf_Read rops f (length (contents f) - kEncodedLength) kEncodedLength = (OK, Footer_EncodeTo ?F [])"
    using rf.read_at [OF f(1), of "length pre" kEncodedLength] len Footer_Decode_Encode(2) [of ?F]
    by simp (simp add: end_)
  have dec: "Footer_DecodeFrom f0 (Footer_EncodeTo ?F []) = (OK, [], ?F)" for f0
    using Footer_Decode_Encode(1) [of f0 ?F "[]"] by simp
  have small: "CurrentSizeEstimate (BlockBuilder_AddAll 1 ies BlockBuilder_new) < 2 ^ 32"
    and srt: "sorted_entries c valid ies" using d by (simp_all add: data_layout_def)
  obtain bc where bc: "ReadBlock rops in_scratch snappy f (meta_read_options opts) (handle_at ipos idx) = Some (OK, bc)"
    "block_iter_at c valid (Block_NewIterator c (Block_new bc)) ies (length ies)"
    using read_built [OF f(1) f64 i small srt] by blast
  let ?t = "\<lparr>tbl_options = opts, tbl_status = OK, tbl_file = f, tbl_cache_id = 0, tbl_filter = None, tbl_filter_data = None,
      tbl_metaindex_handle = handle_at mpos md, tbl_index_block = Block_new bc\<rparr>"
  have t: "tbl_options ?t = opts" "tbl_file ?t = f" "tbl_filter ?t = None" by simp_all
  obtain table fr fd where M: "ReadMeta rops in_scratch snappy ?F ?t = Some table"
    "table = ?t\<lparr>tbl_filter := fr, tbl_filter_data := fd\<rparr>"
    "case opt_filter_policy opts of None \<Rightarrow> tbl_filter table = None
      | Some p \<Rightarrow> \<exists>fb. tbl_filter table = Some (FilterBlockReader_new p fb) \<and> filter_admits p fb ws"
    using ReadMeta_ok [OF f t flt m, of ?F] by auto
  have "Table_Open rops in_scratch snappy opts f (length (contents f)) = Some (OK, Some table)"
    unfolding Table_Open_def rd using len bc(1) M(1) by (simp add: dec)
  moreover have "table_opened c valid snappy opts (contents f) table f ws ies"
    unfolding table_opened_def using M(2,3) d bc(2) by simp
  ultimately show ?thesis by blast
qed

text \<open>The iterator of the table, over all of its entries.\<close>

lemma NewIterator_at:
  assumes o: "table_opened c valid snappy opts (contents f) table f ws ies" and f: "fvalid f" "length (contents f) < 2 ^ 64"
  shows "two_level.two_at c valid (block_iter_at c valid) (block_iter_at c valid)
      (BlockReader rops in_scratch snappy table options) (Table_NewIterator table)
      (concat (map fst ws)) (length (concat (map fst ws)))"
proof -
  have lay: "data_layout c valid snappy (block_restart_interval opts) (contents f) ws ies"
    and cmp: "opt_comparator (tbl_options table) = c"
    and at: "block_iter_at c valid (Block_NewIterator c (tbl_index_block table)) ies (length ies)"
    using o opts_comparator by (auto simp: table_opened_def)
  have sp: "separated c ies (map fst ws)" "sorted_entries c valid (concat (map fst ws))"
    using lay by (simp_all add: data_layout_def)
  note tl = sc.two_level_blocks
  have "two_level.block_function_ok (block_iter_at c valid) (BlockReader rops in_scratch snappy table options) ies (map fst ws)"
    unfolding two_level.block_function_ok_def [OF tl]
    using BlockReader_ok [OF o f, of _ options] by (simp; blast)
  then show ?thesis
    unfolding Table_NewIterator_def cmp by (rule two_level.NewTwoLevelIterator_at [OF tl at sp])
qed

lemma TableIterator_contract:
  "iterator c valid (TableIterator_ops rops in_scratch snappy table options)
     (two_level.two_at c valid (block_iter_at c valid) (block_iter_at c valid)
        (BlockReader rops in_scratch snappy table options))"
  unfolding TableIterator_ops_def by (rule two_level.two_level_iterator [OF sc.two_level_blocks])

text \<open>
  A lookup reads the first entry at or past the key, if that entry is in the block the index
  names and the filter does not deny the key: no index key between the two, and a filter
  policy that does not tell the two keys apart.
\<close>

definition reaches :: "(bytes \<times> bytes) list \<Rightarrow> bytes \<Rightarrow> bytes \<Rightarrow> bool" where
  "reaches ies k k' \<longleftrightarrow> (\<forall>ie \<in> set ies. \<not> (Compare c k (fst ie) \<le> 0 \<and> Compare c (fst ie) k' < 0)) \<and>
     (\<forall>p flt. opt_filter_policy opts = Some p \<longrightarrow> KeyMayMatch p k flt = KeyMayMatch p k' flt)"

lemma nth_second_part: "xs = ys @ zs \<Longrightarrow> i = length ys \<Longrightarrow> i < length xs \<Longrightarrow> xs ! i \<in> set zs"
  by (cases zs) simp_all

lemma same_filter_answer:
  assumes "\<And>flt. KeyMayMatch p k flt = KeyMayMatch p k' flt"
  shows "FilterBlockReader_KeyMayMatch off k (FilterBlockReader_new p fb) =
    FilterBlockReader_KeyMayMatch off k' (FilterBlockReader_new p fb)"
proof -
  have "fbr_policy (FilterBlockReader_new p fb) = p" by (simp add: FilterBlockReader_new_def Let_def)
  then show ?thesis using assms by (simp add: FilterBlockReader_KeyMayMatch_def Let_def)
qed

lemma InternalGet_ok:
  assumes o: "table_opened c valid snappy opts (contents f) table f ws ies" and f: "fvalid f" "length (contents f) < 2 ^ 64"
    and k: "valid k" and es: "es = concat (map fst ws)"
  shows "\<exists>res. InternalGet rops in_scratch snappy table options k = Some (OK, res) \<and>
    (\<forall>e. res = Some e \<longrightarrow> first_ge c es k < length es \<and> e = es ! first_ge c es k) \<and>
    (first_ge c es k < length es \<longrightarrow> reaches ies k (fst (es ! first_ge c es k)) \<longrightarrow> res = Some (es ! first_ge c es k))"
proof -
  let ?i = "first_ge c es k" and ?j = "first_ge c ies k"
  have lay: "data_layout c valid snappy (block_restart_interval opts) (contents f) ws ies"
    and cmp: "opt_comparator (tbl_options table) = c"
    and at: "block_iter_at c valid (Block_NewIterator c (tbl_index_block table)) ies (length ies)"
    using o opts_comparator by (auto simp: table_opened_def)
  have sp: "separated c ies (map fst ws)" "sorted_entries c valid ies" "sorted_entries c valid (concat (map fst ws))"
    and hs: "\<forall>k < length ws. snd (ies ! k) = BlockHandle_EncodeTo (whandle ws k) []"
    using lay by (simp_all add: data_layout_def)
  have len: "length ies = length ws" using sp(1) by (simp add: separated_def)
  note fc = two_level.first_ge_concat [OF sc.two_level_blocks sp k]
  obtain it where it: "it_Seek BlockIterator_ops k (Block_NewIterator c (tbl_index_block table)) = Some it"
    "block_iter_at c valid it ies ?j" using sc.bis.at_Seek [OF at k] by blast
  note ivs = sc.bis.at_Valid [OF it(2)] sc.bis.at_status [OF it(2)]
  show ?thesis
  proof (cases "?j < length ies")
    case False
    then have "?j = length ws" using first_ge_le [of c ies k] len by simp
    then have "?i = length es" using fc(2) es by simp
    moreover have "InternalGet rops in_scratch snappy table options k = Some (OK, None)"
      using it(1) ivs False cmp by (simp add: InternalGet_def ok_iff_OK)
    ultimately show ?thesis by simp
  next
    case True
    let ?bs = "fst (ws ! ?j)"
    let ?p = "first_ge c ?bs k"
    have j: "?j < length ws" using True len by simp
    have i: "?i = boff (map fst ws) ?j + ?p" using fc(1) j es by simp
    have hv: "it_value BlockIterator_ops it = Some (snd (ies ! ?j))" by (rule sc.bis.at_value [OF it(2) True])
    have h: "snd (ies ! ?j) = BlockHandle_EncodeTo (whandle ws ?j) []" using hs j by simp
    obtain b where b: "BlockReader rops in_scratch snappy table options (snd (ies ! ?j)) = Some b"
      "block_iter_at c valid b ?bs (length ?bs)" using BlockReader_ok [OF o f j, of options] by blast
    obtain b' where b': "it_Seek BlockIterator_ops k b = Some b'" "block_iter_at c valid b' ?bs ?p"
      using sc.bis.at_Seek [OF b(2) k] by blast
    note bs = sc.bis.at_Valid [OF b'(2)] sc.bis.at_status [OF b'(2)]
    let ?denied = "tbl_filter table \<noteq> None \<and> \<not> FilterBlockReader_KeyMayMatch (bh_offset (whandle ws ?j)) k (the (tbl_filter table))"
    let ?res = "if ?denied then None else if ?p < length ?bs then Some (?bs ! ?p) else None"
    have get: "InternalGet rops in_scratch snappy table options k = Some (OK, ?res)"
    proof (cases ?denied)
      case True
      then show ?thesis
        using it(1) ivs(1) \<open>?j < length ies\<close> ivs(2) hv cmp by (simp add: InternalGet_def ok_iff_OK h)
    next
      case False
      then show ?thesis
        using it(1) ivs(1) \<open>?j < length ies\<close> ivs(2) hv cmp b(1) b'(1) bs
          sc.bis.at_key [OF b'(2)] sc.bis.at_value [OF b'(2)]
        by (auto simp: InternalGet_def ok_iff_OK h)
    qed
    have hit: "?i < length es \<and> ?bs ! ?p = es ! ?i" if "?p < length ?bs"
      using nth_concat_boff [of ?j "map fst ws" ?p] that j i es by simp
    have found: "?p < length ?bs \<and> \<not> ?denied" if lt: "?i < length es" and r: "reaches ies k (fst (es ! ?i))"
    proof
      have nle: "\<not> Compare c (fst (ies ! ?j)) k < 0"
        using nth_length_takeWhile [of "\<lambda>e. Compare c (fst e) k < 0" ies] True by (simp add: first_ge_def)
      have vj: "valid (fst (ies ! ?j))" using sp(2) True by (simp add: sorted_entries_def)
      have kj: "Compare c k (fst (ies ! ?j)) \<le> 0" using nle sc.ge_iff_le [OF k vj] by simp
      then have rj: "\<not> Compare c (fst (ies ! ?j)) (fst (es ! ?i)) < 0"
        using r nth_mem [OF True] by (auto simp: reaches_def)
      show p: "?p < length ?bs"
      proof (rule ccontr)
        assume "\<not> ?p < length ?bs"
        then have "?p = length ?bs" using first_ge_le [of c ?bs k] by simp
        then have bi: "?i = length (concat (take (Suc ?j) (map fst ws)))"
          using i j boff_simps(2) [of ?j "map fst ws"] by (simp add: boff_def)
        have "es = concat (take (Suc ?j) (map fst ws)) @ concat (drop (Suc ?j) (map fst ws))"
          unfolding es by (metis append_take_drop_id concat_append)
        then have "es ! ?i \<in> set (concat (drop (Suc ?j) (map fst ws)))"
          by (rule nth_second_part) (rule bi, rule lt)
        then obtain bs where bs: "bs \<in> set (drop (Suc ?j) (map fst ws))" "es ! ?i \<in> set bs" by auto
        then obtain m where "m < length (drop (Suc ?j) (map fst ws))" "bs = drop (Suc ?j) (map fst ws) ! m"
          by (metis in_set_conv_nth)
        then have m: "Suc ?j + m < length ws" "bs = fst (ws ! (Suc ?j + m))" using j by simp_all
        have "\<forall>m. ?j < m \<longrightarrow> m < length ws \<longrightarrow> (\<forall>e \<in> set (fst (ws ! m)). Compare c (fst (ies ! ?j)) (fst e) < 0)"
          using sp(1) j by (simp add: separated_def)
        from this [rule_format, of "Suc ?j + m" "es ! ?i"] m bs(2) rj show False by simp
      qed
      have e: "?bs ! ?p = es ! ?i" "?bs ! ?p \<in> set ?bs" using hit [OF p] nth_mem [OF p] by simp_all
      show "\<not> ?denied"
      proof (cases "opt_filter_policy opts")
        case None
        then show ?thesis using o by (simp add: table_opened_def)
      next
        case (Some p)
        then obtain fb where fb: "tbl_filter table = Some (FilterBlockReader_new p fb)" "filter_admits p fb ws"
          using o by (auto simp: table_opened_def)
        have "FilterBlockReader_KeyMayMatch (bh_offset (whandle ws ?j)) (fst (es ! ?i)) (FilterBlockReader_new p fb)"
          using fb(2) j e by (auto simp: filter_admits_def whandle_def handle_at_def)
        moreover have same: "KeyMayMatch p k flt = KeyMayMatch p (fst (es ! ?i)) flt" for flt
          using r Some by (simp add: reaches_def)
        ultimately show ?thesis
          using fb(1) same_filter_answer [OF same, of "bh_offset (whandle ws ?j)" fb] by simp
      qed
    qed
    show ?thesis using get hit found by (intro exI [of _ ?res]) auto
  qed
qed

end

text \<open>
  The contract on the model's own parts: a table over files of the in-memory environment,
  ordered by the bytewise comparator, with the Bloom filter policy.
\<close>

interpretation mem_reader: table_reader mem_random random_contents random_valid BytewiseComparator "\<lambda>_. True"
    "Options_new\<lparr>opt_comparator := BytewiseComparator, opt_filter_policy := Some (NewBloomFilterPolicy n)\<rparr>" no_snappy in_scratch
  for n and in_scratch
  by (intro table_reader.intro table_reader_axioms.intro mem_rand.random_access_file_axioms bytewise.comparator_axioms)
    (auto simp: NewBloomFilterPolicy_def snappy_ok_none)

end
