(* ===== verification/TableRoundtrip.thy ===== *)
theory TableRoundtrip
  imports Table
begin

section \<open>Building a table and reading it back\<close>

text \<open>
  The composition of the table builder with the reader, over any writable and random-access
  file that keep their contracts: every entry that was added is found again, by the iterator
  in every order of calls and by the lookup of a key, and nothing else is.
\<close>

subsection \<open>Lookups of internal keys\<close>

lemma sorted_block:
  assumes "sorted_entries cmp vld (concat (map fst ws))" "j < length ws"
  shows "sorted_entries cmp vld (fst (ws ! j))"
proof -
  have "concat (map fst ws) = concat (map fst (take j ws)) @ fst (ws ! j) @ concat (map fst (drop (Suc j) ws))"
    by (subst (1) id_take_nth_drop [OF assms(2)]) simp
  then show ?thesis using assms(1) sorted_entries_mid by metis
qed

context comparator
begin

lemma entry_below_first_ge:
  assumes srt: "sorted_entries c valid es" and i: "first_ge c es k < length es"
    and e: "e \<in> set es" "Compare c (fst e) (fst (es ! first_ge c es k)) < 0"
  shows "Compare c (fst e) k < 0"
proof -
  let ?i = "first_ge c es k"
  have v: "valid (fst e)" "valid (fst (es ! ?i))" using srt i e(1) by (simp_all add: sorted_entries_def)
  obtain j where j: "j < length es" "es ! j = e" using e(1) by (auto simp: in_set_conv_nth)
  have "j < ?i"
  proof (rule ccontr)
    assume "\<not> j < ?i"
    then have "?i = j \<or> Compare c (fst (es ! ?i)) (fst e) < 0"
      using sorted_key_less [OF srt, of ?i j] j by (cases "?i = j") simp_all
    then show False
      using e(2) j(2) refl [OF v(2)] gt_iff_lt [OF v(2,1)] by (cases "?i = j") simp_all
  qed
  then have "es ! j \<in> set (takeWhile (\<lambda>e. Compare c (fst e) k < 0) es)"
    using nth_mem [of j "takeWhile (\<lambda>e. Compare c (fst e) k < 0) es"] by (simp add: first_ge_def takeWhile_nth)
  then show ?thesis using j(2) by (auto dest: set_takeWhileD)
qed

text \<open>An index key below an entry names an earlier block.\<close>

lemma index_key_before:
  assumes sep: "separated c ies (map fst ws)" and srt: "sorted_entries c valid ies"
    and ses: "sorted_entries c valid (concat (map fst ws))" and m: "m < length ws" and j: "j < length ws"
    and e: "e \<in> set (fst (ws ! j))" and lt: "Compare c (fst (ies ! m)) (fst e) < 0" and v: "valid (fst e)"
  shows "m < j"
proof (rule ccontr)
  assume n: "\<not> m < j"
  have len: "length ies = length ws" using sep by (simp add: separated_def)
  have vi: "valid (fst (ies ! j))" "valid (fst (ies ! m))" using srt m j len by (simp_all add: sorted_entries_def)
  have "j = m \<or> Compare c (fst (ies ! j)) (fst (ies ! m)) < 0"
    using sorted_key_less [OF srt, of j m] m n len by (cases "j = m") simp_all
  moreover have "Compare c (fst e) (fst (ies ! j)) \<le> 0" using sep j e by (simp add: separated_def)
  ultimately have "Compare c (fst e) (fst (ies ! m)) \<le> 0"
    using le_lt_trans [OF v vi] by (cases "j = m") simp_all
  then show False using lt not_le_iff_lt [OF vi(2) v] by simp
qed

end

context internal_filter
begin

lemma ifp_policy: "filter_policy (InternalFilterPolicy p) (valid_ikey valid)"
  by (rule ifp.filter_policy_axioms)

end

context internal_keys
begin

lemma ik_short: "short_comparator (InternalKeyComparator c) ivalid"
  by (rule iks.short_comparator_axioms)

text \<open>
  No index key lies between a lookup key and the first entry past it that has the same user
  key: a shortened separator has a user key of its own, below that of the next block.
\<close>

lemma separator_below_user_key:
  assumes s: "ivalid s" and l: "ivalid l" and k: "ivalid k'" "ivalid k" and lk: "icmp l k' \<le> 0"
    and u: "ExtractUserKey k = ExtractUserKey k'"
    and ns: "FindShortestSeparator (InternalKeyComparator c) s l \<noteq> s"
  shows "icmp (FindShortestSeparator (InternalKeyComparator c) s l) k < 0"
proof -
  let ?us = "ExtractUserKey s" and ?ul = "ExtractUserKey l" and ?uk = "ExtractUserKey k'"
  let ?tmp = "FindShortestSeparator c ?us ?ul"
  have v: "valid ?us" "valid ?ul" "valid ?uk" using s l k by (auto simp: valid_ikey_def)
  have short: "length ?tmp < length ?us" "Compare c ?us ?tmp < 0"
    and eq: "FindShortestSeparator (InternalKeyComparator c) s l =
      PutFixed64 ?tmp (PackSequenceAndType kMaxSequenceNumber kValueTypeForSeek)"
    using ns by (auto simp: InternalKeyComparator_def InternalKey_FindShortestSeparator_def Let_def split: if_splits)
  have lt: "Compare c ?us ?ul < 0" using separator_unchanged [OF v(1,2)] short(1) by fastforce
  have "Compare c ?tmp ?ul < 0" and vt: "valid ?tmp" using separator [OF v(1,2) lt] by auto
  moreover have "Compare c ?ul ?uk \<le> 0" using lk by (auto simp: icmp_le_iff)
  ultimately have "Compare c ?tmp ?uk < 0" using lt_le_trans [OF vt v(2,3)] by blast
  moreover have "ExtractUserKey (FindShortestSeparator (InternalKeyComparator c) s l) = ?tmp"
    by (simp add: eq PutFixed64_def)
  ultimately show ?thesis using u by (simp add: icmp_less_iff)
qed

lemma no_index_key_between:
  assumes lay: "data_layout (InternalKeyComparator c) ivalid snappy n img ws ies" and es: "es = concat (map fst ws)"
    and k: "ivalid k" and i: "first_ge (InternalKeyComparator c) es k < length es"
    and u: "ExtractUserKey k = ExtractUserKey (fst (es ! first_ge (InternalKeyComparator c) es k))"
    and ie: "ie \<in> set ies"
  shows "\<not> (icmp k (fst ie) \<le> 0 \<and> icmp (fst ie) (fst (es ! first_ge (InternalKeyComparator c) es k)) < 0)"
proof
  let ?ic = "InternalKeyComparator c" and ?i = "first_ge (InternalKeyComparator c) es k"
  let ?k = "fst (es ! ?i)"
  assume bad: "icmp k (fst ie) \<le> 0 \<and> icmp (fst ie) ?k < 0"
  have sep: "separated ?ic ies (map fst ws)" and ex: "separators_exact ?ic (butlast ies) (map fst ws)"
    and srt: "sorted_entries ?ic ivalid ies" and ses: "sorted_entries ?ic ivalid es"
    and ne: "\<forall>m < length ws. fst (ws ! m) \<noteq> []"
    using lay es by (simp_all add: data_layout_def written_ok_def)
  have len: "length ies = length ws" using sep by (simp add: separated_def)
  have vk: "ivalid ?k" using ses i by (simp add: sorted_entries_def)
  note below = ik.entry_below_first_ge [OF ses i]
  obtain m where m: "m < length ws" "ie = ies ! m" using ie len by (auto simp: in_set_conv_nth)
  have vie: "ivalid (fst ie)" using srt ie by (simp add: sorted_entries_def)
  obtain bs where bs: "bs \<in> set (map fst ws)" "es ! ?i \<in> set bs" using i nth_mem [OF i] es by auto
  obtain j where jj: "j < length ws" "bs = fst (ws ! j)" 
    using bs(1) in_set_conv_nth [of bs "map fst ws"] by auto
  then have j: "j < length ws" "es ! ?i \<in> set (fst (ws ! j))" using bs(2) by simp_all
  have mj: "m < j" using ik.index_key_before [OF sep srt ses [unfolded es] m(1) jj(1) _ _ vk] bad j(2) m(2) by blast
  let ?s = "fst (last (fst (ws ! m)))" and ?l = "fst (hd (fst (ws ! Suc m)))"
  have sm: "Suc m < length ws" using mj j by simp
  have "fst (butlast ies ! m) = FindShortestSeparator ?ic ?s ?l"
    using ex m sm len by (simp add: separators_exact_def)
  then have ieq: "fst ie = FindShortestSeparator ?ic ?s ?l" using m(2) sm len by (simp add: nth_butlast)
  have in_es: "e \<in> set es" if "a < length ws" "e \<in> set (fst (ws ! a))" for a e using that es by auto
  have ls: "last (fst (ws ! m)) \<in> set es" "hd (fst (ws ! Suc m)) \<in> set es"
    using in_es [OF m(1)] in_es [OF sm] ne m(1) sm by auto
  have vsl: "ivalid ?s" "ivalid ?l" using ses ls by (auto simp: sorted_entries_def)
  have sk: "icmp ?s ?k < 0"
  proof -
    have "icmp ?s (fst (ies ! m)) \<le> 0" using sep m(1) ne by (simp add: separated_def)
    moreover have "icmp (fst (ies ! m)) ?k < 0" using bad m(2) by simp
    ultimately show ?thesis using ik.le_lt_trans [OF vsl(1) vie vk] m(2) by simp
  qed
  have lk: "icmp ?l ?k \<le> 0"
  proof (cases "j = Suc m")
    case True
    have "sorted_entries ?ic ivalid (fst (ws ! j))"
      using ses unfolding es by (rule sorted_block [OF _ j(1)])
    then show ?thesis
      using j(2) True ik.refl [OF vk] by (cases "fst (ws ! j)") (auto simp add: sorted_entries_def less_imp_le)
  next
    case False
    have a: "icmp ?l (fst (ies ! Suc m)) \<le> 0" using sep sm ne by (simp add: separated_def)
    have "Suc m < j" using mj False by simp
    then have b: "icmp (fst (ies ! Suc m)) ?k < 0" using sep sm j by (simp add: separated_def)
    have "ivalid (fst (ies ! Suc m))" using srt sm len by (simp add: sorted_entries_def)
    from ik.le_lt_trans [OF vsl(2) this vk a b] show ?thesis by simp
  qed
  show False
  proof (cases "FindShortestSeparator ?ic ?s ?l = ?s")
    case True
    then have "icmp (fst ie) k < 0" using below [OF ls(1) sk] by (simp only: ieq)
    then show False using bad ik.not_le_iff_lt [OF vie k] by simp
  next
    case False
    have "icmp (FindShortestSeparator ?ic ?s ?l) k < 0"
      by (rule separator_below_user_key [OF vsl vk k lk u False])
    then have "icmp (fst ie) k < 0" by (simp only: ieq)
    then show False using bad ik.not_le_iff_lt [OF vie k] by simp
  qed
qed

end

subsection \<open>Properties\<close>

definition policy_name_ok :: "Options \<Rightarrow> bool" where
  "policy_name_ok opts \<longleftrightarrow> (\<forall>p. opt_filter_policy opts = Some p \<longrightarrow> length (fp_Name p) < 2 ^ 31)"

lemma table_build_intro:
  assumes "reliable_writable_file wops wc wv" "short_comparator (opt_comparator opts) valid" "table_filter_policy_ok opts valid"
  shows "table_build wops wc wv (opt_comparator opts) valid opts"
  using assms by (intro table_build.intro table_build_axioms.intro) (simp_all add: table_filter_policy_ok_def)

lemma table_reader_intro:
  assumes "random_access_file rops rc rv" "comparator (opt_comparator opts) valid" "policy_name_ok opts" "snappy_ok snappy"
  shows "table_reader rops rc rv (opt_comparator opts) valid opts snappy"
  using assms by (intro table_reader.intro table_reader_axioms.intro) (simp_all add: policy_name_ok_def)

lemma short_comparatorD: "short_comparator c valid \<Longrightarrow> comparator c valid"
  by (simp add: short_comparator_def separating_comparator_def)

lemma build_table_ok:
  assumes "reliable_writable_file wops wc wv" "short_comparator (opt_comparator opts) valid" "table_filter_policy_ok opts valid"
    and "wv w" "wc w = []" "sorted_entries (opt_comparator opts) valid es" "entries_cost es < 2 ^ 31"
  shows "\<exists>r ws ies. build_table wops snappy opts w es = Some (OK, r) \<and> wv (tb_file r) \<and> tb_num_entries r = int (length es) \<and>
    tb_offset r = word_of_nat (length (wc (tb_file r))) \<and> es = concat (map fst ws) \<and>
    table_layout (opt_comparator opts) valid snappy opts (wc (tb_file r)) ws ies \<and>
    (opt_filter_policy opts = None \<longrightarrow> length (wc (tb_file r)) \<le> 100 + 3 * entries_cost es)"
proof -
  note tb = table_build_intro [OF assms(1-3)]
  have "entries_cost es < 2 ^ 32" using assms(7) by simp
  note inv = table_build.AddAll_inv [OF tb assms(4,5,6) this, of snappy]
  show ?thesis unfolding build_table_def by (rule table_build.Finish_layout [OF tb inv assms(7)])
qed

text \<open>
  C6: building a table from sorted entries succeeds on a file whose calls do not fail,
  and \<open>NumEntries\<close> and \<open>FileSize\<close> tell the truth about it; opening the file succeeds, and every
  sequence of calls on an iterator of the opened table is a walk over exactly the entries that
  were added, whatever the block size, the restart interval, the compression and the filter
  policy are.
\<close>

theorem table_roundtrip:
  assumes "reliable_writable_file wops wc wv" and "random_access_file rops rc rv"
    and "short_comparator (opt_comparator opts) valid" and "table_filter_policy_ok opts valid"
    and "policy_name_ok opts" and "snappy_ok snappy"
    and "wv w" and "wc w = []" and "sorted_entries (opt_comparator opts) valid es" and "entries_cost es < 2 ^ 31"
  shows "\<exists>r. build_table wops snappy opts w es = Some (OK, r) \<and>
    NumEntries r = word_of_nat (length es) \<and> FileSize r = word_of_nat (length (wc (tb_file r))) \<and>
    (\<forall>f. rv f \<longrightarrow> rc f = wc (tb_file r) \<longrightarrow> length (rc f) < 2 ^ 32 \<longrightarrow>
      (\<exists>table. Table_Open rops in_scratch snappy opts f (length (rc f)) = Some (OK, Some table) \<and>
        (\<forall>ms i. list_all (move_valid valid) ms \<longrightarrow> cursor_moves (opt_comparator opts) es ms (length es) = Some i \<longrightarrow>
          (\<exists>t. run_moves (TableIterator_ops rops in_scratch snappy table options) ms (Table_NewIterator table) = Some t \<and>
            shows_position (TableIterator_ops rops in_scratch snappy table options) t es i))))"
proof -
  let ?c = "opt_comparator opts"
  obtain r ws ies where r: "build_table wops snappy opts w es = Some (OK, r)" "wv (tb_file r)" "tb_num_entries r = int (length es)"
    "tb_offset r = word_of_nat (length (wc (tb_file r)))" and es: "es = concat (map fst ws)"
    and lay: "table_layout ?c valid snappy opts (wc (tb_file r)) ws ies"
    using build_table_ok [OF assms(1,3,4,7-10), of snappy] by (elim exE conjE) (rule that; assumption)
  note tr = table_reader_intro [OF assms(2) short_comparatorD [OF assms(3)] assms(5,6)]
  have "\<exists>table. Table_Open rops in_scratch snappy opts f (length (rc f)) = Some (OK, Some table) \<and>
        (\<forall>ms i. list_all (move_valid valid) ms \<longrightarrow> cursor_moves ?c es ms (length es) = Some i \<longrightarrow>
          (\<exists>t. run_moves (TableIterator_ops rops in_scratch snappy table options) ms (Table_NewIterator table) = Some t \<and>
            shows_position (TableIterator_ops rops in_scratch snappy table options) t es i))"
    if f: "rv f" "rc f = wc (tb_file r)" "length (rc f) < 2 ^ 32" for f
  proof -
    have f64: "length (rc f) < 2 ^ 64" using f(3) by simp
    obtain table where t: "Table_Open rops in_scratch snappy opts f (length (rc f)) = Some (OK, Some table)"
      "table_opened ?c valid snappy opts (rc f) table f ws ies"
      using table_reader.Open_ok [OF tr f(1,3) lay [folded f(2)]] by blast
    note at = table_reader.NewIterator_at [OF tr t(2) f(1) f64, of in_scratch options]
    note it = table_reader.TableIterator_contract [OF tr, of in_scratch table options]
    show ?thesis
      using t(1) iterator.run_moves_at [OF it at] iterator.at_shows [OF it] unfolding es by blast
  qed
  then show ?thesis using r by (intro exI [of _ r]) (simp add: NumEntries_def FileSize_def)
qed

text \<open>
  C7: on a table of internal keys, \<open>InternalGet\<close> hands the caller nothing but the first
  entry at or past the lookup key, and it does hand over that entry whenever it has the user
  key that is looked up: neither the shortened index keys nor the filter hide it.
\<close>

theorem table_lookup:
  assumes "reliable_writable_file wops wc wv" and "random_access_file rops rc rv"
    and "separating_comparator ucmp uvalid" and "opt_comparator opts = InternalKeyComparator ucmp"
    and "opt_filter_policy opts = map_option InternalFilterPolicy upolicy"
    and "\<forall>p. upolicy = Some p \<longrightarrow> filter_policy p uvalid \<and> length (fp_Name p) < 2 ^ 31" and "snappy_ok snappy"
    and "wv w" and "wc w = []" and "sorted_entries (opt_comparator opts) (valid_ikey uvalid) es" and "entries_cost es < 2 ^ 31"
    and "build_table wops snappy opts w es = Some (s, r)"
    and "rv f" and "rc f = wc (tb_file r)" and "length (rc f) < 2 ^ 32"
    and "Table_Open rops in_scratch snappy opts f (length (rc f)) = Some (s', Some table)"
    and "valid_ikey uvalid k" and "i = first_ge (opt_comparator opts) es k"
  shows "\<exists>res. InternalGet rops in_scratch snappy table options k = Some (OK, res) \<and>
    (\<forall>e. res = Some e \<longrightarrow> i < length es \<and> e = es ! i) \<and>
    (i < length es \<longrightarrow> ExtractUserKey (fst (es ! i)) = ExtractUserKey k \<longrightarrow> res = Some (es ! i))"
proof -
  let ?c = "opt_comparator opts" and ?v = "valid_ikey uvalid"
  have ik: "internal_keys ucmp uvalid" using assms(3) by (simp add: internal_keys_def)
  have sc: "short_comparator ?c ?v" unfolding assms(4) by (rule internal_keys.ik_short [OF ik])
  have pol: "table_filter_policy_ok opts ?v"
    using assms(5,6) internal_filter.ifp_policy
    by (auto simp: table_filter_policy_ok_def internal_filter_def)
  have nam: "policy_name_ok opts" using assms(5,6) by (auto simp: policy_name_ok_def InternalFilterPolicy_def)
  obtain ws ies where es: "es = concat (map fst ws)" and lay: "table_layout ?c ?v snappy opts (wc (tb_file r)) ws ies"
    using build_table_ok [OF assms(1) sc pol assms(8-11), of snappy] assms(12) by auto
  note tr = table_reader_intro [OF assms(2) short_comparatorD [OF sc] nam assms(7)]
  have f64: "length (rc f) < 2 ^ 64" using assms(15) by simp
  have t: "table_opened ?c ?v snappy opts (rc f) table f ws ies"
    using table_reader.Open_ok [OF tr assms(13,15) lay [folded assms(14)], of in_scratch] assms(16) by auto
  obtain res where res: "InternalGet rops in_scratch snappy table options k = Some (OK, res)"
    "\<forall>e. res = Some e \<longrightarrow> i < length es \<and> e = es ! i"
    "i < length es \<longrightarrow> table_reader.reaches ?c opts ies k (fst (es ! i)) \<longrightarrow> res = Some (es ! i)"
    using table_reader.InternalGet_ok [OF tr t assms(13) f64 assms(17) es] unfolding assms(18) by blast
  have "table_reader.reaches ?c opts ies k (fst (es ! i))"
    if "i < length es" "ExtractUserKey (fst (es ! i)) = ExtractUserKey k"
  proof -
    have "data_layout ?c ?v snappy (block_restart_interval opts) (wc (tb_file r)) ws ies"
      using lay by (simp add: table_layout_def)
    note nb = internal_keys.no_index_key_between [OF ik this [unfolded assms(4)] es assms(17)]
    show ?thesis
      unfolding table_reader.reaches_def [OF tr]
      using nb that assms(4,5,18) by (auto simp: InternalFilterPolicy_def)
  qed
  then show ?thesis using res by blast
qed

subsection \<open>Witnesses\<close>

text \<open>Three internal keys of two user keys, in a table in memory.\<close>

lemma wr_random: "wr_valid H C f a w \<Longrightarrow> random_valid w \<and> random_contents w = wr_contents f w"
proof -
  assume v: "wr_valid H C f a w"
  obtain env where w: "w = (env, Some a)" "env_ok env H" "map_of (file_map env) f = Some (Some a)"
    "file_contents env f \<noteq> None" using v by (cases w) (auto simp: wr_valid_def)
  then obtain d where d: "file_contents env f = Some d" by auto
  obtain fs where "file_states env a = Some fs" "d = fs_contents fs" "fs_ok fs"
    using file_contents_SomeD [OF w(2) d] w(3) env_okD(5) [OF w(2)] by (auto simp: state_ok_def)
  then show ?thesis using w d by (auto simp: random_valid_def random_contents_def deref_def wr_contents_def)
qed

lemma demo_writable:
  "\<exists>e1 a. mem_NewWritableFile NewMemEnv demo_file = (OK, Some (Some a), e1) \<and>
     wr_valid (add_mset a {#}) (file_contents NewMemEnv) demo_file a (e1, Some a) \<and> wr_contents demo_file (e1, Some a) = []"
  using NewWritableFile_ok [OF NewMemEnv_ok, of demo_file] by (auto simp: wr_valid_def wr_contents_def)

definition demo_options :: Options where
  "demo_options = Options_new\<lparr>opt_comparator := InternalKeyComparator BytewiseComparator\<rparr>"

definition demo_internal :: "(bytes \<times> bytes) list" where
  "demo_internal = [(InternalKey_new [1] 7 kTypeValue, [10]), (InternalKey_new [1] 3 kTypeValue, [11]),
     (InternalKey_new [2, 5] 4 kTypeDeletion, [])]"

lemma demo_tags: "PackSequenceAndType 7 kTypeValue = 0x701" "PackSequenceAndType 3 kTypeValue = 0x301"
  "PackSequenceAndType 4 kTypeDeletion = 0x400" "PackSequenceAndType 5 kTypeValue = 0x501"
  by (simp_all add: PackSequenceAndType_def)

lemma ikey_simps:
  "ExtractUserKey (InternalKey_new u s t) = u" "key_tag (InternalKey_new u s t) = PackSequenceAndType s t"
  "length (InternalKey_new u s t) = length u + 8"
  by (simp_all add: InternalKey_new_eq)

lemma demo_internal_sorted: "sorted_entries (opt_comparator demo_options) (valid_ikey (\<lambda>_. True)) demo_internal"
  by (simp add: sorted_entries_def demo_options_def demo_internal_def InternalKeyComparator_def InternalKey_Compare_def
      ikey_simps demo_tags BytewiseComparator_def Slice_compare_lex valid_ikey_def Let_def)

lemma demo_internal_cost: "entries_cost demo_internal = 150"
  by (simp add: demo_internal_def ikey_simps)

lemma bytewise_ik_short: "short_comparator (opt_comparator demo_options) (valid_ikey (\<lambda>_. True))"
  unfolding demo_options_def using bytewise_ik.ik_short by simp

lemma demo_policy: "opt_filter_policy demo_options = None"
  by (simp add: demo_options_def Options_new_def)

theorem table_roundtrip_witness:
  "\<exists>e1 a r table t. mem_NewWritableFile NewMemEnv demo_file = (OK, Some (Some a), e1) \<and>
     build_table mem_writable no_snappy demo_options (e1, Some a) demo_internal = Some (OK, r) \<and>
     Table_Open mem_random True no_snappy demo_options (tb_file r) (length (random_contents (tb_file r))) = Some (OK, Some table) \<and>
     run_moves (TableIterator_ops mem_random True no_snappy table ReadOptions_new) [ToLast, Backward] (Table_NewIterator table) = Some t \<and>
     shows_position (TableIterator_ops mem_random True no_snappy table ReadOptions_new) t demo_internal 1"
proof -
  obtain e1 a where e1: "mem_NewWritableFile NewMemEnv demo_file = (OK, Some (Some a), e1)"
    "wr_valid (add_mset a {#}) (file_contents NewMemEnv) demo_file a (e1, Some a)" "wr_contents demo_file (e1, Some a) = []"
    using demo_writable by blast
  have pol: "table_filter_policy_ok demo_options (valid_ikey (\<lambda>_. True))" "policy_name_ok demo_options"
    by (simp_all add: table_filter_policy_ok_def policy_name_ok_def demo_policy)
  have cost: "entries_cost demo_internal < 2 ^ 31" by (simp add: demo_internal_cost)
  obtain r where r: "build_table mem_writable no_snappy demo_options (e1, Some a) demo_internal = Some (OK, r)"
    and v: "wr_valid (add_mset a {#}) (file_contents NewMemEnv) demo_file a (tb_file r)"
    and small: "length (wr_contents demo_file (tb_file r)) \<le> 550"
    using build_table_ok [OF mem_wr.reliable_writable_file_axioms bytewise_ik_short pol(1) e1(2,3) demo_internal_sorted cost, of no_snappy]
      demo_policy by (auto simp: demo_internal_cost)
  note rt = table_roundtrip [OF mem_wr.reliable_writable_file_axioms mem_rand.random_access_file_axioms bytewise_ik_short pol
      snappy_ok_none e1(2,3) demo_internal_sorted cost, of True ReadOptions_new]
  have rd: "random_valid (tb_file r)" "random_contents (tb_file r) = wr_contents demo_file (tb_file r)"
    "length (random_contents (tb_file r)) < 2 ^ 32" using wr_random [OF v] small by simp_all
  obtain table where t: "Table_Open mem_random True no_snappy demo_options (tb_file r) (length (random_contents (tb_file r))) = Some (OK, Some table)"
    "\<forall>ms i. list_all (move_valid (valid_ikey (\<lambda>_. True))) ms \<longrightarrow>
       cursor_moves (opt_comparator demo_options) demo_internal ms (length demo_internal) = Some i \<longrightarrow>
       (\<exists>t. run_moves (TableIterator_ops mem_random True no_snappy table ReadOptions_new) ms (Table_NewIterator table) = Some t \<and>
         shows_position (TableIterator_ops mem_random True no_snappy table ReadOptions_new) t demo_internal i)"
  proof -
    obtain r' where r': "build_table mem_writable no_snappy demo_options (e1, Some a) demo_internal = Some (OK, r')"
      and all: "\<And>f. random_valid f \<Longrightarrow> random_contents f = wr_contents demo_file (tb_file r') \<Longrightarrow>
        length (random_contents f) < 2 ^ 32 \<Longrightarrow> \<exists>table. Table_Open mem_random True no_snappy demo_options f (length (random_contents f)) = Some (OK, Some table) \<and>
       (\<forall>ms i. list_all (move_valid (valid_ikey (\<lambda>_. True))) ms \<longrightarrow>
       cursor_moves (opt_comparator demo_options) demo_internal ms (length demo_internal) = Some i \<longrightarrow>
       (\<exists>t. run_moves (TableIterator_ops mem_random True no_snappy table ReadOptions_new) ms (Table_NewIterator table) = Some t \<and>
         shows_position (TableIterator_ops mem_random True no_snappy table ReadOptions_new) t demo_internal i))"
      using rt by blast
    have "r' = r" using r r' by simp
    then show ?thesis using all [of "tb_file r"] rd that by blast
  qed
  have "cursor_moves (opt_comparator demo_options) demo_internal [ToLast, Backward] (length demo_internal) = Some 1"
    by (simp add: demo_internal_def)
  then show ?thesis using t(2) [rule_format, of "[ToLast, Backward]" 1] e1(1) r t(1) by fastforce
qed

theorem table_lookup_witness:
  "\<exists>e1 a r table. mem_NewWritableFile NewMemEnv demo_file = (OK, Some (Some a), e1) \<and>
     build_table mem_writable no_snappy demo_options (e1, Some a) demo_internal = Some (OK, r) \<and>
     Table_Open mem_random True no_snappy demo_options (tb_file r) (length (random_contents (tb_file r))) = Some (OK, Some table) \<and>
     InternalGet mem_random True no_snappy table ReadOptions_new (InternalKey_new [1] 5 kTypeValue) =
       Some (OK, Some (InternalKey_new [1] 3 kTypeValue, [11]))"
proof -
  obtain e1 a where e1: "mem_NewWritableFile NewMemEnv demo_file = (OK, Some (Some a), e1)"
    "wr_valid (add_mset a {#}) (file_contents NewMemEnv) demo_file a (e1, Some a)" "wr_contents demo_file (e1, Some a) = []"
    using demo_writable by blast
  have pol: "table_filter_policy_ok demo_options (valid_ikey (\<lambda>_. True))" "policy_name_ok demo_options"
    by (simp_all add: table_filter_policy_ok_def policy_name_ok_def demo_policy)
  have cost: "entries_cost demo_internal < 2 ^ 31" by (simp add: demo_internal_cost)
  obtain r ws ies where r: "build_table mem_writable no_snappy demo_options (e1, Some a) demo_internal = Some (OK, r)"
    and v: "wr_valid (add_mset a {#}) (file_contents NewMemEnv) demo_file a (tb_file r)"
    and lay: "table_layout (opt_comparator demo_options) (valid_ikey (\<lambda>_. True)) no_snappy demo_options (wr_contents demo_file (tb_file r)) ws ies"
    and small: "length (wr_contents demo_file (tb_file r)) \<le> 550"
    using build_table_ok [OF mem_wr.reliable_writable_file_axioms bytewise_ik_short pol(1) e1(2,3) demo_internal_sorted cost, of no_snappy]
      demo_policy by (auto simp: demo_internal_cost)
  have rd: "random_valid (tb_file r)" "random_contents (tb_file r) = wr_contents demo_file (tb_file r)"
    "length (random_contents (tb_file r)) < 2 ^ 32" using wr_random [OF v] small by simp_all
  note tr = table_reader_intro [OF mem_rand.random_access_file_axioms short_comparatorD [OF bytewise_ik_short] pol(2) snappy_ok_none]
  obtain table where t: "Table_Open mem_random True no_snappy demo_options (tb_file r) (length (random_contents (tb_file r))) = Some (OK, Some table)"
    using table_reader.Open_ok [OF tr rd(1,3) lay [folded rd(2)]] by blast
  let ?k = "InternalKey_new [1] 5 kTypeValue"
  have k: "valid_ikey (\<lambda>_. True) ?k" by (simp add: valid_ikey_def ikey_simps)
  have i: "1 = first_ge (opt_comparator demo_options) demo_internal ?k"
    by (simp add: first_ge_def demo_options_def demo_internal_def InternalKeyComparator_def InternalKey_Compare_def
      ikey_simps demo_tags BytewiseComparator_def Slice_compare_lex Let_def)
  have c: "opt_comparator demo_options = InternalKeyComparator BytewiseComparator" by (simp add: demo_options_def)
  have p: "opt_filter_policy demo_options = map_option InternalFilterPolicy None" by (simp add: demo_policy)
  have "\<exists>res. InternalGet mem_random True no_snappy table ReadOptions_new ?k = Some (OK, res) \<and>
    (\<forall>e. res = Some e \<longrightarrow> 1 < length demo_internal \<and> e = demo_internal ! 1) \<and>
    (1 < length demo_internal \<longrightarrow> ExtractUserKey (fst (demo_internal ! 1)) = ExtractUserKey ?k \<longrightarrow> res = Some (demo_internal ! 1))"
    by (rule table_lookup [OF mem_wr.reliable_writable_file_axioms mem_rand.random_access_file_axioms
          bytewise.separating_comparator_axioms c p _ snappy_ok_none e1(2,3) demo_internal_sorted cost r rd t k i]) simp
  moreover have "1 < length demo_internal" "ExtractUserKey (fst (demo_internal ! 1)) = ExtractUserKey ?k"
    "demo_internal ! 1 = (InternalKey_new [1] 3 kTypeValue, [11])" by (simp_all add: demo_internal_def ikey_simps)
  ultimately show ?thesis using e1(1) r t by auto
qed

end
