(* ===== verification/VersionFiles.thy ===== *)
theory VersionFiles
  imports VersionEdit Format TwoLevel
begin

section \<open>The files of a level (\<^verbatim>\<open>db/version_set.cc\<close>, searches)\<close>

text \<open>
  The files of a version are vectors of pointers to \<open>FileMetaData\<close> objects, which versions and
  builders share. A pointer is a number, and a heap maps the pointers of live objects to their
  contents. This theory has the functions that read one vector: binary search for a key,
  overlap tests, the ranges of compactions and their boundary files, and the iterator over the
  files of a level. A 64-bit signed integer is a word whose comparisons read it as signed.
  A vector of files has fewer than \<open>2 ^ 31\<close> elements, so its 32-bit indices are numbers.
\<close>

type_synonym s64 = "64 word"
type_synonym fptr = nat
type_synonym FileHeap = "fptr \<Rightarrow> FileMetaData option"

definition fmd :: "FileHeap \<Rightarrow> fptr \<Rightarrow> FileMetaData" where
  "fmd h f = the (h f)"

definition TargetFileSize :: "Options \<Rightarrow> u64" where
  "TargetFileSize options = word_of_nat (max_file_size options)"

definition MaxGrandParentOverlapBytes :: "Options \<Rightarrow> s64" where
  "MaxGrandParentOverlapBytes options = 10 * TargetFileSize options"

definition ExpandedCompactionByteSizeLimit :: "Options \<Rightarrow> s64" where
  "ExpandedCompactionByteSizeLimit options = 25 * TargetFileSize options"

definition MaxFileSizeForLevel :: "Options \<Rightarrow> nat \<Rightarrow> u64" where
  "MaxFileSizeForLevel options level = TargetFileSize options"

definition TotalFileSize :: "FileHeap \<Rightarrow> fptr list \<Rightarrow> s64" where
  "TotalFileSize h files = foldl (\<lambda>sum f. sum + file_size (fmd h f)) 0 files"

subsection \<open>Searching\<close>

function FindFile_loop :: "Comparator \<Rightarrow> FileHeap \<Rightarrow> fptr list \<Rightarrow> bytes \<Rightarrow> nat \<Rightarrow> nat \<Rightarrow> nat" where
  "FindFile_loop c h files key left right =
     (if left < right then
        (let mid = (left + right) div 2;
             f = fmd h (files ! mid)
         in if Compare (InternalKeyComparator c) (largest f) key < 0
            then FindFile_loop c h files key (mid + 1) right
            else FindFile_loop c h files key left mid)
      else right)"
  by pat_completeness auto
termination by (relation "measure (\<lambda>(_, _, _, _, left, right). right - left)") auto

declare FindFile_loop.simps [simp del]

definition FindFile :: "Comparator \<Rightarrow> FileHeap \<Rightarrow> fptr list \<Rightarrow> bytes \<Rightarrow> nat" where
  "FindFile c h files key = FindFile_loop c h files key 0 (length files)"

definition smallest_user_key :: "FileHeap \<Rightarrow> fptr \<Rightarrow> bytes" where
  "smallest_user_key h f = ExtractUserKey (smallest (fmd h f))"

definition largest_user_key :: "FileHeap \<Rightarrow> fptr \<Rightarrow> bytes" where
  "largest_user_key h f = ExtractUserKey (largest (fmd h f))"

definition AfterFile :: "Comparator \<Rightarrow> FileHeap \<Rightarrow> bytes option \<Rightarrow> fptr \<Rightarrow> bool" where
  "AfterFile ucmp h ukey f =
     (case ukey of None \<Rightarrow> False | Some k \<Rightarrow> Compare ucmp k (largest_user_key h f) > 0)"

definition BeforeFile :: "Comparator \<Rightarrow> FileHeap \<Rightarrow> bytes option \<Rightarrow> fptr \<Rightarrow> bool" where
  "BeforeFile ucmp h ukey f =
     (case ukey of None \<Rightarrow> False | Some k \<Rightarrow> Compare ucmp k (smallest_user_key h f) < 0)"

definition SomeFileOverlapsRange ::
    "Comparator \<Rightarrow> FileHeap \<Rightarrow> bool \<Rightarrow> fptr list \<Rightarrow> bytes option \<Rightarrow> bytes option \<Rightarrow> bool" where
  "SomeFileOverlapsRange c h disjoint_sorted_files files smallest_key largest_key =
     (if \<not> disjoint_sorted_files
      then list_ex (\<lambda>f. \<not> (AfterFile c h smallest_key f \<or> BeforeFile c h largest_key f)) files
      else
        (let index = (case smallest_key of
                        None \<Rightarrow> 0
                      | Some k \<Rightarrow> FindFile c h files (InternalKey_new k kMaxSequenceNumber kValueTypeForSeek))
         in if index \<ge> length files then False
            else \<not> BeforeFile c h largest_key (files ! index)))"

text \<open>
  \<open>GetOverlappingInputs\<close> restarts its scan of level 0 whenever a file extends the range. The loop
  has the index \<open>i\<close>, the current range and the inputs collected since the last restart.
\<close>

partial_function (option) GetOverlappingInputs_loop ::
    "Comparator \<Rightarrow> FileHeap \<Rightarrow> fptr list \<Rightarrow> bool \<Rightarrow> nat \<Rightarrow> bytes option \<Rightarrow> bytes option \<Rightarrow> fptr list \<Rightarrow>
     fptr list option" where
  "GetOverlappingInputs_loop c h files level0 i user_begin user_end inputs =
     (if i < length files then
        (let f = files ! i; i = i + 1;
             file_start = smallest_user_key h f;
             file_limit = largest_user_key h f
         in if user_begin \<noteq> None \<and> Compare c file_limit (the user_begin) < 0
            then GetOverlappingInputs_loop c h files level0 i user_begin user_end inputs
            else if user_end \<noteq> None \<and> Compare c file_start (the user_end) > 0
            then GetOverlappingInputs_loop c h files level0 i user_begin user_end inputs
            else if level0 \<and> user_begin \<noteq> None \<and> Compare c file_start (the user_begin) < 0
            then GetOverlappingInputs_loop c h files level0 0 (Some file_start) user_end []
            else if level0 \<and> user_end \<noteq> None \<and> Compare c file_limit (the user_end) > 0
            then GetOverlappingInputs_loop c h files level0 0 user_begin (Some file_limit) []
            else GetOverlappingInputs_loop c h files level0 i user_begin user_end (inputs @ [f]))
      else Some inputs)"

definition GetOverlappingInputs ::
    "Comparator \<Rightarrow> FileHeap \<Rightarrow> fptr list list \<Rightarrow> nat \<Rightarrow> bytes option \<Rightarrow> bytes option \<Rightarrow> fptr list option" where
  "GetOverlappingInputs c h levels level begin' end' =
     GetOverlappingInputs_loop c h (levels ! level) (level = 0) 0
       (map_option ExtractUserKey begin') (map_option ExtractUserKey end') []"

subsection \<open>Ranges and boundary files\<close>

fun GetRange_loop :: "Comparator \<Rightarrow> FileHeap \<Rightarrow> fptr list \<Rightarrow> bytes \<Rightarrow> bytes \<Rightarrow> bytes \<times> bytes" where
  "GetRange_loop c h [] s l = (s, l)"
| "GetRange_loop c h (f # inputs) s l =
     GetRange_loop c h inputs
       (if Compare (InternalKeyComparator c) (smallest (fmd h f)) s < 0 then smallest (fmd h f) else s)
       (if Compare (InternalKeyComparator c) (largest (fmd h f)) l > 0 then largest (fmd h f) else l)"

definition GetRange :: "Comparator \<Rightarrow> FileHeap \<Rightarrow> fptr list \<Rightarrow> bytes \<times> bytes" where
  "GetRange c h inputs =
     (case inputs of
        [] \<Rightarrow> ([], [])
      | f # inputs \<Rightarrow> GetRange_loop c h inputs (smallest (fmd h f)) (largest (fmd h f)))"

definition GetRange2 :: "Comparator \<Rightarrow> FileHeap \<Rightarrow> fptr list \<Rightarrow> fptr list \<Rightarrow> bytes \<times> bytes" where
  "GetRange2 c h inputs1 inputs2 = GetRange c h (inputs1 @ inputs2)"

definition FindLargestKey :: "Comparator \<Rightarrow> FileHeap \<Rightarrow> fptr list \<Rightarrow> bytes option" where
  "FindLargestKey c h files =
     (case files of
        [] \<Rightarrow> None
      | f # fs \<Rightarrow> Some (foldl (\<lambda>largest_key f.
          if Compare (InternalKeyComparator c) (largest (fmd h f)) largest_key > 0
          then largest (fmd h f) else largest_key) (largest (fmd h f)) fs))"

definition boundary_step :: "Comparator \<Rightarrow> FileHeap \<Rightarrow> bytes \<Rightarrow> fptr option \<Rightarrow> fptr \<Rightarrow> fptr option" where
  "boundary_step c h largest_key smallest_boundary_file f =
     (if Compare (InternalKeyComparator c) (smallest (fmd h f)) largest_key > 0 \<and>
         Compare c (smallest_user_key h f) (ExtractUserKey largest_key) = 0 \<and>
         (case smallest_boundary_file of None \<Rightarrow> True
          | Some b \<Rightarrow> Compare (InternalKeyComparator c) (smallest (fmd h f)) (smallest (fmd h b)) < 0)
      then Some f else smallest_boundary_file)"

definition FindSmallestBoundaryFile :: "Comparator \<Rightarrow> FileHeap \<Rightarrow> fptr list \<Rightarrow> bytes \<Rightarrow> fptr option" where
  "FindSmallestBoundaryFile c h level_files largest_key =
     foldl (boundary_step c h largest_key) None level_files"

partial_function (option) AddBoundaryInputs_loop ::
    "Comparator \<Rightarrow> FileHeap \<Rightarrow> fptr list \<Rightarrow> bytes \<Rightarrow> fptr list \<Rightarrow> fptr list option" where
  "AddBoundaryInputs_loop c h level_files largest_key compaction_files =
     (case FindSmallestBoundaryFile c h level_files largest_key of
        Some b \<Rightarrow> AddBoundaryInputs_loop c h level_files (largest (fmd h b)) (compaction_files @ [b])
      | None \<Rightarrow> Some compaction_files)"

definition AddBoundaryInputs ::
    "Comparator \<Rightarrow> FileHeap \<Rightarrow> fptr list \<Rightarrow> fptr list \<Rightarrow> fptr list option" where
  "AddBoundaryInputs c h level_files compaction_files =
     (case FindLargestKey c h compaction_files of
        None \<Rightarrow> Some compaction_files
      | Some largest_key \<Rightarrow> AddBoundaryInputs_loop c h level_files largest_key compaction_files)"

subsection \<open>The iterator over the files of a level\<close>

record LevelFileNumIterator =
  flist :: "fptr list"
  lf_index :: nat

definition LevelFileNumIterator_new :: "fptr list \<Rightarrow> LevelFileNumIterator" where
  "LevelFileNumIterator_new fl = \<lparr>flist = fl, lf_index = length fl\<rparr>"

definition lf_key :: "FileHeap \<Rightarrow> LevelFileNumIterator \<Rightarrow> bytes" where
  "lf_key h it = largest (fmd h (flist it ! lf_index it))"

definition lf_value :: "FileHeap \<Rightarrow> LevelFileNumIterator \<Rightarrow> bytes" where
  "lf_value h it = EncodeFixed64 (fnumber (fmd h (flist it ! lf_index it))) @
     EncodeFixed64 (file_size (fmd h (flist it ! lf_index it)))"

definition LevelFileNumIterator_ops :: "Comparator \<Rightarrow> FileHeap \<Rightarrow> LevelFileNumIterator Iterator" where
  "LevelFileNumIterator_ops c h =
     \<lparr>it_Valid = (\<lambda>it. lf_index it < length (flist it)),
      it_Seek = (\<lambda>target it. Some (it\<lparr>lf_index := FindFile c h (flist it) target\<rparr>)),
      it_SeekToFirst = (\<lambda>it. Some (it\<lparr>lf_index := 0\<rparr>)),
      it_SeekToLast = (\<lambda>it. Some (it\<lparr>lf_index := (if flist it = [] then 0 else length (flist it) - 1)\<rparr>)),
      it_Next = (\<lambda>it. Some (it\<lparr>lf_index := lf_index it + 1\<rparr>)),
      it_Prev = (\<lambda>it. Some (it\<lparr>lf_index := (if lf_index it = 0 then length (flist it) else lf_index it - 1)\<rparr>)),
      it_key = lf_key h, it_value = (\<lambda>it. Some (lf_value h it)), it_status = (\<lambda>_. OK)\<rparr>"

subsection \<open>Well-formed levels\<close>

text \<open>
  The keys of a file are internal keys with a proper tag, its range is not empty; the files of
  a level other than 0 are sorted and their ranges are disjoint.
\<close>

definition file_ok :: "Comparator \<Rightarrow> (bytes \<Rightarrow> bool) \<Rightarrow> FileMetaData \<Rightarrow> bool" where
  "file_ok c valid f \<longleftrightarrow> valid_ikey valid (smallest f) \<and> valid_ikey valid (largest f) \<and>
     key_tag (smallest f) \<le> PackSequenceAndType kMaxSequenceNumber kValueTypeForSeek \<and>
     key_tag (largest f) \<le> PackSequenceAndType kMaxSequenceNumber kValueTypeForSeek \<and>
     Compare (InternalKeyComparator c) (smallest f) (largest f) \<le> 0"

definition level_ok :: "Comparator \<Rightarrow> (bytes \<Rightarrow> bool) \<Rightarrow> FileHeap \<Rightarrow> fptr list \<Rightarrow> bool" where
  "level_ok c valid h files \<longleftrightarrow> (\<forall>f \<in> set files. file_ok c valid (fmd h f)) \<and>
     sorted_wrt (\<lambda>f g. Compare (InternalKeyComparator c) (largest (fmd h f)) (smallest (fmd h g)) < 0) files"

definition overlaps_range :: "Comparator \<Rightarrow> FileHeap \<Rightarrow> bytes option \<Rightarrow> bytes option \<Rightarrow> fptr \<Rightarrow> bool" where
  "overlaps_range c h lo hi f \<longleftrightarrow> \<not> AfterFile c h lo f \<and> \<not> BeforeFile c h hi f"

definition files_overlap :: "Comparator \<Rightarrow> FileHeap \<Rightarrow> fptr \<Rightarrow> fptr \<Rightarrow> bool" where
  "files_overlap c h f g \<longleftrightarrow> Compare c (smallest_user_key h f) (largest_user_key h g) \<le> 0 \<and>
     Compare c (smallest_user_key h g) (largest_user_key h f) \<le> 0"

definition file_entries :: "FileHeap \<Rightarrow> fptr list \<Rightarrow> (bytes \<times> bytes) list" where
  "file_entries h files =
     map (\<lambda>f. (largest (fmd h f), EncodeFixed64 (fnumber (fmd h f)) @ EncodeFixed64 (file_size (fmd h f)))) files"

text \<open>The files that overlap a range directly or through a chain of overlapping files.\<close>

inductive overlap_closure ::
    "Comparator \<Rightarrow> FileHeap \<Rightarrow> fptr list \<Rightarrow> bytes option \<Rightarrow> bytes option \<Rightarrow> fptr \<Rightarrow> bool"
  for c h files lo hi where
  seed: "f \<in> set files \<Longrightarrow> overlaps_range c h lo hi f \<Longrightarrow> overlap_closure c h files lo hi f"
| grow: "overlap_closure c h files lo hi f \<Longrightarrow> g \<in> set files \<Longrightarrow> files_overlap c h f g \<Longrightarrow>
    overlap_closure c h files lo hi g"

context internal_keys
begin

lemma file_okD:
  assumes "file_ok c valid (fmd h f)"
  shows "ivalid (smallest (fmd h f))" "ivalid (largest (fmd h f))" "valid (smallest_user_key h f)"
    "valid (largest_user_key h f)" "Compare c (smallest_user_key h f) (largest_user_key h f) \<le> 0"
    "icmp (smallest (fmd h f)) (largest (fmd h f)) \<le> 0"
  using assms
  by (auto simp: file_ok_def valid_ikey_def smallest_user_key_def largest_user_key_def icmp_le_iff)

lemma level_okD:
  assumes "level_ok c valid h files" "i < length files"
  shows "file_ok c valid (fmd h (files ! i))"
    "\<And>j. i < j \<Longrightarrow> j < length files \<Longrightarrow> icmp (largest (fmd h (files ! i))) (smallest (fmd h (files ! j))) < 0"
    "\<And>j. i < j \<Longrightarrow> j < length files \<Longrightarrow> icmp (largest (fmd h (files ! i))) (largest (fmd h (files ! j))) < 0"
    "\<And>j. i < j \<Longrightarrow> j < length files \<Longrightarrow> icmp (smallest (fmd h (files ! i))) (smallest (fmd h (files ! j))) < 0"
proof -
  show 1: "file_ok c valid (fmd h (files ! i))" using assms by (simp add: level_ok_def)
  fix j assume j: "i < j" "j < length files"
  show 2: "icmp (largest (fmd h (files ! i))) (smallest (fmd h (files ! j))) < 0"
    using assms(1) j by (simp add: level_ok_def sorted_wrt_iff_nth_less)
  have 3: "file_ok c valid (fmd h (files ! j))" using assms(1) j by (simp add: level_ok_def)
  show "icmp (largest (fmd h (files ! i))) (largest (fmd h (files ! j))) < 0"
    by (rule ik.lt_le_trans [OF _ _ _ 2]) (use file_okD [OF 1] file_okD [OF 3] in auto)
  show "icmp (smallest (fmd h (files ! i))) (smallest (fmd h (files ! j))) < 0"
    by (rule ik.le_lt_trans [OF _ _ _ _ 2]) (use file_okD [OF 1] file_okD [OF 3] in auto)
qed

subsection \<open>Binary search\<close>

lemma FindFile_loop_bounds:
  assumes "left \<le> right" "right \<le> length files"
    and "\<forall>i < left. icmp (largest (fmd h (files ! i))) key < 0"
    and "\<forall>i. right \<le> i \<longrightarrow> i < length files \<longrightarrow> \<not> icmp (largest (fmd h (files ! i))) key < 0"
    and "level_ok c valid h files" "ivalid key"
  shows "(\<forall>i < FindFile_loop c h files key left right. icmp (largest (fmd h (files ! i))) key < 0) \<and>
    FindFile_loop c h files key left right \<le> length files \<and>
    (\<forall>i. FindFile_loop c h files key left right \<le> i \<longrightarrow> i < length files \<longrightarrow>
      \<not> icmp (largest (fmd h (files ! i))) key < 0)"
  using assms(1-4)
proof (induction "right - left" arbitrary: left right rule: less_induct)
  case less
  show ?case
  proof (cases "left < right")
    case False
    then show ?thesis using less.prems by (subst (1 2 3) FindFile_loop.simps) auto
  next
    case True
    let ?mid = "(left + right) div 2"
    have mid: "left \<le> ?mid" "?mid < right" "?mid < length files" using True less.prems(2) by auto
    have before: "icmp (largest (fmd h (files ! i))) key < 0"
      if "icmp (largest (fmd h (files ! j))) key < 0" "i \<le> j" "j < length files" for i j
    proof (cases "i = j")
      case False
      then have "i < j" "i < length files" using that by auto
      note l = level_okD [OF assms(5) this(2)] and l' = level_okD(1) [OF assms(5) that(3)]
      show ?thesis
        by (rule ik.lt_trans [OF _ _ assms(6) l(3) [OF \<open>i < j\<close> that(3)] that(1)])
           (use file_okD [OF l(1)] file_okD [OF l'] in auto)
    qed (use that in simp)
    show ?thesis
    proof (cases "icmp (largest (fmd h (files ! ?mid))) key < 0")
      case lt: True
      then have "\<forall>i < ?mid + 1. icmp (largest (fmd h (files ! i))) key < 0"
        using before [OF lt _ mid(3)] by simp
      with less.hyps [of right "?mid + 1"] mid less.prems True lt show ?thesis
        by (subst (1 2 3) FindFile_loop.simps) (simp add: Let_def)
    next
      case ge: False
      then have "\<forall>i. ?mid \<le> i \<longrightarrow> i < length files \<longrightarrow> \<not> icmp (largest (fmd h (files ! i))) key < 0"
        using before by blast
      with less.hyps [of ?mid left] mid less.prems True ge show ?thesis
        by (subst (1 2 3) FindFile_loop.simps) (simp add: Let_def)
    qed
  qed
qed

lemma FindFile_bounds:
  assumes "level_ok c valid h files" "ivalid key"
  shows "FindFile c h files key \<le> length files"
    "i < FindFile c h files key \<Longrightarrow> icmp (largest (fmd h (files ! i))) key < 0"
    "FindFile c h files key \<le> i \<Longrightarrow> i < length files \<Longrightarrow> \<not> icmp (largest (fmd h (files ! i))) key < 0"
  using FindFile_loop_bounds [of 0 "length files" files h key] assms by (auto simp: FindFile_def)

lemma FindFile_first_ge:
  assumes "level_ok c valid h files" "ivalid key"
  shows "FindFile c h files key = first_ge (InternalKeyComparator c) (map (\<lambda>f. (largest (fmd h f), v f)) files) key"
  by (rule first_ge_eqI [symmetric]) (use FindFile_bounds [OF assms] in \<open>auto simp: nth_map\<close>)

text \<open>The iterator over the files of a level satisfies the iterator contract.\<close>

definition level_file_at :: "FileHeap \<Rightarrow> LevelFileNumIterator \<Rightarrow> (bytes \<times> bytes) list \<Rightarrow> nat \<Rightarrow> bool" where
  "level_file_at h it es i \<longleftrightarrow> level_ok c valid h (flist it) \<and> es = file_entries h (flist it) \<and>
     i = lf_index it \<and> i \<le> length es"

lemma sorted_file_entries: "level_ok c valid h files \<Longrightarrow> sorted_entries (InternalKeyComparator c) ivalid (file_entries h files)"
  using level_okD(1,3) [of h files] file_okD(2)
  by (auto simp: sorted_entries_def file_entries_def sorted_wrt_iff_nth_less level_ok_def)

lemma level_file_iterator:
  "iterator (InternalKeyComparator c) ivalid (LevelFileNumIterator_ops c h) (level_file_at h)"
proof
  fix it es i t
  assume a: "level_file_at h it es i"
  note [simp] = LevelFileNumIterator_ops_def
  have lv: "level_ok c valid h (flist it)" and es: "es = file_entries h (flist it)" and i: "i = lf_index it"
    using a by (simp_all add: level_file_at_def)
  have len: "length es = length (flist it)" using es by (simp add: file_entries_def)
  show "sorted_entries (InternalKeyComparator c) ivalid es" using sorted_file_entries [OF lv] es by simp
  show "i \<le> length es" using a unfolding level_file_at_def by blast
  show "it_Valid (LevelFileNumIterator_ops c h) it \<longleftrightarrow> i < length es" using i len by simp
  show "ok (it_status (LevelFileNumIterator_ops c h) it)" by simp
  show "\<exists>it'. it_Seek (LevelFileNumIterator_ops c h) t it = Some it' \<and> level_file_at h it' es (first_ge (InternalKeyComparator c) es t)"
    if "ivalid t"
    using FindFile_first_ge [OF lv that] lv es first_ge_le [of "InternalKeyComparator c" es t]
    by (auto simp: level_file_at_def file_entries_def)
  show "\<exists>it'. it_SeekToFirst (LevelFileNumIterator_ops c h) it = Some it' \<and> level_file_at h it' es 0"
    "\<exists>it'. it_SeekToLast (LevelFileNumIterator_ops c h) it = Some it' \<and> level_file_at h it' es (length es - 1)"
    using lv es len by (auto simp: level_file_at_def)
  assume lt: "i < length es"
  show "it_key (LevelFileNumIterator_ops c h) it = fst (es ! i)"
    "it_value (LevelFileNumIterator_ops c h) it = Some (snd (es ! i))"
    using lt i len es by (simp_all add: lf_key_def lf_value_def file_entries_def)
  show "\<exists>it'. it_Next (LevelFileNumIterator_ops c h) it = Some it' \<and> level_file_at h it' es (Suc i)"
    "\<exists>it'. it_Prev (LevelFileNumIterator_ops c h) it = Some it' \<and> level_file_at h it' es (if i = 0 then length es else i - 1)"
    using lt i lv es len by (auto simp: level_file_at_def)
qed

subsection \<open>Overlap\<close>

lemma user_after_seek_key:
  assumes "file_ok c valid (fmd h f)" "valid k"
  shows "icmp (largest (fmd h f)) (InternalKey_new k kMaxSequenceNumber kValueTypeForSeek) < 0 \<longleftrightarrow>
    Compare c (largest_user_key h f) k < 0"
  using assms by (auto simp: icmp_less_iff largest_user_key_def file_ok_def)

lemma SomeFileOverlapsRange_iff:
  assumes "if disjoint' then level_ok c valid h files else \<forall>f \<in> set files. file_ok c valid (fmd h f)"
    and "\<And>k. lo = Some k \<Longrightarrow> valid k" "\<And>k. hi = Some k \<Longrightarrow> valid k"
  shows "SomeFileOverlapsRange c h disjoint' files lo hi \<longleftrightarrow> (\<exists>f \<in> set files. overlaps_range c h lo hi f)"
proof (cases disjoint')
  case False
  then show ?thesis by (auto simp: SomeFileOverlapsRange_def overlaps_range_def list_ex_iff)
next
  case True
  then have lv: "level_ok c valid h files" using assms(1) by simp
  define n where "n = (case lo of None \<Rightarrow> 0
    | Some k \<Rightarrow> FindFile c h files (InternalKey_new k kMaxSequenceNumber kValueTypeForSeek))"
  have fok: "file_ok c valid (fmd h (files ! i))" if "i < length files" for i by (rule level_okD(1) [OF lv that])
  have n: "AfterFile c h lo (files ! i) \<longleftrightarrow> i < n" if i: "i < length files" for i
  proof (cases lo)
    case None
    then show ?thesis by (simp add: AfterFile_def n_def)
  next
    case (Some k)
    note v = assms(2) [OF Some]
    have key: "ivalid (InternalKey_new k kMaxSequenceNumber kValueTypeForSeek)" using v by (simp add: valid_ikey_def)
    have "icmp (largest (fmd h (files ! i))) (InternalKey_new k kMaxSequenceNumber kValueTypeForSeek) < 0 \<longleftrightarrow> i < n"
      using FindFile_bounds(2,3) [OF lv key, of i] i Some by (cases "i < n") (auto simp: n_def)
    then show ?thesis
      using user_after_seek_key [OF fok [OF i] v] gt_iff_lt [OF file_okD(4) [OF fok [OF i]] v] Some
      by (simp add: AfterFile_def)
  qed
  have "SomeFileOverlapsRange c h disjoint' files lo hi \<longleftrightarrow> n < length files \<and> \<not> BeforeFile c h hi (files ! n)"
    using True unfolding SomeFileOverlapsRange_def n_def [symmetric] by (auto simp: Let_def)
  also have "\<dots> \<longleftrightarrow> (\<exists>i < length files. n \<le> i \<and> \<not> BeforeFile c h hi (files ! i))"
  proof
    assume "\<exists>i < length files. n \<le> i \<and> \<not> BeforeFile c h hi (files ! i)"
    then obtain i where i: "i < length files" "n \<le> i" "\<not> BeforeFile c h hi (files ! i)" by blast
    then have nl: "n < length files" by simp
    show "n < length files \<and> \<not> BeforeFile c h hi (files ! n)"
    proof (cases "n = i")
      case False
      then have "n < i" using i(2) by simp
      from level_okD(4) [OF lv nl this i(1)]
      have le: "Compare c (smallest_user_key h (files ! n)) (smallest_user_key h (files ! i)) \<le> 0"
        by (auto simp: icmp_less_iff smallest_user_key_def)
      show ?thesis
      proof (cases hi)
        case (Some k)
        have "\<not> Compare c k (smallest_user_key h (files ! i)) < 0" using i(3) Some by (simp add: BeforeFile_def)
        then show ?thesis
          using lt_le_trans [OF assms(3) [OF Some] file_okD(3) [OF fok [OF nl]] file_okD(3) [OF fok [OF i(1)]] _ le]
            nl Some by (auto simp: BeforeFile_def)
      qed (use nl in \<open>simp add: BeforeFile_def\<close>)
    qed (use i in simp)
  qed (use n in blast)
  also have "\<dots> \<longleftrightarrow> (\<exists>f \<in> set files. overlaps_range c h lo hi f)"
    unfolding overlaps_range_def using n by (metis in_set_conv_nth not_less)
  finally show ?thesis .
qed

text \<open>
  \<open>GetOverlappingInputs\<close>: in level 0 the range grows, each time over one more end of a file, so
  the scan restarts at most twice per file.
\<close>

definition inside_range :: "FileHeap \<Rightarrow> bytes option \<Rightarrow> bytes option \<Rightarrow> fptr \<Rightarrow> bool" where
  "inside_range h b e f \<longleftrightarrow> (\<forall>k. b = Some k \<longrightarrow> \<not> Compare c (smallest_user_key h f) k < 0) \<and>
     (\<forall>k. e = Some k \<longrightarrow> \<not> Compare c (largest_user_key h f) k > 0)"

definition overl :: "FileHeap \<Rightarrow> bytes option \<Rightarrow> bytes option \<Rightarrow> fptr \<Rightarrow> bool" where
  "overl h b e f \<longleftrightarrow> (\<forall>k. b = Some k \<longrightarrow> \<not> Compare c (largest_user_key h f) k < 0) \<and>
     (\<forall>k. e = Some k \<longrightarrow> \<not> Compare c (smallest_user_key h f) k > 0)"

definition valid_range :: "bytes option \<Rightarrow> bytes option \<Rightarrow> bool" where
  "valid_range b e \<longleftrightarrow> (\<forall>k. b = Some k \<longrightarrow> valid k) \<and> (\<forall>k. e = Some k \<longrightarrow> valid k)"

lemma overlaps_range_eq:
  "file_ok c valid (fmd h f) \<Longrightarrow> valid_range b e \<Longrightarrow> overlaps_range c h b e f \<longleftrightarrow> overl h b e f"
  using gt_iff_lt [OF file_okD(4)] gt_iff_lt [OF _ file_okD(3)]
  by (auto simp: overlaps_range_def overl_def AfterFile_def BeforeFile_def valid_range_def split: option.splits)

lemma GetOverlappingInputs_loop_step:
  assumes "i < length files"
  shows "GetOverlappingInputs_loop c h files level0 i b e inputs =
    (let f = files ! i in
     if \<not> overl h b e f then GetOverlappingInputs_loop c h files level0 (i + 1) b e inputs
     else if level0 \<and> \<not> inside_range h b e f
       then if b \<noteq> None \<and> Compare c (smallest_user_key h f) (the b) < 0
         then GetOverlappingInputs_loop c h files level0 0 (Some (smallest_user_key h f)) e []
         else GetOverlappingInputs_loop c h files level0 0 b (Some (largest_user_key h f)) []
     else GetOverlappingInputs_loop c h files level0 (i + 1) b e (inputs @ [f]))"
  using assms
  by (subst GetOverlappingInputs_loop.simps)
     (cases b; cases e; cases level0; simp add: Let_def overl_def inside_range_def)

text \<open>In the other levels one pass collects the files that overlap the range.\<close>

lemma GetOverlappingInputs_loop_other:
  "GetOverlappingInputs_loop c h files False i b e inputs = Some (inputs @ filter (overl h b e) (drop i files))"
proof (induction "length files - i" arbitrary: i inputs rule: less_induct)
  case less
  show ?case
  proof (cases "i < length files")
    case False
    then show ?thesis by (subst GetOverlappingInputs_loop.simps) simp
  next
    case True
    then have d: "drop i files = files ! i # drop (i + 1) files" by (simp add: Cons_nth_drop_Suc)
    have m: "length files - (i + 1) < length files - i" using True by simp
    show ?thesis
      unfolding GetOverlappingInputs_loop_step [OF True] d using less.hyps [OF m] by (simp add: Let_def)
  qed
qed

definition range_room :: "FileHeap \<Rightarrow> fptr list \<Rightarrow> bytes option \<Rightarrow> bytes option \<Rightarrow> nat" where
  "range_room h files b e =
     length (filter (\<lambda>f. b \<noteq> None \<and> Compare c (smallest_user_key h f) (the b) < 0) files) +
     length (filter (\<lambda>f. e \<noteq> None \<and> Compare c (largest_user_key h f) (the e) > 0) files)"

lemma length_filter_strict:
  assumes "\<And>x. x \<in> set xs \<Longrightarrow> P x \<Longrightarrow> Q x" "y \<in> set xs" "Q y" "\<not> P y"
  shows "length (filter P xs) < length (filter Q xs)"
proof -
  have e: "filter P xs = filter P (filter Q xs)" using assms(1) by (auto intro: filter_cong)
  show ?thesis unfolding e by (rule length_filter_less [of y]) (use assms in auto)
qed

lemma count_below:
  assumes "\<forall>g \<in> set files. valid (key g)" "valid k" "f \<in> set files" "Compare c (key f) k < 0"
  shows "length (filter (\<lambda>g. Compare c (key g) (key f) < 0) files) < length (filter (\<lambda>g. Compare c (key g) k < 0) files)"
proof (rule length_filter_strict [of files _ _ f])
  show "Compare c (key g) k < 0" if "g \<in> set files" "Compare c (key g) (key f) < 0" for g
    using lt_trans [of "key g" "key f" k] that assms by blast
  show "\<not> Compare c (key f) (key f) < 0" using refl [of "key f"] assms(1,3) by simp
qed (use assms in auto)

lemma count_above:
  assumes "\<forall>g \<in> set files. valid (key g)" "valid k" "f \<in> set files" "Compare c (key f) k > 0"
  shows "length (filter (\<lambda>g. Compare c (key g) (key f) > 0) files) < length (filter (\<lambda>g. Compare c (key g) k > 0) files)"
proof (rule length_filter_strict [of files _ _ f])
  show "Compare c (key g) k > 0" if "g \<in> set files" "Compare c (key g) (key f) > 0" for g
    using lt_trans [of k "key f" "key g"] gt_iff_lt that assms by blast
  show "\<not> Compare c (key f) (key f) > 0" using refl [of "key f"] assms(1,3) by simp
qed (use assms in auto)

text \<open>The result for level 0: the scan stops with a range that contains every file it overlaps.\<close>

lemma GetOverlappingInputs_loop_level0:
  assumes "\<forall>f \<in> set files. file_ok c valid (fmd h f)" "valid_range b e"
    and "i \<le> length files" "inputs = filter (overl h b e) (take i files)" "\<forall>f \<in> set inputs. inside_range h b e f"
    and "\<forall>f \<in> set files. overlaps_range c h b0 e0 f \<longrightarrow> overl h b e f"
    and "\<forall>f \<in> set files. overl h b e f \<longrightarrow> overlap_closure c h files b0 e0 f"
  shows "\<exists>b' e'. GetOverlappingInputs_loop c h files True i b e inputs = Some (filter (overl h b' e') files) \<and>
    valid_range b' e' \<and> (\<forall>f \<in> set files. overl h b' e' f \<longrightarrow> inside_range h b' e' f) \<and>
    (\<forall>f \<in> set files. overlaps_range c h b0 e0 f \<longrightarrow> overl h b' e' f) \<and>
    (\<forall>f \<in> set files. overl h b' e' f \<longrightarrow> overlap_closure c h files b0 e0 f)"
  using assms(2-7)
proof (induction "range_room h files b e * Suc (length files) + (length files - i)" arbitrary: b e i inputs rule: less_induct)
  case less
  let ?L = "length files"
  show ?case
  proof (cases "i < ?L")
    case False
    then have "inputs = filter (overl h b e) files" using less.prems(2,3) by simp
    moreover have "GetOverlappingInputs_loop c h files True i b e inputs = Some inputs"
      using False by (subst GetOverlappingInputs_loop.simps) simp
    ultimately show ?thesis using less.prems by (intro exI [of _ b] exI [of _ e]) auto
  next
    case True
    let ?f = "files ! i"
    have f: "?f \<in> set files" "file_ok c valid (fmd h ?f)" using True assms(1) by simp_all
    have tk: "take (i + 1) files = take i files @ [?f]" using True by (simp add: take_Suc_conv_app_nth)
    have next_i: "range_room h files b e * Suc ?L + (?L - (i + 1)) < range_room h files b e * Suc ?L + (?L - i)"
      using True by simp
    have restart: "room' * Suc ?L + (?L - 0) < range_room h files b e * Suc ?L + (?L - i)"
      if "room' < range_room h files b e" for room'
    proof -
      have "Suc room' * Suc ?L \<le> range_room h files b e * Suc ?L" using that by (intro mult_le_mono1) simp
      then show ?thesis by simp
    qed
    note step = GetOverlappingInputs_loop_step [OF True, of h True b e inputs]
    consider (skip) "\<not> overl h b e ?f" | (collect) "overl h b e ?f" "inside_range h b e ?f"
      | (low) k where "overl h b e ?f" "b = Some k" "Compare c (smallest_user_key h ?f) k < 0"
      | (high) k where "overl h b e ?f" "e = Some k" "Compare c (largest_user_key h ?f) k > 0"
          "\<not> (b \<noteq> None \<and> Compare c (smallest_user_key h ?f) (the b) < 0)"
      by (cases b; cases e) (auto simp: inside_range_def)
    then show ?thesis
    proof cases
      case skip
      show ?thesis unfolding step using skip
        by (simp only: Let_def not_False_eq_True if_True) (rule less.hyps [OF next_i less.prems(1)], use True less.prems tk skip in auto)
    next
      case collect
      show ?thesis unfolding step using collect
        by (simp only: Let_def not_True_eq_False if_False if_True simp_thms)
           (rule less.hyps [OF next_i less.prems(1)], use True less.prems tk collect in auto)
    next
      case low
      let ?b = "Some (smallest_user_key h ?f)"
      have vk: "valid k" using less.prems(1) low(2) by (simp add: valid_range_def)
      have room: "range_room h files ?b e < range_room h files b e"
        unfolding range_room_def using low(2)
        using count_below [of files "smallest_user_key h", OF _ vk f(1) low(3)] assms(1) file_okD(3) by simp
      have wider: "overl h ?b e g" if "overl h b e g" "g \<in> set files" for g
      proof -
        have "valid (largest_user_key h g)" using that(2) assms(1) file_okD(4) by blast
        then have "\<not> Compare c (largest_user_key h g) (smallest_user_key h ?f) < 0"
          using lt_trans [OF _ file_okD(3) [OF f(2)] vk _ low(3)] that(1) low(2) by (auto simp: overl_def)
        then show ?thesis using that(1) by (simp add: overl_def)
      qed
      have new: "overlap_closure c h files b0 e0 g" if g: "overl h ?b e g" "g \<in> set files" for g
      proof (cases "overl h b e g")
        case False
        have gok: "file_ok c valid (fmd h g)" using g(2) assms(1) by blast
        have lt: "Compare c (largest_user_key h g) k < 0" using g(1) low(2) False by (auto simp: overl_def)
        have "Compare c (smallest_user_key h ?f) (largest_user_key h g) \<le> 0"
          using g(1) ge_iff_le [OF file_okD(3) [OF f(2)] file_okD(4) [OF gok]] by (simp add: overl_def)
        moreover have "Compare c k (largest_user_key h ?f) \<le> 0"
          using low(1,2) ge_iff_le [OF vk file_okD(4) [OF f(2)]] by (simp add: overl_def)
        then have "Compare c (largest_user_key h g) (largest_user_key h ?f) < 0"
          using lt_le_trans [OF file_okD(4) [OF gok] vk file_okD(4) [OF f(2)] lt] by blast
        then have "Compare c (smallest_user_key h g) (largest_user_key h ?f) \<le> 0"
          using le_trans [OF file_okD(3,4) [OF gok] file_okD(4) [OF f(2)] file_okD(5) [OF gok]] by simp
        ultimately show ?thesis
          by (intro overlap_closure.grow [OF less.prems(6) [rule_format, OF f(1) low(1)] g(2)]) (simp add: files_overlap_def)
      qed (use less.prems(6) g(2) in blast)
      have loop: "GetOverlappingInputs_loop c h files True i b e inputs = GetOverlappingInputs_loop c h files True 0 ?b e []"
        unfolding step using low by (simp add: Let_def inside_range_def)
      show ?thesis unfolding loop
        by (rule less.hyps [OF restart [OF room]])
           (use less.prems file_okD(3) [OF f(2)] wider new in \<open>auto simp: valid_range_def\<close>)
    next
      case high
      let ?e = "Some (largest_user_key h ?f)"
      have vk: "valid k" using less.prems(1) high(2) by (simp add: valid_range_def)
      have lim: "Compare c k (largest_user_key h ?f) < 0" using high(3) gt_iff_lt [OF vk file_okD(4) [OF f(2)]] by simp
      have room: "range_room h files b ?e < range_room h files b e"
        unfolding range_room_def using high(2)
        using count_above [of files "largest_user_key h", OF _ vk f(1) high(3)] assms(1) file_okD(4) by simp
      have wider: "overl h b ?e g" if "overl h b e g" "g \<in> set files" for g
      proof -
        have v: "valid (smallest_user_key h g)" using that(2) assms(1) file_okD(3) by blast
        then have "\<not> Compare c (largest_user_key h ?f) (smallest_user_key h g) < 0"
          using lt_trans [OF vk file_okD(4) [OF f(2)] v lim] gt_iff_lt [OF vk v] that(1) high(2) by (auto simp: overl_def)
        then show ?thesis using that(1) gt_iff_lt [OF file_okD(4) [OF f(2)] v] by (simp add: overl_def)
      qed
      have new: "overlap_closure c h files b0 e0 g" if g: "overl h b ?e g" "g \<in> set files" for g
      proof (cases "overl h b e g")
        case False
        have gok: "file_ok c valid (fmd h g)" using g(2) assms(1) by blast
        have lt: "Compare c k (smallest_user_key h g) < 0"
          using g(1) high(2) False gt_iff_lt [OF vk file_okD(3) [OF gok]] by (auto simp: overl_def)
        have "Compare c (smallest_user_key h g) (largest_user_key h ?f) \<le> 0"
          using g(1) by (simp add: overl_def)
        moreover have "Compare c (smallest_user_key h ?f) k \<le> 0" using high(1,2) by (simp add: overl_def)
        then have "Compare c (smallest_user_key h ?f) (smallest_user_key h g) < 0"
          using le_lt_trans [OF file_okD(3) [OF f(2)] vk file_okD(3) [OF gok] _ lt] by blast
        then have "Compare c (smallest_user_key h ?f) (largest_user_key h g) \<le> 0"
          using le_trans [OF file_okD(3) [OF f(2)] file_okD(3,4) [OF gok] _ file_okD(5) [OF gok]] by simp
        ultimately show ?thesis
          by (intro overlap_closure.grow [OF less.prems(6) [rule_format, OF f(1) high(1)] g(2)]) (simp add: files_overlap_def)
      qed (use less.prems(6) g(2) in blast)
      have loop: "GetOverlappingInputs_loop c h files True i b e inputs = GetOverlappingInputs_loop c h files True 0 b ?e []"
        unfolding step using high by (cases b) (simp_all add: Let_def inside_range_def)
      show ?thesis unfolding loop
        by (rule less.hyps [OF restart [OF room]])
           (use less.prems file_okD(4) [OF f(2)] wider new in \<open>auto simp: valid_range_def\<close>)
    qed
  qed
qed

lemma closed_range_separates:
  assumes "file_ok c valid (fmd h f)" "file_ok c valid (fmd h g)" "valid_range b e"
    and "inside_range h b e f" "\<not> overl h b e g"
  shows "\<not> files_overlap c h f g"
proof -
  note vf = file_okD(3,4) [OF assms(1)] and vg = file_okD(3,4) [OF assms(2)]
  from assms(5) consider (b) k where "b = Some k" "Compare c (largest_user_key h g) k < 0"
    | (e) k where "e = Some k" "Compare c (smallest_user_key h g) k > 0" by (auto simp: overl_def)
  then show ?thesis
  proof cases
    case b
    have k: "valid k" using assms(3) b(1) by (simp add: valid_range_def)
    have "Compare c k (smallest_user_key h f) \<le> 0"
      using assms(4) b(1) ge_iff_le [OF k vf(1)] by (simp add: inside_range_def)
    from lt_le_trans [OF vg(2) k vf(1) b(2) this] show ?thesis
      using gt_iff_lt [OF vg(2) vf(1)] by (simp add: files_overlap_def)
  next
    case e
    have k: "valid k" using assms(3) e(1) by (simp add: valid_range_def)
    have "Compare c (largest_user_key h f) k \<le> 0" using assms(4) e(1) by (simp add: inside_range_def)
    moreover have "Compare c k (smallest_user_key h g) < 0" using e(2) gt_iff_lt [OF k vg(1)] by simp
    ultimately have "Compare c (largest_user_key h f) (smallest_user_key h g) < 0"
      using le_lt_trans [OF vf(2) k vg(1)] by blast
    then show ?thesis using gt_iff_lt [OF vf(2) vg(1)] by (simp add: files_overlap_def)
  qed
qed

lemma GetOverlappingInputs_level0:
  assumes "\<forall>f \<in> set (levels ! 0). file_ok c valid (fmd h f)"
    and "\<And>k. lo = Some k \<Longrightarrow> ivalid k" "\<And>k. hi = Some k \<Longrightarrow> ivalid k"
  shows "GetOverlappingInputs c h levels 0 lo hi = Some (filter (overlap_closure c h (levels ! 0)
    (map_option ExtractUserKey lo) (map_option ExtractUserKey hi)) (levels ! 0))"
proof -
  let ?files = "levels ! 0" and ?b = "map_option ExtractUserKey lo" and ?e = "map_option ExtractUserKey hi"
  let ?cl = "overlap_closure c h ?files ?b ?e"
  have v: "valid_range ?b ?e" using assms(2,3) by (auto simp: valid_range_def valid_ikey_def)
  have ov: "overlaps_range c h ?b ?e f \<longleftrightarrow> overl h ?b ?e f" if "f \<in> set ?files" for f
    using overlaps_range_eq [OF _ v] assms(1) that by blast
  obtain b e where r: "GetOverlappingInputs_loop c h ?files True 0 ?b ?e [] = Some (filter (overl h b e) ?files)"
    "valid_range b e" "\<forall>f \<in> set ?files. overl h b e f \<longrightarrow> inside_range h b e f"
    "\<forall>f \<in> set ?files. overlaps_range c h ?b ?e f \<longrightarrow> overl h b e f"
    "\<forall>f \<in> set ?files. overl h b e f \<longrightarrow> ?cl f"
  proof -
    have seeds: "\<forall>f \<in> set ?files. overlaps_range c h ?b ?e f \<longrightarrow> overl h ?b ?e f"
      "\<forall>f \<in> set ?files. overl h ?b ?e f \<longrightarrow> ?cl f"
      using ov overlap_closure.seed [of _ ?files c h ?b ?e] by blast+
    show thesis
      using GetOverlappingInputs_loop_level0 [of ?files h ?b ?e 0 "[]" ?b ?e, OF assms(1) v _ _ _ seeds] that by auto
  qed
  have "overl h b e f" if "?cl f" for f
    using that
  proof induction
    case (seed f)
    then show ?case using r(4) by blast
  next
    case (grow f g)
    have f: "f \<in> set ?files" using grow(1) by (induction rule: overlap_closure.induct) auto
    then show ?case
      using closed_range_separates [of h f g b e] assms(1) r(2,3) grow(2,3,4) by blast
  qed
  then have "filter (overl h b e) ?files = filter ?cl ?files" using r(5) by (auto intro!: filter_cong)
  then show ?thesis using r(1) by (simp add: GetOverlappingInputs_def)
qed

lemma GetOverlappingInputs_other:
  assumes "\<forall>f \<in> set (levels ! level). file_ok c valid (fmd h f)" "0 < level"
    and "\<And>k. lo = Some k \<Longrightarrow> ivalid k" "\<And>k. hi = Some k \<Longrightarrow> ivalid k"
  shows "GetOverlappingInputs c h levels level lo hi = Some (filter (overlaps_range c h
    (map_option ExtractUserKey lo) (map_option ExtractUserKey hi)) (levels ! level))"
proof -
  have "valid_range (map_option ExtractUserKey lo) (map_option ExtractUserKey hi)"
    using assms(3,4) by (auto simp: valid_range_def valid_ikey_def)
  then have "filter (overl h (map_option ExtractUserKey lo) (map_option ExtractUserKey hi)) (levels ! level) =
    filter (overlaps_range c h (map_option ExtractUserKey lo) (map_option ExtractUserKey hi)) (levels ! level)"
    using overlaps_range_eq assms(1) by (intro filter_cong) auto
  then show ?thesis using assms(2) by (simp add: GetOverlappingInputs_def GetOverlappingInputs_loop_other)
qed

subsection \<open>Ranges\<close>

lemma GetRange_loop_bounds:
  "\<forall>f \<in> set inputs. file_ok c valid (fmd h f) \<Longrightarrow> ivalid s \<Longrightarrow> ivalid l \<Longrightarrow>
   case GetRange_loop c h inputs s l of (s', l') \<Rightarrow> ivalid s' \<and> ivalid l' \<and> icmp s' s \<le> 0 \<and> icmp l l' \<le> 0 \<and>
     (\<forall>f \<in> set inputs. icmp s' (smallest (fmd h f)) \<le> 0 \<and> icmp (largest (fmd h f)) l' \<le> 0) \<and>
     (s' = s \<or> s' \<in> (\<lambda>f. smallest (fmd h f)) ` set inputs) \<and> (l' = l \<or> l' \<in> (\<lambda>f. largest (fmd h f)) ` set inputs)"
proof (induction inputs arbitrary: s l)
  case Nil
  then show ?case using ik.refl by simp
next
  case (Cons f inputs)
  let ?s = "if icmp (smallest (fmd h f)) s < 0 then smallest (fmd h f) else s"
  let ?l = "if icmp (largest (fmd h f)) l > 0 then largest (fmd h f) else l"
  have f: "ivalid (smallest (fmd h f))" "ivalid (largest (fmd h f))" using Cons.prems(1) file_okD(1,2) by simp_all
  have v: "ivalid ?s" "ivalid ?l" using f Cons.prems(2,3) by simp_all
  have s: "icmp ?s s \<le> 0" "icmp ?s (smallest (fmd h f)) \<le> 0"
    using ik.refl [OF f(1)] ik.refl [OF Cons.prems(2)] ik.ge_iff_le [OF Cons.prems(2) f(1)] by auto
  have l: "icmp l ?l \<le> 0" "icmp (largest (fmd h f)) ?l \<le> 0"
    using ik.refl [OF f(2)] ik.refl [OF Cons.prems(3)] ik.gt_iff_lt [OF Cons.prems(3) f(2)] by auto
  obtain s' l' where r: "GetRange_loop c h inputs ?s ?l = (s', l')" by (cases "GetRange_loop c h inputs ?s ?l")
  note IH = Cons.IH [OF _ v, unfolded r prod.case]
  have IH': "ivalid s'" "ivalid l'" "icmp s' ?s \<le> 0" "icmp ?l l' \<le> 0"
    "\<forall>f \<in> set inputs. icmp s' (smallest (fmd h f)) \<le> 0 \<and> icmp (largest (fmd h f)) l' \<le> 0"
    "s' = ?s \<or> s' \<in> (\<lambda>f. smallest (fmd h f)) ` set inputs" "l' = ?l \<or> l' \<in> (\<lambda>f. largest (fmd h f)) ` set inputs"
    using IH Cons.prems(1) by simp_all
  have "icmp s' s \<le> 0" "icmp s' (smallest (fmd h f)) \<le> 0"
    using ik.le_trans [OF IH'(1) v(1) Cons.prems(2) IH'(3) s(1)] ik.le_trans [OF IH'(1) v(1) f(1) IH'(3) s(2)] by auto
  moreover have "icmp l l' \<le> 0" "icmp (largest (fmd h f)) l' \<le> 0"
    using ik.le_trans [OF Cons.prems(3) v(2) IH'(2) l(1) IH'(4)] ik.le_trans [OF f(2) v(2) IH'(2) l(2) IH'(4)] by auto
  moreover have "s' = s \<or> s' \<in> (\<lambda>f. smallest (fmd h f)) ` set (f # inputs)"
    "l' = l \<or> l' \<in> (\<lambda>f. largest (fmd h f)) ` set (f # inputs)"
    using IH'(6,7) by (auto split: if_splits)
  moreover have "GetRange_loop c h (f # inputs) s l = (s', l')" using r by simp
  ultimately show ?case using IH'(1,2,5) by simp
qed

text \<open>The range of a set of files covers them, and its ends are ends of files.\<close>

lemma GetRange_bounds:
  assumes "\<forall>f \<in> set inputs. file_ok c valid (fmd h f)" "inputs \<noteq> []" "GetRange c h inputs = (s, l)"
  shows "ivalid s" "ivalid l" "s \<in> (\<lambda>f. smallest (fmd h f)) ` set inputs" "l \<in> (\<lambda>f. largest (fmd h f)) ` set inputs"
    "\<And>f. f \<in> set inputs \<Longrightarrow> icmp s (smallest (fmd h f)) \<le> 0 \<and> icmp (largest (fmd h f)) l \<le> 0"
proof -
  obtain g gs where i: "inputs = g # gs" using assms(2) by (cases inputs) auto
  have g: "ivalid (smallest (fmd h g))" "ivalid (largest (fmd h g))" using assms(1) i file_okD(1,2) by simp_all
  have r: "GetRange_loop c h gs (smallest (fmd h g)) (largest (fmd h g)) = (s, l)" using assms(3) i by (simp add: GetRange_def)
  have "\<forall>f \<in> set gs. file_ok c valid (fmd h f)" using assms(1) i by simp
  from GetRange_loop_bounds [OF this g] r
  have b: "ivalid s" "ivalid l" "icmp s (smallest (fmd h g)) \<le> 0" "icmp (largest (fmd h g)) l \<le> 0"
    "\<forall>f \<in> set gs. icmp s (smallest (fmd h f)) \<le> 0 \<and> icmp (largest (fmd h f)) l \<le> 0"
    "s = smallest (fmd h g) \<or> s \<in> (\<lambda>f. smallest (fmd h f)) ` set gs"
    "l = largest (fmd h g) \<or> l \<in> (\<lambda>f. largest (fmd h f)) ` set gs"
    by simp_all
  show "ivalid s" "ivalid l" by (fact b(1,2))+
  show "s \<in> (\<lambda>f. smallest (fmd h f)) ` set inputs" "l \<in> (\<lambda>f. largest (fmd h f)) ` set inputs"
    using b(6,7) unfolding i by auto
  show "\<And>f. f \<in> set inputs \<Longrightarrow> icmp s (smallest (fmd h f)) \<le> 0 \<and> icmp (largest (fmd h f)) l \<le> 0"
    using b(3-5) unfolding i by auto
qed

lemma FindLargestKey_bounds:
  assumes "\<forall>f \<in> set files. file_ok c valid (fmd h f)" "FindLargestKey c h files = Some l"
  shows "ivalid l" "l \<in> (\<lambda>f. largest (fmd h f)) ` set files"
    "\<And>f. f \<in> set files \<Longrightarrow> icmp (largest (fmd h f)) l \<le> 0"
proof -
  have upd: "foldl (\<lambda>l f. if icmp (largest (fmd h f)) l > 0 then largest (fmd h f) else l) l fs =
      snd (GetRange_loop c h fs s l)" for fs s l
    by (induction fs arbitrary: s l) simp_all
  obtain g gs where i: "files = g # gs" using assms(2) by (cases files) (auto simp: FindLargestKey_def)
  have "l = snd (GetRange c h files)"
    using assms(2) upd [where fs = gs] by (simp add: FindLargestKey_def GetRange_def i)
  then have "GetRange c h files = (fst (GetRange c h files), l)" by simp
  from GetRange_bounds [OF assms(1) _ this] i
  show "ivalid l" "l \<in> (\<lambda>f. largest (fmd h f)) ` set files"
    "\<And>f. f \<in> set files \<Longrightarrow> icmp (largest (fmd h f)) l \<le> 0" by auto
qed

subsection \<open>Boundary files\<close>

definition is_boundary :: "FileHeap \<Rightarrow> bytes \<Rightarrow> fptr \<Rightarrow> bool" where
  "is_boundary h key f \<longleftrightarrow> icmp (smallest (fmd h f)) key > 0 \<and>
     Compare c (smallest_user_key h f) (ExtractUserKey key) = 0"

lemma FindSmallestBoundaryFile_gen:
  "case foldl (boundary_step c h key) b files of
     None \<Rightarrow> b = None \<and> (\<forall>f \<in> set files. \<not> is_boundary h key f)
   | Some g \<Rightarrow> b = Some g \<or> g \<in> set files \<and> is_boundary h key g"
proof (induction files arbitrary: b)
  case Nil
  then show ?case by (cases b) simp_all
next
  case (Cons f files)
  have s: "boundary_step c h key b f = b \<and> (is_boundary h key f \<longrightarrow> b \<noteq> None) \<or>
      boundary_step c h key b f = Some f \<and> is_boundary h key f"
    by (cases b) (auto simp: boundary_step_def is_boundary_def)
  show ?case using Cons.IH [of "boundary_step c h key b f"] s
    by (auto split: option.splits)
qed

lemma FindSmallestBoundaryFile_spec:
  "FindSmallestBoundaryFile c h files key = None \<Longrightarrow> f \<in> set files \<Longrightarrow> \<not> is_boundary h key f"
  "FindSmallestBoundaryFile c h files key = Some g \<Longrightarrow> g \<in> set files \<and> is_boundary h key g"
  using FindSmallestBoundaryFile_gen [where b = None and files = files and key = key and h = h] by (auto simp: FindSmallestBoundaryFile_def)

lemma AddBoundaryInputs_loop_spec:
  assumes "\<forall>f \<in> set files. file_ok c valid (fmd h f)" "ivalid key"
    and "\<forall>f \<in> set cf. icmp (largest (fmd h f)) key \<le> 0" "\<forall>f \<in> set cf. file_ok c valid (fmd h f)"
    and "key \<in> (\<lambda>f. largest (fmd h f)) ` set cf"
  shows "\<exists>extra key'. AddBoundaryInputs_loop c h files key cf = Some (cf @ extra) \<and> set extra \<subseteq> set files \<and>
    ivalid key' \<and> key' \<in> (\<lambda>f. largest (fmd h f)) ` set (cf @ extra) \<and>
    (\<forall>f \<in> set (cf @ extra). icmp (largest (fmd h f)) key' \<le> 0) \<and> (\<forall>f \<in> set files. \<not> is_boundary h key' f)"
  using assms(2-5)
proof (induction "length (filter (\<lambda>f. icmp (smallest (fmd h f)) key > 0) files)" arbitrary: key cf rule: less_induct)
  case less
  show ?case
  proof (cases "FindSmallestBoundaryFile c h files key")
    case None
    then have "AddBoundaryInputs_loop c h files key cf = Some cf" by (subst AddBoundaryInputs_loop.simps) simp
    then show ?thesis
      using less.prems FindSmallestBoundaryFile_spec(1) [OF None]
      by (intro exI [of _ "[]"] exI [of _ key]) simp
  next
    case (Some b)
    note b = FindSmallestBoundaryFile_spec(2) [OF Some]
    have bok: "file_ok c valid (fmd h b)" using b assms(1) by blast
    note vb = file_okD(1,2) [OF bok]
    have kb: "icmp key (smallest (fmd h b)) < 0"
      using b ik.gt_iff_lt [OF less.prems(1) vb(1)] by (simp add: is_boundary_def)
    have up: "icmp key (largest (fmd h b)) < 0"
      using ik.lt_le_trans [OF less.prems(1) vb kb file_okD(6) [OF bok]] .
    have dec: "length (filter (\<lambda>f. icmp (smallest (fmd h f)) (largest (fmd h b)) > 0) files) <
        length (filter (\<lambda>f. icmp (smallest (fmd h f)) key > 0) files)"
    proof (rule length_filter_strict [of files _ _ b])
      show "icmp (smallest (fmd h g)) key > 0"
        if g: "g \<in> set files" "icmp (smallest (fmd h g)) (largest (fmd h b)) > 0" for g
      proof -
        have vg: "ivalid (smallest (fmd h g))" using g(1) assms(1) file_okD(1) by blast
        show ?thesis
          using ik.lt_trans [OF less.prems(1) vb(2) vg up] g(2) ik.gt_iff_lt [OF vb(2) vg] ik.gt_iff_lt [OF less.prems(1) vg]
          by simp
      qed
      show "\<not> icmp (smallest (fmd h b)) (largest (fmd h b)) > 0" using file_okD(6) [OF bok] by simp
    qed (use b in \<open>simp_all add: is_boundary_def\<close>)
    have below: "\<forall>f \<in> set (cf @ [b]). icmp (largest (fmd h f)) (largest (fmd h b)) \<le> 0"
    proof
      fix f assume f: "f \<in> set (cf @ [b])"
      show "icmp (largest (fmd h f)) (largest (fmd h b)) \<le> 0"
      proof (cases "f = b")
        case True
        then show ?thesis using ik.refl [OF vb(2)] by simp
      next
        case False
        then have "f \<in> set cf" using f by simp
        then have "ivalid (largest (fmd h f))" "icmp (largest (fmd h f)) key \<le> 0"
          using less.prems(2,3) file_okD(2) by blast+
        then show ?thesis using ik.le_lt_trans [OF _ less.prems(1) vb(2) _ up] by fastforce
      qed
    qed
    have step: "AddBoundaryInputs_loop c h files key cf = AddBoundaryInputs_loop c h files (largest (fmd h b)) (cf @ [b])"
      using Some by (subst AddBoundaryInputs_loop.simps) simp
    obtain extra key' where r: "AddBoundaryInputs_loop c h files (largest (fmd h b)) (cf @ [b]) = Some ((cf @ [b]) @ extra)"
      "set extra \<subseteq> set files" "ivalid key'" "key' \<in> (\<lambda>f. largest (fmd h f)) ` set ((cf @ [b]) @ extra)"
      "\<forall>f \<in> set ((cf @ [b]) @ extra). icmp (largest (fmd h f)) key' \<le> 0" "\<forall>f \<in> set files. \<not> is_boundary h key' f"
      using less.hyps [OF dec vb(2) below] less.prems(3) bok by auto
    then show ?thesis using step b by (intro exI [of _ "b # extra"] exI [of _ key']) auto
  qed
qed

lemma AddBoundaryInputs_spec:
  assumes "\<forall>f \<in> set files. file_ok c valid (fmd h f)" "\<forall>f \<in> set cf. file_ok c valid (fmd h f)" "cf \<noteq> []"
  shows "\<exists>extra key. AddBoundaryInputs c h files cf = Some (cf @ extra) \<and> set extra \<subseteq> set files \<and>
    key \<in> (\<lambda>f. largest (fmd h f)) ` set (cf @ extra) \<and>
    (\<forall>f \<in> set (cf @ extra). icmp (largest (fmd h f)) key \<le> 0) \<and> (\<forall>f \<in> set files. \<not> is_boundary h key f)"
proof -
  obtain key where k: "FindLargestKey c h cf = Some key" using assms(3) by (cases cf) (auto simp: FindLargestKey_def)
  note b = FindLargestKey_bounds [OF assms(2) k]
  have "AddBoundaryInputs c h files cf = AddBoundaryInputs_loop c h files key cf" using k by (simp add: AddBoundaryInputs_def)
  then show ?thesis
    using AddBoundaryInputs_loop_spec [OF assms(1) b(1) _ assms(2) b(2)] b(3) by metis
qed

end

interpretation bytewise_files: iterator "InternalKeyComparator BytewiseComparator" "valid_ikey (\<lambda>_. True)"
  "LevelFileNumIterator_ops BytewiseComparator h" "bytewise_ik.level_file_at h" for h
  by (rule bytewise_ik.level_file_iterator)

end
