(* ===== verification/Versions.thy ===== *)
theory Versions
  imports VersionFiles Complex_Main
begin

section \<open>Versions (\<^verbatim>\<open>db/version_set.cc\<close>, class \<open>Version\<close>)\<close>

text \<open>
  A version lists the table files of every level. \<open>TableCache::Get\<close> is an argument \<open>tget\<close>: it
  returns a status and the key and value it hands to its callback, which it calls at most once.
  \<open>TableCache::NewIterator\<close> is an argument too. The compaction score is a \<open>double\<close> in the code
  and an exact rational here.
\<close>

record Version =
  v_files :: "fptr list list"
  v_refs :: int
  file_to_compact :: "fptr option"
  file_to_compact_level :: int
  compaction_score :: rat
  compaction_level :: int

definition Version_new :: Version where
  "Version_new = \<lparr>v_files = replicate kNumLevels [], v_refs = 0, file_to_compact = None,
     file_to_compact_level = -1, compaction_score = -1, compaction_level = -1\<rparr>"

definition NumFiles :: "Version \<Rightarrow> nat \<Rightarrow> nat" where
  "NumFiles v level = length (v_files v ! level)"

subsection \<open>Point lookups\<close>

record GetStats =
  seek_file :: "fptr option"
  seek_file_level :: int

datatype SaverState = kNotFound | kFound | kDeleted | kCorrupt

record Saver =
  sv_state :: SaverState
  sv_ucmp :: Comparator
  sv_user_key :: bytes
  sv_value :: bytes

definition SaveValue :: "bytes \<Rightarrow> bytes \<Rightarrow> Saver \<Rightarrow> Saver" where
  "SaveValue ikey v s =
     (case ParseInternalKey ikey of
        None \<Rightarrow> s\<lparr>sv_state := kCorrupt\<rparr>
      | Some parsed_key \<Rightarrow>
          if Compare (sv_ucmp s) (user_key parsed_key) (sv_user_key s) = 0
          then (if ptype parsed_key = kTypeValue then s\<lparr>sv_state := kFound, sv_value := v\<rparr>
                else s\<lparr>sv_state := kDeleted\<rparr>)
          else s)"

definition NewestFirst :: "FileHeap \<Rightarrow> fptr \<Rightarrow> fptr \<Rightarrow> bool" where
  "NewestFirst h a b = (fnumber (fmd h a) > fnumber (fmd h b))"

text \<open>\<open>std::sort\<close> with \<open>NewestFirst\<close>: file numbers are unique, so there is one sorted order.\<close>

fun insert_newest :: "FileHeap \<Rightarrow> fptr \<Rightarrow> fptr list \<Rightarrow> fptr list" where
  "insert_newest h f [] = [f]"
| "insert_newest h f (g # gs) = (if NewestFirst h g f then g # insert_newest h f gs else f # g # gs)"

definition sort_newest :: "FileHeap \<Rightarrow> fptr list \<Rightarrow> fptr list" where
  "sort_newest h tmp = foldr (insert_newest h) tmp []"

text \<open>The files of a level that a lookup of a key has to search, in order.\<close>

definition files_to_search ::
    "Comparator \<Rightarrow> FileHeap \<Rightarrow> nat \<Rightarrow> fptr list \<Rightarrow> bytes \<Rightarrow> bytes \<Rightarrow> fptr list" where
  "files_to_search ucmp h level files ukey ikey =
     (if files = [] then []
      else if level = 0 then
        (let tmp = filter (\<lambda>f. Compare ucmp ukey (smallest_user_key h f) \<ge> 0 \<and>
                               Compare ucmp ukey (largest_user_key h f) \<le> 0) files
         in sort_newest h tmp)
      else
        (let index = FindFile ucmp h files ikey
         in if index \<ge> length files then []
            else if Compare ucmp ukey (smallest_user_key h (files ! index)) < 0 then []
            else [files ! index]))"

type_synonym TableGet = "u64 \<Rightarrow> u64 \<Rightarrow> bytes \<Rightarrow> Status \<times> (bytes \<times> bytes) option"

definition charge_seek :: "(fptr \<times> nat) option \<Rightarrow> GetStats \<Rightarrow> GetStats" where
  "charge_seek last_file_read stats =
     (case last_file_read of
        Some (f, level) \<Rightarrow>
          if seek_file stats = None then stats\<lparr>seek_file := Some f, seek_file_level := int level\<rparr> else stats
      | None \<Rightarrow> stats)"

text \<open>The loop over the files of a level: \<open>Inl\<close> is a \<open>return\<close>, \<open>Inr\<close> goes on to the next level.\<close>

fun Get_files ::
    "Comparator \<Rightarrow> FileHeap \<Rightarrow> TableGet \<Rightarrow> nat \<Rightarrow> bytes \<Rightarrow> bytes \<Rightarrow> fptr list \<Rightarrow> bytes \<Rightarrow>
     (fptr \<times> nat) option \<Rightarrow> GetStats \<Rightarrow>
     (Status \<times> bytes \<times> GetStats) + (bytes \<times> (fptr \<times> nat) option \<times> GetStats)" where
  "Get_files ucmp h tget level ukey ikey [] value last_file_read stats = Inr (value, last_file_read, stats)"
| "Get_files ucmp h tget level ukey ikey (f # files) value last_file_read stats =
     (let stats = charge_seek last_file_read stats;
          saver = \<lparr>sv_state = kNotFound, sv_ucmp = ucmp, sv_user_key = ukey, sv_value = value\<rparr>;
          (s, call) = tget (fnumber (fmd h f)) (file_size (fmd h f)) ikey;
          saver = (case call of Some (k, v) \<Rightarrow> SaveValue k v saver | None \<Rightarrow> saver)
      in if \<not> ok s then Inl (s, sv_value saver, stats)
         else
           (case sv_state saver of
              kNotFound \<Rightarrow> Get_files ucmp h tget level ukey ikey files (sv_value saver) (Some (f, level)) stats
            | kFound \<Rightarrow> Inl (s, sv_value saver, stats)
            | kDeleted \<Rightarrow> Inl (NotFound [] [], sv_value saver, stats)
            | kCorrupt \<Rightarrow> Inl (Corruption (ascii ''corrupted key for '') ukey, sv_value saver, stats)))"

fun Get_levels ::
    "Comparator \<Rightarrow> FileHeap \<Rightarrow> TableGet \<Rightarrow> bytes \<Rightarrow> bytes \<Rightarrow> nat \<Rightarrow> fptr list list \<Rightarrow> bytes \<Rightarrow>
     (fptr \<times> nat) option \<Rightarrow> GetStats \<Rightarrow> Status \<times> bytes \<times> GetStats" where
  "Get_levels ucmp h tget ukey ikey level [] value last_file_read stats = (NotFound [] [], value, stats)"
| "Get_levels ucmp h tget ukey ikey level (files # levels) value last_file_read stats =
     (case Get_files ucmp h tget level ukey ikey (files_to_search ucmp h level files ukey ikey)
             value last_file_read stats of
        Inl r \<Rightarrow> r
      | Inr (value, last_file_read, stats) \<Rightarrow>
          Get_levels ucmp h tget ukey ikey (level + 1) levels value last_file_read stats)"

definition Version_Get ::
    "Comparator \<Rightarrow> FileHeap \<Rightarrow> TableGet \<Rightarrow> Version \<Rightarrow> LookupKey \<Rightarrow> bytes \<Rightarrow> Status \<times> bytes \<times> GetStats" where
  "Version_Get ucmp h tget v k value =
     Get_levels ucmp h tget (lk_user_key k) (lk_internal_key k) 0 (v_files v) value None
       \<lparr>seek_file = None, seek_file_level = -1\<rparr>"

subsection \<open>Seek statistics\<close>

definition UpdateStats :: "GetStats \<Rightarrow> FileHeap \<Rightarrow> Version \<Rightarrow> bool \<times> FileHeap \<times> Version" where
  "UpdateStats stats h v =
     (case seek_file stats of
        None \<Rightarrow> (False, h, v)
      | Some f \<Rightarrow>
          (let h = h(f \<mapsto> (fmd h f)\<lparr>allowed_seeks := allowed_seeks (fmd h f) - 1\<rparr>)
           in if allowed_seeks (fmd h f) \<le> 0 \<and> file_to_compact v = None
              then (True, h, v\<lparr>file_to_compact := Some f, file_to_compact_level := seek_file_level stats\<rparr>)
              else (False, h, v)))"

fun call_each :: "('a \<Rightarrow> nat \<Rightarrow> fptr \<Rightarrow> bool \<times> 'a) \<Rightarrow> nat \<Rightarrow> fptr list \<Rightarrow> 'a \<Rightarrow> bool \<times> 'a" where
  "call_each func level [] arg = (True, arg)"
| "call_each func level (f # files) arg =
     (let (go_on, arg) = func arg level f in if go_on then call_each func level files arg else (False, arg))"

fun ForEach_levels ::
    "Comparator \<Rightarrow> FileHeap \<Rightarrow> bytes \<Rightarrow> bytes \<Rightarrow> ('a \<Rightarrow> nat \<Rightarrow> fptr \<Rightarrow> bool \<times> 'a) \<Rightarrow> nat \<Rightarrow> fptr list list \<Rightarrow> 'a \<Rightarrow> 'a" where
  "ForEach_levels ucmp h ukey ikey func level [] arg = arg"
| "ForEach_levels ucmp h ukey ikey func level (files # levels) arg =
     (let (go_on, arg) = call_each func level (files_to_search ucmp h level files ukey ikey) arg
      in if go_on then ForEach_levels ucmp h ukey ikey func (level + 1) levels arg else arg)"

definition ForEachOverlapping ::
    "Comparator \<Rightarrow> FileHeap \<Rightarrow> Version \<Rightarrow> bytes \<Rightarrow> bytes \<Rightarrow> 'a \<Rightarrow> ('a \<Rightarrow> nat \<Rightarrow> fptr \<Rightarrow> bool \<times> 'a) \<Rightarrow> 'a" where
  "ForEachOverlapping ucmp h v ukey ikey arg func = ForEach_levels ucmp h ukey ikey func 0 (v_files v) arg"

definition Match :: "GetStats \<times> int \<Rightarrow> nat \<Rightarrow> fptr \<Rightarrow> bool \<times> (GetStats \<times> int)" where
  "Match state level f =
     (let (stats, matches) = state; matches = matches + 1;
          stats = (if matches = 1 then \<lparr>seek_file = Some f, seek_file_level = int level\<rparr> else stats)
      in (matches < 2, (stats, matches)))"

definition RecordReadSample ::
    "Comparator \<Rightarrow> bytes \<Rightarrow> FileHeap \<Rightarrow> Version \<Rightarrow> bool \<times> FileHeap \<times> Version" where
  "RecordReadSample ucmp internal_key h v =
     (case ParseInternalKey internal_key of
        None \<Rightarrow> (False, h, v)
      | Some ikey \<Rightarrow>
          (let (stats, matches) = ForEachOverlapping ucmp h v (user_key ikey) internal_key
                 (\<lparr>seek_file = None, seek_file_level = -1\<rparr>, 0) Match
           in if matches \<ge> 2 then UpdateStats stats h v else (False, h, v)))"

subsection \<open>The level of a new table\<close>

definition OverlapInLevel :: "Comparator \<Rightarrow> FileHeap \<Rightarrow> Version \<Rightarrow> nat \<Rightarrow> bytes option \<Rightarrow> bytes option \<Rightarrow> bool" where
  "OverlapInLevel c h v level smallest_key largest_key =
     SomeFileOverlapsRange c h (level > 0) (v_files v ! level) smallest_key largest_key"

function PickLevel_loop ::
    "Comparator \<Rightarrow> Options \<Rightarrow> FileHeap \<Rightarrow> Version \<Rightarrow> bytes \<Rightarrow> bytes \<Rightarrow> nat \<Rightarrow> nat option" where
  "PickLevel_loop c options h v smallest_key largest_key level =
     (if level < kMaxMemCompactLevel then
        (if OverlapInLevel c h v (level + 1) (Some smallest_key) (Some largest_key) then Some level
         else if level + 2 < kNumLevels then
           Option.bind (GetOverlappingInputs c h (v_files v) (level + 2)
               (Some (InternalKey_new smallest_key kMaxSequenceNumber kValueTypeForSeek))
               (Some (InternalKey_new largest_key 0 kTypeDeletion))) (\<lambda>overlaps.
             if sint (TotalFileSize h overlaps) > sint (MaxGrandParentOverlapBytes options) then Some level
             else PickLevel_loop c options h v smallest_key largest_key (level + 1))
         else PickLevel_loop c options h v smallest_key largest_key (level + 1))
      else Some level)"
  by pat_completeness auto
termination by (relation "measure (\<lambda>(_, _, _, _, _, _, level). kMaxMemCompactLevel - level)") auto

declare PickLevel_loop.simps [simp del]

definition PickLevelForMemTableOutput ::
    "Comparator \<Rightarrow> Options \<Rightarrow> FileHeap \<Rightarrow> Version \<Rightarrow> bytes \<Rightarrow> bytes \<Rightarrow> nat option" where
  "PickLevelForMemTableOutput c options h v smallest_key largest_key =
     (if \<not> OverlapInLevel c h v 0 (Some smallest_key) (Some largest_key)
      then PickLevel_loop c options h v smallest_key largest_key 0 else Some 0)"

subsection \<open>Iterators over a version\<close>

text \<open>
  \<open>new_table\<close> is \<open>TableCache::NewIterator\<close>. The iterators of a version are of several classes; a
  datatype tags them.
\<close>

datatype 'i FileIterator = ErrorIter EmptyIterator | TableIter 'i

definition GetFileIterator :: "(u64 \<Rightarrow> u64 \<Rightarrow> 'i) \<Rightarrow> bytes \<Rightarrow> 'i FileIterator" where
  "GetFileIterator new_table file_value =
     (if length file_value \<noteq> 16
      then ErrorIter (NewErrorIterator (Corruption (ascii ''FileReader invoked with unexpected value'') []))
      else TableIter (new_table (DecodeFixed64 (take 8 file_value)) (DecodeFixed64 (drop 8 file_value))))"

datatype 'i VersionIterator =
  VersionTable 'i | VersionLevel "(LevelFileNumIterator, 'i FileIterator) TwoLevelIterator"

definition NewConcatenatingIterator ::
    "Comparator \<Rightarrow> FileHeap \<Rightarrow> fptr list \<Rightarrow> (LevelFileNumIterator, 'i FileIterator) TwoLevelIterator" where
  "NewConcatenatingIterator c h files =
     NewTwoLevelIterator (LevelFileNumIterator_ops c h) (LevelFileNumIterator_new files)"

definition AddIterators ::
    "Comparator \<Rightarrow> FileHeap \<Rightarrow> (u64 \<Rightarrow> u64 \<Rightarrow> 'i) \<Rightarrow> Version \<Rightarrow> 'i VersionIterator list \<Rightarrow> 'i VersionIterator list" where
  "AddIterators c h new_table v iters =
     iters @ map (\<lambda>f. VersionTable (new_table (fnumber (fmd h f)) (file_size (fmd h f)))) (v_files v ! 0) @
     concat (map (\<lambda>level. if v_files v ! level \<noteq> []
                          then [VersionLevel (NewConcatenatingIterator c h (v_files v ! level))] else [])
               [1..<kNumLevels])"

subsection \<open>Printing\<close>

definition Version_DebugString :: "FileHeap \<Rightarrow> Version \<Rightarrow> bytes" where
  "Version_DebugString h v =
     concat (map (\<lambda>level.
       AppendNumberTo (ascii ''--- level '') (word_of_nat level) @ ascii '' ---'' @ [10] @
       concat (map (\<lambda>f.
         AppendNumberTo (AppendNumberTo (ascii '' '') (fnumber (fmd h f)) @ ascii '':'') (file_size (fmd h f)) @
         ascii ''['' @ InternalKey_DebugString (smallest (fmd h f)) @ ascii '' .. '' @
         InternalKey_DebugString (largest (fmd h f)) @ ascii '']'' @ [10]) (v_files v ! level)))
       [0..<kNumLevels])"

subsection \<open>Lookups return the newest entry\<close>

text \<open>
  An entry is a sequence number, a type, a user key and a value. \<open>table_ok\<close> says what a table
  file holds and what \<open>TableCache::Get\<close> does on it; \<open>version_ok\<close> is the invariant of versions:
  the files of a level other than 0 are sorted and disjoint, and where two files hold entries of
  one user key, those of the file in the lower level, or with the larger number in level 0, are
  newer.
\<close>

type_synonym entry = "SequenceNumber \<times> ValueType \<times> bytes \<times> bytes"

definition entry_of :: "entry \<Rightarrow> bytes \<times> bytes" where
  "entry_of e = (case e of (s, t, k, v) \<Rightarrow> (InternalKey_new k s t, v))"

definition visible :: "Comparator \<Rightarrow> bytes \<Rightarrow> SequenceNumber \<Rightarrow> entry \<Rightarrow> bool" where
  "visible c u snap e = (case e of (s, t, k, v) \<Rightarrow> Compare c k u = 0 \<and> s \<le> snap)"

definition newest_visible :: "Comparator \<Rightarrow> bytes \<Rightarrow> SequenceNumber \<Rightarrow> entry set \<Rightarrow> entry \<Rightarrow> bool" where
  "newest_visible c u snap E e \<longleftrightarrow> e \<in> E \<and> visible c u snap e \<and> (\<forall>e' \<in> E. visible c u snap e' \<longrightarrow> fst e' \<le> fst e)"

definition table_ok ::
    "Comparator \<Rightarrow> (bytes \<Rightarrow> bool) \<Rightarrow> TableGet \<Rightarrow> FileMetaData \<Rightarrow> entry list \<Rightarrow> bool" where
  "table_ok c valid tget f es \<longleftrightarrow>
     (\<forall>(s, t, k, v) \<in> set es. s \<le> kMaxSequenceNumber \<and> valid k) \<and>
     sorted_entries (InternalKeyComparator c) (valid_ikey valid) (map entry_of es) \<and>
     es \<noteq> [] \<and> smallest f = fst (entry_of (hd es)) \<and> largest f = fst (entry_of (last es)) \<and>
     (\<forall>u snap. valid u \<longrightarrow> snap \<le> kMaxSequenceNumber \<longrightarrow>
       (let ikey = InternalKey_new u snap kValueTypeForSeek;
            i = first_ge (InternalKeyComparator c) (map entry_of es) ikey
        in ok (fst (tget (fnumber f) (file_size f) ikey)) \<and>
           (case snd (tget (fnumber f) (file_size f) ikey) of
              None \<Rightarrow> \<forall>e \<in> set es. \<not> visible c u snap e
            | Some kv \<Rightarrow> i < length es \<and> kv = entry_of (es ! i))))"

definition version_ok ::
    "Comparator \<Rightarrow> (bytes \<Rightarrow> bool) \<Rightarrow> FileHeap \<Rightarrow> TableGet \<Rightarrow> fptr list list \<Rightarrow> (fptr \<Rightarrow> entry list) \<Rightarrow> bool" where
  "version_ok c valid h tget levels ents \<longleftrightarrow>
     (\<forall>files \<in> set levels. \<forall>f \<in> set files. table_ok c valid tget (fmd h f) (ents f)) \<and>
     (\<forall>i < length levels. 0 < i \<longrightarrow>
        sorted_wrt (\<lambda>f g. Compare (InternalKeyComparator c) (largest (fmd h f)) (smallest (fmd h g)) < 0) (levels ! i)) \<and>
     (\<forall>i < length levels. \<forall>j < length levels. \<forall>f \<in> set (levels ! i). \<forall>g \<in> set (levels ! j).
        i < j \<or> i = 0 \<and> j = 0 \<and> f \<noteq> g \<and> \<not> fnumber (fmd h f) < fnumber (fmd h g) \<longrightarrow>
        (\<forall>(s, t, k, v) \<in> set (ents f). \<forall>(s', t', k', v') \<in> set (ents g). Compare c k k' = 0 \<longrightarrow> s' < s))"

definition lookup_outcome :: "entry \<Rightarrow> Status \<Rightarrow> bytes \<Rightarrow> bool" where
  "lookup_outcome e s value = (case e of (_, t, _, v) \<Rightarrow>
     (case t of kTypeValue \<Rightarrow> ok s \<and> value = v | kTypeDeletion \<Rightarrow> s = NotFound [] []))"

definition level_entries :: "(fptr \<Rightarrow> entry list) \<Rightarrow> fptr list \<Rightarrow> entry set" where
  "level_entries ents files = (\<Union>f \<in> set files. set (ents f))"

lemma set_insert_newest [simp]: "set (insert_newest h f fs) = insert f (set fs)"
  by (induction fs) auto

lemma set_sort_newest [simp]: "set (sort_newest h fs) = set fs"
  by (induction fs) (simp_all add: sort_newest_def)

lemma sorted_insert_newest:
  "sorted_wrt (\<lambda>f g. \<not> fnumber (fmd h f) < fnumber (fmd h g)) fs \<Longrightarrow>
   sorted_wrt (\<lambda>f g. \<not> fnumber (fmd h f) < fnumber (fmd h g)) (insert_newest h f fs)"
  by (induction fs) (auto simp: NewestFirst_def)

lemma sorted_sort_newest: "sorted_wrt (\<lambda>f g. \<not> fnumber (fmd h f) < fnumber (fmd h g)) (sort_newest h fs)"
  by (induction fs) (simp_all add: sort_newest_def sorted_insert_newest)

context internal_keys
begin

lemma table_okD:
  assumes "table_ok c valid tget f es"
  shows "(s, t, k, v) \<in> set es \<Longrightarrow> s \<le> kMaxSequenceNumber \<and> valid k"
    "sorted_entries (InternalKeyComparator c) ivalid (map entry_of es)" "es \<noteq> []"
    "smallest f = fst (entry_of (hd es))" "largest f = fst (entry_of (last es))"
  using assms by (auto simp: table_ok_def)

lemma seek_position:
  assumes "(s, t, k, v) \<in> set es" "table_ok c valid tget f es" "valid u" "snap \<le> kMaxSequenceNumber"
  shows "icmp (fst (entry_of (s, t, k, v))) (InternalKey_new u snap kValueTypeForSeek) < 0 \<longleftrightarrow>
    Compare c k u < 0 \<or> Compare c k u = 0 \<and> snap < s"
  using lookup_position [of snap s u k t] table_okD(1) [OF assms(2,1)] assms(3,4) by (simp add: entry_of_def)

lemma table_sorted:
  assumes "table_ok c valid tget f es" "i < j" "j < length es"
  shows "icmp (fst (entry_of (es ! i))) (fst (entry_of (es ! j))) < 0"
  using table_okD(2) [OF assms(1)] assms(2,3) by (simp add: sorted_entries_def sorted_wrt_iff_nth_less)

text \<open>An entry with a smaller internal key and the same user key is newer.\<close>

lemma table_entry_less:
  assumes "s \<le> kMaxSequenceNumber" "s' \<le> kMaxSequenceNumber"
    and "icmp (fst (entry_of (s, t, k, v))) (fst (entry_of (s', t', k', v'))) < 0"
  shows "Compare c k k' < 0 \<or> Compare c k k' = 0 \<and> s' \<le> s"
  using assms icmp_new_less_iff [OF assms(1,2), of k t k' t'] by (auto simp: entry_of_def)

lemma table_search:
  assumes ok: "table_ok c valid tget f es" and u: "valid u" "snap \<le> kMaxSequenceNumber"
  defines "ikey \<equiv> InternalKey_new u snap kValueTypeForSeek"
  shows "\<exists>s call. tget (fnumber f) (file_size f) ikey = (s, call) \<and> ok s \<and>
    (case call of
       None \<Rightarrow> \<forall>e \<in> set es. \<not> visible c u snap e
     | Some (k, v) \<Rightarrow> \<exists>e. (k, v) = entry_of e \<and> e \<in> set es \<and>
         (if visible c u snap e then newest_visible c u snap (set es) e
          else Compare c (case e of (_, _, k, _) \<Rightarrow> k) u \<noteq> 0 \<and> (\<forall>e \<in> set es. \<not> visible c u snap e)))"
proof -
  obtain s call where r: "tget (fnumber f) (file_size f) ikey = (s, call)" by force
  let ?i = "first_ge (InternalKeyComparator c) (map entry_of es) ikey"
  have tg: "ok s" "case call of None \<Rightarrow> \<forall>e \<in> set es. \<not> visible c u snap e
      | Some kv \<Rightarrow> ?i < length es \<and> kv = entry_of (es ! ?i)"
    using ok [unfolded table_ok_def, THEN conjunct2, THEN conjunct2, THEN conjunct2, THEN conjunct2, THEN conjunct2,
        rule_format, OF u] r unfolding ikey_def
    by (auto simp: Let_def)
  show ?thesis
  proof (cases call)
    case None
    then show ?thesis using r tg by auto
  next
    case (Some kv)
    then have i: "?i < length es" "kv = entry_of (es ! ?i)" using tg(2) by simp_all
    obtain s0 t0 k0 v0 where e: "es ! ?i = (s0, t0, k0, v0)" by (cases "es ! ?i")
    have mem: "(s0, t0, k0, v0) \<in> set es" using i(1) e by (metis nth_mem)
    note w0 = table_okD(1) [OF ok mem]
    have "\<not> icmp (fst (entry_of (es ! ?i))) ikey < 0"
      using nth_length_takeWhile [of "\<lambda>e. icmp (fst e) ikey < 0" "map entry_of es"] i(1) by (simp add: first_ge_def)
    then have ge: "\<not> Compare c k0 u < 0" "Compare c k0 u = 0 \<Longrightarrow> s0 \<le> snap"
      unfolding e using seek_position [OF mem ok u, folded ikey_def] by auto
    have later: "Compare c k0 u = 0 \<and> s' \<le> s0"
      if e': "(s', t', k', v') \<in> set es" "visible c u snap (s', t', k', v')" for s' t' k' v'
    proof -
      obtain j where j: "j < length es" "es ! j = (s', t', k', v')" using e'(1) by (metis in_set_conv_nth)
      note w' = table_okD(1) [OF ok e'(1)]
      have vis: "Compare c k' u = 0" "s' \<le> snap" using e'(2) by (simp_all add: visible_def)
      have nlt: "\<not> icmp (fst (entry_of (es ! j))) ikey < 0"
        using seek_position [OF e'(1) ok u] vis j(2) by (auto simp: ikey_def)
      have "\<not> j < ?i"
      proof
        assume "j < ?i"
        then have "map entry_of es ! j \<in> set (takeWhile (\<lambda>e. icmp (fst e) ikey < 0) (map entry_of es))"
          unfolding first_ge_def by (metis nth_mem takeWhile_nth)
        then show False using nlt j(1) by (auto dest!: set_takeWhileD)
      qed
      then consider "j = ?i" | "?i < j" by linarith
      then show ?thesis
      proof cases
        case 1
        then show ?thesis using j e vis by simp
      next
        case 2
        have "icmp (fst (entry_of (s0, t0, k0, v0))) (fst (entry_of (s', t', k', v'))) < 0"
          using table_sorted [OF ok 2 j(1)] e j(2) by simp
        then have "Compare c k0 k' < 0 \<or> Compare c k0 k' = 0 \<and> s' \<le> s0"
          using table_entry_less w0 w' by blast
        moreover have "\<not> Compare c k0 k' < 0"
          using lt_le_trans [of k0 k' u] ge(1) vis(1) w0 w' u(1) by auto
        ultimately have k0: "Compare c k0 k' = 0" "s' \<le> s0" by auto
        then have "Compare c k0 u \<le> 0" using le_trans [of k0 k' u] vis(1) w0 w' u(1) by simp
        then show ?thesis using ge(1) k0(2) by simp
      qed
    qed
    have "if visible c u snap (s0, t0, k0, v0) then newest_visible c u snap (set es) (s0, t0, k0, v0)
        else Compare c k0 u \<noteq> 0 \<and> (\<forall>e \<in> set es. \<not> visible c u snap e)"
    proof (cases "Compare c k0 u = 0")
      case True
      then have "visible c u snap (s0, t0, k0, v0)" using ge(2) by (simp add: visible_def)
      then show ?thesis using later mem by (auto simp: newest_visible_def)
    next
      case False
      then have "\<not> visible c u snap (s0, t0, k0, v0)" by (simp add: visible_def)
      then show ?thesis using later False by auto
    qed
    moreover have "kv = entry_of (s0, t0, k0, v0)" using i(2) e by simp
    ultimately have "case kv of (k, v) \<Rightarrow> \<exists>e. (k, v) = entry_of e \<and> e \<in> set es \<and>
         (if visible c u snap e then newest_visible c u snap (set es) e
          else Compare c (case e of (_, _, k, _) \<Rightarrow> k) u \<noteq> 0 \<and> (\<forall>e \<in> set es. \<not> visible c u snap e))"
      using mem by (intro case_prodI2 exI [of _ "(s0, t0, k0, v0)"]) simp
    then show ?thesis using r tg(1) Some by simp
  qed
qed

text \<open>The files a lookup of level 0 and of the other levels does not search hold nothing visible.\<close>

lemma table_range:
  assumes "table_ok c valid tget (fmd h f) es" "(s, t, k, v) \<in> set es"
  shows "icmp (smallest (fmd h f)) (fst (entry_of (s, t, k, v))) \<le> 0" "icmp (fst (entry_of (s, t, k, v))) (largest (fmd h f)) \<le> 0"
    "ivalid (smallest (fmd h f))" "ivalid (largest (fmd h f))" "ivalid (fst (entry_of (s, t, k, v)))"
    "valid (smallest_user_key h f)" "valid (largest_user_key h f)"
    "Compare c (smallest_user_key h f) k \<le> 0" "Compare c k (largest_user_key h f) \<le> 0"
proof -
  note d = table_okD [OF assms(1)]
  have v: "ivalid (fst (entry_of e))" if "e \<in> set es" for e
    using d(1) that by (cases e) (auto simp: entry_of_def valid_ikey_def)
  have hl: "hd es = es ! 0" "last es = es ! (length es - 1)" using d(3) by (simp_all add: hd_conv_nth last_conv_nth)
  obtain j where j: "j < length es" "es ! j = (s, t, k, v)" using assms(2) by (metis in_set_conv_nth)
  have le: "icmp (fst (entry_of (es ! i))) (fst (entry_of (es ! j))) \<le> 0" if "i \<le> j" "j < length es" for i j
    using table_sorted [OF assms(1), of i j] ik.refl [OF v, of "es ! j"] that by (cases "i = j") auto
  show 1: "icmp (smallest (fmd h f)) (fst (entry_of (s, t, k, v))) \<le> 0" using le [of 0 j] j d(4) hl by simp
  show 2: "icmp (fst (entry_of (s, t, k, v))) (largest (fmd h f)) \<le> 0" using le [of j "length es - 1"] j d(5) hl by simp
  show 3: "ivalid (smallest (fmd h f))" "ivalid (largest (fmd h f))" using v d(3-5) by simp_all
  show 4: "ivalid (fst (entry_of (s, t, k, v)))" using v [OF assms(2)] .
  show "valid (smallest_user_key h f)" "valid (largest_user_key h f)"
    using 3 by (simp_all add: valid_ikey_def smallest_user_key_def largest_user_key_def)
  show "Compare c (smallest_user_key h f) k \<le> 0" "Compare c k (largest_user_key h f) \<le> 0"
    using 1 2 by (auto simp: icmp_le_iff smallest_user_key_def largest_user_key_def entry_of_def)
qed

lemma table_file_ok: "table_ok c valid tget (fmd h f) es \<Longrightarrow> file_ok c valid (fmd h f)"
proof -
  assume ok: "table_ok c valid tget (fmd h f) es"
  note d = table_okD [OF ok]
  have tag: "key_tag (fst (entry_of e)) \<le> PackSequenceAndType kMaxSequenceNumber kValueTypeForSeek" if "e \<in> set es" for e
  proof -
    obtain s t k v where e: "e = (s, t, k, v)" by (cases e)
    then have "s \<le> kMaxSequenceNumber" using d(1) that by blast
    then have "unat s * 256 + unat (type_byte t) \<le> unat kMaxSequenceNumber * 256 + 1"
      by (cases t) (simp_all add: word_le_nat_alt)
    then show ?thesis
      using unat_Pack [OF \<open>s \<le> kMaxSequenceNumber\<close>, of t] unat_Pack [OF order.refl, of kTypeValue]
      by (simp add: e entry_of_def word_le_nat_alt kValueTypeForSeek_def)
  qed
  have m: "hd es \<in> set es" "last es \<in> set es" using d(3) by simp_all
  obtain s t k v where l: "last es = (s, t, k, v)" by (cases "last es")
  note r = table_range [OF ok m(2) [unfolded l]]
  have "largest (fmd h f) = fst (entry_of (s, t, k, v))" using d(5) l by simp
  then show ?thesis using r tag [OF m(1)] tag [OF m(2)] d(4,5) by (simp add: file_ok_def)
qed

lemma not_searched_level0:
  assumes "\<forall>f \<in> set files. table_ok c valid tget (fmd h f) (ents f)" "valid u"
    and "f \<in> set files" "f \<notin> set (files_to_search c h 0 files u ikey)" "e \<in> set (ents f)"
  shows "\<not> visible c u snap e"
proof -
  obtain s t k v where e: "e = (s, t, k, v)" by (cases e)
  have ok: "table_ok c valid tget (fmd h f) (ents f)" using assms(1,3) by blast
  note r = table_range [OF ok assms(5) [unfolded e]] and d = table_okD(1) [OF ok assms(5) [unfolded e]]
  have out: "\<not> (Compare c u (smallest_user_key h f) \<ge> 0 \<and> Compare c u (largest_user_key h f) \<le> 0)"
    using assms(3,4) by (auto simp: files_to_search_def split: if_splits)
  show ?thesis
  proof
    assume "visible c u snap e"
    then have k: "Compare c k u = 0" "Compare c u k = 0" using eq_sym [OF assms(2)] d by (auto simp: visible_def e)
    have "Compare c (smallest_user_key h f) u \<le> 0" using le_trans [OF r(6) _ assms(2) r(8)] k d by simp
    moreover have "Compare c u (largest_user_key h f) \<le> 0" using le_trans [OF assms(2) _ r(7) _ r(9)] k d by simp
    ultimately show False using out ge_iff_le [OF r(6) assms(2)] by simp
  qed
qed

text \<open>The one file searched in another level holds the newest visible entry of the level.\<close>

lemma searched_other:
  assumes ok: "\<forall>f \<in> set files. table_ok c valid tget (fmd h f) (ents f)"
    and srt: "sorted_wrt (\<lambda>f g. icmp (largest (fmd h f)) (smallest (fmd h g)) < 0) files"
    and u: "valid u" "snap \<le> kMaxSequenceNumber" and level: "0 < level"
    and f: "f \<in> set files" and e: "e \<in> set (ents f)" "visible c u snap e"
  shows "\<exists>g. files_to_search c h level files u (InternalKey_new u snap kValueTypeForSeek) = [g] \<and> g \<in> set files \<and>
    (\<exists>e' \<in> set (ents g). visible c u snap e') \<and> (\<forall>e' \<in> set (ents g). visible c u snap e' \<longrightarrow> f \<noteq> g \<longrightarrow> fst e \<le> fst e')"
proof -
  let ?ikey = "InternalKey_new u snap kValueTypeForSeek"
  define n where "n = FindFile c h files ?ikey"
  have lv: "level_ok c valid h files" using ok srt table_file_ok by (auto simp: level_ok_def)
  have ik: "ivalid ?ikey" using u(1) by (simp add: valid_ikey_def)
  note ff = FindFile_bounds [OF lv ik, folded n_def]
  obtain j where j: "j < length files" "f = files ! j" using f by (metis in_set_conv_nth)
  obtain s t k v where e': "e = (s, t, k, v)" by (cases e)
  have okf: "table_ok c valid tget (fmd h f) (ents f)" using ok f by blast
  note r = table_range [OF okf e(1) [unfolded e']]
  note w = table_okD(1) [OF okf e(1) [unfolded e']]
  have vis: "Compare c k u = 0" "s \<le> snap" using e(2) by (simp_all add: e' visible_def)
  have ge: "\<not> icmp (fst (entry_of (s, t, k, v))) ?ikey < 0"
    using seek_position [OF e(1) [unfolded e'] okf u] vis by auto
  have "\<not> icmp (largest (fmd h f)) ?ikey < 0" using ik.le_lt_trans [OF r(5,4) ik r(2)] ge by blast
  then have nj: "n \<le> j" using ff(2) [of j] j(2) by force
  then have n: "n < length files" using j(1) by simp
  let ?g = "files ! n"
  have g: "?g \<in> set files" using n by simp
  then have okg: "table_ok c valid tget (fmd h ?g) (ents ?g)" using ok by blast
  obtain sl tl kl vl where last: "last (ents ?g) = (sl, tl, kl, vl)" by (cases "last (ents ?g)")
  have lm: "(sl, tl, kl, vl) \<in> set (ents ?g)" using table_okD(3) [OF okg] last by (metis last_in_set)
  note rl = table_range [OF okg lm] and wl = table_okD(1) [OF okg lm]
  have lk: "largest (fmd h ?g) = fst (entry_of (sl, tl, kl, vl))" using table_okD(5) [OF okg] last by simp
  have main: "(\<exists>e' \<in> set (ents ?g). visible c u snap e') \<and>
      (\<forall>e' \<in> set (ents ?g). visible c u snap e' \<longrightarrow> f \<noteq> ?g \<longrightarrow> fst e \<le> fst e') \<and> \<not> Compare c u (smallest_user_key h ?g) < 0"
  proof (cases "n = j")
    case True
    have "Compare c (smallest_user_key h f) u \<le> 0" using le_trans [OF r(6) _ u(1) r(8)] vis w by simp
    then show ?thesis using True j(2) e gt_iff_lt [OF u(1) r(6)] by auto
  next
    case False
    then have "n < j" using nj by simp
    then have lt: "icmp (largest (fmd h ?g)) (smallest (fmd h f)) < 0" using level_okD(2) [OF lv n] j by blast
    have le: "icmp (largest (fmd h ?g)) (fst (entry_of (s, t, k, v))) < 0"
      by (rule ik.lt_le_trans [OF rl(4) r(3) r(5) lt r(1)])
    have older: "Compare c k'' k < 0 \<or> Compare c k'' k = 0 \<and> s \<le> s''"
      if "(s'', t'', k'', v'') \<in> set (ents ?g)" for s'' t'' k'' v''
    proof -
      note r'' = table_range [OF okg that]
      have "icmp (fst (entry_of (s'', t'', k'', v''))) (fst (entry_of (s, t, k, v))) < 0"
        by (rule ik.le_lt_trans [OF r''(5) rl(4) r(5) r''(2) le])
      then show ?thesis using table_entry_less table_okD(1) [OF okg that] w by blast
    qed
    have "\<not> icmp (fst (entry_of (sl, tl, kl, vl))) ?ikey < 0" using ff(3) [of n] n lk by simp
    then have nl: "\<not> Compare c kl u < 0" "Compare c kl u = 0 \<Longrightarrow> sl \<le> snap"
      using seek_position [OF lm okg u] by auto
    have "Compare c kl k \<le> 0" using older [OF lm] by auto
    then have "Compare c kl u \<le> 0" using le_trans [of kl k u] vis(1) w wl u(1) by simp
    then have kl: "Compare c kl u = 0" using nl(1) by simp
    then have vl: "visible c u snap (sl, tl, kl, vl)" using nl(2) by (simp add: visible_def)
    have newer: "\<forall>e' \<in> set (ents ?g). visible c u snap e' \<longrightarrow> fst e \<le> fst e'"
    proof (intro ballI impI)
      fix e'' assume e'': "e'' \<in> set (ents ?g)" "visible c u snap e''"
      obtain s'' t'' k'' v'' where x: "e'' = (s'', t'', k'', v'')" by (cases e'')
      have "valid k''" using table_okD(1) [OF okg e''(1) [unfolded x]] by simp
      moreover have "Compare c k'' u = 0" using e''(2) by (simp add: x visible_def)
      moreover have "Compare c u k = 0" using eq_sym [OF u(1)] w vis(1) by simp
      ultimately have "\<not> Compare c k'' k < 0"
        using lt_le_trans [of k'' k u] w u(1) vis(1) by auto
      then show "fst e \<le> fst e''" using older [OF e''(1) [unfolded x]] by (simp add: e' x)
    qed
    have "Compare c (smallest_user_key h ?g) u \<le> 0" using le_trans [OF rl(6) _ u(1) rl(8)] kl wl by simp
    then show ?thesis using vl lm newer gt_iff_lt [OF u(1) rl(6)] by auto
  qed
  have "files_to_search c h level files u ?ikey = [?g]"
    using main n level f unfolding files_to_search_def n_def by (auto simp: Let_def)
  then show ?thesis using main g by blast
qed

lemma eq_both:
  assumes "valid k" "valid k'" "valid u" "Compare c k u = 0" "Compare c k' u = 0"
  shows "Compare c k k' = 0"
proof -
  have "Compare c u k' = 0" "Compare c u k = 0" using assms eq_sym by simp_all
  then have "Compare c k k' \<le> 0" "Compare c k' k \<le> 0"
    using le_trans [of k u k'] le_trans [of k' u k] assms by simp_all
  moreover have "Compare c k k' \<ge> 0" using calculation(2) ge_iff_le [OF assms(2,1)] by simp
  ultimately show ?thesis by simp
qed

lemma version_newer:
  assumes "version_ok c valid h tget levels ents" "i < length levels" "j < length levels"
    and f: "f \<in> set (levels ! i)" and g: "g \<in> set (levels ! j)"
    and "i < j \<or> i = 0 \<and> j = 0 \<and> f \<noteq> g \<and> \<not> fnumber (fmd h f) < fnumber (fmd h g)"
    and e: "e \<in> set (ents f)" "visible c u snap e" and e': "e' \<in> set (ents g)" "visible c u snap e'" and u: "valid u"
  shows "fst e' \<le> fst e"
proof -
  obtain s t k v s' t' k' v' where x: "e = (s, t, k, v)" "e' = (s', t', k', v')" by (cases e, cases e')
  have ok: "\<forall>files \<in> set levels. \<forall>f \<in> set files. table_ok c valid tget (fmd h f) (ents f)"
    and nw: "\<forall>i < length levels. \<forall>j < length levels. \<forall>f \<in> set (levels ! i). \<forall>g \<in> set (levels ! j).
        i < j \<or> i = 0 \<and> j = 0 \<and> f \<noteq> g \<and> \<not> fnumber (fmd h f) < fnumber (fmd h g) \<longrightarrow>
        (\<forall>(s, t, k, v) \<in> set (ents f). \<forall>(s', t', k', v') \<in> set (ents g). Compare c k k' = 0 \<longrightarrow> s' < s)"
    by (fact assms(1) [unfolded version_ok_def, THEN conjunct1],
        fact assms(1) [unfolded version_ok_def, THEN conjunct2, THEN conjunct2])
  have "table_ok c valid tget (fmd h f) (ents f)" "table_ok c valid tget (fmd h g) (ents g)"
    using ok f g nth_mem [OF assms(2)] nth_mem [OF assms(3)] by blast+
  then have "valid k" "valid k'" using table_okD(1) e(1) e'(1) unfolding x by blast+
  then have eq: "Compare c k k' = 0" using eq_both [OF _ _ u] e(2) e'(2) by (simp add: visible_def x)
  have M: "\<forall>(s, t, k, v) \<in> set (ents f). \<forall>(s', t', k', v') \<in> set (ents g). Compare c k k' = 0 \<longrightarrow> s' < s"
    by (rule nw [THEN spec, THEN mp, OF assms(2), THEN spec, THEN mp, OF assms(3), THEN bspec, OF f, THEN bspec, OF g,
          THEN mp, OF assms(6)])
  have "\<forall>(s', t', k', v') \<in> set (ents g). Compare c k k' = 0 \<longrightarrow> s' < s"
    using bspec [OF M e(1)] by (simp only: x prod.case)
  from bspec [OF this e'(1)] eq have "s' < s" by (simp add: x)
  then show ?thesis by (simp add: x)
qed

lemma newest_visible_Un:
  "\<forall>e \<in> A. \<not> visible c u snap e \<Longrightarrow> newest_visible c u snap (A \<union> B) e \<longleftrightarrow> newest_visible c u snap B e"
  by (auto simp: newest_visible_def)

lemma files_to_search_subset: "level_ok c valid h files \<Longrightarrow> ivalid ikey \<Longrightarrow> set (files_to_search c h level files u ikey) \<subseteq> set files"
  by (auto simp: files_to_search_def Let_def split: if_splits)

lemma Get_files_spec:
  assumes "\<forall>f \<in> set cands. table_ok c valid tget (fmd h f) (ents f)" "valid u" "snap \<le> kMaxSequenceNumber"
  shows "(\<exists>lfr' stats'. Get_files c h tget level u (InternalKey_new u snap kValueTypeForSeek) cands val lfr stats =
        Inr (val, lfr', stats') \<and> (\<forall>f \<in> set cands. \<forall>e \<in> set (ents f). \<not> visible c u snap e)) \<or>
    (\<exists>pre g post e s v stats'. cands = pre @ g # post \<and> (\<forall>f \<in> set pre. \<forall>e \<in> set (ents f). \<not> visible c u snap e) \<and>
        newest_visible c u snap (set (ents g)) e \<and> lookup_outcome e s v \<and>
        Get_files c h tget level u (InternalKey_new u snap kValueTypeForSeek) cands val lfr stats = Inl (s, v, stats'))"
  using assms(1)
proof (induction cands arbitrary: lfr stats)
  case (Cons f cands)
  let ?ikey = "InternalKey_new u snap kValueTypeForSeek"
  have ok: "table_ok c valid tget (fmd h f) (ents f)" using Cons.prems by simp
  obtain s call where r: "tget (fnumber (fmd h f)) (file_size (fmd h f)) ?ikey = (s, call)" "ok s"
    and call: "case call of None \<Rightarrow> \<forall>e \<in> set (ents f). \<not> visible c u snap e
     | Some (k, v) \<Rightarrow> \<exists>e. (k, v) = entry_of e \<and> e \<in> set (ents f) \<and>
         (if visible c u snap e then newest_visible c u snap (set (ents f)) e
          else Compare c (case e of (_, _, k, _) \<Rightarrow> k) u \<noteq> 0 \<and> (\<forall>e \<in> set (ents f). \<not> visible c u snap e))"
    using table_search [OF ok assms(2,3)] by blast
  let ?saver = "\<lparr>sv_state = kNotFound, sv_ucmp = c, sv_user_key = u, sv_value = val\<rparr>"
  define saver where "saver = (case call of Some (k, v) \<Rightarrow> SaveValue k v ?saver | None \<Rightarrow> ?saver)"
  have "saver = ?saver \<and> (\<forall>e \<in> set (ents f). \<not> visible c u snap e) \<or>
    (\<exists>s0 t0 k0 v0. newest_visible c u snap (set (ents f)) (s0, t0, k0, v0) \<and>
       (case t0 of kTypeValue \<Rightarrow> sv_state saver = kFound \<and> sv_value saver = v0
         | kTypeDeletion \<Rightarrow> sv_state saver = kDeleted))"
  proof (cases call)
    case None
    then show ?thesis using call by (simp add: saver_def)
  next
    case (Some kv)
    obtain k v where kv: "kv = (k, v)" by (cases kv)
    obtain s0 t0 k0 v0 where e: "(k, v) = entry_of (s0, t0, k0, v0)" "(s0, t0, k0, v0) \<in> set (ents f)"
      "if visible c u snap (s0, t0, k0, v0) then newest_visible c u snap (set (ents f)) (s0, t0, k0, v0)
       else Compare c k0 u \<noteq> 0 \<and> (\<forall>e \<in> set (ents f). \<not> visible c u snap e)"
      using call Some kv by auto
    have p: "ParseInternalKey k = Some \<lparr>user_key = k0, sequence = s0, ptype = t0\<rparr>" "v = v0"
      using e(1) Parse_new [of s0 k0 t0] table_okD(1) [OF ok e(2)] by (simp_all add: entry_of_def)
    show ?thesis
    proof (cases "visible c u snap (s0, t0, k0, v0)")
      case True
      then have "Compare c k0 u = 0" by (simp add: visible_def)
      then have "case t0 of kTypeValue \<Rightarrow> sv_state saver = kFound \<and> sv_value saver = v0
          | kTypeDeletion \<Rightarrow> sv_state saver = kDeleted"
        using p by (cases t0) (simp_all add: saver_def Some kv SaveValue_def)
      moreover have "newest_visible c u snap (set (ents f)) (s0, t0, k0, v0)" using e(3) True by simp
      ultimately show ?thesis by blast
    next
      case False
      then have "Compare c k0 u \<noteq> 0" "\<forall>e \<in> set (ents f). \<not> visible c u snap e" using e(3) by simp_all
      then show ?thesis using p by (simp add: saver_def Some kv SaveValue_def)
    qed
  qed
  then consider (no) "saver = ?saver" "\<forall>e \<in> set (ents f). \<not> visible c u snap e"
    | (yes) s0 t0 k0 v0 where "newest_visible c u snap (set (ents f)) (s0, t0, k0, v0)"
        "case t0 of kTypeValue \<Rightarrow> sv_state saver = kFound \<and> sv_value saver = v0 | kTypeDeletion \<Rightarrow> sv_state saver = kDeleted"
    by blast
  then show ?case
  proof cases
    case no
    have step: "Get_files c h tget level u ?ikey (f # cands) val lfr stats =
        Get_files c h tget level u ?ikey cands val (Some (f, level)) (charge_seek lfr stats)"
      using r no(1) by (simp add: saver_def [symmetric] Let_def)
    have "\<forall>f \<in> set cands. table_ok c valid tget (fmd h f) (ents f)" using Cons.prems by simp
    from Cons.IH [OF this, of "Some (f, level)" "charge_seek lfr stats", folded step] show ?thesis
    proof (elim disjE exE conjE)
      fix pre g post e s v stats'
      assume "cands = pre @ g # post" "\<forall>f \<in> set pre. \<forall>e \<in> set (ents f). \<not> visible c u snap e"
      then have "f # cands = (f # pre) @ g # post" "\<forall>f \<in> set (f # pre). \<forall>e \<in> set (ents f). \<not> visible c u snap e"
        using no(2) by simp_all
      moreover assume "newest_visible c u snap (set (ents g)) e" "lookup_outcome e s v"
        "Get_files c h tget level u ?ikey (f # cands) val lfr stats = Inl (s, v, stats')"
      ultimately show ?thesis by blast
    qed (use no(2) in auto)
  next
    case yes
    obtain s' v' stats' where "Get_files c h tget level u ?ikey (f # cands) val lfr stats = Inl (s', v', stats')"
        "lookup_outcome (s0, t0, k0, v0) s' v'"
      using r yes(2) by (cases t0) (auto simp: saver_def [symmetric] Let_def lookup_outcome_def)
    moreover have "f # cands = [] @ f # cands" "\<forall>f \<in> set []. \<forall>e \<in> set (ents f). \<not> visible c u snap e" by simp_all
    ultimately show ?thesis using yes(1) by blast
  qed
qed simp

text \<open>Levels: the first file with something visible holds the newest visible entry of its level.\<close>

lemma level_search:
  assumes ok: "version_ok c valid h tget levels ents" and L: "L < length levels"
    and u: "valid u" "snap \<le> kMaxSequenceNumber"
  defines "cands \<equiv> files_to_search c h L (levels ! L) u (InternalKey_new u snap kValueTypeForSeek)"
  shows "\<forall>f \<in> set cands. table_ok c valid tget (fmd h f) (ents f)"
    "(\<forall>f \<in> set cands. \<forall>e \<in> set (ents f). \<not> visible c u snap e) \<Longrightarrow>
      \<forall>e \<in> level_entries ents (levels ! L). \<not> visible c u snap e"
    "cands = pre @ g # post \<Longrightarrow> (\<forall>f \<in> set pre. \<forall>e \<in> set (ents f). \<not> visible c u snap e) \<Longrightarrow>
      newest_visible c u snap (set (ents g)) e \<Longrightarrow> newest_visible c u snap (level_entries ents (levels ! L)) e"
proof -
  let ?ikey = "InternalKey_new u snap kValueTypeForSeek"
  have tok: "\<forall>f \<in> set (levels ! L). table_ok c valid tget (fmd h f) (ents f)"
    using ok L unfolding version_ok_def by (meson nth_mem)
  have sub: "set cands \<subseteq> set (levels ! L)"
    unfolding cands_def by (auto simp: files_to_search_def Let_def split: if_splits)
  then show "\<forall>f \<in> set cands. table_ok c valid tget (fmd h f) (ents f)" using tok by blast
  have srt: "sorted_wrt (\<lambda>f g. icmp (largest (fmd h f)) (smallest (fmd h g)) < 0) (levels ! L)" if "0 < L"
    using ok L that by (simp add: version_ok_def)
  have searched: "\<exists>g. cands = [g] \<and> g \<in> set (levels ! L) \<and> (\<exists>e' \<in> set (ents g). visible c u snap e') \<and>
      (\<forall>e' \<in> set (ents g). visible c u snap e' \<longrightarrow> f \<noteq> g \<longrightarrow> fst e \<le> fst e')"
    if "0 < L" "f \<in> set (levels ! L)" "e \<in> set (ents f)" "visible c u snap e" for f e
    unfolding cands_def by (rule searched_other [OF tok srt [OF that(1)] u that])
  show "\<forall>e \<in> level_entries ents (levels ! L). \<not> visible c u snap e"
    if none: "\<forall>f \<in> set cands. \<forall>e \<in> set (ents f). \<not> visible c u snap e"
  proof
    fix e assume "e \<in> level_entries ents (levels ! L)"
    then obtain f where f: "f \<in> set (levels ! L)" "e \<in> set (ents f)" by (auto simp: level_entries_def)
    show "\<not> visible c u snap e"
    proof (cases "L = 0")
      case True
      then show ?thesis
        using not_searched_level0 [of "levels ! L" tget h ents u f ?ikey e snap] tok u f none
        unfolding cands_def by blast
    next
      case False
      then show ?thesis using searched [of f e] f none by auto
    qed
  qed
  assume c: "cands = pre @ g # post" and pre: "\<forall>f \<in> set pre. \<forall>e \<in> set (ents f). \<not> visible c u snap e"
    and e: "newest_visible c u snap (set (ents g)) e"
  have g: "g \<in> set (levels ! L)" using sub c by auto
  have "fst e' \<le> fst e" if f: "f \<in> set (levels ! L)" and e': "e' \<in> set (ents f)" "visible c u snap e'" for f e'
  proof (cases "f = g")
    case True
    then show ?thesis using e e' by (simp add: newest_visible_def)
  next
    case False
    show ?thesis
    proof (cases "L = 0")
      case True
      have "f \<in> set cands"
        using not_searched_level0 [of "levels ! L" tget h ents u f ?ikey e' snap] tok u(1) f e' True
        unfolding cands_def by blast
      then have "f \<in> set post" using c pre e' False by auto
      moreover have "sorted_wrt (\<lambda>f g. \<not> fnumber (fmd h f) < fnumber (fmd h g)) cands"
        unfolding cands_def files_to_search_def True Let_def using sorted_sort_newest by simp
      ultimately have "\<not> fnumber (fmd h g) < fnumber (fmd h f)" using c by (auto simp: sorted_wrt_append)
      moreover have "e \<in> set (ents g)" "visible c u snap e" using e by (simp_all add: newest_visible_def)
      ultimately show ?thesis
        using version_newer [OF ok L L g f _ _ _ e'(1) e'(2) u(1)] True False by simp
    next
      case False
      then obtain g' where g': "cands = [g']" "\<forall>e'' \<in> set (ents g'). visible c u snap e'' \<longrightarrow> f \<noteq> g' \<longrightarrow> fst e' \<le> fst e''"
        using searched [of f e'] f e' by auto
      then have "g = g'" using c by (cases pre) auto
      then show ?thesis using g'(2) \<open>f \<noteq> g\<close> e by (auto simp: newest_visible_def)
    qed
  qed
  then show "newest_visible c u snap (level_entries ents (levels ! L)) e"
    using e g by (auto simp: newest_visible_def level_entries_def)
qed

lemma Get_levels_spec:
  assumes ok: "version_ok c valid h tget levels ents" and u: "valid u" "snap \<le> kMaxSequenceNumber"
    and "L \<le> length levels"
  shows "\<exists>s v stats'. Get_levels c h tget u (InternalKey_new u snap kValueTypeForSeek) L (drop L levels) val lfr stats =
      (s, v, stats') \<and>
    ((\<forall>e \<in> (\<Union>files \<in> set (drop L levels). level_entries ents files). \<not> visible c u snap e) \<and> s = NotFound [] [] \<or>
     (\<exists>e. newest_visible c u snap (\<Union>files \<in> set (drop L levels). level_entries ents files) e \<and> lookup_outcome e s v))"
  using assms(4)
proof (induction "length levels - L" arbitrary: L val lfr stats rule: less_induct)
  case less
  let ?ikey = "InternalKey_new u snap kValueTypeForSeek"
  show ?case
  proof (cases "L < length levels")
    case False
    then show ?thesis using less.prems by simp
  next
    case True
    let ?cands = "files_to_search c h L (levels ! L) u ?ikey"
    have d: "drop L levels = levels ! L # drop (Suc L) levels" using True by (simp add: Cons_nth_drop_Suc)
    note ls = level_search [OF ok True u]
    from Get_files_spec [where level = L and val = val and lfr = lfr and stats = stats, OF ls(1) u]
    show ?thesis
    proof (elim disjE exE conjE)
      fix lfr' stats'
      assume g: "Get_files c h tget L u ?ikey ?cands val lfr stats = Inr (val, lfr', stats')"
        and no: "\<forall>f \<in> set ?cands. \<forall>e \<in> set (ents f). \<not> visible c u snap e"
      have none: "\<forall>e \<in> level_entries ents (levels ! L). \<not> visible c u snap e" by (rule ls(2) [OF no])
      have "Get_levels c h tget u ?ikey L (drop L levels) val lfr stats =
          Get_levels c h tget u ?ikey (Suc L) (drop (Suc L) levels) val lfr' stats'"
        unfolding d using g by simp
      moreover have "length levels - Suc L < length levels - L" "Suc L \<le> length levels" using True by simp_all
      note less.hyps [OF this, of val lfr' stats']
      ultimately show ?thesis using none unfolding d by (simp add: newest_visible_Un ball_Un)
    next
      fix pre g post e s v stats'
      assume c: "?cands = pre @ g # post" "\<forall>f \<in> set pre. \<forall>e \<in> set (ents f). \<not> visible c u snap e"
        "newest_visible c u snap (set (ents g)) e" and out: "lookup_outcome e s v"
        and g: "Get_files c h tget L u ?ikey ?cands val lfr stats = Inl (s, v, stats')"
      have nv: "newest_visible c u snap (level_entries ents (levels ! L)) e" by (rule ls(3) [OF c])
      have "fst e' \<le> fst e"
        if later: "files \<in> set (drop (Suc L) levels)" "e' \<in> level_entries ents files" "visible c u snap e'" for files e'
      proof -
        obtain j where j: "L < j" "j < length levels" "files = levels ! j"
          using later(1) by (auto simp: in_set_conv_nth) (metis add.commute add_Suc_right less_add_Suc1 less_diff_conv)
        obtain f where f: "f \<in> set (levels ! j)" "e' \<in> set (ents f)" using later(2) j(3) by (auto simp: level_entries_def)
        obtain f0 where f0: "f0 \<in> set (levels ! L)" "e \<in> set (ents f0)"
          using nv by (auto simp: newest_visible_def level_entries_def)
        have "visible c u snap e" using nv by (simp add: newest_visible_def)
        then show ?thesis
          by (rule version_newer [OF ok True j(2) f0(1) f(1) disjI1 [OF j(1)] f0(2) _ f(2) later(3) u(1)])
      qed
      then have "newest_visible c u snap (\<Union>files \<in> set (drop L levels). level_entries ents files) e"
        unfolding d using nv by (auto simp: newest_visible_def)
      moreover have "Get_levels c h tget u ?ikey L (drop L levels) val lfr stats = (s, v, stats')"
        unfolding d using g by simp
      ultimately show ?thesis using out by blast
    qed
  qed
qed

end

text \<open>The simplest \<open>TableCache::Get\<close>: a search in the list of entries of a file.\<close>

definition entries_get :: "Comparator \<Rightarrow> (u64 \<Rightarrow> entry list) \<Rightarrow> TableGet" where
  "entries_get c contents n size' ikey =
     (let es = contents n; i = first_ge (InternalKeyComparator c) (map entry_of es) ikey
      in (OK, if i < length es then Some (entry_of (es ! i)) else None))"

context internal_keys
begin

lemma entries_get_ok:
  assumes "\<forall>(s, t, k, v) \<in> set (contents (fnumber f)). s \<le> kMaxSequenceNumber \<and> valid k"
    and "sorted_entries (InternalKeyComparator c) ivalid (map entry_of (contents (fnumber f)))"
    and "contents (fnumber f) \<noteq> []" "smallest f = fst (entry_of (hd (contents (fnumber f))))"
    and "largest f = fst (entry_of (last (contents (fnumber f))))"
  shows "table_ok c valid (entries_get c contents) f (contents (fnumber f))"
proof -
  let ?es = "contents (fnumber f)"
  have none: "\<not> visible c u snap e"
    if u: "valid u" "snap \<le> kMaxSequenceNumber" and e: "e \<in> set ?es"
      and i: "\<not> first_ge (InternalKeyComparator c) (map entry_of ?es) (InternalKey_new u snap kValueTypeForSeek) < length ?es"
    for u snap e
  proof -
    obtain s t k v where x: "e = (s, t, k, v)" by (cases e)
    have "length (takeWhile (\<lambda>e. icmp (fst e) (InternalKey_new u snap kValueTypeForSeek) < 0) (map entry_of ?es)) =
        length (map entry_of ?es)"
      using i length_takeWhile_le [of "\<lambda>e. icmp (fst e) (InternalKey_new u snap kValueTypeForSeek) < 0" "map entry_of ?es"]
      by (simp add: first_ge_def)
    then have "takeWhile (\<lambda>e. icmp (fst e) (InternalKey_new u snap kValueTypeForSeek) < 0) (map entry_of ?es) = map entry_of ?es"
      by (metis takeWhile_eq_take take_all order.refl)
    then have "icmp (fst (entry_of e)) (InternalKey_new u snap kValueTypeForSeek) < 0"
      using e unfolding takeWhile_eq_all_conv by simp
    moreover have "s \<le> kMaxSequenceNumber" "valid k" using assms(1) e x by auto
    ultimately show ?thesis
      using lookup_position [of snap s u k t] u by (auto simp: x entry_of_def visible_def)
  qed
  show ?thesis
    unfolding table_ok_def using assms none by (auto simp: entries_get_def Let_def split: if_splits)
qed

end

subsection \<open>Properties\<close>

text \<open>
  C9: in a version that satisfies its invariant, a lookup that goes through the levels
  and stops at the first file that knows the key returns the newest entry, among those of all
  files of all levels, that is visible at the snapshot: its value when it is a value, and
  NotFound when it is a deletion or there is none.
\<close>

theorem version_get:
  assumes "internal_keys c valid" and "version_ok c valid h tget (v_files v) ents"
    and "valid u" "snap \<le> kMaxSequenceNumber"
  shows "\<exists>s val' stats. Version_Get c h tget v (LookupKey_new u snap) val = (s, val', stats) \<and>
    ((\<forall>e \<in> (\<Union>files \<in> set (v_files v). level_entries ents files). \<not> visible c u snap e) \<and> s = NotFound [] [] \<or>
     (\<exists>e. newest_visible c u snap (\<Union>files \<in> set (v_files v). level_entries ents files) e \<and>
        lookup_outcome e s val'))"
  using internal_keys.Get_levels_spec [OF assms le0, of val None "\<lparr>seek_file = None, seek_file_level = -1\<rparr>"]
  by (simp add: Version_Get_def)

definition demo_contents :: "u64 \<Rightarrow> entry list" where
  "demo_contents n = (if n = 1 then [(5, kTypeDeletion, [65], [])] else [(3, kTypeValue, [65], [7]), (2, kTypeValue, [66], [8])])"

definition demo_heap :: FileHeap where
  "demo_heap = [0 \<mapsto> FileMetaData_new 1 100 (InternalKey_new [65] 5 kTypeDeletion) (InternalKey_new [65] 5 kTypeDeletion),
     1 \<mapsto> FileMetaData_new 2 100 (InternalKey_new [65] 3 kTypeValue) (InternalKey_new [66] 2 kTypeValue)]"

definition demo_version :: Version where
  "demo_version = Version_new\<lparr>v_files := [[0], [1]]\<rparr>"

lemma demo_version_ok:
  "version_ok BytewiseComparator (\<lambda>_. True) demo_heap (entries_get BytewiseComparator demo_contents) (v_files demo_version)
     (\<lambda>f. demo_contents (fnumber (fmd demo_heap f)))"
proof -
  have k: "(2 :: u64) \<le> kMaxSequenceNumber" "(3 :: u64) \<le> kMaxSequenceNumber" "(5 :: u64) \<le> kMaxSequenceNumber"
    by (simp_all add: kMaxSequenceNumber_def)
  have srt: "Compare (InternalKeyComparator BytewiseComparator) (InternalKey_new [65] 3 kTypeValue) (InternalKey_new [66] 2 kTypeValue) < 0"
    using bytewise_ik.icmp_new_less_iff [OF k(2,1), of "[65]" kTypeValue "[66]" kTypeValue]
    by (simp add: BytewiseComparator_def Slice_compare_def)
  have t: "table_ok BytewiseComparator (\<lambda>_. True) (entries_get BytewiseComparator demo_contents) (fmd demo_heap f)
      (demo_contents (fnumber (fmd demo_heap f)))" if "f \<in> {0, 1}" for f
    by (rule bytewise_ik.entries_get_ok)
       (use that k srt in \<open>auto simp: demo_contents_def demo_heap_def fmd_def FileMetaData_new_def entry_of_def
          sorted_entries_def valid_ikey_def\<close>)
  show ?thesis
    unfolding version_ok_def using t
    by (auto simp: demo_version_def less_Suc_eq) (auto simp: demo_contents_def demo_heap_def fmd_def FileMetaData_new_def)
qed

theorem version_get_witness:
  "\<exists>s stats. Version_Get BytewiseComparator demo_heap (entries_get BytewiseComparator demo_contents) demo_version
     (LookupKey_new [66] 9) [] = (s, [8], stats) \<and> ok s"
proof -
  have k: "(9 :: u64) \<le> kMaxSequenceNumber" by (simp add: kMaxSequenceNumber_def)
  let ?E = "\<Union>files \<in> set (v_files demo_version). level_entries (\<lambda>f. demo_contents (fnumber (fmd demo_heap f))) files"
  have E: "?E = {(5, kTypeDeletion, [65], []), (3, kTypeValue, [65], [7]), (2, kTypeValue, [66], [8])}"
    by (auto simp: demo_version_def level_entries_def demo_contents_def demo_heap_def fmd_def FileMetaData_new_def)
  have vis: "visible BytewiseComparator [66] 9 (2, kTypeValue, [66], [8])"
    "\<And>e. e \<in> ?E \<Longrightarrow> visible BytewiseComparator [66] 9 e \<Longrightarrow> e = (2, kTypeValue, [66], [8])"
    unfolding E by (auto simp: visible_def BytewiseComparator_def Slice_compare_def)
  obtain s v stats where g: "Version_Get BytewiseComparator demo_heap (entries_get BytewiseComparator demo_contents) demo_version
      (LookupKey_new [66] 9) [] = (s, v, stats)"
    and r: "(\<forall>e \<in> ?E. \<not> visible BytewiseComparator [66] 9 e) \<and> s = NotFound [] [] \<or>
      (\<exists>e. newest_visible BytewiseComparator [66] 9 ?E e \<and> lookup_outcome e s v)"
    using version_get [OF bytewise_ik.internal_keys_axioms demo_version_ok TrueI k, of "[66]" "[]"] by blast
  have "(2, kTypeValue, [66], [8]) \<in> ?E" unfolding E by simp
  then obtain e where e: "newest_visible BytewiseComparator [66] 9 ?E e" "lookup_outcome e s v" using r vis(1) by blast
  then have "e = (2, kTypeValue, [66], [8])" using vis(2) by (simp add: newest_visible_def)
  then show ?thesis using g e(2) by (simp add: lookup_outcome_def)
qed

text \<open>
  The binary search over the disjoint sorted files of a level gives the same
  answer as testing every file for overlap, with unbounded ends and with both ends of a file
  sharing a user key.
\<close>

theorem overlap_in_level:
  assumes "internal_keys c valid"
    and "if 0 < level then level_ok c valid h (v_files v ! level)
      else \<forall>f \<in> set (v_files v ! level). file_ok c valid (fmd h f)"
    and "\<forall>k. lo = Some k \<longrightarrow> valid k" "\<forall>k. hi = Some k \<longrightarrow> valid k"
  shows "OverlapInLevel c h v level lo hi \<longleftrightarrow> (\<exists>f \<in> set (v_files v ! level). overlaps_range c h lo hi f)"
  unfolding OverlapInLevel_def
  by (rule internal_keys.SomeFileOverlapsRange_iff [OF assms(1)]) (use assms(2-4) in auto)

theorem overlap_in_level_witness:
  "OverlapInLevel BytewiseComparator demo_heap demo_version 1 (Some [65, 1]) None"
proof -
  have "level_ok BytewiseComparator (\<lambda>_. True) demo_heap (v_files demo_version ! 1)"
    using demo_version_ok bytewise_ik.table_file_ok by (fastforce simp: level_ok_def version_ok_def demo_version_def)
  then show ?thesis
    using overlap_in_level [OF bytewise_ik.internal_keys_axioms, of 1 demo_heap demo_version "Some [65, 1]" None]
    by (simp add: demo_version_def overlaps_range_def AfterFile_def BeforeFile_def largest_user_key_def demo_heap_def
        fmd_def FileMetaData_new_def BytewiseComparator_def Slice_compare_def)
qed

text \<open>
  C23: whatever the order of the files of level 0, \<open>GetOverlappingInputs\<close> ends
  and collects, in order, exactly the files that overlap the range directly or through a chain
  of overlapping files; of the other levels it collects the files that overlap the range.
\<close>

theorem overlapping_inputs:
  assumes "internal_keys c valid" and "\<forall>f \<in> set (v_files v ! level). file_ok c valid (fmd h f)"
    and "\<forall>k. lo = Some k \<longrightarrow> valid_ikey valid k" "\<forall>k. hi = Some k \<longrightarrow> valid_ikey valid k"
  shows "GetOverlappingInputs c h (v_files v) level lo hi =
    Some (filter ((if level = 0 then overlap_closure c h (v_files v ! level) else overlaps_range c h)
      (map_option ExtractUserKey lo) (map_option ExtractUserKey hi)) (v_files v ! level))"
  using internal_keys.GetOverlappingInputs_level0 [OF assms(1), of "v_files v" h lo hi]
    internal_keys.GetOverlappingInputs_other [OF assms(1), of "v_files v" level h lo hi] assms(2-4)
  by (cases "level = 0") auto

theorem overlapping_inputs_witness:
  "GetOverlappingInputs BytewiseComparator demo_heap [[1, 0], []] 0 (Some (InternalKey_new [66] 1 kTypeValue)) None =
     Some (filter (overlap_closure BytewiseComparator demo_heap [1, 0] (Some [66]) None) [1, 0]) \<and>
   overlap_closure BytewiseComparator demo_heap [1, 0] (Some [66]) None 0"
proof
  let ?v = "Version_new\<lparr>v_files := [[1, 0], []]\<rparr>"
  have ok: "file_ok BytewiseComparator (\<lambda>_. True) (fmd demo_heap f)" if "f \<in> {0, 1}" for f
    using demo_version_ok that bytewise_ik.table_file_ok by (fastforce simp: version_ok_def demo_version_def)
  then show "GetOverlappingInputs BytewiseComparator demo_heap [[1, 0], []] 0 (Some (InternalKey_new [66] 1 kTypeValue)) None =
     Some (filter (overlap_closure BytewiseComparator demo_heap [1, 0] (Some [66]) None) [1, 0])"
    using overlapping_inputs [OF bytewise_ik.internal_keys_axioms, of ?v 0 demo_heap
        "Some (InternalKey_new [66] 1 kTypeValue)" None]
    by (simp add: valid_ikey_def)
  have "overlap_closure BytewiseComparator demo_heap [1, 0] (Some [66]) None 1"
    by (rule overlap_closure.seed)
       (simp_all add: overlaps_range_def AfterFile_def BeforeFile_def largest_user_key_def demo_heap_def
        fmd_def FileMetaData_new_def BytewiseComparator_def Slice_compare_def)
  then show "overlap_closure BytewiseComparator demo_heap [1, 0] (Some [66]) None 0"
    by (rule overlap_closure.grow)
       (simp_all add: files_overlap_def smallest_user_key_def largest_user_key_def demo_heap_def
        fmd_def FileMetaData_new_def BytewiseComparator_def Slice_compare_def)
qed

end
