(* ===== verification/DbIter.thy ===== *)
theory DbIter
  imports Merger Versions
begin

section \<open>The database iterator (\<^verbatim>\<open>db/db_iter.cc\<close>)\<close>

text \<open>
  A \<open>DBIter\<close> walks over an internal iterator, whose entries are the versions of all user keys,
  and shows the user keys as they were at one sequence number. The model is generic in the
  internal iterator, a record \<open>ops\<close> of methods. Every loop is a \<open>partial_function\<close>: the value
  \<open>None\<close> is a loop that does not return, or a read outside of memory the code owns.

  The calls \<open>db_->RecordReadSample(key)\<close> are logged in \<open>di_samples\<close>. The capacity of
  \<open>saved_value_\<close>, which only decides how its memory is freed, has no counterpart.

  The theorem is a refinement: over any internal iterator that keeps the iterator contract, the
  database iterator keeps the same contract over the list \<open>user_view\<close> of the live user keys.
\<close>

definition kReadBytesPeriod :: u32 where "kReadBytesPeriod = 1048576"

datatype DBIterDirection = kDBForward | kDBReverse

record 'i DBIter =
  di_user_comparator :: Comparator
  di_iter :: 'i
  di_sequence :: SequenceNumber
  di_status :: Status
  di_saved_key :: bytes
  di_saved_value :: bytes
  di_direction :: DBIterDirection
  di_valid :: bool
  di_rnd :: u32
  di_bytes_until :: nat
  di_samples :: "bytes list"

definition RandomCompactionPeriod :: "u32 \<Rightarrow> nat \<times> u32" where
  "RandomCompactionPeriod rnd = (let (x, rnd) = Random_Uniform rnd (2 * kReadBytesPeriod) in (unat x, rnd))"

definition NewDBIterator :: "Comparator \<Rightarrow> 'i \<Rightarrow> SequenceNumber \<Rightarrow> u32 \<Rightarrow> 'i DBIter" where
  "NewDBIterator cmp iter s seed =
     (let (period, rnd) = RandomCompactionPeriod (Random_new seed)
      in \<lparr>di_user_comparator = cmp, di_iter = iter, di_sequence = s, di_status = OK,
          di_saved_key = [], di_saved_value = [], di_direction = kDBForward, di_valid = False,
          di_rnd = rnd, di_bytes_until = period, di_samples = []\<rparr>)"

definition DBIter_key :: "'i Iterator \<Rightarrow> 'i DBIter \<Rightarrow> bytes" where
  "DBIter_key ops d =
     (if di_direction d = kDBForward then ExtractUserKey (it_key ops (di_iter d)) else di_saved_key d)"

definition DBIter_value :: "'i Iterator \<Rightarrow> 'i DBIter \<Rightarrow> bytes option" where
  "DBIter_value ops d =
     (if di_direction d = kDBForward then it_value ops (di_iter d) else Some (di_saved_value d))"

definition DBIter_status :: "'i Iterator \<Rightarrow> 'i DBIter \<Rightarrow> Status" where
  "DBIter_status ops d = (if ok (di_status d) then it_status ops (di_iter d) else di_status d)"

subsection \<open>Reading the current entry\<close>

partial_function (option) sample_loop :: "bytes \<Rightarrow> nat \<Rightarrow> 'i DBIter \<Rightarrow> 'i DBIter option" where
  "sample_loop k bytes_read d =
     (if di_bytes_until d < bytes_read then
        (let (period, rnd) = RandomCompactionPeriod (di_rnd d)
         in sample_loop k bytes_read
              (d\<lparr>di_rnd := rnd, di_bytes_until := di_bytes_until d + period, di_samples := di_samples d @ [k]\<rparr>))
      else Some d)"

definition ParseKey :: "'i Iterator \<Rightarrow> 'i DBIter \<Rightarrow> (ParsedInternalKey option \<times> 'i DBIter) option" where
  "ParseKey ops d =
     (let k = it_key ops (di_iter d) in
      Option.bind (it_value ops (di_iter d)) (\<lambda>v.
        let bytes_read = length k + length v in
        map_option (\<lambda>d.
          let d = d\<lparr>di_bytes_until := di_bytes_until d - bytes_read\<rparr> in
          case ParseInternalKey k of
            None \<Rightarrow> (None, d\<lparr>di_status := Corruption (ascii ''corrupted internal key in DBIter'') []\<rparr>)
          | Some ikey \<Rightarrow> (Some ikey, d))
        (sample_loop k bytes_read d)))"

subsection \<open>Moving forwards\<close>

text \<open>
  The body of the loop of \<open>FindNextUserEntry\<close>: whether the entry is yielded, and the new values
  of \<open>skipping\<close> and of \<open>*skip\<close>, which in every call is \<open>saved_key_\<close>.
\<close>

definition next_entry :: "ParsedInternalKey option \<Rightarrow> bool \<Rightarrow> 'i DBIter \<Rightarrow> bool \<times> bool \<times> 'i DBIter" where
  "next_entry parsed skipping d =
     (case parsed of
        None \<Rightarrow> (False, skipping, d)
      | Some ikey \<Rightarrow>
          if sequence ikey \<le> di_sequence d then
            (case ptype ikey of
               kTypeDeletion \<Rightarrow> (False, True, d\<lparr>di_saved_key := user_key ikey\<rparr>)
             | kTypeValue \<Rightarrow>
                 (\<not> (skipping \<and> Compare (di_user_comparator d) (user_key ikey) (di_saved_key d) \<le> 0), skipping, d))
          else (False, skipping, d))"

partial_function (option) FindNextUserEntry :: "'i Iterator \<Rightarrow> bool \<Rightarrow> 'i DBIter \<Rightarrow> 'i DBIter option" where
  "FindNextUserEntry ops skipping d =
     Option.bind (ParseKey ops d) (\<lambda>r.
       let (yield, skipping, d) = next_entry (fst r) skipping (snd r) in
       if yield then Some (d\<lparr>di_valid := True, di_saved_key := []\<rparr>)
       else Option.bind (it_Next ops (di_iter d)) (\<lambda>it.
         if it_Valid ops it then FindNextUserEntry ops skipping (d\<lparr>di_iter := it\<rparr>)
         else Some (d\<lparr>di_iter := it, di_saved_key := [], di_valid := False\<rparr>)))"

definition DBIter_Next :: "'i Iterator \<Rightarrow> 'i DBIter \<Rightarrow> 'i DBIter option" where
  "DBIter_Next ops d =
     (if di_direction d = kDBReverse then
        Option.bind (if it_Valid ops (di_iter d) then it_Next ops (di_iter d) else it_SeekToFirst ops (di_iter d)) (\<lambda>it.
          let d = d\<lparr>di_direction := kDBForward, di_iter := it\<rparr> in
          if \<not> it_Valid ops it then Some (d\<lparr>di_valid := False, di_saved_key := []\<rparr>)
          else FindNextUserEntry ops True d)
      else FindNextUserEntry ops True (d\<lparr>di_saved_key := ExtractUserKey (it_key ops (di_iter d))\<rparr>))"

subsection \<open>Moving backwards\<close>

text \<open>
  The body of the loop of \<open>FindPrevUserEntry\<close>: \<open>Some None\<close> when it breaks, else the new
  \<open>value_type\<close>; \<open>None\<close> when the value cannot be read.
\<close>

definition prev_entry ::
    "'i Iterator \<Rightarrow> ParsedInternalKey option \<Rightarrow> ValueType \<Rightarrow> 'i DBIter \<Rightarrow> (ValueType \<times> 'i DBIter) option option" where
  "prev_entry ops parsed value_type d =
     (case parsed of
        None \<Rightarrow> Some (Some (value_type, d))
      | Some ikey \<Rightarrow>
          if sequence ikey \<le> di_sequence d then
            if value_type \<noteq> kTypeDeletion \<and> Compare (di_user_comparator d) (user_key ikey) (di_saved_key d) < 0
            then Some None
            else if ptype ikey = kTypeDeletion
            then Some (Some (kTypeDeletion, d\<lparr>di_saved_key := [], di_saved_value := []\<rparr>))
            else map_option (\<lambda>v. Some (ptype ikey,
                   d\<lparr>di_saved_key := ExtractUserKey (it_key ops (di_iter d)), di_saved_value := v\<rparr>)) (it_value ops (di_iter d))
          else Some (Some (value_type, d)))"

partial_function (option) FindPrev_loop ::
    "'i Iterator \<Rightarrow> ValueType \<Rightarrow> 'i DBIter \<Rightarrow> (ValueType \<times> 'i DBIter) option" where
  "FindPrev_loop ops value_type d =
     Option.bind (ParseKey ops d) (\<lambda>r.
     Option.bind (prev_entry ops (fst r) value_type (snd r)) (\<lambda>e.
       case e of None \<Rightarrow> Some (value_type, snd r)
       | Some (value_type, d) \<Rightarrow>
           Option.bind (it_Prev ops (di_iter d)) (\<lambda>it.
             if it_Valid ops it then FindPrev_loop ops value_type (d\<lparr>di_iter := it\<rparr>)
             else Some (value_type, d\<lparr>di_iter := it\<rparr>))))"

definition FindPrevUserEntry :: "'i Iterator \<Rightarrow> 'i DBIter \<Rightarrow> 'i DBIter option" where
  "FindPrevUserEntry ops d =
     map_option (\<lambda>(value_type, d).
       if value_type = kTypeDeletion
       then d\<lparr>di_valid := False, di_saved_key := [], di_saved_value := [], di_direction := kDBForward\<rparr>
       else d\<lparr>di_valid := True\<rparr>)
     (if it_Valid ops (di_iter d) then FindPrev_loop ops kTypeDeletion d else Some (kTypeDeletion, d))"

text \<open>The scan of \<open>Prev\<close> for the last entry of a smaller user key: \<open>False\<close> when there is none.\<close>

partial_function (option) DBIter_Prev_scan :: "'i Iterator \<Rightarrow> 'i DBIter \<Rightarrow> (bool \<times> 'i DBIter) option" where
  "DBIter_Prev_scan ops d =
     Option.bind (it_Prev ops (di_iter d)) (\<lambda>it.
       let d = d\<lparr>di_iter := it\<rparr> in
       if \<not> it_Valid ops it then Some (False, d\<lparr>di_valid := False, di_saved_key := [], di_saved_value := []\<rparr>)
       else if Compare (di_user_comparator d) (ExtractUserKey (it_key ops it)) (di_saved_key d) < 0 then Some (True, d)
       else DBIter_Prev_scan ops d)"

definition DBIter_Prev :: "'i Iterator \<Rightarrow> 'i DBIter \<Rightarrow> 'i DBIter option" where
  "DBIter_Prev ops d =
     (if di_direction d = kDBForward then
        Option.bind (DBIter_Prev_scan ops (d\<lparr>di_saved_key := ExtractUserKey (it_key ops (di_iter d))\<rparr>)) (\<lambda>(found, d).
          if found then FindPrevUserEntry ops (d\<lparr>di_direction := kDBReverse\<rparr>) else Some d)
      else FindPrevUserEntry ops d)"

subsection \<open>Seeking\<close>

definition DBIter_Seek :: "'i Iterator \<Rightarrow> bytes \<Rightarrow> 'i DBIter \<Rightarrow> 'i DBIter option" where
  "DBIter_Seek ops target d =
     (let saved = AppendInternalKey [] \<lparr>user_key = target, sequence = di_sequence d, ptype = kValueTypeForSeek\<rparr> in
      Option.bind (it_Seek ops saved (di_iter d)) (\<lambda>it.
        let d = d\<lparr>di_direction := kDBForward, di_saved_value := [], di_saved_key := saved, di_iter := it\<rparr> in
        if it_Valid ops it then FindNextUserEntry ops False d else Some (d\<lparr>di_valid := False\<rparr>)))"

definition DBIter_SeekToFirst :: "'i Iterator \<Rightarrow> 'i DBIter \<Rightarrow> 'i DBIter option" where
  "DBIter_SeekToFirst ops d =
     Option.bind (it_SeekToFirst ops (di_iter d)) (\<lambda>it.
       let d = d\<lparr>di_direction := kDBForward, di_saved_value := [], di_iter := it\<rparr> in
       if it_Valid ops it then FindNextUserEntry ops False d else Some (d\<lparr>di_valid := False\<rparr>))"

definition DBIter_SeekToLast :: "'i Iterator \<Rightarrow> 'i DBIter \<Rightarrow> 'i DBIter option" where
  "DBIter_SeekToLast ops d =
     Option.bind (it_SeekToLast ops (di_iter d)) (\<lambda>it.
       FindPrevUserEntry ops (d\<lparr>di_direction := kDBReverse, di_saved_value := [], di_iter := it\<rparr>))"

definition DBIter_ops :: "'i Iterator \<Rightarrow> 'i DBIter Iterator" where
  "DBIter_ops ops =
     \<lparr>it_Valid = di_valid, it_Seek = DBIter_Seek ops, it_SeekToFirst = DBIter_SeekToFirst ops,
      it_SeekToLast = DBIter_SeekToLast ops, it_Next = DBIter_Next ops, it_Prev = DBIter_Prev ops,
      it_key = DBIter_key ops, it_value = DBIter_value ops, it_status = DBIter_status ops\<rparr>"


subsection \<open>The sampling loop returns\<close>

definition rnd_ok :: "u32 \<Rightarrow> bool" where
  "rnd_ok rnd \<longleftrightarrow> 0 < rnd \<and> rnd < 2147483647"

lemma rnd_ok_new: "rnd_ok (Random_new s)"
  using Random_new_range by (simp add: rnd_ok_def)

lemma period_eq: "RandomCompactionPeriod rnd = (unat (Random_Next rnd) mod 2097152, Random_Next rnd)"
  by (simp add: RandomCompactionPeriod_def Random_Uniform_def Let_def kReadBytesPeriod_def unat_mod)

lemma rnd_ok_next: "rnd_ok rnd \<Longrightarrow> rnd_ok (Random_Next rnd)"
  using Random_Next_range by (simp add: rnd_ok_def)

text \<open>After a period of zero bytes the next one is positive.\<close>

lemma period_positive:
  assumes "rnd_ok rnd" "unat rnd mod 2097152 = 0"
  shows "0 < unat (Random_Next rnd) mod 2097152"
proof -
  have r: "0 < unat rnd" "unat rnd < 2147483647"
    using assms(1) by (simp_all add: rnd_ok_def word_less_nat_alt)
  obtain a where a: "unat rnd = 2097152 * a" using assms(2) by (metis mod_0_imp_dvd dvd_def)
  have a0: "0 < a" "a < 1024" using r a by simp_all
  define q m where "q = (16807 * a) div 1024" and "m = (16807 * a) mod 1024"
  have qm: "16807 * a = 1024 * q + m" "m < 1024" by (simp_all add: q_def m_def)
  have q: "0 < q" "q < 16807" using a0 by (simp_all add: q_def div_greater_zero_iff less_mult_imp_div_less)
  have "unat rnd * 16807 = 2097152 * (1024 * q + m)" using a qm(1) by simp
  also have "\<dots> = q * 2147483647 + (q + 2097152 * m)" by simp
  finally have "unat rnd * 16807 mod 2147483647 = (q + 2097152 * m) mod 2147483647" by (simp only: mod_mult_self3)
  also have "\<dots> = q + 2097152 * m"
  proof (rule mod_less)
    have "m \<le> 1023" using qm(2) by simp
    then have "2097152 * m \<le> 2145386496" by simp
    then show "q + 2097152 * m < 2147483647" using q(2) by simp
  qed
  finally have "unat (Random_Next rnd) = q + 2097152 * m"
    using Random_Next_range assms(1) by (simp add: rnd_ok_def)
  then show ?thesis using q by simp
qed

lemma sample_loop_returns:
  "rnd_ok (di_rnd d) \<Longrightarrow> \<exists>rnd bytes samples.
     sample_loop k n d = Some (d\<lparr>di_rnd := rnd, di_bytes_until := bytes, di_samples := samples\<rparr>) \<and> rnd_ok rnd \<and> n \<le> bytes"
proof (induction "n - di_bytes_until d" arbitrary: d rule: less_induct)
  case less
  show ?case
  proof (cases "di_bytes_until d < n")
    case False
    then have "sample_loop k n d = Some (d\<lparr>di_rnd := di_rnd d, di_bytes_until := di_bytes_until d, di_samples := di_samples d\<rparr>)"
      by (simp add: sample_loop.simps)
    then show ?thesis using less.prems False by (metis not_less)
  next
    case True
    let ?step = "\<lambda>d. d\<lparr>di_rnd := Random_Next (di_rnd d),
      di_bytes_until := di_bytes_until d + unat (Random_Next (di_rnd d)) mod 2097152, di_samples := di_samples d @ [k]\<rparr>"
    have st: "sample_loop k n d = sample_loop k n (?step d)" if "di_bytes_until d < n" for d :: "'a DBIter"
      using that by (subst sample_loop.simps) (simp add: period_eq)
    have rok: "rnd_ok (di_rnd (?step d))" "rnd_ok (di_rnd (?step (?step d)))"
      using less.prems by (simp_all add: rnd_ok_next)
    consider "0 < unat (Random_Next (di_rnd d)) mod 2097152" | "unat (Random_Next (di_rnd d)) mod 2097152 = 0" by linarith
    then show ?thesis
    proof cases
      case 1
      then have "n - di_bytes_until (?step d) < n - di_bytes_until d" using True by simp
      from less.hyps [OF this rok(1)] show ?thesis using st [OF True] by (auto intro!: exI)
    next
      case 2
      have b: "di_bytes_until (?step d) < n" using 2 True by simp
      have "0 < unat (Random_Next (Random_Next (di_rnd d))) mod 2097152"
        by (rule period_positive [OF rnd_ok_next 2]) (rule less.prems)
      then have "n - di_bytes_until (?step (?step d)) < n - di_bytes_until d" using 2 True by simp
      from less.hyps [OF this rok(2)] show ?thesis using st [OF True] st [OF b] by (auto intro!: exI)
    qed
  qed
qed

subsection \<open>The live user keys\<close>

abbreviation e_seq :: "entry \<Rightarrow> SequenceNumber" where "e_seq e \<equiv> fst e"
abbreviation e_type :: "entry \<Rightarrow> ValueType" where "e_type e \<equiv> fst (snd e)"
abbreviation e_key :: "entry \<Rightarrow> bytes" where "e_key e \<equiv> fst (snd (snd e))"
abbreviation e_value :: "entry \<Rightarrow> bytes" where "e_value e \<equiv> snd (snd (snd e))"

text \<open>
  An entry is live at a sequence number when it is a value, is not newer, and no earlier entry,
  that is no newer version of its user key, is visible as well.
\<close>

definition live :: "Comparator \<Rightarrow> SequenceNumber \<Rightarrow> entry list \<Rightarrow> nat \<Rightarrow> bool" where
  "live c snap es i \<longleftrightarrow> i < length es \<and> e_seq (es ! i) \<le> snap \<and> e_type (es ! i) = kTypeValue \<and>
     (\<forall>j < i. \<not> visible c (e_key (es ! i)) snap (es ! j))"

definition live_positions :: "Comparator \<Rightarrow> SequenceNumber \<Rightarrow> entry list \<Rightarrow> nat list" where
  "live_positions c snap es = filter (live c snap es) [0..<length es]"

definition user_view :: "Comparator \<Rightarrow> SequenceNumber \<Rightarrow> entry list \<Rightarrow> (bytes \<times> bytes) list" where
  "user_view c snap es = map (\<lambda>i. (e_key (es ! i), e_value (es ! i))) (live_positions c snap es)"

definition entries_ok :: "Comparator \<Rightarrow> (bytes \<Rightarrow> bool) \<Rightarrow> entry list \<Rightarrow> bool" where
  "entries_ok c valid es \<longleftrightarrow> (\<forall>e \<in> set es. e_seq e \<le> kMaxSequenceNumber \<and> valid (e_key e)) \<and>
     sorted_entries (InternalKeyComparator c) (valid_ikey valid) (map entry_of es)"

lemma visible_iff: "visible c u snap e \<longleftrightarrow> Compare c (e_key e) u = 0 \<and> e_seq e \<le> snap"
  by (cases e) (auto simp: visible_def)

lemma entry_of_iff: "entry_of e = (InternalKey_new (e_key e) (e_seq e) (e_type e), e_value e)"
  by (cases e) (simp add: entry_of_def)

lemma set_live_positions: "i \<in> set (live_positions c snap es) \<longleftrightarrow> live c snap es i"
  by (auto simp: live_positions_def live_def)

lemma sorted_live_positions: "sorted_wrt (<) (live_positions c snap es)"
  by (simp add: live_positions_def sorted_wrt_filter)

text \<open>How many live entries precede a position: the position of the next one in the view.\<close>

definition live_before :: "Comparator \<Rightarrow> SequenceNumber \<Rightarrow> entry list \<Rightarrow> nat \<Rightarrow> nat" where
  "live_before c snap es p = length (filter (live c snap es) [0..<p])"

lemma live_positions_split:
  "p \<le> length es \<Longrightarrow> live_positions c snap es = filter (live c snap es) [0..<p] @ filter (live c snap es) [p..<length es]"
  unfolding live_positions_def by (metis filter_append le0 le_Suc_ex upt_add_eq_append)

lemma live_before_le: "p \<le> length es \<Longrightarrow> live_before c snap es p \<le> length (live_positions c snap es)"
  by (simp add: live_before_def live_positions_split [of p])

lemma live_before_nth:
  assumes "live c snap es m"
  shows "live_before c snap es m < length (live_positions c snap es)"
    "live_positions c snap es ! live_before c snap es m = m"
proof -
  have m: "m < length es" using assms by (simp add: live_def)
  have "[m..<length es] = m # [Suc m..<length es]" using m by (rule upt_conv_Cons)
  then have "live_positions c snap es = filter (live c snap es) [0..<m] @ m # filter (live c snap es) [Suc m..<length es]"
    using live_positions_split [of m es c snap] m assms by simp
  then show "live_before c snap es m < length (live_positions c snap es)"
    "live_positions c snap es ! live_before c snap es m = m" by (simp_all add: live_before_def nth_append)
qed

lemma live_before_none:
  "p \<le> q \<Longrightarrow> (\<And>k. p \<le> k \<Longrightarrow> k < q \<Longrightarrow> \<not> live c snap es k) \<Longrightarrow> live_before c snap es q = live_before c snap es p"
proof -
  assume pq: "p \<le> q" and none: "\<And>k. p \<le> k \<Longrightarrow> k < q \<Longrightarrow> \<not> live c snap es k"
  have "[0..<q] = [0..<p] @ [p..<q]" using pq by (metis le0 le_Suc_ex upt_add_eq_append)
  moreover have "filter (live c snap es) [p..<q] = []" using none by (simp add: filter_empty_conv)
  ultimately show ?thesis by (simp add: live_before_def)
qed

lemma live_before_all: "live_before c snap es (length es) = length (live_positions c snap es)"
  by (simp add: live_before_def live_positions_def)

lemma live_before_Suc: "live_before c snap es (Suc p) = live_before c snap es p + (if live c snap es p then 1 else 0)"
  by (simp add: live_before_def)


subsection \<open>The refinement\<close>

text \<open>
  The internal iterator keeps the contract over entries \<open>es\<close>. \<open>lowest\<close> is the first
  position after the internal iterator's when that is read as \<open>before the first entry\<close>.
\<close>

locale db_iter = internal_keys c valid + iit: iterator "InternalKeyComparator c" "valid_ikey valid" ops stat
  for c valid and ops :: "'i Iterator" and stat
begin

definition stands :: "'i DBIter \<Rightarrow> SequenceNumber \<Rightarrow> entry list \<Rightarrow> nat \<Rightarrow> bool" where
  "stands d snap es p \<longleftrightarrow> di_user_comparator d = c \<and> di_sequence d = snap \<and> ok (di_status d) \<and>
     rnd_ok (di_rnd d) \<and> stat (di_iter d) (map entry_of es) p"

definition lowest :: "entry list \<Rightarrow> nat \<Rightarrow> nat" where
  "lowest es p = (if p = length es then 0 else Suc p)"

definition shows_live :: "'i DBIter \<Rightarrow> SequenceNumber \<Rightarrow> entry list \<Rightarrow> nat \<Rightarrow> nat \<Rightarrow> bool" where
  "shows_live d snap es p m \<longleftrightarrow>
     (case di_direction d of
        kDBForward \<Rightarrow> p = m
      | kDBReverse \<Rightarrow> di_saved_key d = e_key (es ! m) \<and> di_saved_value d = e_value (es ! m) \<and>
          lowest es p \<le> m \<and> (\<forall>i. lowest es p \<le> i \<longrightarrow> i < m \<longrightarrow> snap < e_seq (es ! i)))"

definition dbi_at :: "'i DBIter \<Rightarrow> (bytes \<times> bytes) list \<Rightarrow> nat \<Rightarrow> bool" where
  "dbi_at d view j \<longleftrightarrow> (\<exists>es p. stands d (di_sequence d) es p \<and> entries_ok c valid es \<and>
     di_sequence d \<le> kMaxSequenceNumber \<and> view = user_view c (di_sequence d) es \<and> j \<le> length view \<and>
     (di_valid d \<longleftrightarrow> j < length view) \<and>
     (j < length view \<longrightarrow> shows_live d (di_sequence d) es p (live_positions c (di_sequence d) es ! j)))"

lemma entries_order:
  assumes "entries_ok c valid es" "i < j" "j < length es"
  shows "Compare c (e_key (es ! i)) (e_key (es ! j)) < 0 \<or>
    Compare c (e_key (es ! i)) (e_key (es ! j)) = 0 \<and> e_seq (es ! j) \<le> e_seq (es ! i)"
proof -
  have "es ! i \<in> set es" "es ! j \<in> set es" using assms(2,3) by simp_all
  then have s: "e_seq (es ! i) \<le> kMaxSequenceNumber" "e_seq (es ! j) \<le> kMaxSequenceNumber"
    using assms(1) by (auto simp: entries_ok_def)
  have "icmp (fst (entry_of (es ! i))) (fst (entry_of (es ! j))) < 0"
    using assms by (simp add: entries_ok_def sorted_entries_def sorted_wrt_iff_nth_less)
  then show ?thesis using icmp_new_less_iff [OF s] by (auto simp: entry_of_iff)
qed

lemma entry_valid:
  assumes "entries_ok c valid es" "i < length es"
  shows "valid (e_key (es ! i))" "e_seq (es ! i) \<le> kMaxSequenceNumber"
  using assms nth_mem [of i es] by (auto simp: entries_ok_def)

lemma key_mono:
  assumes "entries_ok c valid es" "i \<le> j" "j < length es"
  shows "Compare c (e_key (es ! i)) (e_key (es ! j)) \<le> 0"
proof (cases "i = j")
  case True
  then show ?thesis using refl [OF entry_valid(1) [OF assms(1,3)]] by simp
next
  case False
  then show ?thesis using entries_order [OF assms(1) _ assms(3), of i] assms(2) by force
qed

lemma stands_key:
  assumes "stands d snap es p" "p < length es"
  shows "it_key ops (di_iter d) = InternalKey_new (e_key (es ! p)) (e_seq (es ! p)) (e_type (es ! p))"
    "it_value ops (di_iter d) = Some (e_value (es ! p))" "it_Valid ops (di_iter d)"
  using assms iit.at_key [of "di_iter d" "map entry_of es" p] iit.at_value [of "di_iter d" "map entry_of es" p]
    iit.at_Valid [of "di_iter d" "map entry_of es" p]
  by (simp_all add: stands_def entry_of_iff)

lemma stands_Valid: "stands d snap es p \<Longrightarrow> it_Valid ops (di_iter d) \<longleftrightarrow> p < length es"
  using iit.at_Valid [of "di_iter d" "map entry_of es" p] by (simp add: stands_def)

lemma stands_le: "stands d snap es p \<Longrightarrow> p \<le> length es"
  using iit.at_le [of "di_iter d" "map entry_of es" p] by (simp add: stands_def)

lemma stands_Next:
  assumes "stands d snap es p" "p < length es"
  shows "\<exists>it. it_Next ops (di_iter d) = Some it \<and> stands (d\<lparr>di_iter := it\<rparr>) snap es (Suc p)"
  using assms iit.at_Next [of "di_iter d" "map entry_of es" p] by (auto simp: stands_def)

lemma stands_Prev:
  assumes "stands d snap es p" "p < length es"
  shows "\<exists>it. it_Prev ops (di_iter d) = Some it \<and>
    stands (d\<lparr>di_iter := it\<rparr>) snap es (if p = 0 then length es else p - 1)"
  using assms iit.at_Prev [of "di_iter d" "map entry_of es" p] by (auto simp: stands_def)

text \<open>Reading an entry changes the sampling state only.\<close>

lemma ParseKey_at:
  assumes "stands d snap es p" "p < length es" "entries_ok c valid es"
  shows "\<exists>rnd bytes samples.
    ParseKey ops d = Some (Some \<lparr>user_key = e_key (es ! p), sequence = e_seq (es ! p), ptype = e_type (es ! p)\<rparr>,
      d\<lparr>di_rnd := rnd, di_bytes_until := bytes, di_samples := samples\<rparr>) \<and>
    stands (d\<lparr>di_rnd := rnd, di_bytes_until := bytes, di_samples := samples\<rparr>) snap es p"
proof -
  let ?n = "length (e_key (es ! p)) + 8 + length (e_value (es ! p))"
  have len: "length (InternalKey_new u s t) = length u + 8" for u s t by (simp add: InternalKey_new_eq)
  have "rnd_ok (di_rnd d)" using assms(1) by (simp add: stands_def)
  from sample_loop_returns [OF this] obtain rnd bytes samples where s:
    "sample_loop (it_key ops (di_iter d)) ?n d = Some (d\<lparr>di_rnd := rnd, di_bytes_until := bytes, di_samples := samples\<rparr>)"
    "rnd_ok rnd" by blast
  have "ParseKey ops d = Some (Some \<lparr>user_key = e_key (es ! p), sequence = e_seq (es ! p), ptype = e_type (es ! p)\<rparr>,
      d\<lparr>di_rnd := rnd, di_bytes_until := bytes - ?n, di_samples := samples\<rparr>)"
    using s(1) stands_key [OF assms(1,2)] Parse_new [OF entry_valid(2) [OF assms(3,2)]]
    by (simp add: ParseKey_def len)
  moreover have "stands (d\<lparr>di_rnd := rnd, di_bytes_until := bytes - ?n, di_samples := samples\<rparr>) snap es p"
    using assms(1) s(2) by (simp add: stands_def)
  ultimately show ?thesis by blast
qed

text \<open>
  \<open>FindNextUserEntry\<close> finds the first entry of \<open>G\<close>, when \<open>G\<close> is given from the current position
  on by what the loop tests.
\<close>

definition next_goal :: "SequenceNumber \<Rightarrow> entry list \<Rightarrow> nat \<Rightarrow> bool \<Rightarrow> bytes \<Rightarrow> (nat \<Rightarrow> bool) \<Rightarrow> bool" where
  "next_goal snap es p skipping saved G \<longleftrightarrow> (\<forall>k. p \<le> k \<longrightarrow> k < length es \<longrightarrow>
     (G k \<longleftrightarrow> e_seq (es ! k) \<le> snap \<and> e_type (es ! k) = kTypeValue \<and>
       \<not> (skipping \<and> Compare c (e_key (es ! k)) saved \<le> 0) \<and>
       (\<forall>j. p \<le> j \<longrightarrow> j < k \<longrightarrow> \<not> visible c (e_key (es ! k)) snap (es ! j))))"

definition skip_ok :: "SequenceNumber \<Rightarrow> entry list \<Rightarrow> nat \<Rightarrow> bool \<Rightarrow> bytes \<Rightarrow> bool" where
  "skip_ok snap es p skipping saved \<longleftrightarrow> (skipping \<longrightarrow> valid saved \<and>
     (\<forall>k. p \<le> k \<longrightarrow> k < length es \<longrightarrow> e_seq (es ! k) \<le> snap \<longrightarrow> Compare c saved (e_key (es ! k)) \<le> 0))"

lemma next_goal_deletion:
  assumes goal: "next_goal snap es p skipping saved G" and ok: "entries_ok c valid es" "p < length es"
    and sk: "skip_ok snap es p skipping saved" and e: "e_seq (es ! p) \<le> snap" "e_type (es ! p) = kTypeDeletion"
  shows "next_goal snap es (Suc p) True (e_key (es ! p)) G" "skip_ok snap es (Suc p) True (e_key (es ! p))"
proof -
  note vp = entry_valid(1) [OF ok]
  show "skip_ok snap es (Suc p) True (e_key (es ! p))"
    using key_mono [OF ok(1)] vp by (simp add: skip_ok_def)
  show "next_goal snap es (Suc p) True (e_key (es ! p)) G"
    unfolding next_goal_def
  proof (intro allI impI)
    fix k assume k: "Suc p \<le> k" "k < length es"
    note vk = entry_valid(1) [OF ok(1) k(2)]
    have mono: "Compare c (e_key (es ! p)) (e_key (es ! k)) \<le> 0" using key_mono [OF ok(1) _ k(2), of p] k(1) by simp
    have same: "Compare c (e_key (es ! k)) (e_key (es ! p)) \<le> 0 \<longleftrightarrow> visible c (e_key (es ! k)) snap (es ! p)"
      using mono e(1) ge_iff_le [OF vp vk] eq_sym [OF vp vk] by (auto simp: visible_iff)
    have hidden: "Compare c (e_key (es ! k)) (e_key (es ! p)) \<le> 0"
      if "skipping" "Compare c (e_key (es ! k)) saved \<le> 0"
      using that sk e(1) ok(2) le_trans [OF vk _ vp, of saved] by (auto simp: skip_ok_def)
    have split: "(\<forall>j. p \<le> j \<longrightarrow> j < k \<longrightarrow> \<not> visible c (e_key (es ! k)) snap (es ! j)) \<longleftrightarrow>
      \<not> visible c (e_key (es ! k)) snap (es ! p) \<and> (\<forall>j. Suc p \<le> j \<longrightarrow> j < k \<longrightarrow> \<not> visible c (e_key (es ! k)) snap (es ! j))"
      using k(1) by (metis Suc_le_eq le_eq_less_or_eq order.refl)
    have G0: "G k \<longleftrightarrow> e_seq (es ! k) \<le> snap \<and> e_type (es ! k) = kTypeValue \<and>
      \<not> (skipping \<and> Compare c (e_key (es ! k)) saved \<le> 0) \<and>
      (\<forall>j. p \<le> j \<longrightarrow> j < k \<longrightarrow> \<not> visible c (e_key (es ! k)) snap (es ! j))"
      using goal [unfolded next_goal_def, rule_format, of k] k by auto
    show "G k \<longleftrightarrow> e_seq (es ! k) \<le> snap \<and> e_type (es ! k) = kTypeValue \<and>
      \<not> (True \<and> Compare c (e_key (es ! k)) (e_key (es ! p)) \<le> 0) \<and>
      (\<forall>j. Suc p \<le> j \<longrightarrow> j < k \<longrightarrow> \<not> visible c (e_key (es ! k)) snap (es ! j))"
      using hidden unfolding G0 split same by blast
  qed
qed

lemma next_goal_skip:
  assumes goal: "next_goal snap es p skipping saved G" and ok: "entries_ok c valid es" "p < length es"
    and sk: "skip_ok snap es p skipping saved"
    and e: "e_seq (es ! p) \<le> snap \<Longrightarrow> skipping \<and> Compare c (e_key (es ! p)) saved \<le> 0"
  shows "next_goal snap es (Suc p) skipping saved G" "skip_ok snap es (Suc p) skipping saved"
proof -
  note vp = entry_valid(1) [OF ok]
  show "skip_ok snap es (Suc p) skipping saved" using sk by (simp add: skip_ok_def)
  show "next_goal snap es (Suc p) skipping saved G"
    unfolding next_goal_def
  proof (intro allI impI)
    fix k assume k: "Suc p \<le> k" "k < length es"
    note vk = entry_valid(1) [OF ok(1) k(2)]
    have hidden: "skipping \<and> Compare c (e_key (es ! k)) saved \<le> 0" if "visible c (e_key (es ! k)) snap (es ! p)"
    proof -
      have v: "Compare c (e_key (es ! p)) (e_key (es ! k)) = 0" "e_seq (es ! p) \<le> snap" using that by (simp_all add: visible_iff)
      have "Compare c (e_key (es ! k)) (e_key (es ! p)) \<le> 0" using v(1) eq_sym [OF vp vk] by simp
      then show ?thesis using e [OF v(2)] sk le_trans [OF vk vp, of saved] by (auto simp: skip_ok_def)
    qed
    have split: "(\<forall>j. p \<le> j \<longrightarrow> j < k \<longrightarrow> \<not> visible c (e_key (es ! k)) snap (es ! j)) \<longleftrightarrow>
      \<not> visible c (e_key (es ! k)) snap (es ! p) \<and> (\<forall>j. Suc p \<le> j \<longrightarrow> j < k \<longrightarrow> \<not> visible c (e_key (es ! k)) snap (es ! j))"
      using k(1) by (metis Suc_le_eq le_eq_less_or_eq order.refl)
    have G0: "G k \<longleftrightarrow> e_seq (es ! k) \<le> snap \<and> e_type (es ! k) = kTypeValue \<and>
      \<not> (skipping \<and> Compare c (e_key (es ! k)) saved \<le> 0) \<and>
      (\<forall>j. p \<le> j \<longrightarrow> j < k \<longrightarrow> \<not> visible c (e_key (es ! k)) snap (es ! j))"
      using goal [unfolded next_goal_def, rule_format, of k] k by auto
    show "G k \<longleftrightarrow> e_seq (es ! k) \<le> snap \<and> e_type (es ! k) = kTypeValue \<and>
      \<not> (skipping \<and> Compare c (e_key (es ! k)) saved \<le> 0) \<and>
      (\<forall>j. Suc p \<le> j \<longrightarrow> j < k \<longrightarrow> \<not> visible c (e_key (es ! k)) snap (es ! j))"
      using hidden unfolding G0 split by blast
  qed
qed

lemma FindNext_finds:
  assumes "stands d snap es p" "p < length es" "entries_ok c valid es" "di_direction d = kDBForward"
    and "next_goal snap es p skipping (di_saved_key d) G" "skip_ok snap es p skipping (di_saved_key d)"
  shows "\<exists>d' q. FindNextUserEntry ops skipping d = Some d' \<and> stands d' snap es q \<and> di_direction d' = kDBForward \<and>
    (\<forall>k. p \<le> k \<longrightarrow> k < q \<longrightarrow> k < length es \<longrightarrow> \<not> G k) \<and> p \<le> q \<and> (di_valid d' \<longleftrightarrow> q < length es) \<and> (q < length es \<longrightarrow> G q)"
  using assms
proof (induction "length es - p" arbitrary: d p skipping)
  case (Suc n)
  note st = Suc.prems(1) and p = Suc.prems(2) and ok = Suc.prems(3) and dir = Suc.prems(4)
    and goal = Suc.prems(5) and sk = Suc.prems(6)
  obtain rnd bytes samples where P:
    "ParseKey ops d = Some (Some \<lparr>user_key = e_key (es ! p), sequence = e_seq (es ! p), ptype = e_type (es ! p)\<rparr>,
      d\<lparr>di_rnd := rnd, di_bytes_until := bytes, di_samples := samples\<rparr>)"
    "stands (d\<lparr>di_rnd := rnd, di_bytes_until := bytes, di_samples := samples\<rparr>) snap es p"
    using ParseKey_at [OF st p ok] by blast
  let ?d = "d\<lparr>di_rnd := rnd, di_bytes_until := bytes, di_samples := samples\<rparr>"
  let ?ik = "\<lparr>user_key = e_key (es ! p), sequence = e_seq (es ! p), ptype = e_type (es ! p)\<rparr>"
  have cs: "di_user_comparator ?d = c" "di_sequence ?d = snap" using P(2) by (simp_all add: stands_def)
  have Gp: "G p \<longleftrightarrow> e_seq (es ! p) \<le> snap \<and> e_type (es ! p) = kTypeValue \<and>
      \<not> (skipping \<and> Compare c (e_key (es ! p)) (di_saved_key d) \<le> 0)"
    using goal p by (auto simp: next_goal_def)
  have step: "?case" if ne: "next_entry (Some ?ik) skipping ?d = (False, skipping', d1)"
    and d1: "stands d1 snap es p" "di_direction d1 = kDBForward"
    and g: "next_goal snap es (Suc p) skipping' (di_saved_key d1) G" "skip_ok snap es (Suc p) skipping' (di_saved_key d1)"
    and nG: "\<not> G p" for skipping' d1
  proof -
    obtain it where it: "it_Next ops (di_iter d1) = Some it" "stands (d1\<lparr>di_iter := it\<rparr>) snap es (Suc p)"
      using stands_Next [OF d1(1) p] by blast
    have F: "FindNextUserEntry ops skipping d =
      (if it_Valid ops it then FindNextUserEntry ops skipping' (d1\<lparr>di_iter := it\<rparr>)
       else Some (d1\<lparr>di_iter := it, di_saved_key := [], di_valid := False\<rparr>))"
      by (subst FindNextUserEntry.simps) (simp add: P(1) ne it(1))
    show ?thesis
    proof (cases "Suc p < length es")
      case False
      then have e: "Suc p = length es" using p by simp
      have nv: "\<not> it_Valid ops it" using stands_Valid [OF it(2)] e by simp
      have "stands (d1\<lparr>di_iter := it, di_saved_key := [], di_valid := False\<rparr>) snap es (Suc p)"
        using it(2) by (simp add: stands_def)
      moreover have "\<not> G k" if "p \<le> k" "k < length es" for k using that e nG by (cases "k = p") simp_all
      ultimately show ?thesis using F nv d1(2) e nG
        by (intro exI [of _ "d1\<lparr>di_iter := it, di_saved_key := [], di_valid := False\<rparr>"] exI [of _ "Suc p"])
           (auto simp: le_Suc_eq less_Suc_eq_le)
    next
      case True
      have nx: "n = length es - Suc p" using Suc.hyps(2) by simp
      have g': "next_goal snap es (Suc p) skipping' (di_saved_key (d1\<lparr>di_iter := it\<rparr>)) G"
        "skip_ok snap es (Suc p) skipping' (di_saved_key (d1\<lparr>di_iter := it\<rparr>))"
        "di_direction (d1\<lparr>di_iter := it\<rparr>) = kDBForward" using g d1(2) by simp_all
      obtain d' q where r: "FindNextUserEntry ops skipping' (d1\<lparr>di_iter := it\<rparr>) = Some d'" "stands d' snap es q"
        "di_direction d' = kDBForward" "\<forall>k. Suc p \<le> k \<longrightarrow> k < q \<longrightarrow> k < length es \<longrightarrow> \<not> G k" "Suc p \<le> q"
        "di_valid d' \<longleftrightarrow> q < length es" "q < length es \<longrightarrow> G q"
        using Suc.hyps(1) [OF nx it(2) True ok g'(3,1,2)] by blast
      have nv: "it_Valid ops it" using stands_Valid [OF it(2)] True by simp
      have "\<forall>k. p \<le> k \<longrightarrow> k < q \<longrightarrow> k < length es \<longrightarrow> \<not> G k" using r(4) nG by (metis Suc_leI le_neq_implies_less)
      then show ?thesis using F nv r by (intro exI [of _ d'] exI [of _ q]) auto
    qed
  qed
  consider (deletion) "e_seq (es ! p) \<le> snap" "e_type (es ! p) = kTypeDeletion"
    | (hidden) "e_seq (es ! p) \<le> snap" "e_type (es ! p) = kTypeValue" "skipping" "Compare c (e_key (es ! p)) (di_saved_key d) \<le> 0"
    | (unseen) "\<not> e_seq (es ! p) \<le> snap" | (yield) "G p"
    using Gp by (cases "e_type (es ! p)") blast+
  then show ?case
  proof cases
    case deletion
    show ?thesis
    proof (rule step [of True "?d\<lparr>di_saved_key := e_key (es ! p)\<rparr>"])
      show "next_entry (Some ?ik) skipping ?d = (False, True, ?d\<lparr>di_saved_key := e_key (es ! p)\<rparr>)"
        using deletion cs by (simp add: next_entry_def)
    qed (use P(2) dir deletion Gp next_goal_deletion [OF goal ok p sk deletion] in \<open>simp_all add: stands_def\<close>)
  next
    case hidden
    show ?thesis
    proof (rule step [of skipping ?d])
      show "next_entry (Some ?ik) skipping ?d = (False, skipping, ?d)"
        using hidden cs by (simp add: next_entry_def)
    qed (use P(2) dir hidden Gp next_goal_skip [OF goal ok p sk] in simp_all)
  next
    case unseen
    show ?thesis
    proof (rule step [of skipping ?d])
      show "next_entry (Some ?ik) skipping ?d = (False, skipping, ?d)"
        using unseen cs by (simp add: next_entry_def)
    qed (use P(2) dir unseen Gp next_goal_skip [OF goal ok p sk] in simp_all)
  next
    case yield
    have y: "next_entry (Some ?ik) skipping ?d = (True, skipping, ?d)"
      using yield Gp cs by (simp add: next_entry_def)
    have F: "FindNextUserEntry ops skipping d = Some (?d\<lparr>di_valid := True, di_saved_key := []\<rparr>)"
      by (subst FindNextUserEntry.simps) (simp add: P(1) y)
    have "stands (?d\<lparr>di_valid := True, di_saved_key := []\<rparr>) snap es p" using P(2) by (simp add: stands_def)
    then show ?thesis using F yield p dir
      by (intro exI [of _ "?d\<lparr>di_valid := True, di_saved_key := []\<rparr>"] exI [of _ p]) auto
  qed
qed simp


text \<open>
  \<open>FindPrevUserEntry\<close> finds the last live entry at or before its position: while the loop runs,
  with the positions from \<open>b\<close> up to \<open>u\<close> already seen, the saved entry is the only one of them
  that can be live.
\<close>

definition candidate :: "SequenceNumber \<Rightarrow> entry list \<Rightarrow> nat \<Rightarrow> nat \<Rightarrow> nat \<Rightarrow> 'i DBIter \<Rightarrow> bool" where
  "candidate snap es b u m d \<longleftrightarrow> b \<le> m \<and> m \<le> u \<and> e_seq (es ! m) \<le> snap \<and> e_type (es ! m) = kTypeValue \<and>
     di_saved_key d = e_key (es ! m) \<and> di_saved_value d = e_value (es ! m) \<and>
     (\<forall>i. b \<le> i \<longrightarrow> i < m \<longrightarrow> snap < e_seq (es ! i)) \<and> (\<forall>k. b \<le> k \<longrightarrow> k \<le> u \<longrightarrow> live c snap es k \<longrightarrow> k = m)"

definition prev_ok :: "SequenceNumber \<Rightarrow> entry list \<Rightarrow> nat \<Rightarrow> nat \<Rightarrow> ValueType \<Rightarrow> 'i DBIter \<Rightarrow> bool" where
  "prev_ok snap es b u value_type d \<longleftrightarrow>
     (case value_type of
        kTypeDeletion \<Rightarrow> \<forall>k. b \<le> k \<longrightarrow> k \<le> u \<longrightarrow> \<not> live c snap es k
      | kTypeValue \<Rightarrow> \<exists>m. candidate snap es b u m d)"

definition prev_found :: "SequenceNumber \<Rightarrow> entry list \<Rightarrow> nat \<Rightarrow> nat \<Rightarrow> ValueType \<Rightarrow> 'i DBIter \<Rightarrow> bool" where
  "prev_found snap es q u value_type d \<longleftrightarrow>
     (case value_type of
        kTypeDeletion \<Rightarrow> \<forall>k \<le> u. \<not> live c snap es k
      | kTypeValue \<Rightarrow> \<exists>m. live c snap es m \<and> candidate snap es (lowest es q) u m d)"

lemma prev_ok_cong:
  "prev_ok snap es b u t d \<Longrightarrow> di_saved_key d' = di_saved_key d \<Longrightarrow> di_saved_value d' = di_saved_value d \<Longrightarrow> prev_ok snap es b u t d'"
  by (cases t) (simp_all add: prev_ok_def candidate_def)

lemma prev_found_cong:
  "prev_found snap es b u t d \<Longrightarrow> di_saved_key d' = di_saved_key d \<Longrightarrow> di_saved_value d' = di_saved_value d \<Longrightarrow> prev_found snap es b u t d'"
  by (cases t) (simp_all add: prev_found_def candidate_def)

lemma prev_ok_unseen:
  assumes "prev_ok snap es (Suc p) u t d" "\<not> e_seq (es ! p) \<le> snap"
  shows "prev_ok snap es p u t d"
proof (cases t)
  case kTypeDeletion
  have "\<not> live c snap es k" if "p \<le> k" "k \<le> u" for k
  proof (cases "k = p")
    case True
    then show ?thesis using assms(2) by (simp add: live_def)
  next
    case False
    then show ?thesis using assms(1) kTypeDeletion that by (simp add: prev_ok_def)
  qed
  then show ?thesis using kTypeDeletion by (simp add: prev_ok_def)
next
  case kTypeValue
  then obtain m where m: "candidate snap es (Suc p) u m d" using assms(1) by (auto simp: prev_ok_def)
  have "snap < e_seq (es ! i)" if "p \<le> i" "i < m" for i
    using that m assms(2) by (cases "i = p") (simp_all add: candidate_def)
  moreover have "k = m" if "p \<le> k" "k \<le> u" "live c snap es k" for k
    using that m assms(2) by (cases "k = p") (simp_all add: candidate_def live_def)
  ultimately have "candidate snap es p u m d" using m by (simp add: candidate_def)
  then show ?thesis using kTypeValue by (auto simp: prev_ok_def)
qed

text \<open>A visible entry that does not break the loop hides the entry saved so far.\<close>

lemma prev_ok_hides:
  assumes pk: "prev_ok snap es (Suc p) u t d" and ok: "entries_ok c valid es" "u < length es"
    and e: "e_seq (es ! p) \<le> snap" and nb: "\<not> (t \<noteq> kTypeDeletion \<and> Compare c (e_key (es ! p)) (di_saved_key d) < 0)"
    and k: "p < k" "k \<le> u"
  shows "\<not> live c snap es k"
proof (cases t)
  case kTypeDeletion
  then show ?thesis using pk k by (simp add: prev_ok_def)
next
  case kTypeValue
  then obtain m where m: "candidate snap es (Suc p) u m d" using pk by (auto simp: prev_ok_def)
  then have mp: "p < m" "m \<le> u" "di_saved_key d = e_key (es ! m)" by (simp_all add: candidate_def)
  have "Compare c (e_key (es ! p)) (e_key (es ! m)) \<le> 0" using key_mono [OF ok(1), of p m] mp ok(2) by simp
  then have "visible c (e_key (es ! m)) snap (es ! p)" using nb kTypeValue mp(3) e by (simp add: visible_iff)
  then have "\<not> live c snap es m" using mp(1) by (auto simp: live_def)
  moreover have "k = m" if "live c snap es k" using that m k unfolding candidate_def by simp
  ultimately show ?thesis by blast
qed

lemma prev_ok_done:
  assumes pk: "prev_ok snap es b u t d" and ok: "entries_ok c valid es" "u < length es" "q \<le> length es"
    and q: "lowest es q = b" and stop: "q < length es \<longrightarrow> t = kTypeValue \<and> Compare c (e_key (es ! q)) (di_saved_key d) < 0"
  shows "prev_found snap es q u t d"
proof (cases t)
  case kTypeDeletion
  then have "b = 0" using stop q ok(3) by (auto simp: lowest_def)
  then show ?thesis using pk kTypeDeletion by (simp add: prev_ok_def prev_found_def)
next
  case kTypeValue
  then obtain m where m: "candidate snap es b u m d" using pk by (auto simp: prev_ok_def)
  then have mp: "b \<le> m" "m \<le> u" "e_seq (es ! m) \<le> snap" "e_type (es ! m) = kTypeValue" "di_saved_key d = e_key (es ! m)"
    by (simp_all add: candidate_def)
  have mn: "m < length es" using mp(2) ok(2) by simp
  have "\<not> visible c (e_key (es ! m)) snap (es ! j)" if "j < m" for j
  proof (cases "b \<le> j")
    case True
    then have "snap < e_seq (es ! j)" using m that by (simp add: candidate_def)
    then show ?thesis by (simp add: visible_iff not_le)
  next
    case False
    then have qn: "q < length es" "b = Suc q" using q ok(3) by (auto simp: lowest_def split: if_splits)
    have le: "Compare c (e_key (es ! j)) (e_key (es ! q)) \<le> 0" using key_mono [OF ok(1) _ qn(1), of j] False qn(2) by simp
    have lt: "Compare c (e_key (es ! q)) (e_key (es ! m)) < 0" using stop qn(1) mp(5) by simp
    have "j < length es" using that mn by simp
    then have "Compare c (e_key (es ! j)) (e_key (es ! m)) < 0"
      using le_lt_trans [OF entry_valid(1) [OF ok(1)] entry_valid(1) [OF ok(1) qn(1)] entry_valid(1) [OF ok(1) mn] le lt] by simp
    then show ?thesis by (simp add: visible_iff)
  qed
  then have "live c snap es m" using mp(3,4) mn by (simp add: live_def)
  then show ?thesis using kTypeValue m q by (auto simp: prev_found_def)
qed

lemma FindPrev_loop_finds:
  assumes "stands d snap es p" "p < length es" "entries_ok c valid es" "p \<le> u" "u < length es"
    and "prev_ok snap es (Suc p) u t d"
  shows "\<exists>t' d' q. FindPrev_loop ops t d = Some (t', d') \<and> stands d' snap es q \<and> di_direction d' = di_direction d \<and>
    prev_found snap es q u t' d'"
  using assms
proof (induction p arbitrary: d t rule: less_induct)
  case (less p)
  note st = less.prems(1) and p = less.prems(2) and ok = less.prems(3) and pu = less.prems(4) and un = less.prems(5)
    and pk = less.prems(6)
  obtain rnd bytes samples where P:
    "ParseKey ops d = Some (Some \<lparr>user_key = e_key (es ! p), sequence = e_seq (es ! p), ptype = e_type (es ! p)\<rparr>,
      d\<lparr>di_rnd := rnd, di_bytes_until := bytes, di_samples := samples\<rparr>)"
    "stands (d\<lparr>di_rnd := rnd, di_bytes_until := bytes, di_samples := samples\<rparr>) snap es p"
    using ParseKey_at [OF st p ok] by blast
  let ?d = "d\<lparr>di_rnd := rnd, di_bytes_until := bytes, di_samples := samples\<rparr>"
  let ?ik = "\<lparr>user_key = e_key (es ! p), sequence = e_seq (es ! p), ptype = e_type (es ! p)\<rparr>"
  have cs: "di_user_comparator ?d = c" "di_sequence ?d = snap" using P(2) by (simp_all add: stands_def)
  note key = stands_key [OF P(2) p]
  have step: ?case if pe: "prev_entry ops (Some ?ik) t ?d = Some (Some (t1, d1))"
    and d1: "stands d1 snap es p" "di_direction d1 = di_direction d" and k1: "prev_ok snap es p u t1 d1" for t1 d1
  proof -
    obtain it where it: "it_Prev ops (di_iter d1) = Some it"
      "stands (d1\<lparr>di_iter := it\<rparr>) snap es (if p = 0 then length es else p - 1)"
      using stands_Prev [OF d1(1) p] by blast
    have F: "FindPrev_loop ops t d =
      (if it_Valid ops it then FindPrev_loop ops t1 (d1\<lparr>di_iter := it\<rparr>) else Some (t1, d1\<lparr>di_iter := it\<rparr>))"
      by (subst FindPrev_loop.simps) (simp add: P(1) pe it(1))
    have k1': "prev_ok snap es p u t1 (d1\<lparr>di_iter := it\<rparr>)" using k1 by (rule prev_ok_cong) simp_all
    show ?thesis
    proof (cases "p = 0")
      case True
      have nv: "\<not> it_Valid ops it" using stands_Valid [OF it(2)] True by simp
      have "prev_found snap es (length es) u t1 (d1\<lparr>di_iter := it\<rparr>)"
        by (rule prev_ok_done [OF k1' ok un]) (simp_all add: lowest_def True)
      then show ?thesis using F nv it(2) d1(2) True
        by (intro exI [of _ t1] exI [of _ "d1\<lparr>di_iter := it\<rparr>"] exI [of _ "length es"]) simp
    next
      case False
      have v: "it_Valid ops it" using stands_Valid [OF it(2)] False p by simp
      have it2: "stands (d1\<lparr>di_iter := it\<rparr>) snap es (p - 1)" using it(2) False by simp
      have "\<exists>t' d' q. FindPrev_loop ops t1 (d1\<lparr>di_iter := it\<rparr>) = Some (t', d') \<and> stands d' snap es q \<and>
          di_direction d' = di_direction (d1\<lparr>di_iter := it\<rparr>) \<and> prev_found snap es q u t' d'"
        by (rule less.IH [OF _ it2]) (use False p pu un ok k1' in simp_all)
      then show ?thesis using F v d1(2) by simp
    qed
  qed
  let ?break = "t \<noteq> kTypeDeletion \<and> Compare c (e_key (es ! p)) (di_saved_key d) < 0"
  consider (unseen) "\<not> e_seq (es ! p) \<le> snap" | (stop) "e_seq (es ! p) \<le> snap" ?break
    | (deletion) "e_seq (es ! p) \<le> snap" "\<not> ?break" "e_type (es ! p) = kTypeDeletion"
    | (found) "e_seq (es ! p) \<le> snap" "\<not> ?break" "e_type (es ! p) = kTypeValue"
    by (cases "e_type (es ! p)") blast+
  then show ?case
  proof cases
    case unseen
    show ?thesis
    proof (rule step [of t ?d])
      show "prev_entry ops (Some ?ik) t ?d = Some (Some (t, ?d))" using unseen cs by (simp add: prev_entry_def)
      show "prev_ok snap es p u t ?d" by (rule prev_ok_cong [OF prev_ok_unseen [OF pk unseen]]) simp_all
    qed (use P(2) in simp_all)
  next
    case stop
    have pe: "prev_entry ops (Some ?ik) t ?d = Some None" using stop cs by (simp add: prev_entry_def)
    have F: "FindPrev_loop ops t d = Some (t, ?d)" by (subst FindPrev_loop.simps) (simp add: P(1) pe)
    have t: "t = kTypeValue" using stop by (cases t) simp_all
    have "prev_found snap es p u t d"
      by (rule prev_ok_done [OF pk ok un]) (use p stop t in \<open>simp_all add: lowest_def\<close>)
    then have "prev_found snap es p u t ?d" by (rule prev_found_cong) simp_all
    then show ?thesis using F P(2) by (intro exI [of _ t] exI [of _ ?d] exI [of _ p]) simp
  next
    case deletion
    note hides = prev_ok_hides [OF pk ok un deletion(1,2)]
    have nl: "\<not> live c snap es p" using deletion(3) by (simp add: live_def)
    show ?thesis
    proof (rule step [of kTypeDeletion "?d\<lparr>di_saved_key := [], di_saved_value := []\<rparr>"])
      show "prev_entry ops (Some ?ik) t ?d = Some (Some (kTypeDeletion, ?d\<lparr>di_saved_key := [], di_saved_value := []\<rparr>))"
        using deletion cs by (simp add: prev_entry_def)
      show "prev_ok snap es p u kTypeDeletion (?d\<lparr>di_saved_key := [], di_saved_value := []\<rparr>)"
        using hides nl by (simp add: prev_ok_def le_eq_less_or_eq) blast
    qed (use P(2) in \<open>simp_all add: stands_def\<close>)
  next
    case found
    note hides = prev_ok_hides [OF pk ok un found(1,2)]
    let ?d1 = "?d\<lparr>di_saved_key := e_key (es ! p), di_saved_value := e_value (es ! p)\<rparr>"
    have "candidate snap es p u p ?d1"
      using found pu hides by (auto simp: candidate_def le_eq_less_or_eq)
    then have po: "prev_ok snap es p u kTypeValue ?d1" by (auto simp: prev_ok_def)
    have "it_key ops (di_iter ?d) = InternalKey_new (e_key (es ! p)) (e_seq (es ! p)) (e_type (es ! p))"
      "it_value ops (di_iter ?d) = Some (e_value (es ! p))" using key by simp_all
    then have pe: "prev_entry ops (Some ?ik) t ?d = Some (Some (kTypeValue, ?d1))"
      using found cs by (simp add: prev_entry_def)
    show ?thesis by (rule step [OF pe _ _ po]) (use P(2) in \<open>simp_all add: stands_def\<close>)
  qed
qed

lemma shows_candidate:
  "candidate snap es (lowest es q) u m d \<Longrightarrow> di_direction d = kDBReverse \<Longrightarrow> shows_live d snap es q m"
  by (simp add: candidate_def shows_live_def)

text \<open>The whole of \<open>FindPrevUserEntry\<close>, from any position of the internal iterator.\<close>

lemma FindPrev_finds:
  assumes "stands d snap es p" "entries_ok c valid es" "di_direction d = kDBReverse"
  shows "\<exists>d' q. FindPrevUserEntry ops d = Some d' \<and> stands d' snap es q \<and>
    (if di_valid d' then \<exists>m < lowest es p. live c snap es m \<and> (\<forall>k. m < k \<longrightarrow> k < lowest es p \<longrightarrow> \<not> live c snap es k) \<and>
       shows_live d' snap es q m
     else \<forall>k < lowest es p. \<not> live c snap es k)"
proof (cases "p < length es")
  case False
  then have p: "p = length es" using stands_le [OF assms(1)] by simp
  let ?d = "d\<lparr>di_valid := False, di_saved_key := [], di_saved_value := [], di_direction := kDBForward\<rparr>"
  have "FindPrevUserEntry ops d = Some ?d"
    using stands_Valid [OF assms(1)] p by (simp add: FindPrevUserEntry_def)
  moreover have "stands ?d snap es p" using assms(1) by (simp add: stands_def)
  ultimately show ?thesis using p by (intro exI [of _ ?d] exI [of _ p]) (simp add: lowest_def)
next
  case True
  have "prev_ok snap es (Suc p) p kTypeDeletion d" by (simp add: prev_ok_def)
  from FindPrev_loop_finds [OF assms(1) True assms(2) order.refl True this] obtain t' d' q where
    F: "FindPrev_loop ops kTypeDeletion d = Some (t', d')" "stands d' snap es q" "di_direction d' = di_direction d"
      "prev_found snap es q p t' d'" by blast
  have v: "it_Valid ops (di_iter d)" using stands_Valid [OF assms(1)] True by simp
  have low: "lowest es p = Suc p" using True by (simp add: lowest_def)
  show ?thesis
  proof (cases t')
    case kTypeDeletion
    let ?d = "d'\<lparr>di_valid := False, di_saved_key := [], di_saved_value := [], di_direction := kDBForward\<rparr>"
    have "FindPrevUserEntry ops d = Some ?d" using F(1) v kTypeDeletion by (simp add: FindPrevUserEntry_def)
    moreover have "stands ?d snap es q" using F(2) by (simp add: stands_def)
    moreover have "\<forall>k < lowest es p. \<not> live c snap es k" using F(4) kTypeDeletion low by (simp add: prev_found_def)
    ultimately show ?thesis by (intro exI [of _ ?d] exI [of _ q]) simp
  next
    case kTypeValue
    let ?d = "d'\<lparr>di_valid := True\<rparr>"
    have R: "FindPrevUserEntry ops d = Some ?d" using F(1) v kTypeValue by (simp add: FindPrevUserEntry_def)
    have S: "stands ?d snap es q" using F(2) by (simp add: stands_def)
    have "prev_found snap es q p t' ?d" using F(4) by (rule prev_found_cong) simp_all
    then obtain m where m: "live c snap es m" "candidate snap es (lowest es q) p m ?d"
      using kTypeValue by (auto simp: prev_found_def)
    have sh: "shows_live ?d snap es q m" by (rule shows_candidate [OF m(2)]) (use F(3) assms(3) in simp)
    have mp: "lowest es q \<le> m" "m \<le> p" using m(2) by (simp_all add: candidate_def)
    have "\<not> live c snap es k" if "m < k" "k < lowest es p" for k
    proof
      assume "live c snap es k"
      moreover have "lowest es q \<le> k" "k \<le> p" using that mp low by simp_all
      ultimately have "k = m" using m(2) unfolding candidate_def by simp
      with that show False by simp
    qed
    then show ?thesis using R S sh m(1) mp low
      by (intro exI [of _ ?d] exI [of _ q]) (auto simp: less_Suc_eq_le intro!: exI [of _ m])
  qed
qed


text \<open>From the internal position to the position in the view.\<close>

lemma length_user_view: "length (user_view c snap es) = length (live_positions c snap es)"
  by (simp add: user_view_def)

lemma dbi_live:
  assumes "stands d snap es p" "entries_ok c valid es" "snap \<le> kMaxSequenceNumber" "di_valid d"
    and "live c snap es m" "shows_live d snap es p m"
  shows "dbi_at d (user_view c snap es) (live_before c snap es m)"
proof -
  have "di_sequence d = snap" using assms(1) by (simp add: stands_def)
  then show ?thesis unfolding dbi_at_def
    using assms live_before_nth [OF assms(5)]
    by (intro exI [of _ es] exI [of _ p]) (simp add: length_user_view)
qed

lemma dbi_end:
  assumes "stands d snap es p" "entries_ok c valid es" "snap \<le> kMaxSequenceNumber" "\<not> di_valid d"
  shows "dbi_at d (user_view c snap es) (length (user_view c snap es))"
proof -
  have "di_sequence d = snap" using assms(1) by (simp add: stands_def)
  then show ?thesis unfolding dbi_at_def using assms by (intro exI [of _ es] exI [of _ p]) simp
qed

lemma FindNext_result:
  assumes st: "stands d snap es p" "p < length es" and ok: "entries_ok c valid es" "snap \<le> kMaxSequenceNumber"
    and dir: "di_direction d = kDBForward"
    and goal: "next_goal snap es p skipping (di_saved_key d) (\<lambda>k. live c snap es k \<and> b \<le> k)"
      "skip_ok snap es p skipping (di_saved_key d)" and b: "p \<le> b" "b \<le> length es"
  shows "\<exists>d'. FindNextUserEntry ops skipping d = Some d' \<and> dbi_at d' (user_view c snap es) (live_before c snap es b)"
proof -
  obtain d' q where r: "FindNextUserEntry ops skipping d = Some d'" "stands d' snap es q" "di_direction d' = kDBForward"
    "\<forall>k. p \<le> k \<longrightarrow> k < q \<longrightarrow> k < length es \<longrightarrow> \<not> (live c snap es k \<and> b \<le> k)" "p \<le> q"
    "di_valid d' \<longleftrightarrow> q < length es" "q < length es \<longrightarrow> live c snap es q \<and> b \<le> q"
    using FindNext_finds [OF st ok(1) dir goal] by blast
  have qn: "q \<le> length es" by (rule stands_le [OF r(2)])
  show ?thesis
  proof (cases "q < length es")
    case True
    then have q: "live c snap es q" "b \<le> q" "di_valid d'" using r(6,7) by simp_all
    have none: "\<not> live c snap es k" if "b \<le> k" "k < q" for k
      using r(4) [rule_format, of k] order.trans [OF b(1) that(1)] that True by simp
    have "live_before c snap es q = live_before c snap es b" by (rule live_before_none [OF q(2) none])
    moreover have "dbi_at d' (user_view c snap es) (live_before c snap es q)"
      by (rule dbi_live [OF r(2) ok q(3,1)]) (simp add: shows_live_def r(3))
    ultimately show ?thesis using r(1) by auto
  next
    case False
    then have qe: "q = length es" using qn by simp
    have none: "\<not> live c snap es k" if "b \<le> k" "k < length es" for k
      using r(4) [rule_format, of k] order.trans [OF b(1) that(1)] that qe by simp
    have "live_before c snap es (length es) = live_before c snap es b" by (rule live_before_none [OF b(2) none])
    then have "live_before c snap es b = length (user_view c snap es)" by (simp add: live_before_all length_user_view)
    moreover have "dbi_at d' (user_view c snap es) (length (user_view c snap es))"
      by (rule dbi_end [OF r(2) ok]) (use r(6) False in simp)
    ultimately show ?thesis using r(1) by auto
  qed
qed

lemma next_goal_after:
  assumes ok: "entries_ok c valid es" and m: "live c snap es m" "p \<le> m"
    and unseen: "\<And>i. p \<le> i \<Longrightarrow> i < m \<Longrightarrow> snap < e_seq (es ! i)"
  shows "next_goal snap es p True (e_key (es ! m)) (\<lambda>k. live c snap es k \<and> Suc m \<le> k)"
    "skip_ok snap es p True (e_key (es ! m))"
proof -
  have mn: "m < length es" "e_seq (es ! m) \<le> snap" using m(1) by (simp_all add: live_def)
  note vm = entry_valid(1) [OF ok mn(1)]
  have before: "\<not> e_seq (es ! i) \<le> snap" if "p \<le> i" "i < m" for i using unseen [OF that] by simp
  have upto: "Compare c (e_key (es ! m)) (e_key (es ! k)) \<le> 0" if "p \<le> k" "k < length es" "e_seq (es ! k) \<le> snap" for k
    using before [OF that(1)] that(3) key_mono [OF ok _ that(2), of m] not_le by blast
  then show "skip_ok snap es p True (e_key (es ! m))" using vm by (simp add: skip_ok_def)
  show "next_goal snap es p True (e_key (es ! m)) (\<lambda>k. live c snap es k \<and> Suc m \<le> k)"
    unfolding next_goal_def
  proof (intro allI impI)
    fix k assume k: "p \<le> k" "k < length es"
    note vk = entry_valid(1) [OF ok k(2)]
    let ?above = "\<not> Compare c (e_key (es ! k)) (e_key (es ! m)) \<le> 0"
    have above: "Suc m \<le> k \<and> ?above" if "live c snap es k" "Suc m \<le> k"
    proof -
      have "\<not> visible c (e_key (es ! k)) snap (es ! m)" using that by (simp add: live_def Suc_le_eq)
      then have "Compare c (e_key (es ! m)) (e_key (es ! k)) \<noteq> 0" using mn(2) by (simp add: visible_iff)
      moreover have "Compare c (e_key (es ! m)) (e_key (es ! k)) \<le> 0" using key_mono [OF ok _ k(2), of m] that by simp
      ultimately show ?thesis using that ge_iff_le [OF vk vm] not_le_iff_lt [OF vm vk] by simp
    qed
    have after: "Suc m \<le> k" if "?above"
    proof (rule ccontr)
      assume "\<not> Suc m \<le> k"
      then have "Compare c (e_key (es ! k)) (e_key (es ! m)) \<le> 0" using key_mono [OF ok _ mn(1), of k] by simp
      with that show False by simp
    qed
    have early: "\<not> visible c (e_key (es ! k)) snap (es ! j)" if "?above" "j < p" for j
    proof
      assume "visible c (e_key (es ! k)) snap (es ! j)"
      then have "Compare c (e_key (es ! j)) (e_key (es ! k)) = 0" by (simp add: visible_iff)
      moreover have jn: "j < length es" using that(2) k by simp
      ultimately have "Compare c (e_key (es ! k)) (e_key (es ! j)) \<le> 0"
        using eq_sym [OF entry_valid(1) [OF ok jn] vk] by simp
      moreover have "Compare c (e_key (es ! j)) (e_key (es ! m)) \<le> 0" using key_mono [OF ok _ mn(1), of j] that(2) m(2) by simp
      ultimately have "Compare c (e_key (es ! k)) (e_key (es ! m)) \<le> 0"
        using le_trans [OF vk entry_valid(1) [OF ok jn] vm] by blast
      with that(1) show False by simp
    qed
    have all: "(\<forall>j < k. \<not> visible c (e_key (es ! k)) snap (es ! j)) \<longleftrightarrow>
      (\<forall>j. p \<le> j \<longrightarrow> j < k \<longrightarrow> \<not> visible c (e_key (es ! k)) snap (es ! j))" if "?above"
    proof (intro iffI allI impI)
      fix j assume "\<forall>j. p \<le> j \<longrightarrow> j < k \<longrightarrow> \<not> visible c (e_key (es ! k)) snap (es ! j)" "j < k"
      then show "\<not> visible c (e_key (es ! k)) snap (es ! j)" using early [OF that, of j] by (cases "j < p") simp_all
    qed simp
    show "(live c snap es k \<and> Suc m \<le> k) \<longleftrightarrow> e_seq (es ! k) \<le> snap \<and> e_type (es ! k) = kTypeValue \<and>
      \<not> (True \<and> Compare c (e_key (es ! k)) (e_key (es ! m)) \<le> 0) \<and>
      (\<forall>j. p \<le> j \<longrightarrow> j < k \<longrightarrow> \<not> visible c (e_key (es ! k)) snap (es ! j))"
      (is "?L \<longleftrightarrow> ?R")
    proof
      assume L: ?L
      then have a: ?above using above by blast
      show ?R using L a all [OF a] by (simp add: live_def)
    next
      assume R: ?R
      then have a: ?above by simp
      show ?L using R a all [OF a] after [OF a] k(2) by (simp add: live_def)
    qed
  qed
qed

lemma next_goal_seek:
  assumes "\<And>i k. i < p \<Longrightarrow> p \<le> k \<Longrightarrow> k < length es \<Longrightarrow> \<not> visible c (e_key (es ! k)) snap (es ! i)"
  shows "next_goal snap es p False saved (\<lambda>k. live c snap es k \<and> p \<le> k)" "skip_ok snap es p False saved"
  using assms unfolding next_goal_def live_def skip_ok_def by (auto simp: not_le) (metis not_le)

lemma Prev_result:
  assumes st: "stands d snap es p" and ok: "entries_ok c valid es" "snap \<le> kMaxSequenceNumber"
    and dir: "di_direction d = kDBReverse"
    and b: "lowest es p \<le> b" "\<And>k. lowest es p \<le> k \<Longrightarrow> k < b \<Longrightarrow> \<not> live c snap es k"
  shows "\<exists>d'. FindPrevUserEntry ops d = Some d' \<and> dbi_at d' (user_view c snap es)
    (if live_before c snap es b = 0 then length (user_view c snap es) else live_before c snap es b - 1)"
proof -
  obtain d' q where r: "FindPrevUserEntry ops d = Some d'" "stands d' snap es q"
    "if di_valid d' then \<exists>m < lowest es p. live c snap es m \<and> (\<forall>k. m < k \<longrightarrow> k < lowest es p \<longrightarrow> \<not> live c snap es k) \<and>
       shows_live d' snap es q m else \<forall>k < lowest es p. \<not> live c snap es k"
    using FindPrev_finds [OF st ok(1) dir] by blast
  show ?thesis
  proof (cases "di_valid d'")
    case True
    then obtain m where m: "m < lowest es p" "live c snap es m"
      "\<forall>k. m < k \<longrightarrow> k < lowest es p \<longrightarrow> \<not> live c snap es k" "shows_live d' snap es q m"
      using r(3) by auto
    have none: "\<not> live c snap es k" if "Suc m \<le> k" "k < b" for k
      using m(3) b(2) that by (cases "k < lowest es p") simp_all
    have "live_before c snap es b = live_before c snap es (Suc m)"
      by (rule live_before_none) (use m(1) b(1) none in simp_all)
    then have "live_before c snap es b = Suc (live_before c snap es m)" using m(2) by (simp add: live_before_Suc)
    then show ?thesis using dbi_live [OF r(2) ok True m(2,4)] r(1) by simp
  next
    case False
    have none: "\<not> live c snap es k" if "0 \<le> k" "k < b" for k
      using r(3) False b(2) that by (cases "k < lowest es p") simp_all
    have "live_before c snap es b = live_before c snap es 0" by (rule live_before_none) (use none in simp_all)
    then have "live_before c snap es b = 0" by (simp add: live_before_def)
    then show ?thesis using dbi_end [OF r(2) ok False] r(1) by simp
  qed
qed

lemma DBIter_Prev_scan_finds:
  assumes "stands d snap es p" "p < length es"
  shows "\<exists>found d' q. DBIter_Prev_scan ops d = Some (found, d') \<and> stands d' snap es q \<and> di_direction d' = di_direction d \<and>
    (\<forall>i. lowest es q \<le> i \<longrightarrow> i < p \<longrightarrow> \<not> Compare c (e_key (es ! i)) (di_saved_key d) < 0) \<and> lowest es q \<le> p \<and>
    (if found then q < length es else q = length es \<and> \<not> di_valid d')"
  using assms
proof (induction p arbitrary: d rule: less_induct)
  case (less p)
  obtain it where it: "it_Prev ops (di_iter d) = Some it"
    "stands (d\<lparr>di_iter := it\<rparr>) snap es (if p = 0 then length es else p - 1)"
    using stands_Prev [OF less.prems] by blast
  let ?d = "d\<lparr>di_iter := it\<rparr>"
  show ?case
  proof (cases "p = 0")
    case True
    have nv: "\<not> it_Valid ops it" using stands_Valid [OF it(2)] True by simp
    have F: "DBIter_Prev_scan ops d = Some (False, ?d\<lparr>di_valid := False, di_saved_key := [], di_saved_value := []\<rparr>)"
      by (subst DBIter_Prev_scan.simps) (simp add: it(1) nv)
    have "stands (?d\<lparr>di_valid := False, di_saved_key := [], di_saved_value := []\<rparr>) snap es (length es)"
      using it(2) True by (simp add: stands_def)
    then show ?thesis unfolding F by (intro exI) (auto simp: True lowest_def)
  next
    case False
    have st: "stands ?d snap es (p - 1)" "p - 1 < length es" using it(2) False less.prems(2) by simp_all
    have v: "it_Valid ops it" using stands_Valid [OF st(1)] st(2) by simp
    have cmp: "di_user_comparator d = c" using less.prems(1) by (simp add: stands_def)
    have key: "ExtractUserKey (it_key ops it) = e_key (es ! (p - 1))" using stands_key(1) [OF st] by simp
    show ?thesis
    proof (cases "Compare c (e_key (es ! (p - 1))) (di_saved_key d) < 0")
      case True
      have F: "DBIter_Prev_scan ops d = Some (True, ?d)" using True by (subst DBIter_Prev_scan.simps) (simp add: it(1) v cmp key)
      have "lowest es (p - 1) = p" using False st(2) by (simp add: lowest_def)
      then show ?thesis unfolding F using st by (intro exI [of _ True] exI [of _ ?d] exI [of _ "p - 1"]) simp
    next
      case nlt: False
      have F: "DBIter_Prev_scan ops d = DBIter_Prev_scan ops ?d" using nlt by (subst DBIter_Prev_scan.simps) (simp add: it(1) v cmp key)
      have "p - 1 < p" using False by simp
      from less.IH [OF this st] obtain found d' q where r: "DBIter_Prev_scan ops ?d = Some (found, d')" "stands d' snap es q"
        "di_direction d' = di_direction d" "lowest es q \<le> p - 1"
        "\<forall>i. lowest es q \<le> i \<longrightarrow> i < p - 1 \<longrightarrow> \<not> Compare c (e_key (es ! i)) (di_saved_key d) < 0"
        "if found then q < length es else q = length es \<and> \<not> di_valid d'" by auto
      have "\<not> Compare c (e_key (es ! i)) (di_saved_key d) < 0" if "lowest es q \<le> i" "i < p" for i
        using r(5) that nlt False by (cases "i = p - 1") simp_all
      then show ?thesis unfolding F using r
        by (intro exI [of _ found] exI [of _ d'] exI [of _ q]) auto
    qed
  qed
qed


lemma seek_test:
  assumes "entries_ok c valid es" "i < length es" "valid t" "snap \<le> kMaxSequenceNumber"
  shows "icmp (fst (map entry_of es ! i)) (InternalKey_new t snap kValueTypeForSeek) < 0 \<longleftrightarrow>
    Compare c (e_key (es ! i)) t < 0 \<or> Compare c (e_key (es ! i)) t = 0 \<and> snap < e_seq (es ! i)"
  using icmp_new_less_iff [OF entry_valid(2) [OF assms(1,2)] assms(4)] assms(2)
  by (auto simp: entry_of_iff kValueTypeForSeek_def)

lemma view_nth:
  "j < length (user_view c snap es) \<Longrightarrow> fst (user_view c snap es ! j) = e_key (es ! (live_positions c snap es ! j))"
  by (simp add: user_view_def)

lemma live_position_before:
  assumes "p \<le> length es" "j < live_before c snap es p"
  shows "live_positions c snap es ! j < p" "live c snap es (live_positions c snap es ! j)"
proof -
  have "live_positions c snap es ! j = filter (live c snap es) [0..<p] ! j"
    using assms by (simp add: live_positions_split [of p] nth_append live_before_def)
  moreover have "filter (live c snap es) [0..<p] ! j \<in> set (filter (live c snap es) [0..<p])"
    using assms(2) by (intro nth_mem) (simp add: live_before_def)
  ultimately show "live_positions c snap es ! j < p" "live c snap es (live_positions c snap es ! j)" by simp_all
qed

lemma live_position_after:
  assumes "p \<le> length es" "live_before c snap es p < length (live_positions c snap es)"
  shows "p \<le> live_positions c snap es ! live_before c snap es p"
    "live c snap es (live_positions c snap es ! live_before c snap es p)"
proof -
  let ?r = "filter (live c snap es) [p..<length es]"
  have eq: "live_positions c snap es ! live_before c snap es p = ?r ! 0"
    using assms by (simp add: live_positions_split [of p] nth_append live_before_def)
  have "0 < length ?r" using assms by (simp add: live_positions_split [of p] live_before_def)
  then have "?r ! 0 \<in> set ?r" by (rule nth_mem)
  then show "p \<le> live_positions c snap es ! live_before c snap es p"
    "live c snap es (live_positions c snap es ! live_before c snap es p)" unfolding eq by simp_all
qed

text \<open>A target of the view is found where the internal target is.\<close>

lemma first_ge_view:
  assumes ok: "entries_ok c valid es" "snap \<le> kMaxSequenceNumber" and t: "valid t"
  defines "p \<equiv> first_ge (InternalKeyComparator c) (map entry_of es) (InternalKey_new t snap kValueTypeForSeek)"
  shows "first_ge c (user_view c snap es) t = live_before c snap es p"
    "\<And>i k. i < p \<Longrightarrow> p \<le> k \<Longrightarrow> k < length es \<Longrightarrow> \<not> visible c (e_key (es ! k)) snap (es ! i)"
proof -
  let ?P = "\<lambda>e. icmp (fst e) (InternalKey_new t snap kValueTypeForSeek) < 0"
  have pn: "p \<le> length es" using first_ge_le [of "InternalKeyComparator c" "map entry_of es"] by (simp add: p_def)
  have lt: "?P (map entry_of es ! i)" if "i < p" for i
    using that nth_length_takeWhile nth_mem set_takeWhileD takeWhile_nth unfolding p_def first_ge_def
    by (metis (no_types, lifting))
  have below: "Compare c (e_key (es ! i)) t < 0 \<or> Compare c (e_key (es ! i)) t = 0 \<and> snap < e_seq (es ! i)" if "i < p" for i
    using lt [OF that] seek_test [OF ok(1) _ t ok(2)] that pn by simp
  have above: "\<not> Compare c (e_key (es ! k)) t < 0" if k: "p \<le> k" "k < length es" for k
  proof
    assume k0: "Compare c (e_key (es ! k)) t < 0"
    have "p < length es" using k by simp
    then have "\<not> ?P (map entry_of es ! p)"
      using nth_length_takeWhile [of ?P "map entry_of es"] by (simp add: p_def first_ge_def)
    then have "\<not> Compare c (e_key (es ! p)) t < 0" using seek_test [OF ok(1) \<open>p < length es\<close> t ok(2)] by simp
    moreover have "Compare c (e_key (es ! p)) t < 0"
      using le_lt_trans [OF entry_valid(1) [OF ok(1) \<open>p < length es\<close>] entry_valid(1) [OF ok(1) k(2)] t key_mono [OF ok(1) k] k0] .
    ultimately show False by simp
  qed
  show "\<not> visible c (e_key (es ! k)) snap (es ! i)" if i: "i < p" and k: "p \<le> k" "k < length es" for i k
  proof
    assume v: "visible c (e_key (es ! k)) snap (es ! i)"
    have ik: "i < length es" using i pn by simp
    have "Compare c (e_key (es ! i)) t < 0" using below [OF i] v by (auto simp: visible_iff)
    then have "Compare c (e_key (es ! k)) t < 0"
      using eq_lt_cong [OF entry_valid(1) [OF ok(1) ik] entry_valid(1) [OF ok(1) k(2)] t] v by (simp add: visible_iff)
    with above [OF k] show False by simp
  qed
  show "first_ge c (user_view c snap es) t = live_before c snap es p"
  proof (rule first_ge_eqI)
    show "live_before c snap es p \<le> length (user_view c snap es)" using live_before_le [OF pn] by (simp add: length_user_view)
    show "Compare c (fst (user_view c snap es ! j)) t < 0" if j: "j < live_before c snap es p" for j
    proof -
      let ?m = "live_positions c snap es ! j"
      have m: "?m < p" "live c snap es ?m" using live_position_before [OF pn j] by blast+
      have "Compare c (e_key (es ! ?m)) t < 0" using below [OF m(1)] m(2) by (auto simp: live_def)
      then show ?thesis using j live_before_le [OF pn, of c snap] view_nth [of j snap es] by (simp add: length_user_view)
    qed
    show "\<not> Compare c (fst (user_view c snap es ! live_before c snap es p)) t < 0"
      if j: "live_before c snap es p < length (user_view c snap es)"
    proof -
      have j': "live_before c snap es p < length (live_positions c snap es)" using j by (simp add: length_user_view)
      have m: "p \<le> live_positions c snap es ! live_before c snap es p"
        "live_positions c snap es ! live_before c snap es p < length es"
        using live_position_after [OF pn j'] by (simp_all add: live_def)
      show ?thesis using above [OF m] view_nth [OF j] by simp
    qed
  qed
qed

lemma user_view_sorted:
  assumes "entries_ok c valid es"
  shows "sorted_entries c valid (user_view c snap es)"
proof -
  let ?l = "live_positions c snap es"
  have in_live: "live c snap es i" if "i \<in> set ?l" for i using that by (simp add: set_live_positions)
  have "sorted_wrt (\<lambda>i j. Compare c (e_key (es ! i)) (e_key (es ! j)) < 0) ?l"
  proof (rule sorted_wrt_mono_rel [OF _ sorted_live_positions])
    fix i j assume ij: "i \<in> set ?l" "j \<in> set ?l" "i < j"
    have li: "e_seq (es ! i) \<le> snap" and lj: "\<not> visible c (e_key (es ! j)) snap (es ! i)" "j < length es"
      using in_live [OF ij(1)] in_live [OF ij(2)] ij(3) by (auto simp: live_def)
    then show "Compare c (e_key (es ! i)) (e_key (es ! j)) < 0"
      using entries_order [OF assms ij(3) lj(2)] by (simp add: visible_iff)
  qed
  moreover have "valid (e_key (es ! i))" if "i \<in> set ?l" for i
    using in_live [OF that] entry_valid(1) [OF assms] by (simp add: live_def)
  ultimately show ?thesis by (auto simp: sorted_entries_def user_view_def sorted_wrt_map)
qed


text \<open>The state behind a valid or exhausted position of the view.\<close>

lemma dbi_atD:
  assumes "dbi_at d view j"
  shows "\<exists>es p. stands d (di_sequence d) es p \<and> entries_ok c valid es \<and> di_sequence d \<le> kMaxSequenceNumber \<and>
    view = user_view c (di_sequence d) es \<and> j \<le> length view \<and> (di_valid d \<longleftrightarrow> j < length view) \<and>
    (j < length view \<longrightarrow> live c (di_sequence d) es (live_positions c (di_sequence d) es ! j) \<and>
       shows_live d (di_sequence d) es p (live_positions c (di_sequence d) es ! j) \<and>
       live_before c (di_sequence d) es (live_positions c (di_sequence d) es ! j) = j)"
proof -
  obtain es p where e: "stands d (di_sequence d) es p" "entries_ok c valid es" "di_sequence d \<le> kMaxSequenceNumber"
    "view = user_view c (di_sequence d) es" "j \<le> length view" "di_valid d \<longleftrightarrow> j < length view"
    "j < length view \<longrightarrow> shows_live d (di_sequence d) es p (live_positions c (di_sequence d) es ! j)"
    using assms unfolding dbi_at_def by blast
  let ?lp = "live_positions c (di_sequence d) es"
  have "live c (di_sequence d) es (?lp ! j) \<and> live_before c (di_sequence d) es (?lp ! j) = j" if "j < length view"
  proof -
    have j: "j < length ?lp" using that e(4) by (simp add: length_user_view)
    then have l: "live c (di_sequence d) es (?lp ! j)" using nth_mem [OF j] by (simp add: set_live_positions)
    note n = live_before_nth [OF l]
    have "distinct ?lp" by (simp add: live_positions_def)
    then have "live_before c (di_sequence d) es (?lp ! j) = j" using n j nth_eq_iff_index_eq by metis
    then show ?thesis using l by simp
  qed
  then show ?thesis using e by (intro exI [of _ es] exI [of _ p]) simp
qed

lemma stands_cong:
  "stands d snap es p \<Longrightarrow> di_user_comparator d' = di_user_comparator d \<Longrightarrow> di_sequence d' = di_sequence d \<Longrightarrow>
   di_status d' = di_status d \<Longrightarrow> di_rnd d' = di_rnd d \<Longrightarrow> di_iter d' = di_iter d \<Longrightarrow> stands d' snap es p"
  by (simp add: stands_def)

text \<open>The three seeks leave the internal iterator at a position that splits the groups properly.\<close>

lemma seek_result:
  assumes st: "stands d snap es p" and ok: "entries_ok c valid es" "snap \<le> kMaxSequenceNumber"
    and dir: "di_direction d = kDBForward"
    and sp: "\<And>i k. i < p \<Longrightarrow> p \<le> k \<Longrightarrow> k < length es \<Longrightarrow> \<not> visible c (e_key (es ! k)) snap (es ! i)"
  shows "\<exists>d'. (if it_Valid ops (di_iter d) then FindNextUserEntry ops False d else Some (d\<lparr>di_valid := False\<rparr>)) = Some d' \<and>
    dbi_at d' (user_view c snap es) (live_before c snap es p)"
proof (cases "p < length es")
  case True
  have ng: "next_goal snap es p False (di_saved_key d) (\<lambda>k. live c snap es k \<and> p \<le> k)"
    "skip_ok snap es p False (di_saved_key d)" by (rule next_goal_seek [OF sp]; assumption)+
  show ?thesis
    using FindNext_result [OF st True ok dir ng] stands_le [OF st] stands_Valid [OF st] True by simp
next
  case False
  then have p: "p = length es" using stands_le [OF st] by simp
  have "stands (d\<lparr>di_valid := False\<rparr>) snap es p" using st by (rule stands_cong) simp_all
  from dbi_end [OF this ok] show ?thesis
    using stands_Valid [OF st] p by (simp add: live_before_all length_user_view)
qed

lemma DBIter_Seek_at:
  assumes "dbi_at d view j" "valid t"
  shows "\<exists>d'. DBIter_Seek ops t d = Some d' \<and> dbi_at d' view (first_ge c view t)"
proof -
  let ?s = "di_sequence d"
  obtain es p where e: "stands d ?s es p" "entries_ok c valid es" "?s \<le> kMaxSequenceNumber" "view = user_view c ?s es"
    using dbi_atD [OF assms(1)] by blast
  let ?k = "InternalKey_new t ?s kValueTypeForSeek"
  have vk: "valid_ikey valid ?k" using assms(2) by (simp add: valid_ikey_def InternalKey_new_eq)
  obtain it where it: "it_Seek ops ?k (di_iter d) = Some it"
    "stat it (map entry_of es) (first_ge (InternalKeyComparator c) (map entry_of es) ?k)"
    using iit.at_Seek [OF _ vk] e(1) unfolding stands_def by blast
  let ?d = "d\<lparr>di_direction := kDBForward, di_saved_value := [], di_saved_key := ?k, di_iter := it\<rparr>"
  have st: "stands ?d ?s es (first_ge (InternalKeyComparator c) (map entry_of es) ?k)"
    using e(1) it(2) by (simp add: stands_def)
  have saved: "AppendInternalKey [] \<lparr>user_key = t, sequence = ?s, ptype = kValueTypeForSeek\<rparr> = ?k"
    by (simp add: InternalKey_new_def)
  have D: "DBIter_Seek ops t d =
    (if it_Valid ops (di_iter ?d) then FindNextUserEntry ops False ?d else Some (?d\<lparr>di_valid := False\<rparr>))"
    unfolding DBIter_Seek_def saved using it(1) by (simp add: Let_def)
  show ?thesis unfolding D e(4) first_ge_view(1) [OF e(2,3) assms(2)]
    by (rule seek_result [OF st e(2,3)]) (use first_ge_view(2) [OF e(2,3) assms(2)] in simp_all)
qed

lemma DBIter_SeekToFirst_at:
  assumes "dbi_at d view j"
  shows "\<exists>d'. DBIter_SeekToFirst ops d = Some d' \<and> dbi_at d' view 0"
proof -
  let ?s = "di_sequence d"
  obtain es p where e: "stands d ?s es p" "entries_ok c valid es" "?s \<le> kMaxSequenceNumber" "view = user_view c ?s es"
    using dbi_atD [OF assms(1)] by blast
  obtain it where it: "it_SeekToFirst ops (di_iter d) = Some it" "stat it (map entry_of es) 0"
    using iit.at_SeekToFirst e(1) unfolding stands_def by blast
  let ?d = "d\<lparr>di_direction := kDBForward, di_saved_value := [], di_iter := it\<rparr>"
  have st: "stands ?d ?s es 0" using e(1) it(2) by (simp add: stands_def)
  have D: "DBIter_SeekToFirst ops d =
    (if it_Valid ops (di_iter ?d) then FindNextUserEntry ops False ?d else Some (?d\<lparr>di_valid := False\<rparr>))"
    unfolding DBIter_SeekToFirst_def using it(1) by (simp add: Let_def)
  have "live_before c ?s es 0 = 0" by (simp add: live_before_def)
  then show ?thesis unfolding D e(4) using seek_result [OF st e(2,3)] by simp
qed

lemma DBIter_SeekToLast_at:
  assumes "dbi_at d view j"
  shows "\<exists>d'. DBIter_SeekToLast ops d = Some d' \<and> dbi_at d' view (length view - 1)"
proof -
  let ?s = "di_sequence d"
  obtain es p where e: "stands d ?s es p" "entries_ok c valid es" "?s \<le> kMaxSequenceNumber" "view = user_view c ?s es"
    using dbi_atD [OF assms(1)] by blast
  obtain it where it: "it_SeekToLast ops (di_iter d) = Some it" "stat it (map entry_of es) (length es - 1)"
    using iit.at_SeekToLast e(1) unfolding stands_def by (metis length_map)
  let ?d = "d\<lparr>di_direction := kDBReverse, di_saved_value := [], di_iter := it\<rparr>"
  have st: "stands ?d ?s es (length es - 1)" using e(1) it(2) by (simp add: stands_def)
  have low: "lowest es (length es - 1) = length es" by (cases es) (simp_all add: lowest_def)
  have D: "DBIter_SeekToLast ops d = FindPrevUserEntry ops ?d"
    unfolding DBIter_SeekToLast_def using it(1) by simp
  have lb: "live_before c ?s es (length es) = length (user_view c ?s es)" by (simp add: live_before_all length_user_view)
  have "(if live_before c ?s es (length es) = 0 then length (user_view c ?s es) else live_before c ?s es (length es) - 1) =
    length (user_view c ?s es) - 1" unfolding lb by simp
  then show ?thesis unfolding D e(4) using Prev_result [OF st e(2,3), of "length es"] low by simp
qed

lemma DBIter_Next_at:
  assumes "dbi_at d view j" "j < length view"
  shows "\<exists>d'. DBIter_Next ops d = Some d' \<and> dbi_at d' view (Suc j)"
proof -
  let ?s = "di_sequence d"
  obtain es p where e: "stands d ?s es p" "entries_ok c valid es" "?s \<le> kMaxSequenceNumber" "view = user_view c ?s es"
    and "j < length view \<longrightarrow> live c ?s es (live_positions c ?s es ! j) \<and>
       shows_live d ?s es p (live_positions c ?s es ! j) \<and> live_before c ?s es (live_positions c ?s es ! j) = j"
    using dbi_atD [OF assms(1)] by blast
  then obtain m where m: "live c ?s es m" "shows_live d ?s es p m" "live_before c ?s es m = j" using assms(2) by blast
  have mn: "m < length es" using m(1) by (simp add: live_def)
  have j': "live_before c ?s es (Suc m) = Suc j" using m by (simp add: live_before_Suc)
  have go: "\<exists>d''. FindNextUserEntry ops True d' = Some d'' \<and> dbi_at d'' view (Suc j)"
    if d': "stands d' ?s es q" "di_direction d' = kDBForward" "di_saved_key d' = e_key (es ! m)"
      and q: "q \<le> m" "\<And>i. q \<le> i \<Longrightarrow> i < m \<Longrightarrow> ?s < e_seq (es ! i)" for d' q
  proof -
    note ng = next_goal_after [OF e(2) m(1) q]
    have "q < length es" using q(1) mn by simp
    from FindNext_result [OF d'(1) this e(2,3) d'(2), of True "Suc m"] ng d'(3) q(1) mn
    show ?thesis unfolding e(4) j' by simp
  qed
  show ?thesis
  proof (cases "di_direction d")
    case kDBForward
    then have p: "p = m" using m(2) by (simp add: shows_live_def)
    let ?d = "d\<lparr>di_saved_key := ExtractUserKey (it_key ops (di_iter d))\<rparr>"
    have key: "ExtractUserKey (it_key ops (di_iter d)) = e_key (es ! m)"
      using stands_key(1) [OF e(1)] p mn by simp
    have "stands ?d ?s es m" using e(1) p by (simp add: stands_def)
    then show ?thesis using go [of ?d m] kDBForward key by (simp add: DBIter_Next_def)
  next
    case kDBReverse
    then have sh: "di_saved_key d = e_key (es ! m)" "lowest es p \<le> m"
      "\<And>i. lowest es p \<le> i \<Longrightarrow> i < m \<Longrightarrow> ?s < e_seq (es ! i)"
      using m(2) by (simp_all add: shows_live_def)
    have "\<exists>it. (if it_Valid ops (di_iter d) then it_Next ops (di_iter d) else it_SeekToFirst ops (di_iter d)) = Some it \<and>
      stands (d\<lparr>di_iter := it\<rparr>) ?s es (lowest es p)"
    proof (cases "p < length es")
      case True
      then show ?thesis using stands_Next [OF e(1)] stands_Valid [OF e(1)] by (simp add: lowest_def)
    next
      case False
      then have p: "p = length es" using stands_le [OF e(1)] by simp
      obtain it where "it_SeekToFirst ops (di_iter d) = Some it" "stat it (map entry_of es) 0"
        using iit.at_SeekToFirst e(1) unfolding stands_def by blast
      then show ?thesis using e(1) stands_Valid [OF e(1)] p by (simp add: lowest_def stands_def)
    qed
    then obtain it where it: "(if it_Valid ops (di_iter d) then it_Next ops (di_iter d) else it_SeekToFirst ops (di_iter d)) = Some it"
      "stands (d\<lparr>di_iter := it\<rparr>) ?s es (lowest es p)" by blast
    let ?d = "d\<lparr>di_direction := kDBForward, di_iter := it\<rparr>"
    have st: "stands ?d ?s es (lowest es p)" using it(2) by (rule stands_cong) simp_all
    have v: "it_Valid ops it" using stands_Valid [OF st] sh(2) mn by simp
    have "DBIter_Next ops d = FindNextUserEntry ops True ?d"
      using kDBReverse it(1) v by (simp add: DBIter_Next_def Let_def)
    then show ?thesis using go [OF st _ _ sh(2,3)] sh(1) by simp
  qed
qed

lemma DBIter_Prev_at:
  assumes "dbi_at d view j" "j < length view"
  shows "\<exists>d'. DBIter_Prev ops d = Some d' \<and> dbi_at d' view (if j = 0 then length view else j - 1)"
proof -
  let ?s = "di_sequence d"
  obtain es p where e: "stands d ?s es p" "entries_ok c valid es" "?s \<le> kMaxSequenceNumber" "view = user_view c ?s es"
    and "j < length view \<longrightarrow> live c ?s es (live_positions c ?s es ! j) \<and>
       shows_live d ?s es p (live_positions c ?s es ! j) \<and> live_before c ?s es (live_positions c ?s es ! j) = j"
    using dbi_atD [OF assms(1)] by blast
  then obtain m where m: "live c ?s es m" "shows_live d ?s es p m" "live_before c ?s es m = j" using assms(2) by blast
  have mn: "m < length es" using m(1) by (simp add: live_def)
  show ?thesis
  proof (cases "di_direction d")
    case kDBReverse
    then have sh: "lowest es p \<le> m" "\<And>i. lowest es p \<le> i \<Longrightarrow> i < m \<Longrightarrow> ?s < e_seq (es ! i)"
      using m(2) by (simp_all add: shows_live_def)
    have none: "\<not> live c ?s es k" if "lowest es p \<le> k" "k < m" for k
      using sh(2) [OF that] by (simp add: live_def not_le)
    have "DBIter_Prev ops d = FindPrevUserEntry ops d" using kDBReverse by (simp add: DBIter_Prev_def)
    then show ?thesis using Prev_result [OF e(1-3) kDBReverse sh(1) none] unfolding m(3) e(4) by simp
  next
    case kDBForward
    then have p: "p = m" using m(2) by (simp add: shows_live_def)
    let ?d = "d\<lparr>di_saved_key := ExtractUserKey (it_key ops (di_iter d))\<rparr>"
    have key: "ExtractUserKey (it_key ops (di_iter d)) = e_key (es ! m)"
      using stands_key(1) [OF e(1)] p mn by simp
    have "stands ?d ?s es m" using e(1) p by (simp add: stands_def)
    from DBIter_Prev_scan_finds [OF this mn] obtain found d' q where r: "DBIter_Prev_scan ops ?d = Some (found, d')" "stands d' ?s es q"
      "di_direction d' = kDBForward" "lowest es q \<le> m"
      "\<forall>i. lowest es q \<le> i \<longrightarrow> i < m \<longrightarrow> \<not> Compare c (e_key (es ! i)) (e_key (es ! m)) < 0"
      "if found then q < length es else q = length es \<and> \<not> di_valid d'"
      unfolding key using kDBForward by auto
    have none: "\<not> live c ?s es k" if k: "lowest es q \<le> k" "k < m" for k
    proof
      assume l: "live c ?s es k"
      have "Compare c (e_key (es ! k)) (e_key (es ! m)) = 0"
        using r(5) [rule_format, OF k] key_mono [OF e(2) less_imp_le [OF k(2)] mn] by simp
      then have "visible c (e_key (es ! m)) ?s (es ! k)" using l by (simp add: visible_iff live_def)
      then show False using m(1) k(2) by (simp add: live_def)
    qed
    show ?thesis
    proof (cases found)
      case True
      have st: "stands (d'\<lparr>di_direction := kDBReverse\<rparr>) ?s es q" using r(2) by (rule stands_cong) simp_all
      have "DBIter_Prev ops d = FindPrevUserEntry ops (d'\<lparr>di_direction := kDBReverse\<rparr>)"
        using kDBForward r(1) True by (simp add: DBIter_Prev_def)
      then show ?thesis using Prev_result [OF st e(2,3) _ r(4) none] unfolding m(3) e(4) by simp
    next
      case False
      then have q: "q = length es" "\<not> di_valid d'" using r(6) by simp_all
      have n0: "\<not> live c ?s es k" if "0 \<le> k" "k < m" for k using none [of k] that q(1) by (simp add: lowest_def)
      have "live_before c ?s es m = live_before c ?s es 0" by (rule live_before_none) (use n0 in simp_all)
      then have "j = 0" using m(3) by (simp add: live_before_def)
      then show ?thesis using dbi_end [OF r(2) e(2,3) q(2)] kDBForward r(1) False e(4) by (simp add: DBIter_Prev_def)
    qed
  qed
qed

theorem dbi_iterator: "iterator c valid (DBIter_ops ops) dbi_at"
proof unfold_locales
  fix d view j assume a: "dbi_at d view j"
  let ?s = "di_sequence d"
  obtain es p where e: "stands d ?s es p" "entries_ok c valid es" "view = user_view c ?s es" "j \<le> length view"
    "di_valid d \<longleftrightarrow> j < length view"
    and m: "j < length view \<longrightarrow> live c ?s es (live_positions c ?s es ! j) \<and>
       shows_live d ?s es p (live_positions c ?s es ! j) \<and> live_before c ?s es (live_positions c ?s es ! j) = j"
    using dbi_atD [OF a] by blast
  show "sorted_entries c valid view" unfolding e(3) by (rule user_view_sorted [OF e(2)])
  show "j \<le> length view" by (rule e(4))
  show "it_Valid (DBIter_ops ops) d \<longleftrightarrow> j < length view" using e(5) by (simp add: DBIter_ops_def)
  show "ok (it_status (DBIter_ops ops) d)"
    using e(1) iit.at_status by (auto simp: DBIter_ops_def DBIter_status_def stands_def)
  show "\<exists>d'. it_SeekToFirst (DBIter_ops ops) d = Some d' \<and> dbi_at d' view 0"
    using DBIter_SeekToFirst_at [OF a] by (simp add: DBIter_ops_def)
  show "\<exists>d'. it_SeekToLast (DBIter_ops ops) d = Some d' \<and> dbi_at d' view (length view - 1)"
    using DBIter_SeekToLast_at [OF a] by (simp add: DBIter_ops_def)
  show "\<exists>d'. it_Seek (DBIter_ops ops) t d = Some d' \<and> dbi_at d' view (first_ge c view t)" if "valid t" for t
    using DBIter_Seek_at [OF a that] by (simp add: DBIter_ops_def)
  assume j: "j < length view"
  let ?m = "live_positions c ?s es ! j"
  have mm: "live c ?s es ?m" "shows_live d ?s es p ?m" using m j by blast+
  have mn: "?m < length es" using mm(1) by (simp add: live_def)
  have vw: "view ! j = (e_key (es ! ?m), e_value (es ! ?m))"
    using j unfolding e(3) by (simp add: user_view_def)
  show "it_key (DBIter_ops ops) d = fst (view ! j)"
    using mm(2) stands_key(1) [OF e(1)] mn
    by (cases "di_direction d") (simp_all add: DBIter_ops_def DBIter_key_def vw shows_live_def)
  show "it_value (DBIter_ops ops) d = Some (snd (view ! j))"
    using mm(2) stands_key(2) [OF e(1)] mn
    by (cases "di_direction d") (simp_all add: DBIter_ops_def DBIter_value_def vw shows_live_def)
  show "\<exists>d'. it_Next (DBIter_ops ops) d = Some d' \<and> dbi_at d' view (Suc j)"
    using DBIter_Next_at [OF a j] by (simp add: DBIter_ops_def)
  show "\<exists>d'. it_Prev (DBIter_ops ops) d = Some d' \<and> dbi_at d' view (if j = 0 then length view else j - 1)"
    using DBIter_Prev_at [OF a j] by (simp add: DBIter_ops_def)
qed

lemma NewDBIterator_at:
  assumes "stat it (map entry_of es) p" "entries_ok c valid es" "snap \<le> kMaxSequenceNumber"
  shows "dbi_at (NewDBIterator c it snap seed) (user_view c snap es) (length (user_view c snap es))"
proof -
  have "stands (NewDBIterator c it snap seed) snap es p"
    using assms(1) rnd_ok_next [OF rnd_ok_new] by (simp add: stands_def NewDBIterator_def period_eq)
  from dbi_end [OF this assms(2,3)] show ?thesis by (simp add: NewDBIterator_def period_eq)
qed

end

end
