(* ===== verification/MemIterator.thy ===== *)
theory MemIterator
  imports Versions
begin

section \<open>The memtable's iterator keeps the iterator contract\<close>

text \<open>
  The positions of a memtable's iterator are the nodes of its skip list. Keys must be short
  enough for the 32-bit length prefix of an entry, which the locale \<open>memtable_keys\<close> states of
  the valid user keys.
\<close>

abbreviation mem_entry :: "entry \<Rightarrow> bytes" where
  "mem_entry \<equiv> \<lambda>(s, t, k, v). MemTable_entry s t k v"

locale memtable_keys = internal_keys +
  assumes user_short: "valid k \<Longrightarrow> length k + 8 < 2 ^ 32"
begin

definition mem_holds :: "MemTable \<Rightarrow> nat list \<Rightarrow> entry list \<Rightarrow> bool" where
  "mem_holds m L ents \<longleftrightarrow> mt_comparator m = c \<and> sl_ok (KeyComparator c) (prefixed_key valid) (mt_table m) L \<and>
     map (key_at (mt_table m)) L = map mem_entry ents \<and> (\<forall>e \<in> set ents. add_ok e)"

definition mem_at :: "MemTableIterator \<Rightarrow> (bytes \<times> bytes) list \<Rightarrow> nat \<Rightarrow> bool" where
  "mem_at it es i \<longleftrightarrow> (\<exists>L ents. mem_holds (fst it) L ents \<and> es = map entry_of ents \<and> i \<le> length L \<and>
     snd it = (if i < length L then Some (L ! i) else None))"

lemma mem_entry_slice: "add_ok e \<Longrightarrow> LengthPrefixedSlice_at (mem_entry e) = fst (entry_of e)"
  using prefixed_entry(3) by (cases e) (auto simp: add_ok_def entry_of_def)

lemma mem_entry_value:
  assumes "add_ok e" "key_at (mt_table m) a = mem_entry e"
  shows "MemIter_value (m, Some a) = snd (entry_of e)"
proof -
  obtain s t k v where e: "e = (s, t, k, v)" by (cases e)
  let ?ik = "InternalKey_new k s t" and ?vl = "EncodeVarint32 (word_of_nat (length v))"
  have l: "length ?ik < 2 ^ 32" "length v < 2 ^ 32" using assms(1) e by (simp_all add: add_ok_def)
  obtain rest where r: "GetVarint32Ptr (take 5 (MemTable_entry s t k v)) = Some (word_of_nat (length ?ik), rest)"
    "length (take 5 (MemTable_entry s t k v)) - length rest = length (EncodeVarint32 (word_of_nat (length ?ik)))"
    using varint_at [of "word_of_nat (length ?ik)" "?ik @ ?vl @ v"] unfolding MemTable_entry_eq by auto
  have sl: "LengthPrefixedSlice_at (MemTable_entry s t k v) = ?ik"
    unfolding MemTable_entry_eq by (rule Slice_at_prefixed [OF l(1)])
  have dr: "drop (length (EncodeVarint32 (word_of_nat (length ?ik) :: u32)) + length ?ik) (MemTable_entry s t k v) = ?vl @ v"
    unfolding MemTable_entry_eq by simp
  have vs: "LengthPrefixedSlice_at (?vl @ v) = v" using Slice_at_prefixed [OF l(2), of "[]"] by simp
  show ?thesis
    using assms(2) r sl dr vs unfolding MemIter_value_def Let_def e entry_of_def by simp
qed

lemma mem_holdsD:
  assumes "mem_holds m L ents"
  shows "length L = length ents" "\<And>i. i < length L \<Longrightarrow> key_at (mt_table m) (L ! i) = mem_entry (ents ! i) \<and> add_ok (ents ! i)"
proof -
  have mp: "map (key_at (mt_table m)) L = map mem_entry ents" "\<forall>e \<in> set ents. add_ok e" using assms by (simp_all add: mem_holds_def)
  show n: "length L = length ents" using mp(1) by (metis length_map)
  show "key_at (mt_table m) (L ! i) = mem_entry (ents ! i) \<and> add_ok (ents ! i)" if "i < length L" for i
  proof
    have "map (key_at (mt_table m)) L ! i = map mem_entry ents ! i" using mp(1) by simp
    then show "key_at (mt_table m) (L ! i) = mem_entry (ents ! i)" using that n by simp
    show "add_ok (ents ! i)" using mp(2) that n by simp
  qed
qed

lemma mem_sorted:
  assumes "mem_holds m L ents"
  shows "sorted_entries (InternalKeyComparator c) (valid_ikey valid) (map entry_of ents)"
proof -
  note D = mem_holdsD [OF assms]
  have srt: "sorted_wrt (\<lambda>a b. KeyComparator c (key_at (mt_table m) a) (key_at (mt_table m) b) < 0) L"
    using assms by (simp add: mem_holds_def sl_ok_def)
  have "icmp (fst (entry_of (ents ! i))) (fst (entry_of (ents ! j))) < 0" if ij: "i < j" "j < length ents" for i j
  proof -
    have "KeyComparator c (key_at (mt_table m) (L ! i)) (key_at (mt_table m) (L ! j)) < 0"
      using srt ij D(1) by (simp add: sorted_wrt_iff_nth_less)
    then show ?thesis using D(2) [of i] D(2) [of j] ij D(1) mem_entry_slice by (simp add: KeyComparator_def)
  qed
  moreover have "valid_ikey valid (fst (entry_of e))" if "e \<in> set ents" for e
  proof -
    have "add_ok e" using assms that by (simp add: mem_holds_def)
    then show ?thesis by (cases e) (simp add: add_ok_def entry_of_def valid_ikey_def InternalKey_new_eq)
  qed
  ultimately show ?thesis by (auto simp: sorted_entries_def sorted_wrt_map sorted_wrt_iff_nth_less)
qed

lemma mem_seek:
  assumes "mem_holds m L ents" "valid_ikey valid t"
  shows "length (takeWhile (mt.before (mt_table m) (EncodeKey t)) L) =
      first_ge (InternalKeyComparator c) (map entry_of ents) t" "prefixed_key valid (EncodeKey t)"
proof -
  have lt: "length t < 2 ^ 32" "valid_ikey valid t"
    using assms(2) user_short [of "ExtractUserKey t"] by (auto simp: valid_ikey_def ExtractUserKey_def)
  have ek: "EncodeKey t = EncodeVarint32 (word_of_nat (length t)) @ t @ []" by (simp add: EncodeKey_def PutVarint32_def)
  show "prefixed_key valid (EncodeKey t)" unfolding ek prefixed_key_def using lt by blast
  have sl: "LengthPrefixedSlice_at (EncodeKey t) = t" unfolding ek by (rule Slice_at_prefixed [OF lt(1)])
  have "length (takeWhile (mt.before (mt_table m) (EncodeKey t)) L) =
    length (takeWhile (\<lambda>k. KeyComparator c k (EncodeKey t) < 0) (map (key_at (mt_table m)) L))"
    by (simp add: takeWhile_map o_def)
  also have "\<dots> = length (takeWhile (\<lambda>e. KeyComparator c (mem_entry e) (EncodeKey t) < 0) ents)"
    using assms(1) by (simp add: mem_holds_def takeWhile_map o_def)
  also have "takeWhile (\<lambda>e. KeyComparator c (mem_entry e) (EncodeKey t) < 0) ents =
    takeWhile (\<lambda>e. icmp (fst (entry_of e)) t < 0) ents"
    by (rule takeWhile_cong) (use assms(1) mem_entry_slice sl in \<open>simp_all add: KeyComparator_def mem_holds_def\<close>)
  finally show "length (takeWhile (mt.before (mt_table m) (EncodeKey t)) L) =
      first_ge (InternalKeyComparator c) (map entry_of ents) t"
    by (simp add: first_ge_def takeWhile_map o_def)
qed

theorem memtable_iterator: "iterator (InternalKeyComparator c) (valid_ikey valid) MemTableIterator_ops mem_at"
proof unfold_locales
  fix it es i assume "mem_at it es i"
  then obtain L ents where a: "mem_holds (fst it) L ents" "es = map entry_of ents" "i \<le> length L"
    "snd it = (if i < length L then Some (L ! i) else None)" by (auto simp: mem_at_def)
  let ?sl = "mt_table (fst it)"
  have sl: "sl_ok (KeyComparator c) (prefixed_key valid) ?sl L" "mt_comparator (fst it) = c" using a(1) by (simp_all add: mem_holds_def)
  note n = mem_holdsD(1) [OF a(1)]
  have at: "mem_at (fst it, if j < length L then Some (L ! j) else None) es j" if "j \<le> length L" for j
    unfolding mem_at_def using a(1,2) that by auto
  show "sorted_entries (InternalKeyComparator c) ivalid es" unfolding a(2) by (rule mem_sorted [OF a(1)])
  show "i \<le> length es" using a(2,3) n by simp
  show "it_Valid MemTableIterator_ops it \<longleftrightarrow> i < length es"
    using a(2,3,4) n by (simp add: MemTableIterator_ops_def MemIter_Valid_def)
  show "ok (it_status MemTableIterator_ops it)" by (simp add: MemTableIterator_ops_def)
  show "\<exists>it'. it_SeekToFirst MemTableIterator_ops it = Some it' \<and> mem_at it' es 0"
    using at [of 0] mt.First_node [OF sl(1)]
    by (simp add: MemTableIterator_ops_def MemIter_SeekToFirst_def Iter_SeekToFirst_def)
  show "\<exists>it'. it_SeekToLast MemTableIterator_ops it = Some it' \<and> mem_at it' es (length es - 1)"
    using at [of "length L - 1"] mt.Last_node [OF sl(1)] a(2) n [symmetric]
    by (cases L rule: rev_cases) (simp_all add: MemTableIterator_ops_def MemIter_SeekToLast_def)
  show "\<exists>it'. it_Seek MemTableIterator_ops t it = Some it' \<and> mem_at it' es (first_ge (InternalKeyComparator c) es t)"
    if t: "ivalid t" for t
  proof -
    note s = mem_seek [OF a(1) t]
    have le: "first_ge (InternalKeyComparator c) es t \<le> length L"
      using first_ge_le [of "InternalKeyComparator c" es t] a(2) n by simp
    show ?thesis using at [OF le] mt.Seek_node [OF sl(1) s(2)] sl(2)
      unfolding s(1) a(2) [symmetric] by (simp add: MemTableIterator_ops_def MemIter_Seek_def)
  qed
  assume "i < length es"
  then have i: "i < length L" "snd it = Some (L ! i)" using a n by simp_all
  note e = mem_holdsD(2) [OF a(1) i(1)]
  show "it_key MemTableIterator_ops it = fst (es ! i)"
    using i e mem_entry_slice [of "ents ! i"] a(2) n by (simp add: MemTableIterator_ops_def MemIter_key_def)
  show "it_value MemTableIterator_ops it = Some (snd (es ! i))"
    using i e mem_entry_value [of "ents ! i" "fst it" "L ! i"] a(2) n prod.collapse [of it]
    by (simp add: MemTableIterator_ops_def)
  show "\<exists>it'. it_Next MemTableIterator_ops it = Some it' \<and> mem_at it' es (Suc i)"
    using at [of "Suc i"] mt.Next_node [OF sl(1) i(1)] i
    by (simp add: MemTableIterator_ops_def MemIter_Next_def Iter_Next_def)
  show "\<exists>it'. it_Prev MemTableIterator_ops it = Some it' \<and> mem_at it' es (if i = 0 then length es else i - 1)"
  proof (cases i)
    case 0
    then show ?thesis using at [of "length L"] mt.Prev_node [OF sl(1) i(1)] i sl(2) a(2) n
      by (simp add: MemTableIterator_ops_def MemIter_Prev_def)
  next
    case (Suc j)
    then show ?thesis using at [of j] mt.Prev_node [OF sl(1) i(1)] i sl(2)
      by (simp add: MemTableIterator_ops_def MemIter_Prev_def)
  qed
qed

text \<open>The entries of a memtable, newest first within a user key, are exactly those added.\<close>

lemma mem_entry_inj:
  assumes "add_ok e" "add_ok e'" "mem_entry e = mem_entry e'"
  shows "e = e'"
proof -
  obtain s t k v s' t' k' v' where e: "e = (s, t, k, v)" "e' = (s', t', k', v')" by (cases e, cases e')
  have ik: "InternalKey_new k s t = InternalKey_new k' s' t'"
    using mem_entry_slice [OF assms(1)] mem_entry_slice [OF assms(2)] assms(3) e by (simp add: entry_of_def)
  have b: "s \<le> kMaxSequenceNumber" "s' \<le> kMaxSequenceNumber" "length v < 2 ^ 32" "length v' < 2 ^ 32"
    using assms(1,2) e by (simp_all add: add_ok_def)
  have p: "\<lparr>user_key = k, sequence = s, ptype = t\<rparr> = \<lparr>user_key = k', sequence = s', ptype = t'\<rparr>"
    by (rule option.inject [THEN iffD1]) (rule Parse_new [OF b(1), of k t, unfolded ik Parse_new [OF b(2)], symmetric])
  have "EncodeVarint32 (word_of_nat (length v)) @ v = EncodeVarint32 (word_of_nat (length v')) @ v'"
    using assms(3) unfolding e prod.case MemTable_entry_eq ik by (simp only: same_append_eq)
  then have "v = v'" using Slice_at_prefixed [OF b(3), of "[]"] Slice_at_prefixed [OF b(4), of "[]"] by simp
  then show ?thesis using p e by simp
qed

lemma mt_ok_holds:
  assumes "mt_ok m L adds"
  shows "\<exists>ents. mem_holds m L ents \<and> set ents = adds"
proof -
  have m: "mt_comparator m = c" "sl_ok (KeyComparator c) (prefixed_key valid) (mt_table m) L"
    "set (map (key_at (mt_table m)) L) = mem_entry ` adds" "\<forall>e \<in> adds. add_ok e"
    using assms by (auto simp: mt_ok_def sl_keys_def)
  let ?K = "map (key_at (mt_table m)) L"
  have "\<forall>x \<in> set ?K. \<exists>e. e \<in> adds \<and> x = mem_entry e" unfolding m(3) by blast
  then obtain f where f: "\<forall>x \<in> set ?K. f x \<in> adds \<and> x = mem_entry (f x)" by metis
  let ?ents = "map f (map (key_at (mt_table m)) L)"
  have mp: "?K = map mem_entry ?ents" using f by simp
  have se: "set ?ents = adds"
  proof
    show "set ?ents \<subseteq> adds" using f by auto
    show "adds \<subseteq> set ?ents"
    proof
      fix e assume e: "e \<in> adds"
      then have x: "mem_entry e \<in> set (map (key_at (mt_table m)) L)" unfolding m(3) by blast
      then have "mem_entry (f (mem_entry e)) = mem_entry e" "f (mem_entry e) \<in> adds"
        using f [rule_format, OF x] by metis+
      then have fe: "mem_entry (f (mem_entry e)) = mem_entry e" "add_ok (f (mem_entry e))" "add_ok e"
        using m(4) e by simp_all
      have "f (mem_entry e) = e" by (rule mem_entry_inj [OF fe(2,3,1)])
      then show "e \<in> set ?ents" unfolding set_map [of f] using x by (rule rev_image_eqI [OF _ sym, rotated])
    qed
  qed
  have "mem_holds m L ?ents" unfolding mem_holds_def se by (intro conjI m(1,2,4) mp)
  then show ?thesis using se by blast
qed

lemma MemTable_NewIterator_at:
  "mem_holds m L ents \<Longrightarrow> mem_at (m, None) (map entry_of ents) (length ents)"
  using mem_holdsD(1) by (auto simp: mem_at_def intro!: exI [of _ L] exI [of _ ents])

end

end
