(* ===== verification/DbView.thy ===== *)
theory DbView
  imports DbIter MemIterator TableInvariant
begin

section \<open>The user's view of the database\<close>

text \<open>
  \<open>user_view\<close>, the list the database iterator walks over, is what a reader at a sequence number
  must see: the user keys whose newest visible entry is a value. The database iterator is
  interpreted over the memtable's iterator.
\<close>

context db_iter
begin

lemma same_entry:
  assumes ok: "entries_ok c valid es" and ij: "i < j" "j < length es"
    and same: "Compare c (e_key (es ! i)) (e_key (es ! j)) = 0" and le: "e_seq (es ! i) \<le> e_seq (es ! j)"
  shows "e_type (es ! i) = kTypeValue \<and> e_type (es ! j) = kTypeDeletion"
proof -
  have "i < length es" using ij by simp
  note s = entry_valid(2) [OF ok this] entry_valid(2) [OF ok ij(2)]
  have "icmp (fst (entry_of (es ! i))) (fst (entry_of (es ! j))) < 0"
    using ok ij by (simp add: entries_ok_def sorted_entries_def sorted_wrt_iff_nth_less)
  then show ?thesis using icmp_new_less_iff [OF s] same le by (auto simp: entry_of_iff)
qed

lemma user_view_iff:
  assumes ok: "entries_ok c valid es"
  shows "(k, v) \<in> set (user_view c snap es) \<longleftrightarrow> (\<exists>s. newest_visible c k snap (set es) (s, kTypeValue, k, v))"
proof
  assume "(k, v) \<in> set (user_view c snap es)"
  then obtain i where i0: "i \<in> set (live_positions c snap es)" "(k, v) = (e_key (es ! i), e_value (es ! i))"
    unfolding user_view_def set_map by blast
  have i: "live c snap es i" "k = e_key (es ! i)" "v = e_value (es ! i)"
    using i0(1) i0(2) [THEN arg_cong, of fst] i0(2) [THEN arg_cong, of snd] by (simp_all only: set_live_positions fst_conv snd_conv)
  have n: "i < length es" using i(1) by (simp add: live_def)
  have e: "es ! i = (e_seq (es ! i), kTypeValue, k, v)" using i by (intro prod_eqI) (simp_all add: live_def)
  have "e_seq e' \<le> e_seq (es ! i)" if e': "e' \<in> set es" "visible c k snap e'" for e'
  proof -
    obtain j where j: "j < length es" "e' = es ! j" using e'(1) in_set_conv_nth [of e' es] by auto
    have "\<not> j < i" using i(1,2) e'(2) j(2) by (auto simp: live_def)
    then consider "j = i" | "i < j" by linarith
    then show ?thesis
    proof cases
      case 2
      have "Compare c (e_key (es ! j)) k = 0" using e'(2) j(2) by (simp add: visible_iff)
      then have "Compare c (e_key (es ! i)) (e_key (es ! j)) = 0"
        using eq_sym [OF entry_valid(1) [OF ok n] entry_valid(1) [OF ok j(1)]] i(2) by simp
      then show ?thesis using entries_order [OF ok 2 j(1)] j(2) by simp
    qed (use j in simp)
  qed
  moreover have "visible c k snap (es ! i)"
    using i(1,2) refl [OF entry_valid(1) [OF ok n]] by (simp add: visible_iff live_def)
  ultimately have "newest_visible c k snap (set es) (es ! i)" using n by (auto simp: newest_visible_def)
  from subst [OF e, of "newest_visible c k snap (set es)", OF this]
  show "\<exists>s. newest_visible c k snap (set es) (s, kTypeValue, k, v)" by blast
next
  assume "\<exists>s. newest_visible c k snap (set es) (s, kTypeValue, k, v)"
  then obtain s where nv: "(s, kTypeValue, k, v) \<in> set es" "visible c k snap (s, kTypeValue, k, v)"
    "\<forall>e' \<in> set es. visible c k snap e' \<longrightarrow> e_seq e' \<le> s" by (auto simp: newest_visible_def)
  obtain i where i: "i < length es" "es ! i = (s, kTypeValue, k, v)" using nv(1) in_set_conv_nth [of _ es] by auto
  have "\<not> visible c k snap (es ! j)" if j: "j < i" for j
  proof
    assume vj: "visible c k snap (es ! j)"
    have "e_seq (es ! j) \<le> e_seq (es ! i)" using nv(3) vj j i by simp
    moreover have "Compare c (e_key (es ! j)) (e_key (es ! i)) = 0" using vj i(2) by (simp add: visible_iff)
    ultimately show False using same_entry [OF ok j i(1)] i(2) by simp
  qed
  then have "live c snap es i" using i nv(2) by (simp add: live_def visible_iff)
  then show "(k, v) \<in> set (user_view c snap es)"
    unfolding user_view_def using i(2) set_live_positions [of i c snap es] by force
qed

end

subsection \<open>Memtables of bytewise ordered keys\<close>

definition short_key :: "bytes \<Rightarrow> bool" where "short_key k \<longleftrightarrow> length k + 8 < 2 ^ 32"

interpretation bytewise_mem: memtable_keys BytewiseComparator short_key
proof
  fix a b d s l :: bytes
  show "sgn (Compare BytewiseComparator b a) = - sgn (Compare BytewiseComparator a b)" by (rule bytewise.swap) simp_all
  show "Compare BytewiseComparator a b \<le> 0 \<Longrightarrow> Compare BytewiseComparator b d \<le> 0 \<Longrightarrow> Compare BytewiseComparator a d \<le> 0"
    by (rule bytewise.le_trans) simp_all
  show "\<not> Compare BytewiseComparator s l < 0 \<Longrightarrow> FindShortestSeparator BytewiseComparator s l = s"
    by (rule bytewise.separator_unchanged) simp_all
  assume s: "short_key s"
  have sep: "length (FindShortestSeparator BytewiseComparator s l) \<le> length s"
    "length (FindShortSuccessor BytewiseComparator s) \<le> length s"
    by (rule bytewise_short.separator_short bytewise_short.successor_short)+
  show "short_key (FindShortSuccessor BytewiseComparator s) \<and> Compare BytewiseComparator s (FindShortSuccessor BytewiseComparator s) \<le> 0"
    using sep(2) s bytewise.successor [of s] by (simp add: short_key_def)
  show "short_key (FindShortestSeparator BytewiseComparator s l) \<and>
      Compare BytewiseComparator s (FindShortestSeparator BytewiseComparator s l) \<le> 0 \<and>
      Compare BytewiseComparator (FindShortestSeparator BytewiseComparator s l) l < 0"
    if "Compare BytewiseComparator s l < 0"
    using sep(1) s bytewise.separator [of s l] that by (simp add: short_key_def)
  show "length s + 8 < 2 ^ 32" using s by (simp add: short_key_def)
qed

interpretation bytewise_mem_iterator: iterator "InternalKeyComparator BytewiseComparator" "valid_ikey short_key"
  MemTableIterator_ops bytewise_mem.mem_at
  by (rule bytewise_mem.memtable_iterator)

interpretation bytewise_db: db_iter BytewiseComparator short_key MemTableIterator_ops bytewise_mem.mem_at
  by unfold_locales

subsection \<open>Properties\<close>

text \<open>
  C12: over an internal iterator that keeps the iterator contract, any sequence
  of calls on a database iterator, in both directions and with seeks, walks over the user keys
  whose newest entry visible at the iterator's sequence number is a value, in order.
\<close>

theorem db_iterator_refines:
  assumes "separating_comparator c valid" and "iterator (InternalKeyComparator c) (valid_ikey valid) ops stat"
    and "stat it (map entry_of es) p" and "\<forall>e \<in> set es. fst e \<le> kMaxSequenceNumber" and "snap \<le> kMaxSequenceNumber"
    and "list_all (move_valid valid) ms"
    and "cursor_moves c (user_view c snap es) ms (length (user_view c snap es)) = Some j"
  shows "(\<exists>d. run_moves (DBIter_ops ops) ms (NewDBIterator c it snap seed) = Some d \<and>
      shows_position (DBIter_ops ops) d (user_view c snap es) j) \<and>
    sorted_entries c valid (user_view c snap es) \<and>
    (\<forall>k v. (k, v) \<in> set (user_view c snap es) \<longleftrightarrow> (\<exists>s. newest_visible c k snap (set es) (s, kTypeValue, k, v)))"
proof -
  have L: "db_iter c valid ops stat" using assms(1,2) by (simp add: db_iter_def internal_keys_def)
  have srt: "sorted_entries (InternalKeyComparator c) (valid_ikey valid) (map entry_of es)"
    by (rule iterator.at_sorted [OF assms(2,3)])
  have "valid_ikey valid (fst (entry_of e))" if "e \<in> set es" for e using srt that by (auto simp: sorted_entries_def)
  then have "\<forall>e \<in> set es. valid (e_key e)" by (auto simp: entry_of_iff valid_ikey_def)
  then have ok: "entries_ok c valid es" using assms(4) srt by (simp add: entries_ok_def)
  note I = db_iter.dbi_iterator [OF L]
  have at: "db_iter.dbi_at c valid stat (NewDBIterator c it snap seed) (user_view c snap es) (length (user_view c snap es))"
    by (rule db_iter.NewDBIterator_at [OF L assms(3) ok assms(5)])
  show ?thesis
    using iterator.run_moves_at [OF I at assms(6,7)] iterator.at_shows [OF I] iterator.at_sorted [OF I at]
      db_iter.user_view_iff [OF L ok] by blast
qed

text \<open>Two versions of key 1, a deleted key 2, and a key 3 that is newer than the snapshot.\<close>

definition demo_entries :: "entry list" where
  "demo_entries = [(6, kTypeValue, [1], [11]), (2, kTypeValue, [1], [10]), (4, kTypeDeletion, [2], []),
     (3, kTypeValue, [2], [20]), (9, kTypeValue, [3], [30])]"

lemma live_iff:
  "live c snap es i \<longleftrightarrow> i < length es \<and> e_seq (es ! i) \<le> snap \<and> e_type (es ! i) = kTypeValue \<and>
     list_all (\<lambda>e. \<not> visible c (e_key (es ! i)) snap e) (take i es)"
  by (auto simp: live_def list_all_length)

lemma demo_view: "user_view BytewiseComparator 5 demo_entries = [([1], [10])]"
  "user_view BytewiseComparator 9 demo_entries = [([1], [11]), ([3], [30])]"
  by (simp_all add: user_view_def live_positions_def live_iff demo_entries_def visible_def BytewiseComparator_def
    Slice_compare_lex upt_rec)

lemma demo_memtable:
  "\<exists>m. MemTable_AddAll demo_entries (MemTable_new BytewiseComparator) = Some m \<and>
     bytewise_mem.mem_at (m, None) (map entry_of demo_entries) (length demo_entries)"
proof -
  have ok: "\<forall>x \<in> set demo_entries. bytewise_mem.add_ok x"
    by (simp add: demo_entries_def bytewise_mem.add_ok_def short_key_def kMaxSequenceNumber_def)
  obtain m L where m: "MemTable_AddAll demo_entries (MemTable_new BytewiseComparator) = Some m"
    "bytewise_mem.mt_ok m L (set demo_entries)"
    using bytewise_mem.AddAll_correct [OF bytewise_mem.new_ok ok] by (auto simp: demo_entries_def)
  obtain ents where e: "bytewise_mem.mem_holds m L ents" "set ents = set demo_entries"
    using bytewise_mem.mt_ok_holds [OF m(2)] by blast
  have cmp: "Compare BytewiseComparator = Slice_compare" by (simp add: BytewiseComparator_def)
  have "sorted_entries (InternalKeyComparator BytewiseComparator) (valid_ikey short_key) (map entry_of demo_entries)"
    by (simp add: sorted_entries_def demo_entries_def entry_of_def bytewise_mem.icmp_new_less_iff kMaxSequenceNumber_def
      valid_ikey_def short_key_def cmp Slice_compare_lex)
  then have "map entry_of ents = map entry_of demo_entries"
    by (rule bytewise_mem.ik.sorted_entries_unique [OF bytewise_mem.mem_sorted [OF e(1)]]) (simp add: e(2))
  then have "bytewise_mem.mem_at (m, None) (map entry_of demo_entries) (length ents)"
    using bytewise_mem.MemTable_NewIterator_at [OF e(1)] by simp
  moreover have "length ents = length demo_entries" using \<open>map entry_of ents = map entry_of demo_entries\<close> by (metis length_map)
  ultimately show ?thesis using m(1) by auto
qed

theorem db_iterator_refines_witness:
  "\<exists>m d. MemTable_AddAll demo_entries (MemTable_new BytewiseComparator) = Some m \<and>
     run_moves (DBIter_ops MemTableIterator_ops) [ToLast, Backward, Forward] (NewDBIterator BytewiseComparator (m, None) 9 301) = Some d \<and>
     it_key (DBIter_ops MemTableIterator_ops) d = [3] \<and> it_value (DBIter_ops MemTableIterator_ops) d = Some [30]"
proof -
  obtain m where m: "MemTable_AddAll demo_entries (MemTable_new BytewiseComparator) = Some m"
    "bytewise_mem.mem_at (m, None) (map entry_of demo_entries) (length demo_entries)"
    using demo_memtable by blast
  have s: "\<forall>e \<in> set demo_entries. fst e \<le> kMaxSequenceNumber" "9 \<le> kMaxSequenceNumber"
    by (simp_all add: demo_entries_def kMaxSequenceNumber_def)
  have "(\<exists>d. run_moves (DBIter_ops MemTableIterator_ops) [ToLast, Backward, Forward] (NewDBIterator BytewiseComparator (m, None) 9 301) = Some d \<and>
      shows_position (DBIter_ops MemTableIterator_ops) d (user_view BytewiseComparator 9 demo_entries) 1) \<and>
    sorted_entries BytewiseComparator short_key (user_view BytewiseComparator 9 demo_entries) \<and>
    (\<forall>k v. (k, v) \<in> set (user_view BytewiseComparator 9 demo_entries) \<longleftrightarrow>
      (\<exists>s. newest_visible BytewiseComparator k 9 (set demo_entries) (s, kTypeValue, k, v)))"
    by (rule db_iterator_refines [OF bytewise_mem.separating_comparator_axioms bytewise_mem.memtable_iterator m(2) s])
      (simp_all add: demo_view)
  then show ?thesis using m(1) by (auto simp: shows_position_def demo_view)
qed

end
