(* ===== verification/VersionBuilder.thy ===== *)
theory VersionBuilder
  imports Versions LogWriter "HOL-Library.Multiset"
begin

section \<open>Version sets: versions, builders and reference counts (\<^verbatim>\<open>db/version_set.cc\<close>)\<close>

text \<open>
  A version set owns the heap of \<open>FileMetaData\<close> objects and the heap of versions. The circular
  list of versions that starts at \<open>dummy_versions_\<close> is the list of its elements; a version that
  is not in it yet links to itself. \<open>descriptor_file_\<close> is the file of \<open>descriptor_log_\<close>: both
  are null or both are not. A builder keeps, for each level, the ordered set of deleted file
  numbers and the added files, ordered by smallest key.
\<close>

type_synonym vptr = nat

record 'w VersionSet =
  vs_dbname :: bytes
  vs_options :: Options
  vs_ucmp :: Comparator
  vs_next_file_number :: u64
  vs_manifest_file_number :: u64
  vs_last_sequence :: u64
  vs_log_number :: u64
  vs_prev_log_number :: u64
  vs_descriptor_log :: "'w log_Writer option"
  vs_compact_pointer :: "bytes list"
  vs_current :: "vptr option"
  vs_versions :: "vptr list"
  vs_version_heap :: "vptr \<Rightarrow> Version option"
  vs_version_next :: vptr
  vs_file_heap :: FileHeap
  vs_file_next :: fptr

definition version :: "'w VersionSet \<Rightarrow> vptr \<Rightarrow> Version" where
  "version vs p = the (vs_version_heap vs p)"

definition update_version :: "vptr \<Rightarrow> (Version \<Rightarrow> Version) \<Rightarrow> 'w VersionSet \<Rightarrow> 'w VersionSet" where
  "update_version p f vs = vs\<lparr>vs_version_heap := (vs_version_heap vs)(p \<mapsto> f (version vs p))\<rparr>"

definition new_version :: "'w VersionSet \<Rightarrow> vptr \<times> 'w VersionSet" where
  "new_version vs = (vs_version_next vs,
     vs\<lparr>vs_version_heap := (vs_version_heap vs)(vs_version_next vs \<mapsto> Version_new),
        vs_version_next := vs_version_next vs + 1\<rparr>)"

subsection \<open>Reference counts\<close>

definition unref_file :: "fptr \<Rightarrow> FileHeap \<Rightarrow> FileHeap" where
  "unref_file f h =
     (let m = (fmd h f)\<lparr>refs := refs (fmd h f) - 1\<rparr> in if refs m \<le> 0 then h(f := None) else h(f \<mapsto> m))"

definition ref_file :: "fptr \<Rightarrow> FileHeap \<Rightarrow> FileHeap" where
  "ref_file f h = h(f \<mapsto> (fmd h f)\<lparr>refs := refs (fmd h f) + 1\<rparr>)"

definition Version_delete :: "vptr \<Rightarrow> 'w VersionSet \<Rightarrow> 'w VersionSet" where
  "Version_delete p vs =
     vs\<lparr>vs_versions := remove1 p (vs_versions vs),
        vs_file_heap := fold unref_file (concat (v_files (version vs p))) (vs_file_heap vs),
        vs_version_heap := (vs_version_heap vs)(p := None)\<rparr>"

definition Version_Ref :: "vptr \<Rightarrow> 'w VersionSet \<Rightarrow> 'w VersionSet" where
  "Version_Ref p = update_version p (\<lambda>v. v\<lparr>v_refs := v_refs v + 1\<rparr>)"

definition Version_Unref :: "vptr \<Rightarrow> 'w VersionSet \<Rightarrow> 'w VersionSet" where
  "Version_Unref p vs =
     (let vs = update_version p (\<lambda>v. v\<lparr>v_refs := v_refs v - 1\<rparr>) vs
      in if v_refs (version vs p) = 0 then Version_delete p vs else vs)"

definition AppendVersion :: "vptr \<Rightarrow> 'w VersionSet \<Rightarrow> 'w VersionSet" where
  "AppendVersion v vs =
     (let vs = (case vs_current vs of Some cur \<Rightarrow> Version_Unref cur vs | None \<Rightarrow> vs);
          vs = Version_Ref v (vs\<lparr>vs_current := Some v\<rparr>)
      in vs\<lparr>vs_versions := vs_versions vs @ [v]\<rparr>)"

definition VersionSet_new :: "bytes \<Rightarrow> Options \<Rightarrow> Comparator \<Rightarrow> 'w VersionSet" where
  "VersionSet_new dbname options ucmp =
     (let vs = \<lparr>vs_dbname = dbname, vs_options = options, vs_ucmp = ucmp, vs_next_file_number = 2,
            vs_manifest_file_number = 0, vs_last_sequence = 0, vs_log_number = 0, vs_prev_log_number = 0,
            vs_descriptor_log = None, vs_compact_pointer = replicate kNumLevels [], vs_current = None,
            vs_versions = [], vs_version_heap = Map.empty, vs_version_next = 0, vs_file_heap = Map.empty,
            vs_file_next = 0\<rparr>;
          (v, vs) = new_version vs
      in AppendVersion v vs)"

subsection \<open>The builder\<close>

record Builder =
  bd_base :: vptr
  bd_deleted :: "u64 list list"
  bd_added :: "fptr list list"

definition BySmallestKey :: "Comparator \<Rightarrow> FileHeap \<Rightarrow> fptr \<Rightarrow> fptr \<Rightarrow> bool" where
  "BySmallestKey c h f1 f2 =
     (let r = Compare (InternalKeyComparator c) (smallest (fmd h f1)) (smallest (fmd h f2))
      in if r \<noteq> 0 then r < 0 else fnumber (fmd h f1) < fnumber (fmd h f2))"

text \<open>\<open>std::set::insert\<close> with a comparator: an equivalent element that is there stays.\<close>

fun set_insert_by :: "('a \<Rightarrow> 'a \<Rightarrow> bool) \<Rightarrow> 'a \<Rightarrow> 'a list \<Rightarrow> 'a list" where
  "set_insert_by lt x [] = [x]"
| "set_insert_by lt x (y # ys) =
     (if lt x y then x # y # ys else if lt y x then y # set_insert_by lt x ys else y # ys)"

definition Builder_new :: "vptr \<Rightarrow> 'w VersionSet \<Rightarrow> Builder \<times> 'w VersionSet" where
  "Builder_new base vs =
     (\<lparr>bd_base = base, bd_deleted = replicate kNumLevels [], bd_added = replicate kNumLevels []\<rparr>,
      Version_Ref base vs)"

definition Builder_delete :: "Builder \<Rightarrow> 'w VersionSet \<Rightarrow> 'w VersionSet" where
  "Builder_delete b vs =
     Version_Unref (bd_base b) (vs\<lparr>vs_file_heap := fold unref_file (concat (bd_added b)) (vs_file_heap vs)\<rparr>)"

definition apply_compact_pointer :: "nat \<times> bytes \<Rightarrow> 'w VersionSet \<Rightarrow> 'w VersionSet" where
  "apply_compact_pointer p vs = vs\<lparr>vs_compact_pointer := (vs_compact_pointer vs)[fst p := snd p]\<rparr>"

definition apply_deleted :: "nat \<times> u64 \<Rightarrow> Builder \<Rightarrow> Builder" where
  "apply_deleted d b = b\<lparr>bd_deleted := (bd_deleted b)[fst d := set_insert (snd d) (bd_deleted b ! fst d)]\<rparr>"

definition seeks_for_size :: "u64 \<Rightarrow> int" where
  "seeks_for_size size' = (let n = sint (word_of_nat (unat size' div 16384) :: 32 word) in if n < 100 then 100 else n)"

definition apply_new_file :: "nat \<times> FileMetaData \<Rightarrow> Builder \<times> 'w VersionSet \<Rightarrow> Builder \<times> 'w VersionSet" where
  "apply_new_file nf bv =
     (let (b, vs) = bv; (level, m) = nf;
          f = vs_file_next vs;
          vs = vs\<lparr>vs_file_heap := (vs_file_heap vs)(f \<mapsto> m\<lparr>refs := 1, allowed_seeks := seeks_for_size (file_size m)\<rparr>),
                  vs_file_next := f + 1\<rparr>;
          b = b\<lparr>bd_deleted := (bd_deleted b)[level := set_erase (fnumber m) (bd_deleted b ! level)],
                bd_added := (bd_added b)[level :=
                  set_insert_by (BySmallestKey (vs_ucmp vs) (vs_file_heap vs)) f (bd_added b ! level)]\<rparr>
      in (b, vs))"

definition Builder_Apply :: "VersionEdit \<Rightarrow> Builder \<times> 'w VersionSet \<Rightarrow> Builder \<times> 'w VersionSet" where
  "Builder_Apply edit bv =
     (let (b, vs) = bv;
          vs = fold apply_compact_pointer (compact_pointers edit) vs;
          b = fold apply_deleted (deleted_files edit) b
      in fold apply_new_file (new_files edit) (b, vs))"

text \<open>
  \<open>SaveTo\<close> builds the file vector of each level; the vector and the file heap are the state of
  its loops. The base files are sorted, so \<open>std::upper_bound\<close> is the end of their longest
  prefix that the added file does not precede.
\<close>

definition MaybeAddFile :: "Builder \<Rightarrow> nat \<Rightarrow> fptr \<Rightarrow> fptr list \<times> FileHeap \<Rightarrow> fptr list \<times> FileHeap" where
  "MaybeAddFile b level f fh =
     (let (files, h) = fh
      in if fnumber (fmd h f) \<in> set (bd_deleted b ! level) then (files, h)
         else (files @ [f], ref_file f h))"

fun SaveTo_added ::
    "Builder \<Rightarrow> (FileHeap \<Rightarrow> fptr \<Rightarrow> fptr \<Rightarrow> bool) \<Rightarrow> nat \<Rightarrow> fptr list \<Rightarrow> fptr list \<Rightarrow> fptr list \<times> FileHeap \<Rightarrow>
     fptr list \<times> FileHeap" where
  "SaveTo_added b cmp level base_iter [] fh = fold (MaybeAddFile b level) base_iter fh"
| "SaveTo_added b cmp level base_iter (a # added) fh =
     (let before = takeWhile (\<lambda>x. \<not> cmp (snd fh) a x) base_iter;
          fh = fold (MaybeAddFile b level) before fh;
          fh = MaybeAddFile b level a fh
      in SaveTo_added b cmp level (drop (length before) base_iter) added fh)"

fun SaveTo_levels ::
    "Builder \<Rightarrow> Comparator \<Rightarrow> nat \<Rightarrow> fptr list list \<Rightarrow> FileHeap \<Rightarrow> fptr list list \<times> FileHeap" where
  "SaveTo_levels b c level [] h = ([], h)"
| "SaveTo_levels b c level (base_files # levels) h =
     (let (files, h) = SaveTo_added b (BySmallestKey c) level base_files (bd_added b ! level) ([], h);
          (rest, h) = SaveTo_levels b c (level + 1) levels h
      in (files # rest, h))"

definition Builder_SaveTo :: "Builder \<Rightarrow> vptr \<Rightarrow> 'w VersionSet \<Rightarrow> 'w VersionSet" where
  "Builder_SaveTo b v vs =
     (let (files, h) = SaveTo_levels b (vs_ucmp vs) 0 (v_files (version vs (bd_base b))) (vs_file_heap vs)
      in update_version v (\<lambda>w. w\<lparr>v_files := files\<rparr>) (vs\<lparr>vs_file_heap := h\<rparr>))"

subsection \<open>What a builder saves\<close>

text \<open>The part of a file's description that does not change while pointers to it are shared.\<close>

definition core :: "FileMetaData \<Rightarrow> u64 \<times> u64 \<times> bytes \<times> bytes" where
  "core m = (fnumber m, file_size m, smallest m, largest m)"

definition keeps_cores :: "FileHeap \<Rightarrow> FileHeap \<Rightarrow> bool" where
  "keeps_cores h h' \<longleftrightarrow> (\<forall>f \<in> dom h. f \<in> dom h' \<and> core (fmd h' f) = core (fmd h f))"

definition core_less :: "Comparator \<Rightarrow> u64 \<times> u64 \<times> bytes \<times> bytes \<Rightarrow> u64 \<times> u64 \<times> bytes \<times> bytes \<Rightarrow> bool" where
  "core_less c m1 m2 = (case m1 of (n1, _, s1, _) \<Rightarrow> case m2 of (n2, _, s2, _) \<Rightarrow>
     (let r = Compare (InternalKeyComparator c) s1 s2 in if r \<noteq> 0 then r < 0 else n1 < n2))"

lemma BySmallestKey_core: "BySmallestKey c h f g \<longleftrightarrow> core_less c (core (fmd h f)) (core (fmd h g))"
  by (simp add: BySmallestKey_def core_less_def core_def)

lemma keeps_cores_refl [simp]: "keeps_cores h h"
  by (simp add: keeps_cores_def)

lemma keeps_cores_trans: "keeps_cores h h' \<Longrightarrow> keeps_cores h' h'' \<Longrightarrow> keeps_cores h h''"
  by (auto simp: keeps_cores_def)

lemma keeps_coresD: "keeps_cores h h' \<Longrightarrow> f \<in> dom h \<Longrightarrow> core (fmd h' f) = core (fmd h f)"
  by (simp add: keeps_cores_def)

lemma keeps_cores_dom: "keeps_cores h h' \<Longrightarrow> dom h \<subseteq> dom h'"
  by (auto simp: keeps_cores_def)

lemma keeps_cores_fnumber: "keeps_cores h h' \<Longrightarrow> f \<in> dom h \<Longrightarrow> fnumber (fmd h' f) = fnumber (fmd h f)"
  using keeps_coresD [of h h' f] by (simp add: core_def)

lemma keeps_cores_set:
  "keeps_cores h h' \<Longrightarrow> set fs \<subseteq> dom h \<Longrightarrow> f \<in> set fs \<Longrightarrow> core (fmd h' f) = core (fmd h f)"
  "keeps_cores h h' \<Longrightarrow> set fs \<subseteq> dom h \<Longrightarrow> f \<in> set fs \<Longrightarrow> fnumber (fmd h' f) = fnumber (fmd h f)"
  using keeps_coresD [of h h' f] keeps_cores_fnumber [of h h' f] by blast+

lemma ref_file_cores [simp]: "f \<in> dom h \<Longrightarrow> keeps_cores h (ref_file f h)"
  by (auto simp: keeps_cores_def ref_file_def fmd_def core_def)

lemma fold_ref_file_cores: "set fs \<subseteq> dom h \<Longrightarrow> keeps_cores h (fold ref_file fs h)"
proof (induction fs arbitrary: h)
  case (Cons f fs)
  have "set fs \<subseteq> dom (ref_file f h)" using Cons.prems by (auto simp: ref_file_def)
  from keeps_cores_trans [OF ref_file_cores Cons.IH [OF this]] Cons.prems show ?case by simp
qed simp

text \<open>The merge of the base files with the added files, and the files that are kept.\<close>

fun merge_files :: "('a \<Rightarrow> 'a \<Rightarrow> bool) \<Rightarrow> 'a list \<Rightarrow> 'a list \<Rightarrow> 'a list" where
  "merge_files lt base [] = base"
| "merge_files lt base (a # added) =
     (let before = takeWhile (\<lambda>x. \<not> lt a x) base
      in before @ a # merge_files lt (drop (length before) base) added)"

definition kept :: "FileHeap \<Rightarrow> u64 list \<Rightarrow> fptr list \<Rightarrow> fptr list" where
  "kept h deleted fs = filter (\<lambda>f. fnumber (fmd h f) \<notin> set deleted) fs"

lemma kept_cong: "keeps_cores h h' \<Longrightarrow> set fs \<subseteq> dom h \<Longrightarrow> kept h' d fs = kept h d fs"
  unfolding kept_def by (intro filter_cong) (simp_all add: keeps_cores_set(2) del: subset_code)

lemma fold_MaybeAddFile:
  "set fs \<subseteq> dom h \<Longrightarrow> fold (MaybeAddFile b level) fs (files, h) =
     (files @ kept h (bd_deleted b ! level) fs, fold ref_file (kept h (bd_deleted b ! level) fs) h)"
proof (induction fs arbitrary: files h)
  case (Cons f fs)
  have k: "kept (ref_file f h) d fs = kept h d fs" for d
    by (rule kept_cong [OF ref_file_cores]) (use Cons.prems in auto)
  have "set fs \<subseteq> dom (ref_file f h)" using Cons.prems by (auto simp: ref_file_def)
  then show ?case
    using Cons.IH [of h] Cons.IH [of "ref_file f h"] Cons.prems k
    by (auto simp: MaybeAddFile_def kept_def)
qed (simp add: kept_def)

lemma kept_append: "kept h d (xs @ ys) = kept h d xs @ kept h d ys"
  by (simp add: kept_def)

lemma merge_files_cong:
  "keeps_cores h h' \<Longrightarrow> set base \<subseteq> dom h \<Longrightarrow> set added \<subseteq> dom h \<Longrightarrow>
   merge_files (BySmallestKey c h') base added = merge_files (BySmallestKey c h) base added"
proof (induction added arbitrary: base)
  case (Cons a added)
  have t: "takeWhile (\<lambda>x. \<not> BySmallestKey c h' a x) base = takeWhile (\<lambda>x. \<not> BySmallestKey c h a x) base"
    by (intro takeWhile_cong) (simp_all add: BySmallestKey_core keeps_cores_set(1) [OF Cons.prems(1,2)]
        keeps_cores_set(1) [OF Cons.prems(1,3)])
  have "set (drop n base) \<subseteq> dom h" for n using Cons.prems(2) set_drop_subset [of n base] by blast
  then show ?case using Cons.IH Cons.prems by (simp add: t)
qed simp

lemma set_merge_files: "set (merge_files lt base added) = set base \<union> set added"
proof (induction added arbitrary: base)
  case (Cons a added)
  let ?b = "takeWhile (\<lambda>x. \<not> lt a x) base"
  have "set base = set ?b \<union> set (drop (length ?b) base)"
    by (metis dropWhile_eq_drop set_append takeWhile_dropWhile_id)
  then show ?case using Cons by (auto simp: Let_def)
qed simp
lemma SaveTo_added_eq:
  "set base \<subseteq> dom h \<Longrightarrow> set added \<subseteq> dom h \<Longrightarrow>
   SaveTo_added b (BySmallestKey c) level base added (files, h) =
     (files @ kept h (bd_deleted b ! level) (merge_files (BySmallestKey c h) base added),
      fold ref_file (kept h (bd_deleted b ! level) (merge_files (BySmallestKey c h) base added)) h)"
proof (induction added arbitrary: base files h)
  case Nil
  then show ?case by (simp add: fold_MaybeAddFile)
next
  case (Cons a added)
  let ?d = "bd_deleted b ! level"
  let ?before = "takeWhile (\<lambda>x. \<not> BySmallestKey c h a x) base"
  let ?now = "?before @ [a]"
  let ?h = "fold ref_file (kept h ?d ?now) h"
  have now: "set ?now \<subseteq> dom h" using Cons.prems by (auto dest: set_takeWhileD)
  then have kd: "set (kept h ?d ?now) \<subseteq> dom h" by (auto simp: kept_def)
  note kc = fold_ref_file_cores [OF kd]
  have step: "MaybeAddFile b level a (fold (MaybeAddFile b level) ?before (files, h)) = (files @ kept h ?d ?now, ?h)"
    using fold_MaybeAddFile [OF now, of b level files] by simp
  have rest: "set (drop (length ?before) base) \<subseteq> dom h" "set added \<subseteq> dom h"
    using Cons.prems set_drop_subset [of "length ?before" base] by auto
  have m: "merge_files (BySmallestKey c ?h) (drop (length ?before) base) added =
      merge_files (BySmallestKey c h) (drop (length ?before) base) added"
    by (rule merge_files_cong [OF kc rest])
  have k: "kept ?h ?d (merge_files (BySmallestKey c h) (drop (length ?before) base) added) =
      kept h ?d (merge_files (BySmallestKey c h) (drop (length ?before) base) added)"
    by (rule kept_cong [OF kc]) (use rest in \<open>auto simp: set_merge_files\<close>)
  have "SaveTo_added b (BySmallestKey c) level base (a # added) (files, h) =
      SaveTo_added b (BySmallestKey c) level (drop (length ?before) base) added (files @ kept h ?d ?now, ?h)"
    using step by (simp add: Let_def)
  also have "\<dots> = (files @ kept h ?d ?now @ kept h ?d (merge_files (BySmallestKey c h) (drop (length ?before) base) added),
      fold ref_file (kept h ?d (merge_files (BySmallestKey c h) (drop (length ?before) base) added)) ?h)"
    using Cons.IH [of "drop (length ?before) base" ?h] rest keeps_cores_dom [OF kc] by (simp add: m k)
  finally show ?case
    using kept_append [of h ?d "[a]" "merge_files (BySmallestKey c h) (drop (length ?before) base) added"]
    by (simp add: kept_append Let_def)
qed


definition saved_level :: "Comparator \<Rightarrow> FileHeap \<Rightarrow> Builder \<Rightarrow> nat \<Rightarrow> fptr list \<Rightarrow> fptr list" where
  "saved_level c h b level base = kept h (bd_deleted b ! level) (merge_files (BySmallestKey c h) base (bd_added b ! level))"

lemma set_saved_level: "set (saved_level c h b level base) \<subseteq> set base \<union> set (bd_added b ! level)"
  by (auto simp: saved_level_def kept_def set_merge_files)

lemma saved_level_cong:
  "keeps_cores h h' \<Longrightarrow> set base \<subseteq> dom h \<Longrightarrow> set (bd_added b ! level) \<subseteq> dom h \<Longrightarrow>
   saved_level c h' b level base = saved_level c h b level base"
  unfolding saved_level_def by (subst merge_files_cong, assumption+, rule kept_cong) (auto simp: set_merge_files)

lemma SaveTo_levels_eq:
  assumes "\<forall>i < length levels. set (levels ! i) \<subseteq> dom h \<and> set (bd_added b ! (k + i)) \<subseteq> dom h"
  shows "SaveTo_levels b c k levels h =
    (map (\<lambda>(i, base). saved_level c h b i base) (enumerate k levels),
     fold ref_file (concat (map (\<lambda>(i, base). saved_level c h b i base) (enumerate k levels))) h)"
  using assms
proof (induction levels arbitrary: k h)
  case (Cons base levels)
  have b: "set base \<subseteq> dom h" "set (bd_added b ! k) \<subseteq> dom h" using Cons.prems by force+
  let ?h = "fold ref_file (saved_level c h b k base) h"
  have kc: "keeps_cores h ?h" by (rule fold_ref_file_cores) (use set_saved_level [of c h b k base] b in blast)
  have l: "SaveTo_added b (BySmallestKey c) k base (bd_added b ! k) ([], h) = (saved_level c h b k base, ?h)"
    using SaveTo_added_eq [OF b, of b c k "[]"] by (simp add: saved_level_def)
  have nx: "\<forall>i < length levels. set (levels ! i) \<subseteq> dom h \<and> set (bd_added b ! (Suc k + i)) \<subseteq> dom h"
    using Cons.prems by fastforce
  then have nx': "\<forall>i < length levels. set (levels ! i) \<subseteq> dom ?h \<and> set (bd_added b ! (Suc k + i)) \<subseteq> dom ?h"
    using keeps_cores_dom [OF kc] by blast
  have m: "map (\<lambda>(i, base). saved_level c ?h b i base) (enumerate (Suc k) levels) =
      map (\<lambda>(i, base). saved_level c h b i base) (enumerate (Suc k) levels)"
  proof (rule map_cong [OF refl])
    fix p assume p: "p \<in> set (enumerate (Suc k) levels)"
    obtain j x where jx: "p = (j, x)" by (cases p)
    have "Suc k \<le> j" "j < length levels + Suc k" "levels ! (j - Suc k) = x"
      using p unfolding jx in_set_enumerate_eq by simp_all
    then obtain i where i: "i < length levels" "p = (Suc k + i, levels ! i)"
      using that [of "j - Suc k"] jx by simp
    have "set (levels ! i) \<subseteq> dom h" "set (bd_added b ! (Suc k + i)) \<subseteq> dom h" using nx i(1) by blast+
    then show "(case p of (i, base) \<Rightarrow> saved_level c ?h b i base) = (case p of (i, base) \<Rightarrow> saved_level c h b i base)"
      unfolding i(2) prod.case by (rule saved_level_cong [OF kc])
  qed
  show ?case using Cons.IH [OF nx'] l by (simp add: m)
qed simp

text \<open>Merging two sorted lists without equivalent elements gives a sorted list.\<close>

definition strict_total :: "('a \<Rightarrow> 'a \<Rightarrow> bool) \<Rightarrow> 'a set \<Rightarrow> bool" where
  "strict_total lt S \<longleftrightarrow> (\<forall>x \<in> S. \<forall>y \<in> S. (x \<noteq> y \<longrightarrow> lt x y \<or> lt y x) \<and> \<not> (lt x y \<and> lt y x)) \<and>
     (\<forall>x \<in> S. \<forall>y \<in> S. \<forall>z \<in> S. lt x y \<longrightarrow> lt y z \<longrightarrow> lt x z)"

lemma strict_totalD:
  assumes "strict_total lt S" "x \<in> S" "y \<in> S"
  shows "x \<noteq> y \<Longrightarrow> lt x y \<or> lt y x" "lt x y \<Longrightarrow> \<not> lt y x" "z \<in> S \<Longrightarrow> lt x y \<Longrightarrow> lt y z \<Longrightarrow> lt x z"
  using assms unfolding strict_total_def by blast+

lemma strict_total_subset: "strict_total lt S \<Longrightarrow> T \<subseteq> S \<Longrightarrow> strict_total lt T"
  unfolding strict_total_def by blast

lemma sorted_merge_files:
  assumes "strict_total lt (set base \<union> set added)" "sorted_wrt lt base" "sorted_wrt lt added" "set base \<inter> set added = {}"
  shows "sorted_wrt lt (merge_files lt base added)"
  using assms
proof (induction added arbitrary: base)
  case (Cons a added)
  let ?before = "takeWhile (\<lambda>x. \<not> lt a x) base" and ?rest = "dropWhile (\<lambda>x. \<not> lt a x) base"
  note D = strict_totalD [OF Cons.prems(1)]
  have split: "base = ?before @ ?rest" by simp
  have sub: "set ?before \<subseteq> set base" "set ?rest \<subseteq> set base" by (auto dest: set_takeWhileD set_dropWhileD)
  have srt: "sorted_wrt lt ?before" "sorted_wrt lt ?rest" "\<forall>x \<in> set ?before. \<forall>y \<in> set ?rest. lt x y"
    using Cons.prems(2) sorted_wrt_append [of lt ?before ?rest] by simp_all
  have before: "lt x a" if "x \<in> set ?before" for x
  proof -
    have "\<not> lt a x" "x \<in> set base" using that by (auto dest: set_takeWhileD)
    moreover have "x \<noteq> a" using Cons.prems(4) \<open>x \<in> set base\<close> by auto
    ultimately show ?thesis using D(1) [of x a] by auto
  qed
  have after: "lt a x" if "x \<in> set ?rest" for x
  proof -
    have "?rest \<noteq> []" using that by (metis empty_iff empty_set)
    then obtain y ys where r: "?rest = y # ys" by (meson neq_Nil_conv)
    then have "lt a y" by (simp add: dropWhile_eq_Cons_conv)
    moreover have "y \<in> set base" "x \<in> set base" using sub(2) that r by auto
    moreover have "x = y \<or> lt y x" using srt(2) that r by auto
    ultimately show ?thesis using D(3) [of a y x] by auto
  qed
  have added: "lt a x" if "x \<in> set added" for x using Cons.prems(3) that by simp
  have m: "merge_files lt base (a # added) = ?before @ a # merge_files lt ?rest added"
    by (simp add: Let_def dropWhile_eq_drop)
  let ?M = "merge_files lt ?rest added"
  have setM: "set ?M = set ?rest \<union> set added" by (rule set_merge_files)
  have sM: "sorted_wrt lt ?M"
  proof (rule Cons.IH)
    show "strict_total lt (set ?rest \<union> set added)"
      by (rule strict_total_subset [OF Cons.prems(1)]) (use sub(2) in auto)
    show "set ?rest \<inter> set added = {}" using Cons.prems(4) sub(2) by auto
  qed (use srt(2) Cons.prems(3) in simp_all)
  have aM: "\<forall>y \<in> set ?M. lt a y" unfolding setM using after added by blast
  have bM: "lt x y" if "x \<in> set ?before" "y \<in> set ?M" for x y
  proof -
    have "a \<in> set base \<union> set (a # added)" "x \<in> set base \<union> set (a # added)" "y \<in> set base \<union> set (a # added)"
      using that sub setM by auto
    then show ?thesis using D(3) [of x a y] before [OF that(1)] aM that(2) by blast
  qed
  have "sorted_wrt lt (a # ?M)" using aM sM by (simp only: sorted_wrt.simps simp_thms)
  moreover have "\<forall>x \<in> set ?before. \<forall>y \<in> set (a # ?M). lt x y" using before bM by (simp only: list.set ball_simps) blast
  ultimately show ?case unfolding m sorted_wrt_append using srt(1) by blast
qed simp

lemma set_insert_by_sorted:
  assumes "strict_total lt (insert x (set ys))" "x \<notin> set ys" "sorted_wrt lt ys"
  shows "set (set_insert_by lt x ys) = insert x (set ys)" "sorted_wrt lt (set_insert_by lt x ys)"
proof -
  have "set (set_insert_by lt x ys) = insert x (set ys) \<and> sorted_wrt lt (set_insert_by lt x ys)"
    using assms
  proof (induction ys)
    case (Cons y ys)
    note D = strict_totalD [OF Cons.prems(1)]
    have IH: "set (set_insert_by lt x ys) = insert x (set ys) \<and> sorted_wrt lt (set_insert_by lt x ys)"
      by (rule Cons.IH) (use Cons.prems strict_total_subset [OF Cons.prems(1)] in auto)
    consider "lt x y" | "lt y x" "\<not> lt x y" using D(1) [of x y] Cons.prems(2) by auto
    then show ?case
    proof cases
      case 1
      have "lt x z" if "z \<in> set ys" for z using D(3) [of x y z] 1 Cons.prems(3) that by auto
      then show ?thesis using 1 Cons.prems(3) by simp
    next
      case 2
      then show ?thesis using IH Cons.prems(3) by auto
    qed
  qed simp
  then show "set (set_insert_by lt x ys) = insert x (set ys)" "sorted_wrt lt (set_insert_by lt x ys)" by simp_all
qed

text \<open>The order by smallest key is total on files with valid keys and different numbers.\<close>

definition core_valid :: "(bytes \<Rightarrow> bool) \<Rightarrow> u64 \<times> u64 \<times> bytes \<times> bytes \<Rightarrow> bool" where
  "core_valid valid m \<longleftrightarrow> valid_ikey valid (fst (snd (snd m)))"

text \<open>An edit that \<open>DecodeFrom\<close> accepts names existing levels; its keys are internal keys.\<close>

definition edit_ok :: "(bytes \<Rightarrow> bool) \<Rightarrow> VersionEdit \<Rightarrow> bool" where
  "edit_ok valid e \<longleftrightarrow> (\<forall>d \<in> set (deleted_files e). fst d < kNumLevels) \<and>
     (\<forall>nf \<in> set (new_files e). fst nf < kNumLevels \<and> valid_ikey valid (smallest (snd nf)))"

context internal_keys
begin

lemma core_less_total:
  assumes "\<forall>m \<in> M. core_valid valid m" "inj_on fst M"
  shows "strict_total (core_less c) M"
proof -
  have less: "core_less c m1 m2 \<longleftrightarrow> icmp (fst (snd (snd m1))) (fst (snd (snd m2))) < 0 \<or>
      icmp (fst (snd (snd m1))) (fst (snd (snd m2))) = 0 \<and> fst m1 < fst m2" for m1 m2
    by (auto simp: core_less_def Let_def split: prod.splits)
  show ?thesis
    unfolding strict_total_def
  proof (intro conjI ballI impI)
    fix m1 m2 assume m: "m1 \<in> M" "m2 \<in> M"
    note v = assms(1) [rule_format, OF m(1), unfolded core_valid_def] assms(1) [rule_format, OF m(2), unfolded core_valid_def]
    note g = ik.gt_iff_lt [OF v] ik.eq_sym [OF v]
    show "\<not> (core_less c m1 m2 \<and> core_less c m2 m1)" using g by (auto simp: less)
    show "core_less c m1 m2 \<or> core_less c m2 m1" if "m1 \<noteq> m2"
      using that g assms(2) m by (auto simp: less inj_on_def) (metis linorder_cases prod.collapse)+
    fix m3 assume m3: "m3 \<in> M" "core_less c m1 m2" "core_less c m2 m3"
    note v3 = assms(1) [rule_format, OF m3(1), unfolded core_valid_def]
    show "core_less c m1 m3"
      using m3(2,3) ik.lt_trans [OF v v3] ik.lt_le_trans [OF v v3] ik.le_lt_trans [OF v v3] ik.le_trans [OF v v3]
        ik.ge_iff_le [OF v(1) v3] ik.eq_sym [OF v] ik.eq_sym [OF v(2) v3] ik.le_trans [OF v3 v(2) v(1)]
      by (auto simp: less) 
  qed
qed

end

subsection \<open>Applying edits\<close>

text \<open>
  The reference: an edit removes the files whose numbers it deletes at a level and adds its new
  files. \<open>added_at\<close> lists the files a sequence of edits adds to a level.
\<close>

type_synonym file_core = "u64 \<times> u64 \<times> bytes \<times> bytes"

definition edit_new :: "nat \<Rightarrow> VersionEdit \<Rightarrow> file_core list" where
  "edit_new level e = map (\<lambda>nf. core (snd nf)) (filter (\<lambda>nf. fst nf = level) (new_files e))"

definition edit_deleted :: "nat \<Rightarrow> VersionEdit \<Rightarrow> u64 set" where
  "edit_deleted level e = {n. (level, n) \<in> set (deleted_files e)}"

definition apply_edit :: "nat \<Rightarrow> VersionEdit \<Rightarrow> file_core set \<Rightarrow> file_core set" where
  "apply_edit level e S = {m \<in> S. fst m \<notin> edit_deleted level e} \<union> set (edit_new level e)"

definition level_cores :: "FileHeap \<Rightarrow> fptr list \<Rightarrow> file_core set" where
  "level_cores h fs = (\<lambda>f. core (fmd h f)) ` set fs"

lemma level_cores_cong: "keeps_cores h h' \<Longrightarrow> set fs \<subseteq> dom h \<Longrightarrow> level_cores h' fs = level_cores h fs"
  unfolding level_cores_def by (intro image_cong refl) (rule keeps_cores_set(1))

lemma mset_set_insert_by: "x \<in> set (set_insert_by lt x ys) \<Longrightarrow> x \<notin> set ys \<Longrightarrow> mset (set_insert_by lt x ys) = add_mset x (mset ys)"
  by (induction ys) (auto split: if_splits)

lemma mset_concat_update:
  "l < length xss \<Longrightarrow> mset ys = add_mset x (mset (xss ! l)) \<Longrightarrow> mset (concat (xss[l := ys])) = add_mset x (mset (concat xss))"
proof (induction xss arbitrary: l)
  case (Cons xs xss)
  then show ?case by (cases l) auto
qed simp

text \<open>
  The builder alone refers to the files it allocated, each once; the older ones are as they
  were in the heap \<open>h0\<close> the builder started from.
\<close>

definition builder_fresh :: "FileHeap \<Rightarrow> fptr list list \<Rightarrow> FileHeap \<Rightarrow> bool" where
  "builder_fresh h0 added h \<longleftrightarrow> finite (dom h - dom h0) \<and> mset (concat added) = mset_set (dom h - dom h0) \<and>
     (\<forall>f \<in> dom h - dom h0. refs (fmd h f) = 1) \<and> (\<forall>f \<in> dom h0. h f = h0 f)"

lemma builder_fresh_new:
  assumes "builder_fresh h0 added h" "f \<notin> dom h" "refs m = 1" "l < length added"
    and "mset ys = add_mset f (mset (added ! l))"
  shows "builder_fresh h0 (added[l := ys]) (h(f \<mapsto> m))"
proof -
  have b: "finite (dom h - dom h0)" "mset (concat added) = mset_set (dom h - dom h0)"
    "\<forall>f \<in> dom h - dom h0. refs (fmd h f) = 1" "\<forall>f \<in> dom h0. h f = h0 f"
    using assms(1) unfolding builder_fresh_def by blast+
  have sub: "f \<notin> dom h0" using b(4) assms(2) by force
  then have D: "dom (h(f \<mapsto> m)) - dom h0 = insert f (dom h - dom h0)" by auto
  have "mset (concat (added[l := ys])) = mset_set (insert f (dom h - dom h0))"
    using mset_concat_update [OF assms(4,5)] b(1,2) assms(2) by simp
  moreover have "\<forall>g \<in> insert f (dom h - dom h0). refs (fmd (h(f \<mapsto> m)) g) = 1" using b(3) assms(3) by (simp add: fmd_def)
  moreover have "\<forall>g \<in> dom h0. (h(f \<mapsto> m)) g = h0 g" using b(4) sub by auto
  ultimately show ?thesis unfolding builder_fresh_def D using b(1) by blast
qed

context internal_keys
begin

text \<open>
  The builder's invariant: of each level, the cores of the base files and of the added files
  have different numbers, and both lists are sorted.
\<close>

definition builder_level ::
    "FileHeap \<Rightarrow> fptr list \<Rightarrow> fptr list \<Rightarrow> u64 list \<Rightarrow> file_core set \<Rightarrow> u64 set \<Rightarrow> bool" where
  "builder_level h base added deleted A D \<longleftrightarrow>
     set base \<subseteq> dom h \<and> set added \<subseteq> dom h \<and> level_cores h added = A \<and> set deleted = D \<and>
     sorted_wrt (<) deleted \<and> sorted_wrt (BySmallestKey c h) added \<and>
     (\<forall>m \<in> level_cores h base \<union> A. core_valid valid m) \<and>
     inj_on (\<lambda>f. fnumber (fmd h f)) (set base \<union> set added) \<and> set base \<inter> set added = {}"

definition builder_rep ::
    "FileHeap \<Rightarrow> fptr list list \<Rightarrow> Builder \<times> 'w VersionSet \<Rightarrow> (nat \<Rightarrow> file_core set) \<Rightarrow> (nat \<Rightarrow> u64 set) \<Rightarrow> bool" where
  "builder_rep h0 base bv A D \<longleftrightarrow> vs_ucmp (snd bv) = c \<and> builder_fresh h0 (bd_added (fst bv)) (vs_file_heap (snd bv)) \<and>
     (\<forall>f \<in> dom (vs_file_heap (snd bv)). f < vs_file_next (snd bv)) \<and>
     length base = kNumLevels \<and> length (bd_added (fst bv)) = kNumLevels \<and> length (bd_deleted (fst bv)) = kNumLevels \<and>
     (\<forall>l < kNumLevels. builder_level (vs_file_heap (snd bv)) (base ! l) (bd_added (fst bv) ! l) (bd_deleted (fst bv) ! l) (A l) (D l))"

lemma builder_level_cong:
  assumes "keeps_cores h h'" "builder_level h base added deleted A D"
  shows "builder_level h' base added deleted A D"
proof -
  have b: "set base \<subseteq> dom h" "set added \<subseteq> dom h" using assms(2) by (simp_all add: builder_level_def)
  have "sorted_wrt (BySmallestKey c h) added \<longleftrightarrow> sorted_wrt (BySmallestKey c h') added"
    by (intro iffI) (erule sorted_wrt_mono_rel [rotated], simp add: BySmallestKey_core keeps_cores_set(1) [OF assms(1) b(2)])+
  moreover have "inj_on (\<lambda>f. fnumber (fmd h' f)) (set base \<union> set added) \<longleftrightarrow> inj_on (\<lambda>f. fnumber (fmd h f)) (set base \<union> set added)"
    by (rule inj_on_cong) (use keeps_cores_set(2) [OF assms(1) b(1)] keeps_cores_set(2) [OF assms(1) b(2)] in auto)
  ultimately show ?thesis
    using assms(2) keeps_cores_dom [OF assms(1)]
    unfolding builder_level_def level_cores_cong [OF assms(1) b(1)] level_cores_cong [OF assms(1) b(2)] by blast
qed

lemma apply_deleted_rep:
  assumes "builder_rep h0 base (b, vs) A D" "fst d < kNumLevels"
  shows "builder_rep h0 base (apply_deleted d b, vs) A (D(fst d := insert (snd d) (D (fst d))))"
  using assms by (auto simp: builder_rep_def apply_deleted_def builder_level_def nth_list_update)

lemma fold_apply_deleted_rep:
  "builder_rep h0 base (b, vs) A D \<Longrightarrow> \<forall>d \<in> set ds. fst d < kNumLevels \<Longrightarrow>
   builder_rep h0 base (fold apply_deleted ds b, vs) A (\<lambda>l. D l \<union> {n. (l, n) \<in> set ds})"
proof (induction ds arbitrary: b D)
  case (Cons d ds)
  have "builder_rep h0 base (fold apply_deleted ds (apply_deleted d b), vs) A
      (\<lambda>l. (D(fst d := insert (snd d) (D (fst d)))) l \<union> {n. (l, n) \<in> set ds})"
    using Cons.IH [OF apply_deleted_rep [OF Cons.prems(1)]] Cons.prems(2) by simp
  moreover have "(\<lambda>l. (D(fst d := insert (snd d) (D (fst d)))) l \<union> {n. (l, n) \<in> set ds}) =
      (\<lambda>l. D l \<union> {n. (l, n) \<in> set (d # ds)})"
    by (cases d) (auto simp: fun_eq_iff)
  ultimately show ?case by simp
qed simp

lemma apply_new_file_rep:
  assumes rep: "builder_rep h0 base (b, vs) A D" and nf: "fst nf < kNumLevels" "core_valid valid (core (snd nf))"
    and fresh: "fnumber (snd nf) \<notin> fst ` (level_cores (vs_file_heap vs) (base ! fst nf) \<union> A (fst nf))"
  shows "builder_rep h0 base (apply_new_file nf (b, vs)) (A(fst nf := insert (core (snd nf)) (A (fst nf))))
      (D(fst nf := D (fst nf) - {fnumber (snd nf)}))"
    "keeps_cores (vs_file_heap vs) (vs_file_heap (snd (apply_new_file nf (b, vs))))"
proof -
  obtain level m where lm: "nf = (level, m)" by (cases nf)
  let ?h = "vs_file_heap vs" and ?f = "vs_file_next vs"
  let ?h' = "?h(?f \<mapsto> m\<lparr>refs := 1, allowed_seeks := seeks_for_size (file_size m)\<rparr>)"
  have new: "?f \<notin> dom ?h" using rep by (auto simp: builder_rep_def)
  have kc: "keeps_cores ?h ?h'" using new by (auto simp: keeps_cores_def fmd_def)
  have fc: "core (fmd ?h' ?f) = core m" "fnumber (fmd ?h' ?f) = fnumber m" by (simp_all add: fmd_def core_def)
  show "keeps_cores ?h (vs_file_heap (snd (apply_new_file nf (b, vs))))"
    using kc by (simp add: apply_new_file_def lm Let_def)
  have c: "vs_ucmp vs = c" using rep by (simp add: builder_rep_def)
  have lv: "builder_level ?h' (base ! l) (bd_added b ! l) (bd_deleted b ! l) (A l) (D l)" if "l < kNumLevels" for l
    using builder_level_cong [OF kc] rep that by (simp add: builder_rep_def)
  let ?base = "base ! level" and ?added = "bd_added b ! level" and ?del = "bd_deleted b ! level"
  let ?added' = "set_insert_by (BySmallestKey c ?h') ?f ?added"
  have old: "builder_level ?h ?base ?added ?del (A level) (D level)" using rep nf(1) by (simp add: builder_rep_def lm)
  have bl: "builder_level ?h' ?base ?added ?del (A level) (D level)" by (rule lv) (use nf(1) lm in simp)
  have sub: "set ?base \<subseteq> dom ?h" "set ?added \<subseteq> dom ?h" using old by (simp_all add: builder_level_def)
  have fn: "?f \<notin> set ?base" "?f \<notin> set ?added" using new sub by auto
  have nums: "fnumber m \<noteq> fnumber (fmd ?h' g)" if "g \<in> set ?base \<union> set ?added" for g
  proof -
    have "core (fmd ?h g) \<in> level_cores ?h ?base \<union> A level"
      using that old by (auto simp: level_cores_def builder_level_def)
    moreover have "fst (core (fmd ?h g)) = fnumber (fmd ?h' g)"
      using that keeps_cores_set(2) [OF kc sub(1), of g] keeps_cores_set(2) [OF kc sub(2), of g] by (auto simp: core_def)
    ultimately show ?thesis using fresh by (force simp: lm)
  qed
  have inj: "inj_on (\<lambda>f. fnumber (fmd ?h' f)) (set ?base \<union> insert ?f (set ?added))"
  proof -
    have "inj_on (\<lambda>f. fnumber (fmd ?h' f)) (set ?base \<union> set ?added)" using bl unfolding builder_level_def by blast
    then have "inj_on (\<lambda>f. fnumber (fmd ?h' f)) (insert ?f (set ?base \<union> set ?added))"
      using nums fc(2) by (auto simp: inj_on_insert)
    then show ?thesis by simp
  qed
  have tot: "strict_total (BySmallestKey c ?h') (insert ?f (set ?added))"
  proof -
    let ?M = "(\<lambda>f. core (fmd ?h' f)) ` insert ?f (set ?added)"
    have "level_cores ?h' ?added = A level" "\<forall>m \<in> A level. core_valid valid m"
      using bl unfolding builder_level_def by blast+
    then have v: "\<forall>m \<in> ?M. core_valid valid m" using nf(2) fc(1) by (auto simp: level_cores_def lm)
    have i: "inj_on (\<lambda>f. fnumber (fmd ?h' f)) (insert ?f (set ?added))" by (rule inj_on_subset [OF inj]) auto
    have "inj_on fst ?M" using i by (auto simp: inj_on_def core_def)
    from core_less_total [OF v this] have T: "strict_total (core_less c) ?M" .
    have ic: "x = y" if "core (fmd ?h' x) = core (fmd ?h' y)" "x \<in> insert ?f (set ?added)" "y \<in> insert ?f (set ?added)" for x y
      using inj_onD [OF i _ that(2,3)] that(1) by (simp add: core_def)
    show ?thesis
      unfolding strict_total_def BySmallestKey_core
    proof (intro conjI ballI impI)
      fix x y assume xy: "x \<in> insert ?f (set ?added)" "y \<in> insert ?f (set ?added)"
      note D = strict_totalD [OF T imageI [OF xy(1)] imageI [OF xy(2)]]
      show "core_less c (core (fmd ?h' x)) (core (fmd ?h' y)) \<or> core_less c (core (fmd ?h' y)) (core (fmd ?h' x))"
        if "x \<noteq> y" using D(1) ic [OF _ xy] that by blast
      show "\<not> (core_less c (core (fmd ?h' x)) (core (fmd ?h' y)) \<and> core_less c (core (fmd ?h' y)) (core (fmd ?h' x)))"
        using D(2) by blast
      show "core_less c (core (fmd ?h' x)) (core (fmd ?h' z))"
        if "z \<in> insert ?f (set ?added)" "core_less c (core (fmd ?h' x)) (core (fmd ?h' y))"
          "core_less c (core (fmd ?h' y)) (core (fmd ?h' z))" for z
        using D(3) [OF imageI [OF that(1)] that(2,3)] .
    qed
  qed
  have srt: "sorted_wrt (BySmallestKey c ?h') ?added" using bl unfolding builder_level_def by blast
  note ins = set_insert_by_sorted [OF tot fn(2) srt]
  have sd: "sorted_wrt (<) ?del" "set ?del = D level" using bl unfolding builder_level_def by blast+
  have "mset ?added' = add_mset ?f (mset ?added)" by (rule mset_set_insert_by) (use ins(1) fn(2) in auto)
  then have fr: "builder_fresh h0 ((bd_added b)[level := ?added']) ?h'"
    using rep nf(1) new by (intro builder_fresh_new) (auto simp: builder_rep_def lm)
  have "builder_level ?h' ?base ?added' (set_erase (fnumber m) ?del) (insert (core m) (A level)) (D level - {fnumber m})"
    unfolding builder_level_def ins(1)
  proof (intro conjI)
    show "set ?base \<subseteq> dom ?h'" "insert ?f (set ?added) \<subseteq> dom ?h'" using sub by auto
    show "level_cores ?h' ?added' = insert (core m) (A level)"
      using bl fc(1) by (simp add: level_cores_def ins(1) builder_level_def)
    show "set (set_erase (fnumber m) ?del) = D level - {fnumber m}" "sorted_wrt (<) (set_erase (fnumber m) ?del)"
      using sd by simp_all
    show "sorted_wrt (BySmallestKey c ?h') ?added'" by (rule ins(2))
    show "\<forall>m \<in> level_cores ?h' ?base \<union> insert (core m) (A level). core_valid valid m"
      using bl nf(2) lm unfolding builder_level_def by auto
    show "inj_on (\<lambda>f. fnumber (fmd ?h' f)) (set ?base \<union> insert ?f (set ?added))" by (rule inj)
    show "set ?base \<inter> insert ?f (set ?added) = {}" using bl fn unfolding builder_level_def by auto
  qed
  then show "builder_rep h0 base (apply_new_file nf (b, vs)) (A(fst nf := insert (core (snd nf)) (A (fst nf))))
      (D(fst nf := D (fst nf) - {fnumber (snd nf)}))"
    using rep lv nf(1) c fr
    by (auto simp: builder_rep_def apply_new_file_def lm Let_def nth_list_update less_Suc_eq)
qed

lemma fold_apply_new_file_rep:
  assumes "builder_rep h0 base (b, vs) A D" "\<forall>nf \<in> set nfs. fst nf < kNumLevels \<and> core_valid valid (core (snd nf))"
    and "\<forall>l. distinct (map (\<lambda>nf. fnumber (snd nf)) (filter (\<lambda>nf. fst nf = l) nfs))"
    and "\<forall>nf \<in> set nfs. fnumber (snd nf) \<notin> fst ` (level_cores (vs_file_heap vs) (base ! fst nf) \<union> A (fst nf))"
  shows "builder_rep h0 base (fold apply_new_file nfs (b, vs)) (\<lambda>l. A l \<union> {core m | m. (l, m) \<in> set nfs})
      (\<lambda>l. D l - {fnumber m | m. (l, m) \<in> set nfs}) \<and>
    keeps_cores (vs_file_heap vs) (vs_file_heap (snd (fold apply_new_file nfs (b, vs))))"
  using assms
proof (induction nfs arbitrary: b vs A D)
  case (Cons nf nfs)
  obtain b1 vs1 where s: "apply_new_file nf (b, vs) = (b1, vs1)" by force
  obtain level m where lm: "nf = (level, m)" by (cases nf)
  let ?A = "A(level := insert (core m) (A level))" and ?D = "D(level := D level - {fnumber m})"
  have r: "builder_rep h0 base (b1, vs1) ?A ?D" "keeps_cores (vs_file_heap vs) (vs_file_heap vs1)"
    using apply_new_file_rep [OF Cons.prems(1), of nf] Cons.prems(2,4) s lm by auto
  have base: "set (base ! l) \<subseteq> dom (vs_file_heap vs)" if "l < kNumLevels" for l
    using Cons.prems(1) that by (simp add: builder_rep_def builder_level_def)
  have d: "\<forall>l. distinct (map (\<lambda>nf. fnumber (snd nf)) (filter (\<lambda>nf. fst nf = l) nfs))"
  proof
    fix l
    show "distinct (map (\<lambda>nf. fnumber (snd nf)) (filter (\<lambda>nf. fst nf = l) nfs))"
      using Cons.prems(3) [rule_format, of l] by (simp split: if_splits)
  qed
  have f: "\<forall>nf \<in> set nfs. fnumber (snd nf) \<notin> fst ` (level_cores (vs_file_heap vs1) (base ! fst nf) \<union> ?A (fst nf))"
  proof
    fix nf' assume n: "nf' \<in> set nfs"
    then have "level_cores (vs_file_heap vs1) (base ! fst nf') = level_cores (vs_file_heap vs) (base ! fst nf')"
      using level_cores_cong [OF r(2) base] Cons.prems(2) by simp
    moreover have "fnumber (snd nf') \<noteq> fnumber m" if "fst nf' = level"
    proof -
      have "fnumber m \<notin> (\<lambda>nf. fnumber (snd nf)) ` set (filter (\<lambda>nf. fst nf = level) nfs)"
        using Cons.prems(3) [rule_format, of level] by (simp add: lm)
      moreover have "nf' \<in> set (filter (\<lambda>nf. fst nf = level) nfs)" using n that by simp
      then have "fnumber (snd nf') \<in> (\<lambda>nf. fnumber (snd nf)) ` set (filter (\<lambda>nf. fst nf = level) nfs)" by (rule imageI)
      ultimately show ?thesis by metis
    qed
    moreover have "fnumber (snd nf') \<notin> fst ` (level_cores (vs_file_heap vs) (base ! fst nf') \<union> A (fst nf'))"
      using Cons.prems(4) n by simp
    ultimately show "fnumber (snd nf') \<notin> fst ` (level_cores (vs_file_heap vs1) (base ! fst nf') \<union> ?A (fst nf'))"
      by (cases "fst nf' = level") (auto simp: core_def)
  qed
  have IH: "builder_rep h0 base (fold apply_new_file nfs (b1, vs1)) (\<lambda>l. ?A l \<union> {core m | m. (l, m) \<in> set nfs})
      (\<lambda>l. ?D l - {fnumber m | m. (l, m) \<in> set nfs}) \<and>
    keeps_cores (vs_file_heap vs1) (vs_file_heap (snd (fold apply_new_file nfs (b1, vs1))))"
    by (rule Cons.IH [OF r(1) _ d f]) (use Cons.prems(2) in simp)
  moreover have "(\<lambda>l. ?A l \<union> {core m | m. (l, m) \<in> set nfs}) = (\<lambda>l. A l \<union> {core m | m. (l, m) \<in> set (nf # nfs)})"
    "(\<lambda>l. ?D l - {fnumber m | m. (l, m) \<in> set nfs}) = (\<lambda>l. D l - {fnumber m | m. (l, m) \<in> set (nf # nfs)})"
    by (auto simp: fun_eq_iff lm)
  ultimately show ?case using s keeps_cores_trans [OF r(2)] by simp
qed simp

lemma fold_compact_pointer:
  "vs_file_heap (fold apply_compact_pointer ps vs) = vs_file_heap vs" "vs_file_next (fold apply_compact_pointer ps vs) = vs_file_next vs"
  "vs_ucmp (fold apply_compact_pointer ps vs) = vs_ucmp vs"
  by (induction ps arbitrary: vs) (simp_all add: apply_compact_pointer_def)

lemma Builder_Apply_rep:
  assumes rep: "builder_rep h0 base bv A D" and ok: "edit_ok valid e"
    and "\<forall>l. distinct (map fst (edit_new l e))"
    and "\<forall>l < kNumLevels. fst ` set (edit_new l e) \<inter> fst ` (level_cores (vs_file_heap (snd bv)) (base ! l) \<union> A l) = {}"
  shows "builder_rep h0 base (Builder_Apply e bv) (\<lambda>l. A l \<union> set (edit_new l e))
      (\<lambda>l. D l \<union> edit_deleted l e - fst ` set (edit_new l e)) \<and>
    keeps_cores (vs_file_heap (snd bv)) (vs_file_heap (snd (Builder_Apply e bv)))"
proof -
  obtain b vs where bv: "bv = (b, vs)" by (cases bv)
  let ?vs = "fold apply_compact_pointer (compact_pointers e) vs" and ?b = "fold apply_deleted (deleted_files e) b"
  have "builder_rep h0 base (b, ?vs) A D" using rep by (simp add: bv builder_rep_def fold_compact_pointer)
  from fold_apply_deleted_rep [OF this] have r: "builder_rep h0 base (?b, ?vs) A (\<lambda>l. D l \<union> edit_deleted l e)"
    using ok by (simp add: edit_ok_def edit_deleted_def)
  have new: "set (edit_new l e) = {core m | m. (l, m) \<in> set (new_files e)}" for l
    by (force simp: edit_new_def)
  have nums: "fst ` set (edit_new l e) = {fnumber m | m. (l, m) \<in> set (new_files e)}" for l
    by (force simp: new core_def)
  have d: "\<forall>l. distinct (map (\<lambda>nf. fnumber (snd nf)) (filter (\<lambda>nf. fst nf = l) (new_files e)))"
    using assms(3) by (simp add: edit_new_def comp_def core_def)
  have f: "\<forall>nf \<in> set (new_files e). fnumber (snd nf) \<notin> fst ` (level_cores (vs_file_heap ?vs) (base ! fst nf) \<union> A (fst nf))"
  proof
    fix nf assume n: "nf \<in> set (new_files e)"
    then have "fnumber (snd nf) \<in> fst ` set (edit_new (fst nf) e)" unfolding nums by (cases nf) auto
    moreover have "fst nf < kNumLevels" using ok n by (simp add: edit_ok_def)
    ultimately show "fnumber (snd nf) \<notin> fst ` (level_cores (vs_file_heap ?vs) (base ! fst nf) \<union> A (fst nf))"
      using assms(4) by (auto simp: bv fold_compact_pointer)
  qed
  have v: "\<forall>nf \<in> set (new_files e). fst nf < kNumLevels \<and> core_valid valid (core (snd nf))"
    using ok by (simp add: edit_ok_def core_valid_def core_def)
  from fold_apply_new_file_rep [OF r v d f] show ?thesis
    by (simp add: bv Builder_Apply_def Let_def new [symmetric] nums [symmetric] fold_compact_pointer)
qed

lemma Builder_Apply_edits:
  assumes "builder_rep h0 base bv A D" "\<forall>e \<in> set edits. edit_ok valid e"
    and "\<forall>l. distinct (map fst (concat (map (edit_new l) edits)))"
    and "\<forall>l < kNumLevels. fst ` set (concat (map (edit_new l) edits)) \<inter>
      fst ` (level_cores (vs_file_heap (snd bv)) (base ! l) \<union> A l) = {}"
  shows "\<exists>A' D'. builder_rep h0 base (fold Builder_Apply edits bv) A' D' \<and>
    keeps_cores (vs_file_heap (snd bv)) (vs_file_heap (snd (fold Builder_Apply edits bv))) \<and>
    (\<forall>l < kNumLevels. {m \<in> level_cores (vs_file_heap (snd bv)) (base ! l) \<union> A' l. fst m \<notin> D' l} =
      fold (apply_edit l) edits {m \<in> level_cores (vs_file_heap (snd bv)) (base ! l) \<union> A l. fst m \<notin> D l})"
  using assms
proof (induction edits arbitrary: bv A D)
  case Nil
  then show ?case by auto
next
  case (Cons e edits)
  let ?B = "\<lambda>l. level_cores (vs_file_heap (snd bv)) (base ! l)"
  let ?bv = "Builder_Apply e bv" and ?A = "\<lambda>l. A l \<union> set (edit_new l e)"
    and ?D = "\<lambda>l. D l \<union> edit_deleted l e - fst ` set (edit_new l e)"
  have d: "\<forall>l. distinct (map fst (edit_new l e))" "\<forall>l. distinct (map fst (concat (map (edit_new l) edits)))"
    "\<And>l. fst ` set (edit_new l e) \<inter> fst ` set (concat (map (edit_new l) edits)) = {}"
    using Cons.prems(3) by simp_all
  have f: "fst ` set (edit_new l e) \<inter> fst ` (?B l \<union> A l) = {}"
    "fst ` set (concat (map (edit_new l) edits)) \<inter> fst ` (?B l \<union> A l) = {}" if "l < kNumLevels" for l
    using Cons.prems(4) [rule_format, OF that] unfolding list.map concat.simps set_append image_Un by blast+
  have r: "builder_rep h0 base ?bv ?A ?D \<and> keeps_cores (vs_file_heap (snd bv)) (vs_file_heap (snd ?bv))"
    by (rule Builder_Apply_rep [OF Cons.prems(1) _ d(1)]) (use Cons.prems(2) f(1) in simp_all)
  then have r1: "builder_rep h0 base ?bv ?A ?D" and kc: "keeps_cores (vs_file_heap (snd bv)) (vs_file_heap (snd ?bv))" by auto
  have B: "level_cores (vs_file_heap (snd ?bv)) (base ! l) = ?B l" if "l < kNumLevels" for l
    by (rule level_cores_cong [OF kc]) (use Cons.prems(1) that in \<open>simp add: builder_rep_def builder_level_def\<close>)
  have f': "\<forall>l < kNumLevels. fst ` set (concat (map (edit_new l) edits)) \<inter>
      fst ` (level_cores (vs_file_heap (snd ?bv)) (base ! l) \<union> ?A l) = {}"
  proof (intro allI impI)
    fix l :: nat assume l: "l < kNumLevels"
    show "fst ` set (concat (map (edit_new l) edits)) \<inter>
        fst ` (level_cores (vs_file_heap (snd ?bv)) (base ! l) \<union> ?A l) = {}"
      using f(2) [OF l] d(3) [of l] unfolding B [OF l] image_Un by blast
  qed
  obtain A' D' where IH: "builder_rep h0 base (fold Builder_Apply edits ?bv) A' D'"
    "keeps_cores (vs_file_heap (snd ?bv)) (vs_file_heap (snd (fold Builder_Apply edits ?bv)))"
    "\<forall>l < kNumLevels. {m \<in> level_cores (vs_file_heap (snd ?bv)) (base ! l) \<union> A' l. fst m \<notin> D' l} =
      fold (apply_edit l) edits {m \<in> level_cores (vs_file_heap (snd ?bv)) (base ! l) \<union> ?A l. fst m \<notin> ?D l}"
    using Cons.IH [OF r1 _ d(2) f'] Cons.prems(2) by auto
  have "{m \<in> ?B l \<union> ?A l. fst m \<notin> ?D l} = apply_edit l e {m \<in> ?B l \<union> A l. fst m \<notin> D l}" if "l < kNumLevels" for l
    using f(1) [OF that] unfolding apply_edit_def by (auto 4 3)
  then show ?case using IH keeps_cores_trans [OF kc IH(2)] B by (intro exI [of _ A'] exI [of _ D']) simp
qed

text \<open>What \<open>SaveTo\<close> stores at a level.\<close>

lemma builder_level_saved:
  assumes bl: "builder_level h base (bd_added b ! l) (bd_deleted b ! l) A D" and srt: "sorted_wrt (BySmallestKey c h) base"
  shows "level_cores h (saved_level c h b l base) = {m \<in> level_cores h base \<union> A. fst m \<notin> D}"
    "sorted_wrt (BySmallestKey c h) (saved_level c h b l base)"
    "set (saved_level c h b l base) \<subseteq> dom h" "inj_on (\<lambda>f. fnumber (fmd h f)) (set (saved_level c h b l base))"
    "distinct (saved_level c h b l base)"
proof -
  let ?added = "bd_added b ! l"
  have b: "set base \<subseteq> dom h" "set ?added \<subseteq> dom h" "level_cores h ?added = A" "set (bd_deleted b ! l) = D"
    "sorted_wrt (BySmallestKey c h) ?added" "\<forall>m \<in> level_cores h base \<union> A. core_valid valid m"
    "inj_on (\<lambda>f. fnumber (fmd h f)) (set base \<union> set ?added)" "set base \<inter> set ?added = {}"
    using bl unfolding builder_level_def by blast+
  show "level_cores h (saved_level c h b l base) = {m \<in> level_cores h base \<union> A. fst m \<notin> D}"
    unfolding level_cores_def saved_level_def kept_def b(3,4) [symmetric]
    by (auto simp: set_merge_files core_def)
  have tot: "strict_total (BySmallestKey c h) (set base \<union> set ?added)"
  proof -
    let ?S = "set base \<union> set ?added" let ?M = "(\<lambda>f. core (fmd h f)) ` ?S"
    have "\<forall>m \<in> ?M. core_valid valid m" using b(6) unfolding b(3) [symmetric] level_cores_def by blast
    moreover have "inj_on fst ?M" using b(7) by (auto simp: inj_on_def core_def)
    ultimately have T: "strict_total (core_less c) ?M" by (rule core_less_total)
    have ic: "x = y" if "core (fmd h x) = core (fmd h y)" "x \<in> ?S" "y \<in> ?S" for x y
      using inj_onD [OF b(7) _ that(2,3)] that(1) by (simp add: core_def)
    show ?thesis
      unfolding strict_total_def BySmallestKey_core
    proof (intro conjI ballI impI)
      fix x y assume xy: "x \<in> ?S" "y \<in> ?S"
      note D = strict_totalD [OF T imageI [OF xy(1)] imageI [OF xy(2)]]
      show "core_less c (core (fmd h x)) (core (fmd h y)) \<or> core_less c (core (fmd h y)) (core (fmd h x))"
        if "x \<noteq> y" using D(1) ic [OF _ xy] that by blast
      show "\<not> (core_less c (core (fmd h x)) (core (fmd h y)) \<and> core_less c (core (fmd h y)) (core (fmd h x)))"
        using D(2) by blast
      show "core_less c (core (fmd h x)) (core (fmd h z))"
        if "z \<in> ?S" "core_less c (core (fmd h x)) (core (fmd h y))" "core_less c (core (fmd h y)) (core (fmd h z))" for z
        using D(3) [OF imageI [OF that(1)] that(2,3)] .
    qed
  qed
  have sm: "sorted_wrt (BySmallestKey c h) (merge_files (BySmallestKey c h) base ?added)"
    by (rule sorted_merge_files [OF tot srt b(5,8)])
  then show s: "sorted_wrt (BySmallestKey c h) (saved_level c h b l base)"
    unfolding saved_level_def kept_def by (rule sorted_wrt_filter)
  show "set (saved_level c h b l base) \<subseteq> dom h" using set_saved_level [of c h b l base] b(1,2) by blast
  show "inj_on (\<lambda>f. fnumber (fmd h f)) (set (saved_level c h b l base))"
    by (rule inj_on_subset [OF b(7) set_saved_level])
  have "x \<noteq> y" if "x \<in> set base \<union> set ?added" "BySmallestKey c h x y" for x y
    using strict_totalD(2) [OF tot that(1) that(1)] that(2) by auto
  then show "distinct (saved_level c h b l base)"
    using s set_saved_level [of c h b l base] unfolding distinct_conv_nth sorted_wrt_iff_nth_less
    by (metis linorder_neqE_nat nth_mem subsetD)
qed

end

text \<open>The files of a version: allocated, with valid keys, different numbers, and sorted.\<close>

definition base_level_ok :: "Comparator \<Rightarrow> (bytes \<Rightarrow> bool) \<Rightarrow> FileHeap \<Rightarrow> fptr list \<Rightarrow> bool" where
  "base_level_ok c valid h files \<longleftrightarrow> set files \<subseteq> dom h \<and> (\<forall>f \<in> set files. valid_ikey valid (smallest (fmd h f))) \<and>
     inj_on (\<lambda>f. fnumber (fmd h f)) (set files) \<and> sorted_wrt (BySmallestKey c h) files"

context internal_keys
begin

lemma Builder_new_rep:
  assumes "vs_ucmp vs = c" "\<forall>f \<in> dom (vs_file_heap vs). f < vs_file_next vs"
    and "length base = kNumLevels" "\<forall>files \<in> set base. base_level_ok c valid (vs_file_heap vs) files"
  shows "builder_rep (vs_file_heap vs) base (Builder_new p vs) (\<lambda>_. {}) (\<lambda>_. {})"
proof -
  have "builder_level (vs_file_heap vs) (base ! l) [] [] {} {}" if "l < kNumLevels" for l
    using assms(3,4) that nth_mem [of l base]
    by (auto simp: builder_level_def base_level_ok_def level_cores_def core_valid_def core_def)
  moreover have "builder_fresh (vs_file_heap vs) (replicate kNumLevels []) (vs_file_heap vs)"
    by (simp add: builder_fresh_def)
  ultimately show ?thesis
    using assms(1-3) by (simp add: builder_rep_def Builder_new_def Version_Ref_def update_version_def)
qed

lemma Builder_saved:
  assumes vs: "vs_ucmp vs = c" "\<forall>f \<in> dom (vs_file_heap vs). f < vs_file_next vs"
    and base: "length base = kNumLevels" "\<forall>files \<in> set base. base_level_ok c valid (vs_file_heap vs) files"
    and edits: "\<forall>e \<in> set edits. edit_ok valid e" "\<forall>l. distinct (map fst (concat (map (edit_new l) edits)))"
      "\<forall>l < kNumLevels. fst ` set (concat (map (edit_new l) edits)) \<inter> fst ` level_cores (vs_file_heap vs) (base ! l) = {}"
  shows "\<exists>b vs'. fold Builder_Apply edits (Builder_new p vs) = (b, vs') \<and> keeps_cores (vs_file_heap vs) (vs_file_heap vs') \<and>
    vs_ucmp vs' = c \<and> builder_fresh (vs_file_heap vs) (bd_added b) (vs_file_heap vs') \<and>
    (\<forall>f \<in> dom (vs_file_heap vs'). f < vs_file_next vs') \<and>
    (\<forall>l < kNumLevels. set (base ! l) \<subseteq> dom (vs_file_heap vs') \<and> set (bd_added b ! l) \<subseteq> dom (vs_file_heap vs') \<and>
      level_cores (vs_file_heap vs') (saved_level c (vs_file_heap vs') b l (base ! l)) =
        fold (apply_edit l) edits (level_cores (vs_file_heap vs) (base ! l)) \<and>
      base_level_ok c valid (vs_file_heap vs') (saved_level c (vs_file_heap vs') b l (base ! l)))"
proof -
  have h0: "vs_file_heap (snd (Builder_new p vs)) = vs_file_heap vs"
    by (simp add: Builder_new_def Version_Ref_def update_version_def)
  note r0 = Builder_new_rep [OF vs base, of p]
  obtain A D where r: "builder_rep (vs_file_heap vs) base (fold Builder_Apply edits (Builder_new p vs)) A D"
    "keeps_cores (vs_file_heap vs) (vs_file_heap (snd (fold Builder_Apply edits (Builder_new p vs))))"
    "\<forall>l < kNumLevels. {m \<in> level_cores (vs_file_heap vs) (base ! l) \<union> A l. fst m \<notin> D l} =
      fold (apply_edit l) edits (level_cores (vs_file_heap vs) (base ! l))"
    using Builder_Apply_edits [OF r0 edits(1,2)] edits(3) unfolding h0 by auto
  obtain b vs' where e: "fold Builder_Apply edits (Builder_new p vs) = (b, vs')" by force
  let ?h = "vs_file_heap vs'"
  have kc: "keeps_cores (vs_file_heap vs) ?h" using r(2) e by simp
  have "set (base ! l) \<subseteq> dom ?h \<and> set (bd_added b ! l) \<subseteq> dom ?h \<and>
      level_cores ?h (saved_level c ?h b l (base ! l)) = fold (apply_edit l) edits (level_cores (vs_file_heap vs) (base ! l)) \<and>
      base_level_ok c valid ?h (saved_level c ?h b l (base ! l))" if l: "l < kNumLevels" for l
  proof -
    have bl: "builder_level ?h (base ! l) (bd_added b ! l) (bd_deleted b ! l) (A l) (D l)"
      using r(1) l by (simp add: builder_rep_def e)
    have b0: "base_level_ok c valid (vs_file_heap vs) (base ! l)" using base l nth_mem by metis
    then have sub: "set (base ! l) \<subseteq> dom (vs_file_heap vs)" by (simp add: base_level_ok_def)
    have lc: "level_cores ?h (base ! l) = level_cores (vs_file_heap vs) (base ! l)" by (rule level_cores_cong [OF kc sub])
    have "sorted_wrt (BySmallestKey c ?h) (base ! l)"
      using b0 unfolding base_level_ok_def
      by (elim conjE) (erule sorted_wrt_mono_rel [rotated], simp add: BySmallestKey_core keeps_cores_set(1) [OF kc sub])
    note s = builder_level_saved [OF bl this]
    have cv: "core_valid valid m" if "m \<in> level_cores ?h (base ! l) \<union> A l" for m
      using bl that unfolding builder_level_def by blast
    have "valid_ikey valid (smallest (fmd ?h f))" if "f \<in> set (saved_level c ?h b l (base ! l))" for f
    proof -
      have "core (fmd ?h f) \<in> level_cores ?h (saved_level c ?h b l (base ! l))" using that by (simp add: level_cores_def)
      then have "core_valid valid (core (fmd ?h f))" unfolding s(1) using cv by blast
      then show ?thesis by (simp add: core_valid_def core_def)
    qed
    then show ?thesis using s bl r(3) l lc unfolding base_level_ok_def builder_level_def by simp
  qed
  moreover have "vs_ucmp vs' = c" "builder_fresh (vs_file_heap vs) (bd_added b) (vs_file_heap vs')"
    "\<forall>f \<in> dom (vs_file_heap vs'). f < vs_file_next vs'" using r(1) e by (simp_all add: builder_rep_def)
  ultimately show ?thesis using e kc by blast
qed

end

end
