(* ===== verification/VersionRefs.thy ===== *)
theory VersionRefs
  imports VersionBuilder
begin

section \<open>Building and sharing versions: reference counts\<close>

text \<open>
  A new version is built from the current one by applying edits; versions and builders share
  the file descriptions through reference counts, and iterators and compactions keep versions
  alive. The invariant of all this: each file's count is the number of references to it, the
  counts of versions likewise, and every live version is well formed.
\<close>

text \<open>
  The common part of \<open>LogAndApply\<close> and \<open>Recover\<close>: a builder on the current version, some edits, the
  version it saves, and the end of the builder's scope.
\<close>

definition build_version :: "VersionEdit list \<Rightarrow> vptr \<Rightarrow> 'w VersionSet \<Rightarrow> vptr \<times> 'w VersionSet" where
  "build_version edits base vs =
     (let (v, vs) = new_version vs;
          (b, vs) = fold Builder_Apply edits (Builder_new base vs);
          vs = Builder_SaveTo b v vs
      in (v, Builder_delete b vs))"

subsection \<open>File counts\<close>

definition file_counts :: "FileHeap \<Rightarrow> fptr multiset \<Rightarrow> bool" where
  "file_counts h M \<longleftrightarrow> (\<forall>f. case h f of None \<Rightarrow> f \<notin># M | Some m \<Rightarrow> f \<in># M \<and> refs m = int (count M f))"

definition shrinks :: "FileHeap \<Rightarrow> FileHeap \<Rightarrow> bool" where
  "shrinks h h' \<longleftrightarrow> (\<forall>f \<in> dom h'. f \<in> dom h \<and> core (fmd h' f) = core (fmd h f))"

lemma shrinks_refl [simp]: "shrinks h h"
  by (simp add: shrinks_def)

lemma shrinks_trans: "shrinks h h' \<Longrightarrow> shrinks h' h'' \<Longrightarrow> shrinks h h''"
  by (auto simp: shrinks_def)

lemma file_counts_dom: "file_counts h M \<Longrightarrow> dom h = set_mset M"
  by (auto simp: file_counts_def split: option.splits)

lemma unref_file_counts:
  assumes "file_counts h (add_mset f M)"
  shows "file_counts (unref_file f h) M" "shrinks h (unref_file f h)"
proof -
  obtain m where m: "h f = Some m" "refs m = int (count M f) + 1"
    using assms by (auto simp: file_counts_def split: option.splits)
  have o: "case h g of None \<Rightarrow> g \<notin># M | Some m \<Rightarrow> g \<in># M \<and> refs m = int (count M g)" if "g \<noteq> f" for g
    using assms that unfolding file_counts_def by (auto split: option.splits dest: spec [of _ g])
  show "file_counts (unref_file f h) M"
    unfolding file_counts_def
  proof
    fix g
    show "case unref_file f h g of None \<Rightarrow> g \<notin># M | Some m \<Rightarrow> g \<in># M \<and> refs m = int (count M g)"
      using o [of g] m by (cases "g = f") (auto simp: unref_file_def fmd_def Let_def not_in_iff)
  qed
  show "shrinks h (unref_file f h)"
    using m by (auto simp: shrinks_def unref_file_def fmd_def Let_def core_def split: if_splits)
qed

lemma fold_unref_file_counts:
  "file_counts h (mset fs + M) \<Longrightarrow> file_counts (fold unref_file fs h) M \<and> shrinks h (fold unref_file fs h)"
proof (induction fs arbitrary: h)
  case (Cons f fs)
  then have c: "file_counts h (add_mset f (mset fs + M))" by simp
  note u = unref_file_counts [OF c]
  show ?case using Cons.IH [OF u(1)] shrinks_trans [OF u(2)] by simp
qed simp

lemma ref_file_counts:
  assumes "file_counts h M" "f \<in> dom h"
  shows "file_counts (ref_file f h) (add_mset f M)"
  unfolding file_counts_def
proof
  fix g
  have "case h g of None \<Rightarrow> g \<notin># M | Some m \<Rightarrow> g \<in># M \<and> refs m = int (count M g)"
    using assms(1) by (simp add: file_counts_def)
  then show "case ref_file f h g of None \<Rightarrow> g \<notin># add_mset f M
      | Some m \<Rightarrow> g \<in># add_mset f M \<and> refs m = int (count (add_mset f M) g)"
    using assms(2) by (cases "g = f") (auto simp: ref_file_def fmd_def split: option.splits)
qed

lemma fold_ref_file_counts:
  "file_counts h M \<Longrightarrow> set fs \<subseteq> dom h \<Longrightarrow> file_counts (fold ref_file fs h) (mset fs + M)"
proof (induction fs arbitrary: h M)
  case (Cons f fs)
  have "file_counts (ref_file f h) (add_mset f M)" by (rule ref_file_counts) (use Cons.prems in auto)
  moreover have "set fs \<subseteq> dom (ref_file f h)" using Cons.prems(2) by (auto simp: ref_file_def)
  ultimately show ?case using Cons.IH by fastforce
qed simp

lemma fold_ref_dom: "set fs \<subseteq> dom h \<Longrightarrow> dom (fold ref_file fs h) = dom h"
proof (induction fs arbitrary: h)
  case (Cons f fs)
  have "dom (ref_file f h) = dom h" using Cons.prems by (auto simp: ref_file_def)
  then show ?case using Cons by simp
qed simp

lemma new_file_counts:
  "file_counts h M \<Longrightarrow> f \<notin> dom h \<Longrightarrow> refs m = 1 \<Longrightarrow> file_counts (h(f \<mapsto> m)) (add_mset f M)"
proof -
  assume c: "file_counts h M" and f: "f \<notin> dom h" and m: "refs m = 1"
  have M: "f \<notin># M" using file_counts_dom [OF c] f by simp
  have g: "case h g of None \<Rightarrow> g \<notin># M | Some m \<Rightarrow> g \<in># M \<and> refs m = int (count M g)" for g
    using c by (simp add: file_counts_def)
  show ?thesis
    unfolding file_counts_def
  proof
    fix g
    show "case (h(f \<mapsto> m)) g of None \<Rightarrow> g \<notin># add_mset f M | Some m \<Rightarrow> g \<in># add_mset f M \<and> refs m = int (count (add_mset f M) g)"
      using g [of g] M m by (cases "g = f") (auto simp: not_in_iff split: option.splits)
  qed
qed

subsection \<open>The invariant\<close>

text \<open>
  \<open>vset_inv c valid vs extra rc pend\<close>: \<open>extra\<close> are the references of a builder, \<open>rc\<close> the number of
  references to each version, and \<open>pend\<close> the versions that are built but not installed.
\<close>

definition version_refs :: "(vptr \<Rightarrow> Version option) \<Rightarrow> fptr multiset" where
  "version_refs vh = (\<Sum>p \<in> dom vh. mset (concat (v_files (the (vh p)))))"

definition version_levels_ok :: "Comparator \<Rightarrow> (bytes \<Rightarrow> bool) \<Rightarrow> FileHeap \<Rightarrow> Version \<Rightarrow> bool" where
  "version_levels_ok c valid h v \<longleftrightarrow> length (v_files v) = kNumLevels \<and> (\<forall>files \<in> set (v_files v). base_level_ok c valid h files) \<and>
     (\<forall>f. file_to_compact v = Some f \<longrightarrow> f \<in> set (concat (v_files v)))"

definition vset_inv ::
    "Comparator \<Rightarrow> (bytes \<Rightarrow> bool) \<Rightarrow> 'w VersionSet \<Rightarrow> fptr multiset \<Rightarrow> (vptr \<Rightarrow> nat) \<Rightarrow> vptr set \<Rightarrow> bool" where
  "vset_inv c valid vs extra rc pend \<longleftrightarrow> vs_ucmp vs = c \<and>
     finite (dom (vs_version_heap vs)) \<and> (\<forall>p \<in> dom (vs_version_heap vs). p < vs_version_next vs) \<and>
     (\<forall>f \<in> dom (vs_file_heap vs). f < vs_file_next vs) \<and>
     file_counts (vs_file_heap vs) (version_refs (vs_version_heap vs) + extra) \<and>
     (\<forall>p \<in> dom (vs_version_heap vs). version_levels_ok c valid (vs_file_heap vs) (version vs p) \<and>
        v_refs (version vs p) = int (rc p) \<and> (p \<notin> pend \<longrightarrow> 0 < rc p)) \<and>
     (\<forall>p. p \<notin> dom (vs_version_heap vs) \<longrightarrow> rc p = 0) \<and>
     distinct (vs_versions vs) \<and> set (vs_versions vs) = dom (vs_version_heap vs) - pend \<and> pend \<subseteq> dom (vs_version_heap vs)"

lemma vset_invD:
  assumes "vset_inv c valid vs extra rc pend"
  shows "vs_ucmp vs = c" "finite (dom (vs_version_heap vs))" "\<And>p. p \<in> dom (vs_version_heap vs) \<Longrightarrow> p < vs_version_next vs"
    "\<forall>f \<in> dom (vs_file_heap vs). f < vs_file_next vs"
    "file_counts (vs_file_heap vs) (version_refs (vs_version_heap vs) + extra)"
    "\<And>p. p \<in> dom (vs_version_heap vs) \<Longrightarrow> version_levels_ok c valid (vs_file_heap vs) (version vs p)"
    "\<And>p. p \<in> dom (vs_version_heap vs) \<Longrightarrow> v_refs (version vs p) = int (rc p)"
    "\<And>p. p \<in> dom (vs_version_heap vs) \<Longrightarrow> p \<notin> pend \<Longrightarrow> 0 < rc p"
    "\<And>p. p \<notin> dom (vs_version_heap vs) \<Longrightarrow> rc p = 0"
    "distinct (vs_versions vs)" "set (vs_versions vs) = dom (vs_version_heap vs) - pend" "pend \<subseteq> dom (vs_version_heap vs)"
  using assms unfolding vset_inv_def by blast+

lemma vset_invI:
  assumes "vs_ucmp vs = c" "finite (dom (vs_version_heap vs))" "\<forall>p \<in> dom (vs_version_heap vs). p < vs_version_next vs"
    "\<forall>f \<in> dom (vs_file_heap vs). f < vs_file_next vs"
    "file_counts (vs_file_heap vs) (version_refs (vs_version_heap vs) + extra)"
    "\<And>p. p \<in> dom (vs_version_heap vs) \<Longrightarrow> version_levels_ok c valid (vs_file_heap vs) (version vs p) \<and>
      v_refs (version vs p) = int (rc p) \<and> (p \<notin> pend \<longrightarrow> 0 < rc p)"
    "\<And>p. p \<notin> dom (vs_version_heap vs) \<Longrightarrow> rc p = 0"
    "distinct (vs_versions vs)" "set (vs_versions vs) = dom (vs_version_heap vs) - pend" "pend \<subseteq> dom (vs_version_heap vs)"
  shows "vset_inv c valid vs extra rc pend"
  unfolding vset_inv_def using assms by blast

lemma version_refs_upd:
  assumes "finite (dom vh)"
  shows "version_refs (vh(p \<mapsto> v)) + (case vh p of None \<Rightarrow> {#} | Some w \<Rightarrow> mset (concat (v_files w))) =
    version_refs vh + mset (concat (v_files v))"
proof -
  let ?D = "dom vh - {p}"
  have rest: "(\<Sum>q \<in> ?D. mset (concat (v_files (the ((vh(p \<mapsto> v)) q))))) = (\<Sum>q \<in> ?D. mset (concat (v_files (the (vh q)))))"
    by (intro sum.cong) auto
  have new: "version_refs (vh(p \<mapsto> v)) = mset (concat (v_files v)) + (\<Sum>q \<in> ?D. mset (concat (v_files (the (vh q)))))"
    using assms rest by (simp add: version_refs_def sum.insert_remove)
  show ?thesis
  proof (cases "vh p")
    case None
    then have "?D = dom vh" by auto
    then show ?thesis using None new by (simp add: version_refs_def)
  next
    case (Some w)
    then have "version_refs vh = mset (concat (v_files w)) + (\<Sum>q \<in> ?D. mset (concat (v_files (the (vh q)))))"
      using assms sum.remove [of "dom vh" p "\<lambda>q. mset (concat (v_files (the (vh q))))"] by (simp add: version_refs_def domI)
    then show ?thesis using Some new by simp
  qed
qed

lemma version_refs_same: "finite (dom vh) \<Longrightarrow> vh p = Some w \<Longrightarrow> v_files v = v_files w \<Longrightarrow> version_refs (vh(p \<mapsto> v)) = version_refs vh"
  using version_refs_upd [of vh p v] by simp

lemma version_refs_remove:
  "finite (dom vh) \<Longrightarrow> vh p = Some w \<Longrightarrow> version_refs vh = mset (concat (v_files w)) + version_refs (vh(p := None))"
proof -
  assume a: "finite (dom vh)" "vh p = Some w"
  have "(\<Sum>q \<in> dom vh - {p}. mset (concat (v_files (the ((vh(p := None)) q))))) = (\<Sum>q \<in> dom vh - {p}. mset (concat (v_files (the (vh q)))))"
    by (intro sum.cong) auto
  then show ?thesis
    using a sum.remove [of "dom vh" p "\<lambda>q. mset (concat (v_files (the (vh q))))"] by (simp add: version_refs_def domI)
qed

lemma base_level_ok_shrinks:
  assumes "base_level_ok c valid h files" "\<And>f. f \<in> set files \<Longrightarrow> f \<in> dom h' \<and> core (fmd h' f) = core (fmd h f)"
  shows "base_level_ok c valid h' files"
proof -
  have b: "\<forall>f \<in> set files. valid_ikey valid (smallest (fmd h f))" "inj_on (\<lambda>f. fnumber (fmd h f)) (set files)"
    "sorted_wrt (BySmallestKey c h) files" using assms(1) by (simp_all add: base_level_ok_def)
  have e: "smallest (fmd h' f) = smallest (fmd h f)" "fnumber (fmd h' f) = fnumber (fmd h f)" if "f \<in> set files" for f
    using assms(2) [OF that] by (simp_all add: core_def)
  have "sorted_wrt (BySmallestKey c h') files"
    by (rule sorted_wrt_mono_rel [OF _ b(3)]) (use assms(2) in \<open>simp add: BySmallestKey_core\<close>)
  moreover have "inj_on (\<lambda>f. fnumber (fmd h' f)) (set files)" using b(2) e(2) by (simp add: inj_on_def)
  moreover have "set files \<subseteq> dom h'" using assms(2) by blast
  ultimately show ?thesis using b(1) e(1) by (simp add: base_level_ok_def)
qed

text \<open>A version stays well formed when the heap keeps the files it refers to.\<close>

lemma version_levels_ok_keep:
  assumes "version_levels_ok c valid h v" "\<And>f. f \<in> set (concat (v_files v)) \<Longrightarrow> f \<in> dom h' \<and> core (fmd h' f) = core (fmd h f)"
  shows "version_levels_ok c valid h' v"
  unfolding version_levels_ok_def
proof (intro conjI ballI)
  show "length (v_files v) = kNumLevels" "\<forall>f. file_to_compact v = Some f \<longrightarrow> f \<in> set (concat (v_files v))"
    using assms(1) by (simp_all add: version_levels_ok_def)
  fix files assume f: "files \<in> set (v_files v)"
  have "base_level_ok c valid h files" using assms(1) f by (simp add: version_levels_ok_def)
  then show "base_level_ok c valid h' files"
    by (rule base_level_ok_shrinks) (use assms(2) f in auto)
qed

lemma version_refs_mem: "finite (dom vh) \<Longrightarrow> vh p = Some v \<Longrightarrow> f \<in> set (concat (v_files v)) \<Longrightarrow> f \<in># version_refs vh"
  using version_refs_remove [of vh p v] by simp

lemma version_Some: "p \<in> dom (vs_version_heap vs) \<Longrightarrow> vs_version_heap vs p = Some (version vs p)"
  by (auto simp: version_def)

lemma version_file_allocated:
  assumes "vset_inv c valid vs extra rc pend" "p \<in> dom (vs_version_heap vs)" "f \<in> set (concat (v_files (version vs p)))"
  shows "f \<in> dom (vs_file_heap vs)"
  using version_refs_mem [OF vset_invD(2) [OF assms(1)] version_Some [OF assms(2)] assms(3)]
    file_counts_dom [OF vset_invD(5) [OF assms(1)]] by simp

lemma Version_Ref_inv:
  assumes inv: "vset_inv c valid vs extra rc pend" and p: "p \<in> dom (vs_version_heap vs)"
  shows "vset_inv c valid (Version_Ref p vs) extra (rc(p := rc p + 1)) pend"
proof -
  note d = vset_invD [OF inv]
  let ?v = "(version vs p)\<lparr>v_refs := v_refs (version vs p) + 1\<rparr>"
  have "version_refs ((vs_version_heap vs)(p \<mapsto> ?v)) = version_refs (vs_version_heap vs)"
    by (rule version_refs_same [OF d(2) version_Some [OF p]]) simp
  moreover have "insert p (dom (vs_version_heap vs)) = dom (vs_version_heap vs)" using p by auto
  moreover have "version_levels_ok c valid h (v\<lparr>v_refs := n\<rparr>) = version_levels_ok c valid h v" for h v n
    by (simp add: version_levels_ok_def)
  ultimately show ?thesis
    using d p unfolding vset_inv_def Version_Ref_def update_version_def
    by (auto simp: version_def)
qed

text \<open>A version that loses its last reference is deleted; the others keep their files.\<close>

lemma Version_Unref_inv:
  assumes inv: "vset_inv c valid vs extra rc pend" and p: "p \<in> dom (vs_version_heap vs)" "p \<notin> pend"
  shows "vset_inv c valid (Version_Unref p vs) extra (rc(p := rc p - 1)) pend"
proof -
  note d = vset_invD [OF inv]
  let ?vh = "vs_version_heap vs" and ?h = "vs_file_heap vs"
  let ?v = "(version vs p)\<lparr>v_refs := v_refs (version vs p) - 1\<rparr>"
  let ?vs = "update_version p (\<lambda>v. v\<lparr>v_refs := v_refs v - 1\<rparr>) vs"
  have heap: "vs_version_heap ?vs = ?vh(p \<mapsto> ?v)" "version ?vs p = ?v" by (simp_all add: update_version_def version_def)
  have rcp: "0 < rc p" "v_refs ?v = int (rc p - 1)" using d(7,8) [OF p(1)] p(2) by auto
  have vr: "version_refs (?vh(p \<mapsto> ?v)) = version_refs ?vh"
    by (rule version_refs_same [OF d(2) version_Some [OF p(1)]]) simp
  have lv: "version_levels_ok c valid h (v\<lparr>v_refs := n\<rparr>) = version_levels_ok c valid h v" for h v n
    by (simp add: version_levels_ok_def)
  show ?thesis
  proof (cases "rc p = 1")
    case False
    then have "Version_Unref p vs = ?vs" using heap rcp by (simp add: Version_Unref_def Let_def)
    moreover have "dom (?vh(p \<mapsto> ?v)) = dom ?vh" using p by auto
    ultimately have U: "Version_Unref p vs = ?vs" "dom (vs_version_heap ?vs) = dom ?vh" using heap by simp_all
    have oth: "version ?vs q = version vs q" if "q \<noteq> p" for q using that by (simp add: version_def update_version_def)
    have same: "vs_ucmp ?vs = vs_ucmp vs" "vs_version_next ?vs = vs_version_next vs" "vs_file_heap ?vs = vs_file_heap vs"
      "vs_file_next ?vs = vs_file_next vs" "vs_versions ?vs = vs_versions vs" by (simp_all add: update_version_def)
    have rcq: "v_refs (version ?vs q) = int ((rc(p := rc p - 1)) q) \<and> (q \<notin> pend \<longrightarrow> 0 < (rc(p := rc p - 1)) q)" if "q \<in> dom ?vh" for q
      using d(7,8) [OF that] False rcp oth [of q] heap(2) by (cases "q = p") auto
    have lvq: "version_levels_ok c valid ?h (version ?vs q)" if "q \<in> dom ?vh" for q
      using d(6) [OF that] oth [of q] heap(2) lv by (cases "q = p") simp_all
    show ?thesis
      unfolding U(1)
    proof (rule vset_invI, unfold same U(2))
      show "file_counts ?h (version_refs (vs_version_heap ?vs) + extra)" using d(5) vr heap(1) by simp
      show "(rc(p := rc p - 1)) q = 0" if "q \<notin> dom ?vh" for q using d(9) [OF that] by (cases "q = p") simp_all
    qed (use d rcq lvq in blast)+
  next
    case True
    let ?fs = "concat (v_files (version vs p))"
    let ?h' = "fold unref_file ?fs ?h"
    have U: "Version_Unref p vs = vs\<lparr>vs_versions := remove1 p (vs_versions vs), vs_file_heap := ?h', vs_version_heap := ?vh(p := None)\<rparr>"
      using heap rcp True by (simp add: Version_Unref_def Let_def Version_delete_def update_version_def version_def)
    have rem: "version_refs ?vh = mset ?fs + version_refs (?vh(p := None))"
      by (rule version_refs_remove [OF d(2) version_Some [OF p(1)]])
    have "file_counts ?h (mset ?fs + (version_refs (?vh(p := None)) + extra))" using d(5) unfolding rem by (simp add: add.assoc)
    from fold_unref_file_counts [OF this]
    have fc: "file_counts ?h' (version_refs (?vh(p := None)) + extra)" and sh: "shrinks ?h ?h'" by blast+
    have lev: "version_levels_ok c valid ?h' (version vs q)" if q: "q \<in> dom ?vh" "q \<noteq> p" for q
    proof (rule version_levels_ok_keep [OF d(6) [OF q(1)]])
      fix f assume f: "f \<in> set (concat (v_files (version vs q)))"
      have "f \<in># version_refs (?vh(p := None))"
        by (rule version_refs_mem [of _ q "version vs q"]) (use d(2) version_Some [OF q(1)] q(2) f in auto)
      then have "f \<in> dom ?h'" using file_counts_dom [OF fc] by simp
      then show "f \<in> dom ?h' \<and> core (fmd ?h' f) = core (fmd ?h f)" using sh by (simp add: shrinks_def)
    qed
    have ver: "version (vs\<lparr>vs_versions := remove1 p (vs_versions vs), vs_file_heap := ?h', vs_version_heap := ?vh(p := None)\<rparr>) q = version vs q"
      if "q \<noteq> p" for q using that by (simp add: version_def)
    have "\<forall>f \<in> dom ?h'. f < vs_file_next vs" using d(4) sh by (auto simp: shrinks_def)
    moreover have "set (remove1 p (vs_versions vs)) = dom ?vh - {p} - pend" using d(10,11) by (auto simp: set_remove1_eq)
    moreover have "pend \<subseteq> dom ?vh - {p}" using d(12) p(2) by auto
    moreover have "version_levels_ok c valid ?h' (version vs q) \<and> v_refs (version vs q) = int ((rc(p := rc p - 1)) q) \<and>
        (q \<notin> pend \<longrightarrow> 0 < (rc(p := rc p - 1)) q)" if "q \<in> dom (?vh(p := None))" for q
    proof -
      have q: "q \<in> dom ?vh" "q \<noteq> p" using that by (auto split: if_splits)
      then show ?thesis using lev [OF q] d(7,8) [OF q(1)] by simp
    qed
    moreover have "(rc(p := rc p - 1)) q = 0" if "q \<notin> dom (?vh(p := None))" for q
      using that d(9) [of q] True by (cases "q = p") auto
    moreover have "\<forall>q \<in> dom (?vh(p := None)). q < vs_version_next vs" using d(3) by auto
    moreover have "version (vs\<lparr>vs_versions := remove1 p (vs_versions vs), vs_file_heap := ?h', vs_version_heap := ?vh(p := None)\<rparr>) q = version vs q"
      if "q \<in> dom (?vh(p := None))" for q using that ver by (auto split: if_splits)
    ultimately show ?thesis
      unfolding U by (intro vset_invI) (use d(1,2,10) fc in \<open>simp_all add: Diff_insert2 [symmetric]\<close>)
  qed
qed

lemma new_version_inv:
  assumes inv: "vset_inv c valid vs extra rc pend" and n: "new_version vs = (v, vs')"
  shows "vset_inv c valid vs' extra rc (insert v pend)" "v \<in> dom (vs_version_heap vs')" "rc v = 0" "v \<notin> dom (vs_version_heap vs)"
    "version vs' v = Version_new" "\<And>p. p \<noteq> v \<Longrightarrow> version vs' p = version vs p"
    "dom (vs_version_heap vs') = insert v (dom (vs_version_heap vs))"
    "vs_file_heap vs' = vs_file_heap vs" "vs_current vs' = vs_current vs"
proof -
  note d = vset_invD [OF inv]
  have v: "v = vs_version_next vs" and vs': "vs' = vs\<lparr>vs_version_heap := (vs_version_heap vs)(v \<mapsto> Version_new), vs_version_next := v + 1\<rparr>"
    using n by (auto simp: new_version_def)
  show nd: "v \<notin> dom (vs_version_heap vs)" using d(3) v by blast
  show "version vs' v = Version_new" "\<And>p. p \<noteq> v \<Longrightarrow> version vs' p = version vs p"
    "dom (vs_version_heap vs') = insert v (dom (vs_version_heap vs))" "vs_file_heap vs' = vs_file_heap vs"
    "vs_current vs' = vs_current vs" "v \<in> dom (vs_version_heap vs')"
    by (simp_all add: vs' version_def)
  show rv: "rc v = 0" by (rule d(9) [OF nd])
  have "vs_version_heap vs v = None" using nd by auto
  then have vr: "version_refs ((vs_version_heap vs)(v \<mapsto> Version_new)) = version_refs (vs_version_heap vs)"
    using version_refs_upd [OF d(2), of v Version_new] by (simp add: Version_new_def)
  have ok: "version_levels_ok c valid h Version_new" for h
    by (simp add: version_levels_ok_def Version_new_def base_level_ok_def)
  have "\<forall>p \<in> dom (vs_version_heap vs). p < v + 1" using d(3) v by fastforce
  then show "vset_inv c valid vs' extra rc (insert v pend)"
    using d vr ok rv nd unfolding vset_inv_def
    by (auto simp: vs' version_def Version_new_def)
qed

text \<open>The invariant when only the file heap changes, and the files in use keep their description.\<close>

lemma vset_inv_heap:
  assumes inv: "vset_inv c valid vs extra rc pend"
    and same: "vs_ucmp vs' = vs_ucmp vs" "vs_version_heap vs' = vs_version_heap vs" "vs_version_next vs' = vs_version_next vs"
      "vs_versions vs' = vs_versions vs"
    and counts: "file_counts (vs_file_heap vs') (version_refs (vs_version_heap vs) + extra')"
    and bound: "\<forall>f \<in> dom (vs_file_heap vs'). f < vs_file_next vs'"
    and cores: "\<And>f. f \<in># version_refs (vs_version_heap vs) \<Longrightarrow> core (fmd (vs_file_heap vs') f) = core (fmd (vs_file_heap vs) f)"
  shows "vset_inv c valid vs' extra' rc pend"
proof -
  note d = vset_invD [OF inv]
  have ver: "version vs' p = version vs p" for p using same(2) by (simp add: version_def)
  have lev: "version_levels_ok c valid (vs_file_heap vs') (version vs p)" if p: "p \<in> dom (vs_version_heap vs)" for p
  proof (rule version_levels_ok_keep [OF d(6) [OF p]])
    fix f assume "f \<in> set (concat (v_files (version vs p)))"
    then have f: "f \<in># version_refs (vs_version_heap vs)" by (rule version_refs_mem [OF d(2) version_Some [OF p]])
    then show "f \<in> dom (vs_file_heap vs') \<and> core (fmd (vs_file_heap vs') f) = core (fmd (vs_file_heap vs) f)"
      using cores file_counts_dom [OF counts] by simp
  qed
  show ?thesis
    by (rule vset_invI, unfold same ver)
      (use d(1-3,8-12) lev d(7) counts bound in \<open>simp_all add: d(1,2,10-12)\<close>)
qed

lemma unref_extra:
  assumes inv: "vset_inv c valid vs (mset fs + extra) rc pend"
  shows "vset_inv c valid (vs\<lparr>vs_file_heap := fold unref_file fs (vs_file_heap vs)\<rparr>) extra rc pend"
proof -
  note d = vset_invD [OF inv]
  have "file_counts (vs_file_heap vs) (mset fs + (version_refs (vs_version_heap vs) + extra))"
    using d(5) by (simp add: union_lcomm)
  note u = fold_unref_file_counts [OF this]
  have sh: "shrinks (vs_file_heap vs) (fold unref_file fs (vs_file_heap vs))" using u by blast
  show ?thesis
  proof (rule vset_inv_heap [OF inv])
    fix f assume "f \<in># version_refs (vs_version_heap vs)"
    then have "f \<in> dom (fold unref_file fs (vs_file_heap vs))"
      using file_counts_dom [of "fold unref_file fs (vs_file_heap vs)" "version_refs (vs_version_heap vs) + extra"] u by simp
    then show "core (fmd (vs_file_heap (vs\<lparr>vs_file_heap := fold unref_file fs (vs_file_heap vs)\<rparr>)) f) = core (fmd (vs_file_heap vs) f)"
      using sh by (simp add: shrinks_def)
  qed (use u d(4) sh in \<open>auto simp: shrinks_def\<close>)
qed

lemma builder_fresh_counts:
  assumes "builder_fresh h0 added h" "file_counts h0 M"
  shows "file_counts h (M + mset (concat added))"
  unfolding file_counts_def
proof
  fix f
  have b: "finite (dom h - dom h0)" "mset (concat added) = mset_set (dom h - dom h0)"
    "\<forall>f \<in> dom h - dom h0. refs (fmd h f) = 1" "\<forall>f \<in> dom h0. h f = h0 f"
    using assms(1) unfolding builder_fresh_def by blast+
  have o: "case h0 f of None \<Rightarrow> f \<notin># M | Some m \<Rightarrow> f \<in># M \<and> refs m = int (count M f)"
    using assms(2) by (simp add: file_counts_def)
  show "case h f of None \<Rightarrow> f \<notin># M + mset (concat added)
      | Some m \<Rightarrow> f \<in># M + mset (concat added) \<and> refs m = int (count (M + mset (concat added)) f)"
  proof (cases "f \<in> dom h0")
    case True
    then have "h f = h0 f" "f \<notin># mset (concat added)" using b by auto
    then show ?thesis using o True by (auto simp: not_in_iff split: option.splits)
  next
    case False
    then have M: "f \<notin># M" using o by (auto split: option.splits)
    show ?thesis
    proof (cases "h f")
      case None
      then show ?thesis using M b(1,2) by auto
    next
      case (Some m)
      then have "f \<in> dom h - dom h0" using False by auto
      moreover from this have "refs (fmd h f) = 1" using b(3) by blast
      ultimately show ?thesis using Some M b(1,2) by (simp add: not_in_iff fmd_def)
    qed
  qed
qed

subsection \<open>Building a version\<close>

lemma Builder_Apply_frame:
  "vs_version_heap (snd (Builder_Apply e bv)) = vs_version_heap (snd bv)" "vs_version_next (snd (Builder_Apply e bv)) = vs_version_next (snd bv)"
  "vs_versions (snd (Builder_Apply e bv)) = vs_versions (snd bv)" "vs_current (snd (Builder_Apply e bv)) = vs_current (snd bv)"
  "bd_base (fst (Builder_Apply e bv)) = bd_base (fst bv)"
proof -
  let ?same = "\<lambda>vs vs' :: 'w VersionSet. vs_version_heap vs' = vs_version_heap vs \<and> vs_version_next vs' = vs_version_next vs \<and>
    vs_versions vs' = vs_versions vs \<and> vs_current vs' = vs_current vs"
  have cp: "?same vs (fold apply_compact_pointer ps vs)" for ps and vs :: "'w VersionSet"
    by (induction ps arbitrary: vs) (simp_all add: apply_compact_pointer_def)
  have dl: "bd_base (fold apply_deleted ds b) = bd_base b" for ds b
    by (induction ds arbitrary: b) (simp_all add: apply_deleted_def)
  have nf: "?same vs (snd (fold apply_new_file nfs (b, vs))) \<and> bd_base (fst (fold apply_new_file nfs (b, vs))) = bd_base b"
    for nfs b and vs :: "'w VersionSet"
  proof (induction nfs arbitrary: b vs)
    case (Cons nf nfs)
    obtain b' vs' where s: "apply_new_file nf (b, vs) = (b', vs')" by force
    then have "?same vs vs'" "bd_base b' = bd_base b" by (auto simp: apply_new_file_def Let_def split: prod.splits)
    then show ?case using Cons [of b' vs'] s by simp
  qed simp
  obtain b vs where bv: "bv = (b, vs)" by (cases bv)
  note n = nf [of "new_files e" "fold apply_deleted (deleted_files e) b" "fold apply_compact_pointer (compact_pointers e) vs"]
  show "vs_version_heap (snd (Builder_Apply e bv)) = vs_version_heap (snd bv)" "vs_version_next (snd (Builder_Apply e bv)) = vs_version_next (snd bv)"
    "vs_versions (snd (Builder_Apply e bv)) = vs_versions (snd bv)" "vs_current (snd (Builder_Apply e bv)) = vs_current (snd bv)"
    "bd_base (fst (Builder_Apply e bv)) = bd_base (fst bv)"
    using n cp [of "compact_pointers e" vs] dl [of "deleted_files e" b] by (simp_all add: Builder_Apply_def bv Let_def)
qed

lemma fold_Builder_Apply_frame:
  "vs_version_heap (snd (fold Builder_Apply es bv)) = vs_version_heap (snd bv)" "vs_version_next (snd (fold Builder_Apply es bv)) = vs_version_next (snd bv)"
  "vs_versions (snd (fold Builder_Apply es bv)) = vs_versions (snd bv)" "vs_current (snd (fold Builder_Apply es bv)) = vs_current (snd bv)"
  "bd_base (fst (fold Builder_Apply es bv)) = bd_base (fst bv)"
  by (induction es arbitrary: bv) (simp_all add: Builder_Apply_frame)

text \<open>
  What the code relies on: the edits name existing levels, and the files they add to a level
  have numbers that are not in use at that level.
\<close>

definition edits_fit :: "(bytes \<Rightarrow> bool) \<Rightarrow> 'w VersionSet \<Rightarrow> vptr \<Rightarrow> VersionEdit list \<Rightarrow> bool" where
  "edits_fit valid vs base edits \<longleftrightarrow> (\<forall>e \<in> set edits. edit_ok valid e) \<and>
     (\<forall>l. distinct (map fst (concat (map (edit_new l) edits)))) \<and>
     (\<forall>l < kNumLevels. fst ` set (concat (map (edit_new l) edits)) \<inter>
        fst ` level_cores (vs_file_heap vs) (v_files (version vs base) ! l) = {})"

lemma Version_Ref_frame:
  "vs_file_heap (Version_Ref p vs) = vs_file_heap vs" "vs_file_next (Version_Ref p vs) = vs_file_next vs"
  "vs_versions (Version_Ref p vs) = vs_versions vs" "vs_current (Version_Ref p vs) = vs_current vs"
  "vs_ucmp (Version_Ref p vs) = vs_ucmp vs" "vs_version_next (Version_Ref p vs) = vs_version_next vs"
  "v_files (version (Version_Ref p vs) q) = v_files (version vs q)"
  "dom (vs_version_heap (Version_Ref p vs)) = insert p (dom (vs_version_heap vs))"
  "q \<noteq> p \<Longrightarrow> version (Version_Ref p vs) q = version vs q"
  by (auto simp: Version_Ref_def update_version_def version_def)

context internal_keys
begin

lemma builder_applied:
  assumes inv: "vset_inv c valid vs {#} rc pend" and p: "p \<in> dom (vs_version_heap vs)"
    and fit: "edits_fit valid vs p edits"
  shows "\<exists>b vs'. fold Builder_Apply edits (Builder_new p vs) = (b, vs') \<and> bd_base b = p \<and>
    vset_inv c valid vs' (mset (concat (bd_added b))) (rc(p := rc p + 1)) pend \<and>
    keeps_cores (vs_file_heap vs) (vs_file_heap vs') \<and> vs_version_heap vs' = vs_version_heap (Version_Ref p vs) \<and>
    vs_current vs' = vs_current vs \<and>
    (\<forall>l < kNumLevels. set (v_files (version vs p) ! l) \<subseteq> dom (vs_file_heap vs') \<and> set (bd_added b ! l) \<subseteq> dom (vs_file_heap vs') \<and>
      level_cores (vs_file_heap vs') (saved_level c (vs_file_heap vs') b l (v_files (version vs p) ! l)) =
        fold (apply_edit l) edits (level_cores (vs_file_heap vs) (v_files (version vs p) ! l)) \<and>
      base_level_ok c valid (vs_file_heap vs') (saved_level c (vs_file_heap vs') b l (v_files (version vs p) ! l)))"
proof -
  note d = vset_invD [OF inv]
  have lev: "length (v_files (version vs p)) = kNumLevels" "\<forall>files \<in> set (v_files (version vs p)). base_level_ok c valid (vs_file_heap vs) files"
    using d(6) [OF p] unfolding version_levels_ok_def by blast+
  have fit': "\<forall>e \<in> set edits. edit_ok valid e" "\<forall>l. distinct (map fst (concat (map (edit_new l) edits)))"
    "\<forall>l < kNumLevels. fst ` set (concat (map (edit_new l) edits)) \<inter> fst ` level_cores (vs_file_heap vs) (v_files (version vs p) ! l) = {}"
    using fit unfolding edits_fit_def by blast+
  from Builder_saved [OF d(1,4) lev fit', of p] obtain b vs' where e: "fold Builder_Apply edits (Builder_new p vs) = (b, vs')"
    and kc: "keeps_cores (vs_file_heap vs) (vs_file_heap vs')" and uc: "vs_ucmp vs' = c"
    and fresh: "builder_fresh (vs_file_heap vs) (bd_added b) (vs_file_heap vs')" and bd: "\<forall>f \<in> dom (vs_file_heap vs'). f < vs_file_next vs'"
    and levels: "\<forall>l < kNumLevels. set (v_files (version vs p) ! l) \<subseteq> dom (vs_file_heap vs') \<and> set (bd_added b ! l) \<subseteq> dom (vs_file_heap vs') \<and>
      level_cores (vs_file_heap vs') (saved_level c (vs_file_heap vs') b l (v_files (version vs p) ! l)) =
        fold (apply_edit l) edits (level_cores (vs_file_heap vs) (v_files (version vs p) ! l)) \<and>
      base_level_ok c valid (vs_file_heap vs') (saved_level c (vs_file_heap vs') b l (v_files (version vs p) ! l))"
    by blast
  have fr: "vs_version_heap vs' = vs_version_heap (Version_Ref p vs)" "vs_version_next vs' = vs_version_next (Version_Ref p vs)"
    "vs_versions vs' = vs_versions (Version_Ref p vs)" "vs_current vs' = vs_current vs" "bd_base b = p"
    using fold_Builder_Apply_frame [of edits "Builder_new p vs"] e by (simp_all add: Builder_new_def Version_Ref_frame)
  note inv1 = Version_Ref_inv [OF inv p]
  note d1 = vset_invD [OF inv1]
  have "vset_inv c valid vs' (mset (concat (bd_added b))) (rc(p := rc p + 1)) pend"
  proof (rule vset_inv_heap [OF inv1 _ fr(1-3) _ bd])
    show "file_counts (vs_file_heap vs') (version_refs (vs_version_heap (Version_Ref p vs)) + mset (concat (bd_added b)))"
      by (rule builder_fresh_counts [OF fresh]) (use d1(5) in \<open>simp add: Version_Ref_frame\<close>)
    fix f assume "f \<in># version_refs (vs_version_heap (Version_Ref p vs))"
    then have "f \<in> dom (vs_file_heap vs)" using file_counts_dom [OF d1(5)] by (simp add: Version_Ref_frame)
    then show "core (fmd (vs_file_heap vs') f) = core (fmd (vs_file_heap (Version_Ref p vs)) f)"
      using keeps_coresD [OF kc] by (simp add: Version_Ref_frame)
  qed (use uc d(1) in \<open>simp add: Version_Ref_frame\<close>)
  then show ?thesis using e fr kc levels by blast
qed

lemma SaveTo_inv:
  assumes inv: "vset_inv c valid vs extra rc pend" and v: "v \<in> dom (vs_version_heap vs)"
    and new: "v_files (version vs v) = replicate kNumLevels []" "file_to_compact (version vs v) = None"
    and base: "base = v_files (version vs (bd_base b))" "length base = kNumLevels"
    and levels: "\<forall>l < kNumLevels. set (base ! l) \<subseteq> dom (vs_file_heap vs) \<and> set (bd_added b ! l) \<subseteq> dom (vs_file_heap vs) \<and>
      base_level_ok c valid (vs_file_heap vs) (saved_level c (vs_file_heap vs) b l (base ! l))"
  shows "vset_inv c valid (Builder_SaveTo b v vs) extra rc pend"
    "\<forall>l < kNumLevels. v_files (version (Builder_SaveTo b v vs) v) ! l = saved_level c (vs_file_heap vs) b l (base ! l)"
    "keeps_cores (vs_file_heap vs) (vs_file_heap (Builder_SaveTo b v vs))"
    "\<forall>p. p \<noteq> v \<longrightarrow> version (Builder_SaveTo b v vs) p = version vs p"
    "dom (vs_version_heap (Builder_SaveTo b v vs)) = dom (vs_version_heap vs)" "vs_current (Builder_SaveTo b v vs) = vs_current vs"
proof -
  note d = vset_invD [OF inv]
  let ?h = "vs_file_heap vs" and ?vh = "vs_version_heap vs"
  define files where "files = map (\<lambda>(i, fs). saved_level c ?h b i fs) (enumerate 0 base)"
  let ?h' = "fold ref_file (concat files) ?h"
  let ?w = "(version vs v)\<lparr>v_files := files\<rparr>"
  have nth: "files ! l = saved_level c ?h b l (base ! l)" if "l < kNumLevels" for l
    using that base(2) by (simp add: files_def nth_enumerate_eq)
  have len: "length files = kNumLevels" using base(2) by (simp add: files_def)
  have ok: "base_level_ok c valid ?h fs" if "fs \<in> set files" for fs
    using that levels nth len by (metis in_set_conv_nth)
  have sub: "set (concat files) \<subseteq> dom ?h" using ok by (fastforce simp: base_level_ok_def)
  have S: "Builder_SaveTo b v vs = update_version v (\<lambda>w. w\<lparr>v_files := files\<rparr>) (vs\<lparr>vs_file_heap := ?h'\<rparr>)"
  proof -
    have "SaveTo_levels b c 0 base ?h = (files, ?h')"
      unfolding files_def by (rule SaveTo_levels_eq) (use levels base(2) in simp)
    then show ?thesis by (simp add: Builder_SaveTo_def d(1) base(1) [symmetric])
  qed
  have sel: "vs_file_heap (Builder_SaveTo b v vs) = ?h'" "vs_version_heap (Builder_SaveTo b v vs) = ?vh(v \<mapsto> ?w)"
    "vs_ucmp (Builder_SaveTo b v vs) = vs_ucmp vs" "vs_version_next (Builder_SaveTo b v vs) = vs_version_next vs"
    "vs_file_next (Builder_SaveTo b v vs) = vs_file_next vs" "vs_versions (Builder_SaveTo b v vs) = vs_versions vs"
    by (simp_all add: S update_version_def version_def)
  show kc: "keeps_cores ?h (vs_file_heap (Builder_SaveTo b v vs))" unfolding sel by (rule fold_ref_file_cores [OF sub])
  show cur: "vs_current (Builder_SaveTo b v vs) = vs_current vs" by (simp add: S update_version_def)
  have vv: "version (Builder_SaveTo b v vs) v = ?w" by (simp add: version_def sel)
  show oth: "\<forall>p. p \<noteq> v \<longrightarrow> version (Builder_SaveTo b v vs) p = version vs p" by (simp add: version_def sel)
  show dom: "dom (vs_version_heap (Builder_SaveTo b v vs)) = dom ?vh" using v by (auto simp: sel)
  show "\<forall>l < kNumLevels. v_files (version (Builder_SaveTo b v vs) v) ! l = saved_level c ?h b l (base ! l)"
    using nth by (simp add: vv)
  have keep: "f \<in> dom ?h' \<and> core (fmd ?h' f) = core (fmd ?h f)" if "f \<in> dom ?h" for f
    using kc that unfolding sel by (simp add: keeps_cores_def)
  have e: "mset (concat (v_files (version vs v))) = {#}" by (simp add: new(1))
  have vr: "version_refs (?vh(v \<mapsto> ?w)) = version_refs ?vh + mset (concat files)"
    using version_refs_upd [OF d(2), of v ?w] unfolding version_Some [OF v] option.case e by simp
  have lev: "version_levels_ok c valid ?h' (version (Builder_SaveTo b v vs) p)" if p: "p \<in> dom ?vh" for p
  proof (cases "p = v")
    case True
    have "base_level_ok c valid ?h' fs" if fs: "fs \<in> set files" for fs
    proof (rule base_level_ok_shrinks [OF ok [OF fs]])
      fix f assume "f \<in> set fs"
      then have "f \<in> dom ?h" using ok [OF fs] unfolding base_level_ok_def by blast
      then show "f \<in> dom ?h' \<and> core (fmd ?h' f) = core (fmd ?h f)" by (rule keep)
    qed
    then show ?thesis using len new(2) by (simp add: True vv version_levels_ok_def)
  next
    case False
    have "version_levels_ok c valid ?h' (version vs p)"
      by (rule version_levels_ok_keep [OF d(6) [OF p]]) (rule keep, rule version_file_allocated [OF inv p])
    then show ?thesis using oth False by simp
  qed
  have cnt: "file_counts ?h' (version_refs (?vh(v \<mapsto> ?w)) + extra)"
    using fold_ref_file_counts [OF d(5) sub] unfolding vr by (simp add: ac_simps)
  have refs: "v_refs (version (Builder_SaveTo b v vs) p) = v_refs (version vs p)" for p
    using vv oth by (cases "p = v") simp_all
  have "dom ?h' = dom ?h" using keep fold_ref_dom [OF sub] by blast
  then show "vset_inv c valid (Builder_SaveTo b v vs) extra rc pend"
    by (intro vset_invI, unfold dom refs sel(1,3,4,5,6))
      (use d cnt lev in \<open>simp_all add: sel(2)\<close>)
qed

text \<open>After \<^term>\<open>build_version\<close> the new version holds what the edits make of the base version.\<close>

lemma build_version_inv:
  assumes inv: "vset_inv c valid vs {#} rc pend" and p: "p \<in> dom (vs_version_heap vs)" "p \<notin> pend"
    and fit: "edits_fit valid vs p edits" and b: "build_version edits p vs = (v, vs')"
  shows "vset_inv c valid vs' {#} rc (insert v pend)" "rc v = 0" "v \<notin> dom (vs_version_heap vs)"
    "dom (vs_version_heap vs') = insert v (dom (vs_version_heap vs))" "vs_current vs' = vs_current vs"
    "\<forall>l < kNumLevels. level_cores (vs_file_heap vs') (v_files (version vs' v) ! l) =
       fold (apply_edit l) edits (level_cores (vs_file_heap vs) (v_files (version vs p) ! l))"
    "\<forall>q \<in> dom (vs_version_heap vs). v_files (version vs' q) = v_files (version vs q) \<and>
       (\<forall>f \<in> set (concat (v_files (version vs q))). core (fmd (vs_file_heap vs') f) = core (fmd (vs_file_heap vs) f))"
proof -
  obtain v1 vs1 where n: "new_version vs = (v1, vs1)" by force
  note N = new_version_inv [OF inv n]
  have pv: "p \<noteq> v1" "p \<in> dom (vs_version_heap vs1)" using p N(4,7) by auto
  have fit1: "edits_fit valid vs1 p edits" using fit by (simp add: edits_fit_def N(6) [OF pv(1)] N(8))
  obtain bd vs2 where e: "fold Builder_Apply edits (Builder_new p vs1) = (bd, vs2)" and bp: "bd_base bd = p"
    and inv2: "vset_inv c valid vs2 (mset (concat (bd_added bd))) (rc(p := rc p + 1)) (insert v1 pend)"
    and kc2: "keeps_cores (vs_file_heap vs1) (vs_file_heap vs2)" and vh2: "vs_version_heap vs2 = vs_version_heap (Version_Ref p vs1)"
    and cur2: "vs_current vs2 = vs_current vs1"
    and lev2: "\<forall>l < kNumLevels. set (v_files (version vs1 p) ! l) \<subseteq> dom (vs_file_heap vs2) \<and> set (bd_added bd ! l) \<subseteq> dom (vs_file_heap vs2) \<and>
      level_cores (vs_file_heap vs2) (saved_level c (vs_file_heap vs2) bd l (v_files (version vs1 p) ! l)) =
        fold (apply_edit l) edits (level_cores (vs_file_heap vs1) (v_files (version vs1 p) ! l)) \<and>
      base_level_ok c valid (vs_file_heap vs2) (saved_level c (vs_file_heap vs2) bd l (v_files (version vs1 p) ! l))"
    using builder_applied [OF N(1) pv(2) fit1] by blast
  have ver2: "version vs2 q = version (Version_Ref p vs1) q" for q by (simp add: version_def vh2)
  have fp: "v_files (version vs2 q) = v_files (version vs1 q)" for q by (simp add: ver2 Version_Ref_frame(7))
  have d2: "dom (vs_version_heap vs2) = dom (vs_version_heap vs1)"
    unfolding vh2 Version_Ref_frame(8) using pv(2) by blast
  have v12: "v1 \<in> dom (vs_version_heap vs2)" unfolding d2 by (rule N(2))
  have "version vs2 v1 = Version_new" using Version_Ref_frame(9) [of v1 p vs1] pv(1) N(5) by (simp add: ver2)
  then have new2: "v_files (version vs2 v1) = replicate kNumLevels []" "file_to_compact (version vs2 v1) = None"
    by (simp_all add: Version_new_def)
  have len2: "length (v_files (version vs2 (bd_base bd))) = kNumLevels"
    using vset_invD(6) [OF N(1) pv(2)] by (simp add: bp fp version_levels_ok_def)
  have lev3: "\<forall>l < kNumLevels. set (v_files (version vs2 (bd_base bd)) ! l) \<subseteq> dom (vs_file_heap vs2) \<and>
      set (bd_added bd ! l) \<subseteq> dom (vs_file_heap vs2) \<and>
      base_level_ok c valid (vs_file_heap vs2) (saved_level c (vs_file_heap vs2) bd l (v_files (version vs2 (bd_base bd)) ! l))"
    unfolding bp fp using lev2 by blast
  note S = SaveTo_inv [OF inv2 v12 new2 HOL.refl len2 lev3]
  let ?vs3 = "Builder_SaveTo bd v1 vs2"
  let ?vs4 = "?vs3\<lparr>vs_file_heap := fold unref_file (concat (bd_added bd)) (vs_file_heap ?vs3)\<rparr>"
  have B: "build_version edits p vs = (v1, Version_Unref p ?vs4)"
    using n e by (simp add: build_version_def Builder_delete_def bp Let_def)
  then have eq: "v = v1" "vs' = Version_Unref p ?vs4" using b by simp_all
  have "mset (concat (bd_added bd)) + {#} = mset (concat (bd_added bd))" by simp
  then have inv4: "vset_inv c valid ?vs4 {#} (rc(p := rc p + 1)) (insert v1 pend)"
    using unref_extra [of c valid ?vs3 "concat (bd_added bd)" "{#}"] S(1) by simp
  have p4: "p \<in> dom (vs_version_heap ?vs4)" using S(5) d2 pv(2) by simp
  have "vset_inv c valid vs' {#} ((rc(p := rc p + 1))(p := (rc(p := rc p + 1)) p - 1)) (insert v1 pend)"
    unfolding eq(2) by (rule Version_Unref_inv [OF inv4 p4]) (use p(2) pv(1) in simp)
  then show inv': "vset_inv c valid vs' {#} rc (insert v pend)" by (simp add: eq(1) del: fun_upd_apply) simp
  show "rc v = 0" "v \<notin> dom (vs_version_heap vs)" using N(3,4) eq(1) by simp_all
  have rcp: "0 < rc p" using vset_invD(8) [OF inv p] .
  then have ref4: "v_refs (version ?vs4 p) \<noteq> 1" using vset_invD(7) [OF inv4 p4] by simp
  have U: "vs' = update_version p (\<lambda>v. v\<lparr>v_refs := v_refs v - 1\<rparr>) ?vs4"
    using ref4 by (simp add: eq(2) Version_Unref_def Let_def update_version_def version_def)
  have h': "vs_file_heap vs' = vs_file_heap ?vs4" "vs_current vs' = vs_current ?vs3" by (simp_all add: U update_version_def)
  have f': "v_files (version vs' q) = v_files (version ?vs3 q)" for q by (simp add: U update_version_def version_def)
  show "dom (vs_version_heap vs') = insert v (dom (vs_version_heap vs))"
    using S(5) d2 N(7) pv(2) by (auto simp: U update_version_def eq(1))
  show "vs_current vs' = vs_current vs" using h'(2) S(6) cur2 N(9) by simp
  have sh: "core (fmd (vs_file_heap vs') f) = core (fmd (vs_file_heap ?vs3) f)" if "f \<in> dom (vs_file_heap vs')" for f
  proof -
    have "file_counts (vs_file_heap ?vs3) (mset (concat (bd_added bd)) + version_refs (vs_version_heap ?vs3))"
      using vset_invD(5) [OF S(1)] by (simp add: ac_simps)
    from fold_unref_file_counts [OF this] have "shrinks (vs_file_heap ?vs3) (vs_file_heap vs')" by (simp add: h')
    then show ?thesis using that by (simp add: shrinks_def)
  qed
  have kc3: "keeps_cores (vs_file_heap vs) (vs_file_heap ?vs3)"
    using keeps_cores_trans [OF kc2 S(3)] by (simp add: N(8))
  have dom': "set (concat (v_files (version vs' q))) \<subseteq> dom (vs_file_heap vs')" if "q \<in> dom (vs_version_heap vs')" for q
    using version_file_allocated [OF inv' that] by blast
  show "\<forall>l < kNumLevels. level_cores (vs_file_heap vs') (v_files (version vs' v) ! l) =
       fold (apply_edit l) edits (level_cores (vs_file_heap vs) (v_files (version vs p) ! l))"
  proof (intro allI impI)
    fix l :: nat assume l: "l < kNumLevels"
    let ?s = "saved_level c (vs_file_heap vs2) bd l (v_files (version vs1 p) ! l)"
    have F: "v_files (version vs' v) ! l = ?s" using S(2) l by (simp add: f' eq(1) bp fp)
    have "version_levels_ok c valid (vs_file_heap vs') (version vs' v)"
      by (rule vset_invD(6) [OF inv']) (simp add: \<open>dom (vs_version_heap vs') = insert v (dom (vs_version_heap vs))\<close>)
    then have len: "length (v_files (version vs' v)) = kNumLevels" by (simp add: version_levels_ok_def)
    have "v_files (version vs' v) ! l \<in> set (v_files (version vs' v))" using l len by simp
    then have "set (v_files (version vs' v) ! l) \<subseteq> set (concat (v_files (version vs' v)))" by auto
    also have "\<dots> \<subseteq> dom (vs_file_heap vs')"
      by (rule dom') (simp add: \<open>dom (vs_version_heap vs') = insert v (dom (vs_version_heap vs))\<close>)
    finally have sub': "set ?s \<subseteq> dom (vs_file_heap vs')" unfolding F .
    have sub2: "set ?s \<subseteq> dom (vs_file_heap vs2)" using lev2 l unfolding base_level_ok_def by blast
    have "level_cores (vs_file_heap vs') ?s = level_cores (vs_file_heap vs2) ?s"
      unfolding level_cores_def
    proof (rule image_cong [OF HOL.refl])
      fix f assume f: "f \<in> set ?s"
      have "core (fmd (vs_file_heap vs') f) = core (fmd (vs_file_heap ?vs3) f)" by (rule sh) (use sub' f in blast)
      also have "\<dots> = core (fmd (vs_file_heap vs2) f)" by (rule keeps_coresD [OF S(3)]) (use sub2 f in blast)
      finally show "core (fmd (vs_file_heap vs') f) = core (fmd (vs_file_heap vs2) f)" .
    qed
    then show "level_cores (vs_file_heap vs') (v_files (version vs' v) ! l) =
        fold (apply_edit l) edits (level_cores (vs_file_heap vs) (v_files (version vs p) ! l))"
      unfolding F using lev2 l N(6) [OF pv(1)] N(8) by simp
  qed
  show "\<forall>q \<in> dom (vs_version_heap vs). v_files (version vs' q) = v_files (version vs q) \<and>
       (\<forall>f \<in> set (concat (v_files (version vs q))). core (fmd (vs_file_heap vs') f) = core (fmd (vs_file_heap vs) f))"
  proof
    fix q assume q: "q \<in> dom (vs_version_heap vs)"
    then have qv: "q \<noteq> v1" "q \<in> dom (vs_version_heap vs')" using N(4) \<open>dom (vs_version_heap vs') = insert v (dom (vs_version_heap vs))\<close> by auto
    have fq: "v_files (version vs' q) = v_files (version vs q)" using S(4) qv(1) by (simp add: f' fp N(6))
    have "core (fmd (vs_file_heap vs') f) = core (fmd (vs_file_heap vs) f)" if f: "f \<in> set (concat (v_files (version vs q)))" for f
    proof -
      have "f \<in> dom (vs_file_heap vs')" using dom' [OF qv(2)] f fq by auto
      then have "core (fmd (vs_file_heap vs') f) = core (fmd (vs_file_heap ?vs3) f)" by (rule sh)
      also have "\<dots> = core (fmd (vs_file_heap vs) f)"
        by (rule keeps_coresD [OF kc3 version_file_allocated [OF inv q f]])
      finally show ?thesis .
    qed
    then show "v_files (version vs' q) = v_files (version vs q) \<and>
       (\<forall>f \<in> set (concat (v_files (version vs q))). core (fmd (vs_file_heap vs') f) = core (fmd (vs_file_heap vs) f))"
      using fq by blast
  qed
qed

end

lemma AppendVersion_inv:
  assumes inv: "vset_inv c valid vs extra rc pend" and v: "v \<in> pend"
    and cur: "vs_current vs = Some cur" "cur \<in> dom (vs_version_heap vs)" "cur \<notin> pend"
  shows "vset_inv c valid (AppendVersion v vs) extra ((rc(cur := rc cur - 1))(v := rc v + 1)) (pend - {v})"
    "vs_current (AppendVersion v vs) = Some v"
proof -
  have vc: "v \<noteq> cur" using v cur(3) by blast
  let ?vs1 = "Version_Unref cur vs"
  note inv1 = Version_Unref_inv [OF inv cur(2,3)]
  have v1: "v \<in> dom (vs_version_heap ?vs1)" using vset_invD(12) [OF inv1] v by blast
  let ?vs2 = "Version_Ref v (?vs1\<lparr>vs_current := Some v\<rparr>)"
  have "vset_inv c valid (?vs1\<lparr>vs_current := Some v\<rparr>) extra (rc(cur := rc cur - 1)) pend"
    by (rule vset_inv_heap [OF inv1]) (use vset_invD [OF inv1] in simp_all)
  from Version_Ref_inv [OF this, of v] v1 have inv2: "vset_inv c valid ?vs2 extra ((rc(cur := rc cur - 1))(v := rc v + 1)) pend"
    using vc by simp
  note d = vset_invD [OF inv2]
  have A: "AppendVersion v vs = ?vs2\<lparr>vs_versions := vs_versions ?vs2 @ [v]\<rparr>" by (simp add: AppendVersion_def cur(1) Let_def)
  have ver: "version (?vs2\<lparr>vs_versions := vs_versions ?vs2 @ [v]\<rparr>) p = version ?vs2 p" for p by (simp add: version_def)
  have new: "v \<notin> set (vs_versions ?vs2)" using d(11) v by blast
  have vd: "v \<in> dom (vs_version_heap ?vs2)" using d(12) v by blast
  let ?rc = "(rc(cur := rc cur - 1))(v := rc v + 1)"
  have each: "version_levels_ok c valid (vs_file_heap ?vs2) (version ?vs2 p) \<and> v_refs (version ?vs2 p) = int (?rc p) \<and>
      (p \<notin> pend - {v} \<longrightarrow> 0 < ?rc p)" if p: "p \<in> dom (vs_version_heap ?vs2)" for p
    using d(6,7) [OF p] d(8) [OF p] by (cases "p = v") auto
  show "vset_inv c valid (AppendVersion v vs) extra ?rc (pend - {v})"
    unfolding A
  proof (rule vset_invI, unfold ver)
    show "set (vs_versions (?vs2\<lparr>vs_versions := vs_versions ?vs2 @ [v]\<rparr>)) =
        dom (vs_version_heap (?vs2\<lparr>vs_versions := vs_versions ?vs2 @ [v]\<rparr>)) - (pend - {v})"
      using d(11) vd by auto
    show "pend - {v} \<subseteq> dom (vs_version_heap (?vs2\<lparr>vs_versions := vs_versions ?vs2 @ [v]\<rparr>))" using d(12) by auto
  next
    fix p assume "p \<notin> dom (vs_version_heap (?vs2\<lparr>vs_versions := vs_versions ?vs2 @ [v]\<rparr>))"
    then have "p \<notin> dom (vs_version_heap ?vs2)" by simp
    then show "?rc p = 0" by (rule d(9))
  next
    fix p assume "p \<in> dom (vs_version_heap (?vs2\<lparr>vs_versions := vs_versions ?vs2 @ [v]\<rparr>))"
    then show "version_levels_ok c valid (vs_file_heap (?vs2\<lparr>vs_versions := vs_versions ?vs2 @ [v]\<rparr>)) (version ?vs2 p) \<and>
      v_refs (version ?vs2 p) = int (?rc p) \<and> (p \<notin> pend - {v} \<longrightarrow> 0 < ?rc p)"
      using each [of p] by simp
  qed (use d(1-5,10) new in simp_all)
  show "vs_current (AppendVersion v vs) = Some v" by (simp add: A Version_Ref_frame)
qed

text \<open>A version that is not installed holds no reference but its own; deleting it undoes the build.\<close>

lemma Version_delete_inv:
  assumes inv: "vset_inv c valid vs extra rc (insert v pend)" and v: "rc v = 0" "v \<notin> pend"
  shows "vset_inv c valid (Version_delete v vs) extra rc pend"
proof -
  note d = vset_invD [OF inv]
  let ?vh = "vs_version_heap vs" and ?h = "vs_file_heap vs"
  let ?fs = "concat (v_files (version vs v))"
  let ?h' = "fold unref_file ?fs ?h"
  have vd: "v \<in> dom ?vh" using d(12) by blast
  have "file_counts ?h (mset ?fs + (version_refs (?vh(v := None)) + extra))"
    using d(5) unfolding version_refs_remove [OF d(2) version_Some [OF vd]] by (simp add: add.assoc)
  from fold_unref_file_counts [OF this]
  have fc: "file_counts ?h' (version_refs (?vh(v := None)) + extra)" and sh: "shrinks ?h ?h'" by blast+
  have notin: "v \<notin> set (vs_versions vs)" using d(11) by blast
  have D: "Version_delete v vs = vs\<lparr>vs_file_heap := ?h', vs_version_heap := ?vh(v := None)\<rparr>"
    using notin by (simp add: Version_delete_def remove1_idem)
  have ver: "version (Version_delete v vs) q = version vs q" if "q \<noteq> v" for q using that by (simp add: D version_def)
  have sel: "vs_version_heap (Version_delete v vs) = ?vh(v := None)" "vs_file_heap (Version_delete v vs) = ?h'"
    "vs_ucmp (Version_delete v vs) = vs_ucmp vs" "vs_version_next (Version_delete v vs) = vs_version_next vs"
    "vs_file_next (Version_delete v vs) = vs_file_next vs" "vs_versions (Version_delete v vs) = vs_versions vs" by (simp_all add: D)
  have lev: "version_levels_ok c valid ?h' (version vs q)" if q: "q \<in> dom ?vh" "q \<noteq> v" for q
  proof (rule version_levels_ok_keep [OF d(6) [OF q(1)]])
    fix f assume f: "f \<in> set (concat (v_files (version vs q)))"
    have "f \<in># version_refs (?vh(v := None))"
      by (rule version_refs_mem [of _ q "version vs q"]) (use d(2) version_Some [OF q(1)] q(2) f in auto)
    then have "f \<in> dom ?h'" using file_counts_dom [OF fc] by simp
    then show "f \<in> dom ?h' \<and> core (fmd ?h' f) = core (fmd ?h f)" using sh by (simp add: shrinks_def)
  qed
  show ?thesis
  proof (rule vset_invI, unfold sel)
    show "\<forall>f \<in> dom ?h'. f < vs_file_next vs" using d(4) sh by (auto simp: shrinks_def)
    show "set (vs_versions vs) = dom (?vh(v := None)) - pend" using d(11) by auto
    show "pend \<subseteq> dom (?vh(v := None))" using d(12) v(2) by auto
    show "\<forall>p \<in> dom (?vh(v := None)). p < vs_version_next vs" using d(3) by auto
    fix q
    show "rc q = 0" if "q \<notin> dom (?vh(v := None))" using that d(9) [of q] v(1) by (cases "q = v") auto
    assume "q \<in> dom (?vh(v := None))"
    then have q: "q \<in> dom ?vh" "q \<noteq> v" by (auto split: if_splits)
    then show "version_levels_ok c valid ?h' (version (Version_delete v vs) q) \<and>
        v_refs (version (Version_delete v vs) q) = int (rc q) \<and> (q \<notin> pend \<longrightarrow> 0 < rc q)"
      using ver lev [OF q] d(7,8) [OF q(1)] by simp
  qed (use d(1,2,10) fc in simp_all)
qed

text \<open>Statistics and scores do not touch the files of a version.\<close>

lemma update_version_inv:
  assumes inv: "vset_inv c valid vs extra rc pend" and p: "p \<in> dom (vs_version_heap vs)"
    and w: "v_files w = v_files (version vs p)" "v_refs w = v_refs (version vs p)"
      "\<forall>f. file_to_compact w = Some f \<longrightarrow> f \<in> set (concat (v_files w))"
  shows "vset_inv c valid (update_version p (\<lambda>_. w) vs) extra rc pend"
proof -
  note d = vset_invD [OF inv]
  let ?vs = "update_version p (\<lambda>_. w) vs"
  have ver: "version ?vs p = w" "\<And>q. q \<noteq> p \<Longrightarrow> version ?vs q = version vs q" by (simp_all add: update_version_def version_def)
  have sel: "vs_file_heap ?vs = vs_file_heap vs" "vs_ucmp ?vs = vs_ucmp vs" "vs_version_next ?vs = vs_version_next vs"
    "vs_file_next ?vs = vs_file_next vs" "vs_versions ?vs = vs_versions vs" "dom (vs_version_heap ?vs) = dom (vs_version_heap vs)"
    using p by (auto simp: update_version_def)
  have lw: "version_levels_ok c valid (vs_file_heap vs) w" using d(6) [OF p] w by (simp add: version_levels_ok_def)
  have vr: "version_refs (vs_version_heap ?vs) = version_refs (vs_version_heap vs)"
    using version_refs_same [OF d(2) version_Some [OF p] w(1)] by (simp add: update_version_def)
  show ?thesis
  proof (rule vset_invI, unfold sel vr)
    fix q assume q: "q \<in> dom (vs_version_heap vs)"
    show "version_levels_ok c valid (vs_file_heap vs) (version ?vs q) \<and> v_refs (version ?vs q) = int (rc q) \<and> (q \<notin> pend \<longrightarrow> 0 < rc q)"
      using d(6-8) [OF q] ver lw w(2) by (cases "q = p") simp_all
  qed (use d in simp_all)
qed

end
