(* ===== verification/VersionSteps.thy ===== *)
theory VersionSteps
  imports VersionRefs
begin

section \<open>The life of versions: scores, installation, sharing and destruction\<close>

text \<open>
  The steps of a version set that create, install, share and release versions, as a relation
  on the version set and the multiset of the references others hold to its versions, and the
  invariant of the states it reaches: reference counts are exact, nothing in use is freed, and
  nothing leaks.
\<close>

subsection \<open>Compaction scores\<close>

fun MaxBytesForLevel_loop :: "nat \<Rightarrow> rat \<Rightarrow> rat" where
  "MaxBytesForLevel_loop level result = (if 1 < level then MaxBytesForLevel_loop (level - 1) (result * 10) else result)"

declare MaxBytesForLevel_loop.simps [simp del]

definition MaxBytesForLevel :: "Options \<Rightarrow> nat \<Rightarrow> rat" where
  "MaxBytesForLevel options level = MaxBytesForLevel_loop level (10 * 1048576)"

definition level_score :: "Options \<Rightarrow> FileHeap \<Rightarrow> Version \<Rightarrow> nat \<Rightarrow> rat" where
  "level_score options h v level =
     (if level = 0 then rat_of_nat (length (v_files v ! level)) / rat_of_nat kL0_CompactionTrigger
      else rat_of_nat (unat (TotalFileSize h (v_files v ! level))) / MaxBytesForLevel options level)"

fun Finalize_step :: "Options \<Rightarrow> FileHeap \<Rightarrow> Version \<Rightarrow> nat \<Rightarrow> int \<times> rat \<Rightarrow> int \<times> rat" where
  "Finalize_step options h v level (best_level, best_score) =
     (if best_score < level_score options h v level then (int level, level_score options h v level)
      else (best_level, best_score))"

definition Finalize :: "vptr \<Rightarrow> 'w VersionSet \<Rightarrow> 'w VersionSet" where
  "Finalize p vs =
     (let v = version vs p;
          (best_level, best_score) = fold (Finalize_step (vs_options vs) (vs_file_heap vs) v) [0..<kNumLevels - 1] (-1, -1)
      in update_version p (\<lambda>v. v\<lparr>compaction_level := best_level, compaction_score := best_score\<rparr>) vs)"

definition NeedsCompaction :: "'w VersionSet \<Rightarrow> bool" where
  "NeedsCompaction vs =
     (let v = version vs (the (vs_current vs)) in 1 \<le> compaction_score v \<or> file_to_compact v \<noteq> None)"

definition VersionSet_delete :: "'w VersionSet \<Rightarrow> 'w VersionSet" where
  "VersionSet_delete vs = (Version_Unref (the (vs_current vs)) vs)\<lparr>vs_descriptor_log := None\<rparr>"

lemma MaxBytesForLevel_power: "1 \<le> level \<Longrightarrow> MaxBytesForLevel options level = 1048576 * 10 ^ level"
proof -
  have "MaxBytesForLevel_loop (Suc n) r = r * 10 ^ n" for n r
  proof (induction n arbitrary: r)
    case (Suc n)
    then show ?case using Suc [of "r * 10"] by (simp add: MaxBytesForLevel_loop.simps [of "Suc (Suc n)"])
  qed (simp add: MaxBytesForLevel_loop.simps)
  then show "1 \<le> level \<Longrightarrow> MaxBytesForLevel options level = 1048576 * 10 ^ level"
    by (cases level) (simp_all add: MaxBytesForLevel_def)
qed

lemma level_score_nonneg: "0 \<le> level_score options h v level"
proof (cases "level = 0")
  case False
  then show ?thesis
    by (auto simp: level_score_def MaxBytesForLevel_power simp del: of_nat_unat intro!: divide_nonneg_nonneg)
qed (simp add: level_score_def kL0_CompactionTrigger_def)

text \<open>\<^const>\<open>Finalize\<close> records the first level with the largest score.\<close>

lemma Finalize_fold:
  assumes "0 < n"
  shows "\<exists>l < n. fold (Finalize_step options h v) [0..<n] (-1, -1) = (int l, level_score options h v l) \<and>
    (\<forall>k < n. level_score options h v k \<le> level_score options h v l) \<and>
    (\<forall>k < l. level_score options h v k < level_score options h v l)"
  using assms
proof (induction n)
  case (Suc n)
  show ?case
  proof (cases "n = 0")
    case True
    have "- 1 < level_score options h v 0" using level_score_nonneg [of options h v 0] by linarith
    then show ?thesis using True by auto
  next
    case False
    then obtain l where l: "l < n" "fold (Finalize_step options h v) [0..<n] (-1, -1) = (int l, level_score options h v l)"
      "\<forall>k < n. level_score options h v k \<le> level_score options h v l" "\<forall>k < l. level_score options h v k < level_score options h v l"
      using Suc.IH by auto
    show ?thesis
    proof (cases "level_score options h v l < level_score options h v n")
      case True
      then have "\<forall>k < n. level_score options h v k < level_score options h v n" using l(3) by fastforce
      then show ?thesis using l(2) True by (intro exI [of _ n]) (auto simp: less_Suc_eq)
    next
      case False
      then show ?thesis using l by (intro exI [of _ l]) (auto simp: less_Suc_eq)
    qed
  qed
qed simp

subsection \<open>Steps\<close>

text \<open>
  \<open>vset_reach c valid dbname options vs handles\<close>: the version set \<open>vs\<close> can arise when \<open>handles\<close> are the
  references that readers, iterators and compactions hold. An installation is the end of
  \<open>LogAndApply\<close> or \<open>Recover\<close>; a failed write of the descriptor deletes the new version. The last
  rule stands for the operations on the counters, the descriptor log and the compaction pointers.
\<close>

inductive vset_reach ::
    "Comparator \<Rightarrow> (bytes \<Rightarrow> bool) \<Rightarrow> bytes \<Rightarrow> Options \<Rightarrow> 'w VersionSet \<Rightarrow> vptr multiset \<Rightarrow> bool"
  for c :: Comparator and valid :: "bytes \<Rightarrow> bool" and dbname :: bytes and options :: Options where
  start: "vset_reach c valid dbname options (VersionSet_new dbname options c) {#}"
| install: "vset_reach c valid dbname options vs handles \<Longrightarrow> vs_current vs = Some cur \<Longrightarrow>
     edits_fit valid vs cur edits \<Longrightarrow> build_version edits cur vs = (v, vs') \<Longrightarrow>
     vset_reach c valid dbname options (AppendVersion v (Finalize v vs')) handles"
| abandon: "vset_reach c valid dbname options vs handles \<Longrightarrow> vs_current vs = Some cur \<Longrightarrow>
     edits_fit valid vs cur edits \<Longrightarrow> build_version edits cur vs = (v, vs') \<Longrightarrow>
     vset_reach c valid dbname options (Version_delete v (Finalize v vs')) handles"
| acquire: "vset_reach c valid dbname options vs handles \<Longrightarrow> vs_current vs = Some cur \<Longrightarrow>
     vset_reach c valid dbname options (Version_Ref cur vs) (add_mset cur handles)"
| release: "vset_reach c valid dbname options vs (add_mset p handles) \<Longrightarrow>
     vset_reach c valid dbname options (Version_Unref p vs) handles"
| seek: "vset_reach c valid dbname options vs handles \<Longrightarrow> p \<in># handles \<Longrightarrow>
     (\<And>f. seek_file stats = Some f \<Longrightarrow> f \<in> set (concat (v_files (version vs p)))) \<Longrightarrow>
     UpdateStats stats (vs_file_heap vs) (version vs p) = (b, h, w) \<Longrightarrow>
     vset_reach c valid dbname options (update_version p (\<lambda>_. w) (vs\<lparr>vs_file_heap := h\<rparr>)) handles"
| other: "vset_reach c valid dbname options vs handles \<Longrightarrow>
     vset_reach c valid dbname options
       (vs\<lparr>vs_next_file_number := n1, vs_manifest_file_number := n2, vs_last_sequence := n3, vs_log_number := n4,
          vs_prev_log_number := n5, vs_descriptor_log := dlog, vs_compact_pointer := cps\<rparr>) handles"

definition live_refs :: "'w VersionSet \<Rightarrow> vptr multiset \<Rightarrow> vptr \<Rightarrow> nat" where
  "live_refs vs handles p = count (case vs_current vs of None \<Rightarrow> handles | Some cur \<Rightarrow> add_mset cur handles) p"

lemma Finalize_frame:
  "vs_file_heap (Finalize p vs) = vs_file_heap vs" "vs_current (Finalize p vs) = vs_current vs"
  "v_files (version (Finalize p vs) q) = v_files (version vs q)"
  "\<exists>l s. Finalize p vs = update_version p (\<lambda>_. (version vs p)\<lparr>compaction_level := l, compaction_score := s\<rparr>) vs"
  by (auto simp: Finalize_def update_version_def version_def Let_def split: prod.splits)

lemma Finalize_dom: "dom (vs_version_heap (Finalize p vs)) = insert p (dom (vs_version_heap vs))"
  by (auto simp: Finalize_def update_version_def Let_def split: prod.splits)

lemma Version_Unref_current: "vs_current (Version_Unref p vs) = vs_current vs"
  by (simp add: Version_Unref_def Let_def Version_delete_def update_version_def)

lemma live_refs_pos:
  "vs_current vs = Some p \<or> p \<in># handles \<Longrightarrow> 0 < live_refs vs handles p"
  by (auto simp: live_refs_def split: option.splits)

lemma referenced_live:
  "vset_inv c valid vs extra (live_refs vs handles) pend \<Longrightarrow> vs_current vs = Some p \<or> p \<in># handles \<Longrightarrow> p \<in> dom (vs_version_heap vs)"
  using vset_invD(9) [of c valid vs extra "live_refs vs handles" pend p] live_refs_pos [of vs p handles] by linarith

context internal_keys
begin

lemma VersionSet_new_inv: "vset_inv c valid (VersionSet_new dbname options c) {#} (\<lambda>p. if p = 0 then 1 else 0) {}"
proof -
  have ok: "version_levels_ok c valid h (Version_new\<lparr>v_refs := n\<rparr>)" for h n
    by (simp add: version_levels_ok_def Version_new_def base_level_ok_def)
  show ?thesis
    by (rule vset_invI)
      (auto simp: VersionSet_new_def Let_def new_version_def AppendVersion_def Version_Ref_def update_version_def version_def
        file_counts_def version_refs_def ok split: if_splits, simp_all add: Version_new_def)
qed

lemma Finalize_inv:
  assumes inv: "vset_inv c valid vs extra rc pend" and p: "p \<in> dom (vs_version_heap vs)"
  shows "vset_inv c valid (Finalize p vs) extra rc pend"
proof -
  obtain l s where F: "Finalize p vs = update_version p (\<lambda>_. (version vs p)\<lparr>compaction_level := l, compaction_score := s\<rparr>) vs"
    using Finalize_frame(4) by blast
  show ?thesis
    unfolding F by (rule update_version_inv [OF inv p]) (use vset_invD(6) [OF inv p] in \<open>simp_all add: version_levels_ok_def\<close>)
qed

lemma UpdateStats_inv:
  assumes inv: "vset_inv c valid vs {#} rc pend" and p: "p \<in> dom (vs_version_heap vs)"
    and f: "\<And>f. seek_file stats = Some f \<Longrightarrow> f \<in> set (concat (v_files (version vs p)))"
    and u: "UpdateStats stats (vs_file_heap vs) (version vs p) = (b, h, w)"
  shows "vset_inv c valid (update_version p (\<lambda>_. w) (vs\<lparr>vs_file_heap := h\<rparr>)) {#} rc pend"
proof -
  note d = vset_invD [OF inv]
  have w: "v_files w = v_files (version vs p)" "v_refs w = v_refs (version vs p)"
    "\<forall>f. file_to_compact w = Some f \<longrightarrow> f \<in> set (concat (v_files w))"
    using u f d(6) [OF p] by (auto simp: UpdateStats_def Let_def version_levels_ok_def split: option.splits if_splits)
  have h: "h = vs_file_heap vs \<or> (\<exists>f. f \<in> dom (vs_file_heap vs) \<and>
      h = (vs_file_heap vs)(f \<mapsto> (fmd (vs_file_heap vs) f)\<lparr>allowed_seeks := allowed_seeks (fmd (vs_file_heap vs) f) - 1\<rparr>))"
    using u f version_file_allocated [OF inv p]
    by (cases "seek_file stats") (auto simp: UpdateStats_def Let_def split: if_splits)
  have dom: "dom h = dom (vs_file_heap vs)" using h by (elim disjE exE conjE) (simp_all add: insert_absorb)
  have cores: "core (fmd h g) = core (fmd (vs_file_heap vs) g)" for g using h by (auto simp: core_def fmd_def)
  have refs: "refs (fmd h g) = refs (fmd (vs_file_heap vs) g)" for g using h by (auto simp: fmd_def)
  have cnt: "file_counts h M \<longleftrightarrow> file_counts (vs_file_heap vs) M" for M
  proof -
    have "(case h g of None \<Rightarrow> g \<notin># M | Some m \<Rightarrow> g \<in># M \<and> refs m = int (count M g)) \<longleftrightarrow>
        (case vs_file_heap vs g of None \<Rightarrow> g \<notin># M | Some m \<Rightarrow> g \<in># M \<and> refs m = int (count M g))" for g
    proof -
      have "h g = None \<longleftrightarrow> vs_file_heap vs g = None" using dom by (metis domIff)
      then show ?thesis using refs [of g] by (cases "h g"; cases "vs_file_heap vs g") (simp_all add: fmd_def)
    qed
    then show ?thesis by (simp add: file_counts_def)
  qed
  have "vset_inv c valid (vs\<lparr>vs_file_heap := h\<rparr>) {#} rc pend"
    by (rule vset_inv_heap [OF inv]) (use d dom cores cnt in simp_all)
  then show ?thesis by (rule update_version_inv) (use p w in \<open>simp_all add: version_def\<close>)
qed

lemma vset_reach_inv:
  fixes vs :: "'w VersionSet"
  shows "vset_reach c valid dbname options vs handles \<Longrightarrow>
   vs_current vs \<noteq> None \<and> vset_inv c valid vs {#} (live_refs vs handles) {}"
proof (induction rule: vset_reach.induct)
  case start
  have cur: "vs_current (VersionSet_new dbname options c :: 'w VersionSet) = Some 0"
    by (simp add: VersionSet_new_def new_version_def AppendVersion_def Let_def Version_Ref_def update_version_def)
  moreover have "live_refs (VersionSet_new dbname options c :: 'w VersionSet) {#} = (\<lambda>p. if p = 0 then 1 else 0)"
    by (auto simp: live_refs_def cur fun_eq_iff)
  ultimately show ?case using VersionSet_new_inv by simp
next
  case (install vs handles cur edits v vs')
  then have inv: "vset_inv c valid vs {#} (live_refs vs handles) {}" by simp
  have cur: "cur \<in> dom (vs_version_heap vs)"
    using referenced_live [OF inv, of cur] install.hyps(2) by simp
  note B = build_version_inv [OF inv cur _ install.hyps(3,4), simplified]
  have inv1: "vset_inv c valid (Finalize v vs') {#} (live_refs vs handles) {v}"
    by (rule Finalize_inv [OF B(1)]) (simp add: B(4))
  have c1: "vs_current (Finalize v vs') = Some cur" using B(5) install.hyps(2) by (simp add: Finalize_frame)
  have vc: "v \<noteq> cur" using B(3) cur by auto
  have "cur \<in> dom (vs_version_heap (Finalize v vs'))"
    using inv1 c1 cur B(4) by (simp add: Finalize_dom)
  note A = AppendVersion_inv [OF inv1 _ c1 this, of v, simplified, OF vc [symmetric]]
  have "(live_refs vs handles)(cur := live_refs vs handles cur - 1, v := Suc (live_refs vs handles v)) =
      live_refs (AppendVersion v (Finalize v vs')) handles"
    using A(2) install.hyps(2) vc by (auto simp: live_refs_def fun_eq_iff)
  then show ?case using A by simp
next
  case (abandon vs handles cur edits v vs')
  then have inv: "vset_inv c valid vs {#} (live_refs vs handles) {}" by simp
  have cur: "cur \<in> dom (vs_version_heap vs)"
    using referenced_live [OF inv, of cur] abandon.hyps(2) by simp
  note B = build_version_inv [OF inv cur _ abandon.hyps(3,4), simplified]
  have inv1: "vset_inv c valid (Finalize v vs') {#} (live_refs vs handles) {v}"
    by (rule Finalize_inv [OF B(1)]) (simp add: B(4))
  have c1: "vs_current (Version_delete v (Finalize v vs')) = vs_current vs"
    using B(5) by (simp add: Finalize_frame Version_delete_def)
  have "vset_inv c valid (Version_delete v (Finalize v vs')) {#} (live_refs vs handles) {}"
    by (rule Version_delete_inv [OF inv1 B(2)]) simp
  moreover have "live_refs (Version_delete v (Finalize v vs')) handles = live_refs vs handles" by (simp add: live_refs_def c1 fun_eq_iff)
  ultimately show ?case using abandon.IH c1 by simp
next
  case (acquire vs handles cur)
  then have inv: "vset_inv c valid vs {#} (live_refs vs handles) {}" by simp
  have cur: "cur \<in> dom (vs_version_heap vs)"
    using referenced_live [OF inv, of cur] acquire.hyps(2) by simp
  have "(live_refs vs handles)(cur := live_refs vs handles cur + 1) = live_refs (Version_Ref cur vs) (add_mset cur handles)"
    using acquire.hyps(2) by (auto simp: live_refs_def Version_Ref_frame fun_eq_iff)
  then show ?case using Version_Ref_inv [OF inv cur] acquire by (simp add: Version_Ref_frame)
next
  case (release vs p handles)
  then have inv: "vset_inv c valid vs {#} (live_refs vs (add_mset p handles)) {}" by simp
  have p: "p \<in> dom (vs_version_heap vs)"
    using referenced_live [OF inv, of p] by simp
  have "(live_refs vs (add_mset p handles))(p := live_refs vs (add_mset p handles) p - 1) = live_refs (Version_Unref p vs) handles"
    by (auto simp: live_refs_def Version_Unref_current fun_eq_iff split: option.splits)
  then show ?case using Version_Unref_inv [OF inv p] release by (simp add: Version_Unref_current)
next
  case (seek vs handles p stats b h w)
  then have inv: "vset_inv c valid vs {#} (live_refs vs handles) {}" by simp
  have p: "p \<in> dom (vs_version_heap vs)"
    using referenced_live [OF inv, of p] seek.hyps(2) by simp
  have cur: "vs_current (update_version p (\<lambda>_. w) (vs\<lparr>vs_file_heap := h\<rparr>)) = vs_current vs" by (simp add: update_version_def)
  have "live_refs (update_version p (\<lambda>_. w) (vs\<lparr>vs_file_heap := h\<rparr>)) handles = live_refs vs handles" by (simp add: live_refs_def cur fun_eq_iff)
  then show ?case using UpdateStats_inv [OF inv p seek.hyps(3,4)] seek.IH cur by simp
next
  case (other vs handles cps dlog n5 n4 n3 n2 n1)
  let ?vs = "vs\<lparr>vs_next_file_number := n1, vs_manifest_file_number := n2, vs_last_sequence := n3, vs_log_number := n4,
    vs_prev_log_number := n5, vs_descriptor_log := dlog, vs_compact_pointer := cps\<rparr>"
  have inv: "vset_inv c valid vs {#} (live_refs vs handles) {}" using other by simp
  have "live_refs ?vs handles = live_refs vs handles" by (simp add: live_refs_def fun_eq_iff)
  moreover have "vset_inv c valid ?vs {#} (live_refs vs handles) {}"
    by (rule vset_inv_heap [OF inv]) (use vset_invD [OF inv] in simp_all)
  ultimately show ?case using other.IH by simp
qed

end

lemma vset_inv_files:
  assumes inv: "vset_inv c valid vs {#} rc {}"
  shows "case vs_file_heap vs f of
      None \<Rightarrow> \<forall>p \<in> set (vs_versions vs). f \<notin> set (concat (v_files (version vs p)))
    | Some m \<Rightarrow> 0 < refs m \<and> refs m = (\<Sum>p \<in> set (vs_versions vs). int (count (mset (concat (v_files (version vs p)))) f))"
proof -
  note d = vset_invD [OF inv]
  have V: "set (vs_versions vs) = dom (vs_version_heap vs)" using d(11) by simp
  have R: "version_refs (vs_version_heap vs) = (\<Sum>p \<in> set (vs_versions vs). mset (concat (v_files (version vs p))))"
    by (simp add: version_refs_def V version_def)
  have c: "count (version_refs (vs_version_heap vs)) f = (\<Sum>p \<in> set (vs_versions vs). count (mset (concat (v_files (version vs p)))) f)"
    unfolding R by (simp only: count_sum)
  have F: "case vs_file_heap vs f of None \<Rightarrow> f \<notin># version_refs (vs_version_heap vs)
      | Some m \<Rightarrow> f \<in># version_refs (vs_version_heap vs) \<and> refs m = int (count (version_refs (vs_version_heap vs)) f)"
    using d(5) by (simp add: file_counts_def)
  show ?thesis
  proof (cases "vs_file_heap vs f")
    case None
    then have "f \<notin> set (concat (v_files (version vs p)))" if "p \<in> set (vs_versions vs)" for p
      using version_file_allocated [OF inv, of p f] that V by blast
    then show ?thesis using None by simp
  next
    case (Some m)
    then have "0 < refs m" "refs m = int (count (version_refs (vs_version_heap vs)) f)" using F by auto
    then show ?thesis unfolding c using Some by (simp only: option.case of_nat_sum)
  qed
qed

subsection \<open>Properties\<close>

text \<open>
  C11: a builder on the current version leaves, after any number of edits, a new
  version whose levels hold exactly the files the edits make of the current ones (an edit takes
  out the files it deletes and puts in those it adds), in the order of their smallest keys; the
  versions there were keep their files and descriptions.
\<close>

theorem version_builder:
  assumes "internal_keys c valid" "vset_reach c valid dbname options vs handles" "vs_current vs = Some cur"
    and "edits_fit valid vs cur edits" "build_version edits cur vs = (v, vs')"
  shows "(\<forall>l < kNumLevels.
      level_cores (vs_file_heap vs') (v_files (version vs' v) ! l) =
        fold (apply_edit l) edits (level_cores (vs_file_heap vs) (v_files (version vs cur) ! l)) \<and>
      sorted_wrt (BySmallestKey c (vs_file_heap vs')) (v_files (version vs' v) ! l)) \<and>
    (\<forall>q \<in> set (vs_versions vs). v_files (version vs' q) = v_files (version vs q) \<and>
      (\<forall>f \<in> set (concat (v_files (version vs q))). core (fmd (vs_file_heap vs') f) = core (fmd (vs_file_heap vs) f)))"
proof -
  have inv: "vset_inv c valid vs {#} (live_refs vs handles) {}" using internal_keys.vset_reach_inv [OF assms(1,2)] by simp
  have cur: "cur \<in> dom (vs_version_heap vs)" using referenced_live [OF inv, of cur] assms(3) by simp
  note B = internal_keys.build_version_inv [OF assms(1) inv cur _ assms(4,5), simplified]
  have "version_levels_ok c valid (vs_file_heap vs') (version vs' v)" by (rule vset_invD(6) [OF B(1)]) (simp add: B(4))
  then have "\<forall>l < kNumLevels.
      level_cores (vs_file_heap vs') (v_files (version vs' v) ! l) =
        fold (apply_edit l) edits (level_cores (vs_file_heap vs) (v_files (version vs cur) ! l)) \<and>
      sorted_wrt (BySmallestKey c (vs_file_heap vs')) (v_files (version vs' v) ! l)"
    using B(6) by (simp add: version_levels_ok_def base_level_ok_def)
  moreover have "\<forall>q \<in> set (vs_versions vs). v_files (version vs' q) = v_files (version vs q) \<and>
      (\<forall>f \<in> set (concat (v_files (version vs q))). core (fmd (vs_file_heap vs') f) = core (fmd (vs_file_heap vs) f))"
    using B(7) vset_invD(11) [OF inv] by simp
  ultimately show ?thesis by blast
qed

definition demo_edit :: VersionEdit where
  "demo_edit = VersionEdit_AddFile 1 7 100 (InternalKey_new [65] 3 kTypeValue) (InternalKey_new [66] 2 kTypeValue) VersionEdit_new"

definition demo_versions :: "unit VersionSet" where
  "demo_versions = VersionSet_new [] Options_new BytewiseComparator"

lemma demo_versions_current: "vs_current demo_versions = Some 0" "v_files (version demo_versions 0) = replicate kNumLevels []"
  by (simp_all add: demo_versions_def VersionSet_new_def new_version_def AppendVersion_def Let_def Version_Ref_def update_version_def
      version_def Version_new_def)

lemma demo_edit_fits: "edits_fit (\<lambda>_. True) demo_versions 0 [demo_edit]"
proof -
  have "(3 :: u64) \<le> kMaxSequenceNumber" by (simp add: kMaxSequenceNumber_def)
  then have "valid_ikey (\<lambda>_. True) (InternalKey_new [65] 3 kTypeValue)" by (auto simp: valid_ikey_def)
  then show ?thesis
    by (auto simp: edits_fit_def edit_ok_def demo_edit_def VersionEdit_AddFile_def VersionEdit_new_def edit_new_def
        demo_versions_current level_cores_def FileMetaData_new_def kNumLevels_def)
qed

lemma demo_versions_reach: "vset_reach BytewiseComparator (\<lambda>_. True) [] Options_new demo_versions {#}"
  unfolding demo_versions_def by (rule vset_reach.start)

theorem version_builder_witness:
  "case build_version [demo_edit] 0 demo_versions of (v, vs) \<Rightarrow>
     level_cores (vs_file_heap vs) (v_files (version vs v) ! 1) =
       {(7, 100, InternalKey_new [65] 3 kTypeValue, InternalKey_new [66] 2 kTypeValue)}"
proof -
  obtain v vs where b: "build_version [demo_edit] 0 demo_versions = (v, vs)" by force
  have "(1 :: nat) < kNumLevels" by (simp add: kNumLevels_def)
  with version_builder [OF bytewise_ik.internal_keys_axioms demo_versions_reach demo_versions_current(1) demo_edit_fits b]
  have "level_cores (vs_file_heap vs) (v_files (version vs v) ! 1) = apply_edit 1 demo_edit {}"
    by (simp add: demo_versions_current(2) level_cores_def kNumLevels_def del: One_nat_def)
  then show ?thesis
    using b by (simp add: apply_edit_def edit_new_def demo_edit_def VersionEdit_AddFile_def VersionEdit_new_def
        FileMetaData_new_def core_def)
qed

text \<open>
  C10: in every version set that can arise, the list of versions holds
  exactly the current one and those that someone refers to, the count of each is the number of
  its references, its levels are in order, and the count of every file description is the
  number of its occurrences in these versions: nothing they use is freed, nothing else is kept.
\<close>

theorem version_set_invariant:
  assumes "internal_keys c valid" "vset_reach c valid dbname options vs handles"
  shows "\<exists>cur. vs_current vs = Some cur \<and> distinct (vs_versions vs) \<and>
    set (vs_versions vs) = insert cur (set_mset handles) \<and> dom (vs_version_heap vs) = set (vs_versions vs) \<and>
    (\<forall>p \<in> set (vs_versions vs). v_refs (version vs p) = int (count (add_mset cur handles) p) \<and>
       version_levels_ok c valid (vs_file_heap vs) (version vs p)) \<and>
    (\<forall>f. case vs_file_heap vs f of
       None \<Rightarrow> \<forall>p \<in> set (vs_versions vs). f \<notin> set (concat (v_files (version vs p)))
     | Some m \<Rightarrow> 0 < refs m \<and> refs m = (\<Sum>p \<in> set (vs_versions vs). int (count (mset (concat (v_files (version vs p)))) f)))"
proof -
  obtain cur where cur: "vs_current vs = Some cur" and inv: "vset_inv c valid vs {#} (live_refs vs handles) {}"
    using internal_keys.vset_reach_inv [OF assms] by blast
  note d = vset_invD [OF inv]
  have V: "set (vs_versions vs) = dom (vs_version_heap vs)" using d(11) by simp
  have lr: "live_refs vs handles p = count (add_mset cur handles) p" for p by (simp add: live_refs_def cur)
  have "p \<in> dom (vs_version_heap vs) \<longleftrightarrow> p \<in> insert cur (set_mset handles)" for p
  proof
    assume "p \<in> dom (vs_version_heap vs)"
    then have "0 < live_refs vs handles p" using d(8) by simp
    then show "p \<in> insert cur (set_mset handles)" by (auto simp: lr split: if_splits)
  qed (use referenced_live [OF inv, of p] cur in auto)
  then have "dom (vs_version_heap vs) = insert cur (set_mset handles)" by blast
  moreover have "v_refs (version vs p) = int (count (add_mset cur handles) p)" "version_levels_ok c valid (vs_file_heap vs) (version vs p)"
    if "p \<in> set (vs_versions vs)" for p
    using d(6,7) [of p] that V lr by simp_all
  ultimately show ?thesis
    by (intro exI [of _ cur] conjI ballI allI cur d(10) vset_inv_files [OF inv]) (use V in simp_all)
qed

definition demo_installed :: "unit VersionSet" where
  "demo_installed = (case build_version [demo_edit] 0 demo_versions of (v, vs) \<Rightarrow> AppendVersion v (Finalize v vs))"

lemma demo_installed_reach: "vset_reach BytewiseComparator (\<lambda>_. True) [] Options_new demo_installed {#}"
proof -
  obtain v vs where b: "build_version [demo_edit] 0 demo_versions = (v, vs)" by force
  from vset_reach.install [OF demo_versions_reach demo_versions_current(1) demo_edit_fits b]
  show ?thesis by (simp add: demo_installed_def b)
qed

theorem version_set_invariant_witness:
  "\<exists>cur. vs_current demo_installed = Some cur \<and> set (vs_versions demo_installed) = {cur} \<and> v_refs (version demo_installed cur) = 1"
  using version_set_invariant [OF bytewise_ik.internal_keys_axioms demo_installed_reach] by auto

text \<open>
  C22: when nobody holds a version any more, destroying the version set frees
  every version and every file description.
\<close>

theorem version_set_no_leak:
  assumes "internal_keys c valid" "vset_reach c valid dbname options vs {#}"
  shows "vs_versions (VersionSet_delete vs) = [] \<and> vs_version_heap (VersionSet_delete vs) = Map.empty \<and>
    vs_file_heap (VersionSet_delete vs) = Map.empty"
proof -
  obtain cur where cur: "vs_current vs = Some cur" and inv: "vset_inv c valid vs {#} (live_refs vs {#}) {}"
    using internal_keys.vset_reach_inv [OF assms] by blast
  have dom: "cur \<in> dom (vs_version_heap vs)" using referenced_live [OF inv, of cur] cur by simp
  have "(live_refs vs {#})(cur := live_refs vs {#} cur - 1) = (\<lambda>_. 0)" by (auto simp: live_refs_def cur fun_eq_iff)
  with Version_Unref_inv [OF inv dom] have inv': "vset_inv c valid (Version_Unref cur vs) {#} (\<lambda>_. 0) {}" by simp
  note d = vset_invD [OF inv']
  have e: "dom (vs_version_heap (Version_Unref cur vs)) = {}" using d(8) by blast
  then have "vs_version_heap (Version_Unref cur vs) = Map.empty" "vs_versions (Version_Unref cur vs) = []" using d(11) by simp_all
  moreover from this have "vs_file_heap (Version_Unref cur vs) = Map.empty"
    using file_counts_dom [OF d(5)] by (simp add: version_refs_def)
  ultimately show ?thesis by (simp add: VersionSet_delete_def cur)
qed

theorem version_set_no_leak_witness: "vs_file_heap (VersionSet_delete demo_installed) = Map.empty"
  using version_set_no_leak [OF bytewise_ik.internal_keys_axioms demo_installed_reach] by simp

end
