(* ===== verification/Compaction.thy ===== *)
theory Compaction
  imports VersionSteps
begin

section \<open>Compactions: choosing their inputs (\<^verbatim>\<open>db/version_set.cc\<close>)\<close>

text \<open>
  A compaction merges files of a level with the files of the next level that overlap them. Here
  are the object that describes one, the choice of its inputs, and the tests made while it
  runs. A function that calls \<open>GetOverlappingInputs\<close> or \<open>AddBoundaryInputs\<close> has an optional
  result; that it is never \<open>None\<close> is part of what is proved.
\<close>

record Compaction =
  c_level :: nat
  max_output_file_size :: u64
  input_version :: "vptr option"
  c_edit :: VersionEdit
  inputs0 :: "fptr list"
  inputs1 :: "fptr list"
  grandparents :: "fptr list"
  grandparent_index :: nat
  seen_key :: bool
  overlapped_bytes :: s64
  level_ptrs :: "nat list"

definition Compaction_new :: "Options \<Rightarrow> nat \<Rightarrow> Compaction" where
  "Compaction_new options level =
     \<lparr>c_level = level, max_output_file_size = MaxFileSizeForLevel options level, input_version = None,
      c_edit = VersionEdit_new, inputs0 = [], inputs1 = [], grandparents = [], grandparent_index = 0,
      seen_key = False, overlapped_bytes = 0, level_ptrs = replicate kNumLevels 0\<rparr>"

definition ReleaseInputs :: "Compaction \<Rightarrow> 'w VersionSet \<Rightarrow> Compaction \<times> 'w VersionSet" where
  "ReleaseInputs cmp vs =
     (case input_version cmp of None \<Rightarrow> (cmp, vs) | Some v \<Rightarrow> (cmp\<lparr>input_version := None\<rparr>, Version_Unref v vs))"

definition Compaction_delete :: "Compaction \<Rightarrow> 'w VersionSet \<Rightarrow> 'w VersionSet" where
  "Compaction_delete cmp vs = (case input_version cmp of None \<Rightarrow> vs | Some v \<Rightarrow> Version_Unref v vs)"

definition num_input_files :: "Compaction \<Rightarrow> nat \<Rightarrow> nat" where
  "num_input_files cmp which = length (if which = 0 then inputs0 cmp else inputs1 cmp)"

subsection \<open>Choosing the inputs\<close>

text \<open>
  The attempt to take more files of the level into the compaction when that adds none of the next
  level. The result is the inputs of both levels, the largest key, and the range of them all.
\<close>

definition expand_inputs ::
    "Comparator \<Rightarrow> Options \<Rightarrow> FileHeap \<Rightarrow> fptr list list \<Rightarrow> nat \<Rightarrow> fptr list \<Rightarrow> fptr list \<Rightarrow> bytes \<Rightarrow> bytes \<Rightarrow> bytes \<Rightarrow>
     (fptr list \<times> fptr list \<times> bytes \<times> bytes \<times> bytes) option" where
  "expand_inputs c options h levels level in0 in1 hi all_start all_limit =
     (if in1 = [] then Some (in0, in1, hi, all_start, all_limit)
      else
        Option.bind (GetOverlappingInputs c h levels level (Some all_start) (Some all_limit)) (\<lambda>expanded0.
        Option.bind (AddBoundaryInputs c h (levels ! level) expanded0) (\<lambda>expanded0.
          let inputs1_size = TotalFileSize h in1;
              expanded0_size = TotalFileSize h expanded0
          in if length in0 < length expanded0 \<and>
                sint (inputs1_size + expanded0_size) < sint (ExpandedCompactionByteSizeLimit options)
             then
               (let (new_start, new_limit) = GetRange c h expanded0 in
                Option.bind (GetOverlappingInputs c h levels (level + 1) (Some new_start) (Some new_limit)) (\<lambda>expanded1.
                  if length expanded1 = length in1
                  then (let (all_start, all_limit) = GetRange2 c h expanded0 expanded1
                        in Some (expanded0, expanded1, new_limit, all_start, all_limit))
                  else Some (in0, in1, hi, all_start, all_limit)))
             else Some (in0, in1, hi, all_start, all_limit))))"

definition SetupOtherInputs :: "Compaction \<Rightarrow> 'w VersionSet \<Rightarrow> (Compaction \<times> 'w VersionSet) option" where
  "SetupOtherInputs cmp vs =
     (let c = vs_ucmp vs; h = vs_file_heap vs; level = c_level cmp;
          levels = v_files (version vs (the (vs_current vs)))
      in Option.bind (AddBoundaryInputs c h (levels ! level) (inputs0 cmp)) (\<lambda>in0.
         let (lo, hi) = GetRange c h in0 in
         Option.bind (GetOverlappingInputs c h levels (level + 1) (Some lo) (Some hi)) (\<lambda>in1.
         let (all_start, all_limit) = GetRange2 c h in0 in1 in
         Option.bind (expand_inputs c (vs_options vs) h levels level in0 in1 hi all_start all_limit)
           (\<lambda>(in0, in1, hi, all_start, all_limit).
         Option.bind (if level + 2 < kNumLevels
                      then GetOverlappingInputs c h levels (level + 2) (Some all_start) (Some all_limit)
                      else Some (grandparents cmp)) (\<lambda>gps.
           Some (cmp\<lparr>inputs0 := in0, inputs1 := in1, grandparents := gps,
                     c_edit := SetCompactPointer level hi (c_edit cmp)\<rparr>,
                 vs\<lparr>vs_compact_pointer := (vs_compact_pointer vs)[level := hi]\<rparr>))))))"

definition first_after_pointer :: "Comparator \<Rightarrow> FileHeap \<Rightarrow> bytes \<Rightarrow> fptr list \<Rightarrow> fptr option" where
  "first_after_pointer c h pointer files =
     List.find (\<lambda>f. pointer = [] \<or> Compare (InternalKeyComparator c) (largest (fmd h f)) pointer > 0) files"

text \<open>The common end of \<open>PickCompaction\<close>: the compaction holds the current version.\<close>

definition finish_pick :: "Compaction \<Rightarrow> 'w VersionSet \<Rightarrow> (Compaction option \<times> 'w VersionSet) option" where
  "finish_pick cmp vs =
     (let cur = the (vs_current vs); c = vs_ucmp vs; h = vs_file_heap vs;
          cmp = cmp\<lparr>input_version := Some cur\<rparr>;
          vs = Version_Ref cur vs
      in Option.bind
           (if c_level cmp = 0 then
              (let (lo, hi) = GetRange c h (inputs0 cmp)
               in map_option (\<lambda>files. cmp\<lparr>inputs0 := files\<rparr>)
                    (GetOverlappingInputs c h (v_files (version vs cur)) 0 (Some lo) (Some hi)))
            else Some cmp)
           (\<lambda>cmp. map_option (\<lambda>(cmp, vs). (Some cmp, vs)) (SetupOtherInputs cmp vs)))"

definition PickCompaction :: "'w VersionSet \<Rightarrow> (Compaction option \<times> 'w VersionSet) option" where
  "PickCompaction vs =
     (let v = version vs (the (vs_current vs));
          size_compaction = (1 \<le> compaction_score v);
          seek_compaction = (file_to_compact v \<noteq> None)
      in if size_compaction then
           (let level = nat (compaction_level v);
                files = v_files v ! level
            in Option.bind
                 (case first_after_pointer (vs_ucmp vs) (vs_file_heap vs) (vs_compact_pointer vs ! level) files of
                    Some f \<Rightarrow> Some f
                  | None \<Rightarrow> if files = [] then None else Some (files ! 0))
                 (\<lambda>f. finish_pick ((Compaction_new (vs_options vs) level)\<lparr>inputs0 := [f]\<rparr>) vs))
         else if seek_compaction then
           finish_pick ((Compaction_new (vs_options vs) (nat (file_to_compact_level v)))
             \<lparr>inputs0 := [the (file_to_compact v)]\<rparr>) vs
         else Some (None, vs))"

fun limit_inputs :: "FileHeap \<Rightarrow> u64 \<Rightarrow> u64 \<Rightarrow> fptr list \<Rightarrow> fptr list" where
  "limit_inputs h limit total' [] = []"
| "limit_inputs h limit total' (f # fs) =
     (let total' = total' + file_size (fmd h f)
      in if limit \<le> total' then [f] else f # limit_inputs h limit total' fs)"

definition CompactRange ::
    "nat \<Rightarrow> bytes option \<Rightarrow> bytes option \<Rightarrow> 'w VersionSet \<Rightarrow> (Compaction option \<times> 'w VersionSet) option" where
  "CompactRange level begin' end' vs =
     (let cur = the (vs_current vs)
      in Option.bind (GetOverlappingInputs (vs_ucmp vs) (vs_file_heap vs) (v_files (version vs cur)) level begin' end') (\<lambda>inputs.
         if inputs = [] then Some (None, vs)
         else
           (let inputs = (if 0 < level
                          then limit_inputs (vs_file_heap vs) (MaxFileSizeForLevel (vs_options vs) level) 0 inputs
                          else inputs);
                cmp = (Compaction_new (vs_options vs) level)\<lparr>input_version := Some cur, inputs0 := inputs\<rparr>
            in map_option (\<lambda>(cmp, vs). (Some cmp, vs)) (SetupOtherInputs cmp (Version_Ref cur vs)))))"

subsection \<open>Reading the inputs\<close>

definition input_iterators ::
    "Comparator \<Rightarrow> FileHeap \<Rightarrow> (u64 \<Rightarrow> u64 \<Rightarrow> 'i) \<Rightarrow> Compaction \<Rightarrow> 'i VersionIterator list" where
  "input_iterators c h new_table cmp =
     concat (map (\<lambda>which.
       let files = (if which = 0 then inputs0 cmp else inputs1 cmp)
       in if files = [] then []
          else if c_level cmp + which = 0
          then map (\<lambda>f. VersionTable (new_table (fnumber (fmd h f)) (file_size (fmd h f)))) files
          else [VersionLevel (NewConcatenatingIterator c h files)]) [0, 1])"

definition MakeInputIterator ::
    "'i VersionIterator Iterator \<Rightarrow> (ReadOptions \<Rightarrow> u64 \<Rightarrow> u64 \<Rightarrow> 'i) \<Rightarrow> Compaction \<Rightarrow> 'w VersionSet \<Rightarrow>
     'i VersionIterator MergedIterator" where
  "MakeInputIterator ops new_table cmp vs =
     (let options = ReadOptions_new\<lparr>verify_checksums := paranoid_checks (vs_options vs), fill_cache := False\<rparr>
      in NewMergingIterator ops (input_iterators (vs_ucmp vs) (vs_file_heap vs) (new_table options) cmp))"

subsection \<open>While a compaction runs\<close>

definition IsTrivialMove :: "Compaction \<Rightarrow> 'w VersionSet \<Rightarrow> bool" where
  "IsTrivialMove cmp vs \<longleftrightarrow> num_input_files cmp 0 = 1 \<and> num_input_files cmp 1 = 0 \<and>
     sint (TotalFileSize (vs_file_heap vs) (grandparents cmp)) \<le> sint (MaxGrandParentOverlapBytes (vs_options vs))"

definition AddInputDeletions :: "FileHeap \<Rightarrow> Compaction \<Rightarrow> VersionEdit \<Rightarrow> VersionEdit" where
  "AddInputDeletions h cmp edit =
     fold (\<lambda>f. VersionEdit_DeleteFile (c_level cmp + 1) (fnumber (fmd h f))) (inputs1 cmp)
       (fold (\<lambda>f. VersionEdit_DeleteFile (c_level cmp) (fnumber (fmd h f))) (inputs0 cmp) edit)"

text \<open>
  One level of \<open>IsBaseLevelForKey\<close>: the index moves forward over the files before the key; the
  result is the index, and whether the key falls into the range of the file there.
\<close>

function base_level_scan :: "Comparator \<Rightarrow> FileHeap \<Rightarrow> fptr list \<Rightarrow> bytes \<Rightarrow> nat \<Rightarrow> nat \<times> bool" where
  "base_level_scan c h files ukey ptr =
     (if ptr < length files then
        (let f = files ! ptr
         in if Compare c ukey (largest_user_key h f) \<le> 0
            then (ptr, Compare c ukey (smallest_user_key h f) \<ge> 0)
            else base_level_scan c h files ukey (ptr + 1))
      else (ptr, False))"
  by pat_completeness auto
termination by (relation "measure (\<lambda>(_, _, files, _, ptr). length files - ptr)") auto

declare base_level_scan.simps [simp del]

fun base_levels :: "Comparator \<Rightarrow> FileHeap \<Rightarrow> fptr list list \<Rightarrow> bytes \<Rightarrow> nat list \<Rightarrow> nat list \<Rightarrow> bool \<times> nat list" where
  "base_levels c h levels ukey [] ptrs = (True, ptrs)"
| "base_levels c h levels ukey (lvl # lvls) ptrs =
     (let (ptr, hit) = base_level_scan c h (levels ! lvl) ukey (ptrs ! lvl);
          ptrs = ptrs[lvl := ptr]
      in if hit then (False, ptrs) else base_levels c h levels ukey lvls ptrs)"

definition IsBaseLevelForKey :: "'w VersionSet \<Rightarrow> bytes \<Rightarrow> Compaction \<Rightarrow> bool \<times> Compaction" where
  "IsBaseLevelForKey vs ukey cmp =
     (let (res, ptrs) = base_levels (vs_ucmp vs) (vs_file_heap vs) (v_files (version vs (the (input_version cmp)))) ukey
                          [c_level cmp + 2..<kNumLevels] (level_ptrs cmp)
      in (res, cmp\<lparr>level_ptrs := ptrs\<rparr>))"

function grandparent_scan :: "Comparator \<Rightarrow> FileHeap \<Rightarrow> fptr list \<Rightarrow> bytes \<Rightarrow> bool \<Rightarrow> nat \<Rightarrow> s64 \<Rightarrow> nat \<times> s64" where
  "grandparent_scan c h gps ikey seen i bytes' =
     (if i < length gps \<and> Compare (InternalKeyComparator c) ikey (largest (fmd h (gps ! i))) > 0
      then grandparent_scan c h gps ikey seen (i + 1) (if seen then bytes' + file_size (fmd h (gps ! i)) else bytes')
      else (i, bytes'))"
  by pat_completeness auto
termination by (relation "measure (\<lambda>(_, _, gps, _, _, i, _). length gps - i)") auto

declare grandparent_scan.simps [simp del]

definition ShouldStopBefore :: "'w VersionSet \<Rightarrow> bytes \<Rightarrow> Compaction \<Rightarrow> bool \<times> Compaction" where
  "ShouldStopBefore vs ikey cmp =
     (let (i, bytes') = grandparent_scan (vs_ucmp vs) (vs_file_heap vs) (grandparents cmp) ikey (seen_key cmp)
                          (grandparent_index cmp) (overlapped_bytes cmp);
          cmp = cmp\<lparr>grandparent_index := i, seen_key := True, overlapped_bytes := bytes'\<rparr>
      in if sint (overlapped_bytes cmp) > sint (MaxGrandParentOverlapBytes (vs_options vs))
         then (True, cmp\<lparr>overlapped_bytes := 0\<rparr>) else (False, cmp))"

subsection \<open>The inputs are closed\<close>

text \<open>
  The files a compaction leaves at its level hold no entry older than one it takes: a file
  outside the inputs that shares a user key with an input lies before it. At level 0 no file
  outside the inputs shares a user key with one inside. A set of files of a sorted level is
  convex when it has every file between two of its files.
\<close>

definition file_before :: "Comparator \<Rightarrow> FileHeap \<Rightarrow> fptr \<Rightarrow> fptr \<Rightarrow> bool" where
  "file_before c h f g \<longleftrightarrow> Compare (InternalKeyComparator c) (largest (fmd h f)) (smallest (fmd h g)) < 0"

definition inputs_closed :: "Comparator \<Rightarrow> FileHeap \<Rightarrow> fptr list \<Rightarrow> nat \<Rightarrow> fptr set \<Rightarrow> bool" where
  "inputs_closed c h files level S \<longleftrightarrow>
     (\<forall>f \<in> S. \<forall>g \<in> set files. g \<notin> S \<longrightarrow> files_overlap c h f g \<longrightarrow> 0 < level \<and> file_before c h g f)"

definition convex :: "Comparator \<Rightarrow> FileHeap \<Rightarrow> fptr list \<Rightarrow> fptr set \<Rightarrow> bool" where
  "convex c h files S \<longleftrightarrow>
     (\<forall>f \<in> S. \<forall>f' \<in> S. \<forall>g \<in> set files. file_before c h f g \<longrightarrow> file_before c h g f' \<longrightarrow> g \<in> S)"

text \<open>
  What is promised of the inputs: the files of the level are closed, those of the next level are
  all that share a user key with one of them, and the grandparents all that share one with any
  input.
\<close>

definition next_closed :: "Comparator \<Rightarrow> FileHeap \<Rightarrow> fptr list \<Rightarrow> fptr set \<Rightarrow> fptr set \<Rightarrow> bool" where
  "next_closed c h files S T \<longleftrightarrow> T \<subseteq> set files \<and> (\<forall>f \<in> S. \<forall>g \<in> set files. files_overlap c h f g \<longrightarrow> g \<in> T)"

definition compaction_inputs_ok :: "Comparator \<Rightarrow> FileHeap \<Rightarrow> fptr list list \<Rightarrow> Compaction \<Rightarrow> bool" where
  "compaction_inputs_ok c h levels cmp \<longleftrightarrow> c_level cmp + 1 < kNumLevels \<and> inputs0 cmp \<noteq> [] \<and>
     set (inputs0 cmp) \<subseteq> set (levels ! c_level cmp) \<and>
     inputs_closed c h (levels ! c_level cmp) (c_level cmp) (set (inputs0 cmp)) \<and>
     next_closed c h (levels ! (c_level cmp + 1)) (set (inputs0 cmp)) (set (inputs1 cmp)) \<and>
     (c_level cmp + 2 < kNumLevels \<longrightarrow>
        next_closed c h (levels ! (c_level cmp + 2)) (set (inputs0 cmp) \<union> set (inputs1 cmp)) (set (grandparents cmp)))"

definition level_files_ok :: "Comparator \<Rightarrow> (bytes \<Rightarrow> bool) \<Rightarrow> FileHeap \<Rightarrow> nat \<Rightarrow> fptr list \<Rightarrow> bool" where
  "level_files_ok c valid h level files \<longleftrightarrow> (\<forall>f \<in> set files. file_ok c valid (fmd h f)) \<and> (0 < level \<longrightarrow> level_ok c valid h files)"

text \<open>What the score and the seek statistics recommend exists, and has a next level.\<close>

definition recommended :: "Version \<Rightarrow> int \<Rightarrow> (fptr list \<Rightarrow> bool) \<Rightarrow> bool" where
  "recommended v level P \<longleftrightarrow> 0 \<le> level \<and> nat level + 1 < kNumLevels \<and> P (v_files v ! nat level)"

definition recommendation_ok :: "Version \<Rightarrow> bool" where
  "recommendation_ok v \<longleftrightarrow> (1 \<le> compaction_score v \<longrightarrow> recommended v (compaction_level v) (\<lambda>files. files \<noteq> [])) \<and>
     (\<forall>f. file_to_compact v = Some f \<longrightarrow> recommended v (file_to_compact_level v) (\<lambda>files. f \<in> set files))"

lemma Finalize_recommends:
  assumes "1 \<le> compaction_score (version (Finalize p vs) p)"
  shows "recommended (version (Finalize p vs) p) (compaction_level (version (Finalize p vs) p)) (\<lambda>files. files \<noteq> [])"
proof -
  let ?score = "level_score (vs_options vs) (vs_file_heap vs) (version vs p)"
  obtain l where l: "l < kNumLevels - 1"
    "fold (Finalize_step (vs_options vs) (vs_file_heap vs) (version vs p)) [0..<kNumLevels - 1] (-1, -1) = (int l, ?score l)"
    using Finalize_fold [of "kNumLevels - 1" "vs_options vs" "vs_file_heap vs" "version vs p"] by (auto simp: kNumLevels_def)
  then have v: "version (Finalize p vs) p = (version vs p)\<lparr>compaction_level := int l, compaction_score := ?score l\<rparr>"
    by (simp add: Finalize_def update_version_def version_def)
  have "v_files (version vs p) ! l \<noteq> []"
  proof
    assume "v_files (version vs p) ! l = []"
    then have "?score l = 0" by (auto simp: level_score_def TotalFileSize_def)
    then show False using assms by (simp add: v)
  qed
  then show ?thesis using l(1) by (simp add: v recommended_def)
qed

context internal_keys
begin

abbreviation "before \<equiv> file_before c"
abbreviation "fok h f \<equiv> file_ok c valid (fmd h f)"

lemma before_trans:
  assumes "fok h f" "fok h g" "fok h k" "before h f g" "before h g k"
  shows "before h f k"
proof -
  have "icmp (largest (fmd h f)) (largest (fmd h g)) < 0"
    using ik.lt_le_trans [OF file_okD(2) [OF assms(1)] file_okD(1,2) [OF assms(2)]] assms(4) file_okD(6) [OF assms(2)]
    by (simp add: file_before_def)
  then show ?thesis
    using ik.lt_trans [OF file_okD(2) [OF assms(1)] file_okD(2) [OF assms(2)] file_okD(1) [OF assms(3)]] assms(5)
    by (simp add: file_before_def)
qed

lemma before_irrefl: "fok h f \<Longrightarrow> \<not> before h f f"
  using ik.gt_iff_lt [OF file_okD(1,2)] file_okD(6) ik.lt_le_trans [OF file_okD(2) file_okD(1) file_okD(2)] ik.refl [OF file_okD(2)]
  by (fastforce simp: file_before_def)

lemma before_asym: "fok h f \<Longrightarrow> fok h g \<Longrightarrow> before h f g \<Longrightarrow> \<not> before h g f"
  using before_trans before_irrefl by blast

lemma before_largest:
  assumes "fok h f" "fok h g" "before h f g"
  shows "icmp (largest (fmd h f)) (largest (fmd h g)) < 0"
  using ik.lt_le_trans [OF file_okD(2) [OF assms(1)] file_okD(1,2) [OF assms(2)]] assms(3) file_okD(6) [OF assms(2)]
  by (simp add: file_before_def)

lemma level_before:
  assumes "level_ok c valid h files" "f \<in> set files" "g \<in> set files" "f \<noteq> g"
  shows "before h f g \<or> before h g f"
proof -
  obtain i j where "i < length files" "f = files ! i" "j < length files" "g = files ! j" "i \<noteq> j"
    using assms(2-4) by (metis in_set_conv_nth)
  then show ?thesis using level_okD(2) [OF assms(1)] by (metis file_before_def linorder_neqE_nat)
qed

lemma level_fok: "level_ok c valid h files \<Longrightarrow> f \<in> set files \<Longrightarrow> fok h f"
  by (simp add: level_ok_def)

lemma before_user:
  assumes "fok h f" "fok h g" "before h f g"
  shows "Compare c (largest_user_key h f) (smallest_user_key h g) \<le> 0"
proof -
  have "icmp (largest (fmd h f)) (smallest (fmd h g)) \<le> 0" using assms(3) by (simp add: file_before_def)
  then show ?thesis
    using icmp_le_iff [of "largest (fmd h f)" "smallest (fmd h g)"]
    by (auto simp: largest_user_key_def smallest_user_key_def)
qed

lemma convex_single: "\<forall>g \<in> set files. fok h g \<Longrightarrow> fok h f \<Longrightarrow> convex c h files {f}"
  using before_asym by (fastforce simp: convex_def)

lemma convex_overlaps:
  assumes "level_ok c valid h files" "valid_range b e"
  shows "convex c h files (set (filter (overlaps_range c h b e) files))"
  unfolding convex_def
proof (intro ballI impI)
  fix f f' g
  assume f: "f \<in> set (filter (overlaps_range c h b e) files)" "f' \<in> set (filter (overlaps_range c h b e) files)"
    and g: "g \<in> set files" "before h f g" "before h g f'"
  have ok: "fok h f" "fok h f'" "fok h g" using level_fok [OF assms(1)] f g(1) by auto
  have o: "overl h b e f" "overl h b e f'" using overlaps_range_eq [OF _ assms(2)] f ok by auto
  note u = before_user [OF ok(1,3) g(2)] before_user [OF ok(3,2) g(3)] file_okD(5) [OF ok(3)]
  note v = file_okD(3,4) [OF ok(1)] file_okD(3,4) [OF ok(2)] file_okD(3,4) [OF ok(3)]
  have "overl h b e g"
    unfolding overl_def
  proof (intro conjI allI impI)
    fix k assume b: "b = Some k"
    then have k: "valid k" using assms(2) by (simp add: valid_range_def)
    have "Compare c (largest_user_key h f) (largest_user_key h g) \<le> 0" using le_trans [OF v(2,5,6) u(1,3)] .
    then show "\<not> Compare c (largest_user_key h g) k < 0"
      using o(1) b le_lt_trans [OF v(2,6) k] by (auto simp: overl_def)
  next
    fix k assume e: "e = Some k"
    then have k: "valid k" using assms(2) by (simp add: valid_range_def)
    have "Compare c (smallest_user_key h g) (smallest_user_key h f') \<le> 0" using le_trans [OF v(5,6,3) u(3,2)] .
    then show "\<not> Compare c (smallest_user_key h g) k > 0"
      using o(2) e lt_le_trans [OF k v(5,3)] gt_iff_lt [OF k v(5)] gt_iff_lt [OF k v(3)] by (auto simp: overl_def)
  qed
  then show "g \<in> set (filter (overlaps_range c h b e) files)" using g(1) overlaps_range_eq [OF ok(3) assms(2)] by simp
qed

lemma FindSmallestBoundaryFile_min_gen:
  assumes "\<forall>f \<in> set files. fok h f" "\<forall>g. b = Some g \<longrightarrow> fok h g"
  shows "case foldl (boundary_step c h key) b files of
     None \<Rightarrow> True
   | Some r \<Rightarrow> fok h r \<and> (\<forall>g. b = Some g \<longrightarrow> icmp (smallest (fmd h r)) (smallest (fmd h g)) \<le> 0) \<and>
       (\<forall>g \<in> set files. is_boundary h key g \<longrightarrow> icmp (smallest (fmd h r)) (smallest (fmd h g)) \<le> 0)"
  using assms
proof (induction files arbitrary: b)
  case Nil
  then show ?case using ik.refl [OF file_okD(1)] by (cases b) auto
next
  case (Cons f files)
  let ?b = "boundary_step c h key b f"
  have ok: "fok h f" "\<forall>f \<in> set files. fok h f" using Cons.prems by simp_all
  have b': "?b = b \<and> (is_boundary h key f \<longrightarrow> (\<exists>g. b = Some g \<and> icmp (smallest (fmd h g)) (smallest (fmd h f)) \<le> 0)) \<or>
      ?b = Some f \<and> (\<forall>g. b = Some g \<longrightarrow> icmp (smallest (fmd h f)) (smallest (fmd h g)) < 0)"
  proof (cases b)
    case (Some g)
    then have "fok h g" using Cons.prems(2) by simp
    then show ?thesis
      using Some ik.ge_iff_le [OF file_okD(1) file_okD(1) [OF ok(1)]] by (auto simp: boundary_step_def is_boundary_def not_less)
  qed (auto simp: boundary_step_def is_boundary_def)
  have okb: "\<forall>g. ?b = Some g \<longrightarrow> fok h g" using b' ok(1) Cons.prems(2) by auto
  note IH = Cons.IH [OF ok(2) okb]
  show ?case
  proof (cases "foldl (boundary_step c h key) ?b files")
    case (Some r)
    have r: "fok h r" "\<forall>g. ?b = Some g \<longrightarrow> icmp (smallest (fmd h r)) (smallest (fmd h g)) \<le> 0"
      "\<forall>g \<in> set files. is_boundary h key g \<longrightarrow> icmp (smallest (fmd h r)) (smallest (fmd h g)) \<le> 0"
      using IH unfolding Some option.case by blast+
    note tr = ik.le_trans [OF file_okD(1) [OF r(1)] _ _]
    have 1: "icmp (smallest (fmd h r)) (smallest (fmd h g)) \<le> 0" if g: "b = Some g" for g
    proof (cases "?b = b")
      case False
      then have "?b = Some f" "icmp (smallest (fmd h f)) (smallest (fmd h g)) \<le> 0" using b' g by auto
      then show ?thesis using tr [OF file_okD(1) [OF ok(1)] file_okD(1), of h g] Cons.prems(2) r(2) g by blast
    qed (use r(2) g in simp)
    have 2: "icmp (smallest (fmd h r)) (smallest (fmd h f)) \<le> 0" if f: "is_boundary h key f"
    proof (cases "?b = Some f")
      case False
      then obtain g where g: "b = Some g" "icmp (smallest (fmd h g)) (smallest (fmd h f)) \<le> 0" using b' f by auto
      then have "fok h g" using Cons.prems(2) by simp
      then show ?thesis using tr [OF file_okD(1) file_okD(1) [OF ok(1)], of h g] 1 [OF g(1)] g(2) by blast
    qed (use r(2) in simp)
    show ?thesis using Some r 1 2 by auto
  next
    case None
    then show ?thesis by simp
  qed
qed

lemma FindSmallestBoundaryFile_min:
  assumes "\<forall>f \<in> set files. fok h f" "FindSmallestBoundaryFile c h files key = Some b" "g \<in> set files" "is_boundary h key g"
  shows "icmp (smallest (fmd h b)) (smallest (fmd h g)) \<le> 0"
  using FindSmallestBoundaryFile_min_gen [OF assms(1), of None key] assms(2-4) by (auto simp: FindSmallestBoundaryFile_def)

text \<open>Adding boundary files keeps a set convex.\<close>

lemma convex_insert_boundary:
  assumes lv: "level_ok c valid h files" and S: "S \<subseteq> set files" "convex c h files S"
    and key: "\<And>f. f \<in> S \<Longrightarrow> icmp (largest (fmd h f)) key \<le> 0" "m \<in> S" "largest (fmd h m) = key"
    and b: "FindSmallestBoundaryFile c h files key = Some b"
  shows "convex c h files (insert b S)"
proof -
  have okf: "\<forall>f \<in> set files. fok h f" using lv by (simp add: level_ok_def)
  have bb: "b \<in> set files" "is_boundary h key b" using FindSmallestBoundaryFile_spec(2) [OF b] by auto
  have ok: "fok h m" "fok h b" using okf key(2) S(1) bb(1) by blast+
  have mb: "before h m b" using bb(2) ik.gt_iff_lt [OF file_okD(2) [OF ok(1)] file_okD(1) [OF ok(2)]] key(3)
    by (simp add: is_boundary_def file_before_def)
  have nob: "\<not> before h b f" if f: "f \<in> S" for f
  proof
    assume "before h b f"
    moreover have "fok h f" using okf S(1) f by blast
    ultimately have "icmp (largest (fmd h m)) (largest (fmd h f)) < 0"
      using before_largest before_trans mb ok by blast
    then show False using key(1) [OF f] key(3) ik.gt_iff_lt [OF file_okD(2) [OF ok(1)] file_okD(2) [OF \<open>fok h f\<close>]] by simp
  qed
  have btw: "g \<in> S" if f: "f \<in> S" and g: "g \<in> set files" "before h f g" "before h g b" for f g
  proof (rule ccontr)
    assume ng: "g \<notin> S"
    have okg: "fok h g" using okf g(1) by blast
    have gm: "g \<noteq> m" using ng key(2) by blast
    have "\<not> before h g m" using S(2) f key(2) g(1,2) ng unfolding convex_def by blast
    then have mg: "before h m g" using level_before [OF lv, of m g] key(2) S(1) g(1) gm by blast
    have k: "ivalid key" using file_okD(2) [OF ok(1)] key(3) by simp
    have vb: "valid (smallest_user_key h b)" "valid (smallest_user_key h g)" "valid (ExtractUserKey key)"
      using file_okD(3) ok okg file_okD(4) [OF ok(1)] key(3) by (auto simp: largest_user_key_def)
    have e: "Compare c (smallest_user_key h b) (ExtractUserKey key) = 0" using bb(2) by (simp add: is_boundary_def)
    have u1: "Compare c (ExtractUserKey key) (smallest_user_key h g) \<le> 0"
      using before_user [OF ok(1) okg mg] key(3) by (simp add: largest_user_key_def)
    have "Compare c (smallest_user_key h g) (largest_user_key h g) \<le> 0" "Compare c (largest_user_key h g) (smallest_user_key h b) \<le> 0"
      using file_okD(5) [OF okg] before_user [OF okg ok(2) g(3)] by simp_all
    then have "Compare c (smallest_user_key h g) (smallest_user_key h b) \<le> 0"
      using le_trans file_okD(3,4) [OF okg] vb(1) by blast
    then have u2: "Compare c (smallest_user_key h g) (ExtractUserKey key) \<le> 0"
      using le_trans [OF vb(2,1,3)] e by simp
    have "Compare c (smallest_user_key h g) (ExtractUserKey key) = 0"
      using u1 u2 ge_iff_le [OF vb(3,2)] by force
    moreover have "icmp (smallest (fmd h g)) key > 0"
      using mg key(3) ik.gt_iff_lt [OF k file_okD(1) [OF okg]] by (simp add: file_before_def)
    ultimately have "icmp (smallest (fmd h b)) (smallest (fmd h g)) \<le> 0"
      using FindSmallestBoundaryFile_min [OF okf b g(1)] by (simp add: is_boundary_def)
    moreover have "icmp (smallest (fmd h g)) (smallest (fmd h b)) < 0"
      using ik.le_lt_trans [OF file_okD(1,2) [OF okg] file_okD(1) [OF ok(2)] file_okD(6) [OF okg]] g(3) by (simp add: file_before_def)
    ultimately show False using ik.gt_iff_lt [OF file_okD(1) [OF okg] file_okD(1) [OF ok(2)]] by simp
  qed
  show ?thesis
    unfolding convex_def
  proof (intro ballI impI)
    fix f f' g assume f: "f \<in> insert b S" "f' \<in> insert b S" and g: "g \<in> set files" "before h f g" "before h g f'"
    have okx: "fok h f" "fok h f'" "fok h g" using okf f S(1) bb(1) g(1) by blast+
    have ff: "before h f f'" by (rule before_trans [OF okx(1,3,2) g(2,3)])
    consider "f \<in> S" "f' \<in> S" | "f \<in> S" "f' = b" | "f = b" "f' \<in> S" | "f = b" "f' = b" using f by blast
    then show "g \<in> insert b S"
    proof cases
      case 1
      then show ?thesis using S(2) g unfolding convex_def by blast
    next
      case 2
      then show ?thesis using btw g by blast
    next
      case 3
      then show ?thesis using nob ff by blast
    next
      case 4
      then show ?thesis using before_irrefl [OF ok(2)] ff by blast
    qed
  qed
qed

lemma AddBoundaryInputs_loop_convex:
  assumes "AddBoundaryInputs_loop c h files key cf = Some res" "level_ok c valid h files" "set cf \<subseteq> set files"
    and "convex c h files (set cf)" "\<forall>f \<in> set cf. icmp (largest (fmd h f)) key \<le> 0" "\<exists>m \<in> set cf. largest (fmd h m) = key"
  shows "convex c h files (set res)"
proof -
  define P where "P c' h files key cf res \<longleftrightarrow> (c' = c \<longrightarrow> level_ok c valid h files \<longrightarrow> set cf \<subseteq> set files \<longrightarrow>
      convex c h files (set cf) \<longrightarrow> (\<forall>f \<in> set cf. icmp (largest (fmd h f)) key \<le> 0) \<longrightarrow>
      (\<exists>m \<in> set cf. largest (fmd h m) = key) \<longrightarrow> convex c h files (set res))" for c' h files key cf res
  have "P c h files key cf res"
  proof (rule AddBoundaryInputs_loop.raw_induct [where P = P, OF _ assms(1)])
    fix loop c' h files key cf res
    assume IH: "\<And>c' h files key cf res. loop c' h files key cf = Some res \<Longrightarrow> P c' h files key cf res"
      and body: "(case FindSmallestBoundaryFile c' h files key of None \<Rightarrow> Some cf
        | Some b \<Rightarrow> loop c' h files (largest (fmd h b)) (cf @ [b])) = Some res"
    show "P c' h files key cf res"
      unfolding P_def
    proof (intro impI, elim bexE)
      fix m
      assume c: "c' = c" and lv: "level_ok c valid h files" and sub: "set cf \<subseteq> set files" and cv: "convex c h files (set cf)"
        and key: "\<forall>f \<in> set cf. icmp (largest (fmd h f)) key \<le> 0" and m: "m \<in> set cf" "largest (fmd h m) = key"
      show "convex c h files (set res)"
      proof (cases "FindSmallestBoundaryFile c h files key")
        case None
        then show ?thesis using body cv c by simp
      next
        case (Some b)
        note bb = FindSmallestBoundaryFile_spec(2) [OF Some]
        have r: "loop c h files (largest (fmd h b)) (cf @ [b]) = Some res" using body Some c by simp
        have ok: "fok h m" "fok h b" using level_fok [OF lv] m(1) sub bb by blast+
        have up: "icmp key (largest (fmd h b)) < 0"
          using before_largest [OF ok] bb ik.gt_iff_lt [OF file_okD(2) [OF ok(1)] file_okD(1) [OF ok(2)]] m(2)
          by (simp add: is_boundary_def file_before_def)
        have k: "ivalid key" using file_okD(2) [OF ok(1)] m(2) by simp
        have "icmp (largest (fmd h f)) (largest (fmd h b)) \<le> 0" if f: "f \<in> set (cf @ [b])" for f
        proof (cases "f = b")
          case True
          then show ?thesis using ik.refl [OF file_okD(2) [OF ok(2)]] by simp
        next
          case False
          then have "f \<in> set cf" using f by simp
          moreover from this have "fok h f" using level_fok [OF lv] sub by blast
          ultimately show ?thesis
            using ik.le_lt_trans [OF file_okD(2) k file_okD(2) [OF ok(2)] _ up, of h f] key by fastforce
        qed
        moreover have "convex c h files (set (cf @ [b]))"
          using convex_insert_boundary [OF lv sub cv _ m Some] key by simp
        ultimately show ?thesis
          using IH [OF r] lv sub bb unfolding P_def by simp
      qed
    qed
  qed
  then show ?thesis using assms unfolding P_def by blast
qed

text \<open>What a compaction can start from: a set closed at level 0, a convex one elsewhere.\<close>

definition seed_ok :: "FileHeap \<Rightarrow> fptr list \<Rightarrow> nat \<Rightarrow> fptr list \<Rightarrow> bool" where
  "seed_ok h files level S \<longleftrightarrow> set S \<subseteq> set files \<and>
     (if level = 0 then inputs_closed c h files 0 (set S) else convex c h files (set S))"

abbreviation "version_level_ok \<equiv> level_files_ok c valid"

lemma AddBoundaryInputs_level0:
  assumes ok: "\<forall>f \<in> set files. fok h f" and S: "set S \<subseteq> set files" "S \<noteq> []" "inputs_closed c h files 0 (set S)"
  shows "AddBoundaryInputs c h files S = Some S"
proof -
  obtain key where k: "FindLargestKey c h S = Some key" using S(2) by (cases S) (auto simp: FindLargestKey_def)
  have okS: "\<forall>f \<in> set S. fok h f" using ok S(1) by blast
  note b = FindLargestKey_bounds [OF okS k]
  obtain m where m: "m \<in> set S" "largest (fmd h m) = key" using b(2) by auto
  have okm: "fok h m" using okS m(1) by blast
  have "FindSmallestBoundaryFile c h files key = None"
  proof (rule ccontr)
    assume "FindSmallestBoundaryFile c h files key \<noteq> None"
    then obtain g where "FindSmallestBoundaryFile c h files key = Some g" by auto
    note g = FindSmallestBoundaryFile_spec(2) [OF this]
    have okg: "fok h g" using ok g by blast
    have gt: "icmp key (smallest (fmd h g)) < 0"
      using g ik.gt_iff_lt [OF file_okD(2) [OF okm] file_okD(1) [OF okg]] m(2) by (simp add: is_boundary_def)
    have e: "Compare c (smallest_user_key h g) (largest_user_key h m) = 0"
      using g m(2) by (simp add: is_boundary_def largest_user_key_def)
    have e': "Compare c (largest_user_key h m) (smallest_user_key h g) = 0"
      using e eq_sym [OF file_okD(3) [OF okg] file_okD(4) [OF okm]] by simp
    have "Compare c (smallest_user_key h m) (largest_user_key h g) \<le> 0"
      using le_trans [OF file_okD(3,4) [OF okm] file_okD(4) [OF okg] file_okD(5) [OF okm]]
        le_trans [OF file_okD(4) [OF okm] file_okD(3,4) [OF okg] _ file_okD(5) [OF okg]] e' by simp
    then have "files_overlap c h m g" using e by (simp add: files_overlap_def)
    then have gS: "g \<in> set S" using S(3) m(1) g by (auto simp: inputs_closed_def)
    have "icmp (largest (fmd h g)) key \<le> 0" using b(3) gS by blast
    then have "icmp (smallest (fmd h g)) key \<le> 0"
      using ik.le_trans [OF file_okD(1,2) [OF okg] b(1) file_okD(6) [OF okg]] by simp
    then show False using g by (simp add: is_boundary_def)
  qed
  then have "AddBoundaryInputs_loop c h files key S = Some S" by (subst AddBoundaryInputs_loop.simps) simp
  then show ?thesis using k by (simp add: AddBoundaryInputs_def)
qed

lemma closed_from_convex:
  assumes lv: "level_ok c valid h files" "0 < level" and S: "set S \<subseteq> set files" "convex c h files (set S)"
    and key: "key \<in> (\<lambda>f. largest (fmd h f)) ` set S" "\<forall>f \<in> set S. icmp (largest (fmd h f)) key \<le> 0"
    and nb: "\<forall>f \<in> set files. \<not> is_boundary h key f"
  shows "inputs_closed c h files level (set S)"
  unfolding inputs_closed_def
proof (intro ballI impI)
  fix f g assume f: "f \<in> set S" and g: "g \<in> set files" "g \<notin> set S" and o: "files_overlap c h f g"
  obtain m where m: "m \<in> set S" "largest (fmd h m) = key" using key(1) by auto
  have ok: "fok h f" "fok h g" "fok h m" using level_fok [OF lv(1)] f g(1) m(1) S(1) by blast+
  have "\<not> before h f g"
  proof
    assume fg: "before h f g"
    have "\<not> before h g m" using S(2) f m(1) g fg unfolding convex_def by blast
    then have mg: "before h m g" using level_before [OF lv(1), of m g] m(1) S(1) g by blast
    have k: "ivalid key" using file_okD(2) [OF ok(3)] m(2) by simp
    have vk: "valid (ExtractUserKey key)" using file_okD(4) [OF ok(3)] m(2) by (simp add: largest_user_key_def)
    have 1: "Compare c (smallest_user_key h g) (largest_user_key h f) \<le> 0" using o by (simp add: files_overlap_def)
    have 2: "Compare c (largest_user_key h f) (ExtractUserKey key) \<le> 0"
      using key(2) f icmp_le_iff [of "largest (fmd h f)" key] by (force simp: largest_user_key_def)
    have 3: "Compare c (ExtractUserKey key) (smallest_user_key h g) \<le> 0"
      using before_user [OF ok(3,2) mg] m(2) by (simp add: largest_user_key_def)
    have "Compare c (smallest_user_key h g) (ExtractUserKey key) \<le> 0"
      by (rule le_trans [OF file_okD(3) [OF ok(2)] file_okD(4) [OF ok(1)] vk 1 2])
    then have "Compare c (smallest_user_key h g) (ExtractUserKey key) = 0"
      using 3 ge_iff_le [OF vk file_okD(3) [OF ok(2)]] by force
    moreover have "icmp (smallest (fmd h g)) key > 0"
      using mg m(2) ik.gt_iff_lt [OF k file_okD(1) [OF ok(2)]] by (simp add: file_before_def)
    ultimately show False using nb g(1) by (simp add: is_boundary_def)
  qed
  moreover have "f \<noteq> g" using f g(2) by blast
  ultimately show "0 < level \<and> before h g f" using level_before [OF lv(1), of f g] f S(1) g(1) lv(2) by blast
qed

lemma AddBoundaryInputs_closed:
  assumes lv: "version_level_ok h level files" and S: "seed_ok h files level S" "S \<noteq> []"
  shows "\<exists>extra. AddBoundaryInputs c h files S = Some (S @ extra) \<and> set (S @ extra) \<subseteq> set files \<and>
    inputs_closed c h files level (set (S @ extra))"
proof (cases "level = 0")
  case True
  then show ?thesis
    using AddBoundaryInputs_level0 [of files h S] lv S by (intro exI [of _ "[]"]) (simp add: level_files_ok_def seed_ok_def)
next
  case False
  have l: "level_ok c valid h files" "\<forall>f \<in> set files. fok h f" using lv False by (simp_all add: level_files_ok_def)
  have sub: "set S \<subseteq> set files" "convex c h files (set S)" using S(1) False by (simp_all add: seed_ok_def)
  have okS: "\<forall>f \<in> set S. fok h f" using l(2) sub(1) by blast
  from AddBoundaryInputs_spec [OF l(2) okS S(2)] obtain extra key where
    r: "AddBoundaryInputs c h files S = Some (S @ extra)" "set extra \<subseteq> set files"
      "key \<in> (\<lambda>f. largest (fmd h f)) ` set (S @ extra)" "\<forall>f \<in> set (S @ extra). icmp (largest (fmd h f)) key \<le> 0"
      "\<forall>f \<in> set files. \<not> is_boundary h key f" by blast
  obtain key0 where k: "FindLargestKey c h S = Some key0" using S(2) by (cases S) (auto simp: FindLargestKey_def)
  note b = FindLargestKey_bounds [OF okS k]
  have "convex c h files (set (S @ extra))"
    by (rule AddBoundaryInputs_loop_convex [of h files key0 S])
      (use r(1) k l(1) sub b(2,3) in \<open>auto simp: AddBoundaryInputs_def\<close>)
  moreover have "set (S @ extra) \<subseteq> set files" using sub r(2) by simp
  ultimately show ?thesis
    using closed_from_convex [OF l(1) _ _ _ r(3-5), of level] r(1) False by blast
qed

lemma overlapping_seed:
  assumes lv: "version_level_ok h level (levels ! level)"
    and k: "\<And>k. lo = Some k \<Longrightarrow> ivalid k" "\<And>k. hi = Some k \<Longrightarrow> ivalid k"
  shows "\<exists>S. GetOverlappingInputs c h levels level lo hi = Some S \<and> seed_ok h (levels ! level) level S \<and>
    (\<forall>f \<in> set (levels ! level). overlaps_range c h (map_option ExtractUserKey lo) (map_option ExtractUserKey hi) f \<longrightarrow> f \<in> set S)"
proof (cases "level = 0")
  case True
  let ?cl = "overlap_closure c h (levels ! 0) (map_option ExtractUserKey lo) (map_option ExtractUserKey hi)"
  have ok: "\<forall>f \<in> set (levels ! 0). fok h f" using lv True by (simp add: level_files_ok_def)
  have "inputs_closed c h (levels ! 0) 0 (set (filter ?cl (levels ! 0)))"
    using overlap_closure.grow [of c h "levels ! 0" "map_option ExtractUserKey lo" "map_option ExtractUserKey hi"]
    by (auto simp: inputs_closed_def)
  moreover have "\<forall>f \<in> set (levels ! 0). overlaps_range c h (map_option ExtractUserKey lo) (map_option ExtractUserKey hi) f \<longrightarrow>
      f \<in> set (filter ?cl (levels ! 0))"
    using overlap_closure.seed by simp
  moreover have "GetOverlappingInputs c h levels 0 lo hi = Some (filter ?cl (levels ! 0))"
    by (rule GetOverlappingInputs_level0 [OF ok k])
  moreover have "set (filter ?cl (levels ! 0)) \<subseteq> set (levels ! 0)" by (rule filter_is_subset)
  ultimately show ?thesis using True unfolding seed_ok_def by auto
next
  case False
  let ?S = "filter (overlaps_range c h (map_option ExtractUserKey lo) (map_option ExtractUserKey hi)) (levels ! level)"
  have ok: "\<forall>f \<in> set (levels ! level). fok h f" "level_ok c valid h (levels ! level)"
    using lv False by (simp_all add: level_files_ok_def)
  have vr: "valid_range (map_option ExtractUserKey lo) (map_option ExtractUserKey hi)"
    using k by (auto simp: valid_range_def valid_ikey_def)
  have "GetOverlappingInputs c h levels level lo hi = Some ?S"
    using GetOverlappingInputs_other [OF ok(1) _ k] False by simp
  moreover have "seed_ok h (levels ! level) level ?S"
    using convex_overlaps [OF ok(2) vr] False by (simp add: seed_ok_def)
  ultimately show ?thesis by auto
qed

text \<open>A range that covers a set of files overlaps every file that shares a user key with one of them.\<close>

definition range_covers :: "FileHeap \<Rightarrow> bytes \<Rightarrow> bytes \<Rightarrow> fptr set \<Rightarrow> bool" where
  "range_covers h lo hi S \<longleftrightarrow> ivalid lo \<and> ivalid hi \<and>
     (\<forall>f \<in> S. icmp lo (smallest (fmd h f)) \<le> 0 \<and> icmp (largest (fmd h f)) hi \<le> 0)"

lemma range_covers_GetRange:
  assumes "\<forall>f \<in> set S. fok h f" "S \<noteq> []" "GetRange c h S = (lo, hi)"
  shows "range_covers h lo hi (set S)"
  using GetRange_bounds [OF assms] by (simp add: range_covers_def)

lemma range_covers_overlap:
  assumes "range_covers h lo hi S" "f \<in> S" "fok h f" "fok h g" "files_overlap c h f g"
  shows "overlaps_range c h (Some (ExtractUserKey lo)) (Some (ExtractUserKey hi)) g"
proof -
  have iv: "ivalid lo" "ivalid hi" and u: "icmp lo (smallest (fmd h f)) \<le> 0" "icmp (largest (fmd h f)) hi \<le> 0"
    using assms(1,2) by (simp_all add: range_covers_def)
  have v: "valid (ExtractUserKey lo)" "valid (ExtractUserKey hi)" using iv by (simp_all add: valid_ikey_def)
  have l: "Compare c (ExtractUserKey lo) (smallest_user_key h f) \<le> 0" using u(1) icmp_le_iff [of lo "smallest (fmd h f)"]
    by (auto simp: smallest_user_key_def)
  have r: "Compare c (largest_user_key h f) (ExtractUserKey hi) \<le> 0" using u(2) icmp_le_iff [of "largest (fmd h f)" hi]
    by (auto simp: largest_user_key_def)
  have o: "Compare c (smallest_user_key h f) (largest_user_key h g) \<le> 0" "Compare c (smallest_user_key h g) (largest_user_key h f) \<le> 0"
    using assms(5) by (simp_all add: files_overlap_def)
  have "Compare c (ExtractUserKey lo) (largest_user_key h g) \<le> 0"
    by (rule le_trans [OF v(1) file_okD(3) [OF assms(3)] file_okD(4) [OF assms(4)] l o(1)])
  moreover have "Compare c (smallest_user_key h g) (ExtractUserKey hi) \<le> 0"
    by (rule le_trans [OF file_okD(3) [OF assms(4)] file_okD(4) [OF assms(3)] v(2) o(2) r])
  ultimately show ?thesis
    using gt_iff_lt [OF v(2) file_okD(3) [OF assms(4)]] by (auto simp: overlaps_range_def AfterFile_def BeforeFile_def)
qed

lemma files_overlap_self: "fok h f \<Longrightarrow> files_overlap c h f f"
  using file_okD(5) by (simp add: files_overlap_def)

lemma next_inputs:
  assumes cov: "range_covers h lo hi S" "\<forall>f \<in> S. fok h f" and lv: "version_level_ok h level (levels ! level)"
  shows "\<exists>T. GetOverlappingInputs c h levels level (Some lo) (Some hi) = Some T \<and> seed_ok h (levels ! level) level T \<and>
    next_closed c h (levels ! level) S (set T)"
proof -
  have iv: "ivalid lo" "ivalid hi" using cov(1) by (simp_all add: range_covers_def)
  obtain T where T: "GetOverlappingInputs c h levels level (Some lo) (Some hi) = Some T" "seed_ok h (levels ! level) level T"
    "\<forall>f \<in> set (levels ! level). overlaps_range c h (Some (ExtractUserKey lo)) (Some (ExtractUserKey hi)) f \<longrightarrow> f \<in> set T"
    using overlapping_seed [OF lv, of "Some lo" "Some hi"] iv by auto
  have okl: "\<forall>f \<in> set (levels ! level). fok h f" using lv by (simp add: level_files_ok_def)
  have "next_closed c h (levels ! level) S (set T)"
    unfolding next_closed_def
  proof (intro conjI ballI impI)
    show "set T \<subseteq> set (levels ! level)" using T(2) by (simp add: seed_ok_def)
    fix f g assume f: "f \<in> S" and g: "g \<in> set (levels ! level)" "files_overlap c h f g"
    have "overlaps_range c h (Some (ExtractUserKey lo)) (Some (ExtractUserKey hi)) g"
      by (rule range_covers_overlap [OF cov(1) f _ _ g(2)]) (use cov(2) okl f g(1) in blast)+
    then show "g \<in> set T" using T(3) g(1) by blast
  qed
  then show ?thesis using T(1,2) by blast
qed

text \<open>The expanded inputs keep the promise, and what was chosen before.\<close>

lemma expand_inputs_ok:
  assumes lv: "version_level_ok h level (levels ! level)" "version_level_ok h (level + 1) (levels ! (level + 1))"
    and in0: "in0 \<noteq> []" "set in0 \<subseteq> set (levels ! level)" "inputs_closed c h (levels ! level) level (set in0)"
    and in1: "next_closed c h (levels ! (level + 1)) (set in0) (set in1)"
    and cov: "range_covers h s l (set in0 \<union> set in1)"
  shows "\<exists>in0' in1' hi' s' l'. expand_inputs c options h levels level in0 in1 hi s l = Some (in0', in1', hi', s', l') \<and>
    in0' \<noteq> [] \<and> set in0 \<subseteq> set in0' \<and> set in0' \<subseteq> set (levels ! level) \<and> inputs_closed c h (levels ! level) level (set in0') \<and>
    next_closed c h (levels ! (level + 1)) (set in0') (set in1') \<and> range_covers h s' l' (set in0' \<union> set in1')"
proof (cases "in1 = []")
  case True
  then show ?thesis using in0 in1 cov by (simp add: expand_inputs_def)
next
  case False
  have okl: "\<forall>f \<in> set (levels ! level). fok h f" "\<forall>f \<in> set (levels ! (level + 1)). fok h f"
    using lv by (simp_all add: level_files_ok_def)
  have ok0: "\<forall>f \<in> set in0. fok h f" using okl(1) in0(2) by blast
  have ok1: "\<forall>f \<in> set in1. fok h f" using okl(2) in1 unfolding next_closed_def by blast
  have ok: "\<forall>f \<in> set in0 \<union> set in1. fok h f" using ok0 ok1 by blast
  obtain T where T: "GetOverlappingInputs c h levels level (Some s) (Some l) = Some T" "seed_ok h (levels ! level) level T"
    "next_closed c h (levels ! level) (set in0 \<union> set in1) (set T)"
    using next_inputs [OF cov ok lv(1)] by blast
  have in0T: "set in0 \<subseteq> set T"
  proof
    fix f assume f: "f \<in> set in0"
    then have "files_overlap c h f f" using ok0 files_overlap_self by blast
    then show "f \<in> set T" using T(3) f in0(2) unfolding next_closed_def by blast
  qed
  have "T \<noteq> []" using in0T in0(1) by auto
  then obtain extra where X: "AddBoundaryInputs c h (levels ! level) T = Some (T @ extra)"
    "set (T @ extra) \<subseteq> set (levels ! level)" "inputs_closed c h (levels ! level) level (set (T @ extra))"
    using AddBoundaryInputs_closed [OF lv(1) T(2)] by blast
  obtain s2 l2 where R: "GetRange c h (T @ extra) = (s2, l2)" by force
  have okX: "\<forall>f \<in> set (T @ extra). fok h f" using X(2) okl(1) by blast
  have cov2: "range_covers h s2 l2 (set (T @ extra))" by (rule range_covers_GetRange [OF okX _ R]) (use \<open>T \<noteq> []\<close> in simp)
  obtain U where U: "GetOverlappingInputs c h levels (level + 1) (Some s2) (Some l2) = Some U"
    "seed_ok h (levels ! (level + 1)) (level + 1) U" "next_closed c h (levels ! (level + 1)) (set (T @ extra)) (set U)"
    using next_inputs [OF cov2 okX lv(2)] by blast
  obtain s3 l3 where R3: "GetRange c h ((T @ extra) @ U) = (s3, l3)" by force
  have okU: "\<forall>f \<in> set ((T @ extra) @ U). fok h f" using okX okl(2) U(2) unfolding seed_ok_def by auto
  have cov3: "range_covers h s3 l3 (set ((T @ extra) @ U))" by (rule range_covers_GetRange [OF okU _ R3]) (use \<open>T \<noteq> []\<close> in simp)
  have E: "expand_inputs c options h levels level in0 in1 hi s l =
      (if length in0 < length (T @ extra) \<and> sint (TotalFileSize h in1 + TotalFileSize h (T @ extra)) < sint (ExpandedCompactionByteSizeLimit options)
       then if length U = length in1 then Some (T @ extra, U, l2, s3, l3) else Some (in0, in1, hi, s, l)
       else Some (in0, in1, hi, s, l))"
    using T(1) X(1) R U(1) R3 False by (simp add: expand_inputs_def GetRange2_def Let_def)
  consider (same) "expand_inputs c options h levels level in0 in1 hi s l = Some (in0, in1, hi, s, l)"
    | (grown) "expand_inputs c options h levels level in0 in1 hi s l = Some (T @ extra, U, l2, s3, l3)"
    unfolding E by presburger
  then show ?thesis
  proof cases
    case same
    then show ?thesis using in0 in1 cov by blast
  next
    case grown
    have "range_covers h s3 l3 (set (T @ extra) \<union> set U)" using cov3 by (simp add: Un_assoc)
    moreover have "T @ extra \<noteq> []" "set in0 \<subseteq> set (T @ extra)" using \<open>T \<noteq> []\<close> in0T by auto
    ultimately show ?thesis using grown X(2,3) U(3) by blast
  qed
qed

lemma SetupOtherInputs_ok:
  assumes vs: "vs_ucmp vs = c" and level: "c_level cmp + 1 < kNumLevels"
    and levels: "levels = v_files (version vs (the (vs_current vs)))"
    and lv: "\<forall>l < kNumLevels. version_level_ok (vs_file_heap vs) l (levels ! l)"
    and seed: "seed_ok (vs_file_heap vs) (levels ! c_level cmp) (c_level cmp) (inputs0 cmp)" "inputs0 cmp \<noteq> []"
  shows "\<exists>cmp' hi. SetupOtherInputs cmp vs = Some (cmp', vs\<lparr>vs_compact_pointer := (vs_compact_pointer vs)[c_level cmp := hi]\<rparr>) \<and>
    compaction_inputs_ok c (vs_file_heap vs) levels cmp' \<and> set (inputs0 cmp) \<subseteq> set (inputs0 cmp') \<and>
    c_level cmp' = c_level cmp \<and> input_version cmp' = input_version cmp"
proof -
  let ?h = "vs_file_heap vs" and ?l = "c_level cmp"
  have lv0: "version_level_ok ?h ?l (levels ! ?l)" "version_level_ok ?h (?l + 1) (levels ! (?l + 1))" using lv level by simp_all
  obtain extra where X: "AddBoundaryInputs c ?h (levels ! ?l) (inputs0 cmp) = Some (inputs0 cmp @ extra)"
    "set (inputs0 cmp @ extra) \<subseteq> set (levels ! ?l)" "inputs_closed c ?h (levels ! ?l) ?l (set (inputs0 cmp @ extra))"
    using AddBoundaryInputs_closed [OF lv0(1) seed] by blast
  let ?in0 = "inputs0 cmp @ extra"
  have ok0: "\<forall>f \<in> set ?in0. fok ?h f" using X(2) lv0(1) unfolding level_files_ok_def by blast
  obtain lo hi where R: "GetRange c ?h ?in0 = (lo, hi)" by force
  have ne: "?in0 \<noteq> []" using seed(2) by simp
  have cov: "range_covers ?h lo hi (set ?in0)" by (rule range_covers_GetRange [OF ok0 ne R])
  obtain T where T: "GetOverlappingInputs c ?h levels (?l + 1) (Some lo) (Some hi) = Some T"
    "next_closed c ?h (levels ! (?l + 1)) (set ?in0) (set T)"
    using next_inputs [OF cov ok0 lv0(2)] by blast
  obtain s l where R2: "GetRange2 c ?h ?in0 T = (s, l)" by force
  have okT: "\<forall>f \<in> set T. fok ?h f" using T(2) lv0(2) unfolding next_closed_def level_files_ok_def by blast
  have "range_covers ?h s l (set (?in0 @ T))"
    by (rule range_covers_GetRange) (use ok0 okT ne R2 in \<open>auto simp: GetRange2_def\<close>)
  then have cov2: "range_covers ?h s l (set ?in0 \<union> set T)" by (simp add: Un_assoc)
  obtain in0 in1 hi' s' l' where E: "expand_inputs c (vs_options vs) ?h levels ?l ?in0 T hi s l = Some (in0, in1, hi', s', l')"
    "in0 \<noteq> []" "set ?in0 \<subseteq> set in0" "set in0 \<subseteq> set (levels ! ?l)" "inputs_closed c ?h (levels ! ?l) ?l (set in0)"
    "next_closed c ?h (levels ! (?l + 1)) (set in0) (set in1)" "range_covers ?h s' l' (set in0 \<union> set in1)"
    using expand_inputs_ok [OF lv0 ne X(2,3) T(2) cov2] by blast
  have okE: "\<forall>f \<in> set in0 \<union> set in1. fok ?h f"
    using E(4,6) lv0 unfolding next_closed_def level_files_ok_def by blast
  obtain gps where G: "(if ?l + 2 < kNumLevels then GetOverlappingInputs c ?h levels (?l + 2) (Some s') (Some l')
      else Some (grandparents cmp)) = Some gps"
    "?l + 2 < kNumLevels \<longrightarrow> next_closed c ?h (levels ! (?l + 2)) (set in0 \<union> set in1) (set gps)"
  proof (cases "?l + 2 < kNumLevels")
    case True
    then obtain gps where "GetOverlappingInputs c ?h levels (?l + 2) (Some s') (Some l') = Some gps"
      "next_closed c ?h (levels ! (?l + 2)) (set in0 \<union> set in1) (set gps)"
      using next_inputs [OF E(7) okE, of "?l + 2"] lv by blast
    then show thesis using that True by simp
  qed (use that in simp)
  let ?cmp = "cmp\<lparr>inputs0 := in0, inputs1 := in1, grandparents := gps, c_edit := SetCompactPointer ?l hi' (c_edit cmp)\<rparr>"
  have "SetupOtherInputs cmp vs = Some (?cmp, vs\<lparr>vs_compact_pointer := (vs_compact_pointer vs)[?l := hi']\<rparr>)"
    using X(1) R T(1) R2 E(1) G(1) by (simp add: SetupOtherInputs_def vs levels [symmetric] Let_def)
  moreover have "compaction_inputs_ok c ?h levels ?cmp" using level E(2,4-6) G(2) by (simp add: compaction_inputs_ok_def)
  moreover have "set (inputs0 cmp) \<subseteq> set (inputs0 ?cmp)" using E(3) by simp
  ultimately show ?thesis by (intro exI [of _ ?cmp] exI [of _ hi']) simp
qed

lemma finish_pick_ok:
  assumes vs: "vs_ucmp vs = c" "vs_current vs = Some cur" and level: "c_level cmp + 1 < kNumLevels"
    and levels: "levels = v_files (version vs cur)"
    and lv: "\<forall>l < kNumLevels. version_level_ok (vs_file_heap vs) l (levels ! l)"
    and f: "inputs0 cmp = [f]" "f \<in> set (levels ! c_level cmp)"
  shows "\<exists>cmp' vs'. finish_pick cmp vs = Some (Some cmp', vs') \<and>
    compaction_inputs_ok c (vs_file_heap vs) levels cmp' \<and> f \<in> set (inputs0 cmp') \<and> c_level cmp' = c_level cmp \<and>
    input_version cmp' = Some cur"
proof -
  let ?h = "vs_file_heap vs" and ?vs = "Version_Ref cur vs" and ?cmp = "cmp\<lparr>input_version := Some cur\<rparr>"
  have lv0: "version_level_ok ?h (c_level cmp) (levels ! c_level cmp)" using lv level by simp
  then have okl: "\<forall>f \<in> set (levels ! c_level cmp). fok ?h f" by (simp add: level_files_ok_def)
  then have okf: "fok ?h f" using f(2) by blast
  obtain S where S: "(if c_level ?cmp = 0 then
        (let (lo, hi) = GetRange c ?h (inputs0 ?cmp)
         in map_option (\<lambda>files. ?cmp\<lparr>inputs0 := files\<rparr>) (GetOverlappingInputs c ?h levels 0 (Some lo) (Some hi)))
      else Some ?cmp) = Some (?cmp\<lparr>inputs0 := S\<rparr>)"
    "seed_ok ?h (levels ! c_level cmp) (c_level cmp) S" "f \<in> set S"
  proof (cases "c_level cmp = 0")
    case True
    obtain lo hi where R: "GetRange c ?h [f] = (lo, hi)" by force
    have cov: "range_covers ?h lo hi (set [f])" by (rule range_covers_GetRange [OF _ _ R]) (use okf in simp_all)
    obtain T where T: "GetOverlappingInputs c ?h levels 0 (Some lo) (Some hi) = Some T" "seed_ok ?h (levels ! 0) 0 T"
      "next_closed c ?h (levels ! 0) (set [f]) (set T)"
      using next_inputs [OF cov _, of 0 levels] okf lv0 True by auto
    have "f \<in> set T" using T(3) files_overlap_self [OF okf] f(2) True by (simp add: next_closed_def)
    then show thesis using that [of T] T R True f(1) by simp
  next
    case False
    have "seed_ok ?h (levels ! c_level cmp) (c_level cmp) [f]"
      using convex_single [OF okl okf] f(2) False by (simp add: seed_ok_def)
    then show thesis using that [of "[f]"] False f(1) by simp
  qed
  let ?cmp' = "?cmp\<lparr>inputs0 := S\<rparr>"
  have fr: "vs_ucmp ?vs = c" "vs_file_heap ?vs = ?h" "the (vs_current ?vs) = cur" "v_files (version ?vs cur) = levels"
    using vs levels by (simp_all add: Version_Ref_frame)
  obtain cmp' hi where C: "SetupOtherInputs ?cmp' ?vs = Some (cmp', ?vs\<lparr>vs_compact_pointer := (vs_compact_pointer ?vs)[c_level cmp := hi]\<rparr>)"
    "compaction_inputs_ok c ?h levels cmp'" "set S \<subseteq> set (inputs0 cmp')" "c_level cmp' = c_level cmp" "input_version cmp' = Some cur"
    using SetupOtherInputs_ok [of ?vs ?cmp' levels] fr level lv S(2,3) by force
  have "finish_pick cmp vs = Some (Some cmp', ?vs\<lparr>vs_compact_pointer := (vs_compact_pointer ?vs)[c_level cmp := hi]\<rparr>)"
    unfolding finish_pick_def Let_def vs option.sel fr S(1) [unfolded Let_def] using C(1) by simp
  then show ?thesis using C S(3) by blast
qed

lemma find_in: "List.find P xs = Some x \<Longrightarrow> x \<in> set xs"
  by (induction xs) (auto split: if_splits)

lemma PickCompaction_ok:
  assumes vs: "vs_ucmp vs = c" "vs_current vs = Some cur" and levels: "levels = v_files (version vs cur)"
    and lv: "\<forall>l < kNumLevels. version_level_ok (vs_file_heap vs) l (levels ! l)"
    and hint: "recommendation_ok (version vs cur)"
  shows "\<exists>res vs'. PickCompaction vs = Some (res, vs') \<and>
    (case res of None \<Rightarrow> \<not> NeedsCompaction vs
     | Some cmp \<Rightarrow> NeedsCompaction vs \<and> input_version cmp = Some cur \<and> compaction_inputs_ok c (vs_file_heap vs) levels cmp)"
proof -
  let ?v = "version vs cur"
  consider (size) "1 \<le> compaction_score ?v"
    | (seek) f where "\<not> 1 \<le> compaction_score ?v" "file_to_compact ?v = Some f"
    | (none) "\<not> 1 \<le> compaction_score ?v" "file_to_compact ?v = None" by blast
  then show ?thesis
  proof cases
    case size
    let ?l = "nat (compaction_level ?v)"
    have l: "?l + 1 < kNumLevels" "levels ! ?l \<noteq> []" using hint size by (simp_all add: recommendation_ok_def recommended_def levels)
    obtain f where f: "f \<in> set (levels ! ?l)"
      "(case first_after_pointer c (vs_file_heap vs) (vs_compact_pointer vs ! ?l) (levels ! ?l) of
          Some f \<Rightarrow> Some f | None \<Rightarrow> if levels ! ?l = [] then None else Some (levels ! ?l ! 0)) = Some f"
    proof (cases "first_after_pointer c (vs_file_heap vs) (vs_compact_pointer vs ! ?l) (levels ! ?l)")
      case None
      then show thesis using that [of "levels ! ?l ! 0"] l(2) by simp
    next
      case (Some f)
      then show thesis using that [of f] find_in [of _ "levels ! ?l" f] by (simp add: first_after_pointer_def)
    qed
    let ?cmp = "(Compaction_new (vs_options vs) ?l)\<lparr>inputs0 := [f]\<rparr>"
    have "PickCompaction vs = finish_pick ?cmp vs"
      unfolding PickCompaction_def Let_def vs option.sel levels [symmetric] f(2) using size by simp
    moreover obtain cmp' vs' where "finish_pick ?cmp vs = Some (Some cmp', vs')"
      "compaction_inputs_ok c (vs_file_heap vs) levels cmp'" "input_version cmp' = Some cur"
      using finish_pick_ok [OF vs _ levels lv, of ?cmp f] l(1) f(1) by (auto simp: Compaction_new_def)
    ultimately show ?thesis using size by (simp add: NeedsCompaction_def vs)
  next
    case seek
    let ?l = "nat (file_to_compact_level ?v)"
    have l: "?l + 1 < kNumLevels" "f \<in> set (levels ! ?l)" using hint seek by (simp_all add: recommendation_ok_def recommended_def levels)
    let ?cmp = "(Compaction_new (vs_options vs) ?l)\<lparr>inputs0 := [f]\<rparr>"
    have "PickCompaction vs = finish_pick ?cmp vs" using seek by (simp add: PickCompaction_def vs Let_def)
    moreover obtain cmp' vs' where "finish_pick ?cmp vs = Some (Some cmp', vs')"
      "compaction_inputs_ok c (vs_file_heap vs) levels cmp'" "input_version cmp' = Some cur"
      using finish_pick_ok [OF vs _ levels lv, of ?cmp f] l by (auto simp: Compaction_new_def)
    ultimately show ?thesis using seek by (simp add: NeedsCompaction_def vs)
  next
    case none
    then show ?thesis by (simp add: PickCompaction_def NeedsCompaction_def vs Let_def)
  qed
qed

subsection \<open>Manual compactions\<close>

lemma limit_inputs_prefix: "\<exists>n. limit_inputs h limit t fs = take n fs \<and> (fs \<noteq> [] \<longrightarrow> 0 < n)"
proof (induction fs arbitrary: t)
  case (Cons f fs)
  obtain n where n: "limit_inputs h limit (t + file_size (fmd h f)) fs = take n fs" using Cons.IH by blast
  show ?case
  proof (cases "limit \<le> t + file_size (fmd h f)")
    case True
    then show ?thesis by (intro exI [of _ 1]) (simp add: Let_def)
  next
    case False
    then show ?thesis using n by (intro exI [of _ "Suc n"]) (simp add: Let_def)
  qed
qed simp

lemma convex_prefix:
  assumes lv: "level_ok c valid h files" and S: "set S \<subseteq> set files" "convex c h files (set S)" and srt: "sorted_wrt (before h) S"
  shows "convex c h files (set (take n S))"
  unfolding convex_def
proof (intro ballI impI)
  fix f f' g assume f: "f \<in> set (take n S)" "f' \<in> set (take n S)" and g: "g \<in> set files" "before h f g" "before h g f'"
  have fS: "f \<in> set S" "f' \<in> set S" using f set_take_subset by fast+
  then have gS: "g \<in> set S" using S(2) g unfolding convex_def by blast
  obtain j where j: "j < length S" "g = S ! j" using gS by (metis in_set_conv_nth)
  obtain i where i: "i < length S" "i < n" "f' = S ! i" using f(2) by (auto simp: in_set_conv_nth)
  have ok: "fok h g" "fok h f'" using level_fok [OF lv] g(1) fS(2) S(1) by blast+
  have "\<not> i < j"
  proof
    assume "i < j"
    then have "before h f' g" using srt i j by (simp add: sorted_wrt_iff_nth_less)
    then show False using before_asym [OF ok] g(3) by blast
  qed
  moreover have "i \<noteq> j" using before_irrefl [OF ok(2)] g(3) i j by auto
  ultimately show "g \<in> set (take n S)" using i j by (auto simp: in_set_conv_nth intro!: exI [of _ j])
qed

lemma CompactRange_ok:
  assumes vs: "vs_ucmp vs = c" "vs_current vs = Some cur" and levels: "levels = v_files (version vs cur)"
    and lv: "\<forall>l < kNumLevels. version_level_ok (vs_file_heap vs) l (levels ! l)" and level: "level + 1 < kNumLevels"
    and range: "\<And>k. b = Some k \<Longrightarrow> ivalid k" "\<And>k. e = Some k \<Longrightarrow> ivalid k"
  shows "\<exists>res vs'. CompactRange level b e vs = Some (res, vs') \<and>
    (case res of None \<Rightarrow> \<forall>f \<in> set (levels ! level). \<not> overlaps_range c (vs_file_heap vs) (map_option ExtractUserKey b) (map_option ExtractUserKey e) f
     | Some cmp \<Rightarrow> c_level cmp = level \<and> input_version cmp = Some cur \<and> compaction_inputs_ok c (vs_file_heap vs) levels cmp)"
proof -
  let ?h = "vs_file_heap vs"
  have lv0: "version_level_ok ?h level (levels ! level)" using lv level by simp
  obtain S where S: "GetOverlappingInputs c ?h levels level b e = Some S" "seed_ok ?h (levels ! level) level S"
    "\<forall>f \<in> set (levels ! level). overlaps_range c ?h (map_option ExtractUserKey b) (map_option ExtractUserKey e) f \<longrightarrow> f \<in> set S"
    using overlapping_seed [OF lv0 range] by blast
  show ?thesis
  proof (cases "S = []")
    case True
    then show ?thesis using S(1,3) by (simp add: CompactRange_def vs levels [symmetric])
  next
    case False
    let ?S = "if 0 < level then limit_inputs ?h (MaxFileSizeForLevel (vs_options vs) level) 0 S else S"
    have seed: "seed_ok ?h (levels ! level) level ?S \<and> ?S \<noteq> []"
    proof (cases "0 < level")
      case True
      obtain n where n: "limit_inputs ?h (MaxFileSizeForLevel (vs_options vs) level) 0 S = take n S" "0 < n"
        using limit_inputs_prefix False by blast
      have l: "level_ok c valid ?h (levels ! level)" using lv0 True by (simp add: level_files_ok_def)
      have "S = filter (overlaps_range c ?h (map_option ExtractUserKey b) (map_option ExtractUserKey e)) (levels ! level)"
        using S(1) GetOverlappingInputs_other [OF _ True range] l by (simp add: level_ok_def)
      moreover have "sorted_wrt (before ?h) (levels ! level)"
        using l unfolding level_ok_def file_before_def [abs_def] by blast
      ultimately have "sorted_wrt (before ?h) S" by (simp add: sorted_wrt_filter)
      then have "convex c ?h (levels ! level) (set (take n S))"
        using convex_prefix [OF l] S(2) True by (simp add: seed_ok_def)
      then show ?thesis using n False True S(2) set_take_subset [of n S] by (auto simp: seed_ok_def)
    qed (use S(2) False in simp)
    let ?vs = "Version_Ref cur vs"
    let ?cmp = "(Compaction_new (vs_options vs) level)\<lparr>input_version := Some cur, inputs0 := ?S\<rparr>"
    have fr: "vs_ucmp ?vs = c" "vs_file_heap ?vs = ?h" "the (vs_current ?vs) = cur" "v_files (version ?vs cur) = levels"
      using vs levels by (simp_all add: Version_Ref_frame)
    have cl: "c_level ?cmp = level" "inputs0 ?cmp = ?S" "input_version ?cmp = Some cur" by (simp_all add: Compaction_new_def)
    obtain cmp' hi where C: "SetupOtherInputs ?cmp ?vs = Some (cmp', ?vs\<lparr>vs_compact_pointer := (vs_compact_pointer ?vs)[level := hi]\<rparr>)"
      "compaction_inputs_ok c ?h levels cmp'" "c_level cmp' = level" "input_version cmp' = Some cur"
      using SetupOtherInputs_ok [of ?vs ?cmp levels] unfolding fr cl using level lv seed by blast
    have "CompactRange level b e vs = Some (Some cmp', ?vs\<lparr>vs_compact_pointer := (vs_compact_pointer ?vs)[level := hi]\<rparr>)"
      using S(1) C(1) False by (simp add: CompactRange_def vs levels [symmetric] Let_def)
    then show ?thesis using C by simp
  qed
qed

subsection \<open>The base level test\<close>

text \<open>
  Keys arrive in order, so that the indices of \<^const>\<open>IsBaseLevelForKey\<close> only move forward; its
  answers are those of a search in all files.
\<close>

definition no_file_with :: "FileHeap \<Rightarrow> fptr list list \<Rightarrow> nat \<Rightarrow> bytes \<Rightarrow> bool" where
  "no_file_with h levels level u \<longleftrightarrow> (\<forall>l \<in> {level..<kNumLevels}. \<forall>f \<in> set (levels ! l).
     \<not> (Compare c (smallest_user_key h f) u \<le> 0 \<and> Compare c u (largest_user_key h f) \<le> 0))"

definition ptr_ok :: "FileHeap \<Rightarrow> fptr list \<Rightarrow> bytes \<Rightarrow> nat \<Rightarrow> bool" where
  "ptr_ok h files u p \<longleftrightarrow> (\<forall>i < p. i < length files \<longrightarrow> Compare c (largest_user_key h (files ! i)) u < 0)"

lemma base_level_scan_ok:
  assumes lv: "level_ok c valid h files" and u: "valid u" and p: "ptr_ok h files u p"
  shows "ptr_ok h files u (fst (base_level_scan c h files u p)) \<and>
    (snd (base_level_scan c h files u p) \<longleftrightarrow>
      (\<exists>f \<in> set files. Compare c (smallest_user_key h f) u \<le> 0 \<and> Compare c u (largest_user_key h f) \<le> 0))"
  using p
proof (induction "length files - p" arbitrary: p rule: less_induct)
  case less
  have out: "\<not> Compare c u (largest_user_key h (files ! i)) \<le> 0" if "i < p" "i < length files" for i
    using less.prems that not_le_iff_lt [OF file_okD(4) [OF level_okD(1) [OF lv that(2)]] u] by (simp add: ptr_ok_def)
  show ?case
  proof (cases "p < length files")
    case False
    then have "base_level_scan c h files u p = (p, False)" by (subst base_level_scan.simps) simp
    then show ?thesis using less.prems out False by (auto simp: in_set_conv_nth)
  next
    case True
    let ?f = "files ! p"
    note ok = level_okD(1) [OF lv True]
    show ?thesis
    proof (cases "Compare c u (largest_user_key h ?f) \<le> 0")
      case le: True
      then have s: "base_level_scan c h files u p = (p, Compare c u (smallest_user_key h ?f) \<ge> 0)"
        using True by (subst base_level_scan.simps) (simp add: Let_def)
      have g: "Compare c u (smallest_user_key h ?f) \<ge> 0 \<longleftrightarrow> Compare c (smallest_user_key h ?f) u \<le> 0"
        by (rule ge_iff_le [OF file_okD(3) [OF ok] u])
      have "\<not> Compare c (smallest_user_key h (files ! i)) u \<le> 0"
        if no: "\<not> Compare c (smallest_user_key h ?f) u \<le> 0" and i: "p < i" "i < length files" for i
      proof -
        note oki = level_okD(1) [OF lv i(2)]
        have "before h ?f (files ! i)" using level_okD(2) [OF lv True i] by (simp add: file_before_def)
        from before_user [OF ok oki this]
        have "Compare c (smallest_user_key h ?f) (smallest_user_key h (files ! i)) \<le> 0"
          using le_trans [OF file_okD(3,4) [OF ok] file_okD(3) [OF oki] file_okD(5) [OF ok]] by simp
        then show ?thesis
          using no le_trans [OF file_okD(3) [OF ok] file_okD(3) [OF oki] u] by blast
      qed
      then have "(\<exists>f \<in> set files. Compare c (smallest_user_key h f) u \<le> 0 \<and> Compare c u (largest_user_key h f) \<le> 0) \<longleftrightarrow>
          Compare c (smallest_user_key h ?f) u \<le> 0"
      proof (intro iffI)
        assume after: "\<And>i. \<not> Compare c (smallest_user_key h ?f) u \<le> 0 \<Longrightarrow> p < i \<Longrightarrow> i < length files \<Longrightarrow>
          \<not> Compare c (smallest_user_key h (files ! i)) u \<le> 0"
          and "\<exists>f \<in> set files. Compare c (smallest_user_key h f) u \<le> 0 \<and> Compare c u (largest_user_key h f) \<le> 0"
        then obtain i where "i < length files" "Compare c (smallest_user_key h (files ! i)) u \<le> 0"
          "Compare c u (largest_user_key h (files ! i)) \<le> 0" by (auto simp: in_set_conv_nth)
        then show "Compare c (smallest_user_key h ?f) u \<le> 0" using out after by (cases i p rule: linorder_cases) auto
      qed (use le True in \<open>auto intro!: bexI [of _ ?f]\<close>)
      then show ?thesis using s g less.prems by simp
    next
      case gt: False
      then have s: "base_level_scan c h files u p = base_level_scan c h files u (p + 1)"
        using True by (subst base_level_scan.simps) (simp add: Let_def)
      have "Compare c (largest_user_key h ?f) u < 0" using gt not_le_iff_lt [OF file_okD(4) [OF ok] u] by simp
      then have "ptr_ok h files u (p + 1)" using less.prems by (auto simp: ptr_ok_def less_Suc_eq)
      then show ?thesis unfolding s using less.hyps [of "p + 1"] True by simp
    qed
  qed
qed

lemma base_levels_ok:
  assumes "\<forall>l \<in> set lvls. level_ok c valid h (levels ! l) \<and> l < length ptrs" "valid u" "distinct lvls"
    and "\<forall>l < length ptrs. ptr_ok h (levels ! l) u (ptrs ! l)"
  shows "(fst (base_levels c h levels u lvls ptrs) \<longleftrightarrow> (\<forall>l \<in> set lvls. \<forall>f \<in> set (levels ! l).
      \<not> (Compare c (smallest_user_key h f) u \<le> 0 \<and> Compare c u (largest_user_key h f) \<le> 0))) \<and>
    length (snd (base_levels c h levels u lvls ptrs)) = length ptrs \<and>
    (\<forall>l < length ptrs. ptr_ok h (levels ! l) u (snd (base_levels c h levels u lvls ptrs) ! l))"
  using assms
proof (induction lvls arbitrary: ptrs)
  case (Cons lvl lvls)
  obtain p hit where s: "base_level_scan c h (levels ! lvl) u (ptrs ! lvl) = (p, hit)" by force
  have "level_ok c valid h (levels ! lvl)" "ptr_ok h (levels ! lvl) u (ptrs ! lvl)" using Cons.prems(1,4) by simp_all
  note b = base_level_scan_ok [OF this(1) Cons.prems(2) this(2), unfolded s fst_conv snd_conv]
  let ?ptrs = "ptrs[lvl := p]"
  have p: "\<forall>l < length ?ptrs. ptr_ok h (levels ! l) u (?ptrs ! l)" using Cons.prems(1,4) b by (simp add: nth_list_update)
  show ?case
  proof (cases hit)
    case True
    then show ?thesis using s b p by auto
  next
    case False
    have pre: "\<forall>l \<in> set lvls. level_ok c valid h (levels ! l) \<and> l < length ?ptrs" "distinct lvls" using Cons.prems(1,3) by simp_all
    note IH = Cons.IH [OF pre(1) Cons.prems(2) pre(2) p]
    have e: "base_levels c h levels u (lvl # lvls) ptrs = base_levels c h levels u lvls ?ptrs" using s False by simp
    have "\<forall>f \<in> set (levels ! lvl). \<not> (Compare c (smallest_user_key h f) u \<le> 0 \<and> Compare c u (largest_user_key h f) \<le> 0)"
      using b False by blast
    then show ?thesis unfolding e using IH by simp
  qed
qed simp

lemma ptr_ok_mono:
  assumes "level_ok c valid h files" "ptr_ok h files u p" "valid u" "valid u'" "Compare c u u' \<le> 0"
  shows "ptr_ok h files u' p"
  unfolding ptr_ok_def
proof (intro allI impI)
  fix i assume i: "i < p" "i < length files"
  show "Compare c (largest_user_key h (files ! i)) u' < 0"
    by (rule lt_le_trans [OF file_okD(4) [OF level_okD(1) [OF assms(1) i(2)]] assms(3,4) _ assms(5)])
      (use assms(2) i in \<open>simp add: ptr_ok_def\<close>)
qed

end

fun base_level_run :: "'w VersionSet \<Rightarrow> bytes list \<Rightarrow> Compaction \<Rightarrow> bool list" where
  "base_level_run vs [] cmp = []"
| "base_level_run vs (k # ks) cmp = (let (res, cmp) = IsBaseLevelForKey vs k cmp in res # base_level_run vs ks cmp)"

context internal_keys
begin

lemma base_level_run_ok:
  assumes vs: "vs_ucmp vs = c" "levels = v_files (version vs (the (input_version cmp)))" "length (level_ptrs cmp) = kNumLevels"
    and lv: "\<forall>l \<in> {c_level cmp + 2..<kNumLevels}. level_ok c valid (vs_file_heap vs) (levels ! l)"
    and keys: "\<forall>k \<in> set ks. valid k" "sorted_wrt (\<lambda>k k'. Compare c k k' \<le> 0) ks"
    and ptrs: "\<forall>l \<in> {c_level cmp + 2..<kNumLevels}. \<forall>k \<in> set ks. ptr_ok (vs_file_heap vs) (levels ! l) k (level_ptrs cmp ! l)"
    and low: "\<forall>l < c_level cmp + 2. l < kNumLevels \<longrightarrow> level_ptrs cmp ! l = 0"
  shows "base_level_run vs ks cmp = map (no_file_with (vs_file_heap vs) levels (c_level cmp + 2)) ks"
  using assms
proof (induction ks arbitrary: cmp)
  case (Cons k ks)
  let ?h = "vs_file_heap vs" and ?lvls = "[c_level cmp + 2..<kNumLevels]"
  obtain res ptrs where s: "base_levels c ?h levels k ?lvls (level_ptrs cmp) = (res, ptrs)" by force
  have k: "valid k" using Cons.prems(5) by simp
  have pk: "\<forall>l < length (level_ptrs cmp). ptr_ok ?h (levels ! l) k (level_ptrs cmp ! l)"
  proof (intro allI impI)
    fix l assume l: "l < length (level_ptrs cmp)"
    show "ptr_ok ?h (levels ! l) k (level_ptrs cmp ! l)"
    proof (cases "l < c_level cmp + 2")
      case True
      then show ?thesis using Cons.prems(3,8) l by (simp add: ptr_ok_def)
    qed (use Cons.prems(3,7) l in simp)
  qed
  have "\<forall>l \<in> set ?lvls. level_ok c valid ?h (levels ! l) \<and> l < length (level_ptrs cmp)" using Cons.prems(3,4) by simp
  from base_levels_ok [OF this k _ pk] s
  have b: "res \<longleftrightarrow> no_file_with ?h levels (c_level cmp + 2) k" "length ptrs = length (level_ptrs cmp)"
    "\<forall>l < length (level_ptrs cmp). ptr_ok ?h (levels ! l) k (ptrs ! l)"
    by (simp_all add: no_file_with_def)
  have keep: "ptrs ! l = level_ptrs cmp ! l" if "l < c_level cmp + 2" for l
  proof -
    have "snd (base_levels c ?h levels k lvls ps) ! l = ps ! l" if "l \<notin> set lvls" for lvls ps
      using that by (induction lvls arbitrary: ps) (auto simp: Let_def split: prod.splits)
    from this [of ?lvls "level_ptrs cmp"] that show ?thesis unfolding s by simp
  qed
  let ?cmp = "cmp\<lparr>level_ptrs := ptrs\<rparr>"
  have step: "IsBaseLevelForKey vs k cmp = (res, ?cmp)"
    using s by (simp add: IsBaseLevelForKey_def Cons.prems(1,2))
  have "base_level_run vs ks ?cmp = map (no_file_with ?h levels (c_level ?cmp + 2)) ks"
  proof (rule Cons.IH)
    show "\<forall>l \<in> {c_level ?cmp + 2..<kNumLevels}. \<forall>k' \<in> set ks. ptr_ok ?h (levels ! l) k' (level_ptrs ?cmp ! l)"
    proof (intro ballI)
      fix l k' assume l: "l \<in> {c_level ?cmp + 2..<kNumLevels}" and k': "k' \<in> set ks"
      have "ptr_ok ?h (levels ! l) k (ptrs ! l)" using b(3) l Cons.prems(3) by simp
      moreover have "level_ok c valid ?h (levels ! l)" using Cons.prems(4) l by simp
      moreover have "Compare c k k' \<le> 0" "valid k'" using Cons.prems(5,6) k' by simp_all
      ultimately show "ptr_ok ?h (levels ! l) k' (level_ptrs ?cmp ! l)" using ptr_ok_mono k by simp
    qed
    show "\<forall>l < c_level ?cmp + 2. l < kNumLevels \<longrightarrow> level_ptrs ?cmp ! l = 0" using keep Cons.prems(8) by simp
  qed (use Cons.prems b(2) in simp_all)
  then show ?case using step b(1) by simp
qed simp

end

subsection \<open>Properties\<close>

text \<open>
  C18: when the current version is well formed, \<open>PickCompaction\<close> returns a compaction
  exactly when one is needed, and its inputs are closed: a file of the level that is left out
  shares no user key with an input or, at a sorted level, lies before it and so holds the newer
  entries; every file of the next level that shares a user key with an input of the level is an
  input too; and the grandparents are all files two levels down that share one with any input.
\<close>

theorem compaction_inputs:
  assumes "internal_keys c valid" "vs_ucmp vs = c" "vs_current vs = Some cur"
    and "\<forall>l < kNumLevels. level_files_ok c valid (vs_file_heap vs) l (v_files (version vs cur) ! l)"
    and "recommendation_ok (version vs cur)"
  shows "\<exists>res vs'. PickCompaction vs = Some (res, vs') \<and>
    (case res of None \<Rightarrow> \<not> NeedsCompaction vs
     | Some cmp \<Rightarrow> NeedsCompaction vs \<and> input_version cmp = Some cur \<and>
         compaction_inputs_ok c (vs_file_heap vs) (v_files (version vs cur)) cmp)"
  by (rule internal_keys.PickCompaction_ok [OF assms(1-3) HOL.refl assms(4,5)])

lemma Pack_le_max: "s \<le> kMaxSequenceNumber \<Longrightarrow> PackSequenceAndType s t \<le> PackSequenceAndType kMaxSequenceNumber kValueTypeForSeek"
  using unat_Pack [of s t] unat_Pack [of kMaxSequenceNumber kValueTypeForSeek]
  by (cases t) (auto simp: word_le_nat_alt kValueTypeForSeek_def)

context internal_keys
begin

text \<open>Files whose keys are made from user keys in order.\<close>

lemma icmp_users:
  "Compare c u u' \<noteq> 0 \<Longrightarrow> icmp (InternalKey_new u s t) (InternalKey_new u' s' t') = Compare c u u'"
  by (simp add: icmp_eq InternalKey_Compare_def Let_def)

lemma file_ok_new:
  assumes "valid u" "valid u'" "Compare c u u' < 0" "s \<le> kMaxSequenceNumber" "s' \<le> kMaxSequenceNumber"
  shows "file_ok c valid (FileMetaData_new n sz (InternalKey_new u s t) (InternalKey_new u' s' t'))"
  using assms by (simp add: file_ok_def FileMetaData_new_def valid_ikey_def Pack_le_max icmp_users)

end

text \<open>
  A version set with a file at level 1, two files at level 2 that share the user key 67 (a deletion
  at the end of the first, an older value at the start of the second), and a seek compaction of
  the file at level 1.
\<close>

definition split_heap :: FileHeap where
  "split_heap = [0 \<mapsto> FileMetaData_new 9 100 (InternalKey_new [65] 8 kTypeValue) (InternalKey_new [66] 7 kTypeValue),
     1 \<mapsto> FileMetaData_new 5 100 (InternalKey_new [66] 6 kTypeValue) (InternalKey_new [67] 5 kTypeDeletion),
     2 \<mapsto> FileMetaData_new 4 100 (InternalKey_new [67] 3 kTypeValue) (InternalKey_new [68] 2 kTypeValue)]"

definition split_version :: Version where
  "split_version = Version_new\<lparr>v_files := [[], [0], [1, 2], [], [], [], []], v_refs := 1, file_to_compact := Some 0, file_to_compact_level := 1\<rparr>"

definition split_versions :: "unit VersionSet" where
  "split_versions = (VersionSet_new [] Options_new BytewiseComparator)
     \<lparr>vs_version_heap := [0 \<mapsto> split_version], vs_file_heap := split_heap, vs_file_next := 3\<rparr>"

lemma split_current: "vs_current split_versions = Some 0" "vs_ucmp split_versions = BytewiseComparator"
  "version split_versions 0 = split_version" "vs_file_heap split_versions = split_heap"
  "vs_options split_versions = Options_new"
  by (simp_all add: split_versions_def VersionSet_new_def new_version_def AppendVersion_def Let_def Version_Ref_def update_version_def version_def)

lemma bytewise_compare: "Compare BytewiseComparator = Slice_compare"
  by (simp add: BytewiseComparator_def)

lemma split_fmd:
  "fmd split_heap 0 = FileMetaData_new 9 100 (InternalKey_new [65] 8 kTypeValue) (InternalKey_new [66] 7 kTypeValue)"
  "fmd split_heap 1 = FileMetaData_new 5 100 (InternalKey_new [66] 6 kTypeValue) (InternalKey_new [67] 5 kTypeDeletion)"
  "fmd split_heap 2 = FileMetaData_new 4 100 (InternalKey_new [67] 3 kTypeValue) (InternalKey_new [68] 2 kTypeValue)"
  by (simp_all add: split_heap_def fmd_def)

lemma split_keys:
  "smallest (FileMetaData_new n sz s l) = s" "largest (FileMetaData_new n sz s l) = l"
  by (simp_all add: FileMetaData_new_def)

lemma split_file_ok: "f \<in> {0, 1, 2} \<Longrightarrow> file_ok BytewiseComparator (\<lambda>_. True) (fmd split_heap f)"
  by (auto simp: split_fmd kMaxSequenceNumber_def bytewise_compare Slice_compare_def simp del: One_nat_def intro!: bytewise_ik.file_ok_new)

lemma split_compare:
  "Compare (InternalKeyComparator BytewiseComparator) (InternalKey_new [65] s t) (InternalKey_new [66] s' t') = -1"
  "Compare (InternalKeyComparator BytewiseComparator) (InternalKey_new [66] s t) (InternalKey_new [65] s' t') = 1"
  "Compare (InternalKeyComparator BytewiseComparator) (InternalKey_new [67] s t) (InternalKey_new [66] s' t') = 1"
  by (simp_all add: bytewise_ik.icmp_users bytewise_compare Slice_compare_def)

lemma split_levels_ok:
  "\<forall>l < kNumLevels. level_files_ok BytewiseComparator (\<lambda>_. True) split_heap l (v_files split_version ! l)"
proof -
  have "Compare (InternalKeyComparator BytewiseComparator) (largest (fmd split_heap 1)) (smallest (fmd split_heap 2)) < 0"
    using bytewise_ik.icmp_new_less_iff [of 5 3 "[67]" kTypeDeletion "[67]" kTypeValue]
    by (simp add: split_fmd split_keys kMaxSequenceNumber_def bytewise_compare Slice_compare_def del: One_nat_def)
  then have "level_files_ok BytewiseComparator (\<lambda>_. True) split_heap 2 [1, 2]"
    using split_file_ok by (simp add: level_files_ok_def level_ok_def)
  moreover have "level_files_ok BytewiseComparator (\<lambda>_. True) split_heap 1 [0]"
    using split_file_ok by (simp add: level_files_ok_def level_ok_def)
  moreover have "level_files_ok BytewiseComparator (\<lambda>_. True) split_heap l []" for l
    by (simp add: level_files_ok_def level_ok_def)
  ultimately show ?thesis by (auto simp: split_version_def kNumLevels_def less_Suc_eq numeral_eq_Suc)
qed

lemma split_recommendation: "recommendation_ok split_version"
  by (simp add: recommendation_ok_def recommended_def split_version_def Version_new_def kNumLevels_def)

theorem compaction_inputs_witness:
  "\<exists>cmp vs. PickCompaction split_versions = Some (Some cmp, vs) \<and> inputs0 cmp \<noteq> []"
proof -
  have "NeedsCompaction split_versions"
    unfolding NeedsCompaction_def split_current option.sel by (simp add: split_version_def Let_def)
  then show ?thesis
    using compaction_inputs [OF bytewise_ik.internal_keys_axioms split_current(2,1)] split_levels_ok split_recommendation
    unfolding split_current by (auto simp: compaction_inputs_ok_def split: option.splits)
qed

lemma split_pick:
  "\<exists>cmp vs. PickCompaction split_versions = Some (Some cmp, vs) \<and> c_level cmp = 1 \<and> inputs1 cmp = [1] \<and>
     vs_file_heap vs = split_heap \<and> vs_ucmp vs = BytewiseComparator \<and> v_files (version vs 0) = v_files split_version \<and>
     input_version cmp = Some 0 \<and> level_ptrs cmp = replicate kNumLevels 0"
proof -
  let ?B = BytewiseComparator
  note ok = split_file_ok [of 0] split_file_ok [of 1] split_file_ok [of 2]
  note keys = split_fmd split_keys split_compare
  have user: "smallest_user_key split_heap 0 = [65]" "largest_user_key split_heap 0 = [66]"
    "smallest_user_key split_heap 1 = [66]" "largest_user_key split_heap 1 = [67]"
    "smallest_user_key split_heap 2 = [67]" "largest_user_key split_heap 2 = [68]"
    by (simp_all add: smallest_user_key_def largest_user_key_def keys del: One_nat_def)
  have files: "v_files split_version ! 0 = []" "v_files split_version ! 1 = [0]" "v_files split_version ! 2 = [1, 2]" "v_files split_version ! 3 = []"
    by (simp_all add: split_version_def)
  let ?s = "InternalKey_new [65] 8 kTypeValue" and ?l = "InternalKey_new [66] 7 kTypeValue" and ?L = "InternalKey_new [67] 5 kTypeDeletion"
  have largest0: "FindLargestKey ?B split_heap [0] = Some ?l" by (simp add: FindLargestKey_def keys)
  have "FindSmallestBoundaryFile ?B split_heap [0] ?l = None"
    by (simp add: FindSmallestBoundaryFile_def boundary_step_def keys)
  then have boundary: "AddBoundaryInputs ?B split_heap [0] [0] = Some [0]"
    by (simp add: AddBoundaryInputs_def largest0) (subst AddBoundaryInputs_loop.simps, simp)
  have ivalid: "valid_ikey (\<lambda>_. True) ?s" "valid_ikey (\<lambda>_. True) ?l" "valid_ikey (\<lambda>_. True) ?L"
    by (simp_all add: valid_ikey_def)
  have over: "GetOverlappingInputs ?B split_heap (v_files split_version) level (Some lo) (Some hi) =
      Some (filter (overlaps_range ?B split_heap (Some (ExtractUserKey lo)) (Some (ExtractUserKey hi))) (v_files split_version ! level))"
    if "0 < level" "level < kNumLevels" "valid_ikey (\<lambda>_. True) lo" "valid_ikey (\<lambda>_. True) hi" for level lo hi
    using bytewise_ik.GetOverlappingInputs_other [of "v_files split_version" level split_heap "Some lo" "Some hi"] that split_levels_ok
    by (simp add: level_files_ok_def)
  note ov = overlaps_range_def AfterFile_def BeforeFile_def user bytewise_compare Slice_compare_def
  have level2: "GetOverlappingInputs ?B split_heap (v_files split_version) 2 (Some ?s) (Some ?l) = Some [1]"
    by (subst over) (simp_all add: files ov ivalid kNumLevels_def del: One_nat_def)
  have level1: "GetOverlappingInputs ?B split_heap (v_files split_version) 1 (Some ?s) (Some ?L) = Some [0]"
    by (subst over) (simp_all add: files ov ivalid kNumLevels_def del: One_nat_def)
  have level3: "GetOverlappingInputs ?B split_heap (v_files split_version) 3 (Some ?s) (Some ?L) = Some []"
    by (subst over) (simp_all add: files ivalid kNumLevels_def)
  have range: "GetRange ?B split_heap [0] = (?s, ?l)" "GetRange2 ?B split_heap [0] [1] = (?s, ?L)"
    by (simp_all add: GetRange2_def GetRange_def keys del: One_nat_def)
  let ?vs = "Version_Ref 0 split_versions"
  let ?cmp = "(Compaction_new Options_new 1)\<lparr>inputs0 := [0], input_version := Some 0\<rparr>"
  have vs: "vs_ucmp ?vs = ?B" "vs_file_heap ?vs = split_heap" "vs_current ?vs = Some 0" "v_files (version ?vs 0) = v_files split_version"
    by (simp_all add: Version_Ref_frame split_current)
  have vs2: "version (?vs\<lparr>vs_compact_pointer := cps\<rparr>) 0 = version ?vs 0" for cps by (simp add: version_def)
  have expand: "expand_inputs ?B options split_heap (v_files split_version) 1 [0] [1] ?l ?s ?L = Some ([0], [1], ?l, ?s, ?L)" for options
    using level1 boundary by (simp add: expand_inputs_def files Let_def del: One_nat_def)
  obtain cmp vs' where S: "SetupOtherInputs ?cmp ?vs = Some (cmp, vs')" "c_level cmp = 1" "inputs1 cmp = [1]" "vs_file_heap vs' = split_heap"
    "vs_ucmp vs' = ?B" "v_files (version vs' 0) = v_files split_version" "input_version cmp = Some 0" "level_ptrs cmp = replicate kNumLevels 0"
    using boundary range level2 level3 expand
    by (simp add: SetupOtherInputs_def vs vs2 Compaction_new_def files Let_def kNumLevels_def del: One_nat_def)
  have pick: "PickCompaction split_versions = Some (Some cmp, vs')"
    using S(1) unfolding PickCompaction_def finish_pick_def split_current Let_def option.sel
    by (simp add: split_version_def Version_new_def Compaction_new_def)
  then show ?thesis using S by blast
qed

lemma split_base_level:
  assumes "c_level cmp = 1" "vs_file_heap vs = split_heap" "vs_ucmp vs = BytewiseComparator"
    and "v_files (version vs 0) = v_files split_version" "input_version cmp = Some 0"
  shows "fst (IsBaseLevelForKey vs [67] cmp)"
proof -
  have empty: "v_files split_version ! l = []" if "l \<in> {3, 4, 5, 6}" for l using that by (auto simp: split_version_def)
  have "fst (base_levels BytewiseComparator split_heap (v_files split_version) u lvls ptrs)" if "set lvls \<subseteq> {3, 4, 5, 6}" for u lvls ptrs
    using that
  proof (induction lvls arbitrary: ptrs)
    case (Cons l lvls)
    then have "base_level_scan BytewiseComparator split_heap (v_files split_version ! l) u p = (p, False)" for p
      using empty [of l] by (subst base_level_scan.simps) simp
    then show ?case using Cons by simp
  qed simp
  moreover have "set [c_level cmp + 2..<kNumLevels] \<subseteq> {3, 4, 5, 6}" by (auto simp: assms kNumLevels_def)
  ultimately have base: "fst (base_levels BytewiseComparator split_heap (v_files split_version) [67] [c_level cmp + 2..<kNumLevels] (level_ptrs cmp))"
    by blast
  show ?thesis
    using base unfolding IsBaseLevelForKey_def assms(2-5) option.sel
    by (cases "base_levels BytewiseComparator split_heap (v_files split_version) [67] [c_level cmp + 2..<kNumLevels] (level_ptrs cmp)") simp
qed

text \<open>
  C19: the inputs of the next level are not closed in that sense. In this well-formed version
  the compaction takes the file of level 2 that ends with a deletion of the key 67, but not the
  following file that begins with an older value of this key, and \<open>IsBaseLevelForKey\<close> still
  answers that nothing older of the key is left, so that the deletion is dropped and the old
  value becomes visible again.
\<close>

theorem compaction_splits_key:
  "list_all (\<lambda>l. level_files_ok BytewiseComparator (\<lambda>_. True) (vs_file_heap split_versions) l (v_files (version split_versions 0) ! l)) [0..<kNumLevels] \<and>
   recommendation_ok (version split_versions 0) \<and>
   (\<exists>cmp vs. PickCompaction split_versions = Some (Some cmp, vs) \<and> c_level cmp = 1 \<and> inputs1 cmp = [1] \<and>
     2 \<in> set (v_files (version split_versions 0) ! 2) \<and>
     largest (fmd (vs_file_heap vs) 1) = InternalKey_new [67] 5 kTypeDeletion \<and>
     smallest (fmd (vs_file_heap vs) 2) = InternalKey_new [67] 3 kTypeValue \<and>
     fst (IsBaseLevelForKey vs [67] cmp))"
proof -
  obtain cmp vs where c: "PickCompaction split_versions = Some (Some cmp, vs)" "c_level cmp = 1" "inputs1 cmp = [1]"
    "vs_file_heap vs = split_heap" "vs_ucmp vs = BytewiseComparator" "v_files (version vs 0) = v_files split_version"
    "input_version cmp = Some 0"
    using split_pick by blast
  have "2 \<in> set (v_files split_version ! 2)" by (simp add: split_version_def)
  then show ?thesis
    using c split_base_level [OF c(2,4-7)] split_levels_ok split_recommendation
    unfolding split_current by (auto simp: list_all_iff split_fmd split_keys simp del: One_nat_def)
qed

text \<open>
  C21: \<open>CompactRange\<close> on any range of keys returns a compaction with closed inputs, or none
  when no file of the level overlaps the range.
\<close>

theorem manual_compaction:
  assumes "internal_keys c valid" "vs_ucmp vs = c" "vs_current vs = Some cur" "level + 1 < kNumLevels"
    and "\<forall>l < kNumLevels. level_files_ok c valid (vs_file_heap vs) l (v_files (version vs cur) ! l)"
    and "\<forall>k. b = Some k \<longrightarrow> valid_ikey valid k" "\<forall>k. e = Some k \<longrightarrow> valid_ikey valid k"
  shows "\<exists>res vs'. CompactRange level b e vs = Some (res, vs') \<and>
    (case res of
       None \<Rightarrow> \<forall>f \<in> set (v_files (version vs cur) ! level).
         \<not> overlaps_range c (vs_file_heap vs) (map_option ExtractUserKey b) (map_option ExtractUserKey e) f
     | Some cmp \<Rightarrow> c_level cmp = level \<and> input_version cmp = Some cur \<and>
         compaction_inputs_ok c (vs_file_heap vs) (v_files (version vs cur)) cmp)"
  using internal_keys.CompactRange_ok [OF assms(1-3) HOL.refl assms(5,4), of b e] assms(6,7) by blast

theorem manual_compaction_witness:
  "\<exists>cmp vs. CompactRange 2 None None split_versions = Some (Some cmp, vs) \<and> inputs0 cmp \<noteq> []"
proof -
  have "1 \<in> set (v_files split_version ! 2)" by (simp add: split_version_def)
  moreover have "overlaps_range BytewiseComparator split_heap None None 1"
    by (simp add: overlaps_range_def AfterFile_def BeforeFile_def)
  ultimately show ?thesis
    using manual_compaction [OF bytewise_ik.internal_keys_axioms split_current(2,1), of 2 None None] split_levels_ok
    unfolding split_current by (fastforce simp: compaction_inputs_ok_def kNumLevels_def split: option.splits)
qed

text \<open>
  C20: asked for keys in ascending order, \<open>IsBaseLevelForKey\<close> answers each time whether no file
  below the output level has the key in its range, although it never goes back in a level.
\<close>

theorem base_level_keys:
  assumes "internal_keys c valid" "vs_ucmp vs = c" "input_version cmp = Some v" "level_ptrs cmp = replicate kNumLevels 0"
    and "\<forall>l \<in> {c_level cmp + 2..<kNumLevels}. level_ok c valid (vs_file_heap vs) (v_files (version vs v) ! l)"
    and "\<forall>k \<in> set ks. valid k" "sorted_wrt (\<lambda>k k'. Compare c k k' \<le> 0) ks"
  shows "base_level_run vs ks cmp = map (\<lambda>k. \<forall>l \<in> {c_level cmp + 2..<kNumLevels}. \<forall>f \<in> set (v_files (version vs v) ! l).
      \<not> (Compare c (smallest_user_key (vs_file_heap vs) f) k \<le> 0 \<and> Compare c k (largest_user_key (vs_file_heap vs) f) \<le> 0)) ks"
  using internal_keys.base_level_run_ok [OF assms(1,2), of "v_files (version vs v)" cmp ks] assms(3-7)
  by (simp add: internal_keys.no_file_with_def [OF assms(1), abs_def] internal_keys.ptr_ok_def [OF assms(1)])

theorem base_level_keys_witness:
  "base_level_run split_versions [[64], [66], [66], [70]] ((Compaction_new Options_new 0)\<lparr>input_version := Some 0\<rparr>) =
    [True, False, False, True]"
proof -
  let ?cmp = "(Compaction_new Options_new 0)\<lparr>input_version := Some 0\<rparr>"
  have ok: "\<forall>l \<in> {c_level ?cmp + 2..<kNumLevels}. level_ok BytewiseComparator (\<lambda>_. True) (vs_file_heap split_versions) (v_files (version split_versions 0) ! l)"
    using split_levels_ok unfolding split_current by (simp add: level_files_ok_def Compaction_new_def)
  have files: "(\<forall>l \<in> {2..<kNumLevels}. \<forall>f \<in> set (v_files split_version ! l). P f) \<longleftrightarrow> P 1 \<and> P 2" for P
  proof -
    have "{2..<kNumLevels} = {2, 3, 4, 5, 6}" by (auto simp: kNumLevels_def)
    then show ?thesis by (simp add: split_version_def)
  qed
  have level: "c_level ?cmp + 2 = 2" by (simp add: Compaction_new_def)
  have "base_level_run split_versions [[64], [66], [66], [70]] ?cmp =
      map (\<lambda>k. \<forall>l \<in> {c_level ?cmp + 2..<kNumLevels}. \<forall>f \<in> set (v_files (version split_versions 0) ! l).
        \<not> (Compare BytewiseComparator (smallest_user_key (vs_file_heap split_versions) f) k \<le> 0 \<and>
           Compare BytewiseComparator k (largest_user_key (vs_file_heap split_versions) f) \<le> 0)) [[64], [66], [66], [70]]"
    by (rule base_level_keys [OF bytewise_ik.internal_keys_axioms split_current(2) _ _ ok])
      (simp_all add: Compaction_new_def bytewise_compare Slice_compare_def)
  then show ?thesis
    unfolding level split_current files
    by (simp add: smallest_user_key_def largest_user_key_def split_fmd split_keys bytewise_compare Slice_compare_def del: One_nat_def)
qed

end

