(* ===== verification/Manifest.thy ===== *)
theory Manifest
  imports VersionSteps LogRecovery
begin

section \<open>The manifest: logging edits and recovering them (\<^verbatim>\<open>db/version_set.cc\<close>)\<close>

text \<open>
  A version set logs every edit to its descriptor, a log file of the environment, before it
  installs the version the edit makes; a new descriptor begins with a snapshot, and
  \<^verbatim>\<open>CURRENT\<close> is switched to it last. \<open>Recover\<close> replays the log. The environment's state is
  threaded beside the version set: an object of the environment, like the descriptor file, is
  used together with it.
\<close>

subsection \<open>File numbers\<close>

definition NewFileNumber :: "'w VersionSet \<Rightarrow> u64 \<times> 'w VersionSet" where
  "NewFileNumber vs = (vs_next_file_number vs, vs\<lparr>vs_next_file_number := vs_next_file_number vs + 1\<rparr>)"

definition ReuseFileNumber :: "u64 \<Rightarrow> 'w VersionSet \<Rightarrow> 'w VersionSet" where
  "ReuseFileNumber file_number vs =
     (if vs_next_file_number vs = file_number + 1 then vs\<lparr>vs_next_file_number := file_number\<rparr> else vs)"

definition VersionSet_SetLastSequence :: "u64 \<Rightarrow> 'w VersionSet \<Rightarrow> 'w VersionSet" where
  "VersionSet_SetLastSequence s vs = vs\<lparr>vs_last_sequence := s\<rparr>"

definition MarkFileNumberUsed :: "u64 \<Rightarrow> 'w VersionSet \<Rightarrow> 'w VersionSet" where
  "MarkFileNumberUsed number vs =
     (if vs_next_file_number vs \<le> number then vs\<lparr>vs_next_file_number := number + 1\<rparr> else vs)"

subsection \<open>Writing the descriptor\<close>

definition log_writer_in :: "'e \<Rightarrow> 'w log_Writer \<Rightarrow> ('e \<times> 'w) log_Writer" where
  "log_writer_in env w = \<lparr>dest = (env, dest w), block_offset = block_offset w, type_crc = type_crc w\<rparr>"

definition log_writer_out :: "('e \<times> 'w) log_Writer \<Rightarrow> 'e \<times> 'w log_Writer" where
  "log_writer_out w =
     (fst (dest w), \<lparr>dest = snd (dest w), block_offset = block_offset w, type_crc = type_crc w\<rparr>)"

definition AddRecord_in ::
    "('e, 's, 'w) Env \<Rightarrow> bytes \<Rightarrow> 'e \<Rightarrow> 'w log_Writer \<Rightarrow> Status \<times> 'e \<times> 'w log_Writer" where
  "AddRecord_in E record env w =
     (let (s, w') = AddRecord (env_wr E) record (log_writer_in env w) in (s, log_writer_out w'))"

definition snapshot_edit :: "'w VersionSet \<Rightarrow> VersionEdit" where
  "snapshot_edit vs =
     (let edit = SetComparatorName (ascii (Name (vs_ucmp vs))) VersionEdit_new;
          edit = fold (\<lambda>level edit.
              if vs_compact_pointer vs ! level \<noteq> [] then SetCompactPointer level (vs_compact_pointer vs ! level) edit
              else edit) [0..<kNumLevels] edit;
          files = v_files (version vs (the (vs_current vs)))
      in fold (\<lambda>level edit.
           fold (\<lambda>p edit.
             (let f = fmd (vs_file_heap vs) p
              in VersionEdit_AddFile level (fnumber f) (file_size f) (smallest f) (largest f) edit))
             (files ! level) edit) [0..<kNumLevels] edit)"

definition WriteSnapshot ::
    "('e, 's, 'w) Env \<Rightarrow> 'e \<Rightarrow> 'w VersionSet \<Rightarrow> 'w log_Writer \<Rightarrow> Status \<times> 'e \<times> 'w log_Writer" where
  "WriteSnapshot E env vs w = AddRecord_in E (VersionEdit_EncodeTo (snapshot_edit vs) []) env w"

text \<open>
  \<open>LogAndApply\<close>: complete the edit, build the next version, open a new descriptor if there is
  none, log the edit, switch \<^verbatim>\<open>CURRENT\<close> if the descriptor is new, and install the version or undo
  everything. The empty manifest name stands for a descriptor that was open already.
\<close>

definition prepare_edit :: "'w VersionSet \<Rightarrow> VersionEdit \<Rightarrow> VersionEdit" where
  "prepare_edit vs edit =
     (let edit = (if has_log_number edit then edit else SetLogNumber (vs_log_number vs) edit);
          edit = (if has_prev_log_number edit then edit else SetPrevLogNumber (vs_prev_log_number vs) edit)
      in SetLastSequence (vs_last_sequence vs) (SetNextFile (vs_next_file_number vs) edit))"

definition open_descriptor ::
    "('e, 's, 'w) Env \<Rightarrow> 'e \<Rightarrow> 'w VersionSet \<Rightarrow> Status \<times> bytes \<times> 'e \<times> 'w VersionSet" where
  "open_descriptor E env vs =
     (if vs_descriptor_log vs = None then
        (let new_manifest_file = DescriptorFileName (vs_dbname vs) (vs_manifest_file_number vs);
             (s, file, env) = env_NewWritableFile E env new_manifest_file
         in if ok s then
              (let (s, env, w) = WriteSnapshot E env vs (Writer_new (the file))
               in (s, new_manifest_file, env, vs\<lparr>vs_descriptor_log := Some w\<rparr>))
            else (s, new_manifest_file, env, vs))
      else (OK, [], env, vs))"

definition log_edit ::
    "('e, 's, 'w) Env \<Rightarrow> VersionEdit \<Rightarrow> 'e \<Rightarrow> 'w VersionSet \<Rightarrow> Status \<times> 'e \<times> 'w VersionSet" where
  "log_edit E edit env vs =
     (let (s, env, w) = AddRecord_in E (VersionEdit_EncodeTo edit []) env (the (vs_descriptor_log vs));
          (s, env, w) =
            (if ok s then (let (s, env, f) = wf_Sync (env_wr E) (env, dest w) in (s, env, w\<lparr>dest := f\<rparr>))
             else (s, env, w))
      in (s, env, vs\<lparr>vs_descriptor_log := Some w\<rparr>))"

definition close_descriptor :: "('e, 's, 'w) Env \<Rightarrow> 'e \<Rightarrow> 'w VersionSet \<Rightarrow> 'e \<times> 'w VersionSet" where
  "close_descriptor E env vs =
     ((case vs_descriptor_log vs of Some w \<Rightarrow> env_delete_wr E (env, dest w) | None \<Rightarrow> env),
      vs\<lparr>vs_descriptor_log := None\<rparr>)"

definition LogAndApply ::
    "('e, 's, 'w) Env \<Rightarrow> VersionEdit \<Rightarrow> 'e \<Rightarrow> 'w VersionSet \<Rightarrow> Status \<times> VersionEdit \<times> 'e \<times> 'w VersionSet" where
  "LogAndApply E edit env vs =
     (let edit = prepare_edit vs edit;
          (v, vs) = build_version [edit] (the (vs_current vs)) vs;
          vs = Finalize v vs;
          edit = (if vs_descriptor_log vs = None then SetNextFile (vs_next_file_number vs) edit else edit);
          (s, new_manifest_file, env, vs) = open_descriptor E env vs;
          (s, env, vs) = (if ok s then log_edit E edit env vs else (s, env, vs));
          (s, env) =
            (if ok s \<and> new_manifest_file \<noteq> [] then SetCurrentFile E env (vs_dbname vs) (vs_manifest_file_number vs)
             else (s, env))
      in if ok s then
           (s, edit, env, (AppendVersion v vs)
              \<lparr>vs_log_number := ve_log_number edit, vs_prev_log_number := ve_prev_log_number edit\<rparr>)
         else
           (let vs = Version_delete v vs;
                (env, vs) =
                  (if new_manifest_file \<noteq> [] then
                     (let (env, vs) = close_descriptor E env vs
                      in (snd (env_DeleteFile E env new_manifest_file), vs))
                   else (env, vs))
            in (s, edit, env, vs)))"

subsection \<open>Queries\<close>

definition NumLevelFiles :: "'w VersionSet \<Rightarrow> nat \<Rightarrow> nat" where
  "NumLevelFiles vs level = length (v_files (version vs (the (vs_current vs))) ! level)"

definition LevelSummary :: "'w VersionSet \<Rightarrow> bytes" where
  "LevelSummary vs =
     ascii ''files[ '' @ concat (map (\<lambda>level. decimal (NumLevelFiles vs level) @ ascii '' '') [0..<kNumLevels]) @ ascii '']''"

definition NumLevelBytes :: "'w VersionSet \<Rightarrow> nat \<Rightarrow> s64" where
  "NumLevelBytes vs level = TotalFileSize (vs_file_heap vs) (v_files (version vs (the (vs_current vs))) ! level)"

definition AddLiveFiles :: "'w VersionSet \<Rightarrow> u64 list \<Rightarrow> u64 list" where
  "AddLiveFiles vs live =
     fold (\<lambda>p live. fold (\<lambda>level live.
         fold (\<lambda>f live. set_insert (fnumber (fmd (vs_file_heap vs) f)) live) (v_files (version vs p) ! level) live)
       [0..<kNumLevels] live) (vs_versions vs) live"

definition MaxNextLevelOverlappingBytes :: "'w VersionSet \<Rightarrow> s64 option" where
  "MaxNextLevelOverlappingBytes vs =
     (let h = vs_file_heap vs; files = v_files (version vs (the (vs_current vs)))
      in fold (\<lambda>level result. fold (\<lambda>f result.
            Option.bind result (\<lambda>result.
            Option.bind (GetOverlappingInputs (vs_ucmp vs) h files (level + 1) (Some (smallest (fmd h f))) (Some (largest (fmd h f))))
              (\<lambda>overlaps. (let sum = TotalFileSize h overlaps in Some (if sint result < sint sum then sum else result)))))
           (files ! level) result) [1..<kNumLevels - 1] (Some 0))"

text \<open>
  \<open>table_offset\<close> is \<open>Table::ApproximateOffsetOf\<close> through the table cache, for the file of a
  number and a size; a table that cannot be opened adds nothing.
\<close>

fun approximate_level ::
    "(u64 \<Rightarrow> u64 \<Rightarrow> bytes \<Rightarrow> u64 option) \<Rightarrow> Comparator \<Rightarrow> FileHeap \<Rightarrow> nat \<Rightarrow> bytes \<Rightarrow> fptr list \<Rightarrow> u64 \<Rightarrow> u64" where
  "approximate_level table_offset c h level ikey [] result = result"
| "approximate_level table_offset c h level ikey (f # files) result =
     (if Compare (InternalKeyComparator c) (largest (fmd h f)) ikey \<le> 0
      then approximate_level table_offset c h level ikey files (result + file_size (fmd h f))
      else if 0 < Compare (InternalKeyComparator c) (smallest (fmd h f)) ikey
      then (if 0 < level then result else approximate_level table_offset c h level ikey files result)
      else approximate_level table_offset c h level ikey files
        (case table_offset (fnumber (fmd h f)) (file_size (fmd h f)) ikey of
           Some offset \<Rightarrow> result + offset | None \<Rightarrow> result))"

definition VersionSet_ApproximateOffsetOf ::
    "(u64 \<Rightarrow> u64 \<Rightarrow> bytes \<Rightarrow> u64 option) \<Rightarrow> 'w VersionSet \<Rightarrow> vptr \<Rightarrow> bytes \<Rightarrow> u64" where
  "VersionSet_ApproximateOffsetOf table_offset vs v ikey =
     fold (\<lambda>level. approximate_level table_offset (vs_ucmp vs) (vs_file_heap vs) level ikey (v_files (version vs v) ! level))
       [0..<kNumLevels] 0"

subsection \<open>Frames\<close>

text \<open>The operations on versions and builders keep the names, numbers and the descriptor.\<close>

definition meta :: "'w VersionSet \<Rightarrow> _" where
  "meta vs = (vs_dbname vs, vs_options vs, vs_ucmp vs, vs_next_file_number vs, vs_manifest_file_number vs,
     vs_last_sequence vs, vs_log_number vs, vs_prev_log_number vs, vs_descriptor_log vs)"

lemma metaD:
  assumes "meta vs = meta vs'"
  shows "vs_dbname vs = vs_dbname vs'" "vs_options vs = vs_options vs'" "vs_ucmp vs = vs_ucmp vs'"
    "vs_next_file_number vs = vs_next_file_number vs'" "vs_manifest_file_number vs = vs_manifest_file_number vs'"
    "vs_last_sequence vs = vs_last_sequence vs'" "vs_log_number vs = vs_log_number vs'"
    "vs_prev_log_number vs = vs_prev_log_number vs'" "vs_descriptor_log vs = vs_descriptor_log vs'"
  using assms by (simp_all add: meta_def)

definition point :: "VersionEdit \<Rightarrow> bytes list \<Rightarrow> bytes list" where
  "point e cps = fold (\<lambda>p cps. cps[fst p := snd p]) (compact_pointers e) cps"

lemma version_frames [simp]:
  "meta (update_version p f vs) = meta vs" "vs_compact_pointer (update_version p f vs) = vs_compact_pointer vs"
  "meta (Version_delete p vs) = meta vs" "vs_compact_pointer (Version_delete p vs) = vs_compact_pointer vs"
  "meta (vs\<lparr>vs_file_heap := h\<rparr>) = meta vs" "meta (vs\<lparr>vs_current := cur\<rparr>) = meta vs"
  "meta (vs\<lparr>vs_versions := ps\<rparr>) = meta vs" "meta (vs\<lparr>vs_file_next := n\<rparr>) = meta vs"
  "meta (vs\<lparr>vs_compact_pointer := cps\<rparr>) = meta vs"
  "meta (snd (new_version vs)) = meta vs" "vs_compact_pointer (snd (new_version vs)) = vs_compact_pointer vs"
  by (simp_all add: meta_def update_version_def Version_delete_def new_version_def)

lemma ref_frames [simp]:
  "meta (Version_Ref p vs) = meta vs" "vs_compact_pointer (Version_Ref p vs) = vs_compact_pointer vs"
  "meta (Version_Unref p vs) = meta vs" "vs_compact_pointer (Version_Unref p vs) = vs_compact_pointer vs"
  "meta (Finalize p vs) = meta vs" "vs_compact_pointer (Finalize p vs) = vs_compact_pointer vs"
  by (simp_all add: Version_Ref_def Version_Unref_def Let_def Finalize_def split: prod.split)

lemma set_frames [simp]:
  "meta (AppendVersion p vs) = meta vs" "vs_compact_pointer (AppendVersion p vs) = vs_compact_pointer vs"
  "meta (Builder_SaveTo b p vs) = meta vs" "vs_compact_pointer (Builder_SaveTo b p vs) = vs_compact_pointer vs"
  "meta (Builder_delete b vs) = meta vs" "vs_compact_pointer (Builder_delete b vs) = vs_compact_pointer vs"
  "meta (snd (Builder_new p vs)) = meta vs" "vs_compact_pointer (snd (Builder_new p vs)) = vs_compact_pointer vs"
  by (simp_all add: AppendVersion_def Let_def Builder_SaveTo_def Builder_delete_def Builder_new_def
      split: option.split prod.split)

lemma Builder_Apply_meta:
  "meta (snd (Builder_Apply e bv)) = meta (snd bv)" "vs_compact_pointer (snd (Builder_Apply e bv)) = point e (vs_compact_pointer (snd bv))"
proof -
  have p: "meta (fold apply_compact_pointer ps vs) = meta vs"
    "vs_compact_pointer (fold apply_compact_pointer ps vs) = fold (\<lambda>p cps. cps[fst p := snd p]) ps (vs_compact_pointer vs)"
    for ps and vs :: "'w VersionSet"
    by (induction ps arbitrary: vs) (simp_all add: apply_compact_pointer_def)
  have n: "meta (snd (fold apply_new_file ns (b, vs))) = meta vs"
    "vs_compact_pointer (snd (fold apply_new_file ns (b, vs))) = vs_compact_pointer vs" for ns b and vs :: "'w VersionSet"
    by (induction ns arbitrary: b vs) (auto simp: apply_new_file_def Let_def split: prod.split)
  show "meta (snd (Builder_Apply e bv)) = meta (snd bv)"
    "vs_compact_pointer (snd (Builder_Apply e bv)) = point e (vs_compact_pointer (snd bv))"
    by (simp_all add: Builder_Apply_def Let_def n p point_def split: prod.split)
qed

lemma fold_Apply_meta:
  "meta (snd (fold Builder_Apply es bv)) = meta (snd bv)"
  "vs_compact_pointer (snd (fold Builder_Apply es bv)) = fold point es (vs_compact_pointer (snd bv))"
  by (induction es arbitrary: bv) (simp_all add: Builder_Apply_meta)

lemma build_version_meta:
  assumes "build_version edits base vs = (v, vs')"
  shows "meta vs' = meta vs" "vs_compact_pointer vs' = fold point edits (vs_compact_pointer vs)"
proof -
  obtain v1 vs1 b vs2 where e: "new_version vs = (v1, vs1)" "fold Builder_Apply edits (Builder_new base vs1) = (b, vs2)"
    by fastforce
  have "vs' = Builder_delete b (Builder_SaveTo b v1 vs2)" using assms e by (auto simp: build_version_def)
  then show "meta vs' = meta vs" "vs_compact_pointer vs' = fold point edits (vs_compact_pointer vs)"
    using fold_Apply_meta [of edits "Builder_new base vs1"] version_frames(10,11) [of vs] e by simp_all
qed

subsection \<open>Snapshots\<close>

definition snapshot_files :: "FileHeap \<Rightarrow> fptr list list \<Rightarrow> nat list \<Rightarrow> (nat \<times> FileMetaData) list" where
  "snapshot_files h files levels = concat (map (\<lambda>l. map (\<lambda>p.
     (l, FileMetaData_new (fnumber (fmd h p)) (file_size (fmd h p)) (smallest (fmd h p)) (largest (fmd h p)))) (files ! l)) levels)"

lemma snapshot_edit_eq:
  "snapshot_edit vs = VersionEdit_new\<lparr>ve_comparator := ascii (Name (vs_ucmp vs)), has_comparator := True,
     compact_pointers := map (\<lambda>l. (l, vs_compact_pointer vs ! l)) (filter (\<lambda>l. vs_compact_pointer vs ! l \<noteq> []) [0..<kNumLevels]),
     new_files := snapshot_files (vs_file_heap vs) (v_files (version vs (the (vs_current vs)))) [0..<kNumLevels]\<rparr>"
proof -
  have cps: "fold (\<lambda>l edit. if k l \<noteq> [] then SetCompactPointer l (k l) edit else edit) ls e =
      e\<lparr>compact_pointers := compact_pointers e @ map (\<lambda>l. (l, k l)) (filter (\<lambda>l. k l \<noteq> []) ls)\<rparr>" for k ls e
    by (induction ls arbitrary: e) (simp_all add: SetCompactPointer_def)
  have fs: "fold (\<lambda>p. VersionEdit_AddFile l (n p) (sz p) (s p) (t p)) ps e =
      e\<lparr>new_files := new_files e @ map (\<lambda>p. (l, FileMetaData_new (n p) (sz p) (s p) (t p))) ps\<rparr>" for l n sz s t ps e
    by (induction ps arbitrary: e) (simp_all add: VersionEdit_AddFile_def)
  have lv: "fold (\<lambda>l e. e\<lparr>new_files := new_files e @ g l\<rparr>) ls e = e\<lparr>new_files := new_files e @ concat (map g ls)\<rparr>" for g ls e
    by (induction ls arbitrary: e) simp_all
  show ?thesis
    unfolding snapshot_edit_def Let_def cps fs lv snapshot_files_def
    by (simp add: SetComparatorName_def VersionEdit_new_def)
qed

lemma filter_snapshot_files:
  "distinct levels \<Longrightarrow> filter (\<lambda>nf. fst nf = l) (snapshot_files h files levels) =
     (if l \<in> set levels then snapshot_files h files [l] else [])"
  by (induction levels) (auto simp: snapshot_files_def filter_empty_conv)

lemma edit_new_snapshot:
  "edit_new l (snapshot_edit vs) = (if l < kNumLevels
     then map (\<lambda>p. core (fmd (vs_file_heap vs) p)) (v_files (version vs (the (vs_current vs))) ! l) else [])"
proof -
  have "map (\<lambda>nf. core (snd nf)) (snapshot_files h files [l]) = map (\<lambda>p. core (fmd h p)) (files ! l)" for h files
    by (simp add: snapshot_files_def core_def FileMetaData_new_def)
  then show ?thesis by (simp add: edit_new_def snapshot_edit_eq filter_snapshot_files)
qed

lemma apply_snapshot:
  "l < kNumLevels \<Longrightarrow> apply_edit l (snapshot_edit vs) {} =
     level_cores (vs_file_heap vs) (v_files (version vs (the (vs_current vs))) ! l)"
  by (simp add: apply_edit_def edit_new_snapshot level_cores_def)

lemma point_snapshot:
  assumes "length (vs_compact_pointer vs) = kNumLevels"
  shows "point (snapshot_edit vs) (replicate kNumLevels []) = vs_compact_pointer vs"
proof -
  let ?k = "vs_compact_pointer vs"
  have "fold (\<lambda>p cps. cps[fst p := snd p]) (map (\<lambda>l. (l, ?k ! l)) (filter (\<lambda>l. ?k ! l \<noteq> []) [0..<n])) (replicate kNumLevels []) =
      take n ?k @ replicate (kNumLevels - n) []" if "n \<le> kNumLevels" for n
    using that
  proof (induction n)
    case (Suc n)
    then have ih: "fold (\<lambda>p cps. cps[fst p := snd p]) (map (\<lambda>l. (l, ?k ! l)) (filter (\<lambda>l. ?k ! l \<noteq> []) [0..<n])) (replicate kNumLevels []) =
        take n ?k @ replicate (kNumLevels - n) []" by simp
    have r: "replicate (kNumLevels - n) [] = [] # replicate (kNumLevels - Suc n) ([] :: bytes)"
      using Suc.prems by (metis Suc_diff_Suc less_eq_Suc_le replicate_Suc)
    have t: "take (Suc n) ?k = take n ?k @ [?k ! n]" using Suc.prems assms by (simp add: take_Suc_conv_app_nth)
    show ?case using ih Suc.prems assms unfolding r t by (auto simp: list_update_append)
  qed simp
  from this [of kNumLevels] show ?thesis using assms by (simp add: point_def snapshot_edit_eq)
qed

subsection \<open>The descriptor on the in-memory environment\<close>

lemma mem_env_select [simp]:
  "env_NewSequentialFile InMemoryEnv_Env = mem_NewSequentialFile" "env_NewWritableFile InMemoryEnv_Env = mem_NewWritableFile"
  "env_NewAppendableFile InMemoryEnv_Env = mem_NewAppendableFile" "env_DeleteFile InMemoryEnv_Env = mem_DeleteFile"
  "env_GetFileSize InMemoryEnv_Env = mem_GetFileSize" "env_seq InMemoryEnv_Env = mem_seq" "env_wr InMemoryEnv_Env = mem_writable"
  "env_delete_seq InMemoryEnv_Env (env, h) = unref_ptr (sfi_file h) env"
  by (simp_all add: InMemoryEnv_Env_def)

text \<open>The open descriptor writes behind the records \<open>rs\<close> of its file.\<close>

definition descriptor_at :: "InMemoryEnv \<Rightarrow> bytes \<Rightarrow> nat \<Rightarrow> ptr log_Writer \<Rightarrow> bytes list \<Rightarrow> bool" where
  "descriptor_at env f a w rs \<longleftrightarrow> dest w = Some a \<and> map_of (file_map env) f = Some (Some a) \<and> type_crc w = InitTypeCrc \<and>
     file_contents env f = Some (fst (log_image rs 0)) \<and> block_offset w \<le> kBlockSize \<and>
     block_offset w mod kBlockSize = length (fst (log_image rs 0)) mod kBlockSize"

lemma AddRecord_in_ok:
  assumes "env_ok env H" "descriptor_at env f a w rs"
  shows "\<exists>env' w'. AddRecord_in InMemoryEnv_Env r env w = (OK, env', w') \<and> env_ok env' H \<and>
    descriptor_at env' f a w' (rs @ [r]) \<and> (\<forall>g. g \<noteq> f \<longrightarrow> file_contents env' g = file_contents env g)"
proof -
  note d = assms(2) [unfolded descriptor_at_def]
  let ?w = "log_writer_in env w"
  let ?s = "fst (log_image rs 0)" and ?o = "snd (log_image rs 0)"
  have v: "wr_valid H (file_contents env) f a (dest ?w)" "type_crc ?w = InitTypeCrc" "wr_contents f (dest ?w) = ?s"
    using d assms(1) by (auto simp: wr_valid_def wr_contents_def log_writer_in_def)
  obtain s w1 where A: "AddRecord_loop mem_writable True r ?w = (s, w1)" by fastforce
  have w1: "ok s" "wr_contents f (dest w1) = ?s @ fst (image_loop True r (block_offset w))"
    "block_offset w1 = snd (image_loop True r (block_offset w))"
    "wr_valid H (file_contents env) f a (dest w1)" "type_crc w1 = InitTypeCrc"
    using mem_wr.AddRecord_loop_image [OF v(1,2), of True r] A v(3) by (simp_all add: log_writer_in_def)
  have o: "?o \<le> kBlockSize" "?o mod kBlockSize = length ?s mod kBlockSize"
    using log_image_offset [of 0 rs] by simp_all
  have one: "fst (log_image [r] b) = fst (image_loop True r b)" "snd (log_image [r] b) = snd (image_loop True r b)" for b
    by (simp_all add: case_prod_beta Let_def)
  have m: "?o mod kBlockSize = block_offset w mod kBlockSize" using o(2) d by simp
  have "fst (log_image [r] ?o) = fst (log_image [r] (block_offset w))"
    using log_image_mod [OF o(1), of "[r]"] log_image_mod [of "block_offset w" "[r]"] d m by metis
  then have img: "fst (log_image (rs @ [r]) 0) = ?s @ fst (image_loop True r (block_offset w))"
    by (simp add: log_image_append one del: log_image.simps)
  have bo: "block_offset w1 \<le> kBlockSize" "block_offset w1 mod kBlockSize = (block_offset w + length (fst (image_loop True r (block_offset w)))) mod kBlockSize"
    using log_image_offset [of "block_offset w" "[r]"] d w1(3) unfolding one by simp_all
  have "block_offset w1 mod kBlockSize = (length ?s + length (fst (image_loop True r (block_offset w)))) mod kBlockSize"
    unfolding bo(2) by (rule mod_add_cong) (use d in simp_all)
  then have "descriptor_at (fst (dest w1)) f a (snd (log_writer_out w1)) (rs @ [r])"
    using w1 bo(1) unfolding descriptor_at_def img by (auto simp: log_writer_out_def wr_valid_def wr_contents_def)
  moreover have "env_ok (fst (dest w1)) H" "\<forall>g. g \<noteq> f \<longrightarrow> file_contents (fst (dest w1)) g = file_contents env g"
    using w1(4) by (simp_all add: wr_valid_def)
  moreover have "AddRecord_in InMemoryEnv_Env r env w = (OK, fst (dest w1), snd (log_writer_out w1))"
    using A w1(1) by (simp add: AddRecord_in_def InMemoryEnv_Env_def AddRecord_def log_writer_out_def ok_iff_OK)
  ultimately show ?thesis by blast
qed

lemma descriptor_at_new:
  assumes "env_ok env H"
  shows "\<exists>a env'. mem_NewWritableFile env f = (OK, Some (Some a), env') \<and> env_ok env' (add_mset a H) \<and>
    descriptor_at env' f a (Writer_new (Some a)) [] \<and> (\<forall>g. g \<noteq> f \<longrightarrow> file_contents env' g = file_contents env g)"
  using NewWritableFile_ok [OF assms, of f] by (fastforce simp: descriptor_at_def Writer_new_def)

lemma open_descriptor_ok:
  assumes "env_ok env H" "vs_descriptor_log vs = None"
  defines "f \<equiv> DescriptorFileName (vs_dbname vs) (vs_manifest_file_number vs)"
  shows "\<exists>a env' w. open_descriptor InMemoryEnv_Env env vs = (OK, f, env', vs\<lparr>vs_descriptor_log := Some w\<rparr>) \<and>
    env_ok env' (add_mset a H) \<and> descriptor_at env' f a w [VersionEdit_EncodeTo (snapshot_edit vs) []] \<and>
    (\<forall>g. g \<noteq> f \<longrightarrow> file_contents env' g = file_contents env g)"
proof -
  obtain a e1 where e1: "mem_NewWritableFile env f = (OK, Some (Some a), e1)" "env_ok e1 (add_mset a H)"
    "descriptor_at e1 f a (Writer_new (Some a)) []" "\<forall>g. g \<noteq> f \<longrightarrow> file_contents e1 g = file_contents env g"
    using descriptor_at_new [OF assms(1)] by blast
  from AddRecord_in_ok [OF e1(2,3), of "VersionEdit_EncodeTo (snapshot_edit vs) []"] obtain env' w' where w':
    "AddRecord_in InMemoryEnv_Env (VersionEdit_EncodeTo (snapshot_edit vs) []) e1 (Writer_new (Some a)) = (OK, env', w')"
    "env_ok env' (add_mset a H)" "descriptor_at env' f a w' [VersionEdit_EncodeTo (snapshot_edit vs) []]"
    "\<forall>g. g \<noteq> f \<longrightarrow> file_contents env' g = file_contents env g"
    using e1(4) by auto
  then have "open_descriptor InMemoryEnv_Env env vs = (OK, f, env', vs\<lparr>vs_descriptor_log := Some w'\<rparr>)"
    using e1(1) by (simp add: open_descriptor_def assms(2) f_def [symmetric] WriteSnapshot_def Let_def)
  then show ?thesis using w' by blast
qed

lemma log_edit_ok:
  assumes "env_ok env H" "vs_descriptor_log vs = Some w" "descriptor_at env f a w rs"
  shows "\<exists>env' w'. log_edit InMemoryEnv_Env e env vs = (OK, env', vs\<lparr>vs_descriptor_log := Some w'\<rparr>) \<and> env_ok env' H \<and>
    descriptor_at env' f a w' (rs @ [VersionEdit_EncodeTo e []]) \<and> (\<forall>g. g \<noteq> f \<longrightarrow> file_contents env' g = file_contents env g)"
proof -
  from AddRecord_in_ok [OF assms(1,3), of "VersionEdit_EncodeTo e []"] obtain env' w' where w':
    "AddRecord_in InMemoryEnv_Env (VersionEdit_EncodeTo e []) env w = (OK, env', w')" "env_ok env' H"
    "descriptor_at env' f a w' (rs @ [VersionEdit_EncodeTo e []])" "\<forall>g. g \<noteq> f \<longrightarrow> file_contents env' g = file_contents env g"
    by blast
  then show ?thesis by (auto simp: log_edit_def assms(2) mem_env_simps)
qed

lemma descriptor_names:
  "DescriptorFileName dbname n \<noteq> CurrentFileName dbname" "DescriptorFileName dbname n \<noteq> TempFileName dbname m"
  "DescriptorFileName dbname n \<noteq> []"
proof -
  have "is_digit (last (zero_padded 6 (unat n)))"
    using zero_padded_digits [of 6 "unat n"] last_in_set [OF zero_padded_nonempty] by (fastforce simp: list_all_iff)
  moreover have "last (DescriptorFileName dbname n) = last (zero_padded 6 (unat n))" by (simp add: DescriptorFileName_def)
  moreover have "last (TempFileName dbname m) = 0x70" by (simp add: TempFileName_def MakeFileName_def ascii_def)
  ultimately show "DescriptorFileName dbname n \<noteq> TempFileName dbname m" by (auto simp: is_digit_unat)
qed (simp_all add: DescriptorFileName_def CurrentFileName_def ascii_def)

lemma SetCurrent_descriptor:
  assumes "env_ok env H" "descriptor_at env (DescriptorFileName dbname n) a w rs"
  shows "\<exists>env'. SetCurrentFile InMemoryEnv_Env env dbname n = (OK, env') \<and> env_ok env' H \<and>
    descriptor_at env' (DescriptorFileName dbname n) a w rs \<and>
    file_contents env' (CurrentFileName dbname) = Some (ascii ''MANIFEST-'' @ zero_padded 6 (unat n) @ [0x0A])"
proof -
  obtain env' where e: "SetCurrentFile InMemoryEnv_Env env dbname n = (OK, env')" "env_ok env' H"
    "file_contents env' = (file_contents env)
      (CurrentFileName dbname \<mapsto> ascii ''MANIFEST-'' @ zero_padded 6 (unat n) @ [0x0A], TempFileName dbname n := None)"
    using SetCurrentFile_ok [OF assms(1)] by blast
  have "map_of (file_map env') (DescriptorFileName dbname n) = map_of (file_map env) (DescriptorFileName dbname n)"
    using SetCurrentFile_map [OF env_okD(1) [OF assms(1)] descriptor_names(1,2) e(1)] by simp
  then have "descriptor_at env' (DescriptorFileName dbname n) a w rs"
    using assms(2) e(3) descriptor_names(1,2) by (simp add: descriptor_at_def)
  then show ?thesis using e temp_not_current [of dbname n] by auto
qed

subsection \<open>What the manifest says\<close>

text \<open>
  \<open>manifest_ok\<close>: the records of a manifest. The first is a snapshot; every later one was completed by
  \<open>LogAndApply\<close>. No level is given two files with the same number.
\<close>

definition complete_edit :: "VersionEdit \<Rightarrow> bool" where
  "complete_edit e \<longleftrightarrow> has_log_number e \<and> has_prev_log_number e \<and> has_next_file_number e \<and> has_last_sequence e"

definition record_ok :: "Comparator \<Rightarrow> (bytes \<Rightarrow> bool) \<Rightarrow> VersionEdit \<Rightarrow> bool" where
  "record_ok c valid e \<longleftrightarrow> VersionEdit.edit_ok e \<and> VersionBuilder.edit_ok valid e \<and>
     (has_comparator e \<longrightarrow> ve_comparator e = ascii (Name c))"

definition manifest_ok :: "Comparator \<Rightarrow> (bytes \<Rightarrow> bool) \<Rightarrow> VersionEdit list \<Rightarrow> bool" where
  "manifest_ok c valid logged \<longleftrightarrow> 2 \<le> length logged \<and> (\<forall>e \<in> set logged. record_ok c valid e) \<and>
     (\<forall>e \<in> set (tl logged). complete_edit e) \<and> (\<forall>l. distinct (map fst (concat (map (edit_new l) logged))))"

definition manifest_levels :: "VersionEdit list \<Rightarrow> nat \<Rightarrow> file_core set" where
  "manifest_levels logged l = fold (apply_edit l) logged {}"

definition current_files :: "'w VersionSet \<Rightarrow> fptr list list" where
  "current_files vs = v_files (version vs (the (vs_current vs)))"

definition current_levels :: "'w VersionSet \<Rightarrow> nat \<Rightarrow> file_core set" where
  "current_levels vs l = level_cores (vs_file_heap vs) (current_files vs ! l)"

definition keys_short :: "'w VersionSet \<Rightarrow> bool" where
  "keys_short vs \<longleftrightarrow> length (ascii (Name (vs_ucmp vs))) < 2 ^ 32 \<and> (\<forall>k \<in> set (vs_compact_pointer vs). length k < 2 ^ 32) \<and>
     (\<forall>p \<in> set (concat (current_files vs)). length (smallest (fmd (vs_file_heap vs) p)) < 2 ^ 32 \<and>
        length (largest (fmd (vs_file_heap vs) p)) < 2 ^ 32)"

text \<open>
  \<open>manifest_inv\<close>: with no descriptor there is nothing to say; with one, its file holds the records
  \<open>logged\<close>, \<^verbatim>\<open>CURRENT\<close> names it, and the records give the current version and the numbers.
\<close>

definition manifest_inv ::
    "Comparator \<Rightarrow> (bytes \<Rightarrow> bool) \<Rightarrow> nat multiset \<Rightarrow> InMemoryEnv \<Rightarrow> ptr VersionSet \<Rightarrow> VersionEdit list \<Rightarrow> bool" where
  "manifest_inv c valid H env vs logged \<longleftrightarrow> length (vs_compact_pointer vs) = kNumLevels \<and>
     (case vs_descriptor_log vs of
        None \<Rightarrow> logged = [] \<and> env_ok env H \<and> keys_short vs
      | Some w \<Rightarrow> manifest_ok c valid logged \<and>
          (\<exists>a. env_ok env (add_mset a H) \<and>
             descriptor_at env (DescriptorFileName (vs_dbname vs) (vs_manifest_file_number vs)) a w
               (map (\<lambda>e. VersionEdit_EncodeTo e []) logged)) \<and>
          file_contents env (CurrentFileName (vs_dbname vs)) =
            Some (ascii ''MANIFEST-'' @ zero_padded 6 (unat (vs_manifest_file_number vs)) @ [0x0A]) \<and>
          (\<forall>l < kNumLevels. current_levels vs l = manifest_levels logged l) \<and>
          vs_log_number vs = ve_log_number (last logged) \<and> vs_prev_log_number vs = ve_prev_log_number (last logged) \<and>
          vs_compact_pointer vs = fold point logged (replicate kNumLevels []))"

definition loggable :: "Comparator \<Rightarrow> (bytes \<Rightarrow> bool) \<Rightarrow> 'w VersionSet \<Rightarrow> VersionEdit list \<Rightarrow> VersionEdit \<Rightarrow> bool" where
  "loggable c valid vs logged e \<longleftrightarrow> record_ok c valid e \<and> edits_fit valid vs (the (vs_current vs)) [e] \<and>
     (\<forall>l. fst ` set (edit_new l e) \<inter> fst ` set (concat (map (edit_new l) logged)) = {})"

lemma length_point [simp]: "length (point e cps) = length cps"
proof -
  have "length (fold (\<lambda>p cps. cps[fst p := snd p]) ps cps) = length cps" for ps :: "(nat \<times> bytes) list"
    by (induction ps arbitrary: cps) simp_all
  then show ?thesis by (simp add: point_def)
qed

lemma set_point: "set (point e cps) \<subseteq> set cps \<union> snd ` set (compact_pointers e)"
proof -
  have "set (fold (\<lambda>p cps. cps[fst p := snd p]) ps cps) \<subseteq> set cps \<union> snd ` set ps" for ps :: "(nat \<times> bytes) list"
  proof (induction ps arbitrary: cps)
    case (Cons p ps)
    then show ?case using set_update_subset_insert [of cps "fst p" "snd p"] by fastforce
  qed simp
  then show ?thesis by (simp add: point_def)
qed

lemma point_nth: "l < length cps \<Longrightarrow> point e cps ! l = (case map_of (rev (compact_pointers e)) l of Some k \<Rightarrow> k | None \<Rightarrow> cps ! l)"
proof -
  have "l < length cps \<Longrightarrow> fold (\<lambda>p cps. cps[fst p := snd p]) ps cps ! l = (case map_of (rev ps) l of Some k \<Rightarrow> k | None \<Rightarrow> cps ! l)"
    for ps :: "(nat \<times> bytes) list"
    by (induction ps arbitrary: cps) (auto simp: map_add_def nth_list_update split: option.split)
  then show "l < length cps \<Longrightarrow> ?thesis" by (simp add: point_def)
qed

lemma point_twice [simp]: "point e (point e cps) = point e cps"
  by (rule nth_equalityI) (simp_all add: point_nth split: option.split)

lemma prepare_edit_simps [simp]:
  "new_files (prepare_edit vs e) = new_files e" "deleted_files (prepare_edit vs e) = deleted_files e"
  "compact_pointers (prepare_edit vs e) = compact_pointers e" "has_comparator (prepare_edit vs e) = has_comparator e"
  "ve_comparator (prepare_edit vs e) = ve_comparator e" "has_log_number (prepare_edit vs e)" "has_prev_log_number (prepare_edit vs e)"
  "has_next_file_number (prepare_edit vs e)" "has_last_sequence (prepare_edit vs e)"
  "ve_next_file_number (prepare_edit vs e) = vs_next_file_number vs" "ve_last_sequence (prepare_edit vs e) = vs_last_sequence vs"
  "ve_log_number (prepare_edit vs e) = (if has_log_number e then ve_log_number e else vs_log_number vs)"
  "ve_prev_log_number (prepare_edit vs e) = (if has_prev_log_number e then ve_prev_log_number e else vs_prev_log_number vs)"
  by (simp_all add: prepare_edit_def Let_def SetLogNumber_def SetPrevLogNumber_def SetNextFile_def SetLastSequence_def)

lemma prepare_edit_same:
  "edit_new l (prepare_edit vs e) = edit_new l e" "edit_deleted l (prepare_edit vs e) = edit_deleted l e"
  "apply_edit l (prepare_edit vs e) = apply_edit l e" "point (prepare_edit vs e) = point e"
  "edits_fit valid vs' p [prepare_edit vs e] = edits_fit valid vs' p [e]"
  by (auto simp: fun_eq_iff edit_new_def edit_deleted_def apply_edit_def point_def edits_fit_def VersionBuilder.edit_ok_def)

lemma prepare_edit_record: "record_ok c valid e \<Longrightarrow> record_ok c valid (prepare_edit vs e)"
  by (auto simp: record_ok_def VersionEdit.edit_ok_def VersionBuilder.edit_ok_def fields_of_def)

lemma SetNextFile_prepared [simp]: "SetNextFile (vs_next_file_number vs) (prepare_edit vs e) = prepare_edit vs e"
  by (simp add: prepare_edit_def Let_def SetNextFile_def SetLastSequence_def)

text \<open>The snapshot is a well-formed record.\<close>

lemma nth_concat_subset: "l < length xss \<Longrightarrow> set (xss ! l) \<subseteq> set (concat xss)"
  unfolding set_concat using nth_mem [of l xss] by blast

context internal_keys
begin

lemma base_level_distinct: "base_level_ok c valid h files \<Longrightarrow> distinct files"
proof -
  assume b: "base_level_ok c valid h files"
  have "\<not> BySmallestKey c h f f" if "f \<in> set files" for f
  proof -
    have "icmp (smallest (fmd h f)) (smallest (fmd h f)) = 0"
      using b that by (intro ik.refl) (simp add: base_level_ok_def)
    then show ?thesis by (simp add: BySmallestKey_def)
  qed
  moreover have "sorted_wrt (BySmallestKey c h) files" using b by (simp add: base_level_ok_def)
  ultimately show ?thesis by (induction files) auto
qed

lemma snapshot_record_ok:
  assumes inv: "vset_inv c valid vs extra rc pend" and cur: "vs_current vs = Some cur" "cur \<in> dom (vs_version_heap vs)"
    and short: "keys_short vs" "length (vs_compact_pointer vs) = kNumLevels"
  shows "record_ok c valid (snapshot_edit vs)" "distinct (map fst (edit_new l (snapshot_edit vs)))"
    "fst ` set (edit_new l (snapshot_edit vs)) = (if l < kNumLevels then fst ` current_levels vs l else {})"
proof -
  let ?h = "vs_file_heap vs" and ?files = "current_files vs"
  have ok: "length ?files = kNumLevels" "\<forall>fs \<in> set ?files. base_level_ok c valid ?h fs"
    using vset_invD(6) [OF inv cur(2)] cur(1) by (simp_all add: version_levels_ok_def current_files_def)
  have lv: "base_level_ok c valid ?h (?files ! l)" if "l < kNumLevels" for l using ok that by simp
  note s = snapshot_edit_eq [of vs, folded current_files_def]
  have len: "length (smallest (fmd ?h p)) < 4294967296" "length (largest (fmd ?h p)) < 4294967296"
    if "l < kNumLevels" "p \<in> set (?files ! l)" for l p
  proof -
    have "p \<in> set (concat ?files)" using that ok(1) nth_concat_subset [of l ?files] by auto
    then show "length (smallest (fmd ?h p)) < 4294967296" "length (largest (fmd ?h p)) < 4294967296"
      using short(1) by (auto simp: keys_short_def)
  qed
  have "length (ascii (Name (vs_ucmp vs))) < 4294967296" "\<forall>k \<in> set (vs_compact_pointer vs). length k < 4294967296"
    using short(1) by (simp_all add: keys_short_def)
  then have "list_all field_ok (fields_of (snapshot_edit vs))"
    using short(2) len by (auto simp: s fields_of_def list_all_iff snapshot_files_def FileMetaData_new_def VersionEdit_new_def)
  then have "VersionEdit.edit_ok (snapshot_edit vs)"
    by (simp add: VersionEdit.edit_ok_def s VersionEdit_new_def)
  moreover have "VersionBuilder.edit_ok valid (snapshot_edit vs)"
    using lv by (auto simp: VersionBuilder.edit_ok_def s snapshot_files_def FileMetaData_new_def VersionEdit_new_def base_level_ok_def)
  ultimately show "record_ok c valid (snapshot_edit vs)" using vset_invD(1) [OF inv] by (simp add: record_ok_def s)
  have "distinct (map (\<lambda>p. fnumber (fmd ?h p)) (?files ! l))" if "l < kNumLevels" for l
    using base_level_distinct [OF lv [OF that]] lv [OF that] by (simp add: distinct_map base_level_ok_def)
  then show "distinct (map fst (edit_new l (snapshot_edit vs)))"
    by (simp add: edit_new_snapshot core_def comp_def flip: current_files_def)
  show "fst ` set (edit_new l (snapshot_edit vs)) = (if l < kNumLevels then fst ` current_levels vs l else {})"
    by (simp add: edit_new_snapshot current_levels_def level_cores_def flip: current_files_def)
qed

end

subsection \<open>Installing a version\<close>

lemma Version_Unref_shrinks:
  assumes inv: "vset_inv c valid vs extra rc pend" and p: "p \<in> dom (vs_version_heap vs)"
  shows "shrinks (vs_file_heap vs) (vs_file_heap (Version_Unref p vs))"
    "q \<noteq> p \<Longrightarrow> version (Version_Unref p vs) q = version vs q"
proof -
  note d = vset_invD [OF inv]
  have "file_counts (vs_file_heap vs) (mset (concat (v_files (version vs p))) + (version_refs ((vs_version_heap vs)(p := None)) + extra))"
    using d(5) version_refs_remove [OF d(2) version_Some [OF p]] by (simp add: ac_simps)
  from fold_unref_file_counts [OF this] show "shrinks (vs_file_heap vs) (vs_file_heap (Version_Unref p vs))"
    by (simp add: Version_Unref_def Version_delete_def update_version_def version_def Let_def)
  show "q \<noteq> p \<Longrightarrow> version (Version_Unref p vs) q = version vs q"
    by (simp add: Version_Unref_def Version_delete_def update_version_def version_def Let_def)
qed

lemma Version_delete_shrinks:
  assumes inv: "vset_inv c valid vs extra rc pend" and p: "p \<in> dom (vs_version_heap vs)"
  shows "shrinks (vs_file_heap vs) (vs_file_heap (Version_delete p vs))"
    "q \<noteq> p \<Longrightarrow> version (Version_delete p vs) q = version vs q"
proof -
  note d = vset_invD [OF inv]
  have "file_counts (vs_file_heap vs) (mset (concat (v_files (version vs p))) + (version_refs ((vs_version_heap vs)(p := None)) + extra))"
    using d(5) version_refs_remove [OF d(2) version_Some [OF p]] by (simp add: ac_simps)
  from fold_unref_file_counts [OF this] show "shrinks (vs_file_heap vs) (vs_file_heap (Version_delete p vs))"
    by (simp add: Version_delete_def)
qed (simp add: Version_delete_def version_def)

lemma AppendVersion_files:
  assumes inv: "vset_inv c valid vs extra rc pend" and v: "v \<in> pend"
    and cur: "vs_current vs = Some cur" "cur \<in> dom (vs_version_heap vs)" "cur \<notin> pend"
  shows "shrinks (vs_file_heap vs) (vs_file_heap (AppendVersion v vs))"
    "v_files (version (AppendVersion v vs) v) = v_files (version vs v)"
proof -
  have A: "AppendVersion v vs = (let vs = Version_Ref v ((Version_Unref cur vs)\<lparr>vs_current := Some v\<rparr>)
      in vs\<lparr>vs_versions := vs_versions vs @ [v]\<rparr>)" by (simp add: AppendVersion_def cur(1))
  show "shrinks (vs_file_heap vs) (vs_file_heap (AppendVersion v vs))"
    using Version_Unref_shrinks(1) [OF inv cur(2)] by (simp add: A Let_def Version_Ref_frame)
  have "v \<noteq> cur" using v cur(3) by blast
  then show "v_files (version (AppendVersion v vs) v) = v_files (version vs v)"
    using Version_Unref_shrinks(2) [OF inv cur(2), of v] by (simp add: A Let_def version_def Version_Ref_def update_version_def)
qed

lemma level_cores_shrinks:
  assumes "shrinks h h'" "set fs \<subseteq> dom h'"
  shows "level_cores h' fs = level_cores h fs"
  using assms unfolding level_cores_def shrinks_def by (intro image_cong refl) blast

lemma vset_inv_fields:
  assumes "vset_inv c valid vs extra rc pend"
  shows "vset_inv c valid (vs\<lparr>vs_next_file_number := n1, vs_manifest_file_number := n2, vs_last_sequence := n3, vs_log_number := n4,
    vs_prev_log_number := n5, vs_descriptor_log := dlog, vs_compact_pointer := cps\<rparr>) extra rc pend"
  by (rule vset_inv_heap [OF assms]) (use vset_invD [OF assms] in simp_all)

text \<open>The levels of the installed version, and the invariant, when the old current version had the rest of the references.\<close>

lemma install_version:
  assumes inv: "vset_inv c valid vs {#} (live_refs vs handles) {v}" and cur: "vs_current vs = Some cur" "cur \<noteq> v"
    and l: "l < kNumLevels"
  shows "vset_inv c valid (AppendVersion v vs) {#} (live_refs (AppendVersion v vs) handles) {}"
    "vs_current (AppendVersion v vs) = Some v"
    "current_levels (AppendVersion v vs) l = level_cores (vs_file_heap vs) (v_files (version vs v) ! l)"
proof -
  have curd: "cur \<in> dom (vs_version_heap vs)" using referenced_live [OF inv, of cur] cur(1) by simp
  note A = AppendVersion_inv [OF inv _ cur(1) curd, of v, simplified, OF cur(2)]
  have "(live_refs vs handles)(cur := live_refs vs handles cur - 1, v := Suc (live_refs vs handles v)) =
      live_refs (AppendVersion v vs) handles"
    using A(2) cur by (auto simp: live_refs_def fun_eq_iff)
  with A(1) show inv': "vset_inv c valid (AppendVersion v vs) {#} (live_refs (AppendVersion v vs) handles) {}" by simp
  show c': "vs_current (AppendVersion v vs) = Some v" by (rule A(2))
  note F = AppendVersion_files [OF inv _ cur(1) curd, of v, simplified, OF cur(2)]
  have vd: "v \<in> dom (vs_version_heap (AppendVersion v vs))" using referenced_live [OF inv', of v] c' by simp
  have "length (v_files (version (AppendVersion v vs) v)) = kNumLevels"
    using vset_invD(6) [OF inv' vd] by (simp add: version_levels_ok_def)
  then have "set (v_files (version (AppendVersion v vs) v) ! l) \<subseteq> set (concat (v_files (version (AppendVersion v vs) v)))"
    using l by (intro nth_concat_subset) simp
  then have "set (v_files (version vs v) ! l) \<subseteq> dom (vs_file_heap (AppendVersion v vs))"
    using version_file_allocated [OF inv' vd] by (auto simp: F(2))
  then show "current_levels (AppendVersion v vs) l = level_cores (vs_file_heap vs) (v_files (version vs v) ! l)"
    using level_cores_shrinks [OF F(1)] by (simp add: current_levels_def current_files_def c' F(2))
qed

text \<open>The version \<open>LogAndApply\<close> builds, up to its installation.\<close>

context internal_keys
begin

lemma built_version:
  assumes inv: "vset_inv c valid vs {#} (live_refs vs handles) {}" and cur: "vs_current vs = Some cur"
    and fit: "edits_fit valid vs cur [e]" and b: "build_version [e] cur vs = (v, vs1)"
  shows "vset_inv c valid (Finalize v vs1) {#} (live_refs (Finalize v vs1) handles) {v}" "vs_current (Finalize v vs1) = Some cur" "cur \<noteq> v"
    "\<forall>l < kNumLevels. level_cores (vs_file_heap (Finalize v vs1)) (v_files (version (Finalize v vs1) v) ! l) = apply_edit l e (current_levels vs l)"
    "current_files (Finalize v vs1) = current_files vs"
    "\<forall>f \<in> set (concat (current_files vs)). core (fmd (vs_file_heap (Finalize v vs1)) f) = core (fmd (vs_file_heap vs) f)"
    "\<forall>l < kNumLevels. current_levels (Finalize v vs1) l = current_levels vs l"
    "meta (Finalize v vs1) = meta vs" "vs_compact_pointer (Finalize v vs1) = point e (vs_compact_pointer vs)"
proof -
  have curd: "cur \<in> dom (vs_version_heap vs)" using referenced_live [OF inv, of cur] cur by simp
  note B = build_version_inv [OF inv curd _ fit b, simplified]
  show c1: "vs_current (Finalize v vs1) = Some cur" using B(5) cur by (simp add: Finalize_frame)
  then have "live_refs (Finalize v vs1) handles = live_refs vs handles" using cur by (simp add: live_refs_def fun_eq_iff)
  then show "vset_inv c valid (Finalize v vs1) {#} (live_refs (Finalize v vs1) handles) {v}"
    using Finalize_inv [OF B(1)] B(4) by simp
  show "cur \<noteq> v" using B(3) curd by auto
  show "\<forall>l < kNumLevels. level_cores (vs_file_heap (Finalize v vs1)) (v_files (version (Finalize v vs1) v) ! l) = apply_edit l e (current_levels vs l)"
    using B(6) by (simp add: Finalize_frame current_levels_def current_files_def cur)
  have q: "v_files (version vs1 cur) = v_files (version vs cur)"
    "\<forall>f \<in> set (concat (v_files (version vs cur))). core (fmd (vs_file_heap vs1) f) = core (fmd (vs_file_heap vs) f)"
    using build_version_inv(7) [OF inv curd _ fit b] curd by blast+
  show files: "current_files (Finalize v vs1) = current_files vs" by (simp add: current_files_def B(5) cur Finalize_frame q)
  show cores: "\<forall>f \<in> set (concat (current_files vs)). core (fmd (vs_file_heap (Finalize v vs1)) f) = core (fmd (vs_file_heap vs) f)"
    unfolding current_files_def cur option.sel Finalize_frame by (rule q(2))
  have "length (current_files vs) = kNumLevels"
    using vset_invD(6) [OF inv curd] by (simp add: version_levels_ok_def current_files_def cur)
  then have "set (current_files vs ! l) \<subseteq> set (concat (current_files vs))" if "l < kNumLevels" for l
    using that by (intro nth_concat_subset) simp
  then show "\<forall>l < kNumLevels. current_levels (Finalize v vs1) l = current_levels vs l"
    using cores unfolding current_levels_def files level_cores_def by (intro allI impI image_cong HOL.refl) blast
  show "meta (Finalize v vs1) = meta vs" "vs_compact_pointer (Finalize v vs1) = point e (vs_compact_pointer vs)"
    using build_version_meta [OF b] by simp_all
qed

lemma manifest_ok_append:
  assumes ok: "\<forall>e \<in> set logged. record_ok c valid e" "\<forall>e \<in> set (tl logged). complete_edit e" "logged \<noteq> []"
    and d: "\<forall>l. distinct (map fst (concat (map (edit_new l) logged)))" and log: "loggable c valid vs logged e"
  shows "manifest_ok c valid (logged @ [prepare_edit vs e])"
proof -
  have fit: "distinct (map fst (edit_new l e))" "fst ` set (edit_new l e) \<inter> fst ` set (concat (map (edit_new l) logged)) = {}" for l
    using log unfolding loggable_def edits_fit_def by (simp_all)
  have "\<forall>l. distinct (map fst (concat (map (edit_new l) (logged @ [prepare_edit vs e]))))"
  proof
    fix l
    have "concat (map (edit_new l) [prepare_edit vs e]) = edit_new l e" by (simp add: prepare_edit_same)
    moreover have "fst ` set (concat (map (edit_new l) logged)) \<inter> fst ` set (edit_new l e) = {}" using fit(2) [of l] by blast
    ultimately show "distinct (map fst (concat (map (edit_new l) (logged @ [prepare_edit vs e]))))"
      unfolding map_append concat_append distinct_append set_map using d fit(1) [of l] by simp
  qed
  moreover have "record_ok c valid (prepare_edit vs e)" using log by (simp add: loggable_def prepare_edit_record)
  moreover have "complete_edit (prepare_edit vs e)" by (simp add: complete_edit_def)
  moreover have "tl (logged @ [prepare_edit vs e]) = tl logged @ [prepare_edit vs e]" using ok(3) by simp
  ultimately show ?thesis using ok by (cases logged) (auto simp: manifest_ok_def)
qed

text \<open>A descriptor opened by \<open>LogAndApply\<close> begins with a snapshot that fits the edit it will log.\<close>

lemma snapshot_fits:
  assumes inv: "vset_inv c valid vs {#} (live_refs vs handles) {}" and cur: "vs_current vs = Some cur"
    and log: "loggable c valid vs [] e" and short: "keys_short vs" "length (vs_compact_pointer vs) = kNumLevels"
    and b: "build_version [prepare_edit vs e] cur vs = (v, vs1)"
  defines "s \<equiv> snapshot_edit (Finalize v vs1)"
  shows "manifest_ok c valid ([s] @ [prepare_edit vs e])" "\<forall>l < kNumLevels. apply_edit l s {} = current_levels vs l"
    "point s (replicate kNumLevels []) = point e (vs_compact_pointer vs)"
proof -
  have fit: "edits_fit valid vs cur [prepare_edit vs e]" "edits_fit valid vs cur [e]"
    using log cur by (simp_all add: loggable_def prepare_edit_same)
  note V = built_version [OF inv cur fit(1) b]
  let ?vs = "Finalize v vs1"
  have uc: "vs_ucmp ?vs = vs_ucmp vs" by (rule metaD(3) [OF V(8)])
  have cps: "length (vs_compact_pointer ?vs) = kNumLevels" using short(2) unfolding V(9) by simp
  have ok: "VersionEdit.edit_ok e" using log by (simp add: loggable_def record_ok_def)
  have "length k < 2 ^ 32" if p: "(l, k) \<in> set (compact_pointers e)" for l k
  proof -
    have "FCompactPointer l k \<in> set (map (\<lambda>(l, k). FCompactPointer l k) (compact_pointers e))" using p by force
    then have "FCompactPointer l k \<in> set (fields_of e)" by (simp add: fields_of_def)
    then have "field_ok (FCompactPointer l k)" using ok unfolding VersionEdit.edit_ok_def list_all_iff by blast
    then show ?thesis by simp
  qed
  then have "\<forall>k \<in> snd ` set (compact_pointers e). length k < 2 ^ 32" by fastforce
  then have "\<forall>k \<in> set (vs_compact_pointer ?vs). length k < 2 ^ 32"
    using short(1) set_point [of e "vs_compact_pointer vs"] unfolding V(9) prepare_edit_same keys_short_def by blast
  moreover have "smallest (fmd (vs_file_heap ?vs) p) = smallest (fmd (vs_file_heap vs) p)"
    "largest (fmd (vs_file_heap ?vs) p) = largest (fmd (vs_file_heap vs) p)" if "p \<in> set (concat (current_files vs))" for p
    using bspec [OF V(6) that] by (simp_all add: core_def)
  ultimately have "keys_short ?vs" using short(1) unfolding keys_short_def V(5) uc by simp
  have curd: "cur \<in> dom (vs_version_heap ?vs)" using referenced_live [OF V(1), of cur] V(2) by simp
  note S = snapshot_record_ok [OF V(1,2) curd \<open>keys_short ?vs\<close> cps, folded s_def]
  have "fst ` set (edit_new l e) \<inter> fst ` set (edit_new l s) = {}" for l
    using fit(2) V(7) unfolding S(3) by (auto simp: edits_fit_def current_levels_def current_files_def cur)
  moreover have "tl [s] = []" by simp
  ultimately show "manifest_ok c valid ([s] @ [prepare_edit vs e])"
    using S(1,2) log by (intro manifest_ok_append) (simp_all add: loggable_def)
  show "\<forall>l < kNumLevels. apply_edit l s {} = current_levels vs l"
    using V(7) apply_snapshot [of _ ?vs] by (simp add: s_def current_levels_def current_files_def)
  show "point s (replicate kNumLevels []) = point e (vs_compact_pointer vs)"
    using point_snapshot [OF cps] unfolding s_def by (simp only: V(9) prepare_edit_same)
qed

lemma manifest_inv_install:
  assumes inv: "vset_inv c valid vs {#} (live_refs vs handles) {v}" and cur: "vs_current vs = Some cur" "cur \<noteq> v"
    and len: "length (vs_compact_pointer vs) = kNumLevels" and w: "vs_descriptor_log vs = Some w" and ok: "manifest_ok c valid logged"
    and files: "env_ok env (add_mset a H)"
      "descriptor_at env (DescriptorFileName (vs_dbname vs) (vs_manifest_file_number vs)) a w (map (\<lambda>e. VersionEdit_EncodeTo e []) logged)"
      "file_contents env (CurrentFileName (vs_dbname vs)) =
        Some (ascii ''MANIFEST-'' @ zero_padded 6 (unat (vs_manifest_file_number vs)) @ [0x0A])"
    and levels: "\<forall>l < kNumLevels. level_cores (vs_file_heap vs) (v_files (version vs v) ! l) = manifest_levels logged l"
    and cps: "vs_compact_pointer vs = fold point logged (replicate kNumLevels [])"
  defines "vs' \<equiv> (AppendVersion v vs)\<lparr>vs_log_number := ve_log_number (last logged), vs_prev_log_number := ve_prev_log_number (last logged)\<rparr>"
  shows "manifest_inv c valid H env vs' logged" "vset_inv c valid vs' {#} (live_refs vs' handles) {}"
    "\<forall>l < kNumLevels. current_levels vs' l = manifest_levels logged l"
proof -
  have m: "meta (AppendVersion v vs) = meta vs" by simp
  note M = metaD [OF m]
  have lv: "current_levels vs' l = manifest_levels logged l" if l: "l < kNumLevels" for l
  proof -
    have "current_levels vs' l = current_levels (AppendVersion v vs) l"
      by (simp add: vs'_def current_levels_def current_files_def version_def)
    then show ?thesis using install_version(3) [OF inv cur l] levels l by simp
  qed
  then show "\<forall>l < kNumLevels. current_levels vs' l = manifest_levels logged l" by blast
  have sel: "vs_dbname vs' = vs_dbname vs" "vs_manifest_file_number vs' = vs_manifest_file_number vs" "vs_descriptor_log vs' = Some w"
    "vs_log_number vs' = ve_log_number (last logged)" "vs_prev_log_number vs' = ve_prev_log_number (last logged)"
    "vs_compact_pointer vs' = vs_compact_pointer vs"
    using M w by (simp_all add: vs'_def)
  show "manifest_inv c valid H env vs' logged"
    unfolding manifest_inv_def sel option.case using len ok files lv cps by blast
  have l0: "0 < kNumLevels" by (simp add: kNumLevels_def)
  have "live_refs vs' handles = live_refs (AppendVersion v vs) handles" by (simp add: vs'_def live_refs_def fun_eq_iff)
  then show "vset_inv c valid vs' {#} (live_refs vs' handles) {}"
    using vset_inv_heap [OF install_version(1) [OF inv cur l0], of vs'] vset_invD(4,5) [OF install_version(1) [OF inv cur l0]] by (simp add: vs'_def)
qed

end

text \<open>Where \<open>LogAndApply\<close> gets to once the descriptor is open.\<close>

lemma LogAndApply_descriptor:
  assumes b: "build_version [prepare_edit vs e] (the (vs_current vs)) vs = (v, vs1)"
    and o: "open_descriptor InMemoryEnv_Env env (Finalize v vs1) = (OK, name, env1, vs2)"
    and g: "log_edit InMemoryEnv_Env (prepare_edit vs e) env1 vs2 = (OK, env2, vs3)"
    and s: "if name \<noteq> [] then SetCurrentFile InMemoryEnv_Env env2 (vs_dbname vs3) (vs_manifest_file_number vs3) = (OK, env3) else env3 = env2"
    and n: "vs_next_file_number vs1 = vs_next_file_number vs"
  shows "LogAndApply InMemoryEnv_Env e env vs = (OK, prepare_edit vs e, env3, (AppendVersion v vs3)
    \<lparr>vs_log_number := ve_log_number (prepare_edit vs e), vs_prev_log_number := ve_prev_log_number (prepare_edit vs e)\<rparr>)"
proof -
  have n': "vs_next_file_number (Finalize v vs1) = vs_next_file_number vs"
    using metaD(4) [of "Finalize v vs1" vs1] n by simp
  show ?thesis
    using s unfolding LogAndApply_def Let_def b prod.case n' SetNextFile_prepared if_cancel o
    by (simp add: g)
qed

definition logged_and_applied ::
    "Comparator \<Rightarrow> (bytes \<Rightarrow> bool) \<Rightarrow> nat multiset \<Rightarrow> vptr multiset \<Rightarrow> InMemoryEnv \<Rightarrow> ptr VersionSet \<Rightarrow> VersionEdit list \<Rightarrow> VersionEdit \<Rightarrow> bool" where
  "logged_and_applied c valid H handles env vs logged e \<longleftrightarrow>
   (\<exists>env' vs' snapshot. LogAndApply InMemoryEnv_Env e env vs = (OK, prepare_edit vs e, env', vs') \<and>
    vset_inv c valid vs' {#} (live_refs vs' handles) {} \<and> vs_descriptor_log vs' \<noteq> None \<and>
    manifest_inv c valid H env' vs' (snapshot @ logged @ [prepare_edit vs e]) \<and> (snapshot = [] \<longleftrightarrow> vs_descriptor_log vs \<noteq> None) \<and>
    (\<forall>l < kNumLevels. current_levels vs' l = apply_edit l e (current_levels vs l)) \<and>
    vs_dbname vs' = vs_dbname vs \<and> vs_manifest_file_number vs' = vs_manifest_file_number vs)"

lemma vset_inv_descriptor:
  assumes "vset_inv c valid vs extra (live_refs vs handles) pend"
  shows "vset_inv c valid (vs\<lparr>vs_descriptor_log := d\<rparr>) extra (live_refs (vs\<lparr>vs_descriptor_log := d\<rparr>) handles) pend"
proof -
  have "live_refs (vs\<lparr>vs_descriptor_log := d\<rparr>) handles = live_refs vs handles" by (simp add: live_refs_def fun_eq_iff)
  moreover have "vset_inv c valid (vs\<lparr>vs_descriptor_log := d\<rparr>) extra (live_refs vs handles) pend"
    by (rule vset_inv_heap [OF assms]) (use vset_invD [OF assms] in simp_all)
  ultimately show ?thesis by simp
qed

context internal_keys
begin

text \<open>
  The end of \<open>LogAndApply\<close>: \<open>w\<close> is the descriptor's writer once the edit is logged, \<open>snap\<close> the snapshot if
  the descriptor is new.
\<close>

lemma LogAndApply_concluded:
  assumes inv: "vset_inv c valid vs {#} (live_refs vs handles) {}" and cur: "vs_current vs = Some cur"
    and len: "length (vs_compact_pointer vs) = kNumLevels" and log: "loggable c valid vs logged e"
    and b: "build_version [prepare_edit vs e] cur vs = (v, vs1)"
  defines "vs2 \<equiv> Finalize v vs1"
  defines "f \<equiv> DescriptorFileName (vs_dbname vs) (vs_manifest_file_number vs)"
  assumes o: "open_descriptor InMemoryEnv_Env env vs2 = (OK, name, env1, vs2')"
    and g: "log_edit InMemoryEnv_Env (prepare_edit vs e) env1 vs2' = (OK, env2, vs2\<lparr>vs_descriptor_log := Some w\<rparr>)"
    and s: "if name \<noteq> [] then SetCurrentFile InMemoryEnv_Env env2 (vs_dbname vs) (vs_manifest_file_number vs) = (OK, env3) else env3 = env2"
    and ok: "manifest_ok c valid (snap @ logged @ [prepare_edit vs e])" and snap: "snap = [] \<longleftrightarrow> vs_descriptor_log vs \<noteq> None"
    and files: "env_ok env3 (add_mset a H)" "descriptor_at env3 f a w (map (\<lambda>e. VersionEdit_EncodeTo e []) (snap @ logged @ [prepare_edit vs e]))"
      "file_contents env3 (CurrentFileName (vs_dbname vs)) = Some (ascii ''MANIFEST-'' @ zero_padded 6 (unat (vs_manifest_file_number vs)) @ [0x0A])"
    and levels: "\<forall>l < kNumLevels. manifest_levels (snap @ logged) l = current_levels vs l"
    and cps: "fold point (snap @ logged @ [prepare_edit vs e]) (replicate kNumLevels []) = point e (vs_compact_pointer vs)"
  shows "logged_and_applied c valid H handles env vs logged e"
proof -
  let ?e = "prepare_edit vs e"
  have b': "build_version [?e] (the (vs_current vs)) vs = (v, vs1)" using b cur by simp
  have fit: "edits_fit valid vs cur [?e]" using log cur by (simp add: loggable_def prepare_edit_same)
  note V = built_version [OF inv cur fit b, folded vs2_def]
  note M = metaD [OF V(8)]
  let ?vs3 = "vs2\<lparr>vs_descriptor_log := Some w\<rparr>"
  have lv: "\<forall>l < kNumLevels. level_cores (vs_file_heap ?vs3) (v_files (version ?vs3 v) ! l) = manifest_levels (snap @ logged @ [?e]) l"
    using V(4) levels by (simp add: manifest_levels_def version_def prepare_edit_same)
  have D: "vs_current ?vs3 = Some cur" "length (vs_compact_pointer ?vs3) = kNumLevels" "vs_descriptor_log ?vs3 = Some w"
    "descriptor_at env3 (DescriptorFileName (vs_dbname ?vs3) (vs_manifest_file_number ?vs3)) a w (map (\<lambda>e. VersionEdit_EncodeTo e []) (snap @ logged @ [?e]))"
    "file_contents env3 (CurrentFileName (vs_dbname ?vs3)) = Some (ascii ''MANIFEST-'' @ zero_padded 6 (unat (vs_manifest_file_number ?vs3)) @ [0x0A])"
    "vs_compact_pointer ?vs3 = fold point (snap @ logged @ [?e]) (replicate kNumLevels [])"
    using V(2,9) len files cps by (simp_all add: f_def M prepare_edit_same)
  note I = manifest_inv_install [OF vset_inv_descriptor [OF V(1)] D(1) V(3) D(2,3) ok files(1) D(4,5) lv D(6)]
  have L: "LogAndApply InMemoryEnv_Env e env vs = (OK, ?e, env3, (AppendVersion v ?vs3)
      \<lparr>vs_log_number := ve_log_number ?e, vs_prev_log_number := ve_prev_log_number ?e\<rparr>)"
    by (rule LogAndApply_descriptor [OF b' o [unfolded vs2_def] g]) (use s M metaD(4) [of vs2 vs1] in \<open>simp_all add: vs2_def\<close>)
  let ?vs' = "(AppendVersion v ?vs3)\<lparr>vs_log_number := ve_log_number ?e, vs_prev_log_number := ve_prev_log_number ?e\<rparr>"
  have e: "last (snap @ logged @ [?e]) = ?e" by simp
  have A: "meta (AppendVersion v ?vs3) = meta ?vs3" by simp
  have "vs_descriptor_log ?vs' \<noteq> None \<and> vs_dbname ?vs' = vs_dbname vs \<and> vs_manifest_file_number ?vs' = vs_manifest_file_number vs"
    using metaD(1,5,9) [OF A] M(1,5) by simp
  moreover have "\<forall>l < kNumLevels. current_levels ?vs' l = apply_edit l e (current_levels vs l)"
    using I(3) levels unfolding e by (simp add: manifest_levels_def prepare_edit_same)
  ultimately show ?thesis using L I(1,2) snap unfolding e logged_and_applied_def by blast
qed

lemma LogAndApply_new_descriptor:
  assumes inv: "vset_inv c valid vs {#} (live_refs vs handles) {}" and cur: "vs_current vs = Some cur"
    and m: "manifest_inv c valid H env vs logged" and log: "loggable c valid vs logged e" and none: "vs_descriptor_log vs = None"
  shows "logged_and_applied c valid H handles env vs logged e"
proof -
  let ?e = "prepare_edit vs e"
  let ?f = "DescriptorFileName (vs_dbname vs) (vs_manifest_file_number vs)"
  obtain v vs1 where b: "build_version [?e] cur vs = (v, vs1)" by fastforce
  have fit: "edits_fit valid vs cur [?e]" using log cur by (simp add: loggable_def prepare_edit_same)
  let ?vs = "Finalize v vs1"
  note M = metaD [OF built_version(8) [OF inv cur fit b]]
  have st: "logged = []" "env_ok env H" "keys_short vs" "length (vs_compact_pointer vs) = kNumLevels"
    using m none by (simp_all add: manifest_inv_def)
  have S: "manifest_ok c valid ([snapshot_edit ?vs] @ logged @ [?e])" "\<forall>l < kNumLevels. manifest_levels ([snapshot_edit ?vs] @ logged) l = current_levels vs l"
    "fold point ([snapshot_edit ?vs] @ logged @ [?e]) (replicate kNumLevels []) = point e (vs_compact_pointer vs)"
    using snapshot_fits [OF inv cur _ st(3,4) b] log by (simp_all add: st(1) manifest_levels_def prepare_edit_same)
  have none': "vs_descriptor_log ?vs = None" using M(9) none by simp
  obtain a env1 w1 where o: "open_descriptor InMemoryEnv_Env env ?vs = (OK, ?f, env1, ?vs\<lparr>vs_descriptor_log := Some w1\<rparr>)"
    "env_ok env1 (add_mset a H)" "descriptor_at env1 ?f a w1 [VersionEdit_EncodeTo (snapshot_edit ?vs) []]"
    using open_descriptor_ok [OF st(2) none'] unfolding M by blast
  have w1: "vs_descriptor_log (?vs\<lparr>vs_descriptor_log := Some w1\<rparr>) = Some w1" by simp
  obtain env2 w2 where g: "log_edit InMemoryEnv_Env ?e env1 (?vs\<lparr>vs_descriptor_log := Some w1\<rparr>) = (OK, env2, ?vs\<lparr>vs_descriptor_log := Some w2\<rparr>)"
    "env_ok env2 (add_mset a H)"
    "descriptor_at env2 ?f a w2 (map (\<lambda>e. VersionEdit_EncodeTo e []) ([snapshot_edit ?vs] @ logged @ [?e]))"
    using log_edit_ok [OF o(2) w1 o(3), of ?e] by (auto simp: st(1))
  obtain env3 where s: "SetCurrentFile InMemoryEnv_Env env2 (vs_dbname vs) (vs_manifest_file_number vs) = (OK, env3)"
    "env_ok env3 (add_mset a H)"
    "descriptor_at env3 ?f a w2 (map (\<lambda>e. VersionEdit_EncodeTo e []) ([snapshot_edit ?vs] @ logged @ [?e]))"
    "file_contents env3 (CurrentFileName (vs_dbname vs)) = Some (ascii ''MANIFEST-'' @ zero_padded 6 (unat (vs_manifest_file_number vs)) @ [0x0A])"
    using SetCurrent_descriptor [OF g(2,3)] by blast
  show ?thesis
    by (rule LogAndApply_concluded [OF inv cur st(4) log b o(1) g(1) _ S(1) _ s(2-4) S(2,3)])
      (use s(1) none descriptor_names(3) in simp_all)
qed

lemma LogAndApply_open_descriptor:
  assumes inv: "vset_inv c valid vs {#} (live_refs vs handles) {}" and cur: "vs_current vs = Some cur"
    and m: "manifest_inv c valid H env vs logged" and log: "loggable c valid vs logged e" and w: "vs_descriptor_log vs = Some w"
  shows "logged_and_applied c valid H handles env vs logged e"
proof -
  let ?e = "prepare_edit vs e"
  define f where "f = DescriptorFileName (vs_dbname vs) (vs_manifest_file_number vs)"
  obtain v vs1 where b: "build_version [?e] cur vs = (v, vs1)" by fastforce
  have fit: "edits_fit valid vs cur [?e]" using log cur by (simp add: loggable_def prepare_edit_same)
  let ?vs = "Finalize v vs1"
  note M = metaD [OF built_version(8) [OF inv cur fit b]]
  have len: "length (vs_compact_pointer vs) = kNumLevels" using m unfolding manifest_inv_def by blast
  have st: "manifest_ok c valid logged" "\<forall>l < kNumLevels. manifest_levels logged l = current_levels vs l"
    "vs_compact_pointer vs = fold point logged (replicate kNumLevels [])"
    "file_contents env (CurrentFileName (vs_dbname vs)) = Some (ascii ''MANIFEST-'' @ zero_padded 6 (unat (vs_manifest_file_number vs)) @ [0x0A])"
    and "\<exists>a. env_ok env (add_mset a H) \<and> descriptor_at env f a w (map (\<lambda>e. VersionEdit_EncodeTo e []) logged)"
    using m w by (simp_all add: manifest_inv_def f_def)
  then obtain a where a: "env_ok env (add_mset a H)" "descriptor_at env f a w (map (\<lambda>e. VersionEdit_EncodeTo e []) logged)" by blast
  have w': "vs_descriptor_log ?vs = Some w" using M(9) w by simp
  obtain env2 w2 where g: "log_edit InMemoryEnv_Env ?e env ?vs = (OK, env2, ?vs\<lparr>vs_descriptor_log := Some w2\<rparr>)" "env_ok env2 (add_mset a H)"
    "descriptor_at env2 f a w2 (map (\<lambda>e. VersionEdit_EncodeTo e []) ([] @ logged @ [?e]))" "\<forall>g. g \<noteq> f \<longrightarrow> file_contents env2 g = file_contents env g"
    using log_edit_ok [OF a(1) w' a(2), of ?e] by auto
  have o: "open_descriptor InMemoryEnv_Env env ?vs = (OK, [], env, ?vs)" using w' by (simp add: open_descriptor_def)
  have "logged \<noteq> []" using st(1) by (auto simp: manifest_ok_def)
  then have ok: "manifest_ok c valid ([] @ logged @ [?e])"
    using manifest_ok_append [of logged vs e] st(1) log by (simp add: manifest_ok_def)
  have cps: "fold point ([] @ logged @ [?e]) (replicate kNumLevels []) = point e (vs_compact_pointer vs)"
    by (simp add: st(3) prepare_edit_same)
  have cf: "file_contents env2 (CurrentFileName (vs_dbname vs)) = Some (ascii ''MANIFEST-'' @ zero_padded 6 (unat (vs_manifest_file_number vs)) @ [0x0A])"
    using g(4) st(4) not_sym [OF descriptor_names(1)] by (simp add: f_def)
  show ?thesis
    by (rule LogAndApply_concluded [OF inv cur len log b o g(1) _ ok _ g(2,3) [unfolded f_def] cf _ cps]) (use st(2) w in simp_all)
qed

end

text \<open>
  C3: on the in-memory environment, an edit that fits the current version is logged and
  installed. The new current version has the files the edit makes of the old one, reference counts are
  exact, and the manifest that \<^verbatim>\<open>CURRENT\<close> names consists of records that give the new current version, the log
  numbers and the compaction pointers: those it had and the completed edit, or, for a new manifest,
  a snapshot and the edit.
\<close>

theorem log_and_apply:
  assumes "internal_keys c valid" "vset_inv c valid vs {#} (live_refs vs handles) {}" "vs_current vs \<noteq> None"
    and "manifest_inv c valid H env vs logged" "loggable c valid vs logged e"
  shows "\<exists>env' vs' snapshot. LogAndApply InMemoryEnv_Env e env vs = (OK, prepare_edit vs e, env', vs') \<and>
    vset_inv c valid vs' {#} (live_refs vs' handles) {} \<and> vs_descriptor_log vs' \<noteq> None \<and>
    manifest_inv c valid H env' vs' (snapshot @ logged @ [prepare_edit vs e]) \<and> (snapshot = [] \<longleftrightarrow> vs_descriptor_log vs \<noteq> None) \<and>
    (\<forall>l < kNumLevels. current_levels vs' l = apply_edit l e (current_levels vs l)) \<and>
    vs_dbname vs' = vs_dbname vs \<and> vs_manifest_file_number vs' = vs_manifest_file_number vs"
  using internal_keys.LogAndApply_new_descriptor [OF assms(1,2) _ assms(4,5)]
    internal_keys.LogAndApply_open_descriptor [OF assms(1,2) _ assms(4,5)] assms(3)
  unfolding logged_and_applied_def by (cases "vs_descriptor_log vs") blast+

text \<open>A new version set satisfies the invariants, and the small edit can be logged in it.\<close>

lemma VersionSet_new_simps [simp]:
  fixes dbname options c
  defines "vs \<equiv> VersionSet_new dbname options c"
  shows "vs_current vs = Some 0" "v_files (version vs 0) = replicate kNumLevels []" "vs_dbname vs = dbname" "vs_options vs = options"
    "vs_ucmp vs = c" "vs_descriptor_log vs = None" "vs_compact_pointer vs = replicate kNumLevels []" "vs_manifest_file_number vs = 0"
  by (simp_all add: vs_def VersionSet_new_def new_version_def AppendVersion_def Let_def Version_Ref_def update_version_def
      version_def Version_new_def)

lemma new_version_set_inv:
  fixes vs :: "'w VersionSet"
  assumes "internal_keys c valid" "vs = VersionSet_new dbname options c"
  shows "vset_inv c valid vs {#} (live_refs vs {#}) {}"
  using internal_keys.vset_reach_inv [OF assms(1) vset_reach.start] assms(2) by blast

lemma new_current_levels: "l < kNumLevels \<Longrightarrow> current_levels (VersionSet_new dbname options c) l = {}"
  by (simp add: current_levels_def current_files_def level_cores_def)

lemma new_manifest_inv:
  assumes "env_ok env H" "length (ascii (Name c)) < 2 ^ 32"
  shows "manifest_inv c valid H env (VersionSet_new dbname options c) []"
  using assms by (auto simp: manifest_inv_def keys_short_def current_files_def)

lemma demo_loggable: "loggable BytewiseComparator (\<lambda>_. True) (VersionSet_new dbname options BytewiseComparator) [] VersionSteps.demo_edit"
proof -
  have "(3 :: u64) \<le> kMaxSequenceNumber" by (simp add: kMaxSequenceNumber_def)
  then have v: "valid_ikey (\<lambda>_. True) (InternalKey_new [65] 3 kTypeValue)" by (auto simp: valid_ikey_def)
  have l: "length (InternalKey_new [k] n t) < 2 ^ 32" for k n t
    by (simp add: InternalKey_new_def AppendInternalKey_def PutFixed64_def)
  note e = VersionSteps.demo_edit_def VersionEdit_AddFile_def VersionEdit_new_def FileMetaData_new_def kNumLevels_def
  have "record_ok BytewiseComparator (\<lambda>_. True) VersionSteps.demo_edit"
    using v l by (simp add: record_ok_def VersionEdit.edit_ok_def VersionBuilder.edit_ok_def e fields_of_def)
  then show ?thesis
    by (auto simp: loggable_def edits_fit_def record_ok_def e edit_new_def level_cores_def)
qed

lemma bytewise_name_short: "length (ascii (Name BytewiseComparator)) < 2 ^ 32"
  by (simp add: BytewiseComparator_def ascii_def)

theorem log_and_apply_witness:
  "\<exists>env vs. LogAndApply InMemoryEnv_Env VersionSteps.demo_edit NewMemEnv (VersionSet_new (ascii ''/db'') Options_new BytewiseComparator) =
      (OK, prepare_edit (VersionSet_new (ascii ''/db'') Options_new BytewiseComparator :: ptr VersionSet) VersionSteps.demo_edit, env, vs) \<and>
    current_levels vs 1 = {(7, 100, InternalKey_new [65] 3 kTypeValue, InternalKey_new [66] 2 kTypeValue)}"
proof -
  have "apply_edit 1 VersionSteps.demo_edit {} = {(7, 100, InternalKey_new [65] 3 kTypeValue, InternalKey_new [66] 2 kTypeValue)}"
    by (simp add: apply_edit_def edit_new_def VersionSteps.demo_edit_def VersionEdit_AddFile_def VersionEdit_new_def
        FileMetaData_new_def core_def)
  note e = this
  have one: "1 < kNumLevels" by (simp add: kNumLevels_def)
  let ?vs = "VersionSet_new (ascii ''/db'') Options_new BytewiseComparator :: ptr VersionSet"
  have "vs_current ?vs \<noteq> None" by simp
  note L = log_and_apply [OF bytewise_ik.internal_keys_axioms new_version_set_inv [OF bytewise_ik.internal_keys_axioms HOL.refl]
      this new_manifest_inv [OF NewMemEnv_ok bytewise_name_short] demo_loggable]
  then obtain env vs where L: "LogAndApply InMemoryEnv_Env VersionSteps.demo_edit NewMemEnv ?vs = (OK, prepare_edit ?vs VersionSteps.demo_edit, env, vs)"
    "\<forall>l < kNumLevels. current_levels vs l = apply_edit l VersionSteps.demo_edit (current_levels ?vs l)"
    by (elim exE conjE) (rule that; assumption)
  from L(2) one have "current_levels vs 1 = apply_edit 1 VersionSteps.demo_edit (current_levels ?vs 1)" by (elim allE [of _ 1]) simp
  then have "current_levels vs 1 = apply_edit 1 VersionSteps.demo_edit {}" by (simp only: new_current_levels [OF one])
  from L(1) trans [OF this e] show ?thesis by (intro exI conjI)
qed

subsection \<open>A failed write of the manifest\<close>

lemma open_descriptor_frame:
  "open_descriptor E env vs = (s, name, env', vs') \<Longrightarrow> (\<exists>d. vs' = vs\<lparr>vs_descriptor_log := d\<rparr>) \<and> (vs_descriptor_log vs = None \<longrightarrow> name \<noteq> [])"
  by (cases "vs_descriptor_log vs")
    (auto simp: open_descriptor_def Let_def descriptor_names(3) split: prod.splits if_splits intro: exI [of _ "None"] exI [of _ "vs_descriptor_log vs"])

lemma log_edit_frame: "log_edit E e env vs = (s, env', vs') \<Longrightarrow> \<exists>d. vs' = vs\<lparr>vs_descriptor_log := d\<rparr>"
  by (auto simp: log_edit_def Let_def split: prod.splits)

lemma LogAndApply_failed:
  assumes L: "LogAndApply E e env vs = (s, e', env', vs')" "\<not> ok s"
    and b: "build_version [prepare_edit vs e] (the (vs_current vs)) vs = (v, vs1)" "vs_descriptor_log (Finalize v vs1) = vs_descriptor_log vs"
  shows "\<exists>d d'. vs' = (Version_delete v ((Finalize v vs1)\<lparr>vs_descriptor_log := d\<rparr>))\<lparr>vs_descriptor_log := d'\<rparr> \<and>
    (vs_descriptor_log vs = None \<longrightarrow> d' = None)"
proof -
  let ?vs = "Finalize v vs1"
  obtain e2 where e2: "(if vs_descriptor_log ?vs = None then SetNextFile (vs_next_file_number ?vs) (prepare_edit vs e) else prepare_edit vs e) = e2" by blast
  obtain s1 name env1 vs2 where o: "open_descriptor E env ?vs = (s1, name, env1, vs2)" by (metis prod_cases4)
  obtain s2 env2 vs3 where g: "(if ok s1 then log_edit E e2 env1 vs2 else (s1, env1, vs2)) = (s2, env2, vs3)" by (metis prod_cases3)
  obtain s3 env3 where c: "(if ok s2 \<and> name \<noteq> [] then SetCurrentFile E env2 (vs_dbname vs3) (vs_manifest_file_number vs3) else (s2, env2)) = (s3, env3)"
    by fastforce
  obtain d2 where d2: "vs2 = ?vs\<lparr>vs_descriptor_log := d2\<rparr>" "vs_descriptor_log vs = None \<longrightarrow> name \<noteq> []"
    using open_descriptor_frame [OF o] b(2) by auto
  obtain d3 where d3: "vs3 = ?vs\<lparr>vs_descriptor_log := d3\<rparr>"
    using g log_edit_frame [of E e2 env1 vs2] d2(1) by (cases "ok s1") auto
  have "\<not> ok s3" "vs' = (if name \<noteq> [] then snd (close_descriptor E env3 (Version_delete v vs3)) else Version_delete v vs3)"
    using L unfolding LogAndApply_def b(1) Let_def prod.case e2 o g c
    by (auto split: if_splits prod.splits)
  moreover have "Version_delete v vs3 = (Version_delete v vs3)\<lparr>vs_descriptor_log := d3\<rparr>"
    by (rule VersionSet.equality) (simp_all add: d3 Version_delete_def)
  ultimately have "vs' = (Version_delete v vs3)\<lparr>vs_descriptor_log := if name \<noteq> [] then None else d3\<rparr>"
    by (simp add: close_descriptor_def split: if_splits)
  then show ?thesis using d2(2) unfolding d3 by (intro exI conjI) auto
qed

text \<open>
  C4: when \<open>LogAndApply\<close> fails, in any environment, the current version, the list
  of versions and all numbers are what they were, reference counts are exact, and a descriptor that was
  not open before is not open now. The compaction pointers of the edit stay applied.
\<close>

theorem log_and_apply_failure:
  assumes "internal_keys c valid" "vset_inv c valid vs {#} (live_refs vs handles) {}" "vs_current vs = Some cur"
    and "edits_fit valid vs cur [e]" "LogAndApply E e env vs = (s, e', env', vs')" "\<not> ok s"
  shows "vset_inv c valid vs' {#} (live_refs vs' handles) {} \<and> vs_current vs' = Some cur \<and> set (vs_versions vs') = set (vs_versions vs) \<and>
    (\<forall>l < kNumLevels. current_levels vs' l = current_levels vs l) \<and>
    meta (vs'\<lparr>vs_descriptor_log := vs_descriptor_log vs\<rparr>) = meta vs \<and> vs_compact_pointer vs' = point e (vs_compact_pointer vs) \<and>
    (vs_descriptor_log vs = None \<longrightarrow> vs_descriptor_log vs' = None)"
proof -
  obtain v vs1 where b: "build_version [prepare_edit vs e] cur vs = (v, vs1)" by fastforce
  have b': "build_version [prepare_edit vs e] (the (vs_current vs)) vs = (v, vs1)" using b assms(3) by simp
  have fit: "edits_fit valid vs cur [prepare_edit vs e]" using assms(4) by (simp add: prepare_edit_same)
  note V = internal_keys.built_version [OF assms(1,2,3) fit b]
  let ?vs = "Finalize v vs1"
  obtain d d' where vs': "vs' = (Version_delete v (?vs\<lparr>vs_descriptor_log := d\<rparr>))\<lparr>vs_descriptor_log := d'\<rparr>" "vs_descriptor_log vs = None \<longrightarrow> d' = None"
    using LogAndApply_failed [OF assms(5,6) b' metaD(9) [OF V(8)]] by (elim exE conjE) (rule that; assumption)
  let ?vs3 = "?vs\<lparr>vs_descriptor_log := d\<rparr>"
  have c': "vs_current vs' = Some cur" using V(2) by (simp add: vs'(1) Version_delete_def)
  have curd: "cur \<in> dom (vs_version_heap vs)" using referenced_live [OF assms(2), of cur] assms(3) by simp
  note B = internal_keys.build_version_inv(2-4) [OF assms(1,2) curd _ fit b, simplified]
  have same: "live_refs (Version_delete v ?vs3) handles = live_refs ?vs3 handles" "live_refs ?vs3 handles = live_refs vs handles"
    using V(2) assms(3) by (simp_all add: live_refs_def Version_delete_def fun_eq_iff)
  have inv3: "vset_inv c valid ?vs3 {#} (live_refs ?vs3 handles) {v}" by (rule vset_inv_descriptor [OF V(1)])
  have "vset_inv c valid (Version_delete v ?vs3) {#} (live_refs ?vs3 handles) {}"
    by (rule Version_delete_inv [OF inv3]) (simp_all add: same(2) B(1))
  then have "vset_inv c valid (Version_delete v ?vs3) {#} (live_refs (Version_delete v ?vs3) handles) {}" by (simp add: same(1))
  then have inv': "vset_inv c valid vs' {#} (live_refs vs' handles) {}" unfolding vs'(1) by (rule vset_inv_descriptor)
  have D: "dom (vs_version_heap ?vs3) = insert v (dom (vs_version_heap vs))" using B(3) by (simp add: Finalize_dom)
  have vd: "v \<in> dom (vs_version_heap ?vs3)" unfolding D by simp
  note S = Version_delete_shrinks [OF inv3 vd]
  have "dom (vs_version_heap vs') = dom (vs_version_heap vs)" using D B(2) by (auto simp: vs'(1) Version_delete_def)
  then have vers: "set (vs_versions vs') = set (vs_versions vs)"
    using vset_invD(11) [OF inv'] vset_invD(11) [OF assms(2)] by simp
  have files: "current_files vs' = current_files ?vs" using S(2) [OF V(3)] c' V(2) by (simp add: current_files_def vs'(1) version_def)
  have "current_levels vs' l = current_levels vs l" if l: "l < kNumLevels" for l
  proof -
    have d': "cur \<in> dom (vs_version_heap vs')" using referenced_live [OF inv', of cur] c' by simp
    then have "length (current_files vs') = kNumLevels"
      using vset_invD(6) [OF inv'] by (simp add: version_levels_ok_def current_files_def c')
    then have "set (current_files vs' ! l) \<subseteq> set (concat (current_files vs'))" using l by (intro nth_concat_subset) simp
    then have "set (current_files vs' ! l) \<subseteq> dom (vs_file_heap vs')"
      using version_file_allocated [OF inv' d'] by (auto simp: current_files_def c')
    moreover have "shrinks (vs_file_heap ?vs) (vs_file_heap vs')" using S(1) by (simp add: vs'(1))
    ultimately have "current_levels vs' l = current_levels ?vs l"
      using level_cores_shrinks by (simp add: current_levels_def files)
    then show ?thesis using V(7) l by simp
  qed
  moreover have "meta (vs'\<lparr>vs_descriptor_log := vs_descriptor_log vs\<rparr>) = meta vs"
  proof -
    have "meta (Version_delete v ?vs3) = meta ?vs3" by simp
    then show ?thesis using V(8) by (simp add: vs'(1) meta_def)
  qed
  moreover have "vs_compact_pointer vs' = point e (vs_compact_pointer vs)"
  proof -
    have "vs_compact_pointer vs' = vs_compact_pointer ?vs" by (simp add: vs'(1) Version_delete_def)
    then show ?thesis unfolding V(9) prepare_edit_same .
  qed
  ultimately show ?thesis using inv' c' vers vs' by simp
qed

text \<open>An environment in which no file can be created, for the instance.\<close>

definition full_env :: "(InMemoryEnv, SequentialFileImpl, ptr) Env" where
  "full_env = InMemoryEnv_Env\<lparr>env_NewWritableFile := (\<lambda>env f. (IOError f (ascii ''No space left on device''), None, env))\<rparr>"

lemma full_env_fails: "\<not> ok (fst (LogAndApply full_env e env (VersionSet_new dbname options c)))"
proof -
  let ?vs = "VersionSet_new dbname options c :: ptr VersionSet"
  obtain v vs1 where b: "build_version [prepare_edit ?vs e] (the (vs_current ?vs)) ?vs = (v, vs1)" by fastforce
  have "vs_descriptor_log (Finalize v vs1) = None"
    using metaD(9) [of "Finalize v vs1" vs1] metaD(9) [OF build_version_meta(1) [OF b]] by simp
  then have "\<exists>f. open_descriptor full_env env (Finalize v vs1) = (IOError f (ascii ''No space left on device''), f, env, Finalize v vs1)"
    by (simp add: open_descriptor_def full_env_def Let_def)
  then show ?thesis unfolding LogAndApply_def b Let_def prod.case by (auto split: prod.splits)
qed

theorem log_and_apply_failure_witness:
  "\<exists>s e env vs. LogAndApply full_env VersionSteps.demo_edit NewMemEnv (VersionSet_new (ascii ''/db'') Options_new BytewiseComparator) =
    (s, e, env, vs) \<and> \<not> ok s \<and> vs_descriptor_log vs = None"
proof -
  let ?vs = "VersionSet_new (ascii ''/db'') Options_new BytewiseComparator :: ptr VersionSet"
  obtain s e env vs where L: "LogAndApply full_env VersionSteps.demo_edit NewMemEnv ?vs = (s, e, env, vs)" by (metis prod_cases4)
  have f: "\<not> ok s" using full_env_fails [of VersionSteps.demo_edit NewMemEnv "ascii ''/db''" Options_new BytewiseComparator] L by simp
  have cur: "vs_current ?vs = Some 0" by simp
  have fit: "edits_fit (\<lambda>_. True) ?vs 0 [VersionSteps.demo_edit]"
  proof -
    have "loggable BytewiseComparator (\<lambda>_. True) ?vs [] VersionSteps.demo_edit" by (rule demo_loggable)
    then show ?thesis by (simp add: loggable_def)
  qed
  from log_and_apply_failure [OF bytewise_ik.internal_keys_axioms new_version_set_inv [OF bytewise_ik.internal_keys_axioms HOL.refl] cur fit L f]
  show ?thesis using L f by auto
qed

end
