(* ===== verification/ManifestRecovery.thy ===== *)
theory ManifestRecovery
  imports Manifest
begin

section \<open>Recovering a version set from its manifest (\<^verbatim>\<open>db/version_set.cc\<close>, \<open>Recover\<close>)\<close>

text \<open>
  \<open>Recover\<close> finds the manifest through \<^verbatim>\<open>CURRENT\<close>, replays its records in a builder, installs the
  version and continues the manifest if the options allow it. It need not return on a file that
  never ends, so its loop is a partial function.
\<close>

subsection \<open>The code\<close>

text \<open>The numbers of the descriptor: \<open>None\<close> for a number no edit has set, with the value 0.\<close>

record Recovered =
  rc_log_number :: "u64 option"
  rc_prev_log_number :: "u64 option"
  rc_next_file :: "u64 option"
  rc_last_sequence :: "u64 option"

definition Recovered_new :: Recovered where
  "Recovered_new = \<lparr>rc_log_number = None, rc_prev_log_number = None, rc_next_file = None, rc_last_sequence = None\<rparr>"

definition number_of :: "u64 option \<Rightarrow> u64" where
  "number_of n = (case n of None \<Rightarrow> 0 | Some n \<Rightarrow> n)"

definition note_numbers :: "VersionEdit \<Rightarrow> Recovered \<Rightarrow> Recovered" where
  "note_numbers edit r =
     (let r = (if has_log_number edit then r\<lparr>rc_log_number := Some (ve_log_number edit)\<rparr> else r);
          r = (if has_prev_log_number edit then r\<lparr>rc_prev_log_number := Some (ve_prev_log_number edit)\<rparr> else r);
          r = (if has_next_file_number edit then r\<lparr>rc_next_file := Some (ve_next_file_number edit)\<rparr> else r)
      in if has_last_sequence edit then r\<lparr>rc_last_sequence := Some (ve_last_sequence edit)\<rparr> else r)"

text \<open>The reporter keeps the first error, unless there is one already.\<close>

definition report_status :: "(nat \<times> Status) list option \<Rightarrow> Status \<Rightarrow> Status" where
  "report_status reports s = fold (\<lambda>r s. if ok s then snd r else s) (the reports) s"

definition replay_record ::
    "bytes \<Rightarrow> (Builder \<times> 'w VersionSet) \<Rightarrow> Recovered \<Rightarrow> Status \<times> (Builder \<times> 'w VersionSet) \<times> Recovered" where
  "replay_record record bv r =
     (let (s, edit) = VersionEdit_DecodeFrom record VersionEdit_new;
          name = ascii (Name (vs_ucmp (snd bv)));
          s = (if ok s \<and> has_comparator edit \<and> ve_comparator edit \<noteq> name
               then InvalidArgument (ve_comparator edit @ ascii '' does not match existing comparator '') name
               else s);
          bv = (if ok s then Builder_Apply edit bv else bv)
      in (s, bv, note_numbers edit r))"

partial_function (option) replay_loop ::
    "'f SequentialFile \<Rightarrow> 'f log_Reader \<Rightarrow> Status \<Rightarrow> (Builder \<times> 'w VersionSet) \<Rightarrow> Recovered \<Rightarrow>
     (Status \<times> 'f log_Reader \<times> (Builder \<times> 'w VersionSet) \<times> Recovered) option" where
  "replay_loop ops reader s bv rc =
     Option.bind (ReadRecord ops (reader\<lparr>lr_reports := Some []\<rparr>)) (\<lambda>(rec, reader).
       (let s = report_status (lr_reports reader) s
        in case rec of
             None \<Rightarrow> Some (s, reader, bv, rc)
           | Some record \<Rightarrow>
               if ok s then (let (s, bv, rc) = replay_record record bv rc in replay_loop ops reader s bv rc)
               else Some (s, reader, bv, rc)))"

definition ReuseManifest ::
    "('e, 's, 'w) Env \<Rightarrow> bytes \<Rightarrow> bytes \<Rightarrow> 'e \<Rightarrow> 'w VersionSet \<Rightarrow> bool \<times> 'e \<times> 'w VersionSet" where
  "ReuseManifest E dscname dscbase env vs =
     (if \<not> reuse_logs (vs_options vs) then (False, env, vs)
      else case ParseFileName dscbase of
        None \<Rightarrow> (False, env, vs)
      | Some (manifest_number, manifest_type) \<Rightarrow>
          (let (s, manifest_size) = env_GetFileSize E env dscname
           in if manifest_type \<noteq> kDescriptorFile \<or> \<not> ok s \<or> unat (TargetFileSize (vs_options vs)) \<le> manifest_size
              then (False, env, vs)
              else
                (let (r, file, env) = env_NewAppendableFile E env dscname
                 in if \<not> ok r then (False, env, vs)
                    else (True, env, vs\<lparr>vs_descriptor_log := Some (Writer_reopen (the file) manifest_size),
                                        vs_manifest_file_number := manifest_number\<rparr>))))"

definition install_recovered ::
    "('e, 's, 'w) Env \<Rightarrow> bytes \<Rightarrow> bytes \<Rightarrow> 'e \<Rightarrow> Builder \<times> 'w VersionSet \<Rightarrow> Recovered \<Rightarrow> bool \<times> 'e \<times> 'w VersionSet" where
  "install_recovered E dscname dscbase env bv rc =
     (let (b, vs) = bv;
          (v, vs) = new_version vs;
          vs = AppendVersion v (Finalize v (Builder_SaveTo b v vs));
          vs = vs\<lparr>vs_manifest_file_number := number_of (rc_next_file rc),
                  vs_next_file_number := number_of (rc_next_file rc) + 1,
                  vs_last_sequence := number_of (rc_last_sequence rc),
                  vs_log_number := number_of (rc_log_number rc),
                  vs_prev_log_number := number_of (rc_prev_log_number rc)\<rparr>;
          (reused, env, vs) = ReuseManifest E dscname dscbase env vs
      in (\<not> reused, env, vs))"

definition check_numbers :: "Recovered \<Rightarrow> Status" where
  "check_numbers rc =
     (if rc_next_file rc = None then Corruption (ascii ''no meta-nextfile entry in descriptor'') []
      else if rc_log_number rc = None then Corruption (ascii ''no meta-lognumber entry in descriptor'') []
      else if rc_last_sequence rc = None then Corruption (ascii ''no last-sequence-number entry in descriptor'') []
      else OK)"

text \<open>
  The part of \<open>Recover\<close> from the builder on; the second component is the value it assigns to
  \<open>*save_manifest\<close>, if it assigns one. The builder ends after the version is installed.
\<close>

definition recover_from ::
    "('e, 's, 'w) Env \<Rightarrow> bytes \<Rightarrow> bytes \<Rightarrow> 's \<Rightarrow> 'e \<Rightarrow> 'w VersionSet \<Rightarrow> (Status \<times> bool \<times> 'e \<times> 'w VersionSet) option" where
  "recover_from E dscname dscbase file env vs =
     map_option (\<lambda>(s, reader, (b, vs), rc).
       (let env = env_delete_seq E (lr_file reader);
            (s, vs) =
              (if ok s then
                 (check_numbers rc,
                  MarkFileNumberUsed (number_of (rc_log_number rc)) (MarkFileNumberUsed (number_of (rc_prev_log_number rc)) vs))
               else (s, vs));
            (save_manifest, env, vs) =
              (if ok s then install_recovered E dscname dscbase env (b, vs) rc else (False, env, vs))
        in (s, save_manifest, env, Builder_delete b vs)))
       (replay_loop (env_seq E) (Reader_new (env, file) (Some []) True 0) OK
         (Builder_new (the (vs_current vs)) vs) Recovered_new)"

definition Recover ::
    "('e, 's, 'w) Env \<Rightarrow> 'e \<Rightarrow> 'w VersionSet \<Rightarrow> (Status \<times> bool \<times> 'e \<times> 'w VersionSet) option" where
  "Recover E env vs =
     Option.bind (ReadFileToString E env (CurrentFileName (vs_dbname vs))) (\<lambda>(s, current, env).
       if \<not> ok s then Some (s, False, env, vs)
       else if current = [] \<or> last current \<noteq> 0x0A
         then Some (Corruption (ascii ''CURRENT file does not end with newline'') [], False, env, vs)
       else
         (let current = butlast current;
              dscname = vs_dbname vs @ ascii ''/'' @ current;
              (s, file, env) = env_NewSequentialFile E env dscname
          in if \<not> ok s then
               Some (if IsNotFound s then Corruption (ascii ''CURRENT points to a non-existent file'') (Status_ToString s) else s,
                     False, env, vs)
             else recover_from E dscname current (the file) env vs))"


subsection \<open>Replaying the records\<close>

lemma replay_record_ok:
  assumes "record_ok c valid e" "vs_ucmp (snd bv) = c"
  shows "replay_record (VersionEdit_EncodeTo e []) bv rc = (OK, Builder_Apply e bv, note_numbers e rc)"
  using assms by (auto simp: replay_record_def record_ok_def Decode_Encode_new Let_def)

lemma Builder_Apply_ucmp: "vs_ucmp (snd (Builder_Apply e bv)) = vs_ucmp (snd bv)"
  by (rule metaD(3) [OF Builder_Apply_meta(1)])

context sequential_file
begin

lemma replay_loop_image:
  assumes "reader_at rest valid r S bo" "lr_reports r = Some []"
    and "S @ q = fst (log_image (map (\<lambda>e. VersionEdit_EncodeTo e []) es) bo)"
    and "\<forall>e \<in> set es. record_ok c v e" "vs_ucmp (snd bv) = c"
  shows "\<exists>k r'. replay_loop ops r OK bv rc =
      Some (OK, r', fold Builder_Apply (take k es) bv, fold note_numbers (take k es) rc) \<and> valid (lr_file r') \<and> k \<le> length es \<and>
    length (fst (log_image (map (\<lambda>e. VersionEdit_EncodeTo e []) (take k es)) bo)) \<le> length S \<and>
    (k < length es \<longrightarrow> length S < length (fst (log_image (map (\<lambda>e. VersionEdit_EncodeTo e []) (take (Suc k) es)) bo)))"
  using assms
proof (induction es arbitrary: r S bo bv rc)
  case Nil
  have v: "valid (lr_file r)" using Nil.prems(1) by (simp add: reader_at_def)
  have same: "r\<lparr>lr_reports := Some []\<rparr> = r" using Nil.prems(2) by (cases r) simp
  obtain r' where r': "ReadRecord ops r = Some (None, r')" "lr_reports r' = lr_reports r"
    using ReadRecord_end [of r bo] Nil.prems(1,3) by auto
  have "replay_loop ops r OK bv rc = Some (OK, r', bv, rc)"
    using Nil.prems(2) r' by (subst replay_loop.simps, subst same) (simp add: report_status_def)
  then show ?case using ReadRecord_valid [OF v r'(1)] by simp
next
  case (Cons e es)
  let ?x = "VersionEdit_EncodeTo e []"
  let ?p = "fst (image_loop True ?x bo)" and ?bo = "snd (image_loop True ?x bo)"
  have v: "valid (lr_file r)" using Cons.prems(1) by (simp add: reader_at_def)
  have same: "r\<lparr>lr_reports := Some []\<rparr> = r" using Cons.prems(2) by (cases r) simp
  have img: "fst (log_image (map (\<lambda>e. VersionEdit_EncodeTo e []) (take (Suc k) (e # es))) bo) =
      ?p @ fst (log_image (map (\<lambda>e. VersionEdit_EncodeTo e []) (take k es)) ?bo)" for k
    by (simp add: case_prod_beta Let_def)
  note R = ReadRecord_image [OF Cons.prems(1) Cons.prems(3) [simplified list.map]]
  show ?case
  proof (cases "length S < length ?p")
    case True
    then obtain r' where r': "ReadRecord ops r = Some (None, r')" "lr_reports r' = lr_reports r" using R by auto
    then have "replay_loop ops r OK bv rc = Some (OK, r', bv, rc)"
      using Cons.prems(2) by (subst replay_loop.simps, subst same) (simp add: report_status_def)
    then show ?thesis using ReadRecord_valid [OF v r'(1)] True img [of 0] by (intro exI [of _ 0]) simp
  next
    case False
    then obtain S1 r1 where r1: "S = ?p @ S1" "S1 @ q = fst (log_image (map (\<lambda>e. VersionEdit_EncodeTo e []) es) ?bo)"
      "ReadRecord ops r = Some (Some ?x, r1)" "reader_at rest valid r1 S1 ?bo" "lr_reports r1 = Some []"
      using R Cons.prems(2) by auto
    have ok: "record_ok c v e" "\<forall>e \<in> set es. record_ok c v e" using Cons.prems(4) by simp_all
    have u: "vs_ucmp (snd (Builder_Apply e bv)) = c" using Cons.prems(5) by (simp add: Builder_Apply_ucmp)
    from Cons.IH [OF r1(4,5,2) ok(2) u, of "note_numbers e rc"] obtain k r' where k:
      "replay_loop ops r1 OK (Builder_Apply e bv) (note_numbers e rc) =
         Some (OK, r', fold Builder_Apply (take k es) (Builder_Apply e bv), fold note_numbers (take k es) (note_numbers e rc))"
      "valid (lr_file r')" "k \<le> length es"
      "length (fst (log_image (map (\<lambda>e. VersionEdit_EncodeTo e []) (take k es)) ?bo)) \<le> length S1"
      "k < length es \<longrightarrow> length S1 < length (fst (log_image (map (\<lambda>e. VersionEdit_EncodeTo e []) (take (Suc k) es)) ?bo))" by blast
    have "replay_loop ops r OK bv rc = replay_loop ops r1 OK (Builder_Apply e bv) (note_numbers e rc)"
      using r1(3,5) replay_record_ok [OF ok(1) Cons.prems(5), of rc]
      by (subst replay_loop.simps, subst same) (simp add: report_status_def)
    then show ?thesis using k r1(1) img [of k] img [of "Suc k"]
      by (intro exI [of _ "Suc k"] exI [of _ r']) simp
  qed
qed

end

subsection \<open>Installing the recovered version\<close>

lemma MarkFileNumberUsed_eq: "\<exists>n. MarkFileNumberUsed m vs = vs\<lparr>vs_next_file_number := n\<rparr>"
proof (cases "vs_next_file_number vs \<le> m")
  case False
  then have "MarkFileNumberUsed m vs = vs\<lparr>vs_next_file_number := vs_next_file_number vs\<rparr>" by (simp add: MarkFileNumberUsed_def)
  then show ?thesis by blast
qed (auto simp: MarkFileNumberUsed_def)

text \<open>The state after the recovered version is installed and the builder is destroyed.\<close>

definition recovered_state ::
    "Builder \<Rightarrow> u64 \<Rightarrow> ('w VersionSet \<Rightarrow> 'w VersionSet) \<Rightarrow> 'w VersionSet \<Rightarrow> 'w VersionSet" where
  "recovered_state b n g vs =
     (let (v, vs) = new_version (vs\<lparr>vs_next_file_number := n\<rparr>)
      in Builder_delete b (g (AppendVersion v (Finalize v (Builder_SaveTo b v vs)))))"

context internal_keys
begin

lemma builder_installed:
  assumes inv: "vset_inv c valid vs {#} (live_refs vs handles) {}" and cur: "vs_current vs = Some cur"
    and fit: "edits_fit valid vs cur es" and B: "fold Builder_Apply es (Builder_new cur vs) = (b, vs1)"
    and n: "new_version (vs1\<lparr>vs_next_file_number := m\<rparr>) = (v, vs2)"
  defines "rc \<equiv> live_refs vs handles" and "vs5 \<equiv> AppendVersion v (Finalize v (Builder_SaveTo b v vs2))"
  shows "vset_inv c valid vs5 (mset (concat (bd_added b))) (rc(v := rc v + 1)) {}" "vs_current vs5 = Some v" "bd_base b = cur"
    "v \<noteq> cur" "rc v = 0"
    "\<forall>l < kNumLevels. \<forall>h. shrinks (vs_file_heap vs5) h \<longrightarrow> set (v_files (version vs5 v) ! l) \<subseteq> dom h \<longrightarrow>
       level_cores h (v_files (version vs5 v) ! l) = fold (apply_edit l) es (current_levels vs l)"
proof -
  have curd: "cur \<in> dom (vs_version_heap vs)" using referenced_live [OF inv, of cur] cur by simp
  from builder_applied [OF inv curd fit] B have b: "bd_base b = cur"
    and inv1: "vset_inv c valid vs1 (mset (concat (bd_added b))) (rc(cur := rc cur + 1)) {}"
    and vh: "vs_version_heap vs1 = vs_version_heap (Version_Ref cur vs)" and c1: "vs_current vs1 = Some cur"
    and lev: "\<forall>l < kNumLevels. set (v_files (version vs cur) ! l) \<subseteq> dom (vs_file_heap vs1) \<and> set (bd_added b ! l) \<subseteq> dom (vs_file_heap vs1) \<and>
      level_cores (vs_file_heap vs1) (saved_level c (vs_file_heap vs1) b l (v_files (version vs cur) ! l)) =
        fold (apply_edit l) es (current_levels vs l) \<and>
      base_level_ok c valid (vs_file_heap vs1) (saved_level c (vs_file_heap vs1) b l (v_files (version vs cur) ! l))"
    using cur by (simp_all add: rc_def current_levels_def current_files_def)
  let ?vs1 = "vs1\<lparr>vs_next_file_number := m\<rparr>"
  have inv1': "vset_inv c valid ?vs1 (mset (concat (bd_added b))) (rc(cur := rc cur + 1)) {}"
    by (rule vset_inv_heap [OF inv1]) (use vset_invD [OF inv1] in simp_all)
  note N = new_version_inv [OF inv1' n]
  have vf: "v_files (version vs1 q) = v_files (version vs q)" for q
    using Version_Ref_frame(7) [of cur vs q] by (simp add: version_def vh)
  have curd1: "cur \<in> dom (vs_version_heap ?vs1)" by (simp add: vh Version_Ref_def update_version_def)
  have vc: "v \<noteq> cur" using N(4) curd1 by blast
  then have fc: "v_files (version vs2 cur) = v_files (version vs cur)" using N(6) [of cur] vf by (simp add: version_def)
  have len: "length (v_files (version vs cur)) = kNumLevels"
    using vset_invD(6) [OF inv curd] by (simp add: version_levels_ok_def)
  have new: "v_files (version vs2 v) = replicate kNumLevels []" "file_to_compact (version vs2 v) = None"
    using N(5) by (simp_all add: Version_new_def)
  have h2: "vs_file_heap vs2 = vs_file_heap vs1" using N(8) by simp
  note S = SaveTo_inv [OF N(1,2) new, of "v_files (version vs cur)" b]
  have S: "vset_inv c valid (Builder_SaveTo b v vs2) (mset (concat (bd_added b))) (rc(cur := rc cur + 1)) {v}"
    "\<forall>l < kNumLevels. v_files (version (Builder_SaveTo b v vs2) v) ! l = saved_level c (vs_file_heap vs1) b l (v_files (version vs cur) ! l)"
    "keeps_cores (vs_file_heap vs1) (vs_file_heap (Builder_SaveTo b v vs2))"
    "dom (vs_version_heap (Builder_SaveTo b v vs2)) = dom (vs_version_heap vs2)" "vs_current (Builder_SaveTo b v vs2) = vs_current vs2"
    using S lev unfolding b fc h2 by (simp_all add: len)
  let ?vs4 = "Finalize v (Builder_SaveTo b v vs2)"
  have dom: "v \<in> dom (vs_version_heap (Builder_SaveTo b v vs2))" "cur \<in> dom (vs_version_heap (Builder_SaveTo b v vs2))"
    using S(4) N(2,7) curd1 by simp_all
  have inv4: "vset_inv c valid ?vs4 (mset (concat (bd_added b))) (rc(cur := rc cur + 1)) {v}" by (rule Finalize_inv [OF S(1) dom(1)])
  have c4: "vs_current ?vs4 = Some cur" using S(5) N(9) c1 by (simp add: Finalize_frame)
  have d4: "cur \<in> dom (vs_version_heap ?vs4)" using dom(2) by (simp add: Finalize_dom)
  have vp: "v \<in> {v}" "cur \<notin> {v}" using vc by simp_all
  note A = AppendVersion_inv [OF inv4 vp(1) c4 d4 vp(2)]
  have "((rc(cur := rc cur + 1))(cur := (rc(cur := rc cur + 1)) cur - 1))(v := (rc(cur := rc cur + 1)) v + 1) = rc(v := rc v + 1)"
    using vc by (auto simp: fun_eq_iff)
  then show "vset_inv c valid vs5 (mset (concat (bd_added b))) (rc(v := rc v + 1)) {}" using A(1) by (simp add: vs5_def)
  show "vs_current vs5 = Some v" using A(2) by (simp add: vs5_def)
  show "bd_base b = cur" "v \<noteq> cur" by (rule b, rule vc)
  show "rc v = 0" using N(3) vc by simp
  note F = AppendVersion_files [OF inv4 vp(1) c4 d4 vp(2)]
  show "\<forall>l < kNumLevels. \<forall>h. shrinks (vs_file_heap vs5) h \<longrightarrow> set (v_files (version vs5 v) ! l) \<subseteq> dom h \<longrightarrow>
       level_cores h (v_files (version vs5 v) ! l) = fold (apply_edit l) es (current_levels vs l)"
  proof (intro allI impI)
    fix l h assume l: "l < kNumLevels" and sh: "shrinks (vs_file_heap vs5) h" and sub: "set (v_files (version vs5 v) ! l) \<subseteq> dom h"
    let ?fs = "saved_level c (vs_file_heap vs1) b l (v_files (version vs cur) ! l)"
    have fs: "v_files (version vs5 v) ! l = ?fs" using F(2) S(2) l by (simp add: vs5_def Finalize_frame)
    have "shrinks (vs_file_heap (Builder_SaveTo b v vs2)) h"
      using shrinks_trans [OF F(1) sh [unfolded vs5_def]] by (simp add: Finalize_frame)
    then have "level_cores h ?fs = level_cores (vs_file_heap (Builder_SaveTo b v vs2)) ?fs"
      using level_cores_shrinks sub unfolding fs by blast
    also have "\<dots> = level_cores (vs_file_heap vs1) ?fs"
      using level_cores_cong [OF S(3)] lev l by (simp add: base_level_ok_def)
    finally show "level_cores h (v_files (version vs5 v) ! l) = fold (apply_edit l) es (current_levels vs l)"
      using lev l by (simp add: fs)
  qed
qed

lemma recovered_state_inv:
  fixes m :: u64
  assumes inv: "vset_inv c valid vs {#} (live_refs vs handles) {}" and cur: "vs_current vs = Some cur"
    and fit: "edits_fit valid vs cur es" and B: "fold Builder_Apply es (Builder_new cur vs) = (b, vs1)"
    and g: "\<And>vs. \<exists>n1 n2 n3 n4 n5 d. g vs = vs\<lparr>vs_next_file_number := n1, vs_manifest_file_number := n2, vs_last_sequence := n3, vs_log_number := n4,
      vs_prev_log_number := n5, vs_descriptor_log := d\<rparr>"
  defines "vs' \<equiv> recovered_state b m g vs1"
  shows "vset_inv c valid vs' {#} (live_refs vs' handles) {}" "vs_current vs' \<noteq> None"
    "\<forall>l < kNumLevels. current_levels vs' l = fold (apply_edit l) es (current_levels vs l)"
proof -
  obtain v vs2 where n: "new_version (vs1\<lparr>vs_next_file_number := m\<rparr>) = (v, vs2)" by fastforce
  define vs5 where "vs5 = AppendVersion v (Finalize v (Builder_SaveTo b v vs2))"
  note I = builder_installed [OF inv cur fit B n, folded vs5_def]
  obtain n1 n2 n3 n4 n5 d where "g vs5 = vs5\<lparr>vs_next_file_number := n1, vs_manifest_file_number := n2, vs_last_sequence := n3, vs_log_number := n4,
      vs_prev_log_number := n5, vs_descriptor_log := d\<rparr>" (is "_ = ?vs6") using g by blast
  then have vs': "vs' = Builder_delete b ?vs6" by (simp add: vs'_def recovered_state_def n vs5_def)
  let ?rc = "(live_refs vs handles)(v := live_refs vs handles v + 1)"
  have inv6: "vset_inv c valid ?vs6 (mset (concat (bd_added b)) + {#}) ?rc {}"
    using vset_inv_heap [OF I(1), of ?vs6] vset_invD(4,5) [OF I(1)] by simp
  let ?vs7 = "?vs6\<lparr>vs_file_heap := fold unref_file (concat (bd_added b)) (vs_file_heap ?vs6)\<rparr>"
  have inv7: "vset_inv c valid ?vs7 {#} ?rc {}" by (rule unref_extra [OF inv6])
  have "live_refs vs handles cur \<noteq> 0" using cur by (simp add: live_refs_def)
  then have d7: "cur \<in> dom (vs_version_heap ?vs7)" using vset_invD(9) [OF inv7, of cur] I(4) by (auto simp: fun_upd_apply)
  have v: "vs' = Version_Unref cur ?vs7" by (simp add: vs' Builder_delete_def I(3))
  have inv8: "vset_inv c valid vs' {#} (?rc(cur := ?rc cur - 1)) {}" unfolding v by (rule Version_Unref_inv [OF inv7 d7]) simp
  have c8: "vs_current vs' = Some v" using I(2) by (simp add: v Version_Unref_current)
  then show "vs_current vs' \<noteq> None" by simp
  have "?rc(cur := ?rc cur - 1) = live_refs vs' handles"
    using I(4) cur c8 by (auto simp: live_refs_def fun_eq_iff)
  with inv8 show inv': "vset_inv c valid vs' {#} (live_refs vs' handles) {}" by simp
  have "file_counts (vs_file_heap ?vs6) (mset (concat (bd_added b)) + version_refs (vs_version_heap ?vs6))"
    using vset_invD(5) [OF inv6] by (simp add: ac_simps)
  from fold_unref_file_counts [OF this] have s7: "shrinks (vs_file_heap vs5) (vs_file_heap ?vs7)" by simp
  have s8: "shrinks (vs_file_heap vs5) (vs_file_heap vs')"
    unfolding v by (rule shrinks_trans [OF s7 Version_Unref_shrinks(1) [OF inv7 d7]])
  have fv: "v_files (version vs' v) = v_files (version vs5 v)"
    using Version_Unref_shrinks(2) [OF inv7 d7, of v] I(4) unfolding v by (simp add: version_def)
  have vd: "v \<in> dom (vs_version_heap vs')" using referenced_live [OF inv', of v] c8 by simp
  show "\<forall>l < kNumLevels. current_levels vs' l = fold (apply_edit l) es (current_levels vs l)"
  proof (intro allI impI)
    fix l assume l: "l < kNumLevels"
    have "length (v_files (version vs' v)) = kNumLevels" using vset_invD(6) [OF inv' vd] by (simp add: version_levels_ok_def)
    then have "set (v_files (version vs' v) ! l) \<subseteq> set (concat (v_files (version vs' v)))" using l by (intro nth_concat_subset) simp
    then have "set (v_files (version vs5 v) ! l) \<subseteq> dom (vs_file_heap vs')"
      using version_file_allocated [OF inv' vd] unfolding fv by blast
    then show "current_levels vs' l = fold (apply_edit l) es (current_levels vs l)"
      using I(6) l s8 by (simp add: current_levels_def current_files_def c8 fv)
  qed
qed

end

subsection \<open>Continuing the manifest\<close>

lemma NewAppendableFile_ok:
  assumes "env_ok env H" "file_contents env f = Some c"
  shows "\<exists>a env'. mem_NewAppendableFile env f = (OK, Some (Some a), env') \<and> env_ok env' (add_mset a H) \<and>
    file_contents env' = file_contents env \<and> map_of (file_map env') f = Some (Some a)"
proof -
  obtain a fs where a: "map_of (file_map env) f = Some (Some a)" "file_states env a = Some fs"
    using file_contents_SomeD [OF assms] by blast
  have "mem_NewAppendableFile env f = (OK, Some (Some a), ref_ptr (Some a) env)"
    using a(1) by (simp add: mem_NewAppendableFile_def Let_def)
  then show ?thesis using ref_ptr_ok [OF assms(1) a(2)] a(1) by simp
qed

lemma GetFileSize_ok:
  assumes "env_ok env H" "file_contents env f = Some c"
  shows "mem_GetFileSize env f = (OK, length c)"
  using file_contents_SomeD [OF assms] env_okD(5) [OF assms(1)]
  by (auto simp: mem_GetFileSize_def deref_def state_ok_def)

lemma ReuseManifest_frame:
  fixes E :: "('e, 's, 'w) Env" and dscname dscbase :: bytes and env :: 'e
  defines "f \<equiv> \<lambda>vs. snd (snd (ReuseManifest E dscname dscbase env vs))"
  shows "f vs = vs\<lparr>vs_manifest_file_number := vs_manifest_file_number (f vs), vs_descriptor_log := vs_descriptor_log (f vs)\<rparr>"
  unfolding f_def ReuseManifest_def by (simp add: Let_def split: option.split prod.split)

lemma ReuseManifest_ok:
  assumes "env_ok env H" "file_contents env (DescriptorFileName dbname n) = Some c" "vs_descriptor_log vs = None"
  defines "base \<equiv> ascii ''MANIFEST-'' @ zero_padded 6 (unat n)"
  shows "\<exists>reused env' vs'. ReuseManifest InMemoryEnv_Env (DescriptorFileName dbname n) base env vs = (reused, env', vs') \<and>
    file_contents env' = file_contents env \<and>
    (if reused then \<exists>a. vs' = vs\<lparr>vs_descriptor_log := Some (Writer_reopen (Some a) (length c)), vs_manifest_file_number := n\<rparr> \<and>
        env_ok env' (add_mset a H) \<and> map_of (file_map env') (DescriptorFileName dbname n) = Some (Some a)
     else vs' = vs \<and> env' = env)"
proof -
  have base: "ParseFileName base = Some (n, kDescriptorFile)"
    using parse_fixed_names(1) [of dbname n] descriptor_base [of dbname n] by (simp add: base_def)
  obtain a env' where a: "mem_NewAppendableFile env (DescriptorFileName dbname n) = (OK, Some (Some a), env')" "env_ok env' (add_mset a H)"
    "file_contents env' = file_contents env" "map_of (file_map env') (DescriptorFileName dbname n) = Some (Some a)"
    using NewAppendableFile_ok [OF assms(1,2)] by blast
  show ?thesis
  proof (cases "reuse_logs (vs_options vs) \<and> length c < unat (TargetFileSize (vs_options vs))")
    case True
    then have "ReuseManifest InMemoryEnv_Env (DescriptorFileName dbname n) base env vs =
        (True, env', vs\<lparr>vs_descriptor_log := Some (Writer_reopen (Some a) (length c)), vs_manifest_file_number := n\<rparr>)"
      using a(1) by (simp add: ReuseManifest_def base GetFileSize_ok [OF assms(1,2)])
    then show ?thesis using a by auto
  next
    case False
    then have "ReuseManifest InMemoryEnv_Env (DescriptorFileName dbname n) base env vs = (False, env, vs)"
      by (auto simp: ReuseManifest_def base GetFileSize_ok [OF assms(1,2)] not_less)
    then show ?thesis by auto
  qed
qed

lemma reopened_descriptor:
  assumes "map_of (file_map env) f = Some (Some a)" "file_contents env f = Some (fst (log_image rs 0))"
  shows "descriptor_at env f a (Writer_reopen (Some a) (length (fst (log_image rs 0)))) rs"
  using assms by (simp add: descriptor_at_def Writer_reopen_def kBlockSize_def)

subsection \<open>What a manifest's prefix gives\<close>

lemma note_complete:
  "complete_edit e \<Longrightarrow> note_numbers e r = \<lparr>rc_log_number = Some (ve_log_number e), rc_prev_log_number = Some (ve_prev_log_number e),
    rc_next_file = Some (ve_next_file_number e), rc_last_sequence = Some (ve_last_sequence e)\<rparr>"
  by (simp add: note_numbers_def complete_edit_def)

lemma manifest_numbers:
  assumes "manifest_ok c valid logged" "2 \<le> k" "k \<le> length logged"
  defines "e \<equiv> logged ! (k - 1)"
  shows "fold note_numbers (take k logged) r = \<lparr>rc_log_number = Some (ve_log_number e), rc_prev_log_number = Some (ve_prev_log_number e),
    rc_next_file = Some (ve_next_file_number e), rc_last_sequence = Some (ve_last_sequence e)\<rparr>"
proof -
  have k: "Suc (k - 2) = k - 1" using assms(2) by simp
  have "tl logged ! (k - 2) = e" using assms(2,3) by (simp add: e_def nth_tl k)
  then have "e \<in> set (tl logged)" using assms(2,3) nth_mem [of "k - 2" "tl logged"] by simp
  then have "complete_edit e" using assms(1) by (simp add: manifest_ok_def)
  moreover have "take k logged = take (k - 1) logged @ [e]"
    using assms(2,3) take_Suc_conv_app_nth [of "k - 1" logged] by (simp add: e_def)
  ultimately show ?thesis by (simp add: note_complete)
qed

lemma manifest_prefix_fits:
  assumes "manifest_ok c valid logged"
  shows "edits_fit valid (VersionSet_new dbname options c) 0 (take k logged)"
proof -
  have "distinct (map fst (concat (map (edit_new l) (take k logged)) @ concat (map (edit_new l) (drop k logged))))" for l
    using assms unfolding manifest_ok_def concat_append [symmetric] map_append [symmetric] append_take_drop_id by blast
  then have "distinct (map fst (concat (map (edit_new l) (take k logged))))" for l unfolding map_append distinct_append by blast
  moreover have "VersionBuilder.edit_ok valid e" if "e \<in> set (take k logged)" for e
    using assms that set_take_subset [of k logged] by (auto simp: manifest_ok_def record_ok_def)
  ultimately show ?thesis unfolding edits_fit_def by (simp add: level_cores_def)
qed

lemma manifest_levels_new: "m \<in> manifest_levels es l \<Longrightarrow> \<exists>e \<in> set es. m \<in> set (edit_new l e)"
proof -
  have "m \<in> fold (apply_edit l) es S \<Longrightarrow> m \<in> S \<or> (\<exists>e \<in> set es. m \<in> set (edit_new l e))" for S
    by (induction es arbitrary: S) (fastforce simp: apply_edit_def)+
  then show "m \<in> manifest_levels es l \<Longrightarrow> ?thesis" by (fastforce simp: manifest_levels_def)
qed

lemma edit_ok_fields:
  assumes "VersionEdit.edit_ok e"
  shows "(l, k) \<in> set (compact_pointers e) \<Longrightarrow> length k < 2 ^ 32"
    "(l, m) \<in> set (new_files e) \<Longrightarrow> length (smallest m) < 2 ^ 32 \<and> length (largest m) < 2 ^ 32"
proof -
  have f: "field_ok x" if "x \<in> set (fields_of e)" for x using assms that unfolding VersionEdit.edit_ok_def list_all_iff by blast
  show "length k < 2 ^ 32" if p: "(l, k) \<in> set (compact_pointers e)"
  proof -
    have "FCompactPointer l k \<in> set (map (\<lambda>(l, k). FCompactPointer l k) (compact_pointers e))" using p by force
    then have "FCompactPointer l k \<in> set (fields_of e)" by (simp add: fields_of_def)
    from f [OF this] show ?thesis by simp
  qed
  show "length (smallest m) < 2 ^ 32 \<and> length (largest m) < 2 ^ 32" if p: "(l, m) \<in> set (new_files e)"
  proof -
    have "FNew l m \<in> set (map (\<lambda>(l, f). FNew l f) (new_files e))" using p by force
    then have "FNew l m \<in> set (fields_of e)" by (simp add: fields_of_def)
    from f [OF this] show ?thesis by simp
  qed
qed

lemma points_short:
  assumes "\<forall>e \<in> set es. VersionEdit.edit_ok e" "k \<in> set (fold point es cps)" "\<forall>k \<in> set cps. length k < 2 ^ 32"
  shows "length k < 2 ^ 32"
  using assms
proof (induction es arbitrary: cps)
  case (Cons e es)
  have "length k < 2 ^ 32" if k: "k \<in> set (point e cps)" for k
  proof (cases "k \<in> set cps")
    case False
    then obtain l where "(l, k) \<in> set (compact_pointers e)" using k set_point [of e cps] by auto
    then show ?thesis using edit_ok_fields(1) [of e l k] Cons.prems(1) by simp
  qed (use Cons.prems(3) in blast)
  then show ?case using Cons by simp
qed simp

lemma recovered_keys_short:
  assumes inv: "vset_inv c valid vs {#} (live_refs vs handles) {}" "vs_current vs \<noteq> None"
    and levels: "\<forall>l < kNumLevels. current_levels vs l = manifest_levels es l" and cps: "vs_compact_pointer vs = fold point es (replicate kNumLevels [])"
    and ok: "\<forall>e \<in> set es. VersionEdit.edit_ok e" and name: "length (ascii (Name c)) < 2 ^ 32"
  shows "keys_short vs"
proof -
  obtain cur where cur: "vs_current vs = Some cur" using inv(2) by blast
  have d: "cur \<in> dom (vs_version_heap vs)" using referenced_live [OF inv(1), of cur] cur by simp
  have len: "length (current_files vs) = kNumLevels"
    using vset_invD(6) [OF inv(1) d] by (simp add: version_levels_ok_def current_files_def cur)
  have "length (smallest (fmd (vs_file_heap vs) p)) < 2 ^ 32 \<and> length (largest (fmd (vs_file_heap vs) p)) < 2 ^ 32"
    if p: "p \<in> set (concat (current_files vs))" for p
  proof -
    obtain fs where "fs \<in> set (current_files vs)" "p \<in> set fs" using p by auto
    then obtain l where l: "l < kNumLevels" "p \<in> set (current_files vs ! l)"
      using len in_set_conv_nth [of fs "current_files vs"] by auto
    then have "core (fmd (vs_file_heap vs) p) \<in> manifest_levels es l" using levels by (auto simp: current_levels_def level_cores_def)
    then obtain e m where e: "e \<in> set es" "(l, m) \<in> set (new_files e)" "core m = core (fmd (vs_file_heap vs) p)"
      using manifest_levels_new by (fastforce simp: edit_new_def)
    then show ?thesis using edit_ok_fields(2) [of e l m] ok by (simp add: core_def)
  qed
  moreover have "vs_ucmp vs = c" by (rule vset_invD(1) [OF inv(1)])
  moreover have "length k < 2 ^ 32" if "k \<in> set (vs_compact_pointer vs)" for k
    using points_short [OF ok, of k] that cps by auto
  ultimately show ?thesis using name by (simp add: keys_short_def)
qed

subsection \<open>Recovery\<close>

text \<open>Opening the manifest and replaying what is left of it.\<close>

abbreviation manifest_image :: "VersionEdit list \<Rightarrow> bytes" where
  "manifest_image es \<equiv> fst (log_image (map (\<lambda>e. VersionEdit_EncodeTo e []) es) 0)"

lemma manifest_image_mono: "length (manifest_image (take j es)) \<le> length (manifest_image (take (j + i) es))"
  using log_image_append(1) [of "map (\<lambda>e. VersionEdit_EncodeTo e []) (take j es)" "map (\<lambda>e. VersionEdit_EncodeTo e []) (take i (drop j es))" 0]
  by (simp add: take_add)

lemma replay_manifest:
  assumes env: "env_ok env H" "file_contents env f = Some (take n (manifest_image logged))" and ok: "manifest_ok c valid logged"
    and u: "vs_ucmp (snd bv) = c" and n: "length (manifest_image (take 2 logged)) \<le> n"
  shows "\<exists>file e1 k r. mem_NewSequentialFile env f = (OK, Some file, e1) \<and>
    replay_loop mem_seq (Reader_new (e1, file) (Some []) True 0) OK bv rc =
      Some (OK, r, fold Builder_Apply (take k logged) bv, fold note_numbers (take k logged) rc) \<and>
    env_ok (env_delete_seq InMemoryEnv_Env (lr_file r)) H \<and> file_contents (env_delete_seq InMemoryEnv_Env (lr_file r)) = file_contents env \<and>
    2 \<le> k \<and> k \<le> length logged \<and> (length (manifest_image logged) \<le> n \<longrightarrow> k = length logged) \<and>
    length (manifest_image (take k logged)) \<le> n \<and> (k < length logged \<longrightarrow> n < length (manifest_image (take (Suc k) logged)))"
proof -
  let ?img = "manifest_image logged"
  obtain b e1 where b: "mem_NewSequentialFile env f = (OK, Some \<lparr>sfi_file = Some b, sfi_pos = 0\<rparr>, e1)" "env_ok e1 (add_mset b H)"
    "file_contents e1 = file_contents env" "map_of (file_map e1) f = Some (Some b)"
    using NewSequentialFile_ok [OF env] by blast
  let ?h = "\<lparr>sfi_file = Some b, sfi_pos = 0\<rparr>"
  obtain fs where fs: "file_states e1 b = Some fs" "take n ?img = fs_contents fs" "fs_ok fs"
    using file_contents_SomeD [OF b(2), of f "take n ?img"] b(3,4) env(2) env_okD(5) [OF b(2)] by (auto simp: state_ok_def)
  have "seq_valid e1 b (e1, ?h)" "seq_rest (e1, ?h) = take n ?img" using fs by (auto simp: seq_valid_def seq_rest_def deref_def)
  then have at: "reader_at seq_rest (seq_valid e1 b) (Reader_new (e1, ?h) (Some []) True 0) (take n ?img) kBlockSize"
    by (simp add: reader_at_def Reader_new_def)
  have S: "take n ?img @ drop n ?img = fst (log_image (map (\<lambda>e. VersionEdit_EncodeTo e []) logged) kBlockSize)"
    by (simp add: log_image_block_end)
  have recs: "\<forall>e \<in> set logged. record_ok c valid e" using ok by (simp add: manifest_ok_def)
  have rep: "lr_reports (Reader_new (e1, ?h) (Some []) True 0) = Some []" by (simp add: Reader_new_def)
  from mem_sequential.replay_loop_image [OF at rep S recs u, of rc] obtain k r where k:
    "replay_loop mem_seq (Reader_new (e1, ?h) (Some []) True 0) OK bv rc =
      Some (OK, r, fold Builder_Apply (take k logged) bv, fold note_numbers (take k logged) rc)"
    "seq_valid e1 b (lr_file r)" "k \<le> length logged"
    "length (manifest_image (take k logged)) \<le> length (take n ?img)"
    "k < length logged \<longrightarrow> length (take n ?img) < length (manifest_image (take (Suc k) logged))"
    unfolding log_image_block_end by blast
  have del: "env_ok (env_delete_seq InMemoryEnv_Env (lr_file r)) H" "file_contents (env_delete_seq InMemoryEnv_Env (lr_file r)) = file_contents env"
    using unref_ptr_ok [OF b(2), of b] k(2) b(3) by (cases "lr_file r", simp add: seq_valid_def)+
  have len: "2 \<le> length logged" using ok by (simp add: manifest_ok_def)
  have le: "length (manifest_image (take j logged)) \<le> length ?img" for j
    using manifest_image_mono [of j logged "length logged"] by simp
  have "2 \<le> k"
  proof (rule ccontr)
    assume "\<not> 2 \<le> k"
    then have e: "Suc k + (1 - k) = 2" and "k < length logged" using len by simp_all
    moreover have "length (manifest_image (take (Suc k) logged)) \<le> length (manifest_image (take 2 logged))"
      using manifest_image_mono [of "Suc k" logged "1 - k"] unfolding e .
    ultimately show False using k(5) n le [of 2] by simp
  qed
  moreover have "length ?img \<le> n \<longrightarrow> k = length logged" using k(3,5) le [of "Suc k"] by fastforce
  moreover have "length (manifest_image (take k logged)) \<le> n" using k(4) by simp
  moreover have "k < length logged \<longrightarrow> n < length (manifest_image (take (Suc k) logged))" using k(5) le [of "Suc k"] by fastforce
  ultimately show ?thesis using b(1) k(1,3) del by blast
qed

definition install_numbers ::
    "bytes \<Rightarrow> bytes \<Rightarrow> InMemoryEnv \<Rightarrow> Recovered \<Rightarrow> ptr VersionSet \<Rightarrow> bool \<times> InMemoryEnv \<times> ptr VersionSet" where
  "install_numbers dscname dscbase env rc vs =
     ReuseManifest InMemoryEnv_Env dscname dscbase env
       (vs\<lparr>vs_manifest_file_number := number_of (rc_next_file rc), vs_next_file_number := number_of (rc_next_file rc) + 1,
          vs_last_sequence := number_of (rc_last_sequence rc), vs_log_number := number_of (rc_log_number rc),
          vs_prev_log_number := number_of (rc_prev_log_number rc)\<rparr>)"

lemma recover_from_replayed:
  assumes "replay_loop mem_seq (Reader_new (env, file) (Some []) True 0) OK (Builder_new (the (vs_current vs)) vs) Recovered_new =
      Some (OK, r, (b, vs1), rc)" "check_numbers rc = OK"
  shows "\<exists>m vs5. recovered_state b m (\<lambda>vs. snd (snd (install_numbers dscname dscbase (env_delete_seq InMemoryEnv_Env (lr_file r)) rc vs))) vs1 =
      Builder_delete b (snd (snd (install_numbers dscname dscbase (env_delete_seq InMemoryEnv_Env (lr_file r)) rc vs5))) \<and>
    meta vs5 = meta (vs1\<lparr>vs_next_file_number := m\<rparr>) \<and> vs_compact_pointer vs5 = vs_compact_pointer vs1 \<and>
    recover_from InMemoryEnv_Env dscname dscbase file env vs =
      (case install_numbers dscname dscbase (env_delete_seq InMemoryEnv_Env (lr_file r)) rc vs5 of
         (reused, env', vs') \<Rightarrow> Some (OK, \<not> reused, env', Builder_delete b vs'))"
proof -
  obtain m1 where m1: "MarkFileNumberUsed (number_of (rc_prev_log_number rc)) vs1 = vs1\<lparr>vs_next_file_number := m1\<rparr>"
    using MarkFileNumberUsed_eq by blast
  obtain m where "MarkFileNumberUsed (number_of (rc_log_number rc)) (vs1\<lparr>vs_next_file_number := m1\<rparr>) = vs1\<lparr>vs_next_file_number := m1\<rparr>\<lparr>vs_next_file_number := m\<rparr>"
    using MarkFileNumberUsed_eq by blast
  then have m: "MarkFileNumberUsed (number_of (rc_log_number rc)) (MarkFileNumberUsed (number_of (rc_prev_log_number rc)) vs1) = vs1\<lparr>vs_next_file_number := m\<rparr>"
    by (simp add: m1)
  obtain v vs2 where n: "new_version (vs1\<lparr>vs_next_file_number := m\<rparr>) = (v, vs2)" by fastforce
  let ?vs5 = "AppendVersion v (Finalize v (Builder_SaveTo b v vs2))"
  have "meta ?vs5 = meta (vs1\<lparr>vs_next_file_number := m\<rparr>)" "vs_compact_pointer ?vs5 = vs_compact_pointer vs1"
    using version_frames(10,11) [of "vs1\<lparr>vs_next_file_number := m\<rparr>"] n by simp_all
  moreover have "recover_from InMemoryEnv_Env dscname dscbase file env vs =
      (case install_numbers dscname dscbase (env_delete_seq InMemoryEnv_Env (lr_file r)) rc ?vs5 of
         (reused, env', vs') \<Rightarrow> Some (OK, \<not> reused, env', Builder_delete b vs'))"
    using assms by (simp add: recover_from_def m install_recovered_def n install_numbers_def Let_def split: prod.split)
  ultimately show ?thesis by (intro exI [of _ m] exI [of _ ?vs5]) (simp add: recovered_state_def n)
qed

lemma install_numbers_ok:
  assumes "env_ok env H" "file_contents env (DescriptorFileName dbname n) = Some c" "vs_descriptor_log vs = None"
    and rc: "rc = \<lparr>rc_log_number = Some l, rc_prev_log_number = Some p, rc_next_file = Some x, rc_last_sequence = Some q\<rparr>"
  defines "base \<equiv> ascii ''MANIFEST-'' @ zero_padded 6 (unat n)"
  shows "\<exists>reused env' d. install_numbers (DescriptorFileName dbname n) base env rc vs =
      (reused, env', vs\<lparr>vs_manifest_file_number := (if reused then n else x), vs_next_file_number := x + 1, vs_last_sequence := q,
         vs_log_number := l, vs_prev_log_number := p, vs_descriptor_log := d\<rparr>) \<and> file_contents env' = file_contents env \<and>
    (if reused then \<exists>a. d = Some (Writer_reopen (Some a) (length c)) \<and> env_ok env' (add_mset a H) \<and>
        map_of (file_map env') (DescriptorFileName dbname n) = Some (Some a)
     else d = None \<and> env' = env)"
proof -
  let ?vs = "vs\<lparr>vs_manifest_file_number := x, vs_next_file_number := x + 1, vs_last_sequence := q, vs_log_number := l, vs_prev_log_number := p\<rparr>"
  have none: "vs_descriptor_log ?vs = None" using assms(3) by simp
  obtain reused env' vs' where R: "ReuseManifest InMemoryEnv_Env (DescriptorFileName dbname n) base env ?vs = (reused, env', vs')"
    "file_contents env' = file_contents env"
    "if reused then \<exists>a. vs' = ?vs\<lparr>vs_descriptor_log := Some (Writer_reopen (Some a) (length c)), vs_manifest_file_number := n\<rparr> \<and>
        env_ok env' (add_mset a H) \<and> map_of (file_map env') (DescriptorFileName dbname n) = Some (Some a)
     else vs' = ?vs \<and> env' = env"
    using ReuseManifest_ok [OF assms(1,2) none, folded base_def] by blast
  have I: "install_numbers (DescriptorFileName dbname n) base env rc vs = (reused, env', vs')"
    using R(1) by (simp add: install_numbers_def rc number_of_def)
  show ?thesis
  proof (cases reused)
    case True
    then obtain a where "vs' = ?vs\<lparr>vs_descriptor_log := Some (Writer_reopen (Some a) (length c)), vs_manifest_file_number := n\<rparr>"
      "env_ok env' (add_mset a H)" "map_of (file_map env') (DescriptorFileName dbname n) = Some (Some a)" using R(3) by auto
    then show ?thesis using True I R(2) by (intro exI [of _ True] exI [of _ env'] exI [of _ "Some (Writer_reopen (Some a) (length c))"]) simp
  next
    case False
    then have "vs' = ?vs" "env' = env" using R(3) by simp_all
    moreover have "?vs = ?vs\<lparr>vs_descriptor_log := None\<rparr>" using none by simp
    ultimately show ?thesis using False I by (intro exI [of _ False] exI [of _ env] exI [of _ None]) simp
  qed
qed

lemma install_numbers_frame:
  "\<exists>n1 n2 n3 n4 n5 d. snd (snd (install_numbers dscname dscbase env rc vs)) =
    vs\<lparr>vs_next_file_number := n1, vs_manifest_file_number := n2, vs_last_sequence := n3, vs_log_number := n4,
      vs_prev_log_number := n5, vs_descriptor_log := d\<rparr>"
proof -
  let ?vs = "vs\<lparr>vs_manifest_file_number := number_of (rc_next_file rc), vs_next_file_number := number_of (rc_next_file rc) + 1,
    vs_last_sequence := number_of (rc_last_sequence rc), vs_log_number := number_of (rc_log_number rc),
    vs_prev_log_number := number_of (rc_prev_log_number rc)\<rparr>"
  obtain r where r: "snd (snd (ReuseManifest InMemoryEnv_Env dscname dscbase env ?vs)) = r" by blast
  have "r = ?vs\<lparr>vs_manifest_file_number := vs_manifest_file_number r, vs_descriptor_log := vs_descriptor_log r\<rparr>"
    unfolding r [symmetric] by (rule ReuseManifest_frame)
  then obtain n2 d where e: "r = ?vs\<lparr>vs_manifest_file_number := n2, vs_descriptor_log := d\<rparr>" by blast
  show ?thesis
    unfolding install_numbers_def r e
    by (rule exI [of _ "number_of (rc_next_file rc) + 1"], rule exI [of _ n2], rule exI [of _ "number_of (rc_last_sequence rc)"],
        rule exI [of _ "number_of (rc_log_number rc)"], rule exI [of _ "number_of (rc_prev_log_number rc)"], rule exI [of _ d]) simp
qed

lemma Recover_opens:
  assumes "env_ok env H" "file_contents env (CurrentFileName (vs_dbname vs)) = Some (ascii ''MANIFEST-'' @ zero_padded 6 (unat n) @ [0x0A])"
    and "\<And>e0. env_ok e0 H \<Longrightarrow> file_contents e0 = file_contents env \<Longrightarrow>
      \<exists>fh e1. mem_NewSequentialFile e0 (DescriptorFileName (vs_dbname vs) n) = (OK, Some fh, e1) \<and>
        P (recover_from InMemoryEnv_Env (DescriptorFileName (vs_dbname vs) n) (ascii ''MANIFEST-'' @ zero_padded 6 (unat n)) fh e1 vs)"
  shows "P (Recover InMemoryEnv_Env env vs)"
proof -
  define base where "base = ascii ''MANIFEST-'' @ zero_padded 6 (unat n)"
  have cur: "file_contents env (CurrentFileName (vs_dbname vs)) = Some (base @ [0x0A])" using assms(2) by (simp add: base_def)
  obtain e0 where e0: "ReadFileToString InMemoryEnv_Env env (CurrentFileName (vs_dbname vs)) = Some (OK, base @ [0x0A], e0)" "env_ok e0 H"
    "file_contents e0 = file_contents env"
    using ReadFileToString_ok [OF assms(1) cur] by blast
  obtain fh e1 where e1: "mem_NewSequentialFile e0 (DescriptorFileName (vs_dbname vs) n) = (OK, Some fh, e1)"
    "P (recover_from InMemoryEnv_Env (DescriptorFileName (vs_dbname vs) n) base fh e1 vs)"
    using assms(3) [OF e0(2,3)] unfolding base_def by blast
  have name: "vs_dbname vs @ ascii ''/'' @ base = DescriptorFileName (vs_dbname vs) n"
    by (simp add: DescriptorFileName_def ascii_def base_def)
  have "Recover InMemoryEnv_Env env vs = recover_from InMemoryEnv_Env (DescriptorFileName (vs_dbname vs) n) base fh e1 vs"
    by (simp add: Recover_def e0(1) e1(1) name)
  then show ?thesis using e1(2) by simp
qed

text \<open>The manifest that was recovered whole continues, reopened or not.\<close>

lemma manifest_inv_recovered:
  assumes ok: "manifest_ok c valid logged" and inv: "vset_inv c valid vs {#} (live_refs vs handles) {}" "vs_current vs \<noteq> None"
    and levels: "\<forall>l < kNumLevels. current_levels vs l = manifest_levels logged l" and cps: "vs_compact_pointer vs = fold point logged (replicate kNumLevels [])"
    and nums: "vs_log_number vs = ve_log_number (last logged)" "vs_prev_log_number vs = ve_prev_log_number (last logged)"
    and name: "length (ascii (Name c)) < 2 ^ 32"
    and env: "file_contents env (DescriptorFileName (vs_dbname vs) n) = Some (manifest_image logged)"
      "file_contents env (CurrentFileName (vs_dbname vs)) = Some (ascii ''MANIFEST-'' @ zero_padded 6 (unat n) @ [0x0A])"
    and reused: "if reused then \<exists>a. vs_descriptor_log vs = Some (Writer_reopen (Some a) (length (manifest_image logged))) \<and>
        env_ok env (add_mset a H) \<and> map_of (file_map env) (DescriptorFileName (vs_dbname vs) n) = Some (Some a) \<and> vs_manifest_file_number vs = n
      else vs_descriptor_log vs = None \<and> env_ok env H"
  shows "manifest_inv c valid H env vs (if reused then logged else [])"
proof -
  have len: "length (vs_compact_pointer vs) = kNumLevels"
  proof -
    have "length (fold point es cps) = length cps" for es cps by (induction es arbitrary: cps) simp_all
    then show ?thesis by (simp add: cps)
  qed
  show ?thesis
  proof (cases reused)
    case True
    then obtain a where a: "vs_descriptor_log vs = Some (Writer_reopen (Some a) (length (manifest_image logged)))" "env_ok env (add_mset a H)"
      "map_of (file_map env) (DescriptorFileName (vs_dbname vs) n) = Some (Some a)" "vs_manifest_file_number vs = n"
      using reused by auto
    have "descriptor_at env (DescriptorFileName (vs_dbname vs) n) a (Writer_reopen (Some a) (length (manifest_image logged)))
        (map (\<lambda>e. VersionEdit_EncodeTo e []) logged)"
      by (rule reopened_descriptor [OF a(3) env(1)])
    then show ?thesis
      unfolding manifest_inv_def a(1,4) option.case using True ok len a(2) env(2) levels nums cps by simp blast
  next
    case False
    have "\<forall>e \<in> set logged. VersionEdit.edit_ok e" using ok by (simp add: manifest_ok_def record_ok_def)
    then have "keys_short vs" by (rule recovered_keys_short [OF inv levels cps _ name])
    then show ?thesis using False reused len by (simp add: manifest_inv_def)
  qed
qed

lemma Recover_run:
  fixes vs :: "ptr VersionSet"
  assumes ik: "internal_keys c valid" and ok: "manifest_ok c valid logged"
    and env: "env_ok env H" "file_contents env (CurrentFileName dbname) = Some (ascii ''MANIFEST-'' @ zero_padded 6 (unat m) @ [0x0A])"
      "file_contents env (DescriptorFileName dbname m) = Some (take n (manifest_image logged))"
    and n: "length (manifest_image (take 2 logged)) \<le> n" and vs: "vs = VersionSet_new dbname options c"
  shows "\<exists>k reused env' vs'. Recover InMemoryEnv_Env env vs = Some (OK, \<not> reused, env', vs') \<and> 2 \<le> k \<and> k \<le> length logged \<and>
    (length (manifest_image logged) \<le> n \<longrightarrow> k = length logged) \<and>
    length (manifest_image (take k logged)) \<le> n \<and> (k < length logged \<longrightarrow> n < length (manifest_image (take (Suc k) logged))) \<and>
    vset_inv c valid vs' {#} (live_refs vs' {#}) {} \<and> vs_current vs' \<noteq> None \<and>
    (\<forall>l < kNumLevels. current_levels vs' l = manifest_levels (take k logged) l) \<and>
    vs_compact_pointer vs' = fold point (take k logged) (replicate kNumLevels []) \<and> vs_dbname vs' = dbname \<and>
    vs_log_number vs' = ve_log_number (logged ! (k - 1)) \<and> vs_prev_log_number vs' = ve_prev_log_number (logged ! (k - 1)) \<and>
    vs_last_sequence vs' = ve_last_sequence (logged ! (k - 1)) \<and> vs_next_file_number vs' = ve_next_file_number (logged ! (k - 1)) + 1 \<and>
    file_contents env' = file_contents env \<and>
    (if reused then \<exists>a. vs_descriptor_log vs' = Some (Writer_reopen (Some a) (length (take n (manifest_image logged)))) \<and>
        env_ok env' (add_mset a H) \<and> map_of (file_map env') (DescriptorFileName dbname m) = Some (Some a) \<and> vs_manifest_file_number vs' = m
      else vs_descriptor_log vs' = None \<and> env_ok env' H)"
    (is "\<exists>k reused env' vs'. Recover InMemoryEnv_Env env vs = Some (OK, \<not> reused, env', vs') \<and> ?P k reused env' vs'")
proof -
  have v0: "vs_dbname vs = dbname" "vs_current vs = Some 0" "vs_ucmp vs = c" "vs_descriptor_log vs = None"
    "vs_compact_pointer vs = replicate kNumLevels []" by (simp_all add: vs)
  note inv = new_version_set_inv [OF ik vs]
  let ?Q = "\<lambda>res. \<exists>k reused env' vs'. res = Some (OK, \<not> reused, env', vs') \<and> ?P k reused env' vs'"
  have "?Q (Recover InMemoryEnv_Env env vs)"
  proof (rule Recover_opens [where n = m and P = ?Q, OF env(1)])
    show "file_contents env (CurrentFileName (vs_dbname vs)) = Some (ascii ''MANIFEST-'' @ zero_padded 6 (unat m) @ [0x0A])"
      using env(2) by (simp add: v0)
    fix e0 assume e0: "env_ok e0 H" "file_contents e0 = file_contents env"
    let ?f = "DescriptorFileName dbname m" and ?base = "ascii ''MANIFEST-'' @ zero_padded 6 (unat m)"
    let ?bv = "Builder_new 0 vs"
    have c0: "file_contents e0 ?f = Some (take n (manifest_image logged))" using env(3) e0(2) by simp
    have u: "vs_ucmp (snd ?bv) = c" using v0(3) metaD(3) [OF set_frames(7)] by metis
    from replay_manifest [OF e0(1) c0 ok u n, of Recovered_new] obtain fh e1 k r where r:
      "mem_NewSequentialFile e0 ?f = (OK, Some fh, e1)"
      "replay_loop mem_seq (Reader_new (e1, fh) (Some []) True 0) OK ?bv Recovered_new =
        Some (OK, r, fold Builder_Apply (take k logged) ?bv, fold note_numbers (take k logged) Recovered_new)"
      "env_ok (env_delete_seq InMemoryEnv_Env (lr_file r)) H" "file_contents (env_delete_seq InMemoryEnv_Env (lr_file r)) = file_contents e0"
      "2 \<le> k" "k \<le> length logged" "length (manifest_image logged) \<le> n \<longrightarrow> k = length logged"
      "length (manifest_image (take k logged)) \<le> n" "k < length logged \<longrightarrow> n < length (manifest_image (take (Suc k) logged))" by blast
    let ?e2 = "env_delete_seq InMemoryEnv_Env (lr_file r)" and ?e = "logged ! (k - 1)"
    define rc where "rc = fold note_numbers (take k logged) Recovered_new"
    have rc: "rc = \<lparr>rc_log_number = Some (ve_log_number ?e), rc_prev_log_number = Some (ve_prev_log_number ?e),
        rc_next_file = Some (ve_next_file_number ?e), rc_last_sequence = Some (ve_last_sequence ?e)\<rparr>"
      unfolding rc_def by (rule manifest_numbers [OF ok r(5,6)])
    have ck: "check_numbers rc = OK" by (simp add: rc check_numbers_def)
    obtain b vs1 where b: "fold Builder_Apply (take k logged) ?bv = (b, vs1)" by fastforce
    have rp: "replay_loop mem_seq (Reader_new (e1, fh) (Some []) True 0) OK (Builder_new (the (vs_current vs)) vs) Recovered_new =
        Some (OK, r, (b, vs1), rc)" using r(2) by (simp add: v0 b rc_def)
    let ?g = "\<lambda>vs. snd (snd (install_numbers ?f ?base ?e2 rc vs))"
    obtain j vs5 where j: "recovered_state b j ?g vs1 = Builder_delete b (?g vs5)" "meta vs5 = meta (vs1\<lparr>vs_next_file_number := j\<rparr>)"
      "vs_compact_pointer vs5 = vs_compact_pointer vs1"
      "recover_from InMemoryEnv_Env ?f ?base fh e1 vs =
        (case install_numbers ?f ?base ?e2 rc vs5 of (reused, env', vs') \<Rightarrow> Some (OK, \<not> reused, env', Builder_delete b vs'))"
      using recover_from_replayed [OF rp ck, of ?f ?base] by blast
    have fit: "edits_fit valid vs 0 (take k logged)" unfolding vs by (rule manifest_prefix_fits [OF ok])
    note V = internal_keys.recovered_state_inv [OF ik inv v0(2) fit b, of ?g j, OF install_numbers_frame, unfolded j(1)]
    have m1: "meta vs1 = meta vs" "vs_compact_pointer vs1 = fold point (take k logged) (replicate kNumLevels [])"
      using fold_Apply_meta [of "take k logged" ?bv] by (simp_all add: b v0)
    have d5: "vs_descriptor_log vs5 = None" "vs_dbname vs5 = dbname" using metaD(1,9) [OF j(2)] metaD(1,9) [OF m1(1)] v0 by simp_all
    have c2: "file_contents ?e2 ?f = Some (take n (manifest_image logged))" using r(4) c0 by simp
    obtain reused env' d where I: "install_numbers ?f ?base ?e2 rc vs5 =
        (reused, env', vs5\<lparr>vs_manifest_file_number := (if reused then m else ve_next_file_number ?e), vs_next_file_number := ve_next_file_number ?e + 1,
          vs_last_sequence := ve_last_sequence ?e, vs_log_number := ve_log_number ?e, vs_prev_log_number := ve_prev_log_number ?e, vs_descriptor_log := d\<rparr>)"
      "file_contents env' = file_contents ?e2"
      "if reused then \<exists>a. d = Some (Writer_reopen (Some a) (length (take n (manifest_image logged)))) \<and> env_ok env' (add_mset a H) \<and>
          map_of (file_map env') ?f = Some (Some a)
       else d = None \<and> env' = ?e2"
      using install_numbers_ok [OF r(3) c2 d5(1) rc] by blast
    let ?vs6 = "?g vs5" and ?vs' = "Builder_delete b (?g vs5)"
    have lv: "\<forall>l < kNumLevels. current_levels ?vs' l = manifest_levels (take k logged) l"
      using V(3) by (simp add: manifest_levels_def vs new_current_levels)
    note M = metaD [OF set_frames(5) [of b ?vs6]]
    have R: "recover_from InMemoryEnv_Env ?f ?base fh e1 vs = Some (OK, \<not> reused, env', ?vs')"
      unfolding j(4) by (simp add: I(1))
    have sel: "vs_dbname ?vs' = dbname" "vs_log_number ?vs' = ve_log_number ?e" "vs_prev_log_number ?vs' = ve_prev_log_number ?e"
      "vs_last_sequence ?vs' = ve_last_sequence ?e" "vs_next_file_number ?vs' = ve_next_file_number ?e + 1" "vs_descriptor_log ?vs' = d"
      "reused \<Longrightarrow> vs_manifest_file_number ?vs' = m" unfolding M using I(1) d5(2) by simp_all
    have cp: "vs_compact_pointer ?vs' = fold point (take k logged) (replicate kNumLevels [])"
      unfolding set_frames using I(1) m1(2) j(3) by simp
    have "file_contents env' = file_contents env" using I(2) r(4) e0(2) by simp
    moreover have "if reused then \<exists>a. vs_descriptor_log ?vs' = Some (Writer_reopen (Some a) (length (take n (manifest_image logged)))) \<and>
        env_ok env' (add_mset a H) \<and> map_of (file_map env') ?f = Some (Some a) \<and> vs_manifest_file_number ?vs' = m
      else vs_descriptor_log ?vs' = None \<and> env_ok env' H"
      unfolding sel(6) using I(3) r(3) sel(7) by (cases reused) auto
    ultimately have "?P k reused env' ?vs'" using r(5-9) lv V(1,2) sel(1-5) cp by blast
    then show "\<exists>fh e1. mem_NewSequentialFile e0 (DescriptorFileName (vs_dbname vs) m) = (OK, Some fh, e1) \<and>
        ?Q (recover_from InMemoryEnv_Env (DescriptorFileName (vs_dbname vs) m) ?base fh e1 vs)"
      using r(1) R unfolding v0(1) by blast
  qed
  then show ?thesis .
qed

text \<open>
  C2: after a crash that leaves \<^verbatim>\<open>CURRENT\<close> and any prefix of the manifest that includes
  the first edit behind its snapshot, \<open>Recover\<close> succeeds. The recovered version has the files, and the version
  set the numbers and compaction pointers, of exactly the edits \<open>take k logged\<close> whose records survived whole: the manifest of these
  fits into the \<open>n\<close> bytes left, that of one more does not. Reference counts are exact. If the whole manifest
  survived, that is the state that was lost, and logging can go on: in the reopened manifest or in a new one.
\<close>

theorem manifest_recovery:
  assumes "internal_keys c valid" "manifest_inv c valid H env vs logged" "vs_descriptor_log vs \<noteq> None"
    and "env_ok crashed H'" "file_contents crashed (CurrentFileName (vs_dbname vs)) = file_contents env (CurrentFileName (vs_dbname vs))"
    and "file_contents crashed (DescriptorFileName (vs_dbname vs) (vs_manifest_file_number vs)) = Some (take n (manifest_image logged))"
    and "length (manifest_image (take 2 logged)) \<le> n" "length (ascii (Name c)) < 2 ^ 32"
  shows "\<exists>k save env' vs'. Recover InMemoryEnv_Env crashed (VersionSet_new (vs_dbname vs) options c) = Some (OK, save, env', vs') \<and>
    2 \<le> k \<and> k \<le> length logged \<and> length (manifest_image (take k logged)) \<le> n \<and>
    (k < length logged \<longrightarrow> n < length (manifest_image (take (Suc k) logged))) \<and> vset_inv c valid vs' {#} (live_refs vs' {#}) {} \<and>
    (\<forall>l < kNumLevels. current_levels vs' l = manifest_levels (take k logged) l) \<and>
    vs_compact_pointer vs' = fold point (take k logged) (replicate kNumLevels []) \<and>
    vs_log_number vs' = ve_log_number (logged ! (k - 1)) \<and> vs_prev_log_number vs' = ve_prev_log_number (logged ! (k - 1)) \<and>
    vs_last_sequence vs' = ve_last_sequence (logged ! (k - 1)) \<and> vs_next_file_number vs' = ve_next_file_number (logged ! (k - 1)) + 1 \<and>
    (length (manifest_image logged) \<le> n \<longrightarrow> k = length logged \<and> (\<forall>l < kNumLevels. current_levels vs' l = current_levels vs l) \<and>
       manifest_inv c valid H' env' vs' (if save then [] else logged))"
proof -
  let ?n = "vs_manifest_file_number vs"
  have m: "manifest_ok c valid logged"
    "file_contents crashed (CurrentFileName (vs_dbname vs)) = Some (ascii ''MANIFEST-'' @ zero_padded 6 (unat ?n) @ [0x0A])"
    "\<forall>l < kNumLevels. current_levels vs l = manifest_levels logged l"
    using assms(2,3,5) by (auto simp: manifest_inv_def)
  from Recover_run [OF assms(1) m(1) assms(4) m(2) assms(6,7) HOL.refl, of options] obtain k reused env' vs' where R:
    "Recover InMemoryEnv_Env crashed (VersionSet_new (vs_dbname vs) options c) = Some (OK, \<not> reused, env', vs')"
    "2 \<le> k" "k \<le> length logged" "length (manifest_image logged) \<le> n \<longrightarrow> k = length logged"
    "length (manifest_image (take k logged)) \<le> n" "k < length logged \<longrightarrow> n < length (manifest_image (take (Suc k) logged))"
    "vset_inv c valid vs' {#} (live_refs vs' {#}) {}" "vs_current vs' \<noteq> None"
    "\<forall>l < kNumLevels. current_levels vs' l = manifest_levels (take k logged) l"
    "vs_compact_pointer vs' = fold point (take k logged) (replicate kNumLevels [])" "vs_dbname vs' = vs_dbname vs"
    "vs_log_number vs' = ve_log_number (logged ! (k - 1))" "vs_prev_log_number vs' = ve_prev_log_number (logged ! (k - 1))"
    "vs_last_sequence vs' = ve_last_sequence (logged ! (k - 1))" "vs_next_file_number vs' = ve_next_file_number (logged ! (k - 1)) + 1"
    "file_contents env' = file_contents crashed"
    "if reused then \<exists>a. vs_descriptor_log vs' = Some (Writer_reopen (Some a) (length (take n (manifest_image logged)))) \<and>
        env_ok env' (add_mset a H') \<and> map_of (file_map env') (DescriptorFileName (vs_dbname vs) ?n) = Some (Some a) \<and> vs_manifest_file_number vs' = ?n
      else vs_descriptor_log vs' = None \<and> env_ok env' H'"
    by (elim exE conjE) (rule that; assumption)
  have "k = length logged \<and> (\<forall>l < kNumLevels. current_levels vs' l = current_levels vs l) \<and>
      manifest_inv c valid H' env' vs' (if \<not> reused then [] else logged)" if whole: "length (manifest_image logged) \<le> n"
  proof -
    have k: "k = length logged" using R(4) whole by blast
    have ne: "logged \<noteq> []" using m(1) by (auto simp: manifest_ok_def)
    have t: "take k logged = logged" "logged ! (k - 1) = last logged" using k ne by (simp_all add: last_conv_nth)
    have img: "take n (manifest_image logged) = manifest_image logged" using whole by simp
    have "manifest_inv c valid H' env' vs' (if reused then logged else [])"
    proof (rule manifest_inv_recovered [OF m(1) R(7,8)])
      show "file_contents env' (DescriptorFileName (vs_dbname vs') ?n) = Some (manifest_image logged)"
        using assms(6) by (simp add: R(11,16) img)
      show "file_contents env' (CurrentFileName (vs_dbname vs')) = Some (ascii ''MANIFEST-'' @ zero_padded 6 (unat ?n) @ [0x0A])"
        using m(2) by (simp add: R(11,16))
    qed (use R(9,10,12,13,17) assms(8) in \<open>simp_all only: t img R(11)\<close>)
    then show ?thesis using k R(9) m(3) by (cases reused) (simp_all add: t)
  qed
  then show ?thesis using R by blast
qed

theorem manifest_recovery_witness:
  "\<exists>env vs save env' vs'. LogAndApply InMemoryEnv_Env VersionSteps.demo_edit NewMemEnv (VersionSet_new (ascii ''/db'') Options_new BytewiseComparator) =
      (OK, prepare_edit (VersionSet_new (ascii ''/db'') Options_new BytewiseComparator :: ptr VersionSet) VersionSteps.demo_edit, env, vs) \<and>
    Recover InMemoryEnv_Env env (VersionSet_new (ascii ''/db'') Options_new BytewiseComparator) = Some (OK, save, env', vs') \<and>
    (\<forall>l < kNumLevels. current_levels vs' l = current_levels vs l)"
proof -
  let ?vs = "VersionSet_new (ascii ''/db'') Options_new BytewiseComparator :: ptr VersionSet"
  have cur: "vs_current ?vs = Some 0" and none: "vs_descriptor_log ?vs = None" by simp_all
  have "logged_and_applied BytewiseComparator (\<lambda>_. True) {#} {#} NewMemEnv ?vs [] VersionSteps.demo_edit"
    by (rule bytewise_ik.LogAndApply_new_descriptor [OF new_version_set_inv [OF bytewise_ik.internal_keys_axioms HOL.refl] cur
        new_manifest_inv [OF NewMemEnv_ok bytewise_name_short] demo_loggable none])
  then obtain env vs snap where L: "LogAndApply InMemoryEnv_Env VersionSteps.demo_edit NewMemEnv ?vs = (OK, prepare_edit ?vs VersionSteps.demo_edit, env, vs)"
    "vs_descriptor_log vs \<noteq> None" "manifest_inv BytewiseComparator (\<lambda>_. True) {#} env vs (snap @ [] @ [prepare_edit ?vs VersionSteps.demo_edit])"
    "vs_dbname vs = vs_dbname ?vs"
    unfolding logged_and_applied_def by (elim exE conjE) (rule that; assumption)
  let ?logged = "snap @ [] @ [prepare_edit ?vs VersionSteps.demo_edit]"
  have ok: "manifest_ok BytewiseComparator (\<lambda>_. True) ?logged" using L(2,3) by (auto simp: manifest_inv_def)
  obtain a where a: "env_ok env (add_mset a {#})"
    "file_contents env (DescriptorFileName (vs_dbname vs) (vs_manifest_file_number vs)) = Some (take (length (manifest_image ?logged)) (manifest_image ?logged))"
    using L(2,3) by (auto simp: manifest_inv_def descriptor_at_def)
  have two: "length (manifest_image (take 2 ?logged)) \<le> length (manifest_image ?logged)"
    using manifest_image_mono [of 2 ?logged "length ?logged"] by simp
  obtain save env' vs' where "Recover InMemoryEnv_Env env (VersionSet_new (vs_dbname vs) Options_new BytewiseComparator) = Some (OK, save, env', vs')"
    "\<forall>l < kNumLevels. current_levels vs' l = current_levels vs l"
    using manifest_recovery [OF bytewise_ik.internal_keys_axioms L(3,2) a(1) HOL.refl a(2) two bytewise_name_short, of Options_new] by auto
  then show ?thesis using L(1,4) by auto
qed

end
