(* ===== verification/Ring.thy ===== *)
theory Ring
  imports Prelude
begin

section \<open>Circular doubly-linked lists\<close>

text \<open>
  The database keeps its snapshots, and the cache its entries, in circular lists whose nodes
  carry their own links, around a dummy head. The links of all nodes form one store; \<open>ring l h xs\<close>
  says that the nodes \<open>xs\<close> hang, in order, on the head \<open>h\<close>.
\<close>

record Links =
  ln_next :: "nat \<Rightarrow> nat"
  ln_prev :: "nat \<Rightarrow> nat"

definition set_next :: "nat \<Rightarrow> nat \<Rightarrow> Links \<Rightarrow> Links" where
  "set_next a b l = l\<lparr>ln_next := (ln_next l)(a := b)\<rparr>"

definition set_prev :: "nat \<Rightarrow> nat \<Rightarrow> Links \<Rightarrow> Links" where
  "set_prev a b l = l\<lparr>ln_prev := (ln_prev l)(a := b)\<rparr>"

lemma link_simps [simp]:
  "ln_next (set_next a b l) x = (if x = a then b else ln_next l x)" "ln_prev (set_next a b l) x = ln_prev l x"
  "ln_prev (set_prev a b l) x = (if x = a then b else ln_prev l x)" "ln_next (set_prev a b l) x = ln_next l x"
  by (simp_all add: set_next_def set_prev_def)

fun linked :: "Links \<Rightarrow> nat list \<Rightarrow> bool" where
  "linked l (a # b # xs) \<longleftrightarrow> ln_next l a = b \<and> ln_prev l b = a \<and> linked l (b # xs)"
| "linked l _ \<longleftrightarrow> True"

definition ring :: "Links \<Rightarrow> nat \<Rightarrow> nat list \<Rightarrow> bool" where
  "ring l h xs \<longleftrightarrow> distinct (h # xs) \<and> linked l (h # xs @ [h])"

text \<open>The two operations: insertion before the head, and removal of a node.\<close>

definition link_last :: "nat \<Rightarrow> nat \<Rightarrow> Links \<Rightarrow> Links" where
  "link_last h e l =
     (let l = set_next e h l;
          l = set_prev e (ln_prev l h) l;
          l = set_next (ln_prev l e) e l
      in set_prev (ln_next l e) e l)"

definition unlink :: "nat \<Rightarrow> Links \<Rightarrow> Links" where
  "unlink e l =
     (let l = set_prev (ln_next l e) (ln_prev l e) l
      in set_next (ln_prev l e) (ln_next l e) l)"

lemma linked_append:
  "linked l (xs @ [a]) \<Longrightarrow> linked l (a # ys) \<Longrightarrow> linked l (xs @ a # ys)"
  by (induction xs rule: induct_list012) auto

lemma linked_appendD:
  "linked l (xs @ a # ys) \<Longrightarrow> linked l (xs @ [a]) \<and> linked l (a # ys)"
  by (induction xs rule: induct_list012) auto

lemma linked_split: "linked l (xs @ a # ys) \<longleftrightarrow> linked l (xs @ [a]) \<and> linked l (a # ys)"
  using linked_append linked_appendD by blast

text \<open>Links between nodes other than those changed stay.\<close>

lemma linked_cong:
  "(\<And>x. x \<in> set (butlast xs) \<Longrightarrow> ln_next l' x = ln_next l x) \<Longrightarrow> (\<And>x. x \<in> set (tl xs) \<Longrightarrow> ln_prev l' x = ln_prev l x) \<Longrightarrow>
   linked l' xs \<longleftrightarrow> linked l xs"
proof (induction xs rule: induct_list012)
  case (3 a b xs)
  have "linked l' (b # xs) \<longleftrightarrow> linked l (b # xs)"
    by (rule "3.IH"(2)) (use "3.prems" in \<open>auto split: if_splits dest: list.set_sel(2) [rotated]\<close>)
  then show ?case using "3.prems" by simp
qed simp_all

lemma ring_new: "ln_next l h = h \<Longrightarrow> ln_prev l h = h \<Longrightarrow> ring l h []"
  by (simp add: ring_def)

lemma ring_first: "ring l h xs \<Longrightarrow> ln_next l h = (case xs of [] \<Rightarrow> h | x # _ \<Rightarrow> x)"
  by (cases xs) (auto simp: ring_def)

lemma ring_last:
  assumes "ring l h xs"
  shows "ln_prev l h = (if xs = [] then h else last xs)"
proof (cases xs rule: rev_cases)
  case (snoc ys y)
  then have "linked l ((h # ys) @ y # [h])" using assms by (simp add: ring_def)
  from linked_appendD [OF this] show ?thesis using snoc by simp
qed (use assms in \<open>simp add: ring_def\<close>)

text \<open>The links determine the nodes.\<close>

lemma ring_unique: "ring l h xs \<Longrightarrow> ring l h ys \<Longrightarrow> xs = ys"
proof -
  have "linked l (a # xs @ [h]) \<Longrightarrow> linked l (a # ys @ [h]) \<Longrightarrow> h \<notin> set xs \<Longrightarrow> h \<notin> set ys \<Longrightarrow> xs = ys" for a
  proof (induction xs arbitrary: a ys)
    case Nil
    then show ?case by (cases ys) auto
  next
    case (Cons x xs)
    then show ?case by (cases ys) auto
  qed
  then show "ring l h xs \<Longrightarrow> ring l h ys \<Longrightarrow> xs = ys" unfolding ring_def by (metis append_Cons distinct.simps(2))
qed

text \<open>The neighbours of a node in the ring.\<close>

lemma ring_node:
  assumes "ring l h (xs @ e # ys)"
  shows "ln_prev l e = last (h # xs)" "ln_next l e = hd (ys @ [h])"
proof -
  have "linked l ((h # xs) @ e # ys @ [h])" using assms by (simp add: ring_def)
  from linked_appendD [OF this] have a: "linked l ((h # xs) @ [e])" "linked l (e # ys @ [h])" by simp_all
  show "ln_next l e = hd (ys @ [h])" using a(2) by (cases ys) simp_all
  show "ln_prev l e = last (h # xs)"
  proof (cases xs rule: rev_cases)
    case (snoc zs z)
    then have "linked l ((h # zs) @ z # [e])" using a(1) by simp
    from linked_appendD [OF this] show ?thesis using snoc by simp
  qed (use a(1) in simp)
qed

lemma ring_link_last:
  assumes r: "ring l h xs" and e: "e \<notin> set (h # xs)"
  shows "ring (link_last h e l) h (xs @ [e])"
proof -
  let ?l = "link_last h e l" and ?z = "last (h # xs)"
  have z: "ln_prev l h = ?z" using ring_last [OF r] by simp
  have zi: "?z \<in> set (h # xs)" by (rule last_in_set) simp
  have nz: "?z \<noteq> e" "h \<noteq> e" using e zi by auto
  have n: "ln_next ?l x = (if x = ?z then e else if x = e then h else ln_next l x)"
    and p: "ln_prev ?l x = (if x = h then e else if x = e then ?z else ln_prev l x)" for x
    using nz by (auto simp: link_last_def Let_def z)
  have split: "h # xs = butlast (h # xs) @ [?z]" by simp
  have d: "distinct (h # xs)" using r by (simp add: ring_def)
  have zb: "?z \<notin> set (butlast (h # xs))" using d by (subst (asm) split) simp
  have "linked l ((h # xs) @ [h])" using r by (simp add: ring_def)
  then have "linked l (butlast (h # xs) @ ?z # [h])" by (subst (asm) split) simp
  then have old: "linked l (butlast (h # xs) @ [?z])" using linked_appendD by blast
  then have "linked ?l (h # xs)"
  proof -
    have "linked ?l (butlast (h # xs) @ [?z]) \<longleftrightarrow> linked l (butlast (h # xs) @ [?z])"
    proof (rule linked_cong)
      show "ln_next ?l x = ln_next l x" if "x \<in> set (butlast (butlast (h # xs) @ [?z]))" for x
        using that zb e n in_set_butlastD [of x "h # xs"] by auto
      show "ln_prev ?l x = ln_prev l x" if "x \<in> set (tl (butlast (h # xs) @ [?z]))" for x
        using that d e p unfolding split [symmetric] by auto
    qed
    then show ?thesis using old unfolding split [symmetric] by simp
  qed
  then have "linked ?l (butlast (h # xs) @ [?z])" unfolding split [symmetric] .
  moreover have "linked ?l (?z # [e, h])" using n p nz by simp
  ultimately have "linked ?l (butlast (h # xs) @ ?z # [e, h])" by (rule linked_append)
  then have "linked ?l ((butlast (h # xs) @ [?z]) @ [e, h])" by simp
  then have "linked ?l (h # (xs @ [e]) @ [h])" unfolding split [symmetric] by simp
  then show ?thesis using d e by (simp add: ring_def)
qed

lemma ring_unlink:
  assumes r: "ring l h (xs @ e # ys)"
  shows "ring (unlink e l) h (xs @ ys)"
proof -
  let ?l = "unlink e l" and ?z = "last (h # xs)" and ?y = "hd (ys @ [h])"
  note nd = ring_node [OF r]
  have d: "distinct (h # xs @ e # ys)" using r by (simp add: ring_def)
  have zi: "?z \<in> set (h # xs)" by (rule last_in_set) simp
  have yi: "?y \<in> set (ys @ [h])" by (rule hd_in_set) simp
  have ne: "?y \<noteq> e" "?z \<noteq> e" using zi yi d by auto
  have n: "ln_next ?l x = (if x = ?z then ?y else ln_next l x)" and p: "ln_prev ?l x = (if x = ?y then ?z else ln_prev l x)" for x
    using ne by (auto simp: unlink_def Let_def nd)
  have s1: "h # xs = butlast (h # xs) @ [?z]" by simp
  have s2: "ys @ [h] = ?y # tl (ys @ [h])" by (cases ys) simp_all
  have "linked l ((h # xs) @ e # ys @ [h])" using r by (simp add: ring_def)
  from linked_appendD [OF this] have a: "linked l ((h # xs) @ [e])" "linked l (e # ys @ [h])" by simp_all
  have "linked l (butlast (h # xs) @ ?z # [e])" using a(1) by (subst (asm) s1) simp
  then have o1: "linked l (butlast (h # xs) @ [?z])" using linked_appendD by blast
  have o2: "linked l (ys @ [h])" using a(2) by (cases ys) simp_all
  have zb: "?z \<notin> set (butlast (h # xs))"
  proof -
    have "distinct (h # xs)" using d by simp
    then show ?thesis by (subst (asm) s1) simp
  qed
  have l1: "linked ?l (butlast (h # xs) @ [?z])"
  proof -
    have "linked ?l (butlast (h # xs) @ [?z]) \<longleftrightarrow> linked l (butlast (h # xs) @ [?z])"
    proof (rule linked_cong)
      show "ln_next ?l x = ln_next l x" if "x \<in> set (butlast (butlast (h # xs) @ [?z]))" for x
        using that zb n by auto
      show "ln_prev ?l x = ln_prev l x" if "x \<in> set (tl (butlast (h # xs) @ [?z]))" for x
      proof -
        have "x \<in> set xs" using that unfolding s1 [symmetric] by simp
        then have "x \<noteq> ?y" using d yi by auto
        then show ?thesis using p by simp
      qed
    qed
    then show ?thesis using o1 by simp
  qed
  have l2: "linked ?l (ys @ [h])"
  proof -
    have "linked ?l (ys @ [h]) \<longleftrightarrow> linked l (ys @ [h])"
    proof (rule linked_cong)
      show "ln_next ?l x = ln_next l x" if "x \<in> set (butlast (ys @ [h]))" for x
      proof -
        have "x \<noteq> ?z" using that d zi by auto
        then show ?thesis using n by simp
      qed
      show "ln_prev ?l x = ln_prev l x" if x: "x \<in> set (tl (ys @ [h]))" for x
      proof -
        have "distinct (ys @ [h])" using d by auto
        then have "?y \<notin> set (tl (ys @ [h]))" by (metis distinct.simps(2) s2)
        then show ?thesis using p x by auto
      qed
    qed
    then show ?thesis using o2 by simp
  qed
  have l2': "linked ?l (?y # tl (ys @ [h]))" using l2 by (simp only: s2 [symmetric])
  have "ln_next ?l ?z = ?y" "ln_prev ?l ?y = ?z" unfolding n p by simp_all
  then have "linked ?l (?z # ?y # tl (ys @ [h]))" using l2' by (simp only: linked.simps simp_thms)
  then have "linked ?l (butlast (h # xs) @ ?z # ?y # tl (ys @ [h]))" by (rule linked_append [OF l1])
  then have "linked ?l ((butlast (h # xs) @ [?z]) @ ?y # tl (ys @ [h]))" by simp
  then have "linked ?l (h # (xs @ ys) @ [h])" unfolding s1 [symmetric] s2 [symmetric] by simp
  then show ?thesis using d by (simp add: ring_def)
qed

text \<open>Nothing happens to a ring that has none of the nodes concerned.\<close>

lemma ring_cong:
  assumes "ring l h xs" "\<And>x. x \<in> set (h # xs) \<Longrightarrow> ln_next l' x = ln_next l x \<and> ln_prev l' x = ln_prev l x"
  shows "ring l' h xs"
proof -
  have "linked l' (h # xs @ [h]) \<longleftrightarrow> linked l (h # xs @ [h])"
    by (rule linked_cong) (use assms(2) in auto)
  then show ?thesis using assms(1) by (simp add: ring_def)
qed

lemma ring_unlink_other:
  assumes r: "ring l h (xs @ e # ys)" and o: "ring l h' zs" "set (h' # zs) \<inter> set (h # xs @ e # ys) = {}"
  shows "ring (unlink e l) h' zs"
proof (rule ring_cong [OF o(1)])
  fix x assume x: "x \<in> set (h' # zs)"
  note nd = ring_node [OF r]
  have zi: "last (h # xs) \<in> set (h # xs)" by (rule last_in_set) simp
  have yi: "hd (ys @ [h]) \<in> set (ys @ [h])" by (rule hd_in_set) simp
  have "x \<noteq> last (h # xs)" "x \<noteq> hd (ys @ [h])" using x o(2) zi yi by auto
  moreover have "hd (ys @ [h]) \<noteq> e" using r yi by (auto simp: ring_def)
  ultimately show "ln_next (unlink e l) x = ln_next l x \<and> ln_prev (unlink e l) x = ln_prev l x"
    by (simp add: unlink_def Let_def nd)
qed

lemma ring_link_last_other:
  assumes r: "ring l h xs" and o: "ring l h' zs" "set (h' # zs) \<inter> set (e # h # xs) = {}"
  shows "ring (link_last h e l) h' zs"
proof (rule ring_cong [OF o(1)])
  fix x assume x: "x \<in> set (h' # zs)"
  have z: "ln_prev l h = last (h # xs)" using ring_last [OF r] by simp
  have zi: "last (h # xs) \<in> set (h # xs)" by (rule last_in_set) simp
  have "x \<noteq> last (h # xs)" "x \<noteq> e" "x \<noteq> h" using x o(2) zi by auto
  moreover have "ln_next (link_last h e l) y = (if y = last (h # xs) then e else if y = e then h else ln_next l y)"
    "ln_prev (link_last h e l) y = (if y = ln_next (set_next (last (h # xs)) e (set_next e h l)) e then e else if y = e then last (h # xs) else ln_prev l y)" for y
    by (auto simp: link_last_def Let_def z)
  ultimately show "ln_next (link_last h e l) x = ln_next l x \<and> ln_prev (link_last h e l) x = ln_prev l x"
    by auto
qed

end
