(* ===== verification/HandleTable.thy ===== *)
theory HandleTable
  imports Bloom Ring
begin

section \<open>The hash table of the cache (\<^verbatim>\<open>util/cache.cc\<close>)\<close>

text \<open>
  A handle of the cache lives at an address of a heap; its bucket's chain runs through the field
  \<open>hd_next_hash\<close>. \<open>FindPointer\<close> returns the place of a pointer, a bucket or a field of a handle,
  so that the caller can overwrite it. The value \<open>None\<close> is an access to freed memory or a loop
  that does not end. The function that deletes a value is not kept in the handle; its calls are
  logged by the cache.
\<close>

record 'v LRUHandle =
  hd_value :: 'v
  hd_next_hash :: "nat option"
  hd_charge :: u64
  hd_in_cache :: bool
  hd_refs :: u32
  hd_hash :: u32
  hd_key :: bytes

type_synonym 'v HandleHeap = "nat \<Rightarrow> 'v LRUHandle option"

record HandleTable =
  ht_length :: u32
  ht_elems :: u32
  ht_list :: "nat option list"

datatype Slot = Bucket nat | NextHash nat

fun slot_read :: "'v HandleHeap \<Rightarrow> HandleTable \<Rightarrow> Slot \<Rightarrow> nat option option" where
  "slot_read h t (Bucket i) = (if i < length (ht_list t) then Some (ht_list t ! i) else None)"
| "slot_read h t (NextHash a) = map_option hd_next_hash (h a)"

definition set_next_hash :: "nat \<Rightarrow> nat option \<Rightarrow> 'v HandleHeap \<Rightarrow> 'v HandleHeap" where
  "set_next_hash a p h = h(a := map_option (\<lambda>e. e\<lparr>hd_next_hash := p\<rparr>) (h a))"

fun slot_write :: "Slot \<Rightarrow> nat option \<Rightarrow> 'v HandleHeap \<times> HandleTable \<Rightarrow> 'v HandleHeap \<times> HandleTable" where
  "slot_write (Bucket i) p (h, t) = (h, t\<lparr>ht_list := (ht_list t)[i := p]\<rparr>)"
| "slot_write (NextHash a) p (h, t) = (set_next_hash a p h, t)"

definition bucket_of :: "u32 \<Rightarrow> u32 \<Rightarrow> nat" where
  "bucket_of len hash = unat (hash AND (len - 1))"

partial_function (option) FindPointer_loop ::
    "'v HandleHeap \<Rightarrow> HandleTable \<Rightarrow> bytes \<Rightarrow> u32 \<Rightarrow> Slot \<Rightarrow> Slot option" where
  "FindPointer_loop h t key hash ptr =
     Option.bind (slot_read h t ptr) (\<lambda>p.
       case p of None \<Rightarrow> Some ptr
       | Some a \<Rightarrow> Option.bind (h a) (\<lambda>e.
           if hd_hash e \<noteq> hash \<or> key \<noteq> hd_key e then FindPointer_loop h t key hash (NextHash a) else Some ptr))"

definition FindPointer :: "'v HandleHeap \<Rightarrow> HandleTable \<Rightarrow> bytes \<Rightarrow> u32 \<Rightarrow> Slot option" where
  "FindPointer h t key hash = FindPointer_loop h t key hash (Bucket (bucket_of (ht_length t) hash))"

definition HandleTable_Lookup :: "'v HandleHeap \<Rightarrow> HandleTable \<Rightarrow> bytes \<Rightarrow> u32 \<Rightarrow> nat option option" where
  "HandleTable_Lookup h t key hash = Option.bind (FindPointer h t key hash) (slot_read h t)"

subsection \<open>Resizing\<close>

partial_function (option) new_length_loop :: "u32 \<Rightarrow> u32 \<Rightarrow> u32 option" where
  "new_length_loop new_length elems =
     (if new_length < elems then new_length_loop (new_length * 2) elems else Some new_length)"

partial_function (option) move_chain ::
    "u32 \<Rightarrow> nat option \<Rightarrow> 'v HandleHeap \<Rightarrow> nat option list \<Rightarrow> ('v HandleHeap \<times> nat option list) option" where
  "move_chain new_length p h new_list =
     (case p of None \<Rightarrow> Some (h, new_list)
      | Some a \<Rightarrow> Option.bind (h a) (\<lambda>e.
          let i = bucket_of new_length (hd_hash e)
          in move_chain new_length (hd_next_hash e) (set_next_hash a (new_list ! i) h) (new_list[i := Some a])))"

fun move_buckets ::
    "u32 \<Rightarrow> nat option list \<Rightarrow> 'v HandleHeap \<Rightarrow> nat option list \<Rightarrow> ('v HandleHeap \<times> nat option list) option" where
  "move_buckets new_length [] h new_list = Some (h, new_list)"
| "move_buckets new_length (p # ps) h new_list =
     Option.bind (move_chain new_length p h new_list) (\<lambda>(h, new_list). move_buckets new_length ps h new_list)"

definition Resize :: "'v HandleHeap \<times> HandleTable \<Rightarrow> ('v HandleHeap \<times> HandleTable) option" where
  "Resize ht =
     (case ht of (h, t) \<Rightarrow>
        Option.bind (new_length_loop 4 (ht_elems t)) (\<lambda>new_length.
        map_option (\<lambda>(h, new_list). (h, t\<lparr>ht_list := new_list, ht_length := new_length\<rparr>))
          (move_buckets new_length (ht_list t) h (replicate (unat new_length) None))))"

definition HandleTable_new :: "'v HandleHeap \<Rightarrow> ('v HandleHeap \<times> HandleTable) option" where
  "HandleTable_new h = Resize (h, \<lparr>ht_length = 0, ht_elems = 0, ht_list = []\<rparr>)"

subsection \<open>Insertion and removal\<close>

definition HandleTable_Insert ::
    "nat \<Rightarrow> 'v HandleHeap \<times> HandleTable \<Rightarrow> (nat option \<times> 'v HandleHeap \<times> HandleTable) option" where
  "HandleTable_Insert a ht =
     (case ht of (h, t) \<Rightarrow>
        Option.bind (h a) (\<lambda>e.
        Option.bind (FindPointer h t (hd_key e) (hd_hash e)) (\<lambda>ptr.
        Option.bind (slot_read h t ptr) (\<lambda>old.
        Option.bind (case old of None \<Rightarrow> Some None | Some b \<Rightarrow> map_option hd_next_hash (h b)) (\<lambda>next_hash.
          let (h, t) = slot_write ptr (Some a) (set_next_hash a next_hash h, t)
          in if old = None then
               (let t = t\<lparr>ht_elems := ht_elems t + 1\<rparr>
                in if ht_length t < ht_elems t then map_option (Pair None) (Resize (h, t)) else Some (None, h, t))
             else Some (old, h, t))))))"

definition HandleTable_Remove ::
    "bytes \<Rightarrow> u32 \<Rightarrow> 'v HandleHeap \<times> HandleTable \<Rightarrow> (nat option \<times> 'v HandleHeap \<times> HandleTable) option" where
  "HandleTable_Remove key hash ht =
     (case ht of (h, t) \<Rightarrow>
        Option.bind (FindPointer h t key hash) (\<lambda>ptr.
        Option.bind (slot_read h t ptr) (\<lambda>result.
          case result of None \<Rightarrow> Some (None, h, t)
          | Some b \<Rightarrow> map_option (\<lambda>next_hash.
              let (h, t) = slot_write ptr next_hash (h, t) in (Some b, h, t\<lparr>ht_elems := ht_elems t - 1\<rparr>))
              (map_option hd_next_hash (h b)))))"

subsection \<open>Chains\<close>

fun chain :: "'v HandleHeap \<Rightarrow> nat option \<Rightarrow> nat list \<Rightarrow> bool" where
  "chain h p [] \<longleftrightarrow> p = None"
| "chain h p (a # xs) \<longleftrightarrow> p = Some a \<and> (\<exists>e. h a = Some e \<and> chain h (hd_next_hash e) xs)"

definition payload :: "'v HandleHeap \<Rightarrow> 'v HandleHeap" where
  "payload h = (\<lambda>a. map_option (\<lambda>e. e\<lparr>hd_next_hash := None\<rparr>) (h a))"

lemma payload_set_next_hash [simp]: "payload (set_next_hash a p h) = payload h"
  by (rule ext) (simp add: payload_def set_next_hash_def option.map_comp o_def)

lemma set_next_hash_other [simp]: "b \<noteq> a \<Longrightarrow> set_next_hash a p h b = h b"
  by (simp add: set_next_hash_def)

lemma payload_Some:
  assumes "payload h' = payload h" "h a = Some e"
  shows "\<exists>p. h' a = Some (e\<lparr>hd_next_hash := p\<rparr>)"
proof -
  have "map_option (\<lambda>e. e\<lparr>hd_next_hash := None\<rparr>) (h' a) = map_option (\<lambda>e. e\<lparr>hd_next_hash := None\<rparr>) (h a)"
    using fun_cong [OF assms(1), of a] by (simp add: payload_def)
  then obtain e' where e': "h' a = Some e'" "e'\<lparr>hd_next_hash := None\<rparr> = e\<lparr>hd_next_hash := None\<rparr>"
    using assms(2) by (cases "h' a") auto
  then have "e' = e\<lparr>hd_next_hash := hd_next_hash e'\<rparr>" by (cases e, cases e') simp
  then show ?thesis using e'(1) by metis
qed

lemma payload_None: "payload h' = payload h \<Longrightarrow> h a = None \<longleftrightarrow> h' a = None"
  by (drule fun_cong [of _ _ a]) (auto simp: payload_def dest: sym)

lemma chain_dom: "chain h p xs \<Longrightarrow> a \<in> set xs \<Longrightarrow> \<exists>e. h a = Some e"
  by (induction xs arbitrary: p) auto

lemma chain_cong: "(\<And>a. a \<in> set xs \<Longrightarrow> h' a = h a) \<Longrightarrow> chain h' p xs \<longleftrightarrow> chain h p xs"
  by (induction xs arbitrary: p) auto

lemma chain_set_other [simp]: "a \<notin> set xs \<Longrightarrow> chain (set_next_hash a q h) p xs \<longleftrightarrow> chain h p xs"
  by (rule chain_cong) (auto simp: set_next_hash_def)

text \<open>The place behind the first part of a chain, and what overwriting it does.\<close>

definition slot_at :: "nat \<Rightarrow> nat list \<Rightarrow> Slot" where
  "slot_at i us = (if us = [] then Bucket i else NextHash (last us))"

lemma chain_rest:
  "chain h p (us @ vs) \<Longrightarrow> us \<noteq> [] \<Longrightarrow> \<exists>e. h (last us) = Some e \<and> chain h (hd_next_hash e) vs"
proof (induction us arbitrary: p)
  case (Cons a us)
  then show ?case by (cases us) auto
qed simp

lemma chain_overwrite:
  "chain h p (us @ vs) \<Longrightarrow> us \<noteq> [] \<Longrightarrow> distinct us \<Longrightarrow> chain h q ws \<Longrightarrow> set us \<inter> set ws = {} \<Longrightarrow>
   chain (set_next_hash (last us) q h) p (us @ ws)"
proof (induction us arbitrary: p)
  case (Cons a us)
  obtain e where e: "p = Some a" "h a = Some e" "chain h (hd_next_hash e) (us @ vs)" using Cons.prems(1) by auto
  show ?case
  proof (cases "us = []")
    case True
    then have "set_next_hash a q h a = Some (e\<lparr>hd_next_hash := q\<rparr>)" using e by (simp add: set_next_hash_def)
    moreover have "chain (set_next_hash a q h) q ws" using Cons.prems by simp
    ultimately show ?thesis using e(1) True by simp
  next
    case False
    have "chain (set_next_hash (last us) q h) (hd_next_hash e) (us @ ws)"
      by (rule Cons.IH [OF e(3) False]) (use Cons.prems in auto)
    moreover have "set_next_hash (last us) q h a = Some e"
      using e(2) Cons.prems(3) False last_in_set [OF False] by (intro trans [OF set_next_hash_other]) auto
    ultimately show ?thesis using e(1) False by simp
  qed
qed simp


subsection \<open>The table holds a set of handles\<close>

definition is_entry :: "'v HandleHeap \<Rightarrow> bytes \<Rightarrow> u32 \<Rightarrow> nat \<Rightarrow> bool" where
  "is_entry h key hash a \<longleftrightarrow> (\<exists>e. h a = Some e \<and> hd_key e = key \<and> hd_hash e = hash)"

definition in_bucket :: "'v HandleHeap \<Rightarrow> u32 \<Rightarrow> nat \<Rightarrow> nat \<Rightarrow> bool" where
  "in_bucket h len i a \<longleftrightarrow> (\<exists>e. h a = Some e \<and> bucket_of len (hd_hash e) = i)"

definition bucket_ok :: "'v HandleHeap \<Rightarrow> u32 \<Rightarrow> nat \<Rightarrow> nat option \<Rightarrow> nat list \<Rightarrow> bool" where
  "bucket_ok h len i p xs \<longleftrightarrow> chain h p xs \<and> distinct xs \<and> (\<forall>a \<in> set xs. in_bucket h len i a)"

definition buckets_ok :: "'v HandleHeap \<Rightarrow> u32 \<Rightarrow> nat option list \<Rightarrow> nat list list \<Rightarrow> nat set \<Rightarrow> bool" where
  "buckets_ok h len ps cs A \<longleftrightarrow> length ps = unat len \<and> length cs = unat len \<and>
     (\<forall>i < unat len. bucket_ok h len i (ps ! i) (cs ! i)) \<and> A = (\<Union>i < unat len. set (cs ! i))"

definition power2 :: "u32 \<Rightarrow> bool" where
  "power2 len \<longleftrightarrow> (\<exists>k < 32. len = 2 ^ k)"

definition one_entry :: "'v HandleHeap \<Rightarrow> nat set \<Rightarrow> bool" where
  "one_entry h A \<longleftrightarrow> (\<forall>a \<in> A. \<forall>b \<in> A. \<forall>key hash. is_entry h key hash a \<longrightarrow> is_entry h key hash b \<longrightarrow> a = b)"

definition table_holds :: "'v HandleHeap \<Rightarrow> HandleTable \<Rightarrow> nat set \<Rightarrow> bool" where
  "table_holds h t A \<longleftrightarrow> (\<exists>cs. buckets_ok h (ht_length t) (ht_list t) cs A) \<and>
     unat (ht_elems t) = card A \<and> power2 (ht_length t) \<and> one_entry h A"

lemma bucket_bound:
  assumes "power2 len"
  shows "bucket_of len hash < unat len"
proof -
  obtain k where k: "k < 32" "len = 2 ^ k" using assms by (auto simp: power2_def)
  have "hash AND (len - 1) = take_bit k hash" unfolding k(2) by (simp add: take_bit_eq_mask mask_eq_exp_minus_1)
  then have "unat (hash AND (len - 1)) = take_bit k (unat hash)" by (simp only: unsigned_take_bit_eq)
  then have "unat (hash AND (len - 1)) < 2 ^ k" by (simp add: take_bit_nat_less_exp)
  moreover have "unat len = 2 ^ k"
  proof -
    have "(2 :: nat) ^ k < 2 ^ 32" using k(1) by (intro power_strict_increasing) simp_all
    from unat_of_nat_u32 [OF this] show ?thesis using k(2) by simp
  qed
  ultimately show ?thesis by (simp add: bucket_of_def)
qed

lemma same_payload:
  assumes "payload h' = payload h"
  shows "is_entry h' key hash a \<longleftrightarrow> is_entry h key hash a" "in_bucket h' len i a \<longleftrightarrow> in_bucket h len i a"
proof -
  show "is_entry h' key hash a \<longleftrightarrow> is_entry h key hash a"
    using payload_Some [OF assms, of a] payload_Some [OF assms [symmetric], of a]
    by (fastforce simp: is_entry_def)
  show "in_bucket h' len i a \<longleftrightarrow> in_bucket h len i a"
    using payload_Some [OF assms, of a] payload_Some [OF assms [symmetric], of a]
    by (fastforce simp: in_bucket_def)
qed

lemma one_entry_payload:
  assumes "payload h' = payload h"
  shows "one_entry h' A \<longleftrightarrow> one_entry h A"
  by (simp add: one_entry_def same_payload(1) [OF assms])

lemma one_entry_subset: "one_entry h A \<Longrightarrow> B \<subseteq> A \<Longrightarrow> one_entry h B"
  unfolding one_entry_def by blast

text \<open>An element of the table is in the chain of its bucket and in no other.\<close>

lemma buckets_entry:
  assumes "buckets_ok h len ps cs A" "a \<in> A" "h a = Some e"
  shows "a \<in> set (cs ! bucket_of len (hd_hash e))" "bucket_of len (hd_hash e) < unat len"
proof -
  obtain i where i: "i < unat len" "a \<in> set (cs ! i)" using assms(1,2) by (auto simp: buckets_ok_def)
  then have "in_bucket h len i a" using assms(1) by (auto simp: buckets_ok_def bucket_ok_def)
  then show "a \<in> set (cs ! bucket_of len (hd_hash e))" "bucket_of len (hd_hash e) < unat len"
    using i assms(3) by (auto simp: in_bucket_def)
qed

lemma buckets_disjoint:
  assumes "buckets_ok h len ps cs A" "i < unat len" "j < unat len" "i \<noteq> j"
  shows "set (cs ! i) \<inter> set (cs ! j) = {}"
proof (rule ccontr)
  assume "set (cs ! i) \<inter> set (cs ! j) \<noteq> {}"
  then obtain x where "x \<in> set (cs ! i)" "x \<in> set (cs ! j)" by auto
  then have "in_bucket h len i x" "in_bucket h len j x" using assms by (auto simp: buckets_ok_def bucket_ok_def)
  then show False using assms(4) by (auto simp: in_bucket_def)
qed

lemma buckets_finite: "buckets_ok h len ps cs A \<Longrightarrow> finite A"
  by (simp add: buckets_ok_def)

lemma buckets_mem: "buckets_ok h len ps cs A \<Longrightarrow> i < unat len \<Longrightarrow> set (cs ! i) \<subseteq> A"
  by (auto simp: buckets_ok_def)

lemma buckets_dom: "buckets_ok h len ps cs A \<Longrightarrow> a \<in> A \<Longrightarrow> \<exists>e. h a = Some e"
  by (auto simp: buckets_ok_def bucket_ok_def in_bucket_def)

text \<open>
  \<open>FindPointer\<close> returns the place of the first pointer of the bucket's chain that leads to a
  matching handle, or of the null pointer at its end.
\<close>

lemma FindPointer_loop_finds:
  assumes "chain h p (us @ vs)" "slot_read h t (slot_at i us) = Some (case vs of [] \<Rightarrow> None | a # _ \<Rightarrow> Some a)"
  shows "\<exists>vs1 vs2. vs = vs1 @ vs2 \<and> FindPointer_loop h t key hash (slot_at i us) = Some (slot_at i (us @ vs1)) \<and>
    slot_read h t (slot_at i (us @ vs1)) = Some (case vs2 of [] \<Rightarrow> None | a # _ \<Rightarrow> Some a) \<and>
    (\<forall>a \<in> set vs1. \<not> is_entry h key hash a) \<and> (vs2 \<noteq> [] \<longrightarrow> is_entry h key hash (hd vs2))"
  using assms
proof (induction vs arbitrary: us)
  case Nil
  then have "FindPointer_loop h t key hash (slot_at i us) = Some (slot_at i us)" by (simp add: FindPointer_loop.simps)
  then show ?case using Nil by simp
next
  case (Cons a vs)
  obtain e where e: "h a = Some e" "chain h (hd_next_hash e) vs"
  proof (cases "us = []")
    case True
    then show ?thesis using Cons.prems(1) that by auto
  next
    case False
    from chain_rest [OF Cons.prems(1) this] that show ?thesis by auto
  qed
  have step: "FindPointer_loop h t key hash (slot_at i us) =
      (if hd_hash e \<noteq> hash \<or> key \<noteq> hd_key e then FindPointer_loop h t key hash (NextHash a) else Some (slot_at i us))"
    by (subst FindPointer_loop.simps) (simp add: Cons.prems(2) e(1))
  show ?case
  proof (cases "hd_hash e \<noteq> hash \<or> key \<noteq> hd_key e")
    case True
    have at: "slot_at i (us @ [a]) = NextHash a" by (simp add: slot_at_def)
    have rd: "slot_read h t (slot_at i (us @ [a])) = Some (case vs of [] \<Rightarrow> None | a # _ \<Rightarrow> Some a)"
      using e by (cases vs) (auto simp: at)
    have "chain h p ((us @ [a]) @ vs)" using Cons.prems(1) by simp
    from Cons.IH [OF this rd] obtain vs1 vs2 where r: "vs = vs1 @ vs2"
      "FindPointer_loop h t key hash (NextHash a) = Some (slot_at i ((us @ [a]) @ vs1))"
      "slot_read h t (slot_at i ((us @ [a]) @ vs1)) = Some (case vs2 of [] \<Rightarrow> None | a # _ \<Rightarrow> Some a)"
      "\<forall>a \<in> set vs1. \<not> is_entry h key hash a" "vs2 \<noteq> [] \<longrightarrow> is_entry h key hash (hd vs2)"
      unfolding at by blast
    have "\<not> is_entry h key hash a" using True e(1) by (auto simp: is_entry_def)
    then show ?thesis using r step True
      by (intro exI [of _ "a # vs1"] exI [of _ vs2]) simp
  next
    case False
    then have "is_entry h key hash a" using e(1) by (auto simp: is_entry_def)
    then show ?thesis using False step Cons.prems(2) by (intro exI [of _ "[]"] exI [of _ "a # vs"]) simp
  qed
qed

lemma FindPointer_finds:
  fixes hash :: u32
  assumes "buckets_ok h (ht_length t) (ht_list t) cs A" "power2 (ht_length t)"
  defines "i \<equiv> bucket_of (ht_length t) hash"
  shows "\<exists>us vs. cs ! i = us @ vs \<and> FindPointer h t key hash = Some (slot_at i us) \<and>
    slot_read h t (slot_at i us) = Some (case vs of [] \<Rightarrow> None | a # _ \<Rightarrow> Some a) \<and>
    (\<forall>a \<in> set us. \<not> is_entry h key hash a) \<and> (vs \<noteq> [] \<longrightarrow> is_entry h key hash (hd vs))"
proof -
  have i: "i < unat (ht_length t)" using bucket_bound [OF assms(2)] by (simp add: i_def)
  have c: "chain h (ht_list t ! i) ([] @ cs ! i)" "i < length (ht_list t)" using assms(1) i by (auto simp: buckets_ok_def bucket_ok_def)
  have "ht_list t ! i = (case cs ! i of [] \<Rightarrow> None | a # _ \<Rightarrow> Some a)" using c(1) by (cases "cs ! i") auto
  then have "slot_read h t (slot_at i []) = Some (case cs ! i of [] \<Rightarrow> None | a # _ \<Rightarrow> Some a)"
    using c(2) by (simp add: slot_at_def)
  from FindPointer_loop_finds [OF c(1) this, of key hash] show ?thesis
    by (simp add: FindPointer_def slot_at_def flip: i_def)
qed

text \<open>Looking a key up.\<close>

lemma Lookup_finds:
  assumes "table_holds h t A"
  shows "(\<exists>a \<in> A. is_entry h key hash a \<and> HandleTable_Lookup h t key hash = Some (Some a)) \<or>
    (\<forall>a \<in> A. \<not> is_entry h key hash a) \<and> HandleTable_Lookup h t key hash = Some None"
proof -
  obtain cs where cs: "buckets_ok h (ht_length t) (ht_list t) cs A" "power2 (ht_length t)"
    using assms by (auto simp: table_holds_def)
  let ?i = "bucket_of (ht_length t) hash"
  obtain us vs where f: "cs ! ?i = us @ vs" "FindPointer h t key hash = Some (slot_at ?i us)"
    "slot_read h t (slot_at ?i us) = Some (case vs of [] \<Rightarrow> None | a # _ \<Rightarrow> Some a)"
    "\<forall>a \<in> set us. \<not> is_entry h key hash a" "vs \<noteq> [] \<longrightarrow> is_entry h key hash (hd vs)"
    using FindPointer_finds [OF cs(1,2)] by blast
  have i: "?i < unat (ht_length t)" by (rule bucket_bound [OF cs(2)])
  show ?thesis
  proof (cases vs)
    case Nil
    have "\<not> is_entry h key hash a" if a: "a \<in> A" for a
    proof
      assume "is_entry h key hash a"
      then obtain e where e: "h a = Some e" "hd_hash e = hash" by (auto simp: is_entry_def)
      from buckets_entry(1) [OF cs(1) a e(1)] have "a \<in> set (cs ! ?i)" unfolding e(2) .
      then show False using f(1,4) Nil \<open>is_entry h key hash a\<close> by simp
    qed
    then show ?thesis using f(2,3) Nil by (simp add: HandleTable_Lookup_def)
  next
    case (Cons a vs')
    have "a \<in> set (cs ! ?i)" using f(1) Cons by simp
    then have "a \<in> A" using cs(1) i by (auto simp: buckets_ok_def)
    then show ?thesis using f(2,3,5) Cons by (auto simp: HandleTable_Lookup_def)
  qed
qed


subsection \<open>Overwriting a place\<close>

lemma bucket_cong:
  assumes "\<And>a. a \<in> set xs \<Longrightarrow> h' a = h a" "payload h' = payload h"
  shows "bucket_ok h' len i p xs \<longleftrightarrow> bucket_ok h len i p xs"
  using chain_cong [OF assms(1)] by (simp add: bucket_ok_def same_payload(2) [OF assms(2)])

lemma slot_overwrite:
  assumes b: "buckets_ok h len (ht_list t) cs A" and i: "i < unat len" "cs ! i = us @ vs"
    and w: "chain h q ws" "distinct ws" "set ws \<inter> set us = {}" "\<forall>a \<in> set ws. in_bucket h len i a"
      "set ws \<inter> A \<subseteq> set vs"
  shows "\<exists>h' t'. slot_write (slot_at i us) q (h, t) = (h', t') \<and> payload h' = payload h \<and>
    ht_length t' = ht_length t \<and> ht_elems t' = ht_elems t \<and>
    buckets_ok h' len (ht_list t') (cs[i := us @ ws]) (A - set vs \<union> set ws)"
proof -
  have bi: "bucket_ok h len j (ht_list t ! j) (cs ! j)" if "j < unat len" for j using b that by (simp add: buckets_ok_def)
  have len: "length (ht_list t) = unat len" "length cs = unat len" using b by (simp_all add: buckets_ok_def)
  have ci: "chain h (ht_list t ! i) (us @ vs)" "distinct (us @ vs)" "\<forall>a \<in> set us. in_bucket h len i a"
    using bi [OF i(1)] i(2) by (simp_all add: bucket_ok_def)
  have other: "last us \<notin> set (cs ! j)" if "j < unat len" "j \<noteq> i" "us \<noteq> []" for j
    using buckets_disjoint [OF b i(1) that(1)] that(2) i(2) last_in_set [OF that(3)] by auto
  have A: "A - set vs \<union> set ws = (\<Union>j < unat len. set (cs[i := us @ ws] ! j))"
  proof -
    have e: "(\<Union>j < unat len. set (cs[i := x] ! j)) = (\<Union>j \<in> {..<unat len} - {i}. set (cs ! j)) \<union> set x" for x
      using i(1) len(2) by (auto simp: nth_list_update split: if_splits)
    have A: "A = (\<Union>j \<in> {..<unat len} - {i}. set (cs ! j)) \<union> set (us @ vs)"
      using e [of "us @ vs"] b i(2) list_update_id [of cs i] by (simp add: buckets_ok_def)
    have "(\<Union>j \<in> {..<unat len} - {i}. set (cs ! j)) \<inter> set vs = {}" using buckets_disjoint [OF b i(1)] i(2) by auto
    moreover have "set us \<inter> set vs = {}" using ci(2) by simp
    ultimately show ?thesis unfolding e A by auto
  qed
  show ?thesis
  proof (cases "us = []")
    case True
    have "bucket_ok h len j ((ht_list t)[i := q] ! j) (cs[i := us @ ws] ! j)" if "j < unat len" for j
      using bi [OF that] that len i(1) w True by (cases "j = i") (simp_all add: bucket_ok_def)
    then show ?thesis using True len A by (simp add: slot_at_def buckets_ok_def)
  next
    case False
    let ?h = "set_next_hash (last us) q h"
    have "bucket_ok ?h len j (ht_list t ! j) (cs[i := us @ ws] ! j)" if j: "j < unat len" for j
    proof (cases "j = i")
      case True
      have "chain ?h (ht_list t ! i) (us @ ws)"
        by (rule chain_overwrite [OF ci(1) False _ w(1)]) (use ci(2) w(3) in auto)
      moreover have "distinct (us @ ws)" using ci(2) w(2,3) by auto
      ultimately show ?thesis using True len i(1) ci(3) w(4)
        by (auto simp: bucket_ok_def same_payload(2) [OF payload_set_next_hash])
    next
      case ne: False
      have "bucket_ok ?h len j (ht_list t ! j) (cs ! j) \<longleftrightarrow> bucket_ok h len j (ht_list t ! j) (cs ! j)"
      proof (rule bucket_cong)
        show "?h a = h a" if "a \<in> set (cs ! j)" for a
          by (rule set_next_hash_other) (use other [OF j ne False] that in auto)
      qed simp
      then show ?thesis using ne bi [OF j] by simp
    qed
    then show ?thesis using False len A by (simp add: slot_at_def buckets_ok_def)
  qed
qed

lemma Remove_removes:
  assumes "table_holds h t A"
  shows "(\<exists>a h' t'. a \<in> A \<and> is_entry h key hash a \<and> HandleTable_Remove key hash (h, t) = Some (Some a, h', t') \<and>
      payload h' = payload h \<and> table_holds h' t' (A - {a})) \<or>
    (\<forall>a \<in> A. \<not> is_entry h key hash a) \<and> HandleTable_Remove key hash (h, t) = Some (None, h, t)"
proof -
  obtain cs where cs: "buckets_ok h (ht_length t) (ht_list t) cs A" "power2 (ht_length t)" "unat (ht_elems t) = card A" "one_entry h A"
    using assms by (auto simp: table_holds_def)
  let ?i = "bucket_of (ht_length t) hash"
  obtain us vs where f: "cs ! ?i = us @ vs" "FindPointer h t key hash = Some (slot_at ?i us)"
    "slot_read h t (slot_at ?i us) = Some (case vs of [] \<Rightarrow> None | a # _ \<Rightarrow> Some a)"
    "vs \<noteq> [] \<longrightarrow> is_entry h key hash (hd vs)"
    using FindPointer_finds [OF cs(1,2)] by blast
  have i: "?i < unat (ht_length t)" by (rule bucket_bound [OF cs(2)])
  have bk: "bucket_ok h (ht_length t) ?i (ht_list t ! ?i) (us @ vs)" using cs(1) i f(1) by (auto simp: buckets_ok_def)
  show ?thesis
  proof (cases vs)
    case Nil
    have "HandleTable_Lookup h t key hash = Some None" using f(2,3) Nil by (simp add: HandleTable_Lookup_def)
    then show ?thesis using Lookup_finds [OF assms, of key hash] f(2,3) Nil by (auto simp: HandleTable_Remove_def)
  next
    case (Cons a vs')
    have aA: "a \<in> A" using buckets_mem [OF cs(1) i] f(1) Cons by simp
    obtain e where e: "h a = Some e" "chain h (hd_next_hash e) vs'"
    proof (cases "us = []")
      case True
      then show ?thesis using bk Cons that by (auto simp: bucket_ok_def)
    next
      case False
      have "chain h (ht_list t ! ?i) (us @ a # vs')" using bk Cons by (simp add: bucket_ok_def)
      from chain_rest [OF this False] show ?thesis using that by auto
    qed
    have "\<exists>h' t'. slot_write (slot_at ?i us) (hd_next_hash e) (h, t) = (h', t') \<and> payload h' = payload h \<and>
      ht_length t' = ht_length t \<and> ht_elems t' = ht_elems t \<and>
      buckets_ok h' (ht_length t) (ht_list t') (cs[?i := us @ vs']) (A - set vs \<union> set vs')"
      by (rule slot_overwrite [OF cs(1) i f(1) e(2)]) (use bk Cons in \<open>auto simp: bucket_ok_def\<close>)
    then obtain h' t' where w: "slot_write (slot_at ?i us) (hd_next_hash e) (h, t) = (h', t')" "payload h' = payload h"
      "ht_length t' = ht_length t" "ht_elems t' = ht_elems t"
      "buckets_ok h' (ht_length t) (ht_list t') (cs[?i := us @ vs']) (A - set vs \<union> set vs')" by blast
    have vsA: "set vs' \<subseteq> A" using buckets_mem [OF cs(1) i] f(1) Cons by simp
    have A: "A - set vs \<union> set vs' = A - {a}" using bk Cons vsA by (auto simp: bucket_ok_def)
    have fin: "finite A" by (rule buckets_finite [OF cs(1)])
    have c: "card (A - {a}) = card A - 1" "0 < card A" using aA fin by (auto simp: card_gt_0_iff)
    have "unat (ht_elems t - 1) = card (A - {a})" using cs(3) c by (simp add: unat_sub_if')
    moreover have "one_entry h' (A - {a})" using cs(4) one_entry_payload [OF w(2)] one_entry_subset [of h A "A - {a}"] by simp
    ultimately have "table_holds h' (t'\<lparr>ht_elems := ht_elems t' - 1\<rparr>) (A - {a})"
      using w A cs(2) by (auto simp: table_holds_def)
    moreover have "HandleTable_Remove key hash (h, t) = Some (Some a, h', t'\<lparr>ht_elems := ht_elems t' - 1\<rparr>)"
      using f(2,3) Cons e(1) w(1) by (simp add: HandleTable_Remove_def)
    moreover have "is_entry h key hash a" using f(4) Cons by simp
    ultimately show ?thesis using aA w(2) by blast
  qed
qed


subsection \<open>Resizing keeps the contents\<close>

lemma move_chain_moves:
  assumes "power2 len" "chain h p xs" "distinct xs" "buckets_ok h len ps cs B" "set xs \<inter> B = {}"
  shows "\<exists>h' ps' cs'. move_chain len p h ps = Some (h', ps') \<and> payload h' = payload h \<and>
    buckets_ok h' len ps' cs' (B \<union> set xs) \<and> (\<forall>b. b \<notin> B \<union> set xs \<longrightarrow> h' b = h b)"
  using assms
proof (induction xs arbitrary: p h ps cs B)
  case Nil
  then have "move_chain len p h ps = Some (h, ps)" by (subst move_chain.simps) simp
  then show ?case using Nil by auto
next
  case (Cons a xs)
  obtain e where e: "p = Some a" "h a = Some e" "chain h (hd_next_hash e) xs" using Cons.prems(2) by auto
  let ?i = "bucket_of len (hd_hash e)"
  let ?h = "set_next_hash a (ps ! ?i) h"
  have i: "?i < unat len" by (rule bucket_bound [OF Cons.prems(1)])
  have len: "length ps = unat len" "length cs = unat len" using Cons.prems(4) by (simp_all add: buckets_ok_def)
  have aB: "a \<notin> B" using Cons.prems(5) by simp
  have other: "a \<notin> set (cs ! j)" if "j < unat len" for j using buckets_mem [OF Cons.prems(4) that] aB by auto
  have old: "bucket_ok ?h len j (ps ! j) (cs ! j)" if "j < unat len" for j
  proof -
    have "bucket_ok ?h len j (ps ! j) (cs ! j) \<longleftrightarrow> bucket_ok h len j (ps ! j) (cs ! j)"
      by (rule bucket_cong) (use other [OF that] in \<open>auto intro: set_next_hash_other\<close>)
    then show ?thesis using Cons.prems(4) that by (simp add: buckets_ok_def)
  qed
  have ha: "?h a = Some (e\<lparr>hd_next_hash := ps ! ?i\<rparr>)" using e(2) by (simp add: set_next_hash_def)
  have "bucket_ok ?h len ?i (Some a) (a # cs ! ?i)"
    using old [OF i] other [OF i] ha by (auto simp: bucket_ok_def in_bucket_def)
  then have "bucket_ok ?h len j (ps[?i := Some a] ! j) (cs[?i := a # cs ! ?i] ! j)" if "j < unat len" for j
    using old [OF that] that i len by (cases "j = ?i") simp_all
  moreover have "insert a B = (\<Union>j < unat len. set (cs[?i := a # cs ! ?i] ! j))"
  proof -
    have "B = (\<Union>j < unat len. set (cs ! j))" using Cons.prems(4) by (simp add: buckets_ok_def)
    then show ?thesis using i len(2) by (auto simp: nth_list_update split: if_splits)
  qed
  ultimately have b: "buckets_ok ?h len (ps[?i := Some a]) (cs[?i := a # cs ! ?i]) (insert a B)"
    using len by (simp add: buckets_ok_def)
  have ch: "chain ?h (hd_next_hash e) xs" using e(3) Cons.prems(3) by simp
  have "distinct xs" "set xs \<inter> insert a B = {}" using Cons.prems(3,5) by auto
  from Cons.IH [OF Cons.prems(1) ch this(1) b this(2)] obtain h' ps' cs' where r:
    "move_chain len (hd_next_hash e) ?h (ps[?i := Some a]) = Some (h', ps')" "payload h' = payload ?h"
    "buckets_ok h' len ps' cs' (insert a B \<union> set xs)" "\<forall>b. b \<notin> insert a B \<union> set xs \<longrightarrow> h' b = ?h b" by blast
  have "move_chain len p h ps = Some (h', ps')" by (subst move_chain.simps) (simp add: e(1,2) Let_def r(1))
  moreover have "\<forall>b. b \<notin> B \<union> set (a # xs) \<longrightarrow> h' b = h b" using r(4) by simp
  ultimately show ?case using r(2,3) by auto
qed

lemma move_buckets_moves:
  assumes "power2 len" "list_all2 (\<lambda>p xs. chain h p xs) qs css" "distinct (concat css)" "buckets_ok h len ps cs B"
    "set (concat css) \<inter> B = {}"
  shows "\<exists>h' ps' cs'. move_buckets len qs h ps = Some (h', ps') \<and> payload h' = payload h \<and>
    buckets_ok h' len ps' cs' (B \<union> set (concat css))"
  using assms
proof (induction qs arbitrary: css h ps cs B)
  case (Cons q qs)
  obtain xs css' where css: "css = xs # css'" "chain h q xs" "list_all2 (\<lambda>p xs. chain h p xs) qs css'"
    using Cons.prems(2) by (cases css) auto
  have d: "distinct xs" "set xs \<inter> B = {}" "distinct (concat css')" "set xs \<inter> set (concat css') = {}"
    "set (concat css') \<inter> B = {}" using Cons.prems(3,5) css(1) by auto
  obtain h1 ps1 cs1 where m: "move_chain len q h ps = Some (h1, ps1)" "payload h1 = payload h"
    "buckets_ok h1 len ps1 cs1 (B \<union> set xs)" "\<forall>b. b \<notin> B \<union> set xs \<longrightarrow> h1 b = h b"
    using move_chain_moves [OF Cons.prems(1) css(2) d(1) Cons.prems(4) d(2)] by blast
  have "list_all2 (\<lambda>p xs. chain h1 p xs) qs css'"
  proof (rule list.rel_mono_strong [OF css(3)])
    show "chain h1 p ys" if "p \<in> set qs" "ys \<in> set css'" "chain h p ys" for p ys
    proof -
      have "h1 x = h x" if "x \<in> set ys" for x
      proof -
        have "x \<in> set (concat css')" using that \<open>ys \<in> set css'\<close> by auto
        then have "x \<notin> B \<union> set xs" using d(4,5) by blast
        then show ?thesis using m(4) by simp
      qed
      then show ?thesis using that(3) chain_cong [of ys h1 h] by simp
    qed
  qed
  moreover have "set (concat css') \<inter> (B \<union> set xs) = {}" using d(4,5) by auto
  ultimately obtain h' ps' cs' where r: "move_buckets len qs h1 ps1 = Some (h', ps')" "payload h' = payload h1"
    "buckets_ok h' len ps' cs' (B \<union> set xs \<union> set (concat css'))"
    using Cons.IH [OF Cons.prems(1) _ d(3) m(3)] by blast
  have "B \<union> set xs \<union> set (concat css') = B \<union> set (concat css)" unfolding css(1) by auto
  then show ?case using m(1,2) r by auto
qed auto

lemma distinct_buckets:
  assumes "buckets_ok h len ps cs A" "n \<le> unat len"
  shows "distinct (concat (take n cs)) \<and> set (concat (take n cs)) = (\<Union>i < n. set (cs ! i))"
  using assms(2)
proof (induction n)
  case (Suc n)
  then have n: "n < unat len" "n < length cs" using assms(1) by (simp_all add: buckets_ok_def)
  have "set (cs ! i) \<inter> set (cs ! n) = {}" if "i < n" for i
    using buckets_disjoint [OF assms(1), of i n] that n(1) by simp
  moreover have "distinct (cs ! n)" using assms(1) n(1) by (simp add: buckets_ok_def bucket_ok_def)
  ultimately show ?case using Suc n by (auto simp: take_Suc_conv_app_nth less_Suc_eq)
qed simp

lemma new_length_loop_returns:
  assumes "unat elems \<le> 2 ^ 31" "k \<le> 31"
  shows "\<exists>k'. new_length_loop (2 ^ k) elems = Some (2 ^ k') \<and> k \<le> k' \<and> k' \<le> 31 \<and> unat elems \<le> 2 ^ k'"
  using assms(2)
proof (induction "31 - k" arbitrary: k rule: less_induct)
  case less
  have u: "unat ((2 :: u32) ^ k) = 2 ^ k"
  proof -
    have "(2 :: nat) ^ k < 2 ^ 32" using less.prems by (intro power_strict_increasing) simp_all
    from unat_of_nat_u32 [OF this] show ?thesis by simp
  qed
  show ?case
  proof (cases "(2 :: u32) ^ k < elems")
    case False
    then have "unat elems \<le> 2 ^ k" using u by (simp add: word_less_nat_alt)
    then show ?thesis using False less.prems by (subst new_length_loop.simps) auto
  next
    case True
    then have "2 ^ k < unat elems" using u by (simp add: word_less_nat_alt)
    then have "(2 :: nat) ^ k < 2 ^ 31" using assms(1) by simp
    then have "k < 31" by (rule power_less_imp_less_exp [rotated]) simp
    then have k: "Suc k \<le> 31" "31 - Suc k < 31 - k" by simp_all
    obtain k' where k': "new_length_loop (2 ^ Suc k) elems = Some (2 ^ k')" "Suc k \<le> k'" "k' \<le> 31" "unat elems \<le> 2 ^ k'"
      using less.hyps [OF k(2,1)] by blast
    have "new_length_loop (2 ^ k) elems = new_length_loop (2 ^ Suc k) elems"
      using True by (subst new_length_loop.simps) (simp add: mult.commute)
    then show ?thesis using k' by auto
  qed
qed

lemma Resize_keeps:
  assumes b: "buckets_ok h (ht_length t) (ht_list t) cs A" and n: "unat (ht_elems t) = card A" "card A \<le> 2 ^ 31"
    and one: "one_entry h A"
  shows "\<exists>h' t'. Resize (h, t) = Some (h', t') \<and> payload h' = payload h \<and> table_holds h' t' A \<and> ht_elems t' = ht_elems t"
proof -
  obtain k where k: "new_length_loop 4 (ht_elems t) = Some (2 ^ k)" "k \<le> 31"
    using new_length_loop_returns [of "ht_elems t" 2] n by auto
  let ?len = "(2 :: u32) ^ k"
  have p2: "power2 ?len" using k(2) by (auto simp: power2_def intro!: exI [of _ k])
  have d: "distinct (concat cs)" "set (concat cs) = A"
    using distinct_buckets [OF b order.refl] b by (simp_all add: buckets_ok_def)
  have "list_all2 (\<lambda>p xs. chain h p xs) (ht_list t) cs"
    using b by (simp add: list_all2_conv_all_nth buckets_ok_def bucket_ok_def)
  moreover have "buckets_ok h ?len (replicate (unat ?len) None) (replicate (unat ?len) []) {}"
    by (simp add: buckets_ok_def bucket_ok_def)
  ultimately obtain h' ps' cs' where r: "move_buckets ?len (ht_list t) h (replicate (unat ?len) None) = Some (h', ps')"
    "payload h' = payload h" "buckets_ok h' ?len ps' cs' A"
    using move_buckets_moves [OF p2 _ d(1)] d(2) by (metis Int_empty_right sup_bot_left)
  have "Resize (h, t) = Some (h', t\<lparr>ht_list := ps', ht_length := ?len\<rparr>)" using k(1) r(1) by (simp add: Resize_def)
  moreover have "table_holds h' (t\<lparr>ht_list := ps', ht_length := ?len\<rparr>) A"
    using r(3) p2 n(1) one one_entry_payload [OF r(2)] by (auto simp: table_holds_def)
  ultimately show ?thesis using r(2) by auto
qed

lemma HandleTable_new_holds:
  "\<exists>h' t. HandleTable_new h = Some (h', t) \<and> payload h' = payload h \<and> table_holds h' t {}"
proof -
  let ?t = "\<lparr>ht_length = 0, ht_elems = 0, ht_list = []\<rparr>"
  have "buckets_ok h (ht_length ?t) (ht_list ?t) [] {}" by (simp add: buckets_ok_def)
  from Resize_keeps [OF this] show ?thesis by (auto simp: HandleTable_new_def one_entry_def)
qed

text \<open>Insertion of a handle the table does not hold: it replaces the one with its key, if any.\<close>

lemma Insert_inserts:
  assumes "table_holds h t A" "a \<notin> A" "h a = Some e" "card A < 2 ^ 31"
  shows "(\<exists>b h' t'. b \<in> A \<and> is_entry h (hd_key e) (hd_hash e) b \<and>
      HandleTable_Insert a (h, t) = Some (Some b, h', t') \<and> payload h' = payload h \<and> table_holds h' t' (insert a (A - {b}))) \<or>
    (\<exists>h' t'. (\<forall>b \<in> A. \<not> is_entry h (hd_key e) (hd_hash e) b) \<and>
      HandleTable_Insert a (h, t) = Some (None, h', t') \<and> payload h' = payload h \<and> table_holds h' t' (insert a A))"
proof -
  let ?key = "hd_key e" and ?hash = "hd_hash e"
  obtain cs where cs: "buckets_ok h (ht_length t) (ht_list t) cs A" "power2 (ht_length t)" "unat (ht_elems t) = card A" "one_entry h A"
    using assms(1) by (auto simp: table_holds_def)
  let ?i = "bucket_of (ht_length t) ?hash"
  obtain us vs where f: "cs ! ?i = us @ vs" "FindPointer h t ?key ?hash = Some (slot_at ?i us)"
    "slot_read h t (slot_at ?i us) = Some (case vs of [] \<Rightarrow> None | a # _ \<Rightarrow> Some a)"
    "vs \<noteq> [] \<longrightarrow> is_entry h ?key ?hash (hd vs)"
    using FindPointer_finds [OF cs(1,2)] by blast
  have i: "?i < unat (ht_length t)" by (rule bucket_bound [OF cs(2)])
  have bk: "bucket_ok h (ht_length t) ?i (ht_list t ! ?i) (us @ vs)" using cs(1) i f(1) by (auto simp: buckets_ok_def)
  have sub: "set us \<subseteq> A" "set vs \<subseteq> A" using buckets_mem [OF cs(1) i] f(1) by simp_all
  have fin: "finite A" by (rule buckets_finite [OF cs(1)])
  let ?h = "\<lambda>q. set_next_hash a q h"
  have b1: "buckets_ok (?h q) (ht_length t) (ht_list t) cs A" for q
  proof -
    have "bucket_ok (?h q) (ht_length t) j (ht_list t ! j) (cs ! j)" if "j < unat (ht_length t)" for j
    proof -
      have "a \<notin> set (cs ! j)" using buckets_mem [OF cs(1) that] assms(2) by auto
      then have "bucket_ok (?h q) (ht_length t) j (ht_list t ! j) (cs ! j) \<longleftrightarrow> bucket_ok h (ht_length t) j (ht_list t ! j) (cs ! j)"
        by (intro bucket_cong set_next_hash_other) auto
      then show ?thesis using cs(1) that by (simp add: buckets_ok_def)
    qed
    then show ?thesis using cs(1) by (simp add: buckets_ok_def)
  qed
  have ha: "?h q a = Some (e\<lparr>hd_next_hash := q\<rparr>)" for q using assms(3) by (simp add: set_next_hash_def)
  have same: "is_entry h key hash a \<longleftrightarrow> key = ?key \<and> hash = ?hash" for key hash using assms(3) by (auto simp: is_entry_def)
  show ?thesis
  proof (cases vs)
    case Nil
    have lk: "HandleTable_Lookup h t ?key ?hash = Some None" using f(2,3) Nil by (simp add: HandleTable_Lookup_def)
    then have none: "\<forall>b \<in> A. \<not> is_entry h ?key ?hash b" using Lookup_finds [OF assms(1), of ?key ?hash] by auto
    have "\<exists>h' t'. slot_write (slot_at ?i us) (Some a) (?h None, t) = (h', t') \<and> payload h' = payload (?h None) \<and>
      ht_length t' = ht_length t \<and> ht_elems t' = ht_elems t \<and>
      buckets_ok h' (ht_length t) (ht_list t') (cs[?i := us @ [a]]) (A - set vs \<union> set [a])"
      by (rule slot_overwrite [OF b1 i f(1)]) (use ha assms(2) sub Nil in \<open>auto simp: in_bucket_def\<close>)
    then obtain h' t' where w: "slot_write (slot_at ?i us) (Some a) (?h None, t) = (h', t')" "payload h' = payload h"
      "ht_length t' = ht_length t" "ht_elems t' = ht_elems t"
      "buckets_ok h' (ht_length t) (ht_list t') (cs[?i := us @ [a]]) (insert a A)" using Nil by auto
    let ?t = "t'\<lparr>ht_elems := ht_elems t' + 1\<rparr>"
    have card: "card (insert a A) = Suc (card A)" using fin assms(2) by simp
    have el: "unat (ht_elems ?t) = card (insert a A)"
      using cs(3) w(4) assms(4) card by (simp add: unat_word_ariths)
    have one: "one_entry h' (insert a A)"
      using cs(4) none same unfolding one_entry_payload [OF w(2)] by (auto simp: one_entry_def)
    have I: "HandleTable_Insert a (h, t) =
      (if ht_length ?t < ht_elems ?t then map_option (Pair None) (Resize (h', ?t)) else Some (None, h', ?t))"
      using assms(3) f(2,3) Nil w(1) by (simp add: HandleTable_Insert_def)
    have b': "buckets_ok h' (ht_length ?t) (ht_list ?t) (cs[?i := us @ [a]]) (insert a A)" using w(3,5) by simp
    obtain h2 t2 where R: "HandleTable_Insert a (h, t) = Some (None, h2, t2)" "payload h2 = payload h" "table_holds h2 t2 (insert a A)"
    proof (cases "ht_length ?t < ht_elems ?t")
      case True
      have "card (insert a A) \<le> 2 ^ 31" using card assms(4) by simp
      from Resize_keeps [OF b' el this one] I True w(2) that show ?thesis by auto
    next
      case False
      have "table_holds h' ?t (insert a A)" using b' el cs(2) w(3) one by (auto simp: table_holds_def)
      then show ?thesis using I False w(2) that by auto
    qed
    then show ?thesis using none by blast
  next
    case (Cons b vs')
    have bA: "b \<in> A" using sub Cons by simp
    obtain eb where eb: "h b = Some eb" "chain h (hd_next_hash eb) vs'"
    proof (cases "us = []")
      case True
      then show ?thesis using bk Cons that by (auto simp: bucket_ok_def)
    next
      case False
      have "chain h (ht_list t ! ?i) (us @ b # vs')" using bk Cons by (simp add: bucket_ok_def)
      from chain_rest [OF this False] show ?thesis using that by auto
    qed
    let ?q = "hd_next_hash eb"
    have an: "a \<notin> set vs'" "a \<notin> set us" using sub Cons assms(2) by auto
    have ch: "chain (?h ?q) (Some a) (a # vs')" using ha eb(2) an by simp
    have ib: "\<forall>x \<in> set (a # vs'). in_bucket (?h ?q) (ht_length t) ?i x"
      using bk Cons assms(3) by (auto simp: bucket_ok_def same_payload(2) [OF payload_set_next_hash]) (auto simp: in_bucket_def)
    have "\<exists>h' t'. slot_write (slot_at ?i us) (Some a) (?h ?q, t) = (h', t') \<and> payload h' = payload (?h ?q) \<and>
      ht_length t' = ht_length t \<and> ht_elems t' = ht_elems t \<and>
      buckets_ok h' (ht_length t) (ht_list t') (cs[?i := us @ (a # vs')]) (A - set vs \<union> set (a # vs'))"
      by (rule slot_overwrite [OF b1 i f(1) ch _ _ ib]) (use bk Cons an assms(2) in \<open>auto simp: bucket_ok_def\<close>)
    moreover have "A - set vs \<union> set (a # vs') = insert a (A - {b})" using sub Cons bk by (auto simp: bucket_ok_def)
    ultimately obtain h' t' where w: "slot_write (slot_at ?i us) (Some a) (?h ?q, t) = (h', t')" "payload h' = payload h"
      "ht_length t' = ht_length t" "ht_elems t' = ht_elems t"
      "buckets_ok h' (ht_length t) (ht_list t') (cs[?i := us @ (a # vs')]) (insert a (A - {b}))" by auto
    have eb': "is_entry h ?key ?hash b" using f(4) Cons by simp
    have "HandleTable_Insert a (h, t) = Some (Some b, h', t')"
      using assms(3) f(2,3) Cons eb(1) w(1) by (simp add: HandleTable_Insert_def)
    moreover have "card (insert a (A - {b})) = card A" using fin bA assms(2) card_Suc_Diff1 [OF fin bA] by simp
    moreover have "one_entry h' (insert a (A - {b}))"
    proof -
      have "\<not> is_entry h ?key ?hash x" if "x \<in> A - {b}" for x
        using cs(4) eb' bA that by (auto simp: one_entry_def)
      then show ?thesis using cs(4) same unfolding one_entry_payload [OF w(2)] by (auto simp: one_entry_def)
    qed
    ultimately have "table_holds h' t' (insert a (A - {b}))" "HandleTable_Insert a (h, t) = Some (Some b, h', t')"
      using w cs(2,3) by (auto simp: table_holds_def)
    then show ?thesis using bA eb' w(2) by blast
  qed
qed

end
