(* ===== verification/LruCache.thy ===== *)
theory LruCache
  imports HandleTable "HOL-Library.Multiset"
begin

section \<open>The LRU cache (\<^verbatim>\<open>util/cache.cc\<close>)\<close>

text \<open>
  One shard of the cache. Addresses 0 and 1 are the dummy heads \<open>lru_\<close> and \<open>in_use_\<close> of its two
  lists; handles are allocated upwards from 2 and the addresses of freed ones are not used again, so that
  an access to freed memory shows as \<open>None\<close>. The calls of the deleters are logged in
  \<open>lc_deleted\<close>. A shard's operations run under its mutex, one at a time.

  The contract of a client is the multiset of the handles it holds: each \<open>Insert\<close> and each
  successful \<open>Lookup\<close> adds one, each \<open>Release\<close> takes one away. Under it no operation touches
  freed memory, the two lists hold the cached handles without and with clients, and every
  inserted value is either alive or has been given to its deleter exactly once.
\<close>

subsection \<open>The shard\<close>

record 'v LRUCache =
  lc_capacity :: u64
  lc_usage :: u64
  lc_links :: Links
  lc_table :: HandleTable
  lc_heap :: "'v HandleHeap"
  lc_next_addr :: nat
  lc_deleted :: "(bytes \<times> 'v) list"

definition lru_head :: nat where "lru_head = 0"
definition in_use_head :: nat where "in_use_head = 1"

definition LRUCache_new :: "'v LRUCache option" where
  "LRUCache_new =
     map_option (\<lambda>(h, t). \<lparr>lc_capacity = 0, lc_usage = 0, lc_links = \<lparr>ln_next = id, ln_prev = id\<rparr>, lc_table = t,
       lc_heap = h, lc_next_addr = 2, lc_deleted = []\<rparr>) (HandleTable_new Map.empty)"

definition SetCapacity :: "u64 \<Rightarrow> 'v LRUCache \<Rightarrow> 'v LRUCache" where
  "SetCapacity capacity c = c\<lparr>lc_capacity := capacity\<rparr>"

definition LRU_Remove :: "nat \<Rightarrow> 'v LRUCache \<Rightarrow> 'v LRUCache" where
  "LRU_Remove a c = c\<lparr>lc_links := unlink a (lc_links c)\<rparr>"

definition LRU_Append :: "nat \<Rightarrow> nat \<Rightarrow> 'v LRUCache \<Rightarrow> 'v LRUCache" where
  "LRU_Append list a c = c\<lparr>lc_links := link_last list a (lc_links c)\<rparr>"

definition set_handle :: "nat \<Rightarrow> 'v LRUHandle \<Rightarrow> 'v LRUCache \<Rightarrow> 'v LRUCache" where
  "set_handle a e c = c\<lparr>lc_heap := (lc_heap c)(a \<mapsto> e)\<rparr>"

definition Ref :: "nat \<Rightarrow> 'v LRUCache \<Rightarrow> 'v LRUCache option" where
  "Ref a c =
     map_option (\<lambda>e.
       let c = (if hd_refs e = 1 \<and> hd_in_cache e then LRU_Append in_use_head a (LRU_Remove a c) else c)
       in set_handle a (e\<lparr>hd_refs := hd_refs e + 1\<rparr>) c) (lc_heap c a)"

definition Unref :: "nat \<Rightarrow> 'v LRUCache \<Rightarrow> 'v LRUCache option" where
  "Unref a c =
     map_option (\<lambda>e.
       let e = e\<lparr>hd_refs := hd_refs e - 1\<rparr>; c = set_handle a e c
       in if hd_refs e = 0 then c\<lparr>lc_heap := (lc_heap c)(a := None), lc_deleted := lc_deleted c @ [(hd_key e, hd_value e)]\<rparr>
          else if hd_in_cache e \<and> hd_refs e = 1 then LRU_Append lru_head a (LRU_Remove a c)
          else c) (lc_heap c a)"

text \<open>\<open>FinishErase\<close> of a handle that has been taken out of the table.\<close>

definition FinishErase :: "nat option \<Rightarrow> 'v LRUCache \<Rightarrow> (bool \<times> 'v LRUCache) option" where
  "FinishErase p c =
     (case p of None \<Rightarrow> Some (False, c)
      | Some a \<Rightarrow>
          Option.bind (lc_heap c a) (\<lambda>e.
            let c = set_handle a (e\<lparr>hd_in_cache := False\<rparr>) (LRU_Remove a c)
            in map_option (Pair True) (Unref a (c\<lparr>lc_usage := lc_usage c - hd_charge e\<rparr>))))"

definition on_table ::
    "('v HandleHeap \<times> HandleTable \<Rightarrow> (nat option \<times> 'v HandleHeap \<times> HandleTable) option) \<Rightarrow> 'v LRUCache \<Rightarrow>
     (nat option \<times> 'v LRUCache) option" where
  "on_table f c = map_option (\<lambda>(r, h, t). (r, c\<lparr>lc_heap := h, lc_table := t\<rparr>)) (f (lc_heap c, lc_table c))"

definition LRUCache_Lookup :: "bytes \<Rightarrow> u32 \<Rightarrow> 'v LRUCache \<Rightarrow> (nat option \<times> 'v LRUCache) option" where
  "LRUCache_Lookup key hash c =
     Option.bind (HandleTable_Lookup (lc_heap c) (lc_table c) key hash) (\<lambda>p.
       case p of None \<Rightarrow> Some (None, c) | Some a \<Rightarrow> map_option (Pair (Some a)) (Ref a c))"

definition LRUCache_Release :: "nat \<Rightarrow> 'v LRUCache \<Rightarrow> 'v LRUCache option" where
  "LRUCache_Release a c = Unref a c"

definition LRUCache_Erase :: "bytes \<Rightarrow> u32 \<Rightarrow> 'v LRUCache \<Rightarrow> 'v LRUCache option" where
  "LRUCache_Erase key hash c =
     Option.bind (on_table (HandleTable_Remove key hash) c) (\<lambda>(p, c). map_option snd (FinishErase p c))"

text \<open>One round of the loops of \<open>Insert\<close> and \<open>Prune\<close>: the oldest handle of the list is erased.\<close>

definition erase_oldest :: "'v LRUCache \<Rightarrow> 'v LRUCache option" where
  "erase_oldest c =
     Option.bind (lc_heap c (ln_next (lc_links c) lru_head)) (\<lambda>e. LRUCache_Erase (hd_key e) (hd_hash e) c)"

partial_function (option) evict_loop :: "'v LRUCache \<Rightarrow> 'v LRUCache option" where
  "evict_loop c =
     (if lc_capacity c < lc_usage c \<and> ln_next (lc_links c) lru_head \<noteq> lru_head
      then Option.bind (erase_oldest c) evict_loop else Some c)"

partial_function (option) LRUCache_Prune :: "'v LRUCache \<Rightarrow> 'v LRUCache option" where
  "LRUCache_Prune c =
     (if ln_next (lc_links c) lru_head \<noteq> lru_head then Option.bind (erase_oldest c) LRUCache_Prune else Some c)"

definition LRUCache_Insert ::
    "bytes \<Rightarrow> u32 \<Rightarrow> 'v \<Rightarrow> u64 \<Rightarrow> 'v LRUCache \<Rightarrow> (nat \<times> 'v LRUCache) option" where
  "LRUCache_Insert key hash v charge c =
     (let a = lc_next_addr c;
          e = \<lparr>hd_value = v, hd_next_hash = None, hd_charge = charge, hd_in_cache = False, hd_refs = 1,
               hd_hash = hash, hd_key = key\<rparr>;
          c = c\<lparr>lc_next_addr := a + 1\<rparr>
      in map_option (Pair a)
        (Option.bind
          (if 0 < lc_capacity c then
             (let c = LRU_Append in_use_head a (set_handle a (e\<lparr>hd_refs := 2, hd_in_cache := True\<rparr>) c)
              in Option.bind (on_table (HandleTable_Insert a) (c\<lparr>lc_usage := lc_usage c + charge\<rparr>)) (\<lambda>(old, c).
                   map_option snd (FinishErase old c)))
           else Some (set_handle a e c)) evict_loop))"

definition LRUCache_TotalCharge :: "'v LRUCache \<Rightarrow> u64" where
  "LRUCache_TotalCharge c = lc_usage c"

text \<open>The destructor: all handles left in the list are given up by the cache.\<close>

partial_function (option) destroy_loop :: "nat \<Rightarrow> 'v LRUCache \<Rightarrow> 'v LRUCache option" where
  "destroy_loop a c =
     (if a \<noteq> lru_head then
        (let next = ln_next (lc_links c) a in
         Option.bind (lc_heap c a) (\<lambda>e.
         Option.bind (Unref a (set_handle a (e\<lparr>hd_in_cache := False\<rparr>) c)) (destroy_loop next)))
      else Some c)"

definition LRUCache_destroy :: "'v LRUCache \<Rightarrow> 'v LRUCache option" where
  "LRUCache_destroy c = destroy_loop (ln_next (lc_links c) lru_head) c"

subsection \<open>The sharded cache\<close>

text \<open>
  A handle of the sharded cache is its shard's number and its address there; \<open>Release\<close> finds the
  shard again by the hash in the handle.
\<close>

definition kNumShardBits :: nat where "kNumShardBits = 4"
definition kNumShards :: nat where "kNumShards = 2 ^ kNumShardBits"

record 'v ShardedLRUCache =
  sc_shard :: "'v LRUCache list"
  sc_last_id :: u64

definition HashSlice :: "bytes \<Rightarrow> u32" where "HashSlice s = Hash s 0"

definition Shard :: "u32 \<Rightarrow> nat" where "Shard hash = unat (drop_bit (32 - kNumShardBits) hash)"

definition ShardedLRUCache_new :: "u64 \<Rightarrow> 'v ShardedLRUCache option" where
  "ShardedLRUCache_new capacity =
     (let per_shard = (capacity + (word_of_nat kNumShards - 1)) div word_of_nat kNumShards
      in map_option (\<lambda>c. \<lparr>sc_shard = replicate kNumShards (SetCapacity per_shard c), sc_last_id = 0\<rparr>) LRUCache_new)"

definition update_shard :: "nat \<Rightarrow> 'v LRUCache \<Rightarrow> 'v ShardedLRUCache \<Rightarrow> 'v ShardedLRUCache" where
  "update_shard i c sc = sc\<lparr>sc_shard := (sc_shard sc)[i := c]\<rparr>"

definition Sharded_Insert ::
    "bytes \<Rightarrow> 'v \<Rightarrow> u64 \<Rightarrow> 'v ShardedLRUCache \<Rightarrow> ((nat \<times> nat) \<times> 'v ShardedLRUCache) option" where
  "Sharded_Insert key v charge sc =
     (let hash = HashSlice key; i = Shard hash
      in map_option (\<lambda>(a, c). ((i, a), update_shard i c sc)) (LRUCache_Insert key hash v charge (sc_shard sc ! i)))"

definition Sharded_Lookup :: "bytes \<Rightarrow> 'v ShardedLRUCache \<Rightarrow> ((nat \<times> nat) option \<times> 'v ShardedLRUCache) option" where
  "Sharded_Lookup key sc =
     (let hash = HashSlice key; i = Shard hash
      in map_option (\<lambda>(p, c). (map_option (Pair i) p, update_shard i c sc)) (LRUCache_Lookup key hash (sc_shard sc ! i)))"

definition sharded_handle :: "nat \<times> nat \<Rightarrow> 'v ShardedLRUCache \<Rightarrow> 'v LRUHandle option" where
  "sharded_handle p sc = lc_heap (sc_shard sc ! fst p) (snd p)"

definition Sharded_Release :: "nat \<times> nat \<Rightarrow> 'v ShardedLRUCache \<Rightarrow> 'v ShardedLRUCache option" where
  "Sharded_Release p sc =
     Option.bind (sharded_handle p sc) (\<lambda>e.
       let i = Shard (hd_hash e)
       in map_option (\<lambda>c. update_shard i c sc) (LRUCache_Release (snd p) (sc_shard sc ! i)))"

definition Sharded_Erase :: "bytes \<Rightarrow> 'v ShardedLRUCache \<Rightarrow> 'v ShardedLRUCache option" where
  "Sharded_Erase key sc =
     (let hash = HashSlice key; i = Shard hash
      in map_option (\<lambda>c. update_shard i c sc) (LRUCache_Erase key hash (sc_shard sc ! i)))"

definition Sharded_Value :: "nat \<times> nat \<Rightarrow> 'v ShardedLRUCache \<Rightarrow> 'v option" where
  "Sharded_Value p sc = map_option hd_value (sharded_handle p sc)"

definition Sharded_NewId :: "'v ShardedLRUCache \<Rightarrow> u64 \<times> 'v ShardedLRUCache" where
  "Sharded_NewId sc = (sc_last_id sc + 1, sc\<lparr>sc_last_id := sc_last_id sc + 1\<rparr>)"

definition Sharded_Prune :: "'v ShardedLRUCache \<Rightarrow> 'v ShardedLRUCache option" where
  "Sharded_Prune sc =
     fold (\<lambda>i r. Option.bind r (\<lambda>sc. map_option (\<lambda>c. update_shard i c sc) (LRUCache_Prune (sc_shard sc ! i))))
       [0..<kNumShards] (Some sc)"

definition Sharded_TotalCharge :: "'v ShardedLRUCache \<Rightarrow> u64" where
  "Sharded_TotalCharge sc = fold (\<lambda>i total. total + LRUCache_TotalCharge (sc_shard sc ! i)) [0..<kNumShards] 0"

subsection \<open>The invariant of a shard\<close>

definition cached :: "'v LRUCache \<Rightarrow> nat set" where
  "cached c = {a. \<exists>e. lc_heap c a = Some e \<and> hd_in_cache e}"

definition charge_of :: "'v LRUCache \<Rightarrow> nat \<Rightarrow> u64" where
  "charge_of c a = (case lc_heap c a of Some e \<Rightarrow> hd_charge e | None \<Rightarrow> 0)"

definition content_of :: "'v LRUCache \<Rightarrow> nat \<Rightarrow> bytes \<times> 'v" where
  "content_of c a = (case lc_heap c a of Some e \<Rightarrow> (hd_key e, hd_value e))"

text \<open>
  \<open>xs\<close> and \<open>ys\<close> are the two lists, \<open>cl\<close> the handles held by clients, \<open>ins\<close> all that was ever
  inserted, and \<open>T\<close> the handles in the table, which differ from the cached ones only inside of
  operations.
\<close>

definition handle_ok :: "nat \<Rightarrow> nat multiset \<Rightarrow> nat \<Rightarrow> 'v LRUHandle \<Rightarrow> bool" where
  "handle_ok next cl a e \<longleftrightarrow> 2 \<le> a \<and> a < next \<and>
     unat (hd_refs e) = count cl a + (if hd_in_cache e then 1 else 0) \<and> 0 < unat (hd_refs e)"

definition lists_ok :: "'v LRUCache \<Rightarrow> nat multiset \<Rightarrow> nat list \<Rightarrow> nat list \<Rightarrow> bool" where
  "lists_ok c cl xs ys \<longleftrightarrow> ring (lc_links c) lru_head xs \<and> ring (lc_links c) in_use_head ys \<and>
     set xs = {a \<in> cached c. a \<notin># cl} \<and> set ys = {a \<in> cached c. a \<in># cl}"

definition lru_state ::
    "'v LRUCache \<Rightarrow> nat multiset \<Rightarrow> (bytes \<times> 'v) multiset \<Rightarrow> nat list \<Rightarrow> nat list \<Rightarrow> nat set \<Rightarrow> bool" where
  "lru_state c cl ins xs ys T \<longleftrightarrow> lists_ok c cl xs ys \<and> table_holds (lc_heap c) (lc_table c) T \<and>
     (\<forall>a e. lc_heap c a = Some e \<longrightarrow> handle_ok (lc_next_addr c) cl a e) \<and> 2 \<le> lc_next_addr c \<and>
     set_mset cl \<subseteq> dom (lc_heap c) \<and> lc_usage c = (\<Sum>a \<in> cached c. charge_of c a) \<and>
     ins = mset (lc_deleted c) + image_mset (content_of c) (mset_set (dom (lc_heap c)))"

end
