(* ===== verification/LruInvariant.thy ===== *)
theory LruInvariant
  imports LruCache
begin

section \<open>The cache's reference counts and lists (\<^verbatim>\<open>util/cache.cc\<close>)\<close>

text \<open>
  What each step of the cache does to the invariant: \<open>Ref\<close> adds a client, \<open>Unref\<close> takes one away and
  frees the handle with the last reference, \<open>FinishErase\<close> takes a handle from its list, and the
  operations of the table change nothing but the chains.
\<close>

subsection \<open>Changes of the heap\<close>

text \<open>The table depends on the keys, hashes and chains of the handles it holds.\<close>

definition table_fields :: "'v LRUHandle \<Rightarrow> nat option \<times> u32 \<times> bytes" where
  "table_fields e = (hd_next_hash e, hd_hash e, hd_key e)"

lemma chain_fields:
  "chain h p xs \<Longrightarrow> (\<And>a. a \<in> set xs \<Longrightarrow> map_option table_fields (h' a) = map_option table_fields (h a)) \<Longrightarrow> chain h' p xs"
proof (induction xs arbitrary: p)
  case (Cons a xs)
  then obtain e where e: "p = Some a" "h a = Some e" "chain h (hd_next_hash e) xs" by auto
  moreover obtain e' where "h' a = Some e'" "hd_next_hash e' = hd_next_hash e"
    using Cons.prems(2) [of a] e(2) by (cases "h' a") (auto simp: table_fields_def)
  ultimately show ?case using Cons by simp
qed simp

lemma entry_fields:
  assumes "map_option table_fields (h' a) = map_option table_fields (h a)"
  shows "is_entry h' key hash a \<longleftrightarrow> is_entry h key hash a" "in_bucket h' len i a \<longleftrightarrow> in_bucket h len i a"
  using assms by (cases "h a"; cases "h' a"; auto simp: is_entry_def in_bucket_def table_fields_def)+

lemma table_holds_fields:
  assumes "table_holds h t T" "\<And>a. a \<in> T \<Longrightarrow> map_option table_fields (h' a) = map_option table_fields (h a)"
  shows "table_holds h' t T"
proof -
  obtain cs where cs: "buckets_ok h (ht_length t) (ht_list t) cs T" using assms(1) by (auto simp: table_holds_def)
  have "bucket_ok h' (ht_length t) i (ht_list t ! i) (cs ! i)" if i: "i < unat (ht_length t)" for i
  proof -
    have "bucket_ok h (ht_length t) i (ht_list t ! i) (cs ! i)" using cs i by (simp add: buckets_ok_def)
    moreover have f: "map_option table_fields (h' a) = map_option table_fields (h a)" if "a \<in> set (cs ! i)" for a
      using buckets_mem [OF cs i] that assms(2) by blast
    moreover have "in_bucket h' (ht_length t) i a \<longleftrightarrow> in_bucket h (ht_length t) i a" if "a \<in> set (cs ! i)" for a
      by (rule entry_fields(2)) (rule f [OF that])
    ultimately show ?thesis using chain_fields [of h _ "cs ! i" h'] by (simp add: bucket_ok_def)
  qed
  then have "buckets_ok h' (ht_length t) (ht_list t) cs T" using cs by (simp add: buckets_ok_def)
  moreover have "is_entry h' key hash a \<longleftrightarrow> is_entry h key hash a" if "a \<in> T" for a key hash
    by (rule entry_fields(1)) (rule assms(2) [OF that])
  then have "one_entry h' T \<longleftrightarrow> one_entry h T" by (simp add: one_entry_def)
  ultimately show ?thesis using assms(1) by (auto simp: table_holds_def)
qed

text \<open>What never changes of a handle.\<close>

definition fixed_of :: "'v LRUCache \<Rightarrow> nat \<Rightarrow> (bytes \<times> u32 \<times> 'v \<times> u64) option" where
  "fixed_of c a = map_option (\<lambda>e. (hd_key e, hd_hash e, hd_value e, hd_charge e)) (lc_heap c a)"

lemma fixed_same:
  assumes "fixed_of c' x = fixed_of c x"
  shows "content_of c' x = content_of c x" "charge_of c' x = charge_of c x"
    "is_entry (lc_heap c') key hash x \<longleftrightarrow> is_entry (lc_heap c) key hash x"
  using assms by (cases "lc_heap c x"; cases "lc_heap c' x"; auto simp: fixed_of_def content_of_def charge_of_def is_entry_def)+

lemma fixed_all:
  assumes "fixed_of c' = fixed_of c"
  shows "content_of c' = content_of c" "charge_of c' = charge_of c"
  using fixed_same(1,2) [OF fun_cong [OF assms]] by (simp_all add: fun_eq_iff)

lemma cached_iff [simp]: "a \<in> cached c \<longleftrightarrow> (\<exists>e. lc_heap c a = Some e \<and> hd_in_cache e)"
  by (simp add: cached_def)

lemma handle_ok_next_hash [simp]: "handle_ok n cl a (e\<lparr>hd_next_hash := q\<rparr>) \<longleftrightarrow> handle_ok n cl a e"
  by (simp add: handle_ok_def)

text \<open>An operation of the table: nothing but the chains has changed.\<close>

lemma table_step:
  assumes s: "lru_state c cl ins xs ys T" and p: "payload h' = payload (lc_heap c)" and t: "table_holds h' t' T'"
  shows "lru_state (c\<lparr>lc_heap := h', lc_table := t'\<rparr>) cl ins xs ys T'"
    "cached (c\<lparr>lc_heap := h', lc_table := t'\<rparr>) = cached c" "content_of (c\<lparr>lc_heap := h', lc_table := t'\<rparr>) = content_of c"
    "fixed_of (c\<lparr>lc_heap := h', lc_table := t'\<rparr>) = fixed_of c"
proof -
  let ?c = "c\<lparr>lc_heap := h', lc_table := t'\<rparr>"
  have to: "\<exists>p. h' a = Some (e\<lparr>hd_next_hash := p\<rparr>)" if "lc_heap c a = Some e" for a e by (rule payload_Some [OF p that])
  have fro: "\<exists>p. lc_heap c a = Some (e\<lparr>hd_next_hash := p\<rparr>)" if "h' a = Some e" for a e by (rule payload_Some [OF p [symmetric] that])
  have none: "lc_heap c a = None \<longleftrightarrow> h' a = None" for a by (rule payload_None [OF p])
  show ca: "cached ?c = cached c" using to fro by (fastforce simp: set_eq_iff)
  show fx: "fixed_of ?c = fixed_of c"
  proof
    fix a show "fixed_of ?c a = fixed_of c a"
      using to [of a] none [of a] by (cases "lc_heap c a") (auto simp: fixed_of_def)
  qed
  note co = fixed_all(1) [OF fx] and ch = fixed_all(2) [OF fx]
  show "content_of ?c = content_of c" by (rule co)
  have dom: "dom h' = dom (lc_heap c)" using none by (auto simp: dom_def)
  have ok: "handle_ok (lc_next_addr c) cl a e" if "h' a = Some e" for a e
  proof -
    from fro [OF that] obtain q where "lc_heap c a = Some (e\<lparr>hd_next_hash := q\<rparr>)" by blast
    then have "handle_ok (lc_next_addr c) cl a (e\<lparr>hd_next_hash := q\<rparr>)" using s unfolding lru_state_def by blast
    then show ?thesis by simp
  qed
  have "lists_ok ?c cl xs ys" using s unfolding lru_state_def lists_ok_def ca by simp
  moreover have "lc_usage ?c = (\<Sum>a \<in> cached ?c. charge_of ?c a)" using s unfolding lru_state_def ca ch by simp
  moreover have "ins = mset (lc_deleted ?c) + image_mset (content_of ?c) (mset_set (dom (lc_heap ?c)))"
    using s unfolding lru_state_def co by (simp add: dom)
  ultimately show "lru_state ?c cl ins xs ys T'"
    using s t ok dom by (simp add: lru_state_def)
qed

subsection \<open>The two lists\<close>

lemma lru_handle:
  assumes "lru_state c cl ins xs ys T" "lc_heap c a = Some e"
  shows "2 \<le> a" "a < lc_next_addr c" "unat (hd_refs e) = count cl a + (if hd_in_cache e then 1 else 0)" "0 < unat (hd_refs e)"
proof -
  have "handle_ok (lc_next_addr c) cl a e" using assms unfolding lru_state_def by blast
  then show "2 \<le> a" "a < lc_next_addr c" "unat (hd_refs e) = count cl a + (if hd_in_cache e then 1 else 0)" "0 < unat (hd_refs e)"
    unfolding handle_ok_def by blast+
qed

lemma lru_finite:
  assumes "lru_state c cl ins xs ys T"
  shows "finite (dom (lc_heap c))" "cached c \<subseteq> dom (lc_heap c)" "finite (cached c)"
proof -
  have "dom (lc_heap c) \<subseteq> {..<lc_next_addr c}" using lru_handle(2) [OF assms] by auto
  then show "finite (dom (lc_heap c))" by (rule finite_subset) simp
  moreover show "cached c \<subseteq> dom (lc_heap c)" by (auto simp: dom_def)
  ultimately show "finite (cached c)" by (rule finite_subset [rotated])
qed

lemma lru_lists:
  assumes "lru_state c cl ins xs ys T"
  shows "ring (lc_links c) lru_head xs" "ring (lc_links c) in_use_head ys" "set xs = {a \<in> cached c. a \<notin># cl}"
    "set ys = {a \<in> cached c. a \<in># cl}" "set (lru_head # xs) \<inter> set (in_use_head # ys) = {}"
    "distinct (lru_head # xs)" "distinct (in_use_head # ys)"
proof -
  show *: "ring (lc_links c) lru_head xs" "ring (lc_links c) in_use_head ys" and
    **: "set xs = {a \<in> cached c. a \<notin># cl}" "set ys = {a \<in> cached c. a \<in># cl}"
    using assms by (simp_all add: lru_state_def lists_ok_def)
  have "2 \<le> a" if "a \<in> cached c" for a using lru_handle(1) [OF assms] that by auto
  then show "set (lru_head # xs) \<inter> set (in_use_head # ys) = {}"
    unfolding lru_head_def in_use_head_def using ** by fastforce
  show "distinct (lru_head # xs)" "distinct (in_use_head # ys)" using * by (simp_all add: ring_def)
qed

lemma remove1_mid: "distinct (us @ a # vs) \<Longrightarrow> remove1 a (us @ a # vs) = us @ vs"
  by (simp add: remove1_append)

lemma set_remove1_distinct: "distinct xs \<Longrightarrow> set (remove1 a xs) = set xs - {a}"
  by simp

text \<open>A node is taken from one of two disjoint rings, and perhaps appended to the other.\<close>

lemma rings_unlink:
  assumes r: "ring l h xs" "ring l h' ys" "set (h # xs) \<inter> set (h' # ys) = {}" and a: "a \<in> set xs"
  shows "ring (unlink a l) h (remove1 a xs)" "ring (unlink a l) h' ys"
proof -
  obtain us vs where x: "xs = us @ a # vs" using split_list [OF a] by blast
  have "distinct (us @ a # vs)" using r(1) x by (simp add: ring_def)
  then have "remove1 a xs = us @ vs" using x remove1_mid by simp
  then show "ring (unlink a l) h (remove1 a xs)" using ring_unlink r(1) x by simp
  show "ring (unlink a l) h' ys" by (rule ring_unlink_other [OF r(1) [unfolded x] r(2)]) (use r(3) x in auto)
qed

lemma rings_move:
  assumes r: "ring l h xs" "ring l h' ys" "set (h # xs) \<inter> set (h' # ys) = {}" and a: "a \<in> set xs"
  shows "ring (link_last h' a (unlink a l)) h (remove1 a xs)" "ring (link_last h' a (unlink a l)) h' (ys @ [a])"
proof -
  note u = rings_unlink [OF r a]
  have d: "distinct (h # xs)" using r(1) by (simp add: ring_def)
  have na: "a \<notin> set (h' # ys)" "a \<noteq> h" using r(3) a d by auto
  show "ring (link_last h' a (unlink a l)) h' (ys @ [a])" by (rule ring_link_last [OF u(2) na(1)])
  have "set (remove1 a xs) = set xs - {a}" using d by simp
  then have "set (h # remove1 a xs) \<inter> set (a # h' # ys) = {}" using r(3) na(2) by auto
  then show "ring (link_last h' a (unlink a l)) h (remove1 a xs)" by (rule ring_link_last_other [OF u(2,1)])
qed

subsection \<open>References\<close>

lemma unat_inc: "unat (n :: u32) + 1 < 2 ^ 32 \<Longrightarrow> unat (n + 1) = unat n + 1"
  by (simp add: unat_word_ariths)

text \<open>Another reference to a handle: it leaves the list of evictable ones.\<close>

lemma Ref_state:
  assumes s: "lru_state c cl ins xs ys T" and a: "lc_heap c a = Some e" "count cl a < 2 ^ 32 - 2"
  shows "\<exists>c'. Ref a c = Some c' \<and> lru_state c' (add_mset a cl) ins (remove1 a xs) (if a \<in> set xs then ys @ [a] else ys) T \<and>
    cached c' = cached c \<and> lc_capacity c' = lc_capacity c \<and> lc_deleted c' = lc_deleted c \<and>
    fixed_of c' = fixed_of c \<and> dom (lc_heap c') = dom (lc_heap c) \<and> lc_next_addr c' = lc_next_addr c"
proof -
  note h = lru_handle [OF s a(1)] and L = lru_lists [OF s]
  let ?e = "e\<lparr>hd_refs := hd_refs e + 1\<rparr>" and ?move = "hd_refs e = 1 \<and> hd_in_cache e"
  define c1 where "c1 = (if ?move then LRU_Append in_use_head a (LRU_Remove a c) else c)"
  define c' where "c' = set_handle a ?e c1"
  have c1: "lc_heap c1 = lc_heap c" "lc_table c1 = lc_table c" "lc_usage c1 = lc_usage c" "lc_next_addr c1 = lc_next_addr c"
    "lc_deleted c1 = lc_deleted c" "lc_capacity c1 = lc_capacity c"
    by (simp_all add: c1_def LRU_Append_def LRU_Remove_def)
  have f: "lc_table c' = lc_table c" "lc_usage c' = lc_usage c" "lc_next_addr c' = lc_next_addr c"
    "lc_deleted c' = lc_deleted c" "lc_capacity c' = lc_capacity c"
    by (simp_all add: c'_def set_handle_def c1)
  have R: "Ref a c = Some c'" using a(1) by (simp add: Ref_def c'_def c1_def Let_def)
  have heap: "lc_heap c' = (lc_heap c)(a \<mapsto> ?e)" by (simp add: c'_def set_handle_def c1)
  have one: "hd_refs e = 1 \<longleftrightarrow> unat (hd_refs e) = 1" by (metis unat_1 unsigned_word_eqI)
  have move: "?move \<longleftrightarrow> a \<in> set xs"
    using h a(1) unfolding L(3) one by (auto simp: count_eq_zero_iff)
  have ca: "cached c' = cached c" using a(1) by (auto simp: heap set_eq_iff)
  have fx: "fixed_of c' = fixed_of c" using a(1) by (auto simp: fixed_of_def heap fun_eq_iff)
  note co = fixed_all(1) [OF fx] and ch = fixed_all(2) [OF fx]
  have dom: "dom (lc_heap c') = dom (lc_heap c)" using a(1) by (auto simp: heap)
  have lists: "lists_ok c' (add_mset a cl) (remove1 a xs) (if a \<in> set xs then ys @ [a] else ys)"
  proof (cases "a \<in> set xs")
    case True
    have l: "lc_links c' = link_last in_use_head a (unlink a (lc_links c))"
      using True move by (simp add: c'_def set_handle_def c1_def LRU_Append_def LRU_Remove_def)
    have "set (remove1 a xs) = set xs - {a}" using L(6) by simp
    then show ?thesis using rings_move [OF L(1,2,5) True] True L(3,4) by (auto simp: lists_ok_def l ca)
  next
    case False
    then have "c1 = c" by (simp only: c1_def move if_False)
    then have l: "lc_links c' = lc_links c" by (simp add: c'_def set_handle_def)
    show ?thesis using False L(1-4) by (auto simp: lists_ok_def l ca remove1_idem)
  qed
  have "unat (hd_refs ?e) = unat (hd_refs e) + 1" using unat_inc [of "hd_refs e"] h(3) a(2) by (simp split: if_splits)
  then have "handle_ok (lc_next_addr c) (add_mset a cl) a ?e" using h by (simp add: handle_ok_def)
  then have ok: "handle_ok (lc_next_addr c) (add_mset a cl) b e'" if "lc_heap c' b = Some e'" for b e'
    using that lru_handle [OF s, of b e'] by (auto simp: heap handle_ok_def split: if_splits)
  have tab: "table_holds (lc_heap c') (lc_table c) T"
    by (rule table_holds_fields [of "lc_heap c"]) (use s a(1) in \<open>auto simp: lru_state_def heap table_fields_def\<close>)
  have sub: "set_mset (add_mset a cl) \<subseteq> dom (lc_heap c')"
    using s a(1) unfolding dom by (auto simp: lru_state_def)
  have "lru_state c' (add_mset a cl) ins (remove1 a xs) (if a \<in> set xs then ys @ [a] else ys) T"
    unfolding lru_state_def dom co ca ch f
    using lists tab ok sub s unfolding lru_state_def dom by blast
  then show ?thesis using R ca fx dom f by blast
qed


lemma unat_dec: "0 < unat (n :: u32) \<Longrightarrow> unat (n - 1) = unat n - 1"
  by (simp add: unat_sub_if' Suc_le_eq)

lemma image_mset_remove:
  assumes "finite D" "a \<in> D" "\<And>b. b \<in> D - {a} \<Longrightarrow> g b = f b"
  shows "image_mset f (mset_set D) = add_mset (f a) (image_mset g (mset_set (D - {a})))"
proof -
  have "mset_set D = add_mset a (mset_set (D - {a}))" using assms(1,2) by (metis mset_set.remove)
  moreover have "image_mset g (mset_set (D - {a})) = image_mset f (mset_set (D - {a}))"
    by (rule image_mset_cong) (use assms(1,3) in auto)
  ultimately show ?thesis by simp
qed

text \<open>
  The end of a reference: the handle is freed with its last one, and becomes evictable, as the newest
  entry, when only the cache's own reference is left.
\<close>

definition freed :: "'v LRUCache \<Rightarrow> nat multiset \<Rightarrow> nat \<Rightarrow> bool" where
  "freed c cl a \<longleftrightarrow> count cl a = 1 \<and> a \<notin> cached c"

definition idle :: "'v LRUCache \<Rightarrow> nat multiset \<Rightarrow> nat \<Rightarrow> bool" where
  "idle c cl a \<longleftrightarrow> count cl a = 1 \<and> a \<in> cached c"

lemma Unref_frees:
  assumes s: "lru_state c cl ins xs ys (cached c)" and a: "lc_heap c a = Some e" "freed c cl a"
  shows "\<exists>c'. Unref a c = Some c' \<and> lru_state c' (cl - {#a#}) ins xs ys (cached c') \<and> cached c' = cached c \<and>
    lc_capacity c' = lc_capacity c \<and> lc_deleted c' = lc_deleted c @ [content_of c a] \<and> lc_next_addr c' = lc_next_addr c \<and>
    lc_heap c' = (lc_heap c)(a := None)"
proof -
  note h = lru_handle [OF s a(1)] and L = lru_lists [OF s]
  have na: "a \<notin> cached c" "count cl a = 1" using a(2) by (simp_all add: freed_def)
  have nc: "\<not> hd_in_cache e" using na(1) a(1) by simp
  have "unat (hd_refs e) = 1" using h(3) nc na by simp
  then have r: "hd_refs e - 1 = 0" using unat_dec [of "hd_refs e"] by (metis diff_self_eq_0 h(4) unat_eq_0)
  define c' where "c' = c\<lparr>lc_heap := (lc_heap c)(a := None), lc_deleted := lc_deleted c @ [content_of c a]\<rparr>"
  have R: "Unref a c = Some c'" using a(1) r by (simp add: Unref_def c'_def set_handle_def Let_def content_of_def)
  have ca: "cached c' = cached c" using nc a(1) by (auto simp: c'_def set_eq_iff)
  have zero: "count (cl - {#a#}) b = (if b = a then 0 else count cl b)" for b using na by simp
  have lists: "lists_ok c' (cl - {#a#}) xs ys"
  proof -
    have "b \<in># cl - {#a#} \<longleftrightarrow> b \<in># cl" if "b \<in> cached c" for b
      using that na(1) zero [of b] by (auto simp flip: count_greater_zero_iff)
    then have "{b \<in> cached c. b \<notin># cl - {#a#}} = {b \<in> cached c. b \<notin># cl}" "{b \<in> cached c. b \<in># cl - {#a#}} = {b \<in> cached c. b \<in># cl}"
      by blast+
    moreover have "lc_links c' = lc_links c" by (simp add: c'_def)
    ultimately show ?thesis using L(1-4) unfolding lists_ok_def ca by simp
  qed
  have tab: "table_holds (lc_heap c') (lc_table c') (cached c)"
    by (rule table_holds_fields [of "lc_heap c"]) (use s na(1) in \<open>auto simp: lru_state_def c'_def\<close>)
  have ok: "handle_ok (lc_next_addr c) (cl - {#a#}) b e'" if "lc_heap c' b = Some e'" for b e'
  proof -
    have b: "lc_heap c b = Some e'" "b \<noteq> a" using that by (auto simp: c'_def split: if_splits)
    show ?thesis using lru_handle [OF s b(1)] b(2) unfolding handle_ok_def by simp
  qed
  have sub: "set_mset (cl - {#a#}) \<subseteq> dom (lc_heap c')"
  proof
    fix b assume "b \<in># cl - {#a#}"
    then have "b \<noteq> a" "b \<in># cl" using zero [of b] by (auto simp flip: count_greater_zero_iff split: if_splits)
    then show "b \<in> dom (lc_heap c')" using s by (auto simp: lru_state_def c'_def)
  qed
  have usage: "lc_usage c' = sum (charge_of c') (cached c')"
  proof -
    have "sum (charge_of c') (cached c') = sum (charge_of c) (cached c)" unfolding ca
      by (rule sum.cong) (use na(1) in \<open>auto simp: charge_of_def c'_def\<close>)
    then show ?thesis using s by (simp add: lru_state_def c'_def)
  qed
  have "ins = mset (lc_deleted c') + image_mset (content_of c') (mset_set (dom (lc_heap c')))"
  proof -
    have "image_mset (content_of c) (mset_set (dom (lc_heap c))) =
        add_mset (content_of c a) (image_mset (content_of c') (mset_set (dom (lc_heap c) - {a})))"
      by (rule image_mset_remove [OF lru_finite(1) [OF s]]) (use a(1) in \<open>auto simp: content_of_def c'_def\<close>)
    moreover have "dom (lc_heap c') = dom (lc_heap c) - {a}" by (auto simp: c'_def)
    ultimately show ?thesis using s by (simp add: lru_state_def c'_def)
  qed
  then have "lru_state c' (cl - {#a#}) ins xs ys (cached c')"
    using lists tab ok sub usage s unfolding lru_state_def ca by (auto simp: c'_def)
  then show ?thesis using R ca by (auto simp: c'_def)
qed

lemma Unref_keeps:
  assumes s: "lru_state c cl ins xs ys (cached c)" and a: "lc_heap c a = Some e" "a \<in># cl" "\<not> freed c cl a"
  shows "\<exists>c'. Unref a c = Some c' \<and> lru_state c' (cl - {#a#}) ins (if idle c cl a then xs @ [a] else xs)
      (if idle c cl a then remove1 a ys else ys) (cached c') \<and> cached c' = cached c \<and>
    lc_capacity c' = lc_capacity c \<and> lc_deleted c' = lc_deleted c \<and> lc_next_addr c' = lc_next_addr c \<and>
    fixed_of c' = fixed_of c \<and> dom (lc_heap c') = dom (lc_heap c)"
proof -
  note h = lru_handle [OF s a(1)] and L = lru_lists [OF s]
  let ?e = "e\<lparr>hd_refs := hd_refs e - 1\<rparr>"
  have n: "0 < count cl a" using a(2) by simp
  have ic: "hd_in_cache e \<longleftrightarrow> a \<in> cached c" using a(1) by simp
  have un: "unat (hd_refs e - 1) = unat (hd_refs e) - 1" using unat_dec [OF h(4)] .
  have "hd_in_cache e \<or> 1 < count cl a" using a(3) n ic unfolding freed_def by linarith
  then have pos: "1 < unat (hd_refs e)" using h(3) n
    by (cases "hd_in_cache e"; simp only: simp_thms if_True if_False; linarith)
  have r0: "hd_refs e - 1 \<noteq> 0" using un pos by (metis diff_is_0_eq not_le unat_0)
  have "hd_refs e - 1 = 1 \<longleftrightarrow> unat (hd_refs e) = 2" using un pos by (metis Suc_1 Suc_diff_1 diff_Suc_1 h(4) unat_1 unsigned_word_eqI)
  then have r1: "hd_in_cache e \<and> hd_refs e - 1 = 1 \<longleftrightarrow> idle c cl a"
    using h(3) ic by (cases "hd_in_cache e") (auto simp: idle_def)
  define c' where "c' = (if idle c cl a then LRU_Append lru_head a (LRU_Remove a (set_handle a ?e c)) else set_handle a ?e c)"
  have R: "Unref a c = Some c'" using a(1) r0 r1 by (simp add: Unref_def c'_def Let_def)
  have f: "lc_table c' = lc_table c" "lc_usage c' = lc_usage c" "lc_next_addr c' = lc_next_addr c"
    "lc_deleted c' = lc_deleted c" "lc_capacity c' = lc_capacity c" and heap: "lc_heap c' = (lc_heap c)(a \<mapsto> ?e)"
    by (simp_all add: c'_def set_handle_def LRU_Append_def LRU_Remove_def)
  have ca: "cached c' = cached c" using a(1) by (auto simp: heap set_eq_iff)
  have fx: "fixed_of c' = fixed_of c" using a(1) by (auto simp: fixed_of_def heap fun_eq_iff)
  note co = fixed_all(1) [OF fx] and ch = fixed_all(2) [OF fx]
  have dom: "dom (lc_heap c') = dom (lc_heap c)" using a(1) by (auto simp: heap)
  have cl: "b \<in># cl - {#a#} \<longleftrightarrow> b \<in># cl \<and> (b = a \<longrightarrow> count cl a \<noteq> 1)" for b
    using n by (auto simp flip: count_greater_zero_iff)
  have lists: "lists_ok c' (cl - {#a#}) (if idle c cl a then xs @ [a] else xs) (if idle c cl a then remove1 a ys else ys)"
  proof (cases "idle c cl a")
    case True
    then have ay: "a \<in> set ys" using L(4) a(2) by (simp add: idle_def)
    have l: "lc_links c' = link_last lru_head a (unlink a (lc_links c))"
      using True by (simp add: c'_def set_handle_def LRU_Append_def LRU_Remove_def)
    have dis: "set (in_use_head # ys) \<inter> set (lru_head # xs) = {}" using L(5) by blast
    have "set (remove1 a ys) = set ys - {a}" using L(7) by simp
    then show ?thesis using rings_move [OF L(2,1) dis ay] True L(3,4)
      by (auto simp: lists_ok_def l ca cl idle_def)
  next
    case False
    then have "lc_links c' = lc_links c" by (simp add: c'_def set_handle_def)
    then show ?thesis using False L(1-4) by (auto simp: lists_ok_def ca cl idle_def)
  qed
  have "handle_ok (lc_next_addr c) (cl - {#a#}) a ?e"
    using h n un pos unfolding handle_ok_def by (cases "hd_in_cache e") simp_all
  then have ok: "handle_ok (lc_next_addr c) (cl - {#a#}) b e'" if "lc_heap c' b = Some e'" for b e'
    using that lru_handle [OF s, of b e'] by (cases "b = a") (auto simp: heap handle_ok_def)
  have tab: "table_holds (lc_heap c') (lc_table c) (cached c)"
    by (rule table_holds_fields [of "lc_heap c"]) (use s a(1) in \<open>auto simp: lru_state_def heap table_fields_def\<close>)
  have sub: "set_mset (cl - {#a#}) \<subseteq> dom (lc_heap c)"
    using s unfolding lru_state_def by (meson in_diffD subset_iff)
  have "lru_state c' (cl - {#a#}) ins (if idle c cl a then xs @ [a] else xs) (if idle c cl a then remove1 a ys else ys) (cached c')"
    unfolding lru_state_def dom co ca ch f
    using lists tab ok sub s unfolding lru_state_def dom ca by blast
  then show ?thesis using R ca fx dom f by blast
qed

end
