(* ===== verification/LruSafety.thy ===== *)
theory LruSafety
  imports LruInvariant
begin

section \<open>The operations of a shard (\<^verbatim>\<open>util/cache.cc\<close>)\<close>

text \<open>
  The operations of a shard under the contract of its clients: none of them fails, and what each
  does to the clients' handles, to the list of evictable entries and to the calls of the deleters.
\<close>

subsection \<open>Erasing a handle\<close>

text \<open>The handle leaves its list and the usage; the cache's reference becomes that of the eraser.\<close>

definition detach :: "nat \<Rightarrow> 'v LRUHandle \<Rightarrow> 'v LRUCache \<Rightarrow> 'v LRUCache" where
  "detach b e c = (set_handle b (e\<lparr>hd_in_cache := False\<rparr>) (LRU_Remove b c))\<lparr>lc_usage := lc_usage c - hd_charge e\<rparr>"

lemma detach_simps [simp]:
  "lc_heap (detach b e c) = (lc_heap c)(b \<mapsto> e\<lparr>hd_in_cache := False\<rparr>)" "lc_table (detach b e c) = lc_table c"
  "lc_links (detach b e c) = unlink b (lc_links c)" "lc_usage (detach b e c) = lc_usage c - hd_charge e"
  "lc_next_addr (detach b e c) = lc_next_addr c" "lc_deleted (detach b e c) = lc_deleted c"
  "lc_capacity (detach b e c) = lc_capacity c"
  by (simp_all add: detach_def set_handle_def LRU_Remove_def)

lemma FinishErase_detach:
  "lc_heap c b = Some e \<Longrightarrow> FinishErase (Some b) c = map_option (Pair True) (Unref b (detach b e c))"
  by (simp add: FinishErase_def detach_def set_handle_def LRU_Remove_def Let_def)

lemma detach_state:
  assumes s: "lru_state c cl ins xs ys (cached c - {b})" and b: "lc_heap c b = Some e" "hd_in_cache e"
  shows "lru_state (detach b e c) (add_mset b cl) ins (remove1 b xs) (remove1 b ys) (cached (detach b e c))"
    "cached (detach b e c) = cached c - {b}" "content_of (detach b e c) = content_of c" "fixed_of (detach b e c) = fixed_of c"
    "dom (lc_heap (detach b e c)) = dom (lc_heap c)"
proof -
  note h = lru_handle [OF s b(1)] and L = lru_lists [OF s] and fin = lru_finite [OF s]
  let ?c = "detach b e c"
  show ca: "cached ?c = cached c - {b}" by (auto simp: set_eq_iff)
  show fx: "fixed_of ?c = fixed_of c" using b(1) by (auto simp: fixed_of_def fun_eq_iff)
  note co = fixed_all(1) [OF fx] and ch = fixed_all(2) [OF fx]
  show "content_of ?c = content_of c" by (rule co)
  show dom: "dom (lc_heap ?c) = dom (lc_heap c)" using b(1) by auto
  have bc: "b \<in> cached c" using b by simp
  have rem: "set (remove1 b xs) = set xs - {b}" "set (remove1 b ys) = set ys - {b}" using L(6,7) by simp_all
  have rings: "ring (unlink b (lc_links c)) lru_head (remove1 b xs) \<and> ring (unlink b (lc_links c)) in_use_head (remove1 b ys)"
  proof (cases "b \<in># cl")
    case True
    then have y: "b \<in> set ys" "b \<notin> set xs" using L(3,4) bc by auto
    have dis: "set (in_use_head # ys) \<inter> set (lru_head # xs) = {}" using L(5) by blast
    show ?thesis using rings_unlink [OF L(2,1) dis y(1)] y(2) by (simp add: remove1_idem)
  next
    case False
    then have x: "b \<in> set xs" "b \<notin> set ys" using L(3,4) bc by auto
    show ?thesis using rings_unlink [OF L(1,2,5) x(1)] x(2) by (simp add: remove1_idem)
  qed
  have lists: "lists_ok ?c (add_mset b cl) (remove1 b xs) (remove1 b ys)"
    using rings rem L(3,4) unfolding lists_ok_def ca by auto
  have "handle_ok (lc_next_addr c) (add_mset b cl) b (e\<lparr>hd_in_cache := False\<rparr>)" using h b(2) by (simp add: handle_ok_def)
  then have ok: "handle_ok (lc_next_addr c) (add_mset b cl) x e'" if "lc_heap ?c x = Some e'" for x e'
    using that lru_handle [OF s, of x e'] by (cases "x = b") (auto simp: handle_ok_def)
  have tab: "table_holds (lc_heap ?c) (lc_table c) (cached c - {b})"
    by (rule table_holds_fields [of "lc_heap c"]) (use s in \<open>auto simp: lru_state_def\<close>)
  have sub: "set_mset (add_mset b cl) \<subseteq> dom (lc_heap c)" using s b(1) unfolding lru_state_def by auto
  have usage: "lc_usage c - hd_charge e = sum (charge_of c) (cached c - {b})"
  proof -
    have "sum (charge_of c) (cached c) = charge_of c b + sum (charge_of c) (cached c - {b})"
      by (rule sum.remove [OF fin(3) bc])
    moreover have "charge_of c b = hd_charge e" using b(1) by (simp add: charge_of_def)
    moreover have "lc_usage c = sum (charge_of c) (cached c)" using s by (simp only: lru_state_def)
    ultimately show ?thesis by simp
  qed
  show "lru_state ?c (add_mset b cl) ins (remove1 b xs) (remove1 b ys) (cached ?c)"
    unfolding lru_state_def dom co ch ca detach_simps(2,4-7)
    using lists tab ok sub usage s unfolding lru_state_def ca by blast
qed

text \<open>What has changed when the handles \<open>bs\<close> have left the cache: those no client holds are deleted, in order.\<close>

definition erased :: "'v LRUCache \<Rightarrow> nat multiset \<Rightarrow> nat list \<Rightarrow> 'v LRUCache \<Rightarrow> bool" where
  "erased c cl bs c' \<longleftrightarrow> cached c' = cached c - set bs \<and> lc_capacity c' = lc_capacity c \<and> lc_next_addr c' = lc_next_addr c \<and>
    lc_deleted c' = lc_deleted c @ map (content_of c) (filter (\<lambda>b. b \<notin># cl) bs) \<and>
    dom (lc_heap c') = dom (lc_heap c) - {b \<in> set bs. b \<notin># cl} \<and>
    (\<forall>x \<in> dom (lc_heap c'). fixed_of c' x = fixed_of c x)"

lemma FinishErase_state:
  assumes s: "lru_state c cl ins xs ys (cached c - {b})" and b: "b \<in> cached c"
  shows "\<exists>c'. FinishErase (Some b) c = Some (True, c') \<and> lru_state c' cl ins (remove1 b xs) (remove1 b ys) (cached c') \<and>
    erased c cl [b] c'"
proof -
  obtain e where e: "lc_heap c b = Some e" "hd_in_cache e" using b by auto
  note d = detach_state [OF s e] and F = FinishErase_detach [OF e(1)]
  let ?c = "detach b e c"
  have hb: "lc_heap ?c b = Some (e\<lparr>hd_in_cache := False\<rparr>)" by simp
  have nc: "b \<notin> cached ?c" by simp
  show ?thesis
  proof (cases "b \<in># cl")
    case True
    then have nf: "\<not> freed ?c (add_mset b cl) b" "\<not> idle ?c (add_mset b cl) b" using nc unfolding freed_def idle_def by simp_all
    have bm: "b \<in># add_mset b cl" by simp
    from Unref_keeps [OF d(1) hb bm nf(1)] obtain c' where c': "Unref b ?c = Some c'"
      "lru_state c' (add_mset b cl - {#b#}) ins (remove1 b xs) (remove1 b ys) (cached c')" "cached c' = cached ?c"
      "lc_capacity c' = lc_capacity ?c" "lc_deleted c' = lc_deleted ?c" "lc_next_addr c' = lc_next_addr ?c"
      "fixed_of c' = fixed_of ?c" "dom (lc_heap c') = dom (lc_heap ?c)"
      using nf(2) by auto
    have dom: "dom (lc_heap c') = dom (lc_heap c) - {x \<in> set [b]. x \<notin># cl}" using c'(8) d(5) True by auto
    have "erased c cl [b] c'" unfolding erased_def dom using c' d(2-5) True by simp
    then show ?thesis using F c'(1-3) by simp
  next
    case False
    then have fr: "freed ?c (add_mset b cl) b" using nc unfolding freed_def by (simp add: count_eq_zero_iff)
    from Unref_frees [OF d(1) hb fr] obtain c' where c': "Unref b ?c = Some c'"
      "lru_state c' (add_mset b cl - {#b#}) ins (remove1 b xs) (remove1 b ys) (cached c')" "cached c' = cached ?c"
      "lc_capacity c' = lc_capacity ?c" "lc_deleted c' = lc_deleted ?c @ [content_of ?c b]" "lc_next_addr c' = lc_next_addr ?c"
      "lc_heap c' = (lc_heap ?c)(b := None)"
      by blast
    have dom: "dom (lc_heap c') = dom (lc_heap c) - {b}" using c'(7) e(1) by auto
    have eq: "\<forall>x \<in> dom (lc_heap c'). fixed_of c' x = fixed_of c x"
      unfolding d(4) [symmetric] by (auto simp: fixed_of_def c'(7))
    have dom': "dom (lc_heap c') = dom (lc_heap c) - {x \<in> set [b]. x \<notin># cl}" using dom False by auto
    have "erased c cl [b] c'" using c'(3-6) d(2,3) False dom' eq by (simp only: erased_def detach_simps) simp
    then show ?thesis using F c'(1,2) by simp
  qed
qed

lemma erased_nil [simp]: "erased c cl [] c"
  by (simp add: erased_def)

lemma erased_trans:
  assumes "erased c cl bs c1" "erased c1 cl ds c'" "set ds \<subseteq> cached c1"
  shows "erased c cl (bs @ ds) c'"
proof -
  have sub: "cached c1 \<subseteq> dom (lc_heap c1)" by auto
  have "map (content_of c1) (filter (\<lambda>b. b \<notin># cl) ds) = map (content_of c) (filter (\<lambda>b. b \<notin># cl) ds)"
  proof (rule map_cong)
    fix x assume "x \<in> set (filter (\<lambda>b. b \<notin># cl) ds)"
    then have "x \<in> dom (lc_heap c1)" using assms(3) sub by auto
    then show "content_of c1 x = content_of c x" using assms(1) fixed_same(1) unfolding erased_def by blast
  qed simp
  moreover have "dom (lc_heap c') \<subseteq> dom (lc_heap c1)" using assms(2) unfolding erased_def by blast
  ultimately show ?thesis using assms(1,2) unfolding erased_def by auto
qed

lemma erased_payload:
  assumes "erased c1 cl bs c'" "cached c1 = cached c" "lc_capacity c1 = lc_capacity c" "lc_next_addr c1 = lc_next_addr c"
    "lc_deleted c1 = lc_deleted c" "dom (lc_heap c1) = dom (lc_heap c)" "content_of c1 = content_of c" "fixed_of c1 = fixed_of c"
  shows "erased c cl bs c'"
  using assms(1) unfolding erased_def assms(2-) .

lemma is_entry_same:
  assumes s: "lru_state c cl ins xs ys T" and e: "is_entry (lc_heap c) key hash a" "is_entry (lc_heap c) key hash b" "a \<in> T" "b \<in> T"
  shows "a = b"
  using s e unfolding lru_state_def table_holds_def one_entry_def by blast

lemma payload_dom: "payload h' = payload h \<Longrightarrow> dom h' = dom h"
  using payload_None [of h' h] by (auto simp: dom_def)

text \<open>\<open>Lookup\<close> finds the cached entry, if there is one, and references it.\<close>

lemma Lookup_state:
  assumes s: "lru_state c cl ins xs ys (cached c)" and n: "size cl < 2 ^ 31"
  shows "(\<exists>a c'. a \<in> cached c \<and> is_entry (lc_heap c) key hash a \<and> LRUCache_Lookup key hash c = Some (Some a, c') \<and> Ref a c = Some c' \<and>
      lru_state c' (add_mset a cl) ins (remove1 a xs) (if a \<in> set xs then ys @ [a] else ys) (cached c')) \<or>
    (\<forall>a \<in> cached c. \<not> is_entry (lc_heap c) key hash a) \<and> LRUCache_Lookup key hash c = Some (None, c)"
proof -
  have "table_holds (lc_heap c) (lc_table c) (cached c)" using s unfolding lru_state_def by blast
  then consider a where "a \<in> cached c" "is_entry (lc_heap c) key hash a" "HandleTable_Lookup (lc_heap c) (lc_table c) key hash = Some (Some a)"
    | "\<forall>a \<in> cached c. \<not> is_entry (lc_heap c) key hash a" "HandleTable_Lookup (lc_heap c) (lc_table c) key hash = Some None"
    using Lookup_finds by blast
  then show ?thesis
  proof cases
    case (1 a)
    then obtain e where e: "lc_heap c a = Some e" by auto
    have "count cl a \<le> size cl" by (rule count_le_size)
    then have m: "count cl a < 2 ^ 32 - 2" using n by simp
    from Ref_state [OF s e m] obtain c' where "Ref a c = Some c'"
      "lru_state c' (add_mset a cl) ins (remove1 a xs) (if a \<in> set xs then ys @ [a] else ys) (cached c')"
      by metis
    then show ?thesis using 1 by (auto simp: LRUCache_Lookup_def)
  qed (simp add: LRUCache_Lookup_def)
qed

lemma Erase_state:
  assumes s: "lru_state c cl ins xs ys (cached c)"
  shows "(\<exists>b c'. b \<in> cached c \<and> is_entry (lc_heap c) key hash b \<and> LRUCache_Erase key hash c = Some c' \<and>
      lru_state c' cl ins (remove1 b xs) (remove1 b ys) (cached c') \<and> erased c cl [b] c') \<or>
    (\<forall>b \<in> cached c. \<not> is_entry (lc_heap c) key hash b) \<and> LRUCache_Erase key hash c = Some c"
proof -
  have "table_holds (lc_heap c) (lc_table c) (cached c)" using s unfolding lru_state_def by blast
  then consider b h' t' where "b \<in> cached c" "is_entry (lc_heap c) key hash b"
      "HandleTable_Remove key hash (lc_heap c, lc_table c) = Some (Some b, h', t')" "payload h' = payload (lc_heap c)"
      "table_holds h' t' (cached c - {b})"
    | "\<forall>b \<in> cached c. \<not> is_entry (lc_heap c) key hash b"
      "HandleTable_Remove key hash (lc_heap c, lc_table c) = Some (None, lc_heap c, lc_table c)"
    using Remove_removes by blast
  then show ?thesis
  proof cases
    case (1 b h' t')
    let ?c = "c\<lparr>lc_heap := h', lc_table := t'\<rparr>"
    note t = table_step [OF s 1(4,5)]
    from FinishErase_state [of ?c] t(1,2) 1(1) obtain c' where c': "FinishErase (Some b) ?c = Some (True, c')"
      "lru_state c' cl ins (remove1 b xs) (remove1 b ys) (cached c')" "erased ?c cl [b] c'"
      by metis
    have "erased c cl [b] c'" by (rule erased_payload [OF c'(3) t(2)]) (simp_all add: t payload_dom [OF 1(4)])
    moreover have "LRUCache_Erase key hash c = Some c'" using 1(3) c'(1) by (simp add: LRUCache_Erase_def on_table_def)
    ultimately show ?thesis using 1 c'(2) by blast
  qed (simp add: LRUCache_Erase_def on_table_def FinishErase_def)
qed

subsection \<open>Eviction\<close>

lemma erase_oldest_state:
  assumes s: "lru_state c cl ins (a # xs) ys (cached c)"
  shows "\<exists>c'. erase_oldest c = Some c' \<and> lru_state c' cl ins xs ys (cached c') \<and> erased c cl [a] c'"
proof -
  note L = lru_lists [OF s]
  have first: "ln_next (lc_links c) lru_head = a" using ring_first [OF L(1)] by simp
  have a: "a \<in> cached c" "a \<notin># cl" using L(3) by auto
  then obtain e where e: "lc_heap c a = Some e" by auto
  then have ea: "is_entry (lc_heap c) (hd_key e) (hd_hash e) a" by (simp add: is_entry_def)
  have ay: "a \<notin> set ys" using L(4) a(2) by simp
  from Erase_state [OF s, of "hd_key e" "hd_hash e"] ea a(1) obtain b c' where
    c': "b \<in> cached c" "is_entry (lc_heap c) (hd_key e) (hd_hash e) b" "LRUCache_Erase (hd_key e) (hd_hash e) c = Some c'"
      "lru_state c' cl ins (remove1 b (a # xs)) (remove1 b ys) (cached c')" "erased c cl [b] c'"
    by blast
  have "b = a" by (rule is_entry_same [OF s c'(2) ea c'(1) a(1)])
  then show ?thesis using c'(3-5) first e ay by (simp add: erase_oldest_def remove1_idem)
qed

lemma list_end: "ring l h xs \<Longrightarrow> ln_next l h \<noteq> h \<longleftrightarrow> xs \<noteq> []"
  using ring_first [of l h xs] by (cases xs) (auto simp: ring_def)

lemma evict_loop_state:
  "lru_state c cl ins xs ys (cached c) \<Longrightarrow>
   \<exists>n c'. evict_loop c = Some c' \<and> lru_state c' cl ins (drop n xs) ys (cached c') \<and> n \<le> length xs \<and> erased c cl (take n xs) c' \<and>
     (lc_usage c' \<le> lc_capacity c \<or> n = length xs) \<and>
     (\<forall>m < n. lc_capacity c < (\<Sum>a \<in> cached c - set (take m xs). charge_of c a))"
proof (induction xs arbitrary: c)
  case Nil
  then have "ln_next (lc_links c) lru_head = lru_head" using list_end [OF lru_lists(1)] by blast
  then have "evict_loop c = Some c" by (simp add: evict_loop.simps)
  then show ?case using Nil by (intro exI [of _ 0]) simp
next
  case (Cons a xs)
  have ne: "ln_next (lc_links c) lru_head \<noteq> lru_head" using list_end [OF lru_lists(1) [OF Cons.prems]] by simp
  have usage: "lc_usage c = (\<Sum>a \<in> cached c. charge_of c a)" using Cons.prems by (simp only: lru_state_def)
  show ?case
  proof (cases "lc_capacity c < lc_usage c")
    case False
    then have "evict_loop c = Some c" by (simp add: evict_loop.simps)
    then show ?thesis using Cons.prems False by (intro exI [of _ 0]) simp
  next
    case True
    from erase_oldest_state [OF Cons.prems] obtain c1 where c1: "erase_oldest c = Some c1" "lru_state c1 cl ins xs ys (cached c1)"
      "erased c cl [a] c1" by blast
    from Cons.IH [OF c1(2)] obtain n c' where c': "evict_loop c1 = Some c'" "lru_state c' cl ins (drop n xs) ys (cached c')" "n \<le> length xs"
      "erased c1 cl (take n xs) c'" "lc_usage c' \<le> lc_capacity c1 \<or> n = length xs"
      "\<forall>m < n. lc_capacity c1 < (\<Sum>a \<in> cached c1 - set (take m xs). charge_of c1 a)"
      by blast
    have cap: "lc_capacity c1 = lc_capacity c" and ca: "cached c1 = cached c - {a}" using c1(3) by (simp_all add: erased_def)
    have "set (take n xs) \<subseteq> cached c1" using lru_lists(3) [OF c1(2)] by (auto dest: in_set_takeD)
    then have e: "erased c cl (take (Suc n) (a # xs)) c'" using erased_trans [OF c1(3) c'(4)] by simp
    have "lc_capacity c < (\<Sum>b \<in> cached c - set (take m (a # xs)). charge_of c b)" if m: "m < Suc n" for m
    proof (cases m)
      case 0
      then show ?thesis using True usage by simp
    next
      case (Suc k)
      have "(\<Sum>b \<in> cached c1 - set (take k xs). charge_of c1 b) = (\<Sum>b \<in> cached c1 - set (take k xs). charge_of c b)"
      proof (rule sum.cong)
        fix b assume "b \<in> cached c1 - set (take k xs)"
        then have "b \<in> dom (lc_heap c1)" by auto
        then show "charge_of c1 b = charge_of c b" using c1(3) fixed_same(2) unfolding erased_def by blast
      qed simp
      moreover have "cached c1 - set (take k xs) = cached c - set (take m (a # xs))" using ca Suc by auto
      moreover have "lc_capacity c1 < (\<Sum>b \<in> cached c1 - set (take k xs). charge_of c1 b)" using c'(6) Suc m by simp
      ultimately show ?thesis by (simp only: cap)
    qed
    moreover have "evict_loop c = Some c'" using True ne c1(1) c'(1) by (subst evict_loop.simps) simp
    ultimately show ?thesis using c' e cap by (intro exI [of _ "Suc n"] exI [of _ c']) simp
  qed
qed

lemma Prune_state:
  "lru_state c cl ins xs ys (cached c) \<Longrightarrow>
   \<exists>c'. LRUCache_Prune c = Some c' \<and> lru_state c' cl ins [] ys (cached c') \<and> erased c cl xs c'"
proof (induction xs arbitrary: c)
  case Nil
  then have "ln_next (lc_links c) lru_head = lru_head" using list_end [OF lru_lists(1)] by blast
  then show ?case using Nil by (simp add: LRUCache_Prune.simps)
next
  case (Cons a xs)
  have ne: "ln_next (lc_links c) lru_head \<noteq> lru_head" using list_end [OF lru_lists(1) [OF Cons.prems]] by simp
  from erase_oldest_state [OF Cons.prems] obtain c1 where c1: "erase_oldest c = Some c1" "lru_state c1 cl ins xs ys (cached c1)"
    "erased c cl [a] c1" by blast
  from Cons.IH [OF c1(2)] obtain c' where c': "LRUCache_Prune c1 = Some c'" "lru_state c' cl ins [] ys (cached c')" "erased c1 cl xs c'" by blast
  have "set xs \<subseteq> cached c1" using lru_lists(3) [OF c1(2)] by auto
  then have "erased c cl (a # xs) c'" using erased_trans [OF c1(3) c'(3)] by simp
  moreover have "LRUCache_Prune c = Some c'" using ne c1(1) c'(1) by (subst LRUCache_Prune.simps) simp
  ultimately show ?case using c'(2) by blast
qed

end
