(* ===== verification/LruClients.thy ===== *)
theory LruClients
  imports LruSafety
begin

section \<open>The cache and its clients (\<^verbatim>\<open>util/cache.cc\<close>)\<close>

text \<open>
  Insertion, the runs of a shard under its contract, and what the clients get: the value inserted
  last is found, only entries nobody holds are evicted, the oldest first and no more than needed,
  and every value reaches its deleter exactly once.
\<close>

subsection \<open>Insertion\<close>

text \<open>The new handle, in the list of the handles in use when the cache takes it.\<close>

definition with_new :: "bytes \<Rightarrow> u32 \<Rightarrow> 'v \<Rightarrow> u64 \<Rightarrow> bool \<Rightarrow> 'v LRUCache \<Rightarrow> 'v LRUCache" where
  "with_new key hash v charge keep c =
     (let a = lc_next_addr c;
          e = \<lparr>hd_value = v, hd_next_hash = None, hd_charge = charge, hd_in_cache = keep, hd_refs = (if keep then 2 else 1),
               hd_hash = hash, hd_key = key\<rparr>
      in c\<lparr>lc_next_addr := a + 1, lc_heap := (lc_heap c)(a \<mapsto> e),
           lc_links := (if keep then link_last in_use_head a (lc_links c) else lc_links c),
           lc_usage := lc_usage c + (if keep then charge else 0)\<rparr>)"

lemma with_new_simps [simp]:
  "lc_next_addr (with_new key hash v charge keep c) = lc_next_addr c + 1"
  "lc_table (with_new key hash v charge keep c) = lc_table c" "lc_deleted (with_new key hash v charge keep c) = lc_deleted c"
  "lc_capacity (with_new key hash v charge keep c) = lc_capacity c"
  "x \<noteq> lc_next_addr c \<Longrightarrow> lc_heap (with_new key hash v charge keep c) x = lc_heap c x"
  "dom (lc_heap (with_new key hash v charge keep c)) = insert (lc_next_addr c) (dom (lc_heap c))"
  by (simp_all add: with_new_def Let_def)

lemma with_new_handle:
  "lc_heap (with_new key hash v charge keep c) (lc_next_addr c) =
   Some \<lparr>hd_value = v, hd_next_hash = None, hd_charge = charge, hd_in_cache = keep, hd_refs = (if keep then 2 else 1),
     hd_hash = hash, hd_key = key\<rparr>"
  by (simp add: with_new_def Let_def)

lemma with_new_fixed:
  "fixed_of (with_new key hash v charge keep c) x =
   (if x = lc_next_addr c then Some (key, hash, v, charge) else fixed_of c x)"
  by (simp add: fixed_of_def with_new_handle)

lemma with_new_state:
  assumes s: "lru_state c cl ins xs ys (cached c)"
    and c1_def: "c1 = with_new key hash v charge keep c" and a_def: "a = lc_next_addr c"
  shows "a \<notin> dom (lc_heap c)" "cached c1 = (if keep then insert a (cached c) else cached c)"
    "lru_state c1 (add_mset a cl) (add_mset (key, v) ins) xs (if keep then ys @ [a] else ys) (cached c)"
proof -
  note L = lru_lists [OF s] and fin = lru_finite [OF s]
  let ?e = "\<lparr>hd_value = v, hd_next_hash = None, hd_charge = charge, hd_in_cache = keep, hd_refs = if keep then 2 else 1,
    hd_hash = hash, hd_key = key\<rparr>"
  have heap: "lc_heap c1 = (lc_heap c)(a \<mapsto> ?e)" and dom: "dom (lc_heap c1) = insert a (dom (lc_heap c))"
    by (simp_all add: c1_def a_def with_new_def Let_def)
  show fresh: "a \<notin> dom (lc_heap c)" using lru_handle(2) [OF s] by (auto simp: a_def)
  have nc: "a \<notin> cached c" "a \<notin># cl"
    using fresh fin(2) s unfolding lru_state_def by blast+
  show ca: "cached c1 = (if keep then insert a (cached c) else cached c)"
    using nc(1) unfolding set_eq_iff cached_iff heap by auto
  have two: "2 \<le> a" using s by (simp add: lru_state_def a_def)
  have fx: "fixed_of c1 x = fixed_of c x" if "x \<noteq> a" for x using that by (simp add: c1_def a_def with_new_fixed)
  have lists: "lists_ok c1 (add_mset a cl) xs (if keep then ys @ [a] else ys)"
  proof (cases keep)
    case True
    have links: "lc_links c1 = link_last in_use_head a (lc_links c)" using True by (simp add: c1_def a_def with_new_def Let_def)
    have ay: "a \<notin> set (in_use_head # ys)" "a \<notin> set (lru_head # xs)"
      using nc two L(3,4) by (auto simp: in_use_head_def lru_head_def)
    have "ring (lc_links c1) in_use_head (ys @ [a])" unfolding links by (rule ring_link_last [OF L(2) ay(1)])
    moreover have "ring (lc_links c1) lru_head xs" unfolding links
      by (rule ring_link_last_other [OF L(2,1)]) (use L(5) ay in auto)
    moreover have "set xs = {b \<in> insert a (cached c). b \<notin># add_mset a cl}" using L(3) nc by auto
    moreover have "set (ys @ [a]) = {b \<in> insert a (cached c). b \<in># add_mset a cl}" using L(4) nc by auto
    ultimately show ?thesis using True unfolding lists_ok_def ca by simp
  next
    case False
    have links: "lc_links c1 = lc_links c" using False by (simp add: c1_def a_def with_new_def Let_def)
    have "{b \<in> cached c. b \<notin># add_mset a cl} = {b \<in> cached c. b \<notin># cl}" "{b \<in> cached c. b \<in># add_mset a cl} = {b \<in> cached c. b \<in># cl}"
      using nc(1) by auto
    then show ?thesis using False L(1-4) unfolding lists_ok_def ca links by simp
  qed
  have "handle_ok (lc_next_addr c1) (add_mset a cl) a ?e"
    using two nc(2) by (simp add: handle_ok_def c1_def a_def count_eq_zero_iff)
  then have ok: "handle_ok (lc_next_addr c1) (add_mset a cl) x e'" if "lc_heap c1 x = Some e'" for x e'
  proof (cases "x = a")
    case False
    then have "lc_heap c x = Some e'" using that by (simp add: heap)
    from lru_handle [OF s this] False show ?thesis unfolding handle_ok_def by (simp add: c1_def)
  qed (use that in \<open>simp add: heap\<close>)
  have tab: "table_holds (lc_heap c1) (lc_table c1) (cached c)"
    unfolding c1_def with_new_simps(2)
  proof (rule table_holds_fields [of "lc_heap c"])
    show "table_holds (lc_heap c) (lc_table c) (cached c)" using s unfolding lru_state_def by blast
    fix x assume "x \<in> cached c"
    then have "x \<noteq> lc_next_addr c" using nc(1) a_def by blast
    then show "map_option table_fields (lc_heap (with_new key hash v charge keep c) x) = map_option table_fields (lc_heap c x)"
      by simp
  qed
  have usage: "lc_usage c1 = sum (charge_of c1) (cached c1)"
  proof -
    have "sum (charge_of c1) (cached c) = sum (charge_of c) (cached c)"
    proof (rule sum.cong)
      fix x assume "x \<in> cached c"
      then have "x \<noteq> a" using nc(1) by blast
      then show "charge_of c1 x = charge_of c x" by (rule fixed_same(2) [OF fx])
    qed simp
    moreover have "lc_usage c = sum (charge_of c) (cached c)" using s by (simp only: lru_state_def)
    moreover have "charge_of c1 a = charge" by (simp add: charge_of_def heap)
    moreover have "lc_usage c1 = lc_usage c + (if keep then charge else 0)" by (simp add: c1_def with_new_def Let_def)
    ultimately show ?thesis unfolding ca using fin(3) nc(1) by simp
  qed
  have content: "add_mset (key, v) ins = mset (lc_deleted c1) + image_mset (content_of c1) (mset_set (dom (lc_heap c1)))"
  proof -
    have "image_mset (content_of c1) (mset_set (dom (lc_heap c))) = image_mset (content_of c) (mset_set (dom (lc_heap c)))"
    proof (rule image_mset_cong)
      fix x assume "x \<in># mset_set (dom (lc_heap c))"
      then have "x \<noteq> a" using fresh fin(1) by auto
      then show "content_of c1 x = content_of c x" by (rule fixed_same(1) [OF fx])
    qed
    moreover have "content_of c1 a = (key, v)" by (simp add: content_of_def heap)
    moreover have "mset_set (dom (lc_heap c1)) = add_mset a (mset_set (dom (lc_heap c)))" using fresh fin(1) by (simp add: dom)
    moreover have "ins = mset (lc_deleted c) + image_mset (content_of c) (mset_set (dom (lc_heap c)))"
      using s by (simp only: lru_state_def)
    ultimately show ?thesis by (simp add: c1_def)
  qed
  have sub: "set_mset (add_mset a cl) \<subseteq> dom (lc_heap c1)" using s unfolding dom lru_state_def by auto
  show "lru_state c1 (add_mset a cl) (add_mset (key, v) ins) xs (if keep then ys @ [a] else ys) (cached c)"
    unfolding lru_state_def using lists tab ok usage content sub two by (simp add: c1_def a_def)
qed

text \<open>The handle that had the key before leaves the cache, whichever list it was in.\<close>

lemma remove1_filter:
  "distinct xs \<Longrightarrow> (\<And>x. x \<in> set xs \<Longrightarrow> P x \<longleftrightarrow> x = b) \<Longrightarrow> remove1 b xs = filter (\<lambda>x. \<not> P x) xs"
proof -
  assume "distinct xs" and eq: "\<And>x. x \<in> set xs \<Longrightarrow> P x \<longleftrightarrow> x = b"
  then have "remove1 b xs = filter (\<lambda>x. b \<noteq> x) xs" by (simp add: distinct_remove1_removeAll removeAll_filter_not_eq)
  also have "\<dots> = filter (\<lambda>x. \<not> P x) xs" by (rule filter_cong) (use eq in auto)
  finally show ?thesis .
qed

lemma filter_only:
  "distinct xs \<Longrightarrow> (\<And>x. x \<in> set xs \<Longrightarrow> P x \<longleftrightarrow> x = b) \<Longrightarrow> filter P xs = (if b \<in> set xs then [b] else [])"
proof -
  assume d: "distinct xs" and eq: "\<And>x. x \<in> set xs \<Longrightarrow> P x \<longleftrightarrow> x = b"
  have "filter P xs = filter (\<lambda>x. x = b) xs" by (rule filter_cong) (use eq in auto)
  moreover have "filter (\<lambda>x. x = b) xs = (if b \<in> set xs then [b] else [])" using d by (induction xs) auto
  ultimately show ?thesis by simp
qed

lemma table_insert_state:
  assumes s: "lru_state c1 (add_mset a cl) ins xs (ys @ [a]) (cached c1 - {a})" and a: "lc_heap c1 a = Some e" "hd_in_cache e"
    and E: "\<And>b. E b \<longleftrightarrow> b \<noteq> a \<and> is_entry (lc_heap c1) (hd_key e) (hd_hash e) b" and n: "card (cached c1 - {a}) < 2 ^ 31"
  shows "\<exists>old c2 c3. on_table (HandleTable_Insert a) c1 = Some (old, c2) \<and> FinishErase old c2 = Some (old \<noteq> None, c3) \<and>
    lru_state c3 (add_mset a cl) ins (filter (\<lambda>b. \<not> E b) xs) (filter (\<lambda>b. \<not> E b) ys @ [a]) (cached c3) \<and>
    erased c1 (add_mset a cl) (filter E xs @ filter E ys) c3 \<and> {b \<in> cached c1. E b} = set (filter E xs @ filter E ys)"
proof -
  let ?T = "cached c1 - {a}"
  note L = lru_lists [OF s]
  have ac: "a \<in> cached c1" using a by simp
  have lists: "distinct xs" "distinct ys" "a \<notin> set ys" "a \<notin> set xs" using L(3,6,7) by simp_all
  have "set xs \<union> set (ys @ [a]) = cached c1" unfolding L(3,4) by blast
  then have un: "set xs \<union> set ys = ?T" using lists(3,4) by auto
  have "table_holds (lc_heap c1) (lc_table c1) ?T" using s unfolding lru_state_def by blast
  from Insert_inserts [OF this _ a(1) n] consider
    b h' t' where "b \<in> ?T" "is_entry (lc_heap c1) (hd_key e) (hd_hash e) b"
      "HandleTable_Insert a (lc_heap c1, lc_table c1) = Some (Some b, h', t')" "payload h' = payload (lc_heap c1)"
      "table_holds h' t' (insert a (?T - {b}))"
    | h' t' where "\<forall>b \<in> ?T. \<not> is_entry (lc_heap c1) (hd_key e) (hd_hash e) b"
      "HandleTable_Insert a (lc_heap c1, lc_table c1) = Some (None, h', t')" "payload h' = payload (lc_heap c1)"
      "table_holds h' t' (insert a ?T)"
    by blast
  then show ?thesis
  proof cases
    case (1 b h' t')
    let ?c = "c1\<lparr>lc_heap := h', lc_table := t'\<rparr>"
    have T: "insert a (?T - {b}) = cached c1 - {b}" using ac 1(1) by blast
    note t = table_step [OF s 1(4) 1(5) [unfolded T]]
    have only: "E x \<longleftrightarrow> x = b" if "x \<in> ?T" for x
      using is_entry_same [OF s _ 1(2) that 1(1)] that 1(2) E by auto
    have bc: "b \<in> cached ?c" "b \<noteq> a" using 1(1) t(2) by auto
    from FinishErase_state [of ?c] t(1) bc(1) obtain c3 where c3: "FinishErase (Some b) ?c = Some (True, c3)"
      "lru_state c3 (add_mset a cl) ins (remove1 b xs) (remove1 b (ys @ [a])) (cached c3)" "erased ?c (add_mset a cl) [b] c3"
      unfolding t(2) by blast
    have er: "erased c1 (add_mset a cl) [b] c3"
      by (rule erased_payload [OF c3(3) t(2)]) (simp_all add: t payload_dom [OF 1(4)])
    have onx: "E x \<longleftrightarrow> x = b" if "x \<in> set xs" for x using only that un by blast
    have ony: "E x \<longleftrightarrow> x = b" if "x \<in> set ys" for x using only that un by blast
    have rem: "remove1 b xs = filter (\<lambda>b. \<not> E b) xs" "remove1 b (ys @ [a]) = filter (\<lambda>b. \<not> E b) ys @ [a]"
      using remove1_filter [OF lists(1) onx] remove1_filter [OF lists(2) ony] bc(2) remove1_idem [of b ys]
      by (cases "b \<in> set ys"; simp add: remove1_append)+
    have xor: "b \<in> set xs \<longleftrightarrow> b \<notin> set ys" using L(5) un 1(1) unfolding set_append list.set by blast
    have fl: "filter E xs @ filter E ys = [b]"
      using filter_only [OF lists(1) onx] filter_only [OF lists(2) ony] xor by simp
    have "{x \<in> cached c1. E x} = {b}" using only E 1(1) by blast
    then show ?thesis using 1(3) c3(1,2) er rem fl by (simp add: on_table_def)
  next
    case (2 h' t')
    let ?c = "c1\<lparr>lc_heap := h', lc_table := t'\<rparr>"
    have T: "insert a ?T = cached c1" using ac by blast
    note t = table_step [OF s 2(3) 2(4) [unfolded T]]
    have no: "\<not> E x" if "x \<in> ?T" for x using 2(1) that E by blast
    then have fl: "filter E xs = []" "filter E ys = []" "filter (\<lambda>b. \<not> E b) xs = xs" "filter (\<lambda>b. \<not> E b) ys = ys"
      unfolding filter_empty_conv filter_id_conv using un by blast+
    have "{x \<in> cached c1. E x} = {}" using no E by blast
    moreover have "erased c1 (add_mset a cl) [] ?c"
      by (rule erased_payload [OF erased_nil t(2)]) (simp_all add: t payload_dom [OF 2(3)])
    ultimately show ?thesis using 2(2) t(1) fl unfolding t(2) [symmetric] by (simp add: on_table_def FinishErase_def)
  qed
qed

lemma LRUCache_Insert_eq:
  "LRUCache_Insert key hash v charge c =
   (let a = lc_next_addr c; keep = (0 < lc_capacity c); c1 = with_new key hash v charge keep c
    in map_option (Pair a)
      (Option.bind (if keep then Option.bind (on_table (HandleTable_Insert a) c1) (\<lambda>(old, c). map_option snd (FinishErase old c)) else Some c1)
        evict_loop))"
  by (cases c) (simp add: LRUCache_Insert_def with_new_def LRU_Append_def set_handle_def Let_def)

text \<open>
  What an insertion leaves: of the entries that nobody holds, \<open>rest\<close> without the one of the same key,
  the \<open>n\<close> oldest are evicted. No entry is evicted that did not have to be, and the usage is within
  the capacity unless all are.
\<close>

definition inserted ::
    "bytes \<Rightarrow> u32 \<Rightarrow> 'v \<Rightarrow> u64 \<Rightarrow> 'v LRUCache \<Rightarrow> nat multiset \<Rightarrow> nat list \<Rightarrow> nat list \<Rightarrow> nat \<Rightarrow> 'v LRUCache \<Rightarrow> bool" where
  "inserted key hash v charge c cl old rest n c' \<longleftrightarrow>
     (let a = lc_next_addr c; keep = (0 < lc_capacity c);
          held = (cached c - set old) \<union> (if keep then {a} else {})
      in n \<le> length rest \<and> cached c' = held - set (take n rest) \<and>
         lc_deleted c' = lc_deleted c @ map (content_of c) (filter (\<lambda>b. b \<notin># cl) old @ take n rest) \<and>
         lc_capacity c' = lc_capacity c \<and> fixed_of c' a = Some (key, hash, v, charge) \<and>
         (\<forall>x \<in> dom (lc_heap c') - {a}. fixed_of c' x = fixed_of c x) \<and>
         (lc_usage c' \<le> lc_capacity c \<or> n = length rest) \<and>
         (\<forall>m < n. lc_capacity c < (\<Sum>x \<in> held - set (take m rest). if x = a then charge else charge_of c x)))"

lemma Insert_state:
  assumes s: "lru_state c cl ins xs ys (cached c)" and n: "card (cached c) < 2 ^ 31"
    and a_def: "a = lc_next_addr c" and E_def: "E = (\<lambda>b. 0 < lc_capacity c \<and> is_entry (lc_heap c) key hash b)"
  shows "\<exists>n c'. LRUCache_Insert key hash v charge c = Some (a, c') \<and>
    lru_state c' (add_mset a cl) (add_mset (key, v) ins) (drop n (filter (\<lambda>b. \<not> E b) xs))
      (if 0 < lc_capacity c then filter (\<lambda>b. \<not> E b) ys @ [a] else ys) (cached c') \<and>
    inserted key hash v charge c cl (filter E xs @ filter E ys) (filter (\<lambda>b. \<not> E b) xs) n c'"
proof -
  let ?keep = "0 < lc_capacity c" and ?cl = "add_mset a cl" and ?ins = "add_mset (key, v) ins"
  let ?old = "filter E xs @ filter E ys" and ?rest = "filter (\<lambda>b. \<not> E b) xs"
  let ?ys = "if ?keep then filter (\<lambda>b. \<not> E b) ys @ [a] else ys"
  define c1 where "c1 = with_new key hash v charge ?keep c"
  note w = with_new_state [OF s c1_def a_def]
  note L = lru_lists [OF s]
  have f1: "fixed_of c1 x = (if x = a then Some (key, hash, v, charge) else fixed_of c x)" for x
    unfolding c1_def a_def by (rule with_new_fixed)
  have na: "a \<notin> cached c" using w(1) lru_finite(2) [OF s] by blast
  obtain c3 where c3: "(if ?keep then Option.bind (on_table (HandleTable_Insert a) c1) (\<lambda>(old, c). map_option snd (FinishErase old c)) else Some c1) = Some c3"
    "lru_state c3 ?cl ?ins ?rest ?ys (cached c3)" "erased c1 ?cl ?old c3"
  proof (cases ?keep)
    case False
    then have none: "filter E xs = []" "filter E ys = []" "?rest = xs" by (simp_all add: E_def)
    show ?thesis by (rule that [of c1]) (use False w(2,3) none in simp_all)
  next
    case True
    have T: "cached c1 - {a} = cached c" using w(2) na True by auto
    obtain e where e: "lc_heap c1 a = Some e" "hd_in_cache e" "hd_key e = key" "hd_hash e = hash"
      using with_new_handle [of key hash v charge ?keep c] True by (auto simp: c1_def a_def)
    have E: "E b \<longleftrightarrow> b \<noteq> a \<and> is_entry (lc_heap c1) (hd_key e) (hd_hash e) b" for b
    proof (cases "b = a")
      case True
      then show ?thesis using w(1) by (auto simp: E_def is_entry_def)
    next
      case False
      then show ?thesis using fixed_same(3) [of c1 b c key hash] f1 [of b] True e(3,4) by (simp add: E_def)
    qed
    have st: "lru_state c1 ?cl ?ins xs (ys @ [a]) (cached c1 - {a})" using w(3) True unfolding T by simp
    have m: "card (cached c1 - {a}) < 2 ^ 31" using n unfolding T .
    from table_insert_state [OF st e(1,2) E m] obtain old c2 c3 where t:
      "on_table (HandleTable_Insert a) c1 = Some (old, c2)" "FinishErase old c2 = Some (old \<noteq> None, c3)"
      "lru_state c3 ?cl ?ins ?rest (filter (\<lambda>b. \<not> E b) ys @ [a]) (cached c3)" "erased c1 ?cl ?old c3"
      by blast
    show ?thesis by (rule that [of c3]) (use t True in simp_all)
  qed
  from evict_loop_state [OF c3(2)] obtain n c' where c': "evict_loop c3 = Some c'" "lru_state c' ?cl ?ins (drop n ?rest) ?ys (cached c')"
    "n \<le> length ?rest" "erased c3 ?cl (take n ?rest) c'" "lc_usage c' \<le> lc_capacity c3 \<or> n = length ?rest"
    "\<forall>m < n. lc_capacity c3 < (\<Sum>x \<in> cached c3 - set (take m ?rest). charge_of c3 x)" by blast
  let ?held = "(cached c - set ?old) \<union> (if ?keep then {a} else {})"
  have restc: "set ?rest \<subseteq> cached c" "set ?old \<subseteq> cached c" "set ?rest \<inter> set_mset cl = {}" using L(3,4) by auto
  then have nao: "a \<notin> set ?old" "a \<notin> set ?rest" using na by blast+
  have "cached c3 = cached c1 - set ?old" using c3(3) unfolding erased_def by blast
  then have held: "cached c3 = ?held" using w(2) nao(1) by auto
  have cap: "lc_capacity c3 = lc_capacity c" using c3(3) by (simp add: erased_def c1_def)
  have fx3: "fixed_of c3 x = fixed_of c1 x" if "x \<in> dom (lc_heap c3)" for x using c3(3) that unfolding erased_def by blast
  have fx: "fixed_of c' x = fixed_of c1 x" if "x \<in> dom (lc_heap c')" for x
  proof -
    have "x \<in> dom (lc_heap c3)" using c'(4) that unfolding erased_def by blast
    then show ?thesis using c'(4) that fx3 unfolding erased_def by metis
  qed
  have con1: "content_of c1 x = content_of c x" if "x \<in> cached c" for x
    by (rule fixed_same(1)) (use that na f1 in auto)
  have con3: "content_of c3 x = content_of c x" if "x \<in> set ?rest" for x
  proof -
    have "x \<in> cached c3" using lru_lists(3) [OF c3(2)] that by blast
    then have "x \<in> dom (lc_heap c3)" by auto
    then show ?thesis using fixed_same(1) [OF fx3] con1 restc(1) that by (metis subsetD)
  qed
  have dom: "a \<in> dom (lc_heap c')" using c'(2) unfolding lru_state_def by auto
  have del: "lc_deleted c' = lc_deleted c @ map (content_of c) (filter (\<lambda>b. b \<notin># cl) ?old @ take n ?rest)"
  proof -
    have "filter (\<lambda>b. b \<notin># ?cl) ?old = filter (\<lambda>b. b \<notin># cl) ?old" by (rule filter_cong) (use nao(1) in auto)
    moreover have "map (content_of c1) (filter (\<lambda>b. b \<notin># cl) ?old) = map (content_of c) (filter (\<lambda>b. b \<notin># cl) ?old)"
      by (rule map_cong) (use restc(2) con1 in auto)
    moreover have "filter (\<lambda>b. b \<notin># ?cl) (take n ?rest) = take n ?rest"
      unfolding filter_id_conv
    proof
      fix b assume "b \<in> set (take n ?rest)"
      then have "b \<in> set ?rest" by (rule in_set_takeD)
      then show "b \<notin># ?cl" using restc(3) nao(2) by auto
    qed
    moreover have "map (content_of c3) (take n ?rest) = map (content_of c) (take n ?rest)"
      by (rule map_cong) (use con3 in \<open>auto dest!: in_set_takeD\<close>)
    moreover have "lc_deleted c3 = lc_deleted c @ map (content_of c1) (filter (\<lambda>b. b \<notin># ?cl) ?old)"
      using c3(3) by (simp only: erased_def c1_def with_new_simps)
    moreover have "lc_deleted c' = lc_deleted c3 @ map (content_of c3) (filter (\<lambda>b. b \<notin># ?cl) (take n ?rest))"
      using c'(4) unfolding erased_def by blast
    ultimately show ?thesis by (simp only: map_append append_assoc)
  qed
  have sums: "(\<Sum>x \<in> ?held - set (take m ?rest). charge_of c3 x) = (\<Sum>x \<in> ?held - set (take m ?rest). if x = a then charge else charge_of c x)" for m
  proof (rule sum.cong)
    fix x assume "x \<in> ?held - set (take m ?rest)"
    then have "x \<in> cached c3" unfolding held by blast
    then have "fixed_of c3 x = fixed_of c1 x" by (intro fx3) auto
    then show "charge_of c3 x = (if x = a then charge else charge_of c x)"
      using fixed_same(2) [of c3 x c] f1 [of x]
      by (cases "x = a") (auto simp: fixed_of_def charge_of_def split: option.splits)
  qed simp
  have "inserted key hash v charge c cl ?old ?rest n c'"
    unfolding inserted_def Let_def a_def [symmetric]
  proof (intro conjI)
    show "cached c' = ?held - set (take n ?rest)" using c'(4) held unfolding erased_def by blast
    show "lc_capacity c' = lc_capacity c" using c'(4) cap by (simp add: erased_def)
    show "fixed_of c' a = Some (key, hash, v, charge)" using fx [OF dom] f1 by simp
    show "\<forall>x \<in> dom (lc_heap c') - {a}. fixed_of c' x = fixed_of c x" using fx f1 by auto
    show "lc_usage c' \<le> lc_capacity c \<or> n = length ?rest" using c'(5) unfolding cap .
    show "\<forall>m < n. lc_capacity c < (\<Sum>x \<in> ?held - set (take m ?rest). if x = a then charge else charge_of c x)"
      using c'(6) unfolding cap held sums .
  qed (use c'(3) del in simp_all)
  moreover have "LRUCache_Insert key hash v charge c = Some (a, c')"
    using c3(1) c'(1) unfolding LRUCache_Insert_eq Let_def c1_def a_def by (simp only: Option.bind.bind_lunit option.map)
  ultimately show ?thesis using c'(2) by blast
qed

subsection \<open>Runs\<close>

lemma LRUCache_new_state:
  "\<exists>c. LRUCache_new = Some c \<and> lru_state (SetCapacity capacity c) {#} {#} [] [] (cached (SetCapacity capacity c)) \<and>
    lc_next_addr c = 2"
proof -
  obtain h t where t: "HandleTable_new Map.empty = Some (h, t)" "payload h = payload (Map.empty :: 'a HandleHeap)" "table_holds h t {}"
    using HandleTable_new_holds by blast
  have h: "h = Map.empty"
  proof
    fix a show "h a = None" using payload_None [OF t(2), of a] by simp
  qed
  let ?c = "\<lparr>lc_capacity = 0, lc_usage = 0, lc_links = \<lparr>ln_next = id, ln_prev = id\<rparr>, lc_table = t, lc_heap = h,
    lc_next_addr = 2, lc_deleted = []\<rparr> :: 'a LRUCache"
  have "cached (SetCapacity capacity ?c) = {}" by (auto simp: cached_def SetCapacity_def h)
  then have "lru_state (SetCapacity capacity ?c) {#} {#} [] [] (cached (SetCapacity capacity ?c))"
    using t(3) by (simp add: lru_state_def lists_ok_def SetCapacity_def h ring_new)
  then show ?thesis using t(1) h by (simp add: LRUCache_new_def SetCapacity_def)
qed

text \<open>The end of a client's reference, whichever of the three cases it is.\<close>

lemma Release_state:
  assumes s: "lru_state c cl ins xs ys (cached c)" and a: "a \<in># cl"
  shows "\<exists>c' ys'. LRUCache_Release a c = Some c' \<and>
    lru_state c' (cl - {#a#}) ins (if idle c cl a then xs @ [a] else xs) ys' (cached c') \<and> cached c' = cached c \<and>
    lc_capacity c' = lc_capacity c \<and> lc_deleted c' = lc_deleted c @ (if freed c cl a then [content_of c a] else []) \<and>
    (\<forall>x \<in> dom (lc_heap c'). fixed_of c' x = fixed_of c x)"
proof -
  obtain e where e: "lc_heap c a = Some e" using s a unfolding lru_state_def by blast
  show ?thesis
  proof (cases "freed c cl a")
    case True
    then have ni: "\<not> idle c cl a" unfolding freed_def idle_def by blast
    from Unref_frees [OF s e True] obtain c' where c': "Unref a c = Some c'" "lru_state c' (cl - {#a#}) ins xs ys (cached c')"
      "cached c' = cached c" "lc_capacity c' = lc_capacity c" "lc_deleted c' = lc_deleted c @ [content_of c a]"
      "lc_heap c' = (lc_heap c)(a := None)" by blast
    have "\<forall>x \<in> dom (lc_heap c'). fixed_of c' x = fixed_of c x" by (auto simp: fixed_of_def c'(6))
    then show ?thesis using c'(1-5) ni True by (auto simp: LRUCache_Release_def)
  next
    case False
    then show ?thesis using Unref_keeps [OF s e a False] by (auto simp: LRUCache_Release_def)
  qed
qed

text \<open>
  What a shard and its clients go through: \<open>cl\<close> are the handles the clients hold and \<open>ins\<close> is
  everything that was ever inserted. The bounds keep the 32-bit counters of references and of
  table entries from wrapping around.
\<close>

inductive cache_run :: "u64 \<Rightarrow> 'v LRUCache \<Rightarrow> nat multiset \<Rightarrow> (bytes \<times> 'v) multiset \<Rightarrow> bool" for capacity where
  start: "LRUCache_new = Some c \<Longrightarrow> cache_run capacity (SetCapacity capacity c) {#} {#}"
| insert: "cache_run capacity c cl ins \<Longrightarrow> card (cached c) < 2 ^ 31 \<Longrightarrow> LRUCache_Insert key hash v charge c = Some (a, c') \<Longrightarrow>
    cache_run capacity c' (add_mset a cl) (add_mset (key, v) ins)"
| hit: "cache_run capacity c cl ins \<Longrightarrow> size cl < 2 ^ 31 \<Longrightarrow> LRUCache_Lookup key hash c = Some (Some a, c') \<Longrightarrow>
    cache_run capacity c' (add_mset a cl) ins"
| miss: "cache_run capacity c cl ins \<Longrightarrow> size cl < 2 ^ 31 \<Longrightarrow> LRUCache_Lookup key hash c = Some (None, c') \<Longrightarrow>
    cache_run capacity c' cl ins"
| release: "cache_run capacity c cl ins \<Longrightarrow> a \<in># cl \<Longrightarrow> LRUCache_Release a c = Some c' \<Longrightarrow> cache_run capacity c' (cl - {#a#}) ins"
| erase: "cache_run capacity c cl ins \<Longrightarrow> LRUCache_Erase key hash c = Some c' \<Longrightarrow> cache_run capacity c' cl ins"
| prune: "cache_run capacity c cl ins \<Longrightarrow> LRUCache_Prune c = Some c' \<Longrightarrow> cache_run capacity c' cl ins"

lemma Ref_capacity: "Ref a c = Some c' \<Longrightarrow> lc_capacity c' = lc_capacity c"
  by (auto simp: Ref_def Let_def set_handle_def LRU_Append_def LRU_Remove_def)

lemma run_state: "cache_run capacity c cl ins \<Longrightarrow> (\<exists>xs ys. lru_state c cl ins xs ys (cached c)) \<and> lc_capacity c = capacity"
proof (induction rule: cache_run.induct)
  case (start c)
  have "lru_state (SetCapacity capacity c) {#} {#} [] [] (cached (SetCapacity capacity c))"
    using LRUCache_new_state [of capacity] start by (metis option.inject)
  then show ?case by (auto simp: SetCapacity_def)
next
  case (insert c cl ins key hash v charge a c')
  then obtain xs ys where "lru_state c cl ins xs ys (cached c)" by blast
  from Insert_state [OF this insert.hyps(2) HOL.refl HOL.refl, of key hash v charge] show ?case
    using insert by (auto simp: inserted_def Let_def)
next
  case (hit c cl ins key hash a c')
  then obtain xs ys where "lru_state c cl ins xs ys (cached c)" by blast
  from Lookup_state [OF this hit.hyps(2), of key hash] show ?case
    using hit Ref_capacity by fastforce
next
  case (miss c cl ins key hash c')
  then obtain xs ys where s: "lru_state c cl ins xs ys (cached c)" by blast
  from Lookup_state [OF this miss.hyps(2), of key hash] show ?case using miss s by auto
next
  case (release c cl ins a c')
  then obtain xs ys where "lru_state c cl ins xs ys (cached c)" by blast
  from Release_state [OF this release.hyps(2)] obtain xs' ys' where "lru_state c' (cl - {#a#}) ins xs' ys' (cached c')"
    "lc_capacity c' = lc_capacity c" using release.hyps(3) by auto
  then show ?case using release.IH by auto
next
  case (erase c cl ins key hash c')
  then obtain xs ys where s: "lru_state c cl ins xs ys (cached c)" by blast
  from Erase_state [OF s, of key hash] show ?case using erase s by (auto simp: erased_def)
next
  case (prune c cl ins c')
  then obtain xs ys where s: "lru_state c cl ins xs ys (cached c)" by blast
  from Prune_state [OF s] show ?case using prune by (auto simp: erased_def)
qed

text \<open>The destructor, when no client holds a handle.\<close>

lemma destroy_loop_state:
  assumes "linked (lc_links c) (xs @ [lru_head])" "distinct xs" "lru_head \<notin> set xs"
    "\<forall>a \<in> set xs. \<exists>e. lc_heap c a = Some e \<and> hd_refs e = 1"
  shows "\<exists>c'. destroy_loop (hd (xs @ [lru_head])) c = Some c' \<and> lc_heap c' = (\<lambda>a. if a \<in> set xs then None else lc_heap c a) \<and>
    lc_deleted c' = lc_deleted c @ map (content_of c) xs"
  using assms
proof (induction xs arbitrary: c)
  case Nil
  then show ?case by (simp add: destroy_loop.simps)
next
  case (Cons a xs)
  obtain e where e: "lc_heap c a = Some e" "hd_refs e = 1" using Cons.prems(4) by auto
  have next_a: "ln_next (lc_links c) a = hd (xs @ [lru_head])" using Cons.prems(1) by (cases xs) simp_all
  define c1 where "c1 = c\<lparr>lc_heap := (lc_heap c)(a := None), lc_deleted := lc_deleted c @ [content_of c a]\<rparr>"
  have U: "Unref a (set_handle a (e\<lparr>hd_in_cache := False\<rparr>) c) = Some c1"
    using e by (simp add: Unref_def set_handle_def Let_def c1_def content_of_def)
  have "linked (lc_links c1) (xs @ [lru_head])" using Cons.prems(1) by (cases xs) (simp_all add: c1_def)
  moreover have "\<forall>b \<in> set xs. \<exists>e. lc_heap c1 b = Some e \<and> hd_refs e = 1" using Cons.prems(2,4) by (auto simp: c1_def)
  ultimately obtain c' where c': "destroy_loop (hd (xs @ [lru_head])) c1 = Some c'"
    "lc_heap c' = (\<lambda>b. if b \<in> set xs then None else lc_heap c1 b)" "lc_deleted c' = lc_deleted c1 @ map (content_of c1) xs"
    using Cons.IH [of c1] Cons.prems(2,3) by auto
  have "map (content_of c1) xs = map (content_of c) xs"
    by (rule map_cong) (use Cons.prems(2) in \<open>auto simp: content_of_def c1_def\<close>)
  moreover have "destroy_loop a c = Some c'"
    using Cons.prems(3) e(1) U c'(1) next_a by (subst destroy_loop.simps) (simp add: Let_def)
  ultimately show ?case using c'(2,3) by (auto simp: c1_def)
qed

lemma run_list:
  assumes "cache_run capacity c cl ins" "ring (lc_links c) lru_head xs"
  shows "\<exists>ys. lru_state c cl ins xs ys (cached c)"
proof -
  obtain xs' ys where s: "lru_state c cl ins xs' ys (cached c)" using run_state [OF assms(1)] by blast
  then show ?thesis using ring_unique [OF assms(2) lru_lists(1) [OF s]] by blast
qed

text \<open>A small run for the witnesses: one value is inserted into a new shard.\<close>

lemma demo_shard:
  "\<exists>c0 c :: nat LRUCache. LRUCache_new = Some c0 \<and> cache_run 10 (SetCapacity 10 c0) {#} {#} \<and>
    lc_next_addr (SetCapacity 10 c0) = 2 \<and> card (cached (SetCapacity 10 c0)) < 2 ^ 31 \<and> ring (lc_links (SetCapacity 10 c0)) lru_head [] \<and>
    LRUCache_Insert [1] 7 5 1 (SetCapacity 10 c0) = Some (2, c) \<and> cache_run 10 c {#2#} {#([1], 5)#} \<and>
    ring (lc_links c) lru_head [] \<and> 2 \<in> cached c"
proof -
  obtain c0 :: "nat LRUCache" where c0: "LRUCache_new = Some c0"
    "lru_state (SetCapacity 10 c0) {#} {#} [] [] (cached (SetCapacity 10 c0))" "lc_next_addr c0 = 2"
    using LRUCache_new_state by blast
  let ?c = "SetCapacity 10 c0"
  note L = lru_lists [OF c0(2)]
  have run: "cache_run 10 ?c {#} {#}" by (rule cache_run.start [OF c0(1)])
  have n: "lc_next_addr ?c = 2" "lc_capacity ?c = 10" using c0(3) by (simp_all add: SetCapacity_def)
  have "cached ?c = {}" using L(3) by (simp del: cached_iff)
  then have m: "card (cached ?c) < 2 ^ 31" by simp
  from Insert_state [OF c0(2) m HOL.refl HOL.refl, of "[1]" 7 5 1] obtain c where c: "LRUCache_Insert [1] 7 5 1 ?c = Some (2, c)"
    "lru_state c {#2#} {#([1], 5)#} [] [2] (cached c)" by (auto simp: n)
  have "2 \<in> cached c" using lru_lists(4) [OF c(2)] by (simp del: cached_iff) blast
  then show ?thesis using c0(1) run n(1) m L(1) c cache_run.insert [OF run m c(1)] lru_lists(1) [OF c(2)] by auto
qed

text \<open>Insertion and the lookup behind it.\<close>

lemma insert_then_lookup:
  assumes "cache_run capacity c cl ins" "ring (lc_links c) lru_head xs" "0 < capacity" "card (cached c) < 2 ^ 31" "size cl < 2 ^ 31 - 1"
  shows "\<exists>n old c' c''. LRUCache_Insert key hash v charge c = Some (lc_next_addr c, c') \<and>
    lc_heap c (lc_next_addr c) = None \<and> set old = {b \<in> cached c. is_entry (lc_heap c) key hash b} \<and> length old \<le> 1 \<and>
    inserted key hash v charge c cl old (filter (\<lambda>b. \<not> is_entry (lc_heap c) key hash b) xs) n c' \<and>
    ring (lc_links c') lru_head (drop n (filter (\<lambda>b. \<not> is_entry (lc_heap c) key hash b) xs)) \<and>
    LRUCache_Lookup key hash c' = Some (Some (lc_next_addr c), c'')"
proof -
  let ?E = "is_entry (lc_heap c) key hash" and ?a = "lc_next_addr c"
  obtain ys where s: "lru_state c cl ins xs ys (cached c)" using run_list [OF assms(1,2)] by blast
  have cap: "0 < lc_capacity c" using run_state [OF assms(1)] assms(3) by simp
  have E: "(\<lambda>b. 0 < lc_capacity c \<and> ?E b) = ?E" using cap by simp
  note L = lru_lists [OF s]
  let ?old = "filter ?E xs @ filter ?E ys"
  obtain n c' where c': "LRUCache_Insert key hash v charge c = Some (?a, c')"
    "lru_state c' (add_mset ?a cl) (add_mset (key, v) ins) (drop n (filter (\<lambda>b. \<not> ?E b) xs)) (filter (\<lambda>b. \<not> ?E b) ys @ [?a]) (cached c')"
    "inserted key hash v charge c cl ?old (filter (\<lambda>b. \<not> ?E b) xs) n c'"
    using Insert_state [OF s assms(4) HOL.refl HOL.refl, of key hash v charge] cap unfolding E by auto
  have un: "set xs \<union> set ys = cached c" unfolding L(3,4) by blast
  have old: "set ?old = {b \<in> cached c. ?E b}" unfolding set_append set_filter un [symmetric] by blast
  have "distinct ?old" using L(5-7) by auto
  moreover have "x = y" if "x \<in> set ?old" "y \<in> set ?old" for x y using is_entry_same [OF s] that unfolding old by blast
  ultimately have one: "length ?old \<le> 1" by (cases ?old; cases "tl ?old") fastforce+
  have fresh: "lc_heap c ?a = None" using lru_handle(2) [OF s] by (cases "lc_heap c ?a") auto
  have ac: "?a \<in> cached c'" using lru_lists(4) [OF c'(2)] by (metis (no_types, lifting) in_set_conv_decomp mem_Collect_eq)
  have "fixed_of c' ?a = Some (key, hash, v, charge)" using c'(3) by (simp add: inserted_def Let_def)
  then have ea: "is_entry (lc_heap c') key hash ?a" by (auto simp: fixed_of_def is_entry_def)
  have m: "size (add_mset ?a cl) < 2 ^ 31" using assms(5) by simp
  obtain c'' where "LRUCache_Lookup key hash c' = Some (Some ?a, c'')"
    using Lookup_state [OF c'(2) m, of key hash] ea ac is_entry_same [OF c'(2) _ ea _ ac] by metis
  then show ?thesis using c'(1,3) lru_lists(1) [OF c'(2)] fresh old one by blast
qed

subsection \<open>Properties\<close>



text \<open>
  C33: after an insertion into a cache that caches, a lookup of the key returns the new handle, with
  the value inserted. The entry of the same key has left the cache; besides it only the oldest
  entries of the list that no client holds are evicted, in order, none that the capacity leaves
  room for; and the usage is within the capacity unless all of them are gone.
\<close>

theorem lru_insert_lookup:
  assumes "cache_run capacity c cl ins" "ring (lc_links c) lru_head xs" "0 < capacity" "card (cached c) < 2 ^ 31" "size cl < 2 ^ 31 - 1"
  shows "\<exists>n old c' c''. LRUCache_Insert key hash v charge c = Some (lc_next_addr c, c') \<and>
    lc_heap c (lc_next_addr c) = None \<and> set old = {b \<in> cached c. is_entry (lc_heap c) key hash b} \<and> length old \<le> 1 \<and>
    inserted key hash v charge c cl old (filter (\<lambda>b. \<not> is_entry (lc_heap c) key hash b) xs) n c' \<and>
    ring (lc_links c') lru_head (drop n (filter (\<lambda>b. \<not> is_entry (lc_heap c) key hash b) xs)) \<and>
    LRUCache_Lookup key hash c' = Some (Some (lc_next_addr c), c'')"
  by (rule insert_then_lookup [OF assms])

theorem lru_insert_lookup_witness:
  "\<exists>(c0 :: nat LRUCache) c c'. LRUCache_new = Some c0 \<and> LRUCache_Insert [1] 7 5 1 (SetCapacity 10 c0) = Some (2, c) \<and>
    LRUCache_Lookup [1] 7 c = Some (Some 2, c')"
proof -
  obtain c0 :: "nat LRUCache" where c0: "LRUCache_new = Some c0" "cache_run 10 (SetCapacity 10 c0) {#} {#}"
    "lc_next_addr (SetCapacity 10 c0) = 2" "card (cached (SetCapacity 10 c0)) < 2 ^ 31" "ring (lc_links (SetCapacity 10 c0)) lru_head []"
    using demo_shard by blast
  have m: "(0 :: u64) < 10" "size {#} < (2 :: nat) ^ 31 - 1" by simp_all
  from lru_insert_lookup [OF c0(2,5) m(1) c0(4) m(2), of "[1]" 7 5 1] show ?thesis using c0(1,3) by auto
qed

text \<open>
  C34: what makes an entry new. A lookup that finds an entry nobody held takes it from the
  list of evictable ones, and its last release puts it back at the end, where it is evicted
  last; the last release of an entry that is no longer cached deletes it, and no other release deletes anything.
\<close>

theorem lru_order:
  assumes "cache_run capacity c cl ins" "ring (lc_links c) lru_head xs" "size cl < 2 ^ 31" "b \<in># cl"
  shows "(if \<exists>a \<in> cached c. is_entry (lc_heap c) key hash a
      then \<exists>a c'. a \<in> cached c \<and> is_entry (lc_heap c) key hash a \<and> LRUCache_Lookup key hash c = Some (Some a, c') \<and>
        ring (lc_links c') lru_head (remove1 a xs)
      else LRUCache_Lookup key hash c = Some (None, c)) \<and>
    (\<exists>c'. LRUCache_Release b c = Some c' \<and>
      ring (lc_links c') lru_head (if count cl b = 1 \<and> b \<in> cached c then xs @ [b] else xs) \<and>
      lc_deleted c' = lc_deleted c @ (if count cl b = 1 \<and> b \<notin> cached c then [content_of c b] else []))"
proof -
  obtain ys where s: "lru_state c cl ins xs ys (cached c)" using run_list [OF assms(1,2)] by blast
  obtain c' ys' where r: "LRUCache_Release b c = Some c'"
    "lru_state c' (cl - {#b#}) ins (if idle c cl b then xs @ [b] else xs) ys' (cached c')"
    "lc_deleted c' = lc_deleted c @ (if freed c cl b then [content_of c b] else [])"
    using Release_state [OF s assms(4)] by blast
  then have "\<exists>c'. LRUCache_Release b c = Some c' \<and>
      ring (lc_links c') lru_head (if count cl b = 1 \<and> b \<in> cached c then xs @ [b] else xs) \<and>
      lc_deleted c' = lc_deleted c @ (if count cl b = 1 \<and> b \<notin> cached c then [content_of c b] else [])"
    using lru_lists(1) [OF r(2)] unfolding idle_def freed_def by blast
  moreover consider a c' where "a \<in> cached c" "is_entry (lc_heap c) key hash a" "LRUCache_Lookup key hash c = Some (Some a, c')"
      "lru_state c' (add_mset a cl) ins (remove1 a xs) (if a \<in> set xs then ys @ [a] else ys) (cached c')"
    | "\<forall>a \<in> cached c. \<not> is_entry (lc_heap c) key hash a" "LRUCache_Lookup key hash c = Some (None, c)"
    using Lookup_state [OF s assms(3), of key hash] by blast
  then have "if \<exists>a \<in> cached c. is_entry (lc_heap c) key hash a
      then \<exists>a c'. a \<in> cached c \<and> is_entry (lc_heap c) key hash a \<and> LRUCache_Lookup key hash c = Some (Some a, c') \<and>
        ring (lc_links c') lru_head (remove1 a xs)
      else LRUCache_Lookup key hash c = Some (None, c)"
  proof cases
    case 1
    then show ?thesis using lru_lists(1) by auto
  next
    case 2
    then show ?thesis by auto
  qed
  ultimately show ?thesis by blast
qed

theorem lru_order_witness:
  "\<exists>(c :: nat LRUCache) c'. cache_run 10 c {#2#} {#([1], 5)#} \<and> LRUCache_Release 2 c = Some c' \<and>
    ring (lc_links c') lru_head [2] \<and> lc_deleted c' = lc_deleted c"
proof -
  obtain c :: "nat LRUCache" where c: "cache_run 10 c {#2#} {#([1], 5)#}" "ring (lc_links c) lru_head []" "2 \<in> cached c"
    using demo_shard by blast
  have m: "size {#2 :: nat#} < 2 ^ 31" "2 \<in># {#2 :: nat#}" by simp_all
  from lru_order [OF c(1,2) m, of "[1]" 7] show ?thesis using c(1,3) by (auto simp del: cached_iff)
qed

text \<open>
  C35: when every client has released its handles, the destructor returns with no
  handle left, and every value ever inserted has been given to its deleter exactly once.
\<close>

theorem lru_destroy_deletes_all:
  assumes "cache_run capacity c {#} ins"
  shows "\<exists>c'. LRUCache_destroy c = Some c' \<and> lc_heap c' = Map.empty \<and> mset (lc_deleted c') = ins"
proof -
  obtain xs ys where s: "lru_state c {#} ins xs ys (cached c)" using run_state [OF assms] by blast
  note L = lru_lists [OF s]
  have xc: "set xs = cached c" using L(3) by (simp del: cached_iff)
  have refs: "\<exists>e. lc_heap c a = Some e \<and> hd_refs e = 1" if "a \<in> set xs" for a
  proof -
    have "a \<in> cached c" using xc that by blast
    then obtain e where e: "lc_heap c a = Some e" "hd_in_cache e" by auto
    then have "unat (hd_refs e) = unat (1 :: u32)" using lru_handle(3) [OF s e(1)] by simp
    then show ?thesis using e(1) unsigned_word_eqI by blast
  qed
  have dom: "dom (lc_heap c) = set xs"
  proof -
    have "hd_in_cache e" if "lc_heap c a = Some e" for a e using lru_handle(3,4) [OF s that] by (cases "hd_in_cache e") simp_all
    then show ?thesis unfolding xc by auto
  qed
  have "linked (lc_links c) (xs @ [lru_head])" using L(1) by (cases xs) (simp_all add: ring_def)
  then obtain c' where c': "destroy_loop (hd (xs @ [lru_head])) c = Some c'"
    "lc_heap c' = (\<lambda>a. if a \<in> set xs then None else lc_heap c a)" "lc_deleted c' = lc_deleted c @ map (content_of c) xs"
    using destroy_loop_state [of c xs] L(6) refs by auto
  have first: "ln_next (lc_links c) lru_head = hd (xs @ [lru_head])" using ring_first [OF L(1)] by (cases xs) simp_all
  have "lc_heap c' = Map.empty" using dom unfolding c'(2) by (auto simp: fun_eq_iff)
  moreover have "mset (lc_deleted c') = ins"
  proof -
    have "mset_set (set xs) = mset xs" using L(6) by (simp add: mset_set_set)
    moreover have "ins = mset (lc_deleted c) + image_mset (content_of c) (mset_set (dom (lc_heap c)))"
      using s unfolding lru_state_def by blast
    ultimately show ?thesis by (simp add: c'(3) dom)
  qed
  ultimately show ?thesis using c'(1) first by (simp add: LRUCache_destroy_def)
qed

theorem lru_destroy_deletes_all_witness:
  "\<exists>(c :: nat LRUCache) c1 c2. cache_run 10 c {#2#} {#([1], 5)#} \<and> LRUCache_Release 2 c = Some c1 \<and>
    LRUCache_destroy c1 = Some c2 \<and> mset (lc_deleted c2) = {#([1], 5)#}"
proof -
  obtain c :: "nat LRUCache" where c: "cache_run 10 c {#2#} {#([1], 5)#}" using demo_shard by blast
  obtain xs ys where s: "lru_state c {#2#} {#([1], 5)#} xs ys (cached c)" using run_state [OF c] by blast
  obtain c1 where c1: "LRUCache_Release 2 c = Some c1" using Release_state [OF s] by auto
  have "cache_run 10 c1 {#} {#([1], 5)#}" using cache_run.release [OF c _ c1] by simp
  from lru_destroy_deletes_all [OF this] show ?thesis using c c1 by blast
qed

end
