(* ===== verification/ShardedCache.thy ===== *)
theory ShardedCache
  imports LruClients
begin

section \<open>The sharded cache (\<^verbatim>\<open>util/cache.cc\<close>)\<close>

text \<open>
  \<open>NewLRUCache\<close> makes sixteen shards and spreads the keys over them by the upper four bits of
  their hashes. The runs of all shards are composed here: every handle lies in the shard its hash
  names, which is where \<open>Release\<close> looks for it, so every operation of a client acts on one
  shard by an operation of that shard's own contract.
\<close>

lemma Shard_bound: "Shard hash < kNumShards"
proof -
  have "unat hash div 2 ^ 28 < 2 ^ 4" by (intro less_mult_imp_div_less) (use u32_less [of hash] in simp)
  then have "drop_bit 28 (unat hash) < 2 ^ 4" by (simp only: drop_bit_eq_div)
  moreover have "take_bit 32 (unat hash) = unat hash" by (rule take_bit_nat_eq_self [OF u32_less])
  ultimately show ?thesis by (simp add: Shard_def kNumShardBits_def kNumShards_def unsigned_drop_bit_eq)
qed

text \<open>All handles of a shard hash to it.\<close>

definition hashes_to :: "nat \<Rightarrow> 'v LRUCache \<Rightarrow> bool" where
  "hashes_to i c \<longleftrightarrow> (\<forall>a e. lc_heap c a = Some e \<longrightarrow> Shard (hd_hash e) = i)"

lemma hashes_to_fixed:
  assumes "hashes_to i c" "\<And>x. x \<in> dom (lc_heap c') \<Longrightarrow> fixed_of c' x = fixed_of c x \<or> fixed_of c' x = Some (k, h, v, q) \<and> Shard h = i"
  shows "hashes_to i c'"
  unfolding hashes_to_def
proof (intro allI impI)
  fix a e assume e: "lc_heap c' a = Some e"
  then consider "fixed_of c' a = fixed_of c a" | "fixed_of c' a = Some (k, h, v, q)" "Shard h = i" using assms(2) [of a] by auto
  then show "Shard (hd_hash e) = i"
  proof cases
    case 1
    then obtain e' where "lc_heap c a = Some e'" "hd_hash e' = hd_hash e" using e by (cases "lc_heap c a") (auto simp: fixed_of_def)
    then show ?thesis using assms(1) unfolding hashes_to_def by metis
  next
    case 2
    then show ?thesis using e by (simp add: fixed_of_def)
  qed
qed

text \<open>\<open>cl i\<close> are the clients' handles in shard \<open>i\<close>, \<open>ins i\<close> what was inserted there.\<close>

definition sharded_ok ::
    "u64 \<Rightarrow> 'v ShardedLRUCache \<Rightarrow> (nat \<Rightarrow> nat multiset) \<Rightarrow> (nat \<Rightarrow> (bytes \<times> 'v) multiset) \<Rightarrow> bool" where
  "sharded_ok capacity sc cl ins \<longleftrightarrow> length (sc_shard sc) = kNumShards \<and>
     (\<forall>i < kNumShards. cache_run capacity (sc_shard sc ! i) (cl i) (ins i) \<and> hashes_to i (sc_shard sc ! i))"

lemma sharded_update:
  assumes "sharded_ok capacity sc cl ins" "i < kNumShards" "cache_run capacity c cl' ins'" "hashes_to i c"
  shows "sharded_ok capacity (update_shard i c sc) (cl(i := cl')) (ins(i := ins'))"
  using assms by (auto simp: sharded_ok_def update_shard_def nth_list_update)

lemma sharded_new:
  "\<exists>sc :: 'v ShardedLRUCache. ShardedLRUCache_new capacity = Some sc \<and> sharded_ok ((capacity + 15) div 16) sc (\<lambda>_. {#}) (\<lambda>_. {#})"
proof -
  let ?q = "(capacity + 15) div 16 :: u64"
  obtain c :: "'v LRUCache" where c: "LRUCache_new = Some c"
    "lru_state (SetCapacity ?q c) {#} {#} [] [] (cached (SetCapacity ?q c))" using LRUCache_new_state by blast
  have run: "cache_run ?q (SetCapacity ?q c) {#} {#}" by (rule cache_run.start [OF c(1)])
  have "lc_heap (SetCapacity ?q c) a = None" for a
  proof (cases "lc_heap (SetCapacity ?q c) a")
    case (Some e)
    have "set [] = {a \<in> cached (SetCapacity ?q c). a \<notin># {#}}" by (rule lru_lists(3) [OF c(2)])
    then have "\<not> hd_in_cache e" using Some by auto
    then show ?thesis using lru_handle(3,4) [OF c(2) Some] by simp
  qed simp
  then have "hashes_to i (SetCapacity ?q c)" for i by (simp add: hashes_to_def)
  then have "sharded_ok ?q \<lparr>sc_shard = replicate kNumShards (SetCapacity ?q c), sc_last_id = 0\<rparr> (\<lambda>_. {#}) (\<lambda>_. {#})"
    using run by (simp add: sharded_ok_def)
  moreover have "ShardedLRUCache_new capacity = Some \<lparr>sc_shard = replicate kNumShards (SetCapacity ?q c), sc_last_id = 0\<rparr>"
    unfolding ShardedLRUCache_new_def c(1) by (simp add: kNumShards_def kNumShardBits_def)
  ultimately show ?thesis by blast
qed

text \<open>The operations.\<close>

lemma Sharded_Insert_ok:
  assumes "sharded_ok capacity sc cl ins" and i: "i = Shard (HashSlice key)" and n: "card (cached (sc_shard sc ! i)) < 2 ^ 31"
  shows "\<exists>a sc'. Sharded_Insert key v charge sc = Some ((i, a), sc') \<and>
    sharded_ok capacity sc' (cl(i := add_mset a (cl i))) (ins(i := add_mset (key, v) (ins i))) \<and> Sharded_Value (i, a) sc' = Some v"
proof -
  let ?c = "sc_shard sc ! i" and ?h = "HashSlice key"
  have b: "i < kNumShards" unfolding i by (rule Shard_bound)
  have run: "cache_run capacity ?c (cl i) (ins i)" "hashes_to i ?c" "length (sc_shard sc) = kNumShards"
    using assms(1) b by (simp_all add: sharded_ok_def)
  obtain xs ys where s: "lru_state ?c (cl i) (ins i) xs ys (cached ?c)" using run_state [OF run(1)] by blast
  from Insert_state [OF s n HOL.refl HOL.refl, of key ?h v charge] obtain a c' where c': "LRUCache_Insert key ?h v charge ?c = Some (a, c')"
    "fixed_of c' a = Some (key, ?h, v, charge)" "\<forall>x \<in> dom (lc_heap c') - {a}. fixed_of c' x = fixed_of ?c x"
    by (auto simp: inserted_def Let_def)
  have "hashes_to i c'" by (rule hashes_to_fixed [OF run(2)]) (use c'(2,3) i in blast)
  then have "sharded_ok capacity (update_shard i c' sc) (cl(i := add_mset a (cl i))) (ins(i := add_mset (key, v) (ins i)))"
    using sharded_update [OF assms(1) b cache_run.insert [OF run(1) n c'(1)]] by blast
  moreover have "Sharded_Insert key v charge sc = Some ((i, a), update_shard i c' sc)"
    using c'(1) i by (simp add: Sharded_Insert_def Let_def)
  moreover have "Sharded_Value (i, a) (update_shard i c' sc) = Some v"
    using c'(2) b run(3) by (auto simp: Sharded_Value_def sharded_handle_def update_shard_def fixed_of_def)
  ultimately show ?thesis by blast
qed

lemma Sharded_Release_ok:
  assumes "sharded_ok capacity sc cl ins" and i: "i < kNumShards" "a \<in># cl i"
  shows "\<exists>sc'. Sharded_Release (i, a) sc = Some sc' \<and> sharded_ok capacity sc' (cl(i := cl i - {#a#})) ins"
proof -
  let ?c = "sc_shard sc ! i"
  have run: "cache_run capacity ?c (cl i) (ins i)" "hashes_to i ?c" using assms(1) i(1) by (simp_all add: sharded_ok_def)
  obtain xs ys where s: "lru_state ?c (cl i) (ins i) xs ys (cached ?c)" using run_state [OF run(1)] by blast
  obtain e where e: "lc_heap ?c a = Some e" using s i(2) unfolding lru_state_def by blast
  have sh: "Shard (hd_hash e) = i" using run(2) e unfolding hashes_to_def by blast
  from Release_state [OF s i(2)] obtain c' where c': "LRUCache_Release a ?c = Some c'" "\<forall>x \<in> dom (lc_heap c'). fixed_of c' x = fixed_of ?c x"
    by blast
  have "hashes_to i c'" by (rule hashes_to_fixed [OF run(2)]) (use c'(2) in blast)
  then have "sharded_ok capacity (update_shard i c' sc) (cl(i := cl i - {#a#})) (ins(i := ins i))"
    using sharded_update [OF assms(1) i(1) cache_run.release [OF run(1) i(2) c'(1)]] by blast
  moreover have "Sharded_Release (i, a) sc = Some (update_shard i c' sc)"
    using e sh c'(1) by (simp add: Sharded_Release_def sharded_handle_def Let_def)
  ultimately show ?thesis by simp
qed

lemma Ref_fixed: "Ref a c = Some c' \<Longrightarrow> fixed_of c' = fixed_of c"
  by (auto simp: Ref_def Let_def set_handle_def LRU_Append_def LRU_Remove_def fixed_of_def fun_eq_iff)

lemma Sharded_Lookup_ok:
  assumes "sharded_ok capacity sc cl ins" and i: "i = Shard (HashSlice key)" and n: "size (cl i) < 2 ^ 31"
  shows "\<exists>p sc'. Sharded_Lookup key sc = Some (map_option (Pair i) p, sc') \<and>
    sharded_ok capacity sc' (cl(i := (case p of None \<Rightarrow> cl i | Some a \<Rightarrow> add_mset a (cl i)))) ins"
proof -
  let ?c = "sc_shard sc ! i" and ?h = "HashSlice key"
  have b: "i < kNumShards" unfolding i by (rule Shard_bound)
  have run: "cache_run capacity ?c (cl i) (ins i)" "hashes_to i ?c" using assms(1) b by (simp_all add: sharded_ok_def)
  obtain xs ys where s: "lru_state ?c (cl i) (ins i) xs ys (cached ?c)" using run_state [OF run(1)] by blast
  consider a c' where "LRUCache_Lookup key ?h ?c = Some (Some a, c')" "Ref a ?c = Some c'"
    | "LRUCache_Lookup key ?h ?c = Some (None, ?c)"
    using Lookup_state [OF s n, of key ?h] by blast
  then show ?thesis
  proof cases
    case (1 a c')
    have "hashes_to i c'" by (rule hashes_to_fixed [OF run(2)]) (use Ref_fixed [OF 1(2)] in simp)
    then have "sharded_ok capacity (update_shard i c' sc) (cl(i := add_mset a (cl i))) (ins(i := ins i))"
      using sharded_update [OF assms(1) b cache_run.hit [OF run(1) n 1(1)]] by blast
    moreover have "Sharded_Lookup key sc = Some (map_option (Pair i) (Some a), update_shard i c' sc)"
      using 1(1) i by (simp add: Sharded_Lookup_def Let_def)
    ultimately show ?thesis by (intro exI [of _ "Some a"]) auto
  next
    case 2
    have "sharded_ok capacity (update_shard i ?c sc) (cl(i := cl i)) (ins(i := ins i))"
      using sharded_update [OF assms(1) b run] by blast
    moreover have "Sharded_Lookup key sc = Some (map_option (Pair i) None, update_shard i ?c sc)"
      using 2 i by (simp add: Sharded_Lookup_def Let_def)
    ultimately show ?thesis by (intro exI [of _ None]) auto
  qed
qed

lemma Sharded_Erase_ok:
  assumes "sharded_ok capacity sc cl ins"
  shows "\<exists>sc'. Sharded_Erase key sc = Some sc' \<and> sharded_ok capacity sc' cl ins"
proof -
  define i where "i = Shard (HashSlice key)"
  let ?c = "sc_shard sc ! i" and ?h = "HashSlice key"
  have b: "i < kNumShards" unfolding i_def by (rule Shard_bound)
  have run: "cache_run capacity ?c (cl i) (ins i)" "hashes_to i ?c" using assms(1) b by (simp_all add: sharded_ok_def)
  obtain xs ys where s: "lru_state ?c (cl i) (ins i) xs ys (cached ?c)" using run_state [OF run(1)] by blast
  from Erase_state [OF s, of key ?h] obtain c' where c': "LRUCache_Erase key ?h ?c = Some c'" "\<forall>x \<in> dom (lc_heap c'). fixed_of c' x = fixed_of ?c x"
    by (auto simp: erased_def)
  have "hashes_to i c'" by (rule hashes_to_fixed [OF run(2)]) (use c'(2) in blast)
  then have "sharded_ok capacity (update_shard i c' sc) (cl(i := cl i)) (ins(i := ins i))"
    using sharded_update [OF assms(1) b cache_run.erase [OF run(1) c'(1)]] by blast
  moreover have "Sharded_Erase key sc = Some (update_shard i c' sc)" using c'(1) i_def by (simp add: Sharded_Erase_def Let_def)
  ultimately show ?thesis by simp
qed

lemma Sharded_Prune_ok:
  assumes "sharded_ok capacity sc cl ins"
  shows "\<exists>sc'. Sharded_Prune sc = Some sc' \<and> sharded_ok capacity sc' cl ins"
proof -
  let ?f = "\<lambda>i r. Option.bind r (\<lambda>sc. map_option (\<lambda>c. update_shard i c sc) (LRUCache_Prune (sc_shard sc ! i)))"
  have "\<exists>sc'. fold ?f [0..<n] (Some sc) = Some sc' \<and> sharded_ok capacity sc' cl ins" if "n \<le> kNumShards" for n
    using that
  proof (induction n)
    case 0
    then show ?case using assms by simp
  next
    case (Suc n)
    then obtain sc1 where sc1: "fold ?f [0..<n] (Some sc) = Some sc1" "sharded_ok capacity sc1 cl ins" by auto
    let ?c = "sc_shard sc1 ! n"
    have run: "cache_run capacity ?c (cl n) (ins n)" "hashes_to n ?c" using sc1(2) Suc.prems by (simp_all add: sharded_ok_def)
    obtain xs ys where s: "lru_state ?c (cl n) (ins n) xs ys (cached ?c)" using run_state [OF run(1)] by blast
    from Prune_state [OF s] obtain c' where c': "LRUCache_Prune ?c = Some c'" "\<forall>x \<in> dom (lc_heap c'). fixed_of c' x = fixed_of ?c x"
      unfolding erased_def by blast
    have "hashes_to n c'" by (rule hashes_to_fixed [OF run(2)]) (use c'(2) in blast)
    then have "sharded_ok capacity (update_shard n c' sc1) (cl(n := cl n)) (ins(n := ins n))"
      using sharded_update [OF sc1(2) Suc_le_lessD [OF Suc.prems] cache_run.prune [OF run(1) c'(1)]] by blast
    then show ?case using sc1(1) c'(1) by simp
  qed
  then show ?thesis unfolding Sharded_Prune_def by blast
qed

text \<open>A lookup after an insertion, through the shards, finds the value.\<close>

lemma Sharded_lookup_inserted:
  assumes "sharded_ok capacity sc cl ins" "0 < capacity" and i: "i = Shard (HashSlice key)"
    and n: "card (cached (sc_shard sc ! i)) < 2 ^ 31" "size (cl i) < 2 ^ 31 - 1"
  shows "\<exists>a sc' sc''. Sharded_Insert key v charge sc = Some ((i, a), sc') \<and> Sharded_Lookup key sc' = Some (Some (i, a), sc'')"
proof -
  let ?c = "sc_shard sc ! i" and ?h = "HashSlice key"
  have b: "i < kNumShards" unfolding i by (rule Shard_bound)
  have run: "cache_run capacity ?c (cl i) (ins i)" "length (sc_shard sc) = kNumShards" using assms(1) b by (simp_all add: sharded_ok_def)
  obtain xs ys where "lru_state ?c (cl i) (ins i) xs ys (cached ?c)" using run_state [OF run(1)] by blast
  from insert_then_lookup [OF run(1) lru_lists(1) [OF this] assms(2) n, of key ?h v charge] obtain c' c'' where
    c: "LRUCache_Insert key ?h v charge ?c = Some (lc_next_addr ?c, c')" "LRUCache_Lookup key ?h c' = Some (Some (lc_next_addr ?c), c'')" by blast
  then show ?thesis using b run(2) i
    by (simp add: Sharded_Insert_def Sharded_Lookup_def Let_def update_shard_def)
qed

end
