(* ===== verification/Spec2Isabelle.thy ===== *)
theory Spec2Isabelle
  imports WriteBatch VersionEdit TableRoundtrip DbView Compaction ManifestRecovery ShardedCache
begin

text \<open>
  Verification of the storage engine of the application: the LevelDB sources under
  \<^verbatim>\<open>src/macos/leveldb-library-src\<close>, a log-structured merge tree.

  \<^bold>\<open>The program.\<close> A write is a batch of puts and deletions; the batch is appended to a
  log file and inserted into a memtable, a skip list of internal keys (user key, sequence number,
  type). A full memtable becomes a table file: sorted blocks with an index, Bloom filters and a
  footer, each block with a checksum. The table files are arranged in seven levels; a version is an immutable
  choice of the files of each level, and a version edit, written to a descriptor log, leads from
  one version to the next. A read looks at the memtable and then through the levels of a version;
  scans merge iterators over all of them. Compactions merge files of one level into the next.

  \<^bold>\<open>Theories and sources\<close>, bottom up.
  \<^item> \<open>Prelude\<close>: bytes, fact collections, lemmas on lists and words.
  \<^item> \<open>Coding\<close> (\<^verbatim>\<open>util/coding.cc\<close>), \<open>Comparators\<close> (\<^verbatim>\<open>util/comparator.cc\<close>, slices),
    \<open>Bloom\<close> (\<^verbatim>\<open>util/hash.cc\<close>, \<^verbatim>\<open>util/bloom.cc\<close>), \<open>Crc32c\<close> (\<^verbatim>\<open>util/crc32c.cc\<close>), \<open>Status\<close>
    (\<^verbatim>\<open>util/status.cc\<close>), \<open>Filename\<close> (\<^verbatim>\<open>util/logging.cc\<close>, \<^verbatim>\<open>db/filename.cc\<close>), \<open>Dbformat\<close>
    (\<^verbatim>\<open>db/dbformat.cc\<close>): encodings with their round trips, the orders of keys, filters without
    false negatives, the table-driven checksum against its bitwise definition.
  \<^item> \<open>Files\<close>, \<open>StdMap\<close>, \<open>MemEnv\<close>, \<open>EnvUtil\<close> (\<^verbatim>\<open>include/leveldb/env.h\<close>, \<^verbatim>\<open>helpers/memenv\<close>,
    \<^verbatim>\<open>util/env.cc\<close>): files and environments as records of methods, the laws of files as locales, and
    the in-memory environment, which interprets them and refines a map from names to contents.
  \<^item> \<open>LogWriter\<close>, \<open>LogReader\<close>, \<open>LogProofs\<close>, \<open>LogRecovery\<close> (\<^verbatim>\<open>db/log_writer.cc\<close>,
    \<^verbatim>\<open>db/log_reader.cc\<close>): the record log and its recovery after a crash at any byte.
  \<^item> \<open>SkipList\<close>, \<open>MemTable\<close>, \<open>WriteBatch\<close> (\<^verbatim>\<open>db/skiplist.h\<close>, \<^verbatim>\<open>db/memtable.cc\<close>,
    \<^verbatim>\<open>db/write_batch.cc\<close>): nodes in a store addressed by numbers refine sorted lists, those refine
    the visibility of entries, and batches refine sequences of updates.
  \<^item> \<open>Format\<close>, \<open>Iterators\<close>, \<open>Block\<close>, \<open>Merger\<close>, \<open>TwoLevel\<close> (\<^verbatim>\<open>table/\<close>): block handles and footers,
    the iterator interface as a record of methods and its contract as the locale \<open>iterator\<close> (a
    position between the entries of a sorted sequence), and blocks, merging and two-level
    iterators, which interpret it or are proved inside it for any component iterators.
  \<^item> \<open>FilterBlock\<close>, \<open>TableBuilder\<close>, \<open>TableInvariant\<close>, \<open>TableFinish\<close>, \<open>Table\<close>, \<open>TableRoundtrip\<close>
    (\<^verbatim>\<open>table/filter_block.cc\<close>, \<^verbatim>\<open>table/table_builder.cc\<close>, \<^verbatim>\<open>table/table.cc\<close>): the table file as a
    whole. The locale \<open>table_build\<close> carries the builder's invariant over any writable file, \<open>table_layout\<close>
    is what \<open>Finish\<close> leaves behind, the locale \<open>table_reader\<close> opens it again over any random-access file,
    and the composition reads back exactly the entries that were added.
  \<^item> \<open>VersionEdit\<close> (\<^verbatim>\<open>db/version_edit.cc\<close>), \<open>VersionFiles\<close>, \<open>Versions\<close>, \<open>VersionBuilder\<close>,
    \<open>VersionRefs\<close>, \<open>VersionSteps\<close> (\<^verbatim>\<open>db/version_set.cc\<close>): sets of table files and their searches;
    lookups through the levels; the builder that applies edits; and the reference counts of
    versions and files, with the inductive relation \<open>vset_reach\<close> of the states a version set goes
    through. \<open>Manifest\<close> and \<open>ManifestRecovery\<close> are \<open>LogAndApply\<close> and \<open>Recover\<close>, with the invariant
    that the manifest describes the current version and its recovery from any surviving prefix.
    \<open>Compaction\<close> is the choice of the inputs of compactions and their closure.

  \<^item> \<open>DbIter\<close>, \<open>MemIterator\<close>, \<open>DbView\<close> (\<^verbatim>\<open>db/db_iter.cc\<close>): the iterator a user of the database
    sees. Inside the locale \<open>db_iter\<close> it keeps the iterator contract over the list \<open>user_view\<close>, whatever
    internal iterator it runs on; the memtable's iterator, proved to keep the contract, is one.
  \<^item> \<open>Ring\<close>, \<open>HandleTable\<close>, \<open>LruCache\<close>, \<open>LruInvariant\<close>, \<open>LruSafety\<close>, \<open>LruClients\<close>, \<open>ShardedCache\<close>
    (\<^verbatim>\<open>util/cache.cc\<close>): circular lists and hash chains over one heap of handles, the cache built on
    them, and the inductive relation \<open>cache_run\<close> of what a shard and its clients go through: no use of a freed
    handle, exact reference counts and charges, eviction in order of last use, and every value given to
    its deleter exactly once. The shards are composed by the hash of the keys.

  \<^bold>\<open>Conventions.\<close> A class is a record or an argument of its operations, a virtual interface a
  record of functions, a pointer to a shared object an address in a heap (a partial map), a
  \<open>Status\<close> the value the code returns. Machine integers are words of their width where
  arithmetic on them can wrap around; sizes of containers are natural numbers. An access outside
  a container where the code has no check is the value \<open>None\<close>. Assertions of the code are
  compiled out in release builds and are stated as lemmas or hypotheses instead. Recursions that
  follow a loop are structural or have a measure where the input bounds it. Loops that run over
  pointers, files or iterators are partial functions whose value \<open>None\<close> stands for an endless loop or an access
  the code must not make; the properties state the results as \<open>Some\<close>, so they include termination, and
  no fuel is needed.

  \<^bold>\<open>Bounds.\<close> Where the code counts in 32 bits the properties state the bound under which its counters
  do not wrap around: fewer than \<open>2 ^ 31\<close> records in a batch (the code counts them in an \<open>int\<close>), fewer than
  \<open>2 ^ 31\<close> entries in a shard of the cache and handles held by its clients, keys short enough for their
  32-bit length prefixes. The reference counts of versions and files are unbounded here; overflow
  of the code's would need \<open>2 ^ 31\<close> live references.

  \<^bold>\<open>Not modelled.\<close> The environments of the operating systems, threads and locks (the models
  are sequential and take the calls of one thread), the C binding, offline tools, tests and
  benchmarks. The database object with its background thread and write queue, the building of
  tables from memtables it does there, and the cache of open tables are not modelled: they are
  sequences of the operations modelled here, interleaved by condition variables. Tables are read
  without a block cache, and versions take the lookup of a table file as an argument.
\<close>

end
